(* ===== verification/Prelude.thy ===== *)
theory Prelude imports Main begin

text \<open>
  Shared vocabulary of the development.

  A Python method that mutates its receiver and may raise is an operation
  \<open>('a, 's) op\<close>: a function from a state to a result and a state.  The state is returned
  also when the result is an exception (\<open>Inl\<close>), because the mutations done before a
  \<open>raise\<close> stay in place.  \<open>bnd\<close>/\<open>thn\<close> are sequencing, \<open>chk\<close> is
  "raise unless", \<open>each\<close> is a \<open>for\<close> loop, \<open>catch\<close> is \<open>try/except\<close> and \<open>zoom\<close>
  runs an operation of a component inside the record of its owner.

  \<open>wp m Q E s\<close> says that running \<open>m\<close> in \<open>s\<close> ends either normally with a value and
  a state satisfying \<open>Q\<close> or with an exception and a state satisfying \<open>E\<close>.  The rules
  collected in \<open>wp_simps\<close> compute it along the structure of an operation.
\<close>

section \<open>Exceptions and stateful operations\<close>

datatype py_error =
    TypeError | ValueError | IndexError | KeyError | RuntimeError | OverflowError
  | NotImplementedError | ZeroDivisionError | AttributeError

type_synonym ('a, 's) op = "'s \<Rightarrow> (py_error + 'a) \<times> 's"

definition ret :: "'a \<Rightarrow> ('a, 's) op" where
  "ret x = (\<lambda>s. (Inr x, s))"

definition throw :: "py_error \<Rightarrow> ('a, 's) op" where
  "throw e = (\<lambda>s. (Inl e, s))"

definition bnd :: "('a, 's) op \<Rightarrow> ('a \<Rightarrow> ('b, 's) op) \<Rightarrow> ('b, 's) op" where
  "bnd m f = (\<lambda>s. case m s of (Inl e, t) \<Rightarrow> (Inl e, t) | (Inr x, t) \<Rightarrow> f x t)"

definition thn :: "('a, 's) op \<Rightarrow> ('b, 's) op \<Rightarrow> ('b, 's) op" where
  "thn m n = bnd m (\<lambda>_. n)"

definition gets :: "('s \<Rightarrow> 'a) \<Rightarrow> ('a, 's) op" where
  "gets f = (\<lambda>s. (Inr (f s), s))"

definition upd :: "('s \<Rightarrow> 's) \<Rightarrow> (unit, 's) op" where
  "upd f = (\<lambda>s. (Inr (), f s))"

definition chk :: "py_error \<Rightarrow> bool \<Rightarrow> (unit, 's) op" where
  "chk e b = (if b then ret () else throw e)"

definition lift_res :: "py_error + 'a \<Rightarrow> ('a, 's) op" where
  "lift_res r = (\<lambda>s. (r, s))"

definition catch :: "('a, 's) op \<Rightarrow> (py_error \<Rightarrow> ('a, 's) op) \<Rightarrow> ('a, 's) op" where
  "catch m h = (\<lambda>s. case m s of (Inl e, t) \<Rightarrow> h e t | (Inr x, t) \<Rightarrow> (Inr x, t))"

definition zoom :: "('s \<Rightarrow> 't) \<Rightarrow> ('t \<Rightarrow> 's \<Rightarrow> 's) \<Rightarrow> ('a, 't) op \<Rightarrow> ('a, 's) op" where
  "zoom g p m = (\<lambda>s. case m (g s) of (r, t) \<Rightarrow> (r, p t s))"

fun each :: "'x list \<Rightarrow> ('x \<Rightarrow> (unit, 's) op) \<Rightarrow> (unit, 's) op" where
  "each [] f = ret ()"
| "each (x # xs) f = thn (f x) (each xs f)"

fun collect :: "'x list \<Rightarrow> ('x \<Rightarrow> ('a, 's) op) \<Rightarrow> ('a list, 's) op" where
  "collect [] f = ret []"
| "collect (x # xs) f = bnd (f x) (\<lambda>a. bnd (collect xs f) (\<lambda>as. ret (a # as)))"

definition bind_res :: "py_error + 'a \<Rightarrow> ('a \<Rightarrow> py_error + 'b) \<Rightarrow> py_error + 'b" where
  "bind_res r f = (case r of Inl e \<Rightarrow> Inl e | Inr x \<Rightarrow> f x)"

definition need :: "py_error \<Rightarrow> bool \<Rightarrow> py_error + 'b \<Rightarrow> py_error + 'b" where
  "need e b r = (if b then r else Inl e)"

definition is_ok :: "'e + 'a \<Rightarrow> bool" where
  "is_ok r = (case r of Inl _ \<Rightarrow> False | Inr _ \<Rightarrow> True)"

named_theorems res_simps \<open>when a computation that may raise returns a value\<close>

lemma bind_res_simps [simp]: "bind_res (Inl e) f = Inl e" "bind_res (Inr x) f = f x"
  by (simp_all add: bind_res_def)

lemma bind_res_ok [res_simps]: "bind_res r f = Inr y \<longleftrightarrow> (\<exists>x. r = Inr x \<and> f x = Inr y)"
  by (cases r) simp_all

lemma need_ok [res_simps]: "need e b r = Inr y \<longleftrightarrow> b \<and> r = Inr y"
  by (simp add: need_def)

lemma need_True [simp]: "need e True r = r" and need_False [simp]: "need e False r = Inl e"
  by (simp_all add: need_def)

fun map_res :: "('a \<Rightarrow> py_error + 'b) \<Rightarrow> 'a list \<Rightarrow> py_error + 'b list" where
  "map_res f [] = Inr []"
| "map_res f (x # xs) = bind_res (f x) (\<lambda>y. bind_res (map_res f xs) (\<lambda>ys. Inr (y # ys)))"

lemma map_res_ok: "map_res f xs = Inr ys \<longleftrightarrow> list_all2 (\<lambda>x y. f x = Inr y) xs ys"
  by (induction xs arbitrary: ys) (auto simp: res_simps list_all2_Cons1)

lemma map_res_cong: "(\<And>x. x \<in> set xs \<Longrightarrow> f x = g x) \<Longrightarrow> map_res f xs = map_res g xs"
  by (induction xs) simp_all

lemma is_ok_iff: "is_ok r \<longleftrightarrow> (\<exists>x. r = Inr x)"
  by (cases r) (simp_all add: is_ok_def)

section \<open>Weakest preconditions\<close>

named_theorems wp_simps \<open>rules that compute the weakest precondition of an operation\<close>

definition wp :: "('a, 's) op \<Rightarrow> ('a \<Rightarrow> 's \<Rightarrow> bool) \<Rightarrow> (py_error \<Rightarrow> 's \<Rightarrow> bool) \<Rightarrow> 's \<Rightarrow> bool" where
  "wp m Q E s = (case m s of (Inl e, t) \<Rightarrow> E e t | (Inr x, t) \<Rightarrow> Q x t)"

lemma wp_ret [wp_simps]: "wp (ret x) Q E s = Q x s"
  by (simp add: wp_def ret_def)

lemma wp_ret_eta [wp_simps]: "wp (ret x) Q E = Q x"
  by (simp add: wp_ret fun_eq_iff)

lemma wp_eta [wp_simps]:
  "wp (throw e) Q1 E1 = E1 e" "wp (bnd m f) Q2 E2 = wp m (\<lambda>x. wp (f x) Q2 E2) E2"
  "wp (thn m' n) Q3 E3 = wp m' (\<lambda>_. wp n Q3 E3) E3" "wp (gets g) Q4 E4 = (\<lambda>s. Q4 (g s) s)"
  "wp (upd h) Q5 E5 = (\<lambda>s. Q5 () (h s))"
  by (auto simp: fun_eq_iff wp_def throw_def bnd_def thn_def gets_def upd_def split: prod.splits sum.splits)

lemma wp_throw [wp_simps]: "wp (throw e) Q E s = E e s"
  by (simp add: wp_def throw_def)

lemma wp_bnd [wp_simps]: "wp (bnd m f) Q E s = wp m (\<lambda>x. wp (f x) Q E) E s"
  by (auto simp: wp_def bnd_def split: prod.splits sum.splits)

lemma wp_thn [wp_simps]: "wp (thn m n) Q E s = wp m (\<lambda>_. wp n Q E) E s"
  by (simp add: thn_def wp_bnd)

lemma wp_gets [wp_simps]: "wp (gets f) Q E s = Q (f s) s"
  by (simp add: wp_def gets_def)

lemma wp_upd [wp_simps]: "wp (upd f) Q E s = Q () (f s)"
  by (simp add: wp_def upd_def)

lemma wp_chk [wp_simps]: "wp (chk e b) Q E s = (if b then Q () s else E e s)"
  by (simp add: chk_def wp_ret wp_throw)

lemma wp_lift_res [wp_simps]:
  "wp (lift_res r) Q E s = (case r of Inl e \<Rightarrow> E e s | Inr x \<Rightarrow> Q x s)"
  by (simp add: wp_def lift_res_def split: sum.splits)

lemma wp_catch [wp_simps]: "wp (catch m h) Q E s = wp m Q (\<lambda>e. wp (h e) Q E) s"
  by (auto simp: wp_def catch_def split: prod.splits sum.splits)

lemma wp_zoom [wp_simps]:
  "wp (zoom g p m) Q E s = wp m (\<lambda>x t. Q x (p t s)) (\<lambda>e t. E e (p t s)) (g s)"
  by (auto simp: wp_def zoom_def split: prod.splits sum.splits)

lemma wp_if [wp_simps]:
  "wp (if b then m else n) Q E s = (if b then wp m Q E s else wp n Q E s)"
  by simp

lemma wp_case_option [wp_simps]:
  "wp (case x of None \<Rightarrow> m | Some y \<Rightarrow> f y) Q E s =
     (case x of None \<Rightarrow> wp m Q E s | Some y \<Rightarrow> wp (f y) Q E s)"
  by (simp split: option.splits)

lemma wp_case_prod [wp_simps]:
  "wp (case x of (a, b) \<Rightarrow> f a b) Q E s = (case x of (a, b) \<Rightarrow> wp (f a b) Q E s)"
  by (simp split: prod.splits)

lemma wp_each_Nil [wp_simps]: "wp (each [] f) Q E s = Q () s"
  by (simp add: wp_ret)

lemma wp_each_Cons [wp_simps]:
  "wp (each (x # xs) f) Q E s = wp (f x) (\<lambda>_. wp (each xs f) Q E) E s"
  by (simp add: wp_thn)

lemma wp_mono:
  assumes "wp m Q E s" and "\<And>x t. Q x t \<Longrightarrow> Q' x t" and "\<And>e t. E e t \<Longrightarrow> E' e t"
  shows "wp m Q' E' s"
  using assms by (auto simp: wp_def split: prod.splits sum.splits)

lemma wp_conj:
  assumes "wp m Q E s" and "wp m Q' E' s"
  shows "wp m (\<lambda>x t. Q x t \<and> Q' x t) (\<lambda>e t. E e t \<and> E' e t) s"
  using assms by (auto simp: wp_def split: prod.splits sum.splits)

lemma wp_run:
  "wp m Q E s \<longleftrightarrow> (\<forall>r t. m s = (r, t) \<longrightarrow> (case r of Inl e \<Rightarrow> E e t | Inr x \<Rightarrow> Q x t))"
  by (auto simp: wp_def split: prod.splits sum.splits)

lemma wp_okD: "wp m Q E s \<Longrightarrow> m s = (Inr x, t) \<Longrightarrow> Q x t"
  by (simp add: wp_def)

lemma wp_errD: "wp m Q E s \<Longrightarrow> m s = (Inl e, t) \<Longrightarrow> E e t"
  by (simp add: wp_def)

lemma wp_total:
  "wp m Q (\<lambda>_ _. False) s \<longleftrightarrow> (\<exists>x t. m s = (Inr x, t) \<and> Q x t)"
  by (auto simp: wp_def split: prod.splits sum.splits)

lemma wp_always:
  "wp m (\<lambda>_. I) (\<lambda>_. I) s \<longleftrightarrow> I (snd (m s))"
  by (auto simp: wp_def split: prod.splits sum.splits)

lemma wp_each_inv:
  assumes "I s" and "\<And>x t. x \<in> set xs \<Longrightarrow> I t \<Longrightarrow> wp (f x) (\<lambda>_. I) E t"
  shows "wp (each xs f) (\<lambda>_. I) E s"
  using assms
proof (induction xs arbitrary: s)
  case Nil
  then show ?case by (simp add: wp_ret)
next
  case (Cons x xs)
  have 1: "wp (f x) (\<lambda>_. I) E s" using Cons.prems by simp
  have 2: "wp (each xs f) (\<lambda>_. I) E t" if "I t" for t
    using that Cons.prems(2) by (intro Cons.IH) simp_all
  show ?case unfolding wp_each_Cons by (rule wp_mono [OF 1]) (use 2 in auto)
qed

text \<open>The loop rule with an invariant indexed by the part of the list already done.\<close>

lemma wp_each_prefix:
  assumes "I done s"
    and "\<And>pre x post t. xs = pre @ x # post \<Longrightarrow> I (done @ pre) t \<Longrightarrow>
           wp (f x) (\<lambda>_. I (done @ pre @ [x])) E t"
  shows "wp (each xs f) (\<lambda>_. I (done @ xs)) E s"
  using assms
proof (induction xs arbitrary: s "done")
  case Nil
  then show ?case by (simp add: wp_ret)
next
  case (Cons x xs)
  have 1: "wp (f x) (\<lambda>_. I (done @ [x])) E s"
    using Cons.prems(2)[of "[]" x xs s] Cons.prems(1) by simp
  have 2: "wp (each xs f) (\<lambda>_. I ((done @ [x]) @ xs)) E t" if "I (done @ [x]) t" for t
  proof (rule Cons.IH [OF that])
    fix pre y post u
    assume "xs = pre @ y # post" and "I ((done @ [x]) @ pre) u"
    then show "wp (f y) (\<lambda>_. I ((done @ [x]) @ pre @ [y])) E u"
      using Cons.prems(2)[of "x # pre" y post u] by simp
  qed
  show ?case unfolding wp_each_Cons by (rule wp_mono [OF 1]) (use 2 in auto)
qed

section \<open>Lists, maps and rounding\<close>

definition ceil_div :: "nat \<Rightarrow> nat \<Rightarrow> nat" where
  "ceil_div n b = (n + b - 1) div b"

lemma ceil_div_bounds:
  assumes "0 < b"
  shows "n \<le> ceil_div n b * b" and "ceil_div n b * b < n + b"
proof -
  have eq: "(n + b - 1) div b * b + (n + b - 1) mod b = n + b - 1" by simp
  have lt: "(n + b - 1) mod b < b" using assms by simp
  show "n \<le> ceil_div n b * b" using eq lt assms unfolding ceil_div_def by linarith
  show "ceil_div n b * b < n + b" using eq lt assms unfolding ceil_div_def by linarith
qed

lemma ceil_div_mono: "m \<le> n \<Longrightarrow> ceil_div m b \<le> ceil_div n b"
  unfolding ceil_div_def by (rule div_le_mono) simp

lemma ceil_div_le_iff: "0 < b \<Longrightarrow> ceil_div n b \<le> k \<longleftrightarrow> n \<le> k * b"
proof
  assume "0 < b" and "ceil_div n b \<le> k"
  then show "n \<le> k * b"
    using ceil_div_bounds(1)[of b n] mult_le_mono1[of "ceil_div n b" k b] by linarith
next
  assume b: "0 < b" and "n \<le> k * b"
  then have "ceil_div n b * b < (k + 1) * b"
    using ceil_div_bounds(2)[OF b, of n] by simp
  then have "ceil_div n b < k + 1" using mult_less_cancel2 by blast
  then show "ceil_div n b \<le> k" by simp
qed

lemma ceil_div_0 [simp]: "0 < b \<Longrightarrow> ceil_div 0 b = 0"
  by (simp add: ceil_div_def)

lemma less_ceil_div_iff: "0 < b \<Longrightarrow> i < ceil_div n b \<longleftrightarrow> i * b < n"
  using ceil_div_le_iff[of b n i] by linarith

text \<open>Python's \<open>OrderedDict\<close> used as an ordered set of keys.\<close>

definition od_set :: "'a \<Rightarrow> 'a list \<Rightarrow> 'a list" where
  "od_set x xs = (if x \<in> set xs then xs else xs @ [x])"

lemma set_od_set [simp]: "set (od_set x xs) = insert x (set xs)"
  by (auto simp: od_set_def)

lemma distinct_od_set [simp]: "distinct (od_set x xs) = distinct xs"
  by (auto simp: od_set_def)

lemma count_list_remove1:
  "x \<in> set xs \<Longrightarrow> count_list (remove1 x xs) y = count_list xs y - (if x = y then 1 else 0)"
  by (induction xs) (auto simp: count_list_0_iff)

lemma count_list_distinct: "distinct xs \<Longrightarrow> count_list xs x = (if x \<in> set xs then 1 else 0)"
  by (induction xs) auto

lemma count_list_append_simp [simp]: "count_list (xs @ ys) x = count_list xs x + count_list ys x"
  by (induction xs) auto

lemma count_list_rev_simp [simp]: "count_list (rev xs) x = count_list xs x"
  by (induction xs) auto

lemma count_list_pos_iff: "0 < count_list xs x \<longleftrightarrow> x \<in> set xs"
  using count_list_0_iff[of xs x] by auto

lemma map_upd_idem_simp: "m k = Some v \<Longrightarrow> m(k \<mapsto> v) = m"
  by (auto simp: fun_eq_iff)

end
