(* ===== verification/Py_Values.thy ===== *)
theory Py_Values imports Complex_Main Prelude begin

text \<open>
  Python dictionaries as association lists in insertion order, compared the way \<open>==\<close>
  compares them (same keys, same values, order ignored), and the small universe of values
  that the engine stores in its free-form \<open>dict[str, object]\<close> records (compression and
  pruning decision records).
\<close>

section \<open>Dictionaries\<close>

type_synonym ('k, 'v) dict = "('k \<times> 'v) list"

definition dict_get :: "('k, 'v) dict \<Rightarrow> 'k \<Rightarrow> 'v option" where
  "dict_get d k = map_of d k"

fun dict_set :: "('k, 'v) dict \<Rightarrow> 'k \<Rightarrow> 'v \<Rightarrow> ('k, 'v) dict" where
  "dict_set [] k v = [(k, v)]"
| "dict_set ((k', v') # d) k v = (if k' = k then (k, v) # d else (k', v') # dict_set d k v)"

fun dict_update :: "('k, 'v) dict \<Rightarrow> ('k, 'v) dict \<Rightarrow> ('k, 'v) dict" where
  "dict_update d [] = d"
| "dict_update d ((k, v) # us) = dict_update (dict_set d k v) us"

definition dict_eq :: "('k, 'v) dict \<Rightarrow> ('k, 'v) dict \<Rightarrow> bool" where
  "dict_eq a b = (list_all (\<lambda>k. map_of a k = map_of b k) (map fst a) \<and>
                  list_all (\<lambda>k. map_of a k = map_of b k) (map fst b))"

fun opt_dict_eq :: "('k, 'v) dict option \<Rightarrow> ('k, 'v) dict option \<Rightarrow> bool" where
  "opt_dict_eq None None = True"
| "opt_dict_eq (Some a) (Some b) = dict_eq a b"
| "opt_dict_eq _ _ = False"

lemma dict_get_Nil [simp]: "dict_get [] = Map.empty"
  by (simp add: fun_eq_iff dict_get_def)

lemma dict_get_set [simp]: "dict_get (dict_set d k v) = (dict_get d)(k \<mapsto> v)"
  unfolding dict_get_def by (induction d k v rule: dict_set.induct) (auto simp: fun_eq_iff)

lemma dict_get_update: "dict_get (dict_update d us) = dict_get d ++ map_of (rev us)"
  by (induction d us rule: dict_update.induct) (auto simp: map_add_def fun_eq_iff split: option.splits)

lemma dict_eq_iff: "dict_eq a b \<longleftrightarrow> map_of a = map_of b"
proof
  assume eq: "dict_eq a b"
  show "map_of a = map_of b"
  proof
    fix k
    show "map_of a k = map_of b k"
    proof (cases "k \<in> fst ` set a \<or> k \<in> fst ` set b")
      case True
      then show ?thesis using eq by (auto simp: dict_eq_def list_all_iff)
    next
      case False
      then have "map_of a k = None" and "map_of b k = None"
        by (simp_all add: map_of_eq_None_iff)
      then show ?thesis by simp
    qed
  qed
qed (simp add: dict_eq_def list_all_iff)

lemma dict_eq_refl [simp]: "dict_eq a a"
  by (simp add: dict_eq_iff)

lemma opt_dict_eq_iff: "opt_dict_eq a b \<longleftrightarrow> map_option map_of a = map_option map_of b"
  by (cases a; cases b) (auto simp: dict_eq_iff)

lemma opt_dict_eq_refl [simp]: "opt_dict_eq a a"
  by (simp add: opt_dict_eq_iff)

section \<open>Record values\<close>

datatype pyval =
    PBool bool
  | PInt int
  | PStr string
  | PFloat rat
  | PList "pyval list"
  | PDict "(string \<times> pyval) list"

type_synonym py_record = "(string, pyval) dict"

text \<open>\<open>bool(x)\<close> and \<open>int(x)\<close> on record values; \<open>int\<close> truncates a float towards zero.\<close>

fun truthy :: "pyval \<Rightarrow> bool" where
  "truthy (PBool b) = b"
| "truthy (PInt i) = (i \<noteq> 0)"
| "truthy (PStr s) = (s \<noteq> [])"
| "truthy (PFloat x) = (x \<noteq> 0)"
| "truthy (PList xs) = (xs \<noteq> [])"
| "truthy (PDict d) = (d \<noteq> [])"

fun to_int :: "pyval \<Rightarrow> py_error + int" where
  "to_int (PBool b) = Inr (if b then 1 else 0)"
| "to_int (PInt i) = Inr i"
| "to_int (PFloat x) = Inr (if 0 \<le> x then \<lfloor>x\<rfloor> else \<lceil>x\<rceil>)"
| "to_int (PStr s) = Inl ValueError"
| "to_int (PList xs) = Inl TypeError"
| "to_int (PDict d) = Inl TypeError"

definition get_flag :: "py_record \<Rightarrow> string \<Rightarrow> bool" where
  "get_flag d k = (case dict_get d k of None \<Rightarrow> False | Some v \<Rightarrow> truthy v)"

definition PInts :: "nat list \<Rightarrow> pyval" where
  "PInts xs = PList (map (\<lambda>n. PInt (int n)) xs)"

text \<open>Reading a list of values as integers stops at the first one that has none.\<close>

fun ints_of :: "pyval list \<Rightarrow> py_error + int list" where
  "ints_of [] = Inr []"
| "ints_of (v # vs) = bind_res (to_int v) (\<lambda>i. bind_res (ints_of vs) (\<lambda>is. Inr (i # is)))"

lemma ints_of_map_PInt [simp]: "ints_of (map (\<lambda>n. PInt (f n)) xs) = Inr (map f xs)"
  by (induction xs) (auto simp: bind_res_def)

end
