(* ===== verification/Transition.thy ===== *)
theory Transition imports Prelude begin

text \<open>
  Interfaces that several components share: a state machine with an invariant
  (\<open>invariant_system\<close>: what is proved of one step holds in every reachable state), and a
  fixed-capacity page allocator (\<open>page_allocator\<close>: the contract of \<open>allocate_many\<close> that
  the swap paths of the block manager rely on, for the GPU as for the CPU pool).
\<close>

section \<open>State machines\<close>

inductive reach :: "('s \<Rightarrow> bool) \<Rightarrow> ('s \<Rightarrow> 'l \<Rightarrow> 's \<Rightarrow> bool) \<Rightarrow> 's \<Rightarrow> bool"
  for init :: "'s \<Rightarrow> bool" and step :: "'s \<Rightarrow> 'l \<Rightarrow> 's \<Rightarrow> bool" where
  reach_init: "init s \<Longrightarrow> reach init step s"
| reach_step: "reach init step s \<Longrightarrow> step s l t \<Longrightarrow> reach init step t"

inductive run :: "('s \<Rightarrow> 'l \<Rightarrow> 's \<Rightarrow> bool) \<Rightarrow> 's \<Rightarrow> 'l list \<Rightarrow> 's \<Rightarrow> bool"
  for step :: "'s \<Rightarrow> 'l \<Rightarrow> 's \<Rightarrow> bool" where
  run_Nil: "run step s [] s"
| run_Cons: "step s l t \<Longrightarrow> run step t ls u \<Longrightarrow> run step s (l # ls) u"

inductive_simps run_Nil_iff [simp]: "run step s [] t"
inductive_simps run_Cons_iff: "run step s (l # ls) u"

locale invariant_system =
  fixes init :: "'s \<Rightarrow> bool" and step :: "'s \<Rightarrow> 'l \<Rightarrow> 's \<Rightarrow> bool" and inv :: "'s \<Rightarrow> bool"
  assumes init_inv: "init s \<Longrightarrow> inv s"
    and step_inv: "inv s \<Longrightarrow> step s l t \<Longrightarrow> inv t"
begin

lemma reach_inv: "reach init step s \<Longrightarrow> inv s"
  by (induction rule: reach.induct) (auto intro: init_inv step_inv)

lemma run_inv: "run step s ls t \<Longrightarrow> inv s \<Longrightarrow> inv t"
  by (induction rule: run.induct) (auto intro: step_inv)

lemma run_reach: "run step s ls t \<Longrightarrow> reach init step s \<Longrightarrow> reach init step t"
  by (induction rule: run.induct) (auto intro: reach.intros)

end

text \<open>
  A machine with a value that its steps never change (a capacity, a configuration flag).
\<close>

locale constant_system = invariant_system +
  fixes const :: "'a \<Rightarrow> 'c"
  assumes step_const: "inv s \<Longrightarrow> step s l t \<Longrightarrow> const t = const s"
begin

lemma run_const: "run step s ls t \<Longrightarrow> inv s \<Longrightarrow> const t = const s"
proof (induction rule: run.induct)
  case (run_Cons s l t ls u)
  then show ?case using step_const[of s l t] step_inv[of s l t] by simp
qed simp

end

section \<open>Page allocators\<close>

locale page_allocator =
  fixes inv :: "'p \<Rightarrow> bool" and avail :: "'p \<Rightarrow> nat set" and capacity :: "'p \<Rightarrow> nat"
    and alloc :: "nat \<Rightarrow> (nat list, 'p) op"
  assumes avail_bound: "inv p \<Longrightarrow> avail p \<subseteq> {..<capacity p}"
    and alloc_ok: "inv p \<Longrightarrow> n \<le> card (avail p) \<Longrightarrow>
      wp (alloc n) (\<lambda>is t. inv t \<and> capacity t = capacity p \<and> length is = n \<and> distinct is \<and>
                          set is \<subseteq> avail p \<and> avail t = avail p - set is) (\<lambda>_ _. False) p"
    and alloc_full: "inv p \<Longrightarrow> card (avail p) < n \<Longrightarrow>
      wp (alloc n) (\<lambda>_ _. False) (\<lambda>e t. e = RuntimeError \<and> t = p) p"
begin

lemma alloc_iff:
  assumes "inv p"
  shows "is_ok (fst (alloc n p)) \<longleftrightarrow> n \<le> card (avail p)"
proof (cases "n \<le> card (avail p)")
  case True
  then show ?thesis using alloc_ok[OF assms True] by (auto simp: wp_total is_ok_def)
next
  case False
  then have "wp (alloc n) (\<lambda>_ _. False) (\<lambda>e t. e = RuntimeError \<and> t = p) p"
    by (intro alloc_full assms) simp
  then show ?thesis using False by (auto simp: wp_def is_ok_def split: prod.splits sum.splits)
qed

lemma alloc_result:
  assumes "inv p" and "alloc n p = (Inr is, t)"
  shows "inv t" and "length is = n" and "distinct is" and "set is \<subseteq> avail p"
    and "avail t = avail p - set is" and "card (avail t) + n = card (avail p)"
proof -
  have n: "n \<le> card (avail p)" using alloc_iff[OF assms(1), of n] assms(2) by (simp add: is_ok_def)
  note R = wp_okD[OF alloc_ok[OF assms(1) n] assms(2)]
  show "inv t" "length is = n" "distinct is" "set is \<subseteq> avail p" "avail t = avail p - set is"
    using R by auto
  have fin: "finite (avail p)" using avail_bound[OF assms(1)] finite_subset by blast
  have "card (avail p - set is) = card (avail p) - card (set is)"
    using R by (intro card_Diff_subset) auto
  then show "card (avail t) + n = card (avail p)"
    using R n by (simp add: distinct_card)
qed

text \<open>A failed allocation changes nothing: there is no partial allocation.\<close>

lemma alloc_atomic:
  assumes "inv p" and "alloc n p = (Inl e, t)"
  shows "t = p" and "e = RuntimeError" and "card (avail p) < n"
proof -
  show less: "card (avail p) < n"
    using alloc_iff[OF assms(1), of n] assms(2) by (simp add: is_ok_def)
  show "t = p" and "e = RuntimeError" using wp_errD[OF alloc_full[OF assms(1) less] assms(2)] by auto
qed

text \<open>Two allocations never hand out the same page.\<close>

lemma alloc_disjoint:
  assumes "inv p" and "alloc m p = (Inr is, q)" and "alloc n q = (Inr js, t)"
  shows "distinct (is @ js)"
  using alloc_result[OF assms(1,2)] alloc_result[of q n js t] assms(3) by auto

end

end
