(* ===== verification/Gpu_Pool.thy ===== *)
theory Gpu_Pool imports Py_Values Transition begin

text \<open>
  \<open>prism_infer/engine/block_pool.py\<close>: the reference-counted allocator of physical GPU
  KV pages with its prefix-hash index and the lazy retention of hashed pages
  (\<open>Block\<close>, \<open>GpuBlockPool\<close>).  A Block object is the entry of \<open>gp_blocks\<close> at its id.
  The lemmas prove that every public method, also when it raises, keeps the allocator
  invariant \<open>gpu_inv\<close>, what each method does to the reference counts, and that allocation
  succeeds exactly when the free count covers the request.
\<close>

section \<open>State\<close>

definition NO_BLOCK_HASH :: int where
  "NO_BLOCK_HASH = -1"

type_synonym mm_hashes = "(nat, nat) dict option"

record block =
  blk_id :: nat
  blk_ref :: int
  blk_hash :: int
  blk_tokens :: "int list"
  blk_mm :: mm_hashes

definition new_block :: "nat \<Rightarrow> block" where
  "new_block i = \<lparr>blk_id = i, blk_ref = 0, blk_hash = NO_BLOCK_HASH, blk_tokens = [], blk_mm = None\<rparr>"

record gpu_pool =
  gp_blocks :: "block list"
  gp_index :: "int \<rightharpoonup> nat"
  gp_free :: "nat list"
  gp_free_set :: "nat set"
  gp_used :: "nat set"
  gp_retain :: bool
  gp_cached :: "nat list"
  gp_evictions :: nat

definition gpu_init :: "int \<Rightarrow> bool \<Rightarrow> py_error + gpu_pool" where
  "gpu_init num_blocks retain =
     (if num_blocks \<le> 0 then Inl ValueError
      else Inr \<lparr>gp_blocks = map new_block [0..<nat num_blocks], gp_index = Map.empty,
                gp_free = [0..<nat num_blocks], gp_free_set = {0..<nat num_blocks},
                gp_used = {}, gp_retain = retain, gp_cached = [], gp_evictions = 0\<rparr>)"

lemma new_block_fields [simp]:
  "blk_id (new_block i) = i" "blk_ref (new_block i) = 0" "blk_hash (new_block i) = NO_BLOCK_HASH"
  "blk_tokens (new_block i) = []" "blk_mm (new_block i) = None"
  by (simp_all add: new_block_def)

section \<open>Block\<close>

definition blk_update :: "int \<Rightarrow> int list \<Rightarrow> mm_hashes \<Rightarrow> block \<Rightarrow> block" where
  "blk_update h toks mm b = b\<lparr>blk_hash := h, blk_tokens := toks, blk_mm := mm\<rparr>"

definition blk_activate :: "(unit, block) op" where
  "blk_activate =
     bnd (gets blk_ref) (\<lambda>r. thn (chk RuntimeError (r = 0))
       (upd (\<lambda>b. b\<lparr>blk_ref := 1, blk_hash := NO_BLOCK_HASH, blk_tokens := [], blk_mm := None\<rparr>)))"

definition blk_mark_free :: "(unit, block) op" where
  "blk_mark_free =
     bnd (gets blk_ref) (\<lambda>r. thn (chk RuntimeError (r = 0))
       (upd (\<lambda>b. b\<lparr>blk_hash := NO_BLOCK_HASH, blk_tokens := [], blk_mm := None\<rparr>)))"

section \<open>The pool's methods\<close>

definition gp_capacity :: "gpu_pool \<Rightarrow> nat" where
  "gp_capacity p = length (gp_blocks p)"

definition gp_free_count :: "gpu_pool \<Rightarrow> nat" where
  "gp_free_count p =
     (if gp_retain p then card (gp_free_set p) + length (gp_cached p) else card (gp_free_set p))"

definition gp_ref :: "gpu_pool \<Rightarrow> nat \<Rightarrow> int" where
  "gp_ref p b = blk_ref (gp_blocks p ! b)"

definition gp_hash :: "gpu_pool \<Rightarrow> nat \<Rightarrow> int" where
  "gp_hash p b = blk_hash (gp_blocks p ! b)"

definition gp_block :: "nat \<Rightarrow> (block, gpu_pool) op" where
  "gp_block i = bnd (gets gp_capacity) (\<lambda>n. thn (chk IndexError (i < n))
     (gets (\<lambda>p. gp_blocks p ! i)))"

definition on_block :: "nat \<Rightarrow> ('a, block) op \<Rightarrow> ('a, gpu_pool) op" where
  "on_block i m = zoom (\<lambda>p. gp_blocks p ! i) (\<lambda>b p. p\<lparr>gp_blocks := (gp_blocks p)[i := b]\<rparr>) m"

definition gp_remove_hash_index :: "block \<Rightarrow> (unit, gpu_pool) op" where
  "gp_remove_hash_index b =
     (if blk_hash b = NO_BLOCK_HASH then ret ()
      else upd (\<lambda>p. if gp_index p (blk_hash b) = Some (blk_id b)
                    then p\<lparr>gp_index := (gp_index p)(blk_hash b := None)\<rparr> else p))"

definition gp_evict_oldest_cached :: "(nat option, gpu_pool) op" where
  "gp_evict_oldest_cached =
     bnd (gets gp_cached) (\<lambda>c. case c of
        [] \<Rightarrow> ret None
      | i # rest \<Rightarrow>
          thn (upd (\<lambda>p. p\<lparr>gp_cached := rest\<rparr>))
         (bnd (gp_block i) (\<lambda>b.
          thn (chk RuntimeError (blk_ref b = 0))
         (thn (gp_remove_hash_index b)
         (thn (on_block i blk_mark_free)
         (bnd (gets gp_used) (\<lambda>u.
          thn (chk KeyError (i \<in> u))
         (thn (upd (\<lambda>p. p\<lparr>gp_used := gp_used p - {i},
                          gp_free_set := insert i (gp_free_set p),
                          gp_free := gp_free p @ [i],
                          gp_evictions := gp_evictions p + 1\<rparr>))
          (ret (Some i))))))))))"

definition gp_allocate :: "nat \<Rightarrow> (nat, gpu_pool) op" where
  "gp_allocate i =
     bnd (gp_block i) (\<lambda>b.
     bnd (gets gp_free_set) (\<lambda>f.
     thn (chk RuntimeError (i \<in> f))
    (thn (chk RuntimeError (blk_ref b = 0))
    (thn (gp_remove_hash_index b)
    (thn (on_block i blk_activate)
    (thn (upd (\<lambda>p. p\<lparr>gp_free_set := gp_free_set p - {i}, gp_used := insert i (gp_used p)\<rparr>))
     (ret i)))))))"

text \<open>The \<open>while\<close> loop of \<open>allocate_free\<close> pops the deque up to the first id that is still free.\<close>

definition gp_allocate_free :: "(nat, gpu_pool) op" where
  "gp_allocate_free =
     bnd (gets (\<lambda>p. dropWhile (\<lambda>i. i \<notin> gp_free_set p) (gp_free p))) (\<lambda>q. case q of
        i # rest \<Rightarrow> thn (upd (\<lambda>p. p\<lparr>gp_free := rest\<rparr>)) (gp_allocate i)
      | [] \<Rightarrow>
          thn (upd (\<lambda>p. p\<lparr>gp_free := []\<rparr>))
         (bnd (gets gp_retain) (\<lambda>r.
          if r then bnd gp_evict_oldest_cached (\<lambda>c. case c of
                        Some i \<Rightarrow> gp_allocate i
                      | None \<Rightarrow> throw RuntimeError)
          else throw RuntimeError)))"

definition gp_retain_ref :: "nat \<Rightarrow> (nat, gpu_pool) op" where
  "gp_retain_ref i =
     bnd (gp_block i) (\<lambda>b.
     bnd (gets gp_used) (\<lambda>u.
     thn (chk RuntimeError (i \<in> u))
    (thn (chk RuntimeError (0 \<le> blk_ref b))
    (thn (if blk_ref b = 0
          then bnd (gets (\<lambda>p. gp_retain p \<and> i \<in> set (gp_cached p))) (\<lambda>ok.
               thn (chk RuntimeError ok)
                   (upd (\<lambda>p. p\<lparr>gp_cached := remove1 i (gp_cached p)\<rparr>)))
          else ret ())
    (thn (on_block i (upd (\<lambda>b. b\<lparr>blk_ref := blk_ref b + 1\<rparr>)))
     (ret i))))))"

definition gp_validate_owned :: "nat list \<Rightarrow> (nat list, gpu_pool) op" where
  "gp_validate_owned ids =
     bnd (collect ids gp_block) (\<lambda>bs.
     thn (chk RuntimeError (distinct ids))
    (bnd (gets gp_used) (\<lambda>u.
     thn (chk RuntimeError (list_all (\<lambda>(i, b). i \<in> u \<and> 0 < blk_ref b) (zip ids bs)))
     (ret ids))))"

definition gp_deallocate :: "nat \<Rightarrow> (unit, gpu_pool) op" where
  "gp_deallocate i =
     bnd (gp_block i) (\<lambda>b.
     thn (chk RuntimeError (blk_ref b = 0))
    (bnd (gets gp_used) (\<lambda>u.
     thn (chk RuntimeError (i \<in> u))
    (thn (upd (\<lambda>p. if gp_retain p \<and> i \<in> set (gp_cached p)
                   then p\<lparr>gp_cached := remove1 i (gp_cached p)\<rparr> else p))
    (thn (gp_remove_hash_index b)
    (thn (on_block i blk_mark_free)
     (upd (\<lambda>p. p\<lparr>gp_used := gp_used p - {i}, gp_free_set := insert i (gp_free_set p),
                  gp_free := gp_free p @ [i]\<rparr>))))))))"

definition gp_release :: "nat \<Rightarrow> (bool, gpu_pool) op" where
  "gp_release i =
     bnd (gp_block i) (\<lambda>b.
     bnd (gets gp_used) (\<lambda>u.
     thn (chk RuntimeError (i \<in> u \<and> 0 < blk_ref b))
    (thn (on_block i (upd (\<lambda>b. b\<lparr>blk_ref := blk_ref b - 1\<rparr>)))
     (if blk_ref b - 1 \<noteq> 0 then ret False
      else bnd (gets gp_retain) (\<lambda>r.
           if r \<and> blk_hash b \<noteq> NO_BLOCK_HASH
           then thn (upd (\<lambda>p. p\<lparr>gp_cached := od_set i (gp_cached p)\<rparr>)) (ret False)
           else thn (gp_deallocate i) (ret True))))))"

fun gp_alloc_loop :: "nat \<Rightarrow> nat list \<Rightarrow> (nat list, gpu_pool) op" where
  "gp_alloc_loop 0 acc = ret acc"
| "gp_alloc_loop (Suc n) acc =
     bnd (catch gp_allocate_free
            (\<lambda>e. thn (each (rev acc) (\<lambda>b. thn (gp_release b) (ret ()))) (throw e)))
         (\<lambda>b. gp_alloc_loop n (acc @ [b]))"

definition gp_allocate_many :: "nat \<Rightarrow> (nat list, gpu_pool) op" where
  "gp_allocate_many count =
     bnd (gets gp_free_count) (\<lambda>f.
     thn (chk RuntimeError (count \<le> f)) (gp_alloc_loop count []))"

definition gp_register_hash :: "nat \<Rightarrow> int \<Rightarrow> int list \<Rightarrow> mm_hashes \<Rightarrow> (unit, gpu_pool) op" where
  "gp_register_hash i h toks mm =
     bnd (gp_block i) (\<lambda>b.
     bnd (gets gp_used) (\<lambda>u.
     thn (chk RuntimeError (i \<in> u \<and> 0 < blk_ref b))
    (thn (gp_remove_hash_index b)
    (thn (on_block i (upd (blk_update h toks mm)))
     (if h \<noteq> NO_BLOCK_HASH then upd (\<lambda>p. p\<lparr>gp_index := (gp_index p)(h \<mapsto> i)\<rparr>) else ret ())))))"

definition gp_clear_hash :: "nat \<Rightarrow> (unit, gpu_pool) op" where
  "gp_clear_hash i =
     bnd (gp_block i) (\<lambda>b.
     thn (gp_remove_hash_index b)
         (on_block i (upd (blk_update NO_BLOCK_HASH [] None))))"

definition gp_lookup :: "int \<Rightarrow> int list \<Rightarrow> mm_hashes \<Rightarrow> (nat option, gpu_pool) op" where
  "gp_lookup h toks mm =
     (if h = NO_BLOCK_HASH then ret None
      else bnd (gets (\<lambda>p. gp_index p h)) (\<lambda>x. case x of
          None \<Rightarrow> ret None
        | Some i \<Rightarrow>
            bnd (gp_block i) (\<lambda>b.
            bnd (gets gp_used) (\<lambda>u.
            thn (chk RuntimeError (i \<in> u))
           (thn (chk RuntimeError (0 \<le> blk_ref b))
            (if blk_tokens b \<noteq> toks then ret None
             else if \<not> opt_dict_eq (blk_mm b) mm then ret None
             else ret (Some i)))))))"

section \<open>The allocator invariant\<close>

definition gpu_inv :: "gpu_pool \<Rightarrow> bool" where
  "gpu_inv p \<longleftrightarrow>
     (\<forall>i < gp_capacity p. blk_id (gp_blocks p ! i) = i \<and> 0 \<le> gp_ref p i) \<and>
     gp_used p \<subseteq> {..<gp_capacity p} \<and>
     gp_free_set p = {..<gp_capacity p} - gp_used p \<and>
     gp_free_set p \<subseteq> set (gp_free p) \<and> set (gp_free p) \<subseteq> {..<gp_capacity p} \<and>
     distinct (gp_cached p) \<and> set (gp_cached p) = {i \<in> gp_used p. gp_ref p i = 0} \<and>
     (\<not> gp_retain p \<longrightarrow> gp_cached p = []) \<and>
     (\<forall>i \<in> gp_free_set p. gp_blocks p ! i = new_block i) \<and>
     (\<forall>h i. gp_index p h = Some i \<longrightarrow> i \<in> gp_used p \<and> gp_hash p i = h \<and> h \<noteq> NO_BLOCK_HASH)"

lemma gpu_invD:
  assumes "gpu_inv p"
  shows "i < gp_capacity p \<Longrightarrow> blk_id (gp_blocks p ! i) = i"
    and "i < gp_capacity p \<Longrightarrow> 0 \<le> gp_ref p i"
    and "i \<in> gp_used p \<Longrightarrow> i < gp_capacity p"
    and "gp_free_set p = {..<gp_capacity p} - gp_used p"
    and "i \<in> gp_free_set p \<Longrightarrow> i \<in> set (gp_free p)"
    and "i \<in> set (gp_free p) \<Longrightarrow> i < gp_capacity p"
    and "distinct (gp_cached p)"
    and "set (gp_cached p) = {i \<in> gp_used p. gp_ref p i = 0}"
    and "\<not> gp_retain p \<Longrightarrow> gp_cached p = []"
    and "i \<in> gp_free_set p \<Longrightarrow> gp_blocks p ! i = new_block i"
    and "gp_index p h = Some i \<Longrightarrow> i \<in> gp_used p \<and> gp_hash p i = h \<and> h \<noteq> NO_BLOCK_HASH"
  using assms unfolding gpu_inv_def by blast+

lemma gpu_inv_free_ref: "gpu_inv p \<Longrightarrow> i \<in> gp_free_set p \<Longrightarrow> gp_ref p i = 0"
  by (simp add: gpu_invD(10) gp_ref_def new_block_def)

text \<open>The free count is the number of pages nobody references: never-used and cached ones.\<close>

lemma gpu_free_count:
  assumes inv: "gpu_inv p"
  shows "gp_free_count p = card {i. i < gp_capacity p \<and> gp_ref p i = 0}"
proof -
  have eq: "{i. i < gp_capacity p \<and> gp_ref p i = 0} = gp_free_set p \<union> set (gp_cached p)"
    using gpu_invD(3,4,8)[OF inv] gpu_inv_free_ref[OF inv] by auto
  have "card (gp_free_set p \<union> set (gp_cached p)) = card (gp_free_set p) + length (gp_cached p)"
    using gpu_invD(4,8)[OF inv] distinct_card[OF gpu_invD(7)[OF inv]]
      finite_set[of "gp_cached p"]
    by (subst card_Un_disjoint) auto
  then show ?thesis
    unfolding eq gp_free_count_def using gpu_invD(9)[OF inv] by auto
qed

lemma gpu_init_inv: "gpu_init n r = Inr p \<Longrightarrow> gpu_inv p"
  by (auto simp: gpu_init_def gpu_inv_def gp_capacity_def gp_ref_def gp_hash_def new_block_def
      split: if_splits)

section \<open>What the methods do\<close>

lemma wp_gp_block [wp_simps]:
  "wp (gp_block i) Q E p = (if i < gp_capacity p then Q (gp_blocks p ! i) p else E IndexError p)"
  by (simp add: gp_block_def wp_simps)

lemma wp_on_block [wp_simps]:
  "wp (on_block i m) Q E p =
     wp m (\<lambda>x b. Q x (p\<lparr>gp_blocks := (gp_blocks p)[i := b]\<rparr>))
          (\<lambda>e b. E e (p\<lparr>gp_blocks := (gp_blocks p)[i := b]\<rparr>)) (gp_blocks p ! i)"
  by (simp add: on_block_def wp_simps)

definition unindexed :: "block \<Rightarrow> gpu_pool \<Rightarrow> gpu_pool" where
  "unindexed b p =
     (if blk_hash b \<noteq> NO_BLOCK_HASH \<and> gp_index p (blk_hash b) = Some (blk_id b)
      then p\<lparr>gp_index := (gp_index p)(blk_hash b := None)\<rparr> else p)"

lemma wp_remove_hash_index [wp_simps]:
  "wp (gp_remove_hash_index b) Q E p = Q () (unindexed b p)"
  by (simp add: gp_remove_hash_index_def unindexed_def wp_simps)

lemma unindexed_fields [simp]:
  "gp_blocks (unindexed b p) = gp_blocks p" "gp_free (unindexed b p) = gp_free p"
  "gp_free_set (unindexed b p) = gp_free_set p" "gp_used (unindexed b p) = gp_used p"
  "gp_retain (unindexed b p) = gp_retain p" "gp_cached (unindexed b p) = gp_cached p"
  "gp_evictions (unindexed b p) = gp_evictions p" "gp_capacity (unindexed b p) = gp_capacity p"
  "gp_ref (unindexed b p) = gp_ref p" "gp_hash (unindexed b p) = gp_hash p"
  by (simp_all add: unindexed_def gp_capacity_def gp_ref_def gp_hash_def fun_eq_iff)

lemma unindexed_unhashed [simp]: "blk_hash b = NO_BLOCK_HASH \<Longrightarrow> unindexed b p = p"
  by (simp add: unindexed_def)

lemma unindexed_index:
  "gp_index (unindexed b p) h = Some i \<longleftrightarrow>
     gp_index p h = Some i \<and> \<not> (h = blk_hash b \<and> h \<noteq> NO_BLOCK_HASH \<and> i = blk_id b)"
  by (auto simp: unindexed_def)

lemma unindexed_le: "gp_index (unindexed b p) \<subseteq>\<^sub>m gp_index p"
  by (auto simp: unindexed_def map_le_def)

lemma gp_capacity_upd [simp]:
  "gp_capacity (p\<lparr>gp_blocks := (gp_blocks p)[i := b]\<rparr>) = gp_capacity p"
  "gp_capacity (p\<lparr>gp_index := x\<rparr>) = gp_capacity p"
  "gp_capacity (p\<lparr>gp_free := f\<rparr>) = gp_capacity p"
  "gp_capacity (p\<lparr>gp_free_set := fs\<rparr>) = gp_capacity p"
  "gp_capacity (p\<lparr>gp_used := u\<rparr>) = gp_capacity p"
  "gp_capacity (p\<lparr>gp_cached := c\<rparr>) = gp_capacity p"
  "gp_capacity (p\<lparr>gp_evictions := e\<rparr>) = gp_capacity p"
  by (simp_all add: gp_capacity_def)

lemma gp_ref_upd [simp]:
  "gp_ref (p\<lparr>gp_index := x\<rparr>) = gp_ref p"
  "gp_ref (p\<lparr>gp_free := f\<rparr>) = gp_ref p"
  "gp_ref (p\<lparr>gp_free_set := fs\<rparr>) = gp_ref p"
  "gp_ref (p\<lparr>gp_used := u\<rparr>) = gp_ref p"
  "gp_ref (p\<lparr>gp_cached := c\<rparr>) = gp_ref p"
  "gp_ref (p\<lparr>gp_evictions := e\<rparr>) = gp_ref p"
  "gp_hash (p\<lparr>gp_index := x\<rparr>) = gp_hash p"
  "gp_hash (p\<lparr>gp_free := f\<rparr>) = gp_hash p"
  "gp_hash (p\<lparr>gp_free_set := fs\<rparr>) = gp_hash p"
  "gp_hash (p\<lparr>gp_used := u\<rparr>) = gp_hash p"
  "gp_hash (p\<lparr>gp_cached := c\<rparr>) = gp_hash p"
  "gp_hash (p\<lparr>gp_evictions := e\<rparr>) = gp_hash p"
  by (simp_all add: gp_ref_def gp_hash_def fun_eq_iff)

lemma gp_ref_set_block:
  "i < gp_capacity p \<Longrightarrow>
   gp_ref (p\<lparr>gp_blocks := (gp_blocks p)[i := b]\<rparr>) = (gp_ref p)(i := blk_ref b)"
  "i < gp_capacity p \<Longrightarrow>
   gp_hash (p\<lparr>gp_blocks := (gp_blocks p)[i := b]\<rparr>) = (gp_hash p)(i := blk_hash b)"
  by (auto simp: gp_ref_def gp_hash_def gp_capacity_def fun_eq_iff)

text \<open>
  \<open>pool_step p t\<close> is what every method guarantees of its final state \<open>t\<close>: the invariant, and
  that the configuration of the pool has not changed.
\<close>

definition pool_step :: "gpu_pool \<Rightarrow> gpu_pool \<Rightarrow> bool" where
  "pool_step p t \<longleftrightarrow> gpu_inv t \<and> gp_capacity t = gp_capacity p \<and> gp_retain t = gp_retain p"

definition alloc_post :: "gpu_pool \<Rightarrow> nat \<Rightarrow> gpu_pool \<Rightarrow> bool" where
  "alloc_post p i t \<longleftrightarrow> pool_step p t \<and> i < gp_capacity p \<and> gp_ref p i = 0 \<and>
     gp_ref t = (gp_ref p)(i := 1) \<and> gp_hash t i = NO_BLOCK_HASH \<and>
     (\<forall>j. j \<noteq> i \<longrightarrow> gp_blocks t ! j = gp_blocks p ! j) \<and> gp_index t \<subseteq>\<^sub>m gp_index p"

definition activated :: "nat \<Rightarrow> gpu_pool \<Rightarrow> gpu_pool" where
  "activated i p = p\<lparr>gp_blocks := (gp_blocks p)[i := (new_block i)\<lparr>blk_ref := 1\<rparr>],
                     gp_free_set := gp_free_set p - {i}, gp_used := insert i (gp_used p)\<rparr>"

lemma wp_gp_allocate:
  assumes inv: "gpu_inv p"
  shows "wp (gp_allocate i) Q E p =
    (if \<not> i < gp_capacity p then E IndexError p
     else if i \<notin> gp_free_set p then E RuntimeError p else Q i (activated i p))"
  by (simp add: gp_allocate_def blk_activate_def activated_def wp_simps gpu_invD(10)[OF inv],
      simp add: new_block_def)

lemma activated_post:
  assumes inv: "gpu_inv p" and i: "i \<in> gp_free_set p"
  shows "alloc_post p i (activated i p)"
proof -
  have lt: "i < gp_capacity p" and nu: "i \<notin> gp_used p" and r0: "gp_ref p i = 0"
    using gpu_invD(4)[OF inv] gpu_inv_free_ref[OF inv i] i by auto
  have "gpu_inv (activated i p)"
    using inv lt nu i unfolding gpu_inv_def activated_def
    by (auto simp: gp_ref_set_block new_block_def gp_capacity_def nth_list_update split: if_splits)
  then show ?thesis
    using lt r0 by (auto simp: alloc_post_def pool_step_def activated_def gp_ref_set_block
        new_block_def gp_capacity_def map_le_def)
qed

text \<open>The state after the pool has given up the oldest cached page.\<close>

definition freed :: "nat \<Rightarrow> gpu_pool \<Rightarrow> gpu_pool" where
  "freed i p = (unindexed (gp_blocks p ! i) p)
     \<lparr>gp_blocks := (gp_blocks p)[i := new_block i], gp_used := gp_used p - {i},
      gp_free_set := insert i (gp_free_set p), gp_free := gp_free p @ [i]\<rparr>"

definition evicted :: "nat \<Rightarrow> nat list \<Rightarrow> gpu_pool \<Rightarrow> gpu_pool" where
  "evicted i rest p = (freed i (p\<lparr>gp_cached := rest\<rparr>))\<lparr>gp_evictions := gp_evictions p + 1\<rparr>"

lemma new_block_of:
  "blk_id b = i \<Longrightarrow> blk_ref b = 0 \<Longrightarrow>
   b\<lparr>blk_hash := NO_BLOCK_HASH, blk_tokens := [], blk_mm := None\<rparr> = new_block i"
  by (simp add: new_block_def)

lemma freed_facts:
  assumes lt: "i < gp_capacity p" and id: "blk_id (gp_blocks p ! i) = i"
  shows "gp_capacity (freed i p) = gp_capacity p" and "gp_retain (freed i p) = gp_retain p"
    and "gp_cached (freed i p) = gp_cached p"
    and "gp_ref (freed i p) = (gp_ref p)(i := 0)"
    and "gp_hash (freed i p) = (gp_hash p)(i := NO_BLOCK_HASH)"
    and "gp_blocks (freed i p) ! j = (if j = i then new_block i else gp_blocks p ! j)"
    and "gp_index (freed i p) h = Some j \<longleftrightarrow> gp_index p h = Some j \<and>
           \<not> (j = i \<and> h = gp_hash p i \<and> h \<noteq> NO_BLOCK_HASH)"
  using lt id unindexed_index[of "gp_blocks p ! i" p h j]
  by (auto simp: freed_def gp_ref_set_block new_block_def gp_capacity_def fun_eq_iff gp_hash_def gp_ref_def
      nth_list_update)

text \<open>
  Freeing a page that nobody references restores the invariant.  Before, everything holds
  except that the page itself is not in the cached set.
\<close>

definition gpu_inv_but :: "nat \<Rightarrow> gpu_pool \<Rightarrow> bool" where
  "gpu_inv_but k p \<longleftrightarrow>
     (\<forall>i < gp_capacity p. blk_id (gp_blocks p ! i) = i \<and> 0 \<le> gp_ref p i) \<and>
     gp_used p \<subseteq> {..<gp_capacity p} \<and>
     gp_free_set p = {..<gp_capacity p} - gp_used p \<and>
     gp_free_set p \<subseteq> set (gp_free p) \<and> set (gp_free p) \<subseteq> {..<gp_capacity p} \<and>
     distinct (gp_cached p) \<and> set (gp_cached p) = {i \<in> gp_used p. gp_ref p i = 0 \<and> i \<noteq> k} \<and>
     (\<not> gp_retain p \<longrightarrow> gp_cached p = []) \<and>
     (\<forall>i \<in> gp_free_set p. gp_blocks p ! i = new_block i) \<and>
     (\<forall>h i. gp_index p h = Some i \<longrightarrow> i \<in> gp_used p \<and> gp_hash p i = h \<and> h \<noteq> NO_BLOCK_HASH)"

lemma freed_inv:
  assumes inv: "gpu_inv_but i p" and i: "i \<in> gp_used p" and r0: "gp_ref p i = 0"
  shows "gpu_inv (freed i p)"
proof -
  have lt: "i < gp_capacity p" and id: "blk_id (gp_blocks p ! i) = i"
    using inv i unfolding gpu_inv_but_def by blast+
  note F = freed_facts[OF lt id]
  show ?thesis unfolding gpu_inv_def F
  proof (intro conjI allI impI ballI)
    show "set (gp_cached p) = {j \<in> gp_used (freed i p). ((gp_ref p)(i := 0)) j = 0}"
      using inv r0 by (auto simp: freed_def gpu_inv_but_def)
    show "gp_free_set (freed i p) = {..<gp_capacity p} - gp_used (freed i p)"
      using inv lt by (auto simp: freed_def gpu_inv_but_def)
  qed (use inv lt i in \<open>auto simp: freed_def gpu_inv_but_def\<close>)
qed

lemma wp_evict_oldest_cached:
  assumes inv: "gpu_inv p"
  shows "wp gp_evict_oldest_cached Q E p =
    (case gp_cached p of [] \<Rightarrow> Q None p | i # rest \<Rightarrow> Q (Some i) (evicted i rest p))"
proof (cases "gp_cached p")
  case Nil
  then show ?thesis by (simp add: gp_evict_oldest_cached_def wp_simps)
next
  case (Cons i rest)
  have iu: "i \<in> gp_used p" and r0: "gp_ref p i = 0"
    using gpu_invD(8)[OF inv] Cons by auto
  have lt: "i < gp_capacity p" using iu gpu_invD(3)[OF inv] by blast
  show ?thesis
    using lt iu r0 new_block_of[OF gpu_invD(1)[OF inv lt]]
    by (simp add: Cons gp_evict_oldest_cached_def blk_mark_free_def evicted_def freed_def wp_simps
        gp_ref_def)
qed

lemma gpu_inv_evictions [simp]: "gpu_inv (p\<lparr>gp_evictions := e\<rparr>) = gpu_inv p"
  unfolding gpu_inv_def gp_capacity_upd gp_ref_upd by simp

lemma evicted_inv:
  assumes inv: "gpu_inv p" and c: "gp_cached p = i # rest"
  shows "gpu_inv (evicted i rest p)" and "i \<in> gp_free_set (evicted i rest p)"
    and "gp_ref (evicted i rest p) = gp_ref p"
    and "gp_capacity (evicted i rest p) = gp_capacity p"
    and "gp_retain (evicted i rest p) = gp_retain p"
    and "gp_index (evicted i rest p) \<subseteq>\<^sub>m gp_index p"
    and "j \<noteq> i \<Longrightarrow> gp_blocks (evicted i rest p) ! j = gp_blocks p ! j"
proof -
  let ?q = "p\<lparr>gp_cached := rest\<rparr>"
  have iu: "i \<in> gp_used p" and r0: "gp_ref p i = 0" and ni: "i \<notin> set rest" and dr: "distinct rest"
    using gpu_invD(7,8)[OF inv] c by auto
  have lt: "i < gp_capacity ?q" and id: "blk_id (gp_blocks ?q ! i) = i"
    using iu gpu_invD(1,3)[OF inv] by auto
  note F = freed_facts[OF lt id]
  have setr: "set rest = {j \<in> gp_used p. gp_ref p j = 0 \<and> j \<noteq> i}"
    using gpu_invD(8)[OF inv] c ni by auto
  have "\<not> gp_retain p \<Longrightarrow> rest = []" using gpu_invD(9)[OF inv] c by simp
  then have "gpu_inv_but i ?q"
    using inv dr setr unfolding gpu_inv_def gpu_inv_but_def gp_capacity_upd gp_ref_upd by auto
  then have "gpu_inv (freed i ?q)" using iu r0 by (intro freed_inv) simp_all
  then show "gpu_inv (evicted i rest p)" by (simp add: evicted_def)
  show "i \<in> gp_free_set (evicted i rest p)" by (simp add: evicted_def freed_def)
  show "gp_ref (evicted i rest p) = gp_ref p" using r0 by (auto simp: evicted_def F)
  show "gp_capacity (evicted i rest p) = gp_capacity p" by (simp add: evicted_def F)
  show "gp_retain (evicted i rest p) = gp_retain p" by (simp add: evicted_def F)
  show "gp_index (evicted i rest p) \<subseteq>\<^sub>m gp_index p"
    using unindexed_le[of "gp_blocks p ! i" ?q] by (simp add: evicted_def freed_def map_le_def)
  show "j \<noteq> i \<Longrightarrow> gp_blocks (evicted i rest p) ! j = gp_blocks p ! j" by (simp add: evicted_def F)
qed

subsection \<open>Allocation\<close>

lemma wp_allocate_free:
  assumes inv: "gpu_inv p"
    and ok: "\<And>i t. alloc_post p i t \<Longrightarrow> Q i t"
    and full: "gp_free_count p = 0 \<Longrightarrow> gpu_inv (p\<lparr>gp_free := []\<rparr>) \<Longrightarrow> E RuntimeError (p\<lparr>gp_free := []\<rparr>)"
  shows "wp gp_allocate_free Q E p"
proof (cases "dropWhile (\<lambda>i. i \<notin> gp_free_set p) (gp_free p)")
  case (Cons i rest)
  let ?q = "p\<lparr>gp_free := rest\<rparr>"
  have i: "i \<in> gp_free_set p" using hd_dropWhile[of "\<lambda>i. i \<notin> gp_free_set p" "gp_free p"] Cons by simp
  have split: "gp_free p = takeWhile (\<lambda>i. i \<notin> gp_free_set p) (gp_free p) @ i # rest"
    using takeWhile_dropWhile_id[of "\<lambda>i. i \<notin> gp_free_set p" "gp_free p"] Cons by simp
  have mem: "set (gp_free p) =
      set (takeWhile (\<lambda>i. i \<notin> gp_free_set p) (gp_free p)) \<union> insert i (set rest)"
    using arg_cong[OF split, of set] by simp
  have sub: "gp_free_set p - {i} \<subseteq> set rest" "set rest \<subseteq> {..<gp_capacity p}"
    using gpu_invD(5,6)[OF inv] mem set_takeWhileD[of _ "\<lambda>i. i \<notin> gp_free_set p" "gp_free p"]
    by blast+
  have "alloc_post p i (activated i p)" by (rule activated_post[OF inv i])
  then have post: "alloc_post p i ((activated i p)\<lparr>gp_free := rest\<rparr>)"
    using sub by (auto simp: alloc_post_def pool_step_def gpu_inv_def activated_def)
  have eq: "(activated i p)\<lparr>gp_free := rest\<rparr> = activated i ?q"
    by (simp add: activated_def)
  have lt: "i < gp_capacity p" using i gpu_invD(4)[OF inv] by simp
  have "gp_blocks p ! i = new_block i" by (rule gpu_invD(10)[OF inv i])
  then have "wp (gp_allocate i) Q E ?q = Q i (activated i ?q)"
    using lt i by (simp add: gp_allocate_def blk_activate_def activated_def wp_simps) (simp add: new_block_def)
  then show ?thesis using ok[OF post] by (simp add: gp_allocate_free_def wp_simps Cons eq)
next
  case Nil
  let ?q = "p\<lparr>gp_free := []\<rparr>"
  have "gp_free_set p \<inter> set (gp_free p) = {}" using Nil dropWhile_eq_Nil_conv by fastforce
  then have empty: "gp_free_set p = {}" using gpu_invD(5)[OF inv] by blast
  have inv_q: "gpu_inv ?q" using inv empty by (simp add: gpu_inv_def)
  show ?thesis
  proof (cases "gp_cached p")
    case c: Nil
    have "gp_free_count p = 0" by (simp add: gp_free_count_def empty c)
    then show ?thesis using full[OF _ inv_q]
      by (simp add: gp_allocate_free_def wp_simps Nil wp_evict_oldest_cached[OF inv_q] c)
  next
    case c: (Cons i rest)
    have ret: "gp_retain p" using gpu_invD(9)[OF inv] c by auto
    have cq: "gp_cached ?q = i # rest" using c by simp
    note ev = evicted_inv[OF inv_q cq]
    have "alloc_post (evicted i rest ?q) i (activated i (evicted i rest ?q))"
      by (rule activated_post[OF ev(1,2)])
    then have "alloc_post p i (activated i (evicted i rest ?q))"
      using ev(3-7) by (auto simp: alloc_post_def pool_step_def intro: map_le_trans)
    moreover have "i < gp_capacity (evicted i rest ?q)"
      using ev(2) gpu_invD(4)[OF ev(1)] by simp
    ultimately show ?thesis using ok ret
      by (simp add: gp_allocate_free_def wp_simps Nil wp_evict_oldest_cached[OF inv_q] c
          wp_gp_allocate[OF ev(1)] ev(2))
  qed
qed

subsection \<open>Reference counting\<close>

definition retain_post :: "gpu_pool \<Rightarrow> nat \<Rightarrow> gpu_pool \<Rightarrow> bool" where
  "retain_post p i t \<longleftrightarrow> pool_step p t \<and> gp_ref t = (gp_ref p)(i := gp_ref p i + 1) \<and>
     gp_used t = gp_used p \<and> gp_index t = gp_index p \<and>
     gp_blocks t = (gp_blocks p)[i := (gp_blocks p ! i)\<lparr>blk_ref := gp_ref p i + 1\<rparr>]"

lemma wp_gp_retain:
  assumes inv: "gpu_inv p" and u: "i \<in> gp_used p"
    and ok: "\<And>t. retain_post p i t \<Longrightarrow> Q i t"
  shows "wp (gp_retain_ref i) Q E p"
proof -
  have lt: "i < gp_capacity p" and nn: "0 \<le> gp_ref p i"
    using gpu_invD(2,3)[OF inv] u by auto
  define q where "q = (if gp_ref p i = 0 then p\<lparr>gp_cached := remove1 i (gp_cached p)\<rparr> else p)"
  define t where "t = q\<lparr>gp_blocks := (gp_blocks p)[i := (gp_blocks p ! i)\<lparr>blk_ref := gp_ref p i + 1\<rparr>]\<rparr>"
  have q: "gp_blocks q = gp_blocks p" "gp_capacity q = gp_capacity p" "gp_used q = gp_used p"
      "gp_free_set q = gp_free_set p" "gp_free q = gp_free p" "gp_index q = gp_index p"
      "gp_retain q = gp_retain p" "gp_ref q = gp_ref p" "gp_hash q = gp_hash p"
      "distinct (gp_cached q)" "set (gp_cached q) = set (gp_cached p) - {i}"
      "gp_cached p = [] \<Longrightarrow> gp_cached q = []"
    using gpu_invD(7,8)[OF inv] by (auto simp: q_def)
  have t: "gp_capacity t = gp_capacity p" "gp_ref t = (gp_ref p)(i := gp_ref p i + 1)"
      "gp_hash t = gp_hash p"
    using lt q by (auto simp: t_def gp_ref_def gp_hash_def gp_capacity_def fun_eq_iff nth_list_update)
  have "gpu_inv t"
    unfolding gpu_inv_def t
  proof (intro conjI)
    show "set (gp_cached t) = {j \<in> gp_used t. ((gp_ref p)(i := gp_ref p i + 1)) j = 0}"
      using gpu_invD(8)[OF inv] q nn by (auto simp: t_def)
    show "\<forall>j<gp_capacity p. blk_id (gp_blocks t ! j) = j \<and> 0 \<le> ((gp_ref p)(i := gp_ref p i + 1)) j"
      using gpu_invD(1,2)[OF inv] lt nn by (auto simp: t_def nth_list_update gp_capacity_def)
    show "\<forall>j\<in>gp_free_set t. gp_blocks t ! j = new_block j"
      using gpu_invD(4,10)[OF inv] u q by (auto simp: t_def nth_list_update[OF lt[unfolded gp_capacity_def]])
  qed (use inv q in \<open>auto simp: t_def gpu_inv_def\<close>)
  then have "retain_post p i t" using t q by (auto simp: retain_post_def pool_step_def t_def)
  moreover have "gp_ref p i = 0 \<Longrightarrow> gp_retain p \<and> i \<in> set (gp_cached p)"
    using gpu_invD(8,9)[OF inv] u by fastforce
  moreover have "wp (gp_retain_ref i) Q E p = Q i t"
    if "gp_ref p i = 0 \<Longrightarrow> gp_retain p \<and> i \<in> set (gp_cached p)"
    using lt u nn that by (auto simp: gp_retain_ref_def wp_simps t_def q_def gp_ref_def)
  ultimately show ?thesis using ok by blast
qed

lemma wp_gp_retain_err:
  assumes "gpu_inv p" and "i \<notin> gp_used p"
  shows "wp (gp_retain_ref i) Q E p = E (if i < gp_capacity p then RuntimeError else IndexError) p"
  using assms by (simp add: gp_retain_ref_def wp_simps)

definition release_post :: "gpu_pool \<Rightarrow> nat \<Rightarrow> bool \<Rightarrow> gpu_pool \<Rightarrow> bool" where
  "release_post p i r t \<longleftrightarrow> pool_step p t \<and> gp_ref t = (gp_ref p)(i := gp_ref p i - 1) \<and>
     (r \<longleftrightarrow> gp_ref p i = 1 \<and> \<not> (gp_retain p \<and> gp_hash p i \<noteq> NO_BLOCK_HASH)) \<and>
     gp_used t = (if r then gp_used p - {i} else gp_used p) \<and>
     gp_blocks t ! i = (if r then new_block i else (gp_blocks p ! i)\<lparr>blk_ref := gp_ref p i - 1\<rparr>) \<and>
     (\<forall>j. j \<noteq> i \<longrightarrow> gp_blocks t ! j = gp_blocks p ! j) \<and> gp_index t \<subseteq>\<^sub>m gp_index p \<and>
     (\<not> r \<longrightarrow> gp_index t = gp_index p)"

lemma wp_gp_release:
  assumes inv: "gpu_inv p" and u: "i \<in> gp_used p" and pos: "0 < gp_ref p i"
    and ok: "\<And>r t. release_post p i r t \<Longrightarrow> Q r t"
  shows "wp (gp_release i) Q E p"
proof -
  have lt: "i < gp_capacity p" using gpu_invD(3)[OF inv u] .
  have nc: "i \<notin> set (gp_cached p)" using gpu_invD(8)[OF inv] pos by auto
  let ?b = "(gp_blocks p ! i)\<lparr>blk_ref := gp_ref p i - 1\<rparr>"
  let ?q = "p\<lparr>gp_blocks := (gp_blocks p)[i := ?b]\<rparr>"
  let ?keep = "gp_retain p \<and> gp_hash p i \<noteq> NO_BLOCK_HASH"
  have q: "gp_blocks ?q ! j = (if j = i then ?b else gp_blocks p ! j)" for j
    using lt by (auto simp: gp_capacity_def)
  have qr: "gp_ref ?q = (gp_ref p)(i := gp_ref p i - 1)" "gp_hash ?q = gp_hash p"
    using lt by (simp_all add: gp_ref_set_block) (auto simp: gp_hash_def fun_eq_iff)
  consider (more) "1 < gp_ref p i" | (cache) "gp_ref p i = 1" ?keep
    | (free) "gp_ref p i = 1" "\<not> ?keep" using pos by linarith
  then show ?thesis
  proof cases
    case more
    have "gpu_inv ?q"
      using inv lt u more unfolding gpu_inv_def gp_capacity_upd qr q by auto
    then have "release_post p i False ?q"
      using more q qr by (auto simp: release_post_def pool_step_def)
    then show ?thesis using ok lt u more pos
      by (simp add: gp_release_def wp_simps gp_ref_def)
  next
    case cache
    let ?t = "?q\<lparr>gp_cached := gp_cached p @ [i]\<rparr>"
    have "gpu_inv ?t"
      using inv lt u cache nc unfolding gpu_inv_def gp_capacity_upd gp_ref_upd qr
      by (auto simp: nth_list_update gp_capacity_def)
    then have "release_post p i False ?t"
      using cache qr q by (auto simp: release_post_def pool_step_def)
    then show ?thesis using ok lt u cache nc
      by (simp add: gp_release_def wp_simps gp_ref_def gp_hash_def od_set_def)
  next
    case free
    have "gpu_inv_but i ?q"
      using inv lt u free nc unfolding gpu_inv_def gpu_inv_but_def gp_capacity_upd gp_ref_upd qr q
      by auto
    then have invf: "gpu_inv (freed i ?q)" using u qr free by (intro freed_inv) auto
    have idq: "blk_id (gp_blocks ?q ! i) = i" using gpu_invD(1)[OF inv lt] q by simp
    have ltq: "i < gp_capacity ?q" using lt by simp
    note F = freed_facts[OF ltq idq]
    have "gp_index (freed i ?q) \<subseteq>\<^sub>m gp_index p"
      using unindexed_le[of "gp_blocks ?q ! i" ?q] by (simp add: freed_def)
    moreover have "gp_ref (freed i ?q) = (gp_ref p)(i := gp_ref p i - 1)"
      using F(4) qr(1) free by simp
    moreover have "gp_blocks (freed i ?q) ! j = (if j = i then new_block i else gp_blocks p ! j)" for j
      using F(6)[of j] q by simp
    moreover have "gp_used (freed i ?q) = gp_used p - {i}" by (simp add: freed_def)
    moreover have "gp_capacity (freed i ?q) = gp_capacity p" "gp_retain (freed i ?q) = gp_retain p"
      using F(1,2) by simp_all
    ultimately have "release_post p i True (freed i ?q)"
      using invf free by (simp add: release_post_def pool_step_def)
    moreover have "wp (gp_deallocate i) (\<lambda>_. Q True) E ?q = Q True (freed i ?q)"
      using ltq u nc free q[of i] new_block_of[OF idq]
      by (simp add: gp_deallocate_def blk_mark_free_def wp_simps freed_def)
    ultimately show ?thesis using ok lt u free pos
      by (auto simp: gp_release_def wp_simps gp_ref_def gp_hash_def)
  qed
qed

lemma wp_gp_release_err:
  assumes "\<not> (i \<in> gp_used p \<and> 0 < gp_ref p i)"
  shows "wp (gp_release i) Q E p = E (if i < gp_capacity p then RuntimeError else IndexError) p"
  using assms by (auto simp: gp_release_def wp_simps gp_ref_def)

subsection \<open>The free count\<close>

definition idle_pages :: "gpu_pool \<Rightarrow> nat set" where
  "idle_pages p = {i. i < gp_capacity p \<and> gp_ref p i = 0}"

lemma finite_idle_pages [simp]: "finite (idle_pages p)"
  by (simp add: idle_pages_def)

lemma free_count_idle: "gpu_inv p \<Longrightarrow> gp_free_count p = card (idle_pages p)"
  by (simp add: gpu_free_count idle_pages_def)

lemma alloc_post_free_count:
  assumes "gpu_inv p" and "alloc_post p i t"
  shows "gp_free_count p = Suc (gp_free_count t)"
proof -
  have "idle_pages t = idle_pages p - {i}" and "i \<in> idle_pages p" and "gpu_inv t"
    using assms(2) by (auto simp: alloc_post_def pool_step_def idle_pages_def split: if_splits)
  then show ?thesis using assms(1) card.remove[of "idle_pages p" i] by (simp add: free_count_idle)
qed

lemma retain_post_free_count:
  assumes "gpu_inv p" and "i < gp_capacity p" and "retain_post p i t"
  shows "gp_free_count p = gp_free_count t + (if gp_ref p i = 0 then 1 else 0)"
proof -
  have "idle_pages t = idle_pages p - {i}" and "gpu_inv t" and "gp_ref p i = 0 \<Longrightarrow> i \<in> idle_pages p"
    and "gp_ref p i \<noteq> 0 \<Longrightarrow> i \<notin> idle_pages p"
    using assms gpu_invD(2)[OF assms(1,2)]
    by (auto simp: retain_post_def pool_step_def idle_pages_def split: if_splits)
  then show ?thesis using assms(1) card.remove[of "idle_pages p" i]
    by (cases "gp_ref p i = 0") (simp_all add: free_count_idle)
qed

lemma release_post_free_count:
  assumes "gpu_inv p" and "i < gp_capacity p" and "0 < gp_ref p i" and "release_post p i r t"
  shows "gp_free_count t = gp_free_count p + (if gp_ref p i = 1 then 1 else 0)"
proof -
  have "idle_pages t = (if gp_ref p i = 1 then insert i (idle_pages p) else idle_pages p)"
    and "gpu_inv t" and "i \<notin> idle_pages p"
    using assms by (auto simp: release_post_def pool_step_def idle_pages_def split: if_splits)
  then show ?thesis using assms(1) by (simp add: free_count_idle)
qed

subsection \<open>Allocating several pages\<close>

definition many_post :: "gpu_pool \<Rightarrow> nat list \<Rightarrow> gpu_pool \<Rightarrow> bool" where
  "many_post p is t \<longleftrightarrow> pool_step p t \<and> distinct is \<and> set is \<subseteq> idle_pages p \<and>
     gp_ref t = (\<lambda>j. if j \<in> set is then 1 else gp_ref p j) \<and>
     (\<forall>j \<in> set is. gp_hash t j = NO_BLOCK_HASH) \<and>
     (\<forall>j. j \<notin> set is \<longrightarrow> gp_blocks t ! j = gp_blocks p ! j) \<and> gp_index t \<subseteq>\<^sub>m gp_index p"

lemma many_post_Nil: "gpu_inv p \<Longrightarrow> many_post p [] p"
  by (auto simp: many_post_def pool_step_def)

lemma many_post_snoc:
  assumes "many_post p is q" and "alloc_post q i t"
  shows "many_post p (is @ [i]) t"
proof -
  have blks: "gp_blocks t ! j = gp_blocks q ! j" if "j \<noteq> i" for j
    using assms(2) that by (simp add: alloc_post_def)
  have ne: "i \<notin> set is" and "i \<in> idle_pages p"
    using assms by (auto simp: many_post_def alloc_post_def pool_step_def idle_pages_def split: if_splits)
  moreover have "gp_hash t j = NO_BLOCK_HASH" if "j \<in> set is" for j
    using blks[of j] ne that assms(1) by (cases "j = i") (auto simp: gp_hash_def many_post_def)
  ultimately show ?thesis
    using assms by (auto simp: many_post_def alloc_post_def pool_step_def fun_eq_iff intro: map_le_trans)
qed

lemma many_post_free_count:
  assumes "gpu_inv p" and "many_post p is t"
  shows "gp_free_count t + length is = gp_free_count p"
proof -
  have "idle_pages t = idle_pages p - set is" and "gpu_inv t"
    using assms by (auto simp: many_post_def pool_step_def idle_pages_def split: if_splits)
  moreover have "set is \<subseteq> idle_pages p" and "distinct is" using assms(2) by (auto simp: many_post_def)
  ultimately show ?thesis
    using assms(1) card_mono[of "idle_pages p" "set is"]
    by (simp add: free_count_idle card_Diff_subset distinct_card)
qed

lemma wp_alloc_loop:
  assumes inv: "gpu_inv p" and "many_post p acc q" and "n \<le> gp_free_count q"
    and ok: "\<And>is t. many_post p is t \<Longrightarrow> length is = length acc + n \<Longrightarrow> Q is t"
  shows "wp (gp_alloc_loop n acc) Q E q"
  using assms(2-)
proof (induction n arbitrary: acc q)
  case 0
  then show ?case by (simp add: wp_simps)
next
  case (Suc n)
  have inv_q: "gpu_inv q" using Suc.prems(1) by (simp add: many_post_def pool_step_def)
  have step: "wp (gp_alloc_loop n (acc @ [i])) Q E t" if "alloc_post q i t" for i t
    using Suc.prems that alloc_post_free_count[OF inv_q that]
    by (intro Suc.IH many_post_snoc[OF Suc.prems(1)]) auto
  show ?case
    unfolding gp_alloc_loop.simps wp_simps
    by (rule wp_allocate_free[OF inv_q]) (use step Suc.prems(2) in auto)
qed

lemma wp_allocate_many:
  assumes inv: "gpu_inv p"
    and ok: "\<And>is t. count \<le> gp_free_count p \<Longrightarrow> many_post p is t \<Longrightarrow> length is = count \<Longrightarrow> Q is t"
    and full: "gp_free_count p < count \<Longrightarrow> E RuntimeError p"
  shows "wp (gp_allocate_many count) Q E p"
  using full wp_alloc_loop[OF inv many_post_Nil[OF inv], of count Q E] ok
  by (auto simp: gp_allocate_many_def wp_simps)

subsection \<open>The prefix-hash index\<close>

definition register_post ::
    "gpu_pool \<Rightarrow> nat \<Rightarrow> int \<Rightarrow> int list \<Rightarrow> mm_hashes \<Rightarrow> gpu_pool \<Rightarrow> bool" where
  "register_post p i h toks mm t \<longleftrightarrow> pool_step p t \<and> gp_ref t = gp_ref p \<and> gp_used t = gp_used p \<and>
     gp_cached t = gp_cached p \<and>
     gp_blocks t = (gp_blocks p)[i := blk_update h toks mm (gp_blocks p ! i)] \<and>
     (\<forall>k j. gp_index t k = Some j \<longrightarrow> gp_index p k = Some j \<or> k = h \<and> j = i) \<and>
     (h \<noteq> NO_BLOCK_HASH \<longrightarrow> gp_index t h = Some i)"

definition hashed :: "nat \<Rightarrow> int \<Rightarrow> int list \<Rightarrow> mm_hashes \<Rightarrow> gpu_pool \<Rightarrow> gpu_pool" where
  "hashed i h toks mm p =
     (let b = gp_blocks p ! i;
          q = (unindexed b p)\<lparr>gp_blocks := (gp_blocks p)[i := blk_update h toks mm b]\<rparr>
      in if h \<noteq> NO_BLOCK_HASH then q\<lparr>gp_index := (gp_index q)(h \<mapsto> i)\<rparr> else q)"

lemma blk_update_fields [simp]:
  "blk_id (blk_update h toks mm b) = blk_id b" "blk_ref (blk_update h toks mm b) = blk_ref b"
  "blk_hash (blk_update h toks mm b) = h" "blk_tokens (blk_update h toks mm b) = toks"
  "blk_mm (blk_update h toks mm b) = mm"
  by (simp_all add: blk_update_def)

lemma hashed_post:
  assumes inv: "gpu_inv p" and lt: "i < gp_capacity p" and u: "i \<in> gp_used p \<or> h = NO_BLOCK_HASH \<and> toks = [] \<and> mm = None"
  shows "register_post p i h toks mm (hashed i h toks mm p)"
proof -
  let ?t = "hashed i h toks mm p"
  have id: "blk_id (gp_blocks p ! i) = i" using gpu_invD(1)[OF inv lt] .
  have f: "gp_capacity ?t = gp_capacity p" "gp_used ?t = gp_used p" "gp_free ?t = gp_free p"
    "gp_free_set ?t = gp_free_set p" "gp_retain ?t = gp_retain p" "gp_cached ?t = gp_cached p"
    "gp_blocks ?t = (gp_blocks p)[i := blk_update h toks mm (gp_blocks p ! i)]"
    by (simp_all add: hashed_def Let_def gp_capacity_def)
  have b: "gp_blocks ?t ! j = (if j = i then blk_update h toks mm (gp_blocks p ! i) else gp_blocks p ! j)" for j
    using lt f by (auto simp: gp_capacity_def)
  have r: "gp_ref ?t = gp_ref p" "gp_hash ?t = (gp_hash p)(i := h)"
    using b by (auto simp: gp_ref_def gp_hash_def fun_eq_iff)
  have idx: "gp_index ?t k = Some j \<longleftrightarrow>
      (if k = h \<and> h \<noteq> NO_BLOCK_HASH then j = i
       else gp_index p k = Some j \<and> \<not> (k = gp_hash p i \<and> k \<noteq> NO_BLOCK_HASH \<and> j = i))" for k j
    using unindexed_index[of "gp_blocks p ! i" p k j] id
    by (auto simp: hashed_def Let_def gp_hash_def)
  have fresh: "gp_blocks p ! i = new_block i" if "i \<notin> gp_used p"
    using gpu_invD(4,10)[OF inv] lt that by simp
  have nb: "blk_update NO_BLOCK_HASH [] None (new_block i) = new_block i"
    by (simp add: blk_update_def new_block_def)
  have I: "j \<in> gp_used p \<and> gp_hash p j = k \<and> k \<noteq> NO_BLOCK_HASH" if "gp_index p k = Some j" for k j
    using gpu_invD(11)[OF inv that] .
  have "gpu_inv ?t"
    unfolding gpu_inv_def f(1-6) r
  proof (intro conjI)
    show "\<forall>j\<in>gp_free_set p. gp_blocks ?t ! j = new_block j"
      using gpu_invD(4,10)[OF inv] u fresh nb by (auto simp: b)
    show "\<forall>j<gp_capacity p. blk_id (gp_blocks ?t ! j) = j \<and> 0 \<le> gp_ref p j"
      using gpu_invD(1,2)[OF inv] id by (auto simp: b)
    show "\<forall>k j. gp_index ?t k = Some j \<longrightarrow>
        j \<in> gp_used p \<and> ((gp_hash p)(i := h)) j = k \<and> k \<noteq> NO_BLOCK_HASH"
      using I u by (auto simp: idx split: if_splits)
  qed (use inv in \<open>auto simp: gpu_inv_def\<close>)
  then show ?thesis
    using f r idx by (auto simp: register_post_def pool_step_def split: if_splits)
qed

lemma wp_register_hash:
  assumes inv: "gpu_inv p" and u: "i \<in> gp_used p" "0 < gp_ref p i"
    and ok: "\<And>t. register_post p i h toks mm t \<Longrightarrow> Q () t"
  shows "wp (gp_register_hash i h toks mm) Q E p"
proof -
  have lt: "i < gp_capacity p" using gpu_invD(3)[OF inv u(1)] .
  have "wp (gp_register_hash i h toks mm) Q E p = Q () (hashed i h toks mm p)"
    using lt u by (simp add: gp_register_hash_def wp_simps hashed_def Let_def gp_ref_def)
  then show ?thesis using ok[OF hashed_post[OF inv lt]] u(1) by simp
qed

lemma wp_register_hash_err:
  assumes "\<not> (i \<in> gp_used p \<and> 0 < gp_ref p i)"
  shows "wp (gp_register_hash i h toks mm) Q E p =
           E (if i < gp_capacity p then RuntimeError else IndexError) p"
  using assms by (auto simp: gp_register_hash_def wp_simps gp_ref_def)

lemma wp_clear_hash:
  assumes inv: "gpu_inv p"
    and ok: "\<And>t. i < gp_capacity p \<Longrightarrow> register_post p i NO_BLOCK_HASH [] None t \<Longrightarrow> Q () t"
    and err: "\<not> i < gp_capacity p \<Longrightarrow> E IndexError p"
  shows "wp (gp_clear_hash i) Q E p"
proof (cases "i < gp_capacity p")
  case True
  have "wp (gp_clear_hash i) Q E p = Q () (hashed i NO_BLOCK_HASH [] None p)"
    using True by (simp add: gp_clear_hash_def wp_simps hashed_def Let_def)
  then show ?thesis using ok[OF True hashed_post[OF inv True]] by simp
qed (use err in \<open>simp add: gp_clear_hash_def wp_simps\<close>)

text \<open>In a state satisfying the invariant \<open>lookup\<close> never raises, and it is a pure query.\<close>

definition found :: "gpu_pool \<Rightarrow> int \<Rightarrow> int list \<Rightarrow> mm_hashes \<Rightarrow> nat option" where
  "found p h toks mm = (case gp_index p h of None \<Rightarrow> None
     | Some i \<Rightarrow> if h \<noteq> NO_BLOCK_HASH \<and> blk_tokens (gp_blocks p ! i) = toks \<and>
                    opt_dict_eq (blk_mm (gp_blocks p ! i)) mm then Some i else None)"

lemma wp_gp_lookup:
  assumes inv: "gpu_inv p"
  shows "wp (gp_lookup h toks mm) Q E p = Q (found p h toks mm) p"
proof (cases "gp_index p h")
  case None
  then show ?thesis by (simp add: gp_lookup_def wp_simps found_def)
next
  case (Some i)
  have "i \<in> gp_used p" and "h \<noteq> NO_BLOCK_HASH" using gpu_invD(11)[OF inv Some] by auto
  moreover from this have "i < gp_capacity p" using gpu_invD(3)[OF inv] by blast
  moreover from this have "0 \<le> blk_ref (gp_blocks p ! i)" using gpu_invD(2)[OF inv] by (simp add: gp_ref_def)
  ultimately show ?thesis using Some by (simp add: gp_lookup_def wp_simps found_def)
qed

lemma found_used:
  "gpu_inv p \<Longrightarrow> found p h toks mm = Some i \<Longrightarrow>
     i \<in> gp_used p \<and> gp_hash p i = h \<and> h \<noteq> NO_BLOCK_HASH \<and> blk_tokens (gp_blocks p ! i) = toks \<and>
     opt_dict_eq (blk_mm (gp_blocks p ! i)) mm"
  by (auto simp: found_def split: option.splits if_splits dest: gpu_invD(11))

lemma wp_collect_blocks:
  "wp (collect ids gp_block) Q E p =
     (if list_all (\<lambda>i. i < gp_capacity p) ids then Q (map (\<lambda>i. gp_blocks p ! i) ids) p
      else E IndexError p)"
  by (induction ids arbitrary: Q) (simp_all add: wp_simps)

lemma wp_validate_owned:
  "wp (gp_validate_owned ids) Q E p =
     (if \<not> list_all (\<lambda>i. i < gp_capacity p) ids then E IndexError p
      else if \<not> distinct ids then E RuntimeError p
      else if list_all (\<lambda>i. i \<in> gp_used p \<and> 0 < gp_ref p i) ids then Q ids p
      else E RuntimeError p)"
proof -
  have "list_all (\<lambda>(i, b). i \<in> gp_used p \<and> 0 < blk_ref b) (zip ids (map (\<lambda>i. gp_blocks p ! i) ids))
      = list_all (\<lambda>i. i \<in> gp_used p \<and> 0 < gp_ref p i) ids"
    by (induction ids) (auto simp: gp_ref_def)
  then show ?thesis by (simp add: gp_validate_owned_def wp_simps wp_collect_blocks)
qed

subsection \<open>Deallocation\<close>

lemma wp_gp_deallocate:
  assumes inv: "gpu_inv p"
    and ok: "\<And>t. i \<in> gp_used p \<Longrightarrow> gp_ref p i = 0 \<Longrightarrow> pool_step p t \<Longrightarrow> i \<in> gp_free_set t \<Longrightarrow>
      gp_ref t = gp_ref p \<Longrightarrow> gp_used t = gp_used p - {i} \<Longrightarrow> Q () t"
    and err: "\<And>e. \<not> (i \<in> gp_used p \<and> gp_ref p i = 0) \<Longrightarrow> E e p"
  shows "wp (gp_deallocate i) Q E p"
proof (cases "i \<in> gp_used p \<and> gp_ref p i = 0")
  case True
  then have u: "i \<in> gp_used p" and r0: "gp_ref p i = 0" by auto
  have c: "i \<in> set (gp_cached p)" using gpu_invD(8)[OF inv] True by auto
  have ret: "gp_retain p" using gpu_invD(9)[OF inv] c by (cases "gp_retain p") auto
  let ?q = "p\<lparr>gp_cached := remove1 i (gp_cached p)\<rparr>"
  have lt: "i < gp_capacity ?q" and id: "blk_id (gp_blocks ?q ! i) = i"
    using gpu_invD(1,3)[OF inv] u by auto
  note F = freed_facts[OF lt id]
  have "gpu_inv_but i ?q"
    using inv gpu_invD(7)[OF inv] ret unfolding gpu_inv_def gpu_inv_but_def gp_capacity_upd gp_ref_upd
    by auto
  then have invf: "gpu_inv (freed i ?q)" using u r0 by (intro freed_inv) simp_all
  then have "pool_step p (freed i ?q)" using F by (simp add: pool_step_def)
  moreover have "gp_ref (freed i ?q) = gp_ref p" using F(4) r0 by (auto simp: fun_eq_iff)
  moreover have "wp (gp_deallocate i) Q E p = Q () (freed i ?q)"
    using lt u c ret r0 new_block_of[OF id]
    by (simp add: gp_deallocate_def blk_mark_free_def wp_simps freed_def gp_ref_def)
  ultimately show ?thesis using ok[OF u r0, of "freed i ?q"] by (simp add: freed_def)
next
  case False
  then show ?thesis using err by (auto simp: gp_deallocate_def wp_simps gp_ref_def)
qed

section \<open>The pool as a state machine and as a page allocator\<close>

datatype gpu_call =
    GpuAllocate | GpuAllocateMany nat | GpuRetain nat | GpuRelease nat | GpuDeallocate nat
  | GpuRegister nat int "int list" mm_hashes | GpuClear nat | GpuLookup int "int list" mm_hashes
  | GpuValidate "nat list"

fun gpu_exec :: "gpu_call \<Rightarrow> (nat list, gpu_pool) op" where
  "gpu_exec GpuAllocate = bnd gp_allocate_free (\<lambda>i. ret [i])"
| "gpu_exec (GpuAllocateMany n) = gp_allocate_many n"
| "gpu_exec (GpuRetain i) = bnd (gp_retain_ref i) (\<lambda>j. ret [j])"
| "gpu_exec (GpuRelease i) = bnd (gp_release i) (\<lambda>_. ret [])"
| "gpu_exec (GpuDeallocate i) = bnd (gp_deallocate i) (\<lambda>_. ret [])"
| "gpu_exec (GpuRegister i h toks mm) = bnd (gp_register_hash i h toks mm) (\<lambda>_. ret [])"
| "gpu_exec (GpuClear i) = bnd (gp_clear_hash i) (\<lambda>_. ret [])"
| "gpu_exec (GpuLookup h toks mm) = bnd (gp_lookup h toks mm) (\<lambda>x. ret (case x of None \<Rightarrow> [] | Some i \<Rightarrow> [i]))"
| "gpu_exec (GpuValidate ids) = gp_validate_owned ids"

definition gpu_step :: "gpu_pool \<Rightarrow> gpu_call \<Rightarrow> gpu_pool \<Rightarrow> bool" where
  "gpu_step p c t \<longleftrightarrow> t = snd (gpu_exec c p)"

lemma pool_step_refl: "gpu_inv p \<Longrightarrow> pool_step p p"
  by (simp add: pool_step_def)

lemma gpu_exec_step:
  assumes inv: "gpu_inv p"
  shows "wp (gpu_exec c) (\<lambda>_. pool_step p) (\<lambda>_. pool_step p) p"
proof (cases c)
  case GpuAllocate
  then show ?thesis
    by (auto simp: wp_simps pool_step_def alloc_post_def intro!: wp_allocate_free[OF inv])
next
  case (GpuAllocateMany n)
  then show ?thesis
    by (auto simp: pool_step_refl[OF inv] many_post_def intro!: wp_allocate_many[OF inv])
next
  case (GpuRetain i)
  then show ?thesis
    by (cases "i \<in> gp_used p")
      (auto simp: wp_simps retain_post_def pool_step_refl[OF inv] wp_gp_retain_err[OF inv]
        intro!: wp_gp_retain[OF inv])
next
  case (GpuRelease i)
  then show ?thesis
    by (cases "i \<in> gp_used p \<and> 0 < gp_ref p i")
      (auto simp: wp_simps release_post_def pool_step_refl[OF inv] wp_gp_release_err
        intro!: wp_gp_release[OF inv])
next
  case (GpuDeallocate i)
  then show ?thesis
    by (auto simp: wp_simps pool_step_refl[OF inv] intro!: wp_gp_deallocate[OF inv])
next
  case (GpuRegister i h toks mm)
  then show ?thesis
    by (cases "i \<in> gp_used p \<and> 0 < gp_ref p i")
      (auto simp: wp_simps register_post_def pool_step_refl[OF inv] wp_register_hash_err
        intro!: wp_register_hash[OF inv])
next
  case (GpuClear i)
  then show ?thesis
    by (auto simp: wp_simps register_post_def pool_step_refl[OF inv] intro!: wp_clear_hash[OF inv])
next
  case (GpuLookup h toks mm)
  then show ?thesis by (simp add: wp_simps wp_gp_lookup[OF inv] pool_step_refl[OF inv])
next
  case (GpuValidate ids)
  then show ?thesis by (simp add: wp_validate_owned pool_step_refl[OF inv])
qed

interpretation gpu_machine: constant_system
  "\<lambda>p. \<exists>n r. gpu_init n r = Inr p" gpu_step gpu_inv "\<lambda>p. (gp_capacity p, gp_retain p)"
  using gpu_exec_step
  by unfold_locales (auto simp: gpu_init_inv gpu_step_def wp_always pool_step_def)

interpretation gpu_pages: page_allocator gpu_inv idle_pages gp_capacity gp_allocate_many
proof unfold_locales
  fix p n
  assume inv: "gpu_inv p"
  show "idle_pages p \<subseteq> {..<gp_capacity p}" by (auto simp: idle_pages_def)
  show "wp (gp_allocate_many n) (\<lambda>is t. gpu_inv t \<and> gp_capacity t = gp_capacity p \<and>
      length is = n \<and> distinct is \<and> set is \<subseteq> idle_pages p \<and> idle_pages t = idle_pages p - set is)
      (\<lambda>_ _. False) p" if "n \<le> card (idle_pages p)"
    using that free_count_idle[OF inv]
    by (intro wp_allocate_many[OF inv])
      (auto simp: many_post_def pool_step_def, auto simp: idle_pages_def split: if_splits)
  show "wp (gp_allocate_many n) (\<lambda>_ _. False) (\<lambda>e t. e = RuntimeError \<and> t = p) p"
    if "card (idle_pages p) < n"
    using that free_count_idle[OF inv] by (intro wp_allocate_many[OF inv]) auto
qed

section \<open>Properties\<close>

definition example_pool :: gpu_pool where
  "example_pool = (case gpu_init 2 True of Inr p \<Rightarrow> p)"

lemma example_pool_init: "gpu_init 2 True = Inr example_pool"
  by (simp add: example_pool_def gpu_init_def)

text \<open>C27: whatever sequence of public calls, successful or raising, is made on a new GPU pool,
  the pages are partitioned into used and free ones, no reference count is negative, a free page
  is blank, the reported free count is the number of pages without references, the prefix index
  only points to used pages that carry the indexed hash, and the capacity never changes.\<close>

theorem gpu_pool_consistent:
  assumes "gpu_init n retain = Inr p" and "run gpu_step p calls q"
  shows "gp_capacity q = nat n \<and> gp_free_set q \<union> gp_used q = {..<nat n} \<and>
    gp_free_set q \<inter> gp_used q = {} \<and> (\<forall>i < nat n. 0 \<le> gp_ref q i) \<and>
    (\<forall>i \<in> gp_free_set q. gp_blocks q ! i = new_block i) \<and>
    gp_free_count q = card {i. i < nat n \<and> gp_ref q i = 0} \<and>
    (\<forall>h i. gp_index q h = Some i \<longrightarrow> i \<in> gp_used q \<and> gp_hash q i = h \<and> h \<noteq> NO_BLOCK_HASH)"
proof -
  have inv: "gpu_inv q" using gpu_machine.run_inv[OF assms(2)] gpu_init_inv[OF assms(1)] by simp
  have "gp_capacity q = gp_capacity p"
    using gpu_machine.run_const[OF assms(2)] gpu_init_inv[OF assms(1)] by simp
  then have cap: "gp_capacity q = nat n"
    using assms(1) by (auto simp: gpu_init_def gp_capacity_def split: if_splits)
  show ?thesis
    using gpu_invD(2,3,4,10,11)[OF inv] gpu_free_count[OF inv] unfolding cap by auto
qed

theorem gpu_pool_consistent_witness:
  "gp_capacity (snd (gpu_exec GpuAllocate example_pool)) = 2"
  using gpu_pool_consistent[OF example_pool_init, of "[GpuAllocate]"]
  by (simp add: run_Cons_iff gpu_step_def)

text \<open>C28: \<open>allocate_many\<close> succeeds exactly when the free count covers the request; then it returns
  that many distinct pages that nobody referenced, each now referenced once and all others
  untouched; otherwise it raises \<open>RuntimeError\<close> and changes nothing at all.\<close>

theorem gpu_allocate_many_atomic:
  assumes "gpu_inv p"
  shows "(\<exists>is t. gp_allocate_many n p = (Inr is, t) \<and> n \<le> gp_free_count p \<and> length is = n \<and>
        distinct is \<and> (\<forall>i \<in> set is. gp_ref p i = 0 \<and> gp_ref t i = 1 \<and> i < gp_capacity p) \<and>
        (\<forall>j. j \<notin> set is \<longrightarrow> gp_blocks t ! j = gp_blocks p ! j) \<and>
        gp_free_count t + n = gp_free_count p \<and> gpu_inv t) \<or>
    gp_allocate_many n p = (Inl RuntimeError, p) \<and> gp_free_count p < n"
proof (cases "n \<le> gp_free_count p")
  case True
  have "wp (gp_allocate_many n) (\<lambda>is t. many_post p is t \<and> length is = n) (\<lambda>_ _. False) p"
    using True by (intro wp_allocate_many[OF assms]) auto
  then obtain "is" t where R: "gp_allocate_many n p = (Inr is, t)" "many_post p is t" "length is = n"
    by (auto simp: wp_total)
  then show ?thesis
    using True many_post_free_count[OF assms R(2)]
    by (auto simp: many_post_def pool_step_def idle_pages_def)
next
  case False
  have "wp (gp_allocate_many n) (\<lambda>_ _. False) (\<lambda>e t. e = RuntimeError \<and> t = p) p"
    using False by (intro wp_allocate_many[OF assms]) auto
  then show ?thesis using False by (auto simp: wp_def split: prod.splits sum.splits)
qed

theorem gpu_allocate_many_atomic_witness:
  "gp_allocate_many 3 example_pool = (Inl RuntimeError, example_pool)"
  using gpu_allocate_many_atomic[OF gpu_init_inv[OF example_pool_init], of 3]
  by (simp add: example_pool_def gpu_init_def gp_free_count_def)

text \<open>C29: registering a hash on a referenced page and looking it up gives that page back, and a
  lookup never returns a page whose tokens or media identities differ from the query, nor one that
  is not in use: a stored hash alone is never trusted.\<close>

theorem gpu_register_lookup:
  assumes "gpu_inv p" and "i \<in> gp_used p" and "0 < gp_ref p i" and "h \<noteq> NO_BLOCK_HASH"
  shows "\<exists>t. gp_register_hash i h toks mm p = (Inr (), t) \<and>
    gp_lookup h toks mm t = (Inr (Some i), t) \<and>
    (\<forall>h' toks' mm'. \<exists>r. gp_lookup h' toks' mm' t = (Inr r, t) \<and>
       (\<forall>j. r = Some j \<longrightarrow> j \<in> gp_used t \<and> gp_hash t j = h' \<and> blk_tokens (gp_blocks t ! j) = toks' \<and>
              opt_dict_eq (blk_mm (gp_blocks t ! j)) mm'))"
proof -
  have "wp (gp_register_hash i h toks mm) (\<lambda>_. register_post p i h toks mm) (\<lambda>_ _. False) p"
    by (rule wp_register_hash[OF assms(1-3)])
  then obtain t where t: "gp_register_hash i h toks mm p = (Inr (), t)" "register_post p i h toks mm t"
    by (auto simp: wp_total)
  have inv: "gpu_inv t" using t(2) by (simp add: register_post_def pool_step_def)
  have look: "gp_lookup h' toks' mm' t = (Inr (found t h' toks' mm'), t)" for h' toks' mm'
    using wp_gp_lookup[OF inv, of h' toks' mm' "\<lambda>r u. r = found t h' toks' mm' \<and> u = t" "\<lambda>_ _. False"]
    by (simp add: wp_total)
  have "found t h toks mm = Some i"
    using t(2) assms(4) gpu_invD(3)[OF assms(1,2)]
    by (simp add: found_def register_post_def gp_capacity_def)
  then show ?thesis using t(1) look found_used[OF inv] by fastforce
qed

theorem gpu_register_lookup_witness:
  "\<exists>p t. gp_register_hash 0 7 [1, 2] None p = (Inr (), t) \<and>
     gp_lookup 7 [1, 2] None t = (Inr (Some 0), t)"
proof -
  have "gpu_inv (activated 0 example_pool)"
    using activated_post[OF gpu_init_inv[OF example_pool_init], of 0]
    by (simp add: alloc_post_def pool_step_def) (simp add: example_pool_def gpu_init_def)
  moreover have "0 \<in> gp_used (activated 0 example_pool)" and "0 < gp_ref (activated 0 example_pool) 0"
    by (simp_all add: activated_def example_pool_def gpu_init_def gp_ref_def)
  moreover have "(7::int) \<noteq> NO_BLOCK_HASH" by (simp add: NO_BLOCK_HASH_def)
  ultimately show ?thesis using gpu_register_lookup[of "activated 0 example_pool" 0 7 "[1, 2]" None] by blast
qed

text \<open>In a pool that retains hashed pages, dropping the last reference of an indexed page keeps
  it findable under its hash, counts it as free, and a later \<open>retain\<close> revives it with one
  reference and the same contents; without retention, or without a hash, the page is wiped and
  free.\<close>

theorem gpu_release_last_reference:
  assumes "gpu_inv p" and "i \<in> gp_used p" and "gp_ref p i = 1"
  shows "\<exists>r t. gp_release i p = (Inr r, t) \<and> gp_free_count t = gp_free_count p + 1 \<and>
    (if gp_retain p \<and> gp_hash p i \<noteq> NO_BLOCK_HASH
     then \<not> r \<and> gp_index t = gp_index p \<and>
       (\<exists>u. gp_retain_ref i t = (Inr i, u) \<and> gp_blocks u = gp_blocks p \<and> gp_index u = gp_index p)
     else r \<and> i \<in> gp_free_set t \<and> gp_blocks t ! i = new_block i)"
proof -
  have lt: "i < gp_capacity p" using gpu_invD(3)[OF assms(1,2)] .
  have "wp (gp_release i) (release_post p i) (\<lambda>_ _. False) p"
    using assms(3) by (intro wp_gp_release[OF assms(1,2)]) simp_all
  then obtain r t where t: "gp_release i p = (Inr r, t)" "release_post p i r t" by (auto simp: wp_total)
  have inv: "gpu_inv t" and cap: "gp_capacity t = gp_capacity p"
    using t(2) by (simp_all add: release_post_def pool_step_def)
  have cnt: "gp_free_count t = gp_free_count p + 1"
    using release_post_free_count[OF assms(1) lt _ t(2)] assms(3) by simp
  show ?thesis
  proof (cases "gp_retain p \<and> gp_hash p i \<noteq> NO_BLOCK_HASH")
    case True
    then have nr: "\<not> r" and u: "i \<in> gp_used t" using t(2) assms(2) by (auto simp: release_post_def)
    have "wp (gp_retain_ref i) (\<lambda>j u. j = i \<and> retain_post t i u) (\<lambda>_ _. False) t"
      by (rule wp_gp_retain[OF inv u]) simp
    then obtain v where v: "gp_retain_ref i t = (Inr i, v)" "retain_post t i v" by (auto simp: wp_total)
    have "gp_blocks v ! j = gp_blocks p ! j" if "j < gp_capacity p" for j
      using t(2) v(2) nr assms(3) that cap
      by (cases "j = i") (auto simp: release_post_def retain_post_def gp_capacity_def gp_ref_def)
    then have "gp_blocks v = gp_blocks p"
      using v(2) cap by (intro nth_equalityI) (auto simp: retain_post_def pool_step_def gp_capacity_def)
    then show ?thesis using True t cnt nr v by (auto simp: release_post_def retain_post_def)
  next
    case False
    then have r: r using t(2) assms(3) by (simp add: release_post_def)
    moreover have "i \<in> gp_free_set t"
      using gpu_invD(4)[OF inv] t(2) r cap lt by (simp add: release_post_def)
    ultimately show ?thesis using False t cnt by (auto simp: release_post_def)
  qed
qed

theorem gpu_release_last_reference_witness:
  "\<exists>r t. gp_release 0 (activated 0 example_pool) = (Inr r, t) \<and> r"
proof -
  have "gpu_inv (activated 0 example_pool)"
    using activated_post[OF gpu_init_inv[OF example_pool_init], of 0]
    by (simp add: alloc_post_def pool_step_def) (simp add: example_pool_def gpu_init_def)
  moreover have "0 \<in> gp_used (activated 0 example_pool)" and "gp_ref (activated 0 example_pool) 0 = 1"
      and "gp_hash (activated 0 example_pool) 0 = NO_BLOCK_HASH"
    by (simp_all add: activated_def example_pool_def gpu_init_def gp_ref_def gp_hash_def)
  ultimately show ?thesis using gpu_release_last_reference[of "activated 0 example_pool" 0] by auto
qed

end
