(* ===== verification/Cpu_Pool.thy ===== *)
theory Cpu_Pool imports Transition begin

text \<open>
  \<open>prism_infer/engine/block_pool.py\<close>: \<open>CpuBlockPool\<close>, the ownership-tracked allocator of
  CPU swap pages.  The lemmas prove its invariant, that \<open>allocate_many\<close> is atomic, and that
  releasing what was allocated restores the pool's free pages.
\<close>

section \<open>State\<close>

record cpu_pool =
  cp_capacity :: nat
  cp_free :: "nat list"
  cp_free_set :: "nat set"
  cp_used :: "nat set"

definition cpu_init :: "int \<Rightarrow> py_error + cpu_pool" where
  "cpu_init num_blocks =
     (if num_blocks < 0 then Inl ValueError
      else Inr \<lparr>cp_capacity = nat num_blocks, cp_free = [0..<nat num_blocks],
                cp_free_set = {0..<nat num_blocks}, cp_used = {}\<rparr>)"

definition cp_free_count :: "cpu_pool \<Rightarrow> nat" where
  "cp_free_count p = card (cp_free_set p)"

definition cp_can_allocate :: "nat \<Rightarrow> cpu_pool \<Rightarrow> bool" where
  "cp_can_allocate count p = (count \<le> cp_free_count p)"

section \<open>Operations\<close>

definition cp_validate_block_id :: "nat \<Rightarrow> (nat, cpu_pool) op" where
  "cp_validate_block_id i =
     bnd (gets cp_capacity) (\<lambda>n. thn (chk IndexError (i < n)) (ret i))"

definition cp_pop_free :: "(nat, cpu_pool) op" where
  "cp_pop_free = bnd (gets cp_free) (\<lambda>f. case f of
      [] \<Rightarrow> throw IndexError
    | i # rest \<Rightarrow> thn (upd (\<lambda>p. p\<lparr>cp_free := rest\<rparr>)) (ret i))"

definition cp_take :: "(nat, cpu_pool) op" where
  "cp_take =
     bnd cp_pop_free (\<lambda>i0.
     bnd (cp_validate_block_id i0) (\<lambda>i.
     bnd (gets cp_free_set) (\<lambda>f.
     thn (chk RuntimeError (i \<in> f))
    (thn (upd (\<lambda>p. p\<lparr>cp_free_set := cp_free_set p - {i}, cp_used := insert i (cp_used p)\<rparr>))
     (ret i)))))"

definition cp_untake :: "nat \<Rightarrow> (unit, cpu_pool) op" where
  "cp_untake i =
     bnd (gets cp_used) (\<lambda>u.
     thn (chk KeyError (i \<in> u))
         (upd (\<lambda>p. p\<lparr>cp_used := cp_used p - {i}, cp_free_set := insert i (cp_free_set p),
                     cp_free := i # cp_free p\<rparr>)))"

fun cp_alloc_loop :: "nat \<Rightarrow> nat list \<Rightarrow> (nat list, cpu_pool) op" where
  "cp_alloc_loop 0 acc = ret acc"
| "cp_alloc_loop (Suc n) acc =
     bnd (catch cp_take (\<lambda>e. thn (each (rev acc) cp_untake) (throw e)))
         (\<lambda>i. cp_alloc_loop n (acc @ [i]))"

definition cp_allocate_many :: "nat \<Rightarrow> (nat list, cpu_pool) op" where
  "cp_allocate_many count =
     bnd (gets (cp_can_allocate count)) (\<lambda>ok.
     thn (chk RuntimeError ok) (cp_alloc_loop count []))"

definition cp_validate_owned :: "nat list \<Rightarrow> (nat list, cpu_pool) op" where
  "cp_validate_owned ids =
     thn (each ids (\<lambda>i. thn (cp_validate_block_id i) (ret ())))
    (thn (chk RuntimeError (distinct ids))
    (bnd (gets cp_used) (\<lambda>u.
     thn (chk RuntimeError (list_all (\<lambda>i. i \<in> u) ids)) (ret ids))))"

definition cp_give :: "nat \<Rightarrow> (unit, cpu_pool) op" where
  "cp_give i =
     bnd (gets cp_used) (\<lambda>u.
     thn (chk KeyError (i \<in> u))
         (upd (\<lambda>p. p\<lparr>cp_used := cp_used p - {i}, cp_free_set := insert i (cp_free_set p),
                     cp_free := cp_free p @ [i]\<rparr>)))"

definition cp_release_many :: "nat list \<Rightarrow> (unit, cpu_pool) op" where
  "cp_release_many ids = bnd (cp_validate_owned ids) (\<lambda>owned. each owned cp_give)"

section \<open>Invariant\<close>

definition cpu_inv :: "cpu_pool \<Rightarrow> bool" where
  "cpu_inv p \<longleftrightarrow> distinct (cp_free p) \<and> set (cp_free p) = cp_free_set p \<and>
     cp_used p \<subseteq> {..<cp_capacity p} \<and> cp_free_set p = {..<cp_capacity p} - cp_used p"

lemma cpu_init_inv: "cpu_init n = Inr p \<Longrightarrow> cpu_inv p"
  by (auto simp: cpu_init_def cpu_inv_def split: if_splits)

lemma cpu_free_count: "cpu_inv p \<Longrightarrow> cp_free_count p = length (cp_free p)"
  by (metis cp_free_count_def cpu_inv_def distinct_card)

definition taken :: "nat list \<Rightarrow> cpu_pool \<Rightarrow> cpu_pool" where
  "taken is p = p\<lparr>cp_free := drop (length is) (cp_free p), cp_free_set := cp_free_set p - set is,
                  cp_used := cp_used p \<union> set is\<rparr>"

lemma wp_cp_take:
  assumes inv: "cpu_inv p" and f: "cp_free p = i # rest"
  shows "wp cp_take Q E p = Q i (taken [i] p)"
proof -
  have "i \<in> cp_free_set p" and "i < cp_capacity p" using inv f by (auto simp: cpu_inv_def)
  then show ?thesis
    by (simp add: cp_take_def cp_pop_free_def cp_validate_block_id_def wp_simps f taken_def)
qed

lemma taken_inv: "cpu_inv p \<Longrightarrow> cp_free p = is @ rest \<Longrightarrow> cpu_inv (taken is p)"
  by (auto simp: cpu_inv_def taken_def)

lemma Diff_Un_eq: "A - X - Y = A - (X \<union> Y)"
  by blast

lemma taken_taken:
  "cp_free p = is @ js @ rest \<Longrightarrow> taken js (taken is p) = taken (is @ js) p"
  by (simp add: taken_def Un_assoc Diff_Un_eq)

lemma taken_Nil [simp]: "taken [] p = p"
  by (simp add: taken_def)

lemma wp_cp_alloc_loop:
  assumes inv: "cpu_inv p" and "cp_free p = acc @ is @ rest" and "length is = n"
  shows "wp (cp_alloc_loop n acc) Q E (taken acc p) = Q (acc @ is) (taken (acc @ is) p)"
  using assms(2-)
proof (induction n arbitrary: acc "is")
  case 0
  then show ?case by (simp add: wp_simps)
next
  case (Suc n)
  then obtain i js where i: "is = i # js" by (cases "is") auto
  have "cpu_inv (taken acc p)" using inv Suc.prems(1) by (rule taken_inv)
  moreover have "cp_free (taken acc p) = i # js @ rest" using Suc.prems(1) i by (simp add: taken_def)
  ultimately have step: "wp cp_take Q' E' (taken acc p) = Q' i (taken (acc @ [i]) p)" for Q' E'
    using taken_taken[of p acc "[i]" "js @ rest"] Suc.prems(1) i by (simp add: wp_cp_take)
  show ?case using Suc.IH[of "acc @ [i]" js] Suc.prems i by (simp add: wp_simps step)
qed

lemma wp_cp_allocate_many:
  assumes inv: "cpu_inv p"
  shows "wp (cp_allocate_many n) Q E p =
    (if n \<le> card (cp_free_set p) then Q (take n (cp_free p)) (taken (take n (cp_free p)) p)
     else E RuntimeError p)"
proof -
  have len: "length (cp_free p) = card (cp_free_set p)"
    using cpu_free_count[OF inv] by (simp add: cp_free_count_def)
  have "wp (cp_alloc_loop n []) Q E (taken [] p) = Q ([] @ take n (cp_free p)) (taken ([] @ take n (cp_free p)) p)"
    if "n \<le> card (cp_free_set p)"
    using that len by (intro wp_cp_alloc_loop[OF inv, where rest = "drop n (cp_free p)"]) auto
  then show ?thesis by (simp add: cp_allocate_many_def cp_can_allocate_def cp_free_count_def wp_simps)
qed

text \<open>What releasing a list of owned pages does.\<close>

definition given :: "nat list \<Rightarrow> cpu_pool \<Rightarrow> cpu_pool" where
  "given is p = p\<lparr>cp_used := cp_used p - set is, cp_free_set := cp_free_set p \<union> set is,
                  cp_free := cp_free p @ is\<rparr>"

lemma wp_each_give:
  "distinct is \<Longrightarrow> set is \<subseteq> cp_used p \<Longrightarrow> wp (each is cp_give) Q E p = Q () (given is p)"
proof (induction "is" arbitrary: p)
  case Nil
  then show ?case by (simp add: wp_simps given_def)
next
  case (Cons i js)
  then have "wp (each js cp_give) Q E (given [i] p) = Q () (given js (given [i] p))"
    by (intro Cons.IH) (auto simp: given_def)
  moreover have "given js (given [i] p) = given (i # js) p"
    by (simp add: given_def Diff_Un_eq)
  moreover have "wp (cp_give i) Q' E' p = Q' () (given [i] p)" for Q' E'
    using Cons.prems by (simp add: cp_give_def wp_simps given_def)
  ultimately show ?case by (simp add: wp_simps)
qed

lemma wp_cp_validate_owned:
  "wp (cp_validate_owned ids) Q E p =
     (if \<not> list_all (\<lambda>i. i < cp_capacity p) ids then E IndexError p
      else if distinct ids \<and> list_all (\<lambda>i. i \<in> cp_used p) ids then Q ids p else E RuntimeError p)"
proof -
  have each: "wp (each ids (\<lambda>i. thn (cp_validate_block_id i) (ret ()))) Q E p =
     (if list_all (\<lambda>i. i < cp_capacity p) ids then Q () p else E IndexError p)" for Q
    by (induction ids) (simp_all add: wp_simps cp_validate_block_id_def)
  show ?thesis by (simp add: cp_validate_owned_def wp_simps each)
qed

lemma wp_cp_release_many:
  assumes "cpu_inv p"
  shows "wp (cp_release_many ids) Q E p =
     (if \<not> set ids \<subseteq> {..<cp_capacity p} then E IndexError p
      else if distinct ids \<and> set ids \<subseteq> cp_used p then Q () (given ids p) else E RuntimeError p)"
  by (auto simp: cp_release_many_def wp_simps wp_cp_validate_owned wp_each_give list_all_iff)

lemma given_inv: "cpu_inv p \<Longrightarrow> distinct is \<Longrightarrow> set is \<subseteq> cp_used p \<Longrightarrow> cpu_inv (given is p)"
  by (auto simp: cpu_inv_def given_def)

section \<open>Contracts\<close>

interpretation cpu_pages: page_allocator cpu_inv cp_free_set cp_capacity cp_allocate_many
proof unfold_locales
  fix p n
  assume inv: "cpu_inv p"
  show "cp_free_set p \<subseteq> {..<cp_capacity p}" using inv by (auto simp: cpu_inv_def)
  have len: "length (cp_free p) = card (cp_free_set p)"
    using cpu_free_count[OF inv] by (simp add: cp_free_count_def)
  have sub: "set (take n (cp_free p)) \<subseteq> cp_free_set p"
    using inv by (auto simp: cpu_inv_def dest: in_set_takeD)
  have "cpu_inv (taken (take n (cp_free p)) p)"
    by (rule taken_inv[OF inv, where rest = "drop n (cp_free p)"]) simp
  then show "wp (cp_allocate_many n) (\<lambda>is t. cpu_inv t \<and> cp_capacity t = cp_capacity p \<and>
      length is = n \<and> distinct is \<and> set is \<subseteq> cp_free_set p \<and> cp_free_set t = cp_free_set p - set is)
      (\<lambda>_ _. False) p" if "n \<le> card (cp_free_set p)"
    using that inv len sub by (simp add: wp_cp_allocate_many) (simp add: taken_def cpu_inv_def)
  show "wp (cp_allocate_many n) (\<lambda>_ _. False) (\<lambda>e t. e = RuntimeError \<and> t = p) p"
    if "card (cp_free_set p) < n"
    using that inv by (simp add: wp_cp_allocate_many)
qed

datatype cpu_call = CpuAllocate nat | CpuRelease "nat list" | CpuValidate "nat list"

fun cpu_exec :: "cpu_call \<Rightarrow> (nat list, cpu_pool) op" where
  "cpu_exec (CpuAllocate n) = cp_allocate_many n"
| "cpu_exec (CpuRelease ids) = thn (cp_release_many ids) (ret ids)"
| "cpu_exec (CpuValidate ids) = cp_validate_owned ids"

definition cpu_step :: "cpu_pool \<Rightarrow> cpu_call \<Rightarrow> cpu_pool \<Rightarrow> bool" where
  "cpu_step p c t \<longleftrightarrow> t = snd (cpu_exec c p)"

lemma cpu_exec_inv:
  assumes "cpu_inv p"
  shows "wp (cpu_exec c) (\<lambda>_ t. cpu_inv t \<and> cp_capacity t = cp_capacity p)
    (\<lambda>_ t. cpu_inv t \<and> cp_capacity t = cp_capacity p) p"
proof (cases c)
  case (CpuAllocate n)
  have "cpu_inv (taken (take n (cp_free p)) p)"
    by (rule taken_inv[OF assms, where rest = "drop n (cp_free p)"]) simp
  then show ?thesis using assms CpuAllocate by (simp add: wp_cp_allocate_many) (simp add: taken_def)
next
  case (CpuRelease ids)
  then show ?thesis using assms given_inv[OF assms, of ids]
    by (simp add: wp_simps wp_cp_release_many) (simp add: given_def)
next
  case (CpuValidate ids)
  then show ?thesis using assms by (simp add: wp_cp_validate_owned)
qed

interpretation cpu_machine: constant_system
  "\<lambda>p. \<exists>n. cpu_init n = Inr p" cpu_step cpu_inv cp_capacity
  using cpu_exec_inv by unfold_locales (auto simp: cpu_init_inv cpu_step_def wp_always)

section \<open>Properties\<close>

text \<open>C39: whatever calls are made on a new CPU pool, its pages stay partitioned into used and free
  ones, the free deque lists every free page exactly once, and the capacity is constant.\<close>

theorem cpu_pool_consistent:
  assumes "cpu_init n = Inr p" and "run cpu_step p calls q"
  shows "cp_capacity q = nat n \<and> cp_free_set q \<union> cp_used q = {..<nat n} \<and>
    cp_free_set q \<inter> cp_used q = {} \<and> distinct (cp_free q) \<and> set (cp_free q) = cp_free_set q \<and>
    cp_free_count q + card (cp_used q) = nat n"
proof -
  have inv: "cpu_inv q" using cpu_machine.run_inv[OF assms(2)] cpu_init_inv[OF assms(1)] by simp
  have "cp_capacity q = cp_capacity p"
    using cpu_machine.run_const[OF assms(2)] cpu_init_inv[OF assms(1)] by simp
  then have cap: "cp_capacity q = nat n" using assms(1) by (auto simp: cpu_init_def split: if_splits)
  have "card ({..<nat n} - cp_used q) + card (cp_used q) = nat n"
    using inv cap card_mono[of "{..<nat n}" "cp_used q"]
    by (subst card_Diff_subset) (auto simp: cpu_inv_def intro: finite_subset)
  then show ?thesis using inv cap by (auto simp: cpu_inv_def cp_free_count_def)
qed

theorem cpu_pool_consistent_witness:
  "\<exists>p. cpu_init 2 = Inr p \<and> cp_capacity (snd (cpu_exec (CpuAllocate 1) p)) = 2"
proof -
  obtain p where p: "cpu_init 2 = Inr p" by (simp add: cpu_init_def)
  then show ?thesis using cpu_pool_consistent[OF p, of "[CpuAllocate 1]"]
    by (simp add: run_Cons_iff cpu_step_def)
qed

text \<open>Pages allocated from the CPU pool and released again leave it with the same free and used
  pages; releasing them a second time is refused with \<open>RuntimeError\<close> and changes nothing.\<close>

theorem cpu_allocate_release:
  assumes "cpu_inv p" and "cp_allocate_many n p = (Inr is, q)"
  shows "\<exists>t. cp_release_many is q = (Inr (), t) \<and> cp_free_set t = cp_free_set p \<and>
    cp_used t = cp_used p \<and> cpu_inv t \<and> length is = n \<and> distinct is \<and>
    (0 < n \<longrightarrow> cp_release_many is t = (Inl RuntimeError, t))"
proof -
  note R = cpu_pages.alloc_result[OF assms]
  have q: "q = taken is p"
    using assms wp_cp_allocate_many[OF assms(1), of n "\<lambda>js t. t = taken js p" "\<lambda>_ _. True"]
    by (simp add: wp_def split: if_splits)
  have sub: "set is \<subseteq> cp_used q" and dis: "set is \<inter> cp_used p = {}" and cap: "set is \<subseteq> {..<cp_capacity q}"
    using R(4) assms(1) by (auto simp: q taken_def cpu_inv_def)
  define t where "t = given is q"
  have t: "cpu_inv t" unfolding t_def by (rule given_inv[OF R(1,3) sub])
  have "cp_release_many is q = (Inr (), t)"
    using wp_cp_release_many[OF R(1), of "is" "\<lambda>_ u. u = t" "\<lambda>_ _. False"] sub cap R(3)
    by (simp add: wp_total t_def)
  moreover have used: "cp_used t = cp_used p" using dis by (auto simp: t_def given_def q taken_def)
  moreover have "cp_free_set t = cp_free_set p"
    using R(4) by (auto simp: t_def given_def q taken_def)
  moreover have "cp_release_many is t = (Inl RuntimeError, t)" if "0 < n"
  proof -
    have "cp_capacity t = cp_capacity q" by (simp add: t_def given_def)
    moreover have "\<not> set is \<subseteq> cp_used t" using used dis R(2) that by (cases "is") auto
    ultimately have "wp (cp_release_many is) (\<lambda>_ _. False) (\<lambda>e u. e = RuntimeError \<and> u = t) t"
      using cap by (simp add: wp_cp_release_many[OF t])
    then show ?thesis by (auto simp: wp_def split: prod.splits sum.splits)
  qed
  ultimately show ?thesis using t R by blast
qed

theorem cpu_allocate_release_witness:
  "\<exists>p t. cp_release_many [0, 1] p = (Inr (), t)"
proof -
  obtain p where p: "cpu_init 3 = Inr p" and f: "cp_free p = [0, 1, 2]" "cp_free_set p = {0..<3}"
    by (simp add: cpu_init_def upt_rec)
  have inv: "cpu_inv p" by (rule cpu_init_inv[OF p])
  have "cp_allocate_many 2 p = (Inr [0, 1], taken [0, 1] p)"
    using wp_cp_allocate_many[OF inv, of 2 "\<lambda>js t. js = [0, 1] \<and> t = taken [0, 1] p" "\<lambda>_ _. False"] f
    by (simp add: wp_total)
  then show ?thesis using cpu_allocate_release[OF inv] by blast
qed

end
