(* ===== verification/Request_Lifecycle.thy ===== *)
theory Request_Lifecycle imports Py_Values Transition begin

text \<open>
  \<open>prism_infer/engine/request.py\<close>: request identities and the lifecycle state machine of
  one request, with its audit trail.  \<open>transition\<close> is the validated change used by the
  scheduler, \<open>restore\<close> the unchecked one used by deserialisation.  The lemmas prove that the
  audit trail is a path of allowed edges from the initial to the current state, that terminal
  states are absorbing and that allocated identities are pairwise distinct.
\<close>

section \<open>Identities\<close>

fun validate_request_id :: "pyval \<Rightarrow> py_error + nat" where
  "validate_request_id (PInt i) = (if i < 0 then Inl ValueError else Inr (nat i))"
| "validate_request_id _ = Inl ValueError"

record id_allocator =
  ia_next :: nat

definition id_allocator_new :: "pyval \<Rightarrow> py_error + id_allocator" where
  "id_allocator_new start = bind_res (validate_request_id start) (\<lambda>i. Inr \<lparr>ia_next = i\<rparr>)"

definition allocate_id :: "(nat, id_allocator) op" where
  "allocate_id =
     bnd (gets ia_next) (\<lambda>i. thn (upd (\<lambda>a. a\<lparr>ia_next := ia_next a + 1\<rparr>)) (ret i))"

fun allocate_ids :: "nat \<Rightarrow> (nat list, id_allocator) op" where
  "allocate_ids 0 = ret []"
| "allocate_ids (Suc n) = bnd allocate_id (\<lambda>i. bnd (allocate_ids n) (\<lambda>is. ret (i # is)))"

lemma wp_allocate_ids:
  "wp (allocate_ids n) Q E a = Q [ia_next a..<ia_next a + n] (a\<lparr>ia_next := ia_next a + n\<rparr>)"
proof (induction n arbitrary: a Q)
  case (Suc n)
  have "[ia_next a..<ia_next a + Suc n] = ia_next a # [Suc (ia_next a)..<ia_next a + Suc n]"
    by (simp add: upt_conv_Cons)
  then show ?case by (simp add: allocate_id_def wp_simps Suc.IH del: upt_Suc)
qed (simp add: wp_simps)

section \<open>Lifecycle\<close>

datatype request_state =
  WAITING | PREFILLING | DECODING | SWAPPED | FINISHED | CANCELLED | REJECTED

definition is_terminal :: "request_state \<Rightarrow> bool" where
  "is_terminal s = (s \<in> {FINISHED, CANCELLED, REJECTED})"

fun allowed_transitions :: "request_state \<Rightarrow> request_state list" where
  "allowed_transitions WAITING = [PREFILLING, CANCELLED, REJECTED]"
| "allowed_transitions PREFILLING = [DECODING, WAITING, CANCELLED, FINISHED]"
| "allowed_transitions DECODING = [SWAPPED, WAITING, FINISHED, CANCELLED]"
| "allowed_transitions SWAPPED = [DECODING, WAITING, CANCELLED]"
| "allowed_transitions FINISHED = []"
| "allowed_transitions CANCELLED = []"
| "allowed_transitions REJECTED = []"

record request_transition =
  rt_source :: request_state
  rt_target :: request_state
  rt_reason :: string
  rt_timestamp_ns :: int

record lifecycle =
  lc_request_id :: nat
  lc_state :: request_state
  lc_transitions :: "request_transition list"

definition lifecycle_new :: "pyval \<Rightarrow> request_state \<Rightarrow> py_error + lifecycle" where
  "lifecycle_new rid s = bind_res (validate_request_id rid)
     (\<lambda>i. Inr \<lparr>lc_request_id = i, lc_state = s, lc_transitions = []\<rparr>)"

text \<open>\<open>now\<close> is the value the clock \<open>perf_counter_ns\<close> would return.\<close>

definition transition ::
    "request_state \<Rightarrow> string \<Rightarrow> int option \<Rightarrow> int \<Rightarrow> (unit, lifecycle) op" where
  "transition target reason timestamp_ns now =
     bnd (gets lc_state) (\<lambda>source.
     if target = source then ret ()
     else thn (chk RuntimeError (target \<in> set (allowed_transitions source)))
         (thn (upd (\<lambda>l. l\<lparr>lc_state := target\<rparr>))
              (upd (\<lambda>l. l\<lparr>lc_transitions := lc_transitions l @
                 [\<lparr>rt_source = source, rt_target = target, rt_reason = reason,
                   rt_timestamp_ns = (case timestamp_ns of None \<Rightarrow> now | Some t \<Rightarrow> t)\<rparr>]\<rparr>))))"

definition restore :: "request_state \<Rightarrow> (unit, lifecycle) op" where
  "restore target = upd (\<lambda>l. l\<lparr>lc_state := target\<rparr>)"

definition entered :: "request_state \<Rightarrow> string \<Rightarrow> int \<Rightarrow> lifecycle \<Rightarrow> lifecycle" where
  "entered target reason ts l = l\<lparr>lc_state := target, lc_transitions := lc_transitions l @
     [\<lparr>rt_source = lc_state l, rt_target = target, rt_reason = reason, rt_timestamp_ns = ts\<rparr>]\<rparr>"

lemma wp_transition:
  "wp (transition target reason ts now) Q E l =
     (if target = lc_state l then Q () l
      else if target \<in> set (allowed_transitions (lc_state l))
      then Q () (entered target reason (case ts of None \<Rightarrow> now | Some t \<Rightarrow> t) l)
      else E RuntimeError l)"
  by (simp add: transition_def wp_simps entered_def)

lemma terminal_no_transitions: "is_terminal s \<longleftrightarrow> allowed_transitions s = []"
  by (cases s) (simp_all add: is_terminal_def)

lemma no_self_transition: "s \<notin> set (allowed_transitions s)"
  by (cases s) simp_all

section \<open>The audit trail\<close>

text \<open>\<open>trail s ts t\<close>: the recorded transitions lead from \<open>s\<close> to \<open>t\<close> over allowed edges.\<close>

inductive trail :: "request_state \<Rightarrow> request_transition list \<Rightarrow> request_state \<Rightarrow> bool" where
  trail_Nil: "trail s [] s"
| trail_snoc: "trail s ts t \<Longrightarrow> rt_source r = t \<Longrightarrow> rt_target r \<in> set (allowed_transitions t) \<Longrightarrow>
    trail s (ts @ [r]) (rt_target r)"

inductive_cases trail_NilE: "trail s [] t"

lemma trail_allowed:
  "trail s ts t \<Longrightarrow> r \<in> set ts \<Longrightarrow> rt_target r \<in> set (allowed_transitions (rt_source r))"
  by (induction rule: trail.induct) auto

lemma trail_hd: "trail s ts t \<Longrightarrow> ts \<noteq> [] \<Longrightarrow> rt_source (hd ts) = s \<and> rt_target (last ts) = t"
proof (induction rule: trail.induct)
  case (trail_snoc s ts t r)
  then show ?case by (cases "ts = []") (auto elim: trail_NilE)
qed simp

text \<open>A request never comes back from a terminal state, so at most the last entry is terminal.\<close>

lemma trail_butlast_live:
  "trail s ts t \<Longrightarrow> r \<in> set (butlast ts) \<Longrightarrow> \<not> is_terminal (rt_target r)"
proof (induction rule: trail.induct)
  case (trail_snoc s ts t r')
  have ne: "\<not> is_terminal t" using trail_snoc.hyps(3) by (auto simp: terminal_no_transitions)
  show ?case
  proof (cases "r \<in> set (butlast ts)")
    case False
    then have "ts \<noteq> [] \<and> r = last ts" using trail_snoc.prems
      by (metis append_butlast_last_id butlast_snoc empty_iff in_set_conv_decomp in_set_butlastD last_snoc
          list.set(1) set_ConsD rotate1.simps(2) set_rotate1)
    then show ?thesis using ne trail_hd[OF trail_snoc.hyps(1)] by simp
  qed (use trail_snoc.IH in simp)
qed simp

definition lc_step ::
    "lifecycle \<Rightarrow> request_state \<times> string \<times> int option \<times> int \<Rightarrow> lifecycle \<Rightarrow> bool" where
  "lc_step l c l' \<longleftrightarrow> (case c of (target, reason, ts, now) \<Rightarrow> l' = snd (transition target reason ts now l))"

lemma transition_cases:
  "snd (transition target reason ts now l) = l \<or>
   target \<in> set (allowed_transitions (lc_state l)) \<and>
   snd (transition target reason ts now l) =
     entered target reason (case ts of None \<Rightarrow> now | Some t \<Rightarrow> t) l"
  using wp_transition[of target reason ts now
      "\<lambda>_ t. t = l \<or> target \<in> set (allowed_transitions (lc_state l)) \<and>
             t = entered target reason (case ts of None \<Rightarrow> now | Some t \<Rightarrow> t) l"
      "\<lambda>_ t. t = l \<or> target \<in> set (allowed_transitions (lc_state l)) \<and>
             t = entered target reason (case ts of None \<Rightarrow> now | Some t \<Rightarrow> t) l" l]
  by (auto simp: wp_always)

lemma lc_stepD:
  "lc_step l c t \<Longrightarrow> t = l \<or> (\<exists>target reason ts. target \<in> set (allowed_transitions (lc_state l)) \<and>
     t = entered target reason ts l)"
  using transition_cases[of "fst c" "fst (snd c)" "fst (snd (snd c))" "snd (snd (snd c))" l]
  unfolding lc_step_def by (auto split: prod.splits)

lemma entered_trail:
  "trail s (lc_transitions l) (lc_state l) \<Longrightarrow> target \<in> set (allowed_transitions (lc_state l)) \<Longrightarrow>
   trail s (lc_transitions (entered target reason ts l)) (lc_state (entered target reason ts l))"
  using trail_snoc[of s "lc_transitions l" "lc_state l"
      "\<lparr>rt_source = lc_state l, rt_target = target, rt_reason = reason, rt_timestamp_ns = ts\<rparr>"]
  by (simp add: entered_def)

interpretation request_machine: constant_system
  "\<lambda>l. \<exists>rid. lifecycle_new rid WAITING = Inr l" lc_step
  "\<lambda>l. trail WAITING (lc_transitions l) (lc_state l)" lc_request_id
proof unfold_locales
  fix l assume "\<exists>rid. lifecycle_new rid WAITING = Inr l"
  then show "trail WAITING (lc_transitions l) (lc_state l)"
    by (auto simp: lifecycle_new_def res_simps intro: trail_Nil)
next
  fix l c t assume "trail WAITING (lc_transitions l) (lc_state l)" and "lc_step l c t"
  then show "trail WAITING (lc_transitions t) (lc_state t)"
    by (auto dest!: lc_stepD intro: entered_trail)
next
  fix l c t assume "lc_step l c t"
  then show "lc_request_id t = lc_request_id l"
    by (auto dest!: lc_stepD simp: entered_def)
qed

lemma terminal_step: "is_terminal (lc_state l) \<Longrightarrow> lc_step l c t \<Longrightarrow> t = l"
  by (auto dest!: lc_stepD simp: terminal_no_transitions)

section \<open>Properties\<close>

text \<open>C38: after any sequence of requested transitions, refused ones included, the recorded
  transitions form a path over allowed edges from \<open>WAITING\<close> to the current state, the request
  identity is unchanged, and a terminal state can only be the last one recorded.\<close>

theorem lifecycle_audit_trail:
  assumes "lifecycle_new rid WAITING = Inr l0" and "run lc_step l0 calls l"
  shows "trail WAITING (lc_transitions l) (lc_state l) \<and> lc_request_id l = lc_request_id l0 \<and>
    (\<forall>r \<in> set (lc_transitions l). rt_target r \<in> set (allowed_transitions (rt_source r))) \<and>
    (\<forall>r \<in> set (butlast (lc_transitions l)). \<not> is_terminal (rt_target r))"
proof -
  have i0: "trail WAITING (lc_transitions l0) (lc_state l0)"
    using request_machine.init_inv assms(1) by blast
  note tr = request_machine.run_inv[OF assms(2) i0]
  show ?thesis
    using tr request_machine.run_const[OF assms(2) i0] trail_allowed[OF tr] trail_butlast_live[OF tr]
    by blast
qed

theorem lifecycle_audit_trail_witness:
  "trail WAITING [\<lparr>rt_source = WAITING, rt_target = PREFILLING, rt_reason = ''r'', rt_timestamp_ns = 5\<rparr>]
     PREFILLING"
  using lifecycle_audit_trail[of "PInt 3" "\<lparr>lc_request_id = 3, lc_state = WAITING, lc_transitions = []\<rparr>"
      "[(PREFILLING, ''r'', Some 5, 0)]"
      "snd (transition PREFILLING ''r'' (Some 5) 0 \<lparr>lc_request_id = 3, lc_state = WAITING, lc_transitions = []\<rparr>)"]
  by (simp add: lifecycle_new_def run_Cons_iff lc_step_def transition_def bnd_def gets_def thn_def chk_def
      ret_def upd_def)

text \<open>\<open>FINISHED\<close>, \<open>CANCELLED\<close> and \<open>REJECTED\<close> are absorbing: no sequence of requested
  transitions changes a terminal request in any way, its audit trail included.\<close>

theorem lifecycle_terminal_absorbing:
  assumes "is_terminal (lc_state l)" and "run lc_step l calls l'"
  shows "l' = l"
  using assms(2,1) by (induction rule: run.induct) (auto dest: terminal_step)

theorem lifecycle_terminal_absorbing_witness:
  "snd (transition WAITING ''x'' None 0 \<lparr>lc_request_id = 3, lc_state = CANCELLED, lc_transitions = []\<rparr>)
     = \<lparr>lc_request_id = 3, lc_state = CANCELLED, lc_transitions = []\<rparr>"
  using lifecycle_terminal_absorbing[of "\<lparr>lc_request_id = 3, lc_state = CANCELLED, lc_transitions = []\<rparr>"
      "[(WAITING, ''x'', None, 0)]"]
  by (simp add: run_Cons_iff lc_step_def is_terminal_def)

end
