(* ===== verification/KV_Layout.thy ===== *)
theory KV_Layout imports Py_Values begin

text \<open>
  \<open>prism_infer/engine/kv_layout.py\<close>: the contract between the logical token positions of a
  sequence and the physical rows of its KV cache after visual compaction
  (\<open>KVCacheLayoutDescriptor\<close>), and the plan of one compaction (\<open>KVCompactionPlan\<close>).
  Lengths are naturals; original positions are integers because the code tests their sign; page
  ids are naturals, so the test for a negative page id holds by typing.  Every validation error of
  this file is a \<open>ValueError\<close>.
\<close>

definition KV_LAYOUT_SCHEMA_VERSION :: nat where
  "KV_LAYOUT_SCHEMA_VERSION = 1"

definition KV_LAYOUT_VISUAL_COMPACT :: string where
  "KV_LAYOUT_VISUAL_COMPACT = ''visual_compact''"

section \<open>Layout descriptor\<close>

record kv_layout =
  ly_mode :: string
  ly_logical_context_len :: nat
  ly_physical_kv_len :: nat
  ly_prompt_logical_len :: nat
  ly_compressed_prompt_kv_len :: nat
  ly_retained_original_positions :: "int list"
  ly_kv_dtype :: string
  ly_compression_record :: py_record
  ly_compacted_logical_len :: "nat option"
  ly_schema_version :: nat

definition ly_effective_compacted :: "kv_layout \<Rightarrow> nat" where
  "ly_effective_compacted ly =
     (case ly_compacted_logical_len ly of None \<Rightarrow> ly_prompt_logical_len ly | Some n \<Rightarrow> n)"

definition ly_validate_header :: "nat \<Rightarrow> kv_layout \<Rightarrow> py_error + unit" where
  "ly_validate_header block_size ly =
     need ValueError (ly_schema_version ly = KV_LAYOUT_SCHEMA_VERSION)
    (need ValueError (ly_mode ly = KV_LAYOUT_VISUAL_COMPACT)
    (need ValueError (0 < block_size) (Inr ())))"

definition ly_validate_lengths :: "kv_layout \<Rightarrow> py_error + unit" where
  "ly_validate_lengths ly =
     need ValueError (1 \<le> ly_prompt_logical_len ly)
    (need ValueError (1 \<le> ly_effective_compacted ly \<and> ly_effective_compacted ly \<le> ly_prompt_logical_len ly)
    (need ValueError (ly_effective_compacted ly \<le> ly_logical_context_len ly)
    (need ValueError (1 \<le> ly_compressed_prompt_kv_len ly \<and>
                      ly_compressed_prompt_kv_len ly \<le> ly_prompt_logical_len ly)
    (need ValueError (ly_physical_kv_len ly =
        ly_compressed_prompt_kv_len ly + (ly_logical_context_len ly - ly_effective_compacted ly))
     (Inr ())))))"

text \<open>\<open>tuple(sorted(set(xs))) == xs\<close>\<close>

definition sorted_unique :: "int list \<Rightarrow> bool" where
  "sorted_unique xs = (sort (remdups xs) = xs)"

lemma sorted_unique_iff: "sorted_unique xs \<longleftrightarrow> sorted_wrt (<) xs"
proof
  assume "sorted_unique xs"
  then have "sorted xs" and "distinct xs"
    unfolding sorted_unique_def by (metis sorted_sort, metis distinct_remdups distinct_sort)
  then show "sorted_wrt (<) xs" by (simp add: strict_sorted_iff)
next
  assume "sorted_wrt (<) xs"
  then have "sorted xs" and "distinct xs" by (simp_all add: strict_sorted_iff)
  then show "sorted_unique xs" by (simp add: sorted_unique_def distinct_remdups_id sorted_sort_id)
qed

definition ly_validate_retained :: "kv_layout \<Rightarrow> py_error + unit" where
  "ly_validate_retained ly = (let r = ly_retained_original_positions ly in
     need ValueError (length r = ly_compressed_prompt_kv_len ly)
    (need ValueError (sorted_unique r)
    (need ValueError (\<not> (r \<noteq> [] \<and> (hd r < 0 \<or> int (ly_effective_compacted ly) \<le> last r)))
     (Inr ()))))"

definition ly_final_physical_len :: "kv_layout \<Rightarrow> nat" where
  "ly_final_physical_len ly =
     ly_compressed_prompt_kv_len ly + (ly_prompt_logical_len ly - ly_effective_compacted ly)"

definition ly_validate_block_table :: "nat \<Rightarrow> nat list \<Rightarrow> bool \<Rightarrow> kv_layout \<Rightarrow> py_error + unit" where
  "ly_validate_block_table block_size block_table allow_pending ly =
    (let required = ceil_div (ly_physical_kv_len ly) block_size;
         final_required = ceil_div (ly_final_physical_len ly) block_size;
         reserved = ly_logical_context_len ly < ly_prompt_logical_len ly \<and>
           required \<le> length block_table \<and> length block_table \<le> final_required;
         pending = allow_pending \<and> ly_physical_kv_len ly mod block_size = 1 \<and>
           length block_table + 1 = required
     in need ValueError (length block_table = required \<or> reserved \<or> pending) (Inr ()))"

definition ly_validate_evidence :: "kv_layout \<Rightarrow> py_error + unit" where
  "ly_validate_evidence ly =
     need ValueError (ly_kv_dtype ly \<noteq> [])
    (need ValueError (get_flag (ly_compression_record ly) ''physical_compaction'') (Inr ()))"

definition ly_validate :: "nat \<Rightarrow> nat list \<Rightarrow> bool \<Rightarrow> kv_layout \<Rightarrow> py_error + unit" where
  "ly_validate block_size block_table allow_pending ly =
     bind_res (ly_validate_header block_size ly) (\<lambda>_.
     bind_res (ly_validate_lengths ly) (\<lambda>_.
     bind_res (ly_validate_retained ly) (\<lambda>_.
     bind_res (ly_validate_block_table block_size block_table allow_pending ly) (\<lambda>_.
     ly_validate_evidence ly))))"

definition ly_append_generated_token :: "(unit, kv_layout) op" where
  "ly_append_generated_token =
     bnd (gets (\<lambda>l. ly_logical_context_len l < ly_prompt_logical_len l)) (\<lambda>early.
     thn (chk RuntimeError (\<not> early))
    (thn (upd (\<lambda>l. l\<lparr>ly_logical_context_len := ly_logical_context_len l + 1\<rparr>))
         (upd (\<lambda>l. l\<lparr>ly_physical_kv_len := ly_physical_kv_len l + 1\<rparr>))))"

definition ly_append_prefill_tokens :: "int \<Rightarrow> (unit, kv_layout) op" where
  "ly_append_prefill_tokens count =
     thn (chk ValueError (0 < count))
    (bnd (gets (\<lambda>l. ly_prompt_logical_len l < ly_logical_context_len l + nat count)) (\<lambda>over.
     thn (chk ValueError (\<not> over))
    (thn (upd (\<lambda>l. l\<lparr>ly_logical_context_len := ly_logical_context_len l + nat count\<rparr>))
         (upd (\<lambda>l. l\<lparr>ly_physical_kv_len := ly_physical_kv_len l + nat count\<rparr>)))))"

subsection \<open>Serialisation\<close>

definition ly_to_record :: "nat list \<Rightarrow> kv_layout \<Rightarrow> py_record" where
  "ly_to_record block_table ly =
    [(''schema_version'', PInt (int (ly_schema_version ly))),
     (''mode'', PStr (ly_mode ly)),
     (''logical_context_len'', PInt (int (ly_logical_context_len ly))),
     (''physical_kv_len'', PInt (int (ly_physical_kv_len ly))),
     (''prompt_logical_len'', PInt (int (ly_prompt_logical_len ly))),
     (''compressed_prompt_kv_len'', PInt (int (ly_compressed_prompt_kv_len ly))),
     (''compacted_logical_len'', PInt (int (ly_effective_compacted ly))),
     (''retained_original_positions'', PList (map PInt (ly_retained_original_positions ly))),
     (''block_table'', PInts block_table),
     (''kv_dtype'', PStr (ly_kv_dtype ly)),
     (''compression_record'', PDict (ly_compression_record ly))]"

text \<open>
  A negative length read from a record is rejected here; in the code it is rejected by the
  \<open>validate\<close> call that follows \<open>from_record\<close> in \<open>Sequence.__setstate__\<close>, its only caller.
  \<open>str(x)\<close> is modelled on strings and \<open>dict(x)\<close> on dictionaries.
\<close>

definition rec_field :: "py_record \<Rightarrow> string \<Rightarrow> py_error + pyval" where
  "rec_field d k = (case dict_get d k of None \<Rightarrow> Inl KeyError | Some v \<Rightarrow> Inr v)"

definition as_nat :: "pyval \<Rightarrow> py_error + nat" where
  "as_nat v = bind_res (to_int v) (\<lambda>i. need ValueError (0 \<le> i) (Inr (nat i)))"

definition rec_nat :: "py_record \<Rightarrow> string \<Rightarrow> py_error + nat" where
  "rec_nat d k = bind_res (rec_field d k) as_nat"

fun as_str :: "pyval \<Rightarrow> py_error + string" where
  "as_str (PStr s) = Inr s"
| "as_str _ = Inl TypeError"

fun as_dict :: "pyval \<Rightarrow> py_error + py_record" where
  "as_dict (PDict d) = Inr d"
| "as_dict _ = Inl TypeError"

fun as_list :: "pyval \<Rightarrow> py_error + pyval list" where
  "as_list (PList xs) = Inr xs"
| "as_list _ = Inl TypeError"

definition ly_from_record :: "py_record \<Rightarrow> py_error + kv_layout" where
  "ly_from_record d =
     bind_res (rec_nat d ''schema_version'') (\<lambda>version.
     bind_res (bind_res (rec_field d ''mode'') as_str) (\<lambda>mode.
     bind_res (rec_nat d ''logical_context_len'') (\<lambda>logical.
     bind_res (rec_nat d ''physical_kv_len'') (\<lambda>physical.
     bind_res (rec_nat d ''prompt_logical_len'') (\<lambda>prompt.
     bind_res (rec_nat d ''compressed_prompt_kv_len'') (\<lambda>compressed.
     bind_res (bind_res (rec_field d ''prompt_logical_len'') (\<lambda>dflt. as_nat
        (case dict_get d ''compacted_logical_len'' of None \<Rightarrow> dflt | Some v \<Rightarrow> v))) (\<lambda>compacted.
     bind_res (bind_res (bind_res (rec_field d ''retained_original_positions'') as_list) ints_of) (\<lambda>retained.
     bind_res (bind_res (rec_field d ''kv_dtype'') as_str) (\<lambda>dtype.
     bind_res (bind_res (rec_field d ''compression_record'') as_dict) (\<lambda>evidence.
     Inr \<lparr>ly_mode = mode, ly_logical_context_len = logical, ly_physical_kv_len = physical,
          ly_prompt_logical_len = prompt, ly_compressed_prompt_kv_len = compressed,
          ly_retained_original_positions = retained, ly_kv_dtype = dtype,
          ly_compression_record = evidence, ly_compacted_logical_len = Some compacted,
          ly_schema_version = version\<rparr>))))))))))"

section \<open>Compaction plan\<close>

record kv_plan =
  pl_seq_id :: nat
  pl_logical_prompt_len :: nat
  pl_physical_prompt_len :: nat
  pl_old_block_table :: "nat list"
  pl_new_block_table :: "nat list"
  pl_released_block_ids :: "nat list"
  pl_retained_original_positions :: "int list"
  pl_source_slots :: "nat list"
  pl_destination_slots :: "nat list"
  pl_kv_dtype :: string
  pl_compression_record :: py_record
  pl_compacted_logical_len :: "nat option"
  pl_final_physical_prompt_len :: "nat option"

definition pl_effective_compacted :: "kv_plan \<Rightarrow> nat" where
  "pl_effective_compacted p =
     (case pl_compacted_logical_len p of None \<Rightarrow> pl_logical_prompt_len p | Some n \<Rightarrow> n)"

definition pl_effective_final :: "kv_plan \<Rightarrow> nat" where
  "pl_effective_final p =
     (case pl_final_physical_prompt_len p of None \<Rightarrow> pl_physical_prompt_len p | Some n \<Rightarrow> n)"

definition pl_validate_lengths :: "nat \<Rightarrow> kv_plan \<Rightarrow> py_error + unit" where
  "pl_validate_lengths block_size p =
     need ValueError (0 < block_size)
    (need ValueError (1 \<le> pl_logical_prompt_len p)
    (need ValueError (1 \<le> pl_effective_compacted p \<and> pl_effective_compacted p \<le> pl_logical_prompt_len p)
    (need ValueError (pl_physical_prompt_len p = length (pl_retained_original_positions p))
    (need ValueError (pl_physical_prompt_len p = length (pl_source_slots p))
    (need ValueError (pl_physical_prompt_len p = length (pl_destination_slots p)) (Inr ()))))))"

definition pl_validate_retained :: "kv_plan \<Rightarrow> py_error + unit" where
  "pl_validate_retained p = (let r = pl_retained_original_positions p in
     need ValueError (sorted_unique r)
    (need ValueError (\<not> (r \<noteq> [] \<and> int (pl_effective_compacted p) \<le> last r)) (Inr ())))"

definition pl_validate_block_tables :: "nat \<Rightarrow> kv_plan \<Rightarrow> py_error + unit" where
  "pl_validate_block_tables block_size p = (let expected = ceil_div (pl_effective_final p) block_size in
     need ValueError (length (pl_new_block_table p) = expected)
    (need ValueError (take expected (pl_old_block_table p) = pl_new_block_table p)
    (need ValueError (drop expected (pl_old_block_table p) = pl_released_block_ids p) (Inr ()))))"

text \<open>Indexing the page table past its end raises \<open>IndexError\<close>.\<close>

fun slots_of :: "nat list \<Rightarrow> nat \<Rightarrow> nat list \<Rightarrow> py_error + nat list" where
  "slots_of table block_size [] = Inr []"
| "slots_of table block_size (i # is) =
     need IndexError (i div block_size < length table)
    (bind_res (slots_of table block_size is) (\<lambda>ss.
     Inr ((table ! (i div block_size) * block_size + i mod block_size) # ss)))"

definition pl_validate_destinations :: "nat \<Rightarrow> kv_plan \<Rightarrow> py_error + unit" where
  "pl_validate_destinations block_size p =
     bind_res (slots_of (pl_new_block_table p) block_size [0..<pl_physical_prompt_len p]) (\<lambda>expected.
     need ValueError (pl_destination_slots p = expected) (Inr ()))"

definition pl_validate_evidence :: "kv_plan \<Rightarrow> py_error + unit" where
  "pl_validate_evidence p =
     need ValueError (pl_kv_dtype p \<noteq> [])
    (need ValueError (\<not> get_flag (pl_compression_record p) ''physical_compaction'') (Inr ()))"

definition pl_validate :: "nat \<Rightarrow> kv_plan \<Rightarrow> py_error + unit" where
  "pl_validate block_size p =
     bind_res (pl_validate_lengths block_size p) (\<lambda>_.
     bind_res (pl_validate_retained p) (\<lambda>_.
     bind_res (pl_validate_block_tables block_size p) (\<lambda>_.
     bind_res (pl_validate_destinations block_size p) (\<lambda>_.
     pl_validate_evidence p))))"

section \<open>Well-formed layouts\<close>

text \<open>What \<open>validate\<close> accepts, as one formula; the page-table part is separate.\<close>

definition layout_wf :: "kv_layout \<Rightarrow> bool" where
  "layout_wf ly \<longleftrightarrow> ly_schema_version ly = 1 \<and> ly_mode ly = ''visual_compact'' \<and>
     1 \<le> ly_effective_compacted ly \<and> ly_effective_compacted ly \<le> ly_prompt_logical_len ly \<and>
     ly_effective_compacted ly \<le> ly_logical_context_len ly \<and>
     1 \<le> ly_compressed_prompt_kv_len ly \<and> ly_compressed_prompt_kv_len ly \<le> ly_prompt_logical_len ly \<and>
     ly_physical_kv_len ly + ly_effective_compacted ly =
       ly_compressed_prompt_kv_len ly + ly_logical_context_len ly \<and>
     length (ly_retained_original_positions ly) = ly_compressed_prompt_kv_len ly \<and>
     sorted_wrt (<) (ly_retained_original_positions ly) \<and>
     set (ly_retained_original_positions ly) \<subseteq> {0..<int (ly_effective_compacted ly)} \<and>
     ly_kv_dtype ly \<noteq> [] \<and> get_flag (ly_compression_record ly) ''physical_compaction''"

definition table_fits :: "nat \<Rightarrow> nat list \<Rightarrow> bool \<Rightarrow> kv_layout \<Rightarrow> bool" where
  "table_fits bs bt pend ly \<longleftrightarrow>
     length bt = ceil_div (ly_physical_kv_len ly) bs \<or>
     (ly_logical_context_len ly < ly_prompt_logical_len ly \<and>
       ceil_div (ly_physical_kv_len ly) bs \<le> length bt \<and>
       length bt \<le> ceil_div (ly_final_physical_len ly) bs) \<or>
     (pend \<and> ly_physical_kv_len ly mod bs = 1 \<and> length bt + 1 = ceil_div (ly_physical_kv_len ly) bs)"

lemma ceil_div_Suc:
  assumes "0 < b"
  shows "ceil_div (Suc n) b = ceil_div n b + (if n mod b = 0 then 1 else 0)"
proof -
  have "n + b = b * (n div b) + (n mod b) + b" by simp
  moreover have "(n + b) div b = n div b + 1" using assms by simp
  moreover have "(n + b - 1) div b = n div b + (if n mod b = 0 then 0 else 1)"
  proof (cases "n mod b = 0")
    case True
    then obtain k where k: "n = b * k" by auto
    have "(n + b - 1) div b = (k * b + (b - 1)) div b" using k assms by (simp add: mult.commute)
    also have "\<dots> = k" using assms by (subst div_mult_self3) simp_all
    finally show ?thesis using k assms by simp
  next
    case False
    then have "0 < n mod b" by simp
    then have "n + b - 1 = n mod b - 1 + (n div b + 1) * b"
      using div_mult_mod_eq[of n b] unfolding distrib_right by linarith
    moreover have "n mod b - 1 < b" using assms mod_less_divisor[of b n] by linarith
    ultimately have "(n + b - 1) div b = n div b + 1"
      by (metis add.commute div_less div_mult_self1 add_0 less_nat_zero_code)
    then show ?thesis using False by simp
  qed
  ultimately show ?thesis by (simp add: ceil_div_def)
qed

lemma sorted_wrt_hd_last:
  assumes "sorted_wrt (<) (xs::int list)" and "xs \<noteq> []"
  shows "set xs \<subseteq> {a..<b} \<longleftrightarrow> a \<le> hd xs \<and> last xs < b"
proof -
  have "hd xs \<le> x \<and> x \<le> last xs" if x: "x \<in> set xs" for x
  proof -
    have "sorted xs" using assms(1) by (simp add: strict_sorted_iff)
    moreover obtain i where i: "i < length xs" "xs ! i = x" using x by (auto simp: in_set_conv_nth)
    ultimately have "xs ! 0 \<le> x" and "x \<le> xs ! (length xs - 1)"
      using sorted_nth_mono[of xs 0 i] sorted_nth_mono[of xs i "length xs - 1"] by auto
    then show ?thesis using assms(2) by (simp add: hd_conv_nth last_conv_nth)
  qed
  then show ?thesis using assms(2) hd_in_set[of xs] last_in_set[of xs] by fastforce
qed

lemma need_unit [simp]: "need e b (Inr ()) = (if b then Inr () else Inl e)"
  by (simp add: need_def)

lemma ly_validate_ok:
  "ly_validate bs bt pend ly = Inr () \<longleftrightarrow> 0 < bs \<and> layout_wf ly \<and> table_fits bs bt pend ly"
proof -
  have R: "\<not> (r \<noteq> [] \<and> (hd r < 0 \<or> int n \<le> last r)) \<longleftrightarrow> set r \<subseteq> {0..<int n}"
    if "sorted_wrt (<) r" for r :: "int list" and n
    using sorted_wrt_hd_last[OF that, of 0 "int n"] by (cases "r = []") auto
  have len: "a = c + (l - e) \<longleftrightarrow> a + e = c + l" if "e \<le> l" for a c l e :: nat using that by auto
  show ?thesis
    unfolding ly_validate_def ly_validate_header_def ly_validate_lengths_def ly_validate_retained_def
      ly_validate_block_table_def ly_validate_evidence_def layout_wf_def table_fits_def
      KV_LAYOUT_SCHEMA_VERSION_def KV_LAYOUT_VISUAL_COMPACT_def sorted_unique_iff Let_def res_simps
    using R len by auto
qed

lemma ly_validate_err: "ly_validate bs bt pend ly = Inl e \<Longrightarrow> e = ValueError"
  by (auto simp: ly_validate_def ly_validate_header_def ly_validate_lengths_def ly_validate_retained_def
      ly_validate_block_table_def ly_validate_evidence_def need_def Let_def split: if_splits)

section \<open>What the operations keep\<close>

lemma wp_ly_append_generated:
  "wp ly_append_generated_token Q E ly =
     (if ly_prompt_logical_len ly \<le> ly_logical_context_len ly
      then Q () (ly\<lparr>ly_logical_context_len := ly_logical_context_len ly + 1,
                    ly_physical_kv_len := ly_physical_kv_len ly + 1\<rparr>)
      else E RuntimeError ly)"
  by (auto simp: ly_append_generated_token_def wp_simps)

lemma wp_ly_append_prefill:
  "wp (ly_append_prefill_tokens n) Q E ly =
     (if 0 < n \<and> ly_logical_context_len ly + nat n \<le> ly_prompt_logical_len ly
      then Q () (ly\<lparr>ly_logical_context_len := ly_logical_context_len ly + nat n,
                    ly_physical_kv_len := ly_physical_kv_len ly + nat n\<rparr>)
      else E ValueError ly)"
  by (auto simp: ly_append_prefill_tokens_def wp_simps)

lemma ly_effective_compacted_upd [simp]:
  "ly_effective_compacted (ly\<lparr>ly_logical_context_len := a, ly_physical_kv_len := b\<rparr>) =
     ly_effective_compacted ly"
  by (simp add: ly_effective_compacted_def cong: option.case_cong)

lemma layout_wf_grow:
  "layout_wf ly \<Longrightarrow> layout_wf (ly\<lparr>ly_logical_context_len := ly_logical_context_len ly + k,
                              ly_physical_kv_len := ly_physical_kv_len ly + k\<rparr>)"
  by (simp add: layout_wf_def)

lemma rec_simps:
  "rec_field ((k, v) # d) k' = (if k = k' then Inr v else rec_field d k')"
  "as_nat (PInt i) = (if 0 \<le> i then Inr (nat i) else Inl ValueError)"
  by (simp_all add: rec_field_def dict_get_def as_nat_def need_def)

lemma ly_from_to_record:
  "ly_from_record (ly_to_record bt ly) =
     Inr (ly\<lparr>ly_compacted_logical_len := Some (ly_effective_compacted ly)\<rparr>)"
  by (simp add: ly_from_record_def ly_to_record_def rec_nat_def rec_simps dict_get_def
      ints_of_map_PInt[where f = "\<lambda>x. x", simplified])

definition example_layout :: kv_layout where
  "example_layout = \<lparr>ly_mode = ''visual_compact'', ly_logical_context_len = 6, ly_physical_kv_len = 4,
     ly_prompt_logical_len = 6, ly_compressed_prompt_kv_len = 4,
     ly_retained_original_positions = [0, 2, 4, 5], ly_kv_dtype = ''bf16'',
     ly_compression_record = [(''physical_compaction'', PBool True)],
     ly_compacted_logical_len = None, ly_schema_version = 1\<rparr>"

lemma example_layout_ok: "ly_validate 4 [3] False example_layout = Inr ()"
  by (auto simp: ly_validate_ok example_layout_def layout_wf_def table_fits_def ceil_div_def
      ly_effective_compacted_def get_flag_def dict_get_def)

section \<open>Properties\<close>

text \<open>Serialising a layout and reading it back gives the same layout with the compacted prefix
  length made explicit, and the copy is valid for a page table exactly when the original is.\<close>

theorem layout_record_roundtrip:
  "\<exists>ly'. ly_from_record (ly_to_record bt ly) = Inr ly' \<and>
     ly' = ly\<lparr>ly_compacted_logical_len := Some (ly_effective_compacted ly)\<rparr> \<and>
     ly_effective_compacted ly' = ly_effective_compacted ly \<and>
     (\<forall>bs tab pend. ly_validate bs tab pend ly' = Inr () \<longleftrightarrow> ly_validate bs tab pend ly = Inr ())"
  by (simp add: ly_from_to_record ly_validate_ok layout_wf_def table_fits_def ly_final_physical_len_def
      ly_effective_compacted_def)

text \<open>On a valid layout whose prompt is complete, recording a generated token succeeds and the
  layout stays valid once a pending page is allowed for; a page is pending exactly when the last
  page was full, and then the layout is not valid without that allowance.\<close>

theorem layout_append_decode:
  assumes "ly_validate bs bt False ly = Inr ()" and "1 < bs"
    and "ly_prompt_logical_len ly \<le> ly_logical_context_len ly"
  shows "\<exists>ly'. ly_append_generated_token ly = (Inr (), ly') \<and> ly_validate bs bt True ly' = Inr () \<and>
    ly_physical_kv_len ly' = ly_physical_kv_len ly + 1 \<and>
    ly_logical_context_len ly' = ly_logical_context_len ly + 1 \<and>
    (ly_validate bs bt False ly' = Inr () \<longleftrightarrow> ly_physical_kv_len ly mod bs \<noteq> 0)"
proof -
  let ?l = "ly\<lparr>ly_logical_context_len := ly_logical_context_len ly + 1,
             ly_physical_kv_len := ly_physical_kv_len ly + 1\<rparr>"
  have wf: "layout_wf ly" and len: "length bt = ceil_div (ly_physical_kv_len ly) bs"
    using assms(1,3) by (auto simp: ly_validate_ok table_fits_def)
  have wf': "layout_wf ?l" using layout_wf_grow[OF wf, of 1] by simp
  have m1: "(ly_physical_kv_len ly + 1) mod bs = 1" if "ly_physical_kv_len ly mod bs = 0"
    using that assms(2) by (auto simp: mod_Suc)
  have c: "ceil_div (ly_physical_kv_len ly + 1) bs =
      length bt + (if ly_physical_kv_len ly mod bs = 0 then 1 else 0)"
    using ceil_div_Suc[of bs "ly_physical_kv_len ly"] assms(2) len by simp
  have "ly_append_generated_token ly = (Inr (), ?l)"
    using wp_ly_append_generated[of "\<lambda>_ t. t = ?l" "\<lambda>_ _. False" ly] assms(3) by (simp add: wp_total)
  moreover have "ly_validate bs bt True ?l = Inr ()"
    using wf' c m1 assms(2) by (auto simp: ly_validate_ok table_fits_def)
  moreover have "ly_validate bs bt False ?l = Inr () \<longleftrightarrow> ly_physical_kv_len ly mod bs \<noteq> 0"
    using wf' c assms(2,3) by (auto simp: ly_validate_ok table_fits_def)
  ultimately show ?thesis by auto
qed

theorem layout_append_decode_witness:
  "\<exists>ly'. ly_append_generated_token example_layout = (Inr (), ly') \<and> ly_validate 4 [3] True ly' = Inr ()"
  using layout_append_decode[OF example_layout_ok]
  by (auto simp: example_layout_def)

text \<open>While the prompt suffix after a compacted prefix is prefilled, a positive step within the
  prompt keeps the layout valid for the pages reserved up to the final length; every other step
  raises \<open>ValueError\<close> and changes nothing.\<close>

theorem layout_append_prefill:
  assumes "layout_wf ly" and "0 < bs" and "length bt = ceil_div (ly_final_physical_len ly) bs"
  shows "if 0 < n \<and> ly_logical_context_len ly + nat n \<le> ly_prompt_logical_len ly
    then \<exists>ly'. ly_append_prefill_tokens n ly = (Inr (), ly') \<and> ly_validate bs bt False ly' = Inr () \<and>
           ly_logical_context_len ly' = ly_logical_context_len ly + nat n \<and>
           (ly_logical_context_len ly' = ly_prompt_logical_len ly \<longrightarrow>
              ly_physical_kv_len ly' = ly_final_physical_len ly)
    else ly_append_prefill_tokens n ly = (Inl ValueError, ly)"
proof (cases "0 < n \<and> ly_logical_context_len ly + nat n \<le> ly_prompt_logical_len ly")
  case True
  let ?l = "ly\<lparr>ly_logical_context_len := ly_logical_context_len ly + nat n,
             ly_physical_kv_len := ly_physical_kv_len ly + nat n\<rparr>"
  have wf': "layout_wf ?l" by (rule layout_wf_grow[OF assms(1)])
  have fin: "ly_final_physical_len ?l = ly_final_physical_len ly"
    by (simp add: ly_final_physical_len_def)
  have eq: "ly_physical_kv_len ?l + ly_effective_compacted ly =
      ly_compressed_prompt_kv_len ly + ly_logical_context_len ly + nat n"
    using assms(1) by (simp add: layout_wf_def)
  have le: "ly_physical_kv_len ?l \<le> ly_final_physical_len ly"
    and full: "ly_logical_context_len ?l = ly_prompt_logical_len ly \<Longrightarrow>
      ly_physical_kv_len ?l = ly_final_physical_len ly"
    using eq True assms(1) unfolding ly_final_physical_len_def layout_wf_def by auto
  have "ly_append_prefill_tokens n ly = (Inr (), ?l)"
    using wp_ly_append_prefill[of n "\<lambda>_ t. t = ?l" "\<lambda>_ _. False" ly] True by (simp add: wp_total)
  moreover have "table_fits bs bt False ?l"
    using ceil_div_mono[OF le, of bs] full assms(3) fin True unfolding table_fits_def
    by (cases "ly_logical_context_len ?l = ly_prompt_logical_len ly") auto
  ultimately show ?thesis using True wf' assms(2) full by (simp add: ly_validate_ok)
next
  case False
  have "wp (ly_append_prefill_tokens n) (\<lambda>_ _. False) (\<lambda>e t. e = ValueError \<and> t = ly) ly"
    using False by (auto simp: wp_ly_append_prefill)
  then show ?thesis unfolding if_not_P[OF False] by (auto simp: wp_def split: prod.splits sum.splits)
qed

theorem layout_append_prefill_witness:
  "ly_append_prefill_tokens 1 example_layout = (Inl ValueError, example_layout)"
  using layout_append_prefill[of example_layout 4 "[3]" 1] example_layout_ok
  by (simp add: ly_validate_ok example_layout_def ly_final_physical_len_def ly_effective_compacted_def
      ceil_div_def)

end
