(* ===== verification/Bytes.thy ===== *)
theory Bytes imports Prelude "HOL-Library.Word" begin

text \<open>
  Byte strings as lists of naturals below 256: the little-endian encodings
  \<open>int.to_bytes(n, "little")\<close>, \<open>int.from_bytes(_, "little")\<close>, numpy's \<open>int64\<close> bytes,
  \<open>str(int)\<close>, \<open>bytes.hex\<close>, and the SHA-256 function of \<open>hashlib\<close> (FIPS 180-4).
\<close>

type_synonym bytes = "nat list"

section \<open>Little-endian integers\<close>

fun le_bytes :: "nat \<Rightarrow> nat \<Rightarrow> bytes" where
  "le_bytes 0 n = []"
| "le_bytes (Suc k) n = n mod 256 # le_bytes k (n div 256)"

fun le_nat :: "bytes \<Rightarrow> nat" where
  "le_nat [] = 0"
| "le_nat (b # bs) = b + 256 * le_nat bs"

lemma length_le_bytes [simp]: "length (le_bytes k n) = k"
  by (induction k arbitrary: n) simp_all

lemma le_nat_le_bytes: "le_nat (le_bytes k n) = n mod 256 ^ k"
proof (induction k arbitrary: n)
  case (Suc k)
  have "n mod 256 + 256 * (n div 256 mod 256 ^ k) = n mod (256 * 256 ^ k)"
    by (simp add: mod_mult2_eq)
  then show ?case by (simp add: Suc.IH)
qed simp

lemma le_nat_bound: "list_all (\<lambda>b. b < 256) bs \<Longrightarrow> le_nat bs < 256 ^ length bs"
proof (induction bs)
  case (Cons b bs)
  then have "le_nat bs + 1 \<le> 256 ^ length bs" and "b < 256" by auto
  then have "256 * (le_nat bs + 1) \<le> 256 * 256 ^ length bs" using mult_le_mono2 by blast
  then show ?case using \<open>b < 256\<close> by simp
qed simp

text \<open>\<open>n.to_bytes(k, "little")\<close> raises when the value does not fit.\<close>

definition to_bytes :: "nat \<Rightarrow> int \<Rightarrow> py_error + bytes" where
  "to_bytes k i = need OverflowError (0 \<le> i \<and> i < 256 ^ k) (Inr (le_bytes k (nat i)))"

text \<open>\<open>np.asarray([i], dtype=np.int64).tobytes()\<close>: two's complement, raising out of range.\<close>

definition int64_bytes :: "int \<Rightarrow> py_error + bytes" where
  "int64_bytes i = need OverflowError (- (2 ^ 63) \<le> i \<and> i < 2 ^ 63)
     (Inr (le_bytes 8 (nat (i mod 2 ^ 64))))"

fun int64s_bytes :: "int list \<Rightarrow> py_error + bytes" where
  "int64s_bytes [] = Inr []"
| "int64s_bytes (i # is) = bind_res (int64_bytes i) (\<lambda>b. bind_res (int64s_bytes is) (\<lambda>bs. Inr (b @ bs)))"

definition int64 :: "int \<Rightarrow> bool" where
  "int64 i \<longleftrightarrow> - (2 ^ 63) \<le> i \<and> i < 2 ^ 63"

lemma to_bytes_ok: "to_bytes k i = Inr bs \<longleftrightarrow> 0 \<le> i \<and> i < 256 ^ k \<and> bs = le_bytes k (nat i)"
  by (auto simp: to_bytes_def res_simps)

lemma to_bytes_inj: "to_bytes k i = Inr bs \<Longrightarrow> to_bytes k j = Inr bs \<Longrightarrow> i = j"
proof -
  assume a: "to_bytes k i = Inr bs" "to_bytes k j = Inr bs"
  then have b: "le_bytes k (nat i) = le_bytes k (nat j)" "0 \<le> i" "0 \<le> j"
    "nat i < 256 ^ k" "nat j < 256 ^ k" by (auto simp: to_bytes_ok nat_less_iff)
  have "nat i = nat j" using arg_cong[OF b(1), of le_nat] b(4,5) by (simp add: le_nat_le_bytes)
  then show "i = j" using b(2,3) by simp
qed

lemma int64_bytes_length: "int64_bytes i = Inr bs \<Longrightarrow> length bs = 8"
  by (auto simp: int64_bytes_def res_simps)

lemma int64_bytes_inj:
  assumes "int64_bytes i = Inr bs" and "int64_bytes j = Inr bs"
  shows "i = j"
proof -
  have r: "- (2 ^ 63) \<le> i" "i < 2 ^ 63" "- (2 ^ 63) \<le> j" "j < 2 ^ 63"
    and e: "le_bytes 8 (nat (i mod 2 ^ 64)) = le_bytes 8 (nat (j mod 2 ^ 64))"
    using assms by (auto simp: int64_bytes_def res_simps)
  have p: "(256::nat) ^ 8 = 2 ^ 64" by simp
  have lt: "nat (x mod 2 ^ 64) < 2 ^ 64" for x :: int by (simp add: nat_less_iff)
  have "nat (i mod 2 ^ 64) = nat (j mod 2 ^ 64)"
    using arg_cong[OF e, of le_nat] lt[of i] lt[of j] unfolding le_nat_le_bytes p by simp
  then have "i mod 2 ^ 64 = j mod 2 ^ 64"
    by (metis eq_nat_nat_iff pos_mod_sign zero_less_numeral zero_less_power)
  then have "(2 ^ 64::int) dvd i - j" by (simp add: mod_eq_dvd_iff)
  then obtain k where k: "i - j = 2 ^ 64 * k" by auto
  moreover have "k = 0"
  proof (rule ccontr)
    assume "k \<noteq> 0"
    then have "2 ^ 64 \<le> \<bar>i - j\<bar>" by (simp add: k abs_mult)
    then show False using r by simp
  qed
  ultimately show ?thesis by simp
qed

lemma int64s_bytes_total: "list_all int64 is \<Longrightarrow> \<exists>bs. int64s_bytes is = Inr bs"
  by (induction "is") (auto simp: int64_bytes_def int64_def)

lemma int64s_bytes_length: "int64s_bytes is = Inr bs \<Longrightarrow> length bs = 8 * length is"
  by (induction "is" arbitrary: bs) (auto simp: res_simps dest: int64_bytes_length)

lemma int64s_bytes_inj:
  "int64s_bytes is = Inr bs \<Longrightarrow> int64s_bytes js = Inr bs \<Longrightarrow> length is = length js \<Longrightarrow> is = js"
proof (induction "is" arbitrary: js bs)
  case (Cons i "is")
  then obtain j js' where js: "js = j # js'" by (cases js) auto
  from Cons.prems js obtain a b c d where ab: "int64_bytes i = Inr a" "int64s_bytes is = Inr b" "bs = a @ b"
    "int64_bytes j = Inr c" "int64s_bytes js' = Inr d" "bs = c @ d"
    by (auto simp: res_simps)
  then have "a = c" and "b = d" using int64_bytes_length by (metis append_eq_append_conv)+
  then show ?case using Cons.IH[of b js'] ab js Cons.prems(3) int64_bytes_inj[of i a j] by auto
qed simp

section \<open>Decimal and hexadecimal text\<close>

definition digit_char :: "nat \<Rightarrow> char" where
  "digit_char d = (if d < 10 then char_of (48 + d) else char_of (87 + d))"

fun dec_digits :: "nat \<Rightarrow> string" where
  "dec_digits n = (if n < 10 then [digit_char n] else dec_digits (n div 10) @ [digit_char (n mod 10)])"

declare dec_digits.simps [simp del]

definition hex_text :: "bytes \<Rightarrow> string" where
  "hex_text bs = concat (map (\<lambda>b. [digit_char (b div 16), digit_char (b mod 16)]) bs)"

section \<open>SHA-256\<close>

text \<open>
  The constants are the first 32 bits of the fractional parts of the square roots (initial state)
  and cube roots (round constants) of the first primes; \<open>int_root b k n\<close> is the integer part of the
  \<open>k\<close>-th root of \<open>n\<close>, found bit by bit from bit \<open>b - 1\<close> down.
\<close>

fun int_root :: "nat \<Rightarrow> nat \<Rightarrow> nat \<Rightarrow> nat \<Rightarrow> nat" where
  "int_root 0 k n r = r"
| "int_root (Suc b) k n r = int_root b k n (if (r + 2 ^ b) ^ k \<le> n then r + 2 ^ b else r)"

definition root_fraction :: "nat \<Rightarrow> nat \<Rightarrow> 32 word" where
  "root_fraction k p = of_nat (int_root 40 k (p * 2 ^ (32 * k)) 0)"

definition sha_primes :: "nat list" where
  "sha_primes = filter (\<lambda>p. list_all (\<lambda>d. p mod d \<noteq> 0) [2..<p]) [2..<312]"

definition sha_k :: "32 word list" where
  "sha_k = map (root_fraction 3) sha_primes"

definition sha_init :: "32 word list" where
  "sha_init = map (root_fraction 2) (take 8 sha_primes)"

unbundle bit_operations_syntax

definition big_sigma0 :: "32 word \<Rightarrow> 32 word" where
  "big_sigma0 x = (word_rotr 2 x XOR word_rotr 13 x) XOR word_rotr 22 x"

definition big_sigma1 :: "32 word \<Rightarrow> 32 word" where
  "big_sigma1 x = (word_rotr 6 x XOR word_rotr 11 x) XOR word_rotr 25 x"

definition small_sigma0 :: "32 word \<Rightarrow> 32 word" where
  "small_sigma0 x = (word_rotr 7 x XOR word_rotr 18 x) XOR drop_bit 3 x"

definition small_sigma1 :: "32 word \<Rightarrow> 32 word" where
  "small_sigma1 x = (word_rotr 17 x XOR word_rotr 19 x) XOR drop_bit 10 x"

text \<open>The schedule is kept newest word first.\<close>

fun sha_extend :: "nat \<Rightarrow> 32 word list \<Rightarrow> 32 word list" where
  "sha_extend 0 w = w"
| "sha_extend (Suc n) w =
     sha_extend n ((small_sigma1 (w ! 1) + w ! 6 + small_sigma0 (w ! 14) + w ! 15) # w)"

fun sha_round :: "32 word list \<Rightarrow> 32 word \<times> 32 word \<Rightarrow> 32 word list" where
  "sha_round [a, b, c, d, e, f, g, h] (k, w) =
    (let t1 = h + big_sigma1 e + ((e AND f) XOR ((NOT e) AND g)) + k + w;
         t2 = big_sigma0 a + (((a AND b) XOR (a AND c)) XOR (b AND c))
     in [t1 + t2, a, b, c, d + t1, e, f, g])"
| "sha_round s _ = s"

fun be_words :: "bytes \<Rightarrow> 32 word list" where
  "be_words (a # b # c # d # rest) =
     of_nat (((a * 256 + b) * 256 + c) * 256 + d) # be_words rest"
| "be_words _ = []"

definition sha_block :: "32 word list \<Rightarrow> bytes \<Rightarrow> 32 word list" where
  "sha_block s block =
     map2 (+) s (foldl sha_round s (zip sha_k (rev (sha_extend 48 (rev (be_words block))))))"

definition sha_pad :: "bytes \<Rightarrow> bytes" where
  "sha_pad msg = msg @ [128] @ replicate ((119 - length msg mod 64) mod 64) 0 @
     rev (le_bytes 8 (8 * length msg))"

fun sha_blocks :: "nat \<Rightarrow> 32 word list \<Rightarrow> bytes \<Rightarrow> 32 word list" where
  "sha_blocks 0 s msg = s"
| "sha_blocks (Suc n) s msg = sha_blocks n (sha_block s (take 64 msg)) (drop 64 msg)"

definition sha256 :: "bytes \<Rightarrow> bytes" where
  "sha256 msg = (let p = sha_pad msg in
     concat (map (\<lambda>w. rev (le_bytes 4 (unat w))) (sha_blocks (length p div 64) sha_init p)))"

end
