(* ===== verification/Sequence_State.thy ===== *)
theory Sequence_State imports Request_Lifecycle KV_Layout Bytes begin

text \<open>
  \<open>prism_infer/engine/sequence.py\<close>: the mutable state of one request (\<open>Sequence\<close>), its
  derived lengths, the image-token spans of its prompt, the accounting of vision patches per
  prefill range, and the slicing of stacked image payloads.

  A stacked payload tensor is the list of its rows, a row being an opaque integer; a grid tensor
  is the list of its (t, h, w) rows; other tensors are opaque lists.  Floats are rationals.  The
  memo field \<open>_image_pad_runs_cache\<close> is left out: it holds the value of a function of the
  prompt, which never changes.
\<close>

type_synonym patch = int
type_synonym tensor = "int list"
type_synonym grid = "(nat \<times> nat \<times> nat) list"
type_synonym span = "nat \<times> nat"

record sequence =
  sq_seq_id :: nat
  sq_submitted_ns :: "nat option"
  sq_ttft_slo_ms :: "rat option"
  sq_block_size :: nat
  sq_lifecycle :: lifecycle
  sq_token_ids :: "int list"
  sq_last_token :: int
  sq_num_tokens :: nat
  sq_num_prompt_tokens :: nat
  sq_num_cached_tokens :: nat
  sq_num_computed_tokens :: nat
  sq_block_table :: "nat list"
  sq_cpu_block_table :: "nat list"
  sq_cpu_block_hashes :: "int list"
  sq_cpu_block_token_ids :: "int list list"
  sq_cpu_block_mm_hashes :: "(nat, nat) dict option list"
  sq_temperature :: rat
  sq_max_tokens :: nat
  sq_ignore_eos :: bool
  sq_pixel_values :: "patch list option"
  sq_image_grid_thw :: "grid option"
  sq_pixel_values_videos :: "patch list option"
  sq_video_grid_thw :: "grid option"
  sq_position_ids :: "tensor option"
  sq_rope_delta :: "tensor option"
  sq_image_token_id :: "int option"
  sq_image_token_count :: nat
  sq_video_token_id :: "int option"
  sq_video_token_count :: nat
  sq_image_merge_size :: nat
  sq_visual_embedding_cache_key :: "string option"
  sq_mm_prefix_cache_key :: "string option"
  sq_media_token_hashes :: "bytes list option"
  sq_mm_prefix_cache_enabled :: bool
  sq_candidate_tokens :: nat
  sq_mm_prefix_cache_hit :: bool
  sq_mm_prefix_pre_admission_hit :: bool
  sq_mm_prefix_stale_fallback :: bool
  sq_precomputed_visual_embeds :: "tensor option"
  sq_precomputed_deepstack :: "tensor list"
  sq_decision_record :: "py_record option"
  sq_replay_record :: "py_record option"
  sq_kv_layout :: "kv_layout option"

text \<open>The arguments of the constructor after the token ids; the sampling parameters are unpacked.\<close>

record sequence_args =
  sa_temperature :: rat
  sa_max_tokens :: nat
  sa_ignore_eos :: bool
  sa_pixel_values :: "patch list option"
  sa_image_grid_thw :: "grid option"
  sa_pixel_values_videos :: "patch list option"
  sa_video_grid_thw :: "grid option"
  sa_position_ids :: "tensor option"
  sa_rope_delta :: "tensor option"
  sa_image_token_id :: "int option"
  sa_image_token_count :: nat
  sa_video_token_id :: "int option"
  sa_video_token_count :: nat
  sa_media_token_hashes :: "bytes list option"
  sa_image_merge_size :: int

definition sequence_new ::
    "int list \<Rightarrow> int \<Rightarrow> pyval \<Rightarrow> sequence_args \<Rightarrow> py_error + sequence" where
  "sequence_new token_ids block_size request_id a =
     need ValueError (token_ids \<noteq> [])
    (need ValueError (0 < block_size)
    (bind_res (validate_request_id request_id) (\<lambda>rid.
     need ValueError ((sa_pixel_values a = None) = (sa_image_grid_thw a = None))
    (need ValueError ((sa_pixel_values_videos a = None) = (sa_video_grid_thw a = None))
    (bind_res (lifecycle_new request_id WAITING) (\<lambda>lc.
     need ValueError (0 < sa_image_merge_size a)
     (Inr \<lparr>sq_seq_id = rid, sq_submitted_ns = None, sq_ttft_slo_ms = None,
       sq_block_size = nat block_size, sq_lifecycle = lc, sq_token_ids = token_ids,
       sq_last_token = last token_ids, sq_num_tokens = length token_ids,
       sq_num_prompt_tokens = length token_ids, sq_num_cached_tokens = 0,
       sq_num_computed_tokens = 0, sq_block_table = [], sq_cpu_block_table = [],
       sq_cpu_block_hashes = [], sq_cpu_block_token_ids = [], sq_cpu_block_mm_hashes = [],
       sq_temperature = sa_temperature a, sq_max_tokens = sa_max_tokens a,
       sq_ignore_eos = sa_ignore_eos a, sq_pixel_values = sa_pixel_values a,
       sq_image_grid_thw = sa_image_grid_thw a,
       sq_pixel_values_videos = sa_pixel_values_videos a,
       sq_video_grid_thw = sa_video_grid_thw a, sq_position_ids = sa_position_ids a,
       sq_rope_delta = sa_rope_delta a, sq_image_token_id = sa_image_token_id a,
       sq_image_token_count = sa_image_token_count a, sq_video_token_id = sa_video_token_id a,
       sq_video_token_count = sa_video_token_count a,
       sq_image_merge_size = nat (sa_image_merge_size a),
       sq_visual_embedding_cache_key = None, sq_mm_prefix_cache_key = None,
       sq_media_token_hashes = sa_media_token_hashes a, sq_mm_prefix_cache_enabled = False,
       sq_candidate_tokens = 0, sq_mm_prefix_cache_hit = False,
       sq_mm_prefix_pre_admission_hit = False, sq_mm_prefix_stale_fallback = False,
       sq_precomputed_visual_embeds = None, sq_precomputed_deepstack = [],
       sq_decision_record = None, sq_replay_record = None, sq_kv_layout = None\<rparr>)))))))"

section \<open>Derived values\<close>

definition sq_status :: "sequence \<Rightarrow> request_state" where
  "sq_status s = lc_state (sq_lifecycle s)"

definition sq_is_finished :: "sequence \<Rightarrow> bool" where
  "sq_is_finished s = (sq_status s = FINISHED)"

definition sq_num_completion_tokens :: "sequence \<Rightarrow> int" where
  "sq_num_completion_tokens s = int (sq_num_tokens s) - int (sq_num_prompt_tokens s)"

definition sq_prompt_token_ids :: "sequence \<Rightarrow> int list" where
  "sq_prompt_token_ids s = take (sq_num_prompt_tokens s) (sq_token_ids s)"

definition sq_completion_token_ids :: "sequence \<Rightarrow> int list" where
  "sq_completion_token_ids s = drop (sq_num_prompt_tokens s) (sq_token_ids s)"

definition sq_is_multimodal :: "sequence \<Rightarrow> bool" where
  "sq_is_multimodal s = (sq_pixel_values s \<noteq> None \<or> sq_image_grid_thw s \<noteq> None \<or>
     sq_pixel_values_videos s \<noteq> None \<or> sq_video_grid_thw s \<noteq> None \<or>
     sq_position_ids s \<noteq> None \<or> sq_rope_delta s \<noteq> None)"

definition payload_rows :: "patch list option \<Rightarrow> nat" where
  "payload_rows p = (case p of None \<Rightarrow> 0 | Some rows \<Rightarrow> length rows)"

definition sq_vision_patch_count :: "sequence \<Rightarrow> nat" where
  "sq_vision_patch_count s = payload_rows (sq_pixel_values s) + payload_rows (sq_pixel_values_videos s)"

definition sq_effective_prefill_start :: "sequence \<Rightarrow> nat" where
  "sq_effective_prefill_start s =
     max (max (sq_num_cached_tokens s) (sq_num_computed_tokens s)) (sq_candidate_tokens s)"

definition sq_mm_prefix_boundary :: "sequence \<Rightarrow> nat option" where
  "sq_mm_prefix_boundary s =
    (let prompt = sq_prompt_token_ids s;
         visual = filter (\<lambda>i. Some (prompt ! i) = sq_image_token_id s \<or> Some (prompt ! i) = sq_video_token_id s)
                    [0..<length prompt]
     in if visual = [] then None
        else if last visual + 1 < sq_num_prompt_tokens s then Some (last visual + 1) else None)"

definition sq_num_cached_blocks :: "sequence \<Rightarrow> nat" where
  "sq_num_cached_blocks s = sq_num_cached_tokens s div sq_block_size s"

definition sq_num_blocks :: "sequence \<Rightarrow> nat" where
  "sq_num_blocks s = ceil_div (sq_num_tokens s) (sq_block_size s)"

definition sq_last_block_num_tokens :: "sequence \<Rightarrow> int" where
  "sq_last_block_num_tokens s =
     int (sq_num_tokens s) - (int (sq_num_blocks s) - 1) * int (sq_block_size s)"

definition sq_physical_kv_len :: "sequence \<Rightarrow> nat" where
  "sq_physical_kv_len s =
     (case sq_kv_layout s of None \<Rightarrow> sq_num_tokens s | Some ly \<Rightarrow> ly_physical_kv_len ly)"

definition sq_physical_num_blocks :: "sequence \<Rightarrow> nat" where
  "sq_physical_num_blocks s = ceil_div (sq_physical_kv_len s) (sq_block_size s)"

definition sq_physical_last_block_num_tokens :: "sequence \<Rightarrow> int" where
  "sq_physical_last_block_num_tokens s =
     int (sq_physical_kv_len s) - (int (sq_physical_num_blocks s) - 1) * int (sq_block_size s)"

definition sq_has_compact_kv_layout :: "sequence \<Rightarrow> bool" where
  "sq_has_compact_kv_layout s = (sq_kv_layout s \<noteq> None)"

definition sq_is_prefill_finished :: "sequence \<Rightarrow> bool" where
  "sq_is_prefill_finished s = (sq_num_prompt_tokens s \<le> sq_num_computed_tokens s)"

definition sq_remaining_prefill_tokens :: "sequence \<Rightarrow> nat" where
  "sq_remaining_prefill_tokens s = sq_num_prompt_tokens s - sq_effective_prefill_start s"

definition sq_block :: "nat \<Rightarrow> sequence \<Rightarrow> py_error + int list" where
  "sq_block i s = need IndexError (i < sq_num_blocks s)
     (Inr (take (sq_block_size s) (drop (i * sq_block_size s) (sq_token_ids s))))"

section \<open>Image spans\<close>

fun pad_runs :: "nat \<Rightarrow> int \<Rightarrow> int list \<Rightarrow> span list" where
  "pad_runs i tok [] = []"
| "pad_runs i tok (t # ts) =
     (if t = tok
      then let n = length (takeWhile (\<lambda>x. x = tok) ts)
           in (i, i + 1 + n) # pad_runs (i + 1 + n) tok (drop n ts)
      else pad_runs (i + 1) tok ts)"

definition sq_image_pad_runs :: "sequence \<Rightarrow> span list" where
  "sq_image_pad_runs s = (case sq_image_token_id s of
      None \<Rightarrow> [] | Some tok \<Rightarrow> pad_runs 0 tok (sq_prompt_token_ids s))"

fun grid_prod :: "nat \<times> nat \<times> nat \<Rightarrow> nat" where
  "grid_prod (t, h, w) = t * h * w"

text \<open>The inner \<open>while\<close> cuts one pad run by the token counts of the images that are left.\<close>

fun split_run :: "nat list \<Rightarrow> nat \<Rightarrow> nat \<Rightarrow> (span list \<times> nat list) option" where
  "split_run [] cursor block_end = (if cursor < block_end then None else Some ([], []))"
| "split_run (n # ns) cursor block_end =
     (if cursor < block_end
      then if block_end < cursor + n then None
           else (case split_run ns (cursor + n) block_end of None \<Rightarrow> None
                 | Some (spans, left) \<Rightarrow> Some ((cursor, cursor + n) # spans, left))
      else Some ([], n # ns))"

fun split_runs :: "span list \<Rightarrow> nat list \<Rightarrow> (span list \<times> nat list) option" where
  "split_runs [] ns = Some ([], ns)"
| "split_runs ((a, b) # runs) ns = (case split_run ns a b of None \<Rightarrow> None
     | Some (spans, left) \<Rightarrow> (case split_runs runs left of None \<Rightarrow> None
       | Some (spans2, rest) \<Rightarrow> Some (spans @ spans2, rest)))"

definition sq_image_token_spans :: "sequence \<Rightarrow> span list option" where
  "sq_image_token_spans s = (case (sq_image_token_id s, sq_image_grid_thw s) of
      (Some _, Some g) \<Rightarrow>
        (let tokens_per_image = map (\<lambda>r. grid_prod r div (sq_image_merge_size s * sq_image_merge_size s)) g
         in if sum_list tokens_per_image \<noteq> sq_image_token_count s then None
            else (case split_runs (sq_image_pad_runs s) tokens_per_image of
                Some (spans, []) \<Rightarrow> Some spans
              | _ \<Rightarrow> None))
    | _ \<Rightarrow> None)"

text \<open>The image indices inside a range: an image cut by the range is an error, and so is a gap.\<close>

fun covered_images :: "nat \<Rightarrow> span list \<Rightarrow> nat \<Rightarrow> nat \<Rightarrow> py_error + nat list" where
  "covered_images k [] a b = Inr []"
| "covered_images k ((s, e) # spans) a b =
     (if b \<le> s \<or> e \<le> a then covered_images (k + 1) spans a b
      else need ValueError (a \<le> s \<and> e \<le> b)
        (bind_res (covered_images (k + 1) spans a b) (\<lambda>ks. Inr (k # ks))))"

definition image_range_coverage ::
    "span list \<Rightarrow> nat \<Rightarrow> nat \<Rightarrow> py_error + (nat list \<times> nat) option" where
  "image_range_coverage spans a b =
     bind_res (covered_images 0 spans a b) (\<lambda>covered.
     if covered = [] then Inr None
     else need ValueError (covered = [hd covered..<last covered + 1])
       (Inr (Some (covered, sum_list (map (\<lambda>k. snd (spans ! k) - fst (spans ! k)) covered)))))"

definition py_slice :: "nat \<Rightarrow> nat \<Rightarrow> 'a list \<Rightarrow> 'a list" where
  "py_slice a b xs = take (b - a) (drop a xs)"

definition image_patches :: "grid option \<Rightarrow> nat \<Rightarrow> span list option \<Rightarrow> nat \<Rightarrow> nat \<Rightarrow> nat \<Rightarrow> nat \<Rightarrow> py_error + nat" where
  "image_patches grid rows spans observed expected a b =
    (case grid of None \<Rightarrow> Inl RuntimeError | Some g \<Rightarrow>
     (case spans of
        None \<Rightarrow> need ValueError (observed \<in> {0, expected}) (Inr rows)
      | Some sps \<Rightarrow>
          bind_res (image_range_coverage sps a b) (\<lambda>coverage.
          case coverage of None \<Rightarrow> Inl ValueError
          | Some (covered, _) \<Rightarrow>
              need ValueError (length g = length sps)
              (Inr (sum_list (map grid_prod (py_slice (hd covered) (last covered + 1) g)))))))"

definition modality_patches ::
    "bool \<Rightarrow> patch list option \<Rightarrow> grid option \<Rightarrow> int option \<Rightarrow> nat \<Rightarrow> span list option \<Rightarrow>
     int list \<Rightarrow> nat \<Rightarrow> nat \<Rightarrow> py_error + nat" where
  "modality_patches is_video payload grid token_id expected spans current a b =
    (case payload of None \<Rightarrow> Inr 0 | Some rows \<Rightarrow>
     (case token_id of None \<Rightarrow> Inl RuntimeError | Some tok \<Rightarrow>
        need RuntimeError (0 < expected)
       (let observed = count_list current tok in
        if observed = 0 then Inr 0
        else if is_video then need ValueError (observed = expected) (Inr (length rows))
        else image_patches grid (length rows) spans observed expected a b)))"

definition sq_vision_patch_count_for_range :: "nat \<Rightarrow> nat \<Rightarrow> sequence \<Rightarrow> py_error + nat" where
  "sq_vision_patch_count_for_range a b s =
     need ValueError (a < b \<and> b \<le> sq_num_prompt_tokens s)
    (let current = py_slice a b (sq_token_ids s) in
     bind_res (modality_patches False (sq_pixel_values s) (sq_image_grid_thw s) (sq_image_token_id s)
        (sq_image_token_count s) (sq_image_token_spans s) current a b) (\<lambda>image.
     bind_res (modality_patches True (sq_pixel_values_videos s) (sq_video_grid_thw s) (sq_video_token_id s)
        (sq_video_token_count s) None current a b) (\<lambda>video.
     Inr (image + video))))"

definition sq_prefill_vision_patch_count :: "sequence \<Rightarrow> py_error + nat" where
  "sq_prefill_vision_patch_count s = (let start = sq_effective_prefill_start s in
     if start = 0 then Inr (sq_vision_patch_count s)
     else if sq_num_prompt_tokens s \<le> start then Inr 0
     else sq_vision_patch_count_for_range start (sq_num_prompt_tokens s) s)"

definition image_surrogate :: "bytes \<Rightarrow> nat" where
  "image_surrogate h = le_nat (take 8 (sha256 h))"

definition sq_mm_token_hashes_for_block :: "nat \<Rightarrow> nat \<Rightarrow> sequence \<Rightarrow> (nat, nat) dict option" where
  "sq_mm_token_hashes_for_block block_index block_size s =
    (case (sq_media_token_hashes s, sq_image_token_id s, sq_image_token_spans s) of
       (Some hashes, Some _, Some spans) \<Rightarrow>
         if hashes = [] \<or> length spans \<noteq> length hashes then None
         else let start = block_index * block_size;
                  pairs = concat (map (\<lambda>((a, b), h).
                    map (\<lambda>p. (p - start, image_surrogate h)) [max start a..<min (start + block_size) b])
                    (zip spans hashes));
                  mapping = dict_update [] pairs
              in if mapping = [] then None else Some mapping
     | _ \<Rightarrow> None)"

definition split_image_payloads_for_range ::
    "patch list \<Rightarrow> grid \<Rightarrow> int \<Rightarrow> span list \<Rightarrow> nat \<Rightarrow> nat \<Rightarrow>
     py_error + (patch list option \<times> grid option \<times> nat)" where
  "split_image_payloads_for_range pixel_values g merge_size spans a b =
     need ValueError (0 < merge_size)
    (let rows = map grid_prod g;
         tokens = map (\<lambda>r. r div (nat merge_size * nat merge_size)) rows in
     need ValueError (length spans = length g)
    (need ValueError (list_all2 (\<lambda>(s, e) n. int e - int s = int n) spans tokens)
    (bind_res (image_range_coverage spans a b) (\<lambda>coverage. case coverage of
        None \<Rightarrow> Inr (None, None, 0)
      | Some (covered, pads) \<Rightarrow>
          Inr (Some (py_slice (sum_list (take (hd covered) rows)) (sum_list (take (last covered + 1) rows))
                 pixel_values),
               Some (py_slice (hd covered) (last covered + 1) g), pads)))))"

section \<open>Mutators\<close>

definition sq_transition_to :: "request_state \<Rightarrow> string \<Rightarrow> int \<Rightarrow> (unit, sequence) op" where
  "sq_transition_to st reason now =
     zoom sq_lifecycle (\<lambda>l s. s\<lparr>sq_lifecycle := l\<rparr>) (transition st reason None now)"

definition sq_append_token :: "int \<Rightarrow> (unit, sequence) op" where
  "sq_append_token token_id =
     thn (upd (\<lambda>s. s\<lparr>sq_token_ids := sq_token_ids s @ [token_id], sq_last_token := token_id,
                    sq_num_tokens := sq_num_tokens s + 1\<rparr>))
    (bnd (gets sq_kv_layout) (\<lambda>x. case x of
        None \<Rightarrow> ret ()
      | Some ly \<Rightarrow> zoom (\<lambda>_. ly) (\<lambda>l s. s\<lparr>sq_kv_layout := Some l\<rparr>) ly_append_generated_token))"

definition sq_install_kv_layout :: "kv_layout \<Rightarrow> (unit, sequence) op" where
  "sq_install_kv_layout ly = bnd (gets (\<lambda>s. s)) (\<lambda>s.
     thn (chk RuntimeError (sq_kv_layout s = None))
    (thn (chk ValueError (length (sq_block_table s) = ceil_div (ly_physical_kv_len ly) (sq_block_size s)))
    (thn (lift_res (ly_validate (sq_block_size s) (sq_block_table s) False ly))
    (thn (chk ValueError (ly_logical_context_len ly = sq_num_tokens s))
         (upd (\<lambda>s. s\<lparr>sq_kv_layout := Some ly\<rparr>))))))"

definition sq_install_cached_prefix_layout :: "kv_layout \<Rightarrow> (unit, sequence) op" where
  "sq_install_cached_prefix_layout ly = bnd (gets (\<lambda>s. s)) (\<lambda>s.
     thn (chk RuntimeError (sq_kv_layout s = None))
    (thn (chk ValueError (0 < sq_num_cached_tokens s \<and> sq_num_cached_tokens s < sq_num_prompt_tokens s))
    (thn (chk ValueError (sq_num_computed_tokens s = sq_num_cached_tokens s))
    (thn (chk ValueError (ly_logical_context_len ly = sq_num_cached_tokens s))
    (thn (lift_res (ly_validate (sq_block_size s) (sq_block_table s) False ly))
         (upd (\<lambda>s. s\<lparr>sq_kv_layout := Some ly\<rparr>)))))))"

definition sq_release_multimodal_runtime_tensors :: "(unit, sequence) op" where
  "sq_release_multimodal_runtime_tensors = upd (\<lambda>s. s\<lparr>sq_pixel_values := None,
     sq_image_grid_thw := None, sq_pixel_values_videos := None, sq_video_grid_thw := None,
     sq_position_ids := None, sq_precomputed_visual_embeds := None, sq_precomputed_deepstack := []\<rparr>)"

section \<open>Spans of the prompt\<close>

definition in_spans :: "span list \<Rightarrow> nat \<Rightarrow> bool" where
  "in_spans spans p \<longleftrightarrow> (\<exists>(a, b) \<in> set spans. a \<le> p \<and> p < b)"

lemma in_spans_simps [simp]:
  "in_spans [] p = False" "in_spans ((a, b) # spans) p = (a \<le> p \<and> p < b \<or> in_spans spans p)"
  "in_spans (spans @ spans') p = (in_spans spans p \<or> in_spans spans' p)"
  by (auto simp: in_spans_def)

fun spans_within :: "nat \<Rightarrow> nat \<Rightarrow> span list \<Rightarrow> bool" where
  "spans_within lo hi [] = (lo \<le> hi)"
| "spans_within lo hi ((a, b) # spans) = (lo \<le> a \<and> a \<le> b \<and> spans_within b hi spans)"

lemma spans_within_le: "spans_within lo hi spans \<Longrightarrow> lo \<le> hi"
  by (induction lo hi spans rule: spans_within.induct) auto

lemma spans_within_weaken: "spans_within lo hi spans \<Longrightarrow> lo' \<le> lo \<Longrightarrow> hi \<le> hi' \<Longrightarrow> spans_within lo' hi' spans"
  by (induction lo hi spans arbitrary: lo' rule: spans_within.induct) auto

lemma spans_within_append:
  "spans_within lo mid spans \<Longrightarrow> spans_within mid hi spans' \<Longrightarrow> spans_within lo hi (spans @ spans')"
  by (induction lo mid spans rule: spans_within.induct) (auto intro: spans_within_weaken)

lemma spans_within_mem: "spans_within lo hi spans \<Longrightarrow> (a, b) \<in> set spans \<Longrightarrow> lo \<le> a \<and> a \<le> b \<and> b \<le> hi"
proof (induction lo hi spans rule: spans_within.induct)
  case (2 lo hi a' b' spans)
  then show ?case using spans_within_le[of b' hi spans] by auto
qed simp

lemma takeWhile_run:
  assumes "n = length (takeWhile (\<lambda>x. x = tok) ts)"
  shows "n \<le> length ts" and "j < n \<Longrightarrow> ts ! j = tok"
proof -
  show "n \<le> length ts" using assms by (simp add: length_takeWhile_le)
  show "ts ! j = tok" if "j < n"
  proof -
    have "ts ! j = takeWhile (\<lambda>x. x = tok) ts ! j" using that assms by (simp add: takeWhile_nth)
    then show ?thesis using nth_mem[of j "takeWhile (\<lambda>x. x = tok) ts"] that assms set_takeWhileD by metis
  qed
qed

lemma pad_runs_within: "spans_within i (i + length ts) (pad_runs i tok ts)"
proof (induction i tok ts rule: pad_runs.induct)
  case (2 i tok t ts)
  define n where "n = length (takeWhile (\<lambda>x. x = tok) ts)"
  have n: "n \<le> length ts" by (simp add: n_def length_takeWhile_le)
  show ?case
  proof (cases "t = tok")
    case True
    have "spans_within (i + 1 + n) (i + 1 + n + length (drop n ts)) (pad_runs (i + 1 + n) tok (drop n ts))"
      using 2(1)[OF True n_def] .
    then show ?thesis using True n by (simp add: Let_def n_def[symmetric])
  next
    case False
    then show ?thesis using 2(2)[OF False] by (auto intro: spans_within_weaken)
  qed
qed simp

lemma pad_runs_in:
  "in_spans (pad_runs i tok ts) p \<longleftrightarrow> i \<le> p \<and> p < i + length ts \<and> ts ! (p - i) = tok"
proof (induction i tok ts rule: pad_runs.induct)
  case (2 i tok t ts)
  define n where "n = length (takeWhile (\<lambda>x. x = tok) ts)"
  note T = takeWhile_run[OF n_def]
  show ?case
  proof (cases "t = tok")
    case True
    have IH: "in_spans (pad_runs (i + 1 + n) tok (drop n ts)) p \<longleftrightarrow>
        i + 1 + n \<le> p \<and> p < i + 1 + length ts \<and> ts ! (p - (i + 1)) = tok"
      using 2(1)[OF True n_def] T(1) by auto
    have "(t # ts) ! (p - i) = tok" if "i \<le> p" "p < i + 1 + n"
      using that True T(2)[of "p - i - 1"] by (cases "p = i") (auto simp: nth_Cons')
    moreover have "(t # ts) ! (p - i) = ts ! (p - (i + 1))" if "i + 1 + n \<le> p" using that by (simp add: nth_Cons')
    ultimately show ?thesis using True T(1) IH
      by (cases "p < i + 1 + n") (auto simp: Let_def n_def[symmetric])
  next
    case False
    have IH: "in_spans (pad_runs (i + 1) tok ts) p \<longleftrightarrow>
        i + 1 \<le> p \<and> p < i + 1 + length ts \<and> ts ! (p - (i + 1)) = tok" using 2(2)[OF False] .
    show ?thesis using False IH by (cases "p = i") (auto simp: nth_Cons')
  qed
qed simp

lemma split_run_facts:
  "split_run ns c e = Some (spans, left) \<Longrightarrow> c \<le> e \<Longrightarrow>
   map (\<lambda>(a, b). b - a) spans @ left = ns \<and> spans_within c e spans \<and> (\<forall>p. in_spans spans p \<longleftrightarrow> c \<le> p \<and> p < e)"
proof (induction ns c e arbitrary: spans left rule: split_run.induct)
  case (2 n ns c e)
  show ?case
  proof (cases "c < e")
    case True
    then obtain sp where sp: "split_run ns (c + n) e = Some (sp, left)" "spans = (c, c + n) # sp" "c + n \<le> e"
      using 2(2) by (auto split: if_splits option.splits)
    then have IH: "map (\<lambda>(a, b). b - a) sp @ left = ns \<and> spans_within (c + n) e sp \<and>
        (\<forall>p. in_spans sp p \<longleftrightarrow> c + n \<le> p \<and> p < e)"
      using 2(1) True by simp
    then have "in_spans spans p \<longleftrightarrow> c \<le> p \<and> p < e" for p using sp(2,3) by (cases "p < c + n") auto
    then show ?thesis using IH sp(2) by simp
  next
    case False
    then have "c = e" and "spans = []" and "left = n # ns" using 2(2,3) by auto
    then show ?thesis by simp
  qed
qed (auto split: if_splits)

lemma split_runs_facts:
  "split_runs runs ns = Some (spans, left) \<Longrightarrow> spans_within lo hi runs \<Longrightarrow>
   map (\<lambda>(a, b). b - a) spans @ left = ns \<and> spans_within lo hi spans \<and>
   (\<forall>p. in_spans spans p \<longleftrightarrow> in_spans runs p)"
proof (induction runs ns arbitrary: lo spans left rule: split_runs.induct)
  case (2 a b runs ns)
  then obtain s1 l1 s2 where s: "split_run ns a b = Some (s1, l1)" "split_runs runs l1 = Some (s2, left)"
      "spans = s1 @ s2" by (auto split: option.splits)
  have w: "lo \<le> a" "a \<le> b" "spans_within b hi runs" using 2(3) by auto
  have "spans_within lo hi (s1 @ s2)"
    using split_run_facts[OF s(1) w(2)] 2(1)[OF s(1) _ s(2) w(3)] w(1)
    by (auto intro: spans_within_append spans_within_weaken)
  then show ?case using split_run_facts[OF s(1) w(2)] 2(1)[OF s(1) _ s(2) w(3)] s(3) by auto
qed auto

lemma image_token_spans_facts:
  assumes "sq_image_token_spans s = Some spans"
  obtains tok g where "sq_image_token_id s = Some tok" and "sq_image_grid_thw s = Some g"
    and "map (\<lambda>(a, b). b - a) spans = map (\<lambda>r. grid_prod r div (sq_image_merge_size s * sq_image_merge_size s)) g"
    and "spans_within 0 (length (sq_prompt_token_ids s)) spans"
    and "\<And>p. in_spans spans p \<longleftrightarrow> p < length (sq_prompt_token_ids s) \<and> sq_prompt_token_ids s ! p = tok"
    and "sum_list (map (\<lambda>(a, b). b - a) spans) = sq_image_token_count s"
proof -
  obtain tok g where tg: "sq_image_token_id s = Some tok" "sq_image_grid_thw s = Some g"
    using assms by (auto simp: sq_image_token_spans_def split: option.splits)
  let ?tpi = "map (\<lambda>r. grid_prod r div (sq_image_merge_size s * sq_image_merge_size s)) g"
  have sp: "split_runs (pad_runs 0 tok (sq_prompt_token_ids s)) ?tpi = Some (spans, [])"
    and sm: "sum_list ?tpi = sq_image_token_count s"
    using assms tg by (auto simp: sq_image_token_spans_def sq_image_pad_runs_def Let_def
        split: option.splits list.splits if_splits)
  note F = split_runs_facts[OF sp, of 0 "length (sq_prompt_token_ids s)"]
  have w: "spans_within 0 (length (sq_prompt_token_ids s)) (pad_runs 0 tok (sq_prompt_token_ids s))"
    using pad_runs_within[of 0 "sq_prompt_token_ids s" tok] by simp
  show ?thesis
    using F[OF w] sm pad_runs_in[of 0 tok "sq_prompt_token_ids s"] by (intro that[OF tg]) auto
qed

subsection \<open>Ranges over spans\<close>

text \<open>The images before a position, and whether a position cuts an image.\<close>

definition images_before :: "nat \<Rightarrow> span list \<Rightarrow> nat" where
  "images_before x spans = length (filter (\<lambda>(s, e). e \<le> x) spans)"

definition cuts :: "nat \<Rightarrow> span list \<Rightarrow> bool" where
  "cuts x spans = list_ex (\<lambda>(s, e). s < x \<and> x < e) spans"

definition proper_spans :: "span list \<Rightarrow> bool" where
  "proper_spans spans = list_all (\<lambda>(s, e). s < e) spans"

lemma images_before_simps [simp]:
  "images_before x [] = 0"
  "images_before x ((s, e) # spans) = (if e \<le> x then Suc (images_before x spans) else images_before x spans)"
  by (auto simp: images_before_def)

lemma cuts_simps [simp]:
  "cuts x [] = False" "cuts x ((s, e) # spans) = (s < x \<and> x < e \<or> cuts x spans)"
  "proper_spans [] = True" "proper_spans ((s, e) # spans) = (s < e \<and> proper_spans spans)"
  by (auto simp: cuts_def proper_spans_def)

lemma images_before_le: "images_before x spans \<le> length spans"
  by (simp add: images_before_def)

lemma images_before_mono: "x \<le> y \<Longrightarrow> images_before x spans \<le> images_before y spans"
  by (induction spans) auto

lemma images_before_0: "spans_within lo hi spans \<Longrightarrow> proper_spans spans \<Longrightarrow> x \<le> lo \<Longrightarrow> images_before x spans = 0"
  by (induction lo hi spans arbitrary: x rule: spans_within.induct) auto

lemma cuts_below: "spans_within lo hi spans \<Longrightarrow> x \<le> lo \<Longrightarrow> \<not> cuts x spans"
  by (induction lo hi spans arbitrary: x rule: spans_within.induct) auto

lemma covered_images_beyond:
  "spans_within lo hi spans \<Longrightarrow> b \<le> lo \<Longrightarrow> covered_images k spans a b = Inr []"
  by (induction lo hi spans arbitrary: k rule: spans_within.induct) auto

lemma covered_images_spec:
  "spans_within lo hi spans \<Longrightarrow> proper_spans spans \<Longrightarrow> a < b \<Longrightarrow>
   covered_images k spans a b =
     (if cuts a spans \<or> cuts b spans then Inl ValueError
      else Inr [k + images_before a spans..<k + images_before b spans])"
proof (induction lo hi spans arbitrary: k rule: spans_within.induct)
  case (2 lo hi s e spans)
  have w: "lo \<le> s" "s < e" "spans_within e hi spans" "proper_spans spans" using 2(2,3) by auto
  note IH = 2(1)[OF w(3,4) 2(4)]
  consider "e \<le> a" | "b \<le> s" | "a < e" "s < b" by linarith
  then show ?case
  proof cases
    case 1
    then show ?thesis using w 2(4) IH[of "k + 1"] by simp
  next
    case 2
    then show ?thesis
      using w \<open>a < b\<close> covered_images_beyond[OF w(3), of b "k + 1" a] images_before_0[OF w(3,4)]
        cuts_below[OF w(3)] by simp
  next
    case 3
    then have a0: "images_before a spans = 0" "\<not> cuts a spans"
      using w images_before_0[OF w(3,4), of a] cuts_below[OF w(3), of a] by auto
    have b0: "b < e \<Longrightarrow> images_before b spans = 0 \<and> \<not> cuts b spans"
      using images_before_0[OF w(3,4), of b] cuts_below[OF w(3), of b] by auto
    show ?thesis
    proof (cases "a \<le> s \<and> e \<le> b")
      case True
      have "[k..<Suc (k + images_before b spans)] = k # [Suc k..<Suc (k + images_before b spans)]"
        by (rule upt_conv_Cons) simp
      then show ?thesis using True w 3 a0 IH[of "k + 1"] by (simp del: upt_Suc)
    next
      case False
      then show ?thesis using w 3 a0 b0 by (auto simp: need_def)
    qed
  qed
qed simp

lemma image_range_coverage_spec:
  assumes "spans_within lo hi spans" and "proper_spans spans" and "a < b"
  shows "image_range_coverage spans a b =
    (if cuts a spans \<or> cuts b spans then Inl ValueError
     else if images_before a spans = images_before b spans then Inr None
     else Inr (Some ([images_before a spans..<images_before b spans],
       sum_list (map (\<lambda>(s, e). e - s) (py_slice (images_before a spans) (images_before b spans) spans)))))"
proof -
  let ?i = "images_before a spans" and ?j = "images_before b spans"
  have ij: "?i \<le> ?j" "?j \<le> length spans"
    using images_before_mono[of a b spans] assms(3) images_before_le by auto
  have slice: "py_slice ?i ?j spans = map ((!) spans) [?i..<?j]"
    using ij by (intro nth_equalityI) (simp_all add: py_slice_def)
  have eq: "map (\<lambda>k. snd (spans ! k) - fst (spans ! k)) [?i..<?j]
      = map (\<lambda>(s, e). e - s) (py_slice ?i ?j spans)"
    by (simp add: slice case_prod_beta)
  have hl: "[?i..<?j] = [hd [?i..<?j]..<last [?i..<?j] + 1]" if "?i < ?j"
    using that by (simp add: hd_upt last_upt del: upt_Suc)
  show ?thesis
    using covered_images_spec[OF assms, of 0] ij hl
    by (auto simp: image_range_coverage_def eq need_def)
qed

lemma count_list_slice_0:
  assumes "count_list (py_slice a b xs) tok = 0" and "a \<le> p" "p < b" "p < length xs"
  shows "xs ! p \<noteq> tok"
proof -
  have "xs ! p = py_slice a b xs ! (p - a)" and "p - a < length (py_slice a b xs)"
    using assms(2-4) by (auto simp: py_slice_def)
  then have "xs ! p \<in> set (py_slice a b xs)" using nth_mem by metis
  then show ?thesis using assms(1) by (auto simp: count_list_0_iff)
qed

lemma count_list_slice_pos:
  assumes "count_list (py_slice a b xs) tok \<noteq> 0"
  shows "\<exists>p. a \<le> p \<and> p < b \<and> p < length xs \<and> xs ! p = tok"
proof -
  have "tok \<in> set (py_slice a b xs)" using assms by (metis count_list_0_iff)
  then obtain i where "i < length (py_slice a b xs)" "py_slice a b xs ! i = tok" by (metis in_set_conv_nth)
  then show ?thesis by (intro exI[of _ "a + i"]) (auto simp: py_slice_def)
qed

lemma images_before_eq_iff:
  assumes "spans_within lo hi spans" "proper_spans spans" "a < b" "\<not> cuts a spans" "\<not> cuts b spans"
  shows "images_before a spans = images_before b spans \<longleftrightarrow> \<not> (\<exists>p. a \<le> p \<and> p < b \<and> in_spans spans p)"
  using assms
proof (induction lo hi spans rule: spans_within.induct)
  case (2 lo hi s e spans)
  have w: "s < e" "spans_within e hi spans" "proper_spans spans" "\<not> cuts a spans" "\<not> cuts b spans"
    using 2(2-6) by auto
  have ca: "\<not> (s < a \<and> a < e)" "\<not> (s < b \<and> b < e)" using 2(5,6) by auto
  note IH = 2(1)[OF w(2,3) 2(4) w(4,5)]
  have mono: "images_before a spans \<le> images_before b spans" using images_before_mono 2(4) by simp
  consider "e \<le> a" | "b \<le> s" | "a \<le> s" "e \<le> b" using ca 2(4) w(1) by linarith
  then show ?case
  proof cases
    case 1
    then show ?thesis using IH 2(4) by auto
  next
    case 2
    then have "images_before a spans = 0" "images_before b spans = 0"
      using images_before_0[OF w(2,3)] \<open>a < b\<close> w(1) by auto
    then show ?thesis using 2 IH \<open>a < b\<close> w(1) by auto
  next
    case 3
    then have "\<exists>p. a \<le> p \<and> p < b \<and> s \<le> p \<and> p < e" using w(1) by (intro exI[of _ s]) simp
    then show ?thesis using 3 mono w(1) by auto
  qed
qed simp

text \<open>With image spans known, the patches of a range are those of the images inside it.\<close>

definition patches_between :: "span list \<Rightarrow> grid \<Rightarrow> nat \<Rightarrow> nat \<Rightarrow> nat" where
  "patches_between spans g a b =
     sum_list (map grid_prod (py_slice (images_before a spans) (images_before b spans) g))"

lemma py_slice_split:
  "i \<le> j \<Longrightarrow> j \<le> k \<Longrightarrow> py_slice i k xs = py_slice i j xs @ py_slice j k xs"
proof -
  assume a: "i \<le> j" "j \<le> k"
  have "take (k - i) (drop i xs) = take ((j - i) + (k - j)) (drop i xs)" using a by simp
  also have "\<dots> = take (j - i) (drop i xs) @ take (k - j) (drop j xs)" using a unfolding take_add by simp
  finally show ?thesis by (simp add: py_slice_def)
qed

lemma patches_between_split:
  "a \<le> b \<Longrightarrow> b \<le> c \<Longrightarrow>
   patches_between spans g a c = patches_between spans g a b + patches_between spans g b c"
  using py_slice_split[of "images_before a spans" "images_before b spans" "images_before c spans" g]
    images_before_mono[of a b spans] images_before_mono[of b c spans]
  by (simp add: patches_between_def)

definition image_only :: "sequence \<Rightarrow> span list \<Rightarrow> grid \<Rightarrow> bool" where
  "image_only s spans g \<longleftrightarrow> sq_image_token_spans s = Some spans \<and> sq_image_grid_thw s = Some g \<and>
     sq_pixel_values s \<noteq> None \<and> sq_pixel_values_videos s = None \<and> proper_spans spans \<and>
     0 < sq_image_token_count s \<and> sq_num_prompt_tokens s \<le> length (sq_token_ids s)"

lemma vision_patch_count_for_range:
  assumes img: "image_only s spans g" and r: "a < b" "b \<le> sq_num_prompt_tokens s"
  shows "sq_vision_patch_count_for_range a b s =
    (if cuts a spans \<or> cuts b spans then Inl ValueError else Inr (patches_between spans g a b))"
proof -
  have sp: "sq_image_token_spans s = Some spans" and g: "sq_image_grid_thw s = Some g"
    and p: "proper_spans spans" and n: "sq_num_prompt_tokens s \<le> length (sq_token_ids s)"
    and cnt: "0 < sq_image_token_count s" and vid: "sq_pixel_values_videos s = None"
    using img by (auto simp: image_only_def)
  obtain rows where rows: "sq_pixel_values s = Some rows" using img by (auto simp: image_only_def)
  obtain tok g' where F: "sq_image_token_id s = Some tok" "sq_image_grid_thw s = Some g'"
    "map (\<lambda>(a, b). b - a) spans = map (\<lambda>r. grid_prod r div (sq_image_merge_size s * sq_image_merge_size s)) g'"
    "spans_within 0 (length (sq_prompt_token_ids s)) spans"
    "\<And>p. in_spans spans p \<longleftrightarrow> p < length (sq_prompt_token_ids s) \<and> sq_prompt_token_ids s ! p = tok"
    by (rule image_token_spans_facts[OF sp]) blast
  have len: "length (sq_prompt_token_ids s) = sq_num_prompt_tokens s"
    using n by (simp add: sq_prompt_token_ids_def)
  have gl: "length g = length spans" using arg_cong[OF F(3), of length] F(2) g by simp
  have pads: "in_spans spans p \<longleftrightarrow> sq_token_ids s ! p = tok" if "p < sq_num_prompt_tokens s" for p
    using F(5)[of p] that len n by (simp add: sq_prompt_token_ids_def)
  let ?obs = "count_list (py_slice a b (sq_token_ids s)) tok"
  have obs: "?obs = 0 \<longleftrightarrow> \<not> (\<exists>p. a \<le> p \<and> p < b \<and> in_spans spans p)"
    using count_list_slice_0[of a b "sq_token_ids s" tok] count_list_slice_pos[of a b "sq_token_ids s" tok]
      pads r(2) n by (metis le_trans less_le_trans)
  have nocut: "\<not> cuts a spans" "\<not> cuts b spans" if "?obs = 0"
  proof -
    have "\<not> (\<exists>s e. (s, e) \<in> set spans \<and> s < b \<and> a < e)"
    proof
      assume "\<exists>s e. (s, e) \<in> set spans \<and> s < b \<and> a < e"
      then obtain s' e where se: "(s', e) \<in> set spans" "s' < b" "a < e" by auto
      then have "s' < e" using p by (auto simp: proper_spans_def list_all_iff)
      then have "in_spans spans (max a s')"
        using se r(1) unfolding in_spans_def by (intro bexI[OF _ se(1)]) simp
      moreover have "a \<le> max a s'" "max a s' < b" using se r(1) by auto
      ultimately show False using obs that by blast
    qed
    then show "\<not> cuts a spans" "\<not> cuts b spans"
      using r(1) unfolding cuts_def list_ex_iff by (auto, meson less_trans, meson less_trans)
  qed
  have none: "patches_between spans g a b = 0" if "?obs = 0"
    using images_before_eq_iff[OF F(4) p r(1) nocut[OF that]] obs that
    by (simp add: patches_between_def py_slice_def)
  show ?thesis
  proof (cases "?obs = 0")
    case True
    then show ?thesis using r rows F(1) cnt vid nocut none
      by (simp add: sq_vision_patch_count_for_range_def modality_patches_def Let_def)
  next
    case False
    then have ex: "\<not> \<not> (\<exists>p. a \<le> p \<and> p < b \<and> in_spans spans p)" unfolding obs .
    have ne: "images_before a spans \<noteq> images_before b spans" if "\<not> cuts a spans" "\<not> cuts b spans"
      unfolding images_before_eq_iff[OF F(4) p r(1) that] by (rule ex)
    have lt: "images_before a spans < images_before b spans" if "\<not> cuts a spans" "\<not> cuts b spans"
      using ne[OF that] images_before_mono[of a b spans] r(1) by simp
    show ?thesis
      using r rows F(1) cnt vid False g gl sp ne lt image_range_coverage_spec[OF F(4) p r(1)]
      by (auto simp: sq_vision_patch_count_for_range_def modality_patches_def Let_def image_patches_def
          patches_between_def hd_upt last_upt simp del: upt_Suc)
  qed
qed

section \<open>Properties\<close>

lemma in_concat_map: "x \<in> set xs \<Longrightarrow> y \<in> set (f x) \<Longrightarrow> y \<in> set (concat (map f xs))"
  by auto

lemma map_of_functional:
  assumes "\<And>v v'. (k, v) \<in> set xs \<Longrightarrow> (k, v') \<in> set xs \<Longrightarrow> v = v'"
  shows "map_of xs k = Some v \<longleftrightarrow> (k, v) \<in> set xs"
proof
  assume v: "(k, v) \<in> set xs"
  then obtain w where w: "map_of xs k = Some w" using weak_map_of_SomeI by fastforce
  then show "map_of xs k = Some v" using assms[OF v map_of_SomeD[OF w]] by simp
qed (rule map_of_SomeD)

definition example_args :: sequence_args where
  "example_args = \<lparr>sa_temperature = 1, sa_max_tokens = 8, sa_ignore_eos = False,
     sa_pixel_values = Some [0, 1, 2, 3, 4, 5, 6, 7], sa_image_grid_thw = Some [(1, 2, 2), (1, 2, 2)],
     sa_pixel_values_videos = None, sa_video_grid_thw = None, sa_position_ids = None,
     sa_rope_delta = None, sa_image_token_id = Some 9, sa_image_token_count = 2,
     sa_video_token_id = None, sa_video_token_count = 0, sa_media_token_hashes = Some [[1], [2]],
     sa_image_merge_size = 2\<rparr>"

text \<open>A prompt of six tokens with one image token at position 1 and one at position 3.\<close>

definition example_seq :: sequence where
  "example_seq = (case sequence_new [5, 9, 6, 9, 7, 8] 4 (PInt 3) example_args of Inr s \<Rightarrow> s)"

lemma example_seq_fields:
  "sequence_new [5, 9, 6, 9, 7, 8] 4 (PInt 3) example_args = Inr example_seq"
  "sq_token_ids example_seq = [5, 9, 6, 9, 7, 8]" "sq_num_prompt_tokens example_seq = 6"
  "sq_image_token_id example_seq = Some 9" "sq_image_grid_thw example_seq = Some [(1, 2, 2), (1, 2, 2)]"
  "sq_image_merge_size example_seq = 2" "sq_image_token_count example_seq = 2"
  "sq_pixel_values example_seq = Some [0, 1, 2, 3, 4, 5, 6, 7]" "sq_pixel_values_videos example_seq = None"
  "sq_media_token_hashes example_seq = Some [[1], [2]]"
  by (simp_all add: example_seq_def sequence_new_def example_args_def lifecycle_new_def)

lemma example_seq_spans: "sq_image_token_spans example_seq = Some [(1, 2), (3, 4)]"
  by (simp add: sq_image_token_spans_def sq_image_pad_runs_def sq_prompt_token_ids_def example_seq_fields Let_def)

text \<open>When image spans exist they are ordered and disjoint, one per image and of that image's
  token count, and a prompt position lies in one of them exactly when it holds the image token.\<close>

theorem image_spans_cover_pads:
  assumes "sq_image_token_spans s = Some spans"
  shows "\<exists>tok g. sq_image_token_id s = Some tok \<and> sq_image_grid_thw s = Some g \<and>
    map (\<lambda>(a, b). b - a) spans = map (\<lambda>r. grid_prod r div (sq_image_merge_size s * sq_image_merge_size s)) g \<and>
    sum_list (map (\<lambda>(a, b). b - a) spans) = sq_image_token_count s \<and>
    (\<forall>i j. i < j \<longrightarrow> j < length spans \<longrightarrow> snd (spans ! i) \<le> fst (spans ! j)) \<and>
    (\<forall>p. (\<exists>(a, b) \<in> set spans. a \<le> p \<and> p < b) \<longleftrightarrow>
         p < length (sq_prompt_token_ids s) \<and> sq_prompt_token_ids s ! p = tok)"
proof -
  have ordered: "snd (sps ! i) \<le> fst (sps ! j)" if "spans_within lo hi sps" "i < j" "j < length sps"
    for lo hi sps i j
    using that
  proof (induction lo hi sps arbitrary: i j rule: spans_within.induct)
    case (2 lo hi a b sps)
    obtain j' where j': "j = Suc j'" using 2(3) by (cases j) auto
    have le: "b \<le> fst (sps ! j')" if "j' < length sps"
      using spans_within_mem[of b hi sps "fst (sps ! j')" "snd (sps ! j')"] nth_mem[OF that] 2(2) by simp
    show ?case using 2 j' le by (cases i) auto
  qed simp
  obtain tok g where F: "sq_image_token_id s = Some tok" "sq_image_grid_thw s = Some g"
    "map (\<lambda>(a, b). b - a) spans = map (\<lambda>r. grid_prod r div (sq_image_merge_size s * sq_image_merge_size s)) g"
    "spans_within 0 (length (sq_prompt_token_ids s)) spans"
    "\<And>p. in_spans spans p \<longleftrightarrow> p < length (sq_prompt_token_ids s) \<and> sq_prompt_token_ids s ! p = tok"
    "sum_list (map (\<lambda>(a, b). b - a) spans) = sq_image_token_count s"
    by (rule image_token_spans_facts[OF assms]) blast
  have "\<forall>i j. i < j \<longrightarrow> j < length spans \<longrightarrow> snd (spans ! i) \<le> fst (spans ! j)"
    using ordered[OF F(4)] by blast
  then show ?thesis
    using F(1-3,5,6) unfolding in_spans_def by (intro exI[of _ tok] exI[of _ g] conjI) blast+
qed

theorem image_spans_cover_pads_witness:
  "\<forall>p. (\<exists>(a, b) \<in> set [(1, 2), (3, 4)]. a \<le> p \<and> p < b) \<longleftrightarrow>
     p < length [5, 9, 6, 9, 7, 8::int] \<and> [5, 9, 6, 9, 7, 8] ! p = (9::int)"
  using image_spans_cover_pads[OF example_seq_spans]
  by (simp add: example_seq_fields sq_prompt_token_ids_def)

text \<open>For a request with image payload and no video, a prefill range is accepted exactly when
  neither end cuts an image; then the patch counts of consecutive ranges add up, and the whole
  prompt accounts for every grid row once.\<close>

theorem vision_patches_additive:
  assumes "image_only s spans g" and "a < b" and "b < c" and "c \<le> sq_num_prompt_tokens s"
    and "\<not> cuts a spans" and "\<not> cuts b spans" and "\<not> cuts c spans"
  shows "\<exists>x y. sq_vision_patch_count_for_range a b s = Inr x \<and>
    sq_vision_patch_count_for_range b c s = Inr y \<and>
    sq_vision_patch_count_for_range a c s = Inr (x + y) \<and>
    (a = 0 \<longrightarrow> c = sq_num_prompt_tokens s \<longrightarrow> x + y = sum_list (map grid_prod g))"
proof -
  have sp: "sq_image_token_spans s = Some spans" and n: "sq_num_prompt_tokens s \<le> length (sq_token_ids s)"
    and p: "proper_spans spans" and g: "sq_image_grid_thw s = Some g"
    using assms(1) by (auto simp: image_only_def)
  have w: "spans_within 0 (sq_num_prompt_tokens s) spans" and gl: "length g = length spans"
    using image_token_spans_facts[OF sp] n g
    by (metis length_take min.absorb2 sq_prompt_token_ids_def, metis length_map option.inject)
  have all: "images_before 0 spans = 0" "images_before (sq_num_prompt_tokens s) spans = length spans"
  proof -
    show "images_before 0 spans = 0" by (rule images_before_0[OF w p]) simp
    have "filter (\<lambda>(s', e). e \<le> sq_num_prompt_tokens s) spans = spans"
      using spans_within_mem[OF w] by (intro filter_True) auto
    then show "images_before (sq_num_prompt_tokens s) spans = length spans" by (simp add: images_before_def)
  qed
  show ?thesis
    using assms patches_between_split[of a b c spans g] all gl
      vision_patch_count_for_range[OF assms(1), of a b] vision_patch_count_for_range[OF assms(1), of b c]
      vision_patch_count_for_range[OF assms(1), of a c]
    by (auto simp: patches_between_def py_slice_def)
qed

theorem vision_patches_additive_witness:
  "\<exists>x y. sq_vision_patch_count_for_range 0 2 example_seq = Inr x \<and>
     sq_vision_patch_count_for_range 2 6 example_seq = Inr y \<and> x + y = 8"
  using vision_patches_additive[of example_seq "[(1, 2), (3, 4)]" "[(1, 2, 2), (1, 2, 2)]" 0 2 6]
  by (simp add: image_only_def example_seq_spans example_seq_fields) blast

text \<open>Inside a block, exactly the positions that hold image tokens are mapped, each to the
  surrogate of the digest of the image it belongs to; without media identities, or when their
  number differs from that of the images, nothing is mapped.\<close>

theorem mm_block_hashes_identify_images:
  assumes "sq_mm_token_hashes_for_block k bs s = Some d"
  shows "\<exists>spans hashes. sq_image_token_spans s = Some spans \<and> sq_media_token_hashes s = Some hashes \<and>
    length spans = length hashes \<and>
    (\<forall>off v. dict_get d off = Some v \<longleftrightarrow>
       off < bs \<and> (\<exists>i < length spans. fst (spans ! i) \<le> k * bs + off \<and> k * bs + off < snd (spans ! i) \<and>
                   v = le_nat (take 8 (sha256 (hashes ! i)))))"
proof -
  obtain hashes spans where hs: "sq_media_token_hashes s = Some hashes" "sq_image_token_spans s = Some spans"
      "length spans = length hashes"
    and d: "d = dict_update [] (concat (map (\<lambda>((a, b), h).
        map (\<lambda>p. (p - k * bs, image_surrogate h)) [max (k * bs) a..<min (k * bs + bs) b]) (zip spans hashes)))"
    using assms by (auto simp: sq_mm_token_hashes_for_block_def Let_def split: option.splits if_splits)
  obtain n where w: "spans_within 0 n spans" by (rule image_token_spans_facts[OF hs(2)]) blast
  let ?pairs = "concat (map (\<lambda>((a, b), h).
        map (\<lambda>p. (p - k * bs, image_surrogate h)) [max (k * bs) a..<min (k * bs + bs) b]) (zip spans hashes))"
  have mem: "(off, v) \<in> set ?pairs \<longleftrightarrow> off < bs \<and> (\<exists>i < length spans.
      fst (spans ! i) \<le> k * bs + off \<and> k * bs + off < snd (spans ! i) \<and> v = image_surrogate (hashes ! i))"
    (is "_ \<longleftrightarrow> ?R off v") for off v
  proof
    assume "(off, v) \<in> set ?pairs"
    then obtain a b h p where z: "((a, b), h) \<in> set (zip spans hashes)" "off = p - k * bs"
        "v = image_surrogate h" "max (k * bs) a \<le> p" "p < min (k * bs + bs) b" by auto
    then obtain i where "i < length spans" "spans ! i = (a, b)" "hashes ! i = h"
      by (auto simp: set_zip hs(3))
    then show "?R off v" using z by (intro conjI exI[of _ i]) auto
  next
    assume "?R off v"
    then obtain i where i: "off < bs" "i < length spans" "fst (spans ! i) \<le> k * bs + off"
        "k * bs + off < snd (spans ! i)" "v = image_surrogate (hashes ! i)" by auto
    then have "((fst (spans ! i), snd (spans ! i)), hashes ! i) \<in> set (zip spans hashes)"
      by (auto simp: set_zip hs(3) intro!: exI[of _ i])
    moreover have "(off, v) \<in> set (map (\<lambda>p. (p - k * bs, image_surrogate (hashes ! i)))
        [max (k * bs) (fst (spans ! i))..<min (k * bs + bs) (snd (spans ! i))])"
      using i by (auto intro!: image_eqI[of _ _ "k * bs + off"])
    ultimately show "(off, v) \<in> set ?pairs"
      by (intro in_concat_map[where x = "((fst (spans ! i), snd (spans ! i)), hashes ! i)"])
        (simp_all add: case_prod_beta)
  qed
  have uniq: "i = j" if "i < length spans" "j < length spans" "fst (spans ! i) \<le> p" "p < snd (spans ! i)"
      "fst (spans ! j) \<le> p" "p < snd (spans ! j)" for i j p
    using that w
  proof (induction spans arbitrary: i j rule: spans_within.induct[where ?a0.0 = 0 and ?a1.0 = n])
    case (2 lo hi a b sps)
    have le: "b \<le> fst (sps ! l)" if "l < length sps" for l
      using spans_within_mem[of b hi sps "fst (sps ! l)" "snd (sps ! l)"] nth_mem[OF that] 2(8) by simp
    show ?case using 2 le[of "i - 1"] le[of "j - 1"] by (cases i; cases j) auto
  qed simp
  have functional: "v = v'" if "(off, v) \<in> set (rev ?pairs)" "(off, v') \<in> set (rev ?pairs)" for off v v'
    using that uniq unfolding set_rev mem by metis
  have "dict_get d off = Some v \<longleftrightarrow> (off, v) \<in> set ?pairs" for off v
  proof -
    have "map_of (rev ?pairs) off = Some v \<longleftrightarrow> (off, v) \<in> set (rev ?pairs)"
      using functional by (intro map_of_functional) blast
    moreover have "dict_get d = map_of (rev ?pairs)"
      unfolding d dict_get_update by (simp only: dict_get_Nil empty_map_add)
    ultimately show ?thesis by (simp only: set_rev)
  qed
  then show ?thesis using hs mem by (auto simp: image_surrogate_def)
qed

theorem mm_block_hashes_identify_images_witness:
  "dict_get [(1::nat, image_surrogate [1]), (3, image_surrogate [2])] 3 = Some (le_nat (take 8 (sha256 [2])))"
proof -
  have "sq_mm_token_hashes_for_block 0 4 example_seq
      = Some [(1, image_surrogate [1]), (3, image_surrogate [2])]"
    by (simp add: sq_mm_token_hashes_for_block_def example_seq_spans example_seq_fields Let_def
        upt_rec[of "Suc 0"])
  from mm_block_hashes_identify_images[OF this] show ?thesis
    using example_seq_spans by (auto simp: example_seq_fields intro: exI[of _ 1])
qed

end
