(* ===== verification/Py_Floats.thy ===== *)
theory Py_Floats imports Py_Values begin

text \<open>
  Python's finite floats as the rationals they denote.  \<open>fl\<close> rounds a rational to the nearest
  IEEE double (53 significant bits, ties to even), which is what one arithmetic operation does;
  overflow and subnormal numbers do not occur in the quantities of the engine.  \<open>round_even\<close> is
  Python's \<open>round\<close> to an integer.
\<close>

section \<open>Rounding to an integer\<close>

definition round_even :: "rat \<Rightarrow> int" where
  "round_even x = (let f = \<lfloor>x\<rfloor>; d = x - of_int f in
     if d < 1 / 2 then f else if 1 / 2 < d then f + 1 else if even f then f else f + 1)"

lemma round_even_le: "x \<le> of_int n \<Longrightarrow> round_even x \<le> n"
proof (cases "x = of_int \<lfloor>x\<rfloor>")
  case False
  assume "x \<le> of_int n"
  then have "of_int \<lfloor>x\<rfloor> < (of_int n :: rat)" using False of_int_floor_le[of x] by linarith
  then show ?thesis by (simp add: round_even_def Let_def)
next
  case True
  assume "x \<le> of_int n"
  then have "\<lfloor>x\<rfloor> \<le> n" using True by linarith
  moreover have "x - of_int \<lfloor>x\<rfloor> = 0" unfolding True[symmetric] by (rule diff_self)
  then have "round_even x = \<lfloor>x\<rfloor>" unfolding round_even_def Let_def by (simp only:) simp
  ultimately show ?thesis by simp
qed

lemma round_even_ge: "of_int n \<le> x \<Longrightarrow> n \<le> round_even x"
  by (simp add: round_even_def Let_def le_floor_iff[symmetric])

lemma round_even_int [simp]: "round_even (of_int n) = n"
  by (intro antisym round_even_le round_even_ge) simp_all

lemma round_even_near: "\<bar>of_int (round_even x) - x\<bar> \<le> 1 / 2"
proof -
  define f where "f = \<lfloor>x\<rfloor>"
  have "of_int f \<le> x" "x < of_int f + 1" unfolding f_def by linarith+
  then show ?thesis by (auto simp: round_even_def Let_def abs_if f_def[symmetric])
qed

section \<open>Rounding to a double\<close>

fun lg2 :: "nat \<Rightarrow> nat" where
  "lg2 n = (if n \<le> 1 then 0 else Suc (lg2 (n div 2)))"

declare lg2.simps [simp del]

lemma lg2_bounds: "0 < n \<Longrightarrow> 2 ^ lg2 n \<le> n \<and> n < 2 * 2 ^ lg2 n"
proof (induction n rule: lg2.induct)
  case (1 n)
  show ?case
  proof (cases "n \<le> 1")
    case True
    then show ?thesis using 1(2) by (simp add: lg2.simps)
  next
    case False
    then have "2 ^ lg2 (n div 2) \<le> n div 2 \<and> n div 2 < 2 * 2 ^ lg2 (n div 2)" using 1(1) by simp
    then show ?thesis using False by (subst (1 2) lg2.simps) auto
  qed
qed

text \<open>The exponent of the binade of a positive rational.\<close>

definition binade :: "rat \<Rightarrow> int" where
  "binade x = (case quotient_of x of (p, q) \<Rightarrow>
     let d = int (lg2 (nat p)) - int (lg2 (nat q)) in if 2 powi d \<le> x then d else d - 1)"

lemma binade_bounds:
  assumes "0 < x"
  shows "2 powi binade x \<le> x" and "x < 2 powi (binade x + 1)"
proof -
  obtain p q where pq: "quotient_of x = (p, q)" by (cases "quotient_of x")
  have q: "0 < q" and x: "x = of_int p / of_int q" using quotient_of_denom_pos[OF pq] quotient_of_div[OF pq] .
  have p: "0 < p" using assms q x by (simp add: zero_less_divide_iff)
  define a b where "a = lg2 (nat p)" and "b = lg2 (nat q)"
  have P: "2 ^ a \<le> nat p" "nat p < 2 * 2 ^ a" and Q: "2 ^ b \<le> nat q" "nat q < 2 * 2 ^ b"
    using lg2_bounds[of "nat p"] lg2_bounds[of "nat q"] p q by (simp_all add: a_def b_def)
  have "int (2 ^ a) \<le> p" "p < int (2 * 2 ^ a)" "int (2 ^ b) \<le> q" "q < int (2 * 2 ^ b)"
    using P Q p q by linarith+
  then have R: "(of_int (2 ^ a) :: rat) \<le> of_int p" "(of_int p :: rat) < of_int (2 * 2 ^ a)"
    "(of_int (2 ^ b) :: rat) \<le> of_int q" "(of_int q :: rat) < of_int (2 * 2 ^ b)"
    unfolding of_int_le_iff of_int_less_iff by simp_all
  have q': "(0 :: rat) < of_int q" using q by simp
  have up: "x < 2 * (2 ^ a / 2 ^ b)"
  proof -
    have "of_int p * 2 ^ b < (2 * 2 ^ a) * (of_int q :: rat)"
      using R p by (intro mult_less_le_imp_less) simp_all
    then show ?thesis unfolding x using q' by (simp add: field_simps)
  qed
  have low: "2 ^ a / 2 ^ b / 2 \<le> x"
  proof -
    have "2 ^ a * of_int q \<le> of_int p * (2 * (2 :: rat) ^ b)"
      using R q' p by (intro mult_mono) simp_all
    then show ?thesis unfolding x using q' by (simp add: field_simps)
  qed
  have d: "(2 :: rat) powi (int a - int b) = 2 ^ a / 2 ^ b" by (simp add: power_int_diff)
  have s: "(2 :: rat) powi (k + 1) = 2 * 2 powi k" "(2 :: rat) powi (k - 1) = 2 powi k / 2" for k
    by (simp_all add: power_int_add power_int_diff)
  have bx: "binade x = (if 2 powi (int a - int b) \<le> x then int a - int b else int a - int b - 1)"
    by (simp add: binade_def pq a_def b_def Let_def)
  show "2 powi binade x \<le> x" using low d s(2)[of "int a - int b"] by (simp add: bx)
  show "x < 2 powi (binade x + 1)" using up d s(1)[of "int a - int b"] by (simp add: bx)
qed

definition fl :: "rat \<Rightarrow> rat" where
  "fl x = (if x = 0 then 0 else
     let u = 2 powi (binade \<bar>x\<bar> - 52) in of_int (round_even (x / u)) * u)"

lemma fl_0 [simp]: "fl 0 = 0"
  by (simp add: fl_def)

lemma ulp_of_int:
  assumes "0 < x" and "x < 2 ^ 53"
  obtains k :: nat where "(2 :: rat) powi (binade x - 52) = 1 / 2 ^ k"
proof -
  have "(2 :: rat) powi binade x < 2 powi 53"
    using binade_bounds(1)[OF assms(1)] assms(2) by simp
  then have "binade x < 53" using power_int_le_imp_less_exp[of "2 :: rat" "binade x" 53] by simp
  then have "binade x - 52 = - int (nat (52 - binade x))" by simp
  then have "(2 :: rat) powi (binade x - 52) = 1 / 2 ^ nat (52 - binade x)"
    by (metis power_int_minus power_int_of_nat inverse_eq_divide)
  then show ?thesis by (rule that)
qed

text \<open>Rounding does not cross an integer, as long as integers are representable.\<close>

lemma fl_le:
  assumes "0 \<le> x" and "x \<le> of_int n" and "n < 2 ^ 53"
  shows "fl x \<le> of_int n"
proof (cases "x = 0")
  case False
  then have x: "0 < x" using assms(1) by simp
  have "of_int n < (of_int (2 ^ 53) :: rat)" using assms(3) unfolding of_int_less_iff .
  then have "x < 2 ^ 53" using assms(2) by simp
  then obtain k :: nat where u: "(2 :: rat) powi (binade x - 52) = 1 / 2 ^ k" using ulp_of_int[OF x] by blast
  have "x * 2 ^ k \<le> of_int (n * 2 ^ k)" using assms(2) by (simp add: mult_right_mono)
  then have "round_even (x * 2 ^ k) \<le> n * 2 ^ k" by (rule round_even_le)
  then have "(of_int (round_even (x * 2 ^ k)) :: rat) \<le> of_int (n * 2 ^ k)" unfolding of_int_le_iff .
  then show ?thesis using x by (simp add: fl_def u field_simps)
qed (use assms in simp)

lemma fl_ge:
  assumes "of_int n \<le> x" and "x < 2 ^ 53" and "0 \<le> x"
  shows "of_int n \<le> fl x"
proof (cases "x = 0")
  case False
  then have x: "0 < x" using assms(3) by simp
  then obtain k :: nat where u: "(2 :: rat) powi (binade x - 52) = 1 / 2 ^ k" using ulp_of_int[OF x assms(2)] by blast
  have "of_int (n * 2 ^ k) \<le> x * 2 ^ k" using assms(1) by (simp add: mult_right_mono)
  then have "n * 2 ^ k \<le> round_even (x * 2 ^ k)" by (rule round_even_ge)
  then have "(of_int (n * 2 ^ k) :: rat) \<le> of_int (round_even (x * 2 ^ k))" unfolding of_int_le_iff .
  then show ?thesis using x by (simp add: fl_def u field_simps)
qed (use assms in simp)

lemma fl_int: "0 \<le> n \<Longrightarrow> n < 2 ^ 53 \<Longrightarrow> fl (of_int n) = of_int n"
proof (rule antisym)
  assume n: "0 \<le> n" "n < 2 ^ 53"
  then show "fl (of_int n) \<le> of_int n" by (intro fl_le) simp_all
  have "of_int n < (of_int (2 ^ 53) :: rat)" using n(2) unfolding of_int_less_iff .
  then show "of_int n \<le> fl (of_int n)" using n(1) by (intro fl_ge) simp_all
qed

lemma fl_nat [simp]: "n < 2 ^ 53 \<Longrightarrow> fl (of_nat n) = of_nat n"
  using fl_int[of "int n"] by simp

lemma fl_pos:
  assumes "0 < x"
  shows "0 < fl x"
proof -
  let ?u = "2 powi (binade x - 52) :: rat"
  have u: "0 < ?u" by simp
  have "(2 :: rat) powi (binade x - 52 + 52) = ?u * 2 powi 52" by (rule power_int_add) simp
  then have eq: "(2 :: rat) powi binade x = ?u * 2 ^ 52" by simp
  have "?u * 2 ^ 52 \<le> x" using binade_bounds(1)[OF assms] unfolding eq .
  then have "of_int (2 ^ 52) \<le> x / ?u" using u by (simp add: field_simps)
  then have "2 ^ 52 \<le> round_even (x / ?u)" by (rule round_even_ge)
  then have "(0 :: int) < round_even (x / ?u)" by simp
  then show ?thesis using assms u by (simp add: fl_def Let_def)
qed

text \<open>The relative error of one operation.\<close>

lemma fl_error:
  assumes "0 < x"
  shows "\<bar>fl x - x\<bar> \<le> x / 2 ^ 53"
proof -
  let ?u = "2 powi (binade x - 52) :: rat"
  have u: "0 < ?u" by simp
  have "(2 :: rat) powi (binade x - 52 + 52) = ?u * 2 powi 52" by (rule power_int_add) simp
  then have eq: "(2 :: rat) powi binade x = ?u * 2 ^ 52" by simp
  have le: "?u * 2 ^ 52 \<le> x" using binade_bounds(1)[OF assms] unfolding eq .
  have "fl x - x = (of_int (round_even (x / ?u)) - x / ?u) * ?u"
    using assms u by (simp add: fl_def Let_def left_diff_distrib)
  then have "\<bar>fl x - x\<bar> = \<bar>of_int (round_even (x / ?u)) - x / ?u\<bar> * ?u" using u by (simp add: abs_mult)
  also have "\<dots> \<le> 1 / 2 * ?u" using round_even_near[of "x / ?u"] u by (intro mult_right_mono) simp_all
  also have "\<dots> \<le> x / 2 ^ 53" using le by simp
  finally show ?thesis .
qed

end
