(* ===== verification/Visual_Pruning.thy ===== *)
theory Visual_Pruning imports Sequence_State Py_Floats "HOL-Library.Product_Lexorder" begin

text \<open>
  \<open>prism_infer/engine/visual_pruning.py\<close>: which visual tokens of a prompt are kept.  The scan that
  finds the image and video spans, the retention target, the uniform and the score-based
  selection, the decision and its audit record, the runtime attention scorer, and the readers of
  the record that the compaction of the KV cache and the decode kernels rely on.

  Floats are the rationals they denote and every float operation rounds (\<open>fl\<close>); a score may
  also be infinite or NaN.  The tensor arithmetic of the scorer is a parameter.
\<close>

section \<open>Configuration and records\<close>

record visual_config =
  vc_keep_ratio :: rat
  vc_min_keep_tokens :: nat
  vc_video_min_keep_tokens :: "nat option"
  vc_strategy :: string
  vc_attention_last_n_layers :: nat

definition visual_config_new :: "rat \<Rightarrow> int \<Rightarrow> int option \<Rightarrow> string \<Rightarrow> int \<Rightarrow> py_error + visual_config" where
  "visual_config_new keep_ratio min_keep video_min strategy last_n =
     need ValueError (0 < keep_ratio \<and> keep_ratio \<le> 1)
    (need ValueError (1 \<le> min_keep)
    (need ValueError (case video_min of None \<Rightarrow> True | Some v \<Rightarrow> 1 \<le> v)
    (need ValueError (strategy \<in> set [''uniform'', ''score'', ''attention''])
    (need ValueError (1 \<le> last_n)
    (Inr \<lparr>vc_keep_ratio = keep_ratio, vc_min_keep_tokens = nat min_keep,
          vc_video_min_keep_tokens = map_option nat video_min, vc_strategy = strategy,
          vc_attention_last_n_layers = nat last_n\<rparr>)))))"

datatype modality = Image_Modality | Video_Modality

fun modality_name :: "modality \<Rightarrow> string" where
  "modality_name Image_Modality = ''image''"
| "modality_name Video_Modality = ''video''"

record visual_span =
  vs_modality :: modality
  vs_start :: nat
  vs_end :: nat
  vs_index :: nat

definition vs_token_count :: "visual_span \<Rightarrow> nat" where
  "vs_token_count sp = vs_end sp - vs_start sp"

definition vs_to_record :: "visual_span \<Rightarrow> py_record" where
  "vs_to_record sp = [(''modality'', PStr (modality_name (vs_modality sp))),
     (''start'', PInt (int (vs_start sp))), (''end'', PInt (int (vs_end sp))),
     (''index'', PInt (int (vs_index sp))), (''token_count'', PInt (int (vs_token_count sp)))]"

record pruning_decision =
  pd_seq_id :: nat
  pd_prompt_token_count :: nat
  pd_total_visual_tokens :: nat
  pd_kept_visual_tokens :: nat
  pd_dropped_visual_tokens :: nat
  pd_keep_ratio_target :: rat
  pd_keep_ratio_actual :: rat
  pd_effective_min_keep_tokens :: nat
  pd_strategy :: string
  pd_spans :: "visual_span list"
  pd_kept :: "nat list"
  pd_dropped :: "nat list"
  pd_physical_compaction :: bool

definition pd_to_record :: "pruning_decision \<Rightarrow> py_record" where
  "pd_to_record d = [(''seq_id'', PInt (int (pd_seq_id d))),
     (''prompt_token_count'', PInt (int (pd_prompt_token_count d))),
     (''total_visual_tokens'', PInt (int (pd_total_visual_tokens d))),
     (''kept_visual_tokens'', PInt (int (pd_kept_visual_tokens d))),
     (''dropped_visual_tokens'', PInt (int (pd_dropped_visual_tokens d))),
     (''keep_ratio_target'', PFloat (pd_keep_ratio_target d)),
     (''keep_ratio_actual'', PFloat (pd_keep_ratio_actual d)),
     (''effective_min_keep_tokens'', PInt (int (pd_effective_min_keep_tokens d))),
     (''strategy'', PStr (pd_strategy d)),
     (''physical_compaction'', PBool (pd_physical_compaction d)),
     (''visual_token_spans'', PList (map (\<lambda>sp. PDict (vs_to_record sp)) (pd_spans d))),
     (''kept_visual_tokens_by_span'', PList (map (\<lambda>sp. PDict
        [(''modality'', PStr (modality_name (vs_modality sp))),
         (''span_index'', PInt (int (vs_index sp))),
         (''kept_tokens'', PInt (int (length
            (filter (\<lambda>i. i \<in> set (pd_kept d)) [vs_start sp..<vs_end sp]))))]) (pd_spans d))),
     (''kept_token_indices'', PInts (pd_kept d)),
     (''dropped_token_indices'', PInts (pd_dropped d))]"

section \<open>Scanning the prompt\<close>

definition visual_modality :: "int option \<Rightarrow> int option \<Rightarrow> int \<Rightarrow> modality option" where
  "visual_modality image_id video_id t =
    (if image_id = Some t then Some Image_Modality
     else if video_id = Some t then Some Video_Modality else None)"

text \<open>The locals of the scan: the spans so far, the span counter per modality, the open span.\<close>

record scan =
  sc_spans :: "visual_span list"
  sc_images :: nat
  sc_videos :: nat
  sc_active :: "modality option"
  sc_start :: nat

definition append_visual_span :: "modality \<Rightarrow> nat \<Rightarrow> nat \<Rightarrow> scan \<Rightarrow> scan" where
  "append_visual_span md a b st = (case md of
      Image_Modality \<Rightarrow> st\<lparr>sc_images := sc_images st + 1,
        sc_spans := sc_spans st @ [\<lparr>vs_modality = md, vs_start = a, vs_end = b, vs_index = sc_images st\<rparr>]\<rparr>
    | Video_Modality \<Rightarrow> st\<lparr>sc_videos := sc_videos st + 1,
        sc_spans := sc_spans st @ [\<lparr>vs_modality = md, vs_start = a, vs_end = b, vs_index = sc_videos st\<rparr>]\<rparr>)"

definition close_span :: "nat \<Rightarrow> scan \<Rightarrow> scan" where
  "close_span idx st = (case sc_active st of None \<Rightarrow> st
     | Some md \<Rightarrow> append_visual_span md (sc_start st) idx st)"

definition scan_step :: "modality option \<Rightarrow> nat \<Rightarrow> scan \<Rightarrow> scan" where
  "scan_step current idx st =
    (if current = sc_active st then st
     else (close_span idx st)\<lparr>sc_active := current, sc_start := idx\<rparr>)"

fun scan_from :: "(int \<Rightarrow> modality option) \<Rightarrow> nat \<Rightarrow> int list \<Rightarrow> scan \<Rightarrow> scan" where
  "scan_from md idx [] st = close_span idx st"
| "scan_from md idx (t # ts) st = scan_from md (idx + 1) ts (scan_step (md t) idx st)"

definition scan_visual_token_spans :: "int list \<Rightarrow> int option \<Rightarrow> int option \<Rightarrow> visual_span list" where
  "scan_visual_token_spans toks image_id video_id =
     sc_spans (scan_from (visual_modality image_id video_id) 0 toks
       \<lparr>sc_spans = [], sc_images = 0, sc_videos = 0, sc_active = None, sc_start = 0\<rparr>)"

text \<open>The token counts are naturals, so that the check that they are not negative is vacuous.\<close>

definition visual_token_metadata :: "sequence \<Rightarrow> py_error + (int list \<times> int option \<times> int option \<times> nat \<times> nat)" where
  "visual_token_metadata s =
     need ValueError (\<not> (sq_image_token_count s \<noteq> 0 \<and> sq_image_token_id s = None))
    (need ValueError (\<not> (sq_video_token_count s \<noteq> 0 \<and> sq_video_token_id s = None))
    (need ValueError (\<not> (sq_image_token_id s \<noteq> None \<and> sq_image_token_id s = sq_video_token_id s))
    (Inr (sq_token_ids s, sq_image_token_id s, sq_video_token_id s,
          sq_image_token_count s, sq_video_token_count s))))"

definition modality_tokens :: "modality \<Rightarrow> visual_span list \<Rightarrow> nat" where
  "modality_tokens md spans = sum_list (map vs_token_count (filter (\<lambda>sp. vs_modality sp = md) spans))"

definition validate_visual_span_counts :: "visual_span list \<Rightarrow> nat \<Rightarrow> nat \<Rightarrow> py_error + unit" where
  "validate_visual_span_counts spans image_count video_count =
     need ValueError (modality_tokens Image_Modality spans = image_count)
    (need ValueError (modality_tokens Video_Modality spans = video_count) (Inr ()))"

definition find_visual_token_spans :: "sequence \<Rightarrow> py_error + visual_span list" where
  "find_visual_token_spans s =
     bind_res (visual_token_metadata s) (\<lambda>(toks, image_id, video_id, image_count, video_count).
     let spans = scan_visual_token_spans toks image_id video_id in
     bind_res (validate_visual_span_counts spans image_count video_count) (\<lambda>_. Inr spans))"

definition visual_token_indices :: "visual_span list \<Rightarrow> nat list" where
  "visual_token_indices spans = concat (map (\<lambda>sp. [vs_start sp..<vs_end sp]) spans)"

section \<open>Selection\<close>

definition effective_min_keep_tokens :: "visual_span list \<Rightarrow> visual_config \<Rightarrow> nat" where
  "effective_min_keep_tokens spans c =
    (if spans \<noteq> [] \<and> list_all (\<lambda>sp. vs_modality sp = Video_Modality) spans
     then (case vc_video_min_keep_tokens c of
        None \<Rightarrow> sum_list (map vs_token_count spans) | Some v \<Rightarrow> v)
     else vc_min_keep_tokens c)"

definition target_keep_count :: "nat \<Rightarrow> nat \<Rightarrow> visual_config \<Rightarrow> nat" where
  "target_keep_count n min_keep c =
    (if n = 0 then 0
     else if n \<le> min_keep then n
     else min n (max min_keep (nat \<lceil>fl (fl (of_nat n) * vc_keep_ratio c)\<rceil>)))"

text \<open>The ordinals of \<open>_uniform_keep_indices\<close>: evenly spaced ones first, then the smallest unused ones.\<close>

definition uniform_ordinal :: "nat \<Rightarrow> nat \<Rightarrow> nat \<Rightarrow> nat" where
  "uniform_ordinal n target k =
     nat (round_even (fl (of_nat (k * (n - 1)) / of_nat (target - 1))))"

fun add_new :: "nat list \<Rightarrow> nat list \<Rightarrow> nat list" where
  "add_new sel [] = sel"
| "add_new sel (n # ns) = add_new (if n \<in> set sel then sel else sel @ [n]) ns"

fun fill_up :: "nat \<Rightarrow> nat list \<Rightarrow> nat list \<Rightarrow> nat list" where
  "fill_up target sel [] = sel"
| "fill_up target sel (k # ns) =
    (if k \<in> set sel then fill_up target sel ns
     else if length sel + 1 = target then sel @ [k]
     else fill_up target (sel @ [k]) ns)"

definition uniform_ordinals :: "nat \<Rightarrow> nat \<Rightarrow> nat list" where
  "uniform_ordinals n target =
    (let sel = add_new [] (map (uniform_ordinal n target) [0..<target])
     in if length sel < target then fill_up target sel [0..<n] else sel)"

text \<open>Indexing past the end of the tuple raises \<open>IndexError\<close>.\<close>

fun nths :: "nat list \<Rightarrow> nat list \<Rightarrow> py_error + nat list" where
  "nths xs [] = Inr []"
| "nths xs (i # is) = need IndexError (i < length xs) (bind_res (nths xs is) (\<lambda>ys. Inr (xs ! i # ys)))"

definition uniform_keep_indices :: "nat list \<Rightarrow> nat \<Rightarrow> py_error + nat list" where
  "uniform_keep_indices idxs target =
    (let n = length idxs in
     if n \<le> target then Inr idxs
     else if target = 1 then Inr [idxs ! (n div 2)]
     else nths idxs (sort (uniform_ordinals n target)))"

datatype score = Finite rat | NonFinite

fun scored_indices :: "(nat, score) dict \<Rightarrow> nat list \<Rightarrow> py_error + (rat \<times> nat) list" where
  "scored_indices scores [] = Inr []"
| "scored_indices scores (i # is) = (case dict_get scores i of
      None \<Rightarrow> Inl ValueError
    | Some NonFinite \<Rightarrow> Inl ValueError
    | Some (Finite x) \<Rightarrow> bind_res (scored_indices scores is) (\<lambda>rest. Inr ((x, i) # rest)))"

definition score_keep_indices :: "nat list \<Rightarrow> nat \<Rightarrow> (nat, score) dict option \<Rightarrow> py_error + nat list" where
  "score_keep_indices idxs target token_scores = (case token_scores of
      None \<Rightarrow> Inl ValueError
    | Some scores \<Rightarrow> bind_res (scored_indices scores idxs) (\<lambda>scored.
        let selected = take target (sort_key (\<lambda>(x, i). (- x, i)) scored)
        in Inr (sort (map snd selected))))"

definition keep_indices :: "visual_config \<Rightarrow> nat list \<Rightarrow> nat \<Rightarrow> (nat, score) dict option \<Rightarrow> py_error + nat list" where
  "keep_indices c idxs target token_scores =
    (if vc_strategy c = ''uniform'' then uniform_keep_indices idxs target
     else if vc_strategy c = ''score'' then score_keep_indices idxs target token_scores
     else if vc_strategy c = ''attention'' then score_keep_indices idxs target token_scores
     else Inl ValueError)"

definition compute_pruning_decision ::
    "sequence \<Rightarrow> visual_config \<Rightarrow> (nat, score) dict option \<Rightarrow> py_error + pruning_decision option" where
  "compute_pruning_decision s c token_scores =
     bind_res (find_visual_token_spans s) (\<lambda>spans.
     let idxs = visual_token_indices spans; n = length idxs in
     if n = 0 then Inr None
     else let min_keep = effective_min_keep_tokens spans c;
              target = target_keep_count n min_keep c in
       bind_res (keep_indices c idxs target token_scores) (\<lambda>kept.
       let dropped = filter (\<lambda>i. i \<notin> set kept) idxs in
       Inr (Some \<lparr>pd_seq_id = sq_seq_id s, pd_prompt_token_count = sq_num_prompt_tokens s,
         pd_total_visual_tokens = n, pd_kept_visual_tokens = length kept,
         pd_dropped_visual_tokens = length dropped, pd_keep_ratio_target = vc_keep_ratio c,
         pd_keep_ratio_actual = fl (of_nat (length kept) / of_nat n),
         pd_effective_min_keep_tokens = min_keep, pd_strategy = vc_strategy c, pd_spans = spans,
         pd_kept = kept, pd_dropped = dropped, pd_physical_compaction = False\<rparr>)))"

section \<open>Readers of the record\<close>

text \<open>Iterating over a record value yields the elements of a list, the characters of a string, the
  keys of a dictionary.\<close>

fun py_iter :: "pyval \<Rightarrow> py_error + pyval list" where
  "py_iter (PList xs) = Inr xs"
| "py_iter (PStr s) = Inr (map (\<lambda>c. PStr [c]) s)"
| "py_iter (PDict d) = Inr (map (\<lambda>(k, v). PStr k) d)"
| "py_iter _ = Inl TypeError"

definition iter_field :: "py_record \<Rightarrow> string \<Rightarrow> py_error + pyval list" where
  "iter_field r k = (case dict_get r k of None \<Rightarrow> Inr [] | Some v \<Rightarrow> py_iter v)"

definition validate_pruning_prompt_length :: "py_record \<Rightarrow> int \<Rightarrow> py_error + int" where
  "validate_pruning_prompt_length r context_len =
     bind_res (case dict_get r ''prompt_token_count'' of None \<Rightarrow> Inr (- 1) | Some v \<Rightarrow> to_int v) (\<lambda>n.
     need ValueError (0 \<le> n) (need ValueError (n \<le> context_len) (Inr n)))"

fun visual_indices :: "int \<Rightarrow> pyval list \<Rightarrow> py_error + int list" where
  "visual_indices n [] = Inr []"
| "visual_indices n (v # vs) = (case v of
      PDict sp \<Rightarrow>
        bind_res (bind_res (rec_field sp ''start'') to_int) (\<lambda>a.
        bind_res (bind_res (rec_field sp ''end'') to_int) (\<lambda>b.
        need ValueError (\<not> (a < 0 \<or> b < a \<or> n < b))
       (bind_res (visual_indices n vs) (\<lambda>rest. Inr ([a..b - 1] @ rest)))))
    | _ \<Rightarrow> Inl ValueError)"

definition visual_indices_from_record :: "py_record \<Rightarrow> int \<Rightarrow> py_error + int list" where
  "visual_indices_from_record r n = bind_res (iter_field r ''visual_token_spans'') (visual_indices n)"

definition pruning_partition_from_record :: "py_record \<Rightarrow> py_error + (int list \<times> int list)" where
  "pruning_partition_from_record r =
     bind_res (bind_res (iter_field r ''kept_token_indices'') ints_of) (\<lambda>kept.
     bind_res (bind_res (iter_field r ''dropped_token_indices'') ints_of) (\<lambda>dropped.
     Inr (kept, dropped)))"

definition validate_pruning_partition :: "int list \<Rightarrow> int list \<Rightarrow> int list \<Rightarrow> py_error + unit" where
  "validate_pruning_partition kept dropped visual =
     need ValueError (set kept \<inter> set dropped = {})
    (need ValueError (set kept \<union> set dropped = set visual) (Inr ()))"

definition build_retained_context_indices :: "py_record option \<Rightarrow> int \<Rightarrow> py_error + nat list" where
  "build_retained_context_indices decision_record context_len =
     need ValueError (0 \<le> context_len)
    (case decision_record of
       None \<Rightarrow> Inr [0..<nat context_len]
     | Some r \<Rightarrow>
         need NotImplementedError (\<not> get_flag r ''physical_compaction'')
        (bind_res (validate_pruning_prompt_length r context_len) (\<lambda>n.
         bind_res (visual_indices_from_record r n) (\<lambda>visual.
         bind_res (pruning_partition_from_record r) (\<lambda>(kept, dropped).
         bind_res (validate_pruning_partition kept dropped visual) (\<lambda>_.
         Inr (filter (\<lambda>i. int i \<notin> set dropped) [0..<nat context_len])))))))"

fun retained_slots :: "int list \<Rightarrow> nat \<Rightarrow> nat list \<Rightarrow> py_error + int list" where
  "retained_slots table bs [] = Inr []"
| "retained_slots table bs (i # is) =
     need RuntimeError (\<not> table ! (i div bs) < 0)
    (bind_res (retained_slots table bs is) (\<lambda>slots.
     Inr ((table ! (i div bs) * int bs + int (i mod bs)) # slots)))"

definition build_retained_slot_mapping :: "py_record option \<Rightarrow> int \<Rightarrow> int list \<Rightarrow> int \<Rightarrow> py_error + int list" where
  "build_retained_slot_mapping decision_record context_len table block_size =
     need ValueError (0 < block_size)
    (bind_res (build_retained_context_indices decision_record context_len) (\<lambda>retained.
     need RuntimeError (retained \<noteq> [])
    (need RuntimeError (ceil_div (nat context_len) (nat block_size) \<le> length table)
    (retained_slots table (nat block_size) retained))))"

text \<open>The slot mask: a mapping tensor is the list of its entries, so that the check of its rank is
  left out; the input is copied first, so that an exception leaves it alone.\<close>

fun mask_tokens :: "int \<Rightarrow> nat list \<Rightarrow> int list \<Rightarrow> py_error + int list" where
  "mask_tokens seq_start [] slots = Inr slots"
| "mask_tokens seq_start (i # is) slots = (let flat = seq_start + int i in
     need ValueError (\<not> (flat < 0 \<or> int (length slots) \<le> flat))
       (mask_tokens seq_start is (slots[nat flat := - 1])))"

fun mask_decisions :: "(pruning_decision option \<times> int) list \<Rightarrow> int list \<Rightarrow> py_error + int list" where
  "mask_decisions [] slots = Inr slots"
| "mask_decisions ((d, seq_start) # ds) slots = (case d of
      None \<Rightarrow> mask_decisions ds slots
    | Some d \<Rightarrow> bind_res (mask_tokens seq_start (pd_dropped d) slots) (mask_decisions ds))"

definition apply_pruning_to_slot_mapping ::
    "int list \<Rightarrow> pruning_decision option list \<Rightarrow> int list \<Rightarrow> py_error + int list" where
  "apply_pruning_to_slot_mapping slots decisions seq_starts =
     need ValueError (length decisions = length seq_starts)
       (mask_decisions (zip decisions seq_starts) slots)"

end
