(* ===== verification/Visual_Decision.thy ===== *)
theory Visual_Decision imports Visual_Pruning "HOL-Library.Multiset" begin

text \<open>
  What the pruning decision guarantees: the spans are exactly the maximal runs of one modality, the
  kept and the dropped tokens partition the visual ones, the selection has the target size, and
  the audit record is accepted by its reader.
\<close>

section \<open>The scan\<close>

definition span_before :: "visual_span \<Rightarrow> visual_span \<Rightarrow> bool" where
  "span_before a b \<longleftrightarrow> vs_end a \<le> vs_start b \<and> (vs_end a = vs_start b \<longrightarrow> vs_modality a \<noteq> vs_modality b)"

definition spans_in :: "visual_span list \<Rightarrow> modality \<Rightarrow> nat \<Rightarrow> bool" where
  "spans_in spans md p \<longleftrightarrow> (\<exists>sp \<in> set spans. vs_modality sp = md \<and> vs_start sp \<le> p \<and> p < vs_end sp)"

definition numbered :: "visual_span list \<Rightarrow> bool" where
  "numbered spans \<longleftrightarrow> (\<forall>i < length spans. vs_index (spans ! i) =
     length (filter (\<lambda>sp. vs_modality sp = vs_modality (spans ! i)) (take i spans)))"

text \<open>The state of the scan before position \<open>idx\<close>.\<close>

definition scan_inv :: "(nat \<Rightarrow> modality option) \<Rightarrow> nat \<Rightarrow> scan \<Rightarrow> bool" where
  "scan_inv M idx st \<longleftrightarrow> (sc_start st < idx \<or> idx = 0 \<and> sc_start st = 0 \<and> sc_spans st = [] \<and> sc_active st = None) \<and>
     (\<forall>p. sc_start st \<le> p \<longrightarrow> p < idx \<longrightarrow> M p = sc_active st) \<and>
     (\<forall>p md. p < sc_start st \<longrightarrow> (M p = Some md \<longleftrightarrow> spans_in (sc_spans st) md p)) \<and>
     (\<forall>sp \<in> set (sc_spans st). vs_start sp < vs_end sp \<and> vs_end sp \<le> sc_start st \<and>
        (vs_end sp = sc_start st \<longrightarrow> Some (vs_modality sp) \<noteq> sc_active st)) \<and>
     sorted_wrt span_before (sc_spans st) \<and> numbered (sc_spans st) \<and>
     sc_images st = length (filter (\<lambda>sp. vs_modality sp = Image_Modality) (sc_spans st)) \<and>
     sc_videos st = length (filter (\<lambda>sp. vs_modality sp = Video_Modality) (sc_spans st))"

definition spans_exact :: "(nat \<Rightarrow> modality option) \<Rightarrow> nat \<Rightarrow> visual_span list \<Rightarrow> bool" where
  "spans_exact M n spans \<longleftrightarrow> (\<forall>p md. spans_in spans md p \<longleftrightarrow> p < n \<and> M p = Some md) \<and>
     (\<forall>sp \<in> set spans. vs_start sp < vs_end sp) \<and> sorted_wrt span_before spans \<and> numbered spans"

lemma spans_in_snoc: "spans_in (spans @ [sp]) md p \<longleftrightarrow>
    spans_in spans md p \<or> (vs_modality sp = md \<and> vs_start sp \<le> p \<and> p < vs_end sp)"
  by (auto simp: spans_in_def)

lemma numbered_snoc:
  "numbered (spans @ [sp]) \<longleftrightarrow> numbered spans \<and>
     vs_index sp = length (filter (\<lambda>x. vs_modality x = vs_modality sp) spans)"
  unfolding numbered_def by (auto simp: nth_append less_Suc_eq)

lemma close_fields: "sc_active (close_span i st) = sc_active st \<and> sc_start (close_span i st) = sc_start st"
  by (auto simp: close_span_def append_visual_span_def split: option.splits modality.splits)

text \<open>Closing the open span accounts for every position before \<open>idx\<close>.\<close>

definition closed :: "(nat \<Rightarrow> modality option) \<Rightarrow> nat \<Rightarrow> modality option \<Rightarrow> scan \<Rightarrow> bool" where
  "closed M idx old st \<longleftrightarrow> (\<forall>p md. p < idx \<longrightarrow> (M p = Some md \<longleftrightarrow> spans_in (sc_spans st) md p)) \<and>
     (\<forall>sp \<in> set (sc_spans st). vs_start sp < vs_end sp \<and> vs_end sp \<le> idx \<and>
        (vs_end sp = idx \<longrightarrow> Some (vs_modality sp) = old)) \<and>
     sorted_wrt span_before (sc_spans st) \<and> numbered (sc_spans st) \<and>
     sc_images st = length (filter (\<lambda>sp. vs_modality sp = Image_Modality) (sc_spans st)) \<and>
     sc_videos st = length (filter (\<lambda>sp. vs_modality sp = Video_Modality) (sc_spans st))"

lemma closed_append:
  assumes inv: "scan_inv M idx st" and act: "sc_active st = Some md"
    and sp: "sc_spans t = sc_spans st @ [sp]" "vs_modality sp = md" "vs_start sp = sc_start st" "vs_end sp = idx"
      "vs_index sp = length (filter (\<lambda>x. vs_modality x = md) (sc_spans st))"
    and cnt: "sc_images t = length (filter (\<lambda>sp. vs_modality sp = Image_Modality) (sc_spans t))"
      "sc_videos t = length (filter (\<lambda>sp. vs_modality sp = Video_Modality) (sc_spans t))"
  shows "closed M idx (Some md) t"
proof -
  have start: "sc_start st < idx" using inv act by (auto simp: scan_inv_def)
  have M: "M p = Some md' \<longleftrightarrow> spans_in (sc_spans t) md' p" if "p < idx" for p md'
  proof (cases "p < sc_start st")
    case True
    then show ?thesis using inv sp by (auto simp: scan_inv_def spans_in_snoc)
  next
    case False
    then have "\<not> spans_in (sc_spans st) md' p" using inv by (fastforce simp: scan_inv_def spans_in_def)
    moreover have "M p = Some md" using False that inv act by (simp add: scan_inv_def)
    ultimately show ?thesis using False that sp by (auto simp: spans_in_snoc)
  qed
  have "sorted_wrt span_before (sc_spans t)" using inv act sp by (auto simp: scan_inv_def sorted_wrt_append span_before_def)
  moreover have "\<forall>x \<in> set (sc_spans t). vs_start x < vs_end x \<and> vs_end x \<le> idx \<and>
      (vs_end x = idx \<longrightarrow> Some (vs_modality x) = Some md)"
    using inv start sp by (fastforce simp: scan_inv_def)
  moreover have "numbered (sc_spans t)" using inv sp by (simp add: scan_inv_def numbered_snoc)
  ultimately show ?thesis using M cnt unfolding closed_def by blast
qed

lemma closed_close_span:
  assumes inv: "scan_inv M idx st"
  shows "closed M idx (sc_active st) (close_span idx st)"
proof (cases "sc_active st")
  case None
  have "M p = Some md \<longleftrightarrow> spans_in (sc_spans st) md p" if "p < idx" for p md
  proof (cases "p < sc_start st")
    case True
    then show ?thesis using inv by (simp add: scan_inv_def)
  next
    case False
    then have "\<not> spans_in (sc_spans st) md p" using inv by (fastforce simp: scan_inv_def spans_in_def)
    then show ?thesis using False that inv None by (auto simp: scan_inv_def)
  qed
  moreover have "vs_end sp < idx" if "sp \<in> set (sc_spans st)" for sp using inv that by (fastforce simp: scan_inv_def)
  ultimately show ?thesis using inv None
    by (fastforce simp: closed_def close_span_def scan_inv_def)
next
  case (Some md)
  then show ?thesis using inv
    by (cases md; auto simp: close_span_def append_visual_span_def scan_inv_def
        intro!: closed_append[where st = st] dest: sym[of "Some _"])
qed

lemma scan_step_inv:
  assumes inv: "scan_inv M idx st" and cur: "M idx = cur"
  shows "scan_inv M (Suc idx) (scan_step cur idx st)"
proof (cases "cur = sc_active st")
  case True
  then show ?thesis using inv cur by (auto simp: scan_inv_def scan_step_def less_Suc_eq)
next
  case False
  have c: "closed M idx (sc_active st) (close_span idx st)" by (rule closed_close_span[OF inv])
  show ?thesis using False cur c unfolding scan_step_def closed_def scan_inv_def
    by (auto simp: less_Suc_eq)
qed

lemma scan_from_exact:
  assumes "scan_inv M idx st" and "\<And>i. i < length ts \<Longrightarrow> M (idx + i) = md (ts ! i)"
    and "\<And>p. idx + length ts \<le> p \<Longrightarrow> M p = None"
  shows "spans_exact M (idx + length ts) (sc_spans (scan_from md idx ts st))"
  using assms
proof (induction md idx ts st rule: scan_from.induct)
  case (1 md idx st)
  have c: "closed M idx (sc_active st) (close_span idx st)" by (rule closed_close_span[OF 1(1)])
  have "\<not> spans_in (sc_spans (close_span idx st)) m p" if "idx \<le> p" for m p
    using c that by (fastforce simp: closed_def spans_in_def)
  then show ?case using c unfolding closed_def spans_exact_def by (auto simp: not_less) (metis not_less)+
next
  case (2 md idx t ts st)
  have "M idx = md t" using 2(3)[of 0] by simp
  then have "scan_inv M (idx + 1) (scan_step (md t) idx st)" using scan_step_inv[OF 2(2)] by simp
  then show ?case using 2(1)[of] 2(3)[of "Suc i" for i] 2(4) by simp
qed

lemma scan_exact:
  "spans_exact (\<lambda>p. if p < length toks then visual_modality im vi (toks ! p) else None) (length toks)
     (scan_visual_token_spans toks im vi)"
  unfolding scan_visual_token_spans_def
  by (rule scan_from_exact[where idx = 0, simplified])
    (simp_all add: scan_inv_def numbered_def)

section \<open>Visual positions\<close>

lemma indices_sorted:
  "sorted_wrt span_before spans \<Longrightarrow> \<forall>sp \<in> set spans. vs_start sp < vs_end sp \<Longrightarrow>
   sorted_wrt (<) (visual_token_indices spans)"
proof (induction spans)
  case (Cons sp spans)
  have "a < b" if "a \<in> set [vs_start sp..<vs_end sp]" "b \<in> set (visual_token_indices spans)" for a b
    using that Cons.prems(1) by (fastforce simp: visual_token_indices_def span_before_def)
  then show ?case using Cons by (auto simp: visual_token_indices_def sorted_wrt_append strict_sorted_iff)
qed (simp add: visual_token_indices_def)

lemma indices_set: "p \<in> set (visual_token_indices spans) \<longleftrightarrow> (\<exists>md. spans_in spans md p)"
  by (auto simp: visual_token_indices_def spans_in_def)

definition is_visual :: "sequence \<Rightarrow> nat \<Rightarrow> bool" where
  "is_visual s p \<longleftrightarrow> p < length (sq_token_ids s) \<and>
     (Some (sq_token_ids s ! p) = sq_image_token_id s \<or> Some (sq_token_ids s ! p) = sq_video_token_id s)"

lemma find_spans_exact:
  assumes "find_visual_token_spans s = Inr spans"
  shows "spans = scan_visual_token_spans (sq_token_ids s) (sq_image_token_id s) (sq_video_token_id s)"
    and "modality_tokens Image_Modality spans = sq_image_token_count s"
    and "modality_tokens Video_Modality spans = sq_video_token_count s"
    and "spans_exact (\<lambda>p. if p < length (sq_token_ids s)
        then visual_modality (sq_image_token_id s) (sq_video_token_id s) (sq_token_ids s ! p) else None)
      (length (sq_token_ids s)) spans"
    and "sorted_wrt (<) (visual_token_indices spans)"
    and "p \<in> set (visual_token_indices spans) \<longleftrightarrow> is_visual s p"
proof -
  show sp: "spans = scan_visual_token_spans (sq_token_ids s) (sq_image_token_id s) (sq_video_token_id s)"
    and "modality_tokens Image_Modality spans = sq_image_token_count s"
    and "modality_tokens Video_Modality spans = sq_video_token_count s"
    using assms by (auto simp: find_visual_token_spans_def visual_token_metadata_def validate_visual_span_counts_def
        res_simps Let_def split: if_splits)
  show ex: "spans_exact (\<lambda>p. if p < length (sq_token_ids s)
        then visual_modality (sq_image_token_id s) (sq_video_token_id s) (sq_token_ids s ! p) else None)
      (length (sq_token_ids s)) spans" unfolding sp by (rule scan_exact)
  then show "sorted_wrt (<) (visual_token_indices spans)" by (intro indices_sorted) (auto simp: spans_exact_def)
  show "p \<in> set (visual_token_indices spans) \<longleftrightarrow> is_visual s p"
    using ex unfolding indices_set by (auto simp: spans_exact_def is_visual_def visual_modality_def split: if_splits)
qed

section \<open>The uniform selection\<close>

lemma add_new_facts:
  "distinct sel \<Longrightarrow> distinct (add_new sel ns) \<and> set (add_new sel ns) = set sel \<union> set ns \<and>
     length (add_new sel ns) \<le> length sel + length ns"
  by (induction sel ns rule: add_new.induct) auto

lemma fill_up_facts:
  "distinct sel \<Longrightarrow> length sel < t \<Longrightarrow> t \<le> card (set sel \<union> set ns) \<Longrightarrow>
   distinct (fill_up t sel ns) \<and> length (fill_up t sel ns) = t \<and> set (fill_up t sel ns) \<subseteq> set sel \<union> set ns \<and>
   set sel \<subseteq> set (fill_up t sel ns)"
proof (induction t sel ns rule: fill_up.induct)
  case (1 t sel)
  then show ?case by (simp add: distinct_card)
next
  case (2 t sel n ns)
  show ?case
  proof (cases "n \<in> set sel")
    case True
    then have "insert n (set sel \<union> set ns) = set sel \<union> set ns" by auto
    then show ?thesis using 2 True by auto
  next
    case False
    then show ?thesis using 2 by (cases "length sel + 1 = t") auto
  qed
qed

lemma uniform_ordinal_bound:
  assumes "k < t" and "2 \<le> t" and "t \<le> n" and "n < 2 ^ 53"
  shows "uniform_ordinal n t k \<le> n - 1"
proof -
  have "k * (n - 1) \<le> (t - 1) * (n - 1)" using assms(1) by (intro mult_right_mono) simp_all
  then have "(of_nat (k * (n - 1)) :: rat) \<le> of_nat ((t - 1) * (n - 1))" by (rule of_nat_mono)
  then have "(of_nat (k * (n - 1)) / of_nat (t - 1) :: rat) \<le> of_int (int (n - 1))"
    using assms(2) by (simp add: field_simps)
  moreover have "int (n - 1) < 2 ^ 53" using assms(4) by simp
  ultimately have "fl (of_nat (k * (n - 1)) / of_nat (t - 1)) \<le> of_int (int (n - 1))"
    by (intro fl_le) simp_all
  then have "round_even (fl (of_nat (k * (n - 1)) / of_nat (t - 1))) \<le> int (n - 1)" by (rule round_even_le)
  then show ?thesis unfolding uniform_ordinal_def by linarith
qed

text \<open>The first and the last ordinal are always chosen.\<close>

lemma uniform_ordinal_ends:
  assumes "2 \<le> t" and "n < 2 ^ 53"
  shows "uniform_ordinal n t 0 = 0" and "uniform_ordinal n t (t - 1) = n - 1"
proof -
  show "uniform_ordinal n t 0 = 0" using round_even_int[of 0] by (simp add: uniform_ordinal_def)
  have "(of_nat ((t - 1) * (n - 1)) / of_nat (t - 1) :: rat) = of_nat (n - 1)" using assms(1) by simp
  then have "fl (of_nat ((t - 1) * (n - 1)) / of_nat (t - 1)) = of_int (int (n - 1))"
    using fl_nat[of "n - 1"] assms(2) by (simp del: fl_nat)
  then show "uniform_ordinal n t (t - 1) = n - 1" unfolding uniform_ordinal_def by (simp only: round_even_int nat_int)
qed

lemma uniform_ordinals_facts:
  assumes "2 \<le> t" and "t \<le> n" and "n < 2 ^ 53"
  shows "distinct (uniform_ordinals n t)" and "length (uniform_ordinals n t) = t"
    and "set (uniform_ordinals n t) \<subseteq> {..<n}" and "{0, n - 1} \<subseteq> set (uniform_ordinals n t)"
proof -
  define sel where "sel = add_new [] (map (uniform_ordinal n t) [0..<t])"
  have A: "distinct sel" "set sel = uniform_ordinal n t ` {..<t}" "length sel \<le> t"
    using add_new_facts[of "[]" "map (uniform_ordinal n t) [0..<t]"] by (auto simp: sel_def)
  have sub: "set sel \<subseteq> {..<n}"
    using uniform_ordinal_bound[OF _ assms] assms(1,2) unfolding A(2) by fastforce
  have ends: "{0, n - 1} \<subseteq> set sel"
    unfolding A(2) using uniform_ordinal_ends[OF assms(1,3)] assms(1)
    by (metis (no_types, lifting) empty_subsetI diff_less image_eqI insert_subset lessThan_iff less_le_trans pos2 zero_less_one)
  have "set sel \<union> {..<n} = {..<n}" using sub by auto
  then have F: "distinct (fill_up t sel [0..<n]) \<and> length (fill_up t sel [0..<n]) = t \<and>
      set (fill_up t sel [0..<n]) \<subseteq> {..<n} \<and> set sel \<subseteq> set (fill_up t sel [0..<n])" if "length sel < t"
    using fill_up_facts[OF A(1) that, of "[0..<n]"] assms(2) by (simp add: lessThan_atLeast0)
  have eq: "uniform_ordinals n t = (if length sel < t then fill_up t sel [0..<n] else sel)"
    by (simp add: uniform_ordinals_def sel_def Let_def)
  show "distinct (uniform_ordinals n t)" "length (uniform_ordinals n t) = t" "set (uniform_ordinals n t) \<subseteq> {..<n}"
    "{0, n - 1} \<subseteq> set (uniform_ordinals n t)"
    using A F sub ends unfolding eq by (auto split: if_splits)
qed

lemma nths_ok: "\<forall>i \<in> set is. i < length xs \<Longrightarrow> nths xs is = Inr (map ((!) xs) is)"
  by (induction "is") simp_all

lemma sorted_map_nth:
  assumes "sorted_wrt (<) (xs :: nat list)" and "sorted_wrt (<) is" and "\<forall>i \<in> set is. i < length xs"
  shows "sorted_wrt (<) (map ((!) xs) is)"
  using assms(2,3) sorted_wrt_nth_less[OF assms(1)] by (induction "is") auto

text \<open>What every selection delivers.\<close>

definition selection :: "nat list \<Rightarrow> nat \<Rightarrow> nat list \<Rightarrow> bool" where
  "selection idxs t kept \<longleftrightarrow> sorted_wrt (<) kept \<and> set kept \<subseteq> set idxs \<and> length kept = t"

lemma uniform_selection:
  assumes srt: "sorted_wrt (<) idxs" and t: "1 \<le> t" "t \<le> length idxs" and small: "length idxs < 2 ^ 53"
  obtains kept where "uniform_keep_indices idxs t = Inr kept" and "selection idxs t kept"
    and "2 \<le> t \<Longrightarrow> {hd idxs, last idxs} \<subseteq> set kept"
proof (cases "t = length idxs \<or> t = 1")
  case True
  have ne: "idxs \<noteq> []" using t by auto
  have "idxs ! (length idxs div 2) \<in> set idxs" using ne by simp
  then show ?thesis using that srt t True ne
    by (cases "t = length idxs") (auto simp: uniform_keep_indices_def selection_def)
next
  case False
  then have t2: "2 \<le> t" "t < length idxs" using t by auto
  let ?is = "sort (uniform_ordinals (length idxs) t)"
  note U = uniform_ordinals_facts[OF t2(1) t(2) small]
  have lt: "\<forall>i \<in> set ?is. i < length idxs" using U(3) by auto
  have ss: "sorted_wrt (<) ?is" using U(1) by (simp add: strict_sorted_iff)
  have ends: "hd idxs = idxs ! 0" "last idxs = idxs ! (length idxs - 1)"
    using t2 by (auto simp: hd_conv_nth last_conv_nth length_0_conv[symmetric] simp del: length_0_conv)
  show ?thesis
  proof (rule that)
    show "uniform_keep_indices idxs t = Inr (map ((!) idxs) ?is)"
      using t2 by (simp add: uniform_keep_indices_def Let_def nths_ok[OF lt])
    show "selection idxs t (map ((!) idxs) ?is)"
      using sorted_map_nth[OF srt ss lt] U(2) lt by (auto simp: selection_def)
    show "{hd idxs, last idxs} \<subseteq> set (map ((!) idxs) ?is)" using U(4) unfolding ends by auto
  qed
qed

section \<open>The score-based selection\<close>

lemma scored_indices_ok:
  "scored_indices scores idxs = Inr scored \<Longrightarrow> map snd scored = idxs \<and>
     (\<forall>(x, i) \<in> set scored. dict_get scores i = Some (Finite x))"
  by (induction idxs arbitrary: scored) (fastforce simp: res_simps split: option.splits score.splits)+

lemma scored_indices_total:
  "\<forall>i \<in> set idxs. \<exists>x. dict_get scores i = Some (Finite x) \<Longrightarrow> \<exists>scored. scored_indices scores idxs = Inr scored"
  by (induction scores idxs rule: scored_indices.induct) (auto simp: bind_res_def split: option.splits score.splits sum.splits)

lemma scored_indices_err:
  "scored_indices scores idxs = Inl e \<Longrightarrow> e = ValueError \<and> (\<exists>i \<in> set idxs. \<forall>x. dict_get scores i \<noteq> Some (Finite x))"
  by (induction scores idxs rule: scored_indices.induct) (auto simp: bind_res_def split: option.splits score.splits sum.splits)

text \<open>Token \<open>i\<close> is preferred to token \<open>j\<close>: a higher score, or the same score and an earlier position.\<close>

definition preferred :: "(nat, score) dict \<Rightarrow> nat \<Rightarrow> nat \<Rightarrow> bool" where
  "preferred scores i j \<longleftrightarrow> (\<exists>x y. dict_get scores i = Some (Finite x) \<and> dict_get scores j = Some (Finite y) \<and>
     (y < x \<or> x = y \<and> i < j))"

lemma score_selection:
  assumes sc: "scored_indices scores idxs = Inr scored" and srt: "sorted_wrt (<) idxs" and t: "t \<le> length idxs"
  obtains kept where "score_keep_indices idxs t (Some scores) = Inr kept" and "selection idxs t kept"
    and "\<And>i j. i \<in> set kept \<Longrightarrow> j \<in> set idxs \<Longrightarrow> j \<notin> set kept \<Longrightarrow> preferred scores i j"
proof -
  let ?f = "\<lambda>(x :: rat, i :: nat). (- x, i)"
  define xs where "xs = sort_key ?f scored"
  have S: "map snd scored = idxs" "\<And>x i. (x, i) \<in> set scored \<Longrightarrow> dict_get scores i = Some (Finite x)"
    using scored_indices_ok[OF sc] by auto
  have ms: "mset xs = mset scored" and so: "sorted (map ?f xs)" by (simp_all add: xs_def)
  have st: "set xs = set scored" using ms by (metis set_mset_mset)
  have len: "length xs = length idxs" using ms S(1) by (metis length_map size_mset)
  have "mset (map snd xs) = mset idxs" using ms S(1) by (metis mset_map)
  then have d: "distinct (map snd xs)" using srt by (metis mset_eq_imp_distinct_iff strict_sorted_iff)
  let ?kept = "sort (map snd (take t xs))"
  have dk: "distinct (map snd (take t xs))" using d by (metis distinct_take take_map)
  have sub: "set ?kept \<subseteq> set idxs"
    using st S(1) by (auto dest!: in_set_takeD) (metis image_eqI list.set_map snd_conv)
  have pref: "preferred scores i j" if i: "i \<in> set ?kept" and j: "j \<in> set idxs" "j \<notin> set ?kept" for i j
  proof -
    obtain x where x: "(x, i) \<in> set (take t xs)" using i by auto
    obtain y where y: "(y, j) \<in> set scored" using j(1) unfolding S(1)[symmetric] by auto
    have "(y, j) \<in> set (take t xs) \<union> set (drop t xs)" using y st by (metis append_take_drop_id set_append)
    then have yd: "(y, j) \<in> set (drop t xs)" using j(2) by (auto simp: image_iff)
    have "sorted (map ?f (take t xs @ drop t xs))" using so by simp
    then have "?f (x, i) \<le> ?f (y, j)" using x yd unfolding map_append sorted_append by fastforce
    moreover have "i \<noteq> j" using i j(2) by auto
    moreover have "dict_get scores i = Some (Finite x)" "dict_get scores j = Some (Finite y)"
      using S(2) x y st in_set_takeD by fastforce+
    ultimately show ?thesis by (auto simp: preferred_def less_eq_prod_def)
  qed
  show ?thesis
  proof (rule that)
    show "score_keep_indices idxs t (Some scores) = Inr ?kept"
      by (simp add: score_keep_indices_def sc xs_def Let_def)
    show "selection idxs t ?kept"
      using dk sub t len by (simp add: selection_def strict_sorted_iff)
  qed (rule pref)
qed

section \<open>The retention target\<close>

definition config_ok :: "visual_config \<Rightarrow> bool" where
  "config_ok c \<longleftrightarrow> 0 < vc_keep_ratio c \<and> vc_keep_ratio c \<le> 1 \<and> 1 \<le> vc_min_keep_tokens c \<and>
     (\<forall>v. vc_video_min_keep_tokens c = Some v \<longrightarrow> 1 \<le> v) \<and>
     vc_strategy c \<in> {''uniform'', ''score'', ''attention''} \<and> 1 \<le> vc_attention_last_n_layers c"

lemma visual_config_new_ok: "visual_config_new r k v st n = Inr c \<Longrightarrow> config_ok c"
  by (auto simp: visual_config_new_def config_ok_def res_simps split: option.splits)

lemma target_bounds:
  assumes "0 < n" and "config_ok c" and "n < 2 ^ 53" and "1 \<le> k"
  shows "1 \<le> target_keep_count n k c" and "target_keep_count n k c \<le> n" and "min n k \<le> target_keep_count n k c"
    and "fl (of_nat n * vc_keep_ratio c) \<le> of_nat (target_keep_count n k c)"
proof -
  define x where "x = fl (of_nat n * vc_keep_ratio c)"
  have r: "0 < vc_keep_ratio c" "vc_keep_ratio c \<le> 1" using assms(2) by (simp_all add: config_ok_def)
  have le: "of_nat n * vc_keep_ratio c \<le> (of_int (int n) :: rat)"
    using mult_left_mono[OF r(2), of "of_nat n"] by simp
  have xn: "x \<le> of_nat n" using fl_le[OF _ le] r assms(3) by (simp add: x_def)
  have x0: "0 < x" using r assms(1) by (simp add: x_def fl_pos)
  have xc: "x \<le> of_nat (nat \<lceil>x\<rceil>)" using x0 by (simp add: le_of_int_ceiling)
  have eq: "target_keep_count n k c = (if n \<le> k then n else min n (max k (nat \<lceil>x\<rceil>)))"
    using assms by (simp add: target_keep_count_def x_def)
  show "1 \<le> target_keep_count n k c" "target_keep_count n k c \<le> n" "min n k \<le> target_keep_count n k c"
    using assms by (auto simp: eq)
  show "fl (of_nat n * vc_keep_ratio c) \<le> of_nat (target_keep_count n k c)"
    using xn xc unfolding eq x_def[symmetric] by (auto simp: min_def max_def le_trans)
qed

lemma min_keep_pos:
  assumes "config_ok c" and "spans_exact M n spans" and "spans \<noteq> []"
  shows "1 \<le> effective_min_keep_tokens spans c"
proof -
  obtain sp ss where sp: "spans = sp # ss" using assms(3) by (cases spans) auto
  have "1 \<le> vs_token_count sp" using assms(2) sp by (auto simp: spans_exact_def vs_token_count_def)
  then show ?thesis using assms(1) sp by (auto simp: effective_min_keep_tokens_def config_ok_def split: option.splits)
qed

section \<open>The decision\<close>

lemma decision_shape:
  assumes "compute_pruning_decision s c scores = Inr (Some d)"
  obtains spans kept where "find_visual_token_spans s = Inr spans" and "visual_token_indices spans \<noteq> []"
    and "keep_indices c (visual_token_indices spans)
      (target_keep_count (length (visual_token_indices spans)) (effective_min_keep_tokens spans c) c) scores = Inr kept"
    and "pd_kept d = kept" and "pd_dropped d = filter (\<lambda>i. i \<notin> set kept) (visual_token_indices spans)"
    and "pd_spans d = spans" and "pd_prompt_token_count d = sq_num_prompt_tokens s"
    and "pd_total_visual_tokens d = length (visual_token_indices spans)"
    and "pd_kept_visual_tokens d = length (pd_kept d)" and "pd_dropped_visual_tokens d = length (pd_dropped d)"
    and "\<not> pd_physical_compaction d" and "pd_effective_min_keep_tokens d = effective_min_keep_tokens spans c"
  using assms by (auto simp: compute_pruning_decision_def res_simps Let_def split: if_splits)

text \<open>Every strategy selects the target number of visual tokens.\<close>

lemma keep_indices_selection:
  assumes k: "keep_indices c idxs t scores = Inr kept" and srt: "sorted_wrt (<) idxs"
    and t: "1 \<le> t" "t \<le> length idxs" and small: "length idxs < 2 ^ 53"
  shows "selection idxs t kept"
proof (cases "vc_strategy c = ''uniform''")
  case True
  then show ?thesis using uniform_selection[OF srt t small] k by (auto simp: keep_indices_def)
next
  case False
  then have "score_keep_indices idxs t scores = Inr kept"
    using k by (simp add: keep_indices_def split: if_splits)
  then obtain sc scored where S: "scores = Some sc" "scored_indices sc idxs = Inr scored"
    "score_keep_indices idxs t (Some sc) = Inr kept"
    by (auto simp: score_keep_indices_def res_simps split: option.splits)
  show ?thesis using score_selection[OF S(2) srt t(2)] S(3) by auto
qed

lemma decision_selection:
  assumes d: "compute_pruning_decision s c scores = Inr (Some d)" and ok: "config_ok c"
    and small: "length (sq_token_ids s) < 2 ^ 53"
  obtains spans where "find_visual_token_spans s = Inr spans" and "pd_spans d = spans"
    and "sorted_wrt (<) (visual_token_indices spans)" and "1 \<le> length (visual_token_indices spans)"
    and "length (visual_token_indices spans) < 2 ^ 53"
    and "1 \<le> effective_min_keep_tokens spans c"
    and "selection (visual_token_indices spans)
      (target_keep_count (length (visual_token_indices spans)) (effective_min_keep_tokens spans c) c) (pd_kept d)"
    and "pd_dropped d = filter (\<lambda>i. i \<notin> set (pd_kept d)) (visual_token_indices spans)"
proof (rule decision_shape[OF d])
  fix spans kept
  assume sp: "find_visual_token_spans s = Inr spans" and ne: "visual_token_indices spans \<noteq> []"
    and k: "keep_indices c (visual_token_indices spans)
      (target_keep_count (length (visual_token_indices spans)) (effective_min_keep_tokens spans c) c) scores = Inr kept"
    and eqs: "pd_kept d = kept" "pd_dropped d = filter (\<lambda>i. i \<notin> set kept) (visual_token_indices spans)" "pd_spans d = spans"
  let ?ix = "visual_token_indices spans"
  note F = find_spans_exact[OF sp]
  have "length ?ix = card (set ?ix)" using F(5) by (simp add: strict_sorted_iff distinct_card)
  also have "\<dots> \<le> card {..<length (sq_token_ids s)}" using F(6) by (intro card_mono) (auto simp: is_visual_def)
  finally have small': "length ?ix < 2 ^ 53" using small by simp
  have one: "1 \<le> length ?ix" using ne by (cases ?ix) auto
  have "spans \<noteq> []" using ne by (auto simp: visual_token_indices_def)
  then have mk: "1 \<le> effective_min_keep_tokens spans c" by (rule min_keep_pos[OF ok F(4)])
  have pos: "0 < length ?ix" using one by linarith
  note B = target_bounds[OF pos ok small' mk]
  show thesis
    by (rule that[OF sp eqs(3) F(5) one small' mk])
      (use keep_indices_selection[OF k F(5) B(1,2) small'] eqs in simp_all)
qed

definition example_config :: visual_config where
  "example_config = \<lparr>vc_keep_ratio = 1 / 2, vc_min_keep_tokens = 1, vc_video_min_keep_tokens = None,
     vc_strategy = ''uniform'', vc_attention_last_n_layers = 1\<rparr>"

lemma example_config_ok: "config_ok example_config"
  by (simp add: config_ok_def example_config_def)

lemma example_visual_fields:
  "sq_video_token_id example_seq = None" "sq_video_token_count example_seq = 0" "sq_seq_id example_seq = 3"
  "sq_num_tokens example_seq = 6"
  by (simp_all add: example_seq_def sequence_new_def example_args_def lifecycle_new_def)

lemma example_scan:
  "scan_visual_token_spans [5, 9, 6, 9, 7, 8] (Some 9) None = [\<lparr>vs_modality = Image_Modality, vs_start = 1, vs_end = 2, vs_index = 0\<rparr>,
     \<lparr>vs_modality = Image_Modality, vs_start = 3, vs_end = 4, vs_index = 1\<rparr>]"
  by code_simp

lemma example_visual_spans:
  "find_visual_token_spans example_seq = Inr [\<lparr>vs_modality = Image_Modality, vs_start = 1, vs_end = 2, vs_index = 0\<rparr>,
     \<lparr>vs_modality = Image_Modality, vs_start = 3, vs_end = 4, vs_index = 1\<rparr>]"
  by (simp add: find_visual_token_spans_def visual_token_metadata_def example_seq_fields example_visual_fields
      example_scan validate_visual_span_counts_def modality_tokens_def vs_token_count_def Let_def)

definition example_decision :: pruning_decision where
  "example_decision = \<lparr>pd_seq_id = 3, pd_prompt_token_count = 6, pd_total_visual_tokens = 2,
     pd_kept_visual_tokens = 1, pd_dropped_visual_tokens = 1, pd_keep_ratio_target = 1 / 2,
     pd_keep_ratio_actual = fl (1 / 2), pd_effective_min_keep_tokens = 1, pd_strategy = ''uniform'',
     pd_spans = [\<lparr>vs_modality = Image_Modality, vs_start = 1, vs_end = 2, vs_index = 0\<rparr>,
       \<lparr>vs_modality = Image_Modality, vs_start = 3, vs_end = 4, vs_index = 1\<rparr>],
     pd_kept = [3], pd_dropped = [1], pd_physical_compaction = False\<rparr>"

lemma example_decision_computed:
  "compute_pruning_decision example_seq example_config None = Inr (Some example_decision)"
proof -
  have cfg: "vc_keep_ratio example_config = 1 / 2" "vc_min_keep_tokens example_config = 1"
    "vc_strategy example_config = ''uniform''"
    by (simp_all add: example_config_def)
  have "target_keep_count 2 1 example_config = 1"
    using fl_nat[of 2] fl_nat[of 1] by (simp add: target_keep_count_def cfg del: fl_nat)
  moreover have "keep_indices example_config [1, 3] 1 None = Inr [3]"
    by (simp add: keep_indices_def cfg uniform_keep_indices_def)
  moreover have "[Suc 0..<2] = [1]" "[3..<4] = [3 :: nat]" by (simp_all add: upt_rec)
  ultimately show ?thesis
    by (simp add: compute_pruning_decision_def example_visual_spans visual_token_indices_def
        effective_min_keep_tokens_def cfg example_decision_def example_visual_fields example_seq_fields Let_def numeral_2_eq_2)
qed

section \<open>Properties\<close>

text \<open>The spans found in a sequence cover exactly the positions of the image and of the video
  token, each under its own modality; they are non-empty, in order, disjoint and maximal (adjacent
  spans differ in modality), numbered from zero within each modality, and their sizes add up to the
  token counts that the processor reported.\<close>

theorem visual_spans_exact:
  assumes "find_visual_token_spans s = Inr spans"
  shows "(\<forall>p. (\<exists>sp \<in> set spans. vs_modality sp = Image_Modality \<and> vs_start sp \<le> p \<and> p < vs_end sp) \<longleftrightarrow>
       p < length (sq_token_ids s) \<and> Some (sq_token_ids s ! p) = sq_image_token_id s) \<and>
    (\<forall>p. (\<exists>sp \<in> set spans. vs_modality sp = Video_Modality \<and> vs_start sp \<le> p \<and> p < vs_end sp) \<longleftrightarrow>
       p < length (sq_token_ids s) \<and> Some (sq_token_ids s ! p) = sq_video_token_id s) \<and>
    (\<forall>sp \<in> set spans. vs_start sp < vs_end sp) \<and>
    sorted_wrt (\<lambda>a b. vs_end a \<le> vs_start b \<and> (vs_end a = vs_start b \<longrightarrow> vs_modality a \<noteq> vs_modality b)) spans \<and>
    (\<forall>i < length spans. vs_index (spans ! i) =
       length (filter (\<lambda>sp. vs_modality sp = vs_modality (spans ! i)) (take i spans))) \<and>
    modality_tokens Image_Modality spans = sq_image_token_count s \<and>
    modality_tokens Video_Modality spans = sq_video_token_count s"
proof -
  note F = find_spans_exact[OF assms]
  have ids: "sq_image_token_id s = None \<or> sq_image_token_id s \<noteq> sq_video_token_id s"
    using assms by (auto simp: find_visual_token_spans_def visual_token_metadata_def res_simps)
  have E: "spans_in spans md p \<longleftrightarrow> p < length (sq_token_ids s) \<and>
      visual_modality (sq_image_token_id s) (sq_video_token_id s) (sq_token_ids s ! p) = Some md" for md p
    using F(4) by (auto simp: spans_exact_def)
  have "span_before = (\<lambda>a b. vs_end a \<le> vs_start b \<and> (vs_end a = vs_start b \<longrightarrow> vs_modality a \<noteq> vs_modality b))"
    by (auto simp: span_before_def fun_eq_iff)
  then show ?thesis
    using F(2,3,4) E[of Image_Modality] E[of Video_Modality] ids unfolding spans_in_def spans_exact_def numbered_def
    by (auto simp: visual_modality_def split: if_splits)
qed

theorem visual_spans_exact_witness:
  "modality_tokens Image_Modality [\<lparr>vs_modality = Image_Modality, vs_start = 1, vs_end = 2, vs_index = 0\<rparr>,
     \<lparr>vs_modality = Image_Modality, vs_start = 3, vs_end = 4, vs_index = 1\<rparr>] = 2"
proof -
  have "sq_image_token_count example_seq = 2" by (rule example_seq_fields)
  then show ?thesis using visual_spans_exact[OF example_visual_spans] by simp
qed

text \<open>C36: a pruning decision under a validated configuration partitions the visual positions of the
  sequence into kept and dropped ones, both in increasing order; it keeps as many as the target
  says, which is at least one, at least the configured floor (or all tokens when there are fewer) and
  at least the rounded product of the token count and the keep ratio.\<close>

theorem pruning_decision_partition:
  assumes "visual_config_new ratio min_keep video_min strategy last_n = Inr c"
    and "compute_pruning_decision s c scores = Inr (Some d)" and "length (sq_token_ids s) < 2 ^ 53"
  shows "set (pd_kept d) \<union> set (pd_dropped d) = {p. is_visual s p} \<and> set (pd_kept d) \<inter> set (pd_dropped d) = {} \<and>
    sorted_wrt (<) (pd_kept d) \<and> sorted_wrt (<) (pd_dropped d) \<and>
    pd_kept_visual_tokens d = length (pd_kept d) \<and> pd_dropped_visual_tokens d = length (pd_dropped d) \<and>
    pd_total_visual_tokens d = length (pd_kept d) + length (pd_dropped d) \<and>
    1 \<le> length (pd_kept d) \<and>
    min (pd_total_visual_tokens d) (pd_effective_min_keep_tokens d) \<le> length (pd_kept d) \<and>
    fl (of_nat (pd_total_visual_tokens d) * ratio) \<le> of_nat (length (pd_kept d))"
proof -
  have ok: "config_ok c" and r: "vc_keep_ratio c = ratio"
    using visual_config_new_ok[OF assms(1)] assms(1) by (auto simp: visual_config_new_def res_simps)
  obtain spans where sp: "find_visual_token_spans s = Inr spans" "pd_spans d = spans"
    and srt: "sorted_wrt (<) (visual_token_indices spans)" and n: "1 \<le> length (visual_token_indices spans)"
      "length (visual_token_indices spans) < 2 ^ 53" and mk: "1 \<le> effective_min_keep_tokens spans c"
    and sel: "selection (visual_token_indices spans)
      (target_keep_count (length (visual_token_indices spans)) (effective_min_keep_tokens spans c) c) (pd_kept d)"
    and dr: "pd_dropped d = filter (\<lambda>i. i \<notin> set (pd_kept d)) (visual_token_indices spans)"
    by (rule decision_selection[OF assms(2) ok assms(3)])
  let ?ix = "visual_token_indices spans"
  have shape: "pd_total_visual_tokens d = length ?ix" "pd_effective_min_keep_tokens d = effective_min_keep_tokens spans c"
    "pd_kept_visual_tokens d = length (pd_kept d)" "pd_dropped_visual_tokens d = length (pd_dropped d)"
    by (rule decision_shape[OF assms(2)]; use sp in auto)+
  have pos: "0 < length ?ix" using n by linarith
  note B = target_bounds[OF pos ok n(2) mk]
  have dis: "distinct ?ix" "distinct (pd_kept d)" using srt sel by (simp_all add: strict_sorted_iff selection_def)
  have sub: "set (pd_kept d) \<subseteq> set ?ix" using sel by (simp add: selection_def)
  have "length (pd_dropped d) = card (set ?ix - set (pd_kept d))"
    using distinct_card[OF distinct_filter[OF dis(1), of "\<lambda>i. i \<notin> set (pd_kept d)"]] unfolding dr
    by (simp add: set_diff_eq)
  also have "\<dots> = length ?ix - length (pd_kept d)"
    using card_Diff_subset[OF _ sub] dis by (simp add: distinct_card)
  finally have len: "length ?ix = length (pd_kept d) + length (pd_dropped d)"
    using card_mono[OF _ sub] dis by (simp add: distinct_card)
  have vis: "set ?ix = {p. is_visual s p}" using find_spans_exact(6)[OF sp(1)] by auto
  have len_kept: "length (pd_kept d) = target_keep_count (length ?ix) (effective_min_keep_tokens spans c) c"
    and srt_kept: "sorted_wrt (<) (pd_kept d)" using sel by (simp_all add: selection_def)
  have srt_dr: "sorted_wrt (<) (pd_dropped d)" unfolding dr by (rule sorted_wrt_filter[OF srt])
  have "set (pd_kept d) \<union> set (pd_dropped d) = set ?ix" "set (pd_kept d) \<inter> set (pd_dropped d) = {}"
    using sub by (auto simp: dr)
  note parts = this[unfolded vis]
  note bounds = B(1,3,4)[folded len_kept, folded shape(1,2), unfolded r]
  show ?thesis
    by (intro conjI parts srt_kept srt_dr shape(3,4) bounds) (simp add: shape(1) len)
qed

theorem pruning_decision_partition_witness:
  "set (pd_kept example_decision) \<union> set (pd_dropped example_decision) = {p. is_visual example_seq p}"
proof -
  have "visual_config_new (1 / 2) 1 None ''uniform'' 1 = Inr example_config"
    by (simp add: visual_config_new_def example_config_def)
  then show ?thesis
    using pruning_decision_partition[OF _ example_decision_computed] by (simp add: example_seq_fields)
qed

lemma score_keep_total:
  assumes "config_ok c" and "vc_strategy c \<noteq> ''uniform''" and "find_visual_token_spans s = Inr spans"
    and "length (sq_token_ids s) < 2 ^ 53" and "\<exists>p. is_visual s p"
  shows "if \<forall>p. is_visual s p \<longrightarrow> (\<exists>x. dict_get scores p = Some (Finite x))
    then \<exists>d. compute_pruning_decision s c (Some scores) = Inr (Some d) \<and>
           (\<forall>i \<in> set (pd_kept d). \<forall>j \<in> set (pd_dropped d). preferred scores i j)
    else compute_pruning_decision s c (Some scores) = Inl ValueError"
proof -
  let ?ix = "visual_token_indices spans" and ?k = "effective_min_keep_tokens spans c"
  let ?t = "target_keep_count (length ?ix) ?k c"
  note F = find_spans_exact[OF assms(3)]
  have strat: "keep_indices c ?ix ?t (Some scores) = score_keep_indices ?ix ?t (Some scores)"
    using assms(1,2) by (auto simp: keep_indices_def config_ok_def)
  obtain p where p: "is_visual s p" using assms(5) by blast
  have ne: "?ix \<noteq> []" using F(6)[of p] p by auto
  have "spans \<noteq> []" using ne by (auto simp: visual_token_indices_def)
  then have mk: "1 \<le> ?k" by (rule min_keep_pos[OF assms(1) F(4)])
  have "length ?ix = card (set ?ix)" using F(5) by (simp add: strict_sorted_iff distinct_card)
  also have "\<dots> \<le> card {..<length (sq_token_ids s)}" using F(6) by (intro card_mono) (auto simp: is_visual_def)
  finally have small: "length ?ix < 2 ^ 53" using assms(4) by simp
  have t: "?t \<le> length ?ix" using target_bounds(2)[OF _ assms(1) small mk] ne by simp
  show ?thesis
  proof (cases "\<forall>p. is_visual s p \<longrightarrow> (\<exists>x. dict_get scores p = Some (Finite x))")
    case True
    then obtain scored where sc: "scored_indices scores ?ix = Inr scored"
      using scored_indices_total[of ?ix scores] F(6) by blast
    obtain kept where K: "score_keep_indices ?ix ?t (Some scores) = Inr kept"
      "\<And>i j. i \<in> set kept \<Longrightarrow> j \<in> set ?ix \<Longrightarrow> j \<notin> set kept \<Longrightarrow> preferred scores i j"
      by (rule score_selection[OF sc F(5) t]) blast
    have "\<exists>d. compute_pruning_decision s c (Some scores) = Inr (Some d) \<and>
        (\<forall>i \<in> set (pd_kept d). \<forall>j \<in> set (pd_dropped d). preferred scores i j)"
      using ne K strat by (auto simp: compute_pruning_decision_def assms(3) Let_def)
    then show ?thesis using True by simp
  next
    case False
    then obtain q where q: "q \<in> set ?ix" "\<forall>x. dict_get scores q \<noteq> Some (Finite x)" using F(6) by blast
    have "scored_indices scores ?ix \<noteq> Inr scored" for scored
    proof
      assume "scored_indices scores ?ix = Inr scored"
      then have S: "map snd scored = ?ix" "\<forall>(x, i) \<in> set scored. dict_get scores i = Some (Finite x)"
        using scored_indices_ok by blast+
      then obtain x where "(x, q) \<in> set scored" using q(1) unfolding S(1)[symmetric] by auto
      then show False using S(2) q(2) by blast
    qed
    then obtain e where e: "scored_indices scores ?ix = Inl e" by (cases "scored_indices scores ?ix") auto
    then have "e = ValueError" using scored_indices_err by blast
    then have "compute_pruning_decision s c (Some scores) = Inl ValueError"
      using e ne strat by (simp add: compute_pruning_decision_def assms(3) Let_def score_keep_indices_def)
    then show ?thesis unfolding if_not_P[OF False] .
  qed
qed

text \<open>C37: under a validated configuration the score-based strategies succeed exactly when every visual
  token has a finite score (otherwise \<open>ValueError\<close>), and a kept token is preferred to every dropped
  one: its score is higher, or equal at an earlier position.\<close>

theorem score_pruning_keeps_best:
  assumes "config_ok c" and "vc_strategy c \<noteq> ''uniform''" and "find_visual_token_spans s = Inr spans"
    and "length (sq_token_ids s) < 2 ^ 53" and "\<exists>p. is_visual s p"
  shows "if \<forall>p. is_visual s p \<longrightarrow> (\<exists>x. dict_get scores p = Some (Finite x))
    then \<exists>d. compute_pruning_decision s c (Some scores) = Inr (Some d) \<and>
           (\<forall>i \<in> set (pd_kept d). \<forall>j \<in> set (pd_dropped d). preferred scores i j)
    else compute_pruning_decision s c (Some scores) = Inl ValueError"
  by (rule score_keep_total[OF assms])

theorem score_pruning_keeps_best_witness:
  "compute_pruning_decision example_seq (example_config\<lparr>vc_strategy := ''score''\<rparr>) (Some [(1, Finite 2)]) = Inl ValueError"
proof -
  have v: "is_visual example_seq 3" by (simp add: is_visual_def example_seq_fields)
  have no: "\<not> (\<forall>p. is_visual example_seq p \<longrightarrow> (\<exists>x. dict_get [(1, Finite 2)] p = Some (Finite x)))"
    using v by (auto simp: dict_get_def intro!: exI[of _ 3])
  have "config_ok (example_config\<lparr>vc_strategy := ''score''\<rparr>)" by (simp add: config_ok_def example_config_def)
  from score_pruning_keeps_best[OF this _ example_visual_spans, of "[(1, Finite 2)]"] show ?thesis
    unfolding if_not_P[OF no] using v by (auto simp: example_seq_fields)
qed

section \<open>The record and its reader\<close>

lemma dict_get_Cons: "dict_get ((k, v) # d) k' = (if k = k' then Some v else dict_get d k')"
  by (simp add: dict_get_def)

lemma pd_to_record_fields:
  "dict_get (pd_to_record d) ''prompt_token_count'' = Some (PInt (int (pd_prompt_token_count d)))"
  "dict_get (pd_to_record d) ''visual_token_spans'' = Some (PList (map (\<lambda>sp. PDict (vs_to_record sp)) (pd_spans d)))"
  "dict_get (pd_to_record d) ''kept_token_indices'' = Some (PInts (pd_kept d))"
  "dict_get (pd_to_record d) ''dropped_token_indices'' = Some (PInts (pd_dropped d))"
  "get_flag (pd_to_record d) ''physical_compaction'' = pd_physical_compaction d"
  by (simp_all add: pd_to_record_def dict_get_Cons get_flag_def)

lemma visual_indices_of_spans:
  "\<forall>sp \<in> set spans. vs_start sp \<le> vs_end sp \<and> int (vs_end sp) \<le> n \<Longrightarrow>
   \<exists>vis. visual_indices n (map (\<lambda>sp. PDict (vs_to_record sp)) spans) = Inr vis \<and>
     set vis = int ` set (visual_token_indices spans)"
proof (induction spans)
  case Nil
  then show ?case by (simp add: visual_token_indices_def)
next
  case (Cons sp spans)
  then obtain vis where vis: "visual_indices n (map (\<lambda>sp. PDict (vs_to_record sp)) spans) = Inr vis"
    "set vis = int ` set (visual_token_indices spans)" by auto
  have f: "rec_field (vs_to_record sp) ''start'' = Inr (PInt (int (vs_start sp)))"
    "rec_field (vs_to_record sp) ''end'' = Inr (PInt (int (vs_end sp)))"
    by (simp_all add: vs_to_record_def rec_simps)
  have "{int (vs_start sp)..int (vs_end sp) - 1} = int ` {vs_start sp..<vs_end sp}"
    by (auto simp: image_iff) (metis atLeastLessThan_iff nat_le_iff nat_int nat_less_iff int_nat_eq zle_diff1_eq
        int_eq_iff le_nat_iff order_trans of_nat_0_le_iff)
  then show ?case using Cons.prems vis f by (auto simp: visual_token_indices_def image_Un)
qed

lemma retained_of_record:
  assumes len: "int (pd_prompt_token_count d) \<le> n" and fin: "\<not> pd_physical_compaction d"
    and sp: "\<forall>sp \<in> set (pd_spans d). vs_start sp \<le> vs_end sp \<and> vs_end sp \<le> pd_prompt_token_count d"
    and part: "set (pd_kept d) \<union> set (pd_dropped d) = set (visual_token_indices (pd_spans d))"
      "set (pd_kept d) \<inter> set (pd_dropped d) = {}"
  shows "build_retained_context_indices (Some (pd_to_record d)) n =
    Inr (filter (\<lambda>i. i \<notin> set (pd_dropped d)) [0..<nat n])"
proof -
  obtain vis where vis: "visual_indices (int (pd_prompt_token_count d)) (map (\<lambda>sp. PDict (vs_to_record sp)) (pd_spans d)) = Inr vis"
    "set vis = int ` set (visual_token_indices (pd_spans d))"
    using visual_indices_of_spans[of "pd_spans d" "int (pd_prompt_token_count d)"] sp by auto
  have "int ` set (pd_kept d) \<inter> int ` set (pd_dropped d) = {}" using part(2) by auto
  moreover have "int ` set (pd_kept d) \<union> int ` set (pd_dropped d) = set vis"
    unfolding vis(2) part(1)[symmetric] by (simp add: image_Un)
  ultimately show ?thesis using len fin vis(1)
    by (simp add: build_retained_context_indices_def pd_to_record_fields validate_pruning_prompt_length_def
        visual_indices_from_record_def pruning_partition_from_record_def iter_field_def PInts_def
        validate_pruning_partition_def image_iff)
qed

lemma decision_record_retained:
  assumes d: "compute_pruning_decision s c scores = Inr (Some d)" and ok: "config_ok c"
    and small: "length (sq_token_ids s) < 2 ^ 53" and prompt: "\<forall>p. is_visual s p \<longrightarrow> p < sq_num_prompt_tokens s"
    and n: "int (sq_num_prompt_tokens s) \<le> n"
  shows "build_retained_context_indices (Some (pd_to_record d)) n =
    Inr (filter (\<lambda>i. i \<notin> set (pd_dropped d)) [0..<nat n])"
proof (rule decision_selection[OF d ok small])
  fix spans
  assume sp: "find_visual_token_spans s = Inr spans" "pd_spans d = spans"
    and sel: "selection (visual_token_indices spans)
      (target_keep_count (length (visual_token_indices spans)) (effective_min_keep_tokens spans c) c) (pd_kept d)"
    and dr: "pd_dropped d = filter (\<lambda>i. i \<notin> set (pd_kept d)) (visual_token_indices spans)"
  have F: "pd_prompt_token_count d = sq_num_prompt_tokens s" "\<not> pd_physical_compaction d"
    by (rule decision_shape[OF d]; simp)+
  show ?thesis
  proof (rule retained_of_record)
    show "\<forall>sp \<in> set (pd_spans d). vs_start sp \<le> vs_end sp \<and> vs_end sp \<le> pd_prompt_token_count d"
    proof
      fix x assume x: "x \<in> set (pd_spans d)"
      then have lt: "vs_start x < vs_end x" using find_spans_exact(4)[OF sp(1)] sp(2) by (auto simp: spans_exact_def)
      then have "vs_end x - 1 \<in> set (visual_token_indices spans)"
        using x sp(2) by (auto simp: visual_token_indices_def intro!: bexI[of _ x])
      then have "vs_end x - 1 < sq_num_prompt_tokens s" using find_spans_exact(6)[OF sp(1)] prompt by blast
      then show "vs_start x \<le> vs_end x \<and> vs_end x \<le> pd_prompt_token_count d" using lt F by simp
    qed
    show "set (pd_kept d) \<union> set (pd_dropped d) = set (visual_token_indices (pd_spans d))"
      using sel dr sp(2) by (auto simp: selection_def)
  qed (use F n dr in auto)
qed

text \<open>The audit record of a pruning decision is accepted by its reader: for every context at least as
  long as the prompt, the retained positions are exactly those that the decision did not drop, in
  order, so text and generated tokens are never dropped.\<close>

theorem pruning_record_roundtrip:
  assumes "visual_config_new ratio min_keep video_min strategy last_n = Inr c"
    and "compute_pruning_decision s c scores = Inr (Some d)" and "length (sq_token_ids s) < 2 ^ 53"
    and "\<forall>p. is_visual s p \<longrightarrow> p < sq_num_prompt_tokens s" and "int (sq_num_prompt_tokens s) \<le> n"
  shows "\<exists>kept. build_retained_context_indices (Some (pd_to_record d)) n = Inr kept \<and> sorted_wrt (<) kept \<and>
    (\<forall>p. p \<in> set kept \<longleftrightarrow> p < nat n \<and> p \<notin> set (pd_dropped d)) \<and>
    (\<forall>p < nat n. \<not> is_visual s p \<longrightarrow> p \<in> set kept)"
proof -
  have ok: "config_ok c" by (rule visual_config_new_ok[OF assms(1)])
  have R: "build_retained_context_indices (Some (pd_to_record d)) n = Inr (filter (\<lambda>i. i \<notin> set (pd_dropped d)) [0..<nat n])"
    by (rule decision_record_retained[OF assms(2) ok assms(3-5)])
  have vis: "is_visual s p" if "p \<in> set (pd_dropped d)" for p
    using decision_shape[OF assms(2)] find_spans_exact(6)[of s] that
    by (metis (no_types, lifting) filter_is_subset subsetD)
  show ?thesis using R vis by (auto intro: sorted_wrt_filter)
qed

theorem pruning_record_roundtrip_witness:
  "\<exists>kept. build_retained_context_indices (Some (pd_to_record example_decision)) 7 = Inr kept \<and>
     (\<forall>p. p \<in> set kept \<longleftrightarrow> p < 7 \<and> p \<notin> {1})"
proof -
  have "visual_config_new (1 / 2) 1 None ''uniform'' 1 = Inr example_config"
    by (simp add: visual_config_new_def example_config_def)
  from pruning_record_roundtrip[OF this example_decision_computed, of 7] show ?thesis
    by (auto simp: example_seq_fields is_visual_def example_decision_def)
qed

section \<open>Slots\<close>

lemma retained_slots_ok:
  "\<forall>i \<in> set is. i div bs < length table \<Longrightarrow>
   retained_slots table bs is = (if \<forall>i \<in> set is. 0 \<le> table ! (i div bs)
     then Inr (map (\<lambda>i. table ! (i div bs) * int bs + int (i mod bs)) is) else Inl RuntimeError)"
  by (induction table bs "is" rule: retained_slots.induct) (auto simp: bind_res_def need_def)

lemma slot_of_page:
  assumes "0 < bs" and "t * int bs + int (i mod bs) = t' * int bs + int (j mod bs)"
  shows "t = t'" and "i mod bs = j mod bs"
proof -
  have "(t * int bs + int (i mod bs)) div int bs = t" "(t' * int bs + int (j mod bs)) div int bs = t'"
    using assms(1) by (simp_all add: div_add1_eq zdiv_int[symmetric] zmod_int[symmetric])
  then show t: "t = t'" using assms(2) by simp
  then show "i mod bs = j mod bs" using assms(2) by simp
qed

text \<open>When a page table without negative entries covers the context, the retained positions are mapped to
  the slots of their pages, and with distinct pages no two positions share a slot; a table that is
  too short raises \<open>RuntimeError\<close>.\<close>

theorem retained_slots_injective:
  assumes "build_retained_context_indices rd n = Inr kept" and "kept \<noteq> []" and "0 < bs"
    and "\<forall>b \<in> set table. 0 \<le> b" and "distinct table"
  shows "if nat n \<le> length table * nat bs
    then \<exists>slots. build_retained_slot_mapping rd n table bs = Inr slots \<and> distinct slots \<and>
      slots = map (\<lambda>p. table ! (p div nat bs) * bs + int (p mod nat bs)) kept
    else build_retained_slot_mapping rd n table bs = Inl RuntimeError"
proof (cases "nat n \<le> length table * nat bs")
  case True
  have b: "0 < nat bs" using assms(3) by simp
  have "sorted_wrt (<) kept \<and> (\<forall>p \<in> set kept. p < nat n)"
    using assms(1) by (auto simp: build_retained_context_indices_def res_simps intro!: sorted_wrt_filter
        split: option.splits prod.splits if_splits)
  then have kept: "distinct kept" "\<forall>p \<in> set kept. p div nat bs < length table"
    using True b by (auto simp: strict_sorted_iff less_mult_imp_div_less dest!: bspec)
  have nn: "\<forall>p \<in> set kept. 0 \<le> table ! (p div nat bs)" using kept(2) assms(4) by auto
  let ?f = "\<lambda>p. table ! (p div nat bs) * int (nat bs) + int (p mod nat bs)"
  have "inj_on ?f (set kept)"
  proof (rule inj_onI)
    fix p q assume p: "p \<in> set kept" "q \<in> set kept" and eq: "?f p = ?f q"
    have "table ! (p div nat bs) = table ! (q div nat bs)" and m: "p mod nat bs = q mod nat bs"
      using slot_of_page[OF b eq] by simp_all
    then have "p div nat bs = q div nat bs" using p kept(2) assms(5) nth_eq_iff_index_eq by blast
    then show "p = q" using m by (metis div_mult_mod_eq)
  qed
  then have "build_retained_slot_mapping rd n table bs = Inr (map ?f kept) \<and> distinct (map ?f kept)"
    using True assms(1,2,3) kept nn ceil_div_le_iff[OF b, of "nat n" "length table"]
    by (simp add: build_retained_slot_mapping_def retained_slots_ok distinct_map)
  then show ?thesis using True assms(3) by simp
next
  case False
  then have "build_retained_slot_mapping rd n table bs = Inl RuntimeError"
    using assms(1,2,3) ceil_div_le_iff[of "nat bs" "nat n" "length table"]
    by (simp add: build_retained_slot_mapping_def)
  then show ?thesis using False by simp
qed

theorem retained_slots_injective_witness:
  "build_retained_slot_mapping None 3 [7] 2 = Inl RuntimeError"
  using retained_slots_injective[of None 3 "[0, 1, 2]" 2 "[7]"]
  by (simp add: build_retained_context_indices_def upt_rec)

text \<open>What the mask changes: the flat positions of the dropped tokens.\<close>

definition masked_at :: "(pruning_decision option \<times> int) list \<Rightarrow> int \<Rightarrow> bool" where
  "masked_at ds p \<longleftrightarrow> (\<exists>d a. (Some d, a) \<in> set ds \<and> (\<exists>i \<in> set (pd_dropped d). p = a + int i))"

lemma mask_tokens_ok:
  "mask_tokens a is slots = (if \<forall>i \<in> set is. 0 \<le> a + int i \<and> a + int i < int (length slots)
     then Inr (map (\<lambda>p. if int p \<in> (\<lambda>i. a + int i) ` set is then - 1 else slots ! p) [0..<length slots])
     else Inl ValueError)"
proof (induction a "is" slots rule: mask_tokens.induct)
  case (1 a slots)
  then show ?case by (simp add: map_nth)
next
  case (2 a i "is" slots)
  show ?case
  proof (cases "0 \<le> a + int i \<and> a + int i < int (length slots)")
    case True
    have "(if int p \<in> (\<lambda>i. a + int i) ` set is then - 1 else slots[nat (a + int i) := - 1] ! p) =
        (if int p \<in> (\<lambda>i. a + int i) ` set (i # is) then - 1 else slots ! p)" if "p < length slots" for p
      using that True by (auto simp: nth_list_update)
    then show ?thesis using 2 True by (auto simp: Let_def)
  qed (auto simp: Let_def)
qed

lemma mask_decisions_ok:
  "mask_decisions ds slots = (if \<forall>p. masked_at ds p \<longrightarrow> 0 \<le> p \<and> p < int (length slots)
     then Inr (map (\<lambda>p. if masked_at ds (int p) then - 1 else slots ! p) [0..<length slots])
     else Inl ValueError)"
proof (induction ds arbitrary: slots)
  case Nil
  then show ?case by (simp add: masked_at_def map_nth)
next
  case (Cons x ds)
  obtain d a where x: "x = (d, a)" by (cases x)
  show ?case
  proof (cases d)
    case None
    then have "masked_at (x # ds) = masked_at ds" by (auto simp: masked_at_def x fun_eq_iff)
    then show ?thesis using Cons None x by simp
  next
    case (Some dec)
    have M: "masked_at (x # ds) p \<longleftrightarrow> p \<in> (\<lambda>i. a + int i) ` set (pd_dropped dec) \<or> masked_at ds p" for p
      by (auto simp: masked_at_def x Some)
    show ?thesis
    proof (cases "\<forall>i \<in> set (pd_dropped dec). 0 \<le> a + int i \<and> a + int i < int (length slots)")
      case True
      then have "(\<forall>p. masked_at (x # ds) p \<longrightarrow> 0 \<le> p \<and> p < int (length slots)) \<longleftrightarrow>
          (\<forall>p. masked_at ds p \<longrightarrow> 0 \<le> p \<and> p < int (length slots))" by (auto simp: M)
      then show ?thesis using True by (simp add: x Some mask_tokens_ok Cons cong: if_cong) (auto simp: M[unfolded x Some])
    next
      case False
      then have "\<not> (\<forall>p. masked_at (x # ds) p \<longrightarrow> 0 \<le> p \<and> p < int (length slots))" by (auto simp: M)
      then show ?thesis unfolding x Some mask_decisions.simps option.case mask_tokens_ok if_not_P[OF False]
        by (simp only: bind_res_simps if_False)
    qed
  qed
qed

text \<open>The prefill mask replaces exactly the slots of dropped tokens by -1 and keeps all others; it is
  refused with \<open>ValueError\<close> when the starts do not match the decisions or a dropped token lies outside
  the mapping.\<close>

theorem slot_mask_exact:
  "apply_pruning_to_slot_mapping slots decisions starts =
    (if length decisions = length starts \<and>
        (\<forall>k < length decisions. \<forall>d. decisions ! k = Some d \<longrightarrow>
           (\<forall>i \<in> set (pd_dropped d). 0 \<le> starts ! k + int i \<and> starts ! k + int i < int (length slots)))
     then Inr (map (\<lambda>p. if \<exists>k < length decisions. \<exists>d. decisions ! k = Some d \<and>
                 (\<exists>i \<in> set (pd_dropped d). int p = starts ! k + int i) then - 1 else slots ! p) [0..<length slots])
     else Inl ValueError)"
proof (cases "length decisions = length starts")
  case True
  have M: "masked_at (zip decisions starts) q \<longleftrightarrow> (\<exists>k < length decisions. \<exists>d. decisions ! k = Some d \<and>
      (\<exists>i \<in> set (pd_dropped d). q = starts ! k + int i))" for q
    using True by (auto simp: masked_at_def in_set_zip)
  have "(\<forall>p. masked_at (zip decisions starts) p \<longrightarrow> 0 \<le> p \<and> p < int (length slots)) \<longleftrightarrow>
    (\<forall>k < length decisions. \<forall>d. decisions ! k = Some d \<longrightarrow>
           (\<forall>i \<in> set (pd_dropped d). 0 \<le> starts ! k + int i \<and> starts ! k + int i < int (length slots)))"
    unfolding M by blast
  then show ?thesis using True by (simp add: apply_pruning_to_slot_mapping_def mask_decisions_ok M)
qed (simp add: apply_pruning_to_slot_mapping_def)

theorem slot_mask_exact_witness:
  "apply_pruning_to_slot_mapping [5, 6, 7] [Some example_decision] [0] = Inr [5, - 1, 7]"
  using slot_mask_exact[of "[5, 6, 7]" "[Some example_decision]" "[0]"]
  by (simp add: example_decision_def upt_rec)

end
