(* ===== verification/Attention_Scorer.thy ===== *)
theory Attention_Scorer imports Visual_Decision begin

text \<open>
  \<open>RuntimeVisualTokenScorer\<close> of \<open>prism_infer/engine/visual_pruning.py\<close>, which acc the
  attention mass of the visual tokens over the observed decoder layers, and the finalisation that
  turns the acc into one audit record per sequence.

  The tensor arithmetic is a parameter: the scores of a sequence at one layer are an argument of
  \<open>observe\<close> (of an arbitrary type \<open>'t\<close>), \<open>tadd\<close> adds them, \<open>tmean\<close> divides them by the number of
  layers, reduces them over the ranks and lists them.  \<open>fsum\<close> is Python's \<open>sum\<close> of floats.
\<close>

section \<open>The scorer\<close>

record score_sequence =
  rs_seq_id :: nat
  rs_token_start :: nat
  rs_token_end :: nat
  rs_visual :: "nat list"

record 't scorer =
  as_layer_ids :: "int list"
  as_sequences :: "score_sequence list"
  as_total_tokens :: nat
  as_score_sums :: "(nat, 't) dict"
  as_observed :: "int list"

fun scorer_specs :: "nat \<Rightarrow> sequence list \<Rightarrow> py_error + (score_sequence list \<times> nat)" where
  "scorer_specs token_start [] = Inr ([], token_start)"
| "scorer_specs token_start (s # ss) =
     bind_res (find_visual_token_spans s) (\<lambda>spans.
     bind_res (scorer_specs (token_start + sq_num_tokens s) ss) (\<lambda>(specs, final).
     Inr (\<lparr>rs_seq_id = sq_seq_id s, rs_token_start = token_start, rs_token_end = token_start + sq_num_tokens s,
           rs_visual = visual_token_indices spans\<rparr> # specs, final)))"

definition scorer_new :: "sequence list \<Rightarrow> int list \<Rightarrow> py_error + 't scorer" where
  "scorer_new seqs layer_ids = (let layers = sort (remdups layer_ids) in
     need ValueError (layers \<noteq> [] \<and> 0 \<le> hd layers)
    (bind_res (scorer_specs 0 seqs) (\<lambda>(specs, final).
     Inr \<lparr>as_layer_ids = layers, as_sequences = specs, as_total_tokens = final,
          as_score_sums = [], as_observed = []\<rparr>)))"

definition build_runtime_visual_token_scorer :: "sequence list \<Rightarrow> int \<Rightarrow> int \<Rightarrow> py_error + 't scorer" where
  "build_runtime_visual_token_scorer seqs num_layers last_n =
     need ValueError (1 \<le> num_layers)
    (need ValueError (1 \<le> last_n \<and> last_n \<le> num_layers)
    (scorer_new seqs [num_layers - last_n..num_layers - 1]))"

definition add_scores :: "('t \<Rightarrow> 't \<Rightarrow> 't) \<Rightarrow> (score_sequence \<Rightarrow> 't) \<Rightarrow> score_sequence \<Rightarrow> (nat, 't) dict \<Rightarrow> (nat, 't) dict" where
  "add_scores tadd attn spec acc =
    (if rs_visual spec = [] then acc
     else dict_set acc (rs_seq_id spec) (case dict_get acc (rs_seq_id spec) of
        None \<Rightarrow> attn spec | Some previous \<Rightarrow> tadd previous (attn spec)))"

text \<open>The shapes are those of the query and key tensors.\<close>

definition observe :: "('t \<Rightarrow> 't \<Rightarrow> 't) \<Rightarrow> int \<Rightarrow> nat list \<Rightarrow> nat list \<Rightarrow> (score_sequence \<Rightarrow> 't) \<Rightarrow> (unit, 't scorer) op" where
  "observe tadd layer q_shape k_shape attn = bnd (gets (\<lambda>sc. sc)) (\<lambda>sc.
     if layer \<notin> set (as_layer_ids sc) then ret ()
     else thn (chk RuntimeError (layer \<notin> set (as_observed sc)))
         (thn (chk ValueError (length q_shape = 3 \<and> length k_shape = 3))
         (thn (chk ValueError (q_shape ! 0 = as_total_tokens sc \<and> k_shape ! 0 = as_total_tokens sc))
         (thn (chk ValueError (q_shape ! 2 = k_shape ! 2))
         (thn (chk ZeroDivisionError (k_shape ! 1 \<noteq> 0))
         (thn (chk ValueError (q_shape ! 1 mod k_shape ! 1 = 0))
              (upd (\<lambda>sc. sc\<lparr>as_score_sums := fold (add_scores tadd attn) (as_sequences sc) (as_score_sums sc),
                         as_observed := od_set layer (as_observed sc)\<rparr>))))))))"

type_synonym score_maps = "(nat, (nat, score) dict) dict"

fun score_map_of :: "(nat \<Rightarrow> 't \<Rightarrow> score list) \<Rightarrow> nat \<Rightarrow> (nat, 't) dict \<Rightarrow> score_sequence \<Rightarrow> py_error + (nat, score) dict" where
  "score_map_of tmean n acc spec =
    (if rs_visual spec = [] then Inr []
     else (case dict_get acc (rs_seq_id spec) of
        None \<Rightarrow> Inl RuntimeError
      | Some t \<Rightarrow> Inr (zip (rs_visual spec) (tmean n t))))"

fun collect_maps :: "(score_sequence \<Rightarrow> py_error + (nat, score) dict) \<Rightarrow> score_sequence list \<Rightarrow> score_maps \<Rightarrow> py_error + score_maps" where
  "collect_maps f [] result = Inr result"
| "collect_maps f (spec # specs) result =
     bind_res (f spec) (\<lambda>m. collect_maps f specs (dict_set result (rs_seq_id spec) m))"

definition scorer_finalize :: "(nat \<Rightarrow> 't \<Rightarrow> score list) \<Rightarrow> 't scorer \<Rightarrow> py_error + score_maps" where
  "scorer_finalize tmean sc =
     need RuntimeError (set (as_layer_ids sc) - set (as_observed sc) = {})
    (collect_maps (score_map_of tmean (length (as_observed sc)) (as_score_sums sc)) (as_sequences sc) [])"

section \<open>Finalising the decisions of a batch\<close>

text \<open>The scores of a computed decision are finite: the other case is never used.\<close>

definition finite_scores :: "(nat, score) dict \<Rightarrow> rat list" where
  "finite_scores m = map (\<lambda>(i, v). case v of Finite x \<Rightarrow> x | NonFinite \<Rightarrow> 0) m"

definition score_evidence :: "(rat list \<Rightarrow> rat) \<Rightarrow> nat \<Rightarrow> int list \<Rightarrow> rat list \<Rightarrow> py_record" where
  "score_evidence fsum batch_index layers vals =
     [(''batch_index'', PInt (int batch_index)),
      (''score_source'', PStr ''prefill_last_query_attention''),
      (''score_layers'', PList (map PInt layers)),
      (''score_min'', PFloat (Min (set vals))),
      (''score_max'', PFloat (Max (set vals))),
      (''score_mean'', PFloat (fl (fsum vals / of_nat (length vals))))]"

fun attention_records :: "(rat list \<Rightarrow> rat) \<Rightarrow> visual_config \<Rightarrow> score_maps \<Rightarrow> int list \<Rightarrow> nat \<Rightarrow> sequence list \<Rightarrow>
    py_error + py_record option list" where
  "attention_records fsum c maps layers i [] = Inr []"
| "attention_records fsum c maps layers i (s # ss) = (case dict_get maps (sq_seq_id s) of
      None \<Rightarrow> Inl RuntimeError
    | Some token_scores \<Rightarrow>
        bind_res (compute_pruning_decision s c (Some token_scores)) (\<lambda>decision.
        let rd = map_option (\<lambda>d. dict_update (pd_to_record d)
              (score_evidence fsum i layers (finite_scores token_scores))) decision in
        bind_res (attention_records fsum c maps layers (i + 1) ss) (\<lambda>recs. Inr (rd # recs))))"

text \<open>The result: the records, and the sequences as they are after the commit loop at the end.\<close>

definition finalize_attention_pruning_decisions ::
    "(rat list \<Rightarrow> rat) \<Rightarrow> (nat \<Rightarrow> 't \<Rightarrow> score list) \<Rightarrow> sequence list \<Rightarrow> visual_config \<Rightarrow> 't scorer \<Rightarrow>
     py_error + (py_record option list \<times> sequence list)" where
  "finalize_attention_pruning_decisions fsum tmean seqs c scorer =
     need ValueError (vc_strategy c = ''attention'')
    (bind_res (scorer_finalize tmean scorer) (\<lambda>maps.
     bind_res (attention_records fsum c maps (as_layer_ids scorer) 0 seqs) (\<lambda>recs.
     Inr (recs, map2 (\<lambda>s r. s\<lparr>sq_decision_record := r\<rparr>) seqs recs))))"

section \<open>The scorer as a state machine\<close>

text \<open>A call with tensors of the right shape.\<close>

definition shapes_ok :: "'t scorer \<Rightarrow> nat list \<Rightarrow> nat list \<Rightarrow> bool" where
  "shapes_ok sc q k \<longleftrightarrow> length q = 3 \<and> length k = 3 \<and> q ! 0 = as_total_tokens sc \<and> k ! 0 = as_total_tokens sc \<and>
     q ! 2 = k ! 2 \<and> 0 < k ! 1 \<and> q ! 1 mod k ! 1 = 0"

definition observed :: "('t \<Rightarrow> 't \<Rightarrow> 't) \<Rightarrow> int \<Rightarrow> (score_sequence \<Rightarrow> 't) \<Rightarrow> 't scorer \<Rightarrow> 't scorer" where
  "observed tadd layer attn sc = sc\<lparr>as_score_sums := fold (add_scores tadd attn) (as_sequences sc) (as_score_sums sc),
     as_observed := od_set layer (as_observed sc)\<rparr>"

lemma wp_observe:
  "wp (observe tadd layer q k attn) Q E sc =
    (if layer \<notin> set (as_layer_ids sc) then Q () sc
     else if layer \<in> set (as_observed sc) then E RuntimeError sc
     else if shapes_ok sc q k then Q () (observed tadd layer attn sc)
     else E (if length q = 3 \<and> length k = 3 \<and> q ! 0 = as_total_tokens sc \<and> k ! 0 = as_total_tokens sc \<and>
            q ! 2 = k ! 2 \<and> k ! 1 = 0 then ZeroDivisionError else ValueError) sc)"
  by (auto simp: observe_def wp_simps shapes_ok_def observed_def)

lemma add_scores_get:
  "dict_get (add_scores tadd attn spec acc) i = None \<longleftrightarrow>
     dict_get acc i = None \<and> (rs_visual spec = [] \<or> rs_seq_id spec \<noteq> i)"
  by (auto simp: add_scores_def)

lemma fold_scores_get:
  "dict_get (fold (add_scores tadd attn) specs acc) i = None \<longleftrightarrow>
     dict_get acc i = None \<and> (\<forall>spec \<in> set specs. rs_visual spec = [] \<or> rs_seq_id spec \<noteq> i)"
  by (induction specs arbitrary: acc) (auto simp: add_scores_get)

lemma collect_maps_ok:
  "\<forall>spec \<in> set specs. f spec = Inr (g spec) \<Longrightarrow>
   \<exists>result'. collect_maps f specs result = Inr result' \<and>
     (\<forall>i. i \<notin> rs_seq_id ` set specs \<longrightarrow> dict_get result' i = dict_get result i) \<and>
     (distinct (map rs_seq_id specs) \<longrightarrow> (\<forall>spec \<in> set specs. dict_get result' (rs_seq_id spec) = Some (g spec)))"
proof (induction specs arbitrary: result)
  case (Cons spec specs)
  obtain r where r: "collect_maps f specs (dict_set result (rs_seq_id spec) (g spec)) = Inr r"
    "\<forall>i. i \<notin> rs_seq_id ` set specs \<longrightarrow> dict_get r i = dict_get (dict_set result (rs_seq_id spec) (g spec)) i"
    "distinct (map rs_seq_id specs) \<longrightarrow> (\<forall>spec \<in> set specs. dict_get r (rs_seq_id spec) = Some (g spec))"
    using Cons.IH[of "dict_set result (rs_seq_id spec) (g spec)"] Cons.prems by auto
  then show ?case using Cons.prems by (intro exI[of _ r]) auto
qed simp

text \<open>Along any sequence of calls: every observed layer is a target, and once a layer has been observed
  every sequence with visual tokens has scores.\<close>

definition scorer_inv :: "'t scorer \<Rightarrow> bool" where
  "scorer_inv sc \<longleftrightarrow> as_layer_ids sc \<noteq> [] \<and> set (as_observed sc) \<subseteq> set (as_layer_ids sc) \<and>
     distinct (as_observed sc) \<and>
     (as_observed sc \<noteq> [] \<longrightarrow> (\<forall>spec \<in> set (as_sequences sc). rs_visual spec \<noteq> [] \<longrightarrow>
        dict_get (as_score_sums sc) (rs_seq_id spec) \<noteq> None))"

datatype 't scorer_call = Observe int "nat list" "nat list" "score_sequence \<Rightarrow> 't"

fun scorer_exec :: "('t \<Rightarrow> 't \<Rightarrow> 't) \<Rightarrow> 't scorer_call \<Rightarrow> (unit, 't scorer) op" where
  "scorer_exec tadd (Observe layer q k attn) = observe tadd layer q k attn"

fun call_layer :: "'t scorer_call \<Rightarrow> int" where
  "call_layer (Observe layer q k attn) = layer"

fun call_fits :: "'t scorer \<Rightarrow> 't scorer_call \<Rightarrow> bool" where
  "call_fits sc (Observe layer q k attn) \<longleftrightarrow> shapes_ok sc q k"

definition scorer_step :: "('t \<Rightarrow> 't \<Rightarrow> 't) \<Rightarrow> 't scorer \<Rightarrow> 't scorer_call \<Rightarrow> 't scorer \<Rightarrow> bool" where
  "scorer_step tadd sc c sc' \<longleftrightarrow> sc' = snd (scorer_exec tadd c sc)"

definition scorer_frame :: "'t scorer \<Rightarrow> int list \<times> score_sequence list \<times> nat" where
  "scorer_frame sc = (as_layer_ids sc, as_sequences sc, as_total_tokens sc)"

lemma scorer_specs_all:
  "scorer_specs k ss = Inr (specs, n) \<Longrightarrow> list_all2 (\<lambda>s spec. rs_seq_id spec = sq_seq_id s \<and>
     (\<exists>spans. find_visual_token_spans s = Inr spans \<and> rs_visual spec = visual_token_indices spans)) ss specs"
  by (induction ss arbitrary: k specs n) (auto simp: res_simps)

lemma scorer_specs_ids: "scorer_specs k ss = Inr (specs, n) \<Longrightarrow> map rs_seq_id specs = map sq_seq_id ss"
  by (induction ss arbitrary: k specs n) (auto simp: res_simps)

lemma scorer_new_inv: "scorer_new ss ids = Inr sc \<Longrightarrow> scorer_inv sc"
  by (auto simp: scorer_new_def scorer_inv_def res_simps Let_def)

lemma observe_step:
  assumes "scorer_inv sc"
  shows "wp (scorer_exec tadd c) (\<lambda>_ t. scorer_inv t \<and> scorer_frame t = scorer_frame sc)
    (\<lambda>_ t. scorer_inv t \<and> scorer_frame t = scorer_frame sc) sc"
  using assms
  by (cases c) (auto simp: wp_observe scorer_inv_def observed_def fold_scores_get scorer_frame_def od_set_def simp del: not_None_eq)

interpretation scorer_machine: constant_system
  "\<lambda>sc. \<exists>ss ids. scorer_new ss ids = Inr sc" "scorer_step tadd" scorer_inv scorer_frame
  using observe_step[of _ tadd]
  by unfold_locales (auto simp: scorer_step_def wp_always intro: scorer_new_inv)

lemma run_observed:
  "run (scorer_step tadd) sc calls t \<Longrightarrow> scorer_inv sc \<Longrightarrow> \<forall>c \<in> set calls. call_fits sc c \<Longrightarrow>
   set (as_observed t) = set (as_observed sc) \<union> (call_layer ` set calls \<inter> set (as_layer_ids sc))"
proof (induction rule: run.induct)
  case (run_Cons s l t ls u)
  obtain layer q k attn where l: "l = Observe layer q k attn" by (cases l)
  have fr: "scorer_frame t = scorer_frame s" and inv: "scorer_inv t"
    using observe_step[OF run_Cons.prems(1), of tadd l] run_Cons.hyps(1) by (simp_all add: scorer_step_def wp_always)
  have fits: "\<forall>c \<in> set ls. call_fits t c"
    using run_Cons.prems(2) fr by (auto simp: scorer_frame_def shapes_ok_def elim!: call_fits.elims intro!: call_fits.simps[THEN iffD2])
  have "wp (scorer_exec tadd l) (\<lambda>_ t. set (as_observed t) = set (as_observed s) \<union> ({layer} \<inter> set (as_layer_ids s)))
      (\<lambda>_ t. set (as_observed t) = set (as_observed s) \<union> ({layer} \<inter> set (as_layer_ids s))) s"
    using run_Cons.prems(2) by (auto simp: l wp_observe observed_def)
  then have "set (as_observed t) = set (as_observed s) \<union> ({layer} \<inter> set (as_layer_ids s))"
    using run_Cons.hyps(1) by (simp add: scorer_step_def wp_always)
  then show ?case using run_Cons.IH[OF inv fits] fr by (auto simp: l scorer_frame_def)
qed simp

text \<open>The scores of a sequence have one element per visual token.\<close>

definition sized :: "('t \<Rightarrow> nat) \<Rightarrow> 't scorer \<Rightarrow> bool" where
  "sized tlen sc \<longleftrightarrow> (\<forall>spec \<in> set (as_sequences sc). \<forall>x. dict_get (as_score_sums sc) (rs_seq_id spec) = Some x \<longrightarrow>
     tlen x = length (rs_visual spec))"

fun call_sized :: "('t \<Rightarrow> nat) \<Rightarrow> 't scorer \<Rightarrow> 't scorer_call \<Rightarrow> bool" where
  "call_sized tlen sc (Observe layer q k attn) \<longleftrightarrow> shapes_ok sc q k \<and>
     (\<forall>spec \<in> set (as_sequences sc). tlen (attn spec) = length (rs_visual spec))"

lemma call_sized_fits: "call_sized tlen sc c \<Longrightarrow> call_fits sc c"
  by (cases c) simp

lemma call_sized_frame: "scorer_frame t = scorer_frame sc \<Longrightarrow> call_sized tlen t c = call_sized tlen sc c"
  by (cases c) (simp add: scorer_frame_def shapes_ok_def)

lemma fold_scores_sized:
  assumes add: "\<And>x y. tlen x = tlen y \<Longrightarrow> tlen (tadd x y) = tlen x" and d: "distinct (map rs_seq_id all)"
    and attn: "\<forall>spec \<in> set all. tlen (attn spec) = length (rs_visual spec)"
  shows "set specs \<subseteq> set all \<Longrightarrow> \<forall>spec \<in> set all. \<forall>x. dict_get acc (rs_seq_id spec) = Some x \<longrightarrow> tlen x = length (rs_visual spec) \<Longrightarrow>
    \<forall>spec \<in> set all. \<forall>x. dict_get (fold (add_scores tadd attn) specs acc) (rs_seq_id spec) = Some x \<longrightarrow> tlen x = length (rs_visual spec)"
proof (induction specs arbitrary: acc)
  case (Cons sp specs)
  have sp: "sp \<in> set all" using Cons.prems(1) by simp
  have same: "spec = sp" if "spec \<in> set all" "rs_seq_id spec = rs_seq_id sp" for spec
    using that d sp by (auto simp: distinct_map inj_on_def)
  have "tlen x = length (rs_visual spec)"
    if spec: "spec \<in> set all" and get: "dict_get (add_scores tadd attn sp acc) (rs_seq_id spec) = Some x" for spec x
  proof (cases "rs_visual sp \<noteq> [] \<and> rs_seq_id spec = rs_seq_id sp")
    case True
    then have "spec = sp" using same spec by blast
    then show ?thesis using True get Cons.prems(2) sp attn add
      by (cases "dict_get acc (rs_seq_id sp)") (auto simp: add_scores_def)
  next
    case False
    then have "dict_get acc (rs_seq_id spec) = Some x" using get by (auto simp: add_scores_def split: if_splits)
    then show ?thesis using Cons.prems(2) spec by blast
  qed
  then show ?case using Cons.IH[of "add_scores tadd attn sp acc"] Cons.prems(1) by simp
qed simp

lemma run_sized:
  assumes add: "\<And>x y. tlen x = tlen y \<Longrightarrow> tlen (tadd x y) = tlen x"
  shows "run (scorer_step tadd) sc calls t \<Longrightarrow> scorer_inv sc \<Longrightarrow> \<forall>c \<in> set calls. call_sized tlen sc c \<Longrightarrow>
    distinct (map rs_seq_id (as_sequences sc)) \<Longrightarrow> sized tlen sc \<Longrightarrow> sized tlen t"
proof (induction rule: run.induct)
  case (run_Cons s l t ls u)
  have fr: "scorer_frame t = scorer_frame s" and inv: "scorer_inv t"
    using observe_step[OF run_Cons.prems(1), of tadd l] run_Cons.hyps(1) by (simp_all add: scorer_step_def wp_always)
  obtain layer q k attn where l: "l = Observe layer q k attn" by (cases l)
  have attn: "\<forall>spec \<in> set (as_sequences s). tlen (attn spec) = length (rs_visual spec)"
    using run_Cons.prems(2) by (simp add: l)
  have "sized tlen (observed tadd layer attn s)"
    using fold_scores_sized[of tlen tadd, OF add run_Cons.prems(3) attn order_refl run_Cons.prems(4)[unfolded sized_def]]
    by (simp add: observed_def sized_def)
  then have "wp (scorer_exec tadd l) (\<lambda>_ t. sized tlen t) (\<lambda>_ t. sized tlen t) s"
    using run_Cons.prems(4) by (simp add: l wp_observe)
  then have "sized tlen t" using run_Cons.hyps(1) by (simp add: scorer_step_def wp_always)
  moreover have "\<forall>c \<in> set ls. call_sized tlen t c"
    using run_Cons.prems(2) call_sized_frame[OF fr, of tlen] by simp
  moreover have "distinct (map rs_seq_id (as_sequences t))" using run_Cons.prems(3) fr by (simp add: scorer_frame_def)
  ultimately show ?case using run_Cons.IH[OF inv] by blast
qed simp

text \<open>C40: after observing, in any order and with other layers in between, tensors of the right shape, the
  scorer can be finalised exactly when every target layer was observed; the result then gives each
  sequence of the batch one score per visual token, in order.  (Of the tensor operations: addition
  keeps the size of equally sized operands and the mean lists every element.)\<close>

theorem scorer_complete:
  assumes "scorer_new ss ids = Inr sc" and "run (scorer_step tadd) sc calls t"
    and "\<forall>c \<in> set calls. call_sized tlen sc c" and "distinct (map sq_seq_id ss)"
    and "\<And>x y. tlen x = tlen y \<Longrightarrow> tlen (tadd x y) = tlen x" and "\<And>n x. length (tmean n x) = tlen x"
  shows "if set ids \<subseteq> call_layer ` set calls
    then \<exists>result. scorer_finalize tmean t = Inr result \<and>
      (\<forall>s \<in> set ss. \<exists>m spans. dict_get result (sq_seq_id s) = Some m \<and> find_visual_token_spans s = Inr spans \<and>
         map fst m = visual_token_indices spans)
    else scorer_finalize tmean t = Inl RuntimeError"
proof -
  have inv: "scorer_inv sc" by (rule scorer_new_inv[OF assms(1)])
  have frame: "scorer_frame t = scorer_frame sc" by (rule scorer_machine.run_const[OF assms(2) inv])
  have invt: "scorer_inv t" by (rule scorer_machine.run_inv[OF assms(2) inv])
  obtain n where specs: "scorer_specs 0 ss = Inr (as_sequences sc, n)"
    and layers: "set (as_layer_ids sc) = set ids" and new: "as_observed sc = []" "as_score_sums sc = []"
    using assms(1) by (auto simp: scorer_new_def res_simps Let_def)
  have d: "distinct (map rs_seq_id (as_sequences sc))" using scorer_specs_ids[OF specs] assms(4) by simp
  have fits: "\<forall>c \<in> set calls. call_fits sc c" using assms(3) call_sized_fits by blast
  have obs: "set (as_observed t) = call_layer ` set calls \<inter> set ids"
    using run_observed[OF assms(2) inv fits] by (simp add: new layers)
  have seqs: "as_sequences t = as_sequences sc" "set (as_layer_ids t) = set ids"
    using frame layers by (simp_all add: scorer_frame_def)
  show ?thesis
  proof (cases "set ids \<subseteq> call_layer ` set calls")
    case True
    have all: "set (as_layer_ids t) - set (as_observed t) = {}" using True obs seqs by auto
    have ne: "as_observed t \<noteq> []" using all invt by (cases "as_observed t") (auto simp: scorer_inv_def)
    have sz: "sized tlen t"
      by (rule run_sized[OF assms(5) assms(2) inv assms(3) d]) (auto simp: sized_def new)
    let ?f = "score_map_of tmean (length (as_observed t)) (as_score_sums t)"
    let ?g = "\<lambda>spec. case ?f spec of Inr m \<Rightarrow> m"
    have f: "?f spec = Inr (?g spec) \<and> map fst (?g spec) = rs_visual spec" if spec: "spec \<in> set (as_sequences sc)" for spec
    proof (cases "rs_visual spec = []")
      case False
      then obtain x where x: "dict_get (as_score_sums t) (rs_seq_id spec) = Some x"
        using invt ne spec seqs(1) by (fastforce simp: scorer_inv_def)
      then have "length (tmean (length (as_observed t)) x) = length (rs_visual spec)"
        using sz spec seqs(1) assms(6) by (auto simp: sized_def)
      then show ?thesis using False x by simp
    qed simp
    obtain result where R: "collect_maps ?f (as_sequences sc) [] = Inr result"
      "\<forall>spec \<in> set (as_sequences sc). dict_get result (rs_seq_id spec) = Some (?g spec)"
      using collect_maps_ok[of "as_sequences sc" ?f ?g "[]"] f d by blast
    have "\<exists>m spans. dict_get result (sq_seq_id s) = Some m \<and> find_visual_token_spans s = Inr spans \<and>
         map fst m = visual_token_indices spans" if s: "s \<in> set ss" for s
    proof -
      from s obtain i where i: "i < length ss" "ss ! i = s" by (auto simp: in_set_conv_nth)
      obtain spec spans where S: "spec \<in> set (as_sequences sc)" "rs_seq_id spec = sq_seq_id s"
        "find_visual_token_spans s = Inr spans" "rs_visual spec = visual_token_indices spans"
        using scorer_specs_all[OF specs] i unfolding list_all2_conv_all_nth by (metis nth_mem)
      then show ?thesis using R(2) f[OF S(1)] by metis
    qed
    then show ?thesis using True R(1) all by (simp add: scorer_finalize_def seqs)
  next
    case False
    then have "set (as_layer_ids t) - set (as_observed t) \<noteq> {}" using obs seqs by auto
    then have "scorer_finalize tmean t = Inl RuntimeError" by (simp add: scorer_finalize_def)
    then show ?thesis unfolding if_not_P[OF False] .
  qed
qed

definition example_scorer :: "nat list scorer" where
  "example_scorer = (case scorer_new [example_seq] [0] of Inr sc \<Rightarrow> sc)"

lemma example_scorer_new: "scorer_new [example_seq] [0] = Inr example_scorer"
  and example_scorer_fields: "as_total_tokens example_scorer = 6"
    "as_sequences example_scorer = [\<lparr>rs_seq_id = 3, rs_token_start = 0, rs_token_end = 6, rs_visual = [1, 3]\<rparr>]"
  by (simp_all add: example_scorer_def scorer_new_def example_visual_spans example_visual_fields visual_token_indices_def
      upt_rec[of 3] upt_rec[of "Suc 0"] Let_def)

theorem scorer_complete_witness:
  "scorer_finalize (\<lambda>n x. map (\<lambda>_. Finite 1) x) example_scorer = Inl RuntimeError"
proof -
  have "run (scorer_step (\<lambda>x y. x)) example_scorer [] example_scorer" by simp
  from scorer_complete[OF example_scorer_new this, of length "\<lambda>n x. map (\<lambda>_. Finite 1) x"] show ?thesis by simp
qed

section \<open>Records of a batch\<close>

lemma retained_update:
  assumes "\<forall>k \<in> {''prompt_token_count'', ''visual_token_spans'', ''kept_token_indices'', ''dropped_token_indices'',
    ''physical_compaction''}. k \<notin> fst ` set upds"
  shows "build_retained_context_indices (Some (dict_update r upds)) n = build_retained_context_indices (Some r) n"
proof -
  have "dict_get (dict_update r upds) k = dict_get r k" if "k \<notin> fst ` set upds" for k
    using that map_of_eq_None_iff[of "rev upds" k] by (simp add: dict_get_update map_add_def split: option.splits)
  then show ?thesis using assms
    by (simp add: build_retained_context_indices_def validate_pruning_prompt_length_def visual_indices_from_record_def
        pruning_partition_from_record_def iter_field_def get_flag_def)
qed

lemma attention_records_ok:
  "attention_records fsum c maps layers i ss = Inr recs \<Longrightarrow> length recs = length ss \<and>
   (\<forall>j < length ss. \<exists>m d. dict_get maps (sq_seq_id (ss ! j)) = Some m \<and>
      compute_pruning_decision (ss ! j) c (Some m) = Inr d \<and>
      recs ! j = map_option (\<lambda>d. dict_update (pd_to_record d) (score_evidence fsum (i + j) layers (finite_scores m))) d)"
proof (induction ss arbitrary: i recs)
  case (Cons s ss)
  obtain m d rs where S: "dict_get maps (sq_seq_id s) = Some m" "compute_pruning_decision s c (Some m) = Inr d"
    "attention_records fsum c maps layers (i + 1) ss = Inr rs"
    "recs = map_option (\<lambda>d. dict_update (pd_to_record d) (score_evidence fsum i layers (finite_scores m))) d # rs"
    using Cons.prems by (auto simp: res_simps Let_def split: option.splits)
  show ?case using Cons.IH[OF S(3)] S by (auto simp: nth_Cons split: nat.splits)
qed simp

text \<open>Finalising a batch replaces the decision record of every sequence, and of nothing else; a sequence
  with visual tokens gets a record whose reader retains everything but the dropped tokens of the
  decision computed from its own scores, one without visual tokens gets none.\<close>

theorem attention_records_usable:
  assumes "finalize_attention_pruning_decisions fsum tmean ss c scorer = Inr (recs, ss')"
    and "config_ok c" and "\<forall>s \<in> set ss. length (sq_token_ids s) < 2 ^ 53 \<and>
      (\<forall>p. is_visual s p \<longrightarrow> p < sq_num_prompt_tokens s) \<and> int (sq_num_prompt_tokens s) \<le> n"
  shows "ss' = map2 (\<lambda>s r. s\<lparr>sq_decision_record := r\<rparr>) ss recs \<and> length recs = length ss \<and>
    (\<forall>j < length ss. (case recs ! j of
       None \<Rightarrow> \<not> (\<exists>p. is_visual (ss ! j) p)
     | Some r \<Rightarrow> \<exists>m d. compute_pruning_decision (ss ! j) c (Some m) = Inr (Some d) \<and>
         build_retained_context_indices (Some r) n = Inr (filter (\<lambda>i. i \<notin> set (pd_dropped d)) [0..<nat n])))"
proof -
  obtain maps where R: "attention_records fsum c maps (as_layer_ids scorer) 0 ss = Inr recs"
    and ss': "ss' = map2 (\<lambda>s r. s\<lparr>sq_decision_record := r\<rparr>) ss recs"
    using assms(1) by (auto simp: finalize_attention_pruning_decisions_def res_simps)
  have "(case recs ! j of
       None \<Rightarrow> \<not> (\<exists>p. is_visual (ss ! j) p)
     | Some r \<Rightarrow> \<exists>m d. compute_pruning_decision (ss ! j) c (Some m) = Inr (Some d) \<and>
         build_retained_context_indices (Some r) n = Inr (filter (\<lambda>i. i \<notin> set (pd_dropped d)) [0..<nat n]))"
    if j: "j < length ss" for j
  proof -
    obtain m d where D: "compute_pruning_decision (ss ! j) c (Some m) = Inr d"
      "recs ! j = map_option (\<lambda>d. dict_update (pd_to_record d) (score_evidence fsum j (as_layer_ids scorer) (finite_scores m))) d"
      using attention_records_ok[OF R] j by auto
    show ?thesis
    proof (cases d)
      case None
      then obtain spans where "find_visual_token_spans (ss ! j) = Inr spans" "visual_token_indices spans = []"
        using D(1) by (auto simp: compute_pruning_decision_def res_simps Let_def split: if_splits)
      then show ?thesis using D(2) None find_spans_exact(6) by fastforce
    next
      case (Some dec)
      have A: "length (sq_token_ids (ss ! j)) < 2 ^ 53" "\<forall>p. is_visual (ss ! j) p \<longrightarrow> p < sq_num_prompt_tokens (ss ! j)"
        "int (sq_num_prompt_tokens (ss ! j)) \<le> n" using assms(3) j by auto
      have "build_retained_context_indices (recs ! j) n = Inr (filter (\<lambda>i. i \<notin> set (pd_dropped dec)) [0..<nat n])"
        unfolding D(2) Some option.map
        by (subst retained_update)
          (simp_all add: score_evidence_def decision_record_retained[OF D(1)[unfolded Some] assms(2) A])
      then show ?thesis using D Some by auto
    qed
  qed
  then show ?thesis using ss' attention_records_ok[OF R] by blast
qed

theorem attention_records_usable_witness:
  "\<exists>recs ss'. finalize_attention_pruning_decisions sum_list (\<lambda>n x. map Finite x) [example_seq]
      (example_config\<lparr>vc_strategy := ''attention''\<rparr>)
      \<lparr>as_layer_ids = [0], as_sequences = as_sequences example_scorer, as_total_tokens = 6,
       as_score_sums = [(3, [1, 2])], as_observed = [0]\<rparr> = Inr (recs, ss') \<and> length recs = 1"
proof -
  let ?c = "example_config\<lparr>vc_strategy := ''attention''\<rparr>" and ?m = "[(1, Finite 1), (3, Finite 2)]"
  let ?sc = "\<lparr>as_layer_ids = [0 :: int], as_sequences = as_sequences example_scorer, as_total_tokens = 6,
       as_score_sums = [(3, [1, 2])], as_observed = [0]\<rparr>"
  have c: "config_ok ?c" by (simp add: config_ok_def example_config_def)
  have vis: "p = 1 \<or> p = 3" if "is_visual example_seq p" for p
    using that find_spans_exact(6)[OF example_visual_spans, of p] by (auto simp: visual_token_indices_def)
  then have "\<forall>p. is_visual example_seq p \<longrightarrow> (\<exists>x. dict_get ?m p = Some (Finite x))" by (auto simp: dict_get_def)
  moreover have "is_visual example_seq 3" by (simp add: is_visual_def example_seq_fields)
  ultimately obtain d where "compute_pruning_decision example_seq ?c (Some ?m) = Inr (Some d)"
    using score_keep_total[OF c _ example_visual_spans, of ?m] by (auto simp: example_seq_fields)
  then have "\<exists>recs ss'. finalize_attention_pruning_decisions sum_list (\<lambda>n x. map Finite x) [example_seq] ?c ?sc = Inr (recs, ss')"
    by (auto simp: finalize_attention_pruning_decisions_def scorer_finalize_def example_scorer_fields example_visual_fields dict_get_def)
  then obtain recs ss' where F: "finalize_attention_pruning_decisions sum_list (\<lambda>n x. map Finite x) [example_seq] ?c ?sc = Inr (recs, ss')"
    by blast
  have "length recs = 1"
    using attention_records_usable[OF F c, of 6] vis by (fastforce simp: example_seq_fields)
  then show ?thesis using F by blast
qed

end
