(* ===== verification/Block_Hash.thy ===== *)
theory Block_Hash imports Sequence_State Gpu_Pool begin

text \<open>
  \<open>BlockManager.compute_hash\<close> of \<open>prism_infer/engine/block_manager.py\<close>: the chained,
  media-aware hash of one token block.  The third-party function xxHash-64 is the parameter
  \<open>xx :: bytes \<Rightarrow> 64 word\<close>; everything the code feeds to it is modelled byte by byte.  The
  lemmas show that the hashed message determines the block, so that equal hashes of a chain
  without xxHash collisions mean equal token prefixes and equal images.
\<close>

type_synonym hash_fun = "bytes \<Rightarrow> 64 word"

fun mm_message :: "(nat, nat) dict \<Rightarrow> nat list \<Rightarrow> py_error + bytes" where
  "mm_message d [] = Inr []"
| "mm_message d (p # ps) =
     bind_res (to_bytes 4 (int p)) (\<lambda>a.
     bind_res (case dict_get d p of None \<Rightarrow> Inl KeyError | Some v \<Rightarrow> to_bytes 8 (int v)) (\<lambda>b.
     bind_res (mm_message d ps) (\<lambda>rest. Inr (a @ b @ rest))))"

definition hash_message :: "int list \<Rightarrow> int \<Rightarrow> mm_hashes \<Rightarrow> py_error + bytes" where
  "hash_message token_ids prefix mm =
     bind_res (if prefix \<noteq> NO_BLOCK_HASH then to_bytes 8 prefix else Inr []) (\<lambda>a.
     bind_res (int64s_bytes token_ids) (\<lambda>b.
     bind_res (case mm of None \<Rightarrow> Inr []
               | Some d \<Rightarrow> mm_message d (sort (map fst d))) (\<lambda>c.
     Inr (a @ b @ c))))"

definition compute_hash :: "hash_fun \<Rightarrow> int list \<Rightarrow> int \<Rightarrow> mm_hashes \<Rightarrow> py_error + int" where
  "compute_hash xx token_ids prefix mm =
     bind_res (hash_message token_ids prefix mm) (\<lambda>msg. Inr (uint (xx msg)))"

section \<open>The message determines the block\<close>

lemma mm_message_length: "mm_message d ps = Inr bs \<Longrightarrow> length bs = 12 * length ps"
  by (induction ps arbitrary: bs) (auto simp: res_simps to_bytes_ok split: option.splits)

lemma mm_message_inj:
  "mm_message d ps = Inr bs \<Longrightarrow> mm_message d' ps' = Inr bs \<Longrightarrow>
   ps = ps' \<and> (\<forall>p \<in> set ps. dict_get d p = dict_get d' p)"
proof (induction ps arbitrary: ps' bs)
  case Nil
  then have "ps' = []" using mm_message_length[of d' ps' bs] by simp
  then show ?case by simp
next
  case (Cons p ps)
  then have "length ps' = Suc (length ps)"
    using mm_message_length[of d "p # ps" bs] mm_message_length[of d' ps' bs] by simp
  then obtain q qs where ps': "ps' = q # qs" by (cases ps') auto
  obtain v b where v: "dict_get d p = Some v" "to_bytes 8 (int v) = Inr b"
    using Cons.prems(1) by (auto simp: res_simps split: option.splits)
  obtain v' b' where v': "dict_get d' q = Some v'" "to_bytes 8 (int v') = Inr b'"
    using Cons.prems(2) ps' by (auto simp: res_simps split: option.splits)
  obtain a r where ar: "to_bytes 4 (int p) = Inr a" "mm_message d ps = Inr r" "bs = a @ b @ r"
    using Cons.prems(1) v by (auto simp: res_simps)
  obtain a' r' where ar': "to_bytes 4 (int q) = Inr a'" "mm_message d' qs = Inr r'" "bs = a' @ b' @ r'"
    using Cons.prems(2) v' ps' by (auto simp: res_simps)
  have "length a = 4" "length a' = 4" "length b = 8" "length b' = 8"
    using ar(1) ar'(1) v(2) v'(2) by (auto simp: to_bytes_ok)
  then have eq: "a = a'" "b = b'" "r = r'" using ar(3) ar'(3) by auto
  have "p = q" using to_bytes_inj[of 4 "int p" a "int q"] ar(1) ar'(1) eq by simp
  moreover have "v = v'" using to_bytes_inj[of 8 "int v" b "int v'"] v(2) v'(2) eq by simp
  ultimately show ?case using Cons.IH[OF ar(2), of qs] ar'(2) eq v(1) v'(1) ps' by auto
qed

text \<open>A media mapping as the code builds it: no key twice, and never empty.\<close>

definition mm_wf :: "mm_hashes \<Rightarrow> bool" where
  "mm_wf mm = (case mm of None \<Rightarrow> True | Some d \<Rightarrow> d \<noteq> [] \<and> distinct (map fst d))"

lemma sorted_key_message:
  assumes "mm_message d (sort (map fst d)) = Inr bs" and "mm_message d' (sort (map fst d')) = Inr bs"
  shows "map_of d = map_of d'"
proof -
  have eq: "sort (map fst d) = sort (map fst d')" and v: "\<forall>p \<in> set (sort (map fst d)). dict_get d p = dict_get d' p"
    using mm_message_inj[OF assms] by blast+
  show ?thesis
  proof
    fix k
    have dom: "fst ` set d = fst ` set d'" using arg_cong[OF eq, of set] by simp
    show "map_of d k = map_of d' k"
    proof (cases "k \<in> fst ` set d")
      case True
      then have "k \<in> set (sort (map fst d))" by simp
      then have "dict_get d k = dict_get d' k" using v by blast
      then show ?thesis by (simp add: dict_get_def)
    next
      case False
      then have "map_of d k = None" and "map_of d' k = None"
        unfolding map_of_eq_None_iff using dom by blast+
      then show ?thesis by simp
    qed
  qed
qed

lemma hash_message_parts:
  assumes "hash_message toks prefix mm = Inr bs"
  obtains a b c where "bs = a @ b @ c" and "int64s_bytes toks = Inr b" and "length b = 8 * length toks"
    and "if prefix \<noteq> NO_BLOCK_HASH then to_bytes 8 prefix = Inr a \<and> length a = 8 else a = []"
    and "case mm of None \<Rightarrow> c = [] | Some d \<Rightarrow> mm_message d (sort (map fst d)) = Inr c \<and> length c = 12 * length d"
proof -
  obtain a b c where p: "bs = a @ b @ c" "int64s_bytes toks = Inr b"
    "(if prefix \<noteq> NO_BLOCK_HASH then to_bytes 8 prefix else Inr []) = Inr a"
    "(case mm of None \<Rightarrow> Inr [] | Some d \<Rightarrow> mm_message d (sort (map fst d))) = Inr c"
    using assms by (auto simp: hash_message_def res_simps)
  show ?thesis
    by (rule that[OF p(1,2)])
      (use p int64s_bytes_length mm_message_length in \<open>auto simp: to_bytes_ok split: if_splits option.splits\<close>)
qed

lemma hash_message_inj:
  assumes m: "hash_message toks prefix mm = Inr bs" and m': "hash_message toks' prefix' mm' = Inr bs"
    and len: "length toks = length toks'" and wf: "mm_wf mm" "mm_wf mm'"
  shows "toks = toks' \<and> prefix = prefix' \<and> map_option map_of mm = map_option map_of mm'"
proof -
  obtain a b c where p: "bs = a @ b @ c" "int64s_bytes toks = Inr b" "length b = 8 * length toks"
    "if prefix \<noteq> NO_BLOCK_HASH then to_bytes 8 prefix = Inr a \<and> length a = 8 else a = []"
    "case mm of None \<Rightarrow> c = [] | Some d \<Rightarrow> mm_message d (sort (map fst d)) = Inr c \<and> length c = 12 * length d"
    by (rule hash_message_parts[OF m])
  obtain a' b' c' where p': "bs = a' @ b' @ c'" "int64s_bytes toks' = Inr b'" "length b' = 8 * length toks'"
    "if prefix' \<noteq> NO_BLOCK_HASH then to_bytes 8 prefix' = Inr a' \<and> length a' = 8 else a' = []"
    "case mm' of None \<Rightarrow> c' = [] | Some d \<Rightarrow> mm_message d (sort (map fst d)) = Inr c' \<and> length c' = 12 * length d"
    by (rule hash_message_parts[OF m'])
  define k where "k = (case mm of None \<Rightarrow> 0 | Some d \<Rightarrow> length d)"
  define k' where "k' = (case mm' of None \<Rightarrow> 0 | Some d \<Rightarrow> length d)"
  have c: "length c = 12 * k" "length c' = 12 * k'"
    using p(5) p'(5) by (auto simp: k_def k'_def split: option.splits)
  have la: "length a = (if prefix = NO_BLOCK_HASH then 0 else 8)"
    "length a' = (if prefix' = NO_BLOCK_HASH then 0 else 8)" using p(4) p'(4) by (auto split: if_splits)
  have "length a + length b + length c = length a' + length b' + length c'"
    using arg_cong[OF p(1), of length] arg_cong[OF p'(1), of length] by simp
  then have sum: "length a + 12 * k = length a' + 12 * k'" using c p(3) p'(3) len by simp
  have none8: "12 * k \<noteq> 8 + 12 * k'" "8 + 12 * k \<noteq> 12 * k'" by presburger+
  then have "length a = length a'" using sum la by (auto split: if_splits)
  then have eq: "a = a'" "b = b'" "c = c'" using p(1,3) p'(1,3) len by auto
  have "toks = toks'" using int64s_bytes_inj[OF p(2)] p'(2) eq len by simp
  moreover have "prefix = prefix'"
    using \<open>length a = length a'\<close> la p(4) p'(4) eq to_bytes_inj[of 8 prefix a prefix'] by (auto split: if_splits)
  moreover have "map_option map_of mm = map_option map_of mm'"
  proof (cases "k = 0")
    case True
    then have "k' = 0" using sum \<open>length a = length a'\<close> by simp
    then show ?thesis using True wf by (auto simp: k_def k'_def mm_wf_def split: option.splits)
  next
    case False
    then have "k' \<noteq> 0" using sum \<open>length a = length a'\<close> by simp
    then obtain d d' where d: "mm = Some d" "mm' = Some d'"
      using False by (auto simp: k_def k'_def split: option.splits)
    then have "mm_message d (sort (map fst d)) = Inr c" "mm_message d' (sort (map fst d')) = Inr c"
      using p(5) p'(5) eq(3) by simp_all
    from sorted_key_message[OF this] show ?thesis by (simp add: d)
  qed
  ultimately show ?thesis by blast
qed

section \<open>Hash chains\<close>

type_synonym hashed_block = "int list \<times> mm_hashes"

text \<open>The hash of a chain of blocks, each hashed together with the hash of its predecessor.\<close>

fun chain_hash :: "hash_fun \<Rightarrow> int \<Rightarrow> hashed_block list \<Rightarrow> py_error + int" where
  "chain_hash xx h [] = Inr h"
| "chain_hash xx h ((toks, mm) # bs) = bind_res (compute_hash xx toks h mm) (\<lambda>h'. chain_hash xx h' bs)"

fun chain_messages :: "hash_fun \<Rightarrow> int \<Rightarrow> hashed_block list \<Rightarrow> bytes list" where
  "chain_messages xx h [] = []"
| "chain_messages xx h ((toks, mm) # bs) =
     (case hash_message toks h mm of Inl _ \<Rightarrow> []
      | Inr msg \<Rightarrow> msg # chain_messages xx (uint (xx msg)) bs)"

definition same_block :: "hashed_block \<Rightarrow> hashed_block \<Rightarrow> bool" where
  "same_block b c \<longleftrightarrow> fst b = fst c \<and> opt_dict_eq (snd b) (snd c)"

lemma chain_hash_snoc:
  "chain_hash xx h (bs @ [(toks, mm)]) = bind_res (chain_hash xx h bs) (\<lambda>h'. compute_hash xx toks h' mm)"
  by (induction xx h bs rule: chain_hash.induct)
     (auto simp: bind_res_def split: sum.splits)

lemma chain_messages_snoc:
  "chain_hash xx h bs = Inr h' \<Longrightarrow>
   chain_messages xx h (bs @ [(toks, mm)]) = chain_messages xx h bs @
     (case hash_message toks h' mm of Inl _ \<Rightarrow> [] | Inr msg \<Rightarrow> [msg])"
  by (induction xx h bs rule: chain_hash.induct)
     (auto simp: compute_hash_def res_simps split: sum.splits)

lemma chain_hash_nonneg: "chain_hash xx h bs = Inr h' \<Longrightarrow> bs \<noteq> [] \<Longrightarrow> 0 \<le> h'"
proof (induction xx h bs rule: chain_hash.induct)
  case (2 xx h toks mm bs)
  then show ?case by (cases bs) (auto simp: compute_hash_def res_simps)
qed simp

lemma chain_hash_prefix:
  assumes "chain_hash xx NO_BLOCK_HASH bs = Inr h" and "chain_hash xx NO_BLOCK_HASH cs = Inr h"
    and "inj_on xx (set (chain_messages xx NO_BLOCK_HASH bs) \<union> set (chain_messages xx NO_BLOCK_HASH cs))"
    and "list_all (\<lambda>(toks, mm). length toks = n \<and> mm_wf mm) (bs @ cs)"
  shows "list_all2 same_block bs cs"
  using assms
proof (induction bs arbitrary: cs h rule: rev_induct)
  case Nil
  then have "h = NO_BLOCK_HASH" by simp
  then have "cs = []" using Nil.prems(2) chain_hash_nonneg[of xx NO_BLOCK_HASH cs h]
    by (auto simp: NO_BLOCK_HASH_def)
  then show ?case by simp
next
  case (snoc b bs)
  obtain toks mm where b: "b = (toks, mm)" by (cases b)
  have "cs \<noteq> []"
    using snoc.prems(1,2) chain_hash_nonneg[of xx NO_BLOCK_HASH "bs @ [b]" h] by (auto simp: NO_BLOCK_HASH_def)
  then obtain cs' toks' mm' where c: "cs = cs' @ [(toks', mm')]" by (metis rev_exhaust surj_pair)
  from snoc.prems(1) obtain p msg where p: "chain_hash xx NO_BLOCK_HASH bs = Inr p"
      "hash_message toks p mm = Inr msg" "h = uint (xx msg)"
    by (auto simp: b chain_hash_snoc compute_hash_def res_simps)
  from snoc.prems(2) obtain p' msg' where p': "chain_hash xx NO_BLOCK_HASH cs' = Inr p'"
      "hash_message toks' p' mm' = Inr msg'" "h = uint (xx msg')"
    by (auto simp: c chain_hash_snoc compute_hash_def res_simps)
  have ms: "chain_messages xx NO_BLOCK_HASH (bs @ [b]) = chain_messages xx NO_BLOCK_HASH bs @ [msg]"
    "chain_messages xx NO_BLOCK_HASH cs = chain_messages xx NO_BLOCK_HASH cs' @ [msg']"
    using p p' by (simp_all add: b c chain_messages_snoc)
  have "xx msg = xx msg'" using p(3) p'(3) by (simp add: word_uint_eq_iff)
  then have "msg = msg'" by (rule inj_onD[OF snoc.prems(3)]) (simp_all add: ms)
  then have eq: "toks = toks' \<and> p = p' \<and> map_option map_of mm = map_option map_of mm'"
    using hash_message_inj[OF p(2)] p'(2) snoc.prems(4) by (auto simp: b c)
  have "list_all2 same_block bs cs'"
    using snoc.IH[of p cs'] p(1) p'(1) eq snoc.prems(3,4) ms by (auto simp: c intro: inj_on_subset)
  moreover have "same_block b (toks', mm')" using eq by (simp add: b same_block_def opt_dict_eq_iff)
  ultimately show ?case by (simp add: c list_all2_appendI)
qed

section \<open>Properties\<close>

text \<open>C31: when two chains of equally long blocks end in the same hash and xxHash has no collision
  among the messages hashed on the way, the chains have the same length and agree block by block
  in tokens and in media identities: a prefix hit stands for the whole left context.\<close>

theorem hash_chain_identifies_prefix:
  assumes "chain_hash xx NO_BLOCK_HASH bs = Inr h" and "chain_hash xx NO_BLOCK_HASH cs = Inr h"
    and "inj_on xx (set (chain_messages xx NO_BLOCK_HASH bs) \<union> set (chain_messages xx NO_BLOCK_HASH cs))"
    and "\<forall>(toks, mm) \<in> set (bs @ cs). length toks = n \<and> mm_wf mm"
  shows "length bs = length cs \<and> (\<forall>i < length bs. fst (bs ! i) = fst (cs ! i) \<and>
    opt_dict_eq (snd (bs ! i)) (snd (cs ! i)))"
proof -
  have "list_all2 same_block bs cs"
    using assms by (intro chain_hash_prefix[OF assms(1-3), of n]) (auto simp: list_all_iff)
  then show ?thesis by (auto simp: list_all2_conv_all_nth same_block_def)
qed

theorem hash_chain_identifies_prefix_witness:
  "opt_dict_eq (Some [(0::nat, 3), (1, 4)]) (Some [(1, 4), (0, 3::nat)])"
proof -
  let ?xx = "\<lambda>m. 7 :: 64 word"
  let ?b = "([5, 6], Some [(0, 3), (1, 4)])" and ?c = "([5, 6], Some [(1, 4), (0, 3)])"
  have m: "\<exists>msg. hash_message [5, 6] NO_BLOCK_HASH (Some [(0, 3), (1, 4)]) = Inr msg \<and>
      hash_message [5, 6] NO_BLOCK_HASH (Some [(1, 4), (0, 3)]) = Inr msg"
    by (simp add: hash_message_def int64_bytes_def to_bytes_def dict_get_def)
  then obtain msg where msg: "hash_message [5, 6] NO_BLOCK_HASH (Some [(0, 3), (1, 4)]) = Inr msg"
      "hash_message [5, 6] NO_BLOCK_HASH (Some [(1, 4), (0, 3)]) = Inr msg" by blast
  have "chain_hash ?xx NO_BLOCK_HASH [?b] = Inr 7" "chain_hash ?xx NO_BLOCK_HASH [?c] = Inr 7"
    using msg by (simp_all add: compute_hash_def)
  moreover have "inj_on ?xx (set (chain_messages ?xx NO_BLOCK_HASH [?b]) \<union>
      set (chain_messages ?xx NO_BLOCK_HASH [?c]))"
    using msg by simp
  ultimately show ?thesis
    using hash_chain_identifies_prefix[of ?xx "[?b]" 7 "[?c]" 2] by (simp add: mm_wf_def)
qed

end
