(* ===== verification/Prefix_Cache.thy ===== *)
theory Prefix_Cache imports Block_Hash Cpu_Pool Py_Floats "HOL-Library.Multiset" begin

text \<open>
  \<open>prism_infer/engine/block_manager.py\<close>, first half: the state of \<open>BlockManager\<close> and its
  multimodal prefix cache, whose entries own references to physical pages.  Modelled here:
  matching, the page demand of a hit, reclaimable pages, benefit-ordered eviction, the release of
  idle tail clones and \<open>_ensure_free_blocks\<close>.  The lemmas rest on the ownership invariant
  \<open>bm_inv own m\<close>: the reference count of every page is the number of its occurrences in
  sequence page tables (\<open>own\<close>) plus those in cache entries.
\<close>

section \<open>State\<close>

record cache_entry =
  en_key :: string
  en_tokens :: "int list"
  en_logical_len :: nat
  en_physical_len :: nat
  en_retained :: "int list"
  en_block_ids :: "nat list"
  en_kv_dtype :: string
  en_record :: py_record
  en_benefit :: nat
  en_hits :: nat
  en_tails :: "nat list"

record bm_counters =
  ct_pre_admission_hits :: nat
  ct_hydration_skips :: nat
  ct_stale_fallbacks :: nat
  ct_hits :: nat
  ct_misses :: nat
  ct_admissions :: nat
  ct_evictions :: nat
  ct_rejections :: nat
  ct_cow_copies :: nat
  ct_cow_rows :: nat
  ct_tail_hits :: nat
  ct_tail_admissions :: nat
  ct_tail_evictions :: nat
  ct_tail_reused_rows :: nat
  ct_probe_hits :: nat
  ct_reused_blocks :: nat
  ct_miss_blocks :: nat

definition zero_counters :: bm_counters where
  "zero_counters = \<lparr>ct_pre_admission_hits = 0, ct_hydration_skips = 0, ct_stale_fallbacks = 0,
     ct_hits = 0, ct_misses = 0, ct_admissions = 0, ct_evictions = 0, ct_rejections = 0,
     ct_cow_copies = 0, ct_cow_rows = 0, ct_tail_hits = 0, ct_tail_admissions = 0,
     ct_tail_evictions = 0, ct_tail_reused_rows = 0, ct_probe_hits = 0, ct_reused_blocks = 0,
     ct_miss_blocks = 0\<rparr>"

type_synonym cache = "(string \<times> cache_entry) list"

record manager =
  bm_block_size :: nat
  bm_enable_prefix :: bool
  bm_block_level :: bool
  bm_gpu :: gpu_pool
  bm_cpu :: cpu_pool
  bm_cache :: cache
  bm_cache_max :: nat
  bm_cache_blocks :: int
  bm_counters :: bm_counters

definition bm_init :: "int \<Rightarrow> int \<Rightarrow> int \<Rightarrow> bool \<Rightarrow> bool \<Rightarrow> py_error + manager" where
  "bm_init num_blocks block_size num_cpu_blocks enable_prefix block_level =
     need ValueError (0 < block_size)
    (bind_res (gpu_init num_blocks block_level) (\<lambda>gpu.
     bind_res (cpu_init num_cpu_blocks) (\<lambda>cpu.
     Inr \<lparr>bm_block_size = nat block_size, bm_enable_prefix = enable_prefix,
          bm_block_level = block_level, bm_gpu = gpu, bm_cpu = cpu, bm_cache = [],
          bm_cache_max = nat num_blocks, bm_cache_blocks = 0, bm_counters = zero_counters\<rparr>)))"

definition en_pages :: "cache_entry \<Rightarrow> nat list" where
  "en_pages e = en_block_ids e @ en_tails e"

definition en_resident :: "cache_entry \<Rightarrow> nat" where
  "en_resident e = length (en_block_ids e) + length (en_tails e)"

definition en_benefit_per_block :: "cache_entry \<Rightarrow> rat" where
  "en_benefit_per_block e = fl (of_nat (en_benefit e * (1 + en_hits e)) / of_nat (en_resident e))"

definition on_gpu :: "('a, gpu_pool) op \<Rightarrow> ('a, manager) op" where
  "on_gpu = zoom bm_gpu (\<lambda>p m. m\<lparr>bm_gpu := p\<rparr>)"

definition on_cpu :: "('a, cpu_pool) op \<Rightarrow> ('a, manager) op" where
  "on_cpu = zoom bm_cpu (\<lambda>p m. m\<lparr>bm_cpu := p\<rparr>)"

definition bump :: "(bm_counters \<Rightarrow> bm_counters) \<Rightarrow> (unit, manager) op" where
  "bump f = upd (\<lambda>m. m\<lparr>bm_counters := f (bm_counters m)\<rparr>)"

text \<open>Ordered dictionary operations: \<open>pop\<close>, \<open>move_to_end\<close> and in-place update.\<close>

definition od_pop :: "string \<Rightarrow> cache \<Rightarrow> cache" where
  "od_pop k c = filter (\<lambda>(k', _). k' \<noteq> k) c"

definition od_move_to_end :: "string \<Rightarrow> cache \<Rightarrow> cache" where
  "od_move_to_end k c = (case map_of c k of None \<Rightarrow> c | Some e \<Rightarrow> od_pop k c @ [(k, e)])"

definition od_modify :: "string \<Rightarrow> (cache_entry \<Rightarrow> cache_entry) \<Rightarrow> cache \<Rightarrow> cache" where
  "od_modify k f c = map (\<lambda>(k', e). (k', if k' = k then f e else e)) c"

section \<open>Matching\<close>

definition mm_cache_id :: "string \<Rightarrow> int list \<Rightarrow> py_error + string" where
  "mm_cache_id media_key tokens =
     bind_res (int64s_bytes tokens) (\<lambda>bs.
     Inr (media_key @ '':'' @ dec_digits (length tokens) @ '':'' @ hex_text (sha256 bs)))"

definition bm_hashable :: "manager \<Rightarrow> sequence \<Rightarrow> bool" where
  "bm_hashable m s =
    (if \<not> sq_is_multimodal s then True
     else if \<not> (bm_block_level m \<and> sq_media_token_hashes s \<noteq> None) then False
     else if sq_pixel_values_videos s \<noteq> None \<or> sq_video_grid_thw s \<noteq> None then False
     else (case (sq_image_token_spans s, sq_media_token_hashes s) of
         (Some spans, Some hashes) \<Rightarrow> length spans = length hashes
       | _ \<Rightarrow> False))"

definition bm_matching :: "sequence \<Rightarrow> manager \<Rightarrow> py_error + (string \<times> cache_entry) option" where
  "bm_matching s m =
    (if \<not> bm_enable_prefix m then Inr None
     else (case (sq_mm_prefix_cache_key s, sq_mm_prefix_boundary s) of
         (Some media_key, Some boundary) \<Rightarrow>
           (let prompt_prefix = take boundary (sq_prompt_token_ids s) in
            bind_res (mm_cache_id media_key prompt_prefix) (\<lambda>cache_id.
            case map_of (bm_cache m) cache_id of
              None \<Rightarrow> Inr None
            | Some e \<Rightarrow> need RuntimeError
                (en_key e = media_key \<and> en_logical_len e = boundary \<and> en_tokens e = prompt_prefix)
                (Inr (Some (cache_id, e)))))
       | _ \<Rightarrow> Inr None))"

definition bm_has_idle_tail :: "manager \<Rightarrow> cache_entry \<Rightarrow> bool" where
  "bm_has_idle_tail m e = list_ex (\<lambda>b. gp_ref (bm_gpu m) b = 1) (en_tails e)"

definition bm_final_blocks :: "manager \<Rightarrow> sequence \<Rightarrow> cache_entry \<Rightarrow> nat" where
  "bm_final_blocks m s e =
     ceil_div (en_physical_len e + (sq_num_prompt_tokens s - en_logical_len e)) (bm_block_size m)"

definition bm_required_for_hit :: "sequence \<Rightarrow> cache_entry \<Rightarrow> manager \<Rightarrow> int" where
  "bm_required_for_hit s e m =
     int (bm_final_blocks m s e) - int (length (en_block_ids e)) +
     (if en_physical_len e mod bm_block_size m \<noteq> 0 \<and> \<not> bm_has_idle_tail m e then 1 else 0)"

section \<open>Reclaiming pages\<close>

definition protected :: "string option \<Rightarrow> string \<Rightarrow> bool" where
  "protected prot k = (prot = Some k)"

text \<open>The pages referenced by the unprotected entries, with multiplicity.\<close>

definition cache_pages :: "string option \<Rightarrow> cache \<Rightarrow> nat list" where
  "cache_pages prot c = concat (map (\<lambda>(k, e). if protected prot k then [] else en_pages e) c)"

definition bm_reclaimable :: "string option \<Rightarrow> manager \<Rightarrow> nat" where
  "bm_reclaimable prot m = (let refs = cache_pages prot (bm_cache m) in
     length (filter (\<lambda>b. gp_ref (bm_gpu m) b = int (count_list refs b)) (remdups refs)))"

text \<open>\<open>min(candidates)\<close>: the smallest benefit, the oldest entry among equals.\<close>

fun min_benefit :: "cache \<Rightarrow> (rat \<times> string) option" where
  "min_benefit [] = None"
| "min_benefit ((k, e) # c) = (case min_benefit c of
      None \<Rightarrow> Some (en_benefit_per_block e, k)
    | Some (x, k') \<Rightarrow> if en_benefit_per_block e \<le> x then Some (en_benefit_per_block e, k) else Some (x, k'))"

definition bm_eviction_candidate :: "string option \<Rightarrow> manager \<Rightarrow> string option" where
  "bm_eviction_candidate prot m =
     map_option snd (min_benefit (filter (\<lambda>(k, _). \<not> protected prot k) (bm_cache m)))"

definition bm_release_pages :: "nat list \<Rightarrow> (unit, manager) op" where
  "bm_release_pages ids = each ids (\<lambda>b. thn (on_gpu (gp_release b)) (ret ()))"

definition bm_evict :: "string \<Rightarrow> (unit, manager) op" where
  "bm_evict k = bnd (gets (\<lambda>m. map_of (bm_cache m) k)) (\<lambda>x. case x of
      None \<Rightarrow> throw KeyError
    | Some e \<Rightarrow>
        thn (upd (\<lambda>m. m\<lparr>bm_cache := od_pop k (bm_cache m)\<rparr>))
       (thn (bm_release_pages (en_pages e))
       (thn (upd (\<lambda>m. m\<lparr>bm_cache_blocks := bm_cache_blocks m - int (en_resident e)\<rparr>))
            (bump (\<lambda>c. c\<lparr>ct_evictions := ct_evictions c + 1\<rparr>)))))"

fun find_idle_tail :: "gpu_pool \<Rightarrow> string option \<Rightarrow> cache \<Rightarrow> (string \<times> nat) option" where
  "find_idle_tail p prot [] = None"
| "find_idle_tail p prot ((k, e) # c) =
     (if protected prot k then find_idle_tail p prot c
      else (case List.find (\<lambda>b. gp_ref p b = 1) (en_tails e) of
          Some b \<Rightarrow> Some (k, b)
        | None \<Rightarrow> find_idle_tail p prot c))"

definition bm_drop_idle_tail :: "string option \<Rightarrow> (bool, manager) op" where
  "bm_drop_idle_tail prot = bnd (gets (\<lambda>m. find_idle_tail (bm_gpu m) prot (bm_cache m))) (\<lambda>x. case x of
      None \<Rightarrow> ret False
    | Some (k, b) \<Rightarrow>
        thn (upd (\<lambda>m. m\<lparr>bm_cache := od_modify k (\<lambda>e. e\<lparr>en_tails := remove1 b (en_tails e)\<rparr>) (bm_cache m)\<rparr>))
       (thn (on_gpu (gp_release b))
       (thn (upd (\<lambda>m. m\<lparr>bm_cache_blocks := bm_cache_blocks m - 1\<rparr>))
       (thn (bump (\<lambda>c. c\<lparr>ct_tail_evictions := ct_tail_evictions c + 1\<rparr>))
            (ret True)))))"

text \<open>What every turn of the eviction loop makes smaller.\<close>

definition cache_weight :: "cache \<Rightarrow> nat" where
  "cache_weight c = sum_list (map (\<lambda>(k, e). Suc (length (en_tails e))) c)"

lemma wp_on_gpu [wp_simps]:
  "wp (on_gpu g) Q E m = wp g (\<lambda>x p. Q x (m\<lparr>bm_gpu := p\<rparr>)) (\<lambda>e p. E e (m\<lparr>bm_gpu := p\<rparr>)) (bm_gpu m)"
  by (simp add: on_gpu_def wp_simps)

lemma wp_on_cpu [wp_simps]:
  "wp (on_cpu g) Q E m = wp g (\<lambda>x p. Q x (m\<lparr>bm_cpu := p\<rparr>)) (\<lambda>e p. E e (m\<lparr>bm_cpu := p\<rparr>)) (bm_cpu m)"
  by (simp add: on_cpu_def wp_simps)

lemma wp_bump [wp_simps]:
  "wp (bump f) Q E m = Q () (m\<lparr>bm_counters := f (bm_counters m)\<rparr>)"
  "wp (bump f) Q E = (\<lambda>m. Q () (m\<lparr>bm_counters := f (bm_counters m)\<rparr>))"
  by (simp_all add: bump_def wp_simps)

lemma wp_true: "wp m (\<lambda>_ _. True) (\<lambda>_ _. True) s"
  by (auto simp: wp_def split: prod.split sum.split)

lemma release_pages_cache:
  "wp (bm_release_pages ids) (\<lambda>_ t. bm_cache t = bm_cache m) (\<lambda>_ t. bm_cache t = bm_cache m) m"
proof (induction ids arbitrary: m)
  case (Cons b ids)
  have IH: "wp (bm_release_pages ids) (\<lambda>_ t. bm_cache t = bm_cache m) (\<lambda>_ t. bm_cache t = bm_cache m)
      (m\<lparr>bm_gpu := p\<rparr>)" for p using Cons.IH[of "m\<lparr>bm_gpu := p\<rparr>"] by simp
  show ?case unfolding bm_release_pages_def each.simps wp_simps
    by (rule wp_mono[OF wp_true]) (use IH in \<open>simp_all add: bm_release_pages_def\<close>)
qed (simp add: bm_release_pages_def wp_simps)

lemma cache_weight_pop:
  "map_of c k = Some e \<Longrightarrow> cache_weight (od_pop k c) < cache_weight c"
proof (induction c)
  case (Cons a c)
  have le: "cache_weight (od_pop k c) \<le> cache_weight c" for c
    by (induction c) (auto simp: cache_weight_def od_pop_def)
  show ?case using Cons le[of c] by (cases a) (auto simp: cache_weight_def od_pop_def split: if_splits)
qed simp

lemma find_idle_tail_facts:
  "find_idle_tail p prot c = Some (k, b) \<Longrightarrow>
   \<exists>e. (k, e) \<in> set c \<and> b \<in> set (en_tails e) \<and> gp_ref p b = 1 \<and> \<not> protected prot k"
  by (induction p prot c rule: find_idle_tail.induct)
     (auto simp: find_Some_iff split: if_splits option.splits)

lemma cache_weight_drop:
  "(k, e) \<in> set c \<Longrightarrow> b \<in> set (en_tails e) \<Longrightarrow>
   cache_weight (od_modify k (\<lambda>e. e\<lparr>en_tails := remove1 b (en_tails e)\<rparr>) c) < cache_weight c"
proof (induction c)
  case (Cons a c)
  have le: "cache_weight (od_modify k (\<lambda>e. e\<lparr>en_tails := remove1 b (en_tails e)\<rparr>) c) \<le> cache_weight c" for c
    by (induction c) (auto simp: cache_weight_def od_modify_def length_remove1)
  have pos: "b \<in> set xs \<Longrightarrow> length (remove1 b xs) < length xs" for xs :: "nat list"
    using length_pos_if_in_set[of b xs] by (simp add: length_remove1)
  show ?case using Cons le[of c] pos[of "en_tails e"] length_remove1[of b]
    by (cases a) (auto simp: cache_weight_def od_modify_def)
qed simp

lemma evict_weight:
  "bm_evict k m = (Inr (), t) \<Longrightarrow> cache_weight (bm_cache t) < cache_weight (bm_cache m)"
proof -
  assume r: "bm_evict k m = (Inr (), t)"
  have "wp (bm_evict k) (\<lambda>_ t. cache_weight (bm_cache t) < cache_weight (bm_cache m)) (\<lambda>_ _. True) m"
  proof (cases "map_of (bm_cache m) k")
    case (Some e)
    let ?n = "m\<lparr>bm_cache := od_pop k (bm_cache m)\<rparr>"
    have "wp (bm_release_pages (en_pages e)) (\<lambda>_ t. cache_weight (bm_cache t) < cache_weight (bm_cache m))
        (\<lambda>_ _. True) ?n"
      by (rule wp_mono[OF release_pages_cache]) (use cache_weight_pop[OF Some] in simp_all)
    then show ?thesis using Some by (simp add: bm_evict_def wp_simps)
  qed (simp add: bm_evict_def wp_simps)
  from wp_okD[OF this r] show ?thesis .
qed

lemma drop_weight:
  assumes "bm_drop_idle_tail prot m = (Inr True, t)"
  shows "cache_weight (bm_cache t) < cache_weight (bm_cache m)"
proof -
  have "wp (bm_drop_idle_tail prot) (\<lambda>r t. r \<longrightarrow> cache_weight (bm_cache t) < cache_weight (bm_cache m))
      (\<lambda>_ _. True) m"
  proof (cases "find_idle_tail (bm_gpu m) prot (bm_cache m)")
    case (Some x)
    obtain k b where x: "x = (k, b)" by (cases x)
    obtain e where "(k, e) \<in> set (bm_cache m)" "b \<in> set (en_tails e)"
      using find_idle_tail_facts Some x by blast
    from cache_weight_drop[OF this] show ?thesis
      unfolding bm_drop_idle_tail_def wp_simps Some x option.case prod.case
      by (intro wp_mono[OF wp_true]) simp_all
  qed (simp add: bm_drop_idle_tail_def wp_simps)
  from wp_okD[OF this assms] show ?thesis by simp
qed

lemma drop_false: "bm_drop_idle_tail prot m = (Inr False, t) \<Longrightarrow> t = m"
proof -
  assume r: "bm_drop_idle_tail prot m = (Inr False, t)"
  have "wp (bm_drop_idle_tail prot) (\<lambda>r t. \<not> r \<longrightarrow> t = m) (\<lambda>_ _. True) m"
    unfolding bm_drop_idle_tail_def wp_simps
    by (auto simp: wp_simps split: option.split intro!: wp_mono[OF wp_true])
  from wp_okD[OF this r] show "t = m" by simp
qed

function bm_ensure_loop :: "int \<Rightarrow> string option \<Rightarrow> (unit, manager) op" where
  "bm_ensure_loop required prot m =
    (if required \<le> int (gp_free_count (bm_gpu m)) then (Inr (), m)
     else (case bm_drop_idle_tail prot m of
        (Inl e, t) \<Rightarrow> (Inl e, t)
      | (Inr True, t) \<Rightarrow> bm_ensure_loop required prot t
      | (Inr False, t) \<Rightarrow> (case bm_eviction_candidate prot t of
            None \<Rightarrow> (Inr (), t)
          | Some k \<Rightarrow> (case bm_evict k t of
                (Inl e, u) \<Rightarrow> (Inl e, u)
              | (Inr _, u) \<Rightarrow> bm_ensure_loop required prot u))))"
  by pat_completeness auto
termination
  by (relation "measure (\<lambda>(_, _, m). cache_weight (bm_cache m))")
    (auto dest!: drop_weight[OF sym] evict_weight[OF sym] drop_false[OF sym])

declare bm_ensure_loop.simps [simp del]

definition bm_ensure_free :: "int \<Rightarrow> string option \<Rightarrow> (unit, manager) op" where
  "bm_ensure_free required prot =
     thn (bm_ensure_loop required prot)
    (bnd (gets (\<lambda>m. gp_free_count (bm_gpu m))) (\<lambda>f.
     chk RuntimeError (required \<le> int f)))"

section \<open>Ownership of pages\<close>

definition keys :: "cache \<Rightarrow> string list" where
  "keys c = map fst c"

definition entry_wf :: "nat \<Rightarrow> string \<Rightarrow> cache_entry \<Rightarrow> bool" where
  "entry_wf bs k e \<longleftrightarrow> mm_cache_id (en_key e) (en_tokens e) = Inr k \<and>
     en_logical_len e = length (en_tokens e) \<and> 0 < en_physical_len e \<and>
     length (en_block_ids e) = ceil_div (en_physical_len e) bs \<and>
     length (en_retained e) = en_physical_len e \<and> sorted_wrt (<) (en_retained e) \<and>
     set (en_retained e) \<subseteq> {0..<int (en_logical_len e)} \<and> en_kv_dtype e \<noteq> []"

definition cache_ok :: "manager \<Rightarrow> bool" where
  "cache_ok m \<longleftrightarrow> distinct (keys (bm_cache m)) \<and> 0 < bm_block_size m \<and>
     bm_cache_blocks m = int (length (cache_pages None (bm_cache m))) \<and> bm_cache_blocks m \<le> int (bm_cache_max m) \<and>
     (\<forall>(k, e) \<in> set (bm_cache m). entry_wf (bm_block_size m) k e)"

definition refs_ok :: "(nat \<Rightarrow> nat) \<Rightarrow> manager \<Rightarrow> bool" where
  "refs_ok own m \<longleftrightarrow> gpu_inv (bm_gpu m) \<and>
     (\<forall>b. int (own b + count_list (cache_pages None (bm_cache m)) b) =
          (if b < gp_capacity (bm_gpu m) then gp_ref (bm_gpu m) b else 0))"

definition bm_inv :: "(nat \<Rightarrow> nat) \<Rightarrow> manager \<Rightarrow> bool" where
  "bm_inv own m \<longleftrightarrow> refs_ok own m \<and> cache_ok m"

text \<open>What the manager keeps in every operation: its configuration and the pool's.\<close>

definition same_config :: "manager \<Rightarrow> manager \<Rightarrow> bool" where
  "same_config m t \<longleftrightarrow> bm_block_size t = bm_block_size m \<and> bm_enable_prefix t = bm_enable_prefix m \<and>
     bm_block_level t = bm_block_level m \<and> bm_cpu t = bm_cpu m \<and> bm_cache_max t = bm_cache_max m \<and>
     gp_capacity (bm_gpu t) = gp_capacity (bm_gpu m) \<and> gp_retain (bm_gpu t) = gp_retain (bm_gpu m)"

lemma same_config_refl [simp]: "same_config m m"
  by (simp add: same_config_def)

lemma same_config_trans: "same_config m t \<Longrightarrow> same_config t u \<Longrightarrow> same_config m u"
  by (simp add: same_config_def)

subsection \<open>Pages of a cache\<close>

lemma cache_pages_simps [simp]:
  "cache_pages prot [] = []"
  "cache_pages prot ((k, e) # c) = (if protected prot k then [] else en_pages e) @ cache_pages prot c"
  "cache_pages prot (c @ c') = cache_pages prot c @ cache_pages prot c'"
  by (simp_all add: cache_pages_def)

lemma protected_None [simp]: "\<not> protected None k"
  by (simp add: protected_def)

lemma od_pop_simps [simp]:
  "od_pop k [] = []" "od_pop k ((k', e) # c) = (if k' = k then od_pop k c else (k', e) # od_pop k c)"
  by (simp_all add: od_pop_def)

lemma od_modify_simps [simp]:
  "od_modify k f [] = []"
  "od_modify k f ((k', e) # c) = (k', if k' = k then f e else e) # od_modify k f c"
  by (simp_all add: od_modify_def)

lemma od_pop_absent: "k \<notin> set (keys c) \<Longrightarrow> od_pop k c = c"
  by (induction c) (auto simp: keys_def)

lemma set_od_pop: "set (od_pop k c) = {x \<in> set c. fst x \<noteq> k}"
  by (auto simp: od_pop_def)

lemma keys_od_pop: "keys (od_pop k c) = filter (\<lambda>k'. k' \<noteq> k) (keys c)"
  by (induction c) (auto simp: keys_def)

lemma keys_od_modify [simp]: "keys (od_modify k f c) = keys c"
  by (induction c) (auto simp: keys_def)

lemma od_pop_modify [simp]: "od_pop k (od_modify k f c) = od_pop k c"
  by (induction c) auto

lemma map_of_modify [simp]:
  "map_of (od_modify k f c) k' = (if k' = k then map_option f (map_of c k) else map_of c k')"
  by (induction c) auto

lemma map_of_pop [simp]: "map_of (od_pop k c) k' = (if k' = k then None else map_of c k')"
  by (induction c) auto

lemma pages_split:
  "distinct (keys c) \<Longrightarrow> map_of c k = Some e \<Longrightarrow>
   mset (cache_pages None c) = mset (en_pages e) + mset (cache_pages None (od_pop k c))"
proof (induction c)
  case (Cons a c)
  obtain k' e' where a: "a = (k', e')" by (cases a)
  show ?case
  proof (cases "k' = k")
    case True
    then have "od_pop k c = c" using Cons.prems a by (intro od_pop_absent) (simp add: keys_def)
    then show ?thesis using True Cons.prems a by simp
  next
    case False
    then show ?thesis using Cons a by (simp add: keys_def)
  qed
qed simp

lemma pages_move_to_end:
  "distinct (keys c) \<Longrightarrow> mset (cache_pages None (od_move_to_end k c)) = mset (cache_pages None c)"
  by (cases "map_of c k") (simp_all add: od_move_to_end_def pages_split)

lemma mset_count_list: "mset xs = mset ys \<Longrightarrow> count_list xs x = count_list ys x"
  by (metis count_mset)

lemma count_list_mset_add: "mset xs = mset ys + mset zs \<Longrightarrow> count_list xs x = count_list ys x + count_list zs x"
  by (metis count_list_append mset_append mset_count_list)

definition kept_pages :: "string option \<Rightarrow> cache \<Rightarrow> nat list" where
  "kept_pages prot c = (case prot of None \<Rightarrow> [] | Some k \<Rightarrow>
     (case map_of c k of None \<Rightarrow> [] | Some e \<Rightarrow> en_pages e))"

lemma cache_pages_protected: "cache_pages (Some k) c = cache_pages None (od_pop k c)"
  by (induction c) (auto simp: protected_def)

lemma pages_kept:
  assumes "distinct (keys c)"
  shows "count_list (cache_pages None c) x = count_list (cache_pages prot c) x + count_list (kept_pages prot c) x"
proof (cases prot)
  case (Some k)
  show ?thesis
  proof (cases "map_of c k")
    case None
    then have "k \<notin> set (keys c)" by (auto simp: keys_def map_of_eq_None_iff)
    then show ?thesis using Some None by (simp add: kept_pages_def cache_pages_protected od_pop_absent)
  next
    case e: (Some e)
    show ?thesis
      using count_list_mset_add[OF pages_split[OF assms e], of x] Some e
      by (simp add: kept_pages_def cache_pages_protected)
  qed
qed (simp add: kept_pages_def)

lemma kept_pages_subset: "set (kept_pages prot c) \<subseteq> set (cache_pages None c)"
proof -
  have "(k, e) \<in> set c \<Longrightarrow> set (en_pages e) \<subseteq> set (cache_pages None c)" for k e
    by (induction c) auto
  then show ?thesis by (auto simp: kept_pages_def dest!: map_of_SomeD[OF sym] split: option.splits)
qed

subsection \<open>How many pages can be had\<close>

definition obtainable :: "(nat \<Rightarrow> nat) \<Rightarrow> string option \<Rightarrow> manager \<Rightarrow> nat set" where
  "obtainable own prot m =
     {b. b < gp_capacity (bm_gpu m) \<and> own b = 0 \<and> b \<notin> set (kept_pages prot (bm_cache m))}"

lemma finite_obtainable [simp]: "finite (obtainable own prot m)"
  by (simp add: obtainable_def)

lemma refs_okD:
  assumes "refs_ok own m"
  shows "gpu_inv (bm_gpu m)"
    and "b < gp_capacity (bm_gpu m) \<Longrightarrow>
      gp_ref (bm_gpu m) b = int (own b + count_list (cache_pages None (bm_cache m)) b)"
    and "\<not> b < gp_capacity (bm_gpu m) \<Longrightarrow> own b = 0"
    and "\<not> b < gp_capacity (bm_gpu m) \<Longrightarrow> b \<notin> set (cache_pages None (bm_cache m))"
proof -
  have eq: "int (own b + count_list (cache_pages None (bm_cache m)) b) =
      (if b < gp_capacity (bm_gpu m) then gp_ref (bm_gpu m) b else 0)"
    using assms by (simp add: refs_ok_def)
  show "gpu_inv (bm_gpu m)" using assms by (simp add: refs_ok_def)
  show "b < gp_capacity (bm_gpu m) \<Longrightarrow>
      gp_ref (bm_gpu m) b = int (own b + count_list (cache_pages None (bm_cache m)) b)"
    using eq by simp
  show "\<not> b < gp_capacity (bm_gpu m) \<Longrightarrow> own b = 0" using eq by simp
  show "\<not> b < gp_capacity (bm_gpu m) \<Longrightarrow> b \<notin> set (cache_pages None (bm_cache m))"
  proof -
    assume "\<not> b < gp_capacity (bm_gpu m)"
    then have "count_list (cache_pages None (bm_cache m)) b = 0" using eq by simp
    then show ?thesis by (simp add: count_list_0_iff)
  qed
qed

lemma free_count_owned:
  assumes "refs_ok own m"
  shows "gp_free_count (bm_gpu m) = card {b. b < gp_capacity (bm_gpu m) \<and> own b = 0 \<and>
    b \<notin> set (cache_pages None (bm_cache m))}"
proof -
  have "gp_ref (bm_gpu m) b = 0 \<longleftrightarrow> own b = 0 \<and> b \<notin> set (cache_pages None (bm_cache m))"
    if "b < gp_capacity (bm_gpu m)" for b
    unfolding refs_okD(2)[OF assms that] using count_list_0_iff[of "cache_pages None (bm_cache m)" b] by linarith
  then have "{b. b < gp_capacity (bm_gpu m) \<and> gp_ref (bm_gpu m) b = 0} =
      {b. b < gp_capacity (bm_gpu m) \<and> own b = 0 \<and> b \<notin> set (cache_pages None (bm_cache m))}" by blast
  then show ?thesis using gpu_free_count[OF refs_okD(1)[OF assms]] by simp
qed

lemma free_plus_reclaimable:
  assumes "refs_ok own m" and "distinct (keys (bm_cache m))"
  shows "gp_free_count (bm_gpu m) + bm_reclaimable prot m = card (obtainable own prot m)"
proof -
  let ?c = "bm_cache m" and ?cap = "gp_capacity (bm_gpu m)"
  let ?F = "{b. b < ?cap \<and> own b = 0 \<and> b \<notin> set (cache_pages None ?c)}"
  let ?R = "{b \<in> set (cache_pages prot ?c). gp_ref (bm_gpu m) b = int (count_list (cache_pages prot ?c) b)}"
  have split: "count_list (cache_pages None ?c) b = count_list (cache_pages prot ?c) b + count_list (kept_pages prot ?c) b" for b
    by (rule pages_kept[OF assms(2)])
  have mem: "b \<in> set (cache_pages None ?c) \<longleftrightarrow> b \<in> set (cache_pages prot ?c) \<or> b \<in> set (kept_pages prot ?c)" for b
    using split[of b] by (metis add_eq_0_iff_both_eq_0 count_list_0_iff)
  have cap: "b < ?cap" if "b \<in> set (cache_pages prot ?c)" for b
    using refs_okD(4)[OF assms(1), of b] mem that by blast
  have "?R = {b. b < ?cap \<and> own b = 0 \<and> b \<notin> set (kept_pages prot ?c) \<and> b \<in> set (cache_pages prot ?c)}"
  proof -
    have "gp_ref (bm_gpu m) b = int (count_list (cache_pages prot ?c) b) \<longleftrightarrow>
        own b = 0 \<and> b \<notin> set (kept_pages prot ?c)" if "b < ?cap" for b
      unfolding refs_okD(2)[OF assms(1) that] split
      using count_list_0_iff[of "kept_pages prot ?c" b] by linarith
    then show ?thesis using cap by blast
  qed
  then have "obtainable own prot m = ?F \<union> ?R" and dis: "?F \<inter> ?R = {}"
    using mem by (auto simp: obtainable_def)
  moreover have "bm_reclaimable prot m = card ?R"
  proof -
    have "set (filter (\<lambda>b. gp_ref (bm_gpu m) b = int (count_list (cache_pages prot ?c) b)) (remdups (cache_pages prot ?c))) = ?R"
      by auto
    then show ?thesis unfolding bm_reclaimable_def Let_def
      by (metis distinct_card distinct_filter distinct_remdups)
  qed
  ultimately show ?thesis
    using free_count_owned[OF assms(1)] card_Un_disjoint[of ?F ?R] by simp
qed

subsection \<open>Reference operations\<close>

lemma ref_pos_used: "gpu_inv p \<Longrightarrow> i < gp_capacity p \<Longrightarrow> 0 < gp_ref p i \<Longrightarrow> i \<in> gp_used p"
  using gpu_invD(4)[of p] gpu_inv_free_ref[of p i] by auto

lemma refs_ok_gpu:
  assumes "refs_ok own m" and "pool_step (bm_gpu m) p"
    and "\<And>b. b < gp_capacity p \<Longrightarrow> gp_ref p b = gp_ref (bm_gpu m) b + int (own' b) - int (own b)"
    and "\<And>b. \<not> b < gp_capacity p \<Longrightarrow> own' b = own b"
  shows "refs_ok own' (m\<lparr>bm_gpu := p\<rparr>)" and "same_config m (m\<lparr>bm_gpu := p\<rparr>)"
proof -
  have cap: "gp_capacity p = gp_capacity (bm_gpu m)" and inv: "gpu_inv p"
    using assms(2) by (simp_all add: pool_step_def)
  have "int (own' b + count_list (cache_pages None (bm_cache m)) b) = (if b < gp_capacity p then gp_ref p b else 0)" for b
  proof (cases "b < gp_capacity p")
    case True
    then show ?thesis using assms(3)[OF True] refs_okD(2)[OF assms(1), of b] cap by simp
  next
    case False
    then show ?thesis using assms(4)[OF False] assms(1) cap by (simp add: refs_ok_def)
  qed
  then show "refs_ok own' (m\<lparr>bm_gpu := p\<rparr>)" using inv by (simp add: refs_ok_def)
  show "same_config m (m\<lparr>bm_gpu := p\<rparr>)" using assms(2) by (simp add: same_config_def pool_step_def)
qed

lemma wp_release_owned:
  assumes "refs_ok own m" and pos: "0 < own b"
    and ok: "\<And>r p. release_post (bm_gpu m) b r p \<Longrightarrow> refs_ok (own(b := own b - 1)) (m\<lparr>bm_gpu := p\<rparr>) \<Longrightarrow>
      same_config m (m\<lparr>bm_gpu := p\<rparr>) \<Longrightarrow> Q r (m\<lparr>bm_gpu := p\<rparr>)"
  shows "wp (on_gpu (gp_release b)) Q E m"
proof -
  have lt: "b < gp_capacity (bm_gpu m)" using refs_okD(3)[OF assms(1), of b] pos by (cases "b < gp_capacity (bm_gpu m)") auto
  have rpos: "0 < gp_ref (bm_gpu m) b" using refs_okD(2)[OF assms(1) lt] pos by simp
  have u: "b \<in> gp_used (bm_gpu m)" by (rule ref_pos_used[OF refs_okD(1)[OF assms(1)] lt rpos])
  show ?thesis unfolding wp_on_gpu
  proof (rule wp_gp_release[OF refs_okD(1)[OF assms(1)] u rpos])
    fix r p assume post: "release_post (bm_gpu m) b r p"
    then have step: "pool_step (bm_gpu m) p" and ref: "gp_ref p = (gp_ref (bm_gpu m))(b := gp_ref (bm_gpu m) b - 1)"
      by (simp_all add: release_post_def)
    have "refs_ok (own(b := own b - 1)) (m\<lparr>bm_gpu := p\<rparr>)" "same_config m (m\<lparr>bm_gpu := p\<rparr>)"
      using refs_ok_gpu[OF assms(1) step, of "own(b := own b - 1)"] ref pos lt step
      by (auto simp: pool_step_def)
    then show "Q r (m\<lparr>bm_gpu := p\<rparr>)" using ok post by blast
  qed
qed

lemma wp_retain_owned:
  assumes "refs_ok own m" and u: "b \<in> gp_used (bm_gpu m)"
    and ok: "\<And>p. retain_post (bm_gpu m) b p \<Longrightarrow> refs_ok (own(b := own b + 1)) (m\<lparr>bm_gpu := p\<rparr>) \<Longrightarrow>
      same_config m (m\<lparr>bm_gpu := p\<rparr>) \<Longrightarrow> Q b (m\<lparr>bm_gpu := p\<rparr>)"
  shows "wp (on_gpu (gp_retain_ref b)) Q E m"
  unfolding wp_on_gpu
proof (rule wp_gp_retain[OF refs_okD(1)[OF assms(1)] u])
  fix p assume post: "retain_post (bm_gpu m) b p"
  then have step: "pool_step (bm_gpu m) p" and ref: "gp_ref p = (gp_ref (bm_gpu m))(b := gp_ref (bm_gpu m) b + 1)"
    by (simp_all add: retain_post_def)
  have lt: "b < gp_capacity (bm_gpu m)" using gpu_invD(3)[OF refs_okD(1)[OF assms(1)] u] .
  have "refs_ok (own(b := own b + 1)) (m\<lparr>bm_gpu := p\<rparr>)" "same_config m (m\<lparr>bm_gpu := p\<rparr>)"
    using refs_ok_gpu[OF assms(1) step, of "own(b := own b + 1)"] ref lt step by (auto simp: pool_step_def)
  then show "Q b (m\<lparr>bm_gpu := p\<rparr>)" using ok post by blast
qed

lemma owned_used:
  assumes "refs_ok own m" and "0 < own b \<or> b \<in> set (cache_pages None (bm_cache m))"
  shows "b \<in> gp_used (bm_gpu m)" and "b < gp_capacity (bm_gpu m)"
proof -
  show lt: "b < gp_capacity (bm_gpu m)" using refs_okD(3,4)[OF assms(1), of b] assms(2) by (metis less_numeral_extra(3))
  have "0 < own b + count_list (cache_pages None (bm_cache m)) b"
    using assms(2) count_list_pos_iff[of "cache_pages None (bm_cache m)" b] by auto
  then have "0 < gp_ref (bm_gpu m) b" unfolding refs_okD(2)[OF assms(1) lt] by linarith
  then show "b \<in> gp_used (bm_gpu m)" by (rule ref_pos_used[OF refs_okD(1)[OF assms(1)] lt])
qed

lemma wp_alloc_owned:
  assumes "refs_ok own m"
    and ok: "\<And>b p. alloc_post (bm_gpu m) b p \<Longrightarrow> own b = 0 \<Longrightarrow> b \<notin> set (cache_pages None (bm_cache m)) \<Longrightarrow>
      refs_ok (own(b := own b + 1)) (m\<lparr>bm_gpu := p\<rparr>) \<Longrightarrow> same_config m (m\<lparr>bm_gpu := p\<rparr>) \<Longrightarrow>
      gp_free_count (bm_gpu m) = Suc (gp_free_count p) \<Longrightarrow> Q b (m\<lparr>bm_gpu := p\<rparr>)"
    and full: "\<And>p. gp_free_count (bm_gpu m) = 0 \<Longrightarrow> refs_ok own (m\<lparr>bm_gpu := p\<rparr>) \<Longrightarrow>
      same_config m (m\<lparr>bm_gpu := p\<rparr>) \<Longrightarrow> E RuntimeError (m\<lparr>bm_gpu := p\<rparr>)"
  shows "wp (on_gpu gp_allocate_free) Q E m"
  unfolding wp_on_gpu
proof (rule wp_allocate_free[OF refs_okD(1)[OF assms(1)]])
  fix b p assume post: "alloc_post (bm_gpu m) b p"
  then have step: "pool_step (bm_gpu m) p" and ref: "gp_ref p = (gp_ref (bm_gpu m))(b := 1)"
    and lt: "b < gp_capacity (bm_gpu m)" and r0: "gp_ref (bm_gpu m) b = 0"
    by (simp_all add: alloc_post_def)
  have z: "own b + count_list (cache_pages None (bm_cache m)) b = 0"
    using refs_okD(2)[OF assms(1) lt] r0 by simp
  then have own: "own b = 0" and nc: "b \<notin> set (cache_pages None (bm_cache m))"
    by (simp_all add: count_list_0_iff)
  have "refs_ok (own(b := own b + 1)) (m\<lparr>bm_gpu := p\<rparr>)" "same_config m (m\<lparr>bm_gpu := p\<rparr>)"
    using refs_ok_gpu[OF assms(1) step, of "own(b := own b + 1)"] ref r0 own lt step by (auto simp: pool_step_def)
  then show "Q b (m\<lparr>bm_gpu := p\<rparr>)"
    using ok post own nc alloc_post_free_count[OF refs_okD(1)[OF assms(1)] post] by blast
next
  let ?p = "(bm_gpu m)\<lparr>gp_free := []\<rparr>"
  assume z: "gp_free_count (bm_gpu m) = 0" and inv: "gpu_inv ?p"
  have step: "pool_step (bm_gpu m) ?p" using inv by (simp add: pool_step_def)
  have "refs_ok own (m\<lparr>bm_gpu := ?p\<rparr>)" "same_config m (m\<lparr>bm_gpu := ?p\<rparr>)"
    using refs_ok_gpu[OF assms(1) step, of own] by auto
  then show "E RuntimeError (m\<lparr>bm_gpu := ?p\<rparr>)" using full z by blast
qed

text \<open>Releasing a list of owned pages; the pool of the final state is all that changes.\<close>

lemma wp_release_pages:
  assumes "refs_ok (\<lambda>b. own b + count_list ids b) m"
    and ok: "\<And>p. refs_ok own (m\<lparr>bm_gpu := p\<rparr>) \<Longrightarrow> same_config m (m\<lparr>bm_gpu := p\<rparr>) \<Longrightarrow> Q () (m\<lparr>bm_gpu := p\<rparr>)"
  shows "wp (bm_release_pages ids) Q E m"
  using assms
proof (induction ids arbitrary: m)
  case Nil
  have "m = m\<lparr>bm_gpu := bm_gpu m\<rparr>" by simp
  then show ?case using Nil(2)[of "bm_gpu m"] Nil(1) by (simp add: bm_release_pages_def wp_simps)
next
  case (Cons i ids)
  let ?own = "\<lambda>b. own b + count_list (i # ids) b"
  have upd: "?own(i := ?own i - 1) = (\<lambda>b. own b + count_list ids b)" by (auto simp: fun_eq_iff)
  show ?case unfolding bm_release_pages_def each.simps wp_thn
  proof (rule wp_release_owned[OF Cons.prems(1)])
    show "0 < ?own i" by simp
    fix r p assume p: "refs_ok (?own(i := ?own i - 1)) (m\<lparr>bm_gpu := p\<rparr>)" "same_config m (m\<lparr>bm_gpu := p\<rparr>)"
    have "wp (bm_release_pages ids) Q E (m\<lparr>bm_gpu := p\<rparr>)"
    proof (rule Cons.IH)
      show "refs_ok (\<lambda>b. own b + count_list ids b) (m\<lparr>bm_gpu := p\<rparr>)" using p(1) unfolding upd .
      fix q assume "refs_ok own ((m\<lparr>bm_gpu := p\<rparr>)\<lparr>bm_gpu := q\<rparr>)"
        and "same_config (m\<lparr>bm_gpu := p\<rparr>) ((m\<lparr>bm_gpu := p\<rparr>)\<lparr>bm_gpu := q\<rparr>)"
      then show "Q () ((m\<lparr>bm_gpu := p\<rparr>)\<lparr>bm_gpu := q\<rparr>)"
        using Cons.prems(2)[of q] same_config_trans[OF p(2)] by simp
    qed
    then show "wp (ret ()) (\<lambda>_. wp (each ids (\<lambda>b. thn (on_gpu (gp_release b)) (ret ()))) Q E) E (m\<lparr>bm_gpu := p\<rparr>)"
      by (simp add: wp_simps bm_release_pages_def)
  qed
qed

subsection \<open>Eviction\<close>

lemma refs_ok_upd [simp]:
  "refs_ok own (m\<lparr>bm_cache_blocks := x\<rparr>) = refs_ok own m"
  "refs_ok own (m\<lparr>bm_counters := c\<rparr>) = refs_ok own m"
  "refs_ok own (m\<lparr>bm_cpu := cpu\<rparr>) = refs_ok own m"
  "same_config m (t\<lparr>bm_cache_blocks := x\<rparr>) = same_config m t"
  "same_config m (t\<lparr>bm_counters := c\<rparr>) = same_config m t"
  "same_config m (t\<lparr>bm_cache := ca\<rparr>) = same_config m t"
  "cache_ok (m\<lparr>bm_counters := c\<rparr>) = cache_ok m"
  "cache_ok (m\<lparr>bm_gpu := p\<rparr>) = cache_ok m"
  "cache_ok (m\<lparr>bm_cpu := cpu\<rparr>) = cache_ok m"
  by (simp_all add: refs_ok_def same_config_def cache_ok_def)

lemma refs_ok_cache:
  "refs_ok own m \<Longrightarrow> (\<And>b. own' b + count_list (cache_pages None c) b =
     own b + count_list (cache_pages None (bm_cache m)) b) \<Longrightarrow> refs_ok own' (m\<lparr>bm_cache := c\<rparr>)"
  by (simp add: refs_ok_def)

lemma length_pages_split:
  "distinct (keys c) \<Longrightarrow> map_of c k = Some e \<Longrightarrow>
   length (cache_pages None c) = length (en_pages e) + length (cache_pages None (od_pop k c))"
  using arg_cong[OF pages_split, of c k e size] by simp

lemma wp_evict:
  assumes inv: "bm_inv own m" and k: "map_of (bm_cache m) k = Some e"
    and ok: "\<And>t. bm_inv own t \<Longrightarrow> same_config m t \<Longrightarrow> bm_cache t = od_pop k (bm_cache m) \<Longrightarrow> Q () t"
  shows "wp (bm_evict k) Q E m"
proof -
  let ?m = "m\<lparr>bm_cache := od_pop k (bm_cache m)\<rparr>"
  have d: "distinct (keys (bm_cache m))" using inv by (simp add: bm_inv_def cache_ok_def)
  have r: "refs_ok (\<lambda>b. own b + count_list (en_pages e) b) ?m"
    using inv count_list_mset_add[OF pages_split[OF d k]]
    by (intro refs_ok_cache[of own]) (simp_all add: bm_inv_def)
  show ?thesis
    unfolding bm_evict_def wp_simps k option.case
  proof (rule wp_release_pages[OF r])
    fix p assume p: "refs_ok own (?m\<lparr>bm_gpu := p\<rparr>)" "same_config ?m (?m\<lparr>bm_gpu := p\<rparr>)"
    let ?t = "((?m\<lparr>bm_gpu := p\<rparr>)\<lparr>bm_cache_blocks := bm_cache_blocks m - int (en_resident e)\<rparr>)"
    have c: "cache_ok ?t"
      using inv length_pages_split[OF d k]
      by (auto simp: bm_inv_def cache_ok_def keys_od_pop set_od_pop en_resident_def en_pages_def)
    have sc: "same_config m (?m\<lparr>bm_gpu := p\<rparr>)" using p(2) by (simp add: same_config_def)
    then have "Q () (?t\<lparr>bm_counters := (bm_counters ?t)\<lparr>ct_evictions := ct_evictions (bm_counters ?t) + 1\<rparr>\<rparr>)"
      using p(1) c by (intro ok) (simp_all add: bm_inv_def)
    then show "Q () ((?m\<lparr>bm_gpu := p\<rparr>)\<lparr>bm_cache_blocks := bm_cache_blocks (?m\<lparr>bm_gpu := p\<rparr>) - int (en_resident e),
        bm_counters := (bm_counters ((?m\<lparr>bm_gpu := p\<rparr>)\<lparr>bm_cache_blocks := bm_cache_blocks (?m\<lparr>bm_gpu := p\<rparr>) - int (en_resident e)\<rparr>))
          \<lparr>ct_evictions := ct_evictions (bm_counters ((?m\<lparr>bm_gpu := p\<rparr>)\<lparr>bm_cache_blocks := bm_cache_blocks (?m\<lparr>bm_gpu := p\<rparr>) - int (en_resident e)\<rparr>)) + 1\<rparr>\<rparr>)"
      by simp
  qed
qed

lemma entry_wf_tails: "entry_wf bs k (e\<lparr>en_tails := ts\<rparr>) = entry_wf bs k e"
  by (simp add: entry_wf_def)

lemma mset_remove1_count: "b \<in> set xs \<Longrightarrow> mset xs = {#b#} + mset (remove1 b xs)"
  by simp

lemma wp_drop_idle_tail:
  assumes inv: "bm_inv own m"
    and none: "find_idle_tail (bm_gpu m) prot (bm_cache m) = None \<Longrightarrow> Q False m"
    and ok: "\<And>k b t. bm_inv own t \<Longrightarrow> same_config m t \<Longrightarrow> \<not> protected prot k \<Longrightarrow>
      bm_cache t = od_modify k (\<lambda>e. e\<lparr>en_tails := remove1 b (en_tails e)\<rparr>) (bm_cache m) \<Longrightarrow> Q True t"
  shows "wp (bm_drop_idle_tail prot) Q E m"
proof (cases "find_idle_tail (bm_gpu m) prot (bm_cache m)")
  case None
  then show ?thesis using none by (simp add: bm_drop_idle_tail_def wp_simps)
next
  case (Some x)
  obtain k b where x: "x = (k, b)" by (cases x)
  obtain e where e: "(k, e) \<in> set (bm_cache m)" "b \<in> set (en_tails e)" "\<not> protected prot k"
    using find_idle_tail_facts Some x by blast
  have d: "distinct (keys (bm_cache m))" using inv by (simp add: bm_inv_def cache_ok_def)
  have k: "map_of (bm_cache m) k = Some e" using d e(1) by (simp add: keys_def)
  let ?f = "\<lambda>e. e\<lparr>en_tails := remove1 b (en_tails e)\<rparr>"
  let ?c = "od_modify k ?f (bm_cache m)"
  let ?m = "m\<lparr>bm_cache := ?c\<rparr>"
  have ms: "mset (cache_pages None (bm_cache m)) = {#b#} + mset (cache_pages None ?c)"
    using pages_split[OF d k] pages_split[of ?c k "?f e"] d k e(2) by (simp add: en_pages_def)
  have cnt: "count_list (cache_pages None (bm_cache m)) x = (if x = b then 1 else 0) + count_list (cache_pages None ?c) x" for x
    using count_list_mset_add[of "cache_pages None (bm_cache m)" "[b]" "cache_pages None ?c" x] ms by simp
  have r: "refs_ok (own(b := own b + 1)) ?m"
    using inv cnt by (intro refs_ok_cache[of own]) (simp_all add: bm_inv_def)
  show ?thesis
    unfolding bm_drop_idle_tail_def wp_simps Some x option.case prod.case
  proof (rule wp_release_owned[OF r, unfolded wp_on_gpu])
    show "0 < (own(b := own b + 1)) b" by simp
    fix rr p
    assume p: "refs_ok ((own(b := own b + 1))(b := (own(b := own b + 1)) b - 1)) (?m\<lparr>bm_gpu := p\<rparr>)"
      "same_config ?m (?m\<lparr>bm_gpu := p\<rparr>)"
    let ?t = "((?m\<lparr>bm_gpu := p\<rparr>)\<lparr>bm_cache_blocks := bm_cache_blocks m - 1\<rparr>)"
    let ?u = "?t\<lparr>bm_counters := (bm_counters ?t)\<lparr>ct_tail_evictions := ct_tail_evictions (bm_counters ?t) + 1\<rparr>\<rparr>"
    have "length (cache_pages None (bm_cache m)) = 1 + length (cache_pages None ?c)"
      using arg_cong[OF ms, of size] by simp
    moreover have "\<forall>(k', e') \<in> set ?c. entry_wf (bm_block_size m) k' e'"
      using inv by (auto simp: bm_inv_def cache_ok_def od_modify_def entry_wf_tails split: if_splits)
    ultimately have c: "cache_ok ?t" using inv by (simp add: bm_inv_def cache_ok_def)
    have sc: "same_config m (?m\<lparr>bm_gpu := p\<rparr>)" using p(2) by (simp add: same_config_def)
    have "Q True ?u" by (rule ok[OF _ _ e(3)]) (use p(1) c sc in \<open>simp_all add: bm_inv_def\<close>)
    then show "Q True ((?m\<lparr>bm_gpu := p\<rparr>)\<lparr>bm_cache_blocks := bm_cache_blocks (?m\<lparr>bm_gpu := p\<rparr>) - 1,
        bm_counters := (bm_counters ((?m\<lparr>bm_gpu := p\<rparr>)\<lparr>bm_cache_blocks := bm_cache_blocks (?m\<lparr>bm_gpu := p\<rparr>) - 1\<rparr>))
          \<lparr>ct_tail_evictions := ct_tail_evictions (bm_counters ((?m\<lparr>bm_gpu := p\<rparr>)\<lparr>bm_cache_blocks := bm_cache_blocks (?m\<lparr>bm_gpu := p\<rparr>) - 1\<rparr>)) + 1\<rparr>\<rparr>)"
      by simp
  qed
qed

lemma min_benefit_mem: "min_benefit c = Some (x, k) \<Longrightarrow> \<exists>e. (k, e) \<in> set c"
  by (induction c arbitrary: x k rule: min_benefit.induct) (auto split: option.splits if_splits)

lemma min_benefit_None: "min_benefit c = None \<longleftrightarrow> c = []"
  by (induction c rule: min_benefit.induct) (auto split: option.splits)

lemma eviction_candidate_Some:
  "bm_eviction_candidate prot m = Some k \<Longrightarrow> k \<in> set (keys (bm_cache m)) \<and> \<not> protected prot k"
  by (force simp: bm_eviction_candidate_def keys_def dest: min_benefit_mem)

lemma eviction_candidate_None:
  "bm_eviction_candidate prot m = None \<Longrightarrow> cache_pages prot (bm_cache m) = []"
  by (force simp: bm_eviction_candidate_def min_benefit_None cache_pages_def filter_empty_conv)

text \<open>An entry that is protected survives unchanged.\<close>

definition keeps :: "string option \<Rightarrow> manager \<Rightarrow> manager \<Rightarrow> bool" where
  "keeps prot m t \<longleftrightarrow> (\<forall>k. protected prot k \<longrightarrow> map_of (bm_cache t) k = map_of (bm_cache m) k) \<and>
     set (keys (bm_cache t)) \<subseteq> set (keys (bm_cache m)) \<and>
     (\<forall>b. count_list (cache_pages None (bm_cache t)) b \<le> count_list (cache_pages None (bm_cache m)) b)"

lemma count_pop_le: "count_list (cache_pages prot (od_pop k c)) b \<le> count_list (cache_pages prot c) b"
  by (induction c) (auto intro: le_trans)

lemma count_remove1_le: "count_list (remove1 x xs) y \<le> count_list xs y"
  by (induction xs) auto

lemma count_drop_le:
  "count_list (cache_pages prot (od_modify k (\<lambda>e. e\<lparr>en_tails := remove1 x (en_tails e)\<rparr>) c)) b
     \<le> count_list (cache_pages prot c) b"
  by (induction c) (auto simp: en_pages_def count_remove1_le intro: add_mono)

lemma keeps_refl [simp]: "keeps prot m m"
  by (simp add: keeps_def)

lemma keeps_trans: "keeps prot m t \<Longrightarrow> keeps prot t u \<Longrightarrow> keeps prot m u"
  by (auto simp: keeps_def intro: le_trans)

lemma keeps_obtainable:
  "keeps prot m t \<Longrightarrow> same_config m t \<Longrightarrow> obtainable own prot t = obtainable own prot m"
  by (cases prot) (simp_all add: obtainable_def keeps_def same_config_def kept_pages_def protected_def)

definition ensure_post :: "(nat \<Rightarrow> nat) \<Rightarrow> string option \<Rightarrow> manager \<Rightarrow> manager \<Rightarrow> bool" where
  "ensure_post own prot m t \<longleftrightarrow> bm_inv own t \<and> same_config m t \<and> keeps prot m t"

lemma wp_ensure_loop:
  "bm_inv own m \<Longrightarrow> wp (bm_ensure_loop required prot)
     (\<lambda>_ t. ensure_post own prot m t \<and>
        (required \<le> int (gp_free_count (bm_gpu t)) \<longleftrightarrow> required \<le> int (card (obtainable own prot m))) \<and>
        (required \<le> int (gp_free_count (bm_gpu m)) \<longrightarrow> t = m)) (\<lambda>_ _. False) m"
proof (induction required prot m rule: bm_ensure_loop.induct)
  case (1 required prot m)
  let ?Q = "\<lambda>m0 t. ensure_post own prot m0 t \<and>
    (required \<le> int (gp_free_count (bm_gpu t)) \<longleftrightarrow> required \<le> int (card (obtainable own prot m0))) \<and>
    (required \<le> int (gp_free_count (bm_gpu m0)) \<longrightarrow> t = m0)"
  have inv: "bm_inv own m" by (rule 1(3))
  have pot: "gp_free_count (bm_gpu m) \<le> card (obtainable own prot m)"
    using free_plus_reclaimable[of own m prot] inv by (simp add: bm_inv_def cache_ok_def)
  show ?case
  proof (cases "required \<le> int (gp_free_count (bm_gpu m))")
    case True
    then show ?thesis using inv pot by (simp add: wp_def bm_ensure_loop.simps[of required prot m] ensure_post_def)
  next
    case more: False
    have step: "wp (bm_ensure_loop required prot) (\<lambda>_. ?Q m) (\<lambda>_ _. False) t"
      if "wp (bm_ensure_loop required prot) (\<lambda>_. ?Q t) (\<lambda>_ _. False) t" "same_config m t" "keeps prot m t" for t
      by (rule wp_mono[OF that(1)])
        (use more that(2,3) keeps_obtainable[OF that(3,2)] in
          \<open>auto simp: ensure_post_def intro: same_config_trans keeps_trans\<close>)
    have drop: "wp (bm_drop_idle_tail prot) (\<lambda>r t. if r then bm_inv own t \<and> same_config m t \<and> keeps prot m t
        else t = m) (\<lambda>_ _. False) m"
      by (rule wp_drop_idle_tail[OF inv]) (auto simp: keeps_def count_drop_le)
    obtain r t where t: "bm_drop_idle_tail prot m = (Inr r, t)"
      "if r then bm_inv own t \<and> same_config m t \<and> keeps prot m t else t = m"
      using drop by (auto simp: wp_total)
    show ?thesis
    proof (cases r)
      case True
      have "wp (bm_ensure_loop required prot) (\<lambda>_. ?Q t) (\<lambda>_ _. False) t"
        by (rule 1(1)[OF more t(1)[symmetric] refl]) (use True t(2) in auto)
      from step[OF this] show ?thesis using True t more
        by (simp add: wp_def bm_ensure_loop.simps[of required prot m])
    next
      case False
      then have tm: "t = m" using t(2) by simp
      show ?thesis
      proof (cases "bm_eviction_candidate prot m")
        case None
        then have "bm_reclaimable prot m = 0" by (simp add: bm_reclaimable_def eviction_candidate_None)
        then have "gp_free_count (bm_gpu m) = card (obtainable own prot m)"
          using free_plus_reclaimable[of own m prot] inv by (simp add: bm_inv_def cache_ok_def)
        then show ?thesis using None False t tm more inv
          by (simp add: wp_def bm_ensure_loop.simps[of required prot m] ensure_post_def)
      next
        case (Some k)
        then obtain e where e: "map_of (bm_cache m) k = Some e" and np: "\<not> protected prot k"
          using eviction_candidate_Some[OF Some]
          by (metis keys_def list.set_map map_of_eq_None_iff not_None_eq)
        have "wp (bm_evict k) (\<lambda>_ u. bm_inv own u \<and> same_config m u \<and> keeps prot m u) (\<lambda>_ _. False) m"
          by (rule wp_evict[OF inv e]) (use np in \<open>auto simp: keeps_def keys_od_pop count_pop_le\<close>)
        then obtain u where u: "bm_evict k m = (Inr (), u)" "bm_inv own u" "same_config m u" "keeps prot m u"
          by (auto simp: wp_total)
        have "wp (bm_ensure_loop required prot) (\<lambda>_. ?Q u) (\<lambda>_ _. False) u"
          by (rule 1(2)[OF more t(1)[symmetric] refl])
            (use False tm Some u in \<open>auto intro: sym\<close>)
        from step[OF this u(3,4)] show ?thesis using False t tm Some u(1) more
          by (simp add: wp_def bm_ensure_loop.simps[of required prot m])
      qed
    qed
  qed
qed

text \<open>
  \<open>_ensure_free_blocks\<close> succeeds exactly when the pages nobody but unprotected cache entries
  holds, free ones included, cover the demand.
\<close>

lemma wp_ensure_free:
  assumes inv: "bm_inv own m"
    and ok: "\<And>t. required \<le> int (card (obtainable own prot m)) \<Longrightarrow> ensure_post own prot m t \<Longrightarrow>
      required \<le> int (gp_free_count (bm_gpu t)) \<Longrightarrow>
      (required \<le> int (gp_free_count (bm_gpu m)) \<Longrightarrow> t = m) \<Longrightarrow> Q () t"
    and err: "\<And>t. int (card (obtainable own prot m)) < required \<Longrightarrow> ensure_post own prot m t \<Longrightarrow> E RuntimeError t"
  shows "wp (bm_ensure_free required prot) Q E m"
  unfolding bm_ensure_free_def wp_simps
  by (rule wp_mono[OF wp_ensure_loop[OF inv]]) (use ok err in \<open>auto split: if_splits\<close>)

end
