(* ===== verification/Block_Manager.thy ===== *)
theory Block_Manager imports Prefix_Cache begin

text \<open>
  \<open>prism_infer/engine/block_manager.py\<close>, second half: the operations of \<open>BlockManager\<close> on one
  sequence (probing, allocation with prefix reuse, release, prefix admission, decode growth,
  copy-on-write, publication of computed pages, swapping).  An operation runs on the pair of the
  manager and the sequence it is called with; both keep their mutations when it raises.
\<close>

type_synonym mseq = "manager \<times> sequence"

definition on_mgr :: "('a, manager) op \<Rightarrow> ('a, mseq) op" where
  "on_mgr = zoom fst (\<lambda>m (_, s). (m, s))"

definition on_seq :: "('a, sequence) op \<Rightarrow> ('a, mseq) op" where
  "on_seq = zoom snd (\<lambda>s (m, _). (m, s))"

definition get_mgr :: "(manager, mseq) op" where
  "get_mgr = gets fst"

definition get_seq :: "(sequence, mseq) op" where
  "get_seq = gets snd"

definition set_seq :: "(sequence \<Rightarrow> sequence) \<Rightarrow> (unit, mseq) op" where
  "set_seq f = upd (\<lambda>(m, s). (m, f s))"

definition count_event :: "(bm_counters \<Rightarrow> bm_counters) \<Rightarrow> (unit, mseq) op" where
  "count_event f = on_mgr (bump f)"

definition bm_assert_block_size :: "(unit, mseq) op" where
  "bm_assert_block_size = bnd get_mgr (\<lambda>m. bnd get_seq (\<lambda>s.
     chk ValueError (sq_block_size s = bm_block_size m)))"

section \<open>Probing\<close>

definition bm_block_hash_and_mm ::
    "hash_fun \<Rightarrow> manager \<Rightarrow> sequence \<Rightarrow> nat \<Rightarrow> int \<Rightarrow> py_error + (int \<times> mm_hashes)" where
  "bm_block_hash_and_mm xx m s i prefix =
     bind_res (sq_block i s) (\<lambda>token_ids.
     if sq_is_multimodal s \<and> \<not> bm_hashable m s then Inr (NO_BLOCK_HASH, None)
     else (let mm = (if sq_is_multimodal s then sq_mm_token_hashes_for_block i (bm_block_size m) s else None) in
       bind_res (compute_hash xx token_ids prefix mm) (\<lambda>h. Inr (h, mm))))"

definition bm_lookup :: "int \<Rightarrow> int list \<Rightarrow> mm_hashes \<Rightarrow> (nat option, mseq) op" where
  "bm_lookup h toks mm = on_mgr (on_gpu (gp_lookup h toks mm))"

fun bm_walk :: "hash_fun \<Rightarrow> nat list \<Rightarrow> int \<Rightarrow> nat \<Rightarrow> (nat, mseq) op" where
  "bm_walk xx [] prefix cached = ret cached"
| "bm_walk xx (i # is) prefix cached =
     bnd get_mgr (\<lambda>m. bnd get_seq (\<lambda>s.
     bnd (lift_res (bm_block_hash_and_mm xx m s i prefix)) (\<lambda>(h, mm).
     if h = NO_BLOCK_HASH then ret cached
     else bnd (lift_res (sq_block i s)) (\<lambda>token_ids.
          bnd (bm_lookup h token_ids mm) (\<lambda>found. case found of
              None \<Rightarrow> ret cached
            | Some _ \<Rightarrow> bm_walk xx is h (cached + bm_block_size m))))))"

definition bm_snap_to_image_boundary :: "sequence \<Rightarrow> nat \<Rightarrow> nat" where
  "bm_snap_to_image_boundary s candidate =
    (if \<not> sq_is_multimodal s \<or> sq_image_token_id s = None \<or> candidate = 0 then candidate
     else (case sq_image_token_spans s of
         None \<Rightarrow> candidate
       | Some spans \<Rightarrow> (case List.find (\<lambda>(a, b). a < candidate \<and> candidate < b) spans of
             None \<Rightarrow> candidate | Some (a, _) \<Rightarrow> a)))"

definition bm_cached_prefix_length :: "hash_fun \<Rightarrow> (nat, mseq) op" where
  "bm_cached_prefix_length xx = bnd get_mgr (\<lambda>m. bnd get_seq (\<lambda>s.
     if \<not> bm_enable_prefix m \<or> \<not> bm_hashable m s then ret 0
     else (let full = sq_num_prompt_tokens s div bm_block_size m;
               walk = (if sq_num_prompt_tokens s mod bm_block_size m \<noteq> 0 then full else full - 1)
           in bnd (bm_walk xx [0..<walk] NO_BLOCK_HASH 0) (\<lambda>cached.
              ret (bm_snap_to_image_boundary s cached)))))"

definition bm_entry_candidate :: "manager \<Rightarrow> sequence \<Rightarrow> py_error + nat" where
  "bm_entry_candidate m s = bind_res (bm_matching s m) (\<lambda>x.
     Inr (case x of None \<Rightarrow> 0 | Some (_, e) \<Rightarrow> en_logical_len e))"

definition bm_candidate :: "hash_fun \<Rightarrow> bool \<Rightarrow> (nat, mseq) op" where
  "bm_candidate xx counted = bnd get_mgr (\<lambda>m. bnd get_seq (\<lambda>s.
     if bm_block_level m \<and> bm_hashable m s
     then bnd (bm_cached_prefix_length xx) (\<lambda>walk.
          bnd (lift_res (bm_entry_candidate m s)) (\<lambda>entry.
          thn (if counted \<and> max walk entry \<noteq> 0
               then count_event (\<lambda>c. c\<lparr>ct_probe_hits := ct_probe_hits c + 1\<rparr>) else ret ())
              (ret (max walk entry))))
     else lift_res (bm_entry_candidate m s)))"

definition bm_probe :: "hash_fun \<Rightarrow> bool \<Rightarrow> (nat, mseq) op" where
  "bm_probe xx would_hydrate =
     thn bm_assert_block_size
    (bnd get_mgr (\<lambda>m.
     thn (set_seq (\<lambda>s. s\<lparr>sq_mm_prefix_cache_enabled := bm_enable_prefix m\<rparr>))
    (bnd (bm_candidate xx True) (\<lambda>n.
     thn (set_seq (\<lambda>s. s\<lparr>sq_candidate_tokens := n\<rparr>))
    (thn (if n = 0 then ret ()
          else thn (set_seq (\<lambda>s. s\<lparr>sq_mm_prefix_pre_admission_hit := True\<rparr>))
              (thn (count_event (\<lambda>c. c\<lparr>ct_pre_admission_hits := ct_pre_admission_hits c + 1\<rparr>))
              (bnd get_seq (\<lambda>s.
               if would_hydrate \<and> (case sq_mm_prefix_boundary s of None \<Rightarrow> True | Some b \<Rightarrow> b \<le> n)
               then count_event (\<lambda>c. c\<lparr>ct_hydration_skips := ct_hydration_skips c + 1\<rparr>) else ret ()))))
     (ret n))))))"

definition bm_cached_prefix_tokens :: "hash_fun \<Rightarrow> (nat, mseq) op" where
  "bm_cached_prefix_tokens xx =
     thn bm_assert_block_size
    (bnd get_mgr (\<lambda>m.
     thn (set_seq (\<lambda>s. s\<lparr>sq_mm_prefix_cache_enabled := bm_enable_prefix m\<rparr>))
    (bnd (bm_candidate xx False) (\<lambda>n.
     thn (set_seq (\<lambda>s. s\<lparr>sq_candidate_tokens := n\<rparr>)) (ret n)))))"

section \<open>Page tables\<close>

definition push_page :: "nat \<Rightarrow> (unit, mseq) op" where
  "push_page b = set_seq (\<lambda>s. s\<lparr>sq_block_table := sq_block_table s @ [b]\<rparr>)"

definition bm_alloc_page :: "(nat, mseq) op" where
  "bm_alloc_page = on_mgr (on_gpu gp_allocate_free)"

definition bm_retain_page :: "nat \<Rightarrow> (nat, mseq) op" where
  "bm_retain_page b = on_mgr (on_gpu (gp_retain_ref b))"

definition bm_release_page :: "nat \<Rightarrow> (bool, mseq) op" where
  "bm_release_page b = on_mgr (on_gpu (gp_release b))"

text \<open>\<open>while len(seq.block_table) < n: append a fresh page\<close>, with the missing pages as counter.\<close>

fun bm_grow :: "nat \<Rightarrow> (unit, mseq) op" where
  "bm_grow 0 = ret ()"
| "bm_grow (Suc k) = bnd bm_alloc_page (\<lambda>b. thn (push_page b) (bm_grow k))"

definition bm_grow_to :: "nat \<Rightarrow> (unit, mseq) op" where
  "bm_grow_to n = bnd get_seq (\<lambda>s. bm_grow (n - length (sq_block_table s)))"

definition bm_privatize :: "nat \<Rightarrow> ((nat \<times> nat) option, mseq) op" where
  "bm_privatize i = bnd get_seq (\<lambda>s.
     thn (chk IndexError (i < length (sq_block_table s)))
    (let b = sq_block_table s ! i in
     bnd (on_mgr (on_gpu (gp_block b))) (\<lambda>blk.
     if blk_ref blk \<le> 1 then thn (on_mgr (on_gpu (gp_clear_hash b))) (ret None)
     else thn (on_mgr (bm_ensure_free 1 None))
         (bnd bm_alloc_page (\<lambda>b'.
          thn (bm_release_page b)
         (thn (set_seq (\<lambda>s. s\<lparr>sq_block_table := (sq_block_table s)[i := b']\<rparr>))
          (ret (Some (b, b')))))))))"

section \<open>Allocation\<close>

fun bm_dense_loop :: "hash_fun \<Rightarrow> nat list \<Rightarrow> int \<Rightarrow> bool \<Rightarrow> (unit, mseq) op" where
  "bm_dense_loop xx [] h miss = ret ()"
| "bm_dense_loop xx (i # is) h miss =
     bnd get_mgr (\<lambda>m. bnd get_seq (\<lambda>s.
     bnd (lift_res (sq_block i s)) (\<lambda>token_ids.
     bnd (if bm_enable_prefix m \<and> length token_ids = bm_block_size m \<and> bm_hashable m s
          then lift_res (bm_block_hash_and_mm xx m s i h) else ret (NO_BLOCK_HASH, None)) (\<lambda>(h', mm).
     bnd (if miss \<or> (sq_num_prompt_tokens s mod bm_block_size m = 0 \<and> i + 1 = sq_num_blocks s)
          then ret None else bm_lookup h' token_ids mm) (\<lambda>found.
     case found of
       None \<Rightarrow>
         thn (if h' \<noteq> NO_BLOCK_HASH
              then count_event (\<lambda>c. c\<lparr>ct_miss_blocks := ct_miss_blocks c + 1\<rparr>) else ret ())
        (bnd bm_alloc_page (\<lambda>b. thn (push_page b) (bm_dense_loop xx is h' True)))
     | Some c \<Rightarrow>
         thn (count_event (\<lambda>c. c\<lparr>ct_reused_blocks := ct_reused_blocks c + 1\<rparr>))
        (thn (set_seq (\<lambda>s. s\<lparr>sq_num_cached_tokens := sq_num_cached_tokens s + bm_block_size m\<rparr>))
        (bnd (bm_retain_page c) (\<lambda>b. thn (push_page b) (bm_dense_loop xx is h' miss)))))))))"

type_synonym copy_rows = "nat \<times> nat \<times> nat"

fun bm_privatize_range :: "nat \<Rightarrow> nat list \<Rightarrow> (copy_rows list, mseq) op" where
  "bm_privatize_range snapped [] = ret []"
| "bm_privatize_range snapped (i # is) =
     bnd (bm_privatize i) (\<lambda>pair.
     bnd get_mgr (\<lambda>m. let rows = snapped - i * bm_block_size m in
     bnd (bm_privatize_range snapped is) (\<lambda>rest.
     ret ((case pair of Some (a, b) \<Rightarrow> if rows \<noteq> 0 then [(a, b, rows)] else [] | None \<Rightarrow> []) @ rest))))"

definition bm_allocate_dense :: "hash_fun \<Rightarrow> (copy_rows list, mseq) op" where
  "bm_allocate_dense xx =
     bnd get_seq (\<lambda>s0.
     thn (on_mgr (bm_ensure_free (int (sq_num_blocks s0)) None))
    (thn (bm_dense_loop xx [0..<sq_num_blocks s0] NO_BLOCK_HASH False)
    (bnd get_mgr (\<lambda>m. bnd get_seq (\<lambda>s.
     bnd (if sq_is_multimodal s
          then (let cached = sq_num_cached_tokens s; snapped = bm_snap_to_image_boundary s cached in
                if snapped \<noteq> cached
                then bnd (bm_privatize_range snapped [snapped div bm_block_size m..<cached div bm_block_size m])
                     (\<lambda>copies. thn (set_seq (\<lambda>s. s\<lparr>sq_num_cached_tokens := snapped\<rparr>)) (ret copies))
                else ret [])
          else ret []) (\<lambda>copies.
     thn (set_seq (\<lambda>s. s\<lparr>sq_candidate_tokens := sq_num_cached_tokens s\<rparr>))
         (ret copies)))))))"

text \<open>
  The handler of the failed page request: when only the matched entry itself shares the tail, that
  entry is given up.  The result says whether the tail has become private.
\<close>

definition cow_fallback :: "nat \<Rightarrow> (string \<times> cache_entry) option \<Rightarrow> py_error \<Rightarrow> (bool, mseq) op" where
  "cow_fallback tail match e =
    (if e \<noteq> RuntimeError then throw e
     else (case match of
         None \<Rightarrow> throw e
       | Some (k, entry) \<Rightarrow> bnd get_mgr (\<lambda>m.
           let entry' = (case map_of (bm_cache m) k of None \<Rightarrow> entry | Some e' \<Rightarrow> e') in
           if tail \<notin> set (en_pages entry') then throw e
           else thn (on_mgr (bm_evict k))
               (bnd (on_mgr (on_gpu (gp_block tail))) (\<lambda>blk.
                if blk_ref blk \<le> 1 then ret True
                else thn (on_mgr (bm_ensure_free 1 None)) (ret False))))))"

definition replace_tail :: "nat \<Rightarrow> ((nat \<times> nat) option, mseq) op" where
  "replace_tail tail =
     bnd bm_alloc_page (\<lambda>b.
     thn (bm_release_page tail)
    (thn (set_seq (\<lambda>s. s\<lparr>sq_block_table := (sq_block_table s)[length (sq_block_table s) - 1 := b]\<rparr>))
         (ret (Some (tail, b)))))"

definition cow_finish :: "nat \<Rightarrow> ((nat \<times> nat) option, mseq) op" where
  "cow_finish tail = bnd (on_mgr (on_gpu (gp_block tail))) (\<lambda>blk.
     if blk_ref blk \<le> 1 then ret None else replace_tail tail)"

definition bm_copy_on_write :: "((nat \<times> nat) option, mseq) op" where
  "bm_copy_on_write =
     thn bm_assert_block_size
    (bnd get_seq (\<lambda>s.
     if sq_block_table s = [] then ret None
     else (let tail = last (sq_block_table s) in
       bnd (on_mgr (on_gpu (gp_block tail))) (\<lambda>blk.
       if blk_ref blk \<le> 1 then ret None
       else bnd get_mgr (\<lambda>m.
         bnd (lift_res (bm_matching s m)) (\<lambda>match.
         bnd (catch (thn (on_mgr (bm_ensure_free 1 (map_option fst match))) (ret False))
               (cow_fallback tail match)) (\<lambda>priv.
         if priv then ret None else cow_finish tail)))))))"

definition hit_record :: "sequence \<Rightarrow> cache_entry \<Rightarrow> nat \<Rightarrow> py_record" where
  "hit_record s e final_physical = dict_update (en_record e)
     [(''multimodal_prefix_cache_hit'', PBool True),
      (''cached_logical_prefix_tokens'', PInt (int (en_logical_len e))),
      (''cached_physical_prefix_tokens'', PInt (int (en_physical_len e))),
      (''logical_prompt_tokens'', PInt (int (sq_num_prompt_tokens s))),
      (''physical_prompt_kv_tokens'', PInt (int final_physical))]"

definition hit_layout :: "sequence \<Rightarrow> cache_entry \<Rightarrow> py_record \<Rightarrow> kv_layout" where
  "hit_layout s e record = \<lparr>ly_mode = KV_LAYOUT_VISUAL_COMPACT,
     ly_logical_context_len = en_logical_len e, ly_physical_kv_len = en_physical_len e,
     ly_prompt_logical_len = sq_num_prompt_tokens s,
     ly_compressed_prompt_kv_len = en_physical_len e,
     ly_retained_original_positions = en_retained e, ly_kv_dtype = en_kv_dtype e,
     ly_compression_record = record, ly_compacted_logical_len = Some (en_logical_len e),
     ly_schema_version = KV_LAYOUT_SCHEMA_VERSION\<rparr>"

text \<open>The entry object of key \<open>k\<close> as it is now: entries are shared, mutable objects.\<close>

definition get_entry :: "string \<Rightarrow> cache_entry \<Rightarrow> (cache_entry, mseq) op" where
  "get_entry k e = gets (\<lambda>(m, _). case map_of (bm_cache m) k of None \<Rightarrow> e | Some e' \<Rightarrow> e')"

definition admit_tail :: "string \<Rightarrow> nat \<Rightarrow> (unit, mseq) op" where
  "admit_tail k b = bnd get_mgr (\<lambda>m.
     if bm_cache_blocks m < int (bm_cache_max m)
     then thn (bm_retain_page b)
         (thn (on_mgr (upd (\<lambda>m. m\<lparr>bm_cache := od_modify k (\<lambda>e. e\<lparr>en_tails := en_tails e @ [b]\<rparr>) (bm_cache m),
                                 bm_cache_blocks := bm_cache_blocks m + 1\<rparr>)))
              (count_event (\<lambda>c. c\<lparr>ct_tail_admissions := ct_tail_admissions c + 1\<rparr>)))
     else ret ())"

definition retain_pages :: "nat list \<Rightarrow> (unit, mseq) op" where
  "retain_pages ids = each ids (\<lambda>b. thn (bm_retain_page b) (push_page b))"

definition immutable_pages :: "cache_entry \<Rightarrow> nat \<Rightarrow> nat list" where
  "immutable_pages e tail_rows = (if tail_rows \<noteq> 0 then butlast (en_block_ids e) else en_block_ids e)"

definition find_idle :: "cache_entry \<Rightarrow> (nat option, mseq) op" where
  "find_idle e = gets (\<lambda>(m, _). List.find (\<lambda>b. gp_ref (bm_gpu m) b = 1) (en_tails e))"

text \<open>The part that both hit paths share once the pages are in place.\<close>

definition finish_hit :: "string \<Rightarrow> (unit, mseq) op" where
  "finish_hit k =
     thn (bnd get_mgr (\<lambda>m. chk KeyError (map_of (bm_cache m) k \<noteq> None)))
    (thn (on_mgr (upd (\<lambda>m. m\<lparr>bm_cache := od_move_to_end k (bm_cache m)\<rparr>)))
    (thn (on_mgr (upd (\<lambda>m. m\<lparr>bm_cache := od_modify k (\<lambda>e. e\<lparr>en_hits := en_hits e + 1\<rparr>) (bm_cache m)\<rparr>)))
         (count_event (\<lambda>c. c\<lparr>ct_hits := ct_hits c + 1\<rparr>))))"

definition bm_cow_tail :: "string \<Rightarrow> cache_entry \<Rightarrow> nat \<Rightarrow> (copy_rows list, mseq) op" where
  "bm_cow_tail k e tail_rows =
     (let canonical = last (en_block_ids e) in
      thn (bm_retain_page canonical)
     (thn (push_page canonical)
     (bnd bm_copy_on_write (\<lambda>pair. case pair of
         None \<Rightarrow> throw RuntimeError
       | Some (a, b) \<Rightarrow>
           thn (count_event (\<lambda>c. c\<lparr>ct_cow_copies := ct_cow_copies c + 1,
                                  ct_cow_rows := ct_cow_rows c + tail_rows\<rparr>))
          (thn (admit_tail k b) (ret [(a, b, tail_rows)]))))))"

definition bm_allocate_prefix_hit :: "string \<Rightarrow> cache_entry \<Rightarrow> (copy_rows list, mseq) op" where
  "bm_allocate_prefix_hit k e =
     bnd get_mgr (\<lambda>m0. bnd get_seq (\<lambda>s0.
     thn (on_mgr (bm_ensure_free (bm_required_for_hit s0 e m0) (Some k)))
    (let tail_rows = en_physical_len e mod bm_block_size m0;
         final_physical = en_physical_len e + (sq_num_prompt_tokens s0 - en_logical_len e) in
     thn (retain_pages (immutable_pages e tail_rows))
    (bnd (if tail_rows = 0 then ret []
          else bnd (find_idle e) (\<lambda>idle. case idle of
              Some b \<Rightarrow>
                thn (bm_retain_page b)
               (thn (push_page b)
               (thn (count_event (\<lambda>c. c\<lparr>ct_tail_hits := ct_tail_hits c + 1,
                       ct_tail_reused_rows := ct_tail_reused_rows c + tail_rows\<rparr>))
                    (ret [])))
            | None \<Rightarrow> bm_cow_tail k e tail_rows)) (\<lambda>copies.
     thn (bm_grow_to (ceil_div final_physical (bm_block_size m0)))
    (let record = hit_record s0 e final_physical in
     thn (set_seq (\<lambda>s. s\<lparr>sq_num_cached_tokens := en_logical_len e,
            sq_num_computed_tokens := en_logical_len e, sq_candidate_tokens := en_logical_len e,
            sq_mm_prefix_cache_hit := True, sq_decision_record := Some record\<rparr>))
    (thn (on_seq (sq_install_cached_prefix_layout (hit_layout s0 e record)))
    (thn (finish_hit k)
         (ret copies)))))))))"

definition bm_fresh_tail :: "string \<Rightarrow> cache_entry \<Rightarrow> nat \<Rightarrow> (copy_rows list, mseq) op" where
  "bm_fresh_tail k e tail_rows =
     bnd bm_alloc_page (\<lambda>b.
     thn (push_page b)
    (thn (count_event (\<lambda>c. c\<lparr>ct_cow_copies := ct_cow_copies c + 1,
                            ct_cow_rows := ct_cow_rows c + tail_rows\<rparr>))
    (thn (admit_tail k b) (ret [(last (en_block_ids e), b, tail_rows)]))))"

definition bm_allocate_entry_hit :: "string \<Rightarrow> cache_entry \<Rightarrow> (copy_rows list, mseq) op" where
  "bm_allocate_entry_hit k e =
     bnd get_mgr (\<lambda>m0. bnd get_seq (\<lambda>s0.
     thn (on_mgr (bm_ensure_free (bm_required_for_hit s0 e m0) (Some k)))
    (let tail_rows = en_physical_len e mod bm_block_size m0;
         final_physical = en_physical_len e + (sq_num_prompt_tokens s0 - en_logical_len e);
         immutable = immutable_pages e tail_rows in
     thn (retain_pages immutable)
    (thn (count_event (\<lambda>c. c\<lparr>ct_reused_blocks := ct_reused_blocks c + length immutable\<rparr>))
    (bnd (if tail_rows = 0 then ret []
          else bnd (find_idle e) (\<lambda>idle. case idle of
              Some b \<Rightarrow>
                thn (bm_retain_page b)
               (thn (on_mgr (on_gpu (gp_clear_hash b)))
               (thn (push_page b)
               (thn (count_event (\<lambda>c. c\<lparr>ct_tail_hits := ct_tail_hits c + 1\<rparr>))
                    (ret []))))
            | None \<Rightarrow> bm_fresh_tail k e tail_rows)) (\<lambda>copies.
     thn (bm_grow_to (ceil_div final_physical (bm_block_size m0)))
    (thn (set_seq (\<lambda>s. s\<lparr>sq_num_cached_tokens := en_logical_len e,
            sq_num_computed_tokens := en_logical_len e, sq_candidate_tokens := en_logical_len e,
            sq_mm_prefix_cache_hit := True, sq_decision_record := Some (hit_record s0 e final_physical)\<rparr>))
    (thn (finish_hit k)
         (ret copies)))))))))"

definition bm_can_allocate :: "(bool, mseq) op" where
  "bm_can_allocate =
     thn bm_assert_block_size
    (bnd get_mgr (\<lambda>m. bnd get_seq (\<lambda>s.
     bnd (lift_res (bm_matching s m)) (\<lambda>match.
     ret (case match of
         None \<Rightarrow> int (sq_num_blocks s) \<le> int (gp_free_count (bm_gpu m) + bm_reclaimable None m)
       | Some (k, e) \<Rightarrow> bm_required_for_hit s e m
           \<le> int (gp_free_count (bm_gpu m) + bm_reclaimable (Some k) m))))))"

text \<open>
  \<open>reversed(seq.block_table)\<close> is released page by page; the CPU pages follow; only then is the
  sequence reset.
\<close>

definition bm_deallocate :: "(unit, mseq) op" where
  "bm_deallocate =
     thn bm_assert_block_size
    (bnd get_seq (\<lambda>s.
     thn (if sq_cpu_block_table s \<noteq> []
          then thn (on_mgr (on_cpu (cp_validate_owned (sq_cpu_block_table s)))) (ret ()) else ret ())
    (thn (on_mgr (bm_release_pages (rev (sq_block_table s))))
    (thn (on_mgr (on_cpu (cp_release_many (sq_cpu_block_table s))))
         (set_seq (\<lambda>s. s\<lparr>sq_num_cached_tokens := 0, sq_block_table := [], sq_cpu_block_table := [],
            sq_cpu_block_hashes := [], sq_cpu_block_token_ids := [], sq_cpu_block_mm_hashes := [],
            sq_kv_layout := None, sq_candidate_tokens := 0, sq_mm_prefix_cache_hit := False\<rparr>))))))"

definition rollback :: "('a, mseq) op \<Rightarrow> ('a, mseq) op" where
  "rollback body = catch body (\<lambda>e. bnd get_seq (\<lambda>s.
     thn (if sq_block_table s \<noteq> [] then bm_deallocate else ret ()) (throw e)))"

text \<open>The part of \<open>allocate\<close> after the guards, for the matching entry, if any.\<close>

definition bm_allocate_matched ::
    "hash_fun \<Rightarrow> manager \<Rightarrow> sequence \<Rightarrow> (string \<times> cache_entry) option \<Rightarrow> (copy_rows list, mseq) op" where
  "bm_allocate_matched xx m s match =
    (if bm_block_level m \<and> bm_hashable m s
     then (case match of
         Some (k, e) \<Rightarrow> rollback (bm_allocate_entry_hit k e)
       | None \<Rightarrow>
           thn (if bm_enable_prefix m \<and> sq_mm_prefix_cache_key s \<noteq> None
                then bnd (bm_cached_prefix_length xx) (\<lambda>n.
                  if n = 0 then count_event (\<lambda>c. c\<lparr>ct_misses := ct_misses c + 1\<rparr>) else ret ())
                else ret ())
               (bm_allocate_dense xx))
     else (case match of
         Some (k, e) \<Rightarrow> rollback (bm_allocate_prefix_hit k e)
       | None \<Rightarrow>
           thn (if sq_mm_prefix_pre_admission_hit s \<and> \<not> sq_mm_prefix_stale_fallback s
                then thn (set_seq (\<lambda>s. s\<lparr>sq_mm_prefix_stale_fallback := True\<rparr>))
                         (count_event (\<lambda>c. c\<lparr>ct_stale_fallbacks := ct_stale_fallbacks c + 1\<rparr>))
                else ret ())
          (thn (if bm_enable_prefix m \<and> sq_mm_prefix_cache_key s \<noteq> None
                then count_event (\<lambda>c. c\<lparr>ct_misses := ct_misses c + 1\<rparr>) else ret ())
               (bm_allocate_dense xx))))"

definition bm_allocate :: "hash_fun \<Rightarrow> (copy_rows list, mseq) op" where
  "bm_allocate xx =
     thn bm_assert_block_size
    (bnd get_seq (\<lambda>s.
     thn (chk RuntimeError (sq_block_table s = [] \<and> sq_cpu_block_table s = []))
    (bnd bm_can_allocate (\<lambda>ok.
     thn (chk RuntimeError ok)
    (bnd get_mgr (\<lambda>m.
     bnd (lift_res (bm_matching s m)) (\<lambda>match.
     bm_allocate_matched xx m s match)))))))"

section \<open>Rules for the building blocks\<close>

lemma wp_on_mgr [wp_simps]:
  "wp (on_mgr g) Q E (m, s) = wp g (\<lambda>x m'. Q x (m', s)) (\<lambda>e m'. E e (m', s)) m"
  by (simp add: on_mgr_def wp_simps)

lemma wp_on_seq [wp_simps]:
  "wp (on_seq g) Q E (m, s) = wp g (\<lambda>x s'. Q x (m, s')) (\<lambda>e s'. E e (m, s')) s"
  by (simp add: on_seq_def wp_simps)

lemma wp_get_set [wp_simps]:
  "wp get_mgr Q1 E (m, s) = Q1 m (m, s)" "wp get_seq Q2 E (m, s) = Q2 s (m, s)"
  "wp (set_seq f) Q E (m, s) = Q () (m, f s)"
  "wp (count_event g) Q E (m, s) = Q () (m\<lparr>bm_counters := g (bm_counters m)\<rparr>, s)"
  "wp (push_page b) Q E (m, s) = Q () (m, s\<lparr>sq_block_table := sq_block_table s @ [b]\<rparr>)"
  by (simp_all add: get_mgr_def get_seq_def set_seq_def count_event_def push_page_def wp_simps)

lemma wp_assert_block_size [wp_simps]:
  "wp bm_assert_block_size Q E (m, s) =
     (if sq_block_size s = bm_block_size m then Q () (m, s) else E ValueError (m, s))"
  by (simp add: bm_assert_block_size_def wp_simps)

text \<open>
  \<open>held rest (m, s)\<close>: the ownership invariant when \<open>rest\<close> counts the page references of all
  other sequences.
\<close>

definition held_by :: "(nat \<Rightarrow> nat) \<Rightarrow> nat list \<Rightarrow> nat \<Rightarrow> nat" where
  "held_by rest tab = (\<lambda>b. rest b + count_list tab b)"

definition held :: "(nat \<Rightarrow> nat) \<Rightarrow> mseq \<Rightarrow> bool" where
  "held rest st \<longleftrightarrow> bm_inv (held_by rest (sq_block_table (snd st))) (fst st)"

lemma held_by_push: "held_by rest (tab @ [b]) = (held_by rest tab)(b := held_by rest tab b + 1)"
  by (auto simp: held_by_def fun_eq_iff)

lemma held_by_Nil [simp]: "held_by rest [] = rest"
  by (simp add: held_by_def)

lemma held_by_mset: "mset tab = mset tab' \<Longrightarrow> held_by rest tab = held_by rest tab'"
  by (simp add: held_by_def mset_count_list[of tab tab'] fun_eq_iff)

definition free_of :: "manager \<Rightarrow> nat" where
  "free_of m = gp_free_count (bm_gpu m)"

lemma free_of_upd [simp]:
  "free_of (m\<lparr>bm_counters := c\<rparr>) = free_of m" "free_of (m\<lparr>bm_cache := ca\<rparr>) = free_of m"
  "free_of (m\<lparr>bm_cache_blocks := x\<rparr>) = free_of m" "free_of (m\<lparr>bm_gpu := p\<rparr>) = gp_free_count p"
  by (simp_all add: free_of_def)

lemma bm_inv_upd [simp]:
  "bm_inv own (m\<lparr>bm_counters := c\<rparr>) = bm_inv own m"
  by (simp add: bm_inv_def)

lemma bm_invD:
  assumes "bm_inv own m"
  shows "refs_ok own m" and "cache_ok m" and "gpu_inv (bm_gpu m)" and "distinct (keys (bm_cache m))"
    and "0 < bm_block_size m" and "map_of (bm_cache m) k = Some e \<Longrightarrow> entry_wf (bm_block_size m) k e"
proof -
  show 1: "refs_ok own m" and 2: "cache_ok m" using assms by (auto simp: bm_inv_def)
  show "gpu_inv (bm_gpu m)" by (rule refs_okD(1)[OF 1])
  show "distinct (keys (bm_cache m))" and "0 < bm_block_size m" using 2 by (auto simp: cache_ok_def)
  show "map_of (bm_cache m) k = Some e \<Longrightarrow> entry_wf (bm_block_size m) k e"
    using 2 by (auto simp: cache_ok_def dest!: map_of_SomeD)
qed

text \<open>A change of the pool only: configuration, cache and counters stay.\<close>

definition pool_only :: "manager \<Rightarrow> manager \<Rightarrow> bool" where
  "pool_only m t \<longleftrightarrow> (\<exists>p. t = m\<lparr>bm_gpu := p\<rparr>) \<and> same_config m t"

lemma pool_only_refl [simp]: "pool_only m m"
  unfolding pool_only_def by (metis manager.surjective manager.update_convs(4) same_config_refl)

lemma pool_only_trans: "pool_only m t \<Longrightarrow> pool_only t u \<Longrightarrow> pool_only m u"
  by (auto simp: pool_only_def intro: same_config_trans)

lemma pool_only_cache: "pool_only m t \<Longrightarrow> bm_cache t = bm_cache m \<and> bm_cache_blocks t = bm_cache_blocks m \<and>
    same_config m t"
  by (auto simp: pool_only_def)

lemma wp_alloc_page:
  assumes inv: "bm_inv own m"
    and ok: "\<And>b t. own b = 0 \<Longrightarrow> b \<notin> set (cache_pages None (bm_cache m)) \<Longrightarrow>
      bm_inv (own(b := own b + 1)) t \<Longrightarrow> pool_only m t \<Longrightarrow> free_of m = Suc (free_of t) \<Longrightarrow> Q b (t, s)"
    and full: "\<And>t. bm_inv own t \<Longrightarrow> pool_only m t \<Longrightarrow> free_of m = 0 \<Longrightarrow> E RuntimeError (t, s)"
  shows "wp bm_alloc_page Q E (m, s)"
  unfolding bm_alloc_page_def wp_on_mgr
  by (rule wp_alloc_owned[OF bm_invD(1)[OF inv]])
    (use bm_invD(2)[OF inv] in \<open>auto simp: bm_inv_def pool_only_def free_of_def intro!: ok full\<close>)

lemma wp_release_page:
  assumes inv: "bm_inv own m" and pos: "0 < own b"
    and ok: "\<And>r t. bm_inv (own(b := own b - 1)) t \<Longrightarrow> pool_only m t \<Longrightarrow>
      free_of t = free_of m + (if gp_ref (bm_gpu m) b = 1 then 1 else 0) \<Longrightarrow> Q r (t, s)"
  shows "wp (bm_release_page b) Q E (m, s)"
proof -
  have lt: "b < gp_capacity (bm_gpu m)" using owned_used[OF bm_invD(1)[OF inv]] pos by blast
  have rpos: "0 < gp_ref (bm_gpu m) b" using refs_okD(2)[OF bm_invD(1)[OF inv] lt] pos by simp
  show ?thesis
    unfolding bm_release_page_def wp_on_mgr
    by (rule wp_release_owned[OF bm_invD(1)[OF inv] pos])
      (use bm_invD(2)[OF inv] release_post_free_count[OF bm_invD(3)[OF inv] lt rpos] in
        \<open>auto simp: bm_inv_def pool_only_def free_of_def intro!: ok\<close>)
qed

lemma wp_retain_page:
  assumes inv: "bm_inv own m" and u: "0 < own b \<or> b \<in> set (cache_pages None (bm_cache m))"
    and ok: "\<And>t. bm_inv (own(b := own b + 1)) t \<Longrightarrow> pool_only m t \<Longrightarrow> free_of t = free_of m \<Longrightarrow> Q b (t, s)"
  shows "wp (bm_retain_page b) Q E (m, s)"
proof -
  note used = owned_used[OF bm_invD(1)[OF inv] u]
  have "0 < own b + count_list (cache_pages None (bm_cache m)) b"
    using u count_list_pos_iff[of "cache_pages None (bm_cache m)" b] by auto
  then have "0 < gp_ref (bm_gpu m) b" unfolding refs_okD(2)[OF bm_invD(1)[OF inv] used(2)] by linarith
  then show ?thesis
    unfolding bm_retain_page_def wp_on_mgr
    by (intro wp_retain_owned[OF bm_invD(1)[OF inv] used(1)])
      (use bm_invD(2)[OF inv] retain_post_free_count[OF bm_invD(3)[OF inv] used(2)] in
        \<open>auto simp: bm_inv_def pool_only_def free_of_def intro!: ok\<close>)
qed

lemma wp_ensure:
  assumes inv: "bm_inv own m"
    and ok: "\<And>t. required \<le> int (card (obtainable own prot m)) \<Longrightarrow> bm_inv own t \<Longrightarrow> same_config m t \<Longrightarrow>
      keeps prot m t \<Longrightarrow> required \<le> int (free_of t) \<Longrightarrow>
      (required \<le> int (free_of m) \<Longrightarrow> t = m) \<Longrightarrow> Q () (t, s)"
    and err: "\<And>t. int (card (obtainable own prot m)) < required \<Longrightarrow> bm_inv own t \<Longrightarrow> same_config m t \<Longrightarrow>
      keeps prot m t \<Longrightarrow> E RuntimeError (t, s)"
  shows "wp (on_mgr (bm_ensure_free required prot)) Q E (m, s)"
  unfolding wp_on_mgr
  by (rule wp_ensure_free[OF inv, where prot = prot]) (use ok err in \<open>auto simp: ensure_post_def free_of_def\<close>)

text \<open>Extending the page table by fresh pages.\<close>

definition extended :: "(nat \<Rightarrow> nat) \<Rightarrow> mseq \<Rightarrow> nat list \<Rightarrow> mseq \<Rightarrow> bool" where
  "extended rest st new t \<longleftrightarrow> held rest t \<and> pool_only (fst st) (fst t) \<and>
     snd t = (snd st)\<lparr>sq_block_table := sq_block_table (snd st) @ new\<rparr>"

lemma wp_grow:
  "held rest (m, s) \<Longrightarrow> wp (bm_grow k)
     (\<lambda>_ t. k \<le> free_of m \<and> (\<exists>new. length new = k \<and> extended rest (m, s) new t \<and> free_of (fst t) + k = free_of m))
     (\<lambda>_ t. free_of m < k \<and> (\<exists>new. extended rest (m, s) new t)) (m, s)"
proof (induction k arbitrary: m s)
  case 0
  have "s = s\<lparr>sq_block_table := sq_block_table s\<rparr>" by simp
  then show ?case using 0 by (simp add: wp_simps extended_def)
next
  case (Suc k)
  let ?own = "held_by rest (sq_block_table s)"
  have inv: "bm_inv ?own m" using Suc.prems by (simp add: held_def)
  show ?case unfolding bm_grow.simps wp_bnd
  proof (rule wp_alloc_page[OF inv])
    fix b t
    assume t: "bm_inv (?own(b := ?own b + 1)) t" "pool_only m t" "free_of m = Suc (free_of t)"
    let ?s = "s\<lparr>sq_block_table := sq_block_table s @ [b]\<rparr>"
    have h: "held rest (t, ?s)" using t(1) by (simp add: held_def held_by_push)
    have x: "extended rest (m, s) (b # new) u" if "extended rest (t, ?s) new u" for new u
      using that t(2) by (auto simp: extended_def intro: pool_only_trans)
    show "wp (thn (push_page b) (bm_grow k))
      (\<lambda>_ u. Suc k \<le> free_of m \<and> (\<exists>new. length new = Suc k \<and> extended rest (m, s) new u \<and>
          free_of (fst u) + Suc k = free_of m))
      (\<lambda>_ u. free_of m < Suc k \<and> (\<exists>new. extended rest (m, s) new u)) (t, s)"
      unfolding wp_simps
    proof (rule wp_mono[OF Suc.IH[OF h]])
      fix u assume "k \<le> free_of t \<and> (\<exists>new. length new = k \<and> extended rest (t, ?s) new u \<and>
        free_of (fst u) + k = free_of t)"
      then obtain new where "k \<le> free_of t" "length new = k" "extended rest (t, ?s) new u"
        "free_of (fst u) + k = free_of t" by blast
      then show "Suc k \<le> free_of m \<and> (\<exists>new. length new = Suc k \<and> extended rest (m, s) new u \<and>
          free_of (fst u) + Suc k = free_of m)"
        using x t(3) by (intro conjI exI[of _ "b # new"]) auto
    next
      fix u assume "free_of t < k \<and> (\<exists>new. extended rest (t, ?s) new u)"
      then obtain new where "free_of t < k" "extended rest (t, ?s) new u" by blast
      then show "free_of m < Suc k \<and> (\<exists>new. extended rest (m, s) new u)"
        using x t(3) by (intro conjI exI[of _ "b # new"]) auto
    qed
  next
    fix t assume t: "bm_inv ?own t" "pool_only m t" "free_of m = 0"
    have "extended rest (m, s) [] (t, s)" using t by (simp add: extended_def held_def)
    then show "free_of m < Suc k \<and> (\<exists>new. extended rest (m, s) new (t, s))" using t(3) by auto
  qed
qed

text \<open>Sharing pages that the cache owns never fails and takes no free page.\<close>

lemma wp_retain_pages:
  "held rest (m, s) \<Longrightarrow> set ids \<subseteq> set (cache_pages None (bm_cache m)) \<Longrightarrow>
   wp (retain_pages ids) (\<lambda>_ t. extended rest (m, s) ids t \<and> free_of (fst t) = free_of m) (\<lambda>_ _. False) (m, s)"
proof (induction ids arbitrary: m s)
  case Nil
  have "s = s\<lparr>sq_block_table := sq_block_table s\<rparr>" by simp
  then show ?case using Nil by (simp add: retain_pages_def wp_simps extended_def)
next
  case (Cons b ids)
  let ?own = "held_by rest (sq_block_table s)"
  have inv: "bm_inv ?own m" using Cons.prems(1) by (simp add: held_def)
  show ?case unfolding retain_pages_def each.simps wp_thn
  proof (rule wp_retain_page[OF inv])
    show "0 < ?own b \<or> b \<in> set (cache_pages None (bm_cache m))" using Cons.prems(2) by simp
    fix t assume t: "bm_inv (?own(b := ?own b + 1)) t" "pool_only m t" "free_of t = free_of m"
    let ?s = "s\<lparr>sq_block_table := sq_block_table s @ [b]\<rparr>"
    have h: "held rest (t, ?s)" using t(1) by (simp add: held_def held_by_push)
    have sub: "set ids \<subseteq> set (cache_pages None (bm_cache t))"
      using Cons.prems(2) pool_only_cache[OF t(2)] by simp
    have x: "extended rest (m, s) (b # ids) u" if "extended rest (t, ?s) ids u" for u
      using that t(2) by (auto simp: extended_def intro: pool_only_trans)
    have "wp (retain_pages ids) (\<lambda>_ u. extended rest (m, s) (b # ids) u \<and> free_of (fst u) = free_of m)
        (\<lambda>_ _. False) (t, ?s)"
      by (rule wp_mono[OF Cons.IH[OF h sub]]) (use x t(3) in auto)
    then show "wp (push_page b) (\<lambda>_. wp (each ids (\<lambda>b. thn (bm_retain_page b) (push_page b)))
        (\<lambda>_ u. extended rest (m, s) (b # ids) u \<and> free_of (fst u) = free_of m) (\<lambda>_ _. False))
        (\<lambda>_ _. False) (t, s)"
      by (simp add: wp_simps retain_pages_def)
  qed
qed

section \<open>Copy on write\<close>

definition spare :: "(nat \<Rightarrow> nat) \<Rightarrow> manager \<Rightarrow> nat set" where
  "spare rest m = {b. b < gp_capacity (bm_gpu m) \<and> rest b = 0 \<and> b \<notin> set (cache_pages None (bm_cache m))}"

lemma finite_spare [simp]: "finite (spare rest m)"
  by (simp add: spare_def)

lemma free_spare:
  assumes "held rest (m, s)"
  shows "free_of m = card (spare rest m - set (sq_block_table s))"
proof -
  have "{b. b < gp_capacity (bm_gpu m) \<and> held_by rest (sq_block_table s) b = 0 \<and>
      b \<notin> set (cache_pages None (bm_cache m))} = spare rest m - set (sq_block_table s)"
    by (auto simp: spare_def held_by_def count_list_0_iff)
  then show ?thesis
    using free_count_owned[of "held_by rest (sq_block_table s)" m] assms
    by (simp add: held_def bm_inv_def free_of_def)
qed

lemma free_spare_le:
  assumes "held rest (m, s)"
  shows "card (spare rest m) \<le> free_of m + length (sq_block_table s)"
proof -
  have "card (spare rest m) \<le> card (spare rest m - set (sq_block_table s)) + card (set (sq_block_table s))"
    by (metis List.finite_set card_Un_le card_mono finite_Diff finite_Un finite_spare le_trans
        Un_Diff_cancel2 Un_upper1 finite_UnI)
  then show ?thesis using free_spare[OF assms] card_length[of "sq_block_table s"] by simp
qed

text \<open>A page of the table that is shared leaves one more page free.\<close>

lemma free_spare_shared:
  assumes h: "held rest (m, s)" and i: "i < length (sq_block_table s)"
    and shared: "1 < gp_ref (bm_gpu m) (sq_block_table s ! i)"
  shows "card (spare rest m) < free_of m + length (sq_block_table s)"
proof -
  let ?tab = "sq_block_table s" and ?b = "sq_block_table s ! i"
  have inv: "refs_ok (held_by rest ?tab) m" using h by (simp add: held_def bm_inv_def)
  have mem: "?b \<in> set ?tab" using i by simp
  have lt: "?b < gp_capacity (bm_gpu m)"
    using owned_used[OF inv, of ?b] mem count_list_pos_iff[of ?tab ?b] by (simp add: held_by_def)
  have "1 < rest ?b + count_list ?tab ?b + count_list (cache_pages None (bm_cache m)) ?b"
    using refs_okD(2)[OF inv lt] shared by (simp add: held_by_def)
  then consider "?b \<notin> spare rest m" | "1 < count_list ?tab ?b"
    by (cases "?b \<in> spare rest m") (auto simp: spare_def)
  then have "card (spare rest m \<inter> set ?tab) < length ?tab"
  proof cases
    case 1
    have "card (spare rest m \<inter> set ?tab) \<le> card (set ?tab - {?b})"
      by (rule card_mono) (use 1 in auto)
    also have "\<dots> < card (set ?tab)" by (rule card_Diff1_less) (use mem in auto)
    finally show ?thesis using card_length[of ?tab] by simp
  next
    case 2
    then have "\<not> distinct ?tab" using count_list_distinct[of ?tab ?b] by (auto split: if_splits)
    then have "card (set ?tab) < length ?tab" using card_distinct[of ?tab] card_length[of ?tab] by linarith
    moreover have "card (spare rest m \<inter> set ?tab) \<le> card (set ?tab)" by (rule card_mono) auto
    ultimately show ?thesis by simp
  qed
  moreover have "card (spare rest m) = card (spare rest m - set ?tab) + card (spare rest m \<inter> set ?tab)"
    by (metis card_Diff_subset_Int finite_Int finite_spare inf_le1 card_mono le_add_diff_inverse2)
  ultimately show ?thesis using free_spare[OF h] by simp
qed

text \<open>Replacing one page of the table by a fresh one.\<close>

lemma held_by_replace:
  assumes "i < length tab"
  shows "held_by rest (tab[i := b]) =
    ((held_by rest tab)(b := held_by rest tab b + 1))(tab ! i := ((held_by rest tab)(b := held_by rest tab b + 1)) (tab ! i) - 1)"
proof -
  have split: "tab = take i tab @ tab ! i # drop (Suc i) tab" by (rule id_take_nth_drop[OF assms])
  have "tab[i := b] = take i tab @ b # drop (Suc i) tab" by (rule upd_conv_take_nth_drop[OF assms])
  moreover have "count_list tab x = count_list (take i tab) x + (if tab ! i = x then 1 else 0) + count_list (drop (Suc i) tab) x" for x
    using arg_cong[OF split, of "\<lambda>l. count_list l x"] by simp
  ultimately show ?thesis by (auto simp: held_by_def fun_eq_iff)
qed

lemma wp_replace_page:
  assumes h: "held rest (m, s)" and i: "i < length (sq_block_table s)" and free: "0 < free_of m"
    and ok: "\<And>b t. held rest (t, s\<lparr>sq_block_table := (sq_block_table s)[i := b]\<rparr>) \<Longrightarrow> pool_only m t \<Longrightarrow>
      b \<notin> set (sq_block_table s) \<Longrightarrow> rest b = 0 \<Longrightarrow> b \<notin> set (cache_pages None (bm_cache m)) \<Longrightarrow> gp_ref (bm_gpu t) b = 1 \<Longrightarrow>
      (1 < gp_ref (bm_gpu m) (sq_block_table s ! i) \<Longrightarrow> free_of m = Suc (free_of t)) \<Longrightarrow>
      R b (t, s)"
  shows "wp bm_alloc_page (\<lambda>b. wp (bm_release_page (sq_block_table s ! i)) (\<lambda>_. R b) E) E (m, s)"
proof -
  let ?tab = "sq_block_table s" and ?own = "held_by rest (sq_block_table s)"
  have inv: "bm_inv ?own m" using h by (simp add: held_def)
  show ?thesis
  proof (rule wp_alloc_page[OF inv])
    fix b t
    assume b: "?own b = 0" "b \<notin> set (cache_pages None (bm_cache m))"
      and t: "bm_inv (?own(b := ?own b + 1)) t" "pool_only m t" "free_of m = Suc (free_of t)"
    have nb: "b \<notin> set ?tab" "rest b = 0" using b(1) by (auto simp: held_by_def count_list_0_iff)
    have pos: "0 < (?own(b := ?own b + 1)) (?tab ! i)"
      using i count_list_pos_iff[of ?tab "?tab ! i"] by (simp add: held_by_def)
    show "wp (bm_release_page (?tab ! i)) (\<lambda>_. R b) E (t, s)"
    proof (rule wp_release_page[OF t(1) pos])
      fix r u
      assume u: "bm_inv ((?own(b := ?own b + 1))(?tab ! i := (?own(b := ?own b + 1)) (?tab ! i) - 1)) u"
        "pool_only t u" "free_of u = free_of t + (if gp_ref (bm_gpu t) (?tab ! i) = 1 then 1 else 0)"
      have hu: "held rest (u, s\<lparr>sq_block_table := ?tab[i := b]\<rparr>)"
        using u(1) held_by_replace[OF i, of rest b] by (simp add: held_def)
      have po: "pool_only m u" by (rule pool_only_trans[OF t(2) u(2)])
      have inv_u: "refs_ok (held_by rest (?tab[i := b])) u" using hu by (simp add: held_def bm_inv_def)
      have one: "held_by rest (?tab[i := b]) b = 1"
        using held_by_replace[OF i, of rest b] b(1) nb(1) i by auto
      have lt: "b < gp_capacity (bm_gpu u)" using owned_used[OF inv_u, of b] one by simp
      have "gp_ref (bm_gpu u) b = 1"
        unfolding refs_okD(2)[OF inv_u lt] one using b(2) pool_only_cache[OF po] by simp
      moreover have "free_of m = Suc (free_of u)" if "1 < gp_ref (bm_gpu m) (?tab ! i)"
      proof -
        have old: "?tab ! i < gp_capacity (bm_gpu m)" "?tab ! i \<noteq> b"
          using nb(1) i owned_used(2)[OF bm_invD(1)[OF inv], of "?tab ! i"] count_list_pos_iff[of ?tab "?tab ! i"]
          by (auto simp: held_by_def)
        have "gp_ref (bm_gpu t) (?tab ! i) = gp_ref (bm_gpu m) (?tab ! i)"
          using refs_okD(2)[OF bm_invD(1)[OF t(1)], of "?tab ! i"] refs_okD(2)[OF bm_invD(1)[OF inv], of "?tab ! i"]
            old pool_only_cache[OF t(2)] by (simp add: same_config_def)
        then show ?thesis using that u(3) t(3) by simp
      qed
      ultimately show "R b (u, s)" by (rule ok[OF hu po nb b(2)])
    qed
  next
    fix t assume "free_of m = 0"
    then show "E RuntimeError (t, s)" using free by simp
  qed
qed

text \<open>What copy-on-write leaves behind, also when it raises.\<close>

definition cow_post :: "(nat \<Rightarrow> nat) \<Rightarrow> mseq \<Rightarrow> (nat \<times> nat) option \<Rightarrow> mseq \<Rightarrow> bool" where
  "cow_post rest st r t \<longleftrightarrow> held rest t \<and> same_config (fst st) (fst t) \<and>
     (let tab = sq_block_table (snd st); tab' = sq_block_table (snd t) in
      snd t = (snd st)\<lparr>sq_block_table := tab'\<rparr> \<and>
      (case r of None \<Rightarrow> tab' = tab
       | Some (a, b) \<Rightarrow> tab \<noteq> [] \<and> a = last tab \<and> tab' = tab[length tab - 1 := b]) \<and>
      (tab \<noteq> [] \<longrightarrow> gp_ref (bm_gpu (fst t)) (last tab') \<le> 1))"

definition cow_error :: "(nat \<Rightarrow> nat) \<Rightarrow> mseq \<Rightarrow> mseq \<Rightarrow> bool" where
  "cow_error rest st t \<longleftrightarrow> held rest t \<and> same_config (fst st) (fst t) \<and> snd t = snd st"

lemma bm_matching_Some:
  "bm_matching s m = Inr (Some (k, e)) \<Longrightarrow> map_of (bm_cache m) k = Some e"
  by (auto simp: bm_matching_def Let_def res_simps split: option.splits if_splits)

lemma tail_held:
  assumes "held rest (m, s)" and "sq_block_table s \<noteq> []"
  shows "last (sq_block_table s) < gp_capacity (bm_gpu m)"
    and "0 < held_by rest (sq_block_table s) (last (sq_block_table s))"
proof -
  show pos: "0 < held_by rest (sq_block_table s) (last (sq_block_table s))"
    using assms(2) count_list_pos_iff[of "sq_block_table s" "last (sq_block_table s)"]
    by (simp add: held_by_def)
  have "refs_ok (held_by rest (sq_block_table s)) m" using assms(1) by (simp add: held_def bm_inv_def)
  then show "last (sq_block_table s) < gp_capacity (bm_gpu m)" using owned_used(2) pos by blast
qed

lemma wp_replace_tail:
  assumes h: "held rest (m, s)" and ne: "sq_block_table s \<noteq> []" and free: "0 < free_of m"
    and ok: "\<And>b t. held rest (t, s\<lparr>sq_block_table := (sq_block_table s)[length (sq_block_table s) - 1 := b]\<rparr>) \<Longrightarrow>
      pool_only m t \<Longrightarrow> gp_ref (bm_gpu t) b = 1 \<Longrightarrow> b \<notin> set (sq_block_table s) \<Longrightarrow> rest b = 0 \<Longrightarrow>
      b \<notin> set (cache_pages None (bm_cache m)) \<Longrightarrow>
      (1 < gp_ref (bm_gpu m) (last (sq_block_table s)) \<Longrightarrow> free_of m = Suc (free_of t)) \<Longrightarrow>
      Q (Some (last (sq_block_table s), b)) (t, s\<lparr>sq_block_table := (sq_block_table s)[length (sq_block_table s) - 1 := b]\<rparr>)"
  shows "wp (replace_tail (last (sq_block_table s))) Q E (m, s)"
proof -
  let ?i = "length (sq_block_table s) - 1"
  have i: "?i < length (sq_block_table s)" using ne by simp
  have l: "last (sq_block_table s) = sq_block_table s ! ?i" using ne by (simp add: last_conv_nth)
  have eq: "wp (thn (set_seq (\<lambda>s. s\<lparr>sq_block_table := (sq_block_table s)[length (sq_block_table s) - 1 := b]\<rparr>))
      (ret (Some (last (sq_block_table s), b)))) Q E st =
      Q (Some (last (sq_block_table s), b)) (fst st, (snd st)\<lparr>sq_block_table := (sq_block_table (snd st))[length (sq_block_table (snd st)) - 1 := b]\<rparr>)"
    for b st by (cases st) (simp add: wp_simps)
  show ?thesis
    unfolding replace_tail_def wp_bnd wp_thn[of "bm_release_page (last (sq_block_table s))"] eq
    unfolding l
    by (rule wp_replace_page[OF h i free]) (use ok in \<open>simp add: l\<close>)
qed

lemma wp_gp_block_at: "wp (on_mgr (on_gpu (gp_block b))) Q E (m, s) =
    (if b < gp_capacity (bm_gpu m) then Q (gp_blocks (bm_gpu m) ! b) (m, s) else E IndexError (m, s))"
  by (simp add: wp_simps)

lemma wp_cow_finish:
  assumes h: "held rest (t, s)" and sc: "same_config m t" and ne: "sq_block_table s \<noteq> []" and free: "0 < free_of t"
  shows "wp (cow_finish (last (sq_block_table s))) (cow_post rest (m, s)) E (t, s)"
proof (cases "gp_ref (bm_gpu t) (last (sq_block_table s)) \<le> 1")
  case True
  then show ?thesis using tail_held(1)[OF h ne] h sc ne
    by (simp add: cow_finish_def wp_bnd wp_gp_block_at wp_ret cow_post_def Let_def gp_ref_def)
next
  case False
  have "wp (replace_tail (last (sq_block_table s))) (cow_post rest (m, s)) E (t, s)"
    by (rule wp_replace_tail[OF h ne free])
      (use ne sc in \<open>auto simp: cow_post_def Let_def last_list_update intro: same_config_trans dest: pool_only_cache\<close>)
  then show ?thesis using False tail_held(1)[OF h ne]
    by (simp add: cow_finish_def wp_bnd wp_gp_block_at gp_ref_def)
qed

lemma wp_copy_on_write:
  assumes h: "held rest (m, s)" and bs: "sq_block_size s = bm_block_size m"
  shows "wp bm_copy_on_write (cow_post rest (m, s)) (\<lambda>_. cow_error rest (m, s)) (m, s)"
proof (cases "sq_block_table s = []")
  case True
  then show ?thesis using h bs by (simp add: bm_copy_on_write_def wp_simps cow_post_def)
next
  case ne: False
  let ?tail = "last (sq_block_table s)"
  let ?Q = "cow_post rest (m, s)" and ?E = "\<lambda>_::py_error. cow_error rest (m, s)"
  have lt: "?tail < gp_capacity (bm_gpu m)" by (rule tail_held(1)[OF h ne])
  have inv: "bm_inv (held_by rest (sq_block_table s)) m" using h by (simp add: held_def)
  have refl: "cow_error rest (m, s) (m, s)" using h by (simp add: cow_error_def)
  have err: "cow_error rest (m, s) (t, s)" if "bm_inv (held_by rest (sq_block_table s)) t" "same_config m t" for t
    using that by (simp add: cow_error_def held_def)
  show ?thesis
  proof (cases "gp_ref (bm_gpu m) ?tail \<le> 1")
    case True
    then show ?thesis using ne lt bs h
      by (simp add: bm_copy_on_write_def wp_simps Let_def cow_post_def gp_ref_def)
  next
    case shared: False
    show ?thesis
    proof (cases "bm_matching s m")
      case (Inl e)
      then show ?thesis using ne lt bs shared refl
        by (simp add: bm_copy_on_write_def wp_simps Let_def gp_ref_def)
    next
      case (Inr mt)
      have fin: "wp (if priv then ret None else cow_finish ?tail) ?Q ?E (t, s)"
        if "bm_inv (held_by rest (sq_block_table s)) t" "same_config m t"
          "if priv then gp_ref (bm_gpu t) ?tail \<le> 1 else 0 < free_of t" for priv t
        using that wp_cow_finish[of rest t s m] ne
        by (cases priv) (auto simp: held_def wp_ret cow_post_def Let_def)
      have fallback: "wp (cow_fallback ?tail mt RuntimeError)
          (\<lambda>priv. wp (if priv then ret None else cow_finish ?tail) ?Q ?E) ?E (t, s)"
        if t: "bm_inv (held_by rest (sq_block_table s)) t" "same_config m t" "keeps (map_option fst mt) m t" for t
      proof (cases mt)
        case None
        then show ?thesis using err[OF t(1,2)] by (simp add: cow_fallback_def wp_simps)
      next
        case (Some x)
        obtain k e where x: "x = (k, e)" by (cases x)
        have k: "map_of (bm_cache t) k = Some e"
          using bm_matching_Some[of s m k e] Inr Some x t(3) by (simp add: keeps_def protected_def)
        show ?thesis
        proof (cases "?tail \<in> set (en_pages e)")
          case False
          then show ?thesis using err[OF t(1,2)] Some x k by (simp add: cow_fallback_def wp_simps Let_def)
        next
          case True
          have "wp (bm_evict k) (\<lambda>_ u. wp (bnd (on_mgr (on_gpu (gp_block ?tail))) (\<lambda>blk.
                if blk_ref blk \<le> 1 then ret True else thn (on_mgr (bm_ensure_free 1 None)) (ret False)))
              (\<lambda>priv. wp (if priv then ret None else cow_finish ?tail) ?Q ?E) ?E (u, s)) (\<lambda>e u. ?E e (u, s)) t"
          proof (rule wp_evict[OF t(1) k])
            fix u assume u: "bm_inv (held_by rest (sq_block_table s)) u" "same_config t u"
            have sc: "same_config m u" by (rule same_config_trans[OF t(2) u(2)])
            have ltu: "?tail < gp_capacity (bm_gpu u)" using lt sc by (simp add: same_config_def)
            have "wp (on_mgr (bm_ensure_free 1 None)) (\<lambda>_. wp (cow_finish ?tail) ?Q ?E) ?E (u, s)"
            proof (rule wp_ensure[OF u(1)])
              fix v assume v: "bm_inv (held_by rest (sq_block_table s)) v" "same_config u v" "1 \<le> int (free_of v)"
              then show "wp (cow_finish ?tail) ?Q ?E (v, s)"
                using fin[of v False] same_config_trans[OF sc v(2)] by simp
            next
              fix v assume v: "bm_inv (held_by rest (sq_block_table s)) v" "same_config u v"
              then show "?E RuntimeError (v, s)" using err same_config_trans[OF sc v(2)] by simp
            qed
            then show "wp (bnd (on_mgr (on_gpu (gp_block ?tail))) (\<lambda>blk.
                if blk_ref blk \<le> 1 then ret True else thn (on_mgr (bm_ensure_free 1 None)) (ret False)))
              (\<lambda>priv. wp (if priv then ret None else cow_finish ?tail) ?Q ?E) ?E (u, s)"
              using fin[OF u(1) sc, of True] ltu
              by (simp add: wp_bnd wp_gp_block_at wp_thn wp_ret_eta wp_ret gp_ref_def)
          qed
          then show ?thesis using Some x k True
            by (simp add: cow_fallback_def wp_bnd wp_thn wp_get_set wp_on_mgr Let_def)
        qed
      qed
      have "wp (on_mgr (bm_ensure_free 1 (map_option fst mt)))
          (\<lambda>_. wp (cow_finish ?tail) ?Q ?E)
          (\<lambda>e. wp (cow_fallback ?tail mt e) (\<lambda>priv. wp (if priv then ret None else cow_finish ?tail) ?Q ?E) ?E) (m, s)"
        by (rule wp_ensure[OF inv]) (use fin[of _ False] fallback in auto)
      then show ?thesis using ne lt bs shared Inr
        by (simp add: bm_copy_on_write_def wp_bnd wp_thn wp_get_set wp_gp_block_at
            wp_lift_res wp_catch wp_ret_eta wp_assert_block_size Let_def gp_ref_def)
    qed
  qed
qed

section \<open>Dense allocation\<close>

text \<open>The block hashes of a sequence can be computed: its tokens fit 64 bits, for example.\<close>

definition hash_range :: "int \<Rightarrow> bool" where
  "hash_range h \<longleftrightarrow> h = NO_BLOCK_HASH \<or> 0 \<le> h \<and> h < 2 ^ 64"

definition hashes_defined :: "hash_fun \<Rightarrow> manager \<Rightarrow> sequence \<Rightarrow> bool" where
  "hashes_defined xx m s \<longleftrightarrow> (\<forall>i < sq_num_blocks s. \<forall>p. hash_range p \<longrightarrow>
     is_ok (bm_block_hash_and_mm xx m s i p))"

lemma compute_hash_range: "compute_hash xx toks p mm = Inr h \<Longrightarrow> 0 \<le> h \<and> h < 2 ^ 64"
  using uint_lt2p[where 'a = 64] by (auto simp: compute_hash_def res_simps)

lemma block_hash_range: "bm_block_hash_and_mm xx m s i p = Inr (h, mm) \<Longrightarrow> hash_range h"
  by (auto simp: bm_block_hash_and_mm_def res_simps Let_def hash_range_def dest: compute_hash_range split: if_splits)

definition dense_state :: "mseq \<Rightarrow> mseq \<Rightarrow> bool" where
  "dense_state st t \<longleftrightarrow> same_config (fst st) (fst t) \<and> bm_cache (fst t) = bm_cache (fst st) \<and>
     bm_cache_blocks (fst t) = bm_cache_blocks (fst st) \<and>
     (\<exists>tab c. snd t = (snd st)\<lparr>sq_block_table := tab, sq_num_cached_tokens := c\<rparr>)"

lemma dense_state_refl: "dense_state st st"
  by (cases st) (auto simp: dense_state_def intro!: exI[of _ "sq_block_table (snd st)"] exI[of _ "sq_num_cached_tokens (snd st)"])

lemma dense_state_trans: "dense_state st t \<Longrightarrow> dense_state t u \<Longrightarrow> dense_state st u"
  unfolding dense_state_def by (auto intro: same_config_trans) (intro exI, rule refl)

lemma dense_state_pool: "pool_only m t \<Longrightarrow> dense_state (m, s) (t, s\<lparr>sq_block_table := tab\<rparr>)"
  using dense_state_refl[of "(m, s)"]
  by (auto simp: dense_state_def dest: pool_only_cache intro!: exI[of _ tab] exI[of _ "sq_num_cached_tokens s"])

lemma same_config_fields:
  "same_config m t \<Longrightarrow> bm_block_size t = bm_block_size m \<and> bm_enable_prefix t = bm_enable_prefix m \<and>
     bm_block_level t = bm_block_level m \<and> bm_cpu t = bm_cpu m \<and> gp_capacity (bm_gpu t) = gp_capacity (bm_gpu m)"
  by (simp add: same_config_def)

lemma sequence_view_upd [simp]:
  "sq_num_blocks (s\<lparr>sq_block_table := tab\<rparr>) = sq_num_blocks s"
  "sq_num_blocks (s\<lparr>sq_num_cached_tokens := c\<rparr>) = sq_num_blocks s"
  "sq_block i (s\<lparr>sq_block_table := tab\<rparr>) = sq_block i s"
  "sq_block i (s\<lparr>sq_num_cached_tokens := c\<rparr>) = sq_block i s"
  "sq_is_multimodal (s\<lparr>sq_block_table := tab\<rparr>) = sq_is_multimodal s"
  "sq_is_multimodal (s\<lparr>sq_num_cached_tokens := c\<rparr>) = sq_is_multimodal s"
  "sq_image_token_spans (s\<lparr>sq_block_table := tab\<rparr>) = sq_image_token_spans s"
  "sq_image_token_spans (s\<lparr>sq_num_cached_tokens := c\<rparr>) = sq_image_token_spans s"
  "bm_hashable m (s\<lparr>sq_block_table := tab\<rparr>) = bm_hashable m s"
  "bm_hashable m (s\<lparr>sq_num_cached_tokens := c\<rparr>) = bm_hashable m s"
  "sq_mm_token_hashes_for_block i bs (s\<lparr>sq_block_table := tab\<rparr>) = sq_mm_token_hashes_for_block i bs s"
  "sq_mm_token_hashes_for_block i bs (s\<lparr>sq_num_cached_tokens := c\<rparr>) = sq_mm_token_hashes_for_block i bs s"
  "sq_mm_prefix_boundary (s\<lparr>sq_block_table := tab\<rparr>) = sq_mm_prefix_boundary s"
  "sq_mm_prefix_boundary (s\<lparr>sq_num_cached_tokens := c\<rparr>) = sq_mm_prefix_boundary s"
  "sq_prompt_token_ids (s\<lparr>sq_block_table := tab\<rparr>) = sq_prompt_token_ids s"
  "sq_prompt_token_ids (s\<lparr>sq_num_cached_tokens := c\<rparr>) = sq_prompt_token_ids s"
  by (simp_all add: sq_num_blocks_def sq_block_def sq_is_multimodal_def sq_image_token_spans_def
      sq_image_pad_runs_def sq_prompt_token_ids_def bm_hashable_def sq_mm_token_hashes_for_block_def
      sq_mm_prefix_boundary_def cong: if_cong option.case_cong)

lemma bm_hashable_config: "same_config m t \<Longrightarrow> bm_hashable t s = bm_hashable m s"
  by (simp add: bm_hashable_def same_config_def)

lemma block_hash_dense_state:
  "dense_state (m, s) (m', s') \<Longrightarrow> bm_block_hash_and_mm xx m' s' i p = bm_block_hash_and_mm xx m s i p"
  by (auto simp: dense_state_def bm_block_hash_and_mm_def same_config_fields bm_hashable_config cong: if_cong)

lemma dense_state_num_blocks: "dense_state (m, s) (m', s') \<Longrightarrow> sq_num_blocks s' = sq_num_blocks s"
  by (auto simp: dense_state_def)

lemma hashes_defined_dense_state:
  assumes "dense_state (m, s) (m', s')"
  shows "hashes_defined xx m' s' = hashes_defined xx m s"
  unfolding hashes_defined_def block_hash_dense_state[OF assms] dense_state_num_blocks[OF assms] ..

lemma spare_cong: "same_config m t \<Longrightarrow> bm_cache t = bm_cache m \<Longrightarrow> spare rest t = spare rest m"
  by (simp add: spare_def same_config_def)

lemma wp_retain_used:
  assumes inv: "bm_inv own m" and u: "b \<in> gp_used (bm_gpu m)"
    and ok: "\<And>t. bm_inv (own(b := own b + 1)) t \<Longrightarrow> pool_only m t \<Longrightarrow> Q b (t, s)"
  shows "wp (bm_retain_page b) Q E (m, s)"
  unfolding bm_retain_page_def wp_on_mgr
  by (rule wp_retain_owned[OF bm_invD(1)[OF inv] u])
    (use bm_invD(2)[OF inv] in \<open>auto simp: bm_inv_def pool_only_def intro!: ok\<close>)

lemma wp_if_lift:
  "wp (if c then lift_res r else ret x) Q E st = (case (if c then r else Inr x) of Inl e \<Rightarrow> E e st | Inr y \<Rightarrow> Q y st)"
  by (simp add: wp_simps)

lemma wp_lookup_if:
  "gpu_inv (bm_gpu m) \<Longrightarrow> wp (if c then ret None else bm_lookup h toks mm) Q E (m, s) =
     Q (if c then None else found (bm_gpu m) h toks mm) (m, s)"
  by (simp add: bm_lookup_def wp_simps wp_gp_lookup)

text \<open>The page at position \<open>i\<close> of the table has no other reference.\<close>

definition own_page :: "(nat \<Rightarrow> nat) \<Rightarrow> manager \<Rightarrow> nat list \<Rightarrow> nat \<Rightarrow> bool" where
  "own_page rest m tab i \<longleftrightarrow>
     rest (tab ! i) + count_list tab (tab ! i) + count_list (cache_pages None (bm_cache m)) (tab ! i) = 1"

lemma own_page_ref:
  assumes "held rest (m, s)" and "i < length (sq_block_table s)"
  shows "own_page rest m (sq_block_table s) i \<longleftrightarrow> gp_ref (bm_gpu m) (sq_block_table s ! i) \<le> 1"
proof -
  have inv: "refs_ok (held_by rest (sq_block_table s)) m" using assms(1) by (simp add: held_def bm_inv_def)
  have pos: "0 < count_list (sq_block_table s) (sq_block_table s ! i)"
    using assms(2) count_list_pos_iff by fastforce
  then have lt: "sq_block_table s ! i < gp_capacity (bm_gpu m)"
    using owned_used(2)[OF inv] by (simp add: held_by_def)
  show ?thesis unfolding own_page_def refs_okD(2)[OF inv lt] held_by_def using pos by linarith
qed

lemma own_page_push:
  assumes "i < length tab \<Longrightarrow> own_page rest m tab i" and "i < Suc (length tab)"
    and "rest b = 0" "b \<notin> set tab" "b \<notin> set (cache_pages None (bm_cache m))" and "bm_cache t = bm_cache m"
  shows "own_page rest t (tab @ [b]) i"
proof (cases "i < length tab")
  case True
  then have "tab ! i \<noteq> b" using assms(4) by auto
  then show ?thesis using assms(1)[OF True] True assms(6) by (simp add: own_page_def nth_append)
next
  case False
  then show ?thesis using assms by (simp add: own_page_def nth_append)
qed

lemma own_page_replace:
  assumes i: "i < length tab" and j: "j < length tab" and own: "j \<noteq> i \<Longrightarrow> own_page rest m tab j"
    and b: "rest b = 0" "b \<notin> set tab" "b \<notin> set (cache_pages None (bm_cache m))" and "bm_cache t = bm_cache m"
  shows "own_page rest t (tab[i := b]) j"
proof -
  have split: "tab = take i tab @ tab ! i # drop (Suc i) tab" by (rule id_take_nth_drop[OF i])
  have upd: "tab[i := b] = take i tab @ b # drop (Suc i) tab" by (rule upd_conv_take_nth_drop[OF i])
  have cnt: "count_list tab x = count_list (take i tab) x + (if tab ! i = x then 1 else 0) + count_list (drop (Suc i) tab) x"
    "count_list (tab[i := b]) x = count_list (take i tab) x + (if b = x then 1 else 0) + count_list (drop (Suc i) tab) x" for x
    using arg_cong[OF split, of "\<lambda>l. count_list l x"] arg_cong[OF upd, of "\<lambda>l. count_list l x"] by simp_all
  have nb: "count_list (take i tab) b = 0" "count_list (drop (Suc i) tab) b = 0"
    using b(2) by (auto simp: count_list_0_iff dest: in_set_takeD in_set_dropD)
  show ?thesis
  proof (cases "j = i")
    case True
    then show ?thesis using i b nb cnt(2)[of b] assms(7) by (simp add: own_page_def)
  next
    case False
    have ne: "tab ! j \<noteq> b" using b(2) j by auto
    have ne2: "tab ! i \<noteq> tab ! j"
    proof
      assume eq: "tab ! i = tab ! j"
      then have "\<not> distinct tab" using False i j by (auto simp: distinct_conv_nth)
      have "1 < count_list tab (tab ! j)"
      proof -
        have "tab ! j \<in> set (take i tab) \<or> tab ! j \<in> set (drop (Suc i) tab)"
        proof (cases "j < i")
          case True
          then have "take i tab ! j = tab ! j" and "j < length (take i tab)" using i by auto
          then show ?thesis by (metis nth_mem)
        next
          case ge: False
          then have "drop (Suc i) tab ! (j - Suc i) = tab ! j" and "j - Suc i < length (drop (Suc i) tab)"
            using False j by auto
          then show ?thesis by (metis nth_mem)
        qed
        then show ?thesis using cnt(1)[of "tab ! j"] eq
          count_list_pos_iff[of "take i tab" "tab ! j"] count_list_pos_iff[of "drop (Suc i) tab" "tab ! j"] by auto
      qed
      then show False using own[OF False] by (simp add: own_page_def)
    qed
    show ?thesis using own[OF False] ne ne2 False cnt[of "tab ! j"] assms(7) by (simp add: own_page_def)
  qed
qed

text \<open>
  The pages from the first one that is not a cache hit are the sequence's own: those are the pages
  prefill writes to.
\<close>

definition hits_then_own :: "(nat \<Rightarrow> nat) \<Rightarrow> mseq \<Rightarrow> bool \<Rightarrow> bool" where
  "hits_then_own rest st miss \<longleftrightarrow> (case st of (m, s) \<Rightarrow>
     \<exists>k. sq_num_cached_tokens s = k * bm_block_size m \<and> k \<le> length (sq_block_table s) \<and>
       (\<not> miss \<longrightarrow> k = length (sq_block_table s)) \<and>
       (\<forall>i. k \<le> i \<longrightarrow> i < length (sq_block_table s) \<longrightarrow> own_page rest m (sq_block_table s) i))"

lemma hits_then_own_miss: "hits_then_own rest st miss \<Longrightarrow> hits_then_own rest st True"
  by (auto simp: hits_then_own_def split: prod.splits)

lemma wp_dense_loop:
  "held rest (m, s) \<Longrightarrow> length (sq_block_table s) + length is \<le> card (spare rest m) \<Longrightarrow>
   \<forall>i \<in> set is. i < sq_num_blocks s \<Longrightarrow> hash_range h \<Longrightarrow> hits_then_own rest (m, s) miss \<Longrightarrow>
   wp (bm_dense_loop xx is h miss)
     (\<lambda>_ t. held rest t \<and> dense_state (m, s) t \<and> hits_then_own rest t True \<and>
        length (sq_block_table (snd t)) = length (sq_block_table s) + length is)
     (\<lambda>_ t. held rest t \<and> dense_state (m, s) t \<and> \<not> hashes_defined xx m s) (m, s)"
proof (induction "is" arbitrary: m s h miss)
  case Nil
  then show ?case by (auto simp: wp_simps dense_state_refl intro: hits_then_own_miss)
next
  case (Cons i js)
  let ?own = "held_by rest (sq_block_table s)"
  let ?Q = "\<lambda>m s n t. held rest t \<and> dense_state (m, s) t \<and> hits_then_own rest t True \<and>
        length (sq_block_table (snd t)) = length (sq_block_table s) + n"
  let ?E = "\<lambda>m s t. held rest t \<and> dense_state (m, s) t \<and> \<not> hashes_defined xx m s"
  have inv: "bm_inv ?own m" using Cons.prems(1) by (simp add: held_def)
  have free: "0 < free_of m" using free_spare_le[OF Cons.prems(1)] Cons.prems(2) by simp
  have i: "i < sq_num_blocks s" using Cons.prems(3) by simp
  obtain toks where toks: "sq_block i s = Inr toks" using i by (simp add: sq_block_def)
  have tail: "wp (thn (push_page b) (bm_dense_loop xx js h' miss')) (\<lambda>_. ?Q m s (length (i # js))) (\<lambda>_. ?E m s) (t, s')"
    if t: "bm_inv (?own(b := ?own b + 1)) t" "dense_state (m, s) (t, s')" "sq_block_table s' = sq_block_table s"
      and h': "hash_range h'"
      and hits: "hits_then_own rest (t, s'\<lparr>sq_block_table := sq_block_table s @ [b]\<rparr>) miss'" for b t s' h' miss'
  proof -
    let ?s = "s'\<lparr>sq_block_table := sq_block_table s @ [b]\<rparr>"
    have hd: "held rest (t, ?s)" using t(1) by (simp add: held_def held_by_push)
    have ds: "dense_state (m, s) (t, ?s)"
      using dense_state_trans[OF t(2) dense_state_pool[OF pool_only_refl]] by simp
    have sp: "spare rest t = spare rest m" using t(2) by (intro spare_cong) (auto simp: dense_state_def)
    have nb: "sq_num_blocks ?s = sq_num_blocks s" by (rule dense_state_num_blocks[OF ds])
    have "wp (bm_dense_loop xx js h' miss') (\<lambda>_. ?Q t ?s (length js)) (\<lambda>_. ?E t ?s) (t, ?s)"
      by (rule Cons.IH[OF hd]) (use Cons.prems(2,3) sp nb h' hits in simp_all)
    then have "wp (bm_dense_loop xx js h' miss') (\<lambda>_. ?Q m s (length (i # js))) (\<lambda>_. ?E m s) (t, ?s)"
      by (rule wp_mono) (use ds hashes_defined_dense_state[OF ds] in \<open>auto intro: dense_state_trans\<close>)
    then show ?thesis using t(3) by (simp add: wp_thn wp_get_set)
  qed
  have self: "?E m s (m, s)" if "\<not> hashes_defined xx m s" using that Cons.prems(1) by (simp add: dense_state_refl)
  define hashing where "hashing \<longleftrightarrow> bm_enable_prefix m \<and> length toks = bm_block_size m \<and> bm_hashable m s"
  show ?case
  proof (cases "if hashing then bm_block_hash_and_mm xx m s i h else Inr (NO_BLOCK_HASH, None)")
    case (Inl e)
    have "\<not> hashes_defined xx m s"
    proof
      assume "hashes_defined xx m s"
      then have "is_ok (bm_block_hash_and_mm xx m s i h)" using i Cons.prems(4) by (simp add: hashes_defined_def)
      then show False using Inl by (auto simp: is_ok_def split: if_splits)
    qed
    then show ?thesis
      unfolding bm_dense_loop.simps
      using self Inl by (simp add: wp_bnd wp_get_set wp_lift_res toks wp_if_lift hashing_def[symmetric])
  next
    case (Inr y)
    obtain h' mm where y: "y = (h', mm)" by (cases y)
    have h': "hash_range h'"
      using Inr y block_hash_range[of xx m s i h h' mm] by (auto simp: hash_range_def split: if_splits)
    define skip where "skip \<longleftrightarrow> miss \<or> (sq_num_prompt_tokens s mod bm_block_size m = 0 \<and> i + 1 = sq_num_blocks s)"
    have fresh: "wp bm_alloc_page (\<lambda>b. wp (thn (push_page b) (bm_dense_loop xx js h' True))
        (\<lambda>_. ?Q m s (length (i # js))) (\<lambda>_. ?E m s)) (\<lambda>_. ?E m s) (n, s)"
      if "n = m \<or> n = m\<lparr>bm_counters := c\<rparr>" for n c
    proof -
      have invn: "bm_inv ?own n" and fn: "free_of n = free_of m" using that inv by auto
      have dsn: "dense_state (m, s) (t, s)" if "pool_only n t" for t
        using \<open>n = m \<or> n = m\<lparr>bm_counters := c\<rparr>\<close> that dense_state_refl[of "(m, s)"]
        by (auto simp: dense_state_def dest!: pool_only_cache simp: same_config_def)
      have hits: "hits_then_own rest (t, s\<lparr>sq_block_table := sq_block_table s @ [b]\<rparr>) True"
        if "?own b = 0" "b \<notin> set (cache_pages None (bm_cache n))" "pool_only n t" for b t
      proof -
        have c: "bm_cache t = bm_cache m" "bm_block_size t = bm_block_size m" "bm_cache n = bm_cache m"
          using dsn[OF that(3)] \<open>n = m \<or> n = m\<lparr>bm_counters := c\<rparr>\<close> by (auto simp: dense_state_def same_config_def)
        obtain k where k: "sq_num_cached_tokens s = k * bm_block_size m" "k \<le> length (sq_block_table s)"
          "\<And>i. k \<le> i \<Longrightarrow> i < length (sq_block_table s) \<Longrightarrow> own_page rest m (sq_block_table s) i"
          using Cons.prems(5) by (auto simp: hits_then_own_def)
        have nb: "rest b = 0" "b \<notin> set (sq_block_table s)" "b \<notin> set (cache_pages None (bm_cache m))"
          using that(1,2) c(3) by (auto simp: held_by_def count_list_0_iff)
        have "own_page rest t (sq_block_table s @ [b]) i" if "k \<le> i" "i < Suc (length (sq_block_table s))" for i
          by (rule own_page_push[OF k(3)[OF that(1)] that(2) nb c(1)])
        then show ?thesis using k(1,2) c(2) by (auto simp: hits_then_own_def intro!: exI[of _ k])
      qed
      show ?thesis
        by (rule wp_alloc_page[OF invn]) (use tail[OF _ dsn refl h' hits] fn free in auto)
    qed
    show ?thesis
    proof (cases "if skip then None else found (bm_gpu m) h' toks mm")
      case None
      have "wp (thn (if h' \<noteq> NO_BLOCK_HASH then count_event (\<lambda>c. c\<lparr>ct_miss_blocks := ct_miss_blocks c + 1\<rparr>) else ret ())
          (bnd bm_alloc_page (\<lambda>b. thn (push_page b) (bm_dense_loop xx js h' True))))
          (\<lambda>_. ?Q m s (length (i # js))) (\<lambda>_. ?E m s) (m, s)"
        using fresh[OF disjI1[OF refl]] fresh[OF disjI2[OF refl]]
        by (cases "h' = NO_BLOCK_HASH") (simp_all add: wp_thn wp_bnd wp_get_set wp_ret)
      then show ?thesis
        unfolding bm_dense_loop.simps
        by (simp only: wp_bnd wp_get_set wp_lift_res toks sum.case wp_if_lift hashing_def[symmetric] Inr y
            prod.case skip_def[symmetric] wp_lookup_if[OF bm_invD(3)[OF inv]] None option.case)
    next
      case (Some c)
      then have u: "c \<in> gp_used (bm_gpu m)"
        using found_used[OF bm_invD(3)[OF inv]] by (auto split: if_splits)
      let ?n = "m\<lparr>bm_counters := (bm_counters m)\<lparr>ct_reused_blocks := ct_reused_blocks (bm_counters m) + 1\<rparr>\<rparr>"
      let ?s' = "s\<lparr>sq_num_cached_tokens := sq_num_cached_tokens s + bm_block_size m\<rparr>"
      have invn: "bm_inv ?own ?n" using inv by simp
      have dsn: "dense_state (m, s) (t, ?s')" if "pool_only ?n t" for t
        using that by (auto simp: dense_state_def dest!: pool_only_cache simp: same_config_def
            intro!: exI[of _ "sq_block_table s"] exI[of _ "sq_num_cached_tokens s + bm_block_size m"])
      have "\<not> miss" using Some by (simp add: skip_def split: if_splits)
      then have hits: "hits_then_own rest (t, ?s'\<lparr>sq_block_table := sq_block_table s @ [b]\<rparr>) miss"
        if "pool_only ?n t" for b t
        using Cons.prems(5) pool_only_cache[OF that] by (auto simp: hits_then_own_def same_config_def)
      have "wp (bm_retain_page c) (\<lambda>b. wp (thn (push_page b) (bm_dense_loop xx js h' miss))
          (\<lambda>_. ?Q m s (length (i # js))) (\<lambda>_. ?E m s)) (\<lambda>_. ?E m s) (?n, ?s')"
        by (rule wp_retain_used[OF invn]) (use u tail[OF _ dsn _ h' hits] in auto)
      then show ?thesis
        unfolding bm_dense_loop.simps
        by (simp only: wp_bnd wp_thn wp_get_set wp_lift_res toks sum.case wp_if_lift hashing_def[symmetric] Inr y
            prod.case skip_def[symmetric] wp_lookup_if[OF bm_invD(3)[OF inv]] Some option.case)
    qed
  qed
qed

end
