(* ===== verification/Block_Transfer.thy ===== *)
theory Block_Transfer imports Block_Manager begin

text \<open>
  \<open>prism_infer/engine/block_manager.py\<close>, the operations of \<open>BlockManager\<close> on a running
  sequence: admission of a computed multimodal prefix to the cache, decode growth, publication of
  computed pages in the hash index, and swapping between the GPU and the CPU pool.
\<close>

section \<open>Prefix admission\<close>

definition store_loop_body :: "rat \<Rightarrow> (bool option, manager) op" where
  "store_loop_body utility =
     bnd (bm_drop_idle_tail None) (\<lambda>dropped.
     if dropped then ret None
     else bnd (gets (bm_eviction_candidate None)) (\<lambda>c. case c of
         None \<Rightarrow> ret (Some False)
       | Some k \<Rightarrow> bnd (gets (\<lambda>m. map_of (bm_cache m) k)) (\<lambda>x. case x of
             None \<Rightarrow> throw KeyError
           | Some e \<Rightarrow> if utility \<le> en_benefit_per_block e then ret (Some False)
                       else thn (bm_evict k) (ret None))))"

lemma store_loop_body_weight:
  assumes "store_loop_body u m = (Inr None, t)"
  shows "cache_weight (bm_cache t) < cache_weight (bm_cache m)"
proof -
  obtain r v where d: "bm_drop_idle_tail None m = (r, v)" by (cases "bm_drop_idle_tail None m")
  show ?thesis
  proof (cases r)
    case (Inr dropped)
    then show ?thesis
      using assms d drop_weight[of None m v] drop_false[of None m v] evict_weight[of _ v]
      by (cases dropped)
         (auto simp: store_loop_body_def bnd_def thn_def ret_def gets_def throw_def
           split: option.splits prod.splits sum.splits if_splits)
  qed (use assms d in \<open>simp add: store_loop_body_def bnd_def\<close>)
qed

text \<open>The \<open>while\<close> loop that makes room: the result says whether there is room.\<close>

function bm_store_loop :: "rat \<Rightarrow> nat \<Rightarrow> (bool, manager) op" where
  "bm_store_loop utility needed m =
    (if bm_cache_blocks m + int needed \<le> int (bm_cache_max m) then (Inr True, m)
     else (case store_loop_body utility m of
        (Inl e, t) \<Rightarrow> (Inl e, t)
      | (Inr (Some r), t) \<Rightarrow> (Inr r, t)
      | (Inr None, t) \<Rightarrow> bm_store_loop utility needed t))"
  by pat_completeness auto
termination
  by (relation "measure (\<lambda>(_, _, m). cache_weight (bm_cache m))")
    (auto dest!: store_loop_body_weight[OF sym])

declare bm_store_loop.simps [simp del]

definition reject_prefix :: "(bool, mseq) op" where
  "reject_prefix = thn (count_event (\<lambda>c. c\<lparr>ct_rejections := ct_rejections c + 1\<rparr>)) (ret False)"

type_synonym prefix_source = "int list \<times> string \<times> py_record"

definition prefix_source :: "manager \<Rightarrow> sequence \<Rightarrow> nat \<Rightarrow> prefix_source option" where
  "prefix_source m s boundary = (case sq_kv_layout s of
      Some ly \<Rightarrow> Some (filter (\<lambda>p. p < int boundary) (ly_retained_original_positions ly),
                      ly_kv_dtype ly, ly_compression_record ly)
    | None \<Rightarrow> if bm_block_level m
        then Some (map int [0..<boundary], ''dense'',
                   [(''multimodal_prefix_cache_hit'', PBool False),
                    (''compression_mode'', PStr ''dense_block_level'')])
        else None)"

definition admit_prefix :: "string \<Rightarrow> cache_entry \<Rightarrow> (bool, mseq) op" where
  "admit_prefix k e =
     thn (each (en_block_ids e) (\<lambda>b. thn (bm_retain_page b) (ret ())))
    (thn (on_mgr (upd (\<lambda>m. m\<lparr>bm_cache := bm_cache m @ [(k, e)],
            bm_cache_blocks := bm_cache_blocks m + int (length (en_block_ids e))\<rparr>)))
    (thn (count_event (\<lambda>c. c\<lparr>ct_admissions := ct_admissions c + 1\<rparr>))
         (ret True)))"

definition bm_store_prefix :: "(bool, mseq) op" where
  "bm_store_prefix =
     thn bm_assert_block_size
    (bnd get_mgr (\<lambda>m. bnd get_seq (\<lambda>s.
     case (sq_mm_prefix_cache_key s, sq_mm_prefix_boundary s) of
       (Some media_key, Some boundary) \<Rightarrow>
         if \<not> bm_enable_prefix m \<or> sq_mm_prefix_cache_hit s then ret False
         else thn (chk RuntimeError (sq_is_prefill_finished s \<and> sq_num_tokens s = sq_num_prompt_tokens s))
             (case prefix_source m s boundary of
                None \<Rightarrow> ret False
              | Some (retained, dtype, record) \<Rightarrow>
                  let physical = length retained; pages = ceil_div physical (bm_block_size m) in
                  if physical = 0 then reject_prefix
                  else if bm_cache_max m < pages \<or> length (sq_block_table s) < pages then reject_prefix
                  else let prompt_prefix = take boundary (sq_prompt_token_ids s) in
                    bnd (lift_res (mm_cache_id media_key prompt_prefix)) (\<lambda>k.
                    case map_of (bm_cache m) k of
                      Some e \<Rightarrow>
                        thn (chk RuntimeError (en_key e = media_key \<and> en_tokens e = prompt_prefix))
                       (thn (on_mgr (upd (\<lambda>m. m\<lparr>bm_cache := od_move_to_end k (bm_cache m)\<rparr>)))
                            (ret False))
                    | None \<Rightarrow>
                        bnd (on_mgr (bm_store_loop (fl (of_nat boundary / of_nat pages)) pages)) (\<lambda>room.
                        if \<not> room then reject_prefix
                        else admit_prefix k \<lparr>en_key = media_key, en_tokens = prompt_prefix,
                          en_logical_len = boundary, en_physical_len = physical,
                          en_retained = retained, en_block_ids = take pages (sq_block_table s),
                          en_kv_dtype = dtype, en_record = record, en_benefit = boundary,
                          en_hits = 0, en_tails = []\<rparr>)))
     | _ \<Rightarrow> ret False)))"

definition bm_clear_prefix_cache :: "(unit, manager) op" where
  "bm_clear_prefix_cache = bnd (gets (\<lambda>m. keys (bm_cache m))) (\<lambda>ks.
     thn (each ks bm_evict)
         (bump (\<lambda>c. c\<lparr>ct_evictions := 0\<rparr>)))"

definition bm_reset_metrics :: "(unit, manager) op" where
  "bm_reset_metrics = bump (\<lambda>_. zero_counters)"

definition bm_metadata :: "manager \<Rightarrow> py_record" where
  "bm_metadata m = (let c = bm_counters m; n = (\<lambda>x. PInt (int x)) in
    [(''enabled'', PBool (bm_enable_prefix m)),
     (''identity'', PStr ''sha256_model_processor_media_layout_prompt_prefix_v1''),
     (''lookup_strategy'', PStr ''direct_boundary_prompt_sha256''),
     (''scope'', PStr ''compacted_scaled_fp8_multimodal_prefix_kv''),
     (''admission_policy'', PStr ''lifetime_hits_times_logical_tokens_per_page''),
     (''total_pool_blocks'', n (gp_capacity (bm_gpu m))),
     (''max_blocks'', n (bm_cache_max m)),
     (''resident_blocks'', PInt (bm_cache_blocks m)),
     (''entries'', n (length (bm_cache m))),
     (''pre_admission_hits'', n (ct_pre_admission_hits c)),
     (''visual_hydration_skips'', n (ct_hydration_skips c)),
     (''stale_probe_fallbacks'', n (ct_stale_fallbacks c)),
     (''hits'', n (ct_hits c)),
     (''misses'', n (ct_misses c)),
     (''admissions'', n (ct_admissions c)),
     (''evictions'', n (ct_evictions c)),
     (''rejections'', n (ct_rejections c)),
     (''cow_copies'', n (ct_cow_copies c)),
     (''cow_copied_rows'', n (ct_cow_rows c)),
     (''cow_dense_equivalent_rows'', n (ct_cow_copies c * bm_block_size m)),
     (''tail_clone_hits'', n (ct_tail_hits c)),
     (''tail_clone_admissions'', n (ct_tail_admissions c)),
     (''tail_clone_evictions'', n (ct_tail_evictions c)),
     (''tail_clone_reused_rows'', n (ct_tail_reused_rows c)),
     (''copy_avoided_rows'', PInt (int (ct_cow_copies c * bm_block_size m) - int (ct_cow_rows c)
        + int (ct_tail_reused_rows c))),
     (''resident_tail_clone_blocks'', n (sum_list (map (\<lambda>(k, e). length (en_tails e)) (bm_cache m)))),
     (''resident_lifetime_hits'', n (sum_list (map (\<lambda>(k, e). en_hits e) (bm_cache m)))),
     (''block_level_matching'', PBool (bm_block_level m)),
     (''block_level_probe_hits'', n (ct_probe_hits c)),
     (''block_level_reused_blocks'', n (ct_reused_blocks c)),
     (''block_level_miss_blocks'', n (ct_miss_blocks c)),
     (''pool_cached_blocks'', n (length (gp_cached (bm_gpu m)))),
     (''pool_cached_evictions'', n (gp_evictions (bm_gpu m)))])"

definition bm_entry_metadata :: "(py_record option, mseq) op" where
  "bm_entry_metadata =
     thn bm_assert_block_size
    (bnd get_mgr (\<lambda>m. bnd get_seq (\<lambda>s.
     bnd (lift_res (bm_matching s m)) (\<lambda>match.
     ret (map_option (\<lambda>(_, e).
       [(''logical_prefix_tokens'', PInt (int (en_logical_len e))),
        (''physical_prefix_tokens'', PInt (int (en_physical_len e))),
        (''canonical_blocks'', PInt (int (length (en_block_ids e)))),
        (''tail_clone_blocks'', PInt (int (length (en_tails e)))),
        (''resident_blocks'', PInt (int (en_resident e))),
        (''lifetime_hits'', PInt (int (en_hits e)))]) match)))))"

definition bm_prefix_record :: "(py_record option, mseq) op" where
  "bm_prefix_record =
     thn bm_assert_block_size
    (bnd get_mgr (\<lambda>m. bnd get_seq (\<lambda>s.
     bnd (lift_res (bm_matching s m)) (\<lambda>match.
     ret (map_option (\<lambda>(_, e). en_record e) match)))))"

section \<open>Decode growth\<close>

definition append_demand :: "manager \<Rightarrow> sequence \<Rightarrow> py_error + nat" where
  "append_demand m s =
    (if sq_physical_kv_len s mod bm_block_size m = 1 then Inr 1
     else if sq_block_table s = [] \<or> gp_ref (bm_gpu m) (last (sq_block_table s)) \<le> 1 then Inr 0
     else bind_res (bm_matching s m) (\<lambda>match.
       let tail = last (sq_block_table s);
           cache_owns = (case match of None \<Rightarrow> False | Some (_, e) \<Rightarrow> tail \<in> set (en_pages e))
       in Inr (if cache_owns \<and> gp_ref (bm_gpu m) tail = 2 then 0 else 1)))"

definition bm_can_append :: "(bool, mseq) op" where
  "bm_can_append =
     thn bm_assert_block_size
    (bnd get_mgr (\<lambda>m. bnd get_seq (\<lambda>s.
     bnd (lift_res (append_demand m s)) (\<lambda>required.
     ret (required \<le> gp_free_count (bm_gpu m) + bm_reclaimable None m)))))"

definition bm_may_append :: "(unit, mseq) op" where
  "bm_may_append =
     thn bm_assert_block_size
    (bnd get_mgr (\<lambda>m. bnd get_seq (\<lambda>s.
     if sq_physical_kv_len s mod bm_block_size m = 1
     then thn (on_mgr (bm_ensure_free 1 None)) (bnd bm_alloc_page push_page)
     else ret ())))"

section \<open>Publication\<close>

fun bm_publish_loop :: "hash_fun \<Rightarrow> nat list \<Rightarrow> int \<Rightarrow> (unit, mseq) op" where
  "bm_publish_loop xx [] chain = ret ()"
| "bm_publish_loop xx (i # is) chain =
     bnd get_mgr (\<lambda>m. bnd get_seq (\<lambda>s.
     bnd (lift_res (bm_block_hash_and_mm xx m s i chain)) (\<lambda>(h, mm).
     thn (chk IndexError (i < length (sq_block_table s)))
    (bnd (lift_res (sq_block i s)) (\<lambda>token_ids.
     thn (on_mgr (on_gpu (gp_register_hash (sq_block_table s ! i) h token_ids mm)))
         (bm_publish_loop xx is h))))))"

definition bm_publish :: "hash_fun \<Rightarrow> nat \<Rightarrow> nat \<Rightarrow> (unit, mseq) op" where
  "bm_publish xx token_start token_end =
     bnd get_mgr (\<lambda>m. bnd get_seq (\<lambda>s.
     let a = token_start div bm_block_size m; b = token_end div bm_block_size m in
     if b \<le> a then ret ()
     else if \<not> bm_enable_prefix m \<or> sq_has_compact_kv_layout s \<or> \<not> bm_hashable m s then ret ()
     else bnd (if a = 0 then ret NO_BLOCK_HASH
               else thn (chk IndexError (a - 1 < length (sq_block_table s)))
                   (bnd (on_mgr (on_gpu (gp_block (sq_block_table s ! (a - 1))))) (\<lambda>blk.
                    ret (blk_hash blk))))
              (bm_publish_loop xx [a..<b])))"

section \<open>Swapping\<close>

definition bm_can_swap_out :: "(bool, mseq) op" where
  "bm_can_swap_out =
     thn bm_assert_block_size
    (bnd get_mgr (\<lambda>m. bnd get_seq (\<lambda>s.
     ret (sq_block_table s \<noteq> [] \<and> cp_can_allocate (length (sq_block_table s)) (bm_cpu m)))))"

definition validate_layout_for :: "(sequence \<Rightarrow> nat list) \<Rightarrow> (unit, mseq) op" where
  "validate_layout_for table = bnd get_mgr (\<lambda>m. bnd get_seq (\<lambda>s.
     case sq_kv_layout s of None \<Rightarrow> ret ()
     | Some ly \<Rightarrow> lift_res (ly_validate (bm_block_size m) (table s) False ly)))"

definition bm_swap_out :: "((nat \<times> nat) list, mseq) op" where
  "bm_swap_out =
     thn bm_assert_block_size
    (bnd get_seq (\<lambda>s.
     thn (chk RuntimeError (sq_cpu_block_table s = []))
    (thn (chk RuntimeError (sq_block_table s \<noteq> []))
    (thn (validate_layout_for sq_block_table)
    (bnd (on_mgr (on_gpu (gp_validate_owned (sq_block_table s)))) (\<lambda>gpu_table.
     bnd (on_mgr (on_cpu (cp_allocate_many (length gpu_table)))) (\<lambda>cpu_table.
     bnd get_mgr (\<lambda>m.
     let blks = map (\<lambda>b. gp_blocks (bm_gpu m) ! b) gpu_table in
     thn (on_mgr (bm_release_pages gpu_table))
    (thn (set_seq (\<lambda>s. s\<lparr>sq_cpu_block_table := cpu_table, sq_cpu_block_hashes := map blk_hash blks,
            sq_cpu_block_token_ids := map blk_tokens blks,
            sq_cpu_block_mm_hashes := map blk_mm blks, sq_block_table := []\<rparr>))
    (thn (validate_layout_for sq_cpu_block_table)
         (ret (zip gpu_table cpu_table))))))))))))"

definition bm_can_swap_in :: "(bool, mseq) op" where
  "bm_can_swap_in =
     thn bm_assert_block_size
    (bnd get_mgr (\<lambda>m. bnd get_seq (\<lambda>s.
     ret (sq_cpu_block_table s \<noteq> [] \<and>
          length (sq_cpu_block_table s) \<le> gp_free_count (bm_gpu m) + bm_reclaimable None m))))"

type_synonym swap_block = "int \<times> int list \<times> mm_hashes"

fun swap_block_ok :: "nat \<Rightarrow> swap_block \<Rightarrow> bool" where
  "swap_block_ok bs (h, toks, mm) =
    (if h = NO_BLOCK_HASH then toks = []
     else length toks = bs \<and> (case mm of None \<Rightarrow> True | Some d \<Rightarrow> length d \<le> bs))"

definition swap_metadata :: "sequence \<Rightarrow> swap_block list" where
  "swap_metadata s = zip (sq_cpu_block_hashes s) (zip (sq_cpu_block_token_ids s) (sq_cpu_block_mm_hashes s))"

definition bm_validate_swap_in_metadata :: "nat list \<Rightarrow> (swap_block list, mseq) op" where
  "bm_validate_swap_in_metadata cpu_table = bnd get_mgr (\<lambda>m. bnd get_seq (\<lambda>s.
     thn (chk RuntimeError (length (sq_cpu_block_hashes s) = length cpu_table \<and>
                            length (sq_cpu_block_token_ids s) = length cpu_table))
    (thn (chk RuntimeError (length (sq_cpu_block_mm_hashes s) = length cpu_table))
    (thn (chk RuntimeError (list_all (swap_block_ok (bm_block_size m)) (swap_metadata s)))
         (ret (swap_metadata s))))))"

definition restore_hash :: "nat \<times> swap_block \<Rightarrow> (unit, mseq) op" where
  "restore_hash x = (case x of (b, h, toks, mm) \<Rightarrow>
     if h \<noteq> NO_BLOCK_HASH then on_mgr (on_gpu (gp_register_hash b h toks mm)) else ret ())"

definition bm_swap_in :: "((nat \<times> nat) list, mseq) op" where
  "bm_swap_in =
     thn bm_assert_block_size
    (bnd get_seq (\<lambda>s.
     thn (chk RuntimeError (sq_block_table s = []))
    (thn (chk RuntimeError (sq_cpu_block_table s \<noteq> []))
    (thn (validate_layout_for sq_cpu_block_table)
    (bnd (on_mgr (on_cpu (cp_validate_owned (sq_cpu_block_table s)))) (\<lambda>cpu_table.
     thn (on_mgr (bm_ensure_free (int (length cpu_table)) None))
    (bnd (bm_validate_swap_in_metadata cpu_table) (\<lambda>metadata.
     bnd (on_mgr (on_gpu (gp_allocate_many (length cpu_table)))) (\<lambda>table.
     thn (each (zip table metadata) restore_hash)
    (thn (on_mgr (on_cpu (cp_release_many cpu_table)))
    (thn (set_seq (\<lambda>s. s\<lparr>sq_block_table := table, sq_cpu_block_table := [], sq_cpu_block_hashes := [],
            sq_cpu_block_token_ids := [], sq_cpu_block_mm_hashes := []\<rparr>))
    (thn (validate_layout_for sq_block_table)
         (ret (zip cpu_table table))))))))))))))"

end
