(* ===== verification/Block_Safety.thy ===== *)
theory Block_Safety imports Block_Transfer begin

text \<open>
  Page ownership through every operation of the block manager.

  \<open>safe rest st t\<close> says that \<open>t\<close> is consistent and differs from \<open>st\<close> only where an operation on
  one sequence may: the references of all other sequences (\<open>rest\<close>), the configuration, the CPU
  pool and the CPU pages stay.  An operation is \<open>preserving\<close> when it goes from consistent to safe
  states whatever its outcome; the closure rules in the collection \<open>preserving\<close> carry that through
  sequencing, branching and exception handlers.
\<close>

definition safe :: "(nat \<Rightarrow> nat) \<Rightarrow> mseq \<Rightarrow> mseq \<Rightarrow> bool" where
  "safe rest st t \<longleftrightarrow> held rest t \<and> same_config (fst st) (fst t) \<and>
     sq_cpu_block_table (snd t) = sq_cpu_block_table (snd st) \<and>
     sq_block_size (snd t) = sq_block_size (snd st)"

definition preserving :: "('a, mseq) op \<Rightarrow> bool" where
  "preserving p \<longleftrightarrow> (\<forall>rest st. held rest st \<longrightarrow> wp p (\<lambda>_. safe rest st) (\<lambda>_. safe rest st) st)"

named_theorems preserving \<open>operations that keep page ownership consistent\<close>

lemma safe_refl: "held rest st \<Longrightarrow> safe rest st st"
  by (simp add: safe_def)

lemma safe_trans: "safe rest st t \<Longrightarrow> safe rest t u \<Longrightarrow> safe rest st u"
  by (auto simp: safe_def intro: same_config_trans)

lemma safe_held: "safe rest st t \<Longrightarrow> held rest t"
  by (simp add: safe_def)

lemma preservingD: "preserving p \<Longrightarrow> held rest st \<Longrightarrow> wp p (\<lambda>_. safe rest st) (\<lambda>_. safe rest st) st"
  unfolding preserving_def by blast

lemma preservingI:
  "(\<And>rest m s. held rest (m, s) \<Longrightarrow> wp p (\<lambda>_. safe rest (m, s)) (\<lambda>_. safe rest (m, s)) (m, s)) \<Longrightarrow> preserving p"
  by (auto simp: preserving_def)

text \<open>A preserving operation inside a longer one.\<close>

lemma wp_preserving:
  assumes "preserving p" and "safe rest st u"
    and "\<And>x t. safe rest st t \<Longrightarrow> Q x t" and "\<And>e t. safe rest st t \<Longrightarrow> E e t"
  shows "wp p Q E u"
  by (rule wp_mono[OF preservingD[OF assms(1) safe_held[OF assms(2)]]])
    (use assms(2-4) safe_trans in blast)+

lemma preserving_bnd [preserving]:
  assumes "preserving p" and "\<And>x. preserving (f x)"
  shows "preserving (bnd p f)"
proof (rule preservingI)
  fix rest m s assume h: "held rest (m, s)"
  show "wp (bnd p f) (\<lambda>_. safe rest (m, s)) (\<lambda>_. safe rest (m, s)) (m, s)"
    unfolding wp_bnd
    by (rule wp_preserving[OF assms(1) safe_refl[OF h]]) (auto intro: wp_preserving[OF assms(2)])
qed

lemma preserving_thn [preserving]: "preserving p \<Longrightarrow> preserving q \<Longrightarrow> preserving (thn p q)"
  unfolding thn_def by (rule preserving_bnd)

lemma preserving_catch [preserving]:
  assumes "preserving p" and "\<And>e. preserving (h e)"
  shows "preserving (catch p h)"
proof (rule preservingI)
  fix rest m s assume h: "held rest (m, s)"
  show "wp (catch p h) (\<lambda>_. safe rest (m, s)) (\<lambda>_. safe rest (m, s)) (m, s)"
    unfolding wp_catch
    by (rule wp_preserving[OF assms(1) safe_refl[OF h]]) (auto intro: wp_preserving[OF assms(2)])
qed

lemma preserving_branch [preserving]:
  "preserving p \<Longrightarrow> preserving q \<Longrightarrow> preserving (if b then p else q)"
  "preserving p \<Longrightarrow> (\<And>y. preserving (f y)) \<Longrightarrow> preserving (case x of None \<Rightarrow> p | Some y \<Rightarrow> f y)"
  "(\<And>a b. preserving (g a b)) \<Longrightarrow> preserving (case z of (a, b) \<Rightarrow> g a b)"
  "preserving (k w) \<Longrightarrow> preserving (let y = w in k y)"
  by (auto split: option.splits prod.splits simp: Let_def)

lemma preserving_pure [preserving]:
  "preserving (ret x)" "preserving (throw e)" "preserving (chk e b)" "preserving (lift_res r)"
  "preserving (gets g)" "preserving get_mgr" "preserving get_seq" "preserving bm_assert_block_size"
  by (auto intro!: preservingI simp: wp_simps safe_refl split: sum.splits)

lemma preserving_set_seq [preserving]:
  assumes "\<And>s. sq_block_table (f s) = sq_block_table s \<and> sq_cpu_block_table (f s) = sq_cpu_block_table s \<and>
    sq_block_size (f s) = sq_block_size s"
  shows "preserving (set_seq f)"
  using assms by (auto intro!: preservingI simp: wp_simps safe_def held_def)

lemma preserving_count [preserving]: "preserving (count_event f)"
  by (auto intro!: preservingI simp: wp_simps safe_def held_def)

lemma preserving_each [preserving]: "(\<And>x. preserving (f x)) \<Longrightarrow> preserving (each xs f)"
  by (induction xs) (auto intro: preserving)

section \<open>Manager operations\<close>

lemma safe_mgr:
  "bm_inv (held_by rest (sq_block_table s)) t \<Longrightarrow> same_config m t \<Longrightarrow> safe rest (m, s) (t, s)"
  by (simp add: safe_def held_def)

lemma heldD: "held rest (m, s) \<Longrightarrow> bm_inv (held_by rest (sq_block_table s)) m"
  by (simp add: held_def)

lemma preserving_ensure [preserving]: "preserving (on_mgr (bm_ensure_free n prot))"
proof (rule preservingI)
  fix rest m s assume "held rest (m, s)"
  then show "wp (on_mgr (bm_ensure_free n prot)) (\<lambda>_. safe rest (m, s)) (\<lambda>_. safe rest (m, s)) (m, s)"
    by (rule wp_ensure[OF heldD]) (auto intro: safe_mgr)
qed

lemma preserving_evict [preserving]: "preserving (on_mgr (bm_evict k))"
proof (rule preservingI)
  fix rest m s assume h: "held rest (m, s)"
  show "wp (on_mgr (bm_evict k)) (\<lambda>_. safe rest (m, s)) (\<lambda>_. safe rest (m, s)) (m, s)"
  proof (cases "map_of (bm_cache m) k")
    case None
    then show ?thesis using h by (simp add: wp_on_mgr bm_evict_def wp_simps safe_refl)
  next
    case (Some e)
    show ?thesis unfolding wp_on_mgr
      by (rule wp_evict[OF heldD[OF h] Some]) (auto intro: safe_mgr)
  qed
qed

text \<open>Changes of the cache that keep every entry's pages and evidence.\<close>

lemma bm_inv_cache:
  assumes "bm_inv own m" and "mset (cache_pages None c) = mset (cache_pages None (bm_cache m))"
    and "distinct (keys c)" and "\<And>k e. (k, e) \<in> set c \<Longrightarrow> entry_wf (bm_block_size m) k e"
  shows "bm_inv own (m\<lparr>bm_cache := c\<rparr>)"
proof -
  have "length (cache_pages None c) = length (cache_pages None (bm_cache m))"
    using arg_cong[OF assms(2), of size] by simp
  then show ?thesis using assms mset_count_list[OF assms(2)]
    by (auto simp: bm_inv_def cache_ok_def intro!: refs_ok_cache[of own])
qed

lemma bm_inv_move_to_end: "bm_inv own m \<Longrightarrow> bm_inv own (m\<lparr>bm_cache := od_move_to_end k (bm_cache m)\<rparr>)"
proof (rule bm_inv_cache)
  assume inv: "bm_inv own m"
  then have d: "distinct (keys (bm_cache m))" by (simp add: bm_inv_def cache_ok_def)
  show "mset (cache_pages None (od_move_to_end k (bm_cache m))) = mset (cache_pages None (bm_cache m))"
    by (rule pages_move_to_end[OF d])
  have "keys (od_pop k (bm_cache m) @ [(k, e)]) = filter (\<lambda>k'. k' \<noteq> k) (keys (bm_cache m)) @ [k]" for e
    unfolding keys_od_pop[symmetric] by (simp add: keys_def)
  then show "distinct (keys (od_move_to_end k (bm_cache m)))"
    using d by (auto simp: od_move_to_end_def split: option.splits)
  show "entry_wf (bm_block_size m) k' e" if "(k', e) \<in> set (od_move_to_end k (bm_cache m))" for k' e
    using that inv by (auto simp: od_move_to_end_def set_od_pop bm_inv_def cache_ok_def
        split: option.splits dest: map_of_SomeD)
qed

lemma pages_modify_same:
  "(\<And>e. en_pages (f e) = en_pages e) \<Longrightarrow> cache_pages prot (od_modify k f c) = cache_pages prot c"
  by (induction c) auto

lemma od_modify_mem:
  "(k', e') \<in> set (od_modify k f c) \<Longrightarrow> \<exists>e. (k', e) \<in> set c \<and> e' = (if k' = k then f e else e)"
  by (auto simp: od_modify_def)

lemma bm_inv_modify:
  assumes "bm_inv own m" and "\<And>e. en_pages (f e) = en_pages e" and "\<And>bs e. entry_wf bs k (f e) = entry_wf bs k e"
  shows "bm_inv own (m\<lparr>bm_cache := od_modify k f (bm_cache m)\<rparr>)"
  by (rule bm_inv_cache[OF assms(1)])
    (use assms in \<open>auto simp: bm_inv_def cache_ok_def pages_modify_same dest!: od_modify_mem split: if_splits\<close>)

lemma entry_wf_hits: "entry_wf bs k (e\<lparr>en_hits := x\<rparr>) = entry_wf bs k e"
  by (simp add: entry_wf_def)

lemma preserving_finish_hit [preserving]: "preserving (finish_hit k)"
proof -
  have 1: "preserving (on_mgr (upd (\<lambda>m. m\<lparr>bm_cache := od_move_to_end k (bm_cache m)\<rparr>)))"
    by (rule preservingI) (auto simp: wp_simps intro!: safe_mgr bm_inv_move_to_end dest: heldD)
  have 2: "preserving (on_mgr (upd (\<lambda>m. m\<lparr>bm_cache := od_modify k (\<lambda>e. e\<lparr>en_hits := en_hits e + 1\<rparr>) (bm_cache m)\<rparr>)))"
    by (rule preservingI)
      (auto simp: wp_simps en_pages_def entry_wf_hits intro!: safe_mgr bm_inv_modify dest: heldD)
  show ?thesis unfolding finish_hit_def by (intro preserving 1 2)
qed

text \<open>Pool operations that keep every reference count.\<close>

definition keeps_refs :: "gpu_pool \<Rightarrow> gpu_pool \<Rightarrow> bool" where
  "keeps_refs p t \<longleftrightarrow> pool_step p t \<and> gp_ref t = gp_ref p"

lemma bm_inv_keeps_refs:
  assumes "bm_inv own m" and "keeps_refs (bm_gpu m) p"
  shows "bm_inv own (m\<lparr>bm_gpu := p\<rparr>)" and "same_config m (m\<lparr>bm_gpu := p\<rparr>)"
  using refs_ok_gpu[of own m p own] assms by (simp_all add: bm_inv_def keeps_refs_def)

lemma preserving_gpu:
  assumes "\<And>p. gpu_inv p \<Longrightarrow> wp g (\<lambda>_. keeps_refs p) (\<lambda>_. keeps_refs p) p"
  shows "preserving (on_mgr (on_gpu g))"
proof (rule preservingI)
  fix rest m s assume h: "held rest (m, s)"
  show "wp (on_mgr (on_gpu g)) (\<lambda>_. safe rest (m, s)) (\<lambda>_. safe rest (m, s)) (m, s)"
    unfolding wp_on_mgr wp_on_gpu
    by (rule wp_mono[OF assms[OF bm_invD(3)[OF heldD[OF h]]]])
      (auto intro!: safe_mgr bm_inv_keeps_refs[OF heldD[OF h]])
qed

lemma keeps_refs_refl: "gpu_inv p \<Longrightarrow> keeps_refs p p"
  by (simp add: keeps_refs_def pool_step_def)

lemma keeps_refs_register: "register_post p i h toks mm t \<Longrightarrow> keeps_refs p t"
  by (simp add: keeps_refs_def register_post_def)

lemma preserving_gpu_ops [preserving]:
  "preserving (on_mgr (on_gpu (gp_block b)))" "preserving (on_mgr (on_gpu (gp_lookup h toks mm)))"
  "preserving (on_mgr (on_gpu (gp_clear_hash b)))" "preserving (on_mgr (on_gpu (gp_register_hash b h toks mm)))"
  "preserving (on_mgr (on_gpu (gp_validate_owned ids)))"
proof -
  show "preserving (on_mgr (on_gpu (gp_block b)))"
    by (rule preserving_gpu) (simp add: wp_simps keeps_refs_refl)
  show "preserving (on_mgr (on_gpu (gp_lookup h toks mm)))"
    by (rule preserving_gpu) (simp add: wp_gp_lookup keeps_refs_refl)
  show "preserving (on_mgr (on_gpu (gp_clear_hash b)))"
    by (rule preserving_gpu, rule wp_clear_hash) (auto intro: keeps_refs_register keeps_refs_refl)
  show "preserving (on_mgr (on_gpu (gp_validate_owned ids)))"
    by (rule preserving_gpu) (simp add: wp_validate_owned keeps_refs_refl)
  show "preserving (on_mgr (on_gpu (gp_register_hash b h toks mm)))"
  proof (rule preserving_gpu)
    fix p :: gpu_pool assume inv: "gpu_inv p"
    show "wp (gp_register_hash b h toks mm) (\<lambda>_. keeps_refs p) (\<lambda>_. keeps_refs p) p"
      by (cases "b \<in> gp_used p \<and> 0 < gp_ref p b")
        (auto intro: wp_register_hash[OF inv] keeps_refs_register simp: wp_register_hash_err keeps_refs_refl[OF inv])
  qed
qed

lemma preserving_lookup [preserving]: "preserving (bm_lookup h toks mm)"
  unfolding bm_lookup_def by (rule preserving)

section \<open>Page table operations\<close>

lemma safe_push:
  assumes "bm_inv ((held_by rest (sq_block_table s))(b := held_by rest (sq_block_table s) b + 1)) t" and "same_config m t"
  shows "safe rest (m, s) (t, s\<lparr>sq_block_table := sq_block_table s @ [b]\<rparr>)"
  using assms by (simp add: safe_def held_def held_by_push)

lemma wp_push_then:
  assumes "preserving q" and "safe rest st (t, s\<lparr>sq_block_table := sq_block_table s @ [b]\<rparr>)"
  shows "wp (thn (push_page b) q) (\<lambda>_. safe rest st) (\<lambda>_. safe rest st) (t, s)"
  unfolding wp_thn wp_get_set by (rule wp_preserving[OF assms])

lemma preserving_alloc_push [preserving]:
  assumes "\<And>b. preserving (k b)"
  shows "preserving (bnd bm_alloc_page (\<lambda>b. thn (push_page b) (k b)))"
proof (rule preservingI)
  fix rest m s assume h: "held rest (m, s)"
  show "wp (bnd bm_alloc_page (\<lambda>b. thn (push_page b) (k b))) (\<lambda>_. safe rest (m, s)) (\<lambda>_. safe rest (m, s)) (m, s)"
    unfolding wp_bnd
  proof (rule wp_alloc_page[OF heldD[OF h]])
    fix b t assume "bm_inv ((held_by rest (sq_block_table s))(b := held_by rest (sq_block_table s) b + 1)) t" "pool_only m t"
    then show "wp (thn (push_page b) (k b)) (\<lambda>_. safe rest (m, s)) (\<lambda>_. safe rest (m, s)) (t, s)"
      by (intro wp_push_then assms safe_push) (auto dest: pool_only_cache)
  next
    fix t assume "bm_inv (held_by rest (sq_block_table s)) t" "pool_only m t"
    then show "safe rest (m, s) (t, s)" by (auto intro: safe_mgr dest: pool_only_cache)
  qed
qed

lemma preserving_retain_push [preserving]:
  assumes "\<And>b. preserving (k b)"
  shows "preserving (bnd (bm_retain_page c) (\<lambda>b. thn (push_page b) (k b)))"
proof (rule preservingI)
  fix rest m s assume h: "held rest (m, s)"
  show "wp (bnd (bm_retain_page c) (\<lambda>b. thn (push_page b) (k b))) (\<lambda>_. safe rest (m, s)) (\<lambda>_. safe rest (m, s)) (m, s)"
  proof (cases "c \<in> gp_used (bm_gpu m)")
    case True
    show ?thesis unfolding wp_bnd
    proof (rule wp_retain_used[OF heldD[OF h] True])
      fix t assume "bm_inv ((held_by rest (sq_block_table s))(c := held_by rest (sq_block_table s) c + 1)) t" "pool_only m t"
      then show "wp (thn (push_page c) (k c)) (\<lambda>_. safe rest (m, s)) (\<lambda>_. safe rest (m, s)) (t, s)"
        by (intro wp_push_then assms safe_push) (auto dest: pool_only_cache)
    qed
  next
    case False
    then show ?thesis using h
      by (simp add: wp_bnd bm_retain_page_def wp_on_mgr wp_on_gpu wp_gp_retain_err[OF bm_invD(3)[OF heldD[OF h]]] safe_refl)
  qed
qed

lemma preserving_alloc_push_last [preserving]: "preserving (bnd bm_alloc_page push_page)"
proof -
  have "bnd bm_alloc_page push_page = bnd bm_alloc_page (\<lambda>b. thn (push_page b) (ret ()))"
    by (auto simp: bnd_def thn_def ret_def push_page_def set_seq_def upd_def split: prod.splits sum.splits)
  then show ?thesis by (simp only:) (intro preserving)
qed

lemma preserving_grow [preserving]: "preserving (bm_grow n)" "preserving (bm_grow_to n)"
proof -
  show 1: "preserving (bm_grow n)" for n
  proof (induction n)
    case (Suc n)
    show ?case unfolding bm_grow.simps by (intro preserving Suc.IH)
  qed (simp add: preserving)
  show "preserving (bm_grow_to n)" unfolding bm_grow_to_def by (intro preserving 1)
qed

lemma preserving_walk [preserving]: "preserving (bm_walk xx is p n)"
proof (induction "is" arbitrary: p n)
  case (Cons i js)
  show ?case unfolding bm_walk.simps by (intro preserving Cons.IH)
qed (simp add: preserving)

lemma preserving_probe [preserving]:
  "preserving (bm_cached_prefix_length xx)" "preserving (bm_candidate xx c)"
  "preserving (bm_probe xx w)" "preserving (bm_cached_prefix_tokens xx)" "preserving bm_can_allocate"
proof -
  show 1: "preserving (bm_cached_prefix_length xx)"
    unfolding bm_cached_prefix_length_def by (intro preserving)
  show 2: "preserving (bm_candidate xx c)" for c
    unfolding bm_candidate_def by (intro preserving 1)
  show "preserving (bm_probe xx w)" unfolding bm_probe_def by (intro preserving 2) simp_all
  show "preserving (bm_cached_prefix_tokens xx)"
    unfolding bm_cached_prefix_tokens_def by (intro preserving 2) simp_all
  show "preserving bm_can_allocate" unfolding bm_can_allocate_def by (intro preserving)
qed

lemma preserving_dense_loop [preserving]: "preserving (bm_dense_loop xx is h miss)"
proof (induction "is" arbitrary: h miss)
  case (Cons i js)
  show ?case unfolding bm_dense_loop.simps by (intro preserving Cons.IH) simp_all
qed (simp add: preserving)

lemma preserving_privatize [preserving]: "preserving (bm_privatize i)"
proof (rule preservingI)
  fix rest m s assume h: "held rest (m, s)"
  show "wp (bm_privatize i) (\<lambda>_. safe rest (m, s)) (\<lambda>_. safe rest (m, s)) (m, s)"
  proof (cases "i < length (sq_block_table s)")
    case True
    let ?b = "sq_block_table s ! i"
    have replace: "wp bm_alloc_page (\<lambda>b'. wp (bm_release_page ?b) (\<lambda>_. wp (set_seq (\<lambda>s. s\<lparr>sq_block_table := (sq_block_table s)[i := b']\<rparr>))
        (\<lambda>_. wp (ret (Some (?b, b'))) (\<lambda>_. safe rest (m, s)) (\<lambda>_. safe rest (m, s))) (\<lambda>_. safe rest (m, s))) (\<lambda>_. safe rest (m, s)))
        (\<lambda>_. safe rest (m, s)) (t, s)"
      if t: "bm_inv (held_by rest (sq_block_table s)) t" "same_config m t" "1 \<le> int (free_of t)" for t
    proof (rule wp_replace_page[where rest = rest])
      show "held rest (t, s)" using t(1) by (simp add: held_def)
      show "0 < free_of t" using t(3) by simp
      fix b u assume "held rest (u, s\<lparr>sq_block_table := (sq_block_table s)[i := b]\<rparr>)" "pool_only t u"
      then show "wp (set_seq (\<lambda>s. s\<lparr>sq_block_table := (sq_block_table s)[i := b]\<rparr>))
        (\<lambda>_. wp (ret (Some (?b, b))) (\<lambda>_. safe rest (m, s)) (\<lambda>_. safe rest (m, s))) (\<lambda>_. safe rest (m, s)) (u, s)"
        using t(2) by (auto simp: wp_get_set wp_ret safe_def dest: pool_only_cache intro: same_config_trans)
    qed (use True in simp)
    have "wp (on_mgr (bm_ensure_free 1 None)) (\<lambda>_. wp bm_alloc_page (\<lambda>b'. wp (bm_release_page ?b) (\<lambda>_. wp (set_seq (\<lambda>s. s\<lparr>sq_block_table := (sq_block_table s)[i := b']\<rparr>))
        (\<lambda>_. wp (ret (Some (?b, b'))) (\<lambda>_. safe rest (m, s)) (\<lambda>_. safe rest (m, s))) (\<lambda>_. safe rest (m, s))) (\<lambda>_. safe rest (m, s)))
        (\<lambda>_. safe rest (m, s))) (\<lambda>_. safe rest (m, s)) (m, s)"
      by (rule wp_ensure[OF heldD[OF h]]) (auto intro: replace safe_mgr)
    moreover have "wp (thn (on_mgr (on_gpu (gp_clear_hash ?b))) (ret (None :: (nat \<times> nat) option))) (\<lambda>_. safe rest (m, s)) (\<lambda>_. safe rest (m, s)) (m, s)"
      by (rule preservingD[OF _ h]) (intro preserving)
    ultimately show ?thesis using h True unfolding bm_privatize_def wp_eta(2,3)
      by (simp add: wp_eta(2,3) wp_bnd wp_thn wp_get_set wp_chk wp_gp_block_at safe_refl Let_def cong: if_cong)
  next
    case False
    then show ?thesis using h by (simp add: bm_privatize_def wp_simps safe_refl)
  qed
qed

lemma preserving_privatize_range [preserving]: "preserving (bm_privatize_range n is)"
proof (induction "is")
  case (Cons i js)
  show ?case unfolding bm_privatize_range.simps by (intro preserving Cons.IH)
qed (simp add: preserving)

lemma preserving_allocate_dense [preserving]: "preserving (bm_allocate_dense xx)"
  unfolding bm_allocate_dense_def by (intro preserving) simp_all

lemma cow_postD:
  assumes "cow_post rest (m, s) r t"
  shows "held rest t" and "same_config m (fst t)" and "sq_cpu_block_table (snd t) = sq_cpu_block_table s"
    and "sq_block_size (snd t) = sq_block_size s"
proof -
  obtain tab where "snd t = s\<lparr>sq_block_table := tab\<rparr>" using assms by (auto simp: cow_post_def Let_def)
  then show "sq_cpu_block_table (snd t) = sq_cpu_block_table s" and "sq_block_size (snd t) = sq_block_size s" by simp_all
  show "held rest t" and "same_config m (fst t)" using assms by (simp_all add: cow_post_def)
qed

lemma preserving_copy_on_write [preserving]: "preserving bm_copy_on_write"
proof (rule preservingI)
  fix rest m s assume h: "held rest (m, s)"
  show "wp bm_copy_on_write (\<lambda>_. safe rest (m, s)) (\<lambda>_. safe rest (m, s)) (m, s)"
  proof (cases "sq_block_size s = bm_block_size m")
    case True
    show ?thesis
      by (rule wp_mono[OF wp_copy_on_write[OF h True]])
        (auto simp: cow_error_def safe_def dest: cow_postD)
  next
    case False
    then show ?thesis using h by (simp add: bm_copy_on_write_def wp_simps safe_refl)
  qed
qed

lemma preserving_growth [preserving]:
  "preserving bm_can_append" "preserving bm_may_append" "preserving bm_entry_metadata"
  "preserving bm_prefix_record" "preserving bm_can_swap_out" "preserving bm_can_swap_in"
  unfolding bm_can_append_def bm_may_append_def bm_entry_metadata_def bm_prefix_record_def
    bm_can_swap_out_def bm_can_swap_in_def
  by (intro preserving)+

lemma preserving_publish [preserving]: "preserving (bm_publish xx a b)"
proof -
  have "preserving (bm_publish_loop xx is c)" for "is" c
  proof (induction "is" arbitrary: c)
    case (Cons i js)
    show ?case unfolding bm_publish_loop.simps by (intro preserving Cons.IH)
  qed (simp add: preserving)
  then show ?thesis unfolding bm_publish_def Let_def by (intro preserving)
qed

section \<open>Tail clones and prefix hits\<close>

lemma bm_inv_add_tail:
  assumes inv: "bm_inv (own(b := own b + 1)) m" and k: "map_of (bm_cache m) k = Some e"
    and room: "bm_cache_blocks m < int (bm_cache_max m)"
  shows "bm_inv own (m\<lparr>bm_cache := od_modify k (\<lambda>e. e\<lparr>en_tails := en_tails e @ [b]\<rparr>) (bm_cache m),
    bm_cache_blocks := bm_cache_blocks m + 1\<rparr>)"
proof -
  let ?f = "\<lambda>e. e\<lparr>en_tails := en_tails e @ [b]\<rparr>"
  let ?c = "od_modify k ?f (bm_cache m)"
  have d: "distinct (keys (bm_cache m))" using inv by (simp add: bm_inv_def cache_ok_def)
  have ms: "mset (cache_pages None ?c) = {#b#} + mset (cache_pages None (bm_cache m))"
    using pages_split[OF d k] pages_split[of ?c k "?f e"] d k by (simp add: en_pages_def)
  have cnt: "count_list (cache_pages None ?c) x = (if x = b then 1 else 0) + count_list (cache_pages None (bm_cache m)) x" for x
    using count_list_mset_add[of "cache_pages None ?c" "[b]" "cache_pages None (bm_cache m)" x] ms by auto
  have len: "length (cache_pages None ?c) = Suc (length (cache_pages None (bm_cache m)))"
    using arg_cong[OF ms, of size] by simp
  have "refs_ok own (m\<lparr>bm_cache := ?c\<rparr>)"
    by (rule refs_ok_cache[of "own(b := own b + 1)"]) (use inv cnt in \<open>auto simp: bm_inv_def\<close>)
  then show ?thesis using inv len room
    by (auto simp: bm_inv_def cache_ok_def entry_wf_tails dest!: od_modify_mem split: if_splits)
qed

lemma same_config_cache_max: "same_config m t \<Longrightarrow> bm_cache_max t = bm_cache_max m"
  by (simp add: same_config_def)

lemma wp_admit_tail:
  assumes h: "held rest (m, s)" and u: "b \<in> set (sq_block_table s)" and k: "map_of (bm_cache m) k = Some e"
  shows "wp (admit_tail k b) (\<lambda>_ t. safe rest (m, s) t \<and> snd t = s \<and> free_of (fst t) = free_of m \<and>
      (\<exists>e'. map_of (bm_cache (fst t)) k = Some e')) E (m, s)"
proof (cases "bm_cache_blocks m < int (bm_cache_max m)")
  case False
  then show ?thesis using h k by (simp add: admit_tail_def wp_simps safe_refl)
next
  case True
  let ?own = "held_by rest (sq_block_table s)"
  have "wp (bm_retain_page b) (\<lambda>x. wp (thn (on_mgr (upd (\<lambda>m. m\<lparr>bm_cache := od_modify k (\<lambda>e. e\<lparr>en_tails := en_tails e @ [b]\<rparr>) (bm_cache m),
       bm_cache_blocks := bm_cache_blocks m + 1\<rparr>))) (count_event (\<lambda>c. c\<lparr>ct_tail_admissions := ct_tail_admissions c + 1\<rparr>)))
     (\<lambda>_ t. safe rest (m, s) t \<and> snd t = s \<and> free_of (fst t) = free_of m \<and> (\<exists>e'. map_of (bm_cache (fst t)) k = Some e')) E) E (m, s)"
  proof (rule wp_retain_page[OF heldD[OF h]])
    show "0 < ?own b \<or> b \<in> set (cache_pages None (bm_cache m))"
      using u count_list_pos_iff[of "sq_block_table s" b] by (simp add: held_by_def)
    fix t assume t: "bm_inv (?own(b := ?own b + 1)) t" "pool_only m t" "free_of t = free_of m"
    have kt: "map_of (bm_cache t) k = Some e" using k pool_only_cache[OF t(2)] by simp
    show "wp (thn (on_mgr (upd (\<lambda>m. m\<lparr>bm_cache := od_modify k (\<lambda>e. e\<lparr>en_tails := en_tails e @ [b]\<rparr>) (bm_cache m),
       bm_cache_blocks := bm_cache_blocks m + 1\<rparr>))) (count_event (\<lambda>c. c\<lparr>ct_tail_admissions := ct_tail_admissions c + 1\<rparr>)))
     (\<lambda>_ t. safe rest (m, s) t \<and> snd t = s \<and> free_of (fst t) = free_of m \<and> (\<exists>e'. map_of (bm_cache (fst t)) k = Some e')) E (t, s)"
      using bm_inv_add_tail[OF t(1) kt] same_config_cache_max[of m t] pool_only_cache[OF t(2)] t(3) kt True
      by (simp add: wp_simps safe_def held_def)
  qed
  then show ?thesis using True by (simp add: admit_tail_def wp_thn wp_bnd wp_get_set)
qed

end
