(* ===== verification/Block_Admission.thy ===== *)
theory Block_Admission imports Block_Safety begin

text \<open>
  What admission promises: a request for which \<open>can_allocate\<close> answers yes is allocated, on every
  path of \<open>allocate\<close>; and what each path leaves in the page table.
\<close>

section \<open>Entries in the cache\<close>

lemma entry_count:
  "distinct (keys c) \<Longrightarrow> map_of c k = Some e \<Longrightarrow>
   count_list (cache_pages None c) b = count_list (en_pages e) b + count_list (cache_pages None (od_pop k c)) b"
  by (rule count_list_mset_add[OF pages_split])

lemma entry_pages_subset: "map_of c k = Some e \<Longrightarrow> set (en_pages e) \<subseteq> set (cache_pages None c)"
  by (force simp: cache_pages_def dest: map_of_SomeD)

lemma has_idle_iff: "bm_has_idle_tail m e \<longleftrightarrow> (\<exists>b \<in> set (en_tails e). gp_ref (bm_gpu m) b = 1)"
  by (auto simp: bm_has_idle_tail_def list_ex_iff)

text \<open>An idle clone of a protected entry stays idle while room is made and the immutable pages are shared.\<close>

lemma idle_kept:
  assumes h: "held rest (m, s)" and tab: "sq_block_table s = []" and k: "map_of (bm_cache m) k = Some e"
    and idle: "bm_has_idle_tail m e" and keep: "keeps (Some k) m t"
    and h2: "held rest (u, s2)" and imm: "set (sq_block_table s2) \<subseteq> set (en_block_ids e)" and c: "bm_cache u = bm_cache t"
    and cap: "gp_capacity (bm_gpu u) = gp_capacity (bm_gpu m)"
  shows "bm_has_idle_tail u e"
proof -
  obtain b where b: "b \<in> set (en_tails e)" "gp_ref (bm_gpu m) b = 1" using idle by (auto simp: has_idle_iff)
  have inv: "bm_inv rest m" using heldD[OF h] tab by simp
  have inv2: "bm_inv (held_by rest (sq_block_table s2)) u" by (rule heldD[OF h2])
  have mem: "b \<in> set (cache_pages None (bm_cache m))" using entry_pages_subset[OF k] b(1) by (auto simp: en_pages_def)
  have lt: "b < gp_capacity (bm_gpu m)" using owned_used(2)[OF bm_invD(1)[OF inv], of b] mem by simp
  have one: "rest b + count_list (cache_pages None (bm_cache m)) b = 1"
    using refs_okD(2)[OF bm_invD(1)[OF inv] lt] b(2) by simp
  have pos: "0 < count_list (en_tails e) b" using b(1) by (simp add: count_list_pos_iff)
  have "count_list (en_block_ids e) b + count_list (en_tails e) b \<le> count_list (cache_pages None (bm_cache m)) b"
    using entry_count[OF bm_invD(4)[OF inv] k, of b] by (simp add: en_pages_def)
  then have z: "count_list (en_block_ids e) b = 0" "rest b = 0" "count_list (cache_pages None (bm_cache m)) b = 1"
    using one pos by linarith+
  have ku: "map_of (bm_cache u) k = Some e" using keep k c by (simp add: keeps_def protected_def)
  have "b \<in> set (cache_pages None (bm_cache u))" using entry_pages_subset[OF ku] b(1) by (auto simp: en_pages_def)
  moreover have "count_list (cache_pages None (bm_cache u)) b \<le> 1" using keep c z(3) by (metis keeps_def)
  ultimately have cu: "count_list (cache_pages None (bm_cache u)) b = 1"
    using count_list_pos_iff[of "cache_pages None (bm_cache u)" b] by linarith
  have "count_list (sq_block_table s2) b = 0"
    using z(1) imm by (auto simp: count_list_0_iff)
  then have "gp_ref (bm_gpu u) b = 1"
    using refs_okD(2)[OF bm_invD(1)[OF inv2], of b] lt cap z(2) cu by (simp add: held_by_def)
  then show ?thesis using b(1) by (auto simp: has_idle_iff)
qed

section \<open>The partial tail page of a hit\<close>

text \<open>The tail page is in place: \<open>cost\<close> free pages were taken for it.\<close>

definition tail_placed :: "(nat \<Rightarrow> nat) \<Rightarrow> string \<Rightarrow> nat \<Rightarrow> mseq \<Rightarrow> mseq \<Rightarrow> bool" where
  "tail_placed rest k cost st u \<longleftrightarrow> safe rest st u \<and>
     (\<exists>b. snd u = (snd st)\<lparr>sq_block_table := sq_block_table (snd st) @ [b]\<rparr>) \<and>
     map_of (bm_cache (fst u)) k \<noteq> None \<and> free_of (fst u) + cost = free_of (fst st)"

lemma find_idle_Some:
  "List.find (\<lambda>b. gp_ref p b = 1) (en_tails e) = Some b \<Longrightarrow> b \<in> set (en_tails e) \<and> gp_ref p b = 1"
  by (auto simp: find_Some_iff)

lemma wp_find_idle: "wp (find_idle e) Q E (m, s) = Q (List.find (\<lambda>b. gp_ref (bm_gpu m) b = 1) (en_tails e)) (m, s)"
  by (simp add: find_idle_def wp_simps)

lemma find_idle_None: "List.find (\<lambda>b. gp_ref (bm_gpu m) b = 1) (en_tails e) = None \<longleftrightarrow> \<not> bm_has_idle_tail m e"
  by (auto simp: find_None_iff has_idle_iff)

lemma same_config_counters [simp]: "same_config (m\<lparr>bm_counters := c\<rparr>) t = same_config m t"
  by (simp add: same_config_def)

lemma wp_fresh_tail:
  assumes h: "held rest (m, s)" and k: "map_of (bm_cache m) k = Some e" and free: "0 < free_of m"
  shows "wp (bm_fresh_tail k e n) (\<lambda>_. tail_placed rest k 1 (m, s)) (\<lambda>_ _. False) (m, s)"
  unfolding bm_fresh_tail_def wp_bnd
proof (rule wp_alloc_page[OF heldD[OF h]])
  fix b t
  assume t: "bm_inv ((held_by rest (sq_block_table s))(b := held_by rest (sq_block_table s) b + 1)) t"
    "pool_only m t" "free_of m = Suc (free_of t)"
  let ?s = "s\<lparr>sq_block_table := sq_block_table s @ [b]\<rparr>"
  let ?t = "t\<lparr>bm_counters := (bm_counters t)\<lparr>ct_cow_copies := ct_cow_copies (bm_counters t) + 1,
      ct_cow_rows := ct_cow_rows (bm_counters t) + n\<rparr>\<rparr>"
  have po: "bm_cache t = bm_cache m" "same_config m t" using pool_only_cache[OF t(2)] by auto
  have h': "held rest (?t, ?s)" using t(1) by (simp add: held_def held_by_push)
  have "wp (admit_tail k b) (\<lambda>_. tail_placed rest k 1 (m, s)) (\<lambda>_ _. False) (?t, ?s)"
    by (rule wp_mono[OF wp_admit_tail[OF h', of b k e "\<lambda>_ _. False"]])
      (use po t(3) k in \<open>auto simp: tail_placed_def safe_def intro: same_config_trans\<close>)
  then show "wp (thn (push_page b) (thn (count_event (\<lambda>c. c\<lparr>ct_cow_copies := ct_cow_copies c + 1,
        ct_cow_rows := ct_cow_rows c + n\<rparr>)) (thn (admit_tail k b) (ret [(last (en_block_ids e), b, n)]))))
      (\<lambda>_. tail_placed rest k 1 (m, s)) (\<lambda>_ _. False) (t, s)"
    by (simp add: wp_thn wp_get_set wp_eta wp_ret_eta)
next
  fix t assume "free_of m = 0" then show False using free by simp
qed

text \<open>Copy-on-write of a shared tail when a page is free: nothing is evicted and it cannot fail.\<close>

lemma wp_cow_shared:
  assumes h: "held rest (m, s)" and bs: "sq_block_size s = bm_block_size m" and ne: "sq_block_table s \<noteq> []"
    and shared: "1 < gp_ref (bm_gpu m) (last (sq_block_table s))" and free: "0 < free_of m"
    and match: "is_ok (bm_matching s m)"
    and ok: "\<And>b t. held rest (t, s\<lparr>sq_block_table := (sq_block_table s)[length (sq_block_table s) - 1 := b]\<rparr>) \<Longrightarrow>
      pool_only m t \<Longrightarrow> free_of m = Suc (free_of t) \<Longrightarrow>
      Q (Some (last (sq_block_table s), b)) (t, s\<lparr>sq_block_table := (sq_block_table s)[length (sq_block_table s) - 1 := b]\<rparr>)"
  shows "wp bm_copy_on_write Q E (m, s)"
proof -
  let ?tail = "last (sq_block_table s)" and ?tab = "sq_block_table s"
  have lt: "?tail < gp_capacity (bm_gpu m)" by (rule tail_held(1)[OF h ne])
  obtain mt where mt: "bm_matching s m = Inr mt" using match by (auto simp: is_ok_iff)
  have inv: "bm_inv (held_by rest ?tab) m" by (rule heldD[OF h])
  have rep: "wp (replace_tail ?tail) Q E (m, s)"
  proof (rule wp_replace_tail[OF h ne free])
    fix b t
    assume a: "held rest (t, s\<lparr>sq_block_table := ?tab[length ?tab - 1 := b]\<rparr>)" "pool_only m t"
      "1 < gp_ref (bm_gpu m) ?tail \<Longrightarrow> free_of m = Suc (free_of t)"
    show "Q (Some (?tail, b)) (t, s\<lparr>sq_block_table := ?tab[length ?tab - 1 := b]\<rparr>)"
      by (rule ok[OF a(1,2) a(3)[OF shared]])
  qed
  have fin: "wp (cow_finish ?tail) Q E (m, s)"
    using rep shared lt by (simp add: cow_finish_def wp_bnd wp_gp_block_at gp_ref_def)
  have "wp (on_mgr (bm_ensure_free 1 p)) (\<lambda>_. wp (cow_finish ?tail) Q E) E' (m, s)" for p E'
  proof (rule wp_ensure[OF inv])
    fix t assume "1 \<le> int (free_of m) \<Longrightarrow> t = m"
    then show "wp (cow_finish ?tail) Q E (t, s)" using fin free by simp
  next
    fix t assume "int (card (obtainable (held_by rest ?tab) p m)) < 1"
    moreover have "free_of m \<le> card (obtainable (held_by rest ?tab) p m)"
      using free_plus_reclaimable[OF bm_invD(1,4)[OF inv], of p] by (simp add: free_of_def)
    ultimately show "E' RuntimeError (t, s)" using free by simp
  qed
  then show ?thesis using ne lt bs shared mt
    by (simp add: bm_copy_on_write_def wp_bnd wp_thn wp_get_set wp_gp_block_at
        wp_lift_res wp_catch wp_ret_eta wp_assert_block_size Let_def gp_ref_def)
qed

lemma wp_cow_tail:
  assumes h: "held rest (m, s)" and bs: "sq_block_size s = bm_block_size m"
    and k: "map_of (bm_cache m) k = Some e" and ids: "en_block_ids e \<noteq> []" and free: "0 < free_of m"
    and match: "is_ok (bm_matching s m)"
  shows "wp (bm_cow_tail k e n) (\<lambda>_. tail_placed rest k 1 (m, s)) (\<lambda>_ _. False) (m, s)"
  unfolding bm_cow_tail_def Let_def wp_thn
proof (rule wp_retain_page[OF heldD[OF h]])
  let ?c = "last (en_block_ids e)" and ?own = "held_by rest (sq_block_table s)"
  have mem: "?c \<in> set (cache_pages None (bm_cache m))"
    using entry_pages_subset[OF k] ids by (auto simp: en_pages_def)
  then show "0 < ?own ?c \<or> ?c \<in> set (cache_pages None (bm_cache m))" by simp
  fix t assume t: "bm_inv (?own(?c := ?own ?c + 1)) t" "pool_only m t" "free_of t = free_of m"
  let ?s = "s\<lparr>sq_block_table := sq_block_table s @ [?c]\<rparr>"
  have po: "bm_cache t = bm_cache m" "same_config m t" using pool_only_cache[OF t(2)] by auto
  have h': "held rest (t, ?s)" using t(1) by (simp add: held_def held_by_push)
  have inv: "bm_inv (held_by rest (sq_block_table ?s)) t" by (rule heldD[OF h'])
  have lt: "?c < gp_capacity (bm_gpu t)" using owned_used(2)[OF bm_invD(1)[OF inv], of ?c] mem po by simp
  have "0 < count_list (cache_pages None (bm_cache t)) ?c" using mem po by (simp add: count_list_pos_iff)
  then have shared: "1 < gp_ref (bm_gpu t) (last (sq_block_table ?s))"
    using refs_okD(2)[OF bm_invD(1)[OF inv] lt] by (simp add: held_by_def)
  have m': "is_ok (bm_matching ?s t)"
    using match po by (simp add: bm_matching_def sq_mm_prefix_boundary_def sq_prompt_token_ids_def same_config_def
        sq_image_token_spans_def sq_image_pad_runs_def cong: option.case_cong if_cong)
  have fr: "0 < free_of t" using free t(3) by simp
  have bs': "sq_block_size ?s = bm_block_size t" using bs po by (simp add: same_config_def)
  show "wp (push_page ?c) (\<lambda>_. wp (bnd bm_copy_on_write (\<lambda>pair. case pair of
         None \<Rightarrow> throw RuntimeError
       | Some (a, b) \<Rightarrow>
           thn (count_event (\<lambda>c. c\<lparr>ct_cow_copies := ct_cow_copies c + 1, ct_cow_rows := ct_cow_rows c + n\<rparr>))
          (thn (admit_tail k b) (ret [(a, b, n)])))) (\<lambda>_. tail_placed rest k 1 (m, s)) (\<lambda>_ _. False))
     (\<lambda>_ _. False) (t, s)"
    unfolding wp_get_set wp_bnd
  proof (rule wp_cow_shared[OF h' bs' _ shared fr m'])
    fix b :: nat and u :: manager
    let ?u = "u\<lparr>bm_counters := (bm_counters u)\<lparr>ct_cow_copies := ct_cow_copies (bm_counters u) + 1,
      ct_cow_rows := ct_cow_rows (bm_counters u) + n\<rparr>\<rparr>"
    let ?s2 = "s\<lparr>sq_block_table := sq_block_table s @ [b]\<rparr>"
    have tab: "?s\<lparr>sq_block_table := (sq_block_table ?s)[length (sq_block_table ?s) - 1 := b]\<rparr> = ?s2"
      by (simp add: list_update_append)
    assume u: "held rest (u, ?s\<lparr>sq_block_table := (sq_block_table ?s)[length (sq_block_table ?s) - 1 := b]\<rparr>)"
      "pool_only t u" "free_of t = Suc (free_of u)"
    have pu: "bm_cache u = bm_cache m" "same_config m u"
      using pool_only_cache[OF u(2)] po by (auto intro: same_config_trans)
    have hu: "held rest (?u, ?s2)" using u(1) unfolding tab by (simp add: held_def)
    have "wp (admit_tail k b) (\<lambda>_. tail_placed rest k 1 (m, s)) (\<lambda>_ _. False) (?u, ?s2)"
      by (rule wp_mono[OF wp_admit_tail[OF hu, of b k e "\<lambda>_ _. False"]])
        (use pu t(3) u(3) k in \<open>auto simp: tail_placed_def safe_def intro: same_config_trans\<close>)
    then show "wp (case Some (last (sq_block_table ?s), b) of
         None \<Rightarrow> throw RuntimeError
       | Some (a, b) \<Rightarrow>
           thn (count_event (\<lambda>c. c\<lparr>ct_cow_copies := ct_cow_copies c + 1, ct_cow_rows := ct_cow_rows c + n\<rparr>))
          (thn (admit_tail k b) (ret [(a, b, n)]))) (\<lambda>_. tail_placed rest k 1 (m, s)) (\<lambda>_ _. False)
       (u, ?s\<lparr>sq_block_table := (sq_block_table ?s)[length (sq_block_table ?s) - 1 := b]\<rparr>)"
      unfolding tab by (simp add: wp_thn wp_get_set wp_eta wp_ret_eta)
  qed simp
qed

text \<open>Reusing an idle clone takes no page.\<close>

lemma wp_reuse_tail:
  assumes h: "held rest (m, s)" and k: "map_of (bm_cache m) k = Some e" and b: "b \<in> set (en_tails e)"
    and ok: "\<And>t. bm_inv ((held_by rest (sq_block_table s))(b := held_by rest (sq_block_table s) b + 1)) t \<Longrightarrow>
      pool_only m t \<Longrightarrow> free_of t = free_of m \<Longrightarrow> Q b (t, s)"
  shows "wp (bm_retain_page b) Q E (m, s)"
  by (rule wp_retain_page[OF heldD[OF h]]) (use entry_pages_subset[OF k] b ok in \<open>auto simp: en_pages_def\<close>)

section \<open>Prefix hits\<close>

text \<open>The page table is in place: \<open>n\<close> pages, and the entry is still cached.\<close>

definition placed :: "(nat \<Rightarrow> nat) \<Rightarrow> string \<Rightarrow> nat \<Rightarrow> mseq \<Rightarrow> mseq \<Rightarrow> bool" where
  "placed rest k n st u \<longleftrightarrow> safe rest st u \<and>
     (\<exists>tab. snd u = (snd st)\<lparr>sq_block_table := tab\<rparr> \<and> length tab = n) \<and>
     map_of (bm_cache (fst u)) k \<noteq> None"

lemma placed_table: "placed rest k n st u \<Longrightarrow> length (sq_block_table (snd u)) = n"
  by (auto simp: placed_def)

lemma wp_grow_placed:
  assumes p: "placed rest k n st (m, s)" and free: "N - n \<le> free_of m" and le: "n \<le> N"
  shows "wp (bm_grow_to N) (\<lambda>_. placed rest k N st) (\<lambda>_ _. False) (m, s)"
proof -
  have h: "held rest (m, s)" using p by (simp add: placed_def safe_def)
  obtain tab where tab: "s = (snd st)\<lparr>sq_block_table := tab\<rparr>" "length tab = n" using p by (auto simp: placed_def)
  show ?thesis unfolding bm_grow_to_def wp_bnd wp_get_set
  proof (rule wp_mono[OF wp_grow[OF h]])
    fix x t
    assume "N - length (sq_block_table s) \<le> free_of m \<and>
      (\<exists>new. length new = N - length (sq_block_table s) \<and> extended rest (m, s) new t \<and>
        free_of (fst t) + (N - length (sq_block_table s)) = free_of m)"
    then obtain new where new: "length new = N - n" "extended rest (m, s) new t" using tab by auto
    then have t: "held rest t" "pool_only m (fst t)" "snd t = s\<lparr>sq_block_table := sq_block_table s @ new\<rparr>"
      by (simp_all add: extended_def)
    show "placed rest k N st t"
      using p t tab new le pool_only_cache[OF t(2)]
      by (auto simp: placed_def safe_def intro: same_config_trans)
  next
    fix e t assume "free_of m < N - length (sq_block_table s) \<and> (\<exists>new. extended rest (m, s) new t)"
    then show False using free tab by simp
  qed
qed

text \<open>The geometry of a hit: how many pages are shared, copied and fresh.\<close>

lemma hit_geometry:
  assumes wf: "entry_wf bs k e" and bs: "0 < bs"
  shows "set (immutable_pages e (en_physical_len e mod bs)) \<subseteq> set (en_block_ids e)"
    and "length (immutable_pages e (en_physical_len e mod bs)) + (if en_physical_len e mod bs = 0 then 0 else 1) =
      length (en_block_ids e)"
    and "en_block_ids e \<noteq> []" and "length (en_block_ids e) \<le> ceil_div (en_physical_len e + n) bs"
proof -
  have len: "length (en_block_ids e) = ceil_div (en_physical_len e) bs" and pos: "0 < en_physical_len e"
    using wf by (simp_all add: entry_wf_def)
  show "length (en_block_ids e) \<le> ceil_div (en_physical_len e + n) bs"
    unfolding len by (rule ceil_div_mono) simp
  have "0 < ceil_div (en_physical_len e) bs" using less_ceil_div_iff[OF bs, of 0] pos by simp
  then show ne: "en_block_ids e \<noteq> []" using len by auto
  show "set (immutable_pages e (en_physical_len e mod bs)) \<subseteq> set (en_block_ids e)"
    by (auto simp: immutable_pages_def dest: in_set_butlastD)
  show "length (immutable_pages e (en_physical_len e mod bs)) + (if en_physical_len e mod bs = 0 then 0 else 1) =
      length (en_block_ids e)"
    using ne by (cases "en_block_ids e") (auto simp: immutable_pages_def)
qed

text \<open>
  The part common to both hit paths, with the treatment of a partial tail as a parameter: it places
  one page, and takes a free page only when no clone is idle.
\<close>

definition places_tail :: "(nat \<Rightarrow> nat) \<Rightarrow> string \<Rightarrow> cache_entry \<Rightarrow> sequence \<Rightarrow> (copy_rows list, mseq) op \<Rightarrow> bool" where
  "places_tail rest k e s0 tail \<longleftrightarrow> (\<forall>m s. held rest (m, s) \<longrightarrow> map_of (bm_cache m) k = Some e \<longrightarrow>
     (\<exists>tab. s = s0\<lparr>sq_block_table := tab\<rparr>) \<longrightarrow> (bm_has_idle_tail m e \<or> 0 < free_of m) \<longrightarrow>
     sq_block_size s = bm_block_size m \<longrightarrow> is_ok (bm_matching s m) \<longrightarrow>
     wp tail (\<lambda>_. tail_placed rest k (if bm_has_idle_tail m e then 0 else 1) (m, s)) (\<lambda>_ _. False) (m, s))"

lemma bm_matching_iff:
  "bm_matching s m = Inr (Some (k, e)) \<longleftrightarrow> bm_enable_prefix m \<and> map_of (bm_cache m) k = Some e \<and>
     (\<exists>mk b. sq_mm_prefix_cache_key s = Some mk \<and> sq_mm_prefix_boundary s = Some b \<and>
       mm_cache_id mk (take b (sq_prompt_token_ids s)) = Inr k \<and> en_key e = mk \<and> en_logical_len e = b \<and>
       en_tokens e = take b (sq_prompt_token_ids s))"
  by (auto simp: bm_matching_def Let_def res_simps split: option.splits)

lemma bm_matching_table [simp]: "bm_matching (s\<lparr>sq_block_table := tab\<rparr>) m = bm_matching s m"
  by (simp add: bm_matching_def cong: option.case_cong if_cong)

lemma matching_kept:
  "bm_matching s m = Inr (Some (k, e)) \<Longrightarrow> same_config m t \<Longrightarrow> map_of (bm_cache t) k = Some e \<Longrightarrow>
   is_ok (bm_matching (s\<lparr>sq_block_table := tab\<rparr>) t)"
  unfolding bm_matching_table is_ok_iff
  by (rule exI[of _ "Some (k, e)"]) (simp add: bm_matching_iff same_config_def)

definition hit_mid :: "(nat \<Rightarrow> nat) \<Rightarrow> string \<Rightarrow> cache_entry \<Rightarrow> mseq \<Rightarrow> mseq \<Rightarrow> bool" where
  "hit_mid rest k e st u \<longleftrightarrow> held rest u \<and> same_config (fst st) (fst u) \<and> map_of (bm_cache (fst u)) k = Some e \<and>
     snd u = (snd st)\<lparr>sq_block_table := immutable_pages e (en_physical_len e mod bm_block_size (fst st))\<rparr> \<and>
     (bm_has_idle_tail (fst st) e \<longrightarrow> bm_has_idle_tail (fst u) e) \<and>
     bm_required_for_hit (snd st) e (fst st) \<le> int (free_of (fst u))"

lemma wp_hit_start:
  assumes h: "held rest (m, s)" and tab: "sq_block_table s = []" and k: "map_of (bm_cache m) k = Some e"
    and ok: "\<And>u. hit_mid rest k e (m, s) u \<Longrightarrow> Q () u"
    and err: "\<And>t. bm_inv rest t \<Longrightarrow> same_config m t \<Longrightarrow>
      int (gp_free_count (bm_gpu m) + bm_reclaimable (Some k) m) < bm_required_for_hit s e m \<Longrightarrow> E RuntimeError (t, s)"
  shows "wp (thn (on_mgr (bm_ensure_free (bm_required_for_hit s e m) (Some k)))
      (retain_pages (immutable_pages e (en_physical_len e mod bm_block_size m)))) Q E (m, s)"
proof -
  let ?imm = "immutable_pages e (en_physical_len e mod bm_block_size m)"
  have inv: "bm_inv rest m" using heldD[OF h] tab by simp
  have eq: "gp_free_count (bm_gpu m) + bm_reclaimable (Some k) m = card (obtainable rest (Some k) m)"
    by (rule free_plus_reclaimable[OF bm_invD(1,4)[OF inv]])
  note geo = hit_geometry[OF bm_invD(6)[OF inv k] bm_invD(5)[OF inv]]
  show ?thesis unfolding wp_thn
  proof (rule wp_ensure[OF inv])
    fix t assume t: "bm_inv rest t" "same_config m t" "keeps (Some k) m t" "bm_required_for_hit s e m \<le> int (free_of t)"
    have kt: "map_of (bm_cache t) k = Some e" using t(3) k by (simp add: keeps_def protected_def)
    have ht: "held rest (t, s)" using t(1) tab by (simp add: held_def)
    have sub: "set ?imm \<subseteq> set (cache_pages None (bm_cache t))"
      using entry_pages_subset[OF kt] geo(1) by (auto simp: en_pages_def)
    show "wp (retain_pages ?imm) Q E (t, s)"
    proof (rule wp_mono[OF wp_retain_pages[OF ht sub]])
      fix x u assume "extended rest (t, s) ?imm u \<and> free_of (fst u) = free_of t"
      then have u: "held rest u" "pool_only t (fst u)" "snd u = s\<lparr>sq_block_table := ?imm\<rparr>" "free_of (fst u) = free_of t"
        using tab by (auto simp: extended_def)
      obtain n s2 where n: "u = (n, s2)" by (cases u)
      have po: "bm_cache n = bm_cache t" "same_config m n"
        using pool_only_cache[OF u(2)] t(2) n by (auto intro: same_config_trans)
      have "bm_has_idle_tail n e" if "bm_has_idle_tail m e"
        by (rule idle_kept[OF h tab k that t(3), of n s2]) (use u n geo(1) po in \<open>auto simp: same_config_def\<close>)
      then have "hit_mid rest k e (m, s) u" using u n po kt t(4) by (simp add: hit_mid_def)
      then show "Q x u" using ok by simp
    qed simp
  next
    fix t assume "int (card (obtainable rest (Some k) m)) < bm_required_for_hit s e m" "bm_inv rest t" "same_config m t"
    then show "E RuntimeError (t, s)" using err eq by simp
  qed
qed

lemma wp_hit_end:
  assumes mid: "hit_mid rest k e (m, s) (n, s')" and h: "held rest (m, s)" and tab: "sq_block_table s = []"
    and bs: "sq_block_size s = bm_block_size m"
    and match: "bm_matching s m = Inr (Some (k, e))" and tail: "places_tail rest k e s tail"
    and ok: "\<And>copies t. placed rest k (bm_final_blocks m s e) (m, s) t \<Longrightarrow> Q copies t"
  shows "wp (bnd (if en_physical_len e mod bm_block_size m = 0 then ret [] else tail) (\<lambda>copies.
      thn (bm_grow_to (bm_final_blocks m s e)) (ret copies))) Q (\<lambda>_ _. False) (n, s')"
proof -
  let ?rows = "en_physical_len e mod bm_block_size m" and ?N = "bm_final_blocks m s e"
  let ?ids = "en_block_ids e"
  have k: "map_of (bm_cache m) k = Some e" by (rule bm_matching_Some[OF match])
  have inv: "bm_inv rest m" using heldD[OF h] tab by simp
  note geo = hit_geometry[OF bm_invD(6)[OF inv k] bm_invD(5)[OF inv]]
  have m: "held rest (n, s')" "same_config m n" "map_of (bm_cache n) k = Some e"
    "s' = s\<lparr>sq_block_table := immutable_pages e ?rows\<rparr>" "bm_has_idle_tail m e \<Longrightarrow> bm_has_idle_tail n e"
    "bm_required_for_hit s e m \<le> int (free_of n)"
    using mid by (auto simp: hit_mid_def)
  have le: "length ?ids \<le> ?N" using geo(4) by (simp add: bm_final_blocks_def)
  have grow: "wp (thn (bm_grow_to ?N) (ret copies)) Q (\<lambda>_ _. False) (t, u)"
    if "placed rest k (length ?ids) (m, s) (t, u)" "?N - length ?ids \<le> free_of t" for t u copies
    unfolding wp_thn wp_ret_eta by (rule wp_mono[OF wp_grow_placed[OF that le]]) (auto intro: ok)
  show ?thesis
  proof (cases "?rows = 0")
    case True
    have "placed rest k (length ?ids) (m, s) (n, s')" using m geo(2) True
      by (auto simp: placed_def safe_def intro!: exI[of _ "immutable_pages e 0"])
    then show ?thesis using grow m(6) True le
      by (simp add: wp_bnd wp_ret bm_required_for_hit_def bm_final_blocks_def)
  next
    case False
    have room: "bm_has_idle_tail n e \<or> 0 < free_of n" and
      free: "int ?N - int (length ?ids) + (if bm_has_idle_tail n e then 0 else 1) \<le> int (free_of n)"
      using m(5,6) le False by (auto simp: bm_required_for_hit_def split: if_splits)
    have pt: "wp tail (\<lambda>_. tail_placed rest k (if bm_has_idle_tail n e then 0 else 1) (n, s')) (\<lambda>_ _. False) (n, s')"
    proof (rule tail[unfolded places_tail_def, rule_format, OF m(1,3) _ room])
      show "\<exists>tab. s' = s\<lparr>sq_block_table := tab\<rparr>" unfolding m(4) by (rule exI, rule refl)
      show "sq_block_size s' = bm_block_size n" using bs m(2,4) by (simp add: same_config_def)
      show "is_ok (bm_matching s' n)" unfolding m(4) by (rule matching_kept[OF match m(2,3)])
    qed
    have "wp tail (\<lambda>copies. wp (thn (bm_grow_to ?N) (ret copies)) Q (\<lambda>_ _. False)) (\<lambda>_ _. False) (n, s')"
    proof (rule wp_mono[OF pt])
      fix copies st
      assume tp: "tail_placed rest k (if bm_has_idle_tail n e then 0 else 1) (n, s') st"
      obtain t u where st: "st = (t, u)" by (cases st)
      have c: "held rest (t, u)" "same_config n t" "map_of (bm_cache t) k \<noteq> None"
        using tp by (simp_all add: st tail_placed_def safe_def)
      obtain b where "u = s'\<lparr>sq_block_table := sq_block_table s' @ [b]\<rparr>"
        using tp by (auto simp: st tail_placed_def)
      then have u: "u = s\<lparr>sq_block_table := immutable_pages e ?rows @ [b]\<rparr>" unfolding m(4) by simp
      have "placed rest k (length ?ids) (m, s) (t, u)"
        unfolding placed_def safe_def fst_conv snd_conv u
        by (intro conjI exI[of _ "immutable_pages e ?rows @ [b]"])
          (use c same_config_trans[OF m(2) c(2)] geo(2) False in \<open>simp_all add: u\<close>)
      moreover have "?N - length ?ids \<le> free_of t" using tp st free le by (auto simp: tail_placed_def split: if_splits)
      ultimately show "wp (thn (bm_grow_to ?N) (ret copies)) Q (\<lambda>_ _. False) st" unfolding st by (rule grow)
    qed simp
    then show ?thesis using False by (simp add: wp_bnd)
  qed
qed

text \<open>Both tails do what the common part needs.\<close>

definition entry_tail :: "string \<Rightarrow> cache_entry \<Rightarrow> nat \<Rightarrow> (copy_rows list, mseq) op" where
  "entry_tail k e n = bnd (find_idle e) (\<lambda>idle. case idle of
      Some b \<Rightarrow>
        thn (bm_retain_page b)
       (thn (on_mgr (on_gpu (gp_clear_hash b)))
       (thn (push_page b)
       (thn (count_event (\<lambda>c. c\<lparr>ct_tail_hits := ct_tail_hits c + 1\<rparr>)) (ret []))))
    | None \<Rightarrow> bm_fresh_tail k e n)"

definition shared_tail :: "string \<Rightarrow> cache_entry \<Rightarrow> nat \<Rightarrow> (copy_rows list, mseq) op" where
  "shared_tail k e n = bnd (find_idle e) (\<lambda>idle. case idle of
      Some b \<Rightarrow>
        thn (bm_retain_page b)
       (thn (push_page b)
       (thn (count_event (\<lambda>c. c\<lparr>ct_tail_hits := ct_tail_hits c + 1,
               ct_tail_reused_rows := ct_tail_reused_rows c + n\<rparr>))
            (ret [])))
    | None \<Rightarrow> bm_cow_tail k e n)"

lemma wp_clear_owned:
  assumes inv: "bm_inv own m" and lt: "b < gp_capacity (bm_gpu m)"
    and ok: "\<And>p. bm_inv own (m\<lparr>bm_gpu := p\<rparr>) \<Longrightarrow> same_config m (m\<lparr>bm_gpu := p\<rparr>) \<Longrightarrow>
      gp_free_count p = gp_free_count (bm_gpu m) \<Longrightarrow> Q () (m\<lparr>bm_gpu := p\<rparr>, s)"
  shows "wp (on_mgr (on_gpu (gp_clear_hash b))) Q E (m, s)"
  unfolding wp_on_mgr wp_on_gpu
proof (rule wp_clear_hash[OF bm_invD(3)[OF inv]])
  fix p assume "b < gp_capacity (bm_gpu m)" and p: "register_post (bm_gpu m) b NO_BLOCK_HASH [] None p"
  have k: "keeps_refs (bm_gpu m) p" by (rule keeps_refs_register[OF p])
  have inv': "bm_inv own (m\<lparr>bm_gpu := p\<rparr>)" by (rule bm_inv_keeps_refs(1)[OF inv k])
  have "gp_free_count p = gp_free_count (bm_gpu m)"
    using free_count_owned[OF bm_invD(1)[OF inv']] free_count_owned[OF bm_invD(1)[OF inv]] k
    by (simp add: keeps_refs_def pool_step_def)
  then show "Q () (m\<lparr>bm_gpu := p\<rparr>, s)" by (rule ok[OF inv' bm_inv_keeps_refs(2)[OF inv k]])
next
  assume "\<not> b < gp_capacity (bm_gpu m)" then show "E IndexError (m\<lparr>bm_gpu := bm_gpu m\<rparr>, s)" using lt by simp
qed

lemma tail_placed_reuse:
  assumes "bm_inv ((held_by rest (sq_block_table s))(b := held_by rest (sq_block_table s) b + 1)) t"
    and "same_config m t" and "bm_cache t = bm_cache m" and "free_of t = free_of m" and "map_of (bm_cache m) k = Some e"
  shows "tail_placed rest k 0 (m, s) (t\<lparr>bm_counters := c\<rparr>, s\<lparr>sq_block_table := sq_block_table s @ [b]\<rparr>)"
  unfolding tail_placed_def safe_def held_def fst_conv snd_conv
  by (intro conjI exI[of _ b]) (use assms in \<open>simp_all add: held_by_push\<close>)

lemma places_entry_tail:
  shows "places_tail rest k e s0 (entry_tail k e n)"
  unfolding places_tail_def
proof (intro allI impI)
  fix m s assume h: "held rest (m, s)" and k: "map_of (bm_cache m) k = Some e" and room: "bm_has_idle_tail m e \<or> 0 < free_of m"
  show "wp (entry_tail k e n) (\<lambda>_. tail_placed rest k (if bm_has_idle_tail m e then 0 else 1) (m, s)) (\<lambda>_ _. False) (m, s)"
  proof (cases "List.find (\<lambda>b. gp_ref (bm_gpu m) b = 1) (en_tails e)")
    case None
    then have "\<not> bm_has_idle_tail m e" using find_idle_None by blast
    then show ?thesis using wp_fresh_tail[OF h k, of n] room
      by (simp add: entry_tail_def wp_bnd wp_find_idle None)
  next
    case (Some b)
    have idle: "bm_has_idle_tail m e" using Some find_idle_None[of m e] by auto
    have b: "b \<in> set (en_tails e)" using find_idle_Some[OF Some] by simp
    have "wp (bm_retain_page b) (\<lambda>_. wp (on_mgr (on_gpu (gp_clear_hash b))) (\<lambda>_. wp (thn (push_page b)
        (thn (count_event (\<lambda>c. c\<lparr>ct_tail_hits := ct_tail_hits c + 1\<rparr>)) (ret ([] :: copy_rows list))))
        (\<lambda>_. tail_placed rest k 0 (m, s)) (\<lambda>_ _. False)) (\<lambda>_ _. False)) (\<lambda>_ _. False) (m, s)"
    proof (rule wp_reuse_tail[OF h k b])
      fix t assume t: "bm_inv ((held_by rest (sq_block_table s))(b := held_by rest (sq_block_table s) b + 1)) t"
        "pool_only m t" "free_of t = free_of m"
      note po = pool_only_cache[OF t(2)]
      have lt: "b < gp_capacity (bm_gpu t)" using owned_used(2)[OF bm_invD(1)[OF t(1)], of b] by simp
      show "wp (on_mgr (on_gpu (gp_clear_hash b))) (\<lambda>_. wp (thn (push_page b)
          (thn (count_event (\<lambda>c. c\<lparr>ct_tail_hits := ct_tail_hits c + 1\<rparr>)) (ret ([] :: copy_rows list))))
          (\<lambda>_. tail_placed rest k 0 (m, s)) (\<lambda>_ _. False)) (\<lambda>_ _. False) (t, s)"
        by (rule wp_clear_owned[OF t(1) lt])
          (use t po k in \<open>auto simp: wp_thn wp_get_set wp_ret_eta wp_ret free_of_def
             intro!: tail_placed_reuse intro: same_config_trans\<close>)
    qed
    then show ?thesis using Some idle by (simp add: entry_tail_def wp_bnd wp_thn[of "bm_retain_page b"] wp_eta(3)[of "on_mgr g" for g] wp_find_idle)
  qed
qed

lemma places_shared_tail:
  assumes "en_block_ids e \<noteq> []"
  shows "places_tail rest k e s0 (shared_tail k e n)"
  unfolding places_tail_def
proof (intro allI impI)
  fix m s assume h: "held rest (m, s)" and k: "map_of (bm_cache m) k = Some e" and room: "bm_has_idle_tail m e \<or> 0 < free_of m"
    and bs: "sq_block_size s = bm_block_size m" and match: "is_ok (bm_matching s m)"
  show "wp (shared_tail k e n) (\<lambda>_. tail_placed rest k (if bm_has_idle_tail m e then 0 else 1) (m, s)) (\<lambda>_ _. False) (m, s)"
  proof (cases "List.find (\<lambda>b. gp_ref (bm_gpu m) b = 1) (en_tails e)")
    case None
    then have "\<not> bm_has_idle_tail m e" using find_idle_None by blast
    then show ?thesis using wp_cow_tail[OF h bs k assms _ match, of n] room
      by (simp add: shared_tail_def wp_bnd wp_find_idle None)
  next
    case (Some b)
    have idle: "bm_has_idle_tail m e" using Some find_idle_None[of m e] by auto
    have b: "b \<in> set (en_tails e)" using find_idle_Some[OF Some] by simp
    have "wp (bm_retain_page b) (\<lambda>_. wp (thn (push_page b) (thn (count_event (\<lambda>c. c\<lparr>ct_tail_hits := ct_tail_hits c + 1,
               ct_tail_reused_rows := ct_tail_reused_rows c + n\<rparr>)) (ret ([] :: copy_rows list))))
        (\<lambda>_. tail_placed rest k 0 (m, s)) (\<lambda>_ _. False)) (\<lambda>_ _. False) (m, s)"
      by (rule wp_reuse_tail[OF h k b])
        (use k in \<open>auto simp: wp_thn wp_get_set wp_ret_eta wp_ret dest!: pool_only_cache intro!: tail_placed_reuse\<close>)
    then show ?thesis using Some idle by (simp add: shared_tail_def wp_bnd wp_thn[of "bm_retain_page b"] wp_find_idle)
  qed
qed

section \<open>The hit paths\<close>

lemma hit_layout_ok:
  assumes match: "bm_matching s m = Inr (Some (k, e))" and wf: "entry_wf bs k e" and bs: "0 < bs"
    and flag: "get_flag (en_record e) ''physical_compaction''"
    and len: "length tab = ceil_div (en_physical_len e + (sq_num_prompt_tokens s - en_logical_len e)) bs"
  shows "0 < en_logical_len e" and "en_logical_len e < sq_num_prompt_tokens s"
    and "ly_validate bs tab False (hit_layout s e (hit_record s e n)) = Inr ()"
proof -
  have "sq_mm_prefix_boundary s = Some (en_logical_len e)" using match by (auto simp: bm_matching_iff)
  then show 1: "0 < en_logical_len e" and 2: "en_logical_len e < sq_num_prompt_tokens s"
    by (auto simp: sq_mm_prefix_boundary_def Let_def split: if_splits)
  have sub: "set (en_retained e) \<subseteq> {0..<int (en_logical_len e)}" and d: "sorted_wrt (<) (en_retained e)"
    and l: "length (en_retained e) = en_physical_len e" and pos: "0 < en_physical_len e" and dt: "en_kv_dtype e \<noteq> []"
    using wf unfolding entry_wf_def by blast+
  have "card (set (en_retained e)) \<le> card {0..<int (en_logical_len e)}" by (rule card_mono) (use sub in auto)
  moreover have "distinct (en_retained e)" using d by (simp add: strict_sorted_iff)
  ultimately have le: "en_physical_len e \<le> en_logical_len e" using l by (simp add: distinct_card)
  have "get_flag (hit_record s e n) ''physical_compaction''"
    using flag by (simp add: hit_record_def get_flag_def dict_get_update)
  then show "ly_validate bs tab False (hit_layout s e (hit_record s e n)) = Inr ()"
    unfolding ly_validate_ok using 1 2 le pos sub d l dt bs len
    by (auto simp: layout_wf_def table_fits_def hit_layout_def ly_effective_compacted_def
        KV_LAYOUT_SCHEMA_VERSION_def KV_LAYOUT_VISUAL_COMPACT_def ly_final_physical_len_def intro: ceil_div_mono)
qed

text \<open>What a hit leaves behind.\<close>

definition hit_post :: "(nat \<Rightarrow> nat) \<Rightarrow> cache_entry \<Rightarrow> mseq \<Rightarrow> mseq \<Rightarrow> bool" where
  "hit_post rest e st t \<longleftrightarrow> safe rest st t \<and>
     length (sq_block_table (snd t)) = bm_final_blocks (fst st) (snd st) e \<and>
     sq_num_cached_tokens (snd t) = en_logical_len e \<and> sq_num_computed_tokens (snd t) = en_logical_len e \<and>
     sq_mm_prefix_cache_hit (snd t)"

definition hit_error :: "(nat \<Rightarrow> nat) \<Rightarrow> string \<Rightarrow> cache_entry \<Rightarrow> mseq \<Rightarrow> mseq \<Rightarrow> bool" where
  "hit_error rest k e st t \<longleftrightarrow> safe rest st t \<and> sq_block_table (snd t) = [] \<and>
     int (gp_free_count (bm_gpu (fst st)) + bm_reclaimable (Some k) (fst st)) < bm_required_for_hit (snd st) e (fst st)"

lemma wp_finish_hit:
  assumes "safe rest st (m, s)" and "map_of (bm_cache m) k \<noteq> None"
  shows "wp (finish_hit k) (\<lambda>_ t. safe rest st t \<and> snd t = s) E (m, s)"
proof -
  have h: "held rest (m, s)" by (rule safe_held[OF assms(1)])
  have "wp (finish_hit k) (\<lambda>_. safe rest (m, s)) (\<lambda>_. safe rest (m, s)) (m, s)" by (rule preservingD[OF _ h]) (intro preserving)
  then show ?thesis
    using assms by (auto simp: finish_hit_def wp_simps safe_def intro: same_config_trans)
qed

lemma hit_record_state:
  assumes "placed rest k n (m, s) (t, u)"
    and "\<And>v. sq_block_table (f v) = sq_block_table v \<and> sq_cpu_block_table (f v) = sq_cpu_block_table v \<and>
      sq_block_size (f v) = sq_block_size v"
  shows "safe rest (m, s) (t, f u)" and "length (sq_block_table (f u)) = n"
  using assms(1) assms(2)[of u] by (auto simp: placed_def safe_def held_def)

lemma wp_allocate_entry_hit:
  assumes h: "held rest (m, s)" and tab: "sq_block_table s = []" and bs: "sq_block_size s = bm_block_size m"
    and match: "bm_matching s m = Inr (Some (k, e))"
  shows "wp (bm_allocate_entry_hit k e) (\<lambda>_. hit_post rest e (m, s)) (\<lambda>_. hit_error rest k e (m, s)) (m, s)"
proof -
  let ?rows = "en_physical_len e mod bm_block_size m" and ?N = "bm_final_blocks m s e"
  let ?n = "en_physical_len e + (sq_num_prompt_tokens s - en_logical_len e)"
  let ?imm = "immutable_pages e ?rows"
  let ?set = "\<lambda>s'. s'\<lparr>sq_num_cached_tokens := en_logical_len e, sq_num_computed_tokens := en_logical_len e,
     sq_candidate_tokens := en_logical_len e, sq_mm_prefix_cache_hit := True, sq_decision_record := Some (hit_record s e ?n)\<rparr>"
  let ?Q = "\<lambda>_ :: copy_rows list. hit_post rest e (m, s)" and ?E = "\<lambda>_ :: py_error. hit_error rest k e (m, s)"
  have k: "map_of (bm_cache m) k = Some e" by (rule bm_matching_Some[OF match])
  have finish: "wp (thn (set_seq ?set) (thn (finish_hit k) (ret copies))) ?Q (\<lambda>_ _. False) t"
    if p: "placed rest k ?N (m, s) t" for copies t
  proof -
    obtain n u where t: "t = (n, u)" by (cases t)
    have p': "placed rest k ?N (m, s) (n, u)" using p t by simp
    have sf: "safe rest (m, s) (n, ?set u)" and len: "length (sq_block_table (?set u)) = ?N"
      by (rule hit_record_state[OF p'], simp)+
    have pk: "map_of (bm_cache n) k \<noteq> None" using p' by (simp add: placed_def)
    show ?thesis unfolding t wp_thn wp_get_set wp_ret_eta
    proof (rule wp_mono[OF wp_finish_hit[OF sf pk, of "\<lambda>_ _. False"]])
      fix x t2 assume "safe rest (m, s) t2 \<and> snd t2 = ?set u"
      then have a: "safe rest (m, s) t2" and b: "snd t2 = ?set u" by blast+
      show "hit_post rest e (m, s) t2"
        unfolding hit_post_def b using a len by simp
    qed
  qed
  have start: "wp (thn (on_mgr (bm_ensure_free (bm_required_for_hit s e m) (Some k))) (retain_pages ?imm))
    (\<lambda>_. wp (thn (count_event (\<lambda>c. c\<lparr>ct_reused_blocks := ct_reused_blocks c + length ?imm\<rparr>))
      (bnd (bnd (if ?rows = 0 then ret [] else entry_tail k e ?rows) (\<lambda>copies. thn (bm_grow_to ?N) (ret copies)))
        (\<lambda>copies. thn (set_seq ?set) (thn (finish_hit k) (ret copies))))) ?Q ?E) ?E (m, s)"
  proof (rule wp_hit_start[OF h tab k])
    fix u assume mid: "hit_mid rest k e (m, s) u"
    obtain n v where u: "u = (n, v)" by (cases u)
    let ?n' = "n\<lparr>bm_counters := (bm_counters n)\<lparr>ct_reused_blocks := ct_reused_blocks (bm_counters n) + length ?imm\<rparr>\<rparr>"
    have mid': "hit_mid rest k e (m, s) (?n', v)"
      using mid unfolding u hit_mid_def by (auto simp: held_def bm_has_idle_tail_def)
    have "wp (bnd (if ?rows = 0 then ret [] else entry_tail k e ?rows) (\<lambda>copies. thn (bm_grow_to ?N) (ret copies)))
      (\<lambda>copies. wp (thn (set_seq ?set) (thn (finish_hit k) (ret copies))) ?Q ?E) (\<lambda>_ _. False) (?n', v)"
      by (rule wp_hit_end[OF mid' h tab bs match places_entry_tail])
        (rule wp_mono[OF finish], auto)
    then have "wp (bnd (if ?rows = 0 then ret [] else entry_tail k e ?rows) (\<lambda>copies. thn (bm_grow_to ?N) (ret copies)))
      (\<lambda>copies. wp (thn (set_seq ?set) (thn (finish_hit k) (ret copies))) ?Q ?E) ?E (?n', v)"
      by (rule wp_mono) auto
    then show "wp (thn (count_event (\<lambda>c. c\<lparr>ct_reused_blocks := ct_reused_blocks c + length ?imm\<rparr>))
      (bnd (bnd (if ?rows = 0 then ret [] else entry_tail k e ?rows) (\<lambda>copies. thn (bm_grow_to ?N) (ret copies)))
        (\<lambda>copies. thn (set_seq ?set) (thn (finish_hit k) (ret copies))))) ?Q ?E u"
      unfolding u wp_thn[of "count_event g" for g] wp_get_set wp_bnd[of "bnd a b" for a b] .
  next
    fix t assume "bm_inv rest t" "same_config m t"
      "int (gp_free_count (bm_gpu m) + bm_reclaimable (Some k) m) < bm_required_for_hit s e m"
    then show "?E RuntimeError (t, s)" using tab by (simp add: hit_error_def safe_def held_def)
  qed
  have eq: "bm_final_blocks m s e = ceil_div ?n (bm_block_size m)" by (simp add: bm_final_blocks_def)
  show ?thesis
    using start unfolding bm_allocate_entry_hit_def entry_tail_def[symmetric] eq Let_def wp_bnd[of get_mgr] wp_bnd[of get_seq] wp_get_set
    by (simp only: wp_thn wp_bnd wp_eta wp_ret_eta wp_get_set)
qed

lemma wp_install_hit_layout:
  assumes "bm_matching s m = Inr (Some (k, e))" and "entry_wf bs k e" and "0 < bs" and "sq_block_size s = bs"
    and flag: "get_flag (en_record e) ''physical_compaction''" and kv: "sq_kv_layout s = None"
    and len: "length tab = ceil_div (en_physical_len e + (sq_num_prompt_tokens s - en_logical_len e)) bs"
    and v: "v = s\<lparr>sq_block_table := tab, sq_num_cached_tokens := en_logical_len e, sq_num_computed_tokens := en_logical_len e,
     sq_candidate_tokens := en_logical_len e, sq_mm_prefix_cache_hit := True, sq_decision_record := Some (hit_record s e n)\<rparr>"
    and ok: "Q () (t, v\<lparr>sq_kv_layout := Some (hit_layout s e (hit_record s e n))\<rparr>)"
  shows "wp (on_seq (sq_install_cached_prefix_layout (hit_layout s e (hit_record s e n)))) Q E (t, v)"
  using hit_layout_ok(1,2)[OF assms(1-3) flag len] hit_layout_ok(3)[OF assms(1-3) flag len, of n] kv assms(4) ok
  by (simp add: wp_on_seq sq_install_cached_prefix_layout_def wp_simps v hit_layout_def)

definition end_prefix_hit :: "string \<Rightarrow> cache_entry \<Rightarrow> sequence \<Rightarrow> nat \<Rightarrow> copy_rows list \<Rightarrow> (copy_rows list, mseq) op" where
  "end_prefix_hit k e s n copies =
     thn (set_seq (\<lambda>s'. s'\<lparr>sq_num_cached_tokens := en_logical_len e, sq_num_computed_tokens := en_logical_len e,
       sq_candidate_tokens := en_logical_len e, sq_mm_prefix_cache_hit := True, sq_decision_record := Some (hit_record s e n)\<rparr>))
    (thn (on_seq (sq_install_cached_prefix_layout (hit_layout s e (hit_record s e n))))
    (thn (finish_hit k) (ret copies)))"

lemma wp_prefix_hit_pages:
  assumes h: "held rest (m, s)" and tab: "sq_block_table s = []" and bs: "sq_block_size s = bm_block_size m"
    and match: "bm_matching s m = Inr (Some (k, e))"
    and fin: "\<And>copies t. placed rest k (bm_final_blocks m s e) (m, s) t \<Longrightarrow>
      wp (end_prefix_hit k e s (en_physical_len e + (sq_num_prompt_tokens s - en_logical_len e)) copies) Q E t"
    and err: "\<And>t. hit_error rest k e (m, s) t \<Longrightarrow> E RuntimeError t"
  shows "wp (bm_allocate_prefix_hit k e) Q E (m, s)"
proof -
  let ?rows = "en_physical_len e mod bm_block_size m" and ?N = "bm_final_blocks m s e"
  let ?n = "en_physical_len e + (sq_num_prompt_tokens s - en_logical_len e)"
  let ?imm = "immutable_pages e ?rows" and ?last = "end_prefix_hit k e s ?n"
  let ?tail = "if ?rows = 0 then ret [] else shared_tail k e ?rows"
  have k: "map_of (bm_cache m) k = Some e" by (rule bm_matching_Some[OF match])
  have inv: "bm_inv rest m" using heldD[OF h] tab by simp
  have ids: "en_block_ids e \<noteq> []" by (rule hit_geometry(3)[OF bm_invD(6)[OF inv k] bm_invD(5)[OF inv]])
  have eq: "bm_final_blocks m s e = ceil_div ?n (bm_block_size m)" by (simp add: bm_final_blocks_def)
  have start: "wp (thn (on_mgr (bm_ensure_free (bm_required_for_hit s e m) (Some k))) (retain_pages ?imm))
    (\<lambda>_. wp (bnd (bnd ?tail (\<lambda>copies. thn (bm_grow_to ?N) (ret copies))) ?last) Q E) E (m, s)"
  proof (rule wp_hit_start[OF h tab k])
    fix u assume mid: "hit_mid rest k e (m, s) u"
    obtain n v where u: "u = (n, v)" by (cases u)
    have "wp (bnd ?tail (\<lambda>copies. thn (bm_grow_to ?N) (ret copies))) (\<lambda>copies. wp (?last copies) Q E) (\<lambda>_ _. False) (n, v)"
      by (rule wp_hit_end[OF mid[unfolded u] h tab bs match places_shared_tail[OF ids]]) (rule fin)
    then have "wp (bnd ?tail (\<lambda>copies. thn (bm_grow_to ?N) (ret copies))) (\<lambda>copies. wp (?last copies) Q E) E (n, v)"
      by (rule wp_mono) auto
    then show "wp (bnd (bnd ?tail (\<lambda>copies. thn (bm_grow_to ?N) (ret copies))) ?last) Q E u"
      unfolding u wp_bnd[of "bnd a b" for a b] .
  next
    fix t assume "bm_inv rest t" "same_config m t"
      "int (gp_free_count (bm_gpu m) + bm_reclaimable (Some k) m) < bm_required_for_hit s e m"
    then show "E RuntimeError (t, s)" using tab by (intro err) (simp add: hit_error_def safe_def held_def)
  qed
  show ?thesis
    using start unfolding bm_allocate_prefix_hit_def shared_tail_def[symmetric] eq Let_def wp_bnd[of get_mgr] wp_bnd[of get_seq]
      wp_get_set end_prefix_hit_def
    by (simp only: wp_thn wp_bnd wp_eta wp_ret_eta wp_get_set)
qed

lemma wp_allocate_prefix_hit:
  assumes h: "held rest (m, s)" and tab: "sq_block_table s = []" and bs: "sq_block_size s = bm_block_size m"
    and match: "bm_matching s m = Inr (Some (k, e))" and kv: "sq_kv_layout s = None"
    and flag: "get_flag (en_record e) ''physical_compaction''"
  shows "wp (bm_allocate_prefix_hit k e) (\<lambda>_. hit_post rest e (m, s)) (\<lambda>_. hit_error rest k e (m, s)) (m, s)"
proof (rule wp_prefix_hit_pages[OF h tab bs match])
  let ?n = "en_physical_len e + (sq_num_prompt_tokens s - en_logical_len e)"
  let ?N = "bm_final_blocks m s e" and ?r = "hit_record s e ?n"
  let ?set = "\<lambda>s'. s'\<lparr>sq_num_cached_tokens := en_logical_len e, sq_num_computed_tokens := en_logical_len e,
     sq_candidate_tokens := en_logical_len e, sq_mm_prefix_cache_hit := True, sq_decision_record := Some ?r\<rparr>"
  fix copies t
  assume p: "placed rest k ?N (m, s) t"
  have k: "map_of (bm_cache m) k = Some e" by (rule bm_matching_Some[OF match])
  have inv: "bm_inv rest m" using heldD[OF h] tab by simp
  have wf: "entry_wf (bm_block_size m) k e" and pos: "0 < bm_block_size m" by (rule bm_invD(6)[OF inv k], rule bm_invD(5)[OF inv])
  obtain n u where t: "t = (n, u)" by (cases t)
  have p': "placed rest k ?N (m, s) (n, u)" using p t by simp
  obtain tab' where u: "u = s\<lparr>sq_block_table := tab'\<rparr>" "length tab' = ?N" using p' by (auto simp: placed_def)
  let ?v = "(?set u)\<lparr>sq_kv_layout := Some (hit_layout s e ?r)\<rparr>"
  have sf: "safe rest (m, s) (n, ?v)" and len: "length (sq_block_table ?v) = ?N"
    by (rule hit_record_state[OF p', where f = "\<lambda>u. (?set u)\<lparr>sq_kv_layout := Some (hit_layout s e ?r)\<rparr>"], simp)+
  have pk: "map_of (bm_cache n) k \<noteq> None" using p' by (simp add: placed_def)
  have fin: "wp (finish_hit k) (\<lambda>_. hit_post rest e (m, s)) (\<lambda>_. hit_error rest k e (m, s)) (n, ?v)"
  proof (rule wp_mono[OF wp_finish_hit[OF sf pk, of "\<lambda>_ _. False"]])
    fix x t2 assume "safe rest (m, s) t2 \<and> snd t2 = ?v"
    then have a: "safe rest (m, s) t2" and b: "snd t2 = ?v" by blast+
    show "hit_post rest e (m, s) t2" unfolding hit_post_def b using a len by simp
  qed simp
  show "wp (end_prefix_hit k e s ?n copies) (\<lambda>_. hit_post rest e (m, s)) (\<lambda>_. hit_error rest k e (m, s)) t"
    unfolding t end_prefix_hit_def wp_thn wp_get_set wp_ret_eta
  proof (rule wp_install_hit_layout[OF match wf pos bs flag kv])
    show "length tab' = ceil_div ?n (bm_block_size m)" using u(2) by (simp add: bm_final_blocks_def)
    show "?set u = s\<lparr>sq_block_table := tab', sq_num_cached_tokens := en_logical_len e, sq_num_computed_tokens := en_logical_len e,
      sq_candidate_tokens := en_logical_len e, sq_mm_prefix_cache_hit := True, sq_decision_record := Some ?r\<rparr>" by (simp add: u)
  qed (rule fin)
qed

text \<open>Without the evidence of a compaction the layout is refused, but the pages stay consistent.\<close>

lemma preserving_install_layout [preserving]: "preserving (on_seq (sq_install_cached_prefix_layout ly))"
  by (rule preservingI)
    (auto simp: wp_on_seq sq_install_cached_prefix_layout_def wp_simps safe_def held_def split: sum.splits)

lemma preserving_end_prefix_hit: "preserving (end_prefix_hit k e s n copies)"
  unfolding end_prefix_hit_def by (intro preserving) simp_all

lemma wp_allocate_prefix_hit_safe:
  assumes "held rest (m, s)" and "sq_block_table s = []" and "sq_block_size s = bm_block_size m"
    and "bm_matching s m = Inr (Some (k, e))"
  shows "wp (bm_allocate_prefix_hit k e) (\<lambda>_. safe rest (m, s)) (\<lambda>_. safe rest (m, s)) (m, s)"
  by (rule wp_prefix_hit_pages[OF assms])
    (auto intro: wp_preserving[OF preserving_end_prefix_hit] simp: placed_def hit_error_def)

end
