(* ===== verification/Block_System.thy ===== *)
theory Block_System imports Block_Admission begin

text \<open>
  The block manager with all its sequences: ownership of GPU and CPU pages together, the
  operations that move pages between the pools, and the machine whose steps are the public calls
  on any of the sequences.
\<close>

section \<open>Ownership of both pools\<close>

text \<open>\<open>crest\<close> is the set of CPU pages of all other sequences.\<close>

definition cpu_held :: "nat set \<Rightarrow> mseq \<Rightarrow> bool" where
  "cpu_held crest st \<longleftrightarrow> cpu_inv (bm_cpu (fst st)) \<and> distinct (sq_cpu_block_table (snd st)) \<and>
     crest \<inter> set (sq_cpu_block_table (snd st)) = {} \<and>
     cp_used (bm_cpu (fst st)) = crest \<union> set (sq_cpu_block_table (snd st))"

definition same_shape :: "manager \<Rightarrow> manager \<Rightarrow> bool" where
  "same_shape m t \<longleftrightarrow> same_config m (t\<lparr>bm_cpu := bm_cpu m\<rparr>) \<and> cp_capacity (bm_cpu t) = cp_capacity (bm_cpu m)"

definition owned :: "(nat \<Rightarrow> nat) \<Rightarrow> nat set \<Rightarrow> mseq \<Rightarrow> bool" where
  "owned rest crest st \<longleftrightarrow> held rest st \<and> cpu_held crest st"

definition steady :: "(nat \<Rightarrow> nat) \<Rightarrow> nat set \<Rightarrow> mseq \<Rightarrow> mseq \<Rightarrow> bool" where
  "steady rest crest st t \<longleftrightarrow> owned rest crest t \<and> same_shape (fst st) (fst t) \<and>
     sq_block_size (snd t) = sq_block_size (snd st)"

lemma same_shape_refl [simp]: "same_shape m m"
  by (simp add: same_shape_def same_config_def)

lemma same_shape_trans: "same_shape m t \<Longrightarrow> same_shape t u \<Longrightarrow> same_shape m u"
  by (simp add: same_shape_def same_config_def)

lemma same_config_shape: "same_config m t \<Longrightarrow> same_shape m t"
  by (simp add: same_shape_def same_config_def)

lemma steady_refl: "owned rest crest st \<Longrightarrow> steady rest crest st st"
  by (simp add: steady_def)

lemma safe_steady: "cpu_held crest st \<Longrightarrow> safe rest st t \<Longrightarrow> steady rest crest st t"
  by (auto simp: steady_def owned_def safe_def cpu_held_def same_config_shape same_config_fields)

definition system_op :: "('a, mseq) op \<Rightarrow> bool" where
  "system_op p \<longleftrightarrow> (\<forall>rest crest st. owned rest crest st \<longrightarrow>
     wp p (\<lambda>_. steady rest crest st) (\<lambda>_. steady rest crest st) st)"

lemma preserving_system: "preserving p \<Longrightarrow> system_op p"
  unfolding system_op_def owned_def
  by (blast intro: wp_mono[OF preservingD] safe_steady)

section \<open>Deallocation\<close>

lemma refs_ok_cpu [simp]: "bm_inv own (m\<lparr>bm_cpu := c\<rparr>) = bm_inv own m"
  by (simp add: bm_inv_def)

lemma wp_release_table:
  assumes h: "held rest (m, s)" and ids: "mset ids = mset (sq_block_table s)"
    and ok: "\<And>p. bm_inv rest (m\<lparr>bm_gpu := p\<rparr>) \<Longrightarrow> same_config m (m\<lparr>bm_gpu := p\<rparr>) \<Longrightarrow> Q () (m\<lparr>bm_gpu := p\<rparr>, s)"
  shows "wp (on_mgr (bm_release_pages ids)) Q E (m, s)"
  unfolding wp_on_mgr
proof (rule wp_release_pages[where own = rest])
  show "refs_ok (\<lambda>b. rest b + count_list ids b) m"
    using heldD[OF h] mset_count_list[OF ids] by (simp add: bm_inv_def held_by_def)
  fix p assume "refs_ok rest (m\<lparr>bm_gpu := p\<rparr>)" "same_config m (m\<lparr>bm_gpu := p\<rparr>)"
  then show "Q () (m\<lparr>bm_gpu := p\<rparr>, s)" using bm_invD(2)[OF heldD[OF h]] by (intro ok) (simp_all add: bm_inv_def)
qed

lemma wp_cpu_release:
  assumes c: "cpu_held crest (m, s)"
    and ok: "cpu_inv (given (sq_cpu_block_table s) (bm_cpu m)) \<Longrightarrow>
      cp_used (given (sq_cpu_block_table s) (bm_cpu m)) = crest \<Longrightarrow>
      Q () (m\<lparr>bm_cpu := given (sq_cpu_block_table s) (bm_cpu m)\<rparr>, s)"
  shows "wp (on_mgr (on_cpu (cp_release_many (sq_cpu_block_table s)))) Q E (m, s)"
proof -
  have i: "cpu_inv (bm_cpu m)" and d: "distinct (sq_cpu_block_table s)" and sub: "set (sq_cpu_block_table s) \<subseteq> cp_used (bm_cpu m)"
    and u: "cp_used (bm_cpu m) = crest \<union> set (sq_cpu_block_table s)" "crest \<inter> set (sq_cpu_block_table s) = {}"
    using c by (auto simp: cpu_held_def)
  have cap: "set (sq_cpu_block_table s) \<subseteq> {..<cp_capacity (bm_cpu m)}" using i sub by (auto simp: cpu_inv_def)
  have "cp_used (given (sq_cpu_block_table s) (bm_cpu m)) = crest" using u by (auto simp: given_def)
  then show ?thesis using ok given_inv[OF i d sub] sub cap d
    by (simp add: wp_on_mgr wp_on_cpu wp_cp_release_many[OF i])
qed

lemma wp_cpu_validate:
  assumes "cpu_held crest (m, s)"
  shows "wp (on_mgr (on_cpu (cp_validate_owned (sq_cpu_block_table s)))) Q E (m, s) = Q (sq_cpu_block_table s) (m, s)"
proof -
  have "list_all (\<lambda>i. i < cp_capacity (bm_cpu m)) (sq_cpu_block_table s)" and
    "list_all (\<lambda>i. i \<in> cp_used (bm_cpu m)) (sq_cpu_block_table s)" and "distinct (sq_cpu_block_table s)"
    using assms by (auto simp: cpu_held_def cpu_inv_def list_all_iff)
  then show ?thesis by (simp add: wp_on_mgr wp_on_cpu wp_cp_validate_owned)
qed

text \<open>Deallocation returns every page of the sequence to its pool and empties both tables.\<close>

definition freed_all :: "(nat \<Rightarrow> nat) \<Rightarrow> nat set \<Rightarrow> mseq \<Rightarrow> bool" where
  "freed_all rest crest t \<longleftrightarrow> bm_inv rest (fst t) \<and> cpu_inv (bm_cpu (fst t)) \<and> cp_used (bm_cpu (fst t)) = crest \<and>
     sq_block_table (snd t) = [] \<and> sq_cpu_block_table (snd t) = [] \<and> sq_kv_layout (snd t) = None \<and>
     sq_num_cached_tokens (snd t) = 0"

lemma wp_deallocate:
  assumes o: "owned rest crest (m, s)" and bs: "sq_block_size s = bm_block_size m"
  shows "wp bm_deallocate (\<lambda>_ t. steady rest crest (m, s) t \<and> freed_all rest crest t) (\<lambda>_ _. False) (m, s)"
proof -
  have h: "held rest (m, s)" and c: "cpu_held crest (m, s)" using o by (simp_all add: owned_def)
  let ?Q = "\<lambda>_ t. steady rest crest (m, s) t \<and> freed_all rest crest t"
  let ?reset = "\<lambda>s. s\<lparr>sq_num_cached_tokens := 0, sq_block_table := [], sq_cpu_block_table := [],
            sq_cpu_block_hashes := [], sq_cpu_block_token_ids := [], sq_cpu_block_mm_hashes := [],
            sq_kv_layout := None, sq_candidate_tokens := 0, sq_mm_prefix_cache_hit := False\<rparr>"
  have "wp (on_mgr (bm_release_pages (rev (sq_block_table s)))) (\<lambda>_. wp (on_mgr (on_cpu (cp_release_many (sq_cpu_block_table s))))
      (\<lambda>_. wp (set_seq ?reset) ?Q (\<lambda>_ _. False)) (\<lambda>_ _. False)) (\<lambda>_ _. False) (m, s)"
  proof (rule wp_release_table[OF h])
    fix p assume p: "bm_inv rest (m\<lparr>bm_gpu := p\<rparr>)" "same_config m (m\<lparr>bm_gpu := p\<rparr>)"
    have c': "cpu_held crest (m\<lparr>bm_gpu := p\<rparr>, s)" using c by (simp add: cpu_held_def)
    show "wp (on_mgr (on_cpu (cp_release_many (sq_cpu_block_table s)))) (\<lambda>_. wp (set_seq ?reset) ?Q (\<lambda>_ _. False))
      (\<lambda>_ _. False) (m\<lparr>bm_gpu := p\<rparr>, s)"
      by (rule wp_cpu_release[OF c'])
        (use p in \<open>simp add: wp_get_set steady_def owned_def held_def cpu_held_def freed_all_def same_shape_def
           same_config_def given_def\<close>)
  qed simp
  then show ?thesis using bs wp_cpu_validate[OF c]
    by (cases "sq_cpu_block_table s = []") (simp_all add: bm_deallocate_def wp_thn wp_bnd wp_eta wp_get_set wp_assert_block_size wp_ret wp_ret_eta)
qed

lemma system_deallocate: "system_op bm_deallocate"
  unfolding system_op_def
proof (intro allI impI)
  fix rest crest st assume o: "owned rest crest st"
  obtain m s where st: "st = (m, s)" by (cases st)
  show "wp bm_deallocate (\<lambda>_. steady rest crest st) (\<lambda>_. steady rest crest st) st"
  proof (cases "sq_block_size s = bm_block_size m")
    case True
    show ?thesis unfolding st by (rule wp_mono[OF wp_deallocate[OF o[unfolded st] True]]) auto
  next
    case False
    then show ?thesis using o st by (simp add: bm_deallocate_def wp_simps steady_refl)
  qed
qed

section \<open>Allocation\<close>

lemma wp_rollback:
  assumes o: "owned rest crest (m, s)" and bs: "sq_block_size s = bm_block_size m"
    and body: "wp body Q (\<lambda>_. safe rest (m, s)) (m, s)"
    and err: "\<And>e t. steady rest crest (m, s) t \<Longrightarrow> E e t"
  shows "wp (rollback body) Q E (m, s)"
  unfolding rollback_def wp_catch
proof (rule wp_mono[OF body])
  fix e t assume sf: "safe rest (m, s) t"
  obtain n u where t: "t = (n, u)" by (cases t)
  have st: "steady rest crest (m, s) (n, u)" using safe_steady[OF _ sf] o t by (simp add: owned_def)
  have on: "owned rest crest (n, u)" using st by (simp add: steady_def)
  have bsn: "sq_block_size u = bm_block_size n" using sf bs t by (simp add: safe_def same_config_def)
  have "wp bm_deallocate (\<lambda>_. E e) (\<lambda>_ _. False) (n, u)"
    by (rule wp_mono[OF wp_deallocate[OF on bsn]])
      (use st same_shape_trans in \<open>auto intro!: err simp: steady_def\<close>)
  then have "wp bm_deallocate (\<lambda>_. E e) E (n, u)" by (rule wp_mono) auto
  then show "wp (bnd get_seq (\<lambda>s. thn (if sq_block_table s \<noteq> [] then bm_deallocate else ret ()) (throw e))) Q E t"
    using err[OF st] unfolding t wp_bnd wp_thn wp_get_set wp_eta by (cases "sq_block_table u = []") (simp_all add: wp_ret)
qed

lemma hit_post_safe: "hit_post rest e st t \<Longrightarrow> safe rest st t"
  by (simp add: hit_post_def)

lemma safe_mgr_seq:
  assumes "held rest (m, s)" and "\<And>v. sq_block_table (f v) = sq_block_table v \<and> sq_cpu_block_table (f v) = sq_cpu_block_table v \<and>
      sq_block_size (f v) = sq_block_size v"
  shows "safe rest (m, s) (m\<lparr>bm_counters := c\<rparr>, f s)"
  using assms(1) assms(2)[of s] by (simp add: safe_def held_def)

text \<open>Every outcome of \<open>allocate\<close> leaves consistent pools; an exception releases what was taken by a hit.\<close>

lemma wp_can_allocate:
  assumes bs: "sq_block_size s = bm_block_size m"
  shows "wp bm_can_allocate Q E (m, s) = (case bm_matching s m of Inl e \<Rightarrow> E e (m, s)
    | Inr mt \<Rightarrow> Q (case mt of
         None \<Rightarrow> int (sq_num_blocks s) \<le> int (gp_free_count (bm_gpu m) + bm_reclaimable None m)
       | Some (k, e) \<Rightarrow> bm_required_for_hit s e m \<le> int (gp_free_count (bm_gpu m) + bm_reclaimable (Some k) m)) (m, s))"
  using bs by (simp add: bm_can_allocate_def wp_simps)

definition admissible :: "manager \<Rightarrow> sequence \<Rightarrow> (string \<times> cache_entry) option \<Rightarrow> bool" where
  "admissible m s mt \<longleftrightarrow> (case mt of
       None \<Rightarrow> int (sq_num_blocks s) \<le> int (gp_free_count (bm_gpu m) + bm_reclaimable None m)
     | Some (k, e) \<Rightarrow> bm_required_for_hit s e m \<le> int (gp_free_count (bm_gpu m) + bm_reclaimable (Some k) m))"

lemma wp_allocate:
  "wp (bm_allocate xx) Q E (m, s) =
    (if sq_block_size s \<noteq> bm_block_size m then E ValueError (m, s)
     else if sq_block_table s \<noteq> [] \<or> sq_cpu_block_table s \<noteq> [] then E RuntimeError (m, s)
     else (case bm_matching s m of Inl e \<Rightarrow> E e (m, s)
       | Inr mt \<Rightarrow> if admissible m s mt then wp (bm_allocate_matched xx m s mt) Q E (m, s) else E RuntimeError (m, s)))"
  by (simp add: bm_allocate_def wp_thn wp_bnd wp_get_set wp_chk wp_assert_block_size wp_can_allocate wp_lift_res
      admissible_def split: sum.splits)

lemma preserving_no_match: "preserving (bm_allocate_matched xx m s None)"
  unfolding bm_allocate_matched_def option.case by (intro preserving) simp_all

lemma system_allocate: "system_op (bm_allocate xx)"
  unfolding system_op_def
proof (intro allI impI)
  fix rest crest st assume o: "owned rest crest st"
  obtain m s where st: "st = (m, s)" by (cases st)
  have h: "held rest (m, s)" and c: "cpu_held crest (m, s)" using o st by (simp_all add: owned_def)
  let ?Q = "\<lambda>_ :: copy_rows list. steady rest crest (m, s)" and ?E = "\<lambda>_ :: py_error. steady rest crest (m, s)"
  have stay: "?E e (m, s)" for e using o st by (simp add: steady_refl)
  have "wp (bm_allocate_matched xx m s mt) ?Q ?E (m, s)"
    if bs: "sq_block_size s = bm_block_size m" and tab: "sq_block_table s = []" and mt: "bm_matching s m = Inr mt" for mt
  proof (cases mt)
    case None
    show ?thesis unfolding None
      by (rule wp_mono[OF preservingD[OF preserving_no_match h]]) (auto intro: safe_steady[OF c])
  next
    case (Some x)
    obtain k e where x: "x = (k, e)" by (cases x)
    have "wp (rollback (bm_allocate_entry_hit k e)) ?Q ?E (m, s)"
      by (rule wp_rollback[OF o[unfolded st] bs])
        (rule wp_mono[OF wp_allocate_entry_hit[OF h tab bs mt[unfolded Some x]]],
         auto simp: hit_post_def hit_error_def intro: safe_steady[OF c])
    moreover have "wp (rollback (bm_allocate_prefix_hit k e)) ?Q ?E (m, s)"
      by (rule wp_rollback[OF o[unfolded st] bs])
        (rule wp_mono[OF wp_allocate_prefix_hit_safe[OF h tab bs mt[unfolded Some x]]],
         auto intro: safe_steady[OF c])
    ultimately show ?thesis by (simp add: bm_allocate_matched_def Some x)
  qed
  then show "wp (bm_allocate xx) (\<lambda>_. steady rest crest st) (\<lambda>_. steady rest crest st) st"
    using stay unfolding st wp_allocate by (auto split: sum.splits)
qed

end
