(* ===== verification/Block_Swap.thy ===== *)
theory Block_Swap imports Block_System begin

text \<open>
  Moving a sequence between the GPU and the CPU pool: both directions either refuse without effect
  on the page tables or move every page, and the hash metadata of the pages survives the trip.
\<close>

section \<open>Swapping out\<close>

definition table_layout_ok :: "manager \<Rightarrow> sequence \<Rightarrow> nat list \<Rightarrow> bool" where
  "table_layout_ok m s tab \<longleftrightarrow> (case sq_kv_layout s of None \<Rightarrow> True
     | Some ly \<Rightarrow> is_ok (ly_validate (bm_block_size m) tab False ly))"

lemma wp_validate_layout:
  "wp (validate_layout_for table) Q E (m, s) =
     (if table_layout_ok m s (table s) then Q () (m, s) else E ValueError (m, s))"
  by (auto simp: validate_layout_for_def wp_simps table_layout_ok_def is_ok_def split: option.splits sum.splits
      dest: ly_validate_err)

text \<open>Validation looks at the number of pages only.\<close>

lemma table_layout_ok_length:
  "length tab' = length tab \<Longrightarrow> table_layout_ok m s tab' = table_layout_ok m s tab"
  by (simp add: table_layout_ok_def ly_validate_def ly_validate_block_table_def cong: option.case_cong)

lemma table_layout_ok_cong:
  "bm_block_size t = bm_block_size m \<Longrightarrow> sq_kv_layout u = sq_kv_layout s \<Longrightarrow>
   table_layout_ok t u tab = table_layout_ok m s tab"
  by (simp add: table_layout_ok_def cong: option.case_cong)

lemma wp_validate_table:
  assumes h: "held rest (m, s)"
  shows "wp (on_mgr (on_gpu (gp_validate_owned (sq_block_table s)))) Q E (m, s) =
    (if distinct (sq_block_table s) then Q (sq_block_table s) (m, s) else E RuntimeError (m, s))"
proof -
  have inv: "bm_inv (held_by rest (sq_block_table s)) m" by (rule heldD[OF h])
  have u: "b \<in> gp_used (bm_gpu m) \<and> b < gp_capacity (bm_gpu m) \<and> 0 < gp_ref (bm_gpu m) b" if "b \<in> set (sq_block_table s)" for b
  proof -
    have pos: "0 < held_by rest (sq_block_table s) b" using that by (simp add: held_by_def count_list_pos_iff)
    then show ?thesis using owned_used[OF bm_invD(1)[OF inv], of b] refs_okD(2)[OF bm_invD(1)[OF inv], of b] by auto
  qed
  then show ?thesis by (auto simp: wp_on_mgr wp_on_gpu wp_validate_owned list_all_iff)
qed

definition saved :: "gpu_pool \<Rightarrow> nat list \<Rightarrow> swap_block list" where
  "saved p tab = map (\<lambda>b. let blk = gp_blocks p ! b in (blk_hash blk, blk_tokens blk, blk_mm blk)) tab"

text \<open>The sequence is on the CPU, with the metadata of its former pages.\<close>

definition swapped_out :: "(nat \<Rightarrow> nat) \<Rightarrow> nat set \<Rightarrow> mseq \<Rightarrow> (nat \<times> nat) list \<Rightarrow> mseq \<Rightarrow> bool" where
  "swapped_out rest crest st pairs t \<longleftrightarrow> steady rest crest st t \<and> sq_block_table (snd t) = [] \<and>
     length (sq_cpu_block_table (snd t)) = length (sq_block_table (snd st)) \<and>
     pairs = zip (sq_block_table (snd st)) (sq_cpu_block_table (snd t)) \<and>
     swap_metadata (snd t) = saved (bm_gpu (fst st)) (sq_block_table (snd st)) \<and>
     length (sq_cpu_block_hashes (snd t)) = length (sq_block_table (snd st)) \<and>
     length (sq_cpu_block_token_ids (snd t)) = length (sq_block_table (snd st)) \<and>
     length (sq_cpu_block_mm_hashes (snd t)) = length (sq_block_table (snd st))"

lemma zip3_map: "zip (map f xs) (zip (map g xs) (map h xs)) = map (\<lambda>x. (f x, g x, h x)) xs"
  by (induction xs) simp_all

lemma wp_swap_out:
  assumes o: "owned rest crest (m, s)" and bs: "sq_block_size s = bm_block_size m"
  shows "wp bm_swap_out (swapped_out rest crest (m, s))
    (\<lambda>_ t. t = (m, s) \<and> \<not> (sq_cpu_block_table s = [] \<and> sq_block_table s \<noteq> [] \<and> table_layout_ok m s (sq_block_table s) \<and>
       distinct (sq_block_table s) \<and> length (sq_block_table s) \<le> cp_free_count (bm_cpu m))) (m, s)"
proof -
  let ?Q = "swapped_out rest crest (m, s)" and ?tab = "sq_block_table s"
  let ?E = "\<lambda>_ t. t = (m, s) \<and> \<not> (sq_cpu_block_table s = [] \<and> sq_block_table s \<noteq> [] \<and> table_layout_ok m s (sq_block_table s) \<and>
       distinct (sq_block_table s) \<and> length (sq_block_table s) \<le> cp_free_count (bm_cpu m))"
  have h: "held rest (m, s)" and c: "cpu_held crest (m, s)" using o by (simp_all add: owned_def)
  have ci: "cpu_inv (bm_cpu m)" using c by (simp add: cpu_held_def)
  have fc: "cp_free_count (bm_cpu m) = card (cp_free_set (bm_cpu m))" by (simp add: cp_free_count_def)
  let ?cpu = "take (length ?tab) (cp_free (bm_cpu m))"
  let ?taken = "taken ?cpu (bm_cpu m)"
  let ?blks = "map (\<lambda>b. gp_blocks (bm_gpu m) ! b) ?tab"
  let ?set = "\<lambda>s. s\<lparr>sq_cpu_block_table := ?cpu, sq_cpu_block_hashes := map blk_hash ?blks,
            sq_cpu_block_token_ids := map blk_tokens ?blks, sq_cpu_block_mm_hashes := map blk_mm ?blks, sq_block_table := []\<rparr>"
  show ?thesis
  proof (cases "sq_cpu_block_table s = [] \<and> ?tab \<noteq> [] \<and> table_layout_ok m s ?tab \<and> distinct ?tab \<and>
      length ?tab \<le> cp_free_count (bm_cpu m)")
    case True
    then have cpu0: "sq_cpu_block_table s = []" and lay: "table_layout_ok m s ?tab"
      and room: "length ?tab \<le> card (cp_free_set (bm_cpu m))" by (simp_all add: fc)
    have lf: "length (cp_free (bm_cpu m)) = card (cp_free_set (bm_cpu m))" using cpu_free_count[OF ci] fc by simp
    have lcpu: "length ?cpu = length ?tab" using room lf by simp
    have ti: "cpu_inv ?taken" by (rule taken_inv[OF ci, of _ "drop (length ?tab) (cp_free (bm_cpu m))"]) simp
    have dcpu: "distinct ?cpu" and fresh: "set ?cpu \<inter> cp_used (bm_cpu m) = {}"
      using ci by (auto simp: cpu_inv_def dest: in_set_takeD)
    let ?m1 = "m\<lparr>bm_cpu := ?taken\<rparr>"
    have h1: "held rest (?m1, s)" using h by (simp add: held_def)
    have fin: "?Q (zip ?tab ?cpu) (t, ?set s)" if t: "bm_inv rest t" "same_config ?m1 t" for t
      unfolding swapped_out_def steady_def owned_def cpu_held_def held_def
      using t ti c cpu0 dcpu fresh lcpu
      by (auto simp: cpu_held_def same_shape_def same_config_def taken_def swap_metadata_def saved_def Let_def zip3_map comp_def)
    have lay': "table_layout_ok t (?set s) ?cpu" if "same_config ?m1 t" for t
      using lay table_layout_ok_length[OF lcpu, of m s] table_layout_ok_cong[of t m "?set s" s] that
      by (simp add: same_config_def)
    have rel: "wp (on_mgr (bm_release_pages ?tab)) (\<lambda>_. wp (thn (set_seq ?set) (thn (validate_layout_for sq_cpu_block_table) (ret (zip ?tab ?cpu)))) ?Q ?E) ?E (?m1, s)"
    proof (rule wp_release_table[OF h1])
      fix p assume p: "bm_inv rest (?m1\<lparr>bm_gpu := p\<rparr>)" "same_config ?m1 (?m1\<lparr>bm_gpu := p\<rparr>)"
      show "wp (thn (set_seq ?set) (thn (validate_layout_for sq_cpu_block_table) (ret (zip ?tab ?cpu)))) ?Q ?E (?m1\<lparr>bm_gpu := p\<rparr>, s)"
        using fin[OF p] lay'[OF p(2)] by (simp add: wp_thn wp_get_set wp_validate_layout wp_ret)
    qed simp
    show ?thesis unfolding bm_swap_out_def
      using True bs lay room rel
      by (simp add: wp_thn[of bm_assert_block_size] wp_thn[of "chk e b" for e b] wp_thn[of "validate_layout_for f" for f]
          wp_bnd wp_eta(2) wp_get_set wp_chk wp_assert_block_size wp_validate_layout
          wp_validate_table[OF h] wp_on_mgr[of "on_cpu g" for g] wp_on_cpu wp_cp_allocate_many[OF ci] Let_def wp_thn[of "on_mgr g" for g])
  next
    case False
    then show ?thesis unfolding bm_swap_out_def using bs fc
      by (auto simp: wp_thn[of bm_assert_block_size] wp_thn[of "chk e b" for e b] wp_thn[of "validate_layout_for f" for f]
          wp_bnd wp_get_set wp_chk wp_assert_block_size wp_validate_layout
          wp_validate_table[OF h] wp_on_mgr[of "on_cpu g" for g] wp_on_cpu wp_cp_allocate_many[OF ci])
  qed
qed

section \<open>Swapping in\<close>

lemma wp_alloc_many:
  assumes inv: "bm_inv own m" and n: "n \<le> free_of m"
    and ok: "\<And>ids p. bm_inv (\<lambda>b. own b + count_list ids b) (m\<lparr>bm_gpu := p\<rparr>) \<Longrightarrow> same_config m (m\<lparr>bm_gpu := p\<rparr>) \<Longrightarrow>
      length ids = n \<Longrightarrow> distinct ids \<Longrightarrow> \<forall>b \<in> set ids. gp_hash p b = NO_BLOCK_HASH \<Longrightarrow> \<forall>b \<in> set ids. own b = 0 \<Longrightarrow>
      Q ids (m\<lparr>bm_gpu := p\<rparr>, s)"
  shows "wp (on_mgr (on_gpu (gp_allocate_many n))) Q E (m, s)"
  unfolding wp_on_mgr wp_on_gpu
proof (rule wp_allocate_many[OF bm_invD(3)[OF inv]])
  fix ids p assume post: "many_post (bm_gpu m) ids p" and len: "length ids = n"
  have step: "pool_step (bm_gpu m) p" and d: "distinct ids" and idle: "set ids \<subseteq> idle_pages (bm_gpu m)"
    and ref: "gp_ref p = (\<lambda>j. if j \<in> set ids then 1 else gp_ref (bm_gpu m) j)" and no: "\<forall>b \<in> set ids. gp_hash p b = NO_BLOCK_HASH"
    using post by (simp_all add: many_post_def)
  have cap: "gp_capacity p = gp_capacity (bm_gpu m)" using step by (simp add: pool_step_def)
  have r: "refs_ok (\<lambda>b. own b + count_list ids b) (m\<lparr>bm_gpu := p\<rparr>)" "same_config m (m\<lparr>bm_gpu := p\<rparr>)"
    by (rule refs_ok_gpu[OF bm_invD(1)[OF inv] step, of "\<lambda>b. own b + count_list ids b"];
        use idle cap in \<open>auto simp: ref idle_pages_def count_list_distinct[OF d] subset_iff\<close>)+
  have fresh: "\<forall>b \<in> set ids. own b = 0" using idle refs_okD(2)[OF bm_invD(1)[OF inv]] by (fastforce simp: idle_pages_def)
  show "Q ids (m\<lparr>bm_gpu := p\<rparr>, s)"
    by (rule ok[OF _ r(2) len d no fresh]) (use r(1) bm_invD(2)[OF inv] in \<open>simp add: bm_inv_def\<close>)
next
  assume "gp_free_count (bm_gpu m) < n"
  then show "E RuntimeError (m\<lparr>bm_gpu := bm_gpu m\<rparr>, s)" using n by (simp add: free_of_def)
qed

definition carries :: "block \<Rightarrow> swap_block \<Rightarrow> bool" where
  "carries b md \<longleftrightarrow> (case md of (h, toks, mm) \<Rightarrow>
     blk_hash b = h \<and> (h \<noteq> NO_BLOCK_HASH \<longrightarrow> blk_tokens b = toks \<and> blk_mm b = mm))"

lemma wp_restore:
  assumes inv: "bm_inv own m" and pos: "0 < own b" and no: "gp_hash (bm_gpu m) b = NO_BLOCK_HASH"
    and ok: "\<And>p. bm_inv own (m\<lparr>bm_gpu := p\<rparr>) \<Longrightarrow> same_config m (m\<lparr>bm_gpu := p\<rparr>) \<Longrightarrow> carries (gp_blocks p ! b) md \<Longrightarrow>
      (\<forall>j. j \<noteq> b \<longrightarrow> gp_blocks p ! j = gp_blocks (bm_gpu m) ! j) \<Longrightarrow> Q () (m\<lparr>bm_gpu := p\<rparr>, s)"
  shows "wp (restore_hash (b, md)) Q E (m, s)"
proof -
  obtain h toks mm where md: "md = (h, toks, mm)" by (cases md)
  note u = owned_used[OF bm_invD(1)[OF inv], of b]
  have rpos: "0 < gp_ref (bm_gpu m) b" using refs_okD(2)[OF bm_invD(1)[OF inv] u(2)] pos by simp
  show ?thesis
  proof (cases "h = NO_BLOCK_HASH")
    case True
    have "Q () (m\<lparr>bm_gpu := bm_gpu m\<rparr>, s)"
      by (rule ok) (use inv no True md in \<open>auto simp: carries_def gp_hash_def\<close>)
    then show ?thesis using True md by (simp add: restore_hash_def wp_ret)
  next
    case False
    have "wp (on_mgr (on_gpu (gp_register_hash b h toks mm))) Q E (m, s)"
      unfolding wp_on_mgr wp_on_gpu
    proof (rule wp_register_hash[OF bm_invD(3)[OF inv] u(1) rpos])
      fix p assume p: "register_post (bm_gpu m) b h toks mm p"
      have k: "keeps_refs (bm_gpu m) p" by (rule keeps_refs_register[OF p])
      have bl: "gp_blocks p = (gp_blocks (bm_gpu m))[b := blk_update h toks mm (gp_blocks (bm_gpu m) ! b)]"
        using p by (simp add: register_post_def)
      show "Q () (m\<lparr>bm_gpu := p\<rparr>, s)"
        by (rule ok[OF bm_inv_keeps_refs[OF inv k]])
          (use u pos in \<open>auto simp: bl carries_def md gp_capacity_def\<close>)
    qed (use pos in simp)
    then show ?thesis using False md by (simp add: restore_hash_def)
  qed
qed

lemma wp_restore_all:
  "bm_inv own m \<Longrightarrow> length ids = length mds \<Longrightarrow> distinct ids \<Longrightarrow> \<forall>b \<in> set ids. 0 < own b \<Longrightarrow>
   \<forall>b \<in> set ids. gp_hash (bm_gpu m) b = NO_BLOCK_HASH \<Longrightarrow>
   (\<And>p. bm_inv own (m\<lparr>bm_gpu := p\<rparr>) \<Longrightarrow> same_config m (m\<lparr>bm_gpu := p\<rparr>) \<Longrightarrow>
      list_all2 (\<lambda>b md. carries (gp_blocks p ! b) md) ids mds \<Longrightarrow>
      (\<forall>j. j \<notin> set ids \<longrightarrow> gp_blocks p ! j = gp_blocks (bm_gpu m) ! j) \<Longrightarrow> Q () (m\<lparr>bm_gpu := p\<rparr>, s)) \<Longrightarrow>
   wp (each (zip ids mds) restore_hash) Q E (m, s)"
proof (induction ids mds arbitrary: m rule: list_induct2')
  case 1
  have "Q () (m\<lparr>bm_gpu := bm_gpu m\<rparr>, s)" by (rule 1(6)) (use 1 in simp_all)
  then show ?case by (simp add: wp_ret)
next
  case (4 b ids md mds)
  show ?case unfolding zip_Cons_Cons each.simps wp_thn
  proof (rule wp_restore[OF 4(2)])
    show "0 < own b" "gp_hash (bm_gpu m) b = NO_BLOCK_HASH" using 4 by simp_all
    fix p assume p: "bm_inv own (m\<lparr>bm_gpu := p\<rparr>)" "same_config m (m\<lparr>bm_gpu := p\<rparr>)" "carries (gp_blocks p ! b) md"
      "\<forall>j. j \<noteq> b \<longrightarrow> gp_blocks p ! j = gp_blocks (bm_gpu m) ! j"
    show "wp (each (zip ids mds) restore_hash) Q E (m\<lparr>bm_gpu := p\<rparr>, s)"
    proof (rule 4(1)[OF p(1)])
      show "\<forall>c \<in> set ids. gp_hash (bm_gpu (m\<lparr>bm_gpu := p\<rparr>)) c = NO_BLOCK_HASH"
        using 4(4,6) p(4) by (auto simp: gp_hash_def)
      fix q assume q: "bm_inv own (m\<lparr>bm_gpu := p\<rparr>\<lparr>bm_gpu := q\<rparr>)" "same_config (m\<lparr>bm_gpu := p\<rparr>) (m\<lparr>bm_gpu := p\<rparr>\<lparr>bm_gpu := q\<rparr>)"
        "list_all2 (\<lambda>b md. carries (gp_blocks q ! b) md) ids mds"
        "\<forall>j. j \<notin> set ids \<longrightarrow> gp_blocks q ! j = gp_blocks (bm_gpu (m\<lparr>bm_gpu := p\<rparr>)) ! j"
      have "Q () (m\<lparr>bm_gpu := q\<rparr>, s)"
        by (rule 4(7)) (use q p 4(4) same_config_trans[OF p(2)] in auto)
      then show "Q () (m\<lparr>bm_gpu := p\<rparr>\<lparr>bm_gpu := q\<rparr>, s)" by simp
    qed (use 4 in simp_all)
  qed
qed simp_all

definition metadata_ok :: "manager \<Rightarrow> sequence \<Rightarrow> bool" where
  "metadata_ok m s \<longleftrightarrow> (let n = length (sq_cpu_block_table s) in
     length (sq_cpu_block_hashes s) = n \<and> length (sq_cpu_block_token_ids s) = n \<and> length (sq_cpu_block_mm_hashes s) = n \<and>
     list_all (swap_block_ok (bm_block_size m)) (swap_metadata s))"

lemma wp_validate_metadata:
  "wp (bm_validate_swap_in_metadata (sq_cpu_block_table s)) Q E (m, s) =
     (if metadata_ok m s then Q (swap_metadata s) (m, s) else E RuntimeError (m, s))"
  by (simp add: bm_validate_swap_in_metadata_def wp_simps metadata_ok_def Let_def)

definition swapped_in :: "(nat \<Rightarrow> nat) \<Rightarrow> nat set \<Rightarrow> mseq \<Rightarrow> (nat \<times> nat) list \<Rightarrow> mseq \<Rightarrow> bool" where
  "swapped_in rest crest st pairs t \<longleftrightarrow> steady rest crest st t \<and> sq_cpu_block_table (snd t) = [] \<and>
     distinct (sq_block_table (snd t)) \<and> (\<forall>b \<in> set (sq_block_table (snd t)). rest b = 0) \<and>
     length (sq_block_table (snd t)) = length (sq_cpu_block_table (snd st)) \<and>
     pairs = zip (sq_cpu_block_table (snd st)) (sq_block_table (snd t)) \<and>
     list_all2 (\<lambda>b md. carries (gp_blocks (bm_gpu (fst t)) ! b) md) (sq_block_table (snd t)) (swap_metadata (snd st))"

definition can_return :: "mseq \<Rightarrow> bool" where
  "can_return st \<longleftrightarrow> (case st of (m, s) \<Rightarrow> sq_block_table s = [] \<and> sq_cpu_block_table s \<noteq> [] \<and>
     table_layout_ok m s (sq_cpu_block_table s) \<and> metadata_ok m s \<and>
     length (sq_cpu_block_table s) \<le> gp_free_count (bm_gpu m) + bm_reclaimable None m)"

lemma wp_swap_in:
  assumes o: "owned rest crest (m, s)" and bs: "sq_block_size s = bm_block_size m"
  shows "wp bm_swap_in (swapped_in rest crest (m, s))
    (\<lambda>_ t. steady rest crest (m, s) t \<and> snd t = s \<and> \<not> can_return (m, s)) (m, s)"
proof -
  let ?Q = "swapped_in rest crest (m, s)" and ?E = "\<lambda>_ t. steady rest crest (m, s) t \<and> snd t = s \<and> \<not> can_return (m, s)"
  let ?cpu = "sq_cpu_block_table s" and ?n = "length (sq_cpu_block_table s)"
  have h: "held rest (m, s)" and c: "cpu_held crest (m, s)" using o by (simp_all add: owned_def)
  have stay: "steady rest crest (m, s) (m, s)" by (rule steady_refl[OF o])
  show ?thesis
  proof (cases "sq_block_table s = [] \<and> ?cpu \<noteq> [] \<and> table_layout_ok m s ?cpu")
    case False
    then show ?thesis unfolding bm_swap_in_def using bs stay
      by (auto simp: wp_thn[of bm_assert_block_size] wp_thn[of "chk e b" for e b] wp_thn[of "validate_layout_for f" for f]
          wp_bnd[of get_seq] wp_get_set wp_chk wp_assert_block_size wp_validate_layout can_return_def)
  next
    case True
    then have tab: "sq_block_table s = []" and lay: "table_layout_ok m s ?cpu" by simp_all
    have inv: "bm_inv rest m" using heldD[OF h] tab by simp
    have eq: "gp_free_count (bm_gpu m) + bm_reclaimable None m = card (obtainable rest None m)"
      by (rule free_plus_reclaimable[OF bm_invD(1,4)[OF inv]])
    let ?set = "\<lambda>table s. s\<lparr>sq_block_table := table, sq_cpu_block_table := [], sq_cpu_block_hashes := [],
            sq_cpu_block_token_ids := [], sq_cpu_block_mm_hashes := []\<rparr>"
    let ?last = "\<lambda>table. thn (set_seq (?set table)) (thn (validate_layout_for sq_block_table) (ret (zip ?cpu table)))"
    let ?fin = "\<lambda>table. thn (on_mgr (on_cpu (cp_release_many ?cpu))) (?last table)"
    have fin: "wp (?fin table) ?Q ?E (t, s)"
      if t: "bm_inv (\<lambda>b. rest b + count_list table b) t" "same_config m t" "length table = ?n" "distinct table" "\<forall>b \<in> set table. rest b = 0"
        "list_all2 (\<lambda>b md. carries (gp_blocks (bm_gpu t) ! b) md) table (swap_metadata s)" for t table
    proof -
      have ct: "cpu_held crest (t, s)" using c t(2) by (simp add: cpu_held_def same_config_def)
      let ?t = "t\<lparr>bm_cpu := given ?cpu (bm_cpu t)\<rparr>"
      have lay': "table_layout_ok ?t (?set table s) table"
        using lay table_layout_ok_length[of table ?cpu m s] table_layout_ok_cong[of ?t m "?set table s" s] t(2,3)
        by (simp add: same_config_def)
      show ?thesis unfolding wp_thn[of "on_mgr g" for g]
      proof (rule wp_cpu_release[OF ct])
        assume g: "cpu_inv (given ?cpu (bm_cpu t))" "cp_used (given ?cpu (bm_cpu t)) = crest"
        have "?Q (zip ?cpu table) (?t, ?set table s)"
          using t g by (simp add: swapped_in_def steady_def owned_def held_def held_by_def cpu_held_def
              same_shape_def same_config_def given_def)
        then show "wp (?last table) ?Q ?E (?t, s)" using lay'
          by (simp add: wp_thn wp_get_set wp_validate_layout wp_ret)
      qed
    qed
    let ?tail = "bnd (bm_validate_swap_in_metadata ?cpu) (\<lambda>metadata. bnd (on_mgr (on_gpu (gp_allocate_many ?n))) (\<lambda>table.
        thn (each (zip table metadata) restore_hash) (?fin table)))"
    have body: "wp ?tail ?Q ?E (t, s)"
      if t: "bm_inv rest t" "same_config m t" "int ?n \<le> int (free_of t)" for t
    proof (cases "metadata_ok t s")
      case False
      then have "\<not> can_return (m, s)" using t(2) by (auto simp: metadata_ok_def can_return_def same_config_def Let_def)
      moreover have "steady rest crest (m, s) (t, s)"
        using safe_steady[OF c safe_mgr[of rest s t m]] t tab by simp
      ultimately show ?thesis using False by (simp add: wp_bnd wp_validate_metadata)
    next
      case mok: True
      have lm: "length (swap_metadata s) = ?n" using mok by (simp add: metadata_ok_def Let_def swap_metadata_def)
      have "wp (on_mgr (on_gpu (gp_allocate_many ?n))) (\<lambda>table. wp (each (zip table (swap_metadata s)) restore_hash) (\<lambda>_. wp (?fin table) ?Q ?E) ?E) ?E (t, s)"
      proof (rule wp_alloc_many[OF t(1)])
        show "?n \<le> free_of t" using t(3) by simp
        fix ids p
        assume p: "bm_inv (\<lambda>b. rest b + count_list ids b) (t\<lparr>bm_gpu := p\<rparr>)" "same_config t (t\<lparr>bm_gpu := p\<rparr>)"
          "length ids = ?n" "distinct ids" "\<forall>b \<in> set ids. gp_hash p b = NO_BLOCK_HASH" "\<forall>b \<in> set ids. rest b = 0"
        show "wp (each (zip ids (swap_metadata s)) restore_hash) (\<lambda>_. wp (?fin ids) ?Q ?E) ?E (t\<lparr>bm_gpu := p\<rparr>, s)"
        proof (rule wp_restore_all[OF p(1)])
          fix q assume q: "bm_inv (\<lambda>b. rest b + count_list ids b) (t\<lparr>bm_gpu := p\<rparr>\<lparr>bm_gpu := q\<rparr>)"
            "same_config (t\<lparr>bm_gpu := p\<rparr>) (t\<lparr>bm_gpu := p\<rparr>\<lparr>bm_gpu := q\<rparr>)"
            "list_all2 (\<lambda>b md. carries (gp_blocks q ! b) md) ids (swap_metadata s)"
          have sc: "same_config m (t\<lparr>bm_gpu := p\<rparr>\<lparr>bm_gpu := q\<rparr>)"
            by (rule same_config_trans[OF same_config_trans[OF t(2) p(2)] q(2)])
          show "wp (?fin ids) ?Q ?E (t\<lparr>bm_gpu := p\<rparr>\<lparr>bm_gpu := q\<rparr>, s)"
            by (rule fin[OF q(1) sc p(3,4,6)]) (use q(3) in simp)
        qed (use p lm in \<open>simp_all add: count_list_pos_iff\<close>)
      qed
      then show ?thesis using mok
        by (simp add: wp_bnd[of "bm_validate_swap_in_metadata c" for c] wp_validate_metadata wp_bnd[of "on_mgr g" for g]
            wp_thn[of "each xs f" for xs f] wp_eta(3)[of "each xs f" for xs f])
    qed
    have "wp (on_mgr (bm_ensure_free (int ?n) None)) (\<lambda>_. wp ?tail ?Q ?E) ?E (m, s)"
    proof (rule wp_ensure[OF inv])
      fix t assume "bm_inv rest t" "same_config m t" "int ?n \<le> int (free_of t)"
      then show "wp ?tail ?Q ?E (t, s)" by (rule body)
    next
      fix t assume "int (card (obtainable rest None m)) < int ?n" "bm_inv rest t" "same_config m t"
      then show "?E RuntimeError (t, s)"
        using eq safe_steady[OF c safe_mgr[of rest s t m]] tab by (simp add: can_return_def)
    qed
    then show ?thesis unfolding bm_swap_in_def using bs True wp_cpu_validate[OF c]
      by (simp add: wp_thn[of bm_assert_block_size] wp_thn[of "chk e b" for e b] wp_thn[of "validate_layout_for f" for f]
          wp_bnd[of get_seq] wp_bnd[of "on_mgr g" for g] wp_get_set wp_chk wp_assert_block_size wp_validate_layout
          wp_thn[of "on_mgr g" for g])
  qed
qed

lemma system_swap: "system_op bm_swap_out" "system_op bm_swap_in"
proof -
  show "system_op bm_swap_out" unfolding system_op_def
  proof (intro allI impI)
    fix rest crest st assume o: "owned rest crest st"
    obtain m s where st: "st = (m, s)" by (cases st)
    show "wp bm_swap_out (\<lambda>_. steady rest crest st) (\<lambda>_. steady rest crest st) st"
    proof (cases "sq_block_size s = bm_block_size m")
      case True
      show ?thesis unfolding st
        by (rule wp_mono[OF wp_swap_out[OF o[unfolded st] True]]) (auto simp: swapped_out_def steady_refl[OF o[unfolded st]])
    qed (use o st in \<open>simp add: bm_swap_out_def wp_thn[of bm_assert_block_size] wp_assert_block_size steady_refl\<close>)
  qed
  show "system_op bm_swap_in" unfolding system_op_def
  proof (intro allI impI)
    fix rest crest st assume o: "owned rest crest st"
    obtain m s where st: "st = (m, s)" by (cases st)
    show "wp bm_swap_in (\<lambda>_. steady rest crest st) (\<lambda>_. steady rest crest st) st"
    proof (cases "sq_block_size s = bm_block_size m")
      case True
      show ?thesis unfolding st
        by (rule wp_mono[OF wp_swap_in[OF o[unfolded st] True]]) (auto simp: swapped_in_def)
    qed (use o st in \<open>simp add: bm_swap_in_def wp_thn[of bm_assert_block_size] wp_assert_block_size steady_refl\<close>)
  qed
qed

end
