(* ===== verification/Block_Dense.thy ===== *)
theory Block_Dense imports Block_System begin

text \<open>
  Dense allocation: with enough obtainable pages it succeeds, and every page that prefill is going
  to write belongs to the sequence alone, also after the cached prefix has been snapped back to an
  image boundary.
\<close>

section \<open>Making shared pages private\<close>

definition but_table :: "sequence \<Rightarrow> sequence" where
  "but_table s = s\<lparr>sq_block_table := []\<rparr>"

definition private_step :: "(nat \<Rightarrow> nat) \<Rightarrow> mseq \<Rightarrow> nat set \<Rightarrow> mseq \<Rightarrow> bool" where
  "private_step rest st I t \<longleftrightarrow> held rest t \<and> same_config (fst st) (fst t) \<and> bm_cache (fst t) = bm_cache (fst st) \<and>
     but_table (snd t) = but_table (snd st) \<and> length (sq_block_table (snd t)) = length (sq_block_table (snd st)) \<and>
     (\<forall>j < length (sq_block_table (snd t)). j \<in> I \<or> own_page rest (fst st) (sq_block_table (snd st)) j \<longrightarrow>
        own_page rest (fst t) (sq_block_table (snd t)) j)"

lemma but_table_upd [simp]: "but_table (s\<lparr>sq_block_table := tab\<rparr>) = but_table s"
  by (simp add: but_table_def)

lemma but_tableD:
  assumes "but_table t = but_table s"
  shows "t = s\<lparr>sq_block_table := sq_block_table t\<rparr>"
proof -
  have "t = (but_table t)\<lparr>sq_block_table := sq_block_table t\<rparr>" by (simp add: but_table_def)
  also have "\<dots> = s\<lparr>sq_block_table := sq_block_table t\<rparr>" unfolding assms by (simp add: but_table_def)
  finally show ?thesis .
qed

lemma private_step_refl: "held rest st \<Longrightarrow> private_step rest st {} st"
  by (simp add: private_step_def)

lemma private_step_trans:
  "private_step rest st I t \<Longrightarrow> private_step rest t J u \<Longrightarrow> private_step rest st (I \<union> J) u"
  unfolding private_step_def by (auto intro: same_config_trans)

lemma own_page_cache: "bm_cache t = bm_cache m \<Longrightarrow> own_page rest t tab i = own_page rest m tab i"
  by (simp add: own_page_def)

lemma wp_privatize:
  assumes h: "held rest (m, s)" and i: "i < length (sq_block_table s)"
    and room: "length (sq_block_table s) \<le> card (spare rest m)"
  shows "wp (bm_privatize i) (\<lambda>_. private_step rest (m, s) {i}) (\<lambda>_ _. False) (m, s)"
proof -
  let ?tab = "sq_block_table s" and ?b = "sq_block_table s ! i"
  let ?Q = "\<lambda>_. private_step rest (m, s) {i}" and ?E = "\<lambda>_ _. False"
  have inv: "bm_inv (held_by rest ?tab) m" by (rule heldD[OF h])
  have lt: "?b < gp_capacity (bm_gpu m)"
    using owned_used(2)[OF bm_invD(1)[OF inv], of ?b] i count_list_pos_iff[of ?tab ?b] by (simp add: held_by_def)
  have same: "s = s\<lparr>sq_block_table := ?tab\<rparr>" by simp
  show ?thesis
  proof (cases "gp_ref (bm_gpu m) ?b \<le> 1")
    case True
    then have own: "own_page rest m ?tab i" using own_page_ref[OF h i] by simp
    have "wp (on_mgr (on_gpu (gp_clear_hash ?b))) (\<lambda>_. ?Q (None :: (nat \<times> nat) option)) ?E (m, s)"
    proof (rule wp_clear_owned[OF inv lt])
      fix p assume p: "bm_inv (held_by rest ?tab) (m\<lparr>bm_gpu := p\<rparr>)" "same_config m (m\<lparr>bm_gpu := p\<rparr>)"
      show "?Q (None :: (nat \<times> nat) option) (m\<lparr>bm_gpu := p\<rparr>, s)"
        using p own by (auto simp: private_step_def held_def own_page_def)
    qed
    then show ?thesis using True i lt
      by (simp add: bm_privatize_def wp_thn wp_bnd wp_get_set wp_chk wp_gp_block_at wp_ret_eta Let_def gp_ref_def)
  next
    case False
    have free: "0 < free_of m" using free_spare_shared[OF h i] False room by simp
    have rep: "wp bm_alloc_page (\<lambda>b'. wp (bm_release_page ?b) (\<lambda>_. wp (thn (set_seq (\<lambda>s. s\<lparr>sq_block_table := (sq_block_table s)[i := b']\<rparr>))
        (ret (Some (?b, b')))) ?Q ?E) ?E) ?E (m, s)"
    proof (rule wp_replace_page[OF h i free])
      fix b t
      assume t: "held rest (t, s\<lparr>sq_block_table := ?tab[i := b]\<rparr>)" "pool_only m t" "b \<notin> set ?tab" "rest b = 0"
        "b \<notin> set (cache_pages None (bm_cache m))"
      note po = pool_only_cache[OF t(2)]
      have "own_page rest t (?tab[i := b]) j" if "j < length ?tab" "j = i \<or> own_page rest m ?tab j" for j
        by (rule own_page_replace[where m = m, OF i that(1)]) (use that po t in auto)
      then have "private_step rest (m, s) {i} (t, s\<lparr>sq_block_table := ?tab[i := b]\<rparr>)"
        using t po by (auto simp: private_step_def)
      then show "wp (thn (set_seq (\<lambda>s. s\<lparr>sq_block_table := (sq_block_table s)[i := b]\<rparr>)) (ret (Some (?b, b)))) ?Q ?E (t, s)"
        by (simp add: wp_thn wp_get_set wp_ret_eta)
    qed
    have "wp (on_mgr (bm_ensure_free 1 None)) (\<lambda>_. wp (bnd bm_alloc_page (\<lambda>b'. thn (bm_release_page ?b)
        (thn (set_seq (\<lambda>s. s\<lparr>sq_block_table := (sq_block_table s)[i := b']\<rparr>)) (ret (Some (?b, b')))))) ?Q ?E) ?E (m, s)"
    proof (rule wp_ensure[OF inv])
      fix t assume "1 \<le> int (free_of m) \<Longrightarrow> t = m"
      then have "t = m" using free by simp
      then show "wp (bnd bm_alloc_page (\<lambda>b'. thn (bm_release_page ?b)
        (thn (set_seq (\<lambda>s. s\<lparr>sq_block_table := (sq_block_table s)[i := b']\<rparr>)) (ret (Some (?b, b')))))) ?Q ?E (t, s)"
        using rep by (simp only: wp_bnd wp_eta(3))
    next
      assume "int (card (obtainable (held_by rest ?tab) None m)) < 1"
      moreover have "free_of m \<le> card (obtainable (held_by rest ?tab) None m)"
        using free_plus_reclaimable[OF bm_invD(1,4)[OF inv], of None] by (simp add: free_of_def)
      ultimately show False using free by simp
    qed
    then show ?thesis using False i lt
      by (simp add: bm_privatize_def wp_thn wp_bnd wp_eta wp_get_set wp_chk wp_gp_block_at Let_def gp_ref_def)
  qed
qed

lemma wp_privatize_range:
  "held rest (m, s) \<Longrightarrow> \<forall>i \<in> set is. i < length (sq_block_table s) \<Longrightarrow> length (sq_block_table s) \<le> card (spare rest m) \<Longrightarrow>
   wp (bm_privatize_range n is) (\<lambda>_. private_step rest (m, s) (set is)) (\<lambda>_ _. False) (m, s)"
proof (induction "is" arbitrary: m s)
  case Nil
  then show ?case by (simp add: wp_ret private_step_refl)
next
  case (Cons i js)
  show ?case unfolding bm_privatize_range.simps wp_bnd[of "bm_privatize i"]
  proof (rule wp_mono[OF wp_privatize[OF Cons.prems(1) _ Cons.prems(3)]])
    show "i < length (sq_block_table s)" using Cons.prems(2) by simp
    fix pair t assume p: "private_step rest (m, s) {i} t"
    obtain v u where t: "t = (v, u)" by (cases t)
    have len: "length (sq_block_table u) = length (sq_block_table s)" and h: "held rest (v, u)"
      using p t by (auto simp: private_step_def)
    have sp: "spare rest v = spare rest m" using p t by (intro spare_cong) (simp_all add: private_step_def)
    have j: "\<forall>i \<in> set js. i < length (sq_block_table u)" and l: "length (sq_block_table u) \<le> card (spare rest v)"
      using Cons.prems len sp by auto
    have "wp (bm_privatize_range n js) (\<lambda>_. private_step rest (m, s) (set (i # js))) (\<lambda>_ _. False) (v, u)"
      by (rule wp_mono[OF Cons.IH[OF h j l]]) (use private_step_trans[OF p[unfolded t]] in auto)
    then show "wp (bnd get_mgr (\<lambda>ma. let rows = n - i * bm_block_size ma in
       bnd (bm_privatize_range n js) (\<lambda>rest.
       ret ((case pair of Some (a, b) \<Rightarrow> if rows \<noteq> 0 then [(a, b, rows)] else [] | None \<Rightarrow> []) @ rest))))
       (\<lambda>_. private_step rest (m, s) (set (i # js))) (\<lambda>_ _. False) t"
      by (simp add: t wp_bnd wp_get_set Let_def wp_ret_eta)
  qed simp
qed

section \<open>Dense allocation\<close>

lemma find_SomeD: "List.find P xs = Some x \<Longrightarrow> P x"
  by (induction xs) (auto split: if_splits)

lemma snap_le: "bm_snap_to_image_boundary s c \<le> c"
  by (auto simp: bm_snap_to_image_boundary_def split: option.splits dest!: find_SomeD)

text \<open>What dense allocation leaves behind: every page from the first uncached position on is private.\<close>

definition dense_post :: "(nat \<Rightarrow> nat) \<Rightarrow> mseq \<Rightarrow> mseq \<Rightarrow> bool" where
  "dense_post rest st t \<longleftrightarrow> safe rest st t \<and> length (sq_block_table (snd t)) = sq_num_blocks (snd st) \<and>
     (\<forall>i < length (sq_block_table (snd t)). sq_num_cached_tokens (snd t) div bm_block_size (fst st) \<le> i \<longrightarrow>
        gp_ref (bm_gpu (fst t)) (sq_block_table (snd t) ! i) \<le> 1)"

lemma hits_then_own_private:
  assumes "hits_then_own rest (m, s) True" and bs: "0 < bm_block_size m" and snap: "n \<le> sq_num_cached_tokens s"
    and step: "private_step rest (m, s) {n div bm_block_size m..<sq_num_cached_tokens s div bm_block_size m} (t, u)"
    and i: "i < length (sq_block_table u)" "n div bm_block_size m \<le> i"
  shows "own_page rest t (sq_block_table u) i"
proof -
  obtain k where k: "sq_num_cached_tokens s = k * bm_block_size m"
    "\<And>i. k \<le> i \<Longrightarrow> i < length (sq_block_table s) \<Longrightarrow> own_page rest m (sq_block_table s) i"
    using assms(1) by (auto simp: hits_then_own_def)
  have len: "length (sq_block_table u) = length (sq_block_table s)" using step by (simp add: private_step_def)
  have "i \<in> {n div bm_block_size m..<sq_num_cached_tokens s div bm_block_size m} \<or> own_page rest m (sq_block_table s) i"
    using i k len bs by (cases "k \<le> i") auto
  then show ?thesis using step i(1) by (auto simp: private_step_def)
qed

lemma private_dense_post:
  assumes h: "held rest (m, s)" and d: "dense_state (m, s) (n, v)" and st: "private_step rest (n, v) I (t, u)"
    and len: "length (sq_block_table v) = sq_num_blocks s"
    and own: "\<And>i. i < length (sq_block_table u) \<Longrightarrow> c div bm_block_size m \<le> i \<Longrightarrow> own_page rest t (sq_block_table u) i"
    and f: "w = u\<lparr>sq_num_cached_tokens := c, sq_candidate_tokens := x\<rparr>"
  shows "dense_post rest (m, s) (t, w)"
proof -
  have ht: "held rest (t, u)" and sc: "same_config n t" and l: "length (sq_block_table u) = length (sq_block_table v)"
    and e: "u = v\<lparr>sq_block_table := sq_block_table u\<rparr>"
    using st but_tableD[of u v] by (auto simp: private_step_def)
  obtain tab y where v: "v = s\<lparr>sq_block_table := tab, sq_num_cached_tokens := y\<rparr>" and sc2: "same_config m n"
    using d by (auto simp: dense_state_def)
  have fields: "sq_cpu_block_table u = sq_cpu_block_table s" "sq_block_size u = sq_block_size s"
    using arg_cong[OF e, of sq_cpu_block_table] arg_cong[OF e, of sq_block_size] v by simp_all
  have ref: "gp_ref (bm_gpu t) (sq_block_table u ! i) \<le> 1" if "i < length (sq_block_table u)" "c div bm_block_size m \<le> i" for i
    using own_page_ref[OF ht that(1)] own[OF that] by simp
  show ?thesis using ht fields same_config_trans[OF sc2 sc] l len ref
    by (simp add: dense_post_def safe_def held_def f)
qed

lemma hashes_defined_config: "same_config m t \<Longrightarrow> hashes_defined xx t s = hashes_defined xx m s"
  by (simp add: hashes_defined_def bm_block_hash_and_mm_def bm_hashable_config same_config_fields cong: if_cong)

lemma wp_allocate_dense:
  assumes h: "held rest (m, s)" and tab: "sq_block_table s = []" and zero: "sq_num_cached_tokens s = 0"
  shows "wp (bm_allocate_dense xx) (\<lambda>_. dense_post rest (m, s))
    (\<lambda>_ t. safe rest (m, s) t \<and> (gp_free_count (bm_gpu m) + bm_reclaimable None m < sq_num_blocks s \<or> \<not> hashes_defined xx m s)) (m, s)"
proof -
  let ?Q = "\<lambda>_ :: copy_rows list. dense_post rest (m, s)"
  let ?bad = "gp_free_count (bm_gpu m) + bm_reclaimable None m < sq_num_blocks s \<or> \<not> hashes_defined xx m s"
  let ?E = "\<lambda>_ t. safe rest (m, s) t \<and> ?bad"
  let ?snapped = "\<lambda>s. bm_snap_to_image_boundary s (sq_num_cached_tokens s)"
  let ?fix = "\<lambda>m s. if sq_is_multimodal s
          then (let cached = sq_num_cached_tokens s; snapped = bm_snap_to_image_boundary s cached in
                if snapped \<noteq> cached
                then bnd (bm_privatize_range snapped [snapped div bm_block_size m..<cached div bm_block_size m])
                     (\<lambda>copies. thn (set_seq (\<lambda>s. s\<lparr>sq_num_cached_tokens := snapped\<rparr>)) (ret copies))
                else ret [])
          else ret ([] :: copy_rows list)"
  let ?fin = "\<lambda>copies :: copy_rows list. thn (set_seq (\<lambda>s. s\<lparr>sq_candidate_tokens := sq_num_cached_tokens s\<rparr>)) (ret copies)"
  have inv: "bm_inv rest m" using heldD[OF h] tab by simp
  have eq: "gp_free_count (bm_gpu m) + bm_reclaimable None m = card (obtainable rest None m)"
    by (rule free_plus_reclaimable[OF bm_invD(1,4)[OF inv]])
  have after: "wp (bnd (?fix n v) ?fin) ?Q ?E (n, v)"
    if hn: "held rest (n, v)" and d: "dense_state (t, s) (n, v)" and sc: "same_config m t"
      and hits: "hits_then_own rest (n, v) True" and len: "length (sq_block_table v) = sq_num_blocks s"
      and room: "length (sq_block_table v) \<le> card (spare rest n)" and ht: "held rest (t, s)" for t n v
  proof -
    have bsn: "bm_block_size n = bm_block_size m" "0 < bm_block_size n"
      using d sc bm_invD(5)[OF inv] by (auto simp: dense_state_def same_config_def)
    have post: "?Q x (t2, w)"
      if "private_step rest (n, v) {c div bm_block_size n..<sq_num_cached_tokens v div bm_block_size n} (t2, u)" "c \<le> sq_num_cached_tokens v"
        "w = u\<lparr>sq_num_cached_tokens := c, sq_candidate_tokens := c\<rparr>" for t2 u c w x
    proof -
      have "dense_post rest (t, s) (t2, w)"
        by (rule private_dense_post[OF ht d that(1) len _ that(3)])
          (rule hits_then_own_private[OF hits bsn(2) that(2,1)], use bsn sc in \<open>auto simp: same_config_def\<close>)
      then show ?thesis using sc by (auto simp: dense_post_def safe_def same_config_def)
    qed
    show ?thesis
    proof (cases "sq_is_multimodal v \<and> ?snapped v \<noteq> sq_num_cached_tokens v")
      case False
      have "private_step rest (n, v) {sq_num_cached_tokens v div bm_block_size n..<sq_num_cached_tokens v div bm_block_size n} (n, v)"
        using private_step_refl[OF hn] by simp
      then have "?Q [] (n, v\<lparr>sq_candidate_tokens := sq_num_cached_tokens v\<rparr>)" by (rule post) simp_all
      then show ?thesis using False by (auto simp: wp_bnd wp_thn wp_ret wp_ret_eta wp_get_set Let_def)
    next
      case True
      let ?c = "?snapped v"
      have sn: "?c < sq_num_cached_tokens v" using snap_le[of v "sq_num_cached_tokens v"] True by simp
      obtain k where k: "sq_num_cached_tokens v = k * bm_block_size n" "k \<le> length (sq_block_table v)"
        using hits by (auto simp: hits_then_own_def)
      have rng: "\<forall>i \<in> set [?c div bm_block_size n..<sq_num_cached_tokens v div bm_block_size n]. i < length (sq_block_table v)"
        using k bsn by auto
      have "wp (bm_privatize_range ?c [?c div bm_block_size n..<sq_num_cached_tokens v div bm_block_size n])
        (\<lambda>copies. wp (thn (set_seq (\<lambda>s. s\<lparr>sq_num_cached_tokens := ?c\<rparr>)) (ret copies)) (\<lambda>x. wp (?fin x) ?Q ?E) ?E) ?E (n, v)"
      proof (rule wp_mono[OF wp_privatize_range[OF hn rng room]])
        fix copies t2 assume p: "private_step rest (n, v) (set [?c div bm_block_size n..<sq_num_cached_tokens v div bm_block_size n]) t2"
        obtain t3 u where t2: "t2 = (t3, u)" by (cases t2)
        have "?Q copies (t3, u\<lparr>sq_num_cached_tokens := ?c, sq_candidate_tokens := ?c\<rparr>)"
          by (rule post) (use p t2 sn in simp_all)
        then show "wp (thn (set_seq (\<lambda>s. s\<lparr>sq_num_cached_tokens := ?c\<rparr>)) (ret copies)) (\<lambda>x. wp (?fin x) ?Q ?E) ?E t2"
          by (simp add: t2 wp_thn wp_get_set wp_ret_eta wp_ret)
      qed simp
      then show ?thesis using True by (simp add: wp_bnd Let_def)
    qed
  qed
  have loop: "wp (bm_dense_loop xx [0..<sq_num_blocks s] NO_BLOCK_HASH False)
      (\<lambda>_. wp (bnd get_mgr (\<lambda>m. bnd get_seq (\<lambda>s. bnd (?fix m s) ?fin))) ?Q ?E) ?E (t, s)"
    if t: "bm_inv rest t" "same_config m t" "int (sq_num_blocks s) \<le> int (free_of t)" for t
  proof -
    have ht: "held rest (t, s)" using t(1) tab by (simp add: held_def)
    have room: "sq_num_blocks s \<le> card (spare rest t)" using free_spare[OF ht] t(3) tab by simp
    show ?thesis
    proof (rule wp_mono[OF wp_dense_loop[OF ht, where miss = False]])
      fix x st
      assume a: "held rest st \<and> dense_state (t, s) st \<and> hits_then_own rest st True \<and>
        length (sq_block_table (snd st)) = length (sq_block_table s) + length [0..<sq_num_blocks s]"
      obtain n v where st: "st = (n, v)" by (cases st)
      have "spare rest n = spare rest t" using a st by (intro spare_cong) (auto simp: dense_state_def)
      then show "wp (bnd get_mgr (\<lambda>m. bnd get_seq (\<lambda>s. bnd (?fix m s) ?fin))) ?Q ?E st"
        using after[of n v t] a t(2) ht room tab st by (simp add: wp_bnd[of get_mgr] wp_bnd[of get_seq] wp_get_set)
    next
      fix e st assume a: "held rest st \<and> dense_state (t, s) st \<and> \<not> hashes_defined xx t s"
      then have "\<not> hashes_defined xx m s" using hashes_defined_config[OF t(2)] by blast
      moreover have "safe rest (m, s) st"
        using a t(2) by (auto simp: safe_def dense_state_def intro: same_config_trans)
      ultimately show "?E e st" by simp
    qed (use room tab zero in \<open>auto simp: hash_range_def hits_then_own_def\<close>)
  qed
  have "wp (on_mgr (bm_ensure_free (int (sq_num_blocks s)) None)) (\<lambda>_. wp (bm_dense_loop xx [0..<sq_num_blocks s] NO_BLOCK_HASH False)
      (\<lambda>_. wp (bnd get_mgr (\<lambda>m. bnd get_seq (\<lambda>s. bnd (?fix m s) ?fin))) ?Q ?E) ?E) ?E (m, s)"
    by (rule wp_ensure[OF inv]) (use loop tab eq in \<open>auto intro: safe_mgr\<close>)
  then show ?thesis
    unfolding bm_allocate_dense_def wp_bnd[of get_seq] wp_get_set wp_thn[of "on_mgr g" for g]
      wp_thn[of "bm_dense_loop a b c d" for a b c d] wp_eta(3)[of "bm_dense_loop a b c d" for a b c d] .
qed

section \<open>Admission\<close>

lemma block_hash_ok:
  assumes "hashes_defined xx m s" and "i < sq_num_blocks s" and "hash_range p"
  obtains h mm where "bm_block_hash_and_mm xx m s i p = Inr (h, mm)" and "hash_range h"
proof -
  have "is_ok (bm_block_hash_and_mm xx m s i p)" using assms by (simp add: hashes_defined_def)
  then obtain y where y: "bm_block_hash_and_mm xx m s i p = Inr y" unfolding is_ok_iff ..
  obtain h mm where "y = (h, mm)" by (cases y)
  then show thesis using that y block_hash_range by blast
qed

text \<open>Probing the block chain changes nothing and cannot raise when the hashes are defined.\<close>

lemma wp_walk:
  "gpu_inv (bm_gpu m) \<Longrightarrow> hashes_defined xx m s \<Longrightarrow> \<forall>i \<in> set is. i < sq_num_blocks s \<Longrightarrow> hash_range p \<Longrightarrow>
   wp (bm_walk xx is p n) (\<lambda>_ t. t = (m, s)) E (m, s)"
proof (induction "is" arbitrary: p n)
  case (Cons i js)
  have i: "i < sq_num_blocks s" using Cons.prems(3) by simp
  obtain h mm where h: "bm_block_hash_and_mm xx m s i p = Inr (h, mm)" "hash_range h"
    using block_hash_ok[OF Cons.prems(2) i Cons.prems(4)] by blast
  obtain toks where toks: "sq_block i s = Inr toks" using i by (simp add: sq_block_def)
  show ?case using Cons.IH[OF Cons.prems(1,2) _ h(2)] Cons.prems(3)
    by (auto simp: wp_bnd wp_get_set wp_lift_res h(1) toks wp_ret bm_lookup_def wp_on_mgr wp_on_gpu
        wp_gp_lookup[OF Cons.prems(1)] split: option.splits)
qed (simp add: wp_ret)

lemma wp_cached_prefix_length:
  assumes inv: "bm_inv own m" and hd: "hashes_defined xx m s" and le: "sq_num_prompt_tokens s \<le> sq_num_tokens s"
    and bs: "sq_block_size s = bm_block_size m"
  shows "wp (bm_cached_prefix_length xx) (\<lambda>_ t. t = (m, s)) E (m, s)"
proof -
  have "i < sq_num_blocks s" if "i < sq_num_prompt_tokens s div bm_block_size m" for i
  proof -
    have "Suc i * bm_block_size m \<le> sq_num_prompt_tokens s"
      using that by (meson Suc_leI div_times_less_eq_dividend le_trans mult_le_mono1)
    then have "i * bm_block_size m < sq_num_tokens s" using le bm_invD(5)[OF inv] by simp
    then show ?thesis unfolding sq_num_blocks_def bs using less_ceil_div_iff[OF bm_invD(5)[OF inv]] by simp
  qed
  then show ?thesis using wp_walk[OF bm_invD(3)[OF inv] hd, of _ NO_BLOCK_HASH 0]
    by (auto simp: bm_cached_prefix_length_def wp_bnd wp_get_set wp_ret wp_ret_eta hash_range_def Let_def
        intro!: wp_mono[OF wp_walk[OF bm_invD(3)[OF inv] hd]])
qed

lemma sequence_view_stale [simp]:
  "sq_num_blocks (s\<lparr>sq_mm_prefix_stale_fallback := b\<rparr>) = sq_num_blocks s"
  "hashes_defined xx m (s\<lparr>sq_mm_prefix_stale_fallback := b\<rparr>) = hashes_defined xx m s"
  by (simp_all add: sq_num_blocks_def hashes_defined_def bm_block_hash_and_mm_def sq_block_def sq_is_multimodal_def
      sq_image_token_spans_def sq_image_pad_runs_def sq_prompt_token_ids_def bm_hashable_def
      sq_mm_token_hashes_for_block_def cong: if_cong option.case_cong)

lemma hashes_defined_counters [simp]: "hashes_defined xx (m\<lparr>bm_counters := c\<rparr>) s = hashes_defined xx m s"
  by (rule hashes_defined_config) simp

lemma reclaimable_counters [simp]: "bm_reclaimable p (m\<lparr>bm_counters := c\<rparr>) = bm_reclaimable p m"
  by (simp add: bm_reclaimable_def)

definition counted :: "mseq \<Rightarrow> mseq \<Rightarrow> bool" where
  "counted st t \<longleftrightarrow> (\<exists>c b. t = ((fst st)\<lparr>bm_counters := c\<rparr>, (snd st)\<lparr>sq_mm_prefix_stale_fallback := b\<rparr>))"

lemma wp_allocate_unmatched:
  assumes h: "held rest (m, s)" and tab: "sq_block_table s = []" and zero: "sq_num_cached_tokens s = 0"
    and hd: "hashes_defined xx m s" and le: "sq_num_prompt_tokens s \<le> sq_num_tokens s"
    and bs: "sq_block_size s = bm_block_size m" and adm: "admissible m s None"
  shows "wp (bm_allocate_matched xx m s None) (\<lambda>_. dense_post rest (m, s)) (\<lambda>_ _. False) (m, s)"
proof -
  let ?Q = "\<lambda>_ :: copy_rows list. dense_post rest (m, s)"
  have self: "counted (m, s) (m, s)" unfolding counted_def
    by (intro exI[of _ "bm_counters m"] exI[of _ "sq_mm_prefix_stale_fallback s"]) simp
  have dense: "wp (bm_allocate_dense xx) ?Q (\<lambda>_ _. False) t" if c: "counted (m, s) t" for t
  proof -
    obtain c b where t: "t = (m\<lparr>bm_counters := c\<rparr>, s\<lparr>sq_mm_prefix_stale_fallback := b\<rparr>)" using c by (auto simp: counted_def)
    have ht: "held rest (m\<lparr>bm_counters := c\<rparr>, s\<lparr>sq_mm_prefix_stale_fallback := b\<rparr>)" using h by (simp add: held_def)
    have "wp (bm_allocate_dense xx) (\<lambda>_. dense_post rest (m\<lparr>bm_counters := c\<rparr>, s\<lparr>sq_mm_prefix_stale_fallback := b\<rparr>))
      (\<lambda>_ _. False) (m\<lparr>bm_counters := c\<rparr>, s\<lparr>sq_mm_prefix_stale_fallback := b\<rparr>)"
      by (rule wp_mono[OF wp_allocate_dense[OF ht]]) (use tab zero hd adm in \<open>auto simp: admissible_def\<close>)
    then show ?thesis unfolding t by (rule wp_mono) (auto simp: dense_post_def safe_def)
  qed
  have walk: "wp (bnd (bm_cached_prefix_length xx) (\<lambda>n. if n = 0 then count_event f else ret ())) (\<lambda>_. counted (m, s)) (\<lambda>_ _. False) (m, s)" for f
    unfolding wp_bnd
    by (rule wp_mono[OF wp_cached_prefix_length[OF heldD[OF h] hd le bs, of "\<lambda>_ _. False"]])
      (use self in \<open>auto simp: wp_get_set wp_ret counted_def intro!: exI[of _ "sq_mm_prefix_stale_fallback s"]\<close>)
  have count: "counted (m, s) (m\<lparr>bm_counters := c\<rparr>, s)" for c
    unfolding counted_def by (intro exI[of _ c] exI[of _ "sq_mm_prefix_stale_fallback s"]) simp
  have both: "counted (m, s) (m\<lparr>bm_counters := c\<rparr>, s\<lparr>sq_mm_prefix_stale_fallback := b\<rparr>)" for c b
    unfolding counted_def by (intro exI[of _ c] exI[of _ b]) simp
  have then_dense: "wp (thn p (bm_allocate_dense xx)) ?Q (\<lambda>_ _. False) t"
    if "wp p (\<lambda>_. counted (m, s)) (\<lambda>_ _. False) t" for p :: "(unit, mseq) op" and t
    unfolding wp_thn by (rule wp_mono[OF that]) (auto intro: dense)
  have 1: "wp (thn (if b then bnd (bm_cached_prefix_length xx) (\<lambda>n. if n = 0 then count_event f else ret ()) else ret ())
      (bm_allocate_dense xx)) ?Q (\<lambda>_ _. False) (m, s)" for b f
    by (rule then_dense) (use walk self in \<open>auto simp: wp_ret\<close>)
  have 2: "wp (thn (if b then thn (set_seq (\<lambda>s. s\<lparr>sq_mm_prefix_stale_fallback := True\<rparr>)) (count_event f) else ret ())
      (thn (if b' then count_event g else ret ()) (bm_allocate_dense xx))) ?Q (\<lambda>_ _. False) (m, s)" for b b' f g
    unfolding wp_thn[of "if b then p else q" for p q]
    using self count both
    by (cases b; cases b') (auto simp: wp_thn[of "set_seq h" for h] wp_eta(3)[of "set_seq h" for h] wp_get_set wp_ret wp_ret_eta intro!: then_dense)
  show ?thesis
    unfolding bm_allocate_matched_def option.case using 1 2 by simp
qed

lemma wp_rollback_ok:
  assumes "wp body Q (\<lambda>_ _. False) st"
  shows "wp (rollback body) Q (\<lambda>_ _. False) st"
  unfolding rollback_def wp_catch by (rule wp_mono[OF assms]) auto

text \<open>A sequence that waits: no pages, nothing computed, block hashes defined.\<close>

definition waiting :: "hash_fun \<Rightarrow> manager \<Rightarrow> sequence \<Rightarrow> bool" where
  "waiting xx m s \<longleftrightarrow> sq_block_table s = [] \<and> sq_cpu_block_table s = [] \<and> sq_num_cached_tokens s = 0 \<and>
     sq_kv_layout s = None \<and> sq_num_prompt_tokens s \<le> sq_num_tokens s \<and> sq_block_size s = bm_block_size m \<and>
     hashes_defined xx m s"

text \<open>A compact hit needs an entry that records a physical compaction.\<close>

definition usable_match :: "manager \<Rightarrow> sequence \<Rightarrow> bool" where
  "usable_match m s \<longleftrightarrow> (case bm_matching s m of
     Inr (Some (k, e)) \<Rightarrow> (bm_block_level m \<and> bm_hashable m s) \<or> get_flag (en_record e) ''physical_compaction''
   | _ \<Rightarrow> True)"

definition allocation_post :: "(nat \<Rightarrow> nat) \<Rightarrow> mseq \<Rightarrow> mseq \<Rightarrow> bool" where
  "allocation_post rest st t \<longleftrightarrow> safe rest st t \<and>
     (case bm_matching (snd st) (fst st) of
        Inr (Some (k, e)) \<Rightarrow> hit_post rest e st t
      | _ \<Rightarrow> dense_post rest st t)"

lemma wp_allocate_admitted:
  assumes h: "held rest (m, s)" and w: "waiting xx m s" and u: "usable_match m s"
    and mt: "bm_matching s m = Inr mt" and adm: "admissible m s mt"
  shows "wp (bm_allocate xx) (\<lambda>_. allocation_post rest (m, s)) (\<lambda>_ _. False) (m, s)"
proof -
  have tab: "sq_block_table s = []" and bs: "sq_block_size s = bm_block_size m" and kv: "sq_kv_layout s = None"
    and zero: "sq_num_cached_tokens s = 0" and hd: "hashes_defined xx m s" and le: "sq_num_prompt_tokens s \<le> sq_num_tokens s"
    using w by (simp_all add: waiting_def)
  have "wp (bm_allocate_matched xx m s mt) (\<lambda>_. allocation_post rest (m, s)) (\<lambda>_ _. False) (m, s)"
  proof (cases mt)
    case None
    show ?thesis unfolding None
      by (rule wp_mono[OF wp_allocate_unmatched[OF h tab zero hd le bs adm[unfolded None]]])
        (use mt None in \<open>auto simp: allocation_post_def dense_post_def\<close>)
  next
    case (Some x)
    obtain k e where x: "x = (k, e)" by (cases x)
    have m: "bm_matching s m = Inr (Some (k, e))" using mt Some x by simp
    have room: "bm_required_for_hit s e m \<le> int (gp_free_count (bm_gpu m) + bm_reclaimable (Some k) m)"
      using adm Some x by (simp add: admissible_def)
    have "wp (bm_allocate_entry_hit k e) (\<lambda>_. allocation_post rest (m, s)) (\<lambda>_ _. False) (m, s)"
      by (rule wp_mono[OF wp_allocate_entry_hit[OF h tab bs m]])
        (use m room in \<open>auto simp: allocation_post_def hit_error_def hit_post_def\<close>)
    moreover have "wp (bm_allocate_prefix_hit k e) (\<lambda>_. allocation_post rest (m, s)) (\<lambda>_ _. False) (m, s)"
      if "\<not> (bm_block_level m \<and> bm_hashable m s)"
    proof -
      have "get_flag (en_record e) ''physical_compaction''" using u m that by (simp add: usable_match_def)
      then show ?thesis
        by (intro wp_mono[OF wp_allocate_prefix_hit[OF h tab bs m kv]])
          (use m room in \<open>auto simp: allocation_post_def hit_error_def hit_post_def\<close>)
    qed
    ultimately show ?thesis by (auto simp: bm_allocate_matched_def Some x intro!: wp_rollback_ok)
  qed
  then show ?thesis using w mt adm by (simp add: wp_allocate waiting_def)
qed

end
