(* ===== verification/Block_Machine.thy ===== *)
theory Block_Machine imports Block_Swap Block_Dense begin

text \<open>
  Admission of computed prefixes to the cache, and the machine of the block manager with all its
  sequences: a step is one public call on one sequence, also a call that raises.  Its invariant
  says that every page reference is accounted for.
\<close>

section \<open>Admitting a prefix\<close>

lemma wp_store_body:
  assumes inv: "bm_inv own m"
  shows "wp (store_loop_body u) (\<lambda>_ t. bm_inv own t \<and> same_config m t \<and> keeps None m t) (\<lambda>_ _. False) m"
proof -
  let ?Q = "\<lambda>_ t. bm_inv own t \<and> same_config m t \<and> keeps None m t"
  have evict: "wp (bm_evict k) (\<lambda>_. ?Q x) (\<lambda>_ _. False) m" if "map_of (bm_cache m) k = Some e" for k e and x :: unit
    by (rule wp_evict[OF inv that]) (auto simp: keeps_def keys_od_pop count_pop_le)
  have choose: "wp (bnd (gets (bm_eviction_candidate None)) (\<lambda>c. case c of
         None \<Rightarrow> ret (Some False)
       | Some k \<Rightarrow> bnd (gets (\<lambda>m. map_of (bm_cache m) k)) (\<lambda>x. case x of
             None \<Rightarrow> throw KeyError
           | Some e \<Rightarrow> if u \<le> en_benefit_per_block e then ret (Some False)
                       else thn (bm_evict k) (ret None)))) ?Q (\<lambda>_ _. False) m"
  proof (cases "bm_eviction_candidate None m")
    case None
    then show ?thesis using inv by (simp add: wp_simps)
  next
    case (Some k)
    then obtain e where e: "map_of (bm_cache m) k = Some e"
      using eviction_candidate_Some[OF Some] by (metis keys_def list.set_map map_of_eq_None_iff not_None_eq)
    show ?thesis using Some e inv evict[OF e] by (simp add: wp_bnd wp_gets wp_thn wp_ret wp_ret_eta)
  qed
  show ?thesis unfolding store_loop_body_def wp_bnd[of "bm_drop_idle_tail p" for p]
    by (rule wp_drop_idle_tail[OF inv]) (use choose in \<open>auto simp: wp_ret keeps_def count_drop_le\<close>)
qed

lemma wp_store_loop:
  "bm_inv own m \<Longrightarrow> wp (bm_store_loop u n) (\<lambda>room t. bm_inv own t \<and> same_config m t \<and> keeps None m t \<and>
     (room \<longrightarrow> bm_cache_blocks t + int n \<le> int (bm_cache_max t))) (\<lambda>_ _. False) m"
proof (induction u n m rule: bm_store_loop.induct)
  case (1 u n m)
  obtain r t where b: "store_loop_body u m = (Inr r, t)" "bm_inv own t" "same_config m t" "keeps None m t"
    using wp_store_body[OF 1(2), of u] by (auto simp: wp_total)
  show ?case
  proof (cases "bm_cache_blocks m + int n \<le> int (bm_cache_max m)")
    case True
    then show ?thesis using 1(2) by (simp add: wp_def bm_store_loop.simps[of u n m])
  next
    case more: False
    show ?thesis
    proof (cases r)
      case None
      have "wp (bm_store_loop u n) (\<lambda>room t'. bm_inv own t' \<and> same_config t t' \<and> keeps None t t' \<and>
          (room \<longrightarrow> bm_cache_blocks t' + int n \<le> int (bm_cache_max t'))) (\<lambda>_ _. False) t"
        by (rule 1(1)[OF more b(1)[symmetric] refl None b(2)])
      then have "wp (bm_store_loop u n) (\<lambda>room t'. bm_inv own t' \<and> same_config m t' \<and> keeps None m t' \<and>
          (room \<longrightarrow> bm_cache_blocks t' + int n \<le> int (bm_cache_max t'))) (\<lambda>_ _. False) t"
        by (rule wp_mono) (use b same_config_trans keeps_trans in blast)+
      then show ?thesis using more b(1) None by (simp add: wp_def bm_store_loop.simps[of u n m])
    next
      case (Some y)
      have "y = False"
        using b(1) Some by (auto simp: store_loop_body_def bnd_def thn_def ret_def gets_def throw_def
            split: prod.splits sum.splits option.splits if_splits)
      then show ?thesis using more b Some by (simp add: wp_def bm_store_loop.simps[of u n m])
    qed
  qed
qed

lemma wp_retain_each:
  "bm_inv own m \<Longrightarrow> \<forall>b \<in> set ids. 0 < own b \<Longrightarrow>
   (\<And>t. bm_inv (\<lambda>b. own b + count_list ids b) t \<Longrightarrow> pool_only m t \<Longrightarrow> Q () (t, s)) \<Longrightarrow>
   wp (each ids (\<lambda>b. thn (bm_retain_page b) (ret ()))) Q E (m, s)"
proof (induction ids arbitrary: m own)
  case Nil
  have "Q () (m, s)" by (rule Nil(3)) (use Nil(1) in simp_all)
  then show ?case by (simp add: wp_ret)
next
  case (Cons b ids)
  show ?case unfolding each.simps wp_thn
  proof (rule wp_retain_page[OF Cons.prems(1)])
    show "0 < own b \<or> b \<in> set (cache_pages None (bm_cache m))" using Cons.prems(2) by simp
    fix t assume t: "bm_inv (own(b := own b + 1)) t" "pool_only m t"
    have "wp (each ids (\<lambda>b. thn (bm_retain_page b) (ret ()))) Q E (t, s)"
    proof (rule Cons.IH[OF t(1)])
      show "\<forall>c \<in> set ids. 0 < (own(b := own b + 1)) c" using Cons.prems(2) by simp
      fix u assume u: "bm_inv (\<lambda>c. (own(b := own b + 1)) c + count_list ids c) u" "pool_only t u"
      have "(\<lambda>c. (own(b := own b + 1)) c + count_list ids c) = (\<lambda>c. own c + count_list (b # ids) c)" by (auto simp: fun_eq_iff)
      then show "Q () (u, s)" using u pool_only_trans[OF t(2)] by (intro Cons.prems(3)) simp_all
    qed
    then show "wp (ret ()) (\<lambda>_. wp (each ids (\<lambda>b. thn (bm_retain_page b) (ret ()))) Q E) E (t, s)" by (simp add: wp_ret)
  qed
qed

lemma cache_pages_snoc: "cache_pages None (c @ [(k, e)]) = cache_pages None c @ en_pages e"
  by (induction c) auto

lemma wp_admit_prefix:
  assumes h: "held rest (m, s)" and k: "map_of (bm_cache m) k = None" and wf: "entry_wf (bm_block_size m) k e"
    and sub: "set (en_block_ids e) \<subseteq> set (sq_block_table s)" and tails: "en_tails e = []"
    and room: "bm_cache_blocks m + int (length (en_block_ids e)) \<le> int (bm_cache_max m)"
  shows "wp (admit_prefix k e) (\<lambda>r t. r \<and> safe rest (m, s) t \<and> snd t = s \<and> map_of (bm_cache (fst t)) k = Some e) E (m, s)"
proof -
  let ?own = "held_by rest (sq_block_table s)" and ?ids = "en_block_ids e"
  let ?Q = "\<lambda>r t. r \<and> safe rest (m, s) t \<and> snd t = s \<and> map_of (bm_cache (fst t)) k = Some e"
  let ?last = "thn (on_mgr (upd (\<lambda>m. m\<lparr>bm_cache := bm_cache m @ [(k, e)], bm_cache_blocks := bm_cache_blocks m + int (length ?ids)\<rparr>)))
    (thn (count_event (\<lambda>c. c\<lparr>ct_admissions := ct_admissions c + 1\<rparr>)) (ret True))"
  have nk: "k \<notin> set (keys (bm_cache m))" using k by (simp add: keys_def map_of_eq_None_iff)
  have "wp (each ?ids (\<lambda>b. thn (bm_retain_page b) (ret ()))) (\<lambda>_. wp ?last ?Q E) E (m, s)"
  proof (rule wp_retain_each[OF heldD[OF h]])
    show "\<forall>b \<in> set ?ids. 0 < ?own b" using sub by (auto simp: held_by_def count_list_pos_iff)
    fix t assume t: "bm_inv (\<lambda>b. ?own b + count_list ?ids b) t" "pool_only m t"
    note po = pool_only_cache[OF t(2)]
    let ?c = "bm_cache m @ [(k, e)]"
    have "refs_ok ?own (t\<lparr>bm_cache := ?c\<rparr>)"
      by (rule refs_ok_cache[OF bm_invD(1)[OF t(1)]]) (use po tails in \<open>simp add: cache_pages_snoc en_pages_def\<close>)
    moreover have "cache_ok (t\<lparr>bm_cache := ?c, bm_cache_blocks := bm_cache_blocks m + int (length ?ids)\<rparr>)"
      using bm_invD(2)[OF t(1)] po nk wf tails room
      by (auto simp: cache_ok_def keys_def cache_pages_snoc en_pages_def same_config_def)
    ultimately have "bm_inv ?own (t\<lparr>bm_cache := ?c, bm_cache_blocks := bm_cache_blocks m + int (length ?ids)\<rparr>)"
      by (simp add: bm_inv_def)
    then show "wp ?last ?Q E (t, s)" using po k by (simp add: wp_simps safe_def held_def map_add_def)
  qed
  then show ?thesis by (simp add: admit_prefix_def wp_thn[of "each xs f" for xs f])
qed

text \<open>What a validated layout guarantees of the evidence that admission copies.\<close>

definition evidence :: "sequence \<Rightarrow> bool" where
  "evidence s \<longleftrightarrow> (case sq_kv_layout s of None \<Rightarrow> True
     | Some ly \<Rightarrow> sorted_wrt (<) (ly_retained_original_positions ly) \<and>
         (\<forall>p \<in> set (ly_retained_original_positions ly). 0 \<le> p) \<and> ly_kv_dtype ly \<noteq> [])"

definition new_entry :: "manager \<Rightarrow> sequence \<Rightarrow> string \<Rightarrow> nat \<Rightarrow> int list \<Rightarrow> string \<Rightarrow> py_record \<Rightarrow> cache_entry" where
  "new_entry m s media_key boundary retained dtype rd =
     \<lparr>en_key = media_key, en_tokens = take boundary (sq_prompt_token_ids s),
      en_logical_len = boundary, en_physical_len = length retained, en_retained = retained,
      en_block_ids = take (ceil_div (length retained) (bm_block_size m)) (sq_block_table s),
      en_kv_dtype = dtype, en_record = rd, en_benefit = boundary, en_hits = 0, en_tails = []\<rparr>"

lemma prefix_source_wf:
  assumes "prefix_source m s boundary = Some (retained, dtype, rd)" and "evidence s"
  shows "sorted_wrt (<) retained" and "set retained \<subseteq> {0..<int boundary}" and "dtype \<noteq> []"
proof -
  have d: "sorted_wrt (<) (map int [0..<boundary])" by (simp add: sorted_wrt_map)
  show "sorted_wrt (<) retained" "set retained \<subseteq> {0..<int boundary}" "dtype \<noteq> []"
    using assms d by (auto simp: prefix_source_def evidence_def sorted_wrt_filter split: option.splits if_splits)
qed

lemma boundary_le: "sq_mm_prefix_boundary s = Some b \<Longrightarrow> b \<le> length (sq_prompt_token_ids s) \<and> 0 < b"
proof -
  assume "sq_mm_prefix_boundary s = Some b"
  then obtain xs where xs: "xs = filter (\<lambda>i. Some (sq_prompt_token_ids s ! i) = sq_image_token_id s \<or>
      Some (sq_prompt_token_ids s ! i) = sq_video_token_id s) [0..<length (sq_prompt_token_ids s)]" "xs \<noteq> []" "b = last xs + 1"
    by (auto simp: sq_mm_prefix_boundary_def Let_def split: if_splits)
  have "last xs \<in> set xs" using xs(2) by simp
  then have "last xs < length (sq_prompt_token_ids s)" unfolding xs(1) by auto
  then show ?thesis using xs(3) by simp
qed

lemma new_entry_wf:
  assumes src: "prefix_source m s b = Some (retained, dtype, rd)" and ev: "evidence s"
    and bd: "sq_mm_prefix_boundary s = Some b" and k: "mm_cache_id mk (take b (sq_prompt_token_ids s)) = Inr k"
    and pos: "retained \<noteq> []" and len: "ceil_div (length retained) (bm_block_size m) \<le> length (sq_block_table s)"
  shows "entry_wf (bm_block_size m) k (new_entry m s mk b retained dtype rd)"
  using prefix_source_wf[OF src ev] boundary_le[OF bd] k pos len by (auto simp: entry_wf_def new_entry_def)

definition stored :: "(nat \<Rightarrow> nat) \<Rightarrow> mseq \<Rightarrow> bool \<Rightarrow> mseq \<Rightarrow> bool" where
  "stored rest st r t \<longleftrightarrow> safe rest st t \<and> snd t = snd st \<and>
     (r \<longrightarrow> (\<exists>k e. bm_matching (snd st) (fst t) = Inr (Some (k, e)) \<and>
        (\<exists>n. en_block_ids e = take n (sq_block_table (snd st))) \<and> en_tails e = []))"

lemma wp_reject: "held rest (t, s) \<Longrightarrow> same_config m t \<Longrightarrow> wp reject_prefix (stored rest (m, s)) E (t, s)"
  by (simp add: reject_prefix_def wp_simps stored_def safe_def held_def)

lemma wp_store_prefix:
  assumes h: "held rest (m, s)" and ev: "evidence s"
  shows "wp bm_store_prefix (stored rest (m, s)) (\<lambda>_ t. t = (m, s)) (m, s)"
proof -
  let ?Q = "stored rest (m, s)" and ?E = "\<lambda>_ t. t = (m, s)"
  have no: "?Q False (m, s)" using h by (simp add: stored_def safe_refl)
  show ?thesis
  proof (cases "sq_block_size s = bm_block_size m \<and> bm_enable_prefix m \<and> \<not> sq_mm_prefix_cache_hit s \<and>
      sq_is_prefill_finished s \<and> sq_num_tokens s = sq_num_prompt_tokens s")
    case False
    then show ?thesis using no by (auto simp: bm_store_prefix_def wp_simps split: option.splits)
  next
    case go: True
    show ?thesis
    proof (cases "sq_mm_prefix_cache_key s = None \<or> sq_mm_prefix_boundary s = None")
      case True
      then show ?thesis using go no by (auto simp: bm_store_prefix_def wp_thn wp_bnd wp_get_set wp_assert_block_size wp_ret split: option.splits)
    next
      case False
      then obtain mk b where key: "sq_mm_prefix_cache_key s = Some mk" and bd: "sq_mm_prefix_boundary s = Some b" by auto
      show ?thesis
      proof (cases "prefix_source m s b")
        case None
        then show ?thesis using go no key bd
          by (simp add: bm_store_prefix_def wp_thn wp_bnd wp_get_set wp_assert_block_size wp_ret wp_chk)
      next
        case (Some src)
        obtain retained dtype rd where src: "prefix_source m s b = Some (retained, dtype, rd)"
          using Some by (cases src) auto
        let ?pages = "ceil_div (length retained) (bm_block_size m)"
        let ?e = "new_entry m s mk b retained dtype rd"
        show ?thesis
        proof (cases "retained = [] \<or> bm_cache_max m < ?pages \<or> length (sq_block_table s) < ?pages")
          case True
          then show ?thesis using go key bd src wp_reject[OF h same_config_refl]
            by (auto simp: bm_store_prefix_def wp_thn[of bm_assert_block_size] wp_thn[of "chk e c" for e c] wp_bnd[of get_seq] wp_bnd[of get_mgr]
                wp_get_set wp_assert_block_size wp_chk Let_def)
        next
          case fits: False
          show ?thesis
          proof (cases "mm_cache_id mk (take b (sq_prompt_token_ids s))")
            case (Inl e)
            then show ?thesis using go key bd src fits
              by (auto simp: bm_store_prefix_def wp_thn[of bm_assert_block_size] wp_thn[of "chk e c" for e c] wp_bnd
                wp_get_set wp_assert_block_size wp_chk Let_def wp_lift_res)
          next
            case (Inr k)
            show ?thesis
            proof (cases "map_of (bm_cache m) k")
              case (Some e)
              have "?Q False (m\<lparr>bm_cache := od_move_to_end k (bm_cache m)\<rparr>, s)"
                using bm_inv_move_to_end[OF heldD[OF h], of k] by (simp add: stored_def safe_def held_def)
              then show ?thesis using go key bd src fits Inr Some
                by (auto simp: bm_store_prefix_def wp_thn wp_bnd wp_get_set wp_assert_block_size wp_chk Let_def wp_lift_res
                    wp_on_mgr wp_upd wp_ret)
            next
              case None
              have room: "wp (on_mgr (bm_store_loop u ?pages)) (\<lambda>room. wp (if \<not> room then reject_prefix else admit_prefix k ?e) ?Q ?E) ?E (m, s)" for u
                unfolding wp_on_mgr
              proof (rule wp_mono[OF wp_store_loop[OF heldD[OF h]]])
                fix room t
                assume a: "bm_inv (held_by rest (sq_block_table s)) t \<and> same_config m t \<and> keeps None m t \<and>
                  (room \<longrightarrow> bm_cache_blocks t + int ?pages \<le> int (bm_cache_max t))"
                have ht: "held rest (t, s)" using a by (simp add: held_def)
                have bst: "bm_block_size t = bm_block_size m" using a by (simp add: same_config_def)
                show "wp (if \<not> room then reject_prefix else admit_prefix k ?e) ?Q ?E (t, s)"
                proof (cases room)
                  case True
                  have nk: "map_of (bm_cache t) k = None" using a None unfolding keeps_def keys_def map_of_eq_None_iff by auto
                  have wf: "entry_wf (bm_block_size t) k ?e" unfolding bst
                    by (rule new_entry_wf[OF src ev bd Inr]) (use fits in auto)
                  have "wp (admit_prefix k ?e) ?Q ?E (t, s)"
                  proof (rule wp_mono[OF wp_admit_prefix[OF ht nk wf]])
                    fix r u assume u: "r \<and> safe rest (t, s) u \<and> snd u = s \<and> map_of (bm_cache (fst u)) k = Some ?e"
                    have "bm_matching s (fst u) = Inr (Some (k, ?e))"
                      using u a go key bd Inr by (auto simp: bm_matching_iff safe_def same_config_def new_entry_def)
                    then show "?Q r u" using u a
                      by (auto simp: stored_def safe_def new_entry_def intro: same_config_trans)
                  qed (use a True fits in \<open>auto simp: new_entry_def dest: in_set_takeD\<close>)
                  then show ?thesis using True by simp
                next
                  case False
                  then show ?thesis using wp_reject[OF ht, of m] a by simp
                qed
              qed simp
              show ?thesis using go key bd src fits Inr None room[of "fl (of_nat b / of_nat ?pages)", unfolded new_entry_def]
                by (simp add: bm_store_prefix_def wp_thn[of bm_assert_block_size] wp_thn[of "chk e c" for e c] wp_bnd
                    wp_get_set wp_assert_block_size wp_chk Let_def wp_lift_res)
            qed
          qed
        qed
      qed
    qed
  qed
qed

end
