(* ===== verification/Compaction.thy ===== *)
theory Compaction imports Block_Swap Visual_Decision begin

text \<open>
  \<open>prism_infer/engine/kv_compaction_coordinator.py\<close>: planning and committing the physical
  compaction of a pruned prompt, with the entry points of \<open>BlockManager\<close>.  A plan is computed
  without touching anything; the commit, after the device copy, publishes the shortened page table
  and the layout and releases the pages behind it.
\<close>

section \<open>Planning\<close>

definition private_pages :: "manager \<Rightarrow> nat list \<Rightarrow> bool" where
  "private_pages m tab \<longleftrightarrow> list_all (\<lambda>b. gp_ref (bm_gpu m) b = 1) tab"

definition compacted_len :: "sequence \<Rightarrow> nat" where
  "compacted_len s = (if sq_is_prefill_finished s \<or> sq_num_computed_tokens s = 0
     then sq_num_prompt_tokens s else sq_num_computed_tokens s)"

definition plan_of :: "nat \<Rightarrow> sequence \<Rightarrow> string \<Rightarrow> py_record \<Rightarrow> nat list \<Rightarrow> py_error + kv_plan" where
  "plan_of bs s kv_dtype rd retained =
    (let compacted = compacted_len s; prompt = sq_num_prompt_tokens s; physical = length retained;
         final = physical + (prompt - compacted); n = ceil_div final bs; old = sq_block_table s in
     bind_res (slots_of old bs retained) (\<lambda>source.
     bind_res (slots_of (take n old) bs [0..<physical]) (\<lambda>destination.
     let plan = \<lparr>pl_seq_id = sq_seq_id s, pl_logical_prompt_len = prompt, pl_physical_prompt_len = physical,
       pl_old_block_table = old, pl_new_block_table = take n old, pl_released_block_ids = drop n old,
       pl_retained_original_positions = map int retained, pl_source_slots = source,
       pl_destination_slots = destination, pl_kv_dtype = kv_dtype, pl_compression_record = rd,
       pl_compacted_logical_len = Some compacted, pl_final_physical_prompt_len = Some final\<rparr>
     in bind_res (pl_validate bs plan) (\<lambda>_. Inr plan))))"

definition cc_build_plan :: "string \<Rightarrow> (kv_plan option, mseq) op" where
  "cc_build_plan kv_dtype = bnd get_mgr (\<lambda>m. bnd get_seq (\<lambda>s. case sq_decision_record s of
      None \<Rightarrow> thn (chk RuntimeError (sq_image_token_count s = 0 \<and> sq_video_token_count s = 0)) (ret None)
    | Some rd \<Rightarrow>
     thn (chk RuntimeError (sq_kv_layout s = None))
    (thn (chk RuntimeError (sq_num_tokens s = sq_num_prompt_tokens s))
    (thn (chk RuntimeError (sq_num_cached_tokens s = 0))
    (thn (chk RuntimeError (sq_cpu_block_table s = []))
    (thn (chk RuntimeError (length (sq_block_table s) = sq_num_blocks s))
    (bnd (on_mgr (on_gpu (gp_validate_owned (sq_block_table s)))) (\<lambda>_.
     thn (chk RuntimeError (private_pages m (sq_block_table s)))
    (thn (chk RuntimeError (\<not> (compacted_len s < sq_num_prompt_tokens s \<and>
            (\<not> sq_mm_prefix_cache_enabled s \<or> Some (compacted_len s) \<noteq> sq_mm_prefix_boundary s))))
    (bnd (lift_res (build_retained_context_indices (Some rd) (int (sq_num_prompt_tokens s)))) (\<lambda>kept.
     let retained = filter (\<lambda>p. p < compacted_len s) kept in
     thn (chk RuntimeError (retained \<noteq> []))
    (bnd (lift_res (plan_of (bm_block_size m) s kv_dtype rd retained)) (\<lambda>plan.
     ret (Some plan))))))))))))))"

definition bm_build_compaction_plan :: "string \<Rightarrow> (kv_plan option, mseq) op" where
  "bm_build_compaction_plan kv_dtype = thn bm_assert_block_size (cc_build_plan kv_dtype)"

section \<open>Committing\<close>

definition compact_record :: "kv_plan \<Rightarrow> py_record" where
  "compact_record plan = dict_update (pl_compression_record plan)
     [(''physical_compaction'', PBool True),
      (''logical_prompt_tokens'', PInt (int (pl_logical_prompt_len plan))),
      (''compacted_logical_tokens'', PInt (int (pl_effective_compacted plan))),
      (''compacted_prefix_kv_tokens'', PInt (int (pl_physical_prompt_len plan))),
      (''physical_prompt_kv_tokens'', PInt (int (pl_effective_final plan))),
      (''old_block_table'', PInts (pl_old_block_table plan)),
      (''new_block_table'', PInts (pl_new_block_table plan)),
      (''released_block_ids'', PInts (pl_released_block_ids plan))]"

definition compact_layout :: "sequence \<Rightarrow> kv_plan \<Rightarrow> kv_layout" where
  "compact_layout s plan = \<lparr>ly_mode = KV_LAYOUT_VISUAL_COMPACT,
     ly_logical_context_len = pl_effective_compacted plan, ly_physical_kv_len = pl_physical_prompt_len plan,
     ly_prompt_logical_len = sq_num_prompt_tokens s, ly_compressed_prompt_kv_len = pl_physical_prompt_len plan,
     ly_retained_original_positions = pl_retained_original_positions plan, ly_kv_dtype = pl_kv_dtype plan,
     ly_compression_record = compact_record plan, ly_compacted_logical_len = Some (pl_effective_compacted plan),
     ly_schema_version = KV_LAYOUT_SCHEMA_VERSION\<rparr>"

definition release_private :: "nat \<Rightarrow> (unit, mseq) op" where
  "release_private b =
     bnd (on_mgr (on_gpu (gp_block b))) (\<lambda>blk.
     thn (chk RuntimeError (blk_ref blk = 1))
    (thn (bm_release_page b) (ret ())))"

definition publish_layout :: "kv_plan \<Rightarrow> kv_layout \<Rightarrow> (unit, mseq) op" where
  "publish_layout plan layout = bnd get_seq (\<lambda>s.
     if pl_effective_compacted plan = sq_num_prompt_tokens s
     then on_seq (sq_install_kv_layout layout)
     else thn (set_seq (\<lambda>s. s\<lparr>sq_num_cached_tokens := pl_effective_compacted plan\<rparr>))
         (thn (on_seq (sq_install_cached_prefix_layout layout))
              (set_seq (\<lambda>s. s\<lparr>sq_num_cached_tokens := 0\<rparr>))))"

definition cc_commit :: "kv_plan \<Rightarrow> (unit, mseq) op" where
  "cc_commit plan = bnd get_mgr (\<lambda>m. bnd get_seq (\<lambda>s.
     thn (lift_res (pl_validate (bm_block_size m) plan))
    (thn (chk RuntimeError (pl_seq_id plan = sq_seq_id s))
    (thn (chk RuntimeError (sq_kv_layout s = None))
    (thn (chk RuntimeError (sq_block_table s = pl_old_block_table plan))
    (thn (on_mgr (on_gpu (gp_validate_owned (pl_old_block_table plan))))
    (thn (chk RuntimeError (private_pages m (pl_old_block_table plan)))
    (thn (chk RuntimeError (opt_dict_eq (sq_decision_record s) (Some (pl_compression_record plan))))
    (let layout = compact_layout s plan in
     thn (lift_res (ly_validate (bm_block_size m) (pl_new_block_table plan) False layout))
    (thn (each (pl_new_block_table plan) (\<lambda>b. on_mgr (on_gpu (gp_clear_hash b))))
    (thn (each (pl_released_block_ids plan) release_private)
    (thn (set_seq (\<lambda>s. s\<lparr>sq_block_table := pl_new_block_table plan, sq_decision_record := Some (compact_record plan)\<rparr>))
         (publish_layout plan layout)))))))))))))"

definition bm_commit_compaction :: "kv_plan \<Rightarrow> (unit, mseq) op" where
  "bm_commit_compaction plan = thn bm_assert_block_size (cc_commit plan)"

section \<open>Plans\<close>

lemma slots_of_ok:
  "0 < bs \<Longrightarrow> \<forall>i \<in> set is. i < length tab * bs \<Longrightarrow>
   slots_of tab bs is = Inr (map (\<lambda>i. tab ! (i div bs) * bs + i mod bs) is)"
  by (induction tab bs "is" rule: slots_of.induct) (auto simp: less_mult_imp_div_less)

text \<open>What planning guarantees.\<close>

definition planned :: "nat \<Rightarrow> sequence \<Rightarrow> string \<Rightarrow> kv_plan \<Rightarrow> bool" where
  "planned bs s kv_dtype plan \<longleftrightarrow> pl_validate bs plan = Inr () \<and> pl_seq_id plan = sq_seq_id s \<and>
     pl_kv_dtype plan = kv_dtype \<and> sq_decision_record s = Some (pl_compression_record plan) \<and>
     pl_old_block_table plan = sq_block_table s \<and> pl_logical_prompt_len plan = sq_num_prompt_tokens s \<and>
     pl_compacted_logical_len plan = Some (compacted_len s) \<and>
     pl_final_physical_prompt_len plan = Some (pl_physical_prompt_len plan + (sq_num_prompt_tokens s - compacted_len s)) \<and>
     (\<exists>kept. build_retained_context_indices (Some (pl_compression_record plan)) (int (sq_num_prompt_tokens s)) = Inr kept \<and>
        pl_retained_original_positions plan = map int (filter (\<lambda>p. p < compacted_len s) kept) \<and>
        pl_source_slots plan = map (\<lambda>p. sq_block_table s ! (p div bs) * bs + p mod bs) (filter (\<lambda>p. p < compacted_len s) kept)) \<and>
     pl_destination_slots plan = map (\<lambda>p. sq_block_table s ! (p div bs) * bs + p mod bs) [0..<pl_physical_prompt_len plan]"

lemma retained_sorted:
  assumes "build_retained_context_indices rd n = Inr kept"
  shows "sorted_wrt (<) kept" and "\<forall>p \<in> set kept. p < nat n"
    and "rd = Some r \<Longrightarrow> \<not> get_flag r ''physical_compaction''"
  using assms
  by (auto simp: build_retained_context_indices_def res_simps intro!: sorted_wrt_filter split: option.splits prod.splits if_splits)

lemma length_retained:
  assumes "sorted_wrt (<) ps" and "\<forall>p \<in> set ps. p < n"
  shows "length ps \<le> (n :: nat)"
proof -
  have "length ps = card (set ps)" using assms(1) by (simp add: strict_sorted_iff distinct_card)
  also have "\<dots> \<le> card {..<n}" using assms(2) by (intro card_mono) auto
  finally show ?thesis by simp
qed

lemma plan_of_ok:
  assumes bs: "0 < bs" and srt: "sorted_wrt (<) retained" and sub: "\<forall>p \<in> set retained. p < compacted_len s"
    and c: "1 \<le> compacted_len s" "compacted_len s \<le> sq_num_prompt_tokens s"
    and tab: "length (sq_block_table s) = ceil_div (sq_num_prompt_tokens s) bs"
    and dt: "kv_dtype \<noteq> []" and fl: "\<not> get_flag rd ''physical_compaction''"
  obtains plan where "plan_of bs s kv_dtype rd retained = Inr plan" and "pl_validate bs plan = Inr ()"
    and "pl_seq_id plan = sq_seq_id s" "pl_kv_dtype plan = kv_dtype" "pl_compression_record plan = rd"
      "pl_old_block_table plan = sq_block_table s" "pl_logical_prompt_len plan = sq_num_prompt_tokens s"
      "pl_compacted_logical_len plan = Some (compacted_len s)" "pl_physical_prompt_len plan = length retained"
      "pl_final_physical_prompt_len plan = Some (length retained + (sq_num_prompt_tokens s - compacted_len s))"
      "pl_retained_original_positions plan = map int retained"
      "pl_source_slots plan = map (\<lambda>p. sq_block_table s ! (p div bs) * bs + p mod bs) retained"
      "pl_destination_slots plan = map (\<lambda>p. sq_block_table s ! (p div bs) * bs + p mod bs) [0..<length retained]"
proof -
  let ?old = "sq_block_table s" and ?k = "length retained" and ?prompt = "sq_num_prompt_tokens s"
  let ?final = "?k + (?prompt - compacted_len s)"
  let ?n = "ceil_div ?final bs"
  have k: "?k \<le> compacted_len s" by (rule length_retained[OF srt sub])
  then have fin: "?final \<le> ?prompt" using c(2) by simp
  have n: "?n \<le> length ?old" unfolding tab by (rule ceil_div_mono[OF fin])
  have "?prompt \<le> length ?old * bs" using ceil_div_bounds(1)[OF bs, of ?prompt] tab by simp
  then have src: "slots_of ?old bs retained = Inr (map (\<lambda>i. ?old ! (i div bs) * bs + i mod bs) retained)"
    using sub c(2) by (intro slots_of_ok[OF bs]) fastforce
  have "?final \<le> ?n * bs" by (rule ceil_div_bounds(1)[OF bs])
  then have kn: "?k \<le> ?n * bs" by simp
  have "slots_of (take ?n ?old) bs [0..<?k] = Inr (map (\<lambda>i. take ?n ?old ! (i div bs) * bs + i mod bs) [0..<?k])"
    using kn n by (intro slots_of_ok[OF bs]) auto
  moreover have "map (\<lambda>i. take ?n ?old ! (i div bs) * bs + i mod bs) [0..<?k] = map (\<lambda>i. ?old ! (i div bs) * bs + i mod bs) [0..<?k]"
    using kn by (auto simp: less_mult_imp_div_less)
  ultimately have dst: "slots_of (take ?n ?old) bs [0..<?k] = Inr (map (\<lambda>i. ?old ! (i div bs) * bs + i mod bs) [0..<?k])"
    by simp
  define plan where "plan = \<lparr>pl_seq_id = sq_seq_id s, pl_logical_prompt_len = ?prompt, pl_physical_prompt_len = ?k,
       pl_old_block_table = ?old, pl_new_block_table = take ?n ?old, pl_released_block_ids = drop ?n ?old,
       pl_retained_original_positions = map int retained,
       pl_source_slots = map (\<lambda>i. ?old ! (i div bs) * bs + i mod bs) retained,
       pl_destination_slots = map (\<lambda>i. ?old ! (i div bs) * bs + i mod bs) [0..<?k],
       pl_kv_dtype = kv_dtype, pl_compression_record = rd,
       pl_compacted_logical_len = Some (compacted_len s), pl_final_physical_prompt_len = Some ?final\<rparr>"
  have F: "pl_effective_compacted plan = compacted_len s" "pl_effective_final plan = ?final"
    by (simp_all add: plan_def pl_effective_compacted_def pl_effective_final_def)
  have "sorted_unique (map int retained)" using srt by (simp add: sorted_unique_iff sorted_wrt_map)
  moreover have "last (map int retained) < int (compacted_len s)" if "retained \<noteq> []"
    using that sub by (simp add: last_map)
  ultimately have val: "pl_validate bs plan = Inr ()"
    using bs c n dst dt fl
    by (auto simp: pl_validate_def pl_validate_lengths_def pl_validate_retained_def pl_validate_block_tables_def
        pl_validate_destinations_def pl_validate_evidence_def F Let_def plan_def[THEN arg_cong, of pl_logical_prompt_len]
        plan_def[THEN arg_cong, of pl_physical_prompt_len] plan_def[THEN arg_cong, of pl_retained_original_positions]
        plan_def[THEN arg_cong, of pl_source_slots] plan_def[THEN arg_cong, of pl_destination_slots]
        plan_def[THEN arg_cong, of pl_new_block_table] plan_def[THEN arg_cong, of pl_old_block_table]
        plan_def[THEN arg_cong, of pl_released_block_ids] plan_def[THEN arg_cong, of pl_kv_dtype]
        plan_def[THEN arg_cong, of pl_compression_record])
  have "plan_of bs s kv_dtype rd retained = Inr plan"
    using val by (simp add: plan_of_def src dst Let_def plan_def)
  then show ?thesis by (rule that) (use val in \<open>simp_all add: plan_def\<close>)
qed

text \<open>When a plan exists.\<close>

definition compactable :: "manager \<Rightarrow> sequence \<Rightarrow> bool" where
  "compactable m s \<longleftrightarrow> sq_kv_layout s = None \<and> sq_num_tokens s = sq_num_prompt_tokens s \<and> sq_num_cached_tokens s = 0 \<and>
     sq_cpu_block_table s = [] \<and> length (sq_block_table s) = sq_num_blocks s \<and> distinct (sq_block_table s) \<and>
     private_pages m (sq_block_table s) \<and>
     (compacted_len s < sq_num_prompt_tokens s \<longrightarrow> sq_mm_prefix_cache_enabled s \<and> Some (compacted_len s) = sq_mm_prefix_boundary s) \<and>
     (\<exists>kept. build_retained_context_indices (sq_decision_record s) (int (sq_num_prompt_tokens s)) = Inr kept \<and>
        filter (\<lambda>p. p < compacted_len s) kept \<noteq> [])"

lemma boundary_bounds:
  assumes "sq_mm_prefix_boundary s = Some b"
  shows "0 < b" and "b < sq_num_prompt_tokens s"
  using assms by (auto simp: sq_mm_prefix_boundary_def Let_def split: if_splits)

lemma wp_build_plan:
  assumes h: "held rest (m, s)" and bs: "sq_block_size s = bm_block_size m" and dt: "kv_dtype \<noteq> []"
    and pl: "0 < sq_num_prompt_tokens s" and len: "sq_num_computed_tokens s \<le> sq_num_prompt_tokens s"
  shows "wp (bm_build_compaction_plan kv_dtype)
    (\<lambda>r t. t = (m, s) \<and> (case r of
        None \<Rightarrow> sq_decision_record s = None \<and> sq_image_token_count s = 0 \<and> sq_video_token_count s = 0
      | Some plan \<Rightarrow> compactable m s \<and> planned (bm_block_size m) s kv_dtype plan))
    (\<lambda>_ t. t = (m, s) \<and> (case sq_decision_record s of
        None \<Rightarrow> \<not> (sq_image_token_count s = 0 \<and> sq_video_token_count s = 0) | Some rd \<Rightarrow> \<not> compactable m s)) (m, s)"
proof (cases "sq_decision_record s")
  case None
  then show ?thesis using bs
    by (simp add: bm_build_compaction_plan_def cc_build_plan_def wp_thn wp_bnd wp_get_set wp_assert_block_size wp_chk wp_ret)
next
  case (Some rd)
  have bs0: "0 < bm_block_size m" using bm_invD(5)[OF h[unfolded held_def]] by simp
  note rules = bm_build_compaction_plan_def cc_build_plan_def wp_thn wp_bnd wp_get_set wp_assert_block_size wp_chk wp_ret
    wp_validate_table[OF h]
  show ?thesis
  proof (cases "compactable m s")
    case False
    then show ?thesis using bs Some
      by (auto simp: rules wp_lift_res compactable_def Let_def split: sum.splits)
  next
    case True
    then obtain kept where C: "sq_kv_layout s = None" "sq_num_tokens s = sq_num_prompt_tokens s" "sq_num_cached_tokens s = 0"
      "sq_cpu_block_table s = []" "length (sq_block_table s) = sq_num_blocks s" "distinct (sq_block_table s)"
      "private_pages m (sq_block_table s)"
      "compacted_len s < sq_num_prompt_tokens s \<longrightarrow> sq_mm_prefix_cache_enabled s \<and> Some (compacted_len s) = sq_mm_prefix_boundary s"
      and kept: "build_retained_context_indices (Some rd) (int (sq_num_prompt_tokens s)) = Inr kept"
      and ne: "filter (\<lambda>p. p < compacted_len s) kept \<noteq> []"
      unfolding compactable_def Some by blast
    note K = retained_sorted[OF kept]
    let ?ret = "filter (\<lambda>p. p < compacted_len s) kept"
    have c: "1 \<le> compacted_len s" "compacted_len s \<le> sq_num_prompt_tokens s"
      using pl len by (auto simp: compacted_len_def)
    have tab: "length (sq_block_table s) = ceil_div (sq_num_prompt_tokens s) (bm_block_size m)"
      using C bs by (simp add: sq_num_blocks_def)
    obtain plan where P: "plan_of (bm_block_size m) s kv_dtype rd ?ret = Inr plan" "pl_validate (bm_block_size m) plan = Inr ()"
      "pl_seq_id plan = sq_seq_id s" "pl_kv_dtype plan = kv_dtype" "pl_compression_record plan = rd"
      "pl_old_block_table plan = sq_block_table s" "pl_logical_prompt_len plan = sq_num_prompt_tokens s"
      "pl_compacted_logical_len plan = Some (compacted_len s)" "pl_physical_prompt_len plan = length ?ret"
      "pl_final_physical_prompt_len plan = Some (length ?ret + (sq_num_prompt_tokens s - compacted_len s))"
      "pl_retained_original_positions plan = map int ?ret"
      "pl_source_slots plan = map (\<lambda>p. sq_block_table s ! (p div bm_block_size m) * bm_block_size m + p mod bm_block_size m) ?ret"
      "pl_destination_slots plan = map (\<lambda>p. sq_block_table s ! (p div bm_block_size m) * bm_block_size m + p mod bm_block_size m) [0..<length ?ret]"
      by (rule plan_of_ok[OF bs0 sorted_wrt_filter[OF K(1), of "\<lambda>p. p < compacted_len s"] _ c tab dt K(3)[OF refl]]) auto
    have "planned (bm_block_size m) s kv_dtype plan"
      unfolding planned_def using P kept Some by auto
    then show ?thesis using bs Some C kept ne P(1) True
      by (simp add: rules wp_lift_res Let_def)
  qed
qed

section \<open>The commit\<close>

lemma refs_of_inv:
  assumes "bm_inv own m" and "bm_inv own t" and "pool_only m t" and "b < gp_capacity (bm_gpu m)"
  shows "gp_ref (bm_gpu t) b = gp_ref (bm_gpu m) b"
proof -
  have "gp_capacity (bm_gpu t) = gp_capacity (bm_gpu m)" "bm_cache t = bm_cache m"
    using pool_only_cache[OF assms(3)] by (auto simp: same_config_def)
  then show ?thesis using refs_okD(2)[OF bm_invD(1)[OF assms(1)], of b] refs_okD(2)[OF bm_invD(1)[OF assms(2)], of b] assms(4) by simp
qed

lemma wp_clear_all:
  "bm_inv own m \<Longrightarrow> \<forall>b \<in> set ids. b < gp_capacity (bm_gpu m) \<Longrightarrow>
   (\<And>t. bm_inv own t \<Longrightarrow> pool_only m t \<Longrightarrow> free_of t = free_of m \<Longrightarrow> Q () (t, s)) \<Longrightarrow>
   wp (each ids (\<lambda>b. on_mgr (on_gpu (gp_clear_hash b)))) Q E (m, s)"
proof (induction ids arbitrary: m)
  case Nil
  then show ?case by (simp add: wp_ret)
next
  case (Cons b ids)
  show ?case unfolding wp_each_Cons
  proof (rule wp_clear_owned[OF Cons.prems(1)])
    show "b < gp_capacity (bm_gpu m)" using Cons.prems(2) by simp
    fix p assume p: "bm_inv own (m\<lparr>bm_gpu := p\<rparr>)" "same_config m (m\<lparr>bm_gpu := p\<rparr>)" "gp_free_count p = gp_free_count (bm_gpu m)"
    have po: "pool_only m (m\<lparr>bm_gpu := p\<rparr>)" using p(2) by (auto simp: pool_only_def)
    have cap: "gp_capacity p = gp_capacity (bm_gpu m)" using p(2) by (simp add: same_config_def)
    show "wp (each ids (\<lambda>b. on_mgr (on_gpu (gp_clear_hash b)))) Q E (m\<lparr>bm_gpu := p\<rparr>, s)"
      by (rule Cons.IH[OF p(1)])
        (use Cons.prems(2) cap p(3) in \<open>auto intro!: Cons.prems(3) intro: pool_only_trans[OF po] simp: free_of_def\<close>)
  qed
qed

text \<open>Releasing private pages frees every one of them.\<close>

lemma wp_release_private:
  "bm_inv (\<lambda>b. own b + count_list ids b) m \<Longrightarrow> distinct ids \<Longrightarrow> \<forall>b \<in> set ids. gp_ref (bm_gpu m) b = 1 \<Longrightarrow>
   (\<And>t. bm_inv own t \<Longrightarrow> pool_only m t \<Longrightarrow> free_of t = free_of m + length ids \<Longrightarrow> Q () (t, s)) \<Longrightarrow>
   wp (each ids release_private) Q E (m, s)"
proof (induction ids arbitrary: m)
  case Nil
  then show ?case by (simp add: wp_ret)
next
  case (Cons b ids)
  let ?own = "\<lambda>j. own j + count_list (b # ids) j"
  have pos: "0 < ?own b" by simp
  have cap: "j < gp_capacity (bm_gpu m)" if "j \<in> set (b # ids)" for j
    using owned_used[OF bm_invD(1)[OF Cons.prems(1)], of j] that count_list_pos_iff[of "b # ids" j] by simp
  have upd: "?own(b := ?own b - 1) = (\<lambda>j. own j + count_list ids j)" by (auto simp: fun_eq_iff)
  show ?case unfolding wp_each_Cons release_private_def[of b] wp_bnd wp_gp_block_at wp_thn wp_chk
  proof (simp only: cap[of b] list.set_intros if_True, rule if_P[THEN iffD2])
    show "blk_ref (gp_blocks (bm_gpu m) ! b) = 1" using Cons.prems(3) by (simp add: gp_ref_def)
    show "wp (bm_release_page b) (\<lambda>_. wp (ret ()) (\<lambda>_. wp (each ids release_private) Q E) E) E (m, s)"
    proof (rule wp_release_page[OF Cons.prems(1) pos])
      fix r t assume t: "bm_inv (?own(b := ?own b - 1)) t" "pool_only m t"
        "free_of t = free_of m + (if gp_ref (bm_gpu m) b = 1 then 1 else 0)"
      have inv: "bm_inv (\<lambda>j. own j + count_list ids j) t" using t(1) unfolding upd .
      have refs: "\<forall>j \<in> set ids. gp_ref (bm_gpu t) j = 1"
      proof
        fix j assume j: "j \<in> set ids"
        then have "j \<noteq> b" using Cons.prems(2) by auto
        then show "gp_ref (bm_gpu t) j = 1"
          using refs_okD(2)[OF bm_invD(1)[OF Cons.prems(1)] cap, of j] refs_okD(2)[OF bm_invD(1)[OF inv], of j]
            cap[of j] pool_only_cache[OF t(2)] Cons.prems(3) j by (simp add: same_config_def)
      qed
      show "wp (ret ()) (\<lambda>_. wp (each ids release_private) Q E) E (t, s)"
        unfolding wp_ret
        by (rule Cons.IH[OF inv _ refs])
          (use Cons.prems(2,3) t(3) in \<open>auto intro!: Cons.prems(4) intro: pool_only_trans[OF t(2)]\<close>)
    qed
  qed
qed

text \<open>What the last step of the commit checks of the sequence.\<close>

definition publishable :: "nat \<Rightarrow> sequence \<Rightarrow> kv_plan \<Rightarrow> bool" where
  "publishable bs s plan \<longleftrightarrow> (if pl_effective_compacted plan = sq_num_prompt_tokens s
     then sq_num_tokens s = sq_num_prompt_tokens s \<and> length (pl_new_block_table plan) = ceil_div (pl_physical_prompt_len plan) bs
     else 0 < pl_effective_compacted plan \<and> pl_effective_compacted plan < sq_num_prompt_tokens s \<and>
       sq_num_computed_tokens s = pl_effective_compacted plan)"

definition committed :: "(nat \<Rightarrow> nat) \<Rightarrow> mseq \<Rightarrow> kv_plan \<Rightarrow> mseq \<Rightarrow> bool" where
  "committed rest st plan t \<longleftrightarrow> safe rest st t \<and> sq_block_table (snd t) = pl_new_block_table plan \<and>
     sq_kv_layout (snd t) = Some (compact_layout (snd st) plan) \<and>
     ly_validate (bm_block_size (fst t)) (sq_block_table (snd t)) False (compact_layout (snd st) plan) = Inr () \<and>
     sq_decision_record (snd t) = Some (compact_record plan) \<and>
     free_of (fst t) = free_of (fst st) + length (pl_released_block_ids plan)"

lemma compact_layout_fields [simp]:
  "ly_physical_kv_len (compact_layout s plan) = pl_physical_prompt_len plan"
  "ly_logical_context_len (compact_layout s plan) = pl_effective_compacted plan"
  by (simp_all add: compact_layout_def)

lemma preserving_install_kv [preserving]: "preserving (on_seq (sq_install_kv_layout ly))"
  by (rule preservingI)
    (auto simp: wp_on_seq sq_install_kv_layout_def wp_simps safe_def held_def split: sum.splits)

lemma preserving_publish_layout: "preserving (publish_layout plan ly)"
  unfolding publish_layout_def by (intro preserving) simp_all

lemma wp_publish_layout:
  assumes ok: "ly_validate (sq_block_size s) (sq_block_table s) False ly = Inr ()" and kv: "sq_kv_layout s = None"
    and ly: "ly = compact_layout s0 plan" and tab: "sq_block_table s = pl_new_block_table plan"
    and pub: "publishable (sq_block_size s) s plan"
    and goal: "\<And>u. sq_kv_layout u = Some ly \<Longrightarrow> sq_block_table u = sq_block_table s \<Longrightarrow> sq_cpu_block_table u = sq_cpu_block_table s \<Longrightarrow>
      sq_block_size u = sq_block_size s \<Longrightarrow> sq_decision_record u = sq_decision_record s \<Longrightarrow> Q () (t, u)"
  shows "wp (publish_layout plan ly) Q E (t, s)"
proof (cases "pl_effective_compacted plan = sq_num_prompt_tokens s")
  case True
  then show ?thesis using ok kv ly tab pub
    by (simp add: publish_layout_def wp_bnd wp_thn wp_get_set wp_on_seq sq_install_kv_layout_def wp_gets wp_chk wp_lift_res
        wp_upd publishable_def goal)
next
  case False
  then show ?thesis using ok kv ly tab pub
    by (simp add: publish_layout_def wp_bnd wp_thn wp_get_set wp_eta wp_on_seq sq_install_cached_prefix_layout_def wp_gets wp_chk wp_lift_res
        wp_upd publishable_def goal)
qed

lemma plan_tables:
  assumes "pl_validate bs plan = Inr ()"
  shows "pl_old_block_table plan = pl_new_block_table plan @ pl_released_block_ids plan"
    and "length (pl_new_block_table plan) = ceil_div (pl_effective_final plan) bs"
proof -
  show "pl_old_block_table plan = pl_new_block_table plan @ pl_released_block_ids plan"
    and "length (pl_new_block_table plan) = ceil_div (pl_effective_final plan) bs"
    using assms append_take_drop_id[of "ceil_div (pl_effective_final plan) bs" "pl_old_block_table plan"]
    by (auto simp: pl_validate_def pl_validate_block_tables_def res_simps Let_def split: if_splits)
qed

lemma wp_validate_old:
  "held rest (m, s) \<Longrightarrow> sq_block_table s = tab \<Longrightarrow> wp (on_mgr (on_gpu (gp_validate_owned tab))) Q E (m, s) =
    (if distinct tab then Q tab (m, s) else E RuntimeError (m, s))"
  using wp_validate_table by blast

lemma wp_commit:
  assumes h: "held rest (m, s)" and bs: "sq_block_size s = bm_block_size m"
  shows "wp (bm_commit_compaction plan) (\<lambda>_. committed rest (m, s) plan)
    (\<lambda>_ t. safe rest (m, s) t \<and> (publishable (bm_block_size m) s plan \<longrightarrow> t = (m, s) \<and>
       \<not> (pl_validate (bm_block_size m) plan = Inr () \<and> pl_seq_id plan = sq_seq_id s \<and> sq_kv_layout s = None \<and>
          sq_block_table s = pl_old_block_table plan \<and> distinct (sq_block_table s) \<and> private_pages m (sq_block_table s) \<and>
          opt_dict_eq (sq_decision_record s) (Some (pl_compression_record plan)) \<and>
          ly_validate (bm_block_size m) (pl_new_block_table plan) False (compact_layout s plan) = Inr ()))) (m, s)"
    (is "wp _ ?Q ?E _")
proof -
  note rules = bm_commit_compaction_def cc_commit_def wp_thn[of "chk e c" for e c] wp_thn[of "lift_res r" for r] wp_bnd[of get_mgr]
    wp_bnd[of get_seq] wp_thn[of bm_assert_block_size] wp_get_set wp_assert_block_size wp_chk wp_lift_res Let_def
  let ?ok = "pl_validate (bm_block_size m) plan = Inr () \<and> pl_seq_id plan = sq_seq_id s \<and> sq_kv_layout s = None \<and>
          sq_block_table s = pl_old_block_table plan \<and> distinct (sq_block_table s) \<and> private_pages m (sq_block_table s) \<and>
          opt_dict_eq (sq_decision_record s) (Some (pl_compression_record plan)) \<and>
          ly_validate (bm_block_size m) (pl_new_block_table plan) False (compact_layout s plan) = Inr ()"
  let ?set = "\<lambda>s. s\<lparr>sq_block_table := pl_new_block_table plan, sq_decision_record := Some (compact_record plan)\<rparr>"
  let ?tail = "thn (each (pl_new_block_table plan) (\<lambda>b. on_mgr (on_gpu (gp_clear_hash b))))
    (thn (each (pl_released_block_ids plan) release_private) (thn (set_seq ?set) (publish_layout plan (compact_layout s plan))))"
  show ?thesis
  proof (cases ?ok)
    case False
    then show ?thesis using bs safe_refl[OF h]
      by (auto simp: rules wp_thn[of "on_mgr g" for g] wp_validate_old[OF h] split: sum.splits)
  next
    case True
    note T = plan_tables[OF conjunct1[OF True]]
    let ?new = "pl_new_block_table plan" and ?rel = "pl_released_block_ids plan"
    have tab: "sq_block_table s = ?new @ ?rel" using True T(1) by simp
    have dis: "distinct ?rel" using True tab by simp
    have own: "held_by rest (sq_block_table s) = (\<lambda>b. held_by rest ?new b + count_list ?rel b)"
      by (simp add: tab held_by_def fun_eq_iff)
    have inv: "bm_inv (held_by rest (sq_block_table s)) m" by (rule heldD[OF h])
    have cap: "\<forall>b \<in> set (sq_block_table s). b < gp_capacity (bm_gpu m)"
    proof
      fix b assume "b \<in> set (sq_block_table s)"
      then show "b < gp_capacity (bm_gpu m)"
        using owned_used[OF bm_invD(1)[OF inv], of b] count_list_pos_iff[of "sq_block_table s" b] by (simp add: held_by_def)
    qed
    have "wp ?tail ?Q ?E (m, s)" unfolding wp_thn[of "each is f" for "is" f]
    proof (rule wp_clear_all[OF inv])
      show "\<forall>b \<in> set ?new. b < gp_capacity (bm_gpu m)" using cap tab by auto
      fix t assume t: "bm_inv (held_by rest (sq_block_table s)) t" "pool_only m t" "free_of t = free_of m"
      have priv: "\<forall>b \<in> set ?rel. gp_ref (bm_gpu t) b = 1"
      proof
        fix b assume "b \<in> set ?rel"
        then have b: "b \<in> set (sq_block_table s)" using tab by auto
        then show "gp_ref (bm_gpu t) b = 1"
          using refs_of_inv[OF inv t(1,2) cap[THEN bspec, OF b]] True by (simp add: private_pages_def list_all_iff)
      qed
      show "wp (each ?rel release_private) (\<lambda>_. wp (thn (set_seq ?set) (publish_layout plan (compact_layout s plan))) ?Q ?E) ?E (t, s)"
      proof (rule wp_release_private[OF t(1)[unfolded own] dis priv])
        fix u assume u: "bm_inv (held_by rest ?new) u" "pool_only t u" "free_of u = free_of t + length ?rel"
        have cfg: "same_config m u" using pool_only_cache[OF t(2)] pool_only_cache[OF u(2)] same_config_trans by blast
        have sf: "safe rest (m, s) (u, ?set s)" using u(1) cfg by (simp add: safe_def held_def)
        have hu: "held rest (u, ?set s)" by (rule safe_held[OF sf])
        show "wp (thn (set_seq ?set) (publish_layout plan (compact_layout s plan))) ?Q ?E (u, s)"
        proof (cases "publishable (bm_block_size m) s plan")
          case True': True
          have bsu: "bm_block_size u = bm_block_size m" using cfg by (simp add: same_config_def)
          show ?thesis unfolding wp_thn wp_get_set
            by (rule wp_publish_layout[OF _ _ refl])
              (use True True' bs u t cfg bsu in \<open>auto simp: publishable_def committed_def safe_def held_def\<close>)
        next
          case False
          have "committed rest (m, s) plan x" if "publish_layout plan (compact_layout s plan) (u, ?set s) = (Inr (), x)" for x
          proof -
            have kv: "sq_kv_layout (?set s) = None" using True by simp
            have "publishable (sq_block_size (?set s)) (?set s) plan" using that True
              by (auto simp: publish_layout_def publishable_def bnd_def thn_def get_seq_def gets_def on_seq_def zoom_def set_seq_def upd_def
                  sq_install_kv_layout_def sq_install_cached_prefix_layout_def chk_def ret_def throw_def lift_res_def
                  split: if_splits prod.splits sum.splits)
            then show ?thesis using False bs by (simp add: publishable_def cong: if_cong)
          qed
          then show ?thesis unfolding wp_thn wp_get_set
            using preservingD[OF preserving_publish_layout hu, of plan "compact_layout s plan"] safe_trans[OF sf] False
            by (auto simp: wp_def split: prod.splits sum.splits)
        qed
      qed
    qed
    moreover have "distinct (pl_old_block_table plan)" "private_pages m (pl_old_block_table plan)" using True by auto
    ultimately show ?thesis using True bs
      by (simp add: rules wp_thn[of "on_mgr g" for g] wp_validate_old[OF h])
  qed
qed

section \<open>Planning and committing together\<close>

lemma get_flag_compact: "get_flag (compact_record plan) ''physical_compaction''"
  by (simp add: compact_record_def get_flag_def dict_get_update)

lemma planned_layout:
  assumes p: "planned bs s kv_dtype plan" and bs: "0 < bs"
    and c: "1 \<le> compacted_len s" "compacted_len s \<le> sq_num_prompt_tokens s"
    and ne: "pl_physical_prompt_len plan \<noteq> 0"
  shows "ly_validate bs (pl_new_block_table plan) False (compact_layout s plan) = Inr ()"
    and "pl_physical_prompt_len plan \<le> compacted_len s"
    and "length (pl_new_block_table plan) =
      ceil_div (pl_physical_prompt_len plan + (sq_num_prompt_tokens s - compacted_len s)) bs"
proof -
  obtain kept where val: "pl_validate bs plan = Inr ()"
    and kept: "build_retained_context_indices (Some (pl_compression_record plan)) (int (sq_num_prompt_tokens s)) = Inr kept"
    and ret: "pl_retained_original_positions plan = map int (filter (\<lambda>p. p < compacted_len s) kept)"
    and eff: "pl_effective_compacted plan = compacted_len s"
      "pl_effective_final plan = pl_physical_prompt_len plan + (sq_num_prompt_tokens s - compacted_len s)"
    using p by (auto simp: planned_def pl_effective_compacted_def pl_effective_final_def)
  have V: "pl_physical_prompt_len plan = length (pl_retained_original_positions plan)" "pl_kv_dtype plan \<noteq> []"
    using val by (auto simp: pl_validate_def pl_validate_lengths_def pl_validate_evidence_def res_simps)
  have len: "pl_physical_prompt_len plan = length (filter (\<lambda>p. p < compacted_len s) kept)" using V(1) ret by simp
  show le: "pl_physical_prompt_len plan \<le> compacted_len s"
    unfolding len by (rule length_retained[OF sorted_wrt_filter[OF retained_sorted(1)[OF kept]]]) auto
  show tab: "length (pl_new_block_table plan) =
      ceil_div (pl_physical_prompt_len plan + (sq_num_prompt_tokens s - compacted_len s)) bs"
    using plan_tables(2)[OF val] by (simp add: eff)
  have srt: "sorted_wrt (<) (pl_retained_original_positions plan)"
    unfolding ret sorted_wrt_map using sorted_wrt_filter[OF retained_sorted(1)[OF kept]] by simp
  have one: "Suc 0 \<le> compacted_len s" "Suc 0 \<le> pl_physical_prompt_len plan" using c ne by simp_all
  have "layout_wf (compact_layout s plan)"
    using c(2) le srt V get_flag_compact[of plan] ret
    by (auto simp: one[unfolded len] one layout_wf_def compact_layout_def KV_LAYOUT_SCHEMA_VERSION_def KV_LAYOUT_VISUAL_COMPACT_def
        ly_effective_compacted_def eff)
  moreover have "table_fits bs (pl_new_block_table plan) False (compact_layout s plan)"
    using c tab ceil_div_mono[of "pl_physical_prompt_len plan" "pl_physical_prompt_len plan + (sq_num_prompt_tokens s - compacted_len s)" bs]
    by (cases "compacted_len s = sq_num_prompt_tokens s")
      (auto simp: table_fits_def compact_layout_def ly_final_physical_len_def ly_effective_compacted_def eff)
  ultimately show "ly_validate bs (pl_new_block_table plan) False (compact_layout s plan) = Inr ()"
    using bs by (simp add: ly_validate_ok)
qed

text \<open>A plan that was built can be committed in the same state.\<close>

lemma wp_commit_planned:
  assumes h: "held rest (m, s)" and bs: "sq_block_size s = bm_block_size m"
    and pl: "0 < sq_num_prompt_tokens s" and len: "sq_num_computed_tokens s \<le> sq_num_prompt_tokens s"
    and cmp: "compactable m s" and p: "planned (bm_block_size m) s kv_dtype plan"
  shows "wp (bm_commit_compaction plan) (\<lambda>_. committed rest (m, s) plan) (\<lambda>_ _. False) (m, s)"
proof -
  have bs0: "0 < bm_block_size m" using bm_invD(5)[OF heldD[OF h]] by simp
  have c: "1 \<le> compacted_len s" "compacted_len s \<le> sq_num_prompt_tokens s"
    using pl len by (auto simp: compacted_len_def)
  have P: "pl_validate (bm_block_size m) plan = Inr ()" "pl_seq_id plan = sq_seq_id s"
    "sq_decision_record s = Some (pl_compression_record plan)" "pl_old_block_table plan = sq_block_table s"
    "pl_effective_compacted plan = compacted_len s"
    using p by (simp_all add: planned_def pl_effective_compacted_def)
  obtain kept where kept: "build_retained_context_indices (Some (pl_compression_record plan)) (int (sq_num_prompt_tokens s)) = Inr kept"
    "pl_retained_original_positions plan = map int (filter (\<lambda>p. p < compacted_len s) kept)"
    using p by (auto simp: planned_def)
  have ne: "pl_physical_prompt_len plan \<noteq> 0"
    using cmp kept P(1,3) by (auto simp: compactable_def pl_validate_def pl_validate_lengths_def res_simps)
  note L = planned_layout[OF p bs0 c ne]
  have "sq_num_computed_tokens s = compacted_len s" if "compacted_len s \<noteq> sq_num_prompt_tokens s"
    using that by (auto simp: compacted_len_def split: if_splits)
  then have "publishable (bm_block_size m) s plan"
    using cmp L(3) c P(5) by (auto simp: publishable_def compactable_def)
  then show ?thesis
    using P L(1) cmp by (intro wp_mono[OF wp_commit[OF h bs]]) (auto simp: compactable_def)
qed

lemma preserving_commit [preserving]: "preserving (bm_commit_compaction plan)"
proof (rule preservingI)
  fix rest m s assume h: "held rest (m, s)"
  show "wp (bm_commit_compaction plan) (\<lambda>_. safe rest (m, s)) (\<lambda>_. safe rest (m, s)) (m, s)"
  proof (cases "sq_block_size s = bm_block_size m")
    case True
    show ?thesis by (rule wp_mono[OF wp_commit[OF h True]]) (auto simp: committed_def)
  next
    case False
    then show ?thesis using safe_refl[OF h] by (simp add: bm_commit_compaction_def wp_thn wp_assert_block_size)
  qed
qed

lemma preserving_build_plan [preserving]: "preserving (bm_build_compaction_plan kv_dtype)"
  unfolding bm_build_compaction_plan_def cc_build_plan_def Let_def by (intro preserving)

end
