(* ===== verification/Block_Example.thy ===== *)
theory Block_Example imports Block_Dense Block_Swap begin

text \<open>
  The state a new block manager starts in, and a small concrete run on which the properties are
  instantiated: a manager of four pages of four tokens and the example prompt of six tokens.
\<close>

section \<open>The initial state\<close>

lemma bm_init_inv:
  assumes "bm_init n b c ep bl = Inr m"
  shows "bm_inv (\<lambda>_. 0) m" and "cpu_inv (bm_cpu m)" and "cp_used (bm_cpu m) = {}"
    and "bm_block_size m = nat b" and "bm_cache m = []" and "gp_capacity (bm_gpu m) = nat n"
proof -
  obtain gpu cpu where I: "0 < b" "gpu_init n bl = Inr gpu" "cpu_init c = Inr cpu"
    and m: "m = \<lparr>bm_block_size = nat b, bm_enable_prefix = ep, bm_block_level = bl, bm_gpu = gpu, bm_cpu = cpu, bm_cache = [],
          bm_cache_max = nat n, bm_cache_blocks = 0, bm_counters = zero_counters\<rparr>"
    using assms by (auto simp: bm_init_def res_simps)
  have ref: "gp_ref gpu b = 0" if "b < gp_capacity gpu" for b
    using I(2) that by (auto simp: gpu_init_def gp_ref_def gp_capacity_def new_block_def split: if_splits)
  show "bm_inv (\<lambda>_. 0) m"
    using gpu_init_inv[OF I(2)] I(1) ref by (simp add: bm_inv_def refs_ok_def cache_ok_def m keys_def)
  show "cpu_inv (bm_cpu m)" "cp_used (bm_cpu m) = {}" "bm_block_size m = nat b" "bm_cache m = []"
    using cpu_init_inv[OF I(3)] I(3) by (auto simp: m cpu_init_def split: if_splits)
  show "gp_capacity (bm_gpu m) = nat n" using I(2) by (auto simp: m gpu_init_def gp_capacity_def split: if_splits)
qed

lemma bm_init_owned:
  assumes "bm_init n b c ep bl = Inr m" and "sq_block_table s = []" and "sq_cpu_block_table s = []"
  shows "owned (\<lambda>_. 0) {} (m, s)"
  using bm_init_inv[OF assms(1)] assms(2,3) by (simp add: owned_def held_def cpu_held_def)

section \<open>A concrete run\<close>

definition example_hash :: hash_fun where
  "example_hash = (\<lambda>bs. of_nat (length bs))"

definition example_manager :: manager where
  "example_manager = (case bm_init 4 4 2 True False of Inr m \<Rightarrow> m)"

definition example_running :: mseq where
  "example_running = snd (bm_allocate example_hash (example_manager, example_seq))"

lemma example_manager_init: "bm_init 4 4 2 True False = Inr example_manager"
  by (simp add: example_manager_def bm_init_def gpu_init_def cpu_init_def)

lemma example_tables: "sq_block_table (snd example_running) = [0, 1]"
  by code_simp

end
