(* ===== verification/Manager_System.thy ===== *)
theory Manager_System imports Block_Machine Compaction Block_Example begin

text \<open>
  The block manager with all its sequences as a state machine: a step is one public call on one of
  the sequences, also a call that raises, or a change of a sequence that leaves its page tables
  alone.  Its invariant accounts for every page reference; the properties of \<open>BlockManager\<close> follow
  here, stated on the calls themselves.
\<close>

section \<open>The machine\<close>

type_synonym system = "manager \<times> sequence list"

definition refs_of :: "sequence list \<Rightarrow> nat \<Rightarrow> nat" where
  "refs_of ss = (\<lambda>b. sum_list (map (\<lambda>s. count_list (sq_block_table s) b) ss))"

definition cpu_pages :: "sequence list \<Rightarrow> nat list" where
  "cpu_pages ss = concat (map sq_cpu_block_table ss)"

definition others :: "nat \<Rightarrow> sequence list \<Rightarrow> sequence list" where
  "others i ss = take i ss @ drop (Suc i) ss"

definition system_inv :: "system \<Rightarrow> bool" where
  "system_inv sys \<longleftrightarrow> (case sys of (m, ss) \<Rightarrow> bm_inv (refs_of ss) m \<and> cpu_inv (bm_cpu m) \<and>
     distinct (cpu_pages ss) \<and> cp_used (bm_cpu m) = set (cpu_pages ss))"

datatype bm_call =
    Probe bool | CachedTokens | CanAllocate | Allocate | Deallocate | StorePrefix | CanAppend | MayAppend | CopyOnWrite
  | Publish nat nat | CanSwapOut | SwapOut | CanSwapIn | SwapIn | EntryMetadata | PrefixRecord
  | BuildPlan string | Commit kv_plan

definition void :: "('a, mseq) op \<Rightarrow> (unit, mseq) op" where
  "void p = bnd p (\<lambda>_. ret ())"

fun bm_exec :: "hash_fun \<Rightarrow> bm_call \<Rightarrow> (unit, mseq) op" where
  "bm_exec xx (Probe w) = void (bm_probe xx w)"
| "bm_exec xx CachedTokens = void (bm_cached_prefix_tokens xx)"
| "bm_exec xx CanAllocate = void bm_can_allocate"
| "bm_exec xx Allocate = void (bm_allocate xx)"
| "bm_exec xx Deallocate = void bm_deallocate"
| "bm_exec xx StorePrefix = void bm_store_prefix"
| "bm_exec xx CanAppend = void bm_can_append"
| "bm_exec xx MayAppend = void bm_may_append"
| "bm_exec xx CopyOnWrite = void bm_copy_on_write"
| "bm_exec xx (Publish a b) = void (bm_publish xx a b)"
| "bm_exec xx CanSwapOut = void bm_can_swap_out"
| "bm_exec xx SwapOut = void bm_swap_out"
| "bm_exec xx CanSwapIn = void bm_can_swap_in"
| "bm_exec xx SwapIn = void bm_swap_in"
| "bm_exec xx EntryMetadata = void bm_entry_metadata"
| "bm_exec xx PrefixRecord = void bm_prefix_record"
| "bm_exec xx (BuildPlan dt) = void (bm_build_compaction_plan dt)"
| "bm_exec xx (Commit p) = void (bm_commit_compaction p)"

datatype system_label = Call nat bm_call | ClearCache | ResetMetrics | Submit sequence | Update nat sequence

text \<open>The owner of a sequence may change everything but its page tables (its tokens, its lifecycle, its
  records).  A prefix is stored only with the evidence that a validated layout carries.\<close>

inductive system_step :: "hash_fun \<Rightarrow> system \<Rightarrow> system_label \<Rightarrow> system \<Rightarrow> bool" for xx :: hash_fun where
  step_call: "i < length ss \<Longrightarrow> (c = StorePrefix \<longrightarrow> evidence (ss ! i)) \<Longrightarrow>
    snd (bm_exec xx c (m, ss ! i)) = (m', s') \<Longrightarrow> system_step xx (m, ss) (Call i c) (m', ss[i := s'])"
| step_clear: "snd (bm_clear_prefix_cache m) = m' \<Longrightarrow> system_step xx (m, ss) ClearCache (m', ss)"
| step_reset: "snd (bm_reset_metrics m) = m' \<Longrightarrow> system_step xx (m, ss) ResetMetrics (m', ss)"
| step_submit: "sq_block_table s = [] \<Longrightarrow> sq_cpu_block_table s = [] \<Longrightarrow> system_step xx (m, ss) (Submit s) (m, ss @ [s])"
| step_update: "i < length ss \<Longrightarrow> sq_block_table s' = sq_block_table (ss ! i) \<Longrightarrow>
    sq_cpu_block_table s' = sq_cpu_block_table (ss ! i) \<Longrightarrow> system_step xx (m, ss) (Update i s') (m, ss[i := s'])"

inductive_cases step_callE: "system_step xx sys (Call i c) sys'"

section \<open>Its invariant\<close>

lemma refs_of_split: "i < length ss \<Longrightarrow> refs_of ss = held_by (refs_of (others i ss)) (sq_block_table (ss ! i))"
  by (subst id_take_nth_drop[of i ss]) (simp_all add: refs_of_def others_def held_by_def fun_eq_iff)

lemma refs_of_update: "i < length ss \<Longrightarrow> refs_of (ss[i := s]) = held_by (refs_of (others i ss)) (sq_block_table s)"
  by (simp add: upd_conv_take_nth_drop refs_of_def others_def held_by_def fun_eq_iff)

lemma cpu_pages_split: "i < length ss \<Longrightarrow> mset (cpu_pages ss) = mset (sq_cpu_block_table (ss ! i)) + mset (cpu_pages (others i ss))"
  by (subst id_take_nth_drop[of i ss]) (simp_all add: cpu_pages_def others_def)

lemma cpu_pages_update: "i < length ss \<Longrightarrow> mset (cpu_pages (ss[i := s])) = mset (sq_cpu_block_table s) + mset (cpu_pages (others i ss))"
  by (simp add: upd_conv_take_nth_drop cpu_pages_def others_def)

lemma distinct_mset_append: "mset xs = mset ys + mset zs \<Longrightarrow> (distinct xs \<longleftrightarrow> distinct (ys @ zs)) \<and> set xs = set ys \<union> set zs"
  by (metis mset_append mset_eq_imp_distinct_iff mset_eq_setD set_append)

lemma system_owned:
  assumes "system_inv (m, ss)" and "i < length ss"
  shows "owned (refs_of (others i ss)) (set (cpu_pages (others i ss))) (m, ss ! i)" and "distinct (cpu_pages (others i ss))"
proof -
  note C = distinct_mset_append[OF cpu_pages_split[OF assms(2)]]
  show "owned (refs_of (others i ss)) (set (cpu_pages (others i ss))) (m, ss ! i)"
    using assms(1) refs_of_split[OF assms(2)] C by (auto simp: system_inv_def owned_def held_def cpu_held_def)
  show "distinct (cpu_pages (others i ss))" using assms(1) C by (simp add: system_inv_def)
qed

lemma owned_system:
  assumes "owned (refs_of (others i ss)) (set (cpu_pages (others i ss))) (m, s)" and "distinct (cpu_pages (others i ss))"
    and "i < length ss"
  shows "system_inv (m, ss[i := s])"
  using assms(1,2) refs_of_update[OF assms(3), of s] distinct_mset_append[OF cpu_pages_update[OF assms(3), of s]]
  by (auto simp: system_inv_def owned_def held_def cpu_held_def)

definition system_frame :: "system \<Rightarrow> nat \<times> bool \<times> bool \<times> nat \<times> nat \<times> bool \<times> nat" where
  "system_frame sys = (let m = fst sys in (bm_block_size m, bm_enable_prefix m, bm_block_level m, bm_cache_max m,
     gp_capacity (bm_gpu m), gp_retain (bm_gpu m), cp_capacity (bm_cpu m)))"

lemma same_shape_frame: "same_shape m t \<Longrightarrow> system_frame (t, ss') = system_frame (m, ss)"
  by (simp add: same_shape_def same_config_def system_frame_def Let_def)

lemma system_void: "system_op p \<Longrightarrow> system_op (void p)"
  unfolding system_op_def void_def wp_bnd wp_ret by blast

lemma exec_steady:
  assumes o: "owned rest crest st" and ev: "c = StorePrefix \<longrightarrow> evidence (snd st)"
  shows "wp (bm_exec xx c) (\<lambda>_. steady rest crest st) (\<lambda>_. steady rest crest st) st"
proof (cases "c = StorePrefix")
  case True
  obtain m s where st: "st = (m, s)" by (cases st)
  have h: "held rest (m, s)" and cp: "cpu_held crest (m, s)" using o st by (simp_all add: owned_def)
  have "wp bm_store_prefix (\<lambda>_. steady rest crest (m, s)) (\<lambda>_. steady rest crest (m, s)) (m, s)"
    by (rule wp_mono[OF wp_store_prefix[OF h]])
      (use ev True st o in \<open>auto simp: stored_def steady_refl intro: safe_steady[OF cp]\<close>)
  then show ?thesis using True by (simp add: st void_def wp_bnd wp_ret_eta)
next
  case False
  have "system_op (bm_exec xx c)"
    using False
    by (cases c) (simp_all add: system_void system_allocate system_deallocate system_swap preserving_system
        preserving_probe preserving_growth preserving_copy_on_write preserving_publish preserving_build_plan preserving_commit)
  then show ?thesis using o unfolding system_op_def by blast
qed

lemma wp_evict_each:
  "bm_inv own m \<Longrightarrow> distinct ks \<Longrightarrow> set ks \<subseteq> set (keys (bm_cache m)) \<Longrightarrow>
   (\<And>t. bm_inv own t \<Longrightarrow> same_config m t \<Longrightarrow> set (keys (bm_cache t)) = set (keys (bm_cache m)) - set ks \<Longrightarrow> Q () t) \<Longrightarrow>
   wp (each ks bm_evict) Q E m"
proof (induction ks arbitrary: m)
  case Nil
  then show ?case by (simp add: wp_ret)
next
  case (Cons k ks)
  obtain e where k: "map_of (bm_cache m) k = Some e"
    using Cons.prems(3) by (cases "map_of (bm_cache m) k") (auto simp: map_of_eq_None_iff keys_def)
  show ?case unfolding wp_each_Cons
  proof (rule wp_evict[OF Cons.prems(1) k])
    fix t assume t: "bm_inv own t" "same_config m t" "bm_cache t = od_pop k (bm_cache m)"
    have d: "distinct (keys (bm_cache m))" using bm_invD(4)[OF Cons.prems(1)] .
    have ks: "set (keys (bm_cache t)) = set (keys (bm_cache m)) - {k}"
      using d by (auto simp: t(3) keys_od_pop)
    show "wp (each ks bm_evict) Q E t"
      by (rule Cons.IH[OF t(1)])
        (use Cons.prems ks t(2) in \<open>auto intro!: Cons.prems(4) intro: same_config_trans[OF t(2)]\<close>)
  qed
qed

lemma wp_clear_cache:
  assumes "bm_inv own m"
  shows "wp bm_clear_prefix_cache (\<lambda>_ t. bm_inv own t \<and> same_config m t \<and> bm_cache t = []) (\<lambda>_ _. False) m"
  unfolding bm_clear_prefix_cache_def wp_bnd wp_gets wp_thn
  by (rule wp_evict_each[OF assms bm_invD(4)[OF assms] order_refl])
    (auto simp: wp_bump same_config_def keys_def)

lemma step_inv_frame:
  assumes "system_inv sys" and "system_step xx sys l sys'"
  shows "system_inv sys' \<and> system_frame sys' = system_frame sys"
  using assms(2,1)
proof (cases rule: system_step.cases)
  case (step_call i ss c m m' s')
  note O = system_owned[OF assms(1)[unfolded step_call(1)] step_call(4)]
  have "steady (refs_of (others i ss)) (set (cpu_pages (others i ss))) (m, ss ! i) (m', s')"
    using exec_steady[OF O(1), of c xx] step_call(5,6) by (simp add: wp_always)
  then show ?thesis using owned_system[OF _ O(2) step_call(4), of m' s'] step_call(2,3)
    by (auto simp: steady_def step_call(1) intro: same_shape_frame)
next
  case (step_clear m m' ss)
  have inv: "bm_inv (refs_of ss) m" using assms(1) step_clear(1) by (simp add: system_inv_def)
  have "wp bm_clear_prefix_cache (\<lambda>_ t. bm_inv (refs_of ss) t \<and> same_config m t) (\<lambda>_ t. bm_inv (refs_of ss) t \<and> same_config m t) m"
    by (rule wp_mono[OF wp_clear_cache[OF inv]]) simp_all
  then have C: "bm_inv (refs_of ss) m'" "same_config m m'" using step_clear(4) by (simp_all add: wp_always)
  have "system_inv (m', ss)" using C assms(1) unfolding step_clear(1) by (simp add: system_inv_def same_config_fields)
  then show ?thesis unfolding step_clear(1,3) using same_shape_frame[OF same_config_shape[OF C(2)]] by blast
next
  case (step_reset m m' ss)
  have m': "m' = m\<lparr>bm_counters := zero_counters\<rparr>" using step_reset(4) by (simp add: bm_reset_metrics_def bump_def upd_def)
  show ?thesis using assms(1) unfolding step_reset(1,3) m' by (simp add: system_inv_def system_frame_def Let_def)
next
  case (step_submit s m ss)
  then show ?thesis using assms(1)
    by (simp add: system_inv_def system_frame_def Let_def refs_of_def cpu_pages_def)
next
  case (step_update i ss s' m)
  note O = system_owned[OF assms(1)[unfolded step_update(1)] step_update(4)]
  have "owned (refs_of (others i ss)) (set (cpu_pages (others i ss))) (m, s')"
    using O(1) step_update(5,6) by (simp add: owned_def held_def cpu_held_def)
  then show ?thesis using owned_system[OF _ O(2) step_update(4)] step_update(1,3) by (simp add: system_frame_def)
qed

definition system_start :: "system \<Rightarrow> bool" where
  "system_start sys \<longleftrightarrow> snd sys = [] \<and> (\<exists>n b c ep bl. bm_init n b c ep bl = Inr (fst sys))"

lemma system_start_inv: "system_start sys \<Longrightarrow> system_inv sys"
  using bm_init_inv by (fastforce simp: system_start_def system_inv_def refs_of_def cpu_pages_def split: prod.splits)

interpretation manager_machine: constant_system system_start "system_step xx" system_inv system_frame
  using step_inv_frame by unfold_locales (auto intro: system_start_inv)

end
