(* ===== verification/Scheduler_Policy.thy ===== *)
theory Scheduler_Policy imports Block_Hash Py_Floats "HOL-Library.Multiset" begin

text \<open>
  \<open>prism_infer/engine/scheduler_policy.py\<close>: the decisions of the scheduler that do not touch its
  queues.  \<open>FCFSSchedulerPolicy\<close> is a record; the two policies derived from it extend the record, so
  that the inherited methods apply to them as they are.  \<open>scheduler_policy\<close> is the dynamic type of
  the policy object, with the dispatch of the overridden methods.
\<close>

section \<open>First come, first served\<close>

record fcfs_policy =
  po_max_model_len :: int
  po_max_num_batched_tokens :: int
  po_max_num_seqs :: int
  po_enable_chunked_prefill :: bool
  po_max_chunk_size :: int
  po_max_queue_size :: "int option"
  po_max_consecutive_prefill_batches :: int
  po_name :: string

definition fcfs_post_init :: "'a fcfs_policy_scheme \<Rightarrow> py_error + unit" where
  "fcfs_post_init p =
     need ValueError (0 < po_max_model_len p)
    (need ValueError (0 < po_max_num_batched_tokens p \<and> 0 < po_max_num_seqs p)
    (need ValueError (0 < po_max_chunk_size p)
    (need ValueError (case po_max_queue_size p of None \<Rightarrow> True | Some q \<Rightarrow> 0 < q)
    (need ValueError (0 < po_max_consecutive_prefill_batches p) (Inr ())))))"

record admission_decision =
  ad_accepted :: bool
  ad_reason :: "string option"

definition show_int :: "int \<Rightarrow> string" where
  "show_int i = (if i < 0 then CHR ''-'' # dec_digits (nat (- i)) else dec_digits (nat i))"

definition visual_spans_of :: "sequence \<Rightarrow> span list" where
  "visual_spans_of s =
    (let prompt = sq_prompt_token_ids s;
         positions = filter (\<lambda>i. Some (prompt ! i) = sq_image_token_id s \<or> Some (prompt ! i) = sq_video_token_id s) [0..<length prompt]
     in if positions = [] then [] else [(hd positions, last positions + 1)])"

fun admit_spans :: "'a fcfs_policy_scheme \<Rightarrow> span list \<Rightarrow> admission_decision" where
  "admit_spans p [] = \<lparr>ad_accepted = True, ad_reason = None\<rparr>"
| "admit_spans p ((a, b) # spans) =
    (if po_enable_chunked_prefill p \<and> po_max_chunk_size p < int (b - a)
     then \<lparr>ad_accepted = False, ad_reason = Some (''visual token span exceeds atomic prefill chunk: span_tokens='' @ show_int (int (b - a))
             @ '' max_chunk_size='' @ show_int (po_max_chunk_size p))\<rparr>
     else admit_spans p spans)"

definition fcfs_admit :: "'a fcfs_policy_scheme \<Rightarrow> sequence \<Rightarrow> nat \<Rightarrow> admission_decision" where
  "fcfs_admit p s queued =
    (if po_max_model_len p < int (sq_num_prompt_tokens s + sq_max_tokens s)
     then \<lparr>ad_accepted = False, ad_reason = Some (''request length exceeds max_model_len: prompt='' @ show_int (int (sq_num_prompt_tokens s))
             @ '' max_tokens='' @ show_int (int (sq_max_tokens s)) @ '' limit='' @ show_int (po_max_model_len p))\<rparr>
     else case po_max_queue_size p of
       Some q \<Rightarrow> if q \<le> int queued
         then \<lparr>ad_accepted = False, ad_reason = Some (''request queue is full: limit='' @ show_int q)\<rparr>
         else admit_spans p (visual_spans_of s)
     | None \<Rightarrow> admit_spans p (visual_spans_of s))"

text \<open>The loop over the visual spans with its early returns.\<close>

fun clip_spans :: "int \<Rightarrow> int \<Rightarrow> int \<Rightarrow> int \<Rightarrow> span list \<Rightarrow> int" where
  "clip_spans chunk available start stop [] = stop - start"
| "clip_spans chunk available start stop ((a, b) # spans) =
    (if int b \<le> start \<or> stop \<le> int a then clip_spans chunk available start stop spans
     else if start < int a \<and> stop < int b then int a - start
     else if int a \<le> start \<and> start < int b \<and> stop < int b
     then (if chunk < int b - start \<or> available < int b - start then 0 else clip_spans chunk available start (int b) spans)
     else clip_spans chunk available start stop spans)"

definition fcfs_prefill_token_count :: "'a fcfs_policy_scheme \<Rightarrow> sequence \<Rightarrow> int \<Rightarrow> int" where
  "fcfs_prefill_token_count p s available =
    (if available \<le> 0 then 0
     else let remaining = int (sq_remaining_prefill_tokens s) in
       if \<not> po_enable_chunked_prefill p then (if remaining \<le> available then remaining else 0)
       else let start = int (sq_effective_prefill_start s);
                stop = start + min (min remaining (po_max_chunk_size p)) available;
                stop' = (case sq_mm_prefix_boundary s of
                    Some b \<Rightarrow> if sq_mm_prefix_cache_enabled s \<and> sq_kv_layout s = None \<and> start < int b \<and> int b < stop then int b else stop
                  | None \<Rightarrow> stop)
            in clip_spans (po_max_chunk_size p) available start stop' (visual_spans_of s))"

definition fcfs_preemption_candidate :: "'a fcfs_policy_scheme \<Rightarrow> 'c list \<Rightarrow> 'c option" where
  "fcfs_preemption_candidate p candidates = (if candidates = [] then None else Some (last candidates))"

definition fcfs_should_schedule_prefill :: "'a fcfs_policy_scheme \<Rightarrow> bool \<Rightarrow> bool \<Rightarrow> int \<Rightarrow> bool" where
  "fcfs_should_schedule_prefill p has_prefill has_decode consecutive =
    (if \<not> has_prefill then False else if \<not> has_decode then True
     else consecutive < po_max_consecutive_prefill_batches p)"

definition fcfs_waiting_prefill_index :: "'a fcfs_policy_scheme \<Rightarrow> sequence list \<Rightarrow> nat option" where
  "fcfs_waiting_prefill_index p candidates = (if candidates \<noteq> [] then Some 0 else None)"

definition fcfs_is_heavy_prefill :: "'a fcfs_policy_scheme \<Rightarrow> int \<Rightarrow> bool" where
  "fcfs_is_heavy_prefill p vision_patches = False"

section \<open>Protecting decoding from heavy prefills\<close>

record vision_policy = fcfs_policy +
  vp_heavy_threshold :: int
  vp_min_decode_batches :: int
  vp_max_light_bypasses :: int

definition vision_post_init :: "'a vision_policy_scheme \<Rightarrow> py_error + unit" where
  "vision_post_init p =
     bind_res (fcfs_post_init p) (\<lambda>_.
     need ValueError (0 < vp_heavy_threshold p)
    (need ValueError (0 < vp_min_decode_batches p)
    (need ValueError (0 < vp_max_light_bypasses p) (Inr ()))))"

definition vision_is_heavy_prefill :: "'a vision_policy_scheme \<Rightarrow> int \<Rightarrow> bool" where
  "vision_is_heavy_prefill p vision_patches \<longleftrightarrow> vp_heavy_threshold p \<le> vision_patches"

fun first_light :: "'a vision_policy_scheme \<Rightarrow> nat \<Rightarrow> sequence list \<Rightarrow> py_error + nat option" where
  "first_light p i [] = Inr None"
| "first_light p i (s # candidates) =
     bind_res (sq_prefill_vision_patch_count s) (\<lambda>patches.
     if \<not> vision_is_heavy_prefill p (int patches) then Inr (Some i) else first_light p (Suc i) candidates)"

definition vision_waiting_prefill_index ::
    "'a vision_policy_scheme \<Rightarrow> sequence list \<Rightarrow> bool \<Rightarrow> int \<Rightarrow> int \<Rightarrow> py_error + nat option" where
  "vision_waiting_prefill_index p candidates has_decode decode_batches bypasses =
    (case candidates of [] \<Rightarrow> Inr None
     | oldest # younger \<Rightarrow>
       if \<not> has_decode \<or> vp_min_decode_batches p \<le> decode_batches \<or> vp_max_light_bypasses p \<le> bypasses then Inr (Some 0)
       else bind_res (sq_prefill_vision_patch_count oldest) (\<lambda>patches.
         if \<not> vision_is_heavy_prefill p (int patches) then Inr (Some 0) else first_light p 1 younger))"

section \<open>Deadlines and cost tiers\<close>

record slo_policy = fcfs_policy +
  so_heavy_threshold :: int
  so_reserve_ms :: "rat \<times> rat \<times> rat"

definition slo_post_init :: "'a slo_policy_scheme \<Rightarrow> py_error + unit" where
  "slo_post_init p =
     bind_res (fcfs_post_init p) (\<lambda>_.
     need ValueError (0 < so_heavy_threshold p)
    (case so_reserve_ms p of (a, b, c) \<Rightarrow> need ValueError (0 < a \<and> 0 < b \<and> 0 < c) (Inr ())))"

text \<open>\<open>int(x * 1_000_000)\<close> on a float: rounded product, then truncated.\<close>

definition trunc :: "rat \<Rightarrow> int" where
  "trunc x = (if 0 \<le> x then \<lfloor>x\<rfloor> else \<lceil>x\<rceil>)"

definition ms_to_ns :: "rat \<Rightarrow> int" where
  "ms_to_ns ms = trunc (fl (ms * 1000000))"

definition ttft_deadline_ns :: "sequence \<Rightarrow> int option" where
  "ttft_deadline_ns s = (case (sq_submitted_ns s, sq_ttft_slo_ms s) of
      (Some t, Some ms) \<Rightarrow> Some (int t + ms_to_ns ms) | _ \<Rightarrow> None)"

definition prefill_cost_tier :: "'a slo_policy_scheme \<Rightarrow> sequence \<Rightarrow> py_error + nat" where
  "prefill_cost_tier p s = bind_res (sq_prefill_vision_patch_count s) (\<lambda>patches.
     if patches = 0 \<and> sq_remaining_prefill_tokens s \<le> 256 then Inr 0
     else if int patches < so_heavy_threshold p then Inr 1 else Inr 2)"

definition prefill_reserve_ns :: "'a slo_policy_scheme \<Rightarrow> sequence \<Rightarrow> py_error + int" where
  "prefill_reserve_ns p s = bind_res (prefill_cost_tier p s) (\<lambda>tier.
     case so_reserve_ms p of (a, b, c) \<Rightarrow> Inr (ms_to_ns (if tier = 0 then a else if tier = 1 then b else c)))"

definition can_co_batch :: "'a slo_policy_scheme \<Rightarrow> sequence \<Rightarrow> sequence \<Rightarrow> py_error + bool" where
  "can_co_batch p anchor candidate = bind_res (prefill_cost_tier p anchor) (\<lambda>a.
     bind_res (prefill_cost_tier p candidate) (\<lambda>c. Inr ((a = 0) = (c = 0))))"

text \<open>The sort key is a Python tuple: compared lexicographically.\<close>

datatype deadline_key = Deadline_Key (dk_deadline: int) (dk_submitted: int) (dk_index: nat)

instantiation deadline_key :: linorder
begin

definition less_eq_deadline_key :: "deadline_key \<Rightarrow> deadline_key \<Rightarrow> bool" where
  "x \<le> y \<longleftrightarrow> dk_deadline x < dk_deadline y \<or> dk_deadline x = dk_deadline y \<and>
     (dk_submitted x < dk_submitted y \<or> dk_submitted x = dk_submitted y \<and> dk_index x \<le> dk_index y)"

definition less_deadline_key :: "deadline_key \<Rightarrow> deadline_key \<Rightarrow> bool" where
  "(x :: deadline_key) < y \<longleftrightarrow> x \<le> y \<and> \<not> y \<le> x"

instance
  by standard (auto simp: less_eq_deadline_key_def less_deadline_key_def deadline_key.expand)

end

definition NO_DEADLINE :: int where
  "NO_DEADLINE = 2 ^ 63 - 1"

definition slo_priority :: "'a slo_policy_scheme \<Rightarrow> sequence list \<Rightarrow> nat \<Rightarrow> py_error + deadline_key" where
  "slo_priority p candidates i =
    (let s = candidates ! i; submitted = (case sq_submitted_ns s of Some t \<Rightarrow> int t | None \<Rightarrow> NO_DEADLINE) in
     case ttft_deadline_ns s of None \<Rightarrow> Inr (Deadline_Key NO_DEADLINE submitted i)
     | Some d \<Rightarrow> bind_res (prefill_reserve_ns p s) (\<lambda>reserve. Inr (Deadline_Key (d - reserve) submitted i)))"

fun first_min :: "('a :: linorder) list \<Rightarrow> nat" where
  "first_min (x # y # xs) = (let j = first_min (y # xs) in if x \<le> (y # xs) ! j then 0 else Suc j)"
| "first_min _ = 0"

definition slo_waiting_prefill_index :: "'a slo_policy_scheme \<Rightarrow> sequence list \<Rightarrow> py_error + nat option" where
  "slo_waiting_prefill_index p candidates = (if candidates = [] then Inr None
     else bind_res (map_res (slo_priority p candidates) [0..<length candidates]) (\<lambda>keys. Inr (Some (first_min keys))))"

definition slo_is_heavy_prefill :: "'a slo_policy_scheme \<Rightarrow> int \<Rightarrow> bool" where
  "slo_is_heavy_prefill p vision_patches \<longleftrightarrow> so_heavy_threshold p \<le> vision_patches"

section \<open>The policy object\<close>

datatype scheduler_policy = FCFS_Policy fcfs_policy | Vision_Policy vision_policy | SLO_Policy slo_policy

fun policy_base :: "scheduler_policy \<Rightarrow> fcfs_policy" where
  "policy_base (FCFS_Policy p) = p"
| "policy_base (Vision_Policy p) = fcfs_policy.truncate p"
| "policy_base (SLO_Policy p) = fcfs_policy.truncate p"

fun policy_valid :: "scheduler_policy \<Rightarrow> py_error + unit" where
  "policy_valid (FCFS_Policy p) = fcfs_post_init p"
| "policy_valid (Vision_Policy p) = vision_post_init p"
| "policy_valid (SLO_Policy p) = slo_post_init p"

fun policy_is_heavy :: "scheduler_policy \<Rightarrow> int \<Rightarrow> bool" where
  "policy_is_heavy (FCFS_Policy p) n = fcfs_is_heavy_prefill p n"
| "policy_is_heavy (Vision_Policy p) n = vision_is_heavy_prefill p n"
| "policy_is_heavy (SLO_Policy p) n = slo_is_heavy_prefill p n"

fun policy_waiting_index :: "scheduler_policy \<Rightarrow> sequence list \<Rightarrow> bool \<Rightarrow> int \<Rightarrow> int \<Rightarrow> py_error + nat option" where
  "policy_waiting_index (FCFS_Policy p) cs has_decode decode_batches bypasses = Inr (fcfs_waiting_prefill_index p cs)"
| "policy_waiting_index (Vision_Policy p) cs has_decode decode_batches bypasses =
     vision_waiting_prefill_index p cs has_decode decode_batches bypasses"
| "policy_waiting_index (SLO_Policy p) cs has_decode decode_batches bypasses = slo_waiting_prefill_index p cs"

section \<open>Selection\<close>

lemma first_min_bound: "xs \<noteq> [] \<Longrightarrow> first_min xs < length xs"
  by (induction xs rule: first_min.induct) (auto simp: Let_def)

lemma first_min_least: "i < length xs \<Longrightarrow> xs ! first_min xs \<le> xs ! i"
proof (induction xs arbitrary: i rule: first_min.induct)
  case (1 x y xs)
  show ?case
  proof (cases i)
    case 0
    then show ?thesis by (auto simp: Let_def)
  next
    case (Suc j)
    have "(y # xs) ! first_min (y # xs) \<le> (y # xs) ! j" using 1(1)[of j] 1(2) Suc by simp
    then show ?thesis using Suc by (auto simp: Let_def intro: order_trans)
  qed
qed simp_all

lemma first_min_first: "i < first_min xs \<Longrightarrow> xs ! first_min xs < xs ! i"
proof (induction xs arbitrary: i rule: first_min.induct)
  case (1 x y xs)
  have less: "(y # xs) ! first_min (y # xs) < x" using 1(2) by (auto simp: Let_def split: if_splits)
  then have m: "first_min (x # y # xs) = Suc (first_min (y # xs))" by (simp add: Let_def)
  show ?case
  proof (cases i)
    case 0
    then show ?thesis using less unfolding m by simp
  next
    case (Suc j)
    then show ?thesis using 1(1)[of j] 1(2) unfolding m by simp
  qed
qed simp_all

lemma first_light_ok:
  assumes "first_light p i cs = Inr (Some j)"
  shows "i \<le> j" and "j < i + length cs"
    and "\<exists>n. sq_prefill_vision_patch_count (cs ! (j - i)) = Inr n \<and> \<not> vision_is_heavy_prefill p (int n)"
    and "\<forall>k < j - i. \<exists>n. sq_prefill_vision_patch_count (cs ! k) = Inr n \<and> vision_is_heavy_prefill p (int n)"
proof -
  have "i \<le> j \<and> j < i + length cs \<and>
    (\<exists>n. sq_prefill_vision_patch_count (cs ! (j - i)) = Inr n \<and> \<not> vision_is_heavy_prefill p (int n)) \<and>
    (\<forall>k < j - i. \<exists>n. sq_prefill_vision_patch_count (cs ! k) = Inr n \<and> vision_is_heavy_prefill p (int n))"
    using assms
  proof (induction p i cs rule: first_light.induct)
    case (2 p i s cs)
    obtain n where n: "sq_prefill_vision_patch_count s = Inr n"
      and r: "(if \<not> vision_is_heavy_prefill p (int n) then Inr (Some i) else first_light p (Suc i) cs) = Inr (Some j)"
      using 2(2) by (auto simp: res_simps)
    show ?case
    proof (cases "vision_is_heavy_prefill p (int n)")
      case False
      then show ?thesis using n r by auto
    next
      case True
      have IH: "Suc i \<le> j \<and> j < Suc i + length cs \<and>
          (\<exists>n. sq_prefill_vision_patch_count (cs ! (j - Suc i)) = Inr n \<and> \<not> vision_is_heavy_prefill p (int n)) \<and>
          (\<forall>k < j - Suc i. \<exists>n. sq_prefill_vision_patch_count (cs ! k) = Inr n \<and> vision_is_heavy_prefill p (int n))"
        using 2(1) True r by simp
      then have "j - i = Suc (j - Suc i)" by auto
      then show ?thesis using IH n True by (auto simp: less_Suc_eq_0_disj)
    qed
  qed simp
  then show "i \<le> j" "j < i + length cs"
    "\<exists>n. sq_prefill_vision_patch_count (cs ! (j - i)) = Inr n \<and> \<not> vision_is_heavy_prefill p (int n)"
    "\<forall>k < j - i. \<exists>n. sq_prefill_vision_patch_count (cs ! k) = Inr n \<and> vision_is_heavy_prefill p (int n)" by blast+
qed

text \<open>What the scheduler relies on when a policy picks one of the waiting requests.\<close>

locale waiting_choice =
  fixes pick :: "'p \<Rightarrow> 'c list \<Rightarrow> py_error + nat option"
  assumes pick_bound: "pick p cs = Inr (Some i) \<Longrightarrow> i < length cs"
    and pick_none: "pick p [] = Inr None"
begin

lemma picked: "pick p cs = Inr (Some i) \<Longrightarrow> cs ! i \<in> set cs"
  using pick_bound nth_mem by blast

lemma picked_rest: "pick p cs = Inr (Some i) \<Longrightarrow> mset cs = add_mset (cs ! i) (mset (take i cs @ drop (Suc i) cs))"
  using pick_bound[of p cs i] by (subst id_take_nth_drop[of i cs]) simp_all

lemma picked_length: "pick p cs = Inr (Some i) \<Longrightarrow> length (take i cs @ drop (Suc i) cs) < length cs"
  using pick_bound by fastforce

lemma picked_distinct:
  "pick p cs = Inr (Some i) \<Longrightarrow> distinct cs \<Longrightarrow> distinct (take i cs @ drop (Suc i) cs) \<and> cs ! i \<notin> set (take i cs @ drop (Suc i) cs)"
  using pick_bound[of p cs i] id_take_nth_drop[of i cs] by (metis distinct.simps(2) distinct_append disjoint_insert(1)
      distinct_append Un_iff list.simps(15) set_append)

end

interpretation fcfs_choice: waiting_choice "\<lambda>p cs. Inr (fcfs_waiting_prefill_index p cs)"
  by unfold_locales (auto simp: fcfs_waiting_prefill_index_def split: if_splits)

interpretation slo_choice: waiting_choice slo_waiting_prefill_index
proof unfold_locales
  fix p :: "'a slo_policy_scheme" and cs i assume a: "slo_waiting_prefill_index p cs = Inr (Some i)"
  then obtain keys where "list_all2 (\<lambda>x y. slo_priority p cs x = Inr y) [0..<length cs] keys" "i = first_min keys" "cs \<noteq> []"
    by (auto simp: slo_waiting_prefill_index_def res_simps map_res_ok split: if_splits)
  then show "i < length cs" using first_min_bound[of keys] list_all2_lengthD by fastforce
qed (simp add: slo_waiting_prefill_index_def)

lemma vision_index_ok:
  assumes "vision_waiting_prefill_index p cs has_decode decode_batches bypasses = Inr (Some i)"
  shows "i < length cs"
    and "0 < i \<Longrightarrow> has_decode \<and> decode_batches < vp_min_decode_batches p \<and> bypasses < vp_max_light_bypasses p \<and>
      (\<exists>n. sq_prefill_vision_patch_count (cs ! i) = Inr n \<and> \<not> vision_is_heavy_prefill p (int n)) \<and>
      (\<forall>k < i. \<exists>n. sq_prefill_vision_patch_count (cs ! k) = Inr n \<and> vision_is_heavy_prefill p (int n))"
proof -
  obtain c cs' where cs: "cs = c # cs'" using assms by (cases cs) (auto simp: vision_waiting_prefill_index_def)
  have "i = 0 \<or> (has_decode \<and> decode_batches < vp_min_decode_batches p \<and> bypasses < vp_max_light_bypasses p \<and>
     (\<exists>n. sq_prefill_vision_patch_count c = Inr n \<and> vision_is_heavy_prefill p (int n)) \<and> first_light p 1 cs' = Inr (Some i))"
    using assms by (auto simp: vision_waiting_prefill_index_def cs res_simps not_le split: if_splits)
  then show "i < length cs" and "0 < i \<Longrightarrow> has_decode \<and> decode_batches < vp_min_decode_batches p \<and> bypasses < vp_max_light_bypasses p \<and>
      (\<exists>n. sq_prefill_vision_patch_count (cs ! i) = Inr n \<and> \<not> vision_is_heavy_prefill p (int n)) \<and>
      (\<forall>k < i. \<exists>n. sq_prefill_vision_patch_count (cs ! k) = Inr n \<and> vision_is_heavy_prefill p (int n))"
    using first_light_ok[of p 1 cs' i] by (auto simp: cs less_Suc_eq_0_disj nth_Cons split: nat.splits)
qed

interpretation vision_choice: waiting_choice "\<lambda>(p, h, d, b) cs. vision_waiting_prefill_index p cs h d b"
  by unfold_locales (auto simp: vision_index_ok vision_waiting_prefill_index_def)

interpretation policy_choice: waiting_choice "\<lambda>(p, h, d, b) cs. policy_waiting_index p cs h d b"
proof unfold_locales
  fix q cs i assume "(case q of (p, h, d, b) \<Rightarrow> \<lambda>cs. policy_waiting_index p cs h d b) cs = Inr (Some i)"
  then show "i < length cs"
    by (cases q; cases "fst q") (auto simp: fcfs_waiting_prefill_index_def dest: slo_choice.pick_bound vision_index_ok split: if_splits)
next
  fix q show "(case q of (p, h, d, b) \<Rightarrow> \<lambda>cs. policy_waiting_index p cs h d b) [] = Inr None"
    by (cases q; cases "fst q") (simp_all add: fcfs_choice.pick_none slo_choice.pick_none vision_waiting_prefill_index_def)
qed

section \<open>Chunks\<close>

lemma visual_spans_cases:
  obtains "visual_spans_of s = []"
  | a b where "visual_spans_of s = [(a, b)]" "a < b" "b \<le> sq_num_prompt_tokens s"
proof -
  let ?P = "\<lambda>i. Some (sq_prompt_token_ids s ! i) = sq_image_token_id s \<or> Some (sq_prompt_token_ids s ! i) = sq_video_token_id s"
  let ?ps = "filter ?P [0..<length (sq_prompt_token_ids s)]"
  show ?thesis
  proof (cases "?ps = []")
    case True
    then show ?thesis using that(1) by (simp add: visual_spans_of_def)
  next
    case False
    have srt: "sorted_wrt (<) ?ps" by (intro sorted_wrt_filter) simp
    have "hd ?ps \<le> last ?ps" using srt False by (cases ?ps) (auto simp: less_imp_le)
    moreover have "last ?ps \<in> set ?ps" using False by (rule last_in_set)
    then have "last ?ps < sq_num_prompt_tokens s" by (auto simp: sq_prompt_token_ids_def)
    ultimately show ?thesis using that(2)[of "hd ?ps" "last ?ps + 1"] False by (simp add: visual_spans_of_def Let_def)
  qed
qed

text \<open>The bounds that hold for every number of tokens a policy grants.\<close>

locale token_grant =
  fixes valid :: "'p \<Rightarrow> bool" and grant :: "'p \<Rightarrow> sequence \<Rightarrow> int \<Rightarrow> int"
  assumes grant_nonneg: "valid p \<Longrightarrow> 0 \<le> grant p s available"
    and grant_available: "valid p \<Longrightarrow> 0 < grant p s available \<Longrightarrow> grant p s available \<le> available"
    and grant_remaining: "valid p \<Longrightarrow> grant p s available \<le> int (sq_remaining_prefill_tokens s)"
begin

text \<open>A granted slice lies inside the prompt.\<close>

lemma grant_slice:
  assumes "valid p" and "0 < grant p s available"
  shows "sq_effective_prefill_start s + nat (grant p s available) \<le> sq_num_prompt_tokens s"
  using grant_remaining[OF assms(1), of s available] assms(2) by (simp add: sq_remaining_prefill_tokens_def)

lemma grant_progress:
  assumes "valid p" and "0 < grant p s available"
  shows "sq_num_prompt_tokens s - (sq_effective_prefill_start s + nat (grant p s available)) < sq_remaining_prefill_tokens s"
  using grant_slice[OF assms] assms(2) by (simp add: sq_remaining_prefill_tokens_def)

end

lemma boundary_stop:
  assumes "start < stop"
  shows "start < (case x of Some b \<Rightarrow> if c \<and> d \<and> start < int b \<and> int b < stop then int b else stop | None \<Rightarrow> stop)"
    and "(case x of Some b \<Rightarrow> if c \<and> d \<and> start < int b \<and> int b < stop then int b else stop | None \<Rightarrow> stop) \<le> stop"
  using assms by (auto split: option.splits)

lemma clip_one:
  assumes "start \<le> stop" and "stop \<le> start + chunk" and "stop \<le> start + available" and "stop \<le> limit" and "int b \<le> limit" and "a < b"
  shows "let c = clip_spans chunk available start stop [(a, b)] in
    0 \<le> c \<and> c \<le> chunk \<and> c \<le> available \<and> start + c \<le> limit \<and> (0 < c \<longrightarrow> \<not> (int a < start + c \<and> start + c < int b)) \<and>
    (start < stop \<and> int (b - a) \<le> chunk \<and> chunk \<le> available \<longrightarrow> 0 < c)"
  using assms by (auto simp: Let_def of_nat_diff)

lemma fcfs_count_cases:
  assumes "0 < po_max_chunk_size p"
  shows "0 \<le> fcfs_prefill_token_count p s available"
    and "0 < fcfs_prefill_token_count p s available \<Longrightarrow> fcfs_prefill_token_count p s available \<le> available"
    and "fcfs_prefill_token_count p s available \<le> int (sq_remaining_prefill_tokens s)"
    and "po_enable_chunked_prefill p \<Longrightarrow> fcfs_prefill_token_count p s available \<le> po_max_chunk_size p"
    and "po_enable_chunked_prefill p \<Longrightarrow> 0 < fcfs_prefill_token_count p s available \<Longrightarrow> (a, b) \<in> set (visual_spans_of s) \<Longrightarrow>
      \<not> (int a < int (sq_effective_prefill_start s) + fcfs_prefill_token_count p s available \<and>
         int (sq_effective_prefill_start s) + fcfs_prefill_token_count p s available < int b)"
    and "po_enable_chunked_prefill p \<Longrightarrow> \<forall>(a, b) \<in> set (visual_spans_of s). int (b - a) \<le> po_max_chunk_size p \<Longrightarrow>
      po_max_chunk_size p \<le> available \<Longrightarrow> 0 < sq_remaining_prefill_tokens s \<Longrightarrow> 0 < fcfs_prefill_token_count p s available"
proof -
  let ?c = "fcfs_prefill_token_count p s available" and ?S = "int (sq_effective_prefill_start s)"
  let ?R = "int (sq_remaining_prefill_tokens s)" and ?chunk = "po_max_chunk_size p"
  let ?ok = "0 \<le> ?c \<and> (0 < ?c \<longrightarrow> ?c \<le> available) \<and> ?c \<le> ?R \<and> (po_enable_chunked_prefill p \<longrightarrow> ?c \<le> ?chunk \<and>
    (0 < ?c \<longrightarrow> (\<forall>(a, b) \<in> set (visual_spans_of s). \<not> (int a < ?S + ?c \<and> ?S + ?c < int b))) \<and>
    ((\<forall>(a, b) \<in> set (visual_spans_of s). int (b - a) \<le> ?chunk) \<and> ?chunk \<le> available \<and> 0 < ?R \<longrightarrow> 0 < ?c))"
  have ?ok
  proof (cases "0 < available \<and> po_enable_chunked_prefill p")
    case False
    then show ?thesis using assms by (auto simp: fcfs_prefill_token_count_def Let_def)
  next
    case True
    let ?stop = "?S + min (min ?R ?chunk) available"
    let ?stop' = "case sq_mm_prefix_boundary s of
        Some b \<Rightarrow> if sq_mm_prefix_cache_enabled s \<and> sq_kv_layout s = None \<and> ?S < int b \<and> int b < ?stop then int b else ?stop
      | None \<Rightarrow> ?stop"
    define q where "q = ?stop'"
    have c: "?c = clip_spans ?chunk available ?S q (visual_spans_of s)"
      using True by (simp add: fcfs_prefill_token_count_def Let_def not_le q_def)
    have "?S \<le> q \<and> q \<le> ?stop \<and> (0 < ?R \<longrightarrow> ?S < q)"
      using True assms unfolding q_def by (auto split: option.splits)
    then have stop: "?S \<le> q" "q \<le> ?S + ?R" "q \<le> ?S + ?chunk" "q \<le> ?S + available" "0 < ?R \<Longrightarrow> ?S < q" by auto
    have limit: "int n \<le> ?S + ?R" if "n \<le> sq_num_prompt_tokens s" for n
      using that by (auto simp: sq_remaining_prefill_tokens_def)
    show ?thesis
    proof (cases rule: visual_spans_cases[of s])
      case 1
      then show ?thesis using stop by (auto simp: c)
    next
      case (2 a b)
      have "let c = clip_spans ?chunk available ?S q [(a, b)] in
        0 \<le> c \<and> c \<le> ?chunk \<and> c \<le> available \<and> ?S + c \<le> ?S + ?R \<and> (0 < c \<longrightarrow> \<not> (int a < ?S + c \<and> ?S + c < int b)) \<and>
        (?S < q \<and> int (b - a) \<le> ?chunk \<and> ?chunk \<le> available \<longrightarrow> 0 < c)"
        by (rule clip_one[OF stop(1,3,4,2) limit[OF 2(3)] 2(2)])
      then show ?thesis using stop(5) unfolding c 2(1) Let_def by auto
    qed
  qed
  then show "0 \<le> ?c" "0 < ?c \<Longrightarrow> ?c \<le> available" "?c \<le> ?R"
    "po_enable_chunked_prefill p \<Longrightarrow> ?c \<le> ?chunk"
    "po_enable_chunked_prefill p \<Longrightarrow> 0 < ?c \<Longrightarrow> (a, b) \<in> set (visual_spans_of s) \<Longrightarrow> \<not> (int a < ?S + ?c \<and> ?S + ?c < int b)"
    "po_enable_chunked_prefill p \<Longrightarrow> \<forall>(a, b) \<in> set (visual_spans_of s). int (b - a) \<le> ?chunk \<Longrightarrow>
      ?chunk \<le> available \<Longrightarrow> 0 < sq_remaining_prefill_tokens s \<Longrightarrow> 0 < ?c"
    by auto
qed

lemma policy_valid_chunk: "policy_valid p = Inr () \<Longrightarrow> 0 < po_max_chunk_size (policy_base p)"
  by (cases p) (auto simp: fcfs_post_init_def vision_post_init_def slo_post_init_def res_simps fcfs_policy.truncate_def)

interpretation policy_grant: token_grant "\<lambda>p. policy_valid p = Inr ()" "\<lambda>p. fcfs_prefill_token_count (policy_base p)"
  by unfold_locales (simp_all add: fcfs_count_cases policy_valid_chunk)

section \<open>Properties\<close>

text \<open>C30: whatever the policy, the number of prompt tokens granted to a request never exceeds the free budget of the
  batch, the rest of its prompt or (when chunking) the chunk size; a granted chunk does not stop inside the
  region of visual placeholders; and a request whose visual region fits a chunk makes progress
  whenever a whole chunk is available.  Without chunking the grant is all or nothing.\<close>

theorem prefill_chunk_atomic:
  fixes s :: sequence and available :: int
  assumes "policy_valid p = Inr ()"
  defines "grant \<equiv> fcfs_prefill_token_count (policy_base p) s available"
    and "start \<equiv> int (sq_effective_prefill_start s)" and "remaining \<equiv> int (sq_remaining_prefill_tokens s)"
  shows "0 \<le> grant \<and> grant \<le> max 0 available \<and> grant \<le> remaining \<and>
    (if po_enable_chunked_prefill (policy_base p)
     then grant \<le> po_max_chunk_size (policy_base p) \<and>
       (0 < grant \<longrightarrow> (\<forall>(a, b) \<in> set (visual_spans_of s). \<not> (int a < start + grant \<and> start + grant < int b))) \<and>
       (ad_accepted (admit_spans (policy_base p) (visual_spans_of s)) \<and> po_max_chunk_size (policy_base p) \<le> available \<and> 0 < remaining
          \<longrightarrow> 0 < grant)
     else grant = (if 0 < available \<and> remaining \<le> available then remaining else 0))"
proof -
  note C = fcfs_count_cases[OF policy_valid_chunk[OF assms(1)], of s available]
  have fits: "\<forall>(a, b) \<in> set (visual_spans_of s). int (b - a) \<le> po_max_chunk_size (policy_base p)"
    if "ad_accepted (admit_spans (policy_base p) (visual_spans_of s))" "po_enable_chunked_prefill (policy_base p)"
    using that by (cases rule: visual_spans_cases[of s]) (auto split: if_splits)
  have whole: "grant = (if 0 < available \<and> remaining \<le> available then remaining else 0)" if "\<not> po_enable_chunked_prefill (policy_base p)"
    using that by (simp add: grant_def remaining_def fcfs_prefill_token_count_def Let_def)
  have le: "grant \<le> max 0 available" using C(2) unfolding grant_def by linarith
  show ?thesis using C(1,3-5) C(6)[OF _ fits] whole le unfolding grant_def start_def remaining_def
    by (auto split: if_splits)
qed

definition example_policy :: fcfs_policy where
  "example_policy = \<lparr>po_max_model_len = 32, po_max_num_batched_tokens = 16, po_max_num_seqs = 4, po_enable_chunked_prefill = True,
     po_max_chunk_size = 3, po_max_queue_size = Some 8, po_max_consecutive_prefill_batches = 1, po_name = ''fcfs''\<rparr>"

theorem prefill_chunk_atomic_witness:
  "fcfs_prefill_token_count (policy_base (FCFS_Policy example_policy)) example_seq 16 = 1 \<and>
   visual_spans_of example_seq = [(1, 4)] \<and> policy_valid (FCFS_Policy example_policy) = Inr ()"
proof -
  have v: "policy_valid (FCFS_Policy example_policy) = Inr ()" by (simp add: example_policy_def fcfs_post_init_def)
  have "fcfs_prefill_token_count example_policy example_seq 16 = 1 \<and> visual_spans_of example_seq = [(1, 4)]" by code_simp
  then show ?thesis using prefill_chunk_atomic[OF v, of example_seq 16] v by auto
qed

text \<open>C34: the waiting request that a policy picks exists; first come, first served picks the oldest; the deadline policy
  picks the one with the least slack-adjusted deadline, earlier submission and position breaking ties; and
  the vision-aware policy overtakes the oldest request only while decoding needs protection and the
  bypass budget lasts, with the first light request after heavy ones only.\<close>

theorem waiting_request_choice:
  assumes "policy_waiting_index p cs has_decode decode_batches bypasses = Inr (Some i)"
  shows "i < length cs \<and> (case p of
      FCFS_Policy q \<Rightarrow> i = 0
    | SLO_Policy q \<Rightarrow> (\<forall>j < length cs. \<exists>ki kj. slo_priority q cs i = Inr ki \<and> slo_priority q cs j = Inr kj \<and> ki \<le> kj \<and> (j < i \<longrightarrow> ki < kj))
    | Vision_Policy q \<Rightarrow> 0 < i \<longrightarrow> has_decode \<and> decode_batches < vp_min_decode_batches q \<and> bypasses < vp_max_light_bypasses q \<and>
        (\<exists>n. sq_prefill_vision_patch_count (cs ! i) = Inr n \<and> int n < vp_heavy_threshold q) \<and>
        (\<forall>k < i. \<exists>n. sq_prefill_vision_patch_count (cs ! k) = Inr n \<and> vp_heavy_threshold q \<le> int n))"
proof (cases p)
  case (FCFS_Policy q)
  then show ?thesis using assms by (auto simp: fcfs_waiting_prefill_index_def split: if_splits)
next
  case (Vision_Policy q)
  then show ?thesis using vision_index_ok[of q cs has_decode decode_batches bypasses i] assms
    by (simp add: vision_is_heavy_prefill_def not_le)
next
  case (SLO_Policy q)
  then obtain keys where K: "list_all2 (\<lambda>x y. slo_priority q cs x = Inr y) [0..<length cs] keys" "i = first_min keys" "cs \<noteq> []"
    using assms by (auto simp: slo_waiting_prefill_index_def res_simps map_res_ok split: if_splits)
  have len: "length keys = length cs" using list_all2_lengthD[OF K(1)] by simp
  have i: "i < length cs" using slo_choice.pick_bound assms SLO_Policy by simp
  have key: "slo_priority q cs j = Inr (keys ! j)" if "j < length cs" for j
    using list_all2_nthD[OF K(1), of j] that by simp
  show ?thesis using SLO_Policy i key first_min_least[of _ keys] first_min_first[of _ keys] len K(2) by auto
qed

definition example_urgent :: "sequence list" where
  "example_urgent = [example_seq\<lparr>sq_submitted_ns := Some 5, sq_ttft_slo_ms := Some 900\<rparr>,
     example_seq\<lparr>sq_submitted_ns := Some 7, sq_ttft_slo_ms := Some 300\<rparr>]"

definition example_slo :: slo_policy where
  "example_slo = \<lparr>po_max_model_len = 32, po_max_num_batched_tokens = 16, po_max_num_seqs = 4, po_enable_chunked_prefill = True,
     po_max_chunk_size = 3, po_max_queue_size = Some 8, po_max_consecutive_prefill_batches = 1, po_name = ''slo_aware'',
     so_heavy_threshold = 4096, so_reserve_ms = (120, 250, 700)\<rparr>"

lemma ms_to_ns_nat: "n < 2 ^ 30 \<Longrightarrow> ms_to_ns (of_nat n) = int (n * 1000000)"
proof -
  assume "n < 2 ^ 30"
  then have "n * 1000000 < 2 ^ 53" by simp
  then have "fl (of_nat (n * 1000000)) = of_nat (n * 1000000)" by (rule fl_nat)
  then have "ms_to_ns (of_nat n) = trunc (of_nat (n * 1000000))" by (simp add: ms_to_ns_def)
  also have "\<dots> = int (n * 1000000)" unfolding trunc_def by (simp only: of_nat_0_le_iff if_True floor_of_nat)
  finally show ?thesis .
qed

lemma example_urgent_keys:
  "slo_priority example_slo example_urgent 0 = Inr (Deadline_Key 650000005 5 0)"
  "slo_priority example_slo example_urgent 1 = Inr (Deadline_Key 50000007 7 1)"
proof -
  have tier: "prefill_cost_tier example_slo (example_urgent ! 0) = Inr 1" "prefill_cost_tier example_slo (example_urgent ! 1) = Inr 1"
    by code_simp+
  have reserve: "prefill_reserve_ns example_slo (example_urgent ! 0) = Inr 250000000" "prefill_reserve_ns example_slo (example_urgent ! 1) = Inr 250000000"
    using ms_to_ns_nat[of 250] unfolding prefill_reserve_ns_def tier by (simp_all add: example_slo_def)
  show "slo_priority example_slo example_urgent 0 = Inr (Deadline_Key 650000005 5 0)"
    "slo_priority example_slo example_urgent 1 = Inr (Deadline_Key 50000007 7 1)"
    using ms_to_ns_nat[of 900] ms_to_ns_nat[of 300] reserve
    by (simp_all add: slo_priority_def ttft_deadline_ns_def) (simp_all add: example_urgent_def)
qed

theorem waiting_request_choice_witness:
  "policy_waiting_index (SLO_Policy example_slo) example_urgent True 0 0 = Inr (Some 1) \<and>
   (\<exists>k1 k0. slo_priority example_slo example_urgent 1 = Inr k1 \<and> slo_priority example_slo example_urgent 0 = Inr k0 \<and> k1 < k0)"
proof -
  have "[0..<length example_urgent] = [0, 1]" by (simp add: example_urgent_def upt_rec)
  then have "policy_waiting_index (SLO_Policy example_slo) example_urgent True 0 0 = Inr (Some 1)"
    by (simp add: slo_waiting_prefill_index_def example_urgent_keys[simplified] less_eq_deadline_key_def Let_def)
      (simp add: example_urgent_def)
  then show ?thesis using waiting_request_choice[of "SLO_Policy example_slo" example_urgent True 0 0 1]
    by (auto simp: example_urgent_def)
qed

end
