(* ===== verification/Batch_Plan.thy ===== *)
theory Batch_Plan imports Sequence_State begin

text \<open>
  \<open>prism_infer/engine/contracts.py\<close>: the validated values that scheduler, executor and backends
  exchange.  A plan refers to the mutable request objects; here a reference is an index into the list of
  objects that the constructors take.  Page numbers are naturals, so that the checks against negative
  ones hold by typing, as does the arity of the tuples; tensors appear as their number of elements.
\<close>

section \<open>Slices and transfers\<close>

datatype batch_phase = PREFILL_PHASE | DECODE_PHASE

record prefill_slice =
  ps_sequence_id :: nat
  ps_token_start :: int
  ps_token_end :: int

definition prefill_slice_new :: "pyval \<Rightarrow> int \<Rightarrow> int \<Rightarrow> py_error + prefill_slice" where
  "prefill_slice_new sid token_start token_stop =
     bind_res (validate_request_id sid) (\<lambda>i.
     need ValueError (0 \<le> token_start) (need ValueError (0 \<le> token_stop)
    (need ValueError (token_start < token_stop)
    (Inr \<lparr>ps_sequence_id = i, ps_token_start = token_start, ps_token_end = token_stop\<rparr>))))"

definition ps_num_tokens :: "prefill_slice \<Rightarrow> int" where
  "ps_num_tokens sl = ps_token_end sl - ps_token_start sl"

record kv_transfers =
  kt_copy_on_write :: "(nat \<times> nat) list"
  kt_copy_prefix :: "(nat \<times> nat \<times> nat) list"
  kt_swap_in :: "(nat \<times> nat) list"
  kt_swap_out :: "(nat \<times> nat) list"

definition kv_transfers_new ::
    "(nat \<times> nat) list \<Rightarrow> (nat \<times> nat \<times> nat) list \<Rightarrow> (nat \<times> nat) list \<Rightarrow> (nat \<times> nat) list \<Rightarrow> py_error + kv_transfers" where
  "kv_transfers_new cow prefix swap_in swap_out =
     need ValueError (list_all (\<lambda>(_, _, n). 0 < n) prefix)
       (Inr \<lparr>kt_copy_on_write = cow, kt_copy_prefix = prefix, kt_swap_in = swap_in, kt_swap_out = swap_out\<rparr>)"

definition kt_is_empty :: "kv_transfers \<Rightarrow> bool" where
  "kt_is_empty t \<longleftrightarrow> kt_copy_on_write t = [] \<and> kt_copy_prefix t = [] \<and> kt_swap_in t = [] \<and> kt_swap_out t = []"

section \<open>Batch plans\<close>

record batch_plan =
  bp_phase :: batch_phase
  bp_sequences :: "nat list"
  bp_counts :: "int list"
  bp_slices :: "prefill_slice list"
  bp_transfers :: kv_transfers
  bp_policy_name :: string
  bp_created_ns :: int

definition plan_sequence_ids :: "sequence list \<Rightarrow> nat list \<Rightarrow> nat list" where
  "plan_sequence_ids objs refs = map (\<lambda>r. sq_seq_id (objs ! r)) refs"

definition validate_sequences :: "sequence list \<Rightarrow> nat list \<Rightarrow> py_error + nat list" where
  "validate_sequences objs refs = need ValueError (refs \<noteq> []) (Inr (plan_sequence_ids objs refs))"

definition validate_scheduled_counts :: "batch_phase \<Rightarrow> nat list \<Rightarrow> int list \<Rightarrow> py_error + unit" where
  "validate_scheduled_counts phase refs counts =
     need ValueError (length counts = length refs)
    (need ValueError (list_all (\<lambda>c. 0 < c) counts)
    (need ValueError (\<not> (phase = DECODE_PHASE \<and> list_ex (\<lambda>c. c \<noteq> 1) counts)) (Inr ())))"

definition default_prefill_slice :: "sequence \<Rightarrow> int \<Rightarrow> py_error + prefill_slice" where
  "default_prefill_slice s c = (let token_start = int (sq_effective_prefill_start s) in
     prefill_slice_new (PInt (int (sq_seq_id s))) token_start (token_start + c))"

definition validate_prefill_slice :: "sequence \<Rightarrow> int \<Rightarrow> prefill_slice \<Rightarrow> py_error + unit" where
  "validate_prefill_slice s c sl =
     need ValueError (ps_sequence_id sl = sq_seq_id s)
    (need ValueError (ps_num_tokens sl = c)
    (need ValueError (ps_token_end sl \<le> int (sq_num_prompt_tokens s)) (Inr ())))"

fun default_slices :: "sequence list \<Rightarrow> (nat \<times> int) list \<Rightarrow> py_error + prefill_slice list" where
  "default_slices objs [] = Inr []"
| "default_slices objs ((r, c) # rest) =
     bind_res (default_prefill_slice (objs ! r) c) (\<lambda>sl. bind_res (default_slices objs rest) (\<lambda>sls. Inr (sl # sls)))"

fun validate_slices :: "sequence list \<Rightarrow> (nat \<times> int \<times> prefill_slice) list \<Rightarrow> py_error + unit" where
  "validate_slices objs [] = Inr ()"
| "validate_slices objs ((r, c, sl) # rest) =
     bind_res (validate_prefill_slice (objs ! r) c sl) (\<lambda>_. validate_slices objs rest)"

definition validate_prefill_slices ::
    "sequence list \<Rightarrow> nat list \<Rightarrow> int list \<Rightarrow> prefill_slice list \<Rightarrow> py_error + prefill_slice list" where
  "validate_prefill_slices objs refs counts given =
     bind_res (if given \<noteq> [] then Inr given else default_slices objs (zip refs counts)) (\<lambda>slices.
     need ValueError (length slices = length refs)
    (bind_res (validate_slices objs (zip refs (zip counts slices))) (\<lambda>_. Inr slices)))"

definition validate_phase_slices ::
    "sequence list \<Rightarrow> batch_phase \<Rightarrow> nat list \<Rightarrow> int list \<Rightarrow> prefill_slice list \<Rightarrow> py_error + prefill_slice list" where
  "validate_phase_slices objs phase refs counts slices =
    (if phase = PREFILL_PHASE then validate_prefill_slices objs refs counts slices
     else need ValueError (slices = []) (Inr []))"

definition batch_plan_new :: "sequence list \<Rightarrow> batch_phase \<Rightarrow> nat list \<Rightarrow> int list \<Rightarrow> prefill_slice list \<Rightarrow> kv_transfers \<Rightarrow>
    string \<Rightarrow> int \<Rightarrow> py_error + batch_plan" where
  "batch_plan_new objs phase refs counts slices transfers name created =
     bind_res (validate_sequences objs refs) (\<lambda>ids.
     need ValueError (distinct ids)
    (bind_res (validate_scheduled_counts phase refs counts) (\<lambda>_.
     bind_res (validate_phase_slices objs phase refs counts slices) (\<lambda>slices'.
     need ValueError (name \<noteq> [])
    (need ValueError (0 \<le> created)
    (Inr \<lparr>bp_phase = phase, bp_sequences = refs, bp_counts = counts, bp_slices = slices',
        bp_transfers = transfers, bp_policy_name = name, bp_created_ns = created\<rparr>))))))"

definition bp_is_prefill :: "batch_plan \<Rightarrow> bool" where
  "bp_is_prefill p \<longleftrightarrow> bp_phase p = PREFILL_PHASE"

definition bp_batch_size :: "batch_plan \<Rightarrow> nat" where
  "bp_batch_size p = length (bp_sequences p)"

definition bp_sequence_ids :: "sequence list \<Rightarrow> batch_plan \<Rightarrow> nat list" where
  "bp_sequence_ids objs p = plan_sequence_ids objs (bp_sequences p)"

definition bp_num_scheduled_tokens :: "batch_plan \<Rightarrow> int" where
  "bp_num_scheduled_tokens p = sum_list (bp_counts p)"

fun sum_patches :: "sequence list \<Rightarrow> (nat \<times> prefill_slice) list \<Rightarrow> py_error + nat" where
  "sum_patches objs [] = Inr 0"
| "sum_patches objs ((r, sl) # rest) =
     bind_res (sq_vision_patch_count_for_range (nat (ps_token_start sl)) (nat (ps_token_end sl)) (objs ! r)) (\<lambda>n.
     bind_res (sum_patches objs rest) (\<lambda>m. Inr (n + m)))"

definition bp_num_scheduled_vision_patches :: "sequence list \<Rightarrow> batch_plan \<Rightarrow> py_error + nat" where
  "bp_num_scheduled_vision_patches objs p =
    (if \<not> bp_is_prefill p then Inr 0 else sum_patches objs (zip (bp_sequences p) (bp_slices p)))"

definition bp_as_legacy_tuple ::
    "batch_plan \<Rightarrow> nat list \<times> bool \<times> (nat \<times> nat) list \<times> (nat \<times> nat) list \<times> (nat \<times> nat) list" where
  "bp_as_legacy_tuple p = (bp_sequences p, bp_is_prefill p, kt_copy_on_write (bp_transfers p),
     kt_swap_in (bp_transfers p), kt_swap_out (bp_transfers p))"

section \<open>Device batches and results\<close>

record decode_state =
  ds_sequence_id :: nat
  ds_last_token :: int
  ds_logical_position :: int
  ds_kv_slot :: int
  ds_physical_context_len :: int
  ds_logical_context_len :: int
  ds_block_table :: "int list"

definition decode_state_post_init :: "decode_state \<Rightarrow> py_error + unit" where
  "decode_state_post_init d =
     need ValueError (0 \<le> ds_last_token d) (need ValueError (0 \<le> ds_logical_position d) (need ValueError (0 \<le> ds_kv_slot d)
    (need ValueError (0 < ds_physical_context_len d) (need ValueError (0 < ds_logical_context_len d)
    (need ValueError (ds_block_table d \<noteq> [])
    (need ValueError (list_all (\<lambda>b. 0 \<le> b) (ds_block_table d)) (Inr ())))))))"

record device_inputs =
  di_input_ids :: nat
  di_position_ids :: nat
  di_visual_embeds :: "nat option"
  di_deepstack :: "nat list"

definition device_inputs_post_init :: "device_inputs \<Rightarrow> py_error + unit" where
  "device_inputs_post_init d =
     need ValueError (di_input_ids d \<noteq> 0) (need ValueError (di_position_ids d \<noteq> 0)
    (need ValueError (\<not> (di_visual_embeds d = None \<and> di_deepstack d \<noteq> [])) (Inr ())))"

record device_batch =
  db_phase :: batch_phase
  db_sequence_ids :: "pyval list"
  db_counts :: "int list"
  db_context_is_prefill :: bool
  db_temperatures :: "nat option"
  db_execution_bucket :: int
  db_sampling_mode :: "string option"

fun validate_ids :: "pyval list \<Rightarrow> py_error + nat list" where
  "validate_ids [] = Inr []"
| "validate_ids (v # vs) = bind_res (validate_request_id v) (\<lambda>i. bind_res (validate_ids vs) (\<lambda>is. Inr (i # is)))"

definition device_batch_post_init :: "device_batch \<Rightarrow> py_error + unit" where
  "device_batch_post_init b =
     bind_res (validate_ids (db_sequence_ids b)) (\<lambda>ids. let n = length ids in
     need ValueError (n \<noteq> 0) (need ValueError (distinct ids)
    (need ValueError (length (db_counts b) = n)
    (need ValueError (list_all (\<lambda>c. 0 < c) (db_counts b))
    (need ValueError (\<not> (db_phase b = DECODE_PHASE \<and> list_ex (\<lambda>c. c \<noteq> 1) (db_counts b)))
    (need ValueError (db_context_is_prefill b = (db_phase b = PREFILL_PHASE))
    (need ValueError (db_sampling_mode b \<in> {None, Some ''greedy'', Some ''random'', Some ''mixed''})
    (need ValueError (case db_temperatures b of None \<Rightarrow> True | Some t \<Rightarrow> t = n)
    (need ValueError (0 < db_execution_bucket b)
    (need ValueError (int n \<le> db_execution_bucket b) (Inr ())))))))))))"

record execution_result =
  er_token_ids :: "int option list"
  er_compaction_count :: int

definition execution_result_new :: "int option list \<Rightarrow> int \<Rightarrow> py_error + execution_result" where
  "execution_result_new tokens n =
     need ValueError (list_all (\<lambda>t. case t of None \<Rightarrow> True | Some i \<Rightarrow> 0 \<le> i) tokens)
    (need ValueError (0 \<le> n) (Inr \<lparr>er_token_ids = tokens, er_compaction_count = n\<rparr>))"

record request_output =
  ro_request_id :: nat
  ro_token_ids :: "int list"
  ro_finish_reason :: string

record step_result =
  sr_plan :: batch_plan
  sr_outputs :: "request_output list"
  sr_execution :: execution_result
  sr_elapsed_ns :: int

definition sr_legacy_num_tokens :: "step_result \<Rightarrow> int" where
  "sr_legacy_num_tokens r = (if bp_is_prefill (sr_plan r) then bp_num_scheduled_tokens (sr_plan r) else - int (bp_batch_size (sr_plan r)))"

definition sr_as_legacy_tuple :: "step_result \<Rightarrow> (nat \<times> int list) list \<times> int" where
  "sr_as_legacy_tuple r = (map (\<lambda>out. (ro_request_id out, ro_token_ids out)) (sr_outputs r), sr_legacy_num_tokens r)"

section \<open>Well-formed plans\<close>

definition slice_wf :: "sequence \<Rightarrow> int \<Rightarrow> prefill_slice \<Rightarrow> bool" where
  "slice_wf s c sl \<longleftrightarrow> ps_sequence_id sl = sq_seq_id s \<and> ps_num_tokens sl = c \<and> ps_token_end sl \<le> int (sq_num_prompt_tokens s)"

definition plan_wf :: "sequence list \<Rightarrow> batch_plan \<Rightarrow> bool" where
  "plan_wf objs p \<longleftrightarrow> bp_sequences p \<noteq> [] \<and> distinct (bp_sequence_ids objs p) \<and>
     length (bp_counts p) = length (bp_sequences p) \<and> (\<forall>c \<in> set (bp_counts p). 0 < c) \<and>
     (case bp_phase p of
        PREFILL_PHASE \<Rightarrow> length (bp_slices p) = length (bp_sequences p) \<and>
          (\<forall>k < length (bp_sequences p). slice_wf (objs ! (bp_sequences p ! k)) (bp_counts p ! k) (bp_slices p ! k))
      | DECODE_PHASE \<Rightarrow> (\<forall>c \<in> set (bp_counts p). c = 1) \<and> bp_slices p = []) \<and>
     bp_policy_name p \<noteq> [] \<and> 0 \<le> bp_created_ns p"

lemma validate_prefill_slice_ok: "validate_prefill_slice s c sl = Inr () \<longleftrightarrow> slice_wf s c sl"
  by (auto simp: validate_prefill_slice_def slice_wf_def res_simps)

lemma validate_slices_ok:
  "validate_slices objs xs = Inr () \<longleftrightarrow> (\<forall>(r, c, sl) \<in> set xs. slice_wf (objs ! r) c sl)"
  by (induction objs xs rule: validate_slices.induct) (auto simp: res_simps validate_prefill_slice_ok)

lemma validate_slices_zip:
  assumes "length counts = length refs" and "length slices = length refs"
  shows "validate_slices objs (zip refs (zip counts slices)) = Inr () \<longleftrightarrow>
    (\<forall>k < length refs. slice_wf (objs ! (refs ! k)) (counts ! k) (slices ! k))"
  using assms by (simp add: validate_slices_ok flip: list_all_iff) (simp add: list_all_length split_beta)

lemma validate_prefill_slices_wf:
  assumes "length counts = length refs" and "validate_prefill_slices objs refs counts given = Inr slices"
  shows "length slices = length refs" and "\<forall>k < length refs. slice_wf (objs ! (refs ! k)) (counts ! k) (slices ! k)"
  using assms by (auto simp: validate_prefill_slices_def res_simps validate_slices_zip)

lemma batch_plan_new_wf:
  assumes "batch_plan_new objs phase refs counts slices transfers name created = Inr p"
  shows "plan_wf objs p" and "bp_phase p = phase" and "bp_sequences p = refs" and "bp_counts p = counts"
    and "bp_transfers p = transfers" and "bp_policy_name p = name" and "bp_created_ns p = created"
  using assms validate_prefill_slices_wf[of counts refs objs slices]
  by (auto simp: batch_plan_new_def validate_sequences_def validate_scheduled_counts_def validate_phase_slices_def plan_wf_def
      res_simps bp_sequence_ids_def list_all_iff list_ex_iff split: if_splits batch_phase.splits)

lemma default_slice_ok:
  "default_prefill_slice s c = (if 0 < c then Inr \<lparr>ps_sequence_id = sq_seq_id s, ps_token_start = int (sq_effective_prefill_start s),
     ps_token_end = int (sq_effective_prefill_start s) + c\<rparr> else Inl ValueError)"
  by (auto simp: default_prefill_slice_def prefill_slice_new_def Let_def need_def)

lemma default_slices_ok:
  "\<forall>(r, c) \<in> set xs. 0 < c \<Longrightarrow> default_slices objs xs = Inr (map (\<lambda>(r, c). \<lparr>ps_sequence_id = sq_seq_id (objs ! r),
     ps_token_start = int (sq_effective_prefill_start (objs ! r)), ps_token_end = int (sq_effective_prefill_start (objs ! r)) + c\<rparr>) xs)"
  by (induction objs xs rule: default_slices.induct) (auto simp: default_slice_ok)

text \<open>What fits together: given slices match requests and counts, and without any the defaults stay inside the prompts.\<close>

definition batch_fits :: "sequence list \<Rightarrow> batch_phase \<Rightarrow> nat list \<Rightarrow> int list \<Rightarrow> prefill_slice list \<Rightarrow> bool" where
  "batch_fits objs phase refs counts slices \<longleftrightarrow> refs \<noteq> [] \<and> distinct (plan_sequence_ids objs refs) \<and> length counts = length refs \<and>
     (\<forall>c \<in> set counts. 0 < c) \<and>
     (if phase = PREFILL_PHASE
      then if slices = []
        then \<forall>k < length refs. int (sq_effective_prefill_start (objs ! (refs ! k))) + counts ! k \<le> int (sq_num_prompt_tokens (objs ! (refs ! k)))
        else length slices = length refs \<and> (\<forall>k < length refs. slice_wf (objs ! (refs ! k)) (counts ! k) (slices ! k))
      else (\<forall>c \<in> set counts. c = 1) \<and> slices = [])"

text \<open>The plans that the scheduler builds: slices are left to the default.\<close>

definition plannable :: "sequence list \<Rightarrow> batch_phase \<Rightarrow> nat list \<Rightarrow> int list \<Rightarrow> bool" where
  "plannable objs phase refs counts \<longleftrightarrow> refs \<noteq> [] \<and> distinct (plan_sequence_ids objs refs) \<and> length counts = length refs \<and>
     (\<forall>c \<in> set counts. 0 < c) \<and>
     (if phase = PREFILL_PHASE
      then \<forall>k < length refs. int (sq_effective_prefill_start (objs ! (refs ! k))) + counts ! k \<le> int (sq_num_prompt_tokens (objs ! (refs ! k)))
      else \<forall>c \<in> set counts. c = 1)"

lemma plannable_fits: "plannable objs phase refs counts \<longleftrightarrow> batch_fits objs phase refs counts []"
  by (simp add: plannable_def batch_fits_def)

lemma batch_plan_new_fits:
  "(\<exists>p. batch_plan_new objs phase refs counts slices transfers name created = Inr p) \<longleftrightarrow>
     batch_fits objs phase refs counts slices \<and> name \<noteq> [] \<and> 0 \<le> created"
proof (cases "phase = PREFILL_PHASE")
  case False
  then show ?thesis
    by (cases phase) (auto simp: batch_plan_new_def validate_sequences_def validate_scheduled_counts_def validate_phase_slices_def
        batch_fits_def res_simps list_all_iff list_ex_iff)
next
  case True
  have given: "(\<exists>sls. validate_prefill_slices objs refs counts slices = Inr sls) \<longleftrightarrow>
      (if slices = []
       then \<forall>k < length refs. int (sq_effective_prefill_start (objs ! (refs ! k))) + counts ! k \<le> int (sq_num_prompt_tokens (objs ! (refs ! k)))
       else length slices = length refs \<and> (\<forall>k < length refs. slice_wf (objs ! (refs ! k)) (counts ! k) (slices ! k)))"
    if "length counts = length refs" "\<forall>c \<in> set counts. 0 < c"
  proof -
    have "\<forall>(r, c) \<in> set (zip refs counts). 0 < c" using that by (auto dest: set_zip_rightD)
    then show ?thesis using that
      by (cases "length slices = length refs") (simp_all add: validate_prefill_slices_def default_slices_ok res_simps validate_slices_zip slice_wf_def ps_num_tokens_def)
  qed
  show ?thesis using given True
    by (auto simp: batch_plan_new_def validate_sequences_def validate_scheduled_counts_def validate_phase_slices_def
        batch_fits_def res_simps list_all_iff)
qed

lemma batch_plan_new_iff:
  "(\<exists>p. batch_plan_new objs phase refs counts [] transfers name created = Inr p) \<longleftrightarrow>
     plannable objs phase refs counts \<and> name \<noteq> [] \<and> 0 \<le> created"
  unfolding plannable_fits by (rule batch_plan_new_fits)

lemma batch_plan_new_given:
  "batch_plan_new objs PREFILL_PHASE refs counts slices transfers name created = Inr p \<Longrightarrow> slices \<noteq> [] \<Longrightarrow> bp_slices p = slices"
  by (auto simp: batch_plan_new_def validate_phase_slices_def validate_prefill_slices_def res_simps)

section \<open>Properties\<close>

text \<open>C35: a batch plan is built exactly when requests, counts and slices fit together and it has a policy name and a
  time; otherwise \<open>ValueError\<close> is raised.  In a built plan the requests are distinct; a decode plan schedules one
  token each and has no slices; a prefill plan has one slice per request, the given one or the default, of that
  request, as long as its scheduled count and inside its prompt, so that the slice lengths add up to the
  scheduled tokens.\<close>

theorem batch_plan_well_formed:
  "(case batch_plan_new objs phase refs counts slices transfers name created of
      Inr p \<Rightarrow> batch_fits objs phase refs counts slices \<and> name \<noteq> [] \<and> 0 \<le> created \<and> plan_wf objs p \<and>
        bp_phase p = phase \<and> bp_sequences p = refs \<and> bp_counts p = counts \<and> (slices \<noteq> [] \<longrightarrow> bp_slices p = slices) \<and>
        (phase = PREFILL_PHASE \<longrightarrow> sum_list (map ps_num_tokens (bp_slices p)) = bp_num_scheduled_tokens p)
    | Inl e \<Rightarrow> e = ValueError \<and> \<not> (batch_fits objs phase refs counts slices \<and> name \<noteq> [] \<and> 0 \<le> created))"
proof (cases "batch_plan_new objs phase refs counts slices transfers name created")
  case (Inr p)
  note W = batch_plan_new_wf[OF Inr]
  have "map ps_num_tokens (bp_slices p) = bp_counts p" if "phase = PREFILL_PHASE"
    using W(1,2) that by (intro nth_equalityI) (auto simp: plan_wf_def slice_wf_def)
  moreover have fits: "batch_fits objs phase refs counts slices \<and> name \<noteq> [] \<and> 0 \<le> created"
    using Inr batch_plan_new_fits[of objs phase refs counts slices transfers name created] by blast
  moreover have "slices \<noteq> [] \<longrightarrow> bp_slices p = slices"
    using fits Inr batch_plan_new_given[of objs refs counts slices transfers name created p] by (cases phase) (auto simp: batch_fits_def)
  ultimately show ?thesis using W Inr by (simp add: bp_num_scheduled_tokens_def)
next
  case (Inl e)
  have slice: "validate_slices objs xs = Inl x \<Longrightarrow> x = ValueError" for xs x
    by (induction objs xs rule: validate_slices.induct)
      (auto simp: validate_prefill_slice_def need_def bind_res_def split: if_splits sum.splits)
  have dflt: "default_slices objs xs = Inl x \<Longrightarrow> x = ValueError" for xs x
    by (induction objs xs rule: default_slices.induct) (auto simp: default_slice_ok bind_res_def split: if_splits sum.splits)
  have "e = ValueError" using Inl
    by (auto simp: batch_plan_new_def validate_sequences_def validate_scheduled_counts_def validate_phase_slices_def
        validate_prefill_slices_def need_def bind_res_def dest: slice dflt split: if_splits sum.splits)
  then show ?thesis using Inl batch_plan_new_fits[of objs phase refs counts slices transfers name created] by auto
qed

text \<open>A given slice of six tokens.\<close>

theorem batch_plan_well_formed_witness:
  "case batch_plan_new [example_seq] PREFILL_PHASE [0] [6] [\<lparr>ps_sequence_id = sq_seq_id example_seq, ps_token_start = 0, ps_token_end = 6\<rparr>]
      \<lparr>kt_copy_on_write = [], kt_copy_prefix = [], kt_swap_in = [], kt_swap_out = []\<rparr> ''fcfs'' 0 of
     Inr p \<Rightarrow> plan_wf [example_seq] p \<and> map ps_token_end (bp_slices p) = [6] | Inl e \<Rightarrow> False"
proof -
  let ?t = "\<lparr>kt_copy_on_write = [], kt_copy_prefix = [], kt_swap_in = [], kt_swap_out = []\<rparr>"
    and ?sls = "[\<lparr>ps_sequence_id = sq_seq_id example_seq, ps_token_start = 0, ps_token_end = 6\<rparr>]"
  have "is_ok (batch_plan_new [example_seq] PREFILL_PHASE [0] [6] ?sls ?t ''fcfs'' 0)" by code_simp
  then show ?thesis using batch_plan_well_formed[where objs = "[example_seq]" and phase = PREFILL_PHASE and refs = "[0]" and counts = "[6]" and slices = ?sls
      and transfers = ?t and name = "''fcfs''" and created = 0]
    by (auto simp: is_ok_def split: sum.splits)
qed

end
