(* ===== verification/Scheduler.thy ===== *)
theory Scheduler imports Manager_System Scheduler_Policy Batch_Plan begin

text \<open>
  \<open>prism_infer/engine/scheduler.py\<close>: the request queues and the steps that turn policy decisions
  into batch plans.  Requests are mutable objects shared by the queues, the plans and the caller; they live in
  the list \<open>sd_objs\<close> and every other place holds an index into it.  The block manager is
  the one of \<open>Manager_System\<close>, so that a scheduler state contains a state of that machine.  The
  clock value that a call reads is an argument.
\<close>

section \<open>Collecting a prefill batch\<close>

record prefill_candidate =
  ca_sequence :: nat
  ca_token_count :: int
  ca_vision_patches :: int
  ca_copy_prefix :: "(nat \<times> nat \<times> nat) list"

record prefill_builder =
  bb_max_tokens :: int
  bb_max_sequences :: int
  bb_max_vision_patches :: int
  bb_sequences :: "nat list"
  bb_token_counts :: "int list"
  bb_copy_prefix :: "(nat \<times> nat \<times> nat) list"
  bb_num_tokens :: int
  bb_num_vision_patches :: int

definition bb_available_tokens :: "prefill_builder \<Rightarrow> int" where
  "bb_available_tokens b = bb_max_tokens b - bb_num_tokens b"

definition bb_has_capacity :: "prefill_builder \<Rightarrow> bool" where
  "bb_has_capacity b \<longleftrightarrow> int (length (bb_sequences b)) < bb_max_sequences b"

definition bb_requires_dedicated :: "prefill_builder \<Rightarrow> bool" where
  "bb_requires_dedicated b \<longleftrightarrow> length (bb_sequences b) = 1 \<and> bb_max_vision_patches b < bb_num_vision_patches b"

definition bb_accepts :: "prefill_builder \<Rightarrow> prefill_candidate \<Rightarrow> bool" where
  "bb_accepts b c \<longleftrightarrow>
    (if \<not> bb_has_capacity b then False
     else if bb_available_tokens b < ca_token_count c then False
     else bb_sequences b = [] \<or> bb_num_vision_patches b + ca_vision_patches c \<le> bb_max_vision_patches b)"

definition bb_add :: "prefill_candidate \<Rightarrow> prefill_builder \<Rightarrow> py_error + prefill_builder" where
  "bb_add c b =
     need ValueError (0 < ca_token_count c)
    (need ValueError (bb_accepts b c)
    (Inr (b\<lparr>bb_sequences := bb_sequences b @ [ca_sequence c], bb_token_counts := bb_token_counts b @ [ca_token_count c],
        bb_copy_prefix := bb_copy_prefix b @ ca_copy_prefix c, bb_num_tokens := bb_num_tokens b + ca_token_count c,
        bb_num_vision_patches := bb_num_vision_patches b + ca_vision_patches c\<rparr>)))"

section \<open>State\<close>

record scheduler_counters =
  sn_admitted :: nat
  sn_rejected :: nat
  sn_cancelled :: nat
  sn_completed :: nat
  sn_swap_in :: nat
  sn_swap_preemptions :: nat
  sn_recompute_preemptions :: nat
  sn_heavy_batches :: nat
  sn_heavy_deferrals :: nat
  sn_light_bypasses :: nat
  sn_deadline_reorders :: nat
  sn_cost_deferrals :: nat
  sn_peak_waiting :: nat
  sn_peak_running :: nat
  sn_peak_swapped :: nat
  sn_peak_active :: nat
  sn_peak_gpu :: nat
  sn_peak_cpu :: nat

definition zero_scheduler_counters :: scheduler_counters where
  "zero_scheduler_counters = \<lparr>sn_admitted = 0, sn_rejected = 0, sn_cancelled = 0, sn_completed = 0, sn_swap_in = 0,
     sn_swap_preemptions = 0, sn_recompute_preemptions = 0, sn_heavy_batches = 0, sn_heavy_deferrals = 0, sn_light_bypasses = 0,
     sn_deadline_reorders = 0, sn_cost_deferrals = 0, sn_peak_waiting = 0, sn_peak_running = 0, sn_peak_swapped = 0,
     sn_peak_active = 0, sn_peak_gpu = 0, sn_peak_cpu = 0\<rparr>"

record scheduler =
  sd_manager :: manager
  sd_objs :: "sequence list"
  sd_policy :: scheduler_policy
  sd_max_num_seqs :: int
  sd_max_num_batched_tokens :: int
  sd_max_vision_patches :: int
  sd_eos :: int
  sd_waiting :: "nat list"
  sd_running :: "nat list"
  sd_swapped :: "nat list"
  sd_rejected :: "nat list"
  sd_cancelled :: "nat list"
  sd_requests :: "(nat, nat) dict"
  sd_consecutive :: int
  sd_decode_since_heavy :: int
  sd_bypasses_since_heavy :: int
  sd_counters :: scheduler_counters

record scheduler_config =
  cf_max_num_seqs :: int
  cf_max_num_batched_tokens :: int
  cf_enable_chunked_prefill :: bool
  cf_max_chunk_size :: int
  cf_max_model_len :: int
  cf_max_vision_patches :: int
  cf_eos :: int
  cf_num_kvcache_blocks :: int
  cf_kvcache_block_size :: int
  cf_num_cpu_blocks :: int
  cf_enable_prefix_caching :: bool
  cf_compression_mode :: string
  cf_scheduler_policy :: string
  cf_heavy_threshold :: int
  cf_heavy_interval :: int
  cf_max_light_bypasses :: int
  cf_max_queue_size :: "int option"
  cf_max_consecutive_prefill_batches :: int

definition compression_mode_is_dense :: "string \<Rightarrow> bool" where
  "compression_mode_is_dense mode \<longleftrightarrow> mode \<in> {''off'', ''fp8_kv'', ''scaled_fp8_kv''}"

definition base_policy :: "scheduler_config \<Rightarrow> string \<Rightarrow> fcfs_policy" where
  "base_policy cf name = \<lparr>po_max_model_len = cf_max_model_len cf, po_max_num_batched_tokens = cf_max_num_batched_tokens cf,
     po_max_num_seqs = cf_max_num_seqs cf, po_enable_chunked_prefill = cf_enable_chunked_prefill cf,
     po_max_chunk_size = cf_max_chunk_size cf, po_max_queue_size = cf_max_queue_size cf,
     po_max_consecutive_prefill_batches = cf_max_consecutive_prefill_batches cf, po_name = name\<rparr>"

definition configured_policy :: "scheduler_config \<Rightarrow> py_error + scheduler_policy" where
  "configured_policy cf = (let name = cf_scheduler_policy cf in
     bind_res (if name = ''fcfs'' then Inr (FCFS_Policy (base_policy cf ''fcfs''))
       else if name = ''slo_aware'' then Inr (SLO_Policy (fcfs_policy.extend (base_policy cf ''slo_aware'')
         \<lparr>so_heavy_threshold = cf_heavy_threshold cf, so_reserve_ms = (120, 250, 700)\<rparr>))
       else if name = ''vision_aware'' then Inr (Vision_Policy (fcfs_policy.extend (base_policy cf ''vision_aware'')
         \<lparr>vp_heavy_threshold = cf_heavy_threshold cf, vp_min_decode_batches = cf_heavy_interval cf,
          vp_max_light_bypasses = cf_max_light_bypasses cf\<rparr>))
       else Inl KeyError) (\<lambda>p. bind_res (policy_valid p) (\<lambda>_. Inr p)))"

text \<open>\<open>policy_arg\<close> is the optional policy argument of the constructor.\<close>

definition scheduler_new :: "scheduler_config \<Rightarrow> scheduler_policy option \<Rightarrow> py_error + scheduler" where
  "scheduler_new cf policy_arg =
     need ValueError (0 < cf_max_vision_patches cf)
    (bind_res (bm_init (cf_num_kvcache_blocks cf) (cf_kvcache_block_size cf) (cf_num_cpu_blocks cf)
        (cf_enable_prefix_caching cf) (compression_mode_is_dense (cf_compression_mode cf))) (\<lambda>mgr.
     bind_res (case policy_arg of None \<Rightarrow> configured_policy cf | Some p \<Rightarrow> Inr p) (\<lambda>policy.
     Inr \<lparr>sd_manager = mgr, sd_objs = [], sd_policy = policy, sd_max_num_seqs = cf_max_num_seqs cf,
        sd_max_num_batched_tokens = cf_max_num_batched_tokens cf, sd_max_vision_patches = cf_max_vision_patches cf,
        sd_eos = cf_eos cf, sd_waiting = [], sd_running = [], sd_swapped = [], sd_rejected = [], sd_cancelled = [],
        sd_requests = [], sd_consecutive = 0, sd_decode_since_heavy = cf_heavy_interval cf, sd_bypasses_since_heavy = 0,
        sd_counters = zero_scheduler_counters\<rparr>)))"

section \<open>Access\<close>

definition kv :: "nat \<Rightarrow> ('a, mseq) op \<Rightarrow> ('a, scheduler) op" where
  "kv r p = zoom (\<lambda>sd. (sd_manager sd, sd_objs sd ! r))
     (\<lambda>(m, s) sd. sd\<lparr>sd_manager := m, sd_objs := (sd_objs sd)[r := s]\<rparr>) p"

definition obj :: "nat \<Rightarrow> ('a, sequence) op \<Rightarrow> ('a, scheduler) op" where
  "obj r p = zoom (\<lambda>sd. sd_objs sd ! r) (\<lambda>s sd. sd\<lparr>sd_objs := (sd_objs sd)[r := s]\<rparr>) p"

definition tally :: "(scheduler_counters \<Rightarrow> scheduler_counters) \<Rightarrow> (unit, scheduler) op" where
  "tally f = upd (\<lambda>sd. sd\<lparr>sd_counters := f (sd_counters sd)\<rparr>)"

definition status_of :: "scheduler \<Rightarrow> nat \<Rightarrow> request_state" where
  "status_of sd r = sq_status (sd_objs sd ! r)"

definition sd_is_finished :: "scheduler \<Rightarrow> bool" where
  "sd_is_finished sd \<longleftrightarrow> sd_waiting sd = [] \<and> sd_running sd = [] \<and> sd_swapped sd = []"

definition sd_num_active :: "scheduler \<Rightarrow> nat" where
  "sd_num_active sd = length (sd_waiting sd) + length (sd_running sd) + length (sd_swapped sd)"

definition observe_peaks :: "scheduler \<Rightarrow> scheduler_counters \<Rightarrow> scheduler_counters" where
  "observe_peaks sd c = c\<lparr>
     sn_peak_waiting := max (sn_peak_waiting c) (length (sd_waiting sd)),
     sn_peak_running := max (sn_peak_running c) (length (sd_running sd)),
     sn_peak_swapped := max (sn_peak_swapped c) (length (sd_swapped sd)),
     sn_peak_active := max (sn_peak_active c) (sd_num_active sd),
     sn_peak_gpu := max (sn_peak_gpu c) (card (gp_used (bm_gpu (sd_manager sd)))),
     sn_peak_cpu := max (sn_peak_cpu c) (cp_capacity (bm_cpu (sd_manager sd)) - cp_free_count (bm_cpu (sd_manager sd)))\<rparr>"

definition sd_observe_state :: "(unit, scheduler) op" where
  "sd_observe_state = upd (\<lambda>sd. sd\<lparr>sd_counters := observe_peaks sd (sd_counters sd)\<rparr>)"

definition sd_get_request :: "nat \<Rightarrow> scheduler \<Rightarrow> nat option" where
  "sd_get_request request_id sd = dict_get (sd_requests sd) request_id"

section \<open>Admission to the queue\<close>

text \<open>The object of the caller enters the store under the next index.\<close>

definition sd_add :: "hash_fun \<Rightarrow> int \<Rightarrow> sequence \<Rightarrow> bool \<Rightarrow> (admission_decision, scheduler) op" where
  "sd_add xx now s raise_on_reject = bnd (gets id) (\<lambda>sd.
     thn (chk RuntimeError (sd_get_request (sq_seq_id s) sd = None))
    (let r = length (sd_objs sd) in
     thn (upd (\<lambda>sd. sd\<lparr>sd_objs := sd_objs sd @ [s]\<rparr>))
    (thn (kv r (bm_cached_prefix_tokens xx))
    (thn (upd (\<lambda>sd. sd\<lparr>sd_requests := dict_set (sd_requests sd) (sq_seq_id s) r\<rparr>))
    (bnd (gets id) (\<lambda>sd.
     let decision = fcfs_admit (policy_base (sd_policy sd)) (sd_objs sd ! r) (sd_num_active sd);
         reason = (case ad_reason decision of Some t \<Rightarrow> if t \<noteq> [] then t else ''admission rejected'' | None \<Rightarrow> ''admission rejected'') in
     if \<not> ad_accepted decision
     then thn (obj r (sq_transition_to REJECTED reason now))
         (thn (upd (\<lambda>sd. sd\<lparr>sd_rejected := sd_rejected sd @ [r]\<rparr>))
         (thn (tally (\<lambda>c. c\<lparr>sn_rejected := sn_rejected c + 1\<rparr>))
         (thn sd_observe_state
         (thn (chk ValueError (\<not> raise_on_reject)) (ret decision)))))
     else thn (upd (\<lambda>sd. sd\<lparr>sd_waiting := sd_waiting sd @ [r]\<rparr>))
         (thn (tally (\<lambda>c. c\<lparr>sn_admitted := sn_admitted c + 1\<rparr>))
         (thn sd_observe_state (ret decision)))))))))"

section \<open>Prefill\<close>

definition prefill_candidate_for :: "nat \<Rightarrow> int \<Rightarrow> (prefill_candidate option, scheduler) op" where
  "prefill_candidate_for r available = bnd (gets id) (\<lambda>sd. let s = sd_objs sd ! r;
       n = fcfs_prefill_token_count (policy_base (sd_policy sd)) s available in
     if n \<le> 0 then ret None
     else let token_start = sq_effective_prefill_start s in
       bnd (lift_res (sq_vision_patch_count_for_range token_start (token_start + nat n) s)) (\<lambda>patches.
       ret (Some \<lparr>ca_sequence = r, ca_token_count = n, ca_vision_patches = int patches, ca_copy_prefix = []\<rparr>)))"

fun collect_running_prefills :: "nat list \<Rightarrow> prefill_builder \<Rightarrow> (prefill_builder, scheduler) op" where
  "collect_running_prefills [] b = ret b"
| "collect_running_prefills (r # rs) b = bnd (gets id) (\<lambda>sd.
     if status_of sd r \<noteq> PREFILLING then collect_running_prefills rs b
     else if \<not> bb_has_capacity b then ret b
     else bnd (prefill_candidate_for r (bb_available_tokens b)) (\<lambda>candidate. case candidate of
         None \<Rightarrow> ret b
       | Some c \<Rightarrow> if \<not> bb_accepts b c then collect_running_prefills rs b
           else bnd (lift_res (bb_add c b)) (\<lambda>b'.
             if bb_requires_dedicated b' then ret b' else collect_running_prefills rs b')))"

definition allocate_waiting_prefill ::
    "hash_fun \<Rightarrow> int \<Rightarrow> nat \<Rightarrow> nat \<Rightarrow> int \<Rightarrow> prefill_builder \<Rightarrow> (prefill_candidate, scheduler) op" where
  "allocate_waiting_prefill xx now r waiting_index available b =
     bnd (kv r (bm_allocate xx)) (\<lambda>copies.
     thn (obj r (upd (\<lambda>s. s\<lparr>sq_num_computed_tokens := max (sq_num_computed_tokens s) (sq_num_cached_tokens s)\<rparr>)))
    (bnd (prefill_candidate_for r available) (\<lambda>candidate. case candidate of
       None \<Rightarrow> thn (kv r bm_deallocate) (throw RuntimeError)
     | Some c0 \<Rightarrow> let c = c0\<lparr>ca_copy_prefix := copies\<rparr> in
         if \<not> bb_accepts b c then thn (kv r bm_deallocate) (throw RuntimeError)
         else thn (catch (obj r (sq_transition_to PREFILLING ''admitted to prefill batch'' now))
                     (\<lambda>e. thn (kv r bm_deallocate) (throw e)))
             (thn (upd (\<lambda>sd. sd\<lparr>sd_waiting := take waiting_index (sd_waiting sd) @ drop (Suc waiting_index) (sd_waiting sd),
                    sd_running := sd_running sd @ [r]\<rparr>))
                  (ret c)))))"

fun tier_below :: "scheduler_policy \<Rightarrow> int option \<Rightarrow> sequence list \<Rightarrow> nat list \<Rightarrow> nat \<Rightarrow> py_error + nat list" where
  "tier_below p limit objs [] i = Inr []"
| "tier_below p limit objs (r # rs) i =
     bind_res (case limit of None \<Rightarrow> Inr True
       | Some n \<Rightarrow> (case p of SLO_Policy q \<Rightarrow> bind_res (prefill_cost_tier q (objs ! r)) (\<lambda>t. Inr (int t < n)) | _ \<Rightarrow> Inr False))
       (\<lambda>keep. bind_res (tier_below p limit objs rs (Suc i)) (\<lambda>is. Inr (if keep then i # is else is)))"

definition is_slo :: "scheduler_policy \<Rightarrow> bool" where
  "is_slo p \<longleftrightarrow> (case p of SLO_Policy _ \<Rightarrow> True | _ \<Rightarrow> False)"

definition is_vision :: "scheduler_policy \<Rightarrow> bool" where
  "is_vision p \<longleftrightarrow> (case p of Vision_Policy _ \<Rightarrow> True | _ \<Rightarrow> False)"

definition defers :: "scheduler_policy \<Rightarrow> sequence list \<Rightarrow> prefill_builder \<Rightarrow> sequence \<Rightarrow> py_error + bool" where
  "defers p objs b s = (case (bb_sequences b, p) of
      (first # _, SLO_Policy q) \<Rightarrow> bind_res (can_co_batch q (objs ! first) s) (\<lambda>ok. Inr (\<not> ok))
    | _ \<Rightarrow> Inr False)"

definition note_overtaking :: "nat \<Rightarrow> (unit, scheduler) op" where
  "note_overtaking waiting_index = bnd (gets id) (\<lambda>sd.
     if 0 < waiting_index
     then if is_slo (sd_policy sd) then tally (\<lambda>c. c\<lparr>sn_deadline_reorders := sn_deadline_reorders c + 1\<rparr>)
       else thn (tally (\<lambda>c. c\<lparr>sn_light_bypasses := sn_light_bypasses c + 1\<rparr>))
            (upd (\<lambda>sd. sd\<lparr>sd_bypasses_since_heavy := sd_bypasses_since_heavy sd + 1\<rparr>))
     else ret ())"

fun refresh_cached_prefixes :: "hash_fun \<Rightarrow> nat list \<Rightarrow> (unit, scheduler) op" where
  "refresh_cached_prefixes xx [] = ret ()"
| "refresh_cached_prefixes xx (r # rs) = thn (kv r (bm_cached_prefix_tokens xx)) (refresh_cached_prefixes xx rs)"

text \<open>The second half of a turn, for the chosen place in the queue: \<open>None\<close> leaves the loop, \<open>Some\<close> goes on with the
  extended batch.\<close>

definition admit_at :: "hash_fun \<Rightarrow> int \<Rightarrow> prefill_builder \<Rightarrow> nat \<Rightarrow> (prefill_builder option, scheduler) op" where
  "admit_at xx now b index = bnd (gets id) (\<lambda>sd. let r = sd_waiting sd ! index in
     thn (note_overtaking index)
    (bnd (lift_res (defers (sd_policy sd) (sd_objs sd) b (sd_objs sd ! r))) (\<lambda>deferred.
     if deferred then thn (tally (\<lambda>c. c\<lparr>sn_cost_deferrals := sn_cost_deferrals c + 1\<rparr>)) (ret None)
     else bnd (prefill_candidate_for r (bb_available_tokens b)) (\<lambda>candidate. case candidate of
         None \<Rightarrow> ret None
       | Some c \<Rightarrow> bnd (kv r bm_can_allocate) (\<lambda>allocatable.
           if \<not> allocatable then ret None
           else if \<not> bb_accepts b c then ret None
           else bnd (allocate_waiting_prefill xx now r index (bb_available_tokens b) b) (\<lambda>allocated.
             bnd (lift_res (bb_add allocated b)) (\<lambda>b'. ret (Some b'))))))))"

definition admit_one :: "hash_fun \<Rightarrow> int \<Rightarrow> int option \<Rightarrow> bool \<Rightarrow> prefill_builder \<Rightarrow> (prefill_builder option, scheduler) op" where
  "admit_one xx now tier has_decode b =
     bnd (gets sd_waiting) (\<lambda>waiting.
     thn (refresh_cached_prefixes xx waiting)
    (bnd (gets id) (\<lambda>sd.
     bnd (lift_res (tier_below (sd_policy sd) tier (sd_objs sd) (sd_waiting sd) 0)) (\<lambda>indices.
     if indices = [] then ret None
     else bnd (lift_res (policy_waiting_index (sd_policy sd) (map (\<lambda>i. sd_objs sd ! (sd_waiting sd ! i)) indices) has_decode
            (sd_decode_since_heavy sd) (sd_bypasses_since_heavy sd))) (\<lambda>relative. case relative of
         None \<Rightarrow> thn (if has_decode \<and> is_vision (sd_policy sd) then tally (\<lambda>c. c\<lparr>sn_heavy_deferrals := sn_heavy_deferrals c + 1\<rparr>) else ret ())
              (ret None)
       | Some rel \<Rightarrow> admit_at xx now b (indices ! rel))))))"

text \<open>Every admitted request leaves the waiting queue: its length bounds the number of turns.\<close>

fun admit_loop :: "nat \<Rightarrow> hash_fun \<Rightarrow> int \<Rightarrow> int option \<Rightarrow> bool \<Rightarrow> prefill_builder \<Rightarrow> (prefill_builder, scheduler) op" where
  "admit_loop 0 xx now tier has_decode b = ret b"
| "admit_loop (Suc n) xx now tier has_decode b = bnd (gets id) (\<lambda>sd.
     if sd_waiting sd \<noteq> [] \<and> int (length (sd_running sd)) < sd_max_num_seqs sd \<and> bb_has_capacity b \<and> \<not> bb_requires_dedicated b
     then bnd (admit_one xx now tier has_decode b) (\<lambda>next_batch. case next_batch of
         None \<Rightarrow> ret b | Some b' \<Rightarrow> admit_loop n xx now tier has_decode b')
     else ret b)"

definition sd_has_decode :: "scheduler \<Rightarrow> bool" where
  "sd_has_decode sd \<longleftrightarrow> sd_swapped sd \<noteq> [] \<or> list_ex (\<lambda>r. status_of sd r = DECODING) (sd_running sd)"

definition admit_waiting_prefills :: "hash_fun \<Rightarrow> int \<Rightarrow> int option \<Rightarrow> prefill_builder \<Rightarrow> (prefill_builder, scheduler) op" where
  "admit_waiting_prefills xx now tier b = bnd (gets id) (\<lambda>sd.
     admit_loop (length (sd_waiting sd)) xx now tier (sd_has_decode sd) b)"

definition no_transfers :: kv_transfers where
  "no_transfers = \<lparr>kt_copy_on_write = [], kt_copy_prefix = [], kt_swap_in = [], kt_swap_out = []\<rparr>"

definition make_plan :: "int \<Rightarrow> batch_phase \<Rightarrow> nat list \<Rightarrow> int list \<Rightarrow> py_error + kv_transfers \<Rightarrow> (batch_plan, scheduler) op" where
  "make_plan now phase refs counts transfers = bnd (gets id) (\<lambda>sd.
     bnd (lift_res transfers) (\<lambda>t.
     lift_res (batch_plan_new (sd_objs sd) phase refs counts [] t (po_name (policy_base (sd_policy sd))) now)))"

definition prefill_plan :: "hash_fun \<Rightarrow> int \<Rightarrow> int option \<Rightarrow> bool \<Rightarrow> (batch_plan option, scheduler) op" where
  "prefill_plan xx now tier include_running = bnd (gets id) (\<lambda>sd.
     let b = \<lparr>bb_max_tokens = sd_max_num_batched_tokens sd, bb_max_sequences = sd_max_num_seqs sd,
       bb_max_vision_patches = sd_max_vision_patches sd, bb_sequences = [], bb_token_counts = [], bb_copy_prefix = [],
       bb_num_tokens = 0, bb_num_vision_patches = 0\<rparr> in
     bnd (if include_running then collect_running_prefills (sd_running sd) b else ret b) (\<lambda>b.
     bnd (admit_waiting_prefills xx now tier b) (\<lambda>b.
     if bb_sequences b = [] then ret None
     else bnd (make_plan now PREFILL_PHASE (bb_sequences b) (bb_token_counts b) (kv_transfers_new [] (bb_copy_prefix b) [] []))
       (\<lambda>plan. ret (Some plan)))))"

section \<open>Preemption\<close>

text \<open>\<open>map\<close> is the list of swap-out transfers that the caller collects, if it passed one.\<close>

definition sd_preempt :: "int \<Rightarrow> nat \<Rightarrow> (nat \<times> nat) list option \<Rightarrow> ((nat \<times> nat) list option, scheduler) op" where
  "sd_preempt now r pairs =
     bnd (case pairs of None \<Rightarrow> ret False | Some _ \<Rightarrow> kv r bm_can_swap_out) (\<lambda>swap.
     bnd (if swap
       then bnd (kv r bm_swap_out) (\<lambda>new.
            thn (obj r (sq_transition_to SWAPPED ''decode KV capacity preemption'' now))
           (thn (upd (\<lambda>sd. sd\<lparr>sd_swapped := sd_swapped sd @ [r]\<rparr>))
           (thn (tally (\<lambda>c. c\<lparr>sn_swap_preemptions := sn_swap_preemptions c + 1\<rparr>))
                (ret (map_option (\<lambda>old. old @ new) pairs)))))
       else thn (kv r bm_deallocate)
           (thn (obj r (upd (\<lambda>s. s\<lparr>sq_num_computed_tokens := 0\<rparr>)))
           (thn (obj r (sq_transition_to WAITING ''recompute preemption'' now))
           (thn (upd (\<lambda>sd. sd\<lparr>sd_waiting := r # sd_waiting sd\<rparr>))
           (thn (tally (\<lambda>c. c\<lparr>sn_recompute_preemptions := sn_recompute_preemptions c + 1\<rparr>))
                (ret pairs))))))
     (\<lambda>pairs'. thn sd_observe_state (ret pairs')))"

section \<open>Decoding\<close>

text \<open>The page copy that the next token of a request needs before its page may be written.\<close>

definition append_room :: "nat \<Rightarrow> ((nat \<times> nat) option, scheduler) op" where
  "append_room r = bnd (gets id) (\<lambda>sd.
     bnd (if sq_physical_kv_len (sd_objs sd ! r) mod bm_block_size (sd_manager sd) = 1 then ret None
          else kv r bm_copy_on_write) (\<lambda>pair.
     thn (kv r bm_may_append) (ret pair)))"

definition decode_single :: "int \<Rightarrow> nat \<Rightarrow> (batch_plan, scheduler) op" where
  "decode_single now r = bnd (gets id) (\<lambda>sd. let pages = length (sq_block_table (sd_objs sd ! r)) in
     bnd (append_room r) (\<lambda>pair. bnd (gets id) (\<lambda>sd.
     thn (if length (sq_block_table (sd_objs sd ! r)) \<noteq> pages then sd_observe_state else ret ())
         (make_plan now DECODE_PHASE [r] [1] (kv_transfers_new (case pair of None \<Rightarrow> [] | Some p \<Rightarrow> [p]) [] [] [])))))"

fun swap_in_loop :: "nat \<Rightarrow> int \<Rightarrow> (nat \<times> nat) list \<Rightarrow> ((nat \<times> nat) list, scheduler) op" where
  "swap_in_loop 0 now pairs = ret pairs"
| "swap_in_loop (Suc n) now pairs = bnd (gets id) (\<lambda>sd. case sd_swapped sd of
     [] \<Rightarrow> ret pairs
   | r # rest \<Rightarrow> if \<not> int (length (sd_running sd)) < sd_max_num_seqs sd then ret pairs
       else bnd (kv r bm_can_swap_in) (\<lambda>fits. if \<not> fits then ret pairs
         else thn (upd (\<lambda>sd. sd\<lparr>sd_swapped := rest\<rparr>))
             (bnd (kv r bm_swap_in) (\<lambda>new.
              thn (tally (\<lambda>c. c\<lparr>sn_swap_in := sn_swap_in c + 1\<rparr>))
             (thn (obj r (sq_transition_to DECODING ''KV swap-in completed'' now))
             (thn (upd (\<lambda>sd. sd\<lparr>sd_running := sd_running sd @ [r]\<rparr>))
                  (swap_in_loop n now (pairs @ new))))))))"

text \<open>The inner loop: preempt the newest candidates until the request can grow.  The result says whether it
  is to be scheduled, and returns the remaining candidates and the collected swap-out transfers.\<close>

function make_room :: "int \<Rightarrow> bool \<Rightarrow> nat \<Rightarrow> nat list \<Rightarrow> (nat \<times> nat) list \<Rightarrow>
    (bool \<times> nat list \<times> (nat \<times> nat) list, scheduler) op" where
  "make_room now resident r candidates pairs = bnd (gets sd_policy) (\<lambda>policy. bnd (kv r bm_can_append) (\<lambda>fits.
     if fits then ret (True, candidates, pairs)
     else if resident then thn (upd (\<lambda>sd. sd\<lparr>sd_running := sd_running sd @ [r]\<rparr>)) (ret (False, candidates, pairs))
     else (case fcfs_preemption_candidate (policy_base policy) candidates of
         Some victim \<Rightarrow> bnd (sd_preempt now victim (Some pairs)) (\<lambda>pairs'.
           make_room now resident r (remove1 victim candidates) (the pairs'))
       | None \<Rightarrow> bnd (sd_preempt now r (Some pairs)) (\<lambda>pairs'. ret (False, candidates, the pairs')))))"
  by pat_completeness auto
termination
  by (relation "measure (\<lambda>(now, resident, r, candidates, pairs). length candidates)")
    (auto simp: fcfs_preemption_candidate_def length_remove1 split: if_splits)

text \<open>Every turn takes a request from the candidates: their number bounds the turns.\<close>

fun decode_loop :: "nat \<Rightarrow> int \<Rightarrow> bool \<Rightarrow> nat list \<Rightarrow> nat list \<Rightarrow> (nat \<times> nat) list \<Rightarrow> (nat \<times> nat) list \<Rightarrow>
    (nat list \<times> nat list \<times> (nat \<times> nat) list \<times> (nat \<times> nat) list, scheduler) op" where
  "decode_loop 0 now resident candidates scheduled cow out = ret (candidates, scheduled, cow, out)"
| "decode_loop (Suc n) now resident candidates scheduled cow out = bnd (gets sd_max_num_seqs) (\<lambda>limit. case candidates of
     [] \<Rightarrow> ret (candidates, scheduled, cow, out)
   | r # rest \<Rightarrow> if \<not> int (length scheduled) < limit then ret (candidates, scheduled, cow, out)
       else bnd (make_room now resident r rest out) (\<lambda>(fits, rest', out').
         if \<not> fits then decode_loop n now resident rest' scheduled cow out'
         else bnd (append_room r) (\<lambda>pair.
           decode_loop n now resident rest' (scheduled @ [r]) (case pair of None \<Rightarrow> cow | Some p \<Rightarrow> cow @ [p]) out')))"

definition remove_all :: "nat list \<Rightarrow> nat list \<Rightarrow> nat list" where
  "remove_all rs queue = fold remove1 rs queue"

definition decode_batch :: "int \<Rightarrow> bool \<Rightarrow> (batch_plan option, scheduler) op" where
  "decode_batch now resident =
     bnd (if resident then ret [] else bnd (gets sd_swapped) (\<lambda>swapped. swap_in_loop (length swapped) now [])) (\<lambda>swap_in.
     bnd (gets id) (\<lambda>sd. let candidates = filter (\<lambda>r. status_of sd r = DECODING) (sd_running sd) in
     thn (upd (\<lambda>sd. sd\<lparr>sd_running := remove_all candidates (sd_running sd)\<rparr>))
    (bnd (decode_loop (length candidates) now resident candidates [] [] []) (\<lambda>(rest, scheduled, cow, out).
     thn (upd (\<lambda>sd. sd\<lparr>sd_running := sd_running sd @ rest\<rparr>))
    (if scheduled = [] then (if resident then ret None else throw RuntimeError)
     else thn (upd (\<lambda>sd. sd\<lparr>sd_running := scheduled @ sd_running sd\<rparr>))
         (thn sd_observe_state
         (bnd (make_plan now DECODE_PHASE scheduled (replicate (length scheduled) 1) (kv_transfers_new cow [] swap_in out))
           (\<lambda>plan. ret (Some plan)))))))))"

definition decode_plan :: "int \<Rightarrow> bool \<Rightarrow> (batch_plan option, scheduler) op" where
  "decode_plan now resident = bnd (gets id) (\<lambda>sd.
     bnd (case (sd_swapped sd, sd_running sd) of
         ([], [r]) \<Rightarrow> if status_of sd r = DECODING then kv r bm_can_append else ret False
       | _ \<Rightarrow> ret False) (\<lambda>single.
     if single then bnd (decode_single now (hd (sd_running sd))) (\<lambda>plan. ret (Some plan))
     else decode_batch now resident))"

section \<open>Scheduling\<close>

definition decode_work_count :: "scheduler \<Rightarrow> nat" where
  "decode_work_count sd = length (sd_swapped sd) + length (filter (\<lambda>r. status_of sd r = DECODING) (sd_running sd))"

definition has_decode_work :: "scheduler \<Rightarrow> bool" where
  "has_decode_work sd \<longleftrightarrow> 0 < decode_work_count sd"

definition count_decode_batch :: "(unit, scheduler) op" where
  "count_decode_batch = upd (\<lambda>sd. sd\<lparr>sd_consecutive := 0, sd_decode_since_heavy := sd_decode_since_heavy sd + 1\<rparr>)"

text \<open>Only \<open>resident\<close> decoding can return no plan.\<close>

definition schedule_decode :: "int \<Rightarrow> (batch_plan, scheduler) op" where
  "schedule_decode now = bnd (gets id) (\<lambda>sd.
     thn (chk RuntimeError (has_decode_work sd))
    (bnd (decode_plan now False) (\<lambda>plan. case plan of None \<Rightarrow> throw TypeError
       | Some p \<Rightarrow> thn count_decode_batch (ret p))))"

definition schedule_resident_decode :: "int \<Rightarrow> (batch_plan option, scheduler) op" where
  "schedule_resident_decode now = bnd (decode_plan now True) (\<lambda>plan. case plan of
      None \<Rightarrow> ret None | Some p \<Rightarrow> thn count_decode_batch (ret (Some p)))"

definition record_prefill_plan :: "batch_plan \<Rightarrow> (batch_plan, scheduler) op" where
  "record_prefill_plan plan =
     thn (upd (\<lambda>sd. sd\<lparr>sd_consecutive := sd_consecutive sd + 1\<rparr>))
    (bnd (gets id) (\<lambda>sd.
     bnd (lift_res (bp_num_scheduled_vision_patches (sd_objs sd) plan)) (\<lambda>patches.
     thn (if policy_is_heavy (sd_policy sd) (int patches)
          then thn (upd (\<lambda>sd. sd\<lparr>sd_decode_since_heavy := 0, sd_bypasses_since_heavy := 0\<rparr>))
               (tally (\<lambda>c. c\<lparr>sn_heavy_batches := sn_heavy_batches c + 1\<rparr>))
          else ret ())
    (thn sd_observe_state (ret plan)))))"

definition schedule_prefill :: "hash_fun \<Rightarrow> int \<Rightarrow> int option \<Rightarrow> (batch_plan, scheduler) op" where
  "schedule_prefill xx now tier = bnd (gets id) (\<lambda>sd.
     thn (chk RuntimeError (tier = None \<or> is_slo (sd_policy sd)))
    (bnd (prefill_plan xx now tier False) (\<lambda>plan. case plan of
        None \<Rightarrow> throw RuntimeError | Some p \<Rightarrow> record_prefill_plan p)))"

definition schedule_rest :: "hash_fun \<Rightarrow> int \<Rightarrow> bool \<Rightarrow> (batch_plan, scheduler) op" where
  "schedule_rest xx now running_prefill =
    (if running_prefill
     then bnd (schedule_resident_decode now) (\<lambda>plan. case plan of Some p \<Rightarrow> ret p
       | None \<Rightarrow> bnd (prefill_plan xx now None True) (\<lambda>plan. case plan of Some p \<Rightarrow> record_prefill_plan p
         | None \<Rightarrow> schedule_decode now))
     else schedule_decode now)"

definition schedule :: "hash_fun \<Rightarrow> int \<Rightarrow> (batch_plan, scheduler) op" where
  "schedule xx now = bnd (gets id) (\<lambda>sd.
     let running_prefill = list_ex (\<lambda>r. status_of sd r = PREFILLING) (sd_running sd);
         has_prefill = sd_waiting sd \<noteq> [] \<or> running_prefill in
     if fcfs_should_schedule_prefill (policy_base (sd_policy sd)) has_prefill (has_decode_work sd) (sd_consecutive sd)
     then bnd (prefill_plan xx now None True) (\<lambda>plan. case plan of Some p \<Rightarrow> record_prefill_plan p
         | None \<Rightarrow> schedule_rest xx now running_prefill)
     else schedule_rest xx now running_prefill)"

section \<open>Results and cancellation\<close>

definition remove_from_running :: "nat \<Rightarrow> (unit, scheduler) op" where
  "remove_from_running r = bnd (gets sd_running) (\<lambda>running.
     thn (chk ValueError (r \<in> set running)) (upd (\<lambda>sd. sd\<lparr>sd_running := remove1 r running\<rparr>)))"

definition publish_for :: "hash_fun \<Rightarrow> batch_plan option \<Rightarrow> nat \<Rightarrow> nat \<Rightarrow> (unit, scheduler) op" where
  "publish_for xx plan k r = bnd (gets id) (\<lambda>sd. let s = sd_objs sd ! r in
     case plan of
       Some p \<Rightarrow> if bp_is_prefill p
         then let sl = bp_slices p ! k in kv r (bm_publish xx (nat (ps_token_start sl)) (nat (ps_token_end sl)))
         else if sq_status s = PREFILLING then kv r (bm_publish xx (sq_num_cached_tokens s) (sq_num_computed_tokens s))
         else kv r (bm_publish xx (sq_num_tokens s - 1) (sq_num_tokens s))
     | None \<Rightarrow> if sq_status s = PREFILLING then kv r (bm_publish xx (sq_num_cached_tokens s) (sq_num_computed_tokens s))
         else kv r (bm_publish xx (sq_num_tokens s - 1) (sq_num_tokens s)))"

definition finish_request :: "int \<Rightarrow> nat \<Rightarrow> string \<Rightarrow> (request_output, scheduler) op" where
  "finish_request now r reason =
     thn (obj r (sq_transition_to FINISHED reason now))
    (thn (kv r bm_deallocate)
    (thn (obj r sq_release_multimodal_runtime_tensors)
    (thn (remove_from_running r)
    (bnd (gets (\<lambda>sd. sd_objs sd ! r)) (\<lambda>s.
     thn (tally (\<lambda>c. c\<lparr>sn_completed := sn_completed c + 1\<rparr>))
         (ret \<lparr>ro_request_id = sq_seq_id s, ro_token_ids = sq_completion_token_ids s, ro_finish_reason = reason\<rparr>))))))"

definition postprocess_one ::
    "hash_fun \<Rightarrow> int \<Rightarrow> batch_plan option \<Rightarrow> nat \<Rightarrow> nat \<Rightarrow> int option \<Rightarrow> (request_output option, scheduler) op" where
  "postprocess_one xx now plan k r token =
     thn (publish_for xx plan k r)
    (case token of None \<Rightarrow> ret None | Some t \<Rightarrow>
     thn (obj r (sq_append_token t))
    (bnd (gets id) (\<lambda>sd. let s = sd_objs sd ! r; at_eos = (\<not> sq_ignore_eos s \<and> t = sd_eos sd) in
     if at_eos \<or> sq_num_completion_tokens s = sq_max_tokens s
     then bnd (finish_request now r (if at_eos then ''eos'' else ''length'')) (\<lambda>out. ret (Some out))
     else if sq_status s = PREFILLING
     then thn (obj r (sq_transition_to DECODING ''prefill completed and first token sampled'' now)) (ret None)
     else thn (chk RuntimeError (\<not> (case plan of Some p \<Rightarrow> bp_is_prefill p | None \<Rightarrow> False))) (ret None))))"

fun postprocess_loop ::
    "hash_fun \<Rightarrow> int \<Rightarrow> batch_plan option \<Rightarrow> nat \<Rightarrow> (nat \<times> int option) list \<Rightarrow> (request_output list, scheduler) op" where
  "postprocess_loop xx now plan k [] = ret []"
| "postprocess_loop xx now plan k ((r, token) # rest) =
     bnd (postprocess_one xx now plan k r token) (\<lambda>out.
     bnd (postprocess_loop xx now plan (Suc k) rest) (\<lambda>outs.
     ret ((case out of None \<Rightarrow> [] | Some x \<Rightarrow> [x]) @ outs)))"

definition postprocess ::
    "hash_fun \<Rightarrow> int \<Rightarrow> batch_plan + nat list \<Rightarrow> int option list \<Rightarrow> (request_output list, scheduler) op" where
  "postprocess xx now plan_or_seqs tokens =
    (let plan = (case plan_or_seqs of Inl p \<Rightarrow> Some p | Inr _ \<Rightarrow> None);
         refs = (case plan_or_seqs of Inl p \<Rightarrow> bp_sequences p | Inr rs \<Rightarrow> rs) in
     bnd (postprocess_loop xx now plan 0 (zip refs tokens)) (\<lambda>outs.
     thn (if (case plan of None \<Rightarrow> True | Some p \<Rightarrow> bp_phase p \<noteq> DECODE_PHASE \<or> length refs \<noteq> 1) then sd_observe_state else ret ())
         (ret outs)))"

definition find_request :: "scheduler \<Rightarrow> nat \<Rightarrow> nat list \<Rightarrow> nat option" where
  "find_request sd request_id queue = List.find (\<lambda>r. sq_seq_id (sd_objs sd ! r) = request_id) queue"

definition cancel_queued :: "int \<Rightarrow> nat \<Rightarrow> (scheduler \<Rightarrow> scheduler) \<Rightarrow> (bool, scheduler) op" where
  "cancel_queued now r unlink =
     thn (upd unlink)
    (bnd (gets (\<lambda>sd. sd_objs sd ! r)) (\<lambda>s.
     thn (if sq_block_table s \<noteq> [] \<or> sq_cpu_block_table s \<noteq> [] then kv r bm_deallocate else ret ())
    (thn (obj r sq_release_multimodal_runtime_tensors)
    (thn (obj r (sq_transition_to CANCELLED ''cancelled by caller'' now))
    (thn (upd (\<lambda>sd. sd\<lparr>sd_cancelled := sd_cancelled sd @ [r]\<rparr>))
    (thn (tally (\<lambda>c. c\<lparr>sn_cancelled := sn_cancelled c + 1\<rparr>))
    (thn sd_observe_state (ret True))))))))"

definition sd_cancel :: "int \<Rightarrow> nat \<Rightarrow> (bool, scheduler) op" where
  "sd_cancel now request_id = bnd (gets id) (\<lambda>sd.
     case find_request sd request_id (sd_waiting sd) of
       Some r \<Rightarrow> cancel_queued now r (\<lambda>sd. sd\<lparr>sd_waiting := remove1 r (sd_waiting sd)\<rparr>)
     | None \<Rightarrow> (case find_request sd request_id (sd_running sd) of
         Some r \<Rightarrow> cancel_queued now r (\<lambda>sd. sd\<lparr>sd_running := remove1 r (sd_running sd)\<rparr>)
       | None \<Rightarrow> (case find_request sd request_id (sd_swapped sd) of
           Some r \<Rightarrow> cancel_queued now r (\<lambda>sd. sd\<lparr>sd_swapped := remove1 r (sd_swapped sd)\<rparr>)
         | None \<Rightarrow> ret False)))"

section \<open>Metrics\<close>

definition sd_metrics_snapshot :: "scheduler \<Rightarrow> (string, pyval) dict" where
  "sd_metrics_snapshot sd = (let c = sd_counters sd; n = (\<lambda>i. PInt (int i)) in
     [(''policy'', PStr (po_name (policy_base (sd_policy sd)))), (''admitted_requests'', n (sn_admitted c)),
      (''rejected_requests'', n (sn_rejected c)), (''cancelled_requests'', n (sn_cancelled c)),
      (''completed_requests'', n (sn_completed c)), (''swap_in_operations'', n (sn_swap_in c)),
      (''swap_preemptions'', n (sn_swap_preemptions c)), (''recompute_preemptions'', n (sn_recompute_preemptions c)),
      (''heavy_prefill_batches'', n (sn_heavy_batches c)), (''heavy_prefill_deferrals'', n (sn_heavy_deferrals c)),
      (''light_prefill_bypasses'', n (sn_light_bypasses c)), (''deadline_prefill_reorders'', n (sn_deadline_reorders c)),
      (''cost_tier_batch_deferrals'', n (sn_cost_deferrals c)),
      (''light_prefill_bypasses_since_heavy'', PInt (sd_bypasses_since_heavy sd)),
      (''peak_waiting'', n (sn_peak_waiting c)), (''peak_running'', n (sn_peak_running c)),
      (''peak_swapped'', n (sn_peak_swapped c)), (''peak_active'', n (sn_peak_active c)),
      (''peak_gpu_kv_blocks'', n (sn_peak_gpu c)), (''peak_cpu_kv_blocks'', n (sn_peak_cpu c))])"

definition sd_reset_metrics :: "(unit, scheduler) op" where
  "sd_reset_metrics = bnd (gets id) (\<lambda>sd.
     thn (chk RuntimeError (sd_is_finished sd))
         (upd (\<lambda>sd. sd\<lparr>sd_requests := [], sd_rejected := [], sd_cancelled := [], sd_consecutive := 0,
            sd_decode_since_heavy := (case sd_policy sd of Vision_Policy p \<Rightarrow> vp_min_decode_batches p | _ \<Rightarrow> 1),
            sd_bypasses_since_heavy := 0, sd_counters := zero_scheduler_counters\<rparr>)))"

end
