(* ===== verification/Sequence_Frame.thy ===== *)
theory Sequence_Frame imports Scheduler begin

text \<open>
  What the calls of the block manager leave alone in the request they work on.  A frame is a reflexive and
  transitive relation between the request before and after; the locale \<open>sequence_frame\<close> carries it
  through the structure of an operation, and is interpreted for the part of a request that the scheduler
  owns and, for the calls that only look, for the page tables as well.
\<close>

definition framed :: "(sequence \<Rightarrow> sequence \<Rightarrow> bool) \<Rightarrow> ('a, mseq) op \<Rightarrow> bool" where
  "framed keep p \<longleftrightarrow> (\<forall>st. keep (snd st) (snd (snd (p st))))"

lemma framedD: "framed keep p \<Longrightarrow> p (m, s) = (r, (m', s')) \<Longrightarrow> keep s s'"
  unfolding framed_def by (metis snd_conv)

locale sequence_frame =
  fixes keep :: "sequence \<Rightarrow> sequence \<Rightarrow> bool"
  assumes keep_refl: "keep s s" and keep_trans: "keep s t \<Longrightarrow> keep t u \<Longrightarrow> keep s u"
begin

lemma framed_pure:
  "framed keep (ret x)" "framed keep (throw e)" "framed keep (chk e b)" "framed keep (lift_res r)"
  "framed keep (gets g)" "framed keep get_mgr" "framed keep get_seq" "framed keep bm_assert_block_size"
  by (auto simp: framed_def keep_refl ret_def throw_def chk_def lift_res_def gets_def get_mgr_def get_seq_def
      bm_assert_block_size_def bnd_def thn_def)

lemma framed_bnd:
  assumes "framed keep p" and "\<And>x. framed keep (f x)"
  shows "framed keep (bnd p f)"
  unfolding framed_def
proof
  fix st
  obtain r t where p: "p st = (r, t)" by (cases "p st")
  have 1: "keep (snd st) (snd t)" using assms(1) p unfolding framed_def by (metis snd_conv)
  show "keep (snd st) (snd (snd (bnd p f st)))"
  proof (cases r)
    case (Inr x)
    have "keep (snd t) (snd (snd (f x t)))" using assms(2) unfolding framed_def by blast
    then show ?thesis using keep_trans[OF 1] by (simp add: bnd_def p Inr)
  qed (simp add: bnd_def p 1)
qed

lemma framed_thn: "framed keep p \<Longrightarrow> framed keep q \<Longrightarrow> framed keep (thn p q)"
  unfolding thn_def by (rule framed_bnd)

lemma framed_catch:
  assumes "framed keep p" and "\<And>e. framed keep (h e)"
  shows "framed keep (catch p h)"
  unfolding framed_def
proof
  fix st
  obtain r t where p: "p st = (r, t)" by (cases "p st")
  have 1: "keep (snd st) (snd t)" using assms(1) p unfolding framed_def by (metis snd_conv)
  show "keep (snd st) (snd (snd (catch p h st)))"
  proof (cases r)
    case (Inl e)
    have "keep (snd t) (snd (snd (h e t)))" using assms(2) unfolding framed_def by blast
    then show ?thesis using keep_trans[OF 1] by (simp add: catch_def p Inl)
  qed (simp add: catch_def p 1)
qed

lemma framed_branch:
  "framed keep p \<Longrightarrow> framed keep q \<Longrightarrow> framed keep (if b then p else q)"
  "framed keep p \<Longrightarrow> (\<And>y. framed keep (f y)) \<Longrightarrow> framed keep (case x of None \<Rightarrow> p | Some y \<Rightarrow> f y)"
  "(\<And>a b. framed keep (g a b)) \<Longrightarrow> framed keep (case z of (a, b) \<Rightarrow> g a b)"
  "framed keep (k w) \<Longrightarrow> framed keep (let y = w in k y)"
  by (auto split: option.splits prod.splits)

lemma framed_mgr: "framed keep (on_mgr g)" "framed keep (count_event c)"
  by (auto simp: framed_def on_mgr_def zoom_def count_event_def upd_def keep_refl split: prod.splits)

lemma framed_set: "(\<And>s. keep s (g s)) \<Longrightarrow> framed keep (set_seq g)"
  by (auto simp: framed_def set_seq_def upd_def)

lemma framed_on_seq: "(\<And>s. keep s (snd (p s))) \<Longrightarrow> framed keep (on_seq p)"
  by (auto simp: framed_def on_seq_def zoom_def split: prod.splits) (metis snd_conv)

lemma framed_each: "(\<And>x. framed keep (f x)) \<Longrightarrow> framed keep (each xs f)"
  by (induction xs) (simp_all add: framed_pure framed_thn)

lemmas framed_rules = framed_pure framed_bnd framed_thn framed_catch framed_branch framed_mgr framed_each

lemma framed_walk: "framed keep (bm_walk xx is h n)"
  by (induction "is" arbitrary: h n) (auto simp: bm_lookup_def intro!: framed_rules)

lemma framed_queries:
  "framed keep bm_can_allocate" "framed keep bm_can_append" "framed keep bm_can_swap_out" "framed keep bm_can_swap_in"
  "framed keep (bm_cached_prefix_length xx)" "framed keep (bm_candidate xx c)" "framed keep (validate_layout_for tab)"
  unfolding bm_can_allocate_def bm_can_append_def bm_can_swap_out_def bm_can_swap_in_def bm_cached_prefix_length_def
    bm_candidate_def validate_layout_for_def
  by (intro framed_rules framed_walk)+

end

section \<open>The two frames\<close>

definition life_of :: "sequence \<Rightarrow> lifecycle \<times> nat \<times> nat \<times> int list \<times> nat \<times> nat \<times> nat \<times> bool" where
  "life_of s = (sq_lifecycle s, sq_seq_id s, sq_block_size s, sq_token_ids s, sq_num_tokens s, sq_num_prompt_tokens s,
     sq_max_tokens s, sq_ignore_eos s)"

definition life_kept :: "sequence \<Rightarrow> sequence \<Rightarrow> bool" where
  "life_kept s t \<longleftrightarrow> life_of t = life_of s"

definition cpu_kept :: "sequence \<Rightarrow> sequence \<Rightarrow> bool" where
  "cpu_kept s t \<longleftrightarrow> life_of t = life_of s \<and> (sq_cpu_block_table s = [] \<longrightarrow> sq_cpu_block_table t = [])"

definition tables_kept :: "sequence \<Rightarrow> sequence \<Rightarrow> bool" where
  "tables_kept s t \<longleftrightarrow> life_of t = life_of s \<and> sq_cpu_block_table t = sq_cpu_block_table s \<and> sq_block_table t = sq_block_table s"

interpretation life: sequence_frame life_kept by unfold_locales (simp_all add: life_kept_def)
interpretation cpu: sequence_frame cpu_kept by unfold_locales (simp_all add: cpu_kept_def)
interpretation tables: sequence_frame tables_kept by unfold_locales (simp_all add: tables_kept_def)

lemma framed_cached_prefix_tokens: "framed tables_kept (bm_cached_prefix_tokens xx)"
  unfolding bm_cached_prefix_tokens_def
  by (intro tables.framed_rules tables.framed_queries tables.framed_set) (simp_all add: tables_kept_def life_of_def)

lemma framed_deallocate: "framed life_kept bm_deallocate"
  unfolding bm_deallocate_def
  by (intro life.framed_rules life.framed_set) (simp_all add: life_kept_def life_of_def)

lemma framed_push: "framed cpu_kept (push_page b)"
  unfolding push_page_def by (intro cpu.framed_set) (simp add: cpu_kept_def life_of_def)

lemma framed_pages: "framed cpu_kept bm_alloc_page" "framed cpu_kept (bm_retain_page b)" "framed cpu_kept (bm_release_page b)"
  unfolding bm_alloc_page_def bm_retain_page_def bm_release_page_def by (intro cpu.framed_mgr)+

lemma framed_grow: "framed cpu_kept (bm_grow n)" "framed cpu_kept (bm_grow_to n)"
proof -
  show "framed cpu_kept (bm_grow n)" for n
    by (induction n) (auto intro!: cpu.framed_rules framed_push framed_pages)
  then show "framed cpu_kept (bm_grow_to n)" unfolding bm_grow_to_def by (intro cpu.framed_rules)
qed

lemma framed_dense_loop: "framed cpu_kept (bm_dense_loop xx is h miss)"
proof (induction "is" arbitrary: h miss)
  case (Cons i "is")
  show ?case unfolding bm_dense_loop.simps bm_lookup_def Let_def
    by (intro cpu.framed_rules cpu.framed_set framed_push framed_pages Cons.IH) (simp add: cpu_kept_def life_of_def)
qed (simp add: cpu.framed_pure)

lemma framed_privatize: "framed cpu_kept (bm_privatize i)"
  unfolding bm_privatize_def by (intro cpu.framed_rules cpu.framed_set framed_pages) (simp add: cpu_kept_def life_of_def)

lemma framed_privatize_range: "framed cpu_kept (bm_privatize_range n is)"
  by (induction n "is" rule: bm_privatize_range.induct) (auto intro!: cpu.framed_rules framed_privatize)

lemma framed_allocate_dense: "framed cpu_kept (bm_allocate_dense xx)"
  unfolding bm_allocate_dense_def
  by (intro cpu.framed_rules cpu.framed_set framed_dense_loop framed_privatize_range) (simp_all add: cpu_kept_def life_of_def)

lemma framed_copy_on_write: "framed cpu_kept bm_copy_on_write"
  unfolding bm_copy_on_write_def cow_fallback_def cow_finish_def replace_tail_def
  by (intro cpu.framed_rules cpu.framed_set framed_pages) (simp_all add: cpu_kept_def life_of_def)

lemma framed_hit_parts:
  "framed cpu_kept (retain_pages ids)" "framed cpu_kept (find_idle e)" "framed cpu_kept (admit_tail k b)" "framed cpu_kept (finish_hit k)"
  unfolding retain_pages_def find_idle_def admit_tail_def finish_hit_def
  by (intro cpu.framed_rules framed_push framed_pages)+

lemma framed_tails: "framed cpu_kept (bm_cow_tail k e n)" "framed cpu_kept (bm_fresh_tail k e n)"
  unfolding bm_cow_tail_def bm_fresh_tail_def
  by (intro cpu.framed_rules framed_push framed_pages framed_copy_on_write framed_hit_parts)+

lemma framed_install: "cpu_kept s (snd (sq_install_cached_prefix_layout ly s))" "cpu_kept s (snd (sq_install_kv_layout ly s))"
  by (auto simp: sq_install_cached_prefix_layout_def sq_install_kv_layout_def bnd_def thn_def gets_def chk_def ret_def throw_def
      lift_res_def upd_def cpu_kept_def life_of_def split: sum.splits)

lemma framed_hits: "framed cpu_kept (bm_allocate_prefix_hit k e)" "framed cpu_kept (bm_allocate_entry_hit k e)"
  unfolding bm_allocate_prefix_hit_def bm_allocate_entry_hit_def
  by (intro cpu.framed_rules cpu.framed_set cpu.framed_on_seq framed_install framed_push framed_pages framed_hit_parts framed_tails framed_grow;
      simp add: cpu_kept_def life_of_def)+

lemma framed_dealloc_cpu: "framed cpu_kept bm_deallocate"
  unfolding bm_deallocate_def
  by (intro cpu.framed_rules cpu.framed_set) (simp_all add: cpu_kept_def life_of_def)

lemma framed_rollback: "framed cpu_kept p \<Longrightarrow> framed cpu_kept (rollback p)"
  unfolding rollback_def by (intro cpu.framed_rules framed_dealloc_cpu)

lemma framed_allocate: "framed cpu_kept (bm_allocate xx)"
  unfolding bm_allocate_def bm_allocate_matched_def
  by (intro cpu.framed_rules cpu.framed_queries cpu.framed_set framed_rollback framed_hits framed_allocate_dense)
    (simp_all add: cpu_kept_def life_of_def)

lemma framed_may_append: "framed cpu_kept bm_may_append"
  unfolding bm_may_append_def by (intro cpu.framed_rules framed_pages framed_push)

lemma framed_publish_loop: "framed tables_kept (bm_publish_loop xx is h)"
  by (induction "is" arbitrary: h) (auto intro!: tables.framed_rules)

lemma framed_publish: "framed tables_kept (bm_publish xx a b)"
  unfolding bm_publish_def by (intro tables.framed_rules framed_publish_loop)

lemma framed_swap: "framed life_kept bm_swap_out" "framed life_kept bm_swap_in"
  unfolding bm_swap_out_def bm_swap_in_def bm_validate_swap_in_metadata_def restore_hash_def
  by (intro life.framed_rules life.framed_queries life.framed_set; simp add: life_kept_def life_of_def)+

lemma framed_compaction: "framed cpu_kept (bm_build_compaction_plan dt)" "framed cpu_kept (bm_commit_compaction plan)"
  unfolding bm_build_compaction_plan_def bm_commit_compaction_def cc_build_plan_def cc_commit_def release_private_def
    publish_layout_def
  by (intro cpu.framed_rules cpu.framed_set cpu.framed_on_seq framed_install framed_pages; simp add: cpu_kept_def life_of_def)+

lemma framed_store: "framed cpu_kept bm_store_prefix"
  unfolding bm_store_prefix_def reject_prefix_def admit_prefix_def
  by (intro cpu.framed_rules framed_pages)

text \<open>What the successful calls leave in the tables.\<close>

definition leaves :: "(sequence \<Rightarrow> bool) \<Rightarrow> ('a, mseq) op \<Rightarrow> bool" where
  "leaves P p \<longleftrightarrow> (\<forall>st x t. p st = (Inr x, t) \<longrightarrow> P (snd t))"

lemma leaves_last:
  "(\<And>x. leaves P (f x)) \<Longrightarrow> leaves P (bnd p f)" "leaves P q \<Longrightarrow> leaves P (thn p q)" "leaves P (k w) \<Longrightarrow> leaves P (let y = w in k y)"
  "(\<And>s. P (g s)) \<Longrightarrow> leaves P (set_seq g)"
  by (auto simp: leaves_def thn_def bnd_def set_seq_def upd_def split: prod.splits sum.splits)

lemma leaves_then:
  assumes "leaves P p" and "framed tables_kept q" and "\<And>s t. tables_kept s t \<Longrightarrow> P s \<Longrightarrow> P t"
  shows "leaves P (thn p q)"
  unfolding leaves_def
proof (intro allI impI)
  fix st x t assume "thn p q st = (Inr x, t)"
  then obtain y u where "p st = (Inr y, u)" "q u = (Inr x, t)" by (auto simp: thn_def bnd_def split: prod.splits sum.splits)
  then show "P (snd t)" using assms unfolding leaves_def framed_def by (metis snd_conv)
qed

lemma leaves_deallocate: "leaves (\<lambda>s. sq_block_table s = [] \<and> sq_cpu_block_table s = []) bm_deallocate"
  unfolding bm_deallocate_def by (intro leaves_last) simp

lemma leaves_checked:
  assumes "\<And>s. P (g s)" and "\<And>s t. tables_kept s t \<Longrightarrow> P s \<Longrightarrow> P t"
  shows "leaves P (thn (set_seq g) (thn (validate_layout_for tab) (ret x)))"
proof (rule leaves_then[OF _ _ assms(2)])
  show "leaves P (set_seq g)" using assms(1) by (rule leaves_last(4))
  show "framed tables_kept (thn (validate_layout_for tab) (ret x))" by (intro tables.framed_rules tables.framed_queries)
qed

lemma leaves_swap:
  "leaves (\<lambda>s. sq_block_table s = []) bm_swap_out" "leaves (\<lambda>s. sq_cpu_block_table s = []) bm_swap_in"
  unfolding bm_swap_out_def bm_swap_in_def Let_def
  by (rule leaves_checked leaves_last(1,2) | simp add: tables_kept_def)+

end
