(* ===== verification/Manager_Properties.thy ===== *)
theory Manager_Properties imports Manager_System begin

text \<open>
  The properties of \<open>BlockManager\<close>, stated of the calls on a reachable state of the machine of
  \<open>Manager_System\<close> and instantiated on the concrete run of \<open>Block_Example\<close>.
\<close>

section \<open>Reachable states\<close>

definition reachable :: "hash_fun \<Rightarrow> int \<Rightarrow> system \<Rightarrow> bool" where
  "reachable xx n sys \<longleftrightarrow> (\<exists>b c ep bl m ls. bm_init n b c ep bl = Inr m \<and> run (system_step xx) (m, []) ls sys)"

lemma reachableI: "bm_init n b c ep bl = Inr m \<Longrightarrow> run (system_step xx) (m, []) ls sys \<Longrightarrow> reachable xx n sys"
  unfolding reachable_def by (intro exI conjI)

lemma reachable_inv:
  assumes "reachable xx n (m, ss)"
  shows "system_inv (m, ss)" and "gp_capacity (bm_gpu m) = nat n"
proof -
  obtain b c ep bl m0 ls where I: "bm_init n b c ep bl = Inr m0" and R: "run (system_step xx) (m0, []) ls (m, ss)"
    using assms by (auto simp: reachable_def)
  have s: "system_inv (m0, [])" using bm_init_inv(1-3)[OF I] by (simp add: system_inv_def refs_of_def cpu_pages_def)
  show "system_inv (m, ss)" by (rule manager_machine.run_inv[OF R s])
  have "system_frame (m, ss) = system_frame (m0, [])" by (rule manager_machine.run_const[OF R s])
  then show "gp_capacity (bm_gpu m) = nat n" using bm_init_inv(6)[OF I] by (simp add: system_frame_def Let_def)
qed

lemma reachable_owned:
  assumes "reachable xx n (m, ss)" and "i < length ss"
  shows "owned (refs_of (others i ss)) (set (cpu_pages (others i ss))) (m, ss ! i)"
    and "held (refs_of (others i ss)) (m, ss ! i)"
  using system_owned(1)[OF reachable_inv(1)[OF assms(1)] assms(2)] by (simp_all add: owned_def)

lemma run_snoc: "run st a ls b \<Longrightarrow> st b l c \<Longrightarrow> run st a (ls @ [l]) c"
  by (induction rule: run.induct) (auto simp: run_Cons_iff)

lemma reachable_step:
  assumes "reachable xx n sys" and "system_step xx sys l sys'"
  shows "reachable xx n sys'"
proof -
  obtain b c ep bl m0 ls where I: "bm_init n b c ep bl = Inr m0" and R: "run (system_step xx) (m0, []) ls sys"
    using assms(1) by (auto simp: reachable_def)
  show ?thesis by (rule reachableI[OF I run_snoc[OF R assms(2)]])
qed

lemma reachable_run:
  assumes "reachable xx n sys" and "run (system_step xx) sys ls sys'"
  shows "reachable xx n sys'"
  using assms(2,1) by (induction rule: run.induct) (auto intro: reachable_step)

lemma example_reachable: "reachable example_hash 4 (fst example_running, [snd example_running])"
proof -
  have 1: "reachable example_hash 4 (example_manager, [])"
    by (rule reachableI[OF example_manager_init run_Nil])
  have "system_step example_hash (example_manager, []) (Submit example_seq) (example_manager, [] @ [example_seq])"
    by (rule step_submit) (simp_all add: example_seq_def sequence_new_def example_args_def lifecycle_new_def)
  with 1 have 2: "reachable example_hash 4 (example_manager, [example_seq])" using reachable_step by fastforce
  have "snd (bm_exec example_hash Allocate (example_manager, [example_seq] ! 0)) = (fst example_running, snd example_running)"
    by (simp add: example_running_def void_def bnd_def ret_def split: prod.splits sum.splits)
  then have "system_step example_hash (example_manager, [example_seq]) (Call 0 Allocate)
      (fst example_running, [example_seq][0 := snd example_running])"
    by (intro step_call) simp_all
  then show ?thesis using reachable_step[OF 2] by simp
qed

section \<open>Accounting\<close>

text \<open>C1: whatever calls were made on whatever sequences of a new manager, raising ones included, the reference
  count of every GPU page is the number of its occurrences in page tables plus those in cache entries,
  the free count is the number of pages that occur nowhere (no page leaks), every page of a table
  exists, the CPU tables share no page and hold exactly the used CPU pages, and the cache
  holds as many pages as it accounts for, within its bound.\<close>

theorem manager_pages_accounted:
  assumes "bm_init n b c ep bl = Inr m0" and "run (system_step xx) (m0, []) labels (m, ss)"
  shows "(\<forall>p < nat n. gp_ref (bm_gpu m) p = int (sum_list (map (\<lambda>s. count_list (sq_block_table s) p) ss) +
        count_list (cache_pages None (bm_cache m)) p)) \<and>
    gp_free_count (bm_gpu m) = card {p. p < nat n \<and> (\<forall>s \<in> set ss. p \<notin> set (sq_block_table s)) \<and>
        p \<notin> set (cache_pages None (bm_cache m))} \<and>
    (\<forall>s \<in> set ss. set (sq_block_table s) \<subseteq> {..<nat n}) \<and>
    distinct (concat (map sq_cpu_block_table ss)) \<and> cp_used (bm_cpu m) = set (concat (map sq_cpu_block_table ss)) \<and>
    bm_cache_blocks m = int (length (cache_pages None (bm_cache m))) \<and> bm_cache_blocks m \<le> int (bm_cache_max m)"
proof -
  have R: "reachable xx n (m, ss)" by (rule reachableI[OF assms])
  note inv = reachable_inv[OF R]
  have B: "bm_inv (refs_of ss) m" using inv(1) by (simp add: system_inv_def)
  have zero: "refs_of ss p = 0 \<longleftrightarrow> (\<forall>s \<in> set ss. p \<notin> set (sq_block_table s))" for p
    by (auto simp: refs_of_def sum_list_eq_0_iff count_list_0_iff)
  have refs: "\<forall>p < nat n. gp_ref (bm_gpu m) p = int (sum_list (map (\<lambda>s. count_list (sq_block_table s) p) ss) +
        count_list (cache_pages None (bm_cache m)) p)"
    using refs_okD(2)[OF bm_invD(1)[OF B]] inv(2) by (simp add: refs_of_def)
  have free: "gp_free_count (bm_gpu m) = card {p. p < nat n \<and> (\<forall>s \<in> set ss. p \<notin> set (sq_block_table s)) \<and>
        p \<notin> set (cache_pages None (bm_cache m))}"
    using free_count_owned[OF bm_invD(1)[OF B]] inv(2) by (simp only: zero)
  have "set (sq_block_table s) \<subseteq> {..<nat n}" if "s \<in> set ss" for s
    using that zero owned_used[OF bm_invD(1)[OF B]] inv(2) by (fastforce simp: not_less)
  then show ?thesis using refs free inv(1) bm_invD(2)[OF B]
    by (auto simp: system_inv_def cpu_pages_def cache_ok_def)
qed

theorem manager_pages_accounted_witness:
  "gp_ref (bm_gpu example_manager) 2 = 0"
  using manager_pages_accounted[OF example_manager_init run_Nil]
  by (simp add: bm_init_inv(5)[OF example_manager_init])

section \<open>Admission\<close>










section \<open>Deallocation and swapping\<close>

text \<open>C32: deallocating a sequence of the manager's block size cannot raise, empties both its tables and its
  layout, and leaves exactly the references of the other sequences and of the cache: its private
  pages are free again on both devices.\<close>

theorem deallocate_returns_pages:
  assumes "reachable xx n (m, ss)" and "i < length ss" and "sq_block_size (ss ! i) = bm_block_size m"
  shows "\<exists>m' s'. bm_deallocate (m, ss ! i) = (Inr (), (m', s')) \<and> sq_block_table s' = [] \<and> sq_cpu_block_table s' = [] \<and>
    sq_kv_layout s' = None \<and>
    (\<forall>p < nat n. gp_ref (bm_gpu m') p = int (sum_list (map (\<lambda>s. count_list (sq_block_table s) p) (others i ss)) +
       count_list (cache_pages None (bm_cache m')) p)) \<and>
    cp_used (bm_cpu m') = set (concat (map sq_cpu_block_table (others i ss)))"
proof -
  let ?rest = "refs_of (others i ss)" and ?crest = "set (cpu_pages (others i ss))"
  note o = reachable_owned(1)[OF assms(1,2)]
  obtain m' s' where D: "bm_deallocate (m, ss ! i) = (Inr (), (m', s'))"
    and post: "steady ?rest ?crest (m, ss ! i) (m', s')" "freed_all ?rest ?crest (m', s')"
    using wp_deallocate[OF o assms(3)] by (auto simp: wp_total)
  have "gp_capacity (bm_gpu m') = nat n"
    using post(1) reachable_inv(2)[OF assms(1)] by (simp add: steady_def same_shape_def same_config_def)
  then have "\<forall>p < nat n. gp_ref (bm_gpu m') p = int (?rest p + count_list (cache_pages None (bm_cache m')) p)"
    using refs_okD(2)[OF bm_invD(1)[of ?rest m']] post(2) by (simp add: freed_all_def)
  then show ?thesis using D post(2) by (auto simp: freed_all_def refs_of_def cpu_pages_def)
qed

theorem deallocate_returns_pages_witness:
  "\<exists>m' s'. bm_deallocate example_running = (Inr (), (m', s')) \<and> sq_block_table s' = []"
proof -
  have "sq_block_size (snd example_running) = bm_block_size (fst example_running)" by code_simp
  then show ?thesis using deallocate_returns_pages[OF example_reachable, of 0] by auto
qed

text \<open>A sequence that is swapped out and then left alone.\<close>

lemma swap_out_then:
  assumes "reachable xx n (m, ss)" and "i < length ss" and "sq_block_size (ss ! i) = bm_block_size m"
    and "bm_swap_out (m, ss ! i) = (Inr out, (m1, s1))"
    and "run (system_step xx) (m1, ss[i := s1]) labels (m2, ss2)" and "i < length ss2" and "ss2 ! i = s1"
  shows "owned (refs_of (others i ss2)) (set (cpu_pages (others i ss2))) (m2, s1) \<and> sq_block_size s1 = bm_block_size m2 \<and>
    bm_block_size m2 = bm_block_size m \<and> bm_block_size m1 = bm_block_size m"
proof -
  have out: "swapped_out (refs_of (others i ss)) (set (cpu_pages (others i ss))) (m, ss ! i) out (m1, s1)"
    by (rule wp_okD[OF wp_swap_out[OF reachable_owned(1)[OF assms(1,2)] assms(3)] assms(4)])
  have "snd (bm_exec xx SwapOut (m, ss ! i)) = (m1, s1)" by (simp add: void_def bnd_def ret_def assms(4))
  then have "system_step xx (m, ss) (Call i SwapOut) (m1, ss[i := s1])" using assms(2) by (intro step_call) simp_all
  then have R1: "reachable xx n (m1, ss[i := s1])" by (rule reachable_step[OF assms(1)])
  have inv1: "system_inv (m1, ss[i := s1])" by (rule reachable_inv(1)[OF R1])
  have inv2: "system_inv (m2, ss2)" by (rule manager_machine.run_inv[OF assms(5) inv1])
  have "system_frame (m2, ss2) = system_frame (m1, ss[i := s1])" by (rule manager_machine.run_const[OF assms(5) inv1])
  then show ?thesis using out assms(3) system_owned(1)[OF inv2 assms(6)] assms(7)
    by (simp add: system_frame_def Let_def swapped_out_def steady_def same_shape_def same_config_def)
qed

text \<open>C33: swapping a sequence out either changes nothing, exactly when a condition of it fails, or moves all its
  pages to as many CPU pages; when it is swapped in again, after any other activity that left the
  sequence alone, every page with a published hash is restored with that hash, its tokens
  and its media identities, and every other page carries no hash.\<close>

theorem swap_preserves_hashes:
  assumes "reachable xx n (m, ss)" and "i < length ss" and "sq_block_size (ss ! i) = bm_block_size m"
    and "bm_swap_out (m, ss ! i) = (Inr out, (m1, s1))"
    and "run (system_step xx) (m1, ss[i := s1]) labels (m2, ss2)" and "i < length ss2" and "ss2 ! i = s1"
    and "bm_swap_in (m2, s1) = (Inr inn, (m3, s3))"
  shows "sq_block_table s1 = [] \<and> length (sq_cpu_block_table s1) = length (sq_block_table (ss ! i)) \<and>
    out = zip (sq_block_table (ss ! i)) (sq_cpu_block_table s1) \<and>
    inn = zip (sq_cpu_block_table s1) (sq_block_table s3) \<and> sq_cpu_block_table s3 = [] \<and> distinct (sq_block_table s3) \<and>
    length (sq_block_table s3) = length (sq_block_table (ss ! i)) \<and>
    (\<forall>k < length (sq_block_table s3).
       let old = gp_blocks (bm_gpu m) ! (sq_block_table (ss ! i) ! k); new = gp_blocks (bm_gpu m3) ! (sq_block_table s3 ! k)
       in blk_hash new = blk_hash old \<and>
          (blk_hash old \<noteq> NO_BLOCK_HASH \<longrightarrow> blk_tokens new = blk_tokens old \<and> blk_mm new = blk_mm old))"
proof -
  let ?tab = "sq_block_table (ss ! i)"
  have out: "swapped_out (refs_of (others i ss)) (set (cpu_pages (others i ss))) (m, ss ! i) out (m1, s1)"
    by (rule wp_okD[OF wp_swap_out[OF reachable_owned(1)[OF assms(1,2)] assms(3)] assms(4)])
  note S = swap_out_then[OF assms(1-7)]
  have o2: "owned (refs_of (others i ss2)) (set (cpu_pages (others i ss2))) (m2, s1)" and bs: "sq_block_size s1 = bm_block_size m2"
    using S by simp_all
  have inn: "swapped_in (refs_of (others i ss2)) (set (cpu_pages (others i ss2))) (m2, s1) inn (m3, s3)"
    by (rule wp_okD[OF wp_swap_in[OF o2 bs] assms(8)])
  have md: "swap_metadata s1 = saved (bm_gpu m) ?tab" using out by (simp add: swapped_out_def)
  have len: "length (sq_block_table s3) = length ?tab" using out inn by (simp add: swapped_out_def swapped_in_def)
  have "list_all2 (\<lambda>b md. carries (gp_blocks (bm_gpu m3) ! b) md) (sq_block_table s3) (saved (bm_gpu m) ?tab)"
    using inn md by (simp add: swapped_in_def)
  then have "carries (gp_blocks (bm_gpu m3) ! (sq_block_table s3 ! k)) (saved (bm_gpu m) ?tab ! k)" if "k < length ?tab" for k
    using that len by (auto simp: list_all2_conv_all_nth)
  then show ?thesis using out inn len
    by (auto simp: swapped_out_def swapped_in_def carries_def saved_def Let_def)
qed

theorem swap_preserves_hashes_witness:
  "\<exists>m1 s1 m3 s3 out inn. bm_swap_out example_running = (Inr out, (m1, s1)) \<and> bm_swap_in (m1, s1) = (Inr inn, (m3, s3)) \<and>
     length (sq_block_table s3) = 2"
proof -
  have "is_ok (fst (bm_swap_out example_running)) \<and> is_ok (fst (bm_swap_in (snd (bm_swap_out example_running)))) \<and>
      sq_block_size (snd example_running) = bm_block_size (fst example_running) \<and> length (sq_block_table (snd example_running)) = 2"
    by code_simp
  then obtain out m1 s1 inn m3 s3 where S: "bm_swap_out example_running = (Inr out, (m1, s1))"
    "bm_swap_in (m1, s1) = (Inr inn, (m3, s3))" "sq_block_size (snd example_running) = bm_block_size (fst example_running)"
    "length (sq_block_table (snd example_running)) = 2"
    by (metis is_ok_iff prod.collapse snd_conv)
  have "length (sq_block_table s3) = 2"
    using swap_preserves_hashes[OF example_reachable, of 0 out m1 s1 "[]" m1 "[s1]" inn m3 s3] S by simp
  then show ?thesis using S by blast
qed






section \<open>Making room\<close>

text \<open>C24: \<open>_ensure_free_blocks\<close> always returns: it succeeds exactly when the free and the reclaimable pages cover
  the request, changes nothing when the free pages already do, never evicts the protected entry,
  never adds an entry and never takes a page from a sequence; otherwise it raises \<open>RuntimeError\<close>.\<close>

theorem ensure_free_exact:
  assumes "reachable xx n (m, ss)"
  shows "\<exists>r t. bm_ensure_free required prot m = (r, t) \<and>
    r = (if required \<le> int (gp_free_count (bm_gpu m) + bm_reclaimable prot m) then Inr () else Inl RuntimeError) \<and>
    (r = Inr () \<longrightarrow> required \<le> int (gp_free_count (bm_gpu t))) \<and>
    (r = Inr () \<and> required \<le> int (gp_free_count (bm_gpu m)) \<longrightarrow> t = m) \<and>
    (\<forall>k. prot = Some k \<longrightarrow> map_of (bm_cache t) k = map_of (bm_cache m) k) \<and>
    set (map fst (bm_cache t)) \<subseteq> set (map fst (bm_cache m)) \<and>
    (\<forall>s \<in> set ss. \<forall>p \<in> set (sq_block_table s). 0 < gp_ref (bm_gpu t) p)"
proof -
  have inv: "bm_inv (refs_of ss) m" using reachable_inv(1)[OF assms] by (simp add: system_inv_def)
  have card: "int (gp_free_count (bm_gpu m) + bm_reclaimable prot m) = int (card (obtainable (refs_of ss) prot m))"
    using free_plus_reclaimable[OF bm_invD(1,4)[OF inv], of prot] by simp
  have refs: "0 < gp_ref (bm_gpu t) p" if t: "bm_inv (refs_of ss) t" and s: "s \<in> set ss" "p \<in> set (sq_block_table s)" for t s p
  proof -
    have "refs_of ss p \<noteq> 0" using s by (auto simp: refs_of_def sum_list_eq_0_iff count_list_0_iff)
    then have pos: "0 < refs_of ss p" by simp
    then show ?thesis using refs_okD(2)[OF bm_invD(1)[OF t]] owned_used(2)[OF bm_invD(1)[OF t]] by fastforce
  qed
  have keep: "(\<forall>k. prot = Some k \<longrightarrow> map_of (bm_cache t) k = map_of (bm_cache m) k) \<and>
      set (map fst (bm_cache t)) \<subseteq> set (map fst (bm_cache m))" if "keeps prot m t" for t
    using that by (auto simp: keeps_def protected_def keys_def)
  have "wp (bm_ensure_free required prot) (\<lambda>r t. required \<le> int (card (obtainable (refs_of ss) prot m)) \<and> ensure_post (refs_of ss) prot m t \<and>
        required \<le> int (gp_free_count (bm_gpu t)) \<and> (required \<le> int (gp_free_count (bm_gpu m)) \<longrightarrow> t = m))
      (\<lambda>e t. e = RuntimeError \<and> int (card (obtainable (refs_of ss) prot m)) < required \<and> ensure_post (refs_of ss) prot m t) m"
    by (rule wp_ensure_free[OF inv]) auto
  note E = this
  obtain r t where rt: "bm_ensure_free required prot m = (r, t)" by (cases "bm_ensure_free required prot m")
  show ?thesis
  proof (cases r)
    case (Inl e)
    note F = wp_errD[OF E rt[unfolded Inl]]
    then have post: "bm_inv (refs_of ss) t" "keeps prot m t" and e: "e = RuntimeError" "\<not> required \<le> int (gp_free_count (bm_gpu m) + bm_reclaimable prot m)"
      unfolding card by (auto simp: ensure_post_def)
    then show ?thesis using rt Inl refs[OF post(1)] keep[OF post(2)] by simp
  next
    case (Inr x)
    note F = wp_okD[OF E rt[unfolded Inr]]
    then have post: "bm_inv (refs_of ss) t" "keeps prot m t" and e: "required \<le> int (gp_free_count (bm_gpu m) + bm_reclaimable prot m)"
      "required \<le> int (gp_free_count (bm_gpu t))" "required \<le> int (gp_free_count (bm_gpu m)) \<longrightarrow> t = m"
      unfolding card by (auto simp: ensure_post_def)
    then show ?thesis using rt Inr refs[OF post(1)] keep[OF post(2)] by simp
  qed
qed

theorem ensure_free_exact_witness:
  "\<exists>t. bm_ensure_free 2 None (fst example_running) = (Inr (), t)"
proof -
  have "2 \<le> int (gp_free_count (bm_gpu (fst example_running)) + bm_reclaimable None (fst example_running))" by code_simp
  then show ?thesis using ensure_free_exact[OF example_reachable, of 2 None] by auto
qed

section \<open>Growing a running sequence\<close>








end
