(* ===== verification/Scheduler_Invariant.thy ===== *)
theory Scheduler_Invariant imports Sequence_Frame Manager_Properties begin

text \<open>
  The invariant of the scheduler's queues and a calculus for its steps.  A request in a queue has the status
  and the page tables that the queue promises; a request in no queue is in a terminal state and holds no
  page.  While a step works on a request the promise is suspended: the request is in the hand of the step,
  with the predicate that holds of it meanwhile.  \<open>good\<close> is partial correctness of a scheduler
  operation, and at the same time the simulation by the block manager's machine: whatever the operation
  does, also when it raises, manager and requests stay in a reachable state of that machine.
\<close>

section \<open>What a queue promises\<close>

definition role_waiting :: "sequence \<Rightarrow> bool" where
  "role_waiting s \<longleftrightarrow> sq_status s = WAITING \<and> sq_block_table s = [] \<and> sq_cpu_block_table s = []"

definition role_running :: "sequence \<Rightarrow> bool" where
  "role_running s \<longleftrightarrow> (sq_status s = PREFILLING \<or> sq_status s = DECODING) \<and> sq_cpu_block_table s = []"

definition role_decoding :: "sequence \<Rightarrow> bool" where
  "role_decoding s \<longleftrightarrow> sq_status s = DECODING \<and> sq_cpu_block_table s = []"

definition role_swapped :: "sequence \<Rightarrow> bool" where
  "role_swapped s \<longleftrightarrow> sq_status s = SWAPPED \<and> sq_block_table s = []"

definition role_gone :: "sequence \<Rightarrow> bool" where
  "role_gone s \<longleftrightarrow> is_terminal (sq_status s) \<and> sq_block_table s = [] \<and> sq_cpu_block_table s = []"

lemmas roles = role_waiting_def role_running_def role_decoding_def role_swapped_def role_gone_def

type_synonym hand = "(nat \<times> (sequence \<Rightarrow> bool)) list"

definition held_refs :: "hand \<Rightarrow> nat set" where
  "held_refs h = fst ` set h"

lemma held_refs_simps [simp]: "held_refs [] = {}" "held_refs (x # h) = insert (fst x) (held_refs h)"
  "held_refs (h @ h') = held_refs h \<union> held_refs h'"
  by (auto simp: held_refs_def)

definition sd_config :: "scheduler \<Rightarrow> scheduler_policy \<times> int \<times> int \<times> int" where
  "sd_config sd = (sd_policy sd, sd_max_num_seqs sd, sd_max_num_batched_tokens sd, sd_max_vision_patches sd)"

text \<open>Only a vision-aware policy lets later requests pass the oldest one, and only so often.\<close>

fun bypass_bound :: "scheduler_policy \<Rightarrow> int" where
  "bypass_bound (Vision_Policy q) = max 0 (vp_max_light_bypasses q)"
| "bypass_bound (FCFS_Policy q) = 0"
| "bypass_bound (SLO_Policy q) = 0"

definition bypass_ok :: "scheduler \<Rightarrow> bool" where
  "bypass_ok sd \<longleftrightarrow> sd_bypasses_since_heavy sd \<le> bypass_bound (sd_policy sd)"

text \<open>\<open>seats\<close> are places kept free in the running queue for requests that the step will put there.\<close>

definition queues_ok :: "hand \<Rightarrow> scheduler \<Rightarrow> bool" where
  "queues_ok h sd \<longleftrightarrow>
     distinct (sd_waiting sd @ sd_running sd @ sd_swapped sd) \<and> distinct (map fst h) \<and>
     set (sd_waiting sd @ sd_running sd @ sd_swapped sd) \<union> held_refs h \<subseteq> {..<length (sd_objs sd)} \<and>
     (\<forall>r \<in> set (sd_waiting sd) - held_refs h. role_waiting (sd_objs sd ! r)) \<and>
     (\<forall>r \<in> set (sd_running sd) - held_refs h. role_running (sd_objs sd ! r)) \<and>
     (\<forall>r \<in> set (sd_swapped sd) - held_refs h. role_swapped (sd_objs sd ! r)) \<and>
     (\<forall>r < length (sd_objs sd). r \<notin> set (sd_waiting sd @ sd_running sd @ sd_swapped sd) \<union> held_refs h \<longrightarrow> role_gone (sd_objs sd ! r)) \<and>
     (\<forall>x \<in> set h. snd x (sd_objs sd ! fst x)) \<and>
     (\<forall>r \<in> set (sd_waiting sd @ sd_running sd @ sd_swapped sd) \<union> held_refs h.
        dict_get (sd_requests sd) (sq_seq_id (sd_objs sd ! r)) = Some r)"

definition sched_inv :: "scheduler_policy \<times> int \<times> int \<times> int \<Rightarrow> nat \<Rightarrow> hand \<Rightarrow> scheduler \<Rightarrow> bool" where
  "sched_inv cfg seats h sd \<longleftrightarrow> sd_config sd = cfg \<and> queues_ok h sd \<and> bypass_ok sd \<and>
     int (length (sd_running sd) + seats) \<le> sd_max_num_seqs sd"

lemma sched_invI:
  "sd_config sd = cfg \<Longrightarrow> queues_ok h sd \<Longrightarrow> bypass_ok sd \<Longrightarrow> int (length (sd_running sd) + seats) \<le> sd_max_num_seqs sd \<Longrightarrow>
   sched_inv cfg seats h sd"
  by (simp add: sched_inv_def)

section \<open>Moves of the hand\<close>

lemma grab_waiting: "sched_inv cfg k h sd \<Longrightarrow> r \<in> set (sd_waiting sd) \<Longrightarrow> r \<notin> held_refs h \<Longrightarrow> sched_inv cfg k ((r, role_waiting) # h) sd"
  unfolding sched_inv_def queues_ok_def by (auto simp: held_refs_def)

lemma grab_running: "sched_inv cfg k h sd \<Longrightarrow> r \<in> set (sd_running sd) \<Longrightarrow> r \<notin> held_refs h \<Longrightarrow> sched_inv cfg k ((r, role_running) # h) sd"
  unfolding sched_inv_def queues_ok_def by (auto simp: held_refs_def)

lemma grab_swapped: "sched_inv cfg k h sd \<Longrightarrow> r \<in> set (sd_swapped sd) \<Longrightarrow> r \<notin> held_refs h \<Longrightarrow> sched_inv cfg k ((r, role_swapped) # h) sd"
  unfolding sched_inv_def queues_ok_def by (auto simp: held_refs_def)

lemma release_waiting:
  "sched_inv cfg k ((r, p) # h) sd \<Longrightarrow> r \<in> set (sd_waiting sd) \<Longrightarrow> (\<And>s. p s \<Longrightarrow> role_waiting s) \<Longrightarrow> sched_inv cfg k h sd"
  unfolding sched_inv_def queues_ok_def by (clarsimp simp: held_refs_def) blast

lemma release_running:
  "sched_inv cfg k ((r, p) # h) sd \<Longrightarrow> r \<in> set (sd_running sd) \<Longrightarrow> (\<And>s. p s \<Longrightarrow> role_running s) \<Longrightarrow> sched_inv cfg k h sd"
  unfolding sched_inv_def queues_ok_def by (clarsimp simp: held_refs_def) blast

lemma release_swapped:
  "sched_inv cfg k ((r, p) # h) sd \<Longrightarrow> r \<in> set (sd_swapped sd) \<Longrightarrow> (\<And>s. p s \<Longrightarrow> role_swapped s) \<Longrightarrow> sched_inv cfg k h sd"
  unfolding sched_inv_def queues_ok_def by (clarsimp simp: held_refs_def) blast

lemma release_gone:
  "sched_inv cfg k ((r, p) # h) sd \<Longrightarrow> r \<notin> set (sd_waiting sd @ sd_running sd @ sd_swapped sd) \<Longrightarrow>
   (\<And>s. p s \<Longrightarrow> role_gone s) \<Longrightarrow> sched_inv cfg k h sd"
  unfolding sched_inv_def queues_ok_def by (clarsimp simp: held_refs_def) blast

lemma hand_weaken: "sched_inv cfg k ((r, p) # h) sd \<Longrightarrow> (\<And>s. p s \<Longrightarrow> q s) \<Longrightarrow> sched_inv cfg k ((r, q) # h) sd"
  unfolding sched_inv_def queues_ok_def by (auto simp: held_refs_def)

lemma hand_perm: "sched_inv cfg k h sd \<Longrightarrow> mset h = mset h' \<Longrightarrow> sched_inv cfg k h' sd"
proof -
  assume a: "sched_inv cfg k h sd" "mset h = mset h'"
  have "set h' = set h" "distinct (map fst h') = distinct (map fst h)"
    using a(2) by (metis set_mset_mset) (metis a(2) mset_eq_imp_distinct_iff mset_map)
  then show ?thesis using a(1) unfolding sched_inv_def queues_ok_def held_refs_def by simp
qed

lemma hand_facts:
  assumes "sched_inv cfg k ((r, p) # h) sd"
  shows "r < length (sd_objs sd)" "p (sd_objs sd ! r)" "r \<notin> held_refs h"
  using assms by (auto simp: sched_inv_def queues_ok_def held_refs_def)

lemma hand_in: "sched_inv cfg k h sd \<Longrightarrow> (r, p) \<in> set h \<Longrightarrow> r < length (sd_objs sd) \<and> p (sd_objs sd ! r)"
  by (force simp: sched_inv_def queues_ok_def held_refs_def)

lemma inv_config: "sched_inv cfg k h sd \<Longrightarrow> sd_config sd = cfg"
  by (simp add: sched_inv_def)

lemma fewer_seats: "sched_inv cfg k h sd \<Longrightarrow> k' \<le> k \<Longrightarrow> sched_inv cfg k' h sd"
  by (simp add: sched_inv_def)

section \<open>Moves of the queues\<close>

definition same_core :: "scheduler \<Rightarrow> scheduler \<Rightarrow> bool" where
  "same_core sd sd' \<longleftrightarrow> sd_config sd' = sd_config sd \<and> sd_objs sd' = sd_objs sd \<and> sd_requests sd' = sd_requests sd \<and>
     sd_bypasses_since_heavy sd' = sd_bypasses_since_heavy sd"

text \<open>A request in the hand may be moved between the queues.\<close>

lemma requeue:
  assumes "sched_inv cfg k h sd" and "same_core sd sd'" and "r \<in> held_refs h"
    and "distinct (sd_waiting sd' @ sd_running sd' @ sd_swapped sd')"
    and "insert r (set (sd_waiting sd')) = insert r (set (sd_waiting sd))"
    and "insert r (set (sd_running sd')) = insert r (set (sd_running sd))"
    and "insert r (set (sd_swapped sd')) = insert r (set (sd_swapped sd))"
    and "int (length (sd_running sd') + k') \<le> sd_max_num_seqs sd"
  shows "sched_inv cfg k' h sd'"
proof -
  have Q: "set (sd_waiting sd') - held_refs h = set (sd_waiting sd) - held_refs h"
    "set (sd_running sd') - held_refs h = set (sd_running sd) - held_refs h"
    "set (sd_swapped sd') - held_refs h = set (sd_swapped sd) - held_refs h"
    "set (sd_waiting sd' @ sd_running sd' @ sd_swapped sd') \<union> held_refs h = set (sd_waiting sd @ sd_running sd @ sd_swapped sd) \<union> held_refs h"
    using assms(3,5-7) by auto
  have c: "sd_objs sd' = sd_objs sd" "sd_requests sd' = sd_requests sd" "sd_config sd' = sd_config sd"
    "sd_bypasses_since_heavy sd' = sd_bypasses_since_heavy sd" using assms(2) by (simp_all add: same_core_def)
  have q: "queues_ok h sd'" using assms(1,4) unfolding sched_inv_def queues_ok_def Q c by blast
  have "sd_policy sd' = sd_policy sd" "sd_max_num_seqs sd' = sd_max_num_seqs sd" using c(3) by (simp_all add: sd_config_def)
  then show ?thesis using assms(1,8) q c by (simp add: sched_inv_def bypass_ok_def)
qed

lemma same_core_queues [simp]:
  "same_core sd (sd\<lparr>sd_waiting := q\<rparr>)" "same_core sd (sd\<lparr>sd_running := q\<rparr>)" "same_core sd (sd\<lparr>sd_swapped := q\<rparr>)"
  "same_core sd (sd\<lparr>sd_waiting := q, sd_running := q'\<rparr>)"
  by (simp_all add: same_core_def sd_config_def)

lemma inv_distinct: "sched_inv cfg k h sd \<Longrightarrow> distinct (sd_waiting sd @ sd_running sd @ sd_swapped sd)"
  unfolding sched_inv_def queues_ok_def by blast

lemma inv_seats: "sched_inv cfg k h sd \<Longrightarrow> int (length (sd_running sd) + k) \<le> sd_max_num_seqs sd"
  unfolding sched_inv_def by blast

lemma unlink_waiting:
  assumes "sched_inv cfg k h sd" and "r \<in> held_refs h"
  shows "sched_inv cfg k h (sd\<lparr>sd_waiting := remove1 r (sd_waiting sd)\<rparr>)"
  by (rule requeue[OF assms(1) _ assms(2)])
    (use inv_distinct[OF assms(1)] inv_seats[OF assms(1)] in \<open>auto simp: set_remove1_eq distinct_remove1\<close>)

lemma unlink_swapped:
  assumes "sched_inv cfg k h sd" and "r \<in> held_refs h"
  shows "sched_inv cfg k h (sd\<lparr>sd_swapped := remove1 r (sd_swapped sd)\<rparr>)"
  by (rule requeue[OF assms(1) _ assms(2)])
    (use inv_distinct[OF assms(1)] inv_seats[OF assms(1)] in \<open>auto simp: set_remove1_eq distinct_remove1\<close>)

lemma unlink_running:
  assumes "sched_inv cfg k h sd" and "r \<in> held_refs h" and "r \<in> set (sd_running sd)"
  shows "sched_inv cfg (Suc k) h (sd\<lparr>sd_running := remove1 r (sd_running sd)\<rparr>)"
proof -
  have "length (remove1 r (sd_running sd)) + Suc k = length (sd_running sd) + k"
    using assms(3) by (simp add: length_remove1) (metis Suc_pred length_pos_if_in_set)
  then show ?thesis
    by (intro requeue[OF assms(1) _ assms(2)])
      (use inv_distinct[OF assms(1)] inv_seats[OF assms(1)] in \<open>auto simp: set_remove1_eq distinct_remove1\<close>)
qed

lemma link_waiting:
  assumes "sched_inv cfg k h sd" and "r \<in> held_refs h" and "r \<notin> set (sd_waiting sd @ sd_running sd @ sd_swapped sd)"
  shows "sched_inv cfg k h (sd\<lparr>sd_waiting := r # sd_waiting sd\<rparr>)"
  by (rule requeue[OF assms(1) _ assms(2)]) (use assms(3) inv_distinct[OF assms(1)] inv_seats[OF assms(1)] in auto)

lemma link_swapped:
  assumes "sched_inv cfg k h sd" and "r \<in> held_refs h" and "r \<notin> set (sd_waiting sd @ sd_running sd @ sd_swapped sd)"
  shows "sched_inv cfg k h (sd\<lparr>sd_swapped := sd_swapped sd @ [r]\<rparr>)"
  by (rule requeue[OF assms(1) _ assms(2)]) (use assms(3) inv_distinct[OF assms(1)] inv_seats[OF assms(1)] in auto)

lemma link_running:
  assumes "sched_inv cfg (Suc k) h sd" and "r \<in> held_refs h" and "r \<notin> set (sd_waiting sd @ sd_running sd @ sd_swapped sd)"
  shows "sched_inv cfg k h (sd\<lparr>sd_running := sd_running sd @ [r]\<rparr>)"
  by (rule requeue[OF assms(1) _ assms(2)]) (use assms(3) inv_distinct[OF assms(1)] inv_seats[OF assms(1)] in auto)

lemma free_seat: "sched_inv cfg k h sd \<Longrightarrow> int (length (sd_running sd)) + int k < sd_max_num_seqs sd \<Longrightarrow> sched_inv cfg (Suc k) h sd"
  by (simp add: sched_inv_def)

text \<open>Fields that the invariant does not mention.\<close>

lemma inv_other:
  "sched_inv cfg k h (sd\<lparr>sd_counters := c\<rparr>) = sched_inv cfg k h sd" "sched_inv cfg k h (sd\<lparr>sd_consecutive := i\<rparr>) = sched_inv cfg k h sd"
  "sched_inv cfg k h (sd\<lparr>sd_decode_since_heavy := i\<rparr>) = sched_inv cfg k h sd"
  "sched_inv cfg k h (sd\<lparr>sd_rejected := rs\<rparr>) = sched_inv cfg k h sd" "sched_inv cfg k h (sd\<lparr>sd_cancelled := rs\<rparr>) = sched_inv cfg k h sd"
  "sched_inv cfg k h (sd\<lparr>sd_manager := m\<rparr>) = sched_inv cfg k h sd"
  by (simp_all add: sched_inv_def queues_ok_def sd_config_def bypass_ok_def)

section \<open>Standing between two operations\<close>

type_synonym env = "hash_fun \<times> int \<times> (scheduler_policy \<times> int \<times> int \<times> int)"
type_synonym queues = "nat list \<times> nat list \<times> nat list"

definition sys_of :: "scheduler \<Rightarrow> system" where
  "sys_of sd = (sd_manager sd, sd_objs sd)"

fun traced :: "env \<Rightarrow> scheduler \<Rightarrow> bool" where
  "traced (xx, n, cfg) sd = reachable xx n (sys_of sd)"

fun env_config :: "env \<Rightarrow> scheduler_policy \<times> int \<times> int \<times> int" where
  "env_config (xx, n, cfg) = cfg"

fun env_hash :: "env \<Rightarrow> hash_fun" where
  "env_hash (xx, n, cfg) = xx"

definition queues_of :: "scheduler \<Rightarrow> queues" where
  "queues_of sd = (sd_waiting sd, sd_running sd, sd_swapped sd)"

definition stands :: "env \<Rightarrow> nat \<Rightarrow> queues \<Rightarrow> hand \<Rightarrow> scheduler \<Rightarrow> bool" where
  "stands env k q h sd \<longleftrightarrow> sched_inv (env_config env) k h sd \<and> queues_of sd = q \<and> traced env sd"

definition lost :: "env \<Rightarrow> py_error \<Rightarrow> scheduler \<Rightarrow> bool" where
  "lost env e sd \<longleftrightarrow> traced env sd"

lemma standsD:
  assumes "stands env k (W, R, S) h sd"
  shows "sched_inv (env_config env) k h sd" "sd_waiting sd = W" "sd_running sd = R" "sd_swapped sd = S" "traced env sd"
  using assms by (simp_all add: stands_def queues_of_def)

lemma standsI:
  "sched_inv (env_config env) k h sd \<Longrightarrow> queues_of sd = q \<Longrightarrow> traced env sd \<Longrightarrow> stands env k q h sd"
  by (simp add: stands_def)

lemma stands_lost: "stands env k q h sd \<Longrightarrow> lost env e sd"
  by (simp add: stands_def lost_def)

lemma sys_of_same: "sys_of sd' = sys_of sd \<Longrightarrow> traced env sd' = traced env sd"
  by (cases env) simp

text \<open>Calls of the block manager, and changes of a request that leave its page tables alone.\<close>

definition mgr_call :: "env \<Rightarrow> ('a, mseq) op \<Rightarrow> bool" where
  "mgr_call env p \<longleftrightarrow> (\<exists>c. c \<noteq> StorePrefix \<and> (\<forall>st. snd (p st) = snd (bm_exec (env_hash env) c st)))"

lemma snd_void [simp]: "snd (void p st) = snd (p st)"
  by (simp add: void_def bnd_def ret_def split: prod.splits sum.splits)

lemma mgr_calls:
  "mgr_call env (bm_cached_prefix_tokens (env_hash env))" "mgr_call env bm_can_allocate" "mgr_call env (bm_allocate (env_hash env))"
  "mgr_call env bm_deallocate" "mgr_call env bm_can_append" "mgr_call env bm_may_append" "mgr_call env bm_copy_on_write"
  "mgr_call env bm_can_swap_out" "mgr_call env bm_swap_out" "mgr_call env bm_can_swap_in" "mgr_call env bm_swap_in"
  "mgr_call env (bm_publish (env_hash env) a b)"
  unfolding mgr_call_def
  by (rule exI[of _ CachedTokens] exI[of _ CanAllocate] exI[of _ Allocate] exI[of _ Deallocate] exI[of _ CanAppend]
      exI[of _ MayAppend] exI[of _ CopyOnWrite] exI[of _ CanSwapOut] exI[of _ SwapOut] exI[of _ CanSwapIn] exI[of _ SwapIn]
      exI[of _ "Publish a b"], simp)+

lemma traced_call:
  assumes "traced env sd" and "mgr_call env p" and "r < length (sd_objs sd)" and "p (sd_manager sd, sd_objs sd ! r) = (x, (m', s'))"
  shows "traced env (sd\<lparr>sd_manager := m', sd_objs := (sd_objs sd)[r := s']\<rparr>)"
proof (cases env)
  case (fields xx n cfg)
  obtain c where c: "c \<noteq> StorePrefix" "snd (p (sd_manager sd, sd_objs sd ! r)) = snd (bm_exec xx c (sd_manager sd, sd_objs sd ! r))"
    using assms(2) by (auto simp: mgr_call_def fields)
  have "system_step xx (sys_of sd) (Call r c) (m', (sd_objs sd)[r := s'])"
    unfolding sys_of_def by (rule step_call[OF assms(3)]) (use c assms(4) in auto)
  then show ?thesis using assms(1) reachable_step by (auto simp: fields sys_of_def)
qed

lemma traced_update:
  assumes "traced env sd" and "r < length (sd_objs sd)" and "sq_block_table s' = sq_block_table (sd_objs sd ! r)"
    and "sq_cpu_block_table s' = sq_cpu_block_table (sd_objs sd ! r)"
  shows "traced env (sd\<lparr>sd_objs := (sd_objs sd)[r := s']\<rparr>)"
proof (cases env)
  case (fields xx n cfg)
  have "system_step xx (sys_of sd) (Update r s') (sd_manager sd, (sd_objs sd)[r := s'])"
    unfolding sys_of_def by (rule step_update[OF assms(2-4)])
  then show ?thesis using assms(1) reachable_step by (auto simp: fields sys_of_def)
qed

lemma inv_set_obj:
  assumes "sched_inv cfg k ((r, p) # h) sd" and "q s'" and "sq_seq_id s' = sq_seq_id (sd_objs sd ! r)"
  shows "sched_inv cfg k ((r, q) # h) (sd\<lparr>sd_objs := (sd_objs sd)[r := s']\<rparr>)"
proof -
  note f = hand_facts[OF assms(1)]
  have i: "sd_objs (sd\<lparr>sd_objs := (sd_objs sd)[r := s']\<rparr>) ! r' = (if r' = r then s' else sd_objs sd ! r')" for r'
    using f(1) by simp
  have h: "held_refs ((r, q) # h) = held_refs ((r, p) # h)" by simp
  let ?objs = "(sd_objs sd)[r := s']"
  let ?Q = "set (sd_waiting sd @ sd_running sd @ sd_swapped sd)"
  have Q0: "queues_ok ((r, p) # h) sd" using assms(1) by (simp add: sched_inv_def)
  have hd: "snd x (?objs ! fst x)" if "x \<in> set ((r, q) # h)" for x
  proof (cases "x = (r, q)")
    case False
    then have x: "x \<in> set h" using that by simp
    then have "fst x \<noteq> r" using f(3) by (auto simp: held_refs_def)
    then show ?thesis using x Q0 unfolding queues_ok_def by simp
  qed (use f(1) assms(2) in simp)
  have id: "sq_seq_id (?objs ! r') = sq_seq_id (sd_objs sd ! r')" for r'
    using f(1) assms(3) by (cases "r' = r") simp_all
  have other: "?objs ! r' = sd_objs sd ! r'" if "r' \<notin> held_refs ((r, p) # h)" for r'
    using that by (cases "r' = r") simp_all
  have "queues_ok ((r, q) # h) (sd\<lparr>sd_objs := ?objs\<rparr>)"
    using Q0 hd unfolding queues_ok_def h by (auto simp: id other)
  then show ?thesis using assms(1) by (simp add: sched_inv_def sd_config_def bypass_ok_def)
qed

lemma wp_kv:
  assumes "stands env k q ((r, p) # h) sd" and "mgr_call env f"
    and "\<And>m s x m' s'. p s \<Longrightarrow> f (m, s) = (Inr x, (m', s')) \<Longrightarrow> p' x s' \<and> sq_seq_id s' = sq_seq_id s"
    and "\<And>x t. stands env k q ((r, p' x) # h) t \<Longrightarrow> Q x t"
  shows "wp (kv r f) Q (lost env) sd"
  unfolding kv_def wp_zoom
proof (rule wp_run[THEN iffD2], intro allI impI)
  note i = standsD(1)[of env k "fst q" "fst (snd q)" "snd (snd q)", simplified, OF assms(1)]
  fix y and t :: mseq assume "f (sd_manager sd, sd_objs sd ! r) = (y, t)"
  moreover obtain m' s' where t: "t = (m', s')" by (cases t)
  ultimately have y: "f (sd_manager sd, sd_objs sd ! r) = (y, (m', s'))" by simp
  let ?t = "sd\<lparr>sd_manager := m', sd_objs := (sd_objs sd)[r := s']\<rparr>"
  have tr: "traced env ?t"
    by (rule traced_call[OF _ assms(2) hand_facts(1)[OF i] y]) (use assms(1) in \<open>simp add: stands_def\<close>)
  show "case y of Inl e \<Rightarrow> lost env e ((case t of (m, s) \<Rightarrow> \<lambda>sd. sd\<lparr>sd_manager := m, sd_objs := (sd_objs sd)[r := s]\<rparr>) sd)
     | Inr x \<Rightarrow> Q x ((case t of (m, s) \<Rightarrow> \<lambda>sd. sd\<lparr>sd_manager := m, sd_objs := (sd_objs sd)[r := s]\<rparr>) sd)"
  proof (cases y)
    case (Inr x)
    have p': "p' x s' \<and> sq_seq_id s' = sq_seq_id (sd_objs sd ! r)"
      using assms(3)[OF hand_facts(2)[OF i]] y Inr by simp
    have "sched_inv (env_config env) k ((r, p) # h) (sd\<lparr>sd_manager := m'\<rparr>)" unfolding inv_other by (rule i)
    from inv_set_obj[OF this, of "p' x" s'] have "sched_inv (env_config env) k ((r, p' x) # h) ?t" using p' by simp
    then have "stands env k q ((r, p' x) # h) ?t" using tr assms(1) by (simp add: stands_def queues_of_def)
    then show ?thesis using assms(4) Inr by (simp add: t)
  qed (simp add: lost_def tr t)
qed

lemma wp_obj:
  assumes "stands env k q ((r, p) # h) sd"
    and "\<And>s y s'. p s \<Longrightarrow> f s = (y, s') \<Longrightarrow> sq_block_table s' = sq_block_table s \<and> sq_cpu_block_table s' = sq_cpu_block_table s"
    and "\<And>s x s'. p s \<Longrightarrow> f s = (Inr x, s') \<Longrightarrow> p' x s' \<and> sq_seq_id s' = sq_seq_id s"
    and "\<And>x t. stands env k q ((r, p' x) # h) t \<Longrightarrow> Q x t"
  shows "wp (obj r f) Q (lost env) sd"
  unfolding obj_def wp_zoom
proof (rule wp_run[THEN iffD2], intro allI impI)
  note i = standsD(1)[of env k "fst q" "fst (snd q)" "snd (snd q)", simplified, OF assms(1)]
  fix y s' assume y: "f (sd_objs sd ! r) = (y, s')"
  let ?t = "sd\<lparr>sd_objs := (sd_objs sd)[r := s']\<rparr>"
  have tr: "traced env ?t"
    by (rule traced_update[OF _ hand_facts(1)[OF i]])
      (use assms(1) assms(2)[OF hand_facts(2)[OF i] y] in \<open>simp_all add: stands_def\<close>)
  show "case y of Inl e \<Rightarrow> lost env e ?t | Inr x \<Rightarrow> Q x ?t"
  proof (cases y)
    case (Inr x)
    have "p' x s' \<and> sq_seq_id s' = sq_seq_id (sd_objs sd ! r)"
      using assms(3)[OF hand_facts(2)[OF i]] y Inr by simp
    then have "sched_inv (env_config env) k ((r, p' x) # h) ?t" using inv_set_obj[OF i, of "p' x" s'] by simp
    then have "stands env k q ((r, p' x) # h) ?t" using tr assms(1) by (simp add: stands_def queues_of_def)
    then show ?thesis using assms(4) Inr by simp
  qed (simp add: lost_def tr)
qed

end
