(* ===== verification/Scheduler_Steps.thy ===== *)
theory Scheduler_Steps imports Scheduler_Invariant begin

text \<open>
  The prefill half of the scheduler against the invariant of its queues: the batch builder keeps its
  budgets, and collecting running requests and admitting waiting ones keeps every promise of the queues.
\<close>

section \<open>Requests through calls and transitions\<close>

lemma tables_kept_roles:
  assumes "tables_kept s t"
  shows "role_waiting s \<Longrightarrow> role_waiting t" "role_running s \<Longrightarrow> role_running t" "role_swapped s \<Longrightarrow> role_swapped t"
    "role_decoding s \<Longrightarrow> role_decoding t" "sq_seq_id t = sq_seq_id s" "sq_status t = sq_status s"
  using assms by (simp_all add: tables_kept_def life_of_def roles sq_status_def)

lemma cpu_kept_roles:
  assumes "cpu_kept s t"
  shows "role_running s \<Longrightarrow> role_running t" "role_decoding s \<Longrightarrow> role_decoding t" "sq_seq_id t = sq_seq_id s" "sq_status t = sq_status s"
    "sq_cpu_block_table s = [] \<Longrightarrow> sq_cpu_block_table t = []"
  using assms by (simp_all add: cpu_kept_def life_of_def roles sq_status_def)

lemma life_kept_facts: "life_kept s t \<Longrightarrow> sq_seq_id t = sq_seq_id s \<and> sq_status t = sq_status s"
  by (simp add: life_kept_def life_of_def sq_status_def)

lemma transition_run:
  "sq_transition_to target reason now s = (y, s') \<Longrightarrow>
   s' = s\<lparr>sq_lifecycle := sq_lifecycle s'\<rparr> \<and> (\<forall>x. y = Inr x \<longrightarrow> sq_status s' = target)"
  by (auto simp: sq_transition_to_def zoom_def transition_def sq_status_def bnd_def thn_def gets_def chk_def ret_def throw_def upd_def
      split: prod.splits sum.splits if_splits)

lemma transition_allowed:
  "target \<in> set (allowed_transitions (sq_status s)) \<Longrightarrow> \<exists>s'. sq_transition_to target reason now s = (Inr (), s')"
  by (auto simp: sq_transition_to_def zoom_def transition_def sq_status_def bnd_def thn_def gets_def chk_def ret_def upd_def)

text \<open>A transition of a request in the hand.\<close>

lemma wp_enter:
  assumes "stands env k q ((r, p) # h) sd"
    and "\<And>s l. p s \<Longrightarrow> sq_status (s\<lparr>sq_lifecycle := l\<rparr>) = target \<Longrightarrow> p' (s\<lparr>sq_lifecycle := l\<rparr>)"
    and "\<And>t. stands env k q ((r, p') # h) t \<Longrightarrow> Q () t"
  shows "wp (obj r (sq_transition_to target reason now)) Q (lost env) sd"
proof (rule wp_obj[OF assms(1), where p' = "\<lambda>_. p'"])
  fix s y s' assume "p s" "sq_transition_to target reason now s = (y, s')"
  then obtain l where "s' = s\<lparr>sq_lifecycle := l\<rparr>" using transition_run by blast
  then show "sq_block_table s' = sq_block_table s \<and> sq_cpu_block_table s' = sq_cpu_block_table s" by simp
next
  fix s x s' assume p: "p s" and run: "sq_transition_to target reason now s = (Inr x, s')"
  then obtain l where "s' = s\<lparr>sq_lifecycle := l\<rparr>" using transition_run by blast
  then show "p' s' \<and> sq_seq_id s' = sq_seq_id s" using transition_run[OF run] assms(2)[OF p, of l] by simp
qed (simp add: assms(3))

text \<open>A transition that the lifecycle allows does not raise.\<close>

lemma wp_transition_total:
  assumes "stands env k q ((r, p) # h) sd"
    and "\<And>s l. p s \<Longrightarrow> sq_status (s\<lparr>sq_lifecycle := l\<rparr>) = target \<Longrightarrow> p' (s\<lparr>sq_lifecycle := l\<rparr>)"
    and "\<And>t. stands env k q ((r, p') # h) t \<Longrightarrow> Q () t"
    and "target \<in> set (allowed_transitions (sq_status (sd_objs sd ! r)))"
  shows "wp (obj r (sq_transition_to target reason now)) Q E sd"
proof -
  have "wp (obj r (sq_transition_to target reason now)) (\<lambda>_ _. True) (\<lambda>_ _. False) sd"
    using transition_allowed[OF assms(4), of reason now] by (auto simp: obj_def zoom_def wp_total)
  moreover have "wp (obj r (sq_transition_to target reason now)) Q (lost env) sd"
    by (rule wp_enter[where p' = p', OF assms(1)]) (use assms(2,3) in blast)+
  ultimately show ?thesis by (rule wp_mono[OF wp_conj]) auto
qed

text \<open>A call that leaves the tables of a request alone, on a request in the hand or in a queue.\<close>

lemma wp_look_hand:
  assumes "stands env k q ((r, p) # h) sd" and "mgr_call env f" and "framed tables_kept f"
    and "\<And>s t. p s \<Longrightarrow> tables_kept s t \<Longrightarrow> p t"
    and "\<And>x t. stands env k q ((r, p) # h) t \<Longrightarrow> Q x t"
  shows "wp (kv r f) Q (lost env) sd"
  by (rule wp_kv[OF assms(1,2), where p' = "\<lambda>_. p"])
    (use assms(4,5) framedD[OF assms(3)] tables_kept_roles(5) in \<open>blast+\<close>)

lemma stands_grab_waiting:
  "stands env k (W, R, S) h sd \<Longrightarrow> r \<in> set W \<Longrightarrow> r \<notin> held_refs h \<Longrightarrow> stands env k (W, R, S) ((r, role_waiting) # h) sd"
  using grab_waiting[of "env_config env" k h sd r] by (auto simp: stands_def queues_of_def)

lemma stands_grab_running:
  "stands env k (W, R, S) h sd \<Longrightarrow> r \<in> set R \<Longrightarrow> r \<notin> held_refs h \<Longrightarrow> stands env k (W, R, S) ((r, role_running) # h) sd"
  using grab_running[of "env_config env" k h sd r] by (auto simp: stands_def queues_of_def)

lemma stands_grab_swapped:
  "stands env k (W, R, S) h sd \<Longrightarrow> r \<in> set S \<Longrightarrow> r \<notin> held_refs h \<Longrightarrow> stands env k (W, R, S) ((r, role_swapped) # h) sd"
  using grab_swapped[of "env_config env" k h sd r] by (auto simp: stands_def queues_of_def)

lemma stands_release:
  assumes "stands env k (W, R, S) ((r, p) # h) sd"
  shows "r \<in> set W \<Longrightarrow> (\<And>s. p s \<Longrightarrow> role_waiting s) \<Longrightarrow> stands env k (W, R, S) h sd"
    and "r \<in> set R \<Longrightarrow> (\<And>s. p s \<Longrightarrow> role_running s) \<Longrightarrow> stands env k (W, R, S) h sd"
    and "r \<in> set S \<Longrightarrow> (\<And>s. p s \<Longrightarrow> role_swapped s) \<Longrightarrow> stands env k (W, R, S) h sd"
    and "r \<notin> set W \<union> set R \<union> set S \<Longrightarrow> (\<And>s. p s \<Longrightarrow> role_gone s) \<Longrightarrow> stands env k (W, R, S) h sd"
  using assms release_waiting[of "env_config env" k r p h sd] release_running[of "env_config env" k r p h sd]
    release_swapped[of "env_config env" k r p h sd] release_gone[of "env_config env" k r p h sd]
  by (auto simp: stands_def queues_of_def)

lemma hand_sharpen: "sched_inv cfg k ((r, p) # h) sd \<Longrightarrow> q (sd_objs sd ! r) \<Longrightarrow> sched_inv cfg k ((r, q) # h) sd"
  unfolding sched_inv_def queues_ok_def by (auto simp: held_refs_def)

lemma stands_sharpen: "stands env k q ((r, p) # h) sd \<Longrightarrow> p' (sd_objs sd ! r) \<Longrightarrow> stands env k q ((r, p') # h) sd"
  unfolding stands_def by (metis hand_sharpen)

lemma stands_perm: "stands env k q h sd \<Longrightarrow> mset h = mset h' \<Longrightarrow> stands env k q h' sd"
  unfolding stands_def by (metis hand_perm)

lemma stands_hand:
  assumes "stands env k q ((r, p) # h) sd"
  shows "r < length (sd_objs sd)" "p (sd_objs sd ! r)" "r \<notin> held_refs h"
  using assms hand_facts[of "env_config env" k r p h sd] by (auto simp: stands_def)

lemma stands_distinct: "stands env k (W, R, S) h sd \<Longrightarrow> distinct (W @ R @ S)"
  using inv_distinct[of "env_config env" k h sd] by (auto simp: stands_def queues_of_def)

lemma stands_config: "stands env k q h sd \<Longrightarrow> sd_config sd = env_config env"
  unfolding stands_def by (metis inv_config)

lemma wp_look_waiting:
  assumes "stands env k (W, R, S) h sd" and "r \<in> set W" and "r \<notin> held_refs h" and "mgr_call env f" and "framed tables_kept f"
    and "\<And>x t. stands env k (W, R, S) h t \<Longrightarrow> Q x t"
  shows "wp (kv r f) Q (lost env) sd"
  by (rule wp_look_hand[OF stands_grab_waiting[OF assms(1-3)] assms(4,5) tables_kept_roles(1)])
    (use assms(2,6) stands_release(1) in \<open>blast+\<close>)

section \<open>Steps that touch no request\<close>

lemma stands_frame:
  assumes "stands env k q h sd" and "sd_config sd' = sd_config sd" and "sd_objs sd' = sd_objs sd" and "sd_requests sd' = sd_requests sd"
    and "sd_manager sd' = sd_manager sd" and "queues_of sd' = queues_of sd" and "sd_bypasses_since_heavy sd' \<le> bypass_bound (sd_policy sd)"
  shows "stands env k q h sd'"
proof -
  have c: "sd_policy sd' = sd_policy sd" "sd_max_num_seqs sd' = sd_max_num_seqs sd" using assms(2) by (simp_all add: sd_config_def)
  have q: "sd_waiting sd' = sd_waiting sd" "sd_running sd' = sd_running sd" "sd_swapped sd' = sd_swapped sd"
    using assms(6) by (simp_all add: queues_of_def)
  have "sched_inv (env_config env) k h sd'"
    using assms(1) assms(7) unfolding stands_def sched_inv_def queues_ok_def bypass_ok_def assms(2-4) c q by simp
  moreover have "traced env sd'" using assms(1,3,5) sys_of_same[of sd' sd env] by (simp add: stands_def sys_of_def)
  ultimately show ?thesis using assms(1,6) by (simp add: stands_def)
qed

lemma stands_bypass: "stands env k q h sd \<Longrightarrow> sd_bypasses_since_heavy sd \<le> bypass_bound (sd_policy sd)"
  by (simp add: stands_def sched_inv_def bypass_ok_def)

lemma stands_other:
  assumes "stands env k q h sd"
  shows "stands env k q h (sd\<lparr>sd_counters := c\<rparr>)" "stands env k q h (sd\<lparr>sd_consecutive := i\<rparr>)"
    "stands env k q h (sd\<lparr>sd_consecutive := i, sd_decode_since_heavy := j\<rparr>)"
    "stands env k q h (sd\<lparr>sd_rejected := rs\<rparr>)" "stands env k q h (sd\<lparr>sd_cancelled := rs\<rparr>)"
    "i \<le> bypass_bound (sd_policy sd) \<Longrightarrow> stands env k q h (sd\<lparr>sd_bypasses_since_heavy := i\<rparr>)"
    "stands env k q h (sd\<lparr>sd_decode_since_heavy := j, sd_bypasses_since_heavy := 0\<rparr>)"
  by (rule stands_frame[OF assms]; cases "sd_policy sd"; use stands_bypass[OF assms] in \<open>simp add: sd_config_def queues_of_def\<close>)+

lemma wp_tally: "(\<And>c. Q () (sd\<lparr>sd_counters := c\<rparr>)) \<Longrightarrow> wp (tally f) Q E sd"
  by (simp add: tally_def wp_upd)

lemma wp_note_peaks: "(\<And>c. Q () (sd\<lparr>sd_counters := c\<rparr>)) \<Longrightarrow> wp sd_observe_state Q E sd"
  by (simp add: sd_observe_state_def wp_upd)

lemma wp_refresh:
  assumes "stands env k (W, R, S) h sd" and "set rs \<subseteq> set W" and "set W \<inter> held_refs h = {}" and "xx = env_hash env"
    and "\<And>t. stands env k (W, R, S) h t \<Longrightarrow> Q () t"
  shows "wp (refresh_cached_prefixes xx rs) Q (lost env) sd"
  using assms(1,2)
proof (induction rs arbitrary: sd)
  case Nil
  then show ?case by (simp add: wp_ret assms(5))
next
  case (Cons r rs)
  show ?case unfolding refresh_cached_prefixes.simps wp_thn assms(4)
    by (rule wp_look_waiting[OF Cons.prems(1) _ _ mgr_calls(1) framed_cached_prefix_tokens])
      (use Cons assms(3,4) in \<open>auto\<close>)
qed

section \<open>The batch builder\<close>

text \<open>An entry of the builder is a request with its token count and its vision patches.\<close>

type_synonym entries = "(nat \<times> int \<times> int) list"

definition entry_refs :: "entries \<Rightarrow> nat list" where
  "entry_refs es = map fst es"

definition granted :: "int \<Rightarrow> int \<Rightarrow> sequence \<Rightarrow> bool" where
  "granted n v s \<longleftrightarrow> 0 < n \<and> 0 \<le> v \<and>
     sq_vision_patch_count_for_range (sq_effective_prefill_start s) (sq_effective_prefill_start s + nat n) s = Inr (nat v)"

definition collected :: "int \<Rightarrow> int \<Rightarrow> sequence \<Rightarrow> bool" where
  "collected n v s \<longleftrightarrow> sq_status s = PREFILLING \<and> sq_cpu_block_table s = [] \<and> granted n v s"

definition hand_of :: "entries \<Rightarrow> hand" where
  "hand_of es = map (\<lambda>(r, n, v). (r, collected n v)) es"

definition builder_of :: "entries \<Rightarrow> prefill_builder \<Rightarrow> bool" where
  "builder_of es b \<longleftrightarrow> bb_sequences b = entry_refs es \<and> bb_token_counts b = map (fst \<circ> snd) es \<and>
     bb_num_tokens b = sum_list (map (fst \<circ> snd) es) \<and> bb_num_vision_patches b = sum_list (map (snd \<circ> snd) es) \<and>
     bb_num_tokens b \<le> max 0 (bb_max_tokens b) \<and> int (length es) \<le> max 0 (bb_max_sequences b) \<and>
     (length es \<le> 1 \<or> bb_num_vision_patches b \<le> bb_max_vision_patches b)"

definition candidate_ok :: "scheduler \<Rightarrow> nat \<Rightarrow> prefill_candidate \<Rightarrow> bool" where
  "candidate_ok sd r c \<longleftrightarrow> ca_sequence c = r \<and> granted (ca_token_count c) (ca_vision_patches c) (sd_objs sd ! r)"

definition limits :: "prefill_builder \<Rightarrow> int \<times> int \<times> int" where
  "limits b = (bb_max_sequences b, bb_max_tokens b, bb_max_vision_patches b)"

lemma hand_of_simps [simp]:
  "hand_of [] = []" "hand_of (es @ [(r, n, v)]) = hand_of es @ [(r, collected n v)]"
  "held_refs (hand_of es) = set (entry_refs es)" "entry_refs [] = []" "entry_refs (es @ [(r, n, v)]) = entry_refs es @ [r]"
  by (auto simp: hand_of_def entry_refs_def held_refs_def image_image case_prod_beta)

lemma wp_candidate_for:
  assumes "Q None sd" and "\<And>c. candidate_ok sd r c \<Longrightarrow> Q (Some c) sd" and "\<And>e. E e sd"
  shows "wp (prefill_candidate_for r available) Q E sd"
  unfolding prefill_candidate_for_def wp_bnd wp_gets
  using assms by (auto simp: Let_def wp_simps candidate_ok_def granted_def split: sum.splits)

lemma builder_add:
  assumes "builder_of es b" and "bb_add c b = Inr b'"
  shows "builder_of (es @ [(ca_sequence c, ca_token_count c, ca_vision_patches c)]) b' \<and> limits b' = limits b"
proof -
  have a: "bb_accepts b c" and b': "b' = b\<lparr>bb_sequences := bb_sequences b @ [ca_sequence c], bb_token_counts := bb_token_counts b @ [ca_token_count c],
        bb_copy_prefix := bb_copy_prefix b @ ca_copy_prefix c, bb_num_tokens := bb_num_tokens b + ca_token_count c,
        bb_num_vision_patches := bb_num_vision_patches b + ca_vision_patches c\<rparr>"
    using assms(2) by (auto simp: bb_add_def res_simps)
  have n: "length (bb_sequences b) = length es" "bb_sequences b = [] \<longleftrightarrow> es = []"
    using assms(1) by (auto simp: builder_of_def entry_refs_def)
  show ?thesis using assms(1) a n unfolding b'
    by (auto simp: builder_of_def bb_accepts_def bb_has_capacity_def bb_available_tokens_def limits_def entry_refs_def split: if_splits)
qed

lemma builder_add_ok: "candidate_ok sd r c \<Longrightarrow> bb_accepts b c \<Longrightarrow> \<exists>b'. bb_add c b = Inr b'"
  by (auto simp: bb_add_def candidate_ok_def granted_def)

text \<open>Continuing prompts that are already running.\<close>

lemma wp_collect:
  assumes "stands env k (W, R, S) (hand_of es) sd" and "builder_of es b" and "set (entry_refs es) \<subseteq> set R"
    and "distinct rs" and "set rs \<subseteq> set R - set (entry_refs es)"
    and "\<And>es' b' t. stands env k (W, R, S) (hand_of es') t \<Longrightarrow> builder_of es' b' \<Longrightarrow> limits b' = limits b \<Longrightarrow> set (entry_refs es') \<subseteq> set R \<Longrightarrow> Q b' t"
  shows "wp (collect_running_prefills rs b) Q (lost env) sd"
  using assms
proof (induction rs arbitrary: b es)
  case Nil
  show ?case using Nil.prems(6)[OF Nil.prems(1,2) _ Nil.prems(3)] by (simp add: wp_ret)
next
  case (Cons r rs)
  note st = Cons.prems(1)
  have stop: "Q b sd" using Cons.prems(6)[OF st Cons.prems(2) _ Cons.prems(3)] by simp
  have rest: "distinct rs" "set rs \<subseteq> set R - set (entry_refs es)" "r \<in> set R" "r \<notin> set (entry_refs es)" using Cons.prems(4,5) by auto
  show ?case unfolding collect_running_prefills.simps wp_bnd wp_gets id_def wp_if
  proof (intro if_bool_eq_conj[THEN iffD2] conjI impI)
    assume "status_of sd r \<noteq> PREFILLING"
    then show "wp (collect_running_prefills rs b) Q (lost env) sd"
      using Cons.IH[OF st Cons.prems(2,3) rest(1,2) Cons.prems(6)] by simp
  next
    assume pf: "\<not> status_of sd r \<noteq> PREFILLING" and "\<not> bb_has_capacity b"
    then show "wp (ret b) Q (lost env) sd" using stop by (simp add: wp_ret)
  next
    assume pf: "\<not> status_of sd r \<noteq> PREFILLING" and cap: "\<not> \<not> bb_has_capacity b"
    show "wp (prefill_candidate_for r (bb_available_tokens b)) (\<lambda>x. wp (case x of None \<Rightarrow> ret b
         | Some c \<Rightarrow> if \<not> bb_accepts b c then collect_running_prefills rs b
             else bnd (lift_res (bb_add c b)) (\<lambda>b'. if bb_requires_dedicated b' then ret b' else collect_running_prefills rs b')) Q (lost env))
       (lost env) sd"
    proof (rule wp_candidate_for)
      show "wp (case None of None \<Rightarrow> ret b
         | Some c \<Rightarrow> if \<not> bb_accepts b c then collect_running_prefills rs b
             else bnd (lift_res (bb_add c b)) (\<lambda>b'. if bb_requires_dedicated b' then ret b' else collect_running_prefills rs b')) Q (lost env) sd"
        using stop by (simp add: wp_ret)
      show "lost env e sd" for e by (rule stands_lost[OF st])
    next
      fix c assume c: "candidate_ok sd r c"
      show "wp (case Some c of None \<Rightarrow> ret b
         | Some c \<Rightarrow> if \<not> bb_accepts b c then collect_running_prefills rs b
             else bnd (lift_res (bb_add c b)) (\<lambda>b'. if bb_requires_dedicated b' then ret b' else collect_running_prefills rs b')) Q (lost env) sd"
      proof (cases "bb_accepts b c")
        case False
        then show ?thesis
          using Cons.IH[OF st Cons.prems(2,3) rest(1,2) Cons.prems(6)] by simp
      next
        case True
        obtain b' where b': "bb_add c b = Inr b'" using builder_add_ok[OF c True] by blast
        note B = builder_add[OF Cons.prems(2) b']
        have s: "ca_sequence c = r" using c by (simp add: candidate_ok_def)
        have "stands env k (W, R, S) ((r, role_running) # hand_of es) sd" by (rule stands_grab_running[OF st]) (use rest in simp_all)
        then have "stands env k (W, R, S) ((r, collected (ca_token_count c) (ca_vision_patches c)) # hand_of es) sd"
          by (rule stands_sharpen) (use pf c stands_hand(2)[OF \<open>stands env k (W, R, S) ((r, role_running) # hand_of es) sd\<close>]
            in \<open>auto simp: collected_def candidate_ok_def status_of_def role_running_def\<close>)
        then have st': "stands env k (W, R, S) (hand_of (es @ [(r, ca_token_count c, ca_vision_patches c)])) sd"
          by (rule stands_perm) simp
        have "Q b' sd" by (rule Cons.prems(6)[OF st']) (use B s Cons.prems(3) rest(3) in auto)
        moreover have "wp (collect_running_prefills rs b') Q (lost env) sd" if "\<not> bb_requires_dedicated b'"
        proof (rule Cons.IH[OF st'])
          show "builder_of (es @ [(r, ca_token_count c, ca_vision_patches c)]) b'" using B s by simp
          show "set (entry_refs (es @ [(r, ca_token_count c, ca_vision_patches c)])) \<subseteq> set R" using rest Cons.prems(3) by simp
          show "set rs \<subseteq> set R - set (entry_refs (es @ [(r, ca_token_count c, ca_vision_patches c)]))"
            using rest(2) Cons.prems(4) by auto
        next
          fix es' b'' t assume "stands env k (W, R, S) (hand_of es') t" "builder_of es' b''" "limits b'' = limits b'" "set (entry_refs es') \<subseteq> set R"
          then show "Q b'' t" using Cons.prems(6) B by simp
        qed (rule rest(1))
        ultimately show ?thesis using True by (simp add: wp_bnd wp_lift_res b' wp_ret)
      qed
    qed
  qed
qed

section \<open>Admitting a waiting request\<close>

lemma spans_lifecycle: "sq_image_token_spans (s\<lparr>sq_lifecycle := l\<rparr>) = sq_image_token_spans s"
proof -
  have "sq_image_pad_runs (s\<lparr>sq_lifecycle := l\<rparr>) = sq_image_pad_runs s"
    by (simp add: sq_image_pad_runs_def sq_prompt_token_ids_def cong: option.case_cong)
  then show ?thesis
    by (cases "sq_image_token_id s"; cases "sq_image_grid_thw s") (simp_all add: sq_image_token_spans_def Let_def cong: if_cong)
qed

lemma granted_lifecycle: "granted n v (s\<lparr>sq_lifecycle := l\<rparr>) = granted n v s"
  by (simp add: granted_def sq_effective_prefill_start_def sq_vision_patch_count_for_range_def spans_lifecycle)

lemma stands_requeue:
  assumes "stands env k (W, R, S) h sd" and "r \<in> held_refs h" and "distinct (W' @ R' @ S')"
    and "insert r (set W') = insert r (set W)" "insert r (set R') = insert r (set R)" "insert r (set S') = insert r (set S)"
    and "int (length R' + k') \<le> sd_max_num_seqs sd"
  shows "stands env k' (W', R', S') h (sd\<lparr>sd_waiting := W', sd_running := R', sd_swapped := S'\<rparr>)"
proof (rule standsI)
  note s = standsD[OF assms(1)]
  show "sched_inv (env_config env) k' h (sd\<lparr>sd_waiting := W', sd_running := R', sd_swapped := S'\<rparr>)"
    by (rule requeue[OF s(1) _ assms(2)]) (use assms(3-7) s in \<open>simp_all add: same_core_def sd_config_def\<close>)
  show "traced env (sd\<lparr>sd_waiting := W', sd_running := R', sd_swapped := S'\<rparr>)"
    using s(5) sys_of_same[of "sd\<lparr>sd_waiting := W', sd_running := R', sd_swapped := S'\<rparr>" sd env] by (simp add: sys_of_def)
qed (simp add: queues_of_def)

lemma stands_seats: "stands env k (W, R, S) h sd \<Longrightarrow> int (length R + k) \<le> sd_max_num_seqs sd"
  using inv_seats[of "env_config env" k h sd] by (auto simp: stands_def queues_of_def)

lemma wp_give_up:
  assumes "stands env k q ((r, p) # h) sd"
  shows "wp (thn (kv r bm_deallocate) (throw e)) Q (lost env) sd"
  unfolding wp_thn
  by (rule wp_kv[OF assms mgr_calls(4), where p' = "\<lambda>_ _. True"])
    (use framedD[OF framed_deallocate] life_kept_facts in \<open>auto simp: wp_throw stands_lost\<close>)

lemma take_drop_without:
  assumes "distinct W" and "i < length W"
  shows "set (take i W @ drop (Suc i) W) = set W - {W ! i}" and "distinct (take i W @ drop (Suc i) W)"
proof -
  have W: "W = take i W @ W ! i # drop (Suc i) W" by (rule id_take_nth_drop[OF assms(2)])
  have "distinct (take i W @ W ! i # drop (Suc i) W)" using assms(1) W by simp
  then show "distinct (take i W @ drop (Suc i) W)" and "set (take i W @ drop (Suc i) W) = set W - {W ! i}"
    by auto (metis W assms(1) distinct.simps(2) distinct_append in_set_conv_decomp set_append Un_iff list.set_intros(1) not_distinct_conv_prefix set_ConsD in_set_takeD in_set_dropD W)+
qed

lemma wp_allocate_waiting:
  assumes "stands env (Suc k) (W, R, S) (hand_of es) sd" and "i < length W" and "r = W ! i" and "set (entry_refs es) \<subseteq> set R"
    and "xx = env_hash env"
    and "\<And>c t. stands env k (take i W @ drop (Suc i) W, R @ [r], S) (hand_of (es @ [(r, ca_token_count c, ca_vision_patches c)])) t \<Longrightarrow>
           ca_sequence c = r \<Longrightarrow> 0 < ca_token_count c \<Longrightarrow> bb_accepts b c \<Longrightarrow> Q c t"
  shows "wp (allocate_waiting_prefill xx now r i available b) Q (lost env) sd"
proof -
  note st = assms(1) and dis = stands_distinct[OF assms(1)]
  let ?q = "(W, R, S)" and ?W = "take i W @ drop (Suc i) W"
  let ?p = "\<lambda>s. sq_status s = WAITING \<and> sq_cpu_block_table s = []"
  have r: "r \<in> set W" "r \<notin> set R" "r \<notin> set S" using nth_mem[OF assms(2)] assms(3) dis by auto
  have g: "stands env (Suc k) ?q ((r, role_waiting) # hand_of es) sd"
    by (rule stands_grab_waiting[OF st r(1)]) (use r assms(4) in auto)
  show ?thesis unfolding allocate_waiting_prefill_def assms(5) wp_bnd
  proof (rule wp_kv[OF g mgr_calls(3), where p' = "\<lambda>_. ?p"])
    fix m s x m' s' assume "role_waiting s" "bm_allocate (env_hash env) (m, s) = (Inr x, (m', s'))"
    then show "?p s' \<and> sq_seq_id s' = sq_seq_id s"
      using cpu_kept_roles[OF framedD[OF framed_allocate]] by (metis role_waiting_def)
  next
    fix copies t assume t: "stands env (Suc k) ?q ((r, ?p) # hand_of es) t"
    show "wp (thn (obj r (upd (\<lambda>s. s\<lparr>sq_num_computed_tokens := max (sq_num_computed_tokens s) (sq_num_cached_tokens s)\<rparr>)))
      (bnd (prefill_candidate_for r available) (\<lambda>candidate. case candidate of
         None \<Rightarrow> thn (kv r bm_deallocate) (throw RuntimeError)
       | Some c0 \<Rightarrow> let c = c0\<lparr>ca_copy_prefix := copies\<rparr> in
           if \<not> bb_accepts b c then thn (kv r bm_deallocate) (throw RuntimeError)
           else thn (catch (obj r (sq_transition_to PREFILLING ''admitted to prefill batch'' now))
                       (\<lambda>e. thn (kv r bm_deallocate) (throw e)))
               (thn (upd (\<lambda>sd. sd\<lparr>sd_waiting := take i (sd_waiting sd) @ drop (Suc i) (sd_waiting sd),
                      sd_running := sd_running sd @ [r]\<rparr>))
                    (ret c))))) Q (lost env) t"
      unfolding wp_thn
    proof (rule wp_obj[OF t, where p' = "\<lambda>_. ?p"])
      fix u assume u: "stands env (Suc k) ?q ((r, ?p) # hand_of es) u"
      note drop = wp_give_up[OF u, where e = RuntimeError and Q = Q]
      show "wp (bnd (prefill_candidate_for r available) (\<lambda>candidate. case candidate of
         None \<Rightarrow> thn (kv r bm_deallocate) (throw RuntimeError)
       | Some c0 \<Rightarrow> let c = c0\<lparr>ca_copy_prefix := copies\<rparr> in
           if \<not> bb_accepts b c then thn (kv r bm_deallocate) (throw RuntimeError)
           else thn (catch (obj r (sq_transition_to PREFILLING ''admitted to prefill batch'' now))
                       (\<lambda>e. thn (kv r bm_deallocate) (throw e)))
               (thn (upd (\<lambda>sd. sd\<lparr>sd_waiting := take i (sd_waiting sd) @ drop (Suc i) (sd_waiting sd),
                      sd_running := sd_running sd @ [r]\<rparr>))
                    (ret c)))) Q (lost env) u"
        unfolding wp_bnd
      proof (rule wp_candidate_for)
        fix c0 assume c0: "candidate_ok u r c0"
        let ?c = "c0\<lparr>ca_copy_prefix := copies\<rparr>"
        let ?n = "ca_token_count c0" and ?v = "ca_vision_patches c0"
        have s: "stands env (Suc k) ?q ((r, \<lambda>s. ?p s \<and> granted ?n ?v s) # hand_of es) u"
          by (rule stands_sharpen[OF u]) (use c0 stands_hand(2)[OF u] in \<open>simp add: candidate_ok_def\<close>)
        have w: "sq_status (sd_objs u ! r) = WAITING" using stands_hand(2)[OF u] by simp
        have move: "wp (catch (obj r (sq_transition_to PREFILLING ''admitted to prefill batch'' now)) (\<lambda>e. thn (kv r bm_deallocate) (throw e)))
          (\<lambda>_. wp (thn (upd (\<lambda>sd. sd\<lparr>sd_waiting := take i (sd_waiting sd) @ drop (Suc i) (sd_waiting sd),
                      sd_running := sd_running sd @ [r]\<rparr>)) (ret ?c)) Q (lost env)) (lost env) u" if acc: "bb_accepts b ?c"
          unfolding wp_catch
        proof (rule wp_transition_total[OF s, where p' = "collected ?n ?v"])
          fix z assume z: "stands env (Suc k) ?q ((r, collected ?n ?v) # hand_of es) z"
          note zq = standsD(2-4)[OF z]
          have moved: "stands env k (?W, R @ [r], S) ((r, collected ?n ?v) # hand_of es)
              (z\<lparr>sd_waiting := ?W, sd_running := R @ [r], sd_swapped := S\<rparr>)"
            by (rule stands_requeue[OF z]) (use dis r take_drop_without[of W i] assms(2,3) stands_seats[OF z] in auto)
          have eq: "z\<lparr>sd_waiting := ?W, sd_running := R @ [r], sd_swapped := S\<rparr> =
              z\<lparr>sd_waiting := take i (sd_waiting z) @ drop (Suc i) (sd_waiting z), sd_running := sd_running z @ [r]\<rparr>"
            using zq by (cases z) simp
          have "stands env k (?W, R @ [r], S) (hand_of (es @ [(r, ?n, ?v)]))
              (z\<lparr>sd_waiting := take i (sd_waiting z) @ drop (Suc i) (sd_waiting z), sd_running := sd_running z @ [r]\<rparr>)"
            by (rule stands_perm[OF moved[unfolded eq]]) simp
          then show "wp (thn (upd (\<lambda>sd. sd\<lparr>sd_waiting := take i (sd_waiting sd) @ drop (Suc i) (sd_waiting sd),
                      sd_running := sd_running sd @ [r]\<rparr>)) (ret ?c)) Q (lost env) z"
            using assms(6)[of ?c] acc c0 by (simp add: wp_simps candidate_ok_def granted_def)
        qed (use w in \<open>auto simp: collected_def sq_status_def granted_lifecycle\<close>)
        show "wp (case Some c0 of None \<Rightarrow> thn (kv r bm_deallocate) (throw RuntimeError)
       | Some c0 \<Rightarrow> let c = c0\<lparr>ca_copy_prefix := copies\<rparr> in
           if \<not> bb_accepts b c then thn (kv r bm_deallocate) (throw RuntimeError)
           else thn (catch (obj r (sq_transition_to PREFILLING ''admitted to prefill batch'' now))
                       (\<lambda>e. thn (kv r bm_deallocate) (throw e)))
               (thn (upd (\<lambda>sd. sd\<lparr>sd_waiting := take i (sd_waiting sd) @ drop (Suc i) (sd_waiting sd),
                      sd_running := sd_running sd @ [r]\<rparr>))
                    (ret c))) Q (lost env) u"
          using move drop by (cases "bb_accepts b ?c") (simp_all add: Let_def wp_thn)
      qed (use drop in \<open>simp_all add: stands_lost[OF u]\<close>)
    qed (auto simp: upd_def sq_status_def)
  qed
qed

section \<open>The admission loop\<close>

lemma wp_seq: "wp p R E sd \<Longrightarrow> (\<And>x t. R x t \<Longrightarrow> wp (f x) Q E t) \<Longrightarrow> wp (bnd p f) Q E sd"
  unfolding wp_bnd by (rule wp_mono)

lemma wp_seqn: "wp p R E sd \<Longrightarrow> (\<And>x t. R x t \<Longrightarrow> wp p' Q E t) \<Longrightarrow> wp (thn p p') Q E sd"
  unfolding wp_thn by (rule wp_mono)

lemma wp_lifted: "(\<And>x. r = Inr x \<Longrightarrow> wp (f x) Q E sd) \<Longrightarrow> (\<And>e. E e sd) \<Longrightarrow> wp (bnd (lift_res r) f) Q E sd"
  by (cases r) (simp_all add: wp_bnd wp_lift_res)

lemma tier_below_ok:
  "tier_below p limit objs rs i = Inr is \<Longrightarrow>
   set is \<subseteq> {i..<i + length rs} \<and> (limit = None \<longrightarrow> is = [i..<i + length rs]) \<and> (is \<noteq> [] \<longrightarrow> limit = None \<or> is_slo p)"
proof (induction rs arbitrary: i "is")
  case (Cons r rs)
  from Cons.prems obtain keep js where j: "tier_below p limit objs rs (Suc i) = Inr js" "is = (if keep then i # js else js)"
    "limit = None \<longrightarrow> keep" "keep \<longrightarrow> limit = None \<or> is_slo p"
    by (auto simp: res_simps is_slo_def split: option.splits scheduler_policy.splits)
  show ?case using Cons.IH[OF j(1)] j(2-4) upt_conv_Cons[of i "i + length (r # rs)"] by (auto simp del: upt_Suc)
qed simp

lemma overtaking_bound:
  assumes "policy_waiting_index p cs d decodes passed = Inr (Some i)"
  shows "i < length cs" and "is_slo p \<or> i = 0 \<or> passed + 1 \<le> bypass_bound p"
  using assms policy_choice.pick_bound[of "(p, d, decodes, passed)" cs i] vision_index_ok(2)[of _ cs d decodes passed i]
  by (cases p; force simp: is_slo_def fcfs_waiting_prefill_index_def split: if_splits)+

lemma wp_note_overtaking:
  assumes "stands env k q h sd" and "is_slo (sd_policy sd) \<or> i = 0 \<or> sd_bypasses_since_heavy sd + 1 \<le> bypass_bound (sd_policy sd)"
    and "\<And>t. stands env k q h t \<Longrightarrow> Q () t"
  shows "wp (note_overtaking i) Q E sd"
proof -
  let ?t = "\<lambda>c. sd\<lparr>sd_counters := c\<rparr>"
  have "stands env k q h ((?t c)\<lparr>sd_bypasses_since_heavy := sd_bypasses_since_heavy sd + 1\<rparr>)"
    if "sd_bypasses_since_heavy sd + 1 \<le> bypass_bound (sd_policy sd)" for c
    using stands_other(6)[OF stands_other(1)[OF assms(1), of c], of "sd_bypasses_since_heavy sd + 1"] that by simp
  then show ?thesis
    using assms stands_other(1)[OF assms(1)]
    by (auto simp: note_overtaking_def tally_def wp_simps split: if_splits intro!: assms(3))
qed

text \<open>The state between two turns: the requests of the batch are in the hand, in their place in the running queue.\<close>

definition admitting :: "env \<Rightarrow> nat list \<Rightarrow> nat \<Rightarrow> prefill_builder \<Rightarrow> scheduler \<Rightarrow> bool" where
  "admitting env S k b sd \<longleftrightarrow> (\<exists>W R es. stands env k (W, R, S) (hand_of es) sd \<and> builder_of es b \<and>
     limits b = snd (env_config env) \<and> set (entry_refs es) \<subseteq> set R)"

lemma free_seat_stands: "stands env k (W, R, S) h sd \<Longrightarrow> int (length R + k) < sd_max_num_seqs sd \<Longrightarrow> stands env (Suc k) (W, R, S) h sd"
  using free_seat[of "env_config env" k h sd] by (auto simp: stands_def queues_of_def)

lemma stands_fewer: "stands env k q h sd \<Longrightarrow> k' \<le> k \<Longrightarrow> stands env k' q h sd"
  unfolding stands_def by (metis fewer_seats)

lemma admittingI:
  "stands env k (W, R, S) (hand_of es) sd \<Longrightarrow> builder_of es b \<Longrightarrow> limits b = snd (env_config env) \<Longrightarrow> set (entry_refs es) \<subseteq> set R \<Longrightarrow>
   k' \<le> k \<Longrightarrow> admitting env S k' b sd"
  unfolding admitting_def using stands_fewer by blast

lemma wp_admit_at:
  assumes st: "stands env (Suc 0) (W, R, S) (hand_of es) sd" and B: "builder_of es b" "limits b = snd (env_config env)" "set (entry_refs es) \<subseteq> set R"
    and i: "i < length W" and xx: "xx = env_hash env"
    and pass: "is_slo (sd_policy sd) \<or> i = 0 \<or> sd_bypasses_since_heavy sd + 1 \<le> bypass_bound (sd_policy sd)"
    and Q: "\<And>t. admitting env S 0 b t \<Longrightarrow> Q None t" "\<And>b' t. admitting env S 0 b' t \<Longrightarrow> Q (Some b') t"
  shows "wp (admit_at xx now b i) Q (lost env) sd"
proof -
  let ?S = "\<lambda>t. stands env (Suc 0) (W, R, S) (hand_of es) t"
  have stop: "Q None t" if "?S t" for t by (rule Q(1)[OF admittingI[OF that B]]) simp
  have W: "sd_waiting sd = W" using standsD(2)[OF st] .
  have r: "W ! i \<in> set W" "W ! i \<notin> held_refs (hand_of es)" using nth_mem[OF i] stands_distinct[OF st] B(3) by auto
  show ?thesis
    unfolding admit_at_def Let_def
    apply (subst wp_bnd, unfold wp_gets id_apply W)
    apply (rule wp_seqn[where R = "\<lambda>_. ?S"], rule wp_note_overtaking[OF st pass], assumption)
    apply (rule wp_lifted)
    subgoal for _ t deferred
    proof (cases deferred)
      case False
      assume t: "?S t"
      have look: "wp (kv (W ! i) bm_can_allocate) (\<lambda>_. ?S) (lost env) u" if "?S u" for u
        by (rule wp_look_waiting[OF that r mgr_calls(2) tables.framed_queries(1)])
      have admit: "wp (bnd (allocate_waiting_prefill xx now (W ! i) i (bb_available_tokens b) b) (\<lambda>allocated.
            bnd (lift_res (bb_add allocated b)) (\<lambda>b'. ret (Some b')))) Q (lost env) u" if "?S u" for u
        unfolding wp_bnd
      proof (rule wp_allocate_waiting[OF that i refl B(3) xx])
        fix c z assume z: "stands env 0 (take i W @ drop (Suc i) W, R @ [W ! i], S) (hand_of (es @ [(W ! i, ca_token_count c, ca_vision_patches c)])) z"
          and c: "ca_sequence c = W ! i" "0 < ca_token_count c" "bb_accepts b c"
        have "bb_add c b \<noteq> Inl e" for e using c(2,3) by (simp add: bb_add_def)
        then obtain b' where b': "bb_add c b = Inr b'" by (cases "bb_add c b") auto
        have "admitting env S 0 b' z"
          by (rule admittingI[OF z]) (use builder_add[OF B(1) b'] B(2,3) c(1) in auto)
        then show "wp (lift_res (bb_add c b)) (\<lambda>b'. wp (ret (Some b')) Q (lost env)) (lost env) z"
          using Q(2) by (simp add: b' wp_lift_res wp_ret)
      qed
      have "deferred = False" using False by simp
      then show ?thesis apply (simp only: if_False)
        unfolding wp_bnd[of "prefill_candidate_for _ _"]
        apply (rule wp_candidate_for)
        subgoal using stop[OF t] by (simp add: wp_ret)
        subgoal for c
          unfolding option.case wp_bnd[of "kv _ _"]
          by (rule wp_mono[OF look[OF t]]) (use stop admit in \<open>auto simp: wp_ret\<close>)
        subgoal by (rule stands_lost[OF t])
        done
    qed (use stop stands_other(1) in \<open>auto simp: wp_simps tally_def\<close>)
    subgoal by (rule stands_lost)
    done
qed

lemma admitting_fewer: "admitting env S k b sd \<Longrightarrow> k' \<le> k \<Longrightarrow> admitting env S k' b sd"
  unfolding admitting_def using stands_fewer by blast

lemma admitting_lost: "admitting env S k b sd \<Longrightarrow> lost env e sd"
  unfolding admitting_def using stands_lost by blast

lemma wp_admit_one:
  assumes "admitting env S (Suc 0) b sd" and xx: "xx = env_hash env"
    and Q: "\<And>t. admitting env S 0 b t \<Longrightarrow> Q None t" "\<And>b' t. admitting env S 0 b' t \<Longrightarrow> Q (Some b') t"
  shows "wp (admit_one xx now tier d b) Q (lost env) sd"
proof -
  obtain W R es where st: "stands env (Suc 0) (W, R, S) (hand_of es) sd" and B: "builder_of es b" "limits b = snd (env_config env)"
    "set (entry_refs es) \<subseteq> set R" using assms(1) by (auto simp: admitting_def)
  let ?S = "\<lambda>t. stands env (Suc 0) (W, R, S) (hand_of es) t"
  have stop: "Q None t" if "?S t" for t by (rule Q(1)[OF admittingI[OF that B]]) simp
  have W: "sd_waiting t = W" if "?S t" for t using standsD(2)[OF that] .
  have apart: "set W \<inter> held_refs (hand_of es) = {}" using stands_distinct[OF st] B(3) by auto
  show ?thesis
    unfolding admit_one_def
    apply (subst wp_bnd, unfold wp_gets W[OF st])
    apply (rule wp_seqn[where R = "\<lambda>_. ?S"], rule wp_refresh[OF st order_refl apart xx], assumption)
    apply (subst wp_bnd, unfold wp_gets id_apply)
    apply (rule wp_lifted)
    subgoal for _ t indices
    proof (cases "indices = []")
      case False
      assume t: "?S t" and "tier_below (sd_policy t) tier (sd_objs t) (sd_waiting t) 0 = Inr indices"
      note tier = tier_below_ok[OF this(2)[unfolded W[OF t]]]
      show ?thesis
        apply (simp only: False if_False)
        apply (rule wp_lifted)
        subgoal for relative
        proof (cases relative)
          case None
          then show ?thesis using stop[OF t] stop[OF stands_other(1)[OF t]] by (simp add: wp_simps tally_def)
        next
          case (Some rel)
          assume "policy_waiting_index (sd_policy t) (map (\<lambda>i. sd_objs t ! (sd_waiting t ! i)) indices) d (sd_decode_since_heavy t)
              (sd_bypasses_since_heavy t) = Inr relative"
          note over = overtaking_bound[OF this[unfolded Some]]
          have rel: "rel < length indices" using over(1) by simp
          then have "indices ! rel < length W" using tier nth_mem by fastforce
          moreover have "is_slo (sd_policy t) \<or> indices ! rel = 0 \<or> sd_bypasses_since_heavy t + 1 \<le> bypass_bound (sd_policy t)"
            using over(2) tier rel False by auto
          ultimately have "wp (admit_at xx now b (indices ! rel)) Q (lost env) t"
            by (rule wp_admit_at[OF t B _ xx _ Q])
          then show ?thesis by (simp add: Some)
        qed
        subgoal by (rule stands_lost[OF t])
        done
    qed (simp add: wp_ret stop)
    subgoal by (rule stands_lost)
    done
qed

lemma wp_admit_loop:
  assumes "admitting env S 0 b sd" and "xx = env_hash env" and "\<And>b' t. admitting env S 0 b' t \<Longrightarrow> Q b' t"
  shows "wp (admit_loop n xx now tier d b) Q (lost env) sd"
  using assms(1)
proof (induction n arbitrary: b sd)
  case 0
  then show ?case by (simp add: wp_ret assms(3))
next
  case (Suc n)
  show ?case
    unfolding admit_loop.simps wp_bnd[of "gets id"] wp_gets id_apply wp_if
  proof (intro if_bool_eq_conj[THEN iffD2] conjI impI)
    assume c: "sd_waiting sd \<noteq> [] \<and> int (length (sd_running sd)) < sd_max_num_seqs sd \<and> bb_has_capacity b \<and> \<not> bb_requires_dedicated b"
    have "admitting env S (Suc 0) b sd"
    proof -
      obtain W R es where st: "stands env 0 (W, R, S) (hand_of es) sd" and B: "builder_of es b" "limits b = snd (env_config env)"
        "set (entry_refs es) \<subseteq> set R" using Suc.prems by (auto simp: admitting_def)
      have "stands env (Suc 0) (W, R, S) (hand_of es) sd"
        by (rule free_seat_stands[OF st]) (use c standsD(3)[OF st] in simp)
      then show ?thesis by (rule admittingI[OF _ B order_refl])
    qed
    then show "wp (bnd (admit_one xx now tier d b) (\<lambda>next_batch. case next_batch of
         None \<Rightarrow> ret b | Some b' \<Rightarrow> admit_loop n xx now tier d b')) Q (lost env) sd"
      unfolding wp_bnd by (rule wp_admit_one[OF _ assms(2)]) (use Suc.IH assms(3) in \<open>auto simp: wp_ret\<close>)
  qed (simp add: wp_ret assms(3) Suc.prems)
qed

section \<open>The prefill plan\<close>

text \<open>What holds of a plan when it is handed out: its requests are distinct, running and in the right state;
  it stays inside the sequence, token and vision budgets, a request that exceeds the vision budget
  going alone.\<close>

definition plan_promise :: "scheduler \<Rightarrow> batch_plan \<Rightarrow> bool" where
  "plan_promise sd p \<longleftrightarrow> plan_wf (sd_objs sd) p \<and> distinct (bp_sequences p) \<and> set (bp_sequences p) \<subseteq> set (sd_running sd) \<and>
     int (length (bp_sequences p)) \<le> sd_max_num_seqs sd \<and>
     (case bp_phase p of
        PREFILL_PHASE \<Rightarrow> (\<forall>r \<in> set (bp_sequences p). status_of sd r = PREFILLING) \<and>
          sum_list (bp_counts p) \<le> sd_max_num_batched_tokens sd \<and>
          (\<exists>v. bp_num_scheduled_vision_patches (sd_objs sd) p = Inr v \<and>
             (length (bp_sequences p) = 1 \<or> int v \<le> sd_max_vision_patches sd))
      | DECODE_PHASE \<Rightarrow> \<forall>r \<in> set (bp_sequences p). status_of sd r = DECODING)"

lemma default_slices_nth:
  "default_slices objs rcs = Inr sls \<Longrightarrow> length sls = length rcs \<and>
   (\<forall>k < length rcs. default_prefill_slice (objs ! fst (rcs ! k)) (snd (rcs ! k)) = Inr (sls ! k))"
proof (induction rcs arbitrary: sls)
  case (Cons rc rcs)
  obtain r c where [simp]: "rc = (r, c)" by (cases rc)
  from Cons.prems obtain sl sls' where s: "default_prefill_slice (objs ! r) c = Inr sl" "default_slices objs rcs = Inr sls'" "sls = sl # sls'"
    by (auto simp: res_simps)
  show ?case using Cons.IH[OF s(2)] s(1,3) by (auto simp: nth_Cons split: nat.splits)
qed simp

lemma default_slice_range:
  "default_prefill_slice s c = Inr sl \<Longrightarrow> 0 < c \<Longrightarrow>
   nat (ps_token_start sl) = sq_effective_prefill_start s \<and> nat (ps_token_end sl) = sq_effective_prefill_start s + nat c"
  by (auto simp: default_prefill_slice_def prefill_slice_new_def res_simps Let_def nat_add_distrib split: if_splits)

lemma sum_patches_entries:
  assumes "\<forall>(r, n, v) \<in> set es. granted n v (objs ! r)" and "default_slices objs (map (\<lambda>(r, n, v). (r, n)) es) = Inr sls"
  shows "sum_patches objs (zip (map fst es) sls) = Inr (nat (sum_list (map (snd \<circ> snd) es))) \<and> 0 \<le> sum_list (map (snd \<circ> snd) es)"
  using assms
proof (induction es arbitrary: sls)
  case (Cons e es)
  obtain r n v where [simp]: "e = (r, n, v)" by (cases e)
  from Cons.prems(2) obtain sl sls' where s: "default_prefill_slice (objs ! r) n = Inr sl"
    "default_slices objs (map (\<lambda>(r, n, v). (r, n)) es) = Inr sls'" "sls = sl # sls'" by (auto simp: res_simps)
  have g: "granted n v (objs ! r)" using Cons.prems(1) by simp
  note d = default_slice_range[OF s(1)] and IH = Cons.IH[OF _ s(2)]
  show ?case using g d IH Cons.prems(1) unfolding s(3) by (simp add: granted_def nat_add_distrib)
qed simp

definition settled :: "env \<Rightarrow> scheduler \<Rightarrow> bool" where
  "settled env sd \<longleftrightarrow> (\<exists>q. stands env 0 q [] sd)"

lemma settled_queues: "settled env sd \<Longrightarrow> stands env 0 (sd_waiting sd, sd_running sd, sd_swapped sd) [] sd"
  by (auto simp: settled_def stands_def queues_of_def)

lemma stands_settled: "stands env k q [] sd \<Longrightarrow> settled env sd"
  unfolding settled_def using stands_fewer by blast

lemma release_entries:
  "stands env k (W, R, S) (hand_of es) sd \<Longrightarrow> set (entry_refs es) \<subseteq> set R \<Longrightarrow> stands env k (W, R, S) [] sd"
proof (induction es)
  case (Cons e es)
  obtain r n v where [simp]: "e = (r, n, v)" by (cases e)
  have "stands env k (W, R, S) ((r, collected n v) # hand_of es) sd" using Cons.prems(1) by (simp add: hand_of_def)
  from stands_release(2)[OF this] have "stands env k (W, R, S) (hand_of es) sd"
    using Cons.prems(2) by (simp add: entry_refs_def collected_def role_running_def)
  then show ?case using Cons.IH Cons.prems(2) by (simp add: entry_refs_def)
qed simp

lemma wp_make_plan:
  assumes "\<And>p t. batch_plan_new (sd_objs sd) phase refs counts [] t (po_name (policy_base (sd_policy sd))) now = Inr p \<Longrightarrow> Q p sd"
    and "\<And>e. E e sd"
  shows "wp (make_plan now phase refs counts transfers) Q E sd"
  using assms by (auto simp: make_plan_def wp_simps split: sum.splits)

lemma plan_slices:
  "batch_plan_new objs PREFILL_PHASE refs counts [] t name now = Inr p \<Longrightarrow> default_slices objs (zip refs counts) = Inr (bp_slices p)"
  by (auto simp: batch_plan_new_def validate_phase_slices_def validate_prefill_slices_def res_simps)

lemma sum_list_positive:
  fixes f :: "'a \<Rightarrow> int"
  shows "xs \<noteq> [] \<Longrightarrow> \<forall>x \<in> set xs. 0 < f x \<Longrightarrow> 0 < sum_list (map f xs)"
  by (induction xs rule: list_nonempty_induct) simp_all

lemma builder_promise:
  assumes "stands env k (W, R, S) (hand_of es) sd" and "builder_of es b" and "limits b = snd (env_config env)"
    and "set (entry_refs es) \<subseteq> set R"
    and "batch_plan_new (sd_objs sd) PREFILL_PHASE (bb_sequences b) (bb_token_counts b) [] tr name now = Inr p"
  shows "plan_promise sd p"
proof -
  note W = batch_plan_new_wf[OF assms(5)]
  have lim: "bb_max_sequences b = sd_max_num_seqs sd" "bb_max_tokens b = sd_max_num_batched_tokens sd" "bb_max_vision_patches b = sd_max_vision_patches sd"
    using stands_config[OF assms(1)] assms(3) by (cases "env_config env", simp add: limits_def sd_config_def)+
  have b: "bb_sequences b = map fst es" "bb_token_counts b = map (fst \<circ> snd) es" "sum_list (map (fst \<circ> snd) es) \<le> max 0 (bb_max_tokens b)"
    "int (length es) \<le> max 0 (bb_max_sequences b)" "length es \<le> 1 \<or> sum_list (map (snd \<circ> snd) es) \<le> bb_max_vision_patches b"
    using assms(2) by (auto simp: builder_of_def entry_refs_def)
  have e: "collected n v (sd_objs sd ! r)" if "(r, n, v) \<in> set es" for r n v
    using hand_in[of "env_config env" k "hand_of es" sd r "collected n v"] assms(1) that
    by (force simp: stands_def hand_of_def)
  have ne: "es \<noteq> []" using W(1,3) b(1) by (auto simp: plan_wf_def)
  have "\<forall>x \<in> set es. 0 < (fst \<circ> snd) x" using e by (fastforce simp: collected_def granted_def)
  then have "0 < sum_list (map (fst \<circ> snd) es)" using sum_list_positive ne by blast
  moreover have "length es = 1 \<or> sum_list (map (snd \<circ> snd) es) \<le> bb_max_vision_patches b" "0 < length es"
    using b(5) ne by (cases es; auto)+
  moreover have "distinct (bb_sequences b)"
    using assms(1) unfolding b(1) stands_def sched_inv_def queues_ok_def by (simp add: hand_of_def comp_def case_prod_beta)
  moreover have z: "zip (bb_sequences b) (bb_token_counts b) = map (\<lambda>(r, n, v). (r, n)) es"
    unfolding b(1,2) by (induction es) auto
  moreover have "sum_patches (sd_objs sd) (zip (map fst es) (bp_slices p)) = Inr (nat (sum_list (map (snd \<circ> snd) es))) \<and>
      0 \<le> sum_list (map (snd \<circ> snd) es)"
    by (rule sum_patches_entries) (use e plan_slices[OF assms(5), unfolded z] in \<open>auto simp: collected_def\<close>)
  moreover have "set (bb_sequences b) \<subseteq> set (sd_running sd)" "\<forall>r \<in> set (bb_sequences b). status_of sd r = PREFILLING"
    using assms(4) standsD(3)[OF assms(1)] e unfolding b(1) by (auto simp: entry_refs_def status_of_def collected_def)
  ultimately show ?thesis using W b(1-4) lim
    by (auto simp: plan_promise_def bp_num_scheduled_vision_patches_def bp_is_prefill_def max_def split: if_splits)
qed

definition promised :: "env \<Rightarrow> batch_plan option \<Rightarrow> scheduler \<Rightarrow> bool" where
  "promised env x sd \<longleftrightarrow> settled env sd \<and> (case x of None \<Rightarrow> True | Some p \<Rightarrow> plan_promise sd p)"

lemma wp_prefill_plan:
  assumes "settled env sd" and "xx = env_hash env"
  shows "wp (prefill_plan xx now tier running) (promised env) (lost env) sd"
proof -
  obtain W R S where st: "stands env 0 (W, R, S) [] sd" using settled_queues[OF assms(1)] by blast
  let ?b = "\<lparr>bb_max_tokens = sd_max_num_batched_tokens sd, bb_max_sequences = sd_max_num_seqs sd,
       bb_max_vision_patches = sd_max_vision_patches sd, bb_sequences = [], bb_token_counts = [], bb_copy_prefix = [],
       bb_num_tokens = 0, bb_num_vision_patches = 0\<rparr>"
  have b0: "builder_of [] ?b" "limits ?b = snd (env_config env)"
    using arg_cong[OF stands_config[OF st], of snd] by (auto simp: builder_of_def limits_def sd_config_def)
  have adm0: "admitting env S 0 ?b sd" by (rule admittingI[of env 0 W R S "[]"]) (use st b0 in simp_all)
  have dis: "distinct R" and R: "sd_running sd = R" using stands_distinct[OF st] standsD(3)[OF st] by auto
  show ?thesis
    unfolding prefill_plan_def Let_def
    apply (subst wp_bnd, unfold wp_gets id_apply)
    apply (rule wp_seq[where R = "admitting env S 0"])
    subgoal
    proof (cases running)
      case True
      have "wp (collect_running_prefills R ?b) (admitting env S 0) (lost env) sd"
        by (rule wp_collect[of env 0 W R S "[]"]) (use st b0 dis in \<open>auto intro: admittingI\<close>)
      then show ?thesis using True by (simp add: R)
    qed (simp add: wp_ret adm0)
    subgoal for b t
      unfolding admit_waiting_prefills_def
      apply (rule wp_seq[where R = "admitting env S 0"])
      subgoal
        apply (subst wp_bnd, unfold wp_gets id_apply)
        apply (rule wp_admit_loop[OF _ assms(2)], assumption, assumption)
        done
      subgoal for b' u
      proof (cases "bb_sequences b' = []")
        case True
        assume "admitting env S 0 b' u"
        then obtain W R es where "stands env 0 (W, R, S) (hand_of es) u" "set (entry_refs es) \<subseteq> set R" by (auto simp: admitting_def)
        then have "settled env u" using release_entries stands_settled by blast
        then show ?thesis using True by (simp add: wp_ret promised_def)
      next
        case False
        assume "admitting env S 0 b' u"
        then obtain W R es where a: "stands env 0 (W, R, S) (hand_of es) u" "builder_of es b'" "limits b' = snd (env_config env)"
          "set (entry_refs es) \<subseteq> set R" by (auto simp: admitting_def)
        have "settled env u" using release_entries[OF a(1,4)] stands_settled by blast
        then have "wp (make_plan now PREFILL_PHASE (bb_sequences b') (bb_token_counts b') (kv_transfers_new [] (bb_copy_prefix b') [] []))
            (\<lambda>p. promised env (Some p)) (lost env) u"
          by (intro wp_make_plan) (use builder_promise[OF a] stands_lost[OF a(1)] in \<open>auto simp: promised_def\<close>)
        then show ?thesis using False by (simp add: wp_bnd wp_ret_eta)
      qed
      done
    done
qed

end
