(* ===== verification/Scheduler_Decode.thy ===== *)
theory Scheduler_Decode imports Scheduler_Steps begin

text \<open>
  The decode half of the scheduler against the invariant of its queues: preemption by swapping or by
  recomputation, swap in, making room for the next token, and the decode plan.  The requests that a
  decode step works on are in its hand and in no queue; every one of them is back in a queue at the end.
\<close>

section \<open>Preemption\<close>

definition dhand :: "nat list \<Rightarrow> hand" where
  "dhand rs = map (\<lambda>r. (r, role_decoding)) rs"

lemma dhand_simps [simp]:
  "dhand [] = []" "dhand (r # rs) = (r, role_decoding) # dhand rs" "dhand (rs @ rs') = dhand rs @ dhand rs'" "held_refs (dhand rs) = set rs"
  by (auto simp: dhand_def held_refs_def image_image)

lemma mset_dhand: "mset rs = mset rs' \<Longrightarrow> mset (dhand rs) = mset (dhand rs')"
  unfolding dhand_def by (metis mset_map)

lemma status_lifecycle: "sq_status (s\<lparr>sq_lifecycle := l\<rparr>) = lc_state l"
  by (simp add: sq_status_def)

lemma deallocated:
  "bm_deallocate (m, s) = (Inr x, (m', s')) \<Longrightarrow> sq_block_table s' = [] \<and> sq_cpu_block_table s' = [] \<and>
     sq_status s' = sq_status s \<and> sq_seq_id s' = sq_seq_id s"
  using leaves_deallocate framedD[OF framed_deallocate] life_kept_facts unfolding leaves_def by (metis snd_conv)

lemma wp_give_back:
  assumes "stands env k q ((r, p) # h) sd"
    and "\<And>s s'. p s \<Longrightarrow> sq_block_table s' = [] \<Longrightarrow> sq_cpu_block_table s' = [] \<Longrightarrow> sq_status s' = sq_status s \<Longrightarrow> p' s'"
    and "\<And>t. stands env k q ((r, p') # h) t \<Longrightarrow> Q () t"
  shows "wp (kv r bm_deallocate) Q (lost env) sd"
proof (rule wp_kv[OF assms(1) mgr_calls(4), where p' = "\<lambda>_. p'"])
  fix m s x m' s' assume "p s" "bm_deallocate (m, s) = (Inr x, (m', s'))"
  then show "p' s' \<and> sq_seq_id s' = sq_seq_id s" using deallocated[of m s x m' s'] assms(2)[of s s'] by simp
qed (simp add: assms(3))

text \<open>A request in the hand and in no queue goes into a queue.\<close>

lemma stands_to_waiting:
  assumes "stands env k (W, R, S) ((r, role_waiting) # h) sd" and "r \<notin> set W \<union> set R \<union> set S"
  shows "stands env k (r # W, R, S) h (sd\<lparr>sd_waiting := r # W\<rparr>)"
proof -
  have "stands env k (r # W, R, S) ((r, role_waiting) # h) (sd\<lparr>sd_waiting := r # W, sd_running := R, sd_swapped := S\<rparr>)"
    by (rule stands_requeue[OF assms(1)]) (use assms stands_distinct[OF assms(1)] stands_seats[OF assms(1)] in auto)
  moreover have "sd\<lparr>sd_waiting := r # W, sd_running := R, sd_swapped := S\<rparr> = sd\<lparr>sd_waiting := r # W\<rparr>"
    using standsD(3,4)[OF assms(1)] by (cases sd) simp
  ultimately show ?thesis using stands_release(1) by fastforce
qed

lemma stands_to_swapped:
  assumes "stands env k (W, R, S) ((r, role_swapped) # h) sd" and "r \<notin> set W \<union> set R \<union> set S"
  shows "stands env k (W, R, S @ [r]) h (sd\<lparr>sd_swapped := S @ [r]\<rparr>)"
proof -
  have "stands env k (W, R, S @ [r]) ((r, role_swapped) # h) (sd\<lparr>sd_waiting := W, sd_running := R, sd_swapped := S @ [r]\<rparr>)"
    by (rule stands_requeue[OF assms(1)]) (use assms stands_distinct[OF assms(1)] stands_seats[OF assms(1)] in auto)
  moreover have "sd\<lparr>sd_waiting := W, sd_running := R, sd_swapped := S @ [r]\<rparr> = sd\<lparr>sd_swapped := S @ [r]\<rparr>"
    using standsD(2,3)[OF assms(1)] by (cases sd) simp
  ultimately show ?thesis using stands_release(3) by fastforce
qed

text \<open>Several requests in the hand take their seats in the running queue, in front or at the back.\<close>

lemma release_all:
  "stands env k (W, R, S) (dhand rs @ h) sd \<Longrightarrow> set rs \<subseteq> set R \<Longrightarrow> stands env k (W, R, S) h sd"
proof (induction rs)
  case (Cons r rs)
  have "stands env k (W, R, S) (dhand rs @ h) sd"
    by (rule stands_release(2)[where p = role_decoding]) (use Cons.prems in \<open>auto simp: roles\<close>)
  then show ?case using Cons by simp
qed simp

lemma stands_seat:
  assumes "stands env (k + length rs) (W, R, S) (dhand rs @ h) sd" and "set rs \<inter> (set W \<union> set R \<union> set S) = {}"
    and "mset R' = mset R + mset rs"
  shows "stands env k (W, R', S) (dhand rs @ h) (sd\<lparr>sd_running := R'\<rparr>)"
  using assms
proof (induction rs arbitrary: R R' h sd)
  case Nil
  then have m: "mset R' = mset R" by simp
  have e: "set R' = set R" "length R' = length R" "distinct R' = distinct R"
    using m by (metis set_mset_mset) (metis m size_mset, metis m mset_eq_imp_distinct_iff)
  note i = standsD[OF Nil.prems(1)]
  have "sched_inv (env_config env) k h (sd\<lparr>sd_running := R'\<rparr>)"
    using i(1) e i(3) unfolding sched_inv_def queues_ok_def sd_config_def bypass_ok_def by simp
  moreover have "traced env (sd\<lparr>sd_running := R'\<rparr>)" using i(5) sys_of_same[of "sd\<lparr>sd_running := R'\<rparr>" sd] by (simp add: sys_of_def)
  ultimately show ?case using i by (simp add: stands_def queues_of_def)
next
  case (Cons r rs)
  have "stands env (k + length rs) (W, R @ [r], S) ((r, role_decoding) # dhand rs @ h)
      (sd\<lparr>sd_waiting := W, sd_running := R @ [r], sd_swapped := S\<rparr>)"
    by (rule stands_requeue[of env "k + length (r # rs)" W R S _ sd r])
      (use Cons.prems stands_distinct[OF Cons.prems(1)] stands_seats[OF Cons.prems(1)] in auto)
  moreover have "sd\<lparr>sd_waiting := W, sd_running := R @ [r], sd_swapped := S\<rparr> = sd\<lparr>sd_running := R @ [r]\<rparr>"
    using standsD(2,4)[OF Cons.prems(1)] by (cases sd) simp
  ultimately have s: "stands env (k + length rs) (W, R @ [r], S) ((r, role_decoding) # dhand rs @ h) (sd\<lparr>sd_running := R @ [r]\<rparr>)" by simp
  have d: "r \<notin> set rs" using stands_hand(3)[of env _ _ r role_decoding "dhand rs @ h"] Cons.prems(1) by auto
  have "stands env k (W, R', S) (dhand rs @ (r, role_decoding) # h) (sd\<lparr>sd_running := R @ [r], sd_running := R'\<rparr>)"
  proof (rule Cons.IH)
    show "stands env (k + length rs) (W, R @ [r], S) (dhand rs @ (r, role_decoding) # h) (sd\<lparr>sd_running := R @ [r]\<rparr>)"
      by (rule stands_perm[OF s]) simp
  qed (use Cons.prems d in auto)
  then show ?case using stands_perm[of env k _ _ _ "dhand (r # rs) @ h"] by simp
qed

section \<open>Preempting and swapping in\<close>

lemma wp_preempt:
  assumes st: "stands env k (W, R, S) ((r, role_decoding) # h) sd" and r: "r \<notin> set W \<union> set R \<union> set S"
    and Q: "\<And>W' S' pairs' t. stands env k (W', R, S') h t \<Longrightarrow> set W' \<union> set S' \<subseteq> insert r (set W \<union> set S) \<Longrightarrow>
       (pairs' = None \<longrightarrow> pairs = None) \<Longrightarrow> Q pairs' t"
  shows "wp (sd_preempt now r pairs) Q (lost env) sd"
proof -
  have finish: "wp (thn sd_observe_state (ret pairs')) Q (lost env) t"
    if "stands env k (W', R, S') h t" "set W' \<union> set S' \<subseteq> insert r (set W \<union> set S)" "pairs' = None \<longrightarrow> pairs = None" for W' S' pairs' t
    unfolding wp_thn by (rule wp_note_peaks) (use Q[OF stands_other(1)[OF that(1)] that(2,3)] in \<open>simp add: wp_ret\<close>)
  let ?p = "\<lambda>s. sq_status s = DECODING \<and> sq_block_table s = []"
  have swap: "wp (bnd (kv r bm_swap_out) (\<lambda>new.
            thn (obj r (sq_transition_to SWAPPED ''decode KV capacity preemption'' now))
           (thn (upd (\<lambda>sd. sd\<lparr>sd_swapped := sd_swapped sd @ [r]\<rparr>))
           (thn (tally (\<lambda>c. c\<lparr>sn_swap_preemptions := sn_swap_preemptions c + 1\<rparr>))
                (ret (map_option (\<lambda>old. old @ new) pairs))))))
      (\<lambda>pairs'. wp (thn sd_observe_state (ret pairs')) Q (lost env)) (lost env) t"
    if t: "stands env k (W, R, S) ((r, role_decoding) # h) t" for t
    unfolding wp_bnd
  proof (rule wp_kv[OF t mgr_calls(9), where p' = "\<lambda>_. ?p"])
    fix m s x m' s' assume "role_decoding s" and run: "bm_swap_out (m, s) = (Inr x, (m', s'))"
    then show "?p s' \<and> sq_seq_id s' = sq_seq_id s"
      using life_kept_facts[OF framedD[OF framed_swap(1) run]] leaves_swap(1) unfolding leaves_def role_decoding_def by (metis snd_conv)
  next
    fix new u assume u: "stands env k (W, R, S) ((r, ?p) # h) u"
    show "wp (thn (obj r (sq_transition_to SWAPPED ''decode KV capacity preemption'' now))
           (thn (upd (\<lambda>sd. sd\<lparr>sd_swapped := sd_swapped sd @ [r]\<rparr>))
           (thn (tally (\<lambda>c. c\<lparr>sn_swap_preemptions := sn_swap_preemptions c + 1\<rparr>))
                (ret (map_option (\<lambda>old. old @ new) pairs)))))
      (\<lambda>pairs'. wp (thn sd_observe_state (ret pairs')) Q (lost env)) (lost env) u"
      apply (rule wp_seqn[where R = "\<lambda>_. stands env k (W, R, S) ((r, role_swapped) # h)"])
      subgoal by (rule wp_enter[OF u]) (auto simp: roles)
      subgoal for _ z
        using finish[OF stands_other(1)[OF stands_to_swapped[OF _ r]], of z] standsD(4)[of env k W R S _ z]
        by (auto simp: wp_thn wp_upd tally_def wp_ret)
      done
  qed
  have recompute: "wp (thn (kv r bm_deallocate)
           (thn (obj r (upd (\<lambda>s. s\<lparr>sq_num_computed_tokens := 0\<rparr>)))
           (thn (obj r (sq_transition_to WAITING ''recompute preemption'' now))
           (thn (upd (\<lambda>sd. sd\<lparr>sd_waiting := r # sd_waiting sd\<rparr>))
           (thn (tally (\<lambda>c. c\<lparr>sn_recompute_preemptions := sn_recompute_preemptions c + 1\<rparr>))
                (ret pairs))))))
      (\<lambda>pairs'. wp (thn sd_observe_state (ret pairs')) Q (lost env)) (lost env) t"
    if t: "stands env k (W, R, S) ((r, role_decoding) # h) t" for t
    apply (rule wp_seqn[where R = "\<lambda>_. stands env k (W, R, S) ((r, \<lambda>s. sq_block_table s = [] \<and> sq_cpu_block_table s = []) # h)"])
    subgoal by (rule wp_give_back[OF t]) simp_all
    apply (rule wp_seqn[where R = "\<lambda>_. stands env k (W, R, S) ((r, \<lambda>s. sq_block_table s = [] \<and> sq_cpu_block_table s = []) # h)"])
    subgoal by (erule wp_obj[where p' = "\<lambda>_ s. sq_block_table s = [] \<and> sq_cpu_block_table s = []"]) (auto simp: upd_def)
    apply (rule wp_seqn[where R = "\<lambda>_. stands env k (W, R, S) ((r, role_waiting) # h)"])
    subgoal by (erule wp_enter) (auto simp: roles)
    subgoal for _ _ _ _ _ z
      using finish[OF stands_other(1)[OF stands_to_waiting[OF _ r]], of z] standsD(2)[of env k W R S _ z]
      by (auto simp: wp_thn wp_upd tally_def wp_ret)
    done
  show ?thesis
    unfolding sd_preempt_def
    apply (rule wp_seq[where R = "\<lambda>_. stands env k (W, R, S) ((r, role_decoding) # h)"])
    subgoal
      using wp_look_hand[OF st mgr_calls(8) tables.framed_queries(3) tables_kept_roles(4)] st
      by (auto simp: wp_ret split: option.split)
    subgoal for swap t using swap[of t] recompute[of t] by (cases swap) (simp_all add: wp_bnd)
    done
qed

section \<open>Making room\<close>

lemma wp_look_decoding:
  assumes "stands env k q ((r, role_decoding) # h) sd" and "mgr_call env f" and "framed cpu_kept f"
    and "\<And>x t. stands env k q ((r, role_decoding) # h) t \<Longrightarrow> Q x t"
  shows "wp (kv r f) Q (lost env) sd"
proof (rule wp_kv[OF assms(1,2), where p' = "\<lambda>_. role_decoding"])
  fix m s x m' s' assume "role_decoding s" "f (m, s) = (Inr x, (m', s'))"
  then show "role_decoding s' \<and> sq_seq_id s' = sq_seq_id s" using cpu_kept_roles(2,3)[OF framedD[OF assms(3)]] by blast
qed (rule assms(4))

lemma tables_cpu: "tables_kept s t \<Longrightarrow> cpu_kept s t"
  by (simp add: tables_kept_def cpu_kept_def)

lemma wp_append_room:
  assumes st: "stands env k q ((r, role_decoding) # h) sd" and Q: "\<And>x t. stands env k q ((r, role_decoding) # h) t \<Longrightarrow> Q x t"
  shows "wp (append_room r) Q (lost env) sd"
  unfolding append_room_def
  apply (subst wp_bnd, unfold wp_gets id_apply)
  apply (rule wp_seq[where R = "\<lambda>_. stands env k q ((r, role_decoding) # h)"])
  subgoal using wp_look_decoding[OF st mgr_calls(7) framed_copy_on_write] st by (simp add: wp_ret)
  subgoal for pair t
    apply (rule wp_seqn[where R = "\<lambda>_. stands env k q ((r, role_decoding) # h)"])
    subgoal by (rule wp_look_decoding[OF _ mgr_calls(6) framed_may_append])
    subgoal by (simp add: wp_ret Q)
    done
  done

text \<open>\<open>cs\<close> are the requests still to be looked at, \<open>ss\<close> those already scheduled; each has a seat.\<close>

definition decoding :: "env \<Rightarrow> nat list \<Rightarrow> nat list \<Rightarrow> scheduler \<Rightarrow> bool" where
  "decoding env cs ss sd \<longleftrightarrow> (\<exists>W R S. stands env (length cs + length ss) (W, R, S) (dhand (cs @ ss)) sd \<and>
     set (cs @ ss) \<inter> (set W \<union> set R \<union> set S) = {})"

lemma decodingI:
  "stands env (length cs + length ss) (W, R, S) (dhand (cs @ ss)) sd \<Longrightarrow> set (cs @ ss) \<inter> (set W \<union> set R \<union> set S) = {} \<Longrightarrow>
   decoding env cs ss sd"
  unfolding decoding_def by blast

lemma decoding_lost: "decoding env cs ss sd \<Longrightarrow> lost env e sd"
  unfolding decoding_def using stands_lost by blast

lemma preemption_candidate_in: "fcfs_preemption_candidate p cs = Some v \<Longrightarrow> v \<in> set cs"
  by (auto simp: fcfs_preemption_candidate_def split: if_splits)

lemma wp_preempt_decoding:
  assumes "decoding env cs ss sd" and v: "v \<in> set cs"
    and Q: "\<And>pairs' t. decoding env (remove1 v cs) ss t \<Longrightarrow> (pairs' = None \<longrightarrow> pairs = None) \<Longrightarrow> Q pairs' t"
  shows "wp (sd_preempt now v pairs) Q (lost env) sd"
proof -
  obtain W R S where st: "stands env (length cs + length ss) (W, R, S) (dhand (cs @ ss)) sd"
    and apart: "set (cs @ ss) \<inter> (set W \<union> set R \<union> set S) = {}" using assms(1) by (auto simp: decoding_def)
  have "mset (dhand (cs @ ss)) = mset (dhand (v # remove1 v cs @ ss))" by (rule mset_dhand) (use v in simp)
  then have g: "stands env (length cs + length ss) (W, R, S) ((v, role_decoding) # dhand (remove1 v cs @ ss)) sd"
    using stands_perm[OF st] by simp
  have nv: "v \<notin> set (remove1 v cs @ ss)" using stands_hand(3)[OF g] by simp
  show ?thesis
  proof (rule wp_preempt[OF g])
    show "v \<notin> set W \<union> set R \<union> set S" using apart v by auto
    fix W' S' t and pairs' :: "(nat \<times> nat) list option"
    assume t: "stands env (length cs + length ss) (W', R, S') (dhand (remove1 v cs @ ss)) t"
      "set W' \<union> set S' \<subseteq> insert v (set W \<union> set S)" and p: "pairs' = None \<longrightarrow> pairs = None"
    have "set (remove1 v cs @ ss) \<subseteq> set (cs @ ss)" using set_remove1_subset[of v cs] by auto
    then have "set (remove1 v cs @ ss) \<inter> (set W' \<union> set R \<union> set S') = {}" using nv t(2) apart by blast
    moreover have "stands env (length (remove1 v cs) + length ss) (W', R, S') (dhand (remove1 v cs @ ss)) t"
      by (rule stands_fewer[OF t(1)]) (simp add: length_remove1)
    ultimately have "decoding env (remove1 v cs) ss t" unfolding decoding_def by blast
    then show "Q pairs' t" using p by (rule Q)
  qed
qed

lemma decoding_first:
  assumes "decoding env (r # cs) ss sd"
  obtains W R S where "stands env (length (r # cs) + length ss) (W, R, S) ((r, role_decoding) # dhand (cs @ ss)) sd"
    "set (r # cs @ ss) \<inter> (set W \<union> set R \<union> set S) = {}"
  using assms by (auto simp: decoding_def)

lemma wp_look_first:
  assumes "decoding env (r # cs) ss sd" and "mgr_call env f" and "framed tables_kept f"
    and "\<And>x t. decoding env (r # cs) ss t \<Longrightarrow> Q x t"
  shows "wp (kv r f) Q (lost env) sd"
proof -
  obtain W R S where st: "stands env (length (r # cs) + length ss) (W, R, S) ((r, role_decoding) # dhand (cs @ ss)) sd"
    and a: "set (r # cs @ ss) \<inter> (set W \<union> set R \<union> set S) = {}" by (rule decoding_first[OF assms(1)])
  show ?thesis
  proof (rule wp_look_hand[OF st assms(2,3) tables_kept_roles(4)])
    fix x t assume "stands env (length (r # cs) + length ss) (W, R, S) ((r, role_decoding) # dhand (cs @ ss)) t"
    then have "decoding env (r # cs) ss t" unfolding decoding_def using a by (intro exI[of _ W] exI[of _ R] exI[of _ S]) simp
    then show "Q x t" by (rule assms(4))
  qed
qed

text \<open>The request goes back to the end of the running queue.\<close>

lemma decoding_put_back:
  assumes "decoding env (r # cs) ss sd"
  shows "decoding env cs ss (sd\<lparr>sd_running := sd_running sd @ [r]\<rparr>)"
proof -
  obtain W R S where st: "stands env (length (r # cs) + length ss) (W, R, S) ((r, role_decoding) # dhand (cs @ ss)) sd"
    and a: "set (r # cs @ ss) \<inter> (set W \<union> set R \<union> set S) = {}" by (rule decoding_first[OF assms])
  have nr: "r \<notin> set (cs @ ss)" using stands_hand(3)[OF st] by simp
  have "stands env (length cs + length ss) (W, R @ [r], S) (dhand [r] @ dhand (cs @ ss)) (sd\<lparr>sd_running := R @ [r]\<rparr>)"
    by (rule stands_seat) (use st a in auto)
  then have "stands env (length cs + length ss) (W, R @ [r], S) (dhand (cs @ ss)) (sd\<lparr>sd_running := R @ [r]\<rparr>)"
    by (rule release_all) simp
  then show ?thesis unfolding decoding_def standsD(3)[OF st] using a nr
    by (intro exI[of _ W] exI[of _ "R @ [r]"] exI[of _ S]) auto
qed

lemma wp_make_room:
  assumes "decoding env (r # cs) ss sd"
    and "\<And>cs' out' t. decoding env (r # cs') ss t \<Longrightarrow> Q (True, cs', out') t"
    and "\<And>cs' out' t. decoding env cs' ss t \<Longrightarrow> length cs' \<le> length cs \<Longrightarrow> Q (False, cs', out') t"
  shows "wp (make_room now resident r cs out) Q (lost env) sd"
  using assms
proof (induction "length cs" arbitrary: cs out sd rule: less_induct)
  case less
  note d = less.prems(1)
  show ?case
    apply (subst make_room.simps)
    apply (subst wp_bnd, unfold wp_gets)
    apply (rule wp_seq[where R = "\<lambda>_. decoding env (r # cs) ss"], rule wp_look_first[OF d mgr_calls(5) tables.framed_queries(2)], assumption)
    subgoal for fits t
    proof (cases fits)
      case False
      assume t: "decoding env (r # cs) ss t"
      show ?thesis
      proof (cases resident)
        case True
        have "wp (thn (upd (\<lambda>sd. sd\<lparr>sd_running := sd_running sd @ [r]\<rparr>)) (ret (False, cs, out))) Q (lost env) t"
          using less.prems(3)[OF decoding_put_back[OF t]] by (simp add: wp_thn wp_upd wp_ret)
        then show ?thesis using True False by simp
      next
        case res: False
        show ?thesis
        proof (cases "fcfs_preemption_candidate (policy_base (sd_policy sd)) cs")
          case None
          have "wp (bnd (sd_preempt now r (Some out)) (\<lambda>out'. ret (False, cs, the out'))) Q (lost env) t"
            unfolding wp_bnd by (rule wp_preempt_decoding[OF t]) (use less.prems(3) in \<open>auto simp: wp_ret\<close>)
          then show ?thesis using None False res by simp
        next
          case (Some v)
          have v: "v \<in> set cs" by (rule preemption_candidate_in[OF Some])
          have nv: "v \<noteq> r"
          proof -
            obtain W R S where "stands env (length (r # cs) + length ss) (W, R, S) ((r, role_decoding) # dhand (cs @ ss)) t"
              by (rule decoding_first[OF t])
            then show ?thesis using stands_hand(3) v by fastforce
          qed
          have shorter: "length (remove1 v cs) < length cs" using v by (simp add: length_remove1) (metis Suc_pred length_pos_if_in_set lessI)
          have "wp (bnd (sd_preempt now v (Some out)) (\<lambda>out'. make_room now resident r (remove1 v cs) (the out'))) Q (lost env) t"
            unfolding wp_bnd
          proof (rule wp_preempt_decoding[OF t])
            show "v \<in> set (r # cs)" using v by simp
            fix out' u assume "decoding env (remove1 v (r # cs)) ss u"
            then have u: "decoding env (r # remove1 v cs) ss u" using nv by simp
            show "wp (make_room now resident r (remove1 v cs) (the out')) Q (lost env) u"
              by (rule less.hyps[OF shorter u less.prems(2)]) (use less.prems(3) shorter in \<open>auto\<close>)
          qed
          then show ?thesis using Some False res by simp
        qed
      qed
    qed (use less.prems(2) in \<open>simp add: wp_ret\<close>)
    done
qed

text \<open>The loop ends with every seat taken by a scheduled request or a remaining candidate.\<close>

lemma decoding_schedule: "decoding env (r # cs) ss sd \<Longrightarrow> decoding env cs (ss @ [r]) sd"
  unfolding decoding_def by (elim exE conjE, intro exI conjI, rule stands_perm) auto

lemma decoding_limit: "decoding env cs ss sd \<Longrightarrow> sd_max_num_seqs sd = fst (snd (env_config env))"
  unfolding decoding_def sd_config_def[of sd, symmetric] using stands_config[of env _ _ _ sd] by (auto simp: sd_config_def) (metis fst_conv snd_conv)

lemma wp_decode_loop:
  assumes "decoding env cs ss sd" and "int (length ss) \<le> max 0 (fst (snd (env_config env)))"
    and "\<And>cs' ss' cow' out' t. decoding env cs' ss' t \<Longrightarrow> int (length ss') \<le> max 0 (fst (snd (env_config env))) \<Longrightarrow> Q (cs', ss', cow', out') t"
  shows "wp (decode_loop n now resident cs ss cow out) Q (lost env) sd"
  using assms(1,2)
proof (induction n arbitrary: cs ss cow out sd)
  case 0
  then show ?case by (simp add: wp_ret assms(3))
next
  case (Suc n)
  show ?case
  proof (cases cs)
    case Nil
    then show ?thesis using assms(3)[OF Suc.prems] by (simp add: wp_bnd wp_gets wp_ret)
  next
    case (Cons r rest)
    have "wp (bnd (make_room now resident r rest out) (\<lambda>(fits, rest', out').
         if \<not> fits then decode_loop n now resident rest' ss cow out'
         else bnd (append_room r) (\<lambda>pair.
           decode_loop n now resident rest' (ss @ [r]) (case pair of None \<Rightarrow> cow | Some p \<Rightarrow> cow @ [p]) out'))) Q (lost env) sd"
      if lim: "int (length ss) < sd_max_num_seqs sd"
      unfolding wp_bnd
    proof (rule wp_make_room[OF Suc.prems(1)[unfolded Cons]])
      fix cs' out' t assume t: "decoding env (r # cs') ss t"
      obtain W R S where st: "stands env (length (r # cs') + length ss) (W, R, S) ((r, role_decoding) # dhand (cs' @ ss)) t"
        and a: "set (r # cs' @ ss) \<inter> (set W \<union> set R \<union> set S) = {}" by (rule decoding_first[OF t])
      have "wp (append_room r) (\<lambda>pair. wp (decode_loop n now resident cs' (ss @ [r]) (case pair of None \<Rightarrow> cow | Some p \<Rightarrow> cow @ [p]) out') Q (lost env)) (lost env) t"
      proof (rule wp_append_room[OF st])
        fix pair u assume u: "stands env (length (r # cs') + length ss) (W, R, S) ((r, role_decoding) # dhand (cs' @ ss)) u"
        have "decoding env (r # cs') ss u" unfolding decoding_def using u a by (intro exI[of _ W] exI[of _ R] exI[of _ S]) simp
        then show "wp (decode_loop n now resident cs' (ss @ [r]) (case pair of None \<Rightarrow> cow | Some p \<Rightarrow> cow @ [p]) out') Q (lost env) u"
          by (intro Suc.IH decoding_schedule) (use lim decoding_limit[OF Suc.prems(1)] in auto)
      qed
      then show "wp (case (True, cs', out') of (fits, rest', out') \<Rightarrow>
         if \<not> fits then decode_loop n now resident rest' ss cow out'
         else bnd (append_room r) (\<lambda>pair.
           decode_loop n now resident rest' (ss @ [r]) (case pair of None \<Rightarrow> cow | Some p \<Rightarrow> cow @ [p]) out')) Q (lost env) t"
        by (simp add: wp_bnd)
    qed (use Suc.IH Suc.prems(2) in simp)
    then show ?thesis using assms(3)[OF Suc.prems] by (simp add: Cons wp_bnd wp_gets wp_ret)
  qed
qed

section \<open>Swapping in\<close>

lemma stands_from_swapped:
  assumes "stands env k (W, R, r # S) ((r, p) # h) sd"
  shows "stands env k (W, R, S) ((r, p) # h) (sd\<lparr>sd_swapped := S\<rparr>)" and "r \<notin> set W \<union> set R \<union> set S"
proof -
  have "stands env k (W, R, S) ((r, p) # h) (sd\<lparr>sd_waiting := W, sd_running := R, sd_swapped := S\<rparr>)"
    by (rule stands_requeue[OF assms]) (use stands_distinct[OF assms] stands_seats[OF assms] in auto)
  moreover have "sd\<lparr>sd_waiting := W, sd_running := R, sd_swapped := S\<rparr> = sd\<lparr>sd_swapped := S\<rparr>"
    using standsD(2,3)[OF assms] by (cases sd) simp
  ultimately show "stands env k (W, R, S) ((r, p) # h) (sd\<lparr>sd_swapped := S\<rparr>)" by simp
  show "r \<notin> set W \<union> set R \<union> set S" using stands_distinct[OF assms] by auto
qed

lemma wp_swap_in_loop:
  assumes "settled env sd" and "\<And>x t. settled env t \<Longrightarrow> Q x t"
  shows "wp (swap_in_loop n now pairs) Q (lost env) sd"
  using assms(1)
proof (induction n arbitrary: pairs sd)
  case 0
  then show ?case by (simp add: wp_ret assms(2))
next
  case (Suc n)
  obtain W R S where st: "stands env 0 (W, R, S) [] sd" using settled_queues[OF Suc.prems] by blast
  show ?case
  proof (cases S)
    case Nil
    then show ?thesis using assms(2)[OF Suc.prems] standsD(4)[OF st] by (simp add: wp_bnd wp_gets wp_ret)
  next
    case (Cons r rest)
    let ?q = "(W, R, rest)" and ?p = "\<lambda>s. sq_status s = SWAPPED \<and> sq_cpu_block_table s = []"
    have r: "r \<in> set S" "r \<notin> held_refs []" using Cons by simp_all
    have "wp (bnd (kv r bm_can_swap_in) (\<lambda>fits. if \<not> fits then ret pairs
         else thn (upd (\<lambda>sd. sd\<lparr>sd_swapped := rest\<rparr>))
             (bnd (kv r bm_swap_in) (\<lambda>new.
              thn (tally (\<lambda>c. c\<lparr>sn_swap_in := sn_swap_in c + 1\<rparr>))
             (thn (obj r (sq_transition_to DECODING ''KV swap-in completed'' now))
             (thn (upd (\<lambda>sd. sd\<lparr>sd_running := sd_running sd @ [r]\<rparr>))
                  (swap_in_loop n now (pairs @ new)))))))) Q (lost env) sd"
      if lim: "int (length R) < sd_max_num_seqs sd"
    proof -
      have "stands env (Suc 0) (W, R, S) [] sd" by (rule free_seat_stands[OF st]) (use lim in simp)
      from stands_grab_swapped[OF this r] have g: "stands env (Suc 0) (W, R, S) [(r, role_swapped)] sd" .
      show ?thesis
        apply (rule wp_seq[where R = "\<lambda>_. stands env (Suc 0) (W, R, S) [(r, role_swapped)]"])
        subgoal by (rule wp_look_hand[OF g mgr_calls(10) tables.framed_queries(4) tables_kept_roles(3)])
        subgoal for fits t
        proof (cases fits)
          case False
          assume t: "stands env (Suc 0) (W, R, S) [(r, role_swapped)] t"
          have "settled env t" by (rule stands_settled[OF stands_release(3)[OF t r(1)]])
          then show ?thesis using False assms(2) by (simp add: wp_ret)
        next
          case True
          assume t: "stands env (Suc 0) (W, R, S) [(r, role_swapped)] t"
          note t' = stands_from_swapped[OF t[unfolded Cons]]
          have "wp (bnd (kv r bm_swap_in) (\<lambda>new.
              thn (tally (\<lambda>c. c\<lparr>sn_swap_in := sn_swap_in c + 1\<rparr>))
             (thn (obj r (sq_transition_to DECODING ''KV swap-in completed'' now))
             (thn (upd (\<lambda>sd. sd\<lparr>sd_running := sd_running sd @ [r]\<rparr>))
                  (swap_in_loop n now (pairs @ new)))))) Q (lost env) (t\<lparr>sd_swapped := rest\<rparr>)"
            apply (rule wp_seq[where R = "\<lambda>_. stands env (Suc 0) ?q [(r, ?p)]"])
            subgoal
            proof (rule wp_kv[OF t'(1) mgr_calls(11), where p' = "\<lambda>_. ?p"])
              fix m s x m' s' assume "role_swapped s" and run: "bm_swap_in (m, s) = (Inr x, (m', s'))"
              then show "?p s' \<and> sq_seq_id s' = sq_seq_id s"
                using life_kept_facts[OF framedD[OF framed_swap(2) run]] leaves_swap(2) unfolding leaves_def role_swapped_def by (metis snd_conv)
            qed
            apply (rule wp_seqn[where R = "\<lambda>_. stands env (Suc 0) ?q [(r, ?p)]"])
            subgoal by (rule wp_tally) (rule stands_other(1))
            apply (rule wp_seqn[where R = "\<lambda>_. stands env (Suc 0) ?q [(r, role_decoding)]"])
            subgoal by (erule wp_enter) (simp_all add: roles)
            subgoal for new _ _ _ _ z
            proof -
              assume z: "stands env (Suc 0) ?q [(r, role_decoding)] z"
              have "stands env 0 (W, R @ [r], rest) (dhand [r] @ []) (z\<lparr>sd_running := R @ [r]\<rparr>)"
                by (rule stands_seat) (use z t'(2) in auto)
              then have "settled env (z\<lparr>sd_running := R @ [r]\<rparr>)" using release_all[of env 0 W "R @ [r]" rest "[r]" "[]"] stands_settled by fastforce
              then show ?thesis using Suc.IH standsD(3)[OF z] by (simp add: wp_thn wp_upd)
            qed
            done
          then show ?thesis using True by (simp add: wp_thn wp_upd)
        qed
        done
    qed
    then show ?thesis using assms(2)[OF Suc.prems] standsD(3,4)[OF st] Cons by (simp add: wp_bnd wp_gets wp_ret)
  qed
qed

section \<open>The decode plan\<close>

lemma take_candidates:
  assumes "stands env k (W, R, S) h sd" and "distinct cs" and "set cs \<subseteq> set R - held_refs h" and "\<forall>r \<in> set cs. status_of sd r = DECODING"
  shows "stands env (k + length cs) (W, remove_all cs R, S) (dhand cs @ h) (sd\<lparr>sd_running := remove_all cs R\<rparr>) \<and>
    set (remove_all cs R) = set R - set cs"
  using assms
proof (induction cs arbitrary: k R h sd)
  case Nil
  have "sd\<lparr>sd_running := R\<rparr> = sd" using standsD(3)[OF Nil.prems(1)] by simp
  then show ?case using Nil.prems(1) by (simp add: remove_all_def)
next
  case (Cons r cs)
  have r: "r \<in> set R" "r \<notin> held_refs h" using Cons.prems(3) by auto
  have dR: "distinct R" using stands_distinct[OF Cons.prems(1)] by simp
  have "stands env k (W, R, S) ((r, role_running) # h) sd" by (rule stands_grab_running[OF Cons.prems(1) r])
  then have g: "stands env k (W, R, S) ((r, role_decoding) # h) sd"
    by (rule stands_sharpen) (use Cons.prems(4) stands_hand(2)[OF \<open>stands env k (W, R, S) ((r, role_running) # h) sd\<close>]
      in \<open>simp add: roles status_of_def\<close>)
  have l: "length (remove1 r R) + Suc k = length R + k"
    using r(1) by (simp add: length_remove1) (metis Suc_pred length_pos_if_in_set)
  have "stands env (Suc k) (W, remove1 r R, S) ((r, role_decoding) # h) (sd\<lparr>sd_waiting := W, sd_running := remove1 r R, sd_swapped := S\<rparr>)"
    by (rule stands_requeue[OF g]) (use stands_distinct[OF g] stands_seats[OF g] dR l in auto)
  moreover have "sd\<lparr>sd_waiting := W, sd_running := remove1 r R, sd_swapped := S\<rparr> = sd\<lparr>sd_running := remove1 r R\<rparr>"
    using standsD(2,4)[OF g] by (cases sd) simp
  ultimately have s: "stands env (Suc k) (W, remove1 r R, S) ((r, role_decoding) # h) (sd\<lparr>sd_running := remove1 r R\<rparr>)" by simp
  have IH: "stands env (Suc k + length cs) (W, remove_all cs (remove1 r R), S) (dhand cs @ (r, role_decoding) # h)
      (sd\<lparr>sd_running := remove1 r R, sd_running := remove_all cs (remove1 r R)\<rparr>) \<and> set (remove_all cs (remove1 r R)) = set (remove1 r R) - set cs"
    by (rule Cons.IH[OF s]) (use Cons.prems dR in \<open>auto simp: status_of_def\<close>)
  have e: "remove_all (r # cs) R = remove_all cs (remove1 r R)" by (simp add: remove_all_def)
  have "stands env (k + length (r # cs)) (W, remove_all cs (remove1 r R), S) (dhand (r # cs) @ h) (sd\<lparr>sd_running := remove_all cs (remove1 r R)\<rparr>)"
    by (rule stands_perm[where h = "dhand cs @ (r, role_decoding) # h"]) (use IH in simp_all)
  moreover have "set (remove_all cs (remove1 r R)) = set R - set (r # cs)" using IH dR by auto
  ultimately show ?case unfolding e by blast
qed

lemma decode_promise:
  assumes "stands env k (W, R, S) (dhand ss @ h) sd" and "set ss \<subseteq> set R" and "int (length ss) \<le> max 0 (fst (snd (env_config env)))"
    and "ss \<noteq> []" and "batch_plan_new (sd_objs sd) DECODE_PHASE ss counts [] tr name now = Inr p"
  shows "plan_promise sd p"
proof -
  note Wf = batch_plan_new_wf[OF assms(5)]
  have i: "sched_inv (env_config env) k (dhand ss @ h) sd" using standsD(1)[OF assms(1)] .
  have "status_of sd r = DECODING" if "r \<in> set ss" for r
    using hand_in[OF i, of r role_decoding] that by (auto simp: dhand_def status_of_def role_decoding_def)
  moreover have "distinct ss" using i by (simp add: sched_inv_def queues_ok_def dhand_def comp_def)
  moreover have "sd_max_num_seqs sd = fst (snd (env_config env))"
    using stands_config[OF assms(1)] by (cases "env_config env") (simp add: sd_config_def)
  moreover have "0 < length ss" using assms(4) by simp
  ultimately show ?thesis using Wf assms(2,3) standsD(3)[OF assms(1)]
    by (auto simp: plan_promise_def max_def split: if_splits)
qed

lemma settled_counters: "settled env sd \<Longrightarrow> settled env (sd\<lparr>sd_counters := c\<rparr>)"
  unfolding settled_def using stands_other(1) by blast

text \<open>The end of a decode step: everything in the hand is put back, the scheduled requests in front.\<close>

lemma wp_decode_finish:
  assumes "decoding env cs ss sd" and "int (length ss) \<le> max 0 (fst (snd (env_config env)))"
  shows "wp (thn (upd (\<lambda>sd. sd\<lparr>sd_running := sd_running sd @ cs\<rparr>))
    (if ss = [] then (if resident then ret None else throw RuntimeError)
     else thn (upd (\<lambda>sd. sd\<lparr>sd_running := ss @ sd_running sd\<rparr>))
         (thn sd_observe_state
         (bnd (make_plan now DECODE_PHASE ss counts transfers) (\<lambda>plan. ret (Some plan)))))) (promised env) (lost env) sd"
proof -
  obtain W R S where st: "stands env (length cs + length ss) (W, R, S) (dhand (cs @ ss)) sd"
    and apart: "set (cs @ ss) \<inter> (set W \<union> set R \<union> set S) = {}" using assms(1) by (auto simp: decoding_def)
  have R: "sd_running sd = R" using standsD(3)[OF st] .
  have dis: "distinct (cs @ ss)" using standsD(1)[OF st] by (simp add: sched_inv_def queues_ok_def dhand_def comp_def)
  let ?t = "sd\<lparr>sd_running := R @ cs\<rparr>"
  have "stands env (length ss) (W, R @ cs, S) (dhand cs @ dhand ss) ?t" by (rule stands_seat) (use st apart in \<open>auto simp: add.commute\<close>)
  then have t: "stands env (length ss) (W, R @ cs, S) (dhand ss) ?t" by (rule release_all) simp
  show ?thesis
  proof (cases "ss = []")
    case True
    then have "stands env 0 (W, R @ cs, S) [] ?t" using t by simp
    then show ?thesis using True stands_settled[of env 0 _ ?t] stands_lost[of env 0 _ "[]" ?t]
      by (auto simp: wp_thn wp_upd wp_ret wp_throw R promised_def)
  next
    case False
    let ?u = "?t\<lparr>sd_running := ss @ R @ cs\<rparr>"
    have "stands env 0 (W, ss @ R @ cs, S) (dhand ss @ []) ?u"
      by (rule stands_seat) (use t apart dis in auto)
    then have u: "stands env 0 (W, ss @ R @ cs, S) (dhand ss @ []) ?u" .
    have "wp (make_plan now DECODE_PHASE ss counts transfers) (\<lambda>p. promised env (Some p)) (lost env) (?u\<lparr>sd_counters := c\<rparr>)" for c
    proof (rule wp_make_plan)
      fix p tr assume p: "batch_plan_new (sd_objs (?u\<lparr>sd_counters := c\<rparr>)) DECODE_PHASE ss counts [] tr
          (po_name (policy_base (sd_policy (?u\<lparr>sd_counters := c\<rparr>)))) now = Inr p"
      have v: "stands env 0 (W, ss @ R @ cs, S) (dhand ss @ []) (?u\<lparr>sd_counters := c\<rparr>)" using u by (rule stands_other(1))
      have "settled env (?u\<lparr>sd_counters := c\<rparr>)" by (rule stands_settled[OF release_all[OF v]]) simp
      then show "promised env (Some p) (?u\<lparr>sd_counters := c\<rparr>)"
        using decode_promise[OF v _ assms(2) False p] by (simp add: promised_def)
    qed (use stands_lost[OF stands_other(1)[OF u]] in blast)
    then have "wp (thn sd_observe_state (bnd (make_plan now DECODE_PHASE ss counts transfers) (\<lambda>plan. ret (Some plan)))) (promised env) (lost env) ?u"
      unfolding wp_thn by (intro wp_note_peaks) (simp add: wp_bnd wp_ret_eta)
    then show ?thesis using False by (simp add: wp_thn wp_upd R)
  qed
qed

lemma wp_decode_batch:
  assumes "settled env sd"
  shows "wp (decode_batch now resident) (promised env) (lost env) sd"
  unfolding decode_batch_def
  apply (rule wp_seq[where R = "\<lambda>_. settled env"])
  subgoal using wp_swap_in_loop[OF assms] assms by (simp add: wp_ret wp_bnd wp_gets)
  subgoal for swap_in t
  proof -
    assume t: "settled env t"
    obtain W R S where st: "stands env 0 (W, R, S) [] t" using settled_queues[OF t] by blast
    let ?cs = "filter (\<lambda>r. status_of t r = DECODING) R"
    have R: "sd_running t = R" and dR: "distinct (W @ R @ S)" using standsD(3)[OF st] stands_distinct[OF st] by auto
    have tk: "stands env (length ?cs) (W, remove_all ?cs R, S) (dhand ?cs) (t\<lparr>sd_running := remove_all ?cs R\<rparr>)"
      "set (remove_all ?cs R) = set R - set ?cs"
    proof -
      have "distinct ?cs" "set ?cs \<subseteq> set R - held_refs []" "\<forall>r \<in> set ?cs. status_of t r = DECODING" using dR by auto
      note tc = take_candidates[OF st this]
      show "stands env (length ?cs) (W, remove_all ?cs R, S) (dhand ?cs) (t\<lparr>sd_running := remove_all ?cs R\<rparr>)"
        using conjunct1[OF tc] unfolding append_Nil2 add_0 .
      show "set (remove_all ?cs R) = set R - set ?cs" by (rule conjunct2[OF tc])
    qed
    have "set (?cs @ []) \<inter> (set W \<union> set (remove_all ?cs R) \<union> set S) = {}" unfolding tk(2) using dR by auto
    moreover have "stands env (length ?cs + length []) (W, remove_all ?cs R, S) (dhand (?cs @ [])) (t\<lparr>sd_running := remove_all ?cs R\<rparr>)"
      using tk(1) by (simp only: append_Nil2 list.size add_0_right)
    ultimately have d0: "decoding env ?cs [] (t\<lparr>sd_running := remove_all ?cs R\<rparr>)" by (intro decodingI)
    show ?thesis
      apply (subst wp_bnd, unfold wp_gets id_apply Let_def R)
      apply (subst wp_thn, unfold wp_upd R)
      apply (rule wp_seq[where R = "\<lambda>x u. decoding env (fst x) (fst (snd x)) u \<and> int (length (fst (snd x))) \<le> max 0 (fst (snd (env_config env)))"])
      subgoal by (rule wp_decode_loop[OF d0]) simp_all
      subgoal for x u using wp_decode_finish[of env "fst x" "fst (snd x)" u] by (simp add: case_prod_beta)
      done
  qed
  done

lemma wp_decode_single:
  assumes st: "stands env 0 (W, R, S) [] sd" and r: "r \<in> set R" "status_of sd r = DECODING"
  shows "wp (decode_single now r) (\<lambda>p. promised env (Some p)) (lost env) sd"
proof -
  have "stands env 0 (W, R, S) [(r, role_running)] sd" by (rule stands_grab_running[OF st r(1)]) simp
  then have g: "stands env 0 (W, R, S) [(r, role_decoding)] sd"
    by (rule stands_sharpen) (use r(2) stands_hand(2)[OF \<open>stands env 0 (W, R, S) [(r, role_running)] sd\<close>] in \<open>simp add: roles status_of_def\<close>)
  have lim: "int (length [r]) \<le> max 0 (fst (snd (env_config env)))"
  proof -
    have "1 \<le> int (length R)" using r(1) by (cases R) simp_all
    then show ?thesis using stands_seats[OF st] stands_config[OF st] by (cases "env_config env") (simp add: sd_config_def)
  qed
  have plan: "wp (make_plan now DECODE_PHASE [r] [1] tr) (\<lambda>p. promised env (Some p)) (lost env) t"
    if "stands env 0 (W, R, S) [(r, role_decoding)] t" for tr t
  proof (rule wp_make_plan)
    have t: "stands env 0 (W, R, S) (dhand [r] @ []) t" using that by simp
    have s: "settled env t" by (rule stands_settled[OF release_all[OF t]]) (use r in simp)
    fix p tr assume "batch_plan_new (sd_objs t) DECODE_PHASE [r] [1] [] tr (po_name (policy_base (sd_policy t))) now = Inr p"
    then show "promised env (Some p) t" using decode_promise[OF t _ lim] r(1) s by (simp add: promised_def)
  qed (rule stands_lost[OF that])
  show ?thesis
    unfolding decode_single_def Let_def
    apply (subst wp_bnd, unfold wp_gets id_apply)
    apply (rule wp_seq[where R = "\<lambda>_. stands env 0 (W, R, S) [(r, role_decoding)]"])
    subgoal by (rule wp_append_room[OF g])
    subgoal for pair t
      apply (subst wp_bnd, unfold wp_gets id_apply)
      apply (rule wp_seqn[where R = "\<lambda>_. stands env 0 (W, R, S) [(r, role_decoding)]"])
      subgoal by (simp add: wp_ret) (intro conjI impI, rule wp_note_peaks, erule stands_other(1))
      subgoal by (rule plan)
      done
    done
qed

lemma wp_decode_plan:
  assumes "settled env sd"
  shows "wp (decode_plan now resident) (promised env) (lost env) sd"
proof -
  obtain W R S where st: "stands env 0 (W, R, S) [] sd" using settled_queues[OF assms] by blast
  show ?thesis
    unfolding decode_plan_def
    apply (subst wp_bnd, unfold wp_gets id_apply standsD(3,4)[OF st])
    apply (rule wp_seq[where R = "\<lambda>single t. settled env t \<and> (single \<longrightarrow> (\<exists>r W S. R = [r] \<and> stands env 0 (W, R, S) [] t \<and> status_of t r = DECODING))"])
    subgoal
    proof (cases "\<exists>r. S = [] \<and> R = [r] \<and> status_of sd r = DECODING")
      case True
      then obtain r where r: "S = []" "R = [r]" "status_of sd r = DECODING" by blast
      have "stands env 0 (W, R, S) [(r, role_running)] sd" by (rule stands_grab_running[OF st]) (use r in simp_all)
      then have g: "stands env 0 (W, R, S) [(r, role_decoding)] sd"
        by (rule stands_sharpen) (use r(3) stands_hand(2)[OF \<open>stands env 0 (W, R, S) [(r, role_running)] sd\<close>] in \<open>simp add: roles status_of_def\<close>)
      have "wp (kv r bm_can_append) (\<lambda>single t. settled env t \<and> (single \<longrightarrow> (\<exists>r W S. R = [r] \<and> stands env 0 (W, R, S) [] t \<and> status_of t r = DECODING))) (lost env) sd"
      proof (rule wp_look_hand[OF g mgr_calls(5) tables.framed_queries(2) tables_kept_roles(4)])
        fix x :: bool and t assume t: "stands env 0 (W, R, S) [(r, role_decoding)] t"
        have "stands env 0 (W, R, S) [] t" by (rule stands_release(2)[OF t]) (use r in \<open>simp_all add: roles\<close>)
        moreover have "status_of t r = DECODING" using stands_hand(2)[OF t] by (simp add: roles status_of_def)
        ultimately show "settled env t \<and> (x \<longrightarrow> (\<exists>r W S. R = [r] \<and> stands env 0 (W, R, S) [] t \<and> status_of t r = DECODING))"
          using r(2) unfolding settled_def by blast
      qed
      then show ?thesis using r by simp
    next
      case False
      have no: "wp (ret False) (\<lambda>single t. settled env t \<and> (single \<longrightarrow> (\<exists>r W S. R = [r] \<and> stands env 0 (W, R, S) [] t \<and> status_of t r = DECODING))) (lost env) sd"
        using assms by (simp add: wp_ret)
      show ?thesis using False no by (auto split: list.split simp del: wp_simps)
    qed
    subgoal for single t
    proof (cases single)
      case True
      assume "settled env t \<and> (single \<longrightarrow> (\<exists>r W S. R = [r] \<and> stands env 0 (W, R, S) [] t \<and> status_of t r = DECODING))"
      then obtain r W' S' where r: "R = [r]" "stands env 0 (W', R, S') [] t" "status_of t r = DECODING" using True by blast
      have "wp (decode_single now r) (\<lambda>p. promised env (Some p)) (lost env) t" by (rule wp_decode_single[OF r(2) _ r(3)]) (simp add: r(1))
      then show ?thesis using True r(1) by (simp add: wp_bnd wp_ret_eta)
    qed (simp add: wp_decode_batch)
    done
qed

end
