(* ===== verification/Scheduler_Machine.thy ===== *)
theory Scheduler_Machine imports Scheduler_Decode begin

text \<open>
  The scheduler as a state machine: its public calls and the changes that the executor makes to running
  requests, each keeping the invariant of the queues, and the properties that hold in every reachable state.
\<close>

section \<open>The scheduling calls\<close>

lemma plan_promise_frame:
  "plan_promise (sd\<lparr>sd_counters := c\<rparr>) p = plan_promise sd p" "plan_promise (sd\<lparr>sd_consecutive := i\<rparr>) p = plan_promise sd p"
  "plan_promise (sd\<lparr>sd_consecutive := i, sd_decode_since_heavy := j\<rparr>) p = plan_promise sd p"
  "plan_promise (sd\<lparr>sd_decode_since_heavy := j, sd_bypasses_since_heavy := l\<rparr>) p = plan_promise sd p"
  by (simp_all add: plan_promise_def status_of_def cong: batch_phase.case_cong)

lemma settled_frame:
  assumes "settled env sd"
  shows "settled env (sd\<lparr>sd_counters := c\<rparr>)" "settled env (sd\<lparr>sd_consecutive := i\<rparr>)"
    "settled env (sd\<lparr>sd_consecutive := i, sd_decode_since_heavy := j\<rparr>)"
    "settled env (sd\<lparr>sd_decode_since_heavy := j, sd_bypasses_since_heavy := 0\<rparr>)"
    "settled env (sd\<lparr>sd_rejected := rs\<rparr>)" "settled env (sd\<lparr>sd_cancelled := rs\<rparr>)"
  using stands_other[OF settled_queues[OF assms]] unfolding settled_def by blast+

lemma promised_Some: "promised env (Some p) sd \<longleftrightarrow> settled env sd \<and> plan_promise sd p"
  by (simp add: promised_def)

lemma promised_settled: "promised env x sd \<Longrightarrow> settled env sd"
  by (simp add: promised_def)

lemma settled_lost: "settled env sd \<Longrightarrow> lost env e sd"
  unfolding settled_def using stands_lost by blast

lemma wp_count_decode:
  assumes "promised env (Some p) sd"
  shows "wp (thn count_decode_batch (ret p)) (\<lambda>p. promised env (Some p)) E sd"
  using assms by (simp add: count_decode_batch_def wp_thn wp_upd wp_ret promised_Some settled_frame plan_promise_frame)

lemma wp_schedule_decode:
  assumes "settled env sd"
  shows "wp (schedule_decode now) (\<lambda>p. promised env (Some p)) (lost env) sd"
  unfolding schedule_decode_def
  apply (subst wp_bnd, unfold wp_gets id_apply)
  apply (rule wp_seqn[where R = "\<lambda>_. settled env"])
  subgoal using assms by (simp add: wp_chk settled_lost)
  apply (rule wp_seq[where R = "promised env"])
  subgoal by (rule wp_decode_plan)
  subgoal for _ _ plan t
    by (cases plan) (auto simp: wp_throw wp_count_decode intro: settled_lost promised_settled)
  done

lemma wp_schedule_resident:
  assumes "settled env sd"
  shows "wp (schedule_resident_decode now) (promised env) (lost env) sd"
  unfolding schedule_resident_decode_def
  apply (rule wp_seq[where R = "promised env"])
  subgoal by (rule wp_decode_plan[OF assms])
  subgoal for plan t
    by (cases plan) (simp_all add: wp_ret promised_def count_decode_batch_def wp_thn wp_upd settled_frame plan_promise_frame)
  done

lemma wp_record_prefill:
  assumes "promised env (Some p) sd"
  shows "wp (record_prefill_plan p) (\<lambda>p. promised env (Some p)) (lost env) sd"
proof -
  have s: "settled env sd" and p: "plan_promise sd p" using assms by (simp_all add: promised_Some)
  let ?ok = "\<lambda>t. settled env t \<and> plan_promise t p"
  show ?thesis
    unfolding record_prefill_plan_def
    apply (rule wp_seqn[where R = "\<lambda>_. ?ok"])
    subgoal using s p by (simp add: wp_upd settled_frame plan_promise_frame)
    apply (subst wp_bnd, unfold wp_gets id_apply)
    apply (rule wp_lifted)
    subgoal for _ t patches
      apply (rule wp_seqn[where R = "\<lambda>_. ?ok"])
      subgoal
        by (simp add: wp_ret wp_thn wp_upd tally_def plan_promise_frame)
          (intro impI settled_frame, simp)
      apply (rule wp_seqn[where R = "\<lambda>_. ?ok"])
      subgoal by (rule wp_note_peaks) (simp add: settled_frame plan_promise_frame)
      subgoal by (simp add: wp_ret promised_Some)
      done
    subgoal using settled_lost by blast
    done
qed

lemma wp_schedule_prefill:
  assumes "settled env sd" and "xx = env_hash env"
  shows "wp (schedule_prefill xx now tier) (\<lambda>p. promised env (Some p)) (lost env) sd"
  unfolding schedule_prefill_def
  apply (subst wp_bnd, unfold wp_gets id_apply)
  apply (rule wp_seqn[where R = "\<lambda>_. settled env"])
  subgoal using assms(1) by (simp add: wp_chk settled_lost)
  apply (rule wp_seq[where R = "promised env"])
  subgoal by (rule wp_prefill_plan[OF _ assms(2)])
  subgoal for _ _ plan t
    by (cases plan) (auto simp: wp_throw wp_record_prefill intro: settled_lost promised_settled)
  done

lemma wp_schedule_rest:
  assumes "settled env sd" and "xx = env_hash env"
  shows "wp (schedule_rest xx now running_prefill) (\<lambda>p. promised env (Some p)) (lost env) sd"
proof (cases running_prefill)
  case True
  show ?thesis
    unfolding schedule_rest_def if_P[OF True]
    apply (rule wp_seq[where R = "promised env"], rule wp_schedule_resident[OF assms(1)])
    subgoal for plan t
    proof (cases plan)
      case None
      assume "promised env plan t"
      then have t: "settled env t" by (rule promised_settled)
      have "wp (bnd (prefill_plan xx now None True) (\<lambda>plan. case plan of Some p \<Rightarrow> record_prefill_plan p
         | None \<Rightarrow> schedule_decode now)) (\<lambda>p. promised env (Some p)) (lost env) t"
        apply (rule wp_seq[where R = "promised env"], rule wp_prefill_plan[OF t assms(2)])
        subgoal for plan u by (cases plan) (simp_all add: wp_record_prefill wp_schedule_decode[OF promised_settled])
        done
      then show ?thesis by (simp add: None)
    qed (simp add: wp_ret)
    done
qed (simp add: schedule_rest_def wp_schedule_decode assms(1))

lemma wp_schedule:
  assumes "settled env sd" and "xx = env_hash env"
  shows "wp (schedule xx now) (\<lambda>p. promised env (Some p)) (lost env) sd"
proof -
  have main: "wp (bnd (prefill_plan xx now None True) (\<lambda>plan. case plan of Some p \<Rightarrow> record_prefill_plan p
         | None \<Rightarrow> schedule_rest xx now rp)) (\<lambda>p. promised env (Some p)) (lost env) sd" for rp
    apply (rule wp_seq[where R = "promised env"], rule wp_prefill_plan[OF assms])
    subgoal for plan t by (cases plan) (simp_all add: wp_record_prefill wp_schedule_rest[OF promised_settled assms(2)])
    done
  show ?thesis unfolding schedule_def Let_def
    by (subst wp_bnd, unfold wp_gets id_apply) (simp add: main wp_schedule_rest[OF assms])
qed

section \<open>Results and cancellation\<close>

text \<open>The end of a request that is in the hand and out of every queue.\<close>

lemma append_token_frame:
  "sq_append_token tok s = (y, s') \<Longrightarrow> sq_block_table s' = sq_block_table s \<and> sq_cpu_block_table s' = sq_cpu_block_table s \<and>
     sq_status s' = sq_status s \<and> sq_seq_id s' = sq_seq_id s"
  by (auto simp: sq_append_token_def bnd_def thn_def upd_def gets_def ret_def zoom_def sq_status_def split: option.splits prod.splits)

lemma release_tensors_frame:
  "sq_release_multimodal_runtime_tensors s = (y, s') \<Longrightarrow> y = Inr () \<and> sq_block_table s' = sq_block_table s \<and>
     sq_cpu_block_table s' = sq_cpu_block_table s \<and> sq_status s' = sq_status s \<and> sq_seq_id s' = sq_seq_id s"
  by (auto simp: sq_release_multimodal_runtime_tensors_def upd_def sq_status_def)

definition empty_with :: "request_state \<Rightarrow> sequence \<Rightarrow> bool" where
  "empty_with st s \<longleftrightarrow> sq_status s = st \<and> sq_block_table s = [] \<and> sq_cpu_block_table s = []"

lemma wp_release_tensors:
  assumes "stands env k q ((r, p) # h) sd" and "\<And>s s'. p s \<Longrightarrow> sq_block_table s' = sq_block_table s \<Longrightarrow>
      sq_cpu_block_table s' = sq_cpu_block_table s \<Longrightarrow> sq_status s' = sq_status s \<Longrightarrow> p s'"
    and "\<And>t. stands env k q ((r, p) # h) t \<Longrightarrow> Q () t"
  shows "wp (obj r sq_release_multimodal_runtime_tensors) Q (lost env) sd"
proof (rule wp_obj[OF assms(1), where p' = "\<lambda>_. p"])
  fix s x s' assume "p s" "sq_release_multimodal_runtime_tensors s = (Inr x, s')"
  then show "p s' \<and> sq_seq_id s' = sq_seq_id s" using release_tensors_frame assms(2) by blast
qed (use release_tensors_frame assms(3) in \<open>auto\<close>)

text \<open>\<open>kept\<close>: the other running requests stay where they are.\<close>

definition kept :: "env \<Rightarrow> nat list \<Rightarrow> scheduler \<Rightarrow> bool" where
  "kept env rs sd \<longleftrightarrow> settled env sd \<and> set rs \<subseteq> set (sd_running sd)"

lemma wp_finish_request:
  assumes st: "stands env 0 (W, R, S) [(r, role_running)] sd" and r: "r \<in> set R" and rs: "set rs \<subseteq> set R - {r}"
  shows "wp (finish_request now r reason) (\<lambda>_. kept env rs) (lost env) sd"
  unfolding finish_request_def
  apply (rule wp_seqn[where R = "\<lambda>_. stands env 0 (W, R, S) [(r, \<lambda>s. sq_status s = FINISHED)]"])
  subgoal by (rule wp_enter[OF st]) simp_all
  apply (rule wp_seqn[where R = "\<lambda>_. stands env 0 (W, R, S) [(r, role_gone)]"])
  subgoal by (erule wp_give_back) (simp_all add: roles is_terminal_def)
  apply (rule wp_seqn[where R = "\<lambda>_. stands env 0 (W, R, S) [(r, role_gone)]"])
  subgoal by (erule wp_release_tensors) (simp_all add: roles)
  apply (rule wp_seqn[where R = "\<lambda>_. kept env rs"])
  subgoal for _ _ _ _ _ t
  proof -
    assume t: "stands env 0 (W, R, S) [(r, role_gone)] t"
    note d = stands_distinct[OF t]
    have "stands env 0 (W, remove1 r R, S) [(r, role_gone)] (t\<lparr>sd_waiting := W, sd_running := remove1 r R, sd_swapped := S\<rparr>)"
      by (rule stands_requeue[OF t]) (use d stands_seats[OF t] r in \<open>auto simp: length_remove1\<close>)
    moreover have "t\<lparr>sd_waiting := W, sd_running := remove1 r R, sd_swapped := S\<rparr> = t\<lparr>sd_running := remove1 r R\<rparr>"
      using standsD(2,4)[OF t] by (cases t) simp
    ultimately have "stands env 0 (W, remove1 r R, S) [(r, role_gone)] (t\<lparr>sd_running := remove1 r R\<rparr>)" by simp
    then have "stands env 0 (W, remove1 r R, S) [] (t\<lparr>sd_running := remove1 r R\<rparr>)"
      by (rule stands_release(4)) (use d r in auto)
    then have "settled env (t\<lparr>sd_running := remove1 r R\<rparr>)" by (rule stands_settled)
    then show ?thesis using standsD(3)[OF t] r rs d stands_lost[OF t]
      by (auto simp: remove_from_running_def wp_bnd wp_gets wp_thn wp_chk wp_upd kept_def)
  qed
  subgoal by (simp add: wp_bnd wp_gets wp_thn tally_def wp_upd wp_ret kept_def settled_frame)
  done

lemma wp_publish_for:
  assumes "stands env 0 (W, R, S) [(r, role_running)] sd" and "xx = env_hash env"
    and "\<And>t. stands env 0 (W, R, S) [(r, role_running)] t \<Longrightarrow> Q () t"
  shows "wp (publish_for xx plan k r) Q (lost env) sd"
proof -
  have look: "wp (kv r (bm_publish xx a b)) Q (lost env) sd" for a b
    unfolding assms(2) by (rule wp_look_hand[OF assms(1) mgr_calls(12) framed_publish tables_kept_roles(2)]) (use assms(3) in auto)
  show ?thesis unfolding publish_for_def by (subst wp_bnd) (auto simp: wp_gets Let_def look split: option.split)
qed

lemma kept_stands:
  assumes "kept env (r # rs) sd"
  obtains W R S where "stands env 0 (W, R, S) [] sd" "stands env 0 (W, R, S) [(r, role_running)] sd" "r \<in> set R" "set rs \<subseteq> set R"
proof -
  have st: "stands env 0 (sd_waiting sd, sd_running sd, sd_swapped sd) [] sd" by (rule settled_queues) (use assms in \<open>simp add: kept_def\<close>)
  have r: "r \<in> set (sd_running sd)" "set rs \<subseteq> set (sd_running sd)" using assms by (simp_all add: kept_def)
  show ?thesis by (rule that[OF st stands_grab_running[OF st r(1)] r]) simp
qed

lemma wp_postprocess_one:
  assumes "kept env (r # rs) sd" and "r \<notin> set rs" and "xx = env_hash env"
  shows "wp (postprocess_one xx now plan k r token) (\<lambda>_. kept env rs) (lost env) sd"
proof -
  obtain W R S where st: "stands env 0 (W, R, S) [] sd" and g: "stands env 0 (W, R, S) [(r, role_running)] sd"
    and r: "r \<in> set R" "set rs \<subseteq> set R" by (rule kept_stands[OF assms(1)])
  have done_: "kept env rs t" if "stands env 0 (W, R, S) [(r, p)] t" "\<And>s. p s \<Longrightarrow> role_running s" for p t
    using stands_settled[OF stands_release(2)[OF that(1) r(1) that(2)]] standsD(3)[OF that(1)] r(2) by (simp add: kept_def)
  show ?thesis
    unfolding postprocess_one_def
    apply (rule wp_seqn[where R = "\<lambda>_. stands env 0 (W, R, S) [(r, role_running)]"])
    subgoal by (rule wp_publish_for[OF g assms(3)])
    subgoal for _ t
    proof (cases token)
      case None
      assume "stands env 0 (W, R, S) [(r, role_running)] t"
      then show ?thesis using None done_ by (simp add: wp_ret)
    next
      case (Some tok)
      assume t: "stands env 0 (W, R, S) [(r, role_running)] t"
      show ?thesis unfolding Some option.case
        apply (rule wp_seqn[where R = "\<lambda>_. stands env 0 (W, R, S) [(r, role_running)]"])
        subgoal
          by (rule wp_obj[OF t, where p' = "\<lambda>_. role_running"]) (use append_token_frame in \<open>fastforce simp: roles\<close>)+
        apply (subst wp_bnd, unfold wp_gets id_apply Let_def)
        subgoal for _ u
        proof -
          assume u: "stands env 0 (W, R, S) [(r, role_running)] u"
          have fin: "wp (finish_request now r reason) (\<lambda>_. kept env rs) (lost env) u" for reason
            by (rule wp_finish_request[OF u r(1)]) (use r(2) assms(2) in auto)
          have dec: "wp (obj r (sq_transition_to DECODING reason now)) (\<lambda>_. kept env rs) (lost env) u" for reason
            by (rule wp_enter[OF u, where p' = role_decoding]) (auto simp: roles intro!: done_)
          show ?thesis using fin dec done_[OF u] stands_lost[OF u] by (simp add: wp_bnd wp_ret wp_ret_eta wp_thn wp_chk)
        qed
        done
    qed
    done
qed

lemma wp_postprocess_loop:
  assumes "kept env (map fst rts) sd" and "distinct (map fst rts)" and "xx = env_hash env"
  shows "wp (postprocess_loop xx now plan k rts) (\<lambda>_. settled env) (lost env) sd"
  using assms(1,2)
proof (induction rts arbitrary: k sd)
  case Nil
  then show ?case by (simp add: wp_ret kept_def)
next
  case (Cons rt rts)
  obtain r token where [simp]: "rt = (r, token)" by (cases rt)
  show ?case
    unfolding \<open>rt = (r, token)\<close> postprocess_loop.simps
    apply (rule wp_seq[where R = "\<lambda>_. kept env (map fst rts)"])
    subgoal by (rule wp_postprocess_one[OF _ _ assms(3)]) (use Cons.prems in simp_all)
    apply (rule wp_seq[where R = "\<lambda>_. settled env"])
    subgoal by (rule Cons.IH) (use Cons.prems in simp_all)
    subgoal by (simp add: wp_ret)
    done
qed

lemma wp_postprocess:
  assumes "settled env sd" and "distinct (case x of Inl p \<Rightarrow> bp_sequences p | Inr rs \<Rightarrow> rs)"
    and "set (case x of Inl p \<Rightarrow> bp_sequences p | Inr rs \<Rightarrow> rs) \<subseteq> set (sd_running sd)" and "xx = env_hash env"
  shows "wp (postprocess xx now x tokens) (\<lambda>_. settled env) (lost env) sd"
proof -
  let ?refs = "case x of Inl p \<Rightarrow> bp_sequences p | Inr rs \<Rightarrow> rs"
  have m: "map fst (zip ?refs tokens) = take (length tokens) ?refs" by (simp add: map_fst_zip_take take_all_iff min_def)
  have "set (take (length tokens) ?refs) \<subseteq> set (sd_running sd)" using assms(3) set_take_subset by fast
  then have k: "kept env (map fst (zip ?refs tokens)) sd" using assms(1) by (simp add: m kept_def)
  have d: "distinct (map fst (zip ?refs tokens))" using assms(2) by (simp only: m distinct_take)
  show ?thesis
    unfolding postprocess_def Let_def
    apply (rule wp_seq[where R = "\<lambda>_. settled env"])
    subgoal by (rule wp_postprocess_loop[OF k d assms(4)])
    apply (rule wp_seqn[where R = "\<lambda>_. settled env"])
    subgoal by (simp add: wp_ret) (intro conjI impI, rule wp_note_peaks, erule settled_frame)
    subgoal by (simp add: wp_ret)
    done
qed

text \<open>Cancelling takes the request out of its queue first.\<close>

lemma wp_cancel_queued:
  assumes "stands env k q [(r, p)] sd'" and "unlink sd = sd'"
    and "r \<notin> set (fst q) \<union> set (fst (snd q)) \<union> set (snd (snd q))"
  shows "wp (cancel_queued now r unlink) (\<lambda>b t. b \<and> settled env t \<and> empty_with CANCELLED (sd_objs t ! r) \<and>
      r \<notin> set (sd_waiting t @ sd_running t @ sd_swapped t)) (lost env) sd"
proof -
  obtain W R S where q: "q = (W, R, S)" by (cases q)
  have st: "stands env k (W, R, S) [(r, p)] sd'" and out: "r \<notin> set W \<union> set R \<union> set S" using assms(1,3) by (simp_all add: q)
  let ?e = "\<lambda>s. sq_block_table s = [] \<and> sq_cpu_block_table s = []"
  show ?thesis
    unfolding cancel_queued_def
    apply (subst wp_thn, unfold wp_upd assms(2))
    apply (subst wp_bnd, unfold wp_gets)
    apply (rule wp_seqn[where R = "\<lambda>_. stands env k (W, R, S) [(r, ?e)]"])
    subgoal
      using stands_sharpen[OF st, of ?e] wp_give_back[OF st, of ?e] by (auto simp: wp_ret)
    apply (rule wp_seqn[where R = "\<lambda>_. stands env k (W, R, S) [(r, ?e)]"])
    subgoal by (erule wp_release_tensors) simp_all
    apply (rule wp_seqn[where R = "\<lambda>_. stands env k (W, R, S) [(r, empty_with CANCELLED)]"])
    subgoal by (erule wp_enter) (simp_all add: empty_with_def)
    subgoal for _ _ _ _ _ t
    proof -
      assume t: "stands env k (W, R, S) [(r, empty_with CANCELLED)] t"
      let ?u = "\<lambda>c. t\<lparr>sd_cancelled := sd_cancelled t @ [r], sd_counters := c\<rparr>"
      have u: "stands env k (W, R, S) [(r, empty_with CANCELLED)] (?u c)" for c by (intro stands_other(1) stands_other(5) t)
      have "settled env (?u c)" for c
        by (rule stands_settled[OF stands_release(4)[OF u out]]) (simp add: empty_with_def role_gone_def is_terminal_def)
      moreover have "empty_with CANCELLED (sd_objs (?u c) ! r)" for c by (rule stands_hand(2)[OF u])
      moreover have "r \<notin> set (sd_waiting (?u c) @ sd_running (?u c) @ sd_swapped (?u c))" for c using out standsD(2-4)[OF u] by simp
      ultimately show ?thesis by (simp add: wp_thn wp_upd tally_def sd_observe_state_def wp_ret)
    qed
    done
qed

lemma wp_cancel:
  assumes "settled env sd"
  shows "wp (sd_cancel now request_id) (\<lambda>found t. settled env t \<and>
      (if found then \<exists>r \<in> set (sd_waiting sd @ sd_running sd @ sd_swapped sd). sq_seq_id (sd_objs sd ! r) = request_id \<and>
          empty_with CANCELLED (sd_objs t ! r) \<and> r \<notin> set (sd_waiting t @ sd_running t @ sd_swapped t)
       else t = sd \<and> (\<forall>r \<in> set (sd_waiting sd @ sd_running sd @ sd_swapped sd). sq_seq_id (sd_objs sd ! r) \<noteq> request_id))) (lost env) sd"
proof -
  obtain W R S where st: "stands env 0 (W, R, S) [] sd" using settled_queues[OF assms] by blast
  note q = standsD(2-4)[OF st] and dis = stands_distinct[OF st]
  let ?P = "\<lambda>r found t. settled env t \<and> (if found then \<exists>r \<in> set (sd_waiting sd @ sd_running sd @ sd_swapped sd). sq_seq_id (sd_objs sd ! r) = request_id \<and>
          empty_with CANCELLED (sd_objs t ! r) \<and> r \<notin> set (sd_waiting t @ sd_running t @ sd_swapped t)
       else t = sd \<and> (\<forall>r \<in> set (sd_waiting sd @ sd_running sd @ sd_swapped sd). sq_seq_id (sd_objs sd ! r) \<noteq> request_id))"
  have go: "wp (cancel_queued now r unlink) (?P r) (lost env) sd"
    if "stands env 0 (W', R', S') [(r, p)] sd'" "unlink sd = sd'" "r \<notin> set W' \<union> set R' \<union> set S'" "r \<in> set W \<union> set R \<union> set S"
      "sq_seq_id (sd_objs sd ! r) = request_id" for r unlink W' R' S' p sd'
    by (rule wp_mono[OF wp_cancel_queued[where unlink = unlink and sd = sd, OF that(1,2)]]) (use that(3-5) q in auto)
  have found: "r \<in> set xs \<and> sq_seq_id (sd_objs sd ! r) = request_id" if "find_request sd request_id xs = Some r" for xs r
    using that by (auto simp: find_request_def find_Some_iff)
  have w: "stands env 0 (remove1 r W, R, S) [(r, role_waiting)] (sd\<lparr>sd_waiting := remove1 r W\<rparr>)" if "r \<in> set W" for r
  proof -
    have g: "stands env 0 (W, R, S) [(r, role_waiting)] sd" by (rule stands_grab_waiting[OF st that]) simp
    have "stands env 0 (remove1 r W, R, S) [(r, role_waiting)] (sd\<lparr>sd_waiting := remove1 r W, sd_running := R, sd_swapped := S\<rparr>)"
      by (rule stands_requeue[OF g]) (use dis stands_seats[OF st] that in auto)
    moreover have "sd\<lparr>sd_waiting := remove1 r W, sd_running := R, sd_swapped := S\<rparr> = sd\<lparr>sd_waiting := remove1 r W\<rparr>" using q by (cases sd) simp
    ultimately show ?thesis by simp
  qed
  have n: "stands env 0 (W, remove1 r R, S) [(r, role_running)] (sd\<lparr>sd_running := remove1 r R\<rparr>)" if "r \<in> set R" for r
  proof -
    have g: "stands env 0 (W, R, S) [(r, role_running)] sd" by (rule stands_grab_running[OF st that]) simp
    have "stands env 0 (W, remove1 r R, S) [(r, role_running)] (sd\<lparr>sd_waiting := W, sd_running := remove1 r R, sd_swapped := S\<rparr>)"
      by (rule stands_requeue[OF g]) (use dis stands_seats[OF st] that in \<open>auto simp: length_remove1\<close>)
    moreover have "sd\<lparr>sd_waiting := W, sd_running := remove1 r R, sd_swapped := S\<rparr> = sd\<lparr>sd_running := remove1 r R\<rparr>" using q by (cases sd) simp
    ultimately show ?thesis by simp
  qed
  have s: "stands env 0 (W, R, remove1 r S) [(r, role_swapped)] (sd\<lparr>sd_swapped := remove1 r S\<rparr>)" if "r \<in> set S" for r
  proof -
    have g: "stands env 0 (W, R, S) [(r, role_swapped)] sd" by (rule stands_grab_swapped[OF st that]) simp
    have "stands env 0 (W, R, remove1 r S) [(r, role_swapped)] (sd\<lparr>sd_waiting := W, sd_running := R, sd_swapped := remove1 r S\<rparr>)"
      by (rule stands_requeue[OF g]) (use dis stands_seats[OF st] that in auto)
    moreover have "sd\<lparr>sd_waiting := W, sd_running := R, sd_swapped := remove1 r S\<rparr> = sd\<lparr>sd_swapped := remove1 r S\<rparr>" using q by (cases sd) simp
    ultimately show ?thesis by simp
  qed
  have none: "\<forall>r \<in> set xs. sq_seq_id (sd_objs sd ! r) \<noteq> request_id" if "find_request sd request_id xs = None" for xs
    using that by (auto simp: find_request_def find_None_iff)
  show ?thesis
  proof (cases "find_request sd request_id W")
    case (Some r)
    note f = found[OF Some]
    have "wp (cancel_queued now r (\<lambda>sd. sd\<lparr>sd_waiting := remove1 r (sd_waiting sd)\<rparr>)) (?P r) (lost env) sd"
      by (rule go[OF w]) (use f dis q in auto)
    then show ?thesis by (simp add: sd_cancel_def wp_bnd wp_gets q Some)
  next
    case noneW: None
    show ?thesis
    proof (cases "find_request sd request_id R")
      case (Some r)
      note f = found[OF Some]
      have "wp (cancel_queued now r (\<lambda>sd. sd\<lparr>sd_running := remove1 r (sd_running sd)\<rparr>)) (?P r) (lost env) sd"
        by (rule go[OF n]) (use f dis q in auto)
      then show ?thesis by (simp add: sd_cancel_def wp_bnd wp_gets q noneW Some)
    next
      case noneR: None
      show ?thesis
      proof (cases "find_request sd request_id S")
        case (Some r)
        note f = found[OF Some]
        have "wp (cancel_queued now r (\<lambda>sd. sd\<lparr>sd_swapped := remove1 r (sd_swapped sd)\<rparr>)) (?P r) (lost env) sd"
          by (rule go[OF s]) (use f dis q in auto)
        then show ?thesis by (simp add: sd_cancel_def wp_bnd wp_gets q noneW noneR Some)
      next
        case None
        then show ?thesis using none[OF noneW] none[OF noneR] none[OF None] assms
          by (auto simp: sd_cancel_def wp_bnd wp_gets wp_ret q noneW noneR)
      qed
    qed
  qed
qed

section \<open>New requests\<close>

lemma traced_submit: "traced env sd \<Longrightarrow> role_waiting s \<Longrightarrow> traced env (sd\<lparr>sd_objs := sd_objs sd @ [s]\<rparr>)"
  using reachable_step[OF _ step_submit[of s]] by (cases env) (simp add: sys_of_def roles)

lemma stands_submit:
  assumes "stands env k q h sd" and "dict_get (sd_requests sd) (sq_seq_id s) = None" and "role_waiting s"
    and "traced env (sd\<lparr>sd_manager := m, sd_objs := sd_objs sd @ [s]\<rparr>)"
  shows "stands env k q ((length (sd_objs sd), role_waiting) # h)
    (sd\<lparr>sd_manager := m, sd_objs := sd_objs sd @ [s], sd_requests := dict_set (sd_requests sd) (sq_seq_id s) (length (sd_objs sd))\<rparr>)"
    (is "stands env k q ((?r, role_waiting) # h) ?t")
proof -
  have i: "sched_inv (env_config env) k h sd" using assms(1) by (simp add: stands_def)
  then have Q: "queues_ok h sd" by (simp add: sched_inv_def)
  let ?all = "set (sd_waiting sd @ sd_running sd @ sd_swapped sd) \<union> held_refs h"
  have sub: "?all \<subseteq> {..<?r}" using Q unfolding queues_ok_def by blast
  then have fresh: "?r \<notin> ?all" by blast
  have old: "(sd_objs sd @ [s]) ! r = sd_objs sd ! r" if "r \<in> ?all" for r
  proof -
    have "r < ?r" using that sub by blast
    then show ?thesis by (simp add: nth_append)
  qed
  have reg: "dict_get (dict_set (sd_requests sd) (sq_seq_id s) ?r) (sq_seq_id (sd_objs sd ! r)) = Some r" if "r \<in> ?all" for r
  proof -
    have "dict_get (sd_requests sd) (sq_seq_id (sd_objs sd ! r)) = Some r" using that Q unfolding queues_ok_def by blast
    then show ?thesis using assms(2) by auto
  qed
  have "queues_ok ((?r, role_waiting) # h) ?t"
    unfolding queues_ok_def
  proof (intro conjI)
    show "distinct (sd_waiting ?t @ sd_running ?t @ sd_swapped ?t)" using Q by (simp add: queues_ok_def)
    show "distinct (map fst ((?r, role_waiting) # h))" using Q fresh by (simp add: queues_ok_def held_refs_def)
    show "set (sd_waiting ?t @ sd_running ?t @ sd_swapped ?t) \<union> held_refs ((?r, role_waiting) # h) \<subseteq> {..<length (sd_objs ?t)}"
      using sub by fastforce
    show "\<forall>r \<in> set (sd_waiting ?t) - held_refs ((?r, role_waiting) # h). role_waiting (sd_objs ?t ! r)"
      using Q old by (auto simp: queues_ok_def)
    show "\<forall>r \<in> set (sd_running ?t) - held_refs ((?r, role_waiting) # h). role_running (sd_objs ?t ! r)"
      using Q old by (auto simp: queues_ok_def)
    show "\<forall>r \<in> set (sd_swapped ?t) - held_refs ((?r, role_waiting) # h). role_swapped (sd_objs ?t ! r)"
      using Q old by (auto simp: queues_ok_def)
    show "\<forall>r < length (sd_objs ?t). r \<notin> set (sd_waiting ?t @ sd_running ?t @ sd_swapped ?t) \<union> held_refs ((?r, role_waiting) # h) \<longrightarrow>
        role_gone (sd_objs ?t ! r)"
      using Q by (auto simp: queues_ok_def nth_append less_Suc_eq)
    show "\<forall>x \<in> set ((?r, role_waiting) # h). snd x (sd_objs ?t ! fst x)"
    proof
      fix x assume "x \<in> set ((?r, role_waiting) # h)"
      then consider "x = (?r, role_waiting)" | "x \<in> set h" by auto
      then show "snd x (sd_objs ?t ! fst x)"
      proof cases
        case 2
        then have "fst x \<in> ?all" "snd x (sd_objs sd ! fst x)" using Q by (auto simp: held_refs_def queues_ok_def)
        then show ?thesis using old by simp
      qed (simp add: assms(3))
    qed
    show "\<forall>r \<in> set (sd_waiting ?t @ sd_running ?t @ sd_swapped ?t) \<union> held_refs ((?r, role_waiting) # h).
        dict_get (sd_requests ?t) (sq_seq_id (sd_objs ?t ! r)) = Some r"
    proof
      fix r assume "r \<in> set (sd_waiting ?t @ sd_running ?t @ sd_swapped ?t) \<union> held_refs ((?r, role_waiting) # h)"
      then consider "r = ?r" | "r \<in> ?all" by auto
      then show "dict_get (sd_requests ?t) (sq_seq_id (sd_objs ?t ! r)) = Some r"
        by cases (use reg old in auto)
    qed
  qed
  then have "sched_inv (env_config env) k ((?r, role_waiting) # h) ?t" using i by (simp add: sched_inv_def sd_config_def bypass_ok_def)
  moreover have "traced env ?t" using assms(4) sys_of_same[of ?t "sd\<lparr>sd_manager := m, sd_objs := sd_objs sd @ [s]\<rparr>"] by (simp add: sys_of_def)
  ultimately show ?thesis using assms(1) by (simp add: stands_def queues_of_def)
qed

lemma wp_add:
  assumes "settled env sd" and s: "role_waiting s" and xx: "xx = env_hash env"
  shows "wp (sd_add xx now s raising) (\<lambda>d t. settled env t) (lost env) sd"
proof -
  obtain W R S where st: "stands env 0 (W, R, S) [] sd" using settled_queues[OF assms(1)] by blast
  let ?r = "length (sd_objs sd)"
  let ?sd = "sd\<lparr>sd_objs := sd_objs sd @ [s]\<rparr>"
  have tr: "traced env ?sd" by (rule traced_submit[OF standsD(5)[OF st] s])
  have out: "?r \<notin> set W \<union> set R \<union> set S"
    using standsD[OF st] by (auto simp: sched_inv_def queues_ok_def)
  have reject: "wp (thn (obj ?r (sq_transition_to REJECTED reason now))
         (thn (upd (\<lambda>sd. sd\<lparr>sd_rejected := sd_rejected sd @ [?r]\<rparr>))
         (thn (tally (\<lambda>c. c\<lparr>sn_rejected := sn_rejected c + 1\<rparr>))
         (thn sd_observe_state
         (thn (chk ValueError (\<not> raising)) (ret decision)))))) (\<lambda>d t. settled env t) (lost env) t"
    if t: "stands env 0 (W, R, S) [(?r, role_waiting)] t" for t reason decision
    apply (rule wp_seqn[where R = "\<lambda>_. stands env 0 (W, R, S) [(?r, role_gone)]"])
    subgoal by (rule wp_enter[OF t]) (simp_all add: roles is_terminal_def)
    subgoal for _ u
    proof -
      assume "stands env 0 (W, R, S) [(?r, role_gone)] u"
      then have "stands env 0 (W, R, S) [] u" by (rule stands_release(4)) (use out in auto)
      then have "settled env u" by (rule stands_settled)
      then show ?thesis by (simp add: wp_thn wp_upd tally_def sd_observe_state_def wp_chk wp_ret settled_frame settled_lost)
    qed
    done
  have accept: "wp (thn (upd (\<lambda>sd. sd\<lparr>sd_waiting := sd_waiting sd @ [?r]\<rparr>))
         (thn (tally (\<lambda>c. c\<lparr>sn_admitted := sn_admitted c + 1\<rparr>))
         (thn sd_observe_state (ret decision)))) (\<lambda>d t. settled env t) (lost env) t"
    if t: "stands env 0 (W, R, S) [(?r, role_waiting)] t" for t decision
  proof -
    have "stands env 0 (W @ [?r], R, S) [(?r, role_waiting)] (t\<lparr>sd_waiting := W @ [?r], sd_running := R, sd_swapped := S\<rparr>)"
      by (rule stands_requeue[OF t]) (use stands_distinct[OF t] stands_seats[OF t] out in auto)
    moreover have "t\<lparr>sd_waiting := W @ [?r], sd_running := R, sd_swapped := S\<rparr> = t\<lparr>sd_waiting := W @ [?r]\<rparr>"
      using standsD(3,4)[OF t] by (cases t) simp
    ultimately have "stands env 0 (W @ [?r], R, S) [(?r, role_waiting)] (t\<lparr>sd_waiting := W @ [?r]\<rparr>)" by simp
    then have "stands env 0 (W @ [?r], R, S) [] (t\<lparr>sd_waiting := W @ [?r]\<rparr>)" by (rule stands_release(1)) simp_all
    then have "settled env (t\<lparr>sd_waiting := W @ [?r]\<rparr>)" by (rule stands_settled)
    then show ?thesis using standsD(2)[OF t] by (simp add: wp_thn wp_upd tally_def sd_observe_state_def wp_ret settled_frame)
  qed
  show ?thesis
    unfolding sd_add_def Let_def sd_get_request_def
    apply (subst wp_bnd, unfold wp_gets id_apply)
    apply (rule wp_seqn[where R = "\<lambda>_ t. t = sd \<and> dict_get (sd_requests sd) (sq_seq_id s) = None"])
    subgoal by (simp add: wp_chk stands_lost[OF st])
    apply (erule conjE, hypsubst)
    apply (subst wp_thn, unfold wp_upd)
    apply (rule wp_seqn[where R = "\<lambda>_ t. stands env 0 (W, R, S) [(?r, role_waiting)]
        (t\<lparr>sd_requests := dict_set (sd_requests t) (sq_seq_id s) ?r\<rparr>)"])
    subgoal
    proof -
      assume none: "dict_get (sd_requests sd) (sq_seq_id s) = None"
      show ?thesis
        unfolding kv_def wp_zoom
      proof (rule wp_run[THEN iffD2], intro allI impI)
        fix x u assume "bm_cached_prefix_tokens xx (sd_manager ?sd, sd_objs ?sd ! ?r) = (x, u)"
        moreover obtain m' s' where u: "u = (m', s')" by (cases u)
        ultimately have run: "bm_cached_prefix_tokens xx (sd_manager ?sd, sd_objs ?sd ! ?r) = (x, (m', s'))" by simp
        have k: "tables_kept s s'" using framedD[OF framed_cached_prefix_tokens run[simplified]] .
        have t': "traced env (sd\<lparr>sd_manager := m', sd_objs := sd_objs sd @ [s']\<rparr>)"
          using traced_call[OF tr mgr_calls(1)[of env] _ run[unfolded xx]] by simp
        have "stands env 0 (W, R, S) [(?r, role_waiting)]
          (sd\<lparr>sd_manager := m', sd_objs := sd_objs sd @ [s'], sd_requests := dict_set (sd_requests sd) (sq_seq_id s') ?r\<rparr>)"
          by (rule stands_submit[OF st _ _ t']) (use none tables_kept_roles[OF k] s in simp_all)
        then show "case x of Inl e \<Rightarrow> lost env e ((case u of (m, s) \<Rightarrow> \<lambda>sd. sd\<lparr>sd_manager := m, sd_objs := (sd_objs sd)[?r := s]\<rparr>) ?sd)
          | Inr _ \<Rightarrow> stands env 0 (W, R, S) [(?r, role_waiting)]
             (((case u of (m, s) \<Rightarrow> \<lambda>sd. sd\<lparr>sd_manager := m, sd_objs := (sd_objs sd)[?r := s]\<rparr>) ?sd)
               \<lparr>sd_requests := dict_set (sd_requests ((case u of (m, s) \<Rightarrow> \<lambda>sd. sd\<lparr>sd_manager := m, sd_objs := (sd_objs sd)[?r := s]\<rparr>) ?sd)) (sq_seq_id s) ?r\<rparr>)"
          using t' tables_kept_roles(5)[OF k] by (auto simp: u lost_def split: sum.split)
      qed
    qed
    apply (subst wp_thn, unfold wp_upd)
    apply (subst wp_bnd, unfold wp_gets id_apply)
    subgoal unfolding wp_if by (intro if_bool_eq_conj[THEN iffD2] conjI impI reject accept)
    done
qed

lemma wp_reset:
  assumes "settled env sd"
  shows "wp sd_reset_metrics (\<lambda>_. settled env) (lost env) sd"
proof -
  have st: "stands env 0 (sd_waiting sd, sd_running sd, sd_swapped sd) [] sd" by (rule settled_queues[OF assms])
  have "settled env (sd\<lparr>sd_requests := [], sd_rejected := [], sd_cancelled := [], sd_consecutive := 0, sd_decode_since_heavy := i,
     sd_bypasses_since_heavy := 0, sd_counters := c\<rparr>)" (is "settled env ?t") if "sd_is_finished sd" for i c
  proof -
    have "sched_inv (env_config env) 0 [] ?t"
      using standsD(1)[OF st] that
      by (cases "sd_policy sd") (auto simp: sched_inv_def queues_ok_def sd_is_finished_def sd_config_def bypass_ok_def)
    moreover have "traced env ?t" using standsD(5)[OF st] sys_of_same[of ?t sd] by (simp add: sys_of_def)
    ultimately have "stands env 0 (queues_of ?t) [] ?t" by (simp add: stands_def)
    then show ?thesis by (rule stands_settled)
  qed
  then show ?thesis by (auto simp: sd_reset_metrics_def wp_bnd wp_gets wp_thn wp_chk wp_upd settled_lost[OF assms])
qed

section \<open>The executor\<close>

text \<open>Between planning and postprocessing the executor compacts and stores the pages of running requests.\<close>

fun executor_call :: "bm_call \<Rightarrow> bool" where
  "executor_call (BuildPlan dt) = True"
| "executor_call (Commit p) = True"
| "executor_call StorePrefix = True"
| "executor_call _ = False"

lemma framed_executor: "executor_call c \<Longrightarrow> framed cpu_kept (bm_exec xx c)"
  by (cases c) (auto simp: void_def intro!: cpu.framed_rules framed_compaction framed_store)

lemma settled_executor:
  assumes "settled env sd" and "r \<in> set (sd_running sd)" and "executor_call c" and "c = StorePrefix \<longrightarrow> evidence (sd_objs sd ! r)"
  shows "settled env (snd (kv r (bm_exec (env_hash env) c) sd))"
proof -
  let ?q = "(sd_waiting sd, sd_running sd, sd_swapped sd)"
  have st: "stands env 0 ?q [] sd" by (rule settled_queues[OF assms(1)])
  have g: "stands env 0 ?q [(r, role_running)] sd" by (rule stands_grab_running[OF st assms(2)]) simp
  note h = stands_hand[OF g] and i = standsD(1)[OF g]
  obtain x m' s' where run: "bm_exec (env_hash env) c (sd_manager sd, sd_objs sd ! r) = (x, (m', s'))"
    by (metis prod.collapse)
  let ?t = "sd\<lparr>sd_manager := m', sd_objs := (sd_objs sd)[r := s']\<rparr>"
  have k: "cpu_kept (sd_objs sd ! r) s'" by (rule framedD[OF framed_executor[OF assms(3)] run])
  have "traced env ?t"
  proof (cases env)
    case (fields xx n cfg)
    have "system_step xx (sys_of sd) (Call r c) (m', (sd_objs sd)[r := s'])"
      unfolding sys_of_def by (rule step_call[OF h(1) assms(4)]) (use run in \<open>simp add: fields\<close>)
    then show ?thesis using standsD(5)[OF st] reachable_step by (auto simp: fields sys_of_def)
  qed
  moreover have "sched_inv (env_config env) 0 [(r, role_running)] ?t"
  proof -
    have "sched_inv (env_config env) 0 [(r, role_running)] (sd\<lparr>sd_manager := m'\<rparr>)" unfolding inv_other by (rule i)
    from inv_set_obj[OF this, of role_running s'] show ?thesis using cpu_kept_roles[OF k] h(2) by simp
  qed
  ultimately have "stands env 0 ?q [(r, role_running)] ?t" by (simp add: stands_def queues_of_def)
  then have "stands env 0 ?q [] ?t" by (rule stands_release(2)) (use assms(2) in auto)
  then show ?thesis using stands_settled by (simp add: kv_def zoom_def run)
qed

text \<open>The runner advances a running request: its tokens, its computed prefix, its records.\<close>

definition advances :: "sequence \<Rightarrow> sequence \<Rightarrow> bool" where
  "advances s t \<longleftrightarrow> sq_block_table t = sq_block_table s \<and> sq_cpu_block_table t = sq_cpu_block_table s \<and>
     sq_status t = sq_status s \<and> sq_seq_id t = sq_seq_id s"

lemma settled_advance:
  assumes "settled env sd" and "r \<in> set (sd_running sd)" and "advances (sd_objs sd ! r) s'"
  shows "settled env (sd\<lparr>sd_objs := (sd_objs sd)[r := s']\<rparr>)"
proof -
  let ?q = "(sd_waiting sd, sd_running sd, sd_swapped sd)" and ?t = "sd\<lparr>sd_objs := (sd_objs sd)[r := s']\<rparr>"
  have st: "stands env 0 ?q [] sd" by (rule settled_queues[OF assms(1)])
  have g: "stands env 0 ?q [(r, role_running)] sd" by (rule stands_grab_running[OF st assms(2)]) simp
  note h = stands_hand[OF g]
  have "sched_inv (env_config env) 0 [(r, role_running)] ?t"
    by (rule inv_set_obj[OF standsD(1)[OF g]]) (use assms(3) h(2) in \<open>simp_all add: advances_def roles\<close>)
  moreover have "traced env ?t" by (rule traced_update[OF standsD(5)[OF st] h(1)]) (use assms(3) in \<open>simp_all add: advances_def\<close>)
  ultimately have "stands env 0 ?q [(r, role_running)] ?t" by (simp add: stands_def queues_of_def)
  then have "stands env 0 ?q [] ?t" by (rule stands_release(2)) (use assms(2) in auto)
  then show ?thesis by (rule stands_settled)
qed

section \<open>The machine\<close>

datatype sched_call =
    Add sequence int bool | Schedule int | ScheduleDecode int | ScheduleResident int | SchedulePrefill int "int option"
  | Postprocess int "batch_plan + nat list" "int option list" | Cancel int nat | Reset

definition silent :: "('a, scheduler) op \<Rightarrow> (unit, scheduler) op" where
  "silent p = bnd p (\<lambda>_. ret ())"

fun sched_exec :: "hash_fun \<Rightarrow> sched_call \<Rightarrow> (unit, scheduler) op" where
  "sched_exec xx (Add s now raising) = silent (sd_add xx now s raising)"
| "sched_exec xx (Schedule now) = silent (schedule xx now)"
| "sched_exec xx (ScheduleDecode now) = silent (schedule_decode now)"
| "sched_exec xx (ScheduleResident now) = silent (schedule_resident_decode now)"
| "sched_exec xx (SchedulePrefill now tier) = silent (schedule_prefill xx now tier)"
| "sched_exec xx (Postprocess now x tokens) = silent (postprocess xx now x tokens)"
| "sched_exec xx (Cancel now i) = silent (sd_cancel now i)"
| "sched_exec xx Reset = silent sd_reset_metrics"

text \<open>A new request has no pages; results are for distinct running requests, as in every plan.\<close>

fun sched_ready :: "scheduler \<Rightarrow> sched_call \<Rightarrow> bool" where
  "sched_ready sd (Add s now raising) = role_waiting s"
| "sched_ready sd (Postprocess now x tokens) =
     (let refs = (case x of Inl p \<Rightarrow> bp_sequences p | Inr rs \<Rightarrow> rs) in distinct refs \<and> set refs \<subseteq> set (sd_running sd))"
| "sched_ready sd _ = True"

datatype sched_label = Returns sched_call | Executes nat bm_call | Advances nat sequence

inductive sched_step :: "hash_fun \<Rightarrow> scheduler \<Rightarrow> sched_label \<Rightarrow> scheduler \<Rightarrow> bool" for xx :: hash_fun where
  step_returns: "sched_ready sd c \<Longrightarrow> sched_exec xx c sd = (Inr (), sd') \<Longrightarrow> sched_step xx sd (Returns c) sd'"
| step_executes: "r \<in> set (sd_running sd) \<Longrightarrow> executor_call c \<Longrightarrow> (c = StorePrefix \<longrightarrow> evidence (sd_objs sd ! r)) \<Longrightarrow>
    snd (kv r (bm_exec xx c) sd) = sd' \<Longrightarrow> sched_step xx sd (Executes r c) sd'"
| step_advances: "r \<in> set (sd_running sd) \<Longrightarrow> advances (sd_objs sd ! r) s' \<Longrightarrow>
    sched_step xx sd (Advances r s') (sd\<lparr>sd_objs := (sd_objs sd)[r := s']\<rparr>)"

definition sched_start :: "scheduler_config \<Rightarrow> scheduler \<Rightarrow> bool" where
  "sched_start cf sd \<longleftrightarrow> scheduler_new cf None = Inr sd"

definition env_of :: "hash_fun \<Rightarrow> scheduler_config \<Rightarrow> env" where
  "env_of xx cf = (xx, cf_num_kvcache_blocks cf,
     (case configured_policy cf of Inr p \<Rightarrow> p | Inl _ \<Rightarrow> FCFS_Policy (base_policy cf [])),
     cf_max_num_seqs cf, cf_max_num_batched_tokens cf, cf_max_vision_patches cf)"

lemma wp_silent: "wp p (\<lambda>_. I) E sd \<Longrightarrow> wp (silent p) (\<lambda>_. I) E sd"
  by (simp add: silent_def wp_bnd wp_ret_eta)

lemma wp_exec:
  assumes "settled env sd" and "sched_ready sd c" and "xx = env_hash env"
  shows "wp (sched_exec xx c) (\<lambda>_. settled env) (lost env) sd"
proof -
  have plan: "wp p (\<lambda>_. settled env) (lost env) sd" if "wp p (\<lambda>p. promised env (Some p)) (lost env) sd" for p
    by (rule wp_mono[OF that]) (simp_all add: promised_Some)
  have opt: "wp p (\<lambda>_. settled env) (lost env) sd" if "wp p (promised env) (lost env) sd" for p
    by (rule wp_mono[OF that]) (simp_all add: promised_settled)
  have cancel: "wp (sd_cancel now i) (\<lambda>_. settled env) (lost env) sd" for now i
    by (rule wp_mono[OF wp_cancel[OF assms(1)]]) simp_all
  show ?thesis
    using assms(2)
    by (cases c)
      (simp_all add: assms(3) Let_def wp_silent wp_add[OF assms(1)] plan[OF wp_schedule[OF assms(1)]] plan[OF wp_schedule_decode[OF assms(1)]]
        opt[OF wp_schedule_resident[OF assms(1)]] plan[OF wp_schedule_prefill[OF assms(1)]] wp_postprocess[OF assms(1)] cancel
        wp_reset[OF assms(1)])
qed

lemma env_hash_of [simp]: "env_hash (env_of xx cf) = xx"
  by (simp add: env_of_def)

lemma start_settled:
  assumes "sched_start cf sd"
  shows "settled (env_of xx cf) sd"
proof -
  obtain m p where m: "bm_init (cf_num_kvcache_blocks cf) (cf_kvcache_block_size cf) (cf_num_cpu_blocks cf)
        (cf_enable_prefix_caching cf) (compression_mode_is_dense (cf_compression_mode cf)) = Inr m"
    and p: "configured_policy cf = Inr p"
    and sd: "sd = \<lparr>sd_manager = m, sd_objs = [], sd_policy = p, sd_max_num_seqs = cf_max_num_seqs cf,
        sd_max_num_batched_tokens = cf_max_num_batched_tokens cf, sd_max_vision_patches = cf_max_vision_patches cf,
        sd_eos = cf_eos cf, sd_waiting = [], sd_running = [], sd_swapped = [], sd_rejected = [], sd_cancelled = [],
        sd_requests = [], sd_consecutive = 0, sd_decode_since_heavy = cf_heavy_interval cf, sd_bypasses_since_heavy = 0,
        sd_counters = zero_scheduler_counters\<rparr>"
    using assms by (auto simp: sched_start_def scheduler_new_def res_simps)
  have "0 < cf_max_num_seqs cf"
    using p by (auto simp: configured_policy_def res_simps Let_def base_policy_def fcfs_post_init_def vision_post_init_def slo_post_init_def
        fcfs_policy.defs split: if_splits)
  moreover have "reachable xx (cf_num_kvcache_blocks cf) (m, [])" by (rule reachableI[OF m]) (rule run_Nil)
  ultimately have "stands (env_of xx cf) 0 ([], [], []) [] sd"
    by (cases p) (auto simp: stands_def sched_inv_def queues_ok_def queues_of_def bypass_ok_def sd_config_def env_of_def p sd sys_of_def)
  then show ?thesis by (rule stands_settled)
qed

interpretation sched_machine: invariant_system "sched_start cf" "sched_step xx" "settled (env_of xx cf)" for cf xx
proof unfold_locales
  fix sd l sd' assume s: "settled (env_of xx cf) sd" and step: "sched_step xx sd l sd'"
  from step show "settled (env_of xx cf) sd'"
  proof cases
    case (step_returns c)
    then show ?thesis using wp_okD[OF wp_exec[OF s, of c xx]] by simp
  next
    case (step_executes r c)
    then show ?thesis using settled_executor[OF s, of r c] by simp
  next
    case (step_advances r s')
    then show ?thesis using settled_advance[OF s] by blast
  qed
qed (rule start_settled)

end
