(* ===== verification/Scheduler_Overtaking.thy ===== *)
theory Scheduler_Overtaking imports Scheduler_Machine begin

text \<open>
  Overtaking: a waiting request is admitted while an older one stays in the queue.  The section on frames follows
  what each call of the scheduler may do to the queues and to the counter of bypasses; the admission loop is the only
  part that lets a request leave the queue for the running ones, and it counts every time it takes one that is not
  the oldest.
\<close>

section \<open>Overtaking requests\<close>

text \<open>The requests that were waiting in \<open>sd\<close> and run in \<open>sd'\<close>, although one in front of them still waits there.\<close>

definition overtakers :: "scheduler \<Rightarrow> scheduler \<Rightarrow> nat list" where
  "overtakers sd sd' = filter (\<lambda>r. r \<in> set (sd_running sd') \<and>
     list_ex (\<lambda>x. x \<in> set (sd_waiting sd')) (takeWhile (\<lambda>x. x \<noteq> r) (sd_waiting sd))) (sd_waiting sd)"

text \<open>The same on queues: the elements that are gone although one in front of them is left.\<close>

definition passed :: "nat list \<Rightarrow> nat list \<Rightarrow> nat list" where
  "passed W W' = filter (\<lambda>r. r \<notin> set W' \<and> list_ex (\<lambda>x. x \<in> set W') (takeWhile (\<lambda>x. x \<noteq> r) W)) W"

lemma length_filter_imp: "(\<And>x. x \<in> set xs \<Longrightarrow> P x \<Longrightarrow> Q x) \<Longrightarrow> length (filter P xs) \<le> length (filter Q xs)"
  by (induction xs) auto

lemma overtakers_passed:
  assumes "set (sd_running sd') \<inter> set (sd_waiting sd') = {}"
  shows "length (overtakers sd sd') \<le> length (passed (sd_waiting sd) (sd_waiting sd'))"
  unfolding overtakers_def passed_def by (rule length_filter_imp) (use assms in auto)

lemma overtakers_none: "set (sd_running sd') \<inter> set (sd_waiting sd) = {} \<Longrightarrow> overtakers sd sd' = []"
  by (auto simp: overtakers_def filter_empty_conv)

lemma passed_none: "set W \<subseteq> set W' \<Longrightarrow> passed W W' = []"
  by (auto simp: passed_def filter_empty_conv)

lemma takeWhile_front: "r \<notin> set ys \<Longrightarrow> takeWhile (\<lambda>x. x \<noteq> r) (ys @ W) = ys @ takeWhile (\<lambda>x. x \<noteq> r) W"
  by (induction ys) auto

lemma passed_front:
  assumes "distinct (ys @ W)"
  shows "length (passed W W') \<le> length (passed (ys @ W) W')"
proof -
  have "length (passed W W') \<le> length (filter (\<lambda>r. r \<notin> set W' \<and> list_ex (\<lambda>x. x \<in> set W') (takeWhile (\<lambda>x. x \<noteq> r) (ys @ W))) W)"
    unfolding passed_def
  proof (rule length_filter_imp)
    fix r assume r: "r \<in> set W" "r \<notin> set W' \<and> list_ex (\<lambda>x. x \<in> set W') (takeWhile (\<lambda>x. x \<noteq> r) W)"
    then have "r \<notin> set ys" using assms by auto
    then show "r \<notin> set W' \<and> list_ex (\<lambda>x. x \<in> set W') (takeWhile (\<lambda>x. x \<noteq> r) (ys @ W))" using r(2) by (simp add: takeWhile_front)
  qed
  then show ?thesis by (simp add: passed_def)
qed

text \<open>In a queue without repetitions, \<open>x\<close> is in front of \<open>r\<close>.\<close>

lemma in_front_filter:
  assumes "x \<in> set (takeWhile (\<lambda>x. x \<noteq> r) W)" and "p x"
  shows "x \<in> set (takeWhile (\<lambda>x. x \<noteq> r) (filter p W))"
  using assms by (induction W) (auto split: if_splits)

lemma in_front_nth:
  assumes "i < length W" and "x \<in> set (takeWhile (\<lambda>x. x \<noteq> W ! i) W)"
  shows "0 < i"
  using assms by (cases W; cases i) auto

text \<open>Taking one more element from the queue adds at most that element, and none if it was the first.\<close>

lemma passed_take:
  assumes d: "distinct W" and W': "W' = filter p W"
  shows "length (passed W (take i W' @ drop (Suc i) W')) \<le> length (passed W W') + (if 0 < i then 1 else 0)"
proof (cases "i < length W'")
  case False
  then show ?thesis by simp
next
  case i: True
  let ?U = "take i W' @ drop (Suc i) W'" and ?r = "W' ! i"
  have dW': "distinct W'" using d W' by simp
  have split: "W' = take i W' @ ?r # drop (Suc i) W'" by (rule id_take_nth_drop[OF i])
  have "distinct (take i W' @ ?r # drop (Suc i) W')" using dW' split by simp
  moreover have "set W' = set (take i W' @ ?r # drop (Suc i) W')" using split by simp
  ultimately have U: "set ?U = set W' - {?r}" by auto
  have "set (passed W ?U) \<subseteq> set (passed W W') \<union> (if 0 < i then {?r} else {})"
  proof
    fix r assume "r \<in> set (passed W ?U)"
    then obtain x where r: "r \<in> set W" "r \<notin> set ?U" "x \<in> set (takeWhile (\<lambda>x. x \<noteq> r) W)" "x \<in> set ?U"
      by (auto simp: passed_def list_ex_iff)
    show "r \<in> set (passed W W') \<union> (if 0 < i then {?r} else {})"
    proof (cases "r \<in> set W'")
      case False
      then show ?thesis using r U by (auto simp: passed_def list_ex_iff)
    next
      case True
      then have "r = ?r" using r(2) U by auto
      moreover have "p x" using r(4) U W' by auto
      then have "x \<in> set (takeWhile (\<lambda>x. x \<noteq> r) W')" unfolding W' by (rule in_front_filter[OF r(3)])
      ultimately show ?thesis using in_front_nth[OF i] by auto
    qed
  qed
  then have "card (set (passed W ?U)) \<le> card (set (passed W W') \<union> (if 0 < i then {?r} else {}))" by (intro card_mono) auto
  also have "\<dots> \<le> card (set (passed W W')) + (if 0 < i then 1 else 0)" by (rule order_trans[OF card_Un_le]) simp
  finally have le: "card (set (passed W ?U)) \<le> card (set (passed W W')) + (if 0 < i then 1 else 0)" .
  have "card (set (passed W V)) = length (passed W V)" for V by (rule distinct_card) (simp add: passed_def d)
  then show ?thesis using le by simp
qed

section \<open>Frames\<close>

text \<open>What holds after a call that returns, whatever holds after one that raises.\<close>

definition returns :: "('s \<Rightarrow> bool) \<Rightarrow> ('a, 's) op \<Rightarrow> ('a \<Rightarrow> 's \<Rightarrow> bool) \<Rightarrow> bool" where
  "returns P p Q \<longleftrightarrow> (\<forall>s. P s \<longrightarrow> wp p Q (\<lambda>_ _. True) s)"

named_theorems frames \<open>operations that keep a property of the scheduler state\<close>

lemma returns_pre: "(\<And>s. P s \<Longrightarrow> returns (\<lambda>t. t = s) p Q) \<Longrightarrow> returns P p Q"
  by (simp add: returns_def)

lemma returns_mono: "returns P p R \<Longrightarrow> (\<And>x s. R x s \<Longrightarrow> Q x s) \<Longrightarrow> returns P p Q"
  unfolding returns_def by (blast intro: wp_mono)

lemma returns_weak: "returns R p Q \<Longrightarrow> (\<And>s. P s \<Longrightarrow> R s) \<Longrightarrow> returns P p Q"
  unfolding returns_def by blast

lemma returns_fact: "(\<And>s. P s \<Longrightarrow> F) \<Longrightarrow> (F \<Longrightarrow> returns P p Q) \<Longrightarrow> returns P p Q"
  unfolding returns_def by blast

lemma returns_bnd: "returns P p R \<Longrightarrow> (\<And>x. returns (R x) (f x) Q) \<Longrightarrow> returns P (bnd p f) Q"
  unfolding returns_def wp_bnd by (blast intro: wp_mono)

lemma returns_thn: "returns P p (\<lambda>_. R) \<Longrightarrow> returns R q Q \<Longrightarrow> returns P (thn p q) Q"
  unfolding thn_def by (rule returns_bnd)

lemma returns_get: "(\<And>s. P s \<Longrightarrow> returns P (f (g s)) Q) \<Longrightarrow> returns P (bnd (gets g) f) Q"
  by (simp add: returns_def wp_bnd wp_gets)

lemma returns_lift: "(\<And>x. r = Inr x \<Longrightarrow> returns P (f x) Q) \<Longrightarrow> returns P (bnd (lift_res r) f) Q"
  by (cases r) (simp_all add: returns_def wp_bnd wp_lift_res)

lemma returns_ret: "(\<And>s. P s \<Longrightarrow> Q x s) \<Longrightarrow> returns P (ret x) Q"
  by (simp add: returns_def wp_ret)

lemma returns_upd: "(\<And>s. P s \<Longrightarrow> Q () (f s)) \<Longrightarrow> returns P (upd f) Q"
  by (simp add: returns_def wp_upd)

text \<open>The rules for a property that every step keeps.\<close>

abbreviation keeping :: "('s \<Rightarrow> bool) \<Rightarrow> ('a, 's) op \<Rightarrow> bool" where
  "keeping P p \<equiv> returns P p (\<lambda>_. P)"

lemma keeping_basic [frames]:
  "keeping P (ret x)" "keeping P (throw e)" "keeping P (chk e b)" "keeping P (gets g)" "keeping P (lift_res r)"
  by (simp_all add: returns_def wp_ret wp_throw wp_chk wp_gets wp_lift_res split: sum.splits)

lemma keeping_seq [frames]:
  "keeping P p \<Longrightarrow> (\<And>x. keeping P (f x)) \<Longrightarrow> keeping P (bnd p f)"
  "keeping P p \<Longrightarrow> keeping P q \<Longrightarrow> keeping P (thn p q)"
  by (blast intro: returns_bnd returns_thn)+

lemma keeping_cases [frames]:
  "keeping P p \<Longrightarrow> keeping P q \<Longrightarrow> keeping P (if b then p else q)"
  "keeping P p \<Longrightarrow> (\<And>y. keeping P (f y)) \<Longrightarrow> keeping P (case z of None \<Rightarrow> p | Some y \<Rightarrow> f y)"
  "(\<And>a b. keeping P (h a b)) \<Longrightarrow> keeping P (case w of (a, b) \<Rightarrow> h a b)"
  by (simp_all split: option.splits prod.splits)

text \<open>The frame of the scheduler: requests, manager and tallies may change.\<close>

locale scheduler_frame =
  fixes I :: "scheduler \<Rightarrow> bool"
  assumes of_objs: "I sd \<Longrightarrow> I (sd\<lparr>sd_manager := m, sd_objs := os\<rparr>)"
    and of_counters: "I sd \<Longrightarrow> sn_heavy_batches c = sn_heavy_batches (sd_counters sd) \<Longrightarrow> I (sd\<lparr>sd_counters := c\<rparr>)"
begin

lemma kv_keeps: "keeping I (kv r p)"
proof -
  have "wp p (\<lambda>x t. I ((case t of (m, s) \<Rightarrow> \<lambda>sd. sd\<lparr>sd_manager := m, sd_objs := (sd_objs sd)[r := s]\<rparr>) sd)) (\<lambda>_ _. True) st" if "I sd" for sd st
    using of_objs[OF that] by (auto simp: wp_def split: prod.splits sum.splits)
  then show ?thesis by (simp add: returns_def kv_def wp_zoom)
qed

lemma obj_keeps: "keeping I (obj r p)"
proof -
  have "wp p (\<lambda>x t. I (sd\<lparr>sd_objs := (sd_objs sd)[r := t]\<rparr>)) (\<lambda>_ _. True) st" if "I sd" for sd st
    using of_objs[OF that, where m = "sd_manager sd"] by (auto simp: wp_def split: prod.splits sum.splits)
  then show ?thesis by (simp add: returns_def obj_def wp_zoom)
qed

lemma tally_keeps: "(\<And>c. sn_heavy_batches (f c) = sn_heavy_batches c) \<Longrightarrow> keeping I (tally f)"
  by (auto simp: returns_def tally_def wp_upd intro: of_counters)

lemma observe_keeps: "keeping I sd_observe_state"
  by (auto simp: returns_def sd_observe_state_def observe_peaks_def wp_upd intro: of_counters)

lemma refresh_keeps: "keeping I (refresh_cached_prefixes xx rs)"
  by (induction rs) (auto intro: frames kv_keeps)

lemma candidate_keeps: "keeping I (prefill_candidate_for r n)"
  unfolding prefill_candidate_for_def Let_def by (intro frames)

lemma collect_keeps: "keeping I (collect_running_prefills rs b)"
proof (induction rs arbitrary: b)
  case (Cons r rs)
  show ?case unfolding collect_running_prefills.simps by (intro frames candidate_keeps Cons)
qed (simp add: frames)

lemma plan_keeps: "keeping I (make_plan now phase refs counts transfers)"
  unfolding make_plan_def by (intro frames)

lemma room_keeps: "keeping I (append_room r)"
  unfolding append_room_def by (intro frames kv_keeps)

lemma single_keeps: "keeping I (decode_single now r)"
  unfolding decode_single_def Let_def by (intro frames room_keeps observe_keeps plan_keeps)

lemma publish_keeps: "keeping I (publish_for xx plan k r)"
  unfolding publish_for_def Let_def by (intro frames kv_keeps)

end

section \<open>Calls that admit no one\<close>

text \<open>
  The running and the swapped requests are among \<open>A\<close>; the queue is \<open>W\<close> with some of \<open>A\<close> put in front; at least \<open>b\<close>
  bypasses are counted and no further heavy batch.
\<close>

definition calm :: "nat set \<Rightarrow> nat list \<Rightarrow> int \<Rightarrow> nat \<Rightarrow> scheduler \<Rightarrow> bool" where
  "calm A W b h sd \<longleftrightarrow> (\<exists>ys. sd_waiting sd = ys @ W \<and> set ys \<subseteq> A) \<and> set (sd_running sd) \<subseteq> A \<and> set (sd_swapped sd) \<subseteq> A \<and>
     b \<le> sd_bypasses_since_heavy sd \<and> sn_heavy_batches (sd_counters sd) = h"

text \<open>Only running requests among \<open>A\<close>, whatever happens to the queue.\<close>

definition quiet :: "nat set \<Rightarrow> int \<Rightarrow> nat \<Rightarrow> scheduler \<Rightarrow> bool" where
  "quiet A b h sd \<longleftrightarrow> set (sd_running sd) \<subseteq> A \<and> b \<le> sd_bypasses_since_heavy sd \<and> sn_heavy_batches (sd_counters sd) = h"

interpretation calm: scheduler_frame "calm A W b h" for A W b h
  by unfold_locales (simp_all add: calm_def)

interpretation quiet: scheduler_frame "quiet A b h" for A b h
  by unfold_locales (simp_all add: quiet_def)

lemmas calm_steps = frames calm.kv_keeps calm.obj_keeps calm.tally_keeps calm.observe_keeps calm.plan_keeps calm.room_keeps calm.single_keeps

lemma calm_upd:
  "(\<And>sd. calm A W b h sd \<Longrightarrow> calm A W b h (f sd)) \<Longrightarrow> keeping (calm A W b h) (upd f)"
  by (simp add: returns_upd)

lemma calm_queues:
  "calm A W b h sd \<Longrightarrow> set rs \<subseteq> A \<Longrightarrow> calm A W b h (sd\<lparr>sd_running := rs\<rparr>)"
  "calm A W b h sd \<Longrightarrow> set rs \<subseteq> A \<Longrightarrow> calm A W b h (sd\<lparr>sd_swapped := rs\<rparr>)"
  "calm A W b h sd \<Longrightarrow> r \<in> A \<Longrightarrow> calm A W b h (sd\<lparr>sd_waiting := r # sd_waiting sd\<rparr>)"
  by (auto simp: calm_def intro: exI[of _ "r # ys" for ys])

lemma calm_sets: "calm A W b h sd \<Longrightarrow> set (sd_running sd) \<subseteq> A" "calm A W b h sd \<Longrightarrow> set (sd_swapped sd) \<subseteq> A"
  by (simp_all add: calm_def)

lemma calm_mem: "x \<in> set (sd_running sd) \<Longrightarrow> calm A W b h sd \<Longrightarrow> x \<in> A" "x \<in> set (sd_swapped sd) \<Longrightarrow> calm A W b h sd \<Longrightarrow> x \<in> A"
  by (auto simp: calm_def)

lemma calm_preempt: "r \<in> A \<Longrightarrow> keeping (calm A W b h) (sd_preempt now r pairs)"
  unfolding sd_preempt_def by (intro calm_steps calm_upd) (auto intro!: calm_queues dest: calm_mem)

lemma calm_swap_in: "keeping (calm A W b h) (swap_in_loop n now pairs)"
proof (induction n arbitrary: pairs)
  case (Suc n)
  show ?case unfolding swap_in_loop.simps
  proof (rule returns_get, unfold id_apply)
    fix sd assume c: "calm A W b h sd"
    show "keeping (calm A W b h) (case sd_swapped sd of [] \<Rightarrow> ret pairs
       | r # rest \<Rightarrow> if \<not> int (length (sd_running sd)) < sd_max_num_seqs sd then ret pairs
           else bnd (kv r bm_can_swap_in) (\<lambda>fits. if \<not> fits then ret pairs
             else thn (upd (\<lambda>sd. sd\<lparr>sd_swapped := rest\<rparr>))
                 (bnd (kv r bm_swap_in) (\<lambda>new.
                  thn (tally (\<lambda>c. c\<lparr>sn_swap_in := sn_swap_in c + 1\<rparr>))
                 (thn (obj r (sq_transition_to DECODING ''KV swap-in completed'' now))
                 (thn (upd (\<lambda>sd. sd\<lparr>sd_running := sd_running sd @ [r]\<rparr>))
                      (swap_in_loop n now (pairs @ new))))))))"
    proof (cases "sd_swapped sd")
      case (Cons r rest)
      have in_A: "r \<in> A" "set rest \<subseteq> A" using calm_sets(2)[OF c] Cons by auto
      show ?thesis unfolding Cons list.case
        by (intro calm_steps calm_upd Suc) (use in_A in \<open>auto intro!: calm_queues dest: calm_mem\<close>)
    qed (simp add: frames)
  qed
qed (simp add: frames)

text \<open>The candidates that the decode loop hands back are among \<open>A\<close>.\<close>

definition room_made :: "nat set \<Rightarrow> nat list \<Rightarrow> int \<Rightarrow> nat \<Rightarrow> bool \<times> nat list \<times> (nat \<times> nat) list \<Rightarrow> scheduler \<Rightarrow> bool" where
  "room_made A W b h x sd \<longleftrightarrow> calm A W b h sd \<and> set (fst (snd x)) \<subseteq> A"

definition turns_done ::
    "nat set \<Rightarrow> nat list \<Rightarrow> int \<Rightarrow> nat \<Rightarrow> nat list \<times> nat list \<times> (nat \<times> nat) list \<times> (nat \<times> nat) list \<Rightarrow> scheduler \<Rightarrow> bool" where
  "turns_done A W b h x sd \<longleftrightarrow> calm A W b h sd \<and> set (fst x) \<subseteq> A \<and> set (fst (snd x)) \<subseteq> A"

lemma calm_make_room:
  assumes "r \<in> A" and "set candidates \<subseteq> A"
  shows "returns (calm A W b h) (make_room now resident r candidates pairs)
    (room_made A W b h)"
  using assms
proof (induction now resident r candidates pairs rule: make_room.induct)
  case (1 now resident r candidates pairs)
  show ?case
    unfolding make_room.simps[of now resident r candidates pairs]
  proof (rule returns_get, rule returns_bnd[OF calm.kv_keeps])
    fix sd fits assume "calm A W b h sd"
    let ?pick = "fcfs_preemption_candidate (policy_base (sd_policy sd)) candidates"
    have stop: "returns (calm A W b h) (bnd (sd_preempt now r (Some pairs)) (\<lambda>pairs'. ret (False, candidates, the pairs')))
      (room_made A W b h)"
      by (rule returns_bnd[OF calm_preempt[OF 1(2)]]) (use 1(3) in \<open>auto intro!: returns_ret simp: room_made_def\<close>)
    have more: "returns (calm A W b h) (bnd (sd_preempt now v (Some pairs)) (\<lambda>pairs'. make_room now resident r (remove1 v candidates) (the pairs')))
      (room_made A W b h)" if v: "?pick = Some v" "\<not> fits" "\<not> resident" for v
    proof -
      have "v \<in> A" using v 1(3) by (auto simp: fcfs_preemption_candidate_def split: if_splits)
      moreover have "set (remove1 v candidates) \<subseteq> A" using 1(3) set_remove1_subset by fast
      ultimately show ?thesis using 1(1)[OF v(2,3,1) 1(2)] by (auto intro!: returns_bnd[OF calm_preempt])
    qed
    show "returns (calm A W b h)
      (if fits then ret (True, candidates, pairs)
       else if resident then thn (upd (\<lambda>sd. sd\<lparr>sd_running := sd_running sd @ [r]\<rparr>)) (ret (False, candidates, pairs))
       else (case ?pick of
         Some victim \<Rightarrow> bnd (sd_preempt now victim (Some pairs)) (\<lambda>pairs'. make_room now resident r (remove1 victim candidates) (the pairs'))
       | None \<Rightarrow> bnd (sd_preempt now r (Some pairs)) (\<lambda>pairs'. ret (False, candidates, the pairs'))))
      (room_made A W b h)"
      using stop more 1(2,3)
      by (auto split: option.splits intro!: returns_ret returns_thn[OF calm_upd] calm_queues dest: calm_mem simp: room_made_def)
  qed
qed

lemma calm_decode_loop:
  assumes "set candidates \<subseteq> A" and "set scheduled \<subseteq> A"
  shows "returns (calm A W b h) (decode_loop n now resident candidates scheduled cow out)
    (turns_done A W b h)"
  using assms
proof (induction n arbitrary: candidates scheduled cow out)
  case 0
  then show ?case by (simp add: returns_ret turns_done_def)
next
  case (Suc n)
  show ?case unfolding decode_loop.simps
  proof (rule returns_get)
    fix sd
    show "returns (calm A W b h) (case candidates of [] \<Rightarrow> ret (candidates, scheduled, cow, out)
       | r # rest \<Rightarrow> if \<not> int (length scheduled) < sd_max_num_seqs sd then ret (candidates, scheduled, cow, out)
           else bnd (make_room now resident r rest out) (\<lambda>(fits, rest', out').
             if \<not> fits then decode_loop n now resident rest' scheduled cow out'
             else bnd (append_room r) (\<lambda>pair.
               decode_loop n now resident rest' (scheduled @ [r]) (case pair of None \<Rightarrow> cow | Some p \<Rightarrow> cow @ [p]) out')))
      (turns_done A W b h)"
    proof (cases candidates)
      case Nil
      then show ?thesis using Suc.prems by (simp add: returns_ret turns_done_def)
    next
      case (Cons r rest)
      have A: "r \<in> A" "set rest \<subseteq> A" "set (scheduled @ [r]) \<subseteq> A" using Suc.prems Cons by auto
      have turn: "returns (calm A W b h)
          (if \<not> fits then decode_loop n now resident rest' scheduled cow out'
           else bnd (append_room r) (\<lambda>pair.
             decode_loop n now resident rest' (scheduled @ [r]) (case pair of None \<Rightarrow> cow | Some p \<Rightarrow> cow @ [p]) out'))
          (turns_done A W b h)"
        if "set rest' \<subseteq> A" for fits rest' out'
        using that A(3) Suc.IH Suc.prems(2) by (auto intro!: returns_bnd[OF calm.room_keeps])
      have "returns (calm A W b h) (bnd (make_room now resident r rest out) (\<lambda>(fits, rest', out').
           if \<not> fits then decode_loop n now resident rest' scheduled cow out'
           else bnd (append_room r) (\<lambda>pair.
             decode_loop n now resident rest' (scheduled @ [r]) (case pair of None \<Rightarrow> cow | Some p \<Rightarrow> cow @ [p]) out')))
          (turns_done A W b h)"
      proof (rule returns_bnd[OF calm_make_room[OF A(1,2)]])
        fix x :: "bool \<times> nat list \<times> (nat \<times> nat) list"
        obtain fits rest' out' where x: "x = (fits, rest', out')" by (cases x)
        show "returns (room_made A W b h x)
          (case x of (fits, rest', out') \<Rightarrow> if \<not> fits then decode_loop n now resident rest' scheduled cow out'
           else bnd (append_room r) (\<lambda>pair.
             decode_loop n now resident rest' (scheduled @ [r]) (case pair of None \<Rightarrow> cow | Some p \<Rightarrow> cow @ [p]) out'))
          (turns_done A W b h)"
          unfolding x prod.case
            by (rule returns_fact[where F = "set rest' \<subseteq> A"], simp add: room_made_def, rule returns_weak[OF turn]) (simp_all add: room_made_def)
      qed
      then show ?thesis using Cons Suc.prems by (simp add: returns_ret turns_done_def)
    qed
  qed
qed

lemma remove_all_subset: "set (remove_all rs xs) \<subseteq> set xs"
  unfolding remove_all_def
proof (induction rs arbitrary: xs)
  case (Cons r rs)
  show ?case using Cons[of "remove1 r xs"] set_remove1_subset[of r xs] by auto
qed simp

lemma calm_decode_batch: "keeping (calm A W b h) (decode_batch now resident)"
proof -
  have swaps: "keeping (calm A W b h) (if resident then ret [] else bnd (gets sd_swapped) (\<lambda>swapped. swap_in_loop (length swapped) now []))"
    by (intro frames calm_swap_in)
  have final: "keeping (calm A W b h) (thn (upd (\<lambda>sd. sd\<lparr>sd_running := sd_running sd @ rest\<rparr>))
    (if scheduled = [] then (if resident then ret None else throw RuntimeError)
     else thn (upd (\<lambda>sd. sd\<lparr>sd_running := scheduled @ sd_running sd\<rparr>))
         (thn sd_observe_state
         (bnd (make_plan now DECODE_PHASE scheduled (replicate (length scheduled) 1) (kv_transfers_new cow [] swap_in out))
           (\<lambda>plan. ret (Some plan))))))" if "set rest \<subseteq> A" "set scheduled \<subseteq> A" for rest scheduled cow swap_in out
    by (intro calm_steps calm_upd) (use that in \<open>auto intro!: calm_queues dest: calm_mem\<close>)
  show ?thesis unfolding decode_batch_def
  proof (rule returns_bnd[OF swaps], rule returns_get, unfold id_apply Let_def)
    fix swap_in sd assume c: "calm A W b h sd"
    let ?cs = "filter (\<lambda>r. status_of sd r = DECODING) (sd_running sd)"
    have cs: "set ?cs \<subseteq> A" using calm_sets(1)[OF c] by auto
    show "keeping (calm A W b h) (thn (upd (\<lambda>sd. sd\<lparr>sd_running := remove_all ?cs (sd_running sd)\<rparr>))
        (bnd (decode_loop (length ?cs) now resident ?cs [] [] []) (\<lambda>(rest, scheduled, cow, out).
         thn (upd (\<lambda>sd. sd\<lparr>sd_running := sd_running sd @ rest\<rparr>))
        (if scheduled = [] then (if resident then ret None else throw RuntimeError)
         else thn (upd (\<lambda>sd. sd\<lparr>sd_running := scheduled @ sd_running sd\<rparr>))
             (thn sd_observe_state
             (bnd (make_plan now DECODE_PHASE scheduled (replicate (length scheduled) 1) (kv_transfers_new cow [] swap_in out))
               (\<lambda>plan. ret (Some plan))))))))"
    proof (rule returns_thn[OF calm_upd], rule calm_queues(1), assumption)
      show "set (remove_all ?cs (sd_running u)) \<subseteq> A" if "calm A W b h u" for u
        using remove_all_subset calm_sets(1)[OF that] by blast
    next
      show "keeping (calm A W b h) (bnd (decode_loop (length ?cs) now resident ?cs [] [] []) (\<lambda>(rest, scheduled, cow, out).
         thn (upd (\<lambda>sd. sd\<lparr>sd_running := sd_running sd @ rest\<rparr>))
        (if scheduled = [] then (if resident then ret None else throw RuntimeError)
         else thn (upd (\<lambda>sd. sd\<lparr>sd_running := scheduled @ sd_running sd\<rparr>))
             (thn sd_observe_state
             (bnd (make_plan now DECODE_PHASE scheduled (replicate (length scheduled) 1) (kv_transfers_new cow [] swap_in out))
               (\<lambda>plan. ret (Some plan)))))))"
      proof (rule returns_bnd[OF calm_decode_loop[OF cs]])
        fix x :: "nat list \<times> nat list \<times> (nat \<times> nat) list \<times> (nat \<times> nat) list"
        obtain rest scheduled cow out where x: "x = (rest, scheduled, cow, out)" by (cases x)
        show "returns (turns_done A W b h x)
          (case x of (rest, scheduled, cow, out) \<Rightarrow> thn (upd (\<lambda>sd. sd\<lparr>sd_running := sd_running sd @ rest\<rparr>))
            (if scheduled = [] then (if resident then ret None else throw RuntimeError)
             else thn (upd (\<lambda>sd. sd\<lparr>sd_running := scheduled @ sd_running sd\<rparr>))
                 (thn sd_observe_state
                 (bnd (make_plan now DECODE_PHASE scheduled (replicate (length scheduled) 1) (kv_transfers_new cow [] swap_in out))
                   (\<lambda>plan. ret (Some plan))))))
          (\<lambda>_. calm A W b h)"
          unfolding x prod.case
          by (rule returns_fact[where F = "set rest \<subseteq> A \<and> set scheduled \<subseteq> A"], simp add: turns_done_def, rule returns_weak[OF final])
            (simp_all add: turns_done_def)
      qed simp
    qed
  qed
qed

lemma calm_decode_plan: "keeping (calm A W b h) (decode_plan now resident)"
proof -
  have probe: "keeping (calm A W b h) (case (sd_swapped sd, sd_running sd) of
         ([], [r]) \<Rightarrow> if status_of sd r = DECODING then kv r bm_can_append else ret False
       | _ \<Rightarrow> ret False)" for sd
    by (auto intro!: frames calm.kv_keeps split: list.splits)
  show ?thesis unfolding decode_plan_def by (intro frames probe calm.single_keeps calm_decode_batch)
qed

lemma calm_count: "keeping (calm A W b h) count_decode_batch"
  unfolding count_decode_batch_def by (rule calm_upd) (simp add: calm_def)

lemma calm_schedule_decode: "keeping (calm A W b h) (schedule_decode now)"
  unfolding schedule_decode_def by (intro frames calm_decode_plan calm_count)

lemma calm_schedule_resident: "keeping (calm A W b h) (schedule_resident_decode now)"
  unfolding schedule_resident_decode_def by (intro frames calm_decode_plan calm_count)

section \<open>Results and withdrawals\<close>

lemmas quiet_steps = frames quiet.kv_keeps quiet.obj_keeps quiet.tally_keeps quiet.observe_keeps quiet.publish_keeps

lemma quiet_upd: "(\<And>sd. quiet A b h sd \<Longrightarrow> quiet A b h (f sd)) \<Longrightarrow> keeping (quiet A b h) (upd f)"
  by (simp add: returns_upd)

lemma quiet_remove: "keeping (quiet A b h) (remove_from_running r)"
proof -
  have "keeping (quiet A b h) (thn (chk ValueError c) (upd (\<lambda>sd. sd\<lparr>sd_running := remove1 r rs\<rparr>)))" if "set rs \<subseteq> A" for c rs
    using that set_remove1_subset[of r rs] by (intro quiet_steps quiet_upd) (auto simp: quiet_def)
  then show ?thesis unfolding remove_from_running_def by (auto intro!: returns_get simp: quiet_def)
qed

lemma quiet_postprocess: "keeping (quiet A b h) (postprocess xx now x tokens)"
proof -
  have finish: "keeping (quiet A b h) (finish_request now r reason)" for r reason
    unfolding finish_request_def by (intro quiet_steps quiet_remove) simp
  have one: "keeping (quiet A b h) (postprocess_one xx now plan k r token)" for plan k r token
    unfolding postprocess_one_def Let_def by (intro quiet_steps finish)
  have loop: "keeping (quiet A b h) (postprocess_loop xx now plan k rs)" for plan k rs
  proof (induction rs arbitrary: k)
    case (Cons r rs)
    obtain i t where r: "r = (i, t)" by (cases r)
    show ?case unfolding r postprocess_loop.simps by (intro quiet_steps one Cons)
  qed (simp add: frames)
  show ?thesis unfolding postprocess_def Let_def by (intro quiet_steps loop)
qed

lemma quiet_add: "keeping (quiet A b h) (sd_add xx now s raising)"
  unfolding sd_add_def Let_def by (intro quiet_steps quiet_upd) (simp_all add: quiet_def)

lemma quiet_cancel: "keeping (quiet A b h) (sd_cancel now request_id)"
proof -
  have queued: "keeping (quiet A b h) (cancel_queued now r unlink)" if "\<And>sd. quiet A b h sd \<Longrightarrow> quiet A b h (unlink sd)" for r unlink
    unfolding cancel_queued_def by (intro quiet_steps quiet_upd that) (simp_all add: quiet_def)
  show ?thesis unfolding sd_cancel_def
    by (intro frames queued) (use set_remove1_subset in \<open>fastforce simp: quiet_def\<close>)+
qed

section \<open>The admission loop\<close>

text \<open>The queues as they are, the bypasses counted so far, and a policy that does not reorder by deadlines.\<close>

definition poised :: "nat list \<Rightarrow> nat list \<Rightarrow> nat list \<Rightarrow> int \<Rightarrow> nat \<Rightarrow> scheduler \<Rightarrow> bool" where
  "poised W R S b h sd \<longleftrightarrow> sd_waiting sd = W \<and> sd_running sd = R \<and> sd_swapped sd = S \<and> b \<le> sd_bypasses_since_heavy sd \<and>
     sn_heavy_batches (sd_counters sd) = h \<and> \<not> is_slo (sd_policy sd)"

interpretation poised: scheduler_frame "poised W R S b h" for W R S b h
  by unfold_locales (simp_all add: poised_def)

lemmas poised_steps = frames poised.kv_keeps poised.obj_keeps poised.tally_keeps poised.observe_keeps poised.refresh_keeps
  poised.candidate_keeps poised.collect_keeps poised.plan_keeps

text \<open>A turn of the loop that takes the element at place \<open>i\<close> of the queue.\<close>

definition turned :: "nat list \<Rightarrow> nat list \<Rightarrow> nat list \<Rightarrow> int \<Rightarrow> nat \<Rightarrow> nat \<Rightarrow> prefill_builder option \<Rightarrow> scheduler \<Rightarrow> bool" where
  "turned W R S b h i x sd \<longleftrightarrow> (case x of
     None \<Rightarrow> poised W R S b h sd
   | Some b' \<Rightarrow> bb_sequences b' \<noteq> [] \<and>
       poised (take i W @ drop (Suc i) W) (R @ [W ! i]) S (b + (if 0 < i then 1 else 0)) h sd)"

lemma note_overtaking_counts:
  "returns (poised W R S b h) (note_overtaking i) (\<lambda>_. poised W R S (b + (if 0 < i then 1 else 0)) h)"
proof (cases "0 < i")
  case True
  show ?thesis unfolding note_overtaking_def if_P[OF True]
  proof (rule returns_get, unfold id_apply)
    fix sd assume "poised W R S b h sd"
    then have "\<not> is_slo (sd_policy sd)" by (simp add: poised_def)
    moreover have "returns (poised W R S b h) (thn (tally (\<lambda>c. c\<lparr>sn_light_bypasses := sn_light_bypasses c + 1\<rparr>))
        (upd (\<lambda>sd. sd\<lparr>sd_bypasses_since_heavy := sd_bypasses_since_heavy sd + 1\<rparr>))) (\<lambda>_. poised W R S (b + 1) h)"
      by (rule returns_thn[OF poised.tally_keeps]) (auto intro!: returns_upd simp: poised_def)
    ultimately show "returns (poised W R S b h) (if is_slo (sd_policy sd) then tally (\<lambda>c. c\<lparr>sn_deadline_reorders := sn_deadline_reorders c + 1\<rparr>)
       else thn (tally (\<lambda>c. c\<lparr>sn_light_bypasses := sn_light_bypasses c + 1\<rparr>))
            (upd (\<lambda>sd. sd\<lparr>sd_bypasses_since_heavy := sd_bypasses_since_heavy sd + 1\<rparr>))) (\<lambda>_. poised W R S (b + 1) h)"
      by simp
  qed
next
  case False
  then show ?thesis by (auto simp: note_overtaking_def intro!: returns_get returns_ret)
qed

lemma allocate_moves:
  "returns (poised W R S b h) (allocate_waiting_prefill xx now r i available bb) (\<lambda>_. poised (take i W @ drop (Suc i) W) (R @ [r]) S b h)"
proof -
  have fail: "returns P (thn p (throw e)) Q" for P Q and p :: "(unit, scheduler) op" and e
    by (simp add: returns_def wp_thn wp_eta(1)) (simp add: wp_def split: prod.splits sum.splits)
  have guard: "keeping P (catch p (\<lambda>e. thn q (throw e)))" if "keeping P p" for P and p q :: "(unit, scheduler) op"
  proof -
    have "wp (thn q (throw e)) (\<lambda>_. P) (\<lambda>_ _. True) s" for e s
      by (rule fail[of "\<lambda>_. True" q e "\<lambda>_. P", unfolded returns_def, rule_format]) (rule TrueI)
    then show ?thesis using that by (auto simp: returns_def wp_catch intro: wp_mono)
  qed
  have move: "returns (poised W R S b h) (thn (upd (\<lambda>sd. sd\<lparr>sd_waiting := take i (sd_waiting sd) @ drop (Suc i) (sd_waiting sd),
        sd_running := sd_running sd @ [r]\<rparr>)) (ret c)) (\<lambda>_. poised (take i W @ drop (Suc i) W) (R @ [r]) S b h)" for c :: prefill_candidate
    by (rule returns_thn[where R = "poised (take i W @ drop (Suc i) W) (R @ [r]) S b h"]) (auto intro!: returns_upd returns_ret simp: poised_def)
  show ?thesis unfolding allocate_waiting_prefill_def Let_def
    by (intro returns_bnd[OF poised.kv_keeps] returns_thn[OF poised.obj_keeps] returns_bnd[OF poised.candidate_keeps])
      (auto intro!: fail returns_thn[OF guard[OF poised.obj_keeps]] move split: option.split)
qed

lemma bb_add_filled: "bb_add c b = Inr b' \<Longrightarrow> bb_sequences b' \<noteq> []"
  by (auto simp: bb_add_def res_simps)

lemma admit_at_turns: "returns (poised W R S b h) (admit_at xx now bb i) (turned W R S b h i)"
proof -
  define c where "c = b + (if 0 < i then 1 else 0)"
  note count = note_overtaking_counts[of W R S b h i, folded c_def]
  have stay: "returns (poised W R S c h) (ret None) (turned W R S b h i)"
    by (rule returns_ret) (auto simp: turned_def poised_def c_def split: if_splits)
  show ?thesis unfolding admit_at_def Let_def
  proof (rule returns_get, unfold id_apply)
    fix sd assume "poised W R S b h sd"
    then have r: "sd_waiting sd ! i = W ! i" by (simp add: poised_def)
    have take: "returns (poised W R S c h) (bnd (allocate_waiting_prefill xx now (W ! i) i n bb) (\<lambda>allocated. bnd (lift_res (bb_add allocated bb)) (\<lambda>b'. ret (Some b'))))
        (turned W R S b h i)" for n
      by (rule returns_bnd[OF allocate_moves], rule returns_lift, rule returns_ret) (simp add: turned_def bb_add_filled flip: c_def)
    show "returns (poised W R S b h) (thn (note_overtaking i)
      (bnd (lift_res (defers (sd_policy sd) (sd_objs sd) bb (sd_objs sd ! (sd_waiting sd ! i)))) (\<lambda>deferred.
        if deferred then thn (tally (\<lambda>c. c\<lparr>sn_cost_deferrals := sn_cost_deferrals c + 1\<rparr>)) (ret None)
        else bnd (prefill_candidate_for (sd_waiting sd ! i) (bb_available_tokens bb)) (\<lambda>candidate. case candidate of
            None \<Rightarrow> ret None
          | Some c \<Rightarrow> bnd (kv (sd_waiting sd ! i) bm_can_allocate) (\<lambda>allocatable.
              if \<not> allocatable then ret None
              else if \<not> bb_accepts bb c then ret None
              else bnd (allocate_waiting_prefill xx now (sd_waiting sd ! i) i (bb_available_tokens bb) bb) (\<lambda>allocated.
                bnd (lift_res (bb_add allocated bb)) (\<lambda>b'. ret (Some b')))))))) (turned W R S b h i)"
      unfolding r
      by (rule returns_thn[OF count], rule returns_lift)
        (auto intro!: returns_thn[OF poised.tally_keeps] stay take returns_bnd[OF poised.candidate_keeps] returns_bnd[OF poised.kv_keeps] split: option.split)
  qed
qed

lemma admit_one_turns: "returns (poised W R S b h) (admit_one xx now tier has_decode bb) (\<lambda>x sd. \<exists>i. turned W R S b h i x sd)"
proof -
  have at: "returns (poised W R S b h) (admit_at xx now bb i) (\<lambda>x sd. \<exists>i. turned W R S b h i x sd)" for i
    by (rule returns_mono[OF admit_at_turns]) blast
  have stay: "returns (poised W R S b h) (ret None) (\<lambda>x sd. \<exists>i. turned W R S b h i x sd)" by (rule returns_ret) (simp add: turned_def)
  have wait: "returns (poised W R S b h) (thn (if c then tally (\<lambda>c. c\<lparr>sn_heavy_deferrals := sn_heavy_deferrals c + 1\<rparr>) else ret ()) (ret None))
      (\<lambda>x sd. \<exists>i. turned W R S b h i x sd)" for c
    by (rule returns_thn[OF _ stay], intro poised_steps) simp
  have choose: "returns (poised W R S b h) (case relative of
        None \<Rightarrow> thn (if c then tally (\<lambda>c. c\<lparr>sn_heavy_deferrals := sn_heavy_deferrals c + 1\<rparr>) else ret ()) (ret None)
      | Some rel \<Rightarrow> admit_at xx now bb (indices ! rel)) (\<lambda>x sd. \<exists>i. turned W R S b h i x sd)" for relative c indices
    by (cases relative) (simp_all only: option.case wait at)
  have rest: "returns (poised W R S b h) (if indices = [] then ret None
     else bnd (lift_res res) (\<lambda>relative. case relative of
        None \<Rightarrow> thn (if c then tally (\<lambda>c. c\<lparr>sn_heavy_deferrals := sn_heavy_deferrals c + 1\<rparr>) else ret ()) (ret None)
      | Some rel \<Rightarrow> admit_at xx now bb (indices ! rel))) (\<lambda>x sd. \<exists>i. turned W R S b h i x sd)" for indices res c
    by (cases "indices = []") (simp_all only: if_True if_False refl stay returns_lift choose)
  show ?thesis unfolding admit_one_def
    by (intro returns_get returns_thn[OF poised.refresh_keeps] returns_lift rest)
qed

lemma removed_filter:
  assumes "distinct W" and "V = filter p W"
  shows "\<exists>p'. take i V @ drop (Suc i) V = filter p' W"
proof (cases "i < length V")
  case True
  have split: "V = take i V @ V ! i # drop (Suc i) V" by (rule id_take_nth_drop[OF True])
  have "distinct V" using assms by simp
  then have d: "distinct (take i V @ V ! i # drop (Suc i) V)" using split by simp
  have "\<forall>x \<in> set (take i V @ drop (Suc i) V). x \<noteq> V ! i" using d by auto
  then have "filter (\<lambda>x. x \<noteq> V ! i) (take i V @ V ! i # drop (Suc i) V) = take i V @ drop (Suc i) V" by simp
  then have "take i V @ drop (Suc i) V = filter (\<lambda>x. x \<noteq> V ! i) V" using split by metis
  also have "filter (\<lambda>x. x \<noteq> V ! i) V = filter (\<lambda>x. p x \<and> x \<noteq> V ! i) W" unfolding assms(2) by (simp add: conj_commute)
  finally show ?thesis by metis
qed (use assms in auto)

text \<open>The loop: what is left of the queue \<open>W\<close>, and a counted bypass for everyone that passed; an empty batch has taken no one.\<close>

definition admitting :: "nat list \<Rightarrow> nat list \<Rightarrow> nat list \<Rightarrow> int \<Rightarrow> nat \<Rightarrow> prefill_builder \<Rightarrow> scheduler \<Rightarrow> bool" where
  "admitting W R S b h bb sd \<longleftrightarrow> (\<exists>p R'. poised (filter p W) R' S (b + int (length (passed W (filter p W)))) h sd) \<and>
     (bb_sequences bb = [] \<longrightarrow> poised W R S b h sd)"

lemma admit_loop_counts:
  assumes "distinct W"
  shows "returns (admitting W R S b h bb) (admit_loop n xx now tier has_decode bb) (admitting W R S b h)"
proof (induction n arbitrary: bb)
  case 0
  show ?case by (simp add: returns_ret)
next
  case (Suc n)
  have turn: "returns (admitting W R S b h bb) (admit_one xx now tier has_decode bb)
      (\<lambda>x sd. admitting W R S b h (case x of None \<Rightarrow> bb | Some b' \<Rightarrow> b') sd)"
    unfolding returns_def
  proof (intro allI impI)
    fix sd assume a: "admitting W R S b h bb sd"
    then obtain p R' where s: "poised (filter p W) R' S (b + int (length (passed W (filter p W)))) h sd" by (auto simp: admitting_def)
    let ?V = "filter p W"
    have none: "bb_sequences bb = [] \<Longrightarrow> ?V = W \<and> R' = R" using a s by (auto simp: admitting_def poised_def)
    have "passed W W = []" by (rule passed_none) simp
    then have undone: "bb_sequences bb = [] \<Longrightarrow> poised ?V R' S (b + int (length (passed W ?V))) h t \<Longrightarrow> poised W R S b h t" for t
      using none by simp
    have step: "admitting W R S b h (case x of None \<Rightarrow> bb | Some b' \<Rightarrow> b') t"
      if "turned ?V R' S (b + int (length (passed W ?V))) h i x t" for i x t
    proof (cases x)
      case None
      then show ?thesis using that undone by (auto simp: turned_def admitting_def)
    next
      case (Some b')
      let ?U = "take i ?V @ drop (Suc i) ?V"
      obtain q where q: "?U = filter q W" using removed_filter[OF assms refl] by blast
      have t: "poised ?U (R' @ [?V ! i]) S (b + int (length (passed W ?V)) + (if 0 < i then 1 else 0)) h t" "bb_sequences b' \<noteq> []"
        using that Some by (simp_all add: turned_def)
      moreover have "length (passed W ?U) \<le> length (passed W ?V) + (if 0 < i then 1 else 0)" by (rule passed_take[OF assms refl])
      ultimately have "poised ?U (R' @ [?V ! i]) S (b + int (length (passed W ?U))) h t" by (auto simp: poised_def split: if_splits)
      then show ?thesis using Some t(2) unfolding admitting_def q by auto
    qed
    show "wp (admit_one xx now tier has_decode bb) (\<lambda>x sd. admitting W R S b h (case x of None \<Rightarrow> bb | Some b' \<Rightarrow> b') sd) (\<lambda>_ _. True) sd"
      by (rule wp_mono[OF admit_one_turns[unfolded returns_def, rule_format, OF s]]) (use step in blast)+
  qed
  have next_turn: "returns (\<lambda>sd. admitting W R S b h (case x of None \<Rightarrow> bb | Some b' \<Rightarrow> b') sd)
      (case x of None \<Rightarrow> ret bb | Some b' \<Rightarrow> admit_loop n xx now tier has_decode b') (admitting W R S b h)" for x
    using Suc.IH by (cases x) (simp_all add: returns_ret)
  show ?case unfolding admit_loop.simps
    by (rule returns_get) (auto intro!: returns_bnd[OF turn] next_turn returns_ret)
qed

section \<open>Scheduling\<close>

definition admitted :: "nat list \<Rightarrow> int \<Rightarrow> nat \<Rightarrow> scheduler \<Rightarrow> bool" where
  "admitted W b h sd \<longleftrightarrow> b + int (length (passed W (sd_waiting sd))) \<le> sd_bypasses_since_heavy sd \<and> sn_heavy_batches (sd_counters sd) = h"

lemma prefill_plan_counts:
  assumes "distinct W"
  shows "returns (poised W R S b h) (prefill_plan xx now tier running)
    (\<lambda>x sd. case x of None \<Rightarrow> poised W R S b h sd | Some p \<Rightarrow> admitted W b h sd)"
proof -
  have start: "admitting W R S b h bb sd" if "poised W R S b h sd" for bb sd
    using that passed_none[of W W] by (auto simp: admitting_def intro!: exI[of _ "\<lambda>_. True"] exI[of _ R])
  have loop: "returns (poised W R S b h) (admit_waiting_prefills xx now tier bb) (admitting W R S b h)" for bb
    unfolding admit_waiting_prefills_def
    by (rule returns_get, rule returns_weak[OF admit_loop_counts[OF assms]]) (rule start)
  have left: "admitted W b h sd" if "admitting W R S b h bb sd" for bb sd
    using that by (auto simp: admitting_def admitted_def poised_def)
  have kept: "keeping (admitted W b h) (make_plan now ph refs counts tr)" for ph refs counts tr
    unfolding make_plan_def by (intro frames)
  have final: "returns (admitting W R S b h bb) (if bb_sequences bb = [] then ret None
       else bnd (make_plan now PREFILL_PHASE (bb_sequences bb) (bb_token_counts bb) (kv_transfers_new [] (bb_copy_prefix bb) [] []))
         (\<lambda>plan. ret (Some plan)))
      (\<lambda>x sd. case x of None \<Rightarrow> poised W R S b h sd | Some p \<Rightarrow> admitted W b h sd)" for bb
    by (auto intro!: returns_ret returns_bnd[OF returns_weak[OF kept]] dest: left simp: admitting_def)
  have collect: "keeping (poised W R S b h) (if running then collect_running_prefills rs bb else ret bb)" for rs bb
    by (intro poised_steps)
  show ?thesis unfolding prefill_plan_def Let_def
    by (rule returns_get, rule returns_bnd[OF collect], rule returns_bnd[OF loop], rule final)
qed

lemma settled_policy: "settled env sd \<Longrightarrow> settled env t \<Longrightarrow> sd_policy t = sd_policy sd"
  using stands_config[OF settled_queues, of env sd] stands_config[OF settled_queues, of env t] by (simp add: sd_config_def split: prod.splits) (metis prod.inject)

lemma settled_distinct: "settled env sd \<Longrightarrow> distinct (sd_waiting sd @ sd_running sd @ sd_swapped sd)"
  using stands_distinct[OF settled_queues] by blast

lemma settled_bypass: "settled env sd \<Longrightarrow> sd_bypasses_since_heavy sd \<le> bypass_bound (sd_policy sd)"
  using stands_bypass[OF settled_queues] by blast

lemma returnsD: "returns P p Q \<Longrightarrow> P s \<Longrightarrow> p s = (Inr x, t) \<Longrightarrow> Q x t"
  unfolding returns_def by (blast dest: wp_okD)

lemma returnsI: "(\<And>s x t. P s \<Longrightarrow> p s = (Inr x, t) \<Longrightarrow> Q x t) \<Longrightarrow> returns P p Q"
  by (simp add: returns_def wp_def split: prod.splits sum.splits)

text \<open>A call of the scheduler starts in a settled state; the bypasses it has counted at its end bound those it made.\<close>

definition ready :: "env \<Rightarrow> nat set \<Rightarrow> nat list \<Rightarrow> int \<Rightarrow> nat \<Rightarrow> scheduler \<Rightarrow> bool" where
  "ready env A W b h sd \<longleftrightarrow> calm A W b h sd \<and> settled env sd \<and> \<not> is_slo (sd_policy sd)"

definition overtook :: "env \<Rightarrow> nat list \<Rightarrow> int \<Rightarrow> nat \<Rightarrow> scheduler \<Rightarrow> bool" where
  "overtook env W b h sd \<longleftrightarrow> (\<exists>c. b + int (length (passed W (sd_waiting sd))) \<le> c \<and> c \<le> bypass_bound (sd_policy sd) \<and>
     (sn_heavy_batches (sd_counters sd) = h \<longrightarrow> c \<le> sd_bypasses_since_heavy sd)) \<and> (0 \<le> b \<longrightarrow> 0 \<le> sd_bypasses_since_heavy sd)"

lemma ready_prefill:
  assumes "xx = env_hash env"
  shows "returns (ready env A W b h) (prefill_plan xx now tier running)
    (\<lambda>x sd. promised env x sd \<and> (case x of None \<Rightarrow> ready env A W b h sd | Some p \<Rightarrow> admitted W b h sd))"
proof (rule returnsI)
  fix sd x t assume r: "ready env A W b h sd" and run: "prefill_plan xx now tier running sd = (Inr x, t)"
  then have c: "calm A W b h sd" and s: "settled env sd" and p: "\<not> is_slo (sd_policy sd)" by (simp_all add: ready_def)
  obtain ys where ys: "sd_waiting sd = ys @ W" "set ys \<subseteq> A" using c by (auto simp: calm_def)
  have "distinct (sd_waiting sd)" using settled_distinct[OF s] by simp
  then have d: "distinct (ys @ W)" unfolding ys(1) .
  have "poised (ys @ W) (sd_running sd) (sd_swapped sd) b h sd" using c p ys(1) by (simp add: poised_def calm_def)
  from returnsD[OF prefill_plan_counts[OF d] this run]
  have post: "case x of None \<Rightarrow> poised (ys @ W) (sd_running sd) (sd_swapped sd) b h t | Some p \<Rightarrow> admitted (ys @ W) b h t" .
  have prom: "promised env x t" by (rule wp_okD[OF wp_prefill_plan[OF s assms] run])
  show "promised env x t \<and> (case x of None \<Rightarrow> ready env A W b h t | Some p \<Rightarrow> admitted W b h t)"
  proof (cases x)
    case None
    then show ?thesis using prom post c ys promised_settled[OF prom] by (auto simp: ready_def calm_def poised_def)
  next
    case (Some q)
    then show ?thesis using prom post passed_front[OF d, of "sd_waiting t"] by (simp add: admitted_def)
  qed
qed

lemma record_counts: "returns (\<lambda>sd. promised env (Some p) sd \<and> admitted W b h sd) (record_prefill_plan p) (\<lambda>_. overtook env W b h)"
proof (rule returnsI)
  fix sd q t assume a: "promised env (Some p) sd \<and> admitted W b h sd" and run: "record_prefill_plan p sd = (Inr q, t)"
  have s: "settled env sd" using a promised_settled by blast
  let ?c = "sd_bypasses_since_heavy sd"
  have "returns (\<lambda>u. u = sd) (record_prefill_plan p) (\<lambda>_ t. sd_waiting t = sd_waiting sd \<and> sd_policy t = sd_policy sd \<and>
      (sn_heavy_batches (sd_counters t) = h \<longrightarrow> sd_bypasses_since_heavy t = ?c) \<and> sd_bypasses_since_heavy t \<in> {?c, 0})"
    using a by (auto simp: returns_def record_prefill_plan_def wp_simps tally_def sd_observe_state_def observe_peaks_def admitted_def split: sum.splits)
  from returnsD[OF this refl run]
  show "overtook env W b h t" using a settled_bypass[OF s] by (auto simp: overtook_def admitted_def intro!: exI[of _ ?c])
qed

lemma ready_overtook: "ready env A W b h sd \<Longrightarrow> overtook env W b h sd"
  using settled_bypass[of env sd] passed_none[of W "sd_waiting sd"] by (auto simp: ready_def overtook_def calm_def intro!: exI[of _ b])

lemma ready_keeps:
  assumes "keeping (calm A W b h) p" and "\<And>sd x t. settled env sd \<Longrightarrow> p sd = (Inr x, t) \<Longrightarrow> settled env t"
  shows "keeping (ready env A W b h) p"
proof (rule returnsI)
  fix sd x t assume r: "ready env A W b h sd" and run: "p sd = (Inr x, t)"
  then have "calm A W b h t" "settled env t" "settled env sd" using returnsD[OF assms(1) _ run] assms(2)[OF _ run] by (auto simp: ready_def)
  then show "ready env A W b h t" using settled_policy[of env sd t] r by (simp add: ready_def)
qed

lemma ready_decode: "keeping (ready env A W b h) (schedule_decode now)" "keeping (ready env A W b h) (schedule_resident_decode now)"
  using wp_okD[OF wp_schedule_decode] wp_okD[OF wp_schedule_resident] promised_settled
  by (blast intro: ready_keeps calm_schedule_decode calm_schedule_resident)+

lemma schedule_overtakes:
  assumes "xx = env_hash env"
  shows "returns (ready env A W b h) (schedule xx now) (\<lambda>_. overtook env W b h)"
    and "returns (ready env A W b h) (schedule_prefill xx now tier) (\<lambda>_. overtook env W b h)"
proof -
  have decode: "returns (ready env A W b h) (schedule_decode now) (\<lambda>_. overtook env W b h)"
    by (rule returns_mono[OF ready_decode(1)]) (rule ready_overtook)
  have plan: "returns (ready env A W b h) (bnd (prefill_plan xx now tier running) (\<lambda>plan. case plan of Some p \<Rightarrow> record_prefill_plan p | None \<Rightarrow> q))
      (\<lambda>_. overtook env W b h)" if "returns (ready env A W b h) q (\<lambda>_. overtook env W b h)" for tier running q
  proof (rule returns_bnd[OF ready_prefill[OF assms]])
    fix x
    show "returns (\<lambda>sd. promised env x sd \<and> (case x of None \<Rightarrow> ready env A W b h sd | Some p \<Rightarrow> admitted W b h sd))
        (case x of Some p \<Rightarrow> record_prefill_plan p | None \<Rightarrow> q) (\<lambda>_. overtook env W b h)"
      by (cases x) (auto intro: returns_weak[OF that] returns_weak[OF record_counts])
  qed
  have resident: "returns (ready env A W b h) (bnd (schedule_resident_decode now) (\<lambda>plan. case plan of Some p \<Rightarrow> ret p
       | None \<Rightarrow> bnd (prefill_plan xx now None True) (\<lambda>plan. case plan of Some p \<Rightarrow> record_prefill_plan p
         | None \<Rightarrow> schedule_decode now))) (\<lambda>_. overtook env W b h)"
  proof (rule returns_bnd[OF ready_decode(2)])
    fix x
    show "returns (ready env A W b h) (case x of Some p \<Rightarrow> ret p
       | None \<Rightarrow> bnd (prefill_plan xx now None True) (\<lambda>plan. case plan of Some p \<Rightarrow> record_prefill_plan p
         | None \<Rightarrow> schedule_decode now)) (\<lambda>_. overtook env W b h)"
      by (cases x) (simp_all add: plan[OF decode] returns_ret ready_overtook)
  qed
  have rest: "returns (ready env A W b h) (schedule_rest xx now running) (\<lambda>_. overtook env W b h)" for running
    unfolding schedule_rest_def using resident decode by simp
  show "returns (ready env A W b h) (schedule xx now) (\<lambda>_. overtook env W b h)"
    unfolding schedule_def Let_def by (rule returns_get) (simp add: plan[OF rest] rest)
  have stop: "returns (ready env A W b h) (throw RuntimeError) (\<lambda>_. overtook env W b h)" by (simp add: returns_def wp_throw)
  show "returns (ready env A W b h) (schedule_prefill xx now tier) (\<lambda>_. overtook env W b h)"
    unfolding schedule_prefill_def
    by (rule returns_get, rule returns_thn[OF keeping_basic(3)]) (use plan[OF stop] in \<open>simp only: option.case\<close>)
qed

section \<open>Runs\<close>

lemma overtook_step:
  assumes "settled env sd" and "settled env sd'" and "overtook env (sd_waiting sd) (sd_bypasses_since_heavy sd) (sn_heavy_batches (sd_counters sd)) sd'"
  shows "\<exists>c. sd_bypasses_since_heavy sd + int (length (overtakers sd sd')) \<le> c \<and> c \<le> bypass_bound (sd_policy sd) \<and>
    (sn_heavy_batches (sd_counters sd') = sn_heavy_batches (sd_counters sd) \<longrightarrow> c \<le> sd_bypasses_since_heavy sd') \<and>
    (0 \<le> sd_bypasses_since_heavy sd \<longrightarrow> 0 \<le> sd_bypasses_since_heavy sd')"
proof -
  have "set (sd_running sd') \<inter> set (sd_waiting sd') = {}" using settled_distinct[OF assms(2)] by auto
  from overtakers_passed[OF this, of sd] show ?thesis
    using assms(3) settled_policy[OF assms(1,2)] by (force simp: overtook_def)
qed

lemma quiet_step:
  assumes "settled env sd" and "quiet (set (sd_running sd) \<union> set (sd_swapped sd)) (sd_bypasses_since_heavy sd) (sn_heavy_batches (sd_counters sd)) sd'"
  shows "\<exists>c. sd_bypasses_since_heavy sd + int (length (overtakers sd sd')) \<le> c \<and> c \<le> bypass_bound (sd_policy sd) \<and>
    (sn_heavy_batches (sd_counters sd') = sn_heavy_batches (sd_counters sd) \<longrightarrow> c \<le> sd_bypasses_since_heavy sd') \<and>
    (0 \<le> sd_bypasses_since_heavy sd \<longrightarrow> 0 \<le> sd_bypasses_since_heavy sd')"
proof -
  have "set (sd_running sd') \<inter> set (sd_waiting sd) = {}" using settled_distinct[OF assms(1)] assms(2) by (auto simp: quiet_def)
  then show ?thesis using overtakers_none settled_bypass[OF assms(1)] assms(2) by (auto simp: quiet_def intro!: exI[of _ "sd_bypasses_since_heavy sd"])
qed

lemma silent_Inr: "silent p sd = (Inr (), sd') \<Longrightarrow> \<exists>x. p sd = (Inr x, sd')"
  by (auto simp: silent_def bnd_def ret_def split: prod.splits sum.splits)

text \<open>One step: the bypasses counted before and the overtakers of the step together stay within the bound.\<close>

lemma step_overtakes:
  assumes s: "settled (env_of xx cf) sd" and step: "sched_step xx sd l sd'" and l: "l \<noteq> Returns Reset" and p: "\<not> is_slo (sd_policy sd)"
  shows "\<exists>c. sd_bypasses_since_heavy sd + int (length (overtakers sd sd')) \<le> c \<and> c \<le> bypass_bound (sd_policy sd) \<and>
    (sn_heavy_batches (sd_counters sd') = sn_heavy_batches (sd_counters sd) \<longrightarrow> c \<le> sd_bypasses_since_heavy sd') \<and>
    (0 \<le> sd_bypasses_since_heavy sd \<longrightarrow> 0 \<le> sd_bypasses_since_heavy sd')"
proof -
  let ?env = "env_of xx cf" and ?A = "set (sd_running sd) \<union> set (sd_swapped sd)" and ?b = "sd_bypasses_since_heavy sd" and ?h = "sn_heavy_batches (sd_counters sd)"
  have s': "settled ?env sd'" by (rule sched_machine.step_inv[OF s step])
  have q: "quiet ?A ?b ?h sd" by (simp add: quiet_def)
  have r: "ready ?env ?A (sd_waiting sd) ?b ?h sd" using s p by (simp add: ready_def calm_def)
  have quiet: ?thesis if "keeping (quiet ?A ?b ?h) p" "p sd = (Inr x, sd')" for p :: "('b, scheduler) op" and x
    by (rule quiet_step[OF s returnsD[OF that(1) q that(2)]])
  have busy: ?thesis if "returns (ready ?env ?A (sd_waiting sd) ?b ?h) p (\<lambda>_. overtook ?env (sd_waiting sd) ?b ?h)" "p sd = (Inr x, sd')"
    for p :: "('b, scheduler) op" and x
    by (rule overtook_step[OF s s' returnsD[OF that(1) r that(2)]])
  have hash: "xx = env_hash ?env" by (simp add: env_of_def)
  have decode: "returns (ready ?env ?A (sd_waiting sd) ?b ?h) (schedule_decode now) (\<lambda>_. overtook ?env (sd_waiting sd) ?b ?h)"
    "returns (ready ?env ?A (sd_waiting sd) ?b ?h) (schedule_resident_decode now) (\<lambda>_. overtook ?env (sd_waiting sd) ?b ?h)" for now
    by (rule returns_mono[OF ready_decode(1)], rule ready_overtook, assumption)
      (rule returns_mono[OF ready_decode(2)], rule ready_overtook, assumption)
  from step show ?thesis
  proof cases
    case (step_returns c)
    note run = step_returns(3)
    show ?thesis
    proof (cases c)
      case (Add s now raising)
      then obtain x where "sd_add xx now s raising sd = (Inr x, sd')" using run by (auto dest: silent_Inr)
      then show ?thesis by (rule quiet[OF quiet_add])
    next
      case (Schedule now)
      then obtain x where "schedule xx now sd = (Inr x, sd')" using run by (auto dest: silent_Inr)
      then show ?thesis by (rule busy[OF schedule_overtakes(1)[OF hash]])
    next
      case (ScheduleDecode now)
      then obtain x where "schedule_decode now sd = (Inr x, sd')" using run by (auto dest: silent_Inr)
      then show ?thesis by (rule busy[OF decode(1)])
    next
      case (ScheduleResident now)
      then obtain x where "schedule_resident_decode now sd = (Inr x, sd')" using run by (auto dest: silent_Inr)
      then show ?thesis by (rule busy[OF decode(2)])
    next
      case (SchedulePrefill now tier)
      then obtain x where "schedule_prefill xx now tier sd = (Inr x, sd')" using run by (auto dest: silent_Inr)
      then show ?thesis by (rule busy[OF schedule_overtakes(2)[OF hash]])
    next
      case (Postprocess now x tokens)
      then obtain y where "postprocess xx now x tokens sd = (Inr y, sd')" using run by (auto dest: silent_Inr)
      then show ?thesis by (rule quiet[OF quiet_postprocess])
    next
      case (Cancel now i)
      then obtain x where "sd_cancel now i sd = (Inr x, sd')" using run by (auto dest: silent_Inr)
      then show ?thesis by (rule quiet[OF quiet_cancel])
    next
      case Reset
      then show ?thesis using step_returns(1) l by simp
    qed
  next
    case (step_executes r c)
    obtain y where y: "kv r (bm_exec xx c) sd = (y, sd')" using step_executes by (cases "kv r (bm_exec xx c) sd") auto
    have "quiet ?A ?b ?h sd'" using y q by (auto simp: kv_def zoom_def quiet_def split: prod.splits)
    then show ?thesis by (rule quiet_step[OF s])
  next
    case (step_advances r t)
    then have "quiet ?A ?b ?h sd'" by (simp add: quiet_def)
    then show ?thesis by (rule quiet_step[OF s])
  qed
qed

text \<open>Steps without a heavy batch and without a reset, and the number of overtakers along them.\<close>

inductive overtaking_run :: "hash_fun \<Rightarrow> scheduler \<Rightarrow> nat \<Rightarrow> scheduler \<Rightarrow> bool" for xx :: hash_fun and sd :: scheduler where
  overtaking_start: "overtaking_run xx sd 0 sd"
| overtaking_next: "overtaking_run xx sd k t \<Longrightarrow> sched_step xx t l u \<Longrightarrow> l \<noteq> Returns Reset \<Longrightarrow>
    sn_heavy_batches (sd_counters u) = sn_heavy_batches (sd_counters t) \<Longrightarrow> overtaking_run xx sd (k + length (overtakers t u)) u"

lemma overtaking_counted:
  assumes "overtaking_run xx sd k t" and "settled (env_of xx cf) sd" and "\<not> is_slo (sd_policy sd)" and "0 \<le> sd_bypasses_since_heavy sd"
  shows "settled (env_of xx cf) t \<and> int k \<le> sd_bypasses_since_heavy t \<and> \<not> is_slo (sd_policy t)"
  using assms(1)
proof induction
  case overtaking_start
  then show ?case using assms by simp
next
  case (overtaking_next k t l u)
  then have IH: "settled (env_of xx cf) t" "int k \<le> sd_bypasses_since_heavy t" "\<not> is_slo (sd_policy t)" by simp_all
  have u: "settled (env_of xx cf) u" by (rule sched_machine.step_inv[OF IH(1) overtaking_next.hyps(2)])
  show ?case using step_overtakes[OF IH(1) overtaking_next.hyps(2,3) IH(3)] overtaking_next.hyps(4) IH u settled_policy[OF IH(1) u] by auto
qed

text \<open>The counter never becomes negative.\<close>

lemma reset_zero: "sd_reset_metrics sd = (Inr x, t) \<Longrightarrow> sd_bypasses_since_heavy t = 0"
  by (auto simp: sd_reset_metrics_def bnd_def thn_def gets_def chk_def upd_def ret_def throw_def split: if_splits)

lemma reach_bypasses:
  assumes "reach (sched_start cf) (sched_step xx) sd" and "\<not> is_slo (sd_policy sd)"
  shows "0 \<le> sd_bypasses_since_heavy sd"
  using assms
proof (induction rule: reach.induct)
  case (reach_init sd)
  then show ?case by (auto simp: sched_start_def scheduler_new_def res_simps)
next
  case (reach_step sd l t)
  have s: "settled (env_of xx cf) sd" by (rule sched_machine.reach_inv[OF reach_step.hyps(1)])
  have p: "\<not> is_slo (sd_policy sd)" using settled_policy[OF s sched_machine.step_inv[OF s reach_step.hyps(2)]] reach_step.prems by simp
  show ?case
  proof (cases "l = Returns Reset")
    case True
    from reach_step.hyps(2)[unfolded True] obtain x where "sd_reset_metrics sd = (Inr x, t)"
      by cases (auto dest: silent_Inr)
    then show ?thesis using reset_zero by simp
  next
    case False
    then show ?thesis using step_overtakes[OF s reach_step.hyps(2) False p] reach_step.IH p by auto
  qed
qed

end
