(* ===== verification/Scheduler_Properties.thy ===== *)
theory Scheduler_Properties imports Scheduler_Overtaking begin

text \<open>
  The properties of the scheduler as a whole: its queues mirror the lifecycle of the requests, its plans stay
  inside their budgets, it drives the block manager only along the manager's own machine, waiting
  requests are overtaken only so often, and cancelling withdraws a request completely.
\<close>

section \<open>A run\<close>

definition example_scheduler_config :: scheduler_config where
  "example_scheduler_config = \<lparr>cf_max_num_seqs = 4, cf_max_num_batched_tokens = 16, cf_enable_chunked_prefill = False,
     cf_max_chunk_size = 8, cf_max_model_len = 32, cf_max_vision_patches = 64, cf_eos = 7, cf_num_kvcache_blocks = 4,
     cf_kvcache_block_size = 4, cf_num_cpu_blocks = 2, cf_enable_prefix_caching = True, cf_compression_mode = ''visual_compact'',
     cf_scheduler_policy = ''fcfs'', cf_heavy_threshold = 8, cf_heavy_interval = 2, cf_max_light_bypasses = 2,
     cf_max_queue_size = Some 8, cf_max_consecutive_prefill_batches = 1\<rparr>"

definition example_scheduler :: scheduler where
  "example_scheduler = (case scheduler_new example_scheduler_config None of Inr sd \<Rightarrow> sd)"

definition example_added :: scheduler where
  "example_added = snd (sd_add example_hash 1 example_seq False example_scheduler)"

definition example_scheduled :: scheduler where
  "example_scheduled = snd (schedule example_hash 2 example_added)"

definition example_first_token :: scheduler where
  "example_first_token = snd (postprocess example_hash 3 (Inr [0]) [Some 5] example_scheduled)"

lemma call_step:
  assumes "sched_ready sd c" and "is_ok (fst (sched_exec xx c sd))"
  shows "sched_step xx sd (Returns c) (snd (sched_exec xx c sd))"
proof -
  have "sched_exec xx c sd = (Inr (), snd (sched_exec xx c sd))" using assms(2) by (cases "sched_exec xx c sd") (auto simp: is_ok_iff)
  then show ?thesis using step_returns[OF assms(1)] by metis
qed

lemma reach_call:
  assumes "reach (sched_start cf) (sched_step xx) sd" and "sched_ready sd c" and "is_ok (fst (sched_exec xx c sd))"
  shows "reach (sched_start cf) (sched_step xx) (snd (sched_exec xx c sd))"
  by (rule reach_step[OF assms(1) call_step[OF assms(2,3)]])

lemma snd_silent [simp]: "snd (silent p sd) = snd (p sd)" "is_ok (fst (silent p sd)) = is_ok (fst (p sd))"
  by (auto simp: silent_def bnd_def ret_def is_ok_def split: prod.splits sum.splits)

lemma example_start: "sched_start example_scheduler_config example_scheduler"
proof -
  have "is_ok (scheduler_new example_scheduler_config None)" by code_simp
  then show ?thesis by (auto simp: sched_start_def example_scheduler_def is_ok_iff)
qed

lemma example_added_reach: "reach (sched_start example_scheduler_config) (sched_step example_hash) example_added"
proof -
  have "is_ok (fst (sd_add example_hash 1 example_seq False example_scheduler))" by code_simp
  moreover have "role_waiting example_seq" by code_simp
  ultimately show ?thesis
    using reach_call[OF reach_init[of "sched_start example_scheduler_config", OF example_start], of "Add example_seq 1 False" example_hash]
    by (simp add: example_added_def)
qed

lemma example_scheduled_run:
  "is_ok (fst (schedule example_hash 2 example_added))" "sd_running example_scheduled = [0]" "length (sd_objs example_scheduled) = 1"
  by code_simp+

lemma example_scheduled_reach: "reach (sched_start example_scheduler_config) (sched_step example_hash) example_scheduled"
  using reach_call[OF example_added_reach, of "Schedule 2"] example_scheduled_run(1) by (simp add: example_scheduled_def)

section \<open>Queues\<close>

text \<open>C2: in every reachable state each request that is not in a terminal state is in exactly one of the three queues,
  the one its lifecycle state names, and is found under its id; only running requests have GPU pages and only
  swapped ones CPU pages; and at most \<open>max_num_seqs\<close> requests run.\<close>

theorem scheduler_queues_consistent:
  assumes "reach (sched_start cf) (sched_step xx) sd"
  shows "distinct (sd_waiting sd @ sd_running sd @ sd_swapped sd) \<and> int (length (sd_running sd)) \<le> cf_max_num_seqs cf \<and>
    set (sd_waiting sd @ sd_running sd @ sd_swapped sd) \<subseteq> {..<length (sd_objs sd)} \<and>
    (\<forall>r < length (sd_objs sd). let s = sd_objs sd ! r in
       (r \<in> set (sd_waiting sd) \<longleftrightarrow> sq_status s = WAITING) \<and>
       (r \<in> set (sd_running sd) \<longleftrightarrow> sq_status s = PREFILLING \<or> sq_status s = DECODING) \<and>
       (r \<in> set (sd_swapped sd) \<longleftrightarrow> sq_status s = SWAPPED) \<and>
       (sq_block_table s \<noteq> [] \<longrightarrow> r \<in> set (sd_running sd)) \<and> (sq_cpu_block_table s \<noteq> [] \<longrightarrow> r \<in> set (sd_swapped sd)) \<and>
       (\<not> is_terminal (sq_status s) \<longrightarrow> sd_get_request (sq_seq_id s) sd = Some r))"
proof -
  have st: "stands (env_of xx cf) 0 (sd_waiting sd, sd_running sd, sd_swapped sd) [] sd"
    by (rule settled_queues[OF sched_machine.reach_inv[OF assms]])
  have Q: "queues_ok [] sd" using standsD(1)[OF st] by (simp add: sched_inv_def)
  have lim: "int (length (sd_running sd)) \<le> cf_max_num_seqs cf"
    using stands_seats[OF st] stands_config[OF st] by (simp add: sd_config_def env_of_def)
  have "let s = sd_objs sd ! r in
       (r \<in> set (sd_waiting sd) \<longleftrightarrow> sq_status s = WAITING) \<and>
       (r \<in> set (sd_running sd) \<longleftrightarrow> sq_status s = PREFILLING \<or> sq_status s = DECODING) \<and>
       (r \<in> set (sd_swapped sd) \<longleftrightarrow> sq_status s = SWAPPED) \<and>
       (sq_block_table s \<noteq> [] \<longrightarrow> r \<in> set (sd_running sd)) \<and> (sq_cpu_block_table s \<noteq> [] \<longrightarrow> r \<in> set (sd_swapped sd)) \<and>
       (\<not> is_terminal (sq_status s) \<longrightarrow> sd_get_request (sq_seq_id s) sd = Some r)" if r: "r < length (sd_objs sd)" for r
  proof -
    consider (w) "r \<in> set (sd_waiting sd)" | (n) "r \<in> set (sd_running sd)" | (s) "r \<in> set (sd_swapped sd)"
      | (gone) "r \<notin> set (sd_waiting sd @ sd_running sd @ sd_swapped sd)" by auto
    then show ?thesis
    proof cases
      case w
      then have "role_waiting (sd_objs sd ! r)" "r \<notin> set (sd_running sd)" "r \<notin> set (sd_swapped sd)"
        "sd_get_request (sq_seq_id (sd_objs sd ! r)) sd = Some r"
        using Q by (auto simp: queues_ok_def sd_get_request_def)
      then show ?thesis using w by (simp add: roles Let_def)
    next
      case n
      then have "role_running (sd_objs sd ! r)" "r \<notin> set (sd_waiting sd)" "r \<notin> set (sd_swapped sd)"
        "sd_get_request (sq_seq_id (sd_objs sd ! r)) sd = Some r"
        using Q by (auto simp: queues_ok_def sd_get_request_def)
      then show ?thesis using n by (auto simp: roles Let_def)
    next
      case s
      then have "role_swapped (sd_objs sd ! r)" "r \<notin> set (sd_waiting sd)" "r \<notin> set (sd_running sd)"
        "sd_get_request (sq_seq_id (sd_objs sd ! r)) sd = Some r"
        using Q by (auto simp: queues_ok_def sd_get_request_def)
      then show ?thesis using s by (simp add: roles Let_def)
    next
      case gone
      then have "role_gone (sd_objs sd ! r)" using Q r by (simp add: queues_ok_def)
      then show ?thesis using gone by (auto simp: roles Let_def is_terminal_def)
    qed
  qed
  then show ?thesis using stands_distinct[OF st] Q lim by (simp add: queues_ok_def)
qed

theorem scheduler_queues_consistent_witness:
  "0 \<in> set (sd_running example_scheduled) \<and> sq_status (sd_objs example_scheduled ! 0) \<noteq> WAITING \<and> length (sd_running example_scheduled) \<le> 4"
  using scheduler_queues_consistent[OF example_scheduled_reach] example_scheduled_run(2,3)
  by (auto simp: example_scheduler_config_def Let_def)

section \<open>Plans\<close>

text \<open>C3: a plan that the scheduler hands out names distinct running requests, at most \<open>max_num_seqs\<close> of them.  A prefill
  plan has requests in the prefill state, stays within the token budget and, unless a single request is served
  alone, within the vision patch budget; a decode plan has one token for each of its decoding requests.\<close>

theorem schedule_within_budgets:
  assumes "reach (sched_start cf) (sched_step xx) sd" and "schedule xx now sd = (Inr p, sd')"
  shows "bp_sequences p \<noteq> [] \<and> distinct (bp_sequences p) \<and> set (bp_sequences p) \<subseteq> set (sd_running sd') \<and>
    int (bp_batch_size p) \<le> cf_max_num_seqs cf \<and>
    (if bp_is_prefill p
     then (\<forall>r \<in> set (bp_sequences p). sq_status (sd_objs sd' ! r) = PREFILLING) \<and>
       bp_num_scheduled_tokens p \<le> cf_max_num_batched_tokens cf \<and>
       (\<exists>v. bp_num_scheduled_vision_patches (sd_objs sd') p = Inr v \<and> (bp_batch_size p = 1 \<or> int v \<le> cf_max_vision_patches cf))
     else (\<forall>r \<in> set (bp_sequences p). sq_status (sd_objs sd' ! r) = DECODING) \<and> bp_counts p = replicate (bp_batch_size p) 1)"
proof -
  have "promised (env_of xx cf) (Some p) sd'"
    by (rule wp_okD[OF wp_schedule assms(2)]) (simp_all add: sched_machine.reach_inv[OF assms(1)])
  then have s: "settled (env_of xx cf) sd'" and P: "plan_promise sd' p" by (simp_all add: promised_Some)
  have c: "sd_max_num_seqs sd' = cf_max_num_seqs cf" "sd_max_num_batched_tokens sd' = cf_max_num_batched_tokens cf"
    "sd_max_vision_patches sd' = cf_max_vision_patches cf"
    using stands_config[OF settled_queues[OF s]] by (simp_all add: sd_config_def env_of_def)
  have len: "length (bp_counts p) = length (bp_sequences p)" using P by (simp add: plan_promise_def plan_wf_def)
  show ?thesis
  proof (cases "bp_phase p")
    case PREFILL_PHASE
    then show ?thesis using P by (auto simp: plan_promise_def plan_wf_def c status_of_def bp_is_prefill_def bp_batch_size_def bp_num_scheduled_tokens_def)
  next
    case DECODE_PHASE
    then have "bp_counts p = replicate (length (bp_sequences p)) 1"
      using P len by (auto simp: plan_promise_def plan_wf_def intro!: replicate_eqI)
    then show ?thesis using P DECODE_PHASE by (auto simp: plan_promise_def plan_wf_def c status_of_def bp_is_prefill_def bp_batch_size_def)
  qed
qed

theorem schedule_within_budgets_witness:
  "\<exists>p sd'. schedule example_hash 2 example_added = (Inr p, sd') \<and> bp_batch_size p \<le> 4 \<and> distinct (bp_sequences p)"
proof -
  obtain p sd' where s: "schedule example_hash 2 example_added = (Inr p, sd')"
    using example_scheduled_run(1) by (cases "schedule example_hash 2 example_added") (auto simp: is_ok_iff)
  then show ?thesis using schedule_within_budgets[OF example_added_reach s] by (simp add: example_scheduler_config_def)
qed

section \<open>The block manager behind the scheduler\<close>

text \<open>C9: the scheduler drives the block manager only along the manager's own machine: in every reachable state, and
  after every further call, also one that raises, manager and requests are in a reachable state of that
  machine, so that every page reference is accounted for.\<close>

theorem scheduler_refines_manager:
  assumes "reach (sched_start cf) (sched_step xx) sd" and "sched_ready sd c"
  shows "reachable xx (cf_num_kvcache_blocks cf) (sd_manager sd, sd_objs sd) \<and>
    (case sched_exec xx c sd of (y, sd') \<Rightarrow> reachable xx (cf_num_kvcache_blocks cf) (sd_manager sd', sd_objs sd') \<and>
       (is_ok y \<longrightarrow> reach (sched_start cf) (sched_step xx) sd'))"
proof -
  have s: "settled (env_of xx cf) sd" by (rule sched_machine.reach_inv[OF assms(1)])
  have tr: "reachable xx (cf_num_kvcache_blocks cf) (sd_manager t, sd_objs t)" if "lost (env_of xx cf) e t" for t e
    using that by (simp add: lost_def env_of_def sys_of_def)
  obtain y sd' where y: "sched_exec xx c sd = (y, sd')" by (cases "sched_exec xx c sd")
  have "lost (env_of xx cf) e sd'" for e
    using wp_exec[OF s assms(2), of xx] y settled_lost by (auto simp: wp_def lost_def split: sum.splits)
  then show ?thesis using tr tr[OF settled_lost[OF s]] y reach_call[OF assms] by (auto simp: is_ok_def split: sum.splits)
qed

theorem scheduler_refines_manager_witness:
  "reachable example_hash 4 (sd_manager example_scheduled, sd_objs example_scheduled)"
  using scheduler_refines_manager[OF example_scheduled_reach, of Reset] by (simp add: example_scheduler_config_def)

section \<open>Overtaking\<close>

text \<open>A run in which a light request overtakes: a request with images is decoded while another with images waits and a
  text request arrives behind it.\<close>

definition vision_config :: scheduler_config where
  "vision_config = example_scheduler_config\<lparr>cf_scheduler_policy := ''vision_aware'', cf_heavy_threshold := 4,
     cf_num_kvcache_blocks := 8, cf_enable_prefix_caching := False\<rparr>"

definition light_seq :: sequence where
  "light_seq = (case sequence_new [5, 6, 7, 8] 4 (PInt 11) (example_args\<lparr>sa_pixel_values := None, sa_image_grid_thw := None,
     sa_image_token_id := None, sa_image_token_count := 0, sa_media_token_hashes := None\<rparr>) of Inr s \<Rightarrow> s)"

definition vision_start :: scheduler where
  "vision_start = (case scheduler_new vision_config None of Inr sd \<Rightarrow> sd)"

definition vision_calls :: "sched_call list" where
  "vision_calls = [Add example_seq 1 False, Schedule 2, Postprocess 3 (Inr [0]) [Some 5],
     Add (example_seq\<lparr>sq_seq_id := 12\<rparr>) 4 False, Add light_seq 5 False]"

definition vision_waiting :: scheduler where
  "vision_waiting = fold (\<lambda>c sd. snd (sched_exec example_hash c sd)) vision_calls vision_start"

definition vision_overtaken :: scheduler where
  "vision_overtaken = snd (sched_exec example_hash (SchedulePrefill 6 None) vision_waiting)"

lemma reach_calls:
  assumes "reach (sched_start cf) (sched_step xx) sd"
    and "\<forall>k < length cs. let t = fold (\<lambda>c sd. snd (sched_exec xx c sd)) (take k cs) sd in
      sched_ready t (cs ! k) \<and> is_ok (fst (sched_exec xx (cs ! k) t))"
  shows "reach (sched_start cf) (sched_step xx) (fold (\<lambda>c sd. snd (sched_exec xx c sd)) cs sd)"
  using assms
proof (induction cs arbitrary: sd)
  case (Cons c cs)
  have "sched_ready sd c \<and> is_ok (fst (sched_exec xx c sd))" using Cons.prems(2)[rule_format, of 0] by (simp add: Let_def)
  then have "reach (sched_start cf) (sched_step xx) (snd (sched_exec xx c sd))" using reach_step[OF Cons.prems(1)] call_step by blast
  moreover have "\<forall>k < length cs. let t = fold (\<lambda>c sd. snd (sched_exec xx c sd)) (take k cs) (snd (sched_exec xx c sd)) in
      sched_ready t (cs ! k) \<and> is_ok (fst (sched_exec xx (cs ! k) t))"
    using Cons.prems(2) by (auto simp: Let_def dest: spec[of _ "Suc k" for k])
  ultimately show ?case using Cons.IH by simp
qed simp

definition vision_ready :: "nat \<Rightarrow> bool" where
  "vision_ready k \<longleftrightarrow> (let t = fold (\<lambda>c sd. snd (sched_exec example_hash c sd)) (take k vision_calls) vision_start in
     sched_ready t (vision_calls ! k) \<and> is_ok (fst (sched_exec example_hash (vision_calls ! k) t)))"

lemma vision_ready_first: "vision_ready 0 \<and> vision_ready 1 \<and> vision_ready 2"
  by code_simp

lemma vision_ready_last: "vision_ready 3 \<and> vision_ready 4"
  by code_simp

lemma vision_waiting_reach: "reach (sched_start vision_config) (sched_step example_hash) vision_waiting"
  unfolding vision_waiting_def
proof (rule reach_calls)
  have "is_ok (scheduler_new vision_config None)" by code_simp
  then have "sched_start vision_config vision_start" by (auto simp: sched_start_def vision_start_def is_ok_iff)
  then show "reach (sched_start vision_config) (sched_step example_hash) vision_start" by (rule reach_init)
  have "vision_ready k" if "k < 5" for k
    using vision_ready_first vision_ready_last that by (cases "k < 3") (auto simp: less_Suc_eq numeral_eq_Suc)
  then show "\<forall>k < length vision_calls. let t = fold (\<lambda>c sd. snd (sched_exec example_hash c sd)) (take k vision_calls) vision_start in
      sched_ready t (vision_calls ! k) \<and> is_ok (fst (sched_exec example_hash (vision_calls ! k) t))"
    unfolding vision_ready_def by (simp add: vision_calls_def)
qed

lemma vision_overtakers: "overtakers vision_waiting vision_overtaken = [2]"
  by code_simp

lemma vision_light: "sn_heavy_batches (sd_counters vision_overtaken) = sn_heavy_batches (sd_counters vision_waiting)"
  by code_simp

lemma vision_prefilled: "is_ok (fst (sched_exec example_hash (SchedulePrefill 6 None) vision_waiting))"
  by code_simp

lemma vision_overtaking: "overtaking_run example_hash vision_waiting 1 vision_overtaken"
proof -
  have "sched_step example_hash vision_waiting (Returns (SchedulePrefill 6 None)) vision_overtaken"
    using call_step[OF _ vision_prefilled] by (simp add: vision_overtaken_def)
  then show ?thesis
    using overtaking_next[OF overtaking_start, of example_hash vision_waiting "Returns (SchedulePrefill 6 None)" vision_overtaken]
      vision_overtakers vision_light by simp
qed

text \<open>C25: a request overtakes when a step takes it from the waiting queue to the running ones while an older one stays in
  front of it.  Under the policies other than the deadline-driven one, along any run without a heavy prefill batch, counted from any
  reachable state up to and including the step that may record the next heavy batch, and without a reset of the metrics, at most
  \<open>max_light_prefill_bypasses_per_heavy\<close> requests overtake with the vision-aware policy, and none with first come, first served.\<close>

theorem overtaking_bounded:
  assumes "reach (sched_start cf) (sched_step xx) sd" and "cf_scheduler_policy cf \<noteq> ''slo_aware''"
    and "overtaking_run xx sd k t" and "sched_step xx t l u" and "l \<noteq> Returns Reset"
  shows "int (k + length (overtakers t u)) \<le> (if cf_scheduler_policy cf = ''vision_aware'' then max 0 (cf_max_light_bypasses cf) else 0)"
proof -
  have s: "settled (env_of xx cf) sd" by (rule sched_machine.reach_inv[OF assms(1)])
  have ok: "is_ok (configured_policy cf)"
    using assms(1) by (induction rule: reach.induct) (auto simp: sched_start_def scheduler_new_def res_simps is_ok_iff)
  then obtain p where p: "configured_policy cf = Inr p" by (auto simp: is_ok_iff)
  have sd: "sd_policy sd = p" using stands_config[OF settled_queues[OF s]] p by (simp add: sd_config_def env_of_def)
  have slo: "\<not> is_slo p" and bound: "bypass_bound p = (if cf_scheduler_policy cf = ''vision_aware'' then max 0 (cf_max_light_bypasses cf) else 0)"
    using p assms(2) by (auto simp: configured_policy_def is_slo_def res_simps Let_def fcfs_policy.defs split: if_splits)
  note t = overtaking_counted[OF assms(3) s slo[folded sd] reach_bypasses[OF assms(1) slo[folded sd]]]
  have "sd_policy t = p" using settled_policy[OF s] t sd by simp
  then show ?thesis using step_overtakes[OF _ assms(4,5), of cf] t bound by auto
qed

theorem overtaking_bounded_witness:
  "int (1 + length (overtakers vision_overtaken (snd (sched_exec example_hash (ScheduleDecode 7) vision_overtaken)))) \<le> 2"
proof -
  have "is_ok (fst (sched_exec example_hash (ScheduleDecode 7) vision_overtaken))" by code_simp
  then have "sched_step example_hash vision_overtaken (Returns (ScheduleDecode 7)) (snd (sched_exec example_hash (ScheduleDecode 7) vision_overtaken))"
    using call_step[of vision_overtaken "ScheduleDecode 7"] by simp
  from overtaking_bounded[OF vision_waiting_reach _ vision_overtaking this] show ?thesis
    by (simp add: vision_config_def example_scheduler_config_def)
qed

section \<open>Cancelling\<close>

text \<open>C26: \<open>cancel\<close> finds exactly the queued requests; the one it finds is in no queue afterwards, in the cancelled state
  and without pages on either device, and without a match nothing changes.\<close>

theorem cancel_withdraws:
  assumes "reach (sched_start cf) (sched_step xx) sd" and "sd_cancel now request_id sd = (Inr hit, sd')"
  shows "(hit \<longleftrightarrow> (\<exists>r \<in> set (sd_waiting sd @ sd_running sd @ sd_swapped sd). sq_seq_id (sd_objs sd ! r) = request_id)) \<and>
    (if hit
     then \<exists>r \<in> set (sd_waiting sd @ sd_running sd @ sd_swapped sd). sq_seq_id (sd_objs sd ! r) = request_id \<and>
       sq_status (sd_objs sd' ! r) = CANCELLED \<and> sq_block_table (sd_objs sd' ! r) = [] \<and> sq_cpu_block_table (sd_objs sd' ! r) = [] \<and>
       r \<notin> set (sd_waiting sd' @ sd_running sd' @ sd_swapped sd')
     else sd' = sd)"
  using wp_okD[OF wp_cancel[OF sched_machine.reach_inv[OF assms(1)]] assms(2)]
  by (auto simp: empty_with_def split: if_splits)

lemma example_cancel: "fst (sd_cancel 4 (sq_seq_id (sd_objs example_scheduled ! 0)) example_scheduled) = Inr True"
  by code_simp

theorem cancel_withdraws_witness:
  "sq_status (sd_objs (snd (sd_cancel 4 (sq_seq_id (sd_objs example_scheduled ! 0)) example_scheduled)) ! 0) = CANCELLED"
proof -
  let ?id = "sq_seq_id (sd_objs example_scheduled ! 0)"
  have q: "sd_waiting example_scheduled @ sd_running example_scheduled @ sd_swapped example_scheduled = [0]" by code_simp
  have "sd_cancel 4 ?id example_scheduled = (Inr True, snd (sd_cancel 4 ?id example_scheduled))"
    using example_cancel by (simp add: prod_eq_iff)
  from cancel_withdraws[OF example_scheduled_reach this] show ?thesis unfolding q by simp
qed

end
