(* ===== verification/KV_Memory.thy ===== *)
theory KV_Memory imports Compaction begin

text \<open>
  The key/value storage of \<open>prism_infer/engine/model_runner.py\<close> and the four ways in which a plan
  moves it: whole pages (copy on write), page prefixes (a shared compact tail), pages between the GPU and
  the host (swapping), and the rows of a compaction plan.  A row is everything the cache holds for
  one token slot, over both planes, all layers and heads; \<open>'r\<close> is its type, and the optional scale
  caches hold a second row per slot.  Slots are counted across pages, so that page \<open>b\<close> consists
  of the slots from \<open>b * block_size\<close> on.  Device streams and barriers are left out: copies happen in
  program order.
\<close>

section \<open>Storage\<close>

type_synonym 'r rows = "nat \<Rightarrow> 'r"

record 'r kv_memory =
  km_block_size :: nat
  km_dtype :: string
  km_uses_scales :: bool
  km_num_blocks :: nat
  km_num_cpu_blocks :: nat
  km_gpu :: "'r rows"
  km_scales :: "'r rows option"
  km_cpu :: "'r rows option"
  km_cpu_scales :: "'r rows option"

definition row_of :: "nat \<Rightarrow> 'r rows \<Rightarrow> nat list \<Rightarrow> nat \<Rightarrow> 'r" where
  "row_of bs rows tab p = rows (tab ! (p div bs) * bs + p mod bs)"

definition copy_rows_of :: "nat \<Rightarrow> nat \<Rightarrow> 'r rows \<Rightarrow> nat \<Rightarrow> nat \<Rightarrow> 'r rows \<Rightarrow> 'r rows" where
  "copy_rows_of bs n source src dst target =
     (\<lambda>i. if i div bs = dst \<and> i mod bs < n then source (src * bs + i mod bs) else target i)"

definition km_scale_cache :: "('r rows option, 'r kv_memory) op" where
  "km_scale_cache = bnd (gets id) (\<lambda>k.
     thn (chk RuntimeError (km_uses_scales k \<longleftrightarrow> km_scales k \<noteq> None)) (ret (km_scales k)))"

section \<open>Copies\<close>

definition copy_kv_block :: "nat \<times> nat \<Rightarrow> (unit, 'r kv_memory) op" where
  "copy_kv_block = (\<lambda>(src, dst). bnd (gets id) (\<lambda>k.
     thn (chk IndexError (dst < km_num_blocks k \<and> src < km_num_blocks k))
    (thn (upd (\<lambda>k. k\<lparr>km_gpu := copy_rows_of (km_block_size k) (km_block_size k) (km_gpu k) src dst (km_gpu k)\<rparr>))
         (upd (\<lambda>k. k\<lparr>km_scales := map_option (\<lambda>sc. copy_rows_of (km_block_size k) (km_block_size k) sc src dst sc) (km_scales k)\<rparr>)))))"

definition copy_kv_blocks :: "(nat \<times> nat) list \<Rightarrow> (unit, 'r kv_memory) op" where
  "copy_kv_blocks pairs = thn km_scale_cache (each pairs copy_kv_block)"

definition copy_kv_block_prefix :: "nat \<times> nat \<times> nat \<Rightarrow> (unit, 'r kv_memory) op" where
  "copy_kv_block_prefix = (\<lambda>(src, dst, n). bnd (gets id) (\<lambda>k.
     thn (chk ValueError (0 < n \<and> n \<le> km_block_size k))
    (thn (chk IndexError (dst < km_num_blocks k \<and> src < km_num_blocks k))
    (thn (upd (\<lambda>k. k\<lparr>km_gpu := copy_rows_of (km_block_size k) n (km_gpu k) src dst (km_gpu k)\<rparr>))
         (upd (\<lambda>k. k\<lparr>km_scales := map_option (\<lambda>sc. copy_rows_of (km_block_size k) n sc src dst sc) (km_scales k)\<rparr>))))))"

definition copy_kv_block_prefixes :: "(nat \<times> nat \<times> nat) list \<Rightarrow> (unit, 'r kv_memory) op" where
  "copy_kv_block_prefixes copies = thn km_scale_cache (each copies copy_kv_block_prefix)"

definition swap_block_out :: "nat \<times> nat \<Rightarrow> (unit, 'r kv_memory) op" where
  "swap_block_out = (\<lambda>(src, dst). bnd (gets id) (\<lambda>k.
     thn (chk IndexError (dst < km_num_cpu_blocks k \<and> src < km_num_blocks k))
    (thn (upd (\<lambda>k. k\<lparr>km_cpu := map_option (copy_rows_of (km_block_size k) (km_block_size k) (km_gpu k) src dst) (km_cpu k)\<rparr>))
         (upd (\<lambda>k. k\<lparr>km_cpu_scales := (case km_scales k of None \<Rightarrow> km_cpu_scales k
            | Some sc \<Rightarrow> map_option (copy_rows_of (km_block_size k) (km_block_size k) sc src dst) (km_cpu_scales k))\<rparr>)))))"

definition swap_block_in :: "nat \<times> nat \<Rightarrow> (unit, 'r kv_memory) op" where
  "swap_block_in = (\<lambda>(src, dst). bnd (gets id) (\<lambda>k.
     thn (chk IndexError (dst < km_num_blocks k \<and> src < km_num_cpu_blocks k))
    (thn (upd (\<lambda>k. k\<lparr>km_gpu := (case km_cpu k of None \<Rightarrow> km_gpu k
            | Some host \<Rightarrow> copy_rows_of (km_block_size k) (km_block_size k) host src dst (km_gpu k))\<rparr>))
         (upd (\<lambda>k. k\<lparr>km_scales := (case km_cpu_scales k of None \<Rightarrow> km_scales k
            | Some sc \<Rightarrow> map_option (copy_rows_of (km_block_size k) (km_block_size k) sc src dst) (km_scales k))\<rparr>)))))"

definition swap_blocks :: "(nat \<times> nat) list \<Rightarrow> string \<Rightarrow> (unit, 'r kv_memory) op" where
  "swap_blocks pairs direction = (if pairs = [] then ret () else
     thn (chk ValueError (direction = ''out'' \<or> direction = ''in''))
    (bnd (gets id) (\<lambda>k.
     thn (chk RuntimeError (km_cpu k \<noteq> None))
    (thn km_scale_cache
    (thn (chk RuntimeError (km_scales k = None \<longleftrightarrow> km_cpu_scales k = None))
         (each pairs (if direction = ''out'' then swap_block_out else swap_block_in)))))))"

section \<open>Compaction\<close>

fun index_copy :: "nat list \<Rightarrow> 'r list \<Rightarrow> 'r rows \<Rightarrow> 'r rows" where
  "index_copy (d # ds) (r # rs) rows = index_copy ds rs (rows(d := r))"
| "index_copy _ _ rows = rows"

definition compact_kv_slots :: "nat \<Rightarrow> nat list \<Rightarrow> nat list \<Rightarrow> 'r rows \<Rightarrow> py_error + 'r rows" where
  "compact_kv_slots num_slots source destination rows =
     need ValueError (source \<noteq> []) (need ValueError (length source = length destination)
    (need IndexError (list_all (\<lambda>i. i < num_slots) source)
    (need IndexError (list_all (\<lambda>i. i < num_slots) destination)
    (Inr (index_copy destination (map rows source) rows)))))"

fun check_plans :: "nat \<Rightarrow> string \<Rightarrow> nat list \<Rightarrow> kv_plan list \<Rightarrow> py_error + unit" where
  "check_plans bs dtype seen [] = Inr ()"
| "check_plans bs dtype seen (plan # plans) =
     bind_res (pl_validate bs plan) (\<lambda>_.
     need RuntimeError (pl_kv_dtype plan = dtype)
    (need RuntimeError (pl_seq_id plan \<notin> set seen)
    (check_plans bs dtype (pl_seq_id plan # seen) plans)))"

definition compact_plan :: "kv_plan \<Rightarrow> (unit, 'r kv_memory) op" where
  "compact_plan plan = bnd (gets id) (\<lambda>k. let n = km_num_blocks k * km_block_size k in
     bnd (lift_res (compact_kv_slots n (pl_source_slots plan) (pl_destination_slots plan) (km_gpu k))) (\<lambda>rows.
     thn (upd (\<lambda>k. k\<lparr>km_gpu := rows\<rparr>))
    (case km_scales k of None \<Rightarrow> ret ()
     | Some sc \<Rightarrow> bnd (lift_res (compact_kv_slots n (pl_source_slots plan) (pl_destination_slots plan) sc)) (\<lambda>sc'.
         upd (\<lambda>k. k\<lparr>km_scales := Some sc'\<rparr>)))))"

definition compact_kv_cache :: "kv_plan list \<Rightarrow> (unit, 'r kv_memory) op" where
  "compact_kv_cache plans = (if plans = [] then ret () else
     thn km_scale_cache (bnd (gets id) (\<lambda>k.
     thn (lift_res (check_plans (km_block_size k) (km_dtype k) [] plans)) (each plans compact_plan))))"

section \<open>Executing the transfers of a plan\<close>

definition run_transfers :: "(nat \<times> nat) list \<Rightarrow> (nat \<times> nat) list \<Rightarrow> (nat \<times> nat \<times> nat) list \<Rightarrow> (nat \<times> nat) list \<Rightarrow>
    (unit, 'r kv_memory) op" where
  "run_transfers swap_in swap_out copy_prefix copy_on_write =
     thn (if swap_in \<noteq> [] then swap_blocks swap_in ''in'' else ret ())
    (thn (if swap_out \<noteq> [] then swap_blocks swap_out ''out'' else ret ())
    (thn (if copy_prefix \<noteq> [] then copy_kv_block_prefixes copy_prefix else ret ())
         (if copy_on_write \<noteq> [] then copy_kv_blocks copy_on_write else ret ())))"

section \<open>Rows of a page table\<close>

definition slot_of :: "nat \<Rightarrow> nat list \<Rightarrow> nat \<Rightarrow> nat" where
  "slot_of bs tab p = tab ! (p div bs) * bs + p mod bs"

lemma row_of_slot: "row_of bs rows tab p = rows (slot_of bs tab p)"
  by (simp add: row_of_def slot_of_def)

lemma slot_div_mod [simp]: "0 < bs \<Longrightarrow> slot_of bs tab p div bs = tab ! (p div bs)" "0 < bs \<Longrightarrow> slot_of bs tab p mod bs = p mod bs"
  by (simp_all add: slot_of_def)

lemma slot_of_inj:
  assumes "0 < bs" and "distinct tab" and "p < length tab * bs" and "q < length tab * bs"
  shows "slot_of bs tab p = slot_of bs tab q \<longleftrightarrow> p = q"
proof
  assume e: "slot_of bs tab p = slot_of bs tab q"
  have "tab ! (p div bs) = tab ! (q div bs)" "p mod bs = q mod bs"
    using arg_cong[OF e, of "\<lambda>x. x div bs"] arg_cong[OF e, of "\<lambda>x. x mod bs"] assms(1) by simp_all
  moreover have "p div bs < length tab" "q div bs < length tab" using assms by (simp_all add: less_mult_imp_div_less)
  ultimately have "p div bs = q div bs" using assms(2) by (simp add: nth_eq_iff_index_eq)
  with \<open>p mod bs = q mod bs\<close> show "p = q" by (metis mod_div_mult_eq)
qed simp

lemma slot_page_in: "p < length tab * bs \<Longrightarrow> tab ! (p div bs) \<in> set tab"
  by (simp add: less_mult_imp_div_less)

lemma slot_of_bound:
  assumes "0 < bs" and "p < length tab * bs" and "\<forall>b \<in> set tab. b < n"
  shows "slot_of bs tab p < n * bs"
proof -
  have "Suc (tab ! (p div bs)) \<le> n" using slot_page_in[OF assms(2)] assms(3) by (simp add: Suc_le_eq)
  then have "Suc (tab ! (p div bs)) * bs \<le> n * bs" by (rule mult_le_mono1)
  moreover have "p mod bs < bs" using assms(1) by simp
  ultimately show ?thesis unfolding slot_of_def mult_Suc by linarith
qed

lemma index_copy_other: "i \<notin> set ds \<Longrightarrow> index_copy ds rs rows i = rows i"
  by (induction ds rs rows rule: index_copy.induct) auto

lemma index_copy_nth:
  "distinct ds \<Longrightarrow> length rs = length ds \<Longrightarrow> j < length ds \<Longrightarrow> index_copy ds rs rows (ds ! j) = rs ! j"
proof (induction ds arbitrary: rs rows j)
  case (Cons d ds)
  obtain r rs' where rs: "rs = r # rs'" using Cons.prems(2) by (cases rs) auto
  show ?case using Cons rs by (cases j) (auto simp: index_copy_other)
qed simp

lemma copy_rows_of_at:
  "copy_rows_of bs n source src dst target i = (if i div bs = dst \<and> i mod bs < n then source (src * bs + i mod bs) else target i)"
  by (simp add: copy_rows_of_def)

lemma row_of_copied:
  "0 < bs \<Longrightarrow> row_of bs (copy_rows_of bs n source src dst target) tab p =
    (if tab ! (p div bs) = dst \<and> p mod bs < n then source (src * bs + p mod bs) else row_of bs target tab p)"
  by (simp add: row_of_slot copy_rows_of_at)

section \<open>The shape of the storage\<close>

text \<open>Payload and scale caches agree with the configuration; only row contents change.\<close>

definition memory_ok :: "'r kv_memory \<Rightarrow> bool" where
  "memory_ok k \<longleftrightarrow> 0 < km_block_size k \<and> (km_uses_scales k \<longleftrightarrow> km_scales k \<noteq> None)"

definition same_storage :: "'r kv_memory \<Rightarrow> 'r kv_memory \<Rightarrow> bool" where
  "same_storage k t \<longleftrightarrow> km_block_size t = km_block_size k \<and> km_dtype t = km_dtype k \<and> km_num_blocks t = km_num_blocks k \<and>
     km_num_cpu_blocks t = km_num_cpu_blocks k \<and> km_uses_scales t = km_uses_scales k \<and>
     (km_scales t = None) = (km_scales k = None) \<and> (km_cpu t = None) = (km_cpu k = None) \<and>
     (km_cpu_scales t = None) = (km_cpu_scales k = None)"

lemma same_storage_refl [simp]: "same_storage k k"
  and same_storage_trans: "same_storage k t \<Longrightarrow> same_storage t u \<Longrightarrow> same_storage k u"
  by (simp_all add: same_storage_def)

lemma memory_ok_same: "same_storage k t \<Longrightarrow> memory_ok t = memory_ok k"
  by (simp add: memory_ok_def same_storage_def)

lemma wp_scale_cache: "memory_ok k \<Longrightarrow> wp km_scale_cache Q E k = Q (km_scales k) k"
  by (simp add: km_scale_cache_def wp_simps memory_ok_def)

section \<open>Moving the rows of compaction plans\<close>

definition plan_fits :: "'r kv_memory \<Rightarrow> kv_plan \<Rightarrow> bool" where
  "plan_fits k plan \<longleftrightarrow> pl_source_slots plan \<noteq> [] \<and> length (pl_source_slots plan) = length (pl_destination_slots plan) \<and>
     distinct (pl_destination_slots plan) \<and>
     (\<forall>i \<in> set (pl_source_slots plan) \<union> set (pl_destination_slots plan).
        i < km_num_blocks k * km_block_size k \<and> i div km_block_size k \<in> set (pl_old_block_table plan))"

lemma plan_fits_same: "same_storage k t \<Longrightarrow> plan_fits t plan = plan_fits k plan"
  by (simp add: plan_fits_def same_storage_def)

lemma compact_kv_slots_ok:
  assumes "plan_fits k plan"
  shows "compact_kv_slots (km_num_blocks k * km_block_size k) (pl_source_slots plan) (pl_destination_slots plan) rows =
    Inr (index_copy (pl_destination_slots plan) (map rows (pl_source_slots plan)) rows)"
  using assms by (auto simp: compact_kv_slots_def plan_fits_def need_def list_all_iff)

text \<open>What one plan and a batch of plans do to the payload and to the scales.\<close>

definition plan_moved :: "nat \<Rightarrow> kv_plan list \<Rightarrow> 'r rows \<Rightarrow> 'r rows \<Rightarrow> bool" where
  "plan_moved bs plans old new \<longleftrightarrow>
     (\<forall>plan \<in> set plans. \<forall>j < length (pl_destination_slots plan). new (pl_destination_slots plan ! j) = old (pl_source_slots plan ! j)) \<and>
     (\<forall>i. (\<forall>plan \<in> set plans. i div bs \<notin> set (pl_old_block_table plan)) \<longrightarrow> new i = old i)"

definition scales_moved :: "nat \<Rightarrow> kv_plan list \<Rightarrow> 'r rows option \<Rightarrow> 'r rows option \<Rightarrow> bool" where
  "scales_moved bs plans old new \<longleftrightarrow> (case (old, new) of (Some o', Some n') \<Rightarrow> plan_moved bs plans o' n' | (None, None) \<Rightarrow> True | _ \<Rightarrow> False)"

lemma plan_moved_one:
  assumes "plan_fits k plan"
  shows "plan_moved (km_block_size k) [plan] rows (index_copy (pl_destination_slots plan) (map rows (pl_source_slots plan)) rows)"
  using assms by (auto simp: plan_moved_def plan_fits_def index_copy_nth intro!: index_copy_other)

lemma wp_compact_plan:
  assumes "plan_fits k plan"
    and "\<And>t. same_storage k t \<Longrightarrow> km_cpu t = km_cpu k \<Longrightarrow> plan_moved (km_block_size k) [plan] (km_gpu k) (km_gpu t) \<Longrightarrow>
      scales_moved (km_block_size k) [plan] (km_scales k) (km_scales t) \<Longrightarrow> Q () t"
  shows "wp (compact_plan plan) Q E k"
proof -
  note M = plan_moved_one[OF assms(1)]
  let ?copy = "\<lambda>rows. index_copy (pl_destination_slots plan) (map rows (pl_source_slots plan)) rows"
  have "Q () (k\<lparr>km_gpu := ?copy (km_gpu k), km_scales := map_option ?copy (km_scales k)\<rparr>)"
    by (rule assms(2)) (use M in \<open>auto simp: same_storage_def scales_moved_def split: option.splits\<close>)
  moreover have "Q () (k\<lparr>km_gpu := ?copy (km_gpu k)\<rparr>)" if "km_scales k = None"
    by (rule assms(2)) (use M that in \<open>auto simp: same_storage_def scales_moved_def\<close>)
  ultimately show ?thesis
    by (cases "km_scales k") (simp_all add: compact_plan_def Let_def wp_simps compact_kv_slots_ok[OF assms(1)])
qed

text \<open>Plans of disjoint page tables do not disturb each other.\<close>

lemma plan_moved_Cons:
  assumes 1: "plan_moved bs [plan] old mid" and 2: "plan_moved bs plans mid new"
    and fits: "\<forall>p \<in> set (plan # plans). \<forall>i \<in> set (pl_source_slots p) \<union> set (pl_destination_slots p). i div bs \<in> set (pl_old_block_table p)"
    and len: "\<forall>p \<in> set (plan # plans). length (pl_source_slots p) = length (pl_destination_slots p)"
    and dis: "\<forall>p \<in> set plans. set (pl_old_block_table p) \<inter> set (pl_old_block_table plan) = {}"
  shows "plan_moved bs (plan # plans) old new"
proof -
  have keep: "new i = mid i" if "i div bs \<in> set (pl_old_block_table plan)" for i
    using 2 dis that unfolding plan_moved_def by blast
  have "new (pl_destination_slots plan ! j) = old (pl_source_slots plan ! j)" if "j < length (pl_destination_slots plan)" for j
    using 1 fits that keep[of "pl_destination_slots plan ! j"] by (auto simp: plan_moved_def)
  moreover have "new (pl_destination_slots p ! j) = old (pl_source_slots p ! j)"
    if p: "p \<in> set plans" and j: "j < length (pl_destination_slots p)" for p j
  proof -
    have "pl_source_slots p ! j \<in> set (pl_source_slots p)" using p j len by auto
    then have "pl_source_slots p ! j div bs \<in> set (pl_old_block_table p)" using p fits by auto
    then have "pl_source_slots p ! j div bs \<notin> set (pl_old_block_table plan)" using dis p by blast
    then have "mid (pl_source_slots p ! j) = old (pl_source_slots p ! j)" using 1 by (simp add: plan_moved_def)
    then show ?thesis using 2 p j by (simp add: plan_moved_def)
  qed
  moreover have "new i = old i" if "\<forall>p \<in> set (plan # plans). i div bs \<notin> set (pl_old_block_table p)" for i
    using 1 2 that by (simp add: plan_moved_def)
  ultimately show ?thesis by (auto simp: plan_moved_def)
qed

fun tables_disjoint :: "kv_plan list \<Rightarrow> bool" where
  "tables_disjoint [] \<longleftrightarrow> True"
| "tables_disjoint (plan # plans) \<longleftrightarrow>
     (\<forall>p \<in> set plans. set (pl_old_block_table p) \<inter> set (pl_old_block_table plan) = {}) \<and> tables_disjoint plans"

lemma wp_compact_plans:
  "\<forall>p \<in> set plans. plan_fits k p \<Longrightarrow> tables_disjoint plans \<Longrightarrow>
   (\<And>t. same_storage k t \<Longrightarrow> km_cpu t = km_cpu k \<Longrightarrow> plan_moved (km_block_size k) plans (km_gpu k) (km_gpu t) \<Longrightarrow>
      scales_moved (km_block_size k) plans (km_scales k) (km_scales t) \<Longrightarrow> Q () t) \<Longrightarrow>
   wp (each plans compact_plan) Q E k"
proof (induction plans arbitrary: k Q)
  case Nil
  have "Q () k" by (rule Nil.prems(3)) (auto simp: plan_moved_def scales_moved_def split: option.splits)
  then show ?case by (simp add: wp_ret)
next
  case (Cons plan plans)
  have fits: "\<forall>p \<in> set (plan # plans). \<forall>i \<in> set (pl_source_slots p) \<union> set (pl_destination_slots p).
      i div km_block_size k \<in> set (pl_old_block_table p)"
    and len: "\<forall>p \<in> set (plan # plans). length (pl_source_slots p) = length (pl_destination_slots p)"
    and dis: "\<forall>p \<in> set plans. set (pl_old_block_table p) \<inter> set (pl_old_block_table plan) = {}"
    using Cons.prems(1,2) by (auto simp: plan_fits_def)
  have pf: "plan_fits k plan" using Cons.prems(1) by simp
  show ?case unfolding wp_each_Cons
  proof (rule wp_compact_plan[OF pf])
    fix t assume t: "same_storage k t" "km_cpu t = km_cpu k" "plan_moved (km_block_size k) [plan] (km_gpu k) (km_gpu t)"
      "scales_moved (km_block_size k) [plan] (km_scales k) (km_scales t)"
    have bs: "km_block_size t = km_block_size k" using t(1) by (simp add: same_storage_def)
    show "wp (each plans compact_plan) Q E t"
    proof (rule Cons.IH)
      show "\<forall>p \<in> set plans. plan_fits t p" "tables_disjoint plans" using Cons.prems(1,2) t(1) by (simp_all add: plan_fits_same)
      fix u assume u: "same_storage t u" "km_cpu u = km_cpu t" "plan_moved (km_block_size t) plans (km_gpu t) (km_gpu u)"
        "scales_moved (km_block_size t) plans (km_scales t) (km_scales u)"
      show "Q () u"
      proof (rule Cons.prems(3))
        show "same_storage k u" "km_cpu u = km_cpu k" using same_storage_trans t(1,2) u(1,2) by auto
        show "plan_moved (km_block_size k) (plan # plans) (km_gpu k) (km_gpu u)"
          by (rule plan_moved_Cons[OF t(3) u(3)[unfolded bs] fits len dis])
        show "scales_moved (km_block_size k) (plan # plans) (km_scales k) (km_scales u)"
          using t(4) u(4)[unfolded bs] plan_moved_Cons[OF _ _ fits len dis] unfolding scales_moved_def
          by (auto split: option.splits)
      qed
    qed
  qed
qed

lemma check_plans_ok:
  "\<forall>p \<in> set plans. pl_validate bs p = Inr () \<and> pl_kv_dtype p = dtype \<Longrightarrow> distinct (map pl_seq_id plans) \<Longrightarrow>
   set (map pl_seq_id plans) \<inter> set seen = {} \<Longrightarrow> check_plans bs dtype seen plans = Inr ()"
  by (induction plans arbitrary: seen) auto

text \<open>The plan of a pruned sequence fits the storage of its manager.\<close>

lemma planned_slots:
  assumes p: "planned bs s kv_dtype plan" and bs: "0 < bs"
    and c: "1 \<le> compacted_len s" "compacted_len s \<le> sq_num_prompt_tokens s"
    and tab: "distinct (sq_block_table s)" "length (sq_block_table s) = ceil_div (sq_num_prompt_tokens s) bs"
  shows "pl_source_slots plan = map (\<lambda>p. slot_of bs (sq_block_table s) (nat p)) (pl_retained_original_positions plan)"
    and "pl_destination_slots plan = map (slot_of bs (sq_block_table s)) [0..<pl_physical_prompt_len plan]"
    and "length (pl_retained_original_positions plan) = pl_physical_prompt_len plan"
    and "\<forall>p \<in> set (pl_retained_original_positions plan). 0 \<le> p \<and> p < int (compacted_len s)"
    and "pl_physical_prompt_len plan \<le> compacted_len s"
    and "sq_num_prompt_tokens s \<le> length (sq_block_table s) * bs"
proof -
  obtain kept where kept: "pl_retained_original_positions plan = map int (filter (\<lambda>p. p < compacted_len s) kept)"
    "pl_source_slots plan = map (\<lambda>p. sq_block_table s ! (p div bs) * bs + p mod bs) (filter (\<lambda>p. p < compacted_len s) kept)"
    "pl_destination_slots plan = map (\<lambda>p. sq_block_table s ! (p div bs) * bs + p mod bs) [0..<pl_physical_prompt_len plan]"
    and V: "pl_validate bs plan = Inr ()"
    and K: "build_retained_context_indices (Some (pl_compression_record plan)) (int (sq_num_prompt_tokens s)) = Inr kept"
    using p by (auto simp: planned_def)
  show "pl_source_slots plan = map (\<lambda>p. slot_of bs (sq_block_table s) (nat p)) (pl_retained_original_positions plan)"
    "pl_destination_slots plan = map (slot_of bs (sq_block_table s)) [0..<pl_physical_prompt_len plan]"
    by (simp_all add: kept slot_of_def)
  show len: "length (pl_retained_original_positions plan) = pl_physical_prompt_len plan"
    using V by (auto simp: pl_validate_def pl_validate_lengths_def res_simps)
  show "\<forall>p \<in> set (pl_retained_original_positions plan). 0 \<le> p \<and> p < int (compacted_len s)" by (auto simp: kept)
  show "pl_physical_prompt_len plan \<le> compacted_len s"
    using length_retained[OF sorted_wrt_filter[OF retained_sorted(1)[OF K], of "\<lambda>p. p < compacted_len s"]] len kept(1) by simp
  show "sq_num_prompt_tokens s \<le> length (sq_block_table s) * bs" using ceil_div_bounds(1)[OF bs] tab(2) by simp
qed

lemma planned_fits:
  assumes p: "planned (km_block_size k) s kv_dtype plan" and bs: "0 < km_block_size k"
    and c: "1 \<le> compacted_len s" "compacted_len s \<le> sq_num_prompt_tokens s"
    and tab: "distinct (sq_block_table s)" "length (sq_block_table s) = ceil_div (sq_num_prompt_tokens s) (km_block_size k)"
    and n: "\<forall>b \<in> set (sq_block_table s). b < km_num_blocks k" and ne: "pl_physical_prompt_len plan \<noteq> 0"
  shows "plan_fits k plan"
proof -
  note S = planned_slots[OF p bs c tab]
  have old: "pl_old_block_table plan = sq_block_table s" using p by (simp add: planned_def)
  have pos: "q < length (sq_block_table s) * km_block_size k" if "q < compacted_len s" for q
    using that c(2) S(6) by linarith
  have "distinct (pl_destination_slots plan)"
    using slot_of_inj[OF bs tab(1)] S(5) pos by (auto simp: S(2) distinct_map inj_on_def)
  moreover have "slot_of (km_block_size k) (sq_block_table s) q < km_num_blocks k * km_block_size k \<and>
      slot_of (km_block_size k) (sq_block_table s) q div km_block_size k \<in> set (sq_block_table s)" if "q < compacted_len s" for q
    using slot_of_bound[OF bs pos[OF that] n] slot_page_in[OF pos[OF that]] bs by simp
  moreover have "nat x < compacted_len s" if "x \<in> set (pl_retained_original_positions plan)" for x
    using S(4) that by (auto simp: nat_less_iff)
  ultimately show ?thesis using S(3,5) ne by (auto simp: plan_fits_def S(1,2) old)
qed

section \<open>Swapping pages\<close>

definition pages_copied :: "nat \<Rightarrow> (nat \<times> nat) list \<Rightarrow> 'r rows \<Rightarrow> 'r rows \<Rightarrow> 'r rows \<Rightarrow> bool" where
  "pages_copied bs pairs source old new \<longleftrightarrow>
     (\<forall>(src, dst) \<in> set pairs. \<forall>r < bs. new (dst * bs + r) = source (src * bs + r)) \<and>
     (\<forall>i. i div bs \<notin> snd ` set pairs \<longrightarrow> new i = old i)"

lemma pages_copied_Cons:
  assumes "0 < bs" and "pages_copied bs pairs source (copy_rows_of bs bs source src dst old) new" and "dst \<notin> snd ` set pairs"
  shows "pages_copied bs ((src, dst) # pairs) source old new"
  using assms by (fastforce simp: pages_copied_def copy_rows_of_at)

definition pairs_fit :: "nat \<Rightarrow> nat \<Rightarrow> (nat \<times> nat) list \<Rightarrow> bool" where
  "pairs_fit nsrc ndst pairs \<longleftrightarrow> distinct (map snd pairs) \<and> (\<forall>(src, dst) \<in> set pairs. src < nsrc \<and> dst < ndst)"

lemma wp_swap_each_out:
  "memory_ok k \<Longrightarrow> pairs_fit (km_num_blocks k) (km_num_cpu_blocks k) pairs \<Longrightarrow> km_cpu k = Some host \<Longrightarrow>
   (\<And>t host'. same_storage k t \<Longrightarrow> km_gpu t = km_gpu k \<Longrightarrow> km_cpu t = Some host' \<Longrightarrow>
      pages_copied (km_block_size k) pairs (km_gpu k) host host' \<Longrightarrow> Q () t) \<Longrightarrow>
   wp (each pairs swap_block_out) Q E k"
proof (induction pairs arbitrary: k host)
  case Nil
  have "Q () k" by (rule Nil.prems(4)) (use Nil.prems in \<open>auto simp: pages_copied_def\<close>)
  then show ?case by (simp add: wp_ret)
next
  case (Cons pr pairs)
  obtain src dst where pr: "pr = (src, dst)" by (cases pr)
  have b: "0 < km_block_size k" "src < km_num_blocks k" "dst < km_num_cpu_blocks k" "dst \<notin> snd ` set pairs"
    using Cons.prems(1,2) pr by (auto simp: pairs_fit_def memory_ok_def)
  define t where "t = k\<lparr>km_cpu := Some (copy_rows_of (km_block_size k) (km_block_size k) (km_gpu k) src dst host),
     km_cpu_scales := (case km_scales k of None \<Rightarrow> km_cpu_scales k
        | Some sc \<Rightarrow> map_option (copy_rows_of (km_block_size k) (km_block_size k) sc src dst) (km_cpu_scales k))\<rparr>"
  have t: "same_storage k t" "km_gpu t = km_gpu k" "km_block_size t = km_block_size k"
    "km_cpu t = Some (copy_rows_of (km_block_size k) (km_block_size k) (km_gpu k) src dst host)"
    using Cons.prems(3) by (auto simp: t_def same_storage_def split: option.splits)
  have "wp (each pairs swap_block_out) Q E t"
  proof (rule Cons.IH)
    show "memory_ok t" using Cons.prems(1) t(1) by (simp add: memory_ok_same)
    show "pairs_fit (km_num_blocks t) (km_num_cpu_blocks t) pairs" using Cons.prems(2) by (simp add: pairs_fit_def t_def)
    show "km_cpu t = Some (copy_rows_of (km_block_size k) (km_block_size k) (km_gpu k) src dst host)" by (rule t(4))
    fix u host' assume u: "same_storage t u" "km_gpu u = km_gpu t" "km_cpu u = Some host'"
      "pages_copied (km_block_size t) pairs (km_gpu t) (copy_rows_of (km_block_size k) (km_block_size k) (km_gpu k) src dst host) host'"
    show "Q () u"
      by (rule Cons.prems(4)[OF same_storage_trans[OF t(1) u(1)]])
        (use u t pages_copied_Cons[OF b(1) _ b(4)] in \<open>auto simp: pr\<close>)
  qed
  then show ?case unfolding wp_each_Cons
    using b Cons.prems(3) by (simp add: swap_block_out_def pr wp_simps t_def cong: option.case_cong)
qed

lemma wp_swap_each_in:
  "memory_ok k \<Longrightarrow> pairs_fit (km_num_cpu_blocks k) (km_num_blocks k) pairs \<Longrightarrow> km_cpu k = Some host \<Longrightarrow>
   (\<And>t. same_storage k t \<Longrightarrow> km_cpu t = km_cpu k \<Longrightarrow>
      pages_copied (km_block_size k) pairs host (km_gpu k) (km_gpu t) \<Longrightarrow> Q () t) \<Longrightarrow>
   wp (each pairs swap_block_in) Q E k"
proof (induction pairs arbitrary: k)
  case Nil
  have "Q () k" by (rule Nil.prems(4)) (auto simp: pages_copied_def)
  then show ?case by (simp add: wp_ret)
next
  case (Cons pr pairs)
  obtain src dst where pr: "pr = (src, dst)" by (cases pr)
  have b: "0 < km_block_size k" "src < km_num_cpu_blocks k" "dst < km_num_blocks k" "dst \<notin> snd ` set pairs"
    using Cons.prems(1,2) pr by (auto simp: pairs_fit_def memory_ok_def)
  define t where "t = k\<lparr>km_gpu := copy_rows_of (km_block_size k) (km_block_size k) host src dst (km_gpu k),
     km_scales := (case km_cpu_scales k of None \<Rightarrow> km_scales k
        | Some sc \<Rightarrow> map_option (copy_rows_of (km_block_size k) (km_block_size k) sc src dst) (km_scales k))\<rparr>"
  have t: "same_storage k t" "km_cpu t = km_cpu k" "km_block_size t = km_block_size k"
    "km_gpu t = copy_rows_of (km_block_size k) (km_block_size k) host src dst (km_gpu k)"
    by (auto simp: t_def same_storage_def split: option.splits)
  have "wp (each pairs swap_block_in) Q E t"
  proof (rule Cons.IH)
    show "memory_ok t" using Cons.prems(1) t(1) by (simp add: memory_ok_same)
    show "pairs_fit (km_num_cpu_blocks t) (km_num_blocks t) pairs" using Cons.prems(2) by (simp add: pairs_fit_def t_def)
    show "km_cpu t = Some host" using t(2) Cons.prems(3) by simp
    fix u assume u: "same_storage t u" "km_cpu u = km_cpu t" "pages_copied (km_block_size t) pairs host (km_gpu t) (km_gpu u)"
    show "Q () u"
      by (rule Cons.prems(4)[OF same_storage_trans[OF t(1) u(1)]])
        (use u t pages_copied_Cons[OF b(1) _ b(4)] in \<open>auto simp: pr\<close>)
  qed
  then show ?case unfolding wp_each_Cons
    using b Cons.prems(3) by (simp add: swap_block_in_def pr wp_simps t_def cong: option.case_cong)
qed

text \<open>A host cache is present, with scales when the device cache has them.\<close>

definition swappable :: "'r kv_memory \<Rightarrow> bool" where
  "swappable k \<longleftrightarrow> memory_ok k \<and> km_cpu k \<noteq> None \<and> (km_scales k = None \<longleftrightarrow> km_cpu_scales k = None)"

lemma swappable_same: "same_storage k t \<Longrightarrow> swappable t = swappable k"
  unfolding swappable_def memory_ok_def same_storage_def by argo

lemma wp_swap_blocks:
  assumes "swappable k"
  shows "wp (swap_blocks pairs direction) Q E k =
    (if pairs = [] then Q () k else if direction = ''out'' then wp (each pairs swap_block_out) Q E k
     else if direction = ''in'' then wp (each pairs swap_block_in) Q E k else E ValueError k)"
proof -
  have S: "memory_ok k" "km_cpu k \<noteq> None" "(km_scales k = None) = (km_cpu_scales k = None)"
    using assms by (simp_all add: swappable_def)
  show ?thesis
    by (cases "pairs = []"; cases "direction = ''out''"; cases "direction = ''in''")
      (simp_all add: swap_blocks_def wp_thn wp_bnd wp_chk wp_gets wp_ret wp_scale_cache[OF S(1)] S(2,3))
qed

lemma swap_blocks_out:
  assumes "swappable k" and "pairs_fit (km_num_blocks k) (km_num_cpu_blocks k) pairs" and "km_cpu k = Some host"
  shows "\<exists>t host'. swap_blocks pairs ''out'' k = (Inr (), t) \<and> same_storage k t \<and> km_gpu t = km_gpu k \<and> km_cpu t = Some host' \<and>
    pages_copied (km_block_size k) pairs (km_gpu k) host host'"
proof -
  have "wp (swap_blocks pairs ''out'') (\<lambda>_ t. \<exists>host'. same_storage k t \<and> km_gpu t = km_gpu k \<and> km_cpu t = Some host' \<and>
      pages_copied (km_block_size k) pairs (km_gpu k) host host') (\<lambda>_ _. False) k"
    unfolding wp_swap_blocks[OF assms(1)]
    using wp_swap_each_out[OF _ assms(2,3)] assms(1,3) by (auto simp: swappable_def pages_copied_def)
  then show ?thesis by (simp add: wp_total)
qed

lemma swap_blocks_in:
  assumes "swappable k" and "pairs_fit (km_num_cpu_blocks k) (km_num_blocks k) pairs" and "km_cpu k = Some host"
  shows "\<exists>t. swap_blocks pairs ''in'' k = (Inr (), t) \<and> same_storage k t \<and> km_cpu t = km_cpu k \<and>
    pages_copied (km_block_size k) pairs host (km_gpu k) (km_gpu t)"
proof -
  have "wp (swap_blocks pairs ''in'') (\<lambda>_ t. same_storage k t \<and> km_cpu t = km_cpu k \<and>
      pages_copied (km_block_size k) pairs host (km_gpu k) (km_gpu t)) (\<lambda>_ _. False) k"
    unfolding wp_swap_blocks[OF assms(1)]
    using wp_swap_each_in[OF _ assms(2,3)] assms(1) by (auto simp: swappable_def pages_copied_def)
  then show ?thesis by (simp add: wp_total)
qed

lemma pages_copied_row:
  assumes "pages_copied bs (zip src dst) source old new" and "length src = length dst" and "p < length dst * bs" and "0 < bs"
  shows "row_of bs new dst p = row_of bs source src p"
proof -
  have "p div bs < length dst" using assms(3) by (simp add: less_mult_imp_div_less)
  then have "(src ! (p div bs), dst ! (p div bs)) \<in> set (zip src dst)" using assms(2) by (auto simp: set_zip)
  then show ?thesis using assms(1,4) by (force simp: pages_copied_def row_of_def)
qed

lemma pages_copied_other:
  assumes "pages_copied bs pairs source old new" and "p < length tab * bs" and "0 < bs" and "snd ` set pairs \<inter> set tab = {}"
  shows "row_of bs new tab p = row_of bs old tab p"
proof -
  have "tab ! (p div bs) \<notin> snd ` set pairs" using slot_page_in[OF assms(2)] assms(4) by blast
  then show ?thesis using assms(1,3) by (simp add: pages_copied_def row_of_slot)
qed

end
