(* ===== verification/KV_Store.thy ===== *)
theory KV_Store imports KV_Memory begin

text \<open>
  \<open>prism_infer/ops/kv_cache_store.py\<close>: writing the keys and values of new tokens into the paged cache of one
  attention layer.  A tensor of shape [tokens, heads, dim] is the list of its tokens, each a list of heads, each a
  list of elements; a cache is indexed by its flat slot.  The float operations of torch are a record of
  functions.  The eager path is a loop over the tokens; a Triton kernel is a grid of programs, which may run in
  any order, and a program that would address memory outside the cache has no result.
\<close>

section \<open>Arithmetic and storage\<close>

text \<open>Element operations of torch: \<open>ar_cast\<close> rounds to the payload type of the cache, \<open>ar_target\<close> to the type
  of the queries; \<open>ar_mul\<close> is the product in the latter type and \<open>ar_mul32\<close> the one in 32 bits.\<close>

record 'x arith =
  ar_abs :: "'x \<Rightarrow> 'x"
  ar_max :: "'x \<Rightarrow> 'x \<Rightarrow> 'x"
  ar_min :: "'x \<Rightarrow> 'x \<Rightarrow> 'x"
  ar_div :: "'x \<Rightarrow> 'x \<Rightarrow> 'x"
  ar_mul :: "'x \<Rightarrow> 'x \<Rightarrow> 'x"
  ar_mul32 :: "'x \<Rightarrow> 'x \<Rightarrow> 'x"
  ar_cast :: "'x \<Rightarrow> 'x"
  ar_target :: "'x \<Rightarrow> 'x"
  ar_fp8_max :: 'x
  ar_fp8_min :: 'x
  ar_scale_floor :: 'x

type_synonym 'x token_row = "'x list list"

record 'x layer_cache =
  lc_blocks :: nat
  lc_page :: nat
  lc_heads :: nat
  lc_dim :: nat
  lc_fp8 :: bool
  lc_k :: "'x token_row rows"
  lc_v :: "'x token_row rows"
  lc_ks :: "'x list rows option"
  lc_vs :: "'x list rows option"

definition lc_slots :: "'x layer_cache \<Rightarrow> nat" where
  "lc_slots c = lc_blocks c * lc_page c"

definition row_shape :: "nat \<Rightarrow> nat \<Rightarrow> 'x token_row \<Rightarrow> bool" where
  "row_shape h d row \<longleftrightarrow> length row = h \<and> list_all (\<lambda>v. length v = d) row"

section \<open>Quantization of one head\<close>

fun amax :: "'x arith \<Rightarrow> 'x list \<Rightarrow> 'x" where
  "amax ar [] = ar_scale_floor ar"
| "amax ar (x # xs) = fold (\<lambda>y m. ar_max ar m (ar_abs ar y)) xs (ar_abs ar x)"

definition head_scale :: "'x arith \<Rightarrow> 'x list \<Rightarrow> 'x" where
  "head_scale ar xs = ar_max ar (ar_div ar (amax ar xs) (ar_fp8_max ar)) (ar_scale_floor ar)"

definition quantized_head :: "'x arith \<Rightarrow> 'x list \<Rightarrow> 'x list" where
  "quantized_head ar xs =
     map (\<lambda>x. ar_cast ar (ar_min ar (ar_max ar (ar_div ar x (head_scale ar xs)) (ar_fp8_min ar)) (ar_fp8_max ar))) xs"

definition payload :: "'x arith \<Rightarrow> bool \<Rightarrow> 'x token_row \<Rightarrow> 'x token_row" where
  "payload ar scaled row = (if scaled then map (quantized_head ar) row else map (map (ar_cast ar)) row)"

section \<open>Validation and the eager path\<close>

definition validate_payload :: "'x layer_cache \<Rightarrow> 'x token_row list \<Rightarrow> 'x token_row list \<Rightarrow> int list \<Rightarrow> py_error + unit" where
  "validate_payload c key val slots =
     need ValueError (length key = length val \<and> list_all2 (\<lambda>a b. map length a = map length b) key val)
    (need ValueError (list_all (row_shape (lc_heads c) (lc_dim c)) key)
    (need ValueError (length slots = length key) (Inr ())))"

definition validate_scales :: "'x layer_cache \<Rightarrow> py_error + bool" where
  "validate_scales c =
     need ValueError (lc_ks c = None \<longleftrightarrow> lc_vs c = None)
    (if lc_ks c = None then Inr False
     else need ValueError (lc_fp8 c)
       (need ValueError (0 < lc_blocks c \<and> 0 < lc_page c \<and> 0 < lc_heads c \<and> 0 < lc_dim c) (Inr True)))"

definition put_token :: "'x arith \<Rightarrow> bool \<Rightarrow> nat \<Rightarrow> 'x token_row \<Rightarrow> 'x token_row \<Rightarrow> 'x layer_cache \<Rightarrow> 'x layer_cache" where
  "put_token ar scaled i k v c =
     (let c = c\<lparr>lc_k := (lc_k c)(i := payload ar scaled k), lc_v := (lc_v c)(i := payload ar scaled v)\<rparr> in
      if scaled then c\<lparr>lc_ks := map_option (\<lambda>r. r(i := map (head_scale ar) k)) (lc_ks c),
        lc_vs := map_option (\<lambda>r. r(i := map (head_scale ar) v)) (lc_vs c)\<rparr> else c)"

definition store_token :: "'x arith \<Rightarrow> bool \<Rightarrow> int \<times> 'x token_row \<times> 'x token_row \<Rightarrow> (unit, 'x layer_cache) op" where
  "store_token ar scaled = (\<lambda>(slot, k, v). if slot < 0 then ret ()
     else bnd (gets id) (\<lambda>c. thn (chk IndexError (nat slot < lc_slots c)) (upd (put_token ar scaled (nat slot) k v))))"

definition store_kvcache_eager ::
    "'x arith \<Rightarrow> bool \<Rightarrow> 'x token_row list \<Rightarrow> 'x token_row list \<Rightarrow> int list \<Rightarrow> (unit, 'x layer_cache) op" where
  "store_kvcache_eager ar scaled key val slots = each (zip slots (zip key val)) (store_token ar scaled)"

section \<open>The kernels\<close>

text \<open>One program of the dense kernel handles a token.\<close>

definition dense_program ::
    "'x arith \<Rightarrow> 'x token_row list \<Rightarrow> 'x token_row list \<Rightarrow> int list \<Rightarrow> nat \<Rightarrow> 'x layer_cache \<Rightarrow> 'x layer_cache option" where
  "dense_program ar key val slots idx c =
     (let slot = slots ! idx in
      if slot = -1 then Some c
      else if slot < 0 \<or> lc_slots c \<le> nat slot then None
      else Some (c\<lparr>lc_k := (lc_k c)(nat slot := map (map (ar_cast ar)) (key ! idx)),
                   lc_v := (lc_v c)(nat slot := map (map (ar_cast ar)) (val ! idx))\<rparr>))"

text \<open>One program of the scaled kernel handles a token and a head.\<close>

definition set_head :: "nat \<Rightarrow> nat \<Rightarrow> 'a \<Rightarrow> 'a list rows \<Rightarrow> 'a list rows" where
  "set_head i h x rows = rows(i := (rows i)[h := x])"

definition scaled_program ::
    "'x arith \<Rightarrow> 'x token_row list \<Rightarrow> 'x token_row list \<Rightarrow> int list \<Rightarrow> nat \<times> nat \<Rightarrow> 'x layer_cache \<Rightarrow> 'x layer_cache option" where
  "scaled_program ar key val slots = (\<lambda>(token, head) c.
     let slot = slots ! token in
      if slot < 0 then Some c
      else if lc_slots c \<le> nat slot then None
      else Some (c\<lparr>lc_k := set_head (nat slot) head (quantized_head ar (key ! token ! head)) (lc_k c),
                   lc_v := set_head (nat slot) head (quantized_head ar (val ! token ! head)) (lc_v c),
                   lc_ks := map_option (set_head (nat slot) head (head_scale ar (key ! token ! head))) (lc_ks c),
                   lc_vs := map_option (set_head (nat slot) head (head_scale ar (val ! token ! head))) (lc_vs c)\<rparr>))"

text \<open>A launch runs the programs of its grid in the given order.\<close>

definition run_grid :: "('p \<Rightarrow> 'c \<Rightarrow> 'c option) \<Rightarrow> 'p list \<Rightarrow> 'c \<Rightarrow> 'c option" where
  "run_grid prog ps c = fold (\<lambda>p r. case r of None \<Rightarrow> None | Some c \<Rightarrow> prog p c) ps (Some c)"

definition dense_grid :: "'x token_row list \<Rightarrow> nat list" where
  "dense_grid key = [0..<length key]"

definition scaled_grid :: "'x layer_cache \<Rightarrow> 'x token_row list \<Rightarrow> (nat \<times> nat) list" where
  "scaled_grid c key = concat (map (\<lambda>t. map (Pair t) [0..<lc_heads c]) [0..<length key])"

definition lift_grid :: "('s \<Rightarrow> 's option) \<Rightarrow> (unit, 's) op" where
  "lift_grid f = (\<lambda>s. case f s of None \<Rightarrow> (Inl RuntimeError, s) | Some t \<Rightarrow> (Inr (), t))"

section \<open>The entry point\<close>

text \<open>\<open>order\<close> and \<open>order2\<close> list the programs of the two kernels in the order in which they run.\<close>

definition store_kvcache ::
    "'x arith \<Rightarrow> bool \<Rightarrow> nat list \<Rightarrow> (nat \<times> nat) list \<Rightarrow> 'x token_row list \<Rightarrow> 'x token_row list \<Rightarrow> int list \<Rightarrow> (unit, 'x layer_cache) op" where
  "store_kvcache ar use_triton order order2 key val slots =
     bnd (gets id) (\<lambda>c.
     thn (lift_res (validate_payload c key val slots))
    (bnd (lift_res (validate_scales c)) (\<lambda>scaled.
     if use_triton \<and> scaled then lift_grid (run_grid (scaled_program ar key val slots) order2)
     else if use_triton then lift_grid (run_grid (dense_program ar key val slots) order)
     else store_kvcache_eager ar scaled key val slots)))"

section \<open>The order of the programs\<close>

text \<open>A family of launches whose programs do not interfere: any two of them commute.\<close>

locale independent_grid =
  fixes legal :: "'a \<Rightarrow> bool" and grid_of :: "'a \<Rightarrow> 'p set" and prog :: "'a \<Rightarrow> 'p \<Rightarrow> 'c \<Rightarrow> 'c option"
  assumes commute: "legal a \<Longrightarrow> p \<in> grid_of a \<Longrightarrow> q \<in> grid_of a \<Longrightarrow> Option.bind (prog a p c) (prog a q) = Option.bind (prog a q c) (prog a p)"
begin

lemma any_order:
  assumes "legal a" and "set ps \<subseteq> grid_of a" and "mset ps = mset qs"
  shows "run_grid (prog a) ps c = run_grid (prog a) qs c"
  unfolding run_grid_def
proof (rule fun_cong[OF fold_multiset_equiv])
  fix p q assume "p \<in> set ps" "q \<in> set ps"
  then have "p \<in> grid_of a" "q \<in> grid_of a" using assms(2) by auto
  note c = commute[OF assms(1) this]
  show "(\<lambda>r. case r of None \<Rightarrow> None | Some c \<Rightarrow> prog a p c) \<circ> (\<lambda>r. case r of None \<Rightarrow> None | Some c \<Rightarrow> prog a q c) =
    (\<lambda>r. case r of None \<Rightarrow> None | Some c \<Rightarrow> prog a q c) \<circ> (\<lambda>r. case r of None \<Rightarrow> None | Some c \<Rightarrow> prog a p c)"
    (is "?p \<circ> ?q = ?q \<circ> ?p")
  proof
    fix r show "(?p \<circ> ?q) r = (?q \<circ> ?p) r"
    proof (cases r)
      case (Some x)
      then show ?thesis using c[of x] by (cases "prog a p x"; cases "prog a q x") simp_all
    qed simp
  qed
qed (rule assms(3))

end

definition slots_separate :: "int list \<Rightarrow> bool" where
  "slots_separate slots \<longleftrightarrow> distinct (filter (\<lambda>s. 0 \<le> s) slots)"

lemma slots_separateD:
  assumes "slots_separate slots" and "i < length slots" and "j < length slots" and "slots ! i = slots ! j" and "0 \<le> slots ! i"
  shows "i = j"
  using assms unfolding slots_separate_def
proof (induction slots arbitrary: i j)
  case (Cons s slots)
  show ?case
  proof (cases i; cases j)
    fix i' assume "i = Suc i'" "j = 0"
    then show ?thesis using Cons.prems by (auto simp: in_set_conv_nth dest!: spec[of _ i'] split: if_splits)
  next
    fix j' assume "i = 0" "j = Suc j'"
    then show ?thesis using Cons.prems by (auto split: if_splits)
  next
    fix i' j' assume "i = Suc i'" "j = Suc j'"
    then show ?thesis using Cons by (auto split: if_splits)
  qed simp
qed simp

type_synonym 'x launch = "'x token_row list \<times> 'x token_row list \<times> int list"

definition launch_legal :: "'x launch \<Rightarrow> bool" where
  "launch_legal = (\<lambda>(key, val, slots). length slots = length key \<and> slots_separate slots)"

lemma set_head_swap:
  "(i, h) \<noteq> (j, l) \<Longrightarrow> set_head i h x (set_head j l y r) = set_head j l y (set_head i h x r)"
  by (auto simp: set_head_def fun_eq_iff list_update_swap)

interpretation dense_grid: independent_grid launch_legal "\<lambda>(key, val, slots). {..<length key}"
  "\<lambda>(key, val, slots). dense_program ar key val slots" for ar :: "'x arith"
proof
  fix a :: "'x launch" and p q c assume l: "launch_legal a" and pq: "p \<in> (case a of (key, val, slots) \<Rightarrow> {..<length key})" "q \<in> (case a of (key, val, slots) \<Rightarrow> {..<length key})"
  obtain key val slots where a: "a = (key, val, slots)" by (cases a)
  have sep: "p = q" if "slots ! p = slots ! q" "0 \<le> slots ! p"
    using slots_separateD[of slots p q] l pq that by (simp add: a launch_legal_def)
  show "Option.bind ((case a of (key, val, slots) \<Rightarrow> dense_program ar key val slots) p c) ((case a of (key, val, slots) \<Rightarrow> dense_program ar key val slots) q) =
      Option.bind ((case a of (key, val, slots) \<Rightarrow> dense_program ar key val slots) q c) ((case a of (key, val, slots) \<Rightarrow> dense_program ar key val slots) p)"
  proof (cases "p = q")
    case False
    then have "nat (slots ! p) \<noteq> nat (slots ! q)" if "0 \<le> slots ! p" "0 \<le> slots ! q" using that sep by (auto simp: eq_nat_nat_iff)
    then show ?thesis by (auto simp: a dense_program_def Let_def lc_slots_def fun_upd_twist)
  qed simp
qed

interpretation scaled_grid: independent_grid launch_legal "\<lambda>(key, val, slots). {..<length key} \<times> UNIV"
  "\<lambda>(key, val, slots). scaled_program ar key val slots" for ar :: "'x arith"
proof
  fix a :: "'x launch" and p q :: "nat \<times> nat" and c assume l: "launch_legal a"
    and pq: "p \<in> (case a of (key, val, slots) \<Rightarrow> {..<length key} \<times> UNIV)" "q \<in> (case a of (key, val, slots) \<Rightarrow> {..<length key} \<times> UNIV)"
  obtain key val slots where a: "a = (key, val, slots)" by (cases a)
  obtain t h u g where p: "p = (t, h)" and q: "q = (u, g)" by (cases p; cases q)
  have sep: "t = u" if "slots ! t = slots ! u" "0 \<le> slots ! t"
    using slots_separateD[of slots t u] l pq that by (simp add: a p q launch_legal_def)
  show "Option.bind ((case a of (key, val, slots) \<Rightarrow> scaled_program ar key val slots) p c) ((case a of (key, val, slots) \<Rightarrow> scaled_program ar key val slots) q) =
      Option.bind ((case a of (key, val, slots) \<Rightarrow> scaled_program ar key val slots) q c) ((case a of (key, val, slots) \<Rightarrow> scaled_program ar key val slots) p)"
  proof (cases "p = q")
    case False
    then have "(nat (slots ! t), h) \<noteq> (nat (slots ! u), g)" if "0 \<le> slots ! t" "0 \<le> slots ! u" using that sep p q by (auto simp: eq_nat_nat_iff)
    then show ?thesis
      by (auto simp: a p q scaled_program_def Let_def lc_slots_def set_head_swap option.map_comp comp_def intro!: map_option_cong)
  qed simp
qed

section \<open>Kernel and loop agree\<close>

definition write_token :: "'x arith \<Rightarrow> bool \<Rightarrow> int \<times> 'x token_row \<times> 'x token_row \<Rightarrow> 'x layer_cache \<Rightarrow> 'x layer_cache" where
  "write_token ar scaled = (\<lambda>(slot, k, v) c. if slot < 0 then c else put_token ar scaled (nat slot) k v c)"

lemma put_token_slots [simp]: "lc_slots (put_token ar scaled i k v c) = lc_slots c"
  by (simp add: put_token_def lc_slots_def Let_def)

lemma write_token_slots [simp]: "lc_slots (write_token ar scaled x c) = lc_slots c"
  by (simp add: write_token_def split: prod.split)

lemma fold_indices: "fold f xs = fold (\<lambda>i. f (xs ! i)) [0..<length xs]"
proof -
  have "fold f (map ((!) xs) [0..<length xs]) = fold (\<lambda>i. f (xs ! i)) [0..<length xs]" unfolding fold_map comp_def ..
  then show ?thesis unfolding map_nth .
qed

lemma eager_fold:
  assumes "\<forall>s \<in> set (map fst xs). s < int (lc_slots c)"
  shows "each xs (store_token ar scaled) c = (Inr (), fold (write_token ar scaled) xs c)"
  using assms
proof (induction xs arbitrary: c)
  case (Cons x xs)
  obtain slot k v where x: "x = (slot, k, v)" by (cases x)
  have "store_token ar scaled x c = (Inr (), write_token ar scaled x c)"
    using Cons.prems by (auto simp: store_token_def write_token_def x bnd_def thn_def gets_def chk_def upd_def ret_def nat_less_iff)
  then show ?case using Cons by (simp add: thn_def bnd_def)
qed (simp add: ret_def)

lemma run_grid_Nil [simp]: "run_grid prog [] c = Some c"
  by (simp add: run_grid_def)

lemma run_grid_append: "run_grid prog (ps @ qs) c = Option.bind (run_grid prog ps c) (run_grid prog qs)"
proof -
  have "fold (\<lambda>p r. case r of None \<Rightarrow> None | Some c \<Rightarrow> prog p c) qs None = None" by (induction qs) simp_all
  then show ?thesis by (cases "run_grid prog ps c") (simp_all add: run_grid_def)
qed

lemma run_grid_single [simp]: "run_grid prog [p] c = prog p c"
  by (simp add: run_grid_def)

lemma run_grid_steps:
  assumes "\<And>i c. i < n \<Longrightarrow> good c \<Longrightarrow> run_grid prog (ps i) c = Some (step i c) \<and> good (step i c)" and "good c"
  shows "run_grid prog (concat (map ps [0..<n])) c = Some (fold step [0..<n] c) \<and> good (fold step [0..<n] c)"
  using assms by (induction n) (auto simp: run_grid_append)

definition regular_cache :: "'x layer_cache \<Rightarrow> bool" where
  "regular_cache c \<longleftrightarrow> (lc_ks c = None \<longleftrightarrow> lc_vs c = None) \<and>
     (\<forall>i < lc_slots c. length (lc_k c i) = lc_heads c \<and> length (lc_v c i) = lc_heads c \<and>
       (\<forall>r. lc_ks c = Some r \<or> lc_vs c = Some r \<longrightarrow> length (r i) = lc_heads c))"

definition slots_within :: "'x layer_cache \<Rightarrow> int list \<Rightarrow> bool" where
  "slots_within c slots \<longleftrightarrow> (\<forall>s \<in> set slots. -1 \<le> s \<and> s < int (lc_slots c))"

lemma dense_step:
  assumes "-1 \<le> slots ! i" and "slots ! i < int (lc_slots c)"
  shows "dense_program ar key val slots i c = Some (write_token ar False (slots ! i, key ! i, val ! i) c)"
  using assms by (auto simp: dense_program_def write_token_def put_token_def payload_def Let_def)

text \<open>The heads of one token, one after the other, write its whole row.\<close>

lemma set_head_take:
  assumes "m < length xs" and "length (rows i) = length xs"
  shows "set_head i m (f (xs ! m)) (rows(i := map f (take m xs) @ drop m (rows i))) = rows(i := map f (take (Suc m) xs) @ drop (Suc m) (rows i))"
  using assms by (auto simp: set_head_def take_Suc_conv_app_nth list_update_append Cons_nth_drop_Suc[symmetric])

definition heads_done ::
    "'x arith \<Rightarrow> nat \<Rightarrow> nat \<Rightarrow> 'x token_row \<Rightarrow> 'x token_row \<Rightarrow> 'x layer_cache \<Rightarrow> 'x layer_cache" where
  "heads_done ar m i k v c =
     (let put = (\<lambda>f x r. r(i := map f (take m x) @ drop m (r i))) in
      c\<lparr>lc_k := put (quantized_head ar) k (lc_k c), lc_v := put (quantized_head ar) v (lc_v c),
        lc_ks := map_option (\<lambda>r. r(i := map (head_scale ar) (take m k) @ drop m (r i))) (lc_ks c),
        lc_vs := map_option (\<lambda>r. r(i := map (head_scale ar) (take m v) @ drop m (r i))) (lc_vs c)\<rparr>)"

lemma heads_done_0: "heads_done ar 0 i k v c = c"
  by (simp add: heads_done_def option.map_ident)

lemma heads_done_slots [simp]: "lc_slots (heads_done ar m i k v c) = lc_slots c" "lc_heads (heads_done ar m i k v c) = lc_heads c"
  by (simp_all add: heads_done_def lc_slots_def Let_def)

lemma scaled_head_step:
  assumes "0 \<le> slots ! t" and "nat (slots ! t) < lc_slots c" and "regular_cache c" and "m < lc_heads c"
    and "length (key ! t) = lc_heads c" and "length (val ! t) = lc_heads c"
  shows "scaled_program ar key val slots (t, m) (heads_done ar m (nat (slots ! t)) (key ! t) (val ! t) c) =
    Some (heads_done ar (Suc m) (nat (slots ! t)) (key ! t) (val ! t) c)"
proof -
  let ?i = "nat (slots ! t)"
  have len: "length (lc_k c ?i) = length (key ! t)" "length (lc_v c ?i) = length (val ! t)" "m < length (key ! t)" "m < length (val ! t)"
    using assms by (simp_all add: regular_cache_def)
  have scales: "length (r ?i) = lc_heads c" if "lc_ks c = Some r \<or> lc_vs c = Some r" for r
    using assms(2,3) that unfolding regular_cache_def by blast
  have ks: "map_option (set_head ?i m (head_scale ar (key ! t ! m))) (map_option (\<lambda>r. r(?i := map (head_scale ar) (take m (key ! t)) @ drop m (r ?i))) (lc_ks c)) =
      map_option (\<lambda>r. r(?i := map (head_scale ar) (take (Suc m) (key ! t)) @ drop (Suc m) (r ?i))) (lc_ks c)"
    using scales len assms(5) by (cases "lc_ks c") (simp_all add: set_head_take)
  have vs: "map_option (set_head ?i m (head_scale ar (val ! t ! m))) (map_option (\<lambda>r. r(?i := map (head_scale ar) (take m (val ! t)) @ drop m (r ?i))) (lc_vs c)) =
      map_option (\<lambda>r. r(?i := map (head_scale ar) (take (Suc m) (val ! t)) @ drop (Suc m) (r ?i))) (lc_vs c)"
    using scales len assms(6) by (cases "lc_vs c") (simp_all add: set_head_take)
  show ?thesis
    using assms(1,2) unfolding scaled_program_def Let_def
    by (simp add: heads_done_def[of ar m] heads_done_def[of ar "Suc m"] ks vs set_head_take len lc_slots_def)
qed

lemma heads_done_all:
  assumes "regular_cache c" and "i < lc_slots c" and "length k = lc_heads c" and "length v = lc_heads c" and "lc_ks c \<noteq> None"
  shows "heads_done ar (lc_heads c) i k v c = put_token ar True i k v c"
proof -
  have d: "drop (lc_heads c) (lc_k c i) = []" "drop (lc_heads c) (lc_v c i) = []" using assms(1,2) by (simp_all add: regular_cache_def)
  obtain ks vs where s: "lc_ks c = Some ks" "lc_vs c = Some vs" using assms(1,5) by (auto simp: regular_cache_def)
  then have "drop (lc_heads c) (ks i) = []" "drop (lc_heads c) (vs i) = []" using assms(1,2) by (simp_all add: regular_cache_def)
  then show ?thesis using d s assms(3,4) by (simp add: heads_done_def put_token_def payload_def)
qed

lemma put_token_regular:
  assumes "regular_cache c" and "length k = lc_heads c" and "length v = lc_heads c"
  shows "regular_cache (put_token ar True i k v c)"
proof -
  have "lc_heads (put_token ar True i k v c) = lc_heads c" by (simp add: put_token_def Let_def)
  then show ?thesis
    using assms unfolding regular_cache_def put_token_slots by (auto simp: put_token_def payload_def Let_def)
qed

lemma scaled_token_step:
  assumes "-1 \<le> slots ! t" and "slots ! t < int (lc_slots c)" and "regular_cache c" and "lc_ks c \<noteq> None"
    and "length (key ! t) = lc_heads c" and "length (val ! t) = lc_heads c"
  shows "run_grid (scaled_program ar key val slots) (map (Pair t) [0..<lc_heads c]) c = Some (write_token ar True (slots ! t, key ! t, val ! t) c)"
proof (cases "slots ! t < 0")
  case True
  have "run_grid (scaled_program ar key val slots) (map (Pair t) [0..<m]) c = Some c" for m
    by (induction m) (simp_all add: run_grid_append scaled_program_def True)
  then show ?thesis using True by (simp add: write_token_def)
next
  case False
  let ?i = "nat (slots ! t)"
  have i: "?i < lc_slots c" using False assms(2) by (simp add: nat_less_iff)
  have "run_grid (scaled_program ar key val slots) (map (Pair t) [0..<m]) c = Some (heads_done ar m ?i (key ! t) (val ! t) c)" if "m \<le> lc_heads c" for m
    using that
  proof (induction m)
    case (Suc m)
    then show ?case using scaled_head_step[OF _ i assms(3) _ assms(5,6), of m ar] False by (simp add: run_grid_append)
  qed (simp add: heads_done_0)
  from this[of "lc_heads c"] show ?thesis using heads_done_all[OF assms(3) i assms(5,6,4)] False by (simp add: write_token_def)
qed

lemma run_grid_map: "run_grid prog (map f ps) c = run_grid (\<lambda>p. prog (f p)) ps c"
  by (simp add: run_grid_def fold_map comp_def)

lemma write_token_frame:
  "lc_heads (write_token ar scaled x c) = lc_heads c" "(lc_ks (write_token ar scaled x c) = None) = (lc_ks c = None)"
  by (simp_all add: write_token_def put_token_def Let_def split: prod.split)

lemma scaled_sequential:
  fixes c :: "'x layer_cache"
  assumes "slots_within c slots" and "regular_cache c" and "lc_ks c \<noteq> None" and "length slots = length key" and "length val = length key"
    and "\<forall>row \<in> set key \<union> set val. length row = lc_heads c"
  shows "run_grid (scaled_program ar key val slots) (scaled_grid c key) c = Some (fold (write_token ar True) (zip slots (zip key val)) c)"
proof -
  let ?good = "\<lambda>d. regular_cache d \<and> lc_ks d \<noteq> None \<and> lc_heads d = lc_heads c \<and> lc_slots d = lc_slots c"
  let ?step = "\<lambda>t. write_token ar True (zip slots (zip key val) ! t)"
  have "run_grid (scaled_program ar key val slots) (concat (map (\<lambda>t. map (Pair t) [0..<lc_heads c]) [0..<length key])) c = Some (fold ?step [0..<length key] c) \<and>
      ?good (fold ?step [0..<length key] c)"
  proof (rule run_grid_steps)
    fix t and d :: "'x layer_cache" assume t: "t < length key" and good: "?good d"
    have rows: "length (key ! t) = lc_heads d" "length (val ! t) = lc_heads d" using assms(5,6) t good by auto
    have s: "-1 \<le> slots ! t" "slots ! t < int (lc_slots d)" using assms(1,4) t good by (auto simp: slots_within_def)
    have at: "zip slots (zip key val) ! t = (slots ! t, key ! t, val ! t)" using assms(4,5) t by simp
    have reg: "regular_cache (write_token ar True (slots ! t, key ! t, val ! t) d)" using put_token_regular[of d "key ! t" "val ! t"] good rows by (simp add: write_token_def)
    show "run_grid (scaled_program ar key val slots) (map (Pair t) [0..<lc_heads c]) d = Some (?step t d) \<and> ?good (?step t d)"
      unfolding at using scaled_token_step[OF s _ _ rows] reg good write_token_frame[of ar True "(slots ! t, key ! t, val ! t)" d] by simp
  qed (use assms(2,3) in simp)
  then show ?thesis unfolding scaled_grid_def fold_indices[of "write_token ar True" "zip slots (zip key val)"] using assms(4,5) by simp
qed

lemma dense_sequential:
  fixes c :: "'x layer_cache"
  assumes "slots_within c slots" and "length slots = length key" and "length val = length key"
  shows "run_grid (dense_program ar key val slots) (dense_grid key) c = Some (fold (write_token ar False) (zip slots (zip key val)) c)"
proof -
  let ?step = "\<lambda>t. write_token ar False (zip slots (zip key val) ! t)"
  have "run_grid (dense_program ar key val slots) (concat (map (\<lambda>t. [t]) [0..<length key])) c = Some (fold ?step [0..<length key] c) \<and>
      lc_slots (fold ?step [0..<length key] c) = lc_slots c"
  proof (rule run_grid_steps)
    fix t and d :: "'x layer_cache" assume t: "t < length key" and good: "lc_slots d = lc_slots c"
    have "-1 \<le> slots ! t" "slots ! t < int (lc_slots d)" using assms(1,2) t good by (auto simp: slots_within_def)
    note dense_step[OF this]
    then show "run_grid (dense_program ar key val slots) [t] d = Some (?step t d) \<and> lc_slots (?step t d) = lc_slots c"
      using assms(2,3) t good by simp
  qed simp
  then show ?thesis unfolding dense_grid_def fold_indices[of "write_token ar False" "zip slots (zip key val)"] using assms(2,3) by (simp add: concat_map_singleton)
qed

text \<open>What the arguments of a checked call look like.\<close>

lemma validated:
  assumes "validate_payload c key val slots = Inr ()"
  shows "length val = length key" "length slots = length key" "\<forall>row \<in> set key \<union> set val. length row = lc_heads c"
proof -
  have v: "length key = length val" "list_all2 (\<lambda>a b. map length a = map length b) key val" "list_all (row_shape (lc_heads c) (lc_dim c)) key" "length slots = length key"
    using assms by (simp_all add: validate_payload_def need_def split: if_splits)
  then show "length val = length key" "length slots = length key" by simp_all
  have "length (val ! i) = lc_heads c" if "i < length val" for i
    using that v list_all2_nthD[OF v(2), of i] by (auto simp: row_shape_def list_all_length dest!: arg_cong[of _ _ length])
  then show "\<forall>row \<in> set key \<union> set val. length row = lc_heads c" using v(3) by (auto simp: row_shape_def list_all_iff in_set_conv_nth)
qed

lemma store_eager_result:
  assumes "validate_payload c key val slots = Inr ()" and "validate_scales c = Inr scaled" and "slots_within c slots"
  shows "store_kvcache ar False order order2 key val slots c = (Inr (), fold (write_token ar scaled) (zip slots (zip key val)) c)"
proof -
  have "\<forall>s \<in> set (map fst (zip slots (zip key val))). s < int (lc_slots c)" using assms(3) by (auto simp: slots_within_def dest: set_zip_leftD)
  from eager_fold[OF this] show ?thesis
    using assms(1,2) by (simp add: store_kvcache_def store_kvcache_eager_def bnd_def thn_def gets_def lift_res_def)
qed

text \<open>C16: with distinct slots the grid kernels, whatever the order of their programs, leave the same cache as the
  eager loop, with and without scales, and neither addresses memory outside the cache.\<close>

theorem store_kernels_match_loop:
  assumes "validate_payload c key val slots = Inr ()" and "validate_scales c = Inr scaled" and "regular_cache c"
    and "slots_within c slots" and "slots_separate slots"
    and "mset order = mset (dense_grid key)" and "mset order2 = mset (scaled_grid c key)"
  shows "store_kvcache ar True order order2 key val slots c = store_kvcache ar False order order2 key val slots c \<and>
    fst (store_kvcache ar True order order2 key val slots c) = Inr ()"
proof -
  note v = validated[OF assms(1)]
  let ?a = "(key, val, slots)"
  have legal: "launch_legal ?a" using v assms(5) by (simp add: launch_legal_def)
  have "set order \<subseteq> {..<length key}" using mset_eq_setD[OF assms(6)] by (auto simp: dense_grid_def)
  then have d: "run_grid (dense_program ar key val slots) order c = Some (fold (write_token ar False) (zip slots (zip key val)) c)"
    using dense_grid.any_order[OF legal _ assms(6), of ar c] dense_sequential[OF assms(4) v(2,1), of ar] by simp
  have "set order2 \<subseteq> {..<length key} \<times> UNIV" using mset_eq_setD[OF assms(7)] by (auto simp: scaled_grid_def)
  moreover have "lc_ks c \<noteq> None" if scaled using assms(2) that by (auto simp: validate_scales_def need_def split: if_splits)
  ultimately have s: "run_grid (scaled_program ar key val slots) order2 c = Some (fold (write_token ar True) (zip slots (zip key val)) c)" if scaled
    using scaled_grid.any_order[OF legal _ assms(7), of ar c] scaled_sequential[OF assms(4,3) _ v(2,1,3), of ar] that by simp
  show ?thesis
    unfolding store_eager_result[OF assms(1,2,4)]
    using d s assms(1,2) by (cases scaled) (simp_all add: store_kvcache_def bnd_def thn_def gets_def lift_res_def lift_grid_def)
qed

text \<open>A scaled cache of two pages with two rows, integers as elements, the programs run backwards.\<close>

definition example_arith :: "int arith" where
  "example_arith = \<lparr>ar_abs = abs, ar_max = max, ar_min = min, ar_div = (div), ar_mul = (*), ar_mul32 = (*), ar_cast = id, ar_target = id,
     ar_fp8_max = 4, ar_fp8_min = -4, ar_scale_floor = 1\<rparr>"

definition example_cache :: "int layer_cache" where
  "example_cache = \<lparr>lc_blocks = 2, lc_page = 2, lc_heads = 1, lc_dim = 2, lc_fp8 = True, lc_k = (\<lambda>i. [[0, 0]]), lc_v = (\<lambda>i. [[0, 0]]),
     lc_ks = Some (\<lambda>i. [1]), lc_vs = Some (\<lambda>i. [1])\<rparr>"

lemma example_cache_ok:
  "validate_payload example_cache [[[8, -3]], [[2, 1]]] [[[4, 4]], [[1, -1]]] [3, 0] = Inr ()" "validate_scales example_cache = Inr True"
  "slots_within example_cache [3, 0]" "slots_separate [3, 0]" "regular_cache example_cache"
  by (simp_all add: validate_payload_def row_shape_def example_cache_def validate_scales_def slots_within_def lc_slots_def slots_separate_def regular_cache_def)

theorem store_kernels_match_loop_witness:
  "case store_kvcache example_arith True [0, 1] [(1, 0), (0, 0)] [[[8, -3]], [[2, 1]]] [[[4, 4]], [[1, -1]]] [3, 0] example_cache of
     (r, c) \<Rightarrow> r = Inr () \<and> lc_k c 3 = [[4, -2]] \<and> map_option (\<lambda>s. s 3) (lc_ks c) = Some [2]"
proof -
  have "mset [0, 1] = mset (dense_grid [[[8, -3]], [[2, 1::int]]])" "mset [(1, 0), (0, 0)] = mset (scaled_grid example_cache [[[8, -3]], [[2, 1]]])"
    by (simp_all add: dense_grid_def scaled_grid_def example_cache_def upt_rec)
  note e = store_kernels_match_loop[OF example_cache_ok(1,2,5,3,4) this, of example_arith]
  show ?thesis
    unfolding e[THEN conjunct1] store_eager_result[OF example_cache_ok(1-3)]
    by (simp add: write_token_def put_token_def payload_def quantized_head_def head_scale_def example_arith_def example_cache_def)
qed

section \<open>Rows after a store\<close>

text \<open>Everything a cache holds for one slot, and what a store puts there.\<close>

type_synonym 'x slot_rows = "'x token_row \<times> 'x token_row \<times> 'x list option \<times> 'x list option"

definition slot_rows :: "'x layer_cache \<Rightarrow> nat \<Rightarrow> 'x slot_rows" where
  "slot_rows c i = (lc_k c i, lc_v c i, map_option (\<lambda>r. r i) (lc_ks c), map_option (\<lambda>r. r i) (lc_vs c))"

definition token_rows :: "'x arith \<Rightarrow> bool \<Rightarrow> 'x token_row \<Rightarrow> 'x token_row \<Rightarrow> 'x slot_rows" where
  "token_rows ar scaled k v = (payload ar scaled k, payload ar scaled v,
     if scaled then Some (map (head_scale ar) k) else None, if scaled then Some (map (head_scale ar) v) else None)"

definition scales_agree :: "bool \<Rightarrow> 'x layer_cache \<Rightarrow> bool" where
  "scales_agree scaled c \<longleftrightarrow> (lc_ks c \<noteq> None \<longleftrightarrow> scaled) \<and> (lc_vs c \<noteq> None \<longleftrightarrow> scaled)"

lemma validated_scales: "validate_scales c = Inr scaled \<Longrightarrow> scales_agree scaled c"
  by (auto simp: validate_scales_def scales_agree_def need_def split: if_splits)

lemma stored_at:
  assumes "scales_agree scaled c" and "0 \<le> s"
  shows "slot_rows (write_token ar scaled (s, k, v) c) i = (if i = nat s then token_rows ar scaled k v else slot_rows c i)"
    and "scales_agree scaled (write_token ar scaled (s, k, v) c)"
  using assms by (auto simp: slot_rows_def write_token_def put_token_def token_rows_def scales_agree_def Let_def option.map_comp comp_def)

lemma stored_others:
  assumes "scales_agree scaled c" and "\<forall>(s, k, v) \<in> set xs. 0 \<le> s \<and> s \<noteq> int i"
  shows "slot_rows (fold (write_token ar scaled) xs c) i = slot_rows c i"
  using assms
proof (induction xs arbitrary: c)
  case (Cons x xs)
  obtain s k v where x: "x = (s, k, v)" by (cases x)
  have s: "0 \<le> s" "i \<noteq> nat s" using Cons.prems(2) x by auto
  have "slot_rows (fold (write_token ar scaled) xs (write_token ar scaled x c)) i = slot_rows (write_token ar scaled x c) i"
    by (rule Cons.IH) (use stored_at(2)[OF Cons.prems(1) s(1)] Cons.prems(2) x in auto)
  then show ?case using stored_at(1)[OF Cons.prems(1) s(1), of ar k v i] s(2) x by simp
qed simp

lemma stored_token:
  assumes "scales_agree scaled c" and "distinct (map fst xs)" and "\<forall>(s, k, v) \<in> set xs. 0 \<le> s" and "t < length xs" and "xs ! t = (int i, k, v)"
  shows "slot_rows (fold (write_token ar scaled) xs c) i = token_rows ar scaled k v"
  using assms
proof (induction xs arbitrary: c t)
  case (Cons x xs)
  obtain s k' v' where x: "x = (s, k', v')" by (cases x)
  have s: "0 \<le> s" using Cons.prems(3) x by auto
  note at = stored_at[OF Cons.prems(1) s, of ar k' v']
  show ?case
  proof (cases t)
    case 0
    then have e: "s = int i" "k' = k" "v' = v" using Cons.prems(5) x by simp_all
    have "slot_rows (fold (write_token ar scaled) xs (write_token ar scaled x c)) i = slot_rows (write_token ar scaled x c) i"
    proof (rule stored_others)
      show "\<forall>(s, k, v) \<in> set xs. 0 \<le> s \<and> s \<noteq> int i" using Cons.prems(2,3) x e(1) by force
    qed (use at(2) x in simp)
    then show ?thesis using at(1)[of i] x e by simp
  next
    case (Suc j)
    have "slot_rows (fold (write_token ar scaled) xs (write_token ar scaled x c)) i = token_rows ar scaled k v"
      by (rule Cons.IH[of _ j]) (use Cons.prems Suc at(2) x in simp_all)
    then show ?thesis by simp
  qed
qed simp

end
