(* ===== verification/Paged_Gather.thy ===== *)
theory Paged_Gather imports KV_Store begin

text \<open>
  Reading the paged cache: \<open>prism_infer/ops/paged_attention_reference.py\<close> (the loop over pages, the vectorized
  gather, the gather by slots, dequantization), \<open>prism_infer/ops/paged_kv_gather.py\<close> (the fused kernel over flat
  element offsets) and the page lists of \<open>prism_infer/ops/flashinfer_paged.py\<close>.  Page tables are lists of
  integers with \<open>-1\<close> as padding.
\<close>

section \<open>The loop over pages\<close>

fun gather_pages :: "nat \<Rightarrow> nat \<Rightarrow> 'r rows \<Rightarrow> int list \<Rightarrow> nat \<Rightarrow> py_error + 'r list \<times> nat" where
  "gather_pages page blocks rows [] remaining = Inr ([], remaining)"
| "gather_pages page blocks rows (b # bs) remaining =
     (if remaining = 0 \<or> b < 0 then Inr ([], remaining)
      else need RuntimeError (b < int blocks)
        (let n = min page remaining in
         bind_res (gather_pages page blocks rows bs (remaining - n)) (\<lambda>(pieces, m).
         Inr (map (\<lambda>i. rows (nat b * page + i)) [0..<n] @ pieces, m))))"

text \<open>Keys and values are read along the same table, so the pair is read at once.\<close>

definition gather_paged_kv_for_sequence ::
    "nat \<Rightarrow> nat \<Rightarrow> 'k rows \<Rightarrow> 'v rows \<Rightarrow> int list \<Rightarrow> int \<Rightarrow> py_error + 'k list \<times> 'v list" where
  "gather_paged_kv_for_sequence page blocks k v ids context_len =
     need ValueError (0 < context_len)
    (bind_res (gather_pages page blocks (\<lambda>i. (k i, v i)) ids (nat context_len)) (\<lambda>(pieces, m).
     need RuntimeError (m = 0 \<and> pieces \<noteq> []) (Inr (map fst pieces, map snd pieces))))"

section \<open>Dequantization\<close>

definition scaled_head :: "'x arith \<Rightarrow> 'x list \<Rightarrow> 'x \<Rightarrow> 'x list" where
  "scaled_head ar v s = map (\<lambda>x. ar_mul ar (ar_target ar x) (ar_target ar s)) v"

definition dequantize_cache_for_attention :: "'x arith \<Rightarrow> bool \<Rightarrow> 'x token_row list \<Rightarrow> 'x list list option \<Rightarrow> py_error + 'x token_row list" where
  "dequantize_cache_for_attention ar fp8 rows scales =
    (case scales of
       None \<Rightarrow> Inr (if fp8 then map (map (map (ar_target ar))) rows else rows)
     | Some ss \<Rightarrow> need ValueError fp8
         (need ValueError (map length ss = map length rows) (Inr (map2 (map2 (scaled_head ar)) rows ss))))"

fun expand_gqa_kv ::
    "nat \<Rightarrow> nat \<Rightarrow> 'x token_row list \<times> 'x token_row list \<Rightarrow> py_error + 'x token_row list \<times> 'x token_row list" where
  "expand_gqa_kv num_heads num_kv_heads (k, v) =
    (if num_heads = num_kv_heads then Inr (k, v)
     else need ValueError (0 < num_kv_heads \<and> num_heads mod num_kv_heads = 0)
       (let repeat_heads = map (\<lambda>row. concat (map (replicate (num_heads div num_kv_heads)) row)) in
        Inr (repeat_heads k, repeat_heads v)))"

text \<open>Payload and scales are read by the same reader and dequantized.\<close>

definition dequantized_kv ::
    "'x arith \<Rightarrow> bool \<Rightarrow> py_error + 'x token_row list \<times> 'x token_row list \<Rightarrow> (py_error + 'x list list \<times> 'x list list) option \<Rightarrow>
     py_error + 'x token_row list \<times> 'x token_row list" where
  "dequantized_kv ar fp8 payload_read scale_read =
     bind_res payload_read (\<lambda>(keys, values).
     bind_res (case scale_read of None \<Rightarrow> Inr (None, None) | Some r \<Rightarrow> bind_res r (\<lambda>(a, b). Inr (Some a, Some b))) (\<lambda>(k_scales, v_scales).
     bind_res (dequantize_cache_for_attention ar fp8 keys k_scales) (\<lambda>keys.
     bind_res (dequantize_cache_for_attention ar fp8 values v_scales) (\<lambda>values. Inr (keys, values)))))"

definition read_with_scales :: "'x layer_cache \<Rightarrow> ('x list rows \<Rightarrow> 'x list rows \<Rightarrow> py_error + 'a) \<Rightarrow> (py_error + 'a) option" where
  "read_with_scales c reader =
    (case lc_ks c of None \<Rightarrow> None | Some ks \<Rightarrow> Some (case lc_vs c of None \<Rightarrow> Inl TypeError | Some vs \<Rightarrow> reader ks vs))"

definition gathered_kv :: "'x arith \<Rightarrow> 'x layer_cache \<Rightarrow> int list \<Rightarrow> int \<Rightarrow> py_error + 'x token_row list \<times> 'x token_row list" where
  "gathered_kv ar c ids context_len =
     dequantized_kv ar (lc_fp8 c) (gather_paged_kv_for_sequence (lc_page c) (lc_blocks c) (lc_k c) (lc_v c) ids context_len)
       (read_with_scales c (\<lambda>ks vs. gather_paged_kv_for_sequence (lc_page c) (lc_blocks c) ks vs ids context_len))"

definition gather_and_prepare ::
    "'x arith \<Rightarrow> nat \<Rightarrow> nat \<Rightarrow> 'x layer_cache \<Rightarrow> int list \<Rightarrow> int \<Rightarrow> py_error + 'x token_row list \<times> 'x token_row list" where
  "gather_and_prepare ar num_heads num_kv_heads c ids context_len =
     bind_res (gathered_kv ar c ids context_len) (expand_gqa_kv num_heads num_kv_heads)"

section \<open>The vectorized gather\<close>




section \<open>The fused kernel\<close>











section \<open>Retained slots\<close>

definition gather_paged_kv_slots_for_sequence :: "nat \<Rightarrow> 'k rows \<Rightarrow> 'v rows \<Rightarrow> int list \<Rightarrow> py_error + 'k list \<times> 'v list" where
  "gather_paged_kv_slots_for_sequence num_slots k v retained =
     need RuntimeError (retained \<noteq> [])
    (need IndexError (list_all (\<lambda>s. 0 \<le> s \<and> s < int num_slots) retained)
    (Inr (map (\<lambda>s. k (nat s)) retained, map (\<lambda>s. v (nat s)) retained)))"

section \<open>What a gather reads\<close>

definition covers :: "nat \<Rightarrow> nat \<Rightarrow> int list \<Rightarrow> nat \<Rightarrow> bool" where
  "covers page blocks ids n \<longleftrightarrow> list_all (\<lambda>j. j < length ids \<and> 0 \<le> ids ! j \<and> ids ! j < int blocks) [0..<ceil_div n page]"


lemma covers_0 [simp]: "0 < page \<Longrightarrow> covers page blocks ids 0"
  by (simp add: covers_def)








section \<open>The fused kernel reads the same rows\<close>



























end
