(* ===== verification/Input_Preparation.thy ===== *)
theory Input_Preparation imports Batch_Plan KV_Memory begin

text \<open>
  \<open>prism_infer/engine/input_preparation.py\<close>: from scheduled requests to the flat inputs of one model step.
  A tensor that is built from a list is that list; the device copies are the identity.  A stack of rows
  (patches, visual embeddings) is the list of its rows.  The three-axis position tensors come from the model
  and stay opaque: their shape and the columns of a range of positions are the arguments \<open>shape\<close> and
  \<open>columns\<close>.
\<close>

section \<open>The host side of a prefill batch\<close>

type_synonym mrope_column = "int \<times> int \<times> int"

record host_batch =
  hb_input_ids :: "int list"
  hb_text_positions :: "nat list"
  hb_mrope_chunks :: "mrope_column list list"
  hb_cu_q :: "nat list"
  hb_cu_k :: "nat list"
  hb_max_q :: nat
  hb_max_k :: nat
  hb_slots :: "nat list"
  hb_pixels :: "patch list list"
  hb_image_grids :: "grid list"
  hb_videos :: "patch list list"
  hb_video_grids :: "grid list"
  hb_embeds :: "tensor list"
  hb_deepstack :: "tensor list list"

definition new_host :: host_batch where
  "new_host = \<lparr>hb_input_ids = [], hb_text_positions = [], hb_mrope_chunks = [], hb_cu_q = [0], hb_cu_k = [0],
     hb_max_q = 0, hb_max_k = 0, hb_slots = [], hb_pixels = [], hb_image_grids = [], hb_videos = [], hb_video_grids = [],
     hb_embeds = [], hb_deepstack = []\<rparr>"

definition preparer_new :: "int \<Rightarrow> py_error + nat" where
  "preparer_new block_size = need ValueError (0 < block_size) (Inr (nat block_size))"

definition validate_batch :: "sequence list \<Rightarrow> py_error + unit" where
  "validate_batch seqs =
     need ValueError (seqs \<noteq> [])
    (need RuntimeError (list_all (\<lambda>s. sq_cpu_block_table s = []) seqs) (Inr ()))"

definition pad_table :: "nat \<Rightarrow> nat list \<Rightarrow> int list" where
  "pad_table width table = map int table @ replicate (width - length table) (-1)"

definition max_blocks :: "sequence list \<Rightarrow> nat" where
  "max_blocks seqs = Max (set (map (\<lambda>s. length (sq_block_table s)) seqs))"

definition prepare_block_tables :: "sequence list \<Rightarrow> py_error + int list list" where
  "prepare_block_tables seqs =
     bind_res (validate_batch seqs) (\<lambda>_.
     need RuntimeError (list_all (\<lambda>s. sq_block_table s \<noteq> []) seqs)
    (Inr (map (\<lambda>s. pad_table (max_blocks seqs) (sq_block_table s)) seqs)))"

fun rest_of_prompt :: "sequence list \<Rightarrow> py_error + prefill_slice list" where
  "rest_of_prompt [] = Inr []"
| "rest_of_prompt (s # seqs) =
     bind_res (prefill_slice_new (PInt (int (sq_seq_id s))) (int (sq_effective_prefill_start s)) (int (sq_num_prompt_tokens s))) (\<lambda>sl.
     bind_res (rest_of_prompt seqs) (\<lambda>sls. Inr (sl # sls)))"

fun check_slices :: "sequence list \<Rightarrow> prefill_slice list \<Rightarrow> py_error + unit" where
  "check_slices (s # seqs) (sl # sls) =
     need ValueError (ps_sequence_id sl = sq_seq_id s)
    (need ValueError (ps_token_end sl \<le> int (sq_num_prompt_tokens s)) (check_slices seqs sls))"
| "check_slices _ _ = Inr ()"

definition normalize_prefill_slices :: "sequence list \<Rightarrow> prefill_slice list option \<Rightarrow> py_error + prefill_slice list" where
  "normalize_prefill_slices seqs slices =
     bind_res (case slices of None \<Rightarrow> rest_of_prompt seqs | Some sls \<Rightarrow> Inr sls) (\<lambda>sls.
     need ValueError (length sls = length seqs)
    (bind_res (check_slices seqs sls) (\<lambda>_. Inr sls)))"

definition validate_position_ids :: "(tensor \<Rightarrow> nat list) \<Rightarrow> sequence \<Rightarrow> nat \<Rightarrow> py_error + unit" where
  "validate_position_ids shape s token_end =
    (case sq_position_ids s of None \<Rightarrow> Inr ()
     | Some p \<Rightarrow> need ValueError (length (shape p) = 3 \<and> take 2 (shape p) = [3, 1])
        (need ValueError (token_end \<le> shape p ! 2) (Inr ())))"

section \<open>Media of a slice\<close>

text \<open>The rows of the cached embeddings that a slice needs: all of them, or those of the images it covers.\<close>

definition cached_rows :: "int \<Rightarrow> sequence \<Rightarrow> nat \<Rightarrow> nat \<Rightarrow> py_error + (nat \<times> nat)" where
  "cached_rows merge_size s a b =
    (case sq_image_token_spans s of None \<Rightarrow> Inl ValueError
     | Some spans \<Rightarrow> bind_res (image_range_coverage spans a b) (\<lambda>coverage.
        case coverage of None \<Rightarrow> Inl ValueError
        | Some (covered, _) \<Rightarrow>
            (case sq_image_grid_thw s of None \<Rightarrow> Inl TypeError
             | Some g \<Rightarrow> need ZeroDivisionError (g = [] \<or> merge_size \<noteq> 0)
                (let tokens = map (\<lambda>r. grid_prod r div (nat \<bar>merge_size\<bar> * nat \<bar>merge_size\<bar>)) g in
                 Inr (sum_list (take (hd covered) tokens), sum_list (take (last covered + 1) tokens))))))"

definition add_deepstack :: "(tensor \<Rightarrow> nat list) \<Rightarrow> tensor \<Rightarrow> tensor list \<Rightarrow> host_batch \<Rightarrow> py_error + host_batch" where
  "add_deepstack shape embeds deepstack h =
     need RuntimeError (deepstack \<noteq> [])
    (let chunks = (if hb_deepstack h = [] then replicate (length deepstack) [] else hb_deepstack h) in
     need RuntimeError (length chunks = length deepstack)
    (need ValueError (list_all (\<lambda>v. shape v = shape embeds) deepstack)
    (Inr (h\<lparr>hb_embeds := hb_embeds h @ [embeds],
            hb_deepstack := map2 (\<lambda>c v. c @ [v]) chunks deepstack\<rparr>))))"

definition append_cached_media ::
    "(tensor \<Rightarrow> nat list) \<Rightarrow> int \<Rightarrow> sequence \<Rightarrow> tensor \<Rightarrow> int list \<Rightarrow> nat \<Rightarrow> nat \<Rightarrow> host_batch \<Rightarrow> py_error + host_batch" where
  "append_cached_media shape merge_size s visual current a b h =
    (let count = (\<lambda>tok. case tok of None \<Rightarrow> 0 | Some t \<Rightarrow> count_list current t);
         video = count (sq_video_token_id s);
         observed = count (sq_image_token_id s) + count (sq_video_token_id s);
         expected = sq_image_token_count s + sq_video_token_count s in
     need ValueError (sq_video_token_id s = None \<or> video \<in> {0, sq_video_token_count s})
    (if observed = 0 then Inr h
     else bind_res (if observed \<noteq> expected then bind_res (cached_rows merge_size s a b) (\<lambda>(i, j).
              Inr (py_slice i j visual, map (py_slice i j) (sq_precomputed_deepstack s)))
            else Inr (visual, sq_precomputed_deepstack s)) (\<lambda>(embeds, deepstack).
       need ValueError (length embeds = observed) (add_deepstack shape embeds deepstack h))))"

definition append_images :: "int \<Rightarrow> sequence \<Rightarrow> int list \<Rightarrow> nat \<Rightarrow> nat \<Rightarrow> host_batch \<Rightarrow> py_error + host_batch" where
  "append_images merge_size s current a b h =
    (case sq_pixel_values s of None \<Rightarrow> Inr h | Some payload \<Rightarrow>
     (case sq_image_grid_thw s of None \<Rightarrow> Inl RuntimeError | Some g \<Rightarrow>
      (case sq_image_token_id s of None \<Rightarrow> Inl RuntimeError | Some tok \<Rightarrow>
         need RuntimeError (0 < sq_image_token_count s)
        (let observed = count_list current tok in
         if observed = 0 then Inr h
         else if observed = sq_image_token_count s
         then Inr (h\<lparr>hb_pixels := hb_pixels h @ [payload], hb_image_grids := hb_image_grids h @ [g]\<rparr>)
         else (case sq_image_token_spans s of None \<Rightarrow> Inl ValueError | Some spans \<Rightarrow>
           bind_res (split_image_payloads_for_range payload g merge_size spans a b) (\<lambda>(part, grid_part, pads).
           need ValueError (pads = observed)
          (case (part, grid_part) of
             (Some p, Some q) \<Rightarrow> Inr (h\<lparr>hb_pixels := hb_pixels h @ [p], hb_image_grids := hb_image_grids h @ [q]\<rparr>)
           | _ \<Rightarrow> Inl ValueError)))))))"

definition append_videos :: "sequence \<Rightarrow> int list \<Rightarrow> host_batch \<Rightarrow> py_error + host_batch" where
  "append_videos s current h =
    (case sq_pixel_values_videos s of None \<Rightarrow> Inr h | Some payload \<Rightarrow>
     (case sq_video_grid_thw s of None \<Rightarrow> Inl RuntimeError | Some g \<Rightarrow>
      (case sq_video_token_id s of None \<Rightarrow> Inl RuntimeError | Some tok \<Rightarrow>
         need RuntimeError (0 < sq_video_token_count s)
        (let observed = count_list current tok in
         need ValueError (observed \<in> {0, sq_video_token_count s})
        (if observed = 0 then Inr h
         else Inr (h\<lparr>hb_videos := hb_videos h @ [payload], hb_video_grids := hb_video_grids h @ [g]\<rparr>))))))"

definition append_sequence_media ::
    "(tensor \<Rightarrow> nat list) \<Rightarrow> int \<Rightarrow> bool \<Rightarrow> sequence \<Rightarrow> int list \<Rightarrow> nat \<Rightarrow> nat \<Rightarrow> host_batch \<Rightarrow> py_error + host_batch" where
  "append_sequence_media shape merge_size force_raw s current a b h =
    (case sq_precomputed_visual_embeds s of
       Some visual \<Rightarrow> if \<not> force_raw then append_cached_media shape merge_size s visual current a b h
         else bind_res (append_images merge_size s current a b h) (append_videos s current)
     | None \<Rightarrow> bind_res (append_images merge_size s current a b h) (append_videos s current))"

section \<open>Prefill\<close>

definition physical_query_start :: "sequence \<Rightarrow> nat \<Rightarrow> nat" where
  "physical_query_start s token_start = (case sq_kv_layout s of None \<Rightarrow> token_start | Some ly \<Rightarrow> ly_physical_kv_len ly)"

definition write_slot :: "nat \<Rightarrow> nat list \<Rightarrow> nat \<Rightarrow> nat" where
  "write_slot bs table i = table ! (i div bs) * bs + i mod bs"

definition append_prefill_sequence ::
    "(tensor \<Rightarrow> nat list) \<Rightarrow> (tensor \<Rightarrow> nat \<Rightarrow> nat \<Rightarrow> mrope_column list) \<Rightarrow> nat \<Rightarrow> bool \<Rightarrow> sequence \<Rightarrow> nat \<Rightarrow> nat \<Rightarrow>
     host_batch \<Rightarrow> py_error + host_batch" where
  "append_prefill_sequence shape columns bs uses_mrope s a b h =
    (let h = h\<lparr>hb_input_ids := hb_input_ids h @ py_slice a b (sq_token_ids s)\<rparr> in
     bind_res (if uses_mrope then bind_res (validate_position_ids shape s b) (\<lambda>_.
           Inr (h\<lparr>hb_mrope_chunks := hb_mrope_chunks h @ [case sq_position_ids s of
              None \<Rightarrow> map (\<lambda>i. (int i, int i, int i)) [a..<b] | Some p \<Rightarrow> columns p a b]\<rparr>))
         else Inr (h\<lparr>hb_text_positions := hb_text_positions h @ [a..<b]\<rparr>)) (\<lambda>h.
     let n = b - a; start = physical_query_start s a; key_length = start + n;
         h = h\<lparr>hb_cu_q := hb_cu_q h @ [last (hb_cu_q h) + n], hb_cu_k := hb_cu_k h @ [last (hb_cu_k h) + key_length],
               hb_max_q := max n (hb_max_q h), hb_max_k := max key_length (hb_max_k h)\<rparr> in
     if sq_block_table s = [] then Inr h
     else need RuntimeError (ceil_div key_length bs \<le> length (sq_block_table s))
       (Inr (h\<lparr>hb_slots := hb_slots h @ map (write_slot bs (sq_block_table s)) [start..<start + n]\<rparr>))))"

text \<open>The host loop of \<open>prepare_prefill\<close> over the requests and their slices.\<close>

fun append_all ::
    "(tensor \<Rightarrow> nat list) \<Rightarrow> (tensor \<Rightarrow> nat \<Rightarrow> nat \<Rightarrow> mrope_column list) \<Rightarrow> nat \<Rightarrow> int \<Rightarrow> bool \<Rightarrow> bool \<Rightarrow> (sequence \<times> prefill_slice) list \<Rightarrow>
     host_batch \<Rightarrow> py_error + host_batch" where
  "append_all shape columns bs merge uses_mrope force_raw [] h = Inr h"
| "append_all shape columns bs merge uses_mrope force_raw ((s, sl) # rest) h =
    (let a = nat (ps_token_start sl); b = nat (ps_token_end sl) in
     bind_res (append_prefill_sequence shape columns bs uses_mrope s a b h) (\<lambda>h.
     bind_res (if uses_mrope then append_sequence_media shape merge force_raw s (py_slice a b (sq_token_ids s)) a b h else Inr h) (\<lambda>h.
     append_all shape columns bs merge uses_mrope force_raw rest h)))"

record media_inputs =
  mi_pixels :: "patch list option"
  mi_image_grid :: "grid option"
  mi_videos :: "patch list option"
  mi_video_grid :: "grid option"
  mi_embeds :: "tensor option"
  mi_deepstack :: "tensor list"

definition concatenate :: "'a list list \<Rightarrow> 'a list option" where
  "concatenate chunks = (if chunks = [] then None else Some (concat chunks))"

definition multimodal_inputs :: "host_batch \<Rightarrow> py_error + media_inputs" where
  "multimodal_inputs h =
     need RuntimeError (\<not> ((hb_pixels h \<noteq> [] \<or> hb_videos h \<noteq> []) \<and> hb_embeds h \<noteq> []))
    (Inr \<lparr>mi_pixels = concatenate (hb_pixels h), mi_image_grid = concatenate (hb_image_grids h),
       mi_videos = concatenate (hb_videos h), mi_video_grid = concatenate (hb_video_grids h),
       mi_embeds = concatenate (hb_embeds h), mi_deepstack = map concat (hb_deepstack h)\<rparr>)"

record prefill_inputs =
  pi_host :: host_batch
  pi_block_tables :: "int list list option"
  pi_context_lens :: "int list option"
  pi_media :: media_inputs

definition prefill_context_len :: "sequence \<Rightarrow> prefill_slice \<Rightarrow> int" where
  "prefill_context_len s sl = (case sq_kv_layout s of None \<Rightarrow> ps_token_end sl
     | Some ly \<Rightarrow> int (ly_physical_kv_len ly) + ps_num_tokens sl)"

definition has_pixels :: "sequence \<Rightarrow> bool" where
  "has_pixels s \<longleftrightarrow> sq_pixel_values s \<noteq> None \<or> sq_pixel_values_videos s \<noteq> None"

definition prepare_prefill ::
    "(tensor \<Rightarrow> nat list) \<Rightarrow> (tensor \<Rightarrow> nat \<Rightarrow> nat \<Rightarrow> mrope_column list) \<Rightarrow> nat \<Rightarrow> int \<Rightarrow> sequence list \<Rightarrow> prefill_slice list option \<Rightarrow>
     py_error + prefill_inputs" where
  "prepare_prefill shape columns bs merge seqs slices =
     bind_res (validate_batch seqs) (\<lambda>_.
     bind_res (normalize_prefill_slices seqs slices) (\<lambda>sls.
     let uses_mrope = list_ex (\<lambda>s. sq_position_ids s \<noteq> None) seqs;
         force_raw = list_ex (\<lambda>s. has_pixels s \<and> sq_precomputed_visual_embeds s = None) seqs in
     need RuntimeError (list_all (\<lambda>s. has_pixels s \<longrightarrow> sq_position_ids s \<noteq> None) seqs)
    (bind_res (append_all shape columns bs merge uses_mrope force_raw (zip seqs sls) new_host) (\<lambda>h.
     bind_res (if last (hb_cu_q h) < last (hb_cu_k h)
       then bind_res (prepare_block_tables seqs) (\<lambda>tables. Inr (Some tables, Some (map2 prefill_context_len seqs sls)))
       else Inr (None, None)) (\<lambda>(tables, lens).
     bind_res (multimodal_inputs h) (\<lambda>media.
     Inr \<lparr>pi_host = h, pi_block_tables = tables, pi_context_lens = lens, pi_media = media\<rparr>))))))"

section \<open>Decode\<close>

record decode_inputs =
  di_packed_inputs :: "int list"
  di_packed_metadata :: "int list"
  di_batch :: nat
  di_width :: nat
  di_uses_mrope :: bool

text \<open>\<open>tensor.item()\<close> needs a single element.\<close>

definition rope_offset :: "sequence \<Rightarrow> py_error + int" where
  "rope_offset s = (case sq_rope_delta s of None \<Rightarrow> Inr 0 | Some d \<Rightarrow> need RuntimeError (length d = 1) (Inr (hd d)))"

definition decode_slot :: "nat \<Rightarrow> sequence \<Rightarrow> int" where
  "decode_slot bs s = int (last (sq_block_table s) * bs) + sq_physical_last_block_num_tokens s - 1"

fun decode_positions :: "bool \<Rightarrow> sequence list \<Rightarrow> py_error + int list" where
  "decode_positions uses_mrope [] = Inr []"
| "decode_positions uses_mrope (s # seqs) =
     bind_res (if uses_mrope then rope_offset s else Inr 0) (\<lambda>d.
     need RuntimeError (0 < sq_physical_last_block_num_tokens s)
    (bind_res (decode_positions uses_mrope seqs) (\<lambda>ps. Inr ((int (sq_num_tokens s) - 1 + d) # ps))))"

definition prepare_decode :: "nat \<Rightarrow> sequence list \<Rightarrow> py_error + decode_inputs" where
  "prepare_decode bs seqs =
     bind_res (validate_batch seqs) (\<lambda>_.
     need RuntimeError (list_all (\<lambda>s. sq_block_table s \<noteq> []) seqs)
    (let uses_mrope = list_ex (\<lambda>s. sq_rope_delta s \<noteq> None) seqs in
     bind_res (decode_positions uses_mrope seqs) (\<lambda>positions.
     Inr \<lparr>di_packed_inputs = map sq_last_token seqs @ (if uses_mrope then positions @ positions @ positions else positions),
       di_packed_metadata = map (decode_slot bs) seqs @ map (\<lambda>s. int (sq_physical_kv_len s)) seqs @ map (\<lambda>s. int (sq_num_tokens s)) seqs @
         [Max (set (map (\<lambda>s. int (sq_physical_kv_len s)) seqs))] @ concat (map (\<lambda>s. pad_table (max_blocks seqs) (sq_block_table s)) seqs),
       di_batch = length seqs, di_width = max_blocks seqs, di_uses_mrope = uses_mrope\<rparr>)))"

text \<open>The views into the two packed tensors.\<close>

definition di_input_ids :: "decode_inputs \<Rightarrow> int list" where
  "di_input_ids d = take (di_batch d) (di_packed_inputs d)"

definition di_positions :: "decode_inputs \<Rightarrow> int list list" where
  "di_positions d = (let flat = drop (di_batch d) (di_packed_inputs d); n = di_batch d in
     if di_uses_mrope d then map (\<lambda>k. py_slice (k * n) (k * n + n) flat) [0..<3] else [flat])"

definition di_slots :: "decode_inputs \<Rightarrow> int list" where
  "di_slots d = py_slice 0 (di_batch d) (di_packed_metadata d)"

definition di_context_lens :: "decode_inputs \<Rightarrow> int list" where
  "di_context_lens d = py_slice (di_batch d) (2 * di_batch d) (di_packed_metadata d)"

definition di_logical_lens :: "decode_inputs \<Rightarrow> int list" where
  "di_logical_lens d = py_slice (2 * di_batch d) (3 * di_batch d) (di_packed_metadata d)"

definition di_max_context :: "decode_inputs \<Rightarrow> int" where
  "di_max_context d = di_packed_metadata d ! (3 * di_batch d)"

definition di_block_table :: "decode_inputs \<Rightarrow> nat \<Rightarrow> int list" where
  "di_block_table d k = py_slice (3 * di_batch d + 1 + k * di_width d) (3 * di_batch d + 1 + (k + 1) * di_width d) (di_packed_metadata d)"

section \<open>What a prefill batch contains\<close>

definition core :: "host_batch \<Rightarrow> int list \<times> nat list \<times> nat list \<times> nat list" where
  "core h = (hb_input_ids h, hb_cu_q h, hb_cu_k h, hb_slots h)"

definition query_len :: "prefill_slice \<Rightarrow> nat" where
  "query_len sl = nat (ps_token_end sl) - nat (ps_token_start sl)"

definition key_len :: "sequence \<Rightarrow> prefill_slice \<Rightarrow> nat" where
  "key_len s sl = physical_query_start s (nat (ps_token_start sl)) + query_len sl"

definition query_tokens :: "sequence \<times> prefill_slice \<Rightarrow> int list" where
  "query_tokens = (\<lambda>(s, sl). py_slice (nat (ps_token_start sl)) (nat (ps_token_end sl)) (sq_token_ids s))"

definition query_places :: "sequence \<times> prefill_slice \<Rightarrow> nat list" where
  "query_places = (\<lambda>(s, sl). if sq_block_table s = [] then []
     else [physical_query_start s (nat (ps_token_start sl))..<key_len s sl])"

definition query_slots :: "nat \<Rightarrow> sequence \<times> prefill_slice \<Rightarrow> nat list" where
  "query_slots bs x = map (write_slot bs (sq_block_table (fst x))) (query_places x)"

fun running_sums :: "nat \<Rightarrow> nat list \<Rightarrow> nat list" where
  "running_sums n [] = []"
| "running_sums n (x # xs) = (n + x) # running_sums (n + x) xs"

lemma core_media [simp]: "core (hb_pixels_update f h) = core h" "core (hb_image_grids_update f1 h) = core h" "core (hb_videos_update f2 h) = core h"
  "core (hb_video_grids_update f3 h) = core h" "core (hb_embeds_update f4 h) = core h" "core (hb_deepstack_update f5 h) = core h"
  by (simp_all add: core_def)

lemma add_deepstack_core: "add_deepstack shape e ds h = Inr h' \<Longrightarrow> core h' = core h"
  unfolding add_deepstack_def Let_def need_ok by auto

lemma append_images_core: "append_images merge s current a b h = Inr h' \<Longrightarrow> core h' = core h"
  unfolding append_images_def Let_def
  apply (auto simp: res_simps split: option.split_asm if_split_asm)
  subgoal for x2 x2a x2b x2c aa y by (cases aa; auto)
  done

lemma append_videos_core: "append_videos s current h = Inr h' \<Longrightarrow> core h' = core h"
  unfolding append_videos_def Let_def by (auto simp: res_simps split: option.split_asm if_split_asm)

lemma append_cached_core: "append_cached_media shape merge s visual current a b h = Inr h' \<Longrightarrow> core h' = core h"
  unfolding append_cached_media_def Let_def need_ok by (auto simp: bind_res_ok need_ok split: if_split_asm dest!: add_deepstack_core)

lemmas media_core = append_images_core append_videos_core append_cached_core

lemma append_media_core: "append_sequence_media shape merge f s current a b h = Inr h' \<Longrightarrow> core h' = core h"
  by (auto simp: append_sequence_media_def res_simps dest!: media_core split: option.splits if_splits)

lemma append_sequence_core:
  assumes "append_prefill_sequence shape columns bs u s (nat (ps_token_start sl)) (nat (ps_token_end sl)) h = Inr h'" and "hb_cu_q h \<noteq> []" "hb_cu_k h \<noteq> []"
  shows "core h' = (hb_input_ids h @ query_tokens (s, sl), hb_cu_q h @ [last (hb_cu_q h) + query_len sl],
      hb_cu_k h @ [last (hb_cu_k h) + key_len s sl], hb_slots h @ query_slots bs (s, sl)) \<and>
    (sq_block_table s \<noteq> [] \<longrightarrow> ceil_div (key_len s sl) bs \<le> length (sq_block_table s))"
  using assms
  by (auto simp: append_prefill_sequence_def core_def Let_def res_simps query_tokens_def query_slots_def query_places_def key_len_def query_len_def
      split: if_splits)

lemma append_all_core:
  assumes "append_all shape columns bs merge u f xs h = Inr h'" and "hb_cu_q h \<noteq> []" "hb_cu_k h \<noteq> []"
  shows "core h' = (hb_input_ids h @ concat (map query_tokens xs), hb_cu_q h @ running_sums (last (hb_cu_q h)) (map (query_len \<circ> snd) xs),
      hb_cu_k h @ running_sums (last (hb_cu_k h)) (map (\<lambda>(s, sl). key_len s sl) xs), hb_slots h @ concat (map (query_slots bs) xs)) \<and>
    (\<forall>(s, sl) \<in> set xs. sq_block_table s \<noteq> [] \<longrightarrow> ceil_div (key_len s sl) bs \<le> length (sq_block_table s))"
  using assms
proof (induction xs arbitrary: h)
  case Nil
  then show ?case by (simp add: core_def)
next
  case (Cons x xs)
  obtain s sl where [simp]: "x = (s, sl)" by (cases x)
  let ?a = "nat (ps_token_start sl)" and ?b = "nat (ps_token_end sl)"
  from Cons.prems(1) obtain h1 h2 where h: "append_prefill_sequence shape columns bs u s ?a ?b h = Inr h1"
    "(if u then append_sequence_media shape merge f s (py_slice ?a ?b (sq_token_ids s)) ?a ?b h1 else Inr h1) = Inr h2"
    "append_all shape columns bs merge u f xs h2 = Inr h'"
    by (auto simp: Let_def res_simps)
  note c1 = append_sequence_core[OF h(1) Cons.prems(2,3)]
  have "core h2 = core h1" using h(2) by (auto split: if_splits dest: append_media_core)
  then have c2: "core h2 = (hb_input_ids h @ query_tokens (s, sl), hb_cu_q h @ [last (hb_cu_q h) + query_len sl],
      hb_cu_k h @ [last (hb_cu_k h) + key_len s sl], hb_slots h @ query_slots bs (s, sl))" using c1 by simp
  then have "hb_cu_q h2 \<noteq> []" "hb_cu_k h2 \<noteq> []" by (simp_all add: core_def)
  from Cons.IH[OF h(3) this] show ?case using c1 c2 by (auto simp: core_def)
qed

lemma running_sums_nth: "k \<le> length xs \<Longrightarrow> (n # running_sums n xs) ! k = n + sum_list (take k xs)"
proof (induction xs arbitrary: n k)
  case (Cons x xs)
  show ?case
  proof (cases k)
    case (Suc j)
    then show ?thesis using Cons.IH[of j "n + x"] Cons.prems by simp
  qed simp
qed simp

lemma running_sums_length [simp]: "length (running_sums n xs) = length xs"
  by (induction xs arbitrary: n) simp_all

lemma concat_prefix_length: "length (concat (take k xss)) = sum_list (take k (map length xss))"
  by (simp add: length_concat take_map)

text \<open>The running sums of the lengths are the boundaries of the parts of a concatenation.\<close>

lemma segment_of_concat:
  assumes "k < length xss"
  shows "py_slice ((0 # running_sums 0 (map length xss)) ! k) ((0 # running_sums 0 (map length xss)) ! Suc k) (concat xss) = xss ! k"
proof -
  let ?n = "length (concat (take k xss))"
  have "concat xss = concat (take k xss) @ xss ! k @ concat (drop (Suc k) xss)"
    by (metis assms concat.simps(2) concat_append id_take_nth_drop)
  moreover have "(0 # running_sums 0 (map length xss)) ! k = ?n"
    using running_sums_nth[of k "map length xss" 0] assms by (simp add: concat_prefix_length)
  moreover have "(0 # running_sums 0 (map length xss)) ! Suc k = ?n + length (xss ! k)"
    using running_sums_nth[of "Suc k" "map length xss" 0] assms by (simp add: concat_prefix_length take_Suc_conv_app_nth)
  ultimately show ?thesis by (simp add: py_slice_def)
qed

lemma write_slot_eq [simp]: "write_slot bs tab i = slot_of bs tab i"
  by (simp add: write_slot_def slot_of_def)

lemma place_in_table:
  assumes "0 < bs" and "ceil_div (key_len s sl) bs \<le> length (sq_block_table s)" and "p \<in> set (query_places (s, sl))"
  shows "p < length (sq_block_table s) * bs"
proof -
  have "key_len s sl \<le> length (sq_block_table s) * bs" using assms(1,2) ceil_div_le_iff by blast
  moreover have "p < key_len s sl" using assms(3) by (auto simp: query_places_def split: if_splits)
  ultimately show ?thesis by simp
qed

definition query_pages :: "nat \<Rightarrow> sequence \<times> prefill_slice \<Rightarrow> nat set" where
  "query_pages bs x = (\<lambda>p. sq_block_table (fst x) ! (p div bs)) ` set (query_places x)"

lemma query_slots_slot_of: "query_slots bs x = map (slot_of bs (sq_block_table (fst x))) (query_places x)"
  by (simp add: query_slots_def)

lemma distinct_places: "distinct (query_places x)"
  by (cases x) (simp add: query_places_def)

text \<open>A page that a slice writes occurs once in the request's table and in no other table of the batch.\<close>

definition private_writes :: "nat \<Rightarrow> (sequence \<times> prefill_slice) list \<Rightarrow> bool" where
  "private_writes bs xs \<longleftrightarrow> (\<forall>k < length xs. \<forall>b \<in> query_pages bs (xs ! k). count_list (sq_block_table (fst (xs ! k))) b = 1 \<and>
     (\<forall>l < length xs. l \<noteq> k \<longrightarrow> b \<notin> set (sq_block_table (fst (xs ! l)))))"

lemma count_list_once: "count_list xs b = 1 \<Longrightarrow> i < length xs \<Longrightarrow> j < length xs \<Longrightarrow> xs ! i = b \<Longrightarrow> xs ! j = b \<Longrightarrow> i = j"
proof (induction xs arbitrary: i j)
  case (Cons x xs)
  have none: "b \<notin> set xs" if "x = b" using Cons.prems(1) that by (simp add: count_list_0_iff)
  show ?case
  proof (cases i; cases j)
    fix i' j' assume "i = Suc i'" "j = Suc j'"
    then show ?thesis using Cons none by (auto split: if_splits)
  next
    fix i' assume "i = Suc i'" "j = 0"
    then show ?thesis using Cons.prems none by auto
  next
    fix j' assume "i = 0" "j = Suc j'"
    then show ?thesis using Cons.prems none by auto
  qed simp
qed simp

lemma written_slot:
  assumes "0 < bs" and "private_writes bs xs" and "k < length xs" and "l < length xs"
    and "p \<in> set (query_places (xs ! k))" and "p < length (sq_block_table (fst (xs ! k))) * bs" and "q < length (sq_block_table (fst (xs ! l))) * bs"
    and "slot_of bs (sq_block_table (fst (xs ! k))) p = slot_of bs (sq_block_table (fst (xs ! l))) q"
  shows "k = l \<and> p = q"
proof -
  let ?tk = "sq_block_table (fst (xs ! k))" and ?tl = "sq_block_table (fst (xs ! l))"
  have e: "?tk ! (p div bs) = ?tl ! (q div bs)" "p mod bs = q mod bs"
    using arg_cong[OF assms(8), of "\<lambda>x. x div bs"] arg_cong[OF assms(8), of "\<lambda>x. x mod bs"] assms(1) by simp_all
  have b: "?tk ! (p div bs) \<in> query_pages bs (xs ! k)" using assms(5) by (auto simp: query_pages_def)
  have q: "q div bs < length ?tl" "p div bs < length ?tk" using assms(6,7) by (simp_all add: less_mult_imp_div_less)
  have "?tk ! (p div bs) \<in> set ?tl" using q(1) e(1) by simp
  then have kl: "k = l" using assms(2-4) b unfolding private_writes_def by blast
  have "count_list ?tk (?tk ! (p div bs)) = 1" using assms(2,3) b unfolding private_writes_def by blast
  from count_list_once[OF this q(2), of "q div bs"] have "p div bs = q div bs" using kl q e(1) by simp
  then show ?thesis using kl e(2) by (metis div_mult_mod_eq)
qed

lemma query_slots_distinct:
  assumes "0 < bs" and "private_writes bs xs"
    and "\<forall>(s, sl) \<in> set xs. sq_block_table s \<noteq> [] \<longrightarrow> ceil_div (key_len s sl) bs \<le> length (sq_block_table s)"
  shows "distinct (concat (map (query_slots bs) xs))"
proof -
  have room: "p < length (sq_block_table (fst (xs ! k))) * bs" if "k < length xs" "p \<in> set (query_places (xs ! k))" for k p
  proof (cases "xs ! k")
    case (Pair s sl)
    have "sq_block_table s \<noteq> []" using that(2) Pair by (auto simp: query_places_def split: if_splits)
    moreover have "(s, sl) \<in> set xs" using nth_mem[OF that(1)] Pair by simp
    ultimately have "ceil_div (key_len s sl) bs \<le> length (sq_block_table s)" using assms(3) by blast
    from place_in_table[OF assms(1) this] show ?thesis using that(2) Pair by simp
  qed
  have inj: "k = l \<and> p = q" if "k < length xs" "l < length xs" "p \<in> set (query_places (xs ! k))" "q \<in> set (query_places (xs ! l))"
      "slot_of bs (sq_block_table (fst (xs ! k))) p = slot_of bs (sq_block_table (fst (xs ! l))) q" for k l p q
    using written_slot[OF assms(1,2) that(1-3) room[OF that(1,3)] room[OF that(2,4)] that(5)] .
  have "distinct (query_slots bs (xs ! k))" if "k < length xs" for k
  proof -
    have "inj_on (slot_of bs (sq_block_table (fst (xs ! k)))) (set (query_places (xs ! k)))" using inj[OF that that] by (auto intro!: inj_onI)
    then show ?thesis unfolding query_slots_slot_of distinct_map using distinct_places by blast
  qed
  moreover have "set (query_slots bs (xs ! k)) \<inter> set (query_slots bs (xs ! l)) = {}" if "k < length xs" "l < length xs" "k \<noteq> l" for k l
    using inj[OF that(1,2)] that(3) by (auto simp: query_slots_def)
  ultimately show ?thesis
  proof (induction xs)
    case (Cons x xs)
    have IH: "distinct (concat (map (query_slots bs) xs))"
    proof (rule Cons.IH)
      fix k assume "k < length xs"
      then show "distinct (query_slots bs (xs ! k))" using Cons.prems(1)[of "Suc k"] by simp
    next
      fix k l assume "k < length xs" "l < length xs" "k \<noteq> l"
      then show "set (query_slots bs (xs ! k)) \<inter> set (query_slots bs (xs ! l)) = {}" using Cons.prems(2)[of "Suc k" "Suc l"] by simp
    qed
    have "set (query_slots bs x) \<inter> set (query_slots bs y) = {}" if y: "y \<in> set xs" for y
    proof -
      obtain k where "k < length xs" "xs ! k = y" using y by (auto simp: in_set_conv_nth)
      then show ?thesis using Cons.prems(2)[of 0 "Suc k"] by simp
    qed
    then show ?case using IH Cons.prems(1)[of 0] by auto
  qed simp
qed

section \<open>The slices that are prepared\<close>

definition slice_valid :: "prefill_slice \<Rightarrow> bool" where
  "slice_valid sl \<longleftrightarrow> 0 \<le> ps_token_start sl \<and> ps_token_start sl < ps_token_end sl"

lemma prefill_slice_new_valid: "prefill_slice_new i a b = Inr sl \<Longrightarrow> slice_valid sl"
  by (auto simp: prefill_slice_new_def res_simps slice_valid_def)

lemma rest_of_prompt_valid: "rest_of_prompt seqs = Inr sls \<Longrightarrow> list_all slice_valid sls"
  by (induction seqs arbitrary: sls) (auto simp: res_simps dest: prefill_slice_new_valid)

lemma check_slices_ok:
  "check_slices seqs sls = Inr () \<Longrightarrow> k < length seqs \<Longrightarrow> k < length sls \<Longrightarrow>
    ps_sequence_id (sls ! k) = sq_seq_id (seqs ! k) \<and> ps_token_end (sls ! k) \<le> int (sq_num_prompt_tokens (seqs ! k))"
proof (induction seqs sls arbitrary: k rule: check_slices.induct)
  case (1 s seqs sl sls)
  then show ?case by (cases k) (auto simp: res_simps)
qed simp_all

lemma normalized_slices:
  assumes "normalize_prefill_slices seqs slices = Inr sls" and "case slices of None \<Rightarrow> True | Some given_slices \<Rightarrow> list_all slice_valid given_slices"
  shows "length sls = length seqs" and "k < length seqs \<Longrightarrow> slice_valid (sls ! k)"
    and "k < length seqs \<Longrightarrow> ps_sequence_id (sls ! k) = sq_seq_id (seqs ! k)"
    and "k < length seqs \<Longrightarrow> ps_token_end (sls ! k) \<le> int (sq_num_prompt_tokens (seqs ! k))"
proof -
  have c: "length sls = length seqs" "check_slices seqs sls = Inr ()"
    using assms(1) by (auto simp: normalize_prefill_slices_def res_simps)
  show "length sls = length seqs" by (rule c)
  have "list_all slice_valid sls" using assms by (cases slices) (auto simp: normalize_prefill_slices_def res_simps dest: rest_of_prompt_valid)
  then show "k < length seqs \<Longrightarrow> slice_valid (sls ! k)" using c(1) by (simp add: list_all_length)
  show "k < length seqs \<Longrightarrow> ps_sequence_id (sls ! k) = sq_seq_id (seqs ! k)"
    "k < length seqs \<Longrightarrow> ps_token_end (sls ! k) \<le> int (sq_num_prompt_tokens (seqs ! k))"
    using check_slices_ok[OF c(2)] c(1) by simp_all
qed

text \<open>A prepared batch, taken apart.\<close>

lemma prepare_prefill_ok:
  assumes "prepare_prefill shape columns bs merge seqs slices = Inr r"
  shows "\<exists>sls u f. validate_batch seqs = Inr () \<and> normalize_prefill_slices seqs slices = Inr sls \<and>
    append_all shape columns bs merge u f (zip seqs sls) new_host = Inr (pi_host r) \<and>
    (if last (hb_cu_q (pi_host r)) < last (hb_cu_k (pi_host r))
     then \<exists>tables. prepare_block_tables seqs = Inr tables \<and> pi_block_tables r = Some tables \<and> pi_context_lens r = Some (map2 prefill_context_len seqs sls)
     else pi_block_tables r = None \<and> pi_context_lens r = None) \<and>
    multimodal_inputs (pi_host r) = Inr (pi_media r)"
  using assms unfolding prepare_prefill_def Let_def
  by (auto simp: bind_res_ok need_ok split: if_split_asm) blast+

lemma prepared_core:
  assumes "prepare_prefill shape columns bs merge seqs slices = Inr r" and "normalize_prefill_slices seqs slices = Inr sls"
  shows "core (pi_host r) = (concat (map query_tokens (zip seqs sls)), 0 # running_sums 0 (map (query_len \<circ> snd) (zip seqs sls)),
      0 # running_sums 0 (map (\<lambda>(s, sl). key_len s sl) (zip seqs sls)), concat (map (query_slots bs) (zip seqs sls)))"
    and "(s, sl) \<in> set (zip seqs sls) \<Longrightarrow> sq_block_table s \<noteq> [] \<Longrightarrow> ceil_div (key_len s sl) bs \<le> length (sq_block_table s)"
proof -
  obtain u f where a: "append_all shape columns bs merge u f (zip seqs sls) new_host = Inr (pi_host r)"
    using prepare_prefill_ok[OF assms(1)] assms(2) by auto
  have new: "hb_cu_q new_host \<noteq> []" "hb_cu_k new_host \<noteq> []" "core new_host = ([], [0], [0], [])" "last (hb_cu_q new_host) = 0" "last (hb_cu_k new_host) = 0"
    by (simp_all add: new_host_def core_def)
  note c = append_all_core[OF a new(1,2)]
  show "core (pi_host r) = (concat (map query_tokens (zip seqs sls)), 0 # running_sums 0 (map (query_len \<circ> snd) (zip seqs sls)),
      0 # running_sums 0 (map (\<lambda>(s, sl). key_len s sl) (zip seqs sls)), concat (map (query_slots bs) (zip seqs sls)))"
    using c new(3-5) by (simp add: core_def)
  show "(s, sl) \<in> set (zip seqs sls) \<Longrightarrow> sq_block_table s \<noteq> [] \<Longrightarrow> ceil_div (key_len s sl) bs \<le> length (sq_block_table s)"
    using c by blast
qed

lemma query_tokens_length:
  assumes "slice_valid sl" and "ps_token_end sl \<le> int (length (sq_token_ids s))"
  shows "length (query_tokens (s, sl)) = query_len sl"
  using assms by (simp add: query_tokens_def query_len_def py_slice_def slice_valid_def)

text \<open>What request \<open>k\<close> contributes, read off at the boundaries the batch carries.\<close>

lemma prepared_segments:
  assumes prepared: "prepare_prefill shape columns bs merge seqs slices = Inr r" and norm: "normalize_prefill_slices seqs slices = Inr sls"
    and valid: "case slices of None \<Rightarrow> True | Some given_slices \<Rightarrow> list_all slice_valid given_slices"
    and prompt: "\<forall>s \<in> set seqs. sq_num_prompt_tokens s \<le> length (sq_token_ids s)" and k: "k < length seqs"
  shows "py_slice (hb_cu_q (pi_host r) ! k) (hb_cu_q (pi_host r) ! Suc k) (hb_input_ids (pi_host r)) = query_tokens (seqs ! k, sls ! k)"
    and "hb_cu_k (pi_host r) ! Suc k = hb_cu_k (pi_host r) ! k + key_len (seqs ! k) (sls ! k)"
    and "\<forall>s \<in> set seqs. sq_block_table s \<noteq> [] \<Longrightarrow>
      py_slice (hb_cu_q (pi_host r) ! k) (hb_cu_q (pi_host r) ! Suc k) (hb_slots (pi_host r)) = query_slots bs (seqs ! k, sls ! k)"
    and "hb_cu_q (pi_host r) ! Suc k = hb_cu_q (pi_host r) ! k + query_len (sls ! k)"
proof -
  note ns = normalized_slices[OF norm valid]
  let ?xs = "zip seqs sls"
  have c: "hb_input_ids (pi_host r) = concat (map query_tokens ?xs)" "hb_cu_q (pi_host r) = 0 # running_sums 0 (map (query_len \<circ> snd) ?xs)"
    "hb_cu_k (pi_host r) = 0 # running_sums 0 (map (\<lambda>(s, sl). key_len s sl) ?xs)" "hb_slots (pi_host r) = concat (map (query_slots bs) ?xs)"
    using prepared_core(1)[OF prepared norm] by (simp_all add: core_def)
  have at: "k < length ?xs" "?xs ! k = (seqs ! k, sls ! k)" using k ns(1) by simp_all
  have lens: "map (query_len \<circ> snd) ?xs = map length (map query_tokens ?xs)"
  proof (rule nth_equalityI)
    fix i assume "i < length (map (query_len \<circ> snd) ?xs)"
    then have i: "i < length seqs" using ns(1) by simp
    have "sq_num_prompt_tokens (seqs ! i) \<le> length (sq_token_ids (seqs ! i))" using prompt i by simp
    then have "ps_token_end (sls ! i) \<le> int (length (sq_token_ids (seqs ! i)))" using ns(4)[OF i] by linarith
    then show "map (query_len \<circ> snd) ?xs ! i = map length (map query_tokens ?xs) ! i"
      using i ns(1) query_tokens_length[OF ns(2)[OF i]] by simp
  qed simp
  show "py_slice (hb_cu_q (pi_host r) ! k) (hb_cu_q (pi_host r) ! Suc k) (hb_input_ids (pi_host r)) = query_tokens (seqs ! k, sls ! k)"
    unfolding c(1,2) lens by (subst segment_of_concat) (use at in simp_all)
  have step: "(n # running_sums n ns) ! Suc k = (n # running_sums n ns) ! k + ns ! k" if "k < length ns" for n ns
    using running_sums_nth[of k ns n] running_sums_nth[of "Suc k" ns n] that by (simp add: take_Suc_conv_app_nth)
  show "hb_cu_k (pi_host r) ! Suc k = hb_cu_k (pi_host r) ! k + key_len (seqs ! k) (sls ! k)"
    unfolding c(3) by (subst step) (use at in simp_all)
  show "hb_cu_q (pi_host r) ! Suc k = hb_cu_q (pi_host r) ! k + query_len (sls ! k)"
    unfolding c(2) by (subst step) (use at in simp_all)
  assume tables: "\<forall>s \<in> set seqs. sq_block_table s \<noteq> []"
  have lens': "map (query_len \<circ> snd) ?xs = map length (map (query_slots bs) ?xs)"
    using tables by (auto simp: query_slots_def query_places_def key_len_def dest: set_zip_leftD)
  show "py_slice (hb_cu_q (pi_host r) ! k) (hb_cu_q (pi_host r) ! Suc k) (hb_slots (pi_host r)) = query_slots bs (seqs ! k, sls ! k)"
    unfolding c(2,4) lens' by (subst segment_of_concat) (use at in simp_all)
qed

lemma query_len_int: "slice_valid sl \<Longrightarrow> int (query_len sl) = ps_token_end sl - ps_token_start sl"
  unfolding slice_valid_def query_len_def by linarith

lemma prepared_context:
  assumes prepared: "prepare_prefill shape columns bs merge seqs slices = Inr r" and norm: "normalize_prefill_slices seqs slices = Inr sls"
    and valid: "case slices of None \<Rightarrow> True | Some given_slices \<Rightarrow> list_all slice_valid given_slices" and k: "k < length seqs"
    and tables: "pi_block_tables r = Some tables"
  shows "tables ! k = pad_table (max_blocks seqs) (sq_block_table (seqs ! k))"
    and "pi_context_lens r = Some (map2 prefill_context_len seqs sls)"
    and "map2 prefill_context_len seqs sls ! k = int (key_len (seqs ! k) (sls ! k))"
proof -
  have p: "prepare_block_tables seqs = Inr tables" and lens: "pi_context_lens r = Some (map2 prefill_context_len seqs sls)"
    using prepare_prefill_ok[OF prepared] norm tables by (auto split: if_split_asm)
  show "tables ! k = pad_table (max_blocks seqs) (sq_block_table (seqs ! k))" using p k by (auto simp: prepare_block_tables_def res_simps)
  show "pi_context_lens r = Some (map2 prefill_context_len seqs sls)" by (rule lens)
  show "map2 prefill_context_len seqs sls ! k = int (key_len (seqs ! k) (sls ! k))"
    using normalized_slices(1)[OF norm valid] normalized_slices(2)[OF norm valid k] k
    by (auto simp: prefill_context_len_def key_len_def query_len_int physical_query_start_def slice_valid_def ps_num_tokens_def split: option.splits)
qed

text \<open>C18: in a prepared prefill batch the part between two neighbouring boundaries holds exactly the tokens of one
  request's slice and the page slots of the same rows, counted from its stored length; the slots lie inside
  its page table, the key boundaries and context lengths add the new rows to the stored ones, and the padded
  table starts with the request's pages.\<close>

theorem prefill_batch_exact:
  assumes "prepare_prefill shape columns bs merge seqs slices = Inr r" and "0 < bs" and "normalize_prefill_slices seqs slices = Inr sls"
    and "case slices of None \<Rightarrow> True | Some given_slices \<Rightarrow> list_all slice_valid given_slices"
    and "\<forall>s \<in> set seqs. sq_num_prompt_tokens s \<le> length (sq_token_ids s) \<and> sq_block_table s \<noteq> []" and "k < length seqs"
  shows "let s = seqs ! k; a = nat (ps_token_start (sls ! k)); b = nat (ps_token_end (sls ! k)); start = physical_query_start s a;
      q = hb_cu_q (pi_host r); kk = hb_cu_k (pi_host r) in
    a < b \<and> b \<le> sq_num_prompt_tokens s \<and> start + (b - a) \<le> length (sq_block_table s) * bs \<and>
    q ! Suc k = q ! k + (b - a) \<and> kk ! Suc k = kk ! k + (start + (b - a)) \<and>
    py_slice (q ! k) (q ! Suc k) (hb_input_ids (pi_host r)) = py_slice a b (sq_token_ids s) \<and>
    py_slice (q ! k) (q ! Suc k) (hb_slots (pi_host r)) = map (slot_of bs (sq_block_table s)) [start..<start + (b - a)] \<and>
    (\<forall>tables. pi_block_tables r = Some tables \<longrightarrow> take (length (sq_block_table s)) (tables ! k) = map int (sq_block_table s) \<and>
       map_option (\<lambda>lens. lens ! k) (pi_context_lens r) = Some (int (start + (b - a))))"
proof -
  note ns = normalized_slices[OF assms(3,4)]
  have "\<forall>s \<in> set seqs. sq_num_prompt_tokens s \<le> length (sq_token_ids s)" "\<forall>s \<in> set seqs. sq_block_table s \<noteq> []" using assms(5) by simp_all
  note seg = prepared_segments[OF assms(1,3,4) this(1) assms(6)] and nonempty = this(2)
  note ctx = prepared_context[OF assms(1,3,4,6)]
  have "(seqs ! k, sls ! k) \<in> set (zip seqs sls)" using assms(6) ns(1) by (auto simp: set_zip)
  then have "ceil_div (key_len (seqs ! k) (sls ! k)) bs \<le> length (sq_block_table (seqs ! k))"
    using prepared_core(2)[OF assms(1,3)] nonempty assms(6) by simp
  then have fit: "key_len (seqs ! k) (sls ! k) \<le> length (sq_block_table (seqs ! k)) * bs" using assms(2) ceil_div_le_iff by blast
  have slots: "query_slots bs (seqs ! k, sls ! k) =
      map (slot_of bs (sq_block_table (seqs ! k))) [physical_query_start (seqs ! k) (nat (ps_token_start (sls ! k)))..<key_len (seqs ! k) (sls ! k)]"
    using nonempty assms(6) by (simp add: query_slots_def query_places_def)
  have range: "nat (ps_token_start (sls ! k)) < nat (ps_token_end (sls ! k))" "nat (ps_token_end (sls ! k)) \<le> sq_num_prompt_tokens (seqs ! k)"
    using ns(2,4)[OF assms(6)] by (simp_all add: slice_valid_def)
  have table: "take (length (sq_block_table (seqs ! k))) (tables ! k) = map int (sq_block_table (seqs ! k))"
    "map_option (\<lambda>lens. lens ! k) (pi_context_lens r) = Some (int (key_len (seqs ! k) (sls ! k)))"
    if "pi_block_tables r = Some tables" for tables
    using ctx[OF that] by (simp_all add: pad_table_def)
  show ?thesis
    unfolding Let_def query_len_def[symmetric] key_len_def[symmetric]
    by (intro conjI allI impI range fit seg(1)[unfolded query_tokens_def prod.case] seg(2,4) table seg(3)[OF nonempty, unfolded slots])
qed

text \<open>A batch of two: one request from its first token, one whose first page is already stored.\<close>

definition example_batch :: "sequence list" where
  "example_batch = map (\<lambda>table. example_seq\<lparr>sq_pixel_values := None, sq_image_grid_thw := None, sq_block_table := table\<rparr>) [[2, 0], [1, 3]]"

definition example_slices :: "prefill_slice list" where
  "example_slices = map (\<lambda>a. \<lparr>ps_sequence_id = sq_seq_id example_seq, ps_token_start = a, ps_token_end = 6\<rparr>) [0, 4]"

definition example_prefill :: prefill_inputs where
  "example_prefill = (case prepare_prefill (\<lambda>_. []) (\<lambda>_ _ _. []) 4 2 example_batch (Some example_slices) of Inr r \<Rightarrow> r)"

lemma example_prefill_prepared:
  "prepare_prefill (\<lambda>_. []) (\<lambda>_ _ _. []) 4 2 example_batch (Some example_slices) = Inr example_prefill"
proof -
  have "is_ok (prepare_prefill (\<lambda>_. []) (\<lambda>_ _ _. []) 4 2 example_batch (Some example_slices))" by code_simp
  then show ?thesis unfolding is_ok_iff example_prefill_def by force
qed

lemma example_prefill_ready:
  "normalize_prefill_slices example_batch (Some example_slices) = Inr example_slices" "list_all slice_valid example_slices"
  "\<forall>s \<in> set example_batch. sq_num_prompt_tokens s \<le> length (sq_token_ids s) \<and> sq_block_table s \<noteq> []" "length example_batch = 2"
  by code_simp+

theorem prefill_batch_exact_witness:
  "py_slice 6 8 (hb_slots (pi_host example_prefill)) = [12, 13] \<and> hb_cu_q (pi_host example_prefill) ! 2 = 8 \<and>
    py_slice 6 8 (hb_input_ids (pi_host example_prefill)) = [7, 8]"
proof -
  note e = example_prefill_ready
  have valid: "case Some example_slices of None \<Rightarrow> True | Some sls \<Rightarrow> list_all slice_valid sls" using e(2) by simp
  have c: "nat (ps_token_start (example_slices ! 1)) = 4" "nat (ps_token_end (example_slices ! 1)) = 6"
    "physical_query_start (example_batch ! 1) 4 = 4" "sq_block_table (example_batch ! 1) = [1, 3]" "sq_token_ids (example_batch ! 1) = [5, 9, 6, 9, 7, 8]"
    "nat (ps_token_start (example_slices ! 0)) = 0" "nat (ps_token_end (example_slices ! 0)) = 6" "physical_query_start (example_batch ! 0) 0 = 0"
    "hb_cu_q (pi_host example_prefill) ! 0 = 0" by code_simp+
  have q: "hb_cu_q (pi_host example_prefill) ! 1 = 6"
    using prefill_batch_exact[OF example_prefill_prepared _ e(1) valid e(3), of 0] e(4) c by (simp add: Let_def)
  have two: "Suc 1 = 2" by simp
  show ?thesis
    using prefill_batch_exact[OF example_prefill_prepared _ e(1) valid e(3), of 1, unfolded Let_def c q two] e(4)
    by (auto simp: upt_rec slot_of_def py_slice_def)
qed

section \<open>What a decode batch contains\<close>

lemma decode_positions_ok:
  "decode_positions u seqs = Inr ps \<Longrightarrow>
    ps = map (\<lambda>s. int (sq_num_tokens s) - 1 + (if u then case sq_rope_delta s of None \<Rightarrow> 0 | Some t \<Rightarrow> hd t else 0)) seqs"
  by (induction seqs arbitrary: ps) (auto simp: res_simps rope_offset_def split: option.splits if_splits)

lemma row_of_rows:
  assumes "\<forall>row \<in> set rows. length row = w" and "k < length rows"
  shows "py_slice (k * w) ((k + 1) * w) (concat rows) = rows ! k"
proof -
  have "(0 # running_sums 0 (map length rows)) ! j = j * w" if "j \<le> length rows" for j
  proof -
    have "map length rows = replicate (length rows) w" using assms(1) by (simp add: map_replicate_const[symmetric] cong: map_cong)
    then show ?thesis using running_sums_nth[of j "map length rows" 0] that by (simp add: sum_list_replicate)
  qed
  from this[of k] this[of "Suc k"] segment_of_concat[OF assms(2)] show ?thesis using assms(2) by simp
qed

lemma pad_table_length: "length table \<le> w \<Longrightarrow> length (pad_table w table) = w"
  by (simp add: pad_table_def)

lemma table_within_max: "s \<in> set seqs \<Longrightarrow> length (sq_block_table s) \<le> max_blocks seqs"
  unfolding max_blocks_def by (intro Max_ge) auto

lemma py_slice_append: "py_slice (length xs + i) (length xs + j) (xs @ ys) = py_slice i j ys"
  by (simp add: py_slice_def)

lemma py_slice_head: "py_slice 0 (length xs) (xs @ ys) = xs"
  by (simp add: py_slice_def)

lemma py_slice_map_append: "length xs = n \<Longrightarrow> py_slice n (n + length ys) (xs @ ys @ zs) = ys"
  by (simp add: py_slice_def)

lemma last_slot:
  assumes "0 < bs" and "tab \<noteq> []" and "length tab = ceil_div n bs"
  shows "int (last tab * bs) + (int n - (int (ceil_div n bs) - 1) * int bs) - 1 = int (slot_of bs tab (n - 1))" and "0 < n"
proof -
  have n: "0 < n" using assms by (metis ceil_div_0 gr0I length_0_conv)
  obtain b where b: "ceil_div n bs = Suc b" using assms(2,3) by (metis length_0_conv not0_implies_Suc)
  then have "b * bs < n" "n \<le> Suc b * bs" using ceil_div_bounds[OF assms(1), of n] by simp_all
  then have "(n - 1) div bs = b" using div_nat_eqI[of bs b "n - 1"] by (simp add: mult.commute)
  moreover have "(n - 1) mod bs = n - 1 - b * bs" using calculation by (metis modulo_nat_def mult.commute)
  moreover have "last tab = tab ! b" using assms(2,3) b by (simp add: last_conv_nth)
  ultimately show "int (last tab * bs) + (int n - (int (ceil_div n bs) - 1) * int bs) - 1 = int (slot_of bs tab (n - 1))"
    using b \<open>b * bs < n\<close> by (simp add: slot_of_def of_nat_diff algebra_simps)
  show "0 < n" by (rule n)
qed

text \<open>C19: the two packed tensors of a decode step read back, through their views, as one token, position (three
  equal axes with rotary offsets), write slot, stored and logical length and page row per request; the slot is
  that of the request's last stored row.\<close>

theorem decode_batch_exact:
  assumes "prepare_decode bs seqs = Inr d" and "0 < bs"
    and "\<forall>s \<in> set seqs. sq_block_size s = bs \<and> length (sq_block_table s) = sq_physical_num_blocks s"
  shows "di_input_ids d = map sq_last_token seqs \<and>
    di_positions d = replicate (if \<exists>s \<in> set seqs. sq_rope_delta s \<noteq> None then 3 else 1)
      (map (\<lambda>s. int (sq_num_tokens s) - 1 + (case sq_rope_delta s of None \<Rightarrow> 0 | Some t \<Rightarrow> hd t)) seqs) \<and>
    di_slots d = map (\<lambda>s. int (slot_of bs (sq_block_table s) (sq_physical_kv_len s - 1))) seqs \<and>
    di_context_lens d = map (\<lambda>s. int (sq_physical_kv_len s)) seqs \<and>
    di_logical_lens d = map (\<lambda>s. int (sq_num_tokens s)) seqs \<and>
    di_max_context d = Max (set (di_context_lens d)) \<and>
    map (di_block_table d) [0..<length seqs] = map (\<lambda>s. pad_table (max_blocks seqs) (sq_block_table s)) seqs"
proof -
  let ?u = "list_ex (\<lambda>s. sq_rope_delta s \<noteq> None) seqs" and ?n = "length seqs" and ?w = "max_blocks seqs"
  let ?slots = "map (decode_slot bs) seqs" and ?kv = "map (\<lambda>s. int (sq_physical_kv_len s)) seqs" and ?len = "map (\<lambda>s. int (sq_num_tokens s)) seqs"
  let ?rows = "map (\<lambda>s. pad_table ?w (sq_block_table s)) seqs"
  obtain ps where tables: "list_all (\<lambda>s. sq_block_table s \<noteq> []) seqs" and ps: "decode_positions ?u seqs = Inr ps"
    and d: "d = \<lparr>di_packed_inputs = map sq_last_token seqs @ (if ?u then ps @ ps @ ps else ps),
       di_packed_metadata = ?slots @ ?kv @ ?len @ [Max (set ?kv)] @ concat ?rows,
       di_batch = ?n, di_width = ?w, di_uses_mrope = ?u\<rparr>"
    using assms(1) unfolding prepare_decode_def Let_def by (auto simp: bind_res_ok need_ok)
  have mrope: "?u \<longleftrightarrow> (\<exists>s \<in> set seqs. sq_rope_delta s \<noteq> None)" by (rule list_ex_iff)
  have ps': "ps = map (\<lambda>s. int (sq_num_tokens s) - 1 + (case sq_rope_delta s of None \<Rightarrow> 0 | Some t \<Rightarrow> hd t)) seqs"
    unfolding decode_positions_ok[OF ps] using mrope by (intro map_cong) (auto split: option.splits)
  have psn: "length ps = ?n" by (simp add: ps')
  have "di_positions d = replicate (if ?u then 3 else 1) ps"
    using psn by (simp add: di_positions_def d py_slice_def upt_rec numeral_eq_Suc)
  moreover have "di_slots d = map (\<lambda>s. int (slot_of bs (sq_block_table s) (sq_physical_kv_len s - 1))) seqs"
  proof -
    have "di_slots d = ?slots" by (simp add: di_slots_def d py_slice_def)
    moreover have "decode_slot bs s = int (slot_of bs (sq_block_table s) (sq_physical_kv_len s - 1))" if "s \<in> set seqs" for s
      using last_slot(1)[OF assms(2), of "sq_block_table s" "sq_physical_kv_len s"] tables assms(3) that
      by (simp add: decode_slot_def sq_physical_last_block_num_tokens_def sq_physical_num_blocks_def list_all_iff)
    ultimately show ?thesis by simp
  qed
  moreover have kv: "di_context_lens d = ?kv" by (simp add: di_context_lens_def d py_slice_def)
  moreover have "di_max_context d = Max (set (di_context_lens d))" unfolding kv by (simp add: di_max_context_def d nth_append)
  moreover have "map (di_block_table d) [0..<?n] = ?rows"
  proof (rule nth_equalityI)
    fix k assume "k < length (map (di_block_table d) [0..<?n])"
    then have k: "k < ?n" by simp
    have triple: "?n * 3 = ?n + (?n + ?n)" by simp
    have w: "\<forall>row \<in> set ?rows. length row = ?w" using table_within_max by (auto intro!: pad_table_length)
    have "py_slice (length (?slots @ ?kv @ ?len @ [Max (set ?kv)]) + k * ?w) (length (?slots @ ?kv @ ?len @ [Max (set ?kv)]) + (k + 1) * ?w)
        ((?slots @ ?kv @ ?len @ [Max (set ?kv)]) @ concat ?rows) = ?rows ! k"
      unfolding py_slice_append by (rule row_of_rows[OF w]) (use k in simp)
    then show "map (di_block_table d) [0..<?n] ! k = ?rows ! k" using k by (simp add: di_block_table_def d algebra_simps triple)
  qed simp
  moreover have "di_input_ids d = map sq_last_token seqs" "di_logical_lens d = ?len"
    by (simp_all add: di_input_ids_def di_logical_lens_def d py_slice_def)
  ultimately show ?thesis using mrope ps' by simp
qed

definition example_decode :: decode_inputs where
  "example_decode = (case prepare_decode 4 example_batch of Inr d \<Rightarrow> d)"

theorem decode_batch_exact_witness:
  "di_slots example_decode = [1, 13] \<and> di_context_lens example_decode = [6, 6] \<and> di_positions example_decode = [[5, 5]]"
proof -
  have "is_ok (prepare_decode 4 example_batch)" by code_simp
  then have p: "prepare_decode 4 example_batch = Inr example_decode" unfolding is_ok_iff example_decode_def by force
  have "\<forall>s \<in> set example_batch. sq_block_size s = 4 \<and> length (sq_block_table s) = sq_physical_num_blocks s" by code_simp
  note decode_batch_exact[OF p _ this]
  moreover have "map (\<lambda>s. int (slot_of 4 (sq_block_table s) (sq_physical_kv_len s - 1))) example_batch = [1, 13]"
    "map (\<lambda>s. int (sq_physical_kv_len s)) example_batch = [6, 6]" "\<not> (\<exists>s \<in> set example_batch. sq_rope_delta s \<noteq> None)"
    "map (\<lambda>s. int (sq_num_tokens s) - 1 + (case sq_rope_delta s of None \<Rightarrow> 0 | Some t \<Rightarrow> hd t)) example_batch = [5, 5]"
    by code_simp+
  ultimately show ?thesis by simp
qed

end
