(* ===== verification/Paged_Plan.thy ===== *)
theory Paged_Plan imports Paged_Gather Input_Preparation begin

text \<open>
  \<open>prism_infer/ops/flashinfer_paged.py\<close>: from padded page tables to the compressed page lists that FlashInfer
  reads, and the static buffers of the decode wrapper.  FlashInfer itself is not modelled: its documented layout
  (the pages of request \<open>i\<close> are \<open>indices[indptr[i]..indptr[i+1]]\<close>, the last one holding \<open>last_page_len[i]\<close> rows) is
  what \<open>csr_pages\<close> and \<open>csr_len\<close> read.
\<close>

section \<open>Plan inputs\<close>

definition last_page_rows :: "nat \<Rightarrow> nat \<Rightarrow> nat" where
  "last_page_rows bs len = (if len mod bs = 0 then bs else len mod bs)"

definition build_flashinfer_decode_plan_inputs :: "nat \<Rightarrow> nat list \<Rightarrow> int list list \<Rightarrow> nat list \<times> int list \<times> nat list" where
  "build_flashinfer_decode_plan_inputs bs lens tables =
    (let pages = map (\<lambda>n. ceil_div n bs) lens in
     (0 # running_sums 0 pages, concat (map2 take pages tables), map (last_page_rows bs) lens))"

definition differences :: "nat list \<Rightarrow> nat list" where
  "differences cu = map2 (-) (tl cu) (butlast cu)"

definition build_flashinfer_plan_inputs ::
    "nat \<Rightarrow> nat list \<Rightarrow> nat list \<Rightarrow> int list list \<Rightarrow> py_error + nat list \<times> nat list \<times> int list \<times> nat list" where
  "build_flashinfer_plan_inputs bs cu_q cu_k tables =
    (let k_lens = differences cu_k; pages = map (\<lambda>n. ceil_div n bs) k_lens in
     bind_res (map_res (\<lambda>i. need IndexError (i < length tables)
         (let seq_blocks = take (pages ! i) (tables ! i) in need RuntimeError (list_all (\<lambda>b. 0 \<le> b) seq_blocks) (Inr seq_blocks)))
       [0..<length cu_q - 1]) (\<lambda>parts.
     Inr (cu_q, 0 # running_sums 0 pages, concat parts, map (last_page_rows bs) k_lens)))"

section \<open>The decode wrapper\<close>

record decode_wrapper =
  dw_page :: nat
  dw_max_batch :: nat
  dw_max_blocks :: nat
  dw_indptr :: "nat list"
  dw_indices :: "int list"
  dw_last :: "nat list"

definition decode_wrapper_new :: "bool \<Rightarrow> nat \<Rightarrow> int \<Rightarrow> int \<Rightarrow> py_error + decode_wrapper" where
  "decode_wrapper_new has_flashinfer block_size max_batch max_width =
     need RuntimeError has_flashinfer
    (need ValueError (0 < max_batch \<and> 0 < max_width)
    (Inr \<lparr>dw_page = block_size, dw_max_batch = nat max_batch, dw_max_blocks = nat max_width,
       dw_indptr = replicate (nat max_batch + 1) 0, dw_indices = replicate (nat max_batch * nat max_width) (-1),
       dw_last = replicate (nat max_batch) 0\<rparr>))"

text \<open>\<open>buffer[start:start + len(xs)].copy_(xs)\<close>\<close>

definition copy_into :: "nat \<Rightarrow> 'a list \<Rightarrow> 'a list \<Rightarrow> py_error + 'a list" where
  "copy_into start xs buf = need RuntimeError (start + length xs \<le> length buf) (Inr (take start buf @ xs @ drop (start + length xs) buf))"

definition table_width :: "int list list \<Rightarrow> nat" where
  "table_width tables = (case tables of [] \<Rightarrow> 0 | row # _ \<Rightarrow> length row)"

definition stage_plan_inputs :: "nat list \<Rightarrow> int list list \<Rightarrow> decode_wrapper \<Rightarrow> py_error + decode_wrapper" where
  "stage_plan_inputs lens tables w =
    (let batch = length lens in
     need RuntimeError (batch \<le> dw_max_batch w)
    (need RuntimeError (table_width tables \<le> dw_max_blocks w)
    (case build_flashinfer_decode_plan_inputs (dw_page w) lens tables of (indptr, indices, lasts) \<Rightarrow>
     bind_res (copy_into 0 indptr (dw_indptr w)) (\<lambda>indptr_buf.
     bind_res (copy_into 0 indices (replicate (length (dw_indices w)) 0)) (\<lambda>indices_buf.
     bind_res (copy_into 0 lasts (replicate (length (dw_last w)) 1)) (\<lambda>last_buf.
     bind_res (if batch < dw_max_batch w
       then copy_into (batch + 1) [length indices + 1..<length indices + dw_max_batch w - batch + 1] indptr_buf else Inr indptr_buf) (\<lambda>indptr_buf.
     Inr (w\<lparr>dw_indptr := indptr_buf, dw_indices := indices_buf, dw_last := last_buf\<rparr>))))))))"

section \<open>What FlashInfer reads\<close>

definition csr_pages :: "nat list \<Rightarrow> int list \<Rightarrow> nat \<Rightarrow> int list" where
  "csr_pages indptr indices i = py_slice (indptr ! i) (indptr ! Suc i) indices"

definition csr_len :: "nat \<Rightarrow> nat list \<Rightarrow> nat list \<Rightarrow> nat \<Rightarrow> nat" where
  "csr_len bs indptr lasts i = (indptr ! Suc i - indptr ! i - 1) * bs + lasts ! i"

definition csr_rows :: "nat \<Rightarrow> 'r rows \<Rightarrow> nat list \<Rightarrow> int list \<Rightarrow> nat list \<Rightarrow> nat \<Rightarrow> 'r list" where
  "csr_rows bs rows indptr indices lasts i = map (row_of bs rows (map nat (csr_pages indptr indices i))) [0..<csr_len bs indptr lasts i]"

lemma last_page_total:
  assumes "0 < bs" and "0 < n"
  shows "(ceil_div n bs - 1) * bs + last_page_rows bs n = n"
proof (cases "n mod bs = 0")
  case True
  then obtain k where k: "n = k * bs" using True by (metis mod_0_imp_dvd dvdE mult.commute)
  then have "0 < k" using assms(2) by (cases k) auto
  have "ceil_div n bs \<le> k" using ceil_div_le_iff[OF assms(1), of n k] k by simp
  moreover have "k - 1 < ceil_div n bs" using less_ceil_div_iff[OF assms(1), of "k - 1" n] k \<open>0 < k\<close> assms(1) by simp
  ultimately have "ceil_div n bs = k" by simp
  then have "(ceil_div n bs - 1) * bs + bs = k * bs" using \<open>0 < k\<close> by (cases k) simp_all
  then show ?thesis using True k by (simp add: last_page_rows_def)
next
  case False
  have "ceil_div n bs \<le> n div bs + 1"
    using ceil_div_le_iff[OF assms(1), of n "n div bs + 1"] dividend_less_div_times[OF assms(1), of n] by (simp add: algebra_simps)
  moreover have "n div bs * bs < n" using False div_mult_mod_eq[of n bs] by linarith
  then have "n div bs < ceil_div n bs" using less_ceil_div_iff[OF assms(1)] by simp
  ultimately have "ceil_div n bs = Suc (n div bs)" by simp
  then show ?thesis using False by (simp add: last_page_rows_def)
qed

lemma row_of_take:
  assumes "p div bs < k" and "k \<le> length tab"
  shows "row_of bs rows (take k tab) p = row_of bs rows tab p"
  using assms by (simp add: row_of_def)

definition wrapper_ok :: "decode_wrapper \<Rightarrow> bool" where
  "wrapper_ok w \<longleftrightarrow> 0 < dw_page w \<and> 0 < dw_max_blocks w \<and> length (dw_indptr w) = dw_max_batch w + 1 \<and>
     length (dw_indices w) = dw_max_batch w * dw_max_blocks w \<and> length (dw_last w) = dw_max_batch w"

lemma decode_wrapper_new_ok: "decode_wrapper_new f bs mb mw = Inr w \<Longrightarrow> 0 < bs \<Longrightarrow> wrapper_ok w"
  by (auto simp: decode_wrapper_new_def wrapper_ok_def res_simps)

text \<open>A batch as the scheduler hands it over: a rectangular table of page rows that cover their lengths.  The wrapper
  accepts it when it is within the static capacity.\<close>

definition decode_table_ok :: "nat \<Rightarrow> nat list \<Rightarrow> int list list \<Rightarrow> bool" where
  "decode_table_ok bs lens tables \<longleftrightarrow> length tables = length lens \<and>
     list_all (\<lambda>row. length row = table_width tables) tables \<and> list_all (\<lambda>n. 0 < n \<and> ceil_div n bs \<le> table_width tables) lens"

definition stageable :: "decode_wrapper \<Rightarrow> nat list \<Rightarrow> int list list \<Rightarrow> bool" where
  "stageable w lens tables \<longleftrightarrow> decode_table_ok (dw_page w) lens tables \<and> length lens \<le> dw_max_batch w \<and> table_width tables \<le> dw_max_blocks w"

lemma stageable_iff: "stageable w lens tables \<longleftrightarrow> length tables = length lens \<and> length lens \<le> dw_max_batch w \<and> table_width tables \<le> dw_max_blocks w \<and>
     list_all (\<lambda>row. length row = table_width tables) tables \<and> list_all (\<lambda>n. 0 < n \<and> ceil_div n (dw_page w) \<le> table_width tables) lens"
  by (auto simp: stageable_def decode_table_ok_def)

lemma copy_into_0: "length xs \<le> length buf \<Longrightarrow> copy_into 0 xs buf = Inr (xs @ drop (length xs) buf)"
  by (simp add: copy_into_def need_def)

lemma running_sums_last: "(n # running_sums n xs) ! length xs = n + sum_list xs"
  using running_sums_nth[of "length xs" xs n] by simp

lemma stageableD:
  assumes "stageable w lens tables" and "i < length lens"
  shows "length (tables ! i) = table_width tables" "0 < lens ! i" "ceil_div (lens ! i) (dw_page w) \<le> length (tables ! i)"
  using assms by (auto simp: stageable_iff list_all_length)

lemma plan_parts:
  assumes "stageable w lens tables"
  shows "map length (map2 take (map (\<lambda>n. ceil_div n (dw_page w)) lens) tables) = map (\<lambda>n. ceil_div n (dw_page w)) lens"
proof (rule nth_equalityI)
  fix i assume "i < length (map length (map2 take (map (\<lambda>n. ceil_div n (dw_page w)) lens) tables))"
  then have i: "i < length lens" by simp
  show "map length (map2 take (map (\<lambda>n. ceil_div n (dw_page w)) lens) tables) ! i = map (\<lambda>n. ceil_div n (dw_page w)) lens ! i"
    using i stageableD(3)[OF assms i] assms by (simp add: stageable_iff)
qed (use assms in \<open>simp add: stageable_iff\<close>)

lemma plan_total:
  assumes "stageable w lens tables"
  shows "sum_list (map (\<lambda>n. ceil_div n (dw_page w)) lens) \<le> length lens * dw_max_blocks w"
proof -
  have "\<forall>n \<in> set lens. ceil_div n (dw_page w) \<le> dw_max_blocks w" using assms by (auto simp: stageable_iff list_all_iff)
  then have "sum_list (map (\<lambda>n. ceil_div n (dw_page w)) lens) \<le> sum_list (map (\<lambda>_. dw_max_blocks w) lens)" by (intro sum_list_mono) auto
  then show ?thesis by (simp add: sum_list_triv)
qed

text \<open>The buffers after staging: the plan, padded with one-row requests on page 0.\<close>

lemma stage_result:
  assumes "wrapper_ok w" and "stageable w lens tables"
  shows "stage_plan_inputs lens tables w = Inr (w\<lparr>
    dw_indptr := (0 # running_sums 0 (map (\<lambda>n. ceil_div n (dw_page w)) lens)) @
      [sum_list (map (\<lambda>n. ceil_div n (dw_page w)) lens) + 1..<sum_list (map (\<lambda>n. ceil_div n (dw_page w)) lens) + dw_max_batch w - length lens + 1],
    dw_indices := concat (map2 take (map (\<lambda>n. ceil_div n (dw_page w)) lens) tables) @
      replicate (dw_max_batch w * dw_max_blocks w - sum_list (map (\<lambda>n. ceil_div n (dw_page w)) lens)) 0,
    dw_last := map (last_page_rows (dw_page w)) lens @ replicate (dw_max_batch w - length lens) 1\<rparr>)"
proof -
  let ?pages = "map (\<lambda>n. ceil_div n (dw_page w)) lens" and ?b = "length lens"
  let ?indptr = "0 # running_sums 0 ?pages" and ?indices = "concat (map2 take ?pages tables)"
  have b: "?b \<le> dw_max_batch w" "table_width tables \<le> dw_max_blocks w" "length tables = ?b" using assms(2) by (simp_all add: stageable_iff)
  have n: "length ?indices = sum_list ?pages" unfolding length_concat plan_parts[OF assms(2)] ..
  have cap: "sum_list ?pages \<le> dw_max_batch w * dw_max_blocks w"
    using plan_total[OF assms(2)] mult_le_mono1[OF b(1), of "dw_max_blocks w"] by linarith
  note ok = assms(1)[unfolded wrapper_ok_def]
  have c1: "copy_into 0 ?indptr (dw_indptr w) = Inr (?indptr @ drop (?b + 1) (dw_indptr w))"
    using copy_into_0[of ?indptr "dw_indptr w"] ok b(1) by simp
  have c2: "copy_into 0 ?indices (replicate (length (dw_indices w)) 0) = Inr (?indices @ replicate (dw_max_batch w * dw_max_blocks w - sum_list ?pages) 0)"
    using copy_into_0[of ?indices "replicate (length (dw_indices w)) 0"] ok cap n by simp
  have c3: "copy_into 0 (map (last_page_rows (dw_page w)) lens) (replicate (length (dw_last w)) 1) =
      Inr (map (last_page_rows (dw_page w)) lens @ replicate (dw_max_batch w - ?b) 1)"
    using copy_into_0[of "map (last_page_rows (dw_page w)) lens" "replicate (length (dw_last w)) 1"] ok b(1) by simp
  have c4: "copy_into (?b + 1) [length ?indices + 1..<length ?indices + dw_max_batch w - ?b + 1] (?indptr @ drop (?b + 1) (dw_indptr w)) =
      Inr (?indptr @ [sum_list ?pages + 1..<sum_list ?pages + dw_max_batch w - ?b + 1])"
    unfolding n using ok b(1) by (simp add: copy_into_def need_def) arith
  show ?thesis
    unfolding stage_plan_inputs_def build_flashinfer_decode_plan_inputs_def Let_def prod.case c1 bind_res_simps c2 c3 c4
    using b ok by (cases "?b < dw_max_batch w") (simp_all add: need_def)
qed

lemma running_sums_within: "k \<le> length xs \<Longrightarrow> (0 # running_sums 0 xs) ! k \<le> sum_list xs"
  using running_sums_nth[of k xs 0] sum_list_append[of "take k xs" "drop k xs"] by simp

lemma nth_left: "i < length xs \<Longrightarrow> (xs @ ys) ! i = xs ! i"
  by (simp add: nth_append)

text \<open>A request of the batch: its pages and its length.\<close>

lemma staged_rows:
  assumes "wrapper_ok w" and "stageable w lens tables" and "stage_plan_inputs lens tables w = Inr w'" and "i < length lens"
  shows "csr_rows (dw_page w) rows (dw_indptr w') (dw_indices w') (dw_last w') i = map (row_of (dw_page w) rows (map nat (tables ! i))) [0..<lens ! i]"
proof -
  let ?pages = "map (\<lambda>n. ceil_div n (dw_page w)) lens"
  let ?indptr = "0 # running_sums 0 ?pages" and ?indices = "concat (map2 take ?pages tables)"
  note w' = stage_result[OF assms(1,2), unfolded assms(3) sum.inject]
  have D: "dw_indptr w' = ?indptr @ [sum_list ?pages + 1..<sum_list ?pages + dw_max_batch w - length lens + 1]"
    "dw_last w' = map (last_page_rows (dw_page w)) lens @ replicate (dw_max_batch w - length lens) 1"
    unfolding w' by (cases w, simp)+
  have at: "dw_indptr w' ! i = ?indptr ! i" "dw_indptr w' ! Suc i = ?indptr ! Suc i" "dw_last w' ! i = last_page_rows (dw_page w) (lens ! i)"
    unfolding D using assms(4) by (subst nth_left, simp_all)+
  have i: "i < length (map2 take ?pages tables)" using assms(2,4) by (simp add: stageable_iff)
  have seg: "py_slice (?indptr ! i) (?indptr ! Suc i) ?indices = take (ceil_div (lens ! i) (dw_page w)) (tables ! i)"
    using segment_of_concat[OF i] i unfolding plan_parts[OF assms(2)] by simp
  have "?indptr ! Suc i \<le> sum_list ?pages" by (rule running_sums_within) (use assms(4) in simp)
  then have "?indptr ! Suc i \<le> length ?indices" unfolding length_concat plan_parts[OF assms(2)] .
  then have pages: "csr_pages (dw_indptr w') (dw_indices w') i = take (ceil_div (lens ! i) (dw_page w)) (tables ! i)"
    unfolding csr_pages_def at(1,2) seg[symmetric] by (simp add: w' py_slice_def)
  have "?indptr ! Suc i = ?indptr ! i + ceil_div (lens ! i) (dw_page w)"
    using running_sums_nth[of i ?pages 0] running_sums_nth[of "Suc i" ?pages 0] assms(4) by (simp add: take_Suc_conv_app_nth)
  then have len: "csr_len (dw_page w) (dw_indptr w') (dw_last w') i = lens ! i"
    using last_page_total[of "dw_page w" "lens ! i"] stageableD(2)[OF assms(2,4)] assms(1) unfolding csr_len_def at by (simp add: wrapper_ok_def)
  show ?thesis unfolding csr_rows_def pages len
  proof (rule map_cong)
    fix p assume "p \<in> set [0..<lens ! i]"
    then have "p div dw_page w < ceil_div (lens ! i) (dw_page w)"
      using assms(1) less_ceil_div_iff[of "dw_page w" "p div dw_page w" "lens ! i"] div_times_less_eq_dividend[of p "dw_page w"]
      by (simp add: wrapper_ok_def)
    then show "row_of (dw_page w) rows (map nat (take (ceil_div (lens ! i) (dw_page w)) (tables ! i))) p = row_of (dw_page w) rows (map nat (tables ! i)) p"
      using row_of_take[of p "dw_page w" _ "map nat (tables ! i)"] stageableD(3)[OF assms(2,4)] by (simp add: take_map)
  qed simp
qed

text \<open>A padding request: the first row of page 0.\<close>

lemma staged_padding:
  assumes "wrapper_ok w" and "stageable w lens tables" and "stage_plan_inputs lens tables w = Inr w'" and "length lens \<le> i" and "i < dw_max_batch w"
  shows "csr_rows (dw_page w) rows (dw_indptr w') (dw_indices w') (dw_last w') i = [rows 0]"
proof -
  let ?pages = "map (\<lambda>n. ceil_div n (dw_page w)) lens"
  let ?n = "sum_list ?pages" and ?indices = "concat (map2 take ?pages tables)"
  note w' = stage_result[OF assms(1,2), unfolded assms(3) sum.inject]
  have n: "length ?indices = ?n" unfolding length_concat plan_parts[OF assms(2)] ..
  have "(0 # running_sums 0 ?pages) ! length ?pages = ?n" using running_sums_last[of 0 ?pages] by simp
  then have s: "(0 # running_sums 0 ?pages) ! length lens = ?n" by simp
  have D: "dw_indptr w' = (0 # running_sums 0 ?pages) @ [?n + 1..<?n + dw_max_batch w - length lens + 1]"
    "dw_last w' = map (last_page_rows (dw_page w)) lens @ replicate (dw_max_batch w - length lens) 1"
    unfolding w' by (cases w, simp)+
  have tail: "dw_indptr w' ! k = ?n + (k - length lens)" if "length lens \<le> k" "k \<le> dw_max_batch w" for k
  proof (cases "k = length lens")
    case True
    then show ?thesis unfolding D using s by (subst nth_left) simp_all
  next
    case False
    then show ?thesis unfolding D nth_append using that by (simp del: upt_Suc)
  qed
  have at: "dw_indptr w' ! i = ?n + (i - length lens)" "dw_indptr w' ! Suc i = Suc (?n + (i - length lens))"
    using tail[of i] tail[of "Suc i"] assms(4,5) by (simp_all add: Suc_diff_le)
  have last: "dw_last w' ! i = 1" unfolding D using assms(4,5) by (simp add: nth_append)
  have "length lens * dw_max_blocks w + (i - length lens) < length lens * dw_max_blocks w + (dw_max_batch w - length lens) * dw_max_blocks w"
  proof -
    have "0 < dw_max_blocks w" using assms(1) by (simp add: wrapper_ok_def)
    then have "dw_max_batch w - length lens \<le> (dw_max_batch w - length lens) * dw_max_blocks w" by simp
    then show ?thesis using assms(4,5) by linarith
  qed
  also have "\<dots> = dw_max_batch w * dw_max_blocks w" using assms(4,5) by (simp add: add_mult_distrib[symmetric])
  finally have cap: "?n + (i - length lens) < dw_max_batch w * dw_max_blocks w" using plan_total[OF assms(2)] by linarith
  have "drop (?n + (i - length lens)) (dw_indices w') = replicate (dw_max_batch w * dw_max_blocks w - ?n - (i - length lens)) 0"
    by (simp add: w' n)
  then have pages: "csr_pages (dw_indptr w') (dw_indices w') i = [0]"
    unfolding csr_pages_def at py_slice_def using cap by (simp add: take_Cons' numeral_nat)
  show ?thesis unfolding csr_rows_def pages csr_len_def at last by (simp add: row_of_def)
qed

lemma staged_batch:
  assumes "wrapper_ok w" and "stageable w lens tables"
  shows "\<exists>w'. stage_plan_inputs lens tables w = Inr w' \<and> wrapper_ok w' \<and>
    (\<forall>i < dw_max_batch w. csr_rows (dw_page w) rows (dw_indptr w') (dw_indices w') (dw_last w') i =
      (if i < length lens then map (row_of (dw_page w) rows (map nat (tables ! i))) [0..<lens ! i] else [rows 0]))"
proof -
  obtain w' where w': "stage_plan_inputs lens tables w = Inr w'" using stage_result[OF assms] by blast
  have b: "length lens \<le> dw_max_batch w" using assms(2) by (simp add: stageable_iff)
  have "length (dw_indices w') = dw_max_batch w * dw_max_blocks w"
  proof -
    have "sum_list (map (\<lambda>n. ceil_div n (dw_page w)) lens) \<le> dw_max_batch w * dw_max_blocks w"
      using plan_total[OF assms(2)] mult_le_mono1[OF b, of "dw_max_blocks w"] by linarith
    moreover have "length (concat (map2 take (map (\<lambda>n. ceil_div n (dw_page w)) lens) tables)) = sum_list (map (\<lambda>n. ceil_div n (dw_page w)) lens)"
      unfolding length_concat plan_parts[OF assms(2)] ..
    ultimately show ?thesis using stage_result[OF assms, unfolded w' sum.inject] by simp
  qed
  moreover have "dw_page w' = dw_page w" "dw_max_blocks w' = dw_max_blocks w" "dw_max_batch w' = dw_max_batch w"
    "length (dw_indptr w') = dw_max_batch w + 1" "length (dw_last w') = dw_max_batch w"
    using stage_result[OF assms, unfolded w' sum.inject] b by (simp_all del: upt_Suc)
  ultimately have "wrapper_ok w'" using assms(1) by (simp add: wrapper_ok_def)
  moreover have "csr_rows (dw_page w) rows (dw_indptr w') (dw_indices w') (dw_last w') i =
      (if i < length lens then map (row_of (dw_page w) rows (map nat (tables ! i))) [0..<lens ! i] else [rows 0])" if "i < dw_max_batch w" for i
  proof (cases "i < length lens")
    case True
    then show ?thesis using staged_rows[OF assms w' True] by simp
  next
    case False
    then show ?thesis using staged_padding[OF assms w' _ that] by simp
  qed
  ultimately show ?thesis using w' by blast
qed

text \<open>C20: a decode batch whose page rows cover its lengths is staged exactly when it is within the static
  capacity; above it staging raises \<open>RuntimeError\<close>.  A staged batch keeps the buffer sizes; read by FlashInfer's
  layout, each request then has exactly the rows of its padded page table up to its length, and every unused
  request of the captured batch the single first row of page 0.\<close>

theorem flashinfer_stage_exact:
  assumes "wrapper_ok w" and "decode_table_ok (dw_page w) lens tables"
  shows "if length lens \<le> dw_max_batch w \<and> table_width tables \<le> dw_max_blocks w
    then \<exists>w'. stage_plan_inputs lens tables w = Inr w' \<and> wrapper_ok w' \<and>
      (\<forall>i < dw_max_batch w. csr_rows (dw_page w) rows (dw_indptr w') (dw_indices w') (dw_last w') i =
        (if i < length lens then map (row_of (dw_page w) rows (map nat (tables ! i))) [0..<lens ! i] else [rows 0]))
    else stage_plan_inputs lens tables w = Inl RuntimeError"
proof (cases "length lens \<le> dw_max_batch w \<and> table_width tables \<le> dw_max_blocks w")
  case True
  then show ?thesis using staged_batch[OF assms(1), of lens tables rows] assms(2) by (simp add: stageable_def)
next
  case False
  then show ?thesis by (auto simp: stage_plan_inputs_def Let_def need_def)
qed

definition example_wrapper :: decode_wrapper where
  "example_wrapper = (case decode_wrapper_new True 2 3 2 of Inr w \<Rightarrow> w)"

definition example_staged :: decode_wrapper where
  "example_staged = (case stage_plan_inputs [3, 2] [[5, 1], [4, -1]] example_wrapper of Inr w \<Rightarrow> w)"

theorem flashinfer_stage_exact_witness:
  "csr_rows 2 (\<lambda>i. i) (dw_indptr example_staged) (dw_indices example_staged) (dw_last example_staged) 0 = [10, 11, 2] \<and>
    csr_rows 2 (\<lambda>i. i) (dw_indptr example_staged) (dw_indices example_staged) (dw_last example_staged) 2 = [0]"
proof -
  have "wrapper_ok example_wrapper" "decode_table_ok (dw_page example_wrapper) [3, 2] [[5, 1], [4, -1]]"
    "length [3::nat, 2] \<le> dw_max_batch example_wrapper \<and> table_width [[5, 1], [4, -1]] \<le> dw_max_blocks example_wrapper" by code_simp+
  from flashinfer_stage_exact[OF this(1,2), of "\<lambda>i. i", unfolded if_P[OF this(3)]] obtain w' where
    w': "stage_plan_inputs [3, 2] [[5, 1], [4, -1]] example_wrapper = Inr w'" and
    rows: "\<forall>i < dw_max_batch example_wrapper. csr_rows (dw_page example_wrapper) (\<lambda>i. i) (dw_indptr w') (dw_indices w') (dw_last w') i =
      (if i < length [3::nat, 2] then map (row_of (dw_page example_wrapper) (\<lambda>i. i) (map nat ([[5, 1], [4, -1]] ! i))) [0..<[3, 2] ! i] else [0])"
    by blast
  have "example_staged = w'" using w' by (simp add: example_staged_def)
  moreover have up: "[0..<3] = [0, 1, 2::nat]" by code_simp
  moreover have "dw_page example_wrapper = 2" "dw_max_batch example_wrapper = 3" by code_simp+
  ultimately show ?thesis using rows[rule_format, of 0] rows[rule_format, of 2] by (simp add: row_of_def up)
qed

end
