(* ===== verification/KV_Properties.thy ===== *)
theory KV_Properties imports Manager_Properties KV_Memory begin

text \<open>
  The block manager and the storage together: what the pages of a sequence contain before and after
  its pages are moved, compacted, copied or swapped.
\<close>

section \<open>Pages of one sequence only\<close>

lemma reachable_held_by:
  assumes "reachable xx n (m, ss)" and "b < nat n"
  shows "gp_ref (bm_gpu m) b = int (refs_of ss b + count_list (cache_pages None (bm_cache m)) b)"
proof -
  have "bm_inv (refs_of ss) m" using reachable_inv(1)[OF assms(1)] by (simp add: system_inv_def)
  then show ?thesis using refs_okD(2)[OF bm_invD(1)] reachable_inv(2)[OF assms(1)] assms(2) by simp
qed

lemma reachable_table_bound:
  assumes "reachable xx n (m, ss)" and "i < length ss" and "b \<in> set (sq_block_table (ss ! i))"
  shows "b < nat n"
proof -
  have "bm_inv (held_by (refs_of (others i ss)) (sq_block_table (ss ! i))) m"
    by (rule heldD[OF reachable_owned(2)[OF assms(1,2)]])
  moreover have "0 < held_by (refs_of (others i ss)) (sq_block_table (ss ! i)) b"
    using assms(3) by (simp add: held_by_def count_list_pos_iff)
  ultimately show ?thesis using owned_used(2)[OF bm_invD(1)] reachable_inv(2)[OF assms(1)] by metis
qed

lemma refs_of_others: "l < length ss \<Longrightarrow> l \<noteq> i \<Longrightarrow> b \<in> set (sq_block_table (ss ! l)) \<Longrightarrow> 0 < refs_of (others i ss) b"
proof -
  assume l: "l < length ss" "l \<noteq> i" "b \<in> set (sq_block_table (ss ! l))"
  have "ss ! l \<in> set (others i ss)"
  proof (cases "l < i")
    case True
    then have "take i ss ! l = ss ! l" "l < length (take i ss)" using l by auto
    then have "ss ! l \<in> set (take i ss)" by (metis nth_mem)
    then show ?thesis by (simp add: others_def)
  next
    case False
    then have "drop (Suc i) ss ! (l - Suc i) = ss ! l" "l - Suc i < length (drop (Suc i) ss)" using l by auto
    then have "ss ! l \<in> set (drop (Suc i) ss)" by (metis nth_mem)
    then show ?thesis by (simp add: others_def)
  qed
  moreover have "count_list (sq_block_table (ss ! l)) b \<noteq> 0" using l(3) by (simp add: count_list_0_iff)
  ultimately have "refs_of (others i ss) b \<noteq> 0" by (auto simp: refs_of_def sum_list_eq_0_iff)
  then show ?thesis by simp
qed

lemma private_disjoint:
  assumes R: "reachable xx n (m, ss)" and i: "i < length ss" and b: "b \<in> set (sq_block_table (ss ! i))"
    and one: "gp_ref (bm_gpu m) b = 1" and l: "l < length ss" "l \<noteq> i"
  shows "b \<notin> set (sq_block_table (ss ! l))"
proof
  assume "b \<in> set (sq_block_table (ss ! l))"
  then have "0 < refs_of (others i ss) b" by (rule refs_of_others[OF l])
  moreover have "0 < count_list (sq_block_table (ss ! i)) b" using b by (simp add: count_list_pos_iff)
  ultimately show False
    using reachable_held_by[OF R reachable_table_bound[OF R i b]] one refs_of_split[OF i] by (simp add: held_by_def)
qed

section \<open>A pruned sequence\<close>

definition example_memory :: "nat kv_memory" where
  "example_memory = \<lparr>km_block_size = 4, km_dtype = ''bf16'', km_uses_scales = False, km_num_blocks = 4, km_num_cpu_blocks = 2,
     km_gpu = id, km_scales = None, km_cpu = Some id, km_cpu_scales = None\<rparr>"

definition example_pruned :: mseq where
  "example_pruned = (fst example_running, (snd example_running)\<lparr>sq_decision_record := Some (pd_to_record example_decision)\<rparr>)"

lemma example_pruned_reachable: "reachable example_hash 4 (fst example_pruned, [snd example_pruned])"
proof -
  have "system_step example_hash (fst example_running, [snd example_running]) (Update 0 (snd example_pruned))
      (fst example_running, [snd example_running][0 := snd example_pruned])"
    by (rule step_update) (simp_all add: example_pruned_def)
  then show ?thesis using reachable_step[OF example_reachable] by (simp add: example_pruned_def)
qed

section \<open>Compaction\<close>

text \<open>A plan that was built for a sequence of a reachable state can be executed.\<close>

lemma planned_moves:
  assumes "reachable xx n (m, ss)" and "i < length ss"
    and "0 < sq_num_prompt_tokens (ss ! i)" and "sq_num_computed_tokens (ss ! i) \<le> sq_num_prompt_tokens (ss ! i)"
    and "bm_build_compaction_plan (km_dtype k) (m, ss ! i) = (Inr (Some plan), st)" and "km_dtype k \<noteq> []"
    and "memory_ok k" and "km_block_size k = bm_block_size m" and "km_num_blocks k = nat n"
  shows "st = (m, ss ! i)" and "compactable m (ss ! i)" and "planned (bm_block_size m) (ss ! i) (km_dtype k) plan" and "sq_block_size (ss ! i) = bm_block_size m"
    and "length (sq_block_table (ss ! i)) = ceil_div (sq_num_prompt_tokens (ss ! i)) (bm_block_size m)"
    and "pl_physical_prompt_len plan \<noteq> 0"
    and "\<exists>k'. compact_kv_cache [plan] k = (Inr (), k') \<and> same_storage k k' \<and> plan_moved (bm_block_size m) [plan] (km_gpu k) (km_gpu k') \<and>
      scales_moved (bm_block_size m) [plan] (km_scales k) (km_scales k')"
proof -
  let ?s = "ss ! i" and ?bs = "bm_block_size m"
  note h = reachable_owned(2)[OF assms(1,2)]
  show bs: "sq_block_size ?s = ?bs"
    using assms(5) by (auto simp: bm_build_compaction_plan_def thn_def bnd_def bm_assert_block_size_def get_mgr_def get_seq_def
        gets_def chk_def throw_def split: if_splits)
  have bs0: "0 < ?bs" using bm_invD(5)[OF heldD[OF h]] by simp
  note B = wp_okD[OF wp_build_plan[OF h bs assms(6,3,4)] assms(5)]
  then show st: "st = (m, ?s)" and cmp: "compactable m ?s" and p: "planned ?bs ?s (km_dtype k) plan" by auto
  have c: "1 \<le> compacted_len ?s" "compacted_len ?s \<le> sq_num_prompt_tokens ?s" using assms(3,4) by (auto simp: compacted_len_def)
  show tab: "length (sq_block_table ?s) = ceil_div (sq_num_prompt_tokens ?s) ?bs"
    using cmp bs by (auto simp: compactable_def sq_num_blocks_def)
  have C: "distinct (sq_block_table ?s)" using cmp by (simp add: compactable_def)
  have "pl_retained_original_positions plan \<noteq> []" using cmp p by (auto simp: compactable_def planned_def)
  then show ne: "pl_physical_prompt_len plan \<noteq> 0" using planned_slots(3)[OF p bs0 c C tab] by (metis length_0_conv)
  have fits: "plan_fits k plan"
    by (rule planned_fits[OF p[folded assms(8)] _ c C tab[folded assms(8)] _ ne])
      (use assms(8,9) bs0 reachable_table_bound[OF assms(1,2)] in simp_all)
  have "wp (compact_kv_cache [plan]) (\<lambda>_ t. same_storage k t \<and> plan_moved ?bs [plan] (km_gpu k) (km_gpu t) \<and>
      scales_moved ?bs [plan] (km_scales k) (km_scales t)) (\<lambda>_ _. False) k"
    using assms(8) p
    by (auto simp: compact_kv_cache_def wp_thn wp_bnd wp_gets wp_lift_res wp_scale_cache[OF assms(7)] planned_def
        intro!: wp_compact_plans fits simp del: each.simps)
  then show "\<exists>k'. compact_kv_cache [plan] k = (Inr (), k') \<and> same_storage k k' \<and> plan_moved ?bs [plan] (km_gpu k) (km_gpu k') \<and>
      scales_moved ?bs [plan] (km_scales k) (km_scales k')"
    by (auto simp: wp_total)
qed

text \<open>C5: a compaction plan that \<open>build_compaction_plan\<close> returns can be executed and committed.  Planning changes nothing;
  the device copy puts the row of every retained prompt position, in order, at the front of the shortened
  page table, and leaves all rows of all other sequences as they were; the commit releases
  exactly the pages behind the new table and installs a valid layout with the retained positions.\<close>

theorem compaction_keeps_retained_rows:
  assumes "reachable xx n (m, ss)" and "i < length ss"
    and "0 < sq_num_prompt_tokens (ss ! i)" and "sq_num_computed_tokens (ss ! i) \<le> sq_num_prompt_tokens (ss ! i)"
    and "bm_build_compaction_plan (km_dtype k) (m, ss ! i) = (Inr (Some plan), st)" and "km_dtype k \<noteq> []"
    and "memory_ok k" and "km_block_size k = bm_block_size m" and "km_num_blocks k = nat n"
  shows "st = (m, ss ! i) \<and> (\<exists>k' m' s'. compact_kv_cache [plan] k = (Inr (), k') \<and>
    bm_commit_compaction plan (m, ss ! i) = (Inr (), (m', s')) \<and>
    sq_block_table s' = take (length (sq_block_table s')) (sq_block_table (ss ! i)) \<and>
    gp_free_count (bm_gpu m') + length (sq_block_table s') = gp_free_count (bm_gpu m) + length (sq_block_table (ss ! i)) \<and>
    (\<forall>j < length (pl_retained_original_positions plan).
       row_of (bm_block_size m) (km_gpu k') (sq_block_table s') j =
       row_of (bm_block_size m) (km_gpu k) (sq_block_table (ss ! i)) (nat (pl_retained_original_positions plan ! j))) \<and>
    (\<forall>l < length ss. l \<noteq> i \<longrightarrow> (\<forall>p < length (sq_block_table (ss ! l)) * bm_block_size m.
       row_of (bm_block_size m) (km_gpu k') (sq_block_table (ss ! l)) p = row_of (bm_block_size m) (km_gpu k) (sq_block_table (ss ! l)) p)) \<and>
    (\<exists>ly. sq_kv_layout s' = Some ly \<and> ly_validate (bm_block_size m) (sq_block_table s') False ly = Inr () \<and>
       ly_physical_kv_len ly = length (pl_retained_original_positions plan) \<and>
       ly_retained_original_positions ly = pl_retained_original_positions plan))"
proof -
  let ?s = "ss ! i" and ?bs = "bm_block_size m"
  note h = reachable_owned(2)[OF assms(1,2)]
  note P = planned_moves[OF assms]
  note st = P(1) and cmp = P(2) and p = P(3) and bs = P(4)
  have bs0: "0 < ?bs" using bm_invD(5)[OF heldD[OF h]] by simp
  have c: "1 \<le> compacted_len ?s" "compacted_len ?s \<le> sq_num_prompt_tokens ?s" using assms(3,4) by (auto simp: compacted_len_def)
  have C: "distinct (sq_block_table ?s)" "length (sq_block_table ?s) = ceil_div (sq_num_prompt_tokens ?s) ?bs"
    "private_pages m (sq_block_table ?s)"
    using cmp P(5) by (auto simp: compactable_def)
  have old: "pl_old_block_table plan = sq_block_table ?s" and val: "pl_validate ?bs plan = Inr ()"
    using p by (auto simp: planned_def)
  note S = planned_slots[OF p bs0 c C(1,2)]
  note L = planned_layout[OF p bs0 c P(6)]
  obtain k' where K: "compact_kv_cache [plan] k = (Inr (), k')" "plan_moved ?bs [plan] (km_gpu k) (km_gpu k')" using P(7) by blast
  obtain m' s' where M: "bm_commit_compaction plan (m, ?s) = (Inr (), (m', s'))"
    and D: "committed (refs_of (others i ss)) (m, ?s) plan (m', s')"
    using wp_commit_planned[OF h bs assms(3,4) cmp p] by (auto simp: wp_total)
  have T: "sq_block_table s' = pl_new_block_table plan" "sq_kv_layout s' = Some (compact_layout ?s plan)"
    "ly_validate (bm_block_size m') (sq_block_table s') False (compact_layout ?s plan) = Inr ()"
    "gp_free_count (bm_gpu m') = gp_free_count (bm_gpu m) + length (pl_released_block_ids plan)" "bm_block_size m' = ?bs"
    using D by (auto simp: committed_def free_of_def safe_def same_config_def)
  have new: "pl_new_block_table plan = take (length (pl_new_block_table plan)) (sq_block_table ?s)"
    "length (pl_new_block_table plan) + length (pl_released_block_ids plan) = length (sq_block_table ?s)"
    using plan_tables(1)[OF val] old by simp_all
  have room: "pl_physical_prompt_len plan \<le> length (pl_new_block_table plan) * ?bs"
    using ceil_div_bounds(1)[OF bs0, of "pl_physical_prompt_len plan + (sq_num_prompt_tokens ?s - compacted_len ?s)"] L(3) by simp
  have kept: "row_of ?bs (km_gpu k') (sq_block_table s') j = row_of ?bs (km_gpu k) (sq_block_table ?s) (nat (pl_retained_original_positions plan ! j))"
    if j: "j < length (pl_retained_original_positions plan)" for j
  proof -
    have "j div ?bs < length (pl_new_block_table plan)" using j room S(3) by (simp add: less_mult_imp_div_less)
    then have "slot_of ?bs (sq_block_table s') j = slot_of ?bs (sq_block_table ?s) j"
      by (simp add: slot_of_def T(1)) (metis new(1) nth_take)
    then show ?thesis using K(2) j S(1-3) by (simp add: row_of_slot plan_moved_def)
  qed
  have other: "row_of ?bs (km_gpu k') (sq_block_table (ss ! l)) p = row_of ?bs (km_gpu k) (sq_block_table (ss ! l)) p"
    if l: "l < length ss" "l \<noteq> i" "p < length (sq_block_table (ss ! l)) * ?bs" for l p
  proof -
    have "sq_block_table (ss ! l) ! (p div ?bs) \<notin> set (sq_block_table ?s)"
      using private_disjoint[OF assms(1,2) _ _ l(1,2)] C(3) slot_page_in[OF l(3)] by (auto simp: private_pages_def list_all_iff)
    then show ?thesis using K(2) old bs0 by (simp add: row_of_slot plan_moved_def)
  qed
  have "sq_block_table s' = take (length (sq_block_table s')) (sq_block_table ?s)" using new(1) T(1) by simp
  moreover have "\<exists>ly. sq_kv_layout s' = Some ly \<and> ly_validate ?bs (sq_block_table s') False ly = Inr () \<and>
       ly_physical_kv_len ly = length (pl_retained_original_positions plan) \<and>
       ly_retained_original_positions ly = pl_retained_original_positions plan"
    using T(2,3,5) S(3) by (auto simp: compact_layout_def)
  moreover have "gp_free_count (bm_gpu m') + length (sq_block_table s') = gp_free_count (bm_gpu m) + length (sq_block_table ?s)"
    using T(1,4) new(2) by simp
  ultimately show ?thesis using st K(1) M kept other by blast
qed

theorem compaction_keeps_retained_rows_witness:
  "\<exists>plan k' m' s'. fst (bm_build_compaction_plan ''bf16'' example_pruned) = Inr (Some plan) \<and>
     compact_kv_cache [plan] example_memory = (Inr (), k') \<and> bm_commit_compaction plan example_pruned = (Inr (), (m', s')) \<and>
     length (pl_retained_original_positions plan) = 5 \<and> row_of 4 (km_gpu k') (sq_block_table s') 1 = 2"
proof -
  let ?b = "bm_build_compaction_plan ''bf16'' example_pruned"
  have E: "(case fst ?b of Inr (Some p) \<Rightarrow> pl_retained_original_positions p = [0, 2, 3, 4, 5] | _ \<Rightarrow> False)"
    "sq_num_prompt_tokens (snd example_pruned) = 6" "sq_num_computed_tokens (snd example_pruned) = 0"
    "bm_block_size (fst example_pruned) = 4" "sq_block_table (snd example_pruned) = [0, 1]"
    by code_simp+
  obtain plan where plan: "fst ?b = Inr (Some plan)" "pl_retained_original_positions plan = [0, 2, 3, 4, 5]"
    using E(1) by (auto split: sum.splits option.splits)
  have "?b = (Inr (Some plan), snd ?b)" using plan(1) by (metis prod.collapse)
  then have R: "bm_build_compaction_plan (km_dtype example_memory) (fst example_pruned, [snd example_pruned] ! 0) = (Inr (Some plan), snd ?b)"
    by (simp add: example_memory_def)
  have mem: "km_dtype example_memory \<noteq> []" "memory_ok example_memory" "km_block_size example_memory = bm_block_size (fst example_pruned)"
    "km_num_blocks example_memory = nat 4" "km_gpu example_memory = id" using E(4) by (simp_all add: example_memory_def memory_ok_def)
  show ?thesis
    using compaction_keeps_retained_rows[OF example_pruned_reachable _ _ _ R mem(1-4)] E plan mem(5)
    by (auto simp: row_of_def)
qed

section \<open>Copy on write\<close>

lemma reachable_call:
  assumes "reachable xx n (m, ss)" and "i < length ss" and "c \<noteq> StorePrefix" and "snd (bm_exec xx c (m, ss ! i)) = (m', s')"
  shows "reachable xx n (m', ss[i := s'])"
  by (rule reachable_step[OF assms(1) step_call[of i ss c xx m m' s']]) (use assms(2-4) in simp_all)

lemma reachable_block_size:
  assumes "reachable xx n (m, ss)"
  shows "0 < bm_block_size m"
  using reachable_inv(1)[OF assms] bm_invD(5) by (auto simp: system_inv_def)

text \<open>C6: after \<open>copy_on_write\<close> and the page copy it asks for, every sequence, the one that called included, reads
  the same rows through its page table as before, and the last page of the caller is in no other
  page table.\<close>

theorem cow_keeps_rows:
  assumes "reachable xx n (m, ss)" and "i < length ss" and "bm_copy_on_write (m, ss ! i) = (Inr r, (m', s'))"
    and "memory_ok k" and "km_block_size k = bm_block_size m" and "km_num_blocks k = nat n"
  shows "\<exists>k'. copy_kv_blocks (case r of None \<Rightarrow> [] | Some pair \<Rightarrow> [pair]) k = (Inr (), k') \<and>
    (\<forall>l < length ss. \<forall>p < length (sq_block_table (ss ! l)) * bm_block_size m.
       row_of (bm_block_size m) (km_gpu k') (sq_block_table (ss[i := s'] ! l)) p =
       row_of (bm_block_size m) (km_gpu k) (sq_block_table (ss ! l)) p) \<and>
    (sq_block_table s' \<noteq> [] \<longrightarrow> (\<forall>l < length ss. l \<noteq> i \<longrightarrow> last (sq_block_table s') \<notin> set (sq_block_table (ss ! l))))"
proof -
  let ?s = "ss ! i" and ?bs = "bm_block_size m" and ?ss = "ss[i := s']"
  let ?tab = "sq_block_table (ss ! i)" and ?tab' = "sq_block_table s'"
  note h = reachable_owned(2)[OF assms(1,2)]
  have size: "sq_block_size ?s = ?bs"
    using assms(3) by (auto simp: bm_copy_on_write_def thn_def bnd_def bm_assert_block_size_def get_mgr_def get_seq_def
        gets_def chk_def throw_def split: if_splits)
  have bs0: "0 < ?bs" by (rule reachable_block_size[OF assms(1)])
  note W = wp_okD[OF wp_copy_on_write[OF h size] assms(3)]
  have P: "case r of None \<Rightarrow> ?tab' = ?tab | Some (a, b) \<Rightarrow> ?tab \<noteq> [] \<and> a = last ?tab \<and> ?tab' = ?tab[length ?tab - 1 := b]"
    "?tab \<noteq> [] \<longrightarrow> gp_ref (bm_gpu m') (last ?tab') \<le> 1"
    using W by (auto simp: cow_post_def Let_def)
  have len: "length ?tab' = length ?tab" using P(1) by (auto split: option.splits)
  have R: "reachable xx n (m', ?ss)"
    by (rule reachable_call[OF assms(1,2), of CopyOnWrite]) (use assms(3) in \<open>simp_all add: void_def bnd_def ret_def\<close>)
  have i': "i < length ?ss" using assms(2) by simp
  have priv: "gp_ref (bm_gpu m') (last ?tab') = 1 \<and> count_list ?tab' (last ?tab') = 1" if ne: "?tab' \<noteq> []"
  proof -
    have mem: "last ?tab' \<in> set (sq_block_table (?ss ! i))" using ne assms(2) by simp
    have "0 < count_list ?tab' (last ?tab')" using ne by (simp add: count_list_pos_iff)
    moreover have "refs_of ?ss (last ?tab') = refs_of (others i ?ss) (last ?tab') + count_list ?tab' (last ?tab')"
      using refs_of_split[OF i'] assms(2) by (simp add: held_by_def)
    moreover have "gp_ref (bm_gpu m') (last ?tab') \<le> 1" using P(2) ne len by (metis length_0_conv)
    ultimately show ?thesis using reachable_held_by[OF R reachable_table_bound[OF R i' mem]] by linarith
  qed
  have alone: "last ?tab' \<notin> set (sq_block_table (ss ! l))" if ne: "?tab' \<noteq> []" and l: "l < length ss" "l \<noteq> i" for l
    using private_disjoint[OF R i' _ _, of "last ?tab'" l] priv[OF ne] ne l assms(2) by simp
  show ?thesis
  proof (cases r)
    case None
    then have "ss[i := s'] ! l = s' \<and> ss ! l = ?s \<or> ss[i := s'] ! l = ss ! l" if "l < length ss" for l
      using that by (cases "l = i") auto
    then show ?thesis using None P(1) alone wp_scale_cache[OF assms(4), of "\<lambda>_ t. t = k" "\<lambda>_ _. False"]
      by (auto simp: copy_kv_blocks_def thn_def bnd_def wp_def ret_def split: prod.splits sum.splits) (metis nth_list_update_eq nth_list_update_neq)+
  next
    case (Some pair)
    obtain a b where ab: "pair = (a, b)" by (cases pair)
    have T: "?tab \<noteq> []" "a = last ?tab" "?tab' = ?tab[length ?tab - 1 := b]" using P(1) Some ab by auto
    have ne: "?tab' \<noteq> []" and lst: "last ?tab' = b" using T by (auto simp: last_conv_nth)
    have a: "a < nat n" using reachable_table_bound[OF assms(1,2)] T by simp
    have b: "b < nat n" using reachable_table_bound[OF R i'] ne lst assms(2) by (metis last_in_set nth_list_update_eq)
    let ?copied = "copy_rows_of ?bs ?bs (km_gpu k) a b (km_gpu k)"
    have "wp (copy_kv_blocks [pair]) (\<lambda>_ t. km_gpu t = ?copied) (\<lambda>_ _. False) k"
      using a b assms(5,6) by (simp add: copy_kv_blocks_def copy_kv_block_def ab wp_thn wp_scale_cache[OF assms(4)] wp_each_Cons
          wp_each_Nil wp_bnd wp_gets wp_chk wp_upd wp_ret del: each.simps)
    then obtain k' where k': "copy_kv_blocks [pair] k = (Inr (), k')" "km_gpu k' = ?copied" by (auto simp: wp_total)
    have other: "row_of ?bs (km_gpu k') (sq_block_table (ss ! l)) p = row_of ?bs (km_gpu k) (sq_block_table (ss ! l)) p"
      if l: "l < length ss" "l \<noteq> i" "p < length (sq_block_table (ss ! l)) * ?bs" for l p
      using alone[OF ne l(1,2)] slot_page_in[OF l(3)] lst bs0 by (auto simp: k'(2) row_of_copied)
    have self: "row_of ?bs (km_gpu k') ?tab' p = row_of ?bs (km_gpu k) ?tab p" if p: "p < length ?tab * ?bs" for p
    proof -
      have q: "p div ?bs < length ?tab" using p by (simp add: less_mult_imp_div_less)
      show ?thesis
      proof (cases "p div ?bs = length ?tab - 1")
        case True
        then show ?thesis using T q bs0 by (simp add: k'(2) row_of_copied) (simp add: row_of_def last_conv_nth)
      next
        case False
        have "?tab' ! (p div ?bs) \<noteq> b"
        proof
          assume e: "?tab' ! (p div ?bs) = b"
          have "?tab' = butlast ?tab' @ [b]" using ne lst by (metis append_butlast_last_id)
          then have "count_list ?tab' b = count_list (butlast ?tab' @ [b]) b" by (rule arg_cong)
          then have "count_list ?tab' b = count_list (butlast ?tab') b + 1" by simp
          moreover have "b \<in> set (butlast ?tab')"
            using e False q len by (metis One_nat_def Suc_pred diff_less_mono2 in_set_conv_nth length_butlast length_greater_0_conv less_antisym ne nth_butlast)
          ultimately show False using priv[OF ne] lst count_list_0_iff[of "butlast ?tab'" b] by simp
        qed
        then show ?thesis using False T by (simp add: k'(2) row_of_copied[OF bs0]) (simp add: row_of_def)
      qed
    qed
    have "row_of ?bs (km_gpu k') (sq_block_table (?ss ! l)) p = row_of ?bs (km_gpu k) (sq_block_table (ss ! l)) p"
      if "l < length ss" "p < length (sq_block_table (ss ! l)) * ?bs" for l p
      using that other self assms(2) by (cases "l = i") auto
    then show ?thesis using k'(1) alone Some by auto
  qed
qed

theorem cow_keeps_rows_witness:
  "\<exists>r m' s' k'. bm_copy_on_write example_running = (Inr r, (m', s')) \<and>
     copy_kv_blocks (case r of None \<Rightarrow> [] | Some pair \<Rightarrow> [pair]) example_memory = (Inr (), k') \<and>
     row_of 4 (km_gpu k') (sq_block_table s') 5 = 5"
proof -
  have E: "is_ok (fst (bm_copy_on_write example_running))" "bm_block_size (fst example_running) = 4"
    "sq_block_table (snd example_running) = [0, 1]"
    by code_simp+
  obtain r m' s' where C: "bm_copy_on_write example_running = (Inr r, (m', s'))"
    using E(1) by (auto simp: is_ok_iff) (metis prod.collapse)
  have mem: "memory_ok example_memory" "km_block_size example_memory = bm_block_size (fst example_running)"
    "km_num_blocks example_memory = nat 4" "km_gpu example_memory = id" using E(2) by (simp_all add: example_memory_def memory_ok_def)
  show ?thesis
    using cow_keeps_rows[OF example_reachable, of 0 r m' s' example_memory] C E mem by (auto simp: row_of_def[of _ id])
qed

section \<open>Swapping\<close>

lemma reachable_cpu:
  assumes "reachable xx n (m, ss)" and "i < length ss"
  shows "distinct (sq_cpu_block_table (ss ! i))" and "b \<in> set (sq_cpu_block_table (ss ! i)) \<Longrightarrow> b < cp_capacity (bm_cpu m)"
  using reachable_owned(1)[OF assms] by (auto simp: owned_def cpu_held_def cpu_inv_def)

text \<open>C7: swapping a sequence out with its page copies saves its rows on the host; as long as nobody writes its host pages,
  swapping it in again at any later time, with its page copies, gives it back every row at the
  same logical position, and neither copy changes a row of another sequence.\<close>

theorem swap_keeps_rows:
  assumes "reachable xx n (m, ss)" and "i < length ss" and "sq_block_size (ss ! i) = bm_block_size m"
    and "bm_swap_out (m, ss ! i) = (Inr out, (m1, s1))"
    and "run (system_step xx) (m1, ss[i := s1]) labels (m2, ss2)" and "i < length ss2" and "ss2 ! i = s1"
    and "bm_swap_in (m2, s1) = (Inr inn, (m3, s3))"
    and "swappable k" and "km_block_size k = bm_block_size m" and "km_num_blocks k = nat n"
    and "km_num_cpu_blocks k = cp_capacity (bm_cpu m)"
  shows "\<exists>k1. swap_blocks out ''out'' k = (Inr (), k1) \<and> km_gpu k1 = km_gpu k \<and>
    (\<forall>k2. same_storage k1 k2 \<and>
       (\<forall>b \<in> set (sq_cpu_block_table s1). \<forall>r < bm_block_size m.
          the (km_cpu k2) (b * bm_block_size m + r) = the (km_cpu k1) (b * bm_block_size m + r)) \<longrightarrow>
      (\<exists>k3. swap_blocks inn ''in'' k2 = (Inr (), k3) \<and>
        (\<forall>p < length (sq_block_table (ss ! i)) * bm_block_size m.
           row_of (bm_block_size m) (km_gpu k3) (sq_block_table s3) p = row_of (bm_block_size m) (km_gpu k) (sq_block_table (ss ! i)) p) \<and>
        (\<forall>l < length ss2. l \<noteq> i \<longrightarrow> (\<forall>p < length (sq_block_table (ss2 ! l)) * bm_block_size m.
           row_of (bm_block_size m) (km_gpu k3) (sq_block_table (ss2 ! l)) p =
           row_of (bm_block_size m) (km_gpu k2) (sq_block_table (ss2 ! l)) p))))"
proof -
  let ?bs = "bm_block_size m" and ?tab = "sq_block_table (ss ! i)" and ?cpu = "sq_cpu_block_table s1" and ?tab3 = "sq_block_table s3"
  have bs0: "0 < ?bs" by (rule reachable_block_size[OF assms(1)])
  have out: "swapped_out (refs_of (others i ss)) (set (cpu_pages (others i ss))) (m, ss ! i) out (m1, s1)"
    by (rule wp_okD[OF wp_swap_out[OF reachable_owned(1)[OF assms(1,2)] assms(3)] assms(4)])
  then have O: "length ?cpu = length ?tab" "out = zip ?tab ?cpu" by (auto simp: swapped_out_def)
  have R1: "reachable xx n (m1, ss[i := s1])"
    by (rule reachable_call[OF assms(1,2), of SwapOut]) (use assms(4) in \<open>simp_all add: void_def bnd_def ret_def\<close>)
  have R2: "reachable xx n (m2, ss2)" by (rule reachable_run[OF R1 assms(5)])
  have fr1: "system_frame (m1, ss[i := s1]) = system_frame (m, ss)" 
    using out same_shape_frame by (fastforce simp: swapped_out_def steady_def)
  have "system_frame (m2, ss2) = system_frame (m1, ss[i := s1])"
    by (rule manager_machine.run_const[OF assms(5) reachable_inv(1)[OF R1]])
  then have F: "bm_block_size m2 = ?bs" "cp_capacity (bm_cpu m1) = cp_capacity (bm_cpu m)" "cp_capacity (bm_cpu m2) = cp_capacity (bm_cpu m)"
    using fr1 by (simp_all add: system_frame_def Let_def)
  have size: "sq_block_size s1 = bm_block_size m2" using out assms(3) F(1) by (simp add: swapped_out_def steady_def)
  have inn: "swapped_in (refs_of (others i ss2)) (set (cpu_pages (others i ss2))) (m2, s1) inn (m3, s3)"
    by (rule wp_okD[OF wp_swap_in[OF reachable_owned(1)[OF R2 assms(6), unfolded assms(7)] size] assms(8)])
  then have I: "length ?tab3 = length ?tab" "inn = zip ?cpu ?tab3" "distinct ?tab3" using O(1) by (auto simp: swapped_in_def)
  have R3: "reachable xx n (m3, ss2[i := s3])"
    by (rule reachable_call[OF R2 assms(6), of SwapIn]) (use assms(7,8) in \<open>simp_all add: void_def bnd_def ret_def\<close>)
  have i3: "i < length (ss2[i := s3])" using assms(6) by simp
  have cpu: "distinct ?cpu" "b < cp_capacity (bm_cpu m)" if "b \<in> set ?cpu" for b
    using reachable_cpu[OF R2 assms(6)] assms(7) F(3) that by auto
  have dcpu: "distinct ?cpu" using reachable_cpu(1)[OF R2 assms(6)] assms(7) by simp
  have fit_out: "pairs_fit (km_num_blocks k) (km_num_cpu_blocks k) out"
    using O dcpu cpu(2) reachable_table_bound[OF assms(1,2)] assms(11,12)
    by (auto simp: pairs_fit_def dest: set_zip_leftD set_zip_rightD)
  obtain host where host: "km_cpu k = Some host" using assms(9) by (auto simp: swappable_def)
  obtain k1 host1 where K1: "swap_blocks out ''out'' k = (Inr (), k1)" "same_storage k k1" "km_gpu k1 = km_gpu k"
    "km_cpu k1 = Some host1" "pages_copied ?bs out (km_gpu k) host host1"
    using swap_blocks_out[OF assms(9) fit_out host] assms(10) by auto
  have fit_in: "pairs_fit (km_num_cpu_blocks k) (km_num_blocks k) inn"
    using O I cpu(2) reachable_table_bound[OF R3 i3] assms(6,11,12)
    by (auto simp: pairs_fit_def dest: set_zip_leftD set_zip_rightD)
  have disj: "set ?tab3 \<inter> set (sq_block_table (ss2 ! l)) = {}" if l: "l < length ss2" "l \<noteq> i" for l
    using inn refs_of_others[OF l] by (fastforce simp: swapped_in_def)
  have restored: "\<exists>k3. swap_blocks inn ''in'' k2 = (Inr (), k3) \<and>
        (\<forall>p < length ?tab * ?bs. row_of ?bs (km_gpu k3) ?tab3 p = row_of ?bs (km_gpu k) ?tab p) \<and>
        (\<forall>l < length ss2. l \<noteq> i \<longrightarrow> (\<forall>p < length (sq_block_table (ss2 ! l)) * ?bs.
           row_of ?bs (km_gpu k3) (sq_block_table (ss2 ! l)) p = row_of ?bs (km_gpu k2) (sq_block_table (ss2 ! l)) p))"
    if k2: "same_storage k1 k2" and host2: "km_cpu k2 = Some host2"
      and same: "\<forall>b \<in> set ?cpu. \<forall>r < ?bs. host2 (b * ?bs + r) = host1 (b * ?bs + r)" for k2 host2
  proof -
    have st: "same_storage k k2" by (rule same_storage_trans[OF K1(2) k2])
    have sw: "swappable k2" "km_num_blocks k2 = km_num_blocks k" "km_num_cpu_blocks k2 = km_num_cpu_blocks k" "km_block_size k2 = ?bs"
      using st assms(9,10) by (simp_all add: swappable_same) (simp_all add: same_storage_def)
    obtain k3 where K3: "swap_blocks inn ''in'' k2 = (Inr (), k3)" "pages_copied ?bs inn host2 (km_gpu k2) (km_gpu k3)"
      using swap_blocks_in[OF sw(1) _ host2, of inn] fit_in sw by auto
    have "row_of ?bs (km_gpu k3) ?tab3 p = row_of ?bs (km_gpu k) ?tab p" if p: "p < length ?tab * ?bs" for p
    proof -
      have "row_of ?bs (km_gpu k3) ?tab3 p = row_of ?bs host2 ?cpu p"
        by (rule pages_copied_row[OF K3(2)[unfolded I(2)]]) (use p I(1) O(1) bs0 in simp_all)
      also have "\<dots> = row_of ?bs host1 ?cpu p"
        using same slot_page_in[of p ?cpu ?bs] p O(1) bs0 by (simp add: row_of_def)
      also have "\<dots> = row_of ?bs (km_gpu k) ?tab p"
        by (rule pages_copied_row[OF K1(5)[unfolded O(2)]]) (use p O(1) bs0 in simp_all)
      finally show ?thesis .
    qed
    moreover have "row_of ?bs (km_gpu k3) (sq_block_table (ss2 ! l)) p = row_of ?bs (km_gpu k2) (sq_block_table (ss2 ! l)) p"
      if "l < length ss2" "l \<noteq> i" "p < length (sq_block_table (ss2 ! l)) * ?bs" for l p
      by (rule pages_copied_other[OF K3(2) that(3) bs0]) (use disj[OF that(1,2)] I(2) in \<open>auto dest: set_zip_rightD\<close>)
    ultimately show ?thesis using K3(1) by blast
  qed
  show ?thesis
  proof (rule exI[of _ k1], intro conjI allI[of "\<lambda>k2. _ k2 \<longrightarrow> _ k2"] impI K1(1,3))
    fix k2 assume A: "same_storage k1 k2 \<and> (\<forall>b \<in> set ?cpu. \<forall>r < ?bs. the (km_cpu k2) (b * ?bs + r) = the (km_cpu k1) (b * ?bs + r))"
    then obtain host2 where "km_cpu k2 = Some host2" using K1(4) by (auto simp: same_storage_def)
    then show "\<exists>k3. swap_blocks inn ''in'' k2 = (Inr (), k3) \<and>
        (\<forall>p < length ?tab * ?bs. row_of ?bs (km_gpu k3) ?tab3 p = row_of ?bs (km_gpu k) ?tab p) \<and>
        (\<forall>l < length ss2. l \<noteq> i \<longrightarrow> (\<forall>p < length (sq_block_table (ss2 ! l)) * ?bs.
           row_of ?bs (km_gpu k3) (sq_block_table (ss2 ! l)) p = row_of ?bs (km_gpu k2) (sq_block_table (ss2 ! l)) p))"
      using A K1(4) by (intro restored[of k2 host2]) simp_all
  qed
qed

theorem swap_keeps_rows_witness:
  "\<exists>out m1 s1 inn m3 s3 k1. bm_swap_out example_running = (Inr out, (m1, s1)) \<and> bm_swap_in (m1, s1) = (Inr inn, (m3, s3)) \<and>
     swap_blocks out ''out'' example_memory = (Inr (), k1) \<and>
     (\<exists>k3. swap_blocks inn ''in'' k1 = (Inr (), k3) \<and> row_of 4 (km_gpu k3) (sq_block_table s3) 5 = 5)"
proof -
  have "is_ok (fst (bm_swap_out example_running)) \<and> is_ok (fst (bm_swap_in (snd (bm_swap_out example_running)))) \<and>
      sq_block_size (snd example_running) = bm_block_size (fst example_running) \<and> sq_block_table (snd example_running) = [0, 1] \<and>
      bm_block_size (fst example_running) = 4 \<and> cp_capacity (bm_cpu (fst example_running)) = 2"
    by code_simp
  then obtain out m1 s1 inn m3 s3 where S: "bm_swap_out example_running = (Inr out, (m1, s1))"
    "bm_swap_in (m1, s1) = (Inr inn, (m3, s3))" "sq_block_size (snd example_running) = bm_block_size (fst example_running)"
    "sq_block_table (snd example_running) = [0, 1]" "bm_block_size (fst example_running) = 4" "cp_capacity (bm_cpu (fst example_running)) = 2"
    by (metis is_ok_iff prod.collapse snd_conv)
  have mem: "swappable example_memory" "km_block_size example_memory = bm_block_size (fst example_running)"
    "km_num_blocks example_memory = nat 4" "km_num_cpu_blocks example_memory = cp_capacity (bm_cpu (fst example_running))"
    "km_gpu example_memory = id" using S(5,6) by (simp_all add: example_memory_def swappable_def memory_ok_def)
  obtain k1 where K: "swap_blocks out ''out'' example_memory = (Inr (), k1)"
    "\<forall>k2. same_storage k1 k2 \<and> (\<forall>b \<in> set (sq_cpu_block_table s1). \<forall>r < 4. the (km_cpu k2) (b * 4 + r) = the (km_cpu k1) (b * 4 + r)) \<longrightarrow>
      (\<exists>k3. swap_blocks inn ''in'' k2 = (Inr (), k3) \<and> (\<forall>p < 8. row_of 4 (km_gpu k3) (sq_block_table s3) p = row_of 4 id [0, 1] p))"
    using swap_keeps_rows[OF example_reachable, of 0 out m1 s1 "[]" m1 "[s1]" inn m3 s3 example_memory] S mem by auto
  have "\<exists>k3. swap_blocks inn ''in'' k1 = (Inr (), k3) \<and> (\<forall>p < 8. row_of 4 (km_gpu k3) (sq_block_table s3) p = row_of 4 id [0, 1] p)"
    using K(2) by simp
  then have "\<exists>k3. swap_blocks inn ''in'' k1 = (Inr (), k3) \<and> row_of 4 (km_gpu k3) (sq_block_table s3) 5 = 5"
    by (auto simp: row_of_def dest!: spec[of _ 5])
  then show ?thesis using S K(1) by blast
qed

end
