(* ===== verification/Paged_Attention.thy ===== *)
theory Paged_Attention imports Paged_Plan KV_Properties begin

text \<open>
  The attention paths over the paged cache: the reference routines of
  \<open>prism_infer/ops/paged_attention_reference.py\<close> and the fast prefill path of \<open>prism_infer/layers/attention.py\<close>, and what
  the rows written by one step are to the next.  \<open>sdpa\<close> stands for
  \<open>torch.nn.functional.scaled_dot_product_attention\<close> with the transpositions around it: queries, keys and
  values as lists of tokens, the boolean mask (row of a query, column of a key; \<open>None\<close> without one) and the flag
  for grouped heads.  \<open>lower_right\<close> stands for the bias of \<open>torch.nn.attention.bias.causal_lower_right\<close>.
\<close>

section \<open>Paths\<close>

type_synonym ('q, 'x, 'o) sdpa_fun = "'q list \<Rightarrow> 'x token_row list \<Rightarrow> 'x token_row list \<Rightarrow> bool list list option \<Rightarrow> bool \<Rightarrow> 'o list"


definition torch_stack :: "'a list \<Rightarrow> py_error + 'a list" where
  "torch_stack parts = need RuntimeError (parts \<noteq> []) (Inr parts)"





definition paged_decode_attention_reference ::
    "'x arith \<Rightarrow> ('q, 'x, 'o) sdpa_fun \<Rightarrow> nat \<Rightarrow> nat \<Rightarrow> 'x layer_cache \<Rightarrow> 'q list \<Rightarrow> int list \<Rightarrow> int list list \<Rightarrow> py_error + 'o list list" where
  "paged_decode_attention_reference ar sdpa num_heads num_kv_heads c q lens tables =
     bind_res (map_res (\<lambda>i. need IndexError (i < length lens \<and> i < length tables)
      (bind_res (gather_and_prepare ar num_heads num_kv_heads c (tables ! i) (lens ! i)) (\<lambda>(keys, values).
       Inr (sdpa [q ! i] keys values None False)))) [0..<length q]) torch_stack"

definition slots_kv :: "'x arith \<Rightarrow> 'x layer_cache \<Rightarrow> int list \<Rightarrow> py_error + 'x token_row list \<times> 'x token_row list" where
  "slots_kv ar c retained =
     dequantized_kv ar (lc_fp8 c) (gather_paged_kv_slots_for_sequence (lc_slots c) (lc_k c) (lc_v c) retained)
       (read_with_scales c (\<lambda>ks vs. gather_paged_kv_slots_for_sequence (lc_slots c) ks vs retained))"

definition visual_pruned_decode_attention_reference ::
    "'x arith \<Rightarrow> ('q, 'x, 'o) sdpa_fun \<Rightarrow> nat \<Rightarrow> nat \<Rightarrow> 'x layer_cache \<Rightarrow> 'q list \<Rightarrow> int list list \<Rightarrow> py_error + 'o list list" where
  "visual_pruned_decode_attention_reference ar sdpa num_heads num_kv_heads c q mappings =
     need RuntimeError (0 < lc_slots c * lc_heads c * lc_dim c)
    (need RuntimeError (length mappings = length q)
    (bind_res (map_res (\<lambda>i. bind_res (bind_res (slots_kv ar c (mappings ! i)) (expand_gqa_kv num_heads num_kv_heads)) (\<lambda>(keys, values).
       Inr (sdpa [q ! i] keys values None False))) [0..<length mappings]) torch_stack))"

section \<open>The two prefill paths\<close>
















section \<open>A prefill step writes the rows that later steps read\<close>

lemma batch_private_writes:
  assumes R: "reachable xx n (m, ss)" and js: "distinct js" "\<forall>j \<in> set js. j < length ss" and len: "length sls = length js"
    and room: "\<And>k. k < length js \<Longrightarrow> key_len (ss ! (js ! k)) (sls ! k) \<le> length (sq_block_table (ss ! (js ! k))) * bs" and bs: "0 < bs"
    and one: "\<forall>k < length js. \<forall>b \<in> query_pages bs (ss ! (js ! k), sls ! k). gp_ref (bm_gpu m) b = 1"
  shows "private_writes bs (zip (map ((!) ss) js) sls)"
  unfolding private_writes_def
proof (intro allI impI ballI)
  fix k b assume k: "k < length (zip (map ((!) ss) js) sls)" and b: "b \<in> query_pages bs (zip (map ((!) ss) js) sls ! k)"
  have k': "k < length js" and at: "zip (map ((!) ss) js) sls ! k = (ss ! (js ! k), sls ! k)" using k len by simp_all
  let ?i = "js ! k"
  have i: "?i < length ss" using js(2) k' by simp
  obtain p where p: "p \<in> set (query_places (ss ! ?i, sls ! k))" "b = sq_block_table (ss ! ?i) ! (p div bs)" using b at by (auto simp: query_pages_def)
  have "p < length (sq_block_table (ss ! ?i)) * bs" using p(1) room[OF k'] by (auto simp: query_places_def split: if_splits)
  then have "p div bs < length (sq_block_table (ss ! ?i))" by (simp add: less_mult_imp_div_less)
  then have mem: "b \<in> set (sq_block_table (ss ! ?i))" unfolding p(2) by (rule nth_mem)
  have ref: "gp_ref (bm_gpu m) b = 1" using one k' b at by simp
  have "refs_of (others ?i ss) b + count_list (sq_block_table (ss ! ?i)) b \<le> 1"
    using reachable_held_by[OF R reachable_table_bound[OF R i mem]] ref refs_of_split[OF i] by (simp add: held_by_def)
  moreover have "0 < count_list (sq_block_table (ss ! ?i)) b" using mem by (simp add: count_list_pos_iff)
  ultimately have "count_list (sq_block_table (ss ! ?i)) b = 1" by linarith
  moreover have "b \<notin> set (sq_block_table (ss ! (js ! l)))" if "l < length js" "l \<noteq> k" for l
    by (rule private_disjoint[OF R i mem ref]) (use js that k' in \<open>simp_all add: nth_eq_iff_index_eq\<close>)
  ultimately show "count_list (sq_block_table (fst (zip (map ((!) ss) js) sls ! k))) b = 1 \<and>
      (\<forall>l < length (zip (map ((!) ss) js) sls). l \<noteq> k \<longrightarrow> b \<notin> set (sq_block_table (fst (zip (map ((!) ss) js) sls ! l))))"
    using at len by simp
qed

text \<open>What a prepared batch stores, given that its written pages are private.\<close>

lemma prepared_store:
  assumes prep: "prepare_prefill shape columns bs merge batch slices = Inr r" and norm: "normalize_prefill_slices batch slices = Inr sls"
    and valid: "case slices of None \<Rightarrow> True | Some given_slices \<Rightarrow> list_all slice_valid given_slices"
    and ok: "\<forall>s \<in> set batch. sq_num_prompt_tokens s \<le> length (sq_token_ids s) \<and> sq_block_table s \<noteq> []" and bs: "0 < bs"
    and priv: "private_writes bs (zip batch sls)" and k: "k < length batch"
    and scaled: "scales_agree scaled c" and lens: "length key = length (hb_slots (pi_host r))" "length val = length (hb_slots (pi_host r))"
    and p: "p < key_len (batch ! k) (sls ! k)"
  shows "slot_rows (fold (write_token ar scaled) (zip (map int (hb_slots (pi_host r))) (zip key val)) c) (slot_of bs (sq_block_table (batch ! k)) p) =
    (let start = physical_query_start (batch ! k) (nat (ps_token_start (sls ! k))); t = hb_cu_q (pi_host r) ! k + (p - start) in
     if p < start then slot_rows c (slot_of bs (sq_block_table (batch ! k)) p) else token_rows ar scaled (key ! t) (val ! t))"
proof -
  let ?xs = "zip batch sls" and ?slots = "hb_slots (pi_host r)" and ?tab = "sq_block_table (batch ! k)"
  let ?start = "physical_query_start (batch ! k) (nat (ps_token_start (sls ! k)))" and ?q = "hb_cu_q (pi_host r) ! k"
  let ?zs = "zip (map int ?slots) (zip key val)"
  note ns = normalized_slices(1)[OF norm valid]
  have prompts: "\<forall>s \<in> set batch. sq_num_prompt_tokens s \<le> length (sq_token_ids s)" and tables: "\<forall>s \<in> set batch. sq_block_table s \<noteq> []" using ok by simp_all
  note seg = prepared_segments[OF prep norm valid prompts k]
  have slots: "?slots = concat (map (query_slots bs) ?xs)" using prepared_core(1)[OF prep norm] by (simp add: core_def)
  have cover: "sq_block_table s \<noteq> [] \<Longrightarrow> ceil_div (key_len s sl) bs \<le> length (sq_block_table s)" if "(s, sl) \<in> set ?xs" for s sl
    using prepared_core(2)[OF prep norm that] .
  have dist: "distinct ?slots" unfolding slots by (rule query_slots_distinct[OF bs priv]) (use cover in auto)
  have room: "key_len (batch ! l) (sls ! l) \<le> length (sq_block_table (batch ! l)) * bs" if "l < length batch" for l
  proof -
    have "(batch ! l, sls ! l) \<in> set ?xs" using that ns by (auto simp: set_zip)
    then show ?thesis using cover tables that bs ceil_div_le_iff by (meson nth_mem)
  qed
  have left: "s \<in> set (map int ?slots)" if "(s, k, v) \<in> set ?zs" for s k v by (rule set_zip_leftD[OF that])
  have pos: "\<forall>(s, k, v) \<in> set ?zs. 0 \<le> s" using left by fastforce
  show ?thesis
  proof (cases "p < ?start")
    case True
    have "int (slot_of bs ?tab p) \<notin> set (map int ?slots)"
    proof
      assume "int (slot_of bs ?tab p) \<in> set (map int ?slots)"
      then have "slot_of bs ?tab p \<in> set ?slots" by auto
      then obtain x where x: "x \<in> set ?xs" "slot_of bs ?tab p \<in> set (query_slots bs x)" unfolding slots by auto
      then obtain l where l: "l < length ?xs" "x = ?xs ! l" by (metis in_set_conv_nth)
      then have xl: "x = (batch ! l, sls ! l)" by simp
      obtain p' where p': "p' \<in> set (query_places x)" "slot_of bs (sq_block_table (fst x)) p' = slot_of bs ?tab p"
        using x(2) by (auto simp: query_slots_slot_of)
      have "p' < length (sq_block_table (fst x)) * bs" using p'(1) room[of l] l xl by (auto simp: query_places_def split: if_splits)
      moreover have "p < length ?tab * bs" using p room[OF k] by linarith
      moreover have "k < length ?xs" using k ns by simp
      ultimately have "l = k \<and> p' = p"
        using written_slot[OF bs priv l(1), of k p' p] p' l xl k ns by simp
      then show False using p'(1) True xl by (auto simp: query_places_def split: if_splits)
    qed
    then have "\<forall>(s, k, v) \<in> set ?zs. 0 \<le> s \<and> s \<noteq> int (slot_of bs ?tab p)" using pos left by blast
    from stored_others[OF scaled this] show ?thesis using True by (simp add: Let_def)
  next
    case False
    let ?t = "?q + (p - ?start)"
    have len: "query_slots bs (batch ! k, sls ! k) = map (slot_of bs ?tab) [?start..<key_len (batch ! k) (sls ! k)]"
      using tables k by (simp add: query_slots_slot_of query_places_def)
    have j: "p - ?start < length (query_slots bs (batch ! k, sls ! k))" using p False by (simp add: len)
    have s: "take (hb_cu_q (pi_host r) ! Suc k - ?q) (drop ?q ?slots) = query_slots bs (batch ! k, sls ! k)" using seg(3)[OF tables] by (simp add: py_slice_def)
    then have t: "?t < length ?slots" using j by (metis length_drop length_take less_diff_conv min_less_iff_conj add.commute)
    have "?slots ! ?t = query_slots bs (batch ! k, sls ! k) ! (p - ?start)"
      unfolding s[symmetric] using j t by (metis s length_take min_less_iff_conj nth_drop nth_take less_imp_le add_leD1)
    then have at: "?slots ! ?t = slot_of bs ?tab p" using j p False by (simp add: len)
    have "?zs ! ?t = (int (slot_of bs ?tab p), key ! ?t, val ! ?t)" using t lens at by simp
    moreover have "distinct (map fst ?zs)" using dist lens by (simp add: distinct_map inj_on_def)
    ultimately show ?thesis using stored_token[OF scaled _ pos, of ?t] t lens False by (simp add: Let_def)
  qed
qed

text \<open>C8: for a prefill batch of a reachable manager state whose written pages have one reference, storing the new
  keys and values at the prepared slots succeeds; every request then reads, through its page table, its new
  rows in order behind the rows it had before, and no slot is written twice.\<close>

theorem prefill_rows_read_back:
  assumes "reachable xx n (m, ss)" and "distinct js" and "\<forall>j \<in> set js. j < length ss"
    and "prepare_prefill shape columns (bm_block_size m) merge (map ((!) ss) js) slices = Inr r"
    and "normalize_prefill_slices (map ((!) ss) js) slices = Inr sls"
    and "case slices of None \<Rightarrow> True | Some given_slices \<Rightarrow> list_all slice_valid given_slices"
    and "\<forall>j \<in> set js. sq_num_prompt_tokens (ss ! j) \<le> length (sq_token_ids (ss ! j)) \<and> sq_block_table (ss ! j) \<noteq> []"
    and "\<forall>k < length js. \<forall>b \<in> query_pages (bm_block_size m) (ss ! (js ! k), sls ! k). gp_ref (bm_gpu m) b = 1"
    and "lc_page c = bm_block_size m" and "lc_blocks c = nat n"
    and "validate_payload c key val (map int (hb_slots (pi_host r))) = Inr ()" and "validate_scales c = Inr scaled"
  shows "\<exists>c'. store_kvcache ar False order order2 key val (map int (hb_slots (pi_host r))) c = (Inr (), c') \<and>
    slots_separate (map int (hb_slots (pi_host r))) \<and>
    (\<forall>k < length js. \<forall>p < key_len (ss ! (js ! k)) (sls ! k).
      let i = slot_of (bm_block_size m) (sq_block_table (ss ! (js ! k))) p;
          start = physical_query_start (ss ! (js ! k)) (nat (ps_token_start (sls ! k))); t = hb_cu_q (pi_host r) ! k + (p - start) in
      slot_rows c' i = (if p < start then slot_rows c i else token_rows ar scaled (key ! t) (val ! t)))"
proof -
  let ?bs = "bm_block_size m" and ?batch = "map ((!) ss) js" and ?slots = "hb_slots (pi_host r)"
  have bs: "0 < ?bs" by (rule reachable_block_size[OF assms(1)])
  have sls: "length sls = length js" using normalized_slices(1)[OF assms(5,6)] by simp
  have ok: "\<forall>s \<in> set ?batch. sq_num_prompt_tokens s \<le> length (sq_token_ids s) \<and> sq_block_table s \<noteq> []" using assms(7) by simp
  have pair: "(ss ! (js ! k), sls ! k) \<in> set (zip ?batch sls)" if "k < length js" for k using that sls by (force simp: set_zip)
  have room: "key_len (ss ! (js ! k)) (sls ! k) \<le> length (sq_block_table (ss ! (js ! k))) * ?bs" if "k < length js" for k
    using prepared_core(2)[OF assms(4,5) pair[OF that]] assms(7) that ceil_div_le_iff[OF bs] by simp
  note priv = batch_private_writes[OF assms(1-3) sls room bs assms(8)]
  have slots: "?slots = concat (map (query_slots ?bs) (zip ?batch sls))" using prepared_core(1)[OF assms(4,5)] by (simp add: core_def)
  have "distinct ?slots" unfolding slots
    by (rule query_slots_distinct[OF bs priv]) (use prepared_core(2)[OF assms(4,5)] in auto)
  then have sep: "slots_separate (map int ?slots)" by (simp add: slots_separate_def distinct_filter distinct_map inj_on_def)
  have "i < nat n * ?bs" if i: "i \<in> set ?slots" for i
  proof -
    obtain x where x: "x \<in> set (zip ?batch sls)" "i \<in> set (query_slots ?bs x)" using i unfolding slots by auto
    then obtain k where k: "k < length js" "x = (ss ! (js ! k), sls ! k)" using sls by (auto simp: set_zip)
    then obtain p where p: "p \<in> set (query_places x)" "i = slot_of ?bs (sq_block_table (ss ! (js ! k))) p" using x(2) by (auto simp: query_slots_slot_of)
    have "p < length (sq_block_table (ss ! (js ! k))) * ?bs" using p(1) room[OF k(1)] k(2) by (auto simp: query_places_def split: if_splits)
    moreover have "js ! k < length ss" using assms(3) k(1) by simp
    then have "\<forall>b \<in> set (sq_block_table (ss ! (js ! k))). b < nat n" using reachable_table_bound[OF assms(1)] by blast
    ultimately show ?thesis unfolding p(2) by (rule slot_of_bound[OF bs])
  qed
  then have within: "slots_within c (map int ?slots)" using assms(9,10) by (auto simp: slots_within_def lc_slots_def simp flip: of_nat_mult)
  note st = store_eager_result[OF assms(11,12) within, of ar order order2]
  have lens: "length key = length ?slots" "length val = length ?slots" using validated(1,2)[OF assms(11)] by simp_all
  have "\<forall>k < length js. \<forall>p < key_len (ss ! (js ! k)) (sls ! k).
      let i = slot_of ?bs (sq_block_table (ss ! (js ! k))) p; start = physical_query_start (ss ! (js ! k)) (nat (ps_token_start (sls ! k)));
          t = hb_cu_q (pi_host r) ! k + (p - start) in
      slot_rows (fold (write_token ar scaled) (zip (map int ?slots) (zip key val)) c) i = (if p < start then slot_rows c i else token_rows ar scaled (key ! t) (val ! t))"
  proof (intro allI impI)
    fix k p assume k: "k < length js" and p: "p < key_len (ss ! (js ! k)) (sls ! k)"
    have "k < length ?batch" "p < key_len (?batch ! k) (sls ! k)" using k p by simp_all
    from prepared_store[OF assms(4-6) ok bs priv this(1) validated_scales[OF assms(12)] lens this(2), of ar]
    show "let i = slot_of ?bs (sq_block_table (ss ! (js ! k))) p; start = physical_query_start (ss ! (js ! k)) (nat (ps_token_start (sls ! k)));
          t = hb_cu_q (pi_host r) ! k + (p - start) in
      slot_rows (fold (write_token ar scaled) (zip (map int ?slots) (zip key val)) c) i = (if p < start then slot_rows c i else token_rows ar scaled (key ! t) (val ! t))"
      using k by (simp add: Let_def)
  qed
  then show ?thesis using st sep by blast
qed

text \<open>The second page of the running request is prefilled.\<close>

definition example_text :: sequence where
  "example_text = (snd example_running)\<lparr>sq_pixel_values := None, sq_image_grid_thw := None\<rparr>"

definition example_suffix :: prefill_inputs where
  "example_suffix = (case prepare_prefill (\<lambda>_. []) (\<lambda>_ _ _. []) 4 2 [example_text] (Some [example_slices ! 1]) of Inr r \<Rightarrow> r)"

definition example_dense :: "int layer_cache" where
  "example_dense = \<lparr>lc_blocks = 4, lc_page = 4, lc_heads = 1, lc_dim = 1, lc_fp8 = False, lc_k = (\<lambda>i. [[int i]]), lc_v = (\<lambda>i. [[0]]),
     lc_ks = None, lc_vs = None\<rparr>"

lemma example_text_reachable: "reachable example_hash 4 (fst example_running, [example_text])"
proof -
  have "system_step example_hash (fst example_running, [snd example_running]) (Update 0 example_text)
      (fst example_running, [snd example_running][0 := example_text])"
    by (rule step_update) (simp_all add: example_text_def)
  then show ?thesis using reachable_step[OF example_reachable] by simp
qed

theorem prefill_rows_read_back_witness:
  "\<exists>c. store_kvcache example_arith False [] [] [[[20]], [[21]]] [[[30]], [[31]]] [4, 5] example_dense = (Inr (), c) \<and>
    lc_k c 5 = [[21]] \<and> lc_v c 5 = [[31]] \<and> lc_k c 3 = [[3]]"
proof -
  let ?js = "[0::nat]" and ?ss = "[example_text]" and ?m = "fst example_running" and ?sls = "[example_slices ! 1]"
  have "is_ok (prepare_prefill (\<lambda>_. []) (\<lambda>_ _ _. []) 4 2 [example_text] (Some ?sls))" by code_simp
  then have prep: "prepare_prefill (\<lambda>_. []) (\<lambda>_ _ _. []) 4 2 [example_text] (Some ?sls) = Inr example_suffix"
    unfolding is_ok_iff example_suffix_def by force
  have c: "bm_block_size ?m = 4" "hb_slots (pi_host example_suffix) = [4, 5]" "normalize_prefill_slices [example_text] (Some ?sls) = Inr ?sls"
    "list_all slice_valid ?sls" "sq_num_prompt_tokens example_text \<le> length (sq_token_ids example_text) \<and> sq_block_table example_text \<noteq> []"
    "\<forall>b \<in> query_pages 4 (example_text, example_slices ! 1). gp_ref (bm_gpu ?m) b = 1"
    "key_len example_text (example_slices ! 1) = 6" "sq_block_table example_text = [0, 1]" "hb_cu_q (pi_host example_suffix) ! 0 = 0"
    "physical_query_start example_text (nat (ps_token_start (example_slices ! 1))) = 4"
    by code_simp+
  have d: "validate_payload example_dense [[[20]], [[21]]] [[[30]], [[31]]] [4, 5] = Inr ()" "validate_scales example_dense = Inr False"
    "lc_page example_dense = 4" "lc_blocks example_dense = nat 4" by (simp_all add: validate_payload_def row_shape_def example_dense_def validate_scales_def)
  have "map ((!) ?ss) ?js = [example_text]" by simp
  note prefill_rows_read_back[OF example_text_reachable, of ?js "\<lambda>_. []" "\<lambda>_ _ _. []" 2 "Some ?sls" example_suffix ?sls example_dense "[[[20]], [[21]]]" "[[[30]], [[31]]]" False example_arith "[]" "[]",
    unfolded this c(1,2)]
  from this[OF _ _ prep c(3)] c d obtain e where e: "store_kvcache example_arith False [] [] [[[20]], [[21]]] [[[30]], [[31]]] [4, 5] example_dense = (Inr (), e)"
    "\<forall>p < 6. let i = slot_of 4 [0, 1] p; t = p - 4 in
      slot_rows e i = (if p < 4 then slot_rows example_dense i else token_rows example_arith False ([[[20]], [[21]]] ! t) ([[[30]], [[31]]] ! t))"
    by (auto simp: Let_def)
  have "slot_rows e 5 = token_rows example_arith False [[21]] [[31]]" "slot_rows e 3 = slot_rows example_dense 3"
    using e(2)[rule_format, of 5] e(2)[rule_format, of 3] by (simp_all add: slot_of_def)
  then show ?thesis using e(1) by (simp add: slot_rows_def token_rows_def payload_def example_arith_def example_dense_def)
qed

end
