(* ===== verification/Worker_Control.thy ===== *)
theory Worker_Control imports Transition begin

text \<open>
  The tensor-parallel control protocol: \<open>engine/tp_control.py\<close> (commands, responses, \<open>TPControlPlane\<close>) and the two
  ends that drive it, \<open>ModelRunner.call\<close> on rank 0 and \<open>ModelRunner.loop\<close> on the workers
  (\<open>engine/model_runner.py\<close>).

  A pickled message is represented by what \<open>pickle.loads\<close> makes of it.  A duplex pipe is a pair of FIFO lists;
  sending to a pipe whose other end is closed raises, and receiving from one gives what is left in it and then
  the end of file.  The ranks run concurrently: the last section interleaves the steps of rank 0 (one send, one
  wake-up of \<open>wait\<close>, the expiry of the deadline) with the steps of every worker (read, run, reply) and with
  worker processes that die at any moment.
\<close>

section \<open>Messages\<close>

datatype tp_method = COPY_KV_BLOCKS | COPY_KV_BLOCK_PREFIXES | SWAP_BLOCKS | RUN_PLAN
  | EXECUTE_SINGLE_GREEDY_DECODE_CUDAGRAPH_STATE | COMPACT_KV_CACHE | RUN | EXIT

fun method_value :: "tp_method \<Rightarrow> string" where
  "method_value COPY_KV_BLOCKS = ''copy_kv_blocks''"
| "method_value COPY_KV_BLOCK_PREFIXES = ''copy_kv_block_prefixes''"
| "method_value SWAP_BLOCKS = ''swap_blocks''"
| "method_value RUN_PLAN = ''run_plan''"
| "method_value EXECUTE_SINGLE_GREEDY_DECODE_CUDAGRAPH_STATE = ''execute_single_greedy_decode_cudagraph_state''"
| "method_value COMPACT_KV_CACHE = ''compact_kv_cache''"
| "method_value RUN = ''run''"
| "method_value EXIT = ''exit''"

definition tp_methods :: "tp_method list" where
  "tp_methods = [COPY_KV_BLOCKS, COPY_KV_BLOCK_PREFIXES, SWAP_BLOCKS, RUN_PLAN, EXECUTE_SINGLE_GREEDY_DECODE_CUDAGRAPH_STATE,
     COMPACT_KV_CACHE, RUN, EXIT]"

definition parse_method :: "string \<Rightarrow> py_error + tp_method" where
  "parse_method name = (case find (\<lambda>m. method_value m = name) tp_methods of None \<Rightarrow> Inl ValueError | Some m \<Rightarrow> Inr m)"

datatype tp_status = STATUS_OK | STATUS_ERROR

record 'a tp_command =
  cm_request_id :: int
  cm_method :: tp_method
  cm_args :: "'a list"

record tp_response =
  rs_request_id :: int
  rs_worker_rank :: int
  rs_status :: tp_status
  rs_error_type :: "string option"
  rs_error_message :: "string option"
  rs_traceback :: "string option"

definition check_request_id :: "int \<Rightarrow> py_error + unit" where
  "check_request_id v = need ValueError (0 \<le> v) (Inr ())"

definition check_worker_rank :: "int \<Rightarrow> py_error + unit" where
  "check_worker_rank v = need ValueError (0 < v) (Inr ())"

definition command_validate :: "'a tp_command \<Rightarrow> py_error + unit" where
  "command_validate c = check_request_id (cm_request_id c)"

definition command_new :: "int \<Rightarrow> tp_method \<Rightarrow> 'a list \<Rightarrow> py_error + 'a tp_command" where
  "command_new i m args = (let c = \<lparr>cm_request_id = i, cm_method = m, cm_args = args\<rparr> in bind_res (command_validate c) (\<lambda>_. Inr c))"

definition response_validate :: "tp_response \<Rightarrow> py_error + unit" where
  "response_validate r =
     bind_res (check_request_id (rs_request_id r)) (\<lambda>_.
     bind_res (check_worker_rank (rs_worker_rank r)) (\<lambda>_.
     if rs_status r = STATUS_OK then need ValueError (rs_error_type r = None \<and> rs_error_message r = None \<and> rs_traceback r = None) (Inr ())
     else need ValueError (rs_error_type r \<noteq> None \<and> rs_error_type r \<noteq> Some [])
         (need ValueError (rs_error_message r \<noteq> None)
         (need ValueError (rs_traceback r \<noteq> None) (Inr ())))))"

definition response_new :: "tp_response \<Rightarrow> py_error + tp_response" where
  "response_new r = bind_res (response_validate r) (\<lambda>_. Inr r)"

definition response_ok :: "'a tp_command \<Rightarrow> int \<Rightarrow> py_error + tp_response" where
  "response_ok c rank = response_new \<lparr>rs_request_id = cm_request_id c, rs_worker_rank = rank, rs_status = STATUS_OK,
     rs_error_type = None, rs_error_message = None, rs_traceback = None\<rparr>"

definition response_error :: "'a tp_command \<Rightarrow> int \<Rightarrow> string \<Rightarrow> string \<Rightarrow> string \<Rightarrow> py_error + tp_response" where
  "response_error c rank kind message trace = response_new \<lparr>rs_request_id = cm_request_id c, rs_worker_rank = rank, rs_status = STATUS_ERROR,
     rs_error_type = Some kind, rs_error_message = Some message, rs_traceback = Some trace\<rparr>"

text \<open>What the bytes of a message decode to.\<close>

datatype 'a tp_bytes = Pickled_command "'a tp_command" | Pickled_response tp_response | Pickled_other | Undecodable

definition serialize_command :: "('a list \<Rightarrow> bool) \<Rightarrow> 'a tp_command \<Rightarrow> py_error + 'a tp_bytes" where
  "serialize_command picklable c = need RuntimeError (picklable (cm_args c)) (Inr (Pickled_command c))"

definition serialize_response :: "tp_response \<Rightarrow> py_error + 'a tp_bytes" where
  "serialize_response r = Inr (Pickled_response r)"

definition deserialize_command :: "'a tp_bytes \<Rightarrow> py_error + 'a tp_command" where
  "deserialize_command b = (case b of Undecodable \<Rightarrow> Inl RuntimeError
     | Pickled_command c \<Rightarrow> bind_res (command_validate c) (\<lambda>_. Inr c) | _ \<Rightarrow> Inl ValueError)"

definition deserialize_response :: "'a tp_bytes \<Rightarrow> py_error + tp_response" where
  "deserialize_response b = (case b of Undecodable \<Rightarrow> Inl RuntimeError
     | Pickled_response r \<Rightarrow> bind_res (response_validate r) (\<lambda>_. Inr r) | _ \<Rightarrow> Inl ValueError)"

section \<open>The control plane\<close>

text \<open>Rank 0 has a list of pipes in the order of the worker ranks, a worker its own end of one.\<close>

datatype tp_channel = Worker_connection | Worker_connections nat | No_channel

record tp_plane =
  tp_rank :: int
  tp_world :: int
  tp_channel :: tp_channel
  tp_timeout :: int
  tp_next :: int

definition validate_topology :: "tp_plane \<Rightarrow> py_error + unit" where
  "validate_topology p =
     (if tp_world p \<le> 1 then Inr ()
      else if tp_rank p = 0 then
        (case tp_channel p of Worker_connections k \<Rightarrow> need ValueError (int k = tp_world p - 1) (Inr ()) | _ \<Rightarrow> Inl TypeError)
      else (case tp_channel p of Worker_connection \<Rightarrow> Inr () | _ \<Rightarrow> Inl TypeError))"

definition plane_new :: "int \<Rightarrow> int \<Rightarrow> tp_channel \<Rightarrow> int \<Rightarrow> py_error + tp_plane" where
  "plane_new rank world channel timeout =
     need ValueError (0 < world)
    (need ValueError (0 \<le> rank \<and> rank < world)
    (need ValueError (0 < timeout)
    (let p = \<lparr>tp_rank = rank, tp_world = world, tp_channel = channel, tp_timeout = timeout, tp_next = 0\<rparr> in
     bind_res (validate_topology p) (\<lambda>_. Inr p))))"

definition rank0_channels :: "tp_plane \<Rightarrow> py_error + nat list" where
  "rank0_channels p = need RuntimeError (tp_rank p = 0 \<and> 1 < tp_world p)
     (case tp_channel p of Worker_connections k \<Rightarrow> Inr [1..<k + 1] | _ \<Rightarrow> Inl TypeError)"

definition next_command :: "string \<Rightarrow> 'a list \<Rightarrow> ('a tp_command, tp_plane) op" where
  "next_command name args =
     bnd (lift_res (parse_method name)) (\<lambda>m.
     bnd (gets tp_next) (\<lambda>i.
     bnd (lift_res (command_new i m args)) (\<lambda>c.
     thn (upd (\<lambda>p. p\<lparr>tp_next := i + 1\<rparr>)) (ret c))))"

text \<open>The pipes, by the worker at their other end.\<close>

record 'a tp_net =
  nt_down :: "nat \<Rightarrow> 'a tp_bytes list"
  nt_up :: "nat \<Rightarrow> 'a tp_bytes list"
  nt_closed :: "nat \<Rightarrow> bool"

definition send_down :: "'a tp_bytes \<Rightarrow> nat \<Rightarrow> (unit, 'a tp_net) op" where
  "send_down data w = bnd (gets nt_closed) (\<lambda>closed. thn (chk RuntimeError (\<not> closed w))
     (upd (\<lambda>n. n\<lparr>nt_down := (nt_down n)(w := nt_down n w @ [data])\<rparr>)))"

definition receive_up :: "nat \<Rightarrow> ('a tp_bytes option, 'a tp_net) op" where
  "receive_up w = bnd (gets nt_up) (\<lambda>up. case up w of [] \<Rightarrow> ret None
     | b # rest \<Rightarrow> thn (upd (\<lambda>n. n\<lparr>nt_up := (nt_up n)(w := rest)\<rparr>)) (ret (Some b)))"

record 'a tp_node =
  nd_plane :: tp_plane
  nd_net :: "'a tp_net"

definition on_plane :: "('r, tp_plane) op \<Rightarrow> ('r, 'a tp_node) op" where
  "on_plane = zoom nd_plane (\<lambda>p n. n\<lparr>nd_plane := p\<rparr>)"

definition on_net :: "('r, 'a tp_net) op \<Rightarrow> ('r, 'a tp_node) op" where
  "on_net = zoom nd_net (\<lambda>p n. n\<lparr>nd_net := p\<rparr>)"

text \<open>\<open>broadcast\<close> up to its sending loop: the command, its bytes and the channels that are to get them.\<close>

definition prepare_broadcast :: "('a list \<Rightarrow> bool) \<Rightarrow> string \<Rightarrow> 'a list \<Rightarrow> ('a tp_command \<times> 'a tp_bytes \<times> nat list, tp_plane) op" where
  "prepare_broadcast picklable name args =
     bnd (gets id) (\<lambda>p.
     thn (chk RuntimeError (1 < tp_world p \<and> tp_rank p = 0))
    (bnd (next_command name args) (\<lambda>c.
     bnd (lift_res (serialize_command picklable c)) (\<lambda>data.
     bnd (lift_res (rank0_channels p)) (\<lambda>ws. ret (c, data, ws))))))"

definition broadcast :: "('a list \<Rightarrow> bool) \<Rightarrow> string \<Rightarrow> 'a list \<Rightarrow> ('a tp_command, 'a tp_node) op" where
  "broadcast picklable name args =
     bnd (on_plane (prepare_broadcast picklable name args)) (\<lambda>(c, data, ws).
     thn (each ws (\<lambda>w. on_net (send_down data w))) (ret c))"

section \<open>Waiting for the responses\<close>

text \<open>The state of the loop: the workers that have not answered, and the failures that were reported.\<close>

type_synonym awaiting = "nat list \<times> tp_response list"

definition take_response :: "'a tp_command \<Rightarrow> nat \<Rightarrow> 'a tp_bytes option \<Rightarrow> awaiting \<Rightarrow> py_error + awaiting" where
  "take_response c w received = (\<lambda>(pending, failures). case received of None \<Rightarrow> Inl RuntimeError
     | Some b \<Rightarrow> bind_res (deserialize_response b) (\<lambda>r.
       need RuntimeError (rs_worker_rank r = int w)
      (need RuntimeError (rs_request_id r = cm_request_id c)
      (Inr (removeAll w pending, if rs_status r = STATUS_ERROR then failures @ [r] else failures)))))"

fun take_ready :: "'a tp_command \<Rightarrow> nat list \<Rightarrow> awaiting \<Rightarrow> (awaiting, 'a tp_net) op" where
  "take_ready c [] st = ret st"
| "take_ready c (w # ready) st = bnd (receive_up w) (\<lambda>b. bnd (lift_res (take_response c w b st)) (take_ready c ready))"

definition awaited :: "tp_response list \<Rightarrow> py_error + unit" where
  "awaited failures = need RuntimeError (failures = []) (Inr ())"

text \<open>\<open>await_responses\<close> for a given sequence of wake-ups: each is the list of ready channels that \<open>wait\<close> returns,
  empty when the deadline passes.  \<open>None\<close> is a loop that is still waiting.\<close>

datatype tp_wait = Answered | Failed py_error | Deadline

fun await_loop :: "'a tp_command \<Rightarrow> nat list list \<Rightarrow> awaiting \<Rightarrow> 'a tp_net \<Rightarrow> tp_wait option \<times> 'a tp_net" where
  "await_loop c wakes (pending, failures) n =
     (if pending = [] then (Some (case awaited failures of Inl e \<Rightarrow> Failed e | Inr _ \<Rightarrow> Answered), n)
      else case wakes of [] \<Rightarrow> (None, n)
      | ready # wakes' \<Rightarrow> if ready = [] then (Some Deadline, n)
        else (case take_ready c ready (pending, failures) n of (Inl e, n') \<Rightarrow> (Some (Failed e), n') | (Inr st, n') \<Rightarrow> await_loop c wakes' st n'))"

definition await_responses :: "'a tp_command \<Rightarrow> nat list list \<Rightarrow> 'a tp_node \<Rightarrow> tp_wait option \<times> 'a tp_node" where
  "await_responses c wakes nd = (case rank0_channels (nd_plane nd) of Inl e \<Rightarrow> (Some (Failed e), nd)
     | Inr ws \<Rightarrow> (case await_loop c wakes (ws, []) (nd_net nd) of (r, n) \<Rightarrow> (r, nd\<lparr>nd_net := n\<rparr>)))"

section \<open>The ranks together\<close>

datatype ('e, 'r) call_outcome = Returned 'r | Raised_local 'e | Raised py_error | Raised_timeout | No_method

datatype ('a, 'e, 'r) rank0_phase =
    Idle | Sending "'a tp_command" "'a tp_bytes" "nat list" | Computing "'a tp_command" | Awaiting "'a tp_command" "'e + 'r" awaiting

datatype 'a worker_phase = Reading | Running "'a tp_command" | Replying tp_response bool | Stopped

text \<open>\<open>sy_ran\<close> logs the commands that a rank has run and whether they succeeded (rank 0 is 0), \<open>sy_sent\<close> what was sent to
  a worker, \<open>sy_issued\<close> the commands of all broadcasts and \<open>sy_last\<close> how the last call ended.\<close>

record ('a, 'e, 'r) tp_system =
  sy_node :: "'a tp_node"
  sy_phase :: "('a, 'e, 'r) rank0_phase"
  sy_worker :: "nat \<Rightarrow> 'a worker_phase"
  sy_ran :: "nat \<Rightarrow> ('a tp_command \<times> bool) list"
  sy_sent :: "nat \<Rightarrow> 'a tp_command list"
  sy_issued :: "'a tp_command list"
  sy_last :: "('e, 'r) call_outcome option"

definition set_net :: "'a tp_net \<Rightarrow> ('a, 'e, 'r) tp_system \<Rightarrow> ('a, 'e, 'r) tp_system" where
  "set_net n s = s\<lparr>sy_node := (sy_node s)\<lparr>nd_net := n\<rparr>\<rparr>"

definition ended :: "('e, 'r) call_outcome \<Rightarrow> ('a, 'e, 'r) tp_system \<Rightarrow> ('a, 'e, 'r) tp_system" where
  "ended out s = s\<lparr>sy_phase := Idle, sy_last := Some out\<rparr>"

definition call_start :: "(string \<Rightarrow> bool) \<Rightarrow> ('a list \<Rightarrow> bool) \<Rightarrow> string \<Rightarrow> 'a list \<Rightarrow> ('a, 'e, 'r) tp_system \<Rightarrow> ('a, 'e, 'r) tp_system" where
  "call_start known picklable name args s =
     (if \<not> known name then ended No_method s
      else case prepare_broadcast picklable name args (nd_plane (sy_node s)) of
        (Inl e, p) \<Rightarrow> ended (Raised e) (s\<lparr>sy_node := (sy_node s)\<lparr>nd_plane := p\<rparr>\<rparr>)
      | (Inr (c, data, ws), p) \<Rightarrow> s\<lparr>sy_node := (sy_node s)\<lparr>nd_plane := p\<rparr>, sy_phase := Sending c data ws,
          sy_issued := sy_issued s @ [c], sy_last := None\<rparr>)"

definition send_next :: "'a tp_command \<Rightarrow> 'a tp_bytes \<Rightarrow> nat list \<Rightarrow> ('a, 'e, 'r) tp_system \<Rightarrow> ('a, 'e, 'r) tp_system" where
  "send_next c data ws s = (case ws of [] \<Rightarrow> s\<lparr>sy_phase := Computing c\<rparr>
     | w # ws' \<Rightarrow> (case send_down data w (nd_net (sy_node s)) of
         (Inl e, n) \<Rightarrow> ended (Raised e) (set_net n s)
       | (Inr _, n) \<Rightarrow> set_net n s\<lparr>sy_phase := Sending c data ws', sy_sent := (sy_sent s)(w := sy_sent s w @ [c])\<rparr>))"

definition compute_local :: "'a tp_command \<Rightarrow> 'e + 'r \<Rightarrow> ('a, 'e, 'r) tp_system \<Rightarrow> ('a, 'e, 'r) tp_system" where
  "compute_local c res s = (let s = s\<lparr>sy_ran := (sy_ran s)(0 := sy_ran s 0 @ [(c, is_ok res)])\<rparr> in
     case rank0_channels (nd_plane (sy_node s)) of Inl e \<Rightarrow> ended (Raised e) s | Inr ws \<Rightarrow> s\<lparr>sy_phase := Awaiting c res (ws, [])\<rparr>)"

definition conclude :: "'a tp_command \<Rightarrow> 'e + 'r \<Rightarrow> awaiting \<Rightarrow> ('a, 'e, 'r) tp_system \<Rightarrow> ('a, 'e, 'r) tp_system" where
  "conclude c res st s = (if fst st \<noteq> [] then s\<lparr>sy_phase := Awaiting c res st\<rparr>
     else ended (case awaited (snd st) of Inl e \<Rightarrow> Raised e | Inr _ \<Rightarrow> (case res of Inl e \<Rightarrow> Raised_local e | Inr r \<Rightarrow> Returned r)) s)"

definition wake_up :: "'a tp_command \<Rightarrow> 'e + 'r \<Rightarrow> awaiting \<Rightarrow> nat list \<Rightarrow> ('a, 'e, 'r) tp_system \<Rightarrow> ('a, 'e, 'r) tp_system" where
  "wake_up c res st ready s = (case take_ready c ready st (nd_net (sy_node s)) of
     (Inl e, n) \<Rightarrow> ended (Raised e) (set_net n s) | (Inr st', n) \<Rightarrow> conclude c res st' (set_net n s))"

text \<open>What \<open>wait\<close> may return: channels that still have to answer and have data or are at the end of file.\<close>

definition may_wake :: "'a tp_net \<Rightarrow> nat list \<Rightarrow> nat list \<Rightarrow> bool" where
  "may_wake n pending ready \<longleftrightarrow> ready \<noteq> [] \<and> distinct ready \<and> set ready \<subseteq> set pending \<and> list_all (\<lambda>w. nt_up n w \<noteq> [] \<or> nt_closed n w) ready"

section \<open>The workers\<close>

definition stop_worker :: "nat \<Rightarrow> ('a, 'e, 'r) tp_system \<Rightarrow> ('a, 'e, 'r) tp_system" where
  "stop_worker w s = (let n = nd_net (sy_node s) in
     set_net (n\<lparr>nt_closed := (nt_closed n)(w := True)\<rparr>) s\<lparr>sy_worker := (sy_worker s)(w := Stopped)\<rparr>)"

definition worker_read :: "nat \<Rightarrow> ('a, 'e, 'r) tp_system \<Rightarrow> ('a, 'e, 'r) tp_system option" where
  "worker_read w s = (let n = nd_net (sy_node s) in case nt_down n w of [] \<Rightarrow> None
     | b # rest \<Rightarrow> (let t = set_net (n\<lparr>nt_down := (nt_down n)(w := rest)\<rparr>) s in
         case deserialize_command b of Inl e \<Rightarrow> Some (stop_worker w t) | Inr c \<Rightarrow> Some (t\<lparr>sy_worker := (sy_worker s)(w := Running c)\<rparr>)))"

definition worker_run :: "nat \<Rightarrow> 'a tp_command \<Rightarrow> (string \<times> string \<times> string) option \<Rightarrow> ('a, 'e, 'r) tp_system \<Rightarrow> ('a, 'e, 'r) tp_system" where
  "worker_run w c failure s = (let t = s\<lparr>sy_ran := (sy_ran s)(w := sy_ran s w @ [(c, failure = None)])\<rparr> in
     case (case failure of None \<Rightarrow> response_ok c (int w) | Some (kind, message, trace) \<Rightarrow> response_error c (int w) kind message trace) of
       Inl e \<Rightarrow> stop_worker w t
     | Inr r \<Rightarrow> t\<lparr>sy_worker := (sy_worker t)(w := Replying r (failure \<noteq> None \<or> cm_method c = EXIT))\<rparr>)"

definition worker_reply :: "nat \<Rightarrow> tp_response \<Rightarrow> bool \<Rightarrow> ('a, 'e, 'r) tp_system \<Rightarrow> ('a, 'e, 'r) tp_system" where
  "worker_reply w r stop s = (let n = nd_net (sy_node s) in
     case serialize_response r of Inl e \<Rightarrow> stop_worker w s
     | Inr b \<Rightarrow> (let t = set_net (n\<lparr>nt_up := (nt_up n)(w := nt_up n w @ [b])\<rparr>) s in
         if stop then stop_worker w t else t\<lparr>sy_worker := (sy_worker t)(w := Reading)\<rparr>))"

text \<open>A dying process closes its end; what it had sent may be cut off.\<close>

definition worker_crash :: "nat \<Rightarrow> nat \<Rightarrow> ('a, 'e, 'r) tp_system \<Rightarrow> ('a, 'e, 'r) tp_system" where
  "worker_crash w k s = (let n = nd_net (sy_node s) in stop_worker w (set_net (n\<lparr>nt_up := (nt_up n)(w := take k (nt_up n w))\<rparr>) s))"

section \<open>Steps\<close>

datatype ('a, 'e, 'r) tp_event =
    Call string "'a list" | Send | Compute "'e + 'r" | Wake "nat list" | Expire
  | Read nat | Run nat "(string \<times> string \<times> string) option" | Reply nat | Crash nat nat

definition worker_of :: "('a, 'e, 'r) tp_system \<Rightarrow> nat \<Rightarrow> bool" where
  "worker_of s w \<longleftrightarrow> 0 < w \<and> int w < tp_world (nd_plane (sy_node s))"

fun tp_exec :: "(string \<Rightarrow> bool) \<Rightarrow> ('a list \<Rightarrow> bool) \<Rightarrow> ('a, 'e, 'r) tp_event \<Rightarrow> ('a, 'e, 'r) tp_system \<Rightarrow> ('a, 'e, 'r) tp_system option" where
  "tp_exec known picklable (Call name args) s = (case sy_phase s of Idle \<Rightarrow> Some (call_start known picklable name args s) | _ \<Rightarrow> None)"
| "tp_exec known picklable Send s = (case sy_phase s of Sending c data ws \<Rightarrow> Some (send_next c data ws s) | _ \<Rightarrow> None)"
| "tp_exec known picklable (Compute res) s = (case sy_phase s of Computing c \<Rightarrow> Some (compute_local c res s) | _ \<Rightarrow> None)"
| "tp_exec known picklable (Wake ready) s = (case sy_phase s of
     Awaiting c res st \<Rightarrow> if may_wake (nd_net (sy_node s)) (fst st) ready then Some (wake_up c res st ready s) else None | _ \<Rightarrow> None)"
| "tp_exec known picklable Expire s = (case sy_phase s of Awaiting c res st \<Rightarrow> Some (ended Raised_timeout s) | _ \<Rightarrow> None)"
| "tp_exec known picklable (Read w) s = (if worker_of s w \<and> sy_worker s w = Reading then worker_read w s else None)"
| "tp_exec known picklable (Run w failure) s = (if worker_of s w then (case sy_worker s w of Running c \<Rightarrow> Some (worker_run w c failure s) | _ \<Rightarrow> None) else None)"
| "tp_exec known picklable (Reply w) s = (if worker_of s w then (case sy_worker s w of Replying r stop \<Rightarrow> Some (worker_reply w r stop s) | _ \<Rightarrow> None) else None)"
| "tp_exec known picklable (Crash w k) s = (if worker_of s w \<and> sy_worker s w \<noteq> Stopped then Some (worker_crash w k s) else None)"

definition tp_step :: "(string \<Rightarrow> bool) \<Rightarrow> ('a list \<Rightarrow> bool) \<Rightarrow> ('a, 'e, 'r) tp_system \<Rightarrow> ('a, 'e, 'r) tp_event \<Rightarrow> ('a, 'e, 'r) tp_system \<Rightarrow> bool" where
  "tp_step known picklable s l t \<longleftrightarrow> tp_exec known picklable l s = Some t"

definition tp_start :: "tp_plane \<Rightarrow> ('a, 'e, 'r) tp_system" where
  "tp_start p = \<lparr>sy_node = \<lparr>nd_plane = p, nd_net = \<lparr>nt_down = (\<lambda>_. []), nt_up = (\<lambda>_. []), nt_closed = (\<lambda>_. False)\<rparr>\<rparr>, sy_phase = Idle,
     sy_worker = (\<lambda>_. Reading), sy_ran = (\<lambda>_. []), sy_sent = (\<lambda>_. []), sy_issued = [], sy_last = None\<rparr>"

definition tp_init :: "nat \<Rightarrow> ('a, 'e, 'r) tp_system \<Rightarrow> bool" where
  "tp_init N s \<longleftrightarrow> 1 < N \<and> (\<exists>timeout p. plane_new 0 (int N) (Worker_connections (N - 1)) timeout = Inr p \<and> s = tp_start p)"

end
