(* ===== verification/Worker_Lockstep.thy ===== *)
theory Worker_Lockstep imports Worker_Control "HOL-Library.Sublist" begin

text \<open>
  The ranks stay in lockstep: every worker runs a prefix of the commands of rank 0 in their order, and when a call
  returns, every rank has run the same commands, whatever the interleaving and whatever timed out or died before.
\<close>

section \<open>The invariant\<close>

definition current :: "'a worker_phase \<Rightarrow> 'a tp_command list" where
  "current p = (case p of Running c \<Rightarrow> [c] | _ \<Rightarrow> [])"

text \<open>The commands sent to a worker are those it has run, the one it runs, those it lost when it died and those in its pipe.\<close>

definition queue_ok :: "('a, 'e, 'r) tp_system \<Rightarrow> nat \<Rightarrow> bool" where
  "queue_ok s w \<longleftrightarrow> (let n = nd_net (sy_node s) in \<exists>cs gone. nt_down n w = map Pickled_command cs \<and>
     map fst (sy_ran s w) @ current (sy_worker s w) @ gone @ cs = sy_sent s w \<and> (nt_closed n w \<or> gone = []))"

text \<open>A worker that failed to run a command runs no other.\<close>

definition life_ok :: "('a, 'e, 'r) tp_system \<Rightarrow> nat \<Rightarrow> bool" where
  "life_ok s w \<longleftrightarrow> (nt_closed (nd_net (sy_node s)) w \<longleftrightarrow> sy_worker s w = Stopped) \<and> (\<forall>x \<in> set (butlast (sy_ran s w)). snd x) \<and>
     (sy_ran s w \<noteq> [] \<and> \<not> snd (last (sy_ran s w)) \<longrightarrow> sy_worker s w = Stopped \<or> (\<exists>r. sy_worker s w = Replying r True))"

text \<open>A response reports a command that the worker has run.\<close>

definition ack_ok :: "('a tp_command \<times> bool) list \<Rightarrow> nat \<Rightarrow> tp_response \<Rightarrow> bool" where
  "ack_ok log w r \<longleftrightarrow> rs_worker_rank r = int w \<and>
     (\<exists>c ok. (c, ok) \<in> set log \<and> cm_request_id c = rs_request_id r \<and> (rs_status r = STATUS_OK \<longleftrightarrow> ok))"

definition acks_ok :: "('a, 'e, 'r) tp_system \<Rightarrow> nat \<Rightarrow> bool" where
  "acks_ok s w \<longleftrightarrow> (\<forall>r. Pickled_response r \<in> set (nt_up (nd_net (sy_node s)) w) \<longrightarrow> ack_ok (sy_ran s w) w r) \<and>
     (\<forall>r stop. sy_worker s w = Replying r stop \<longrightarrow> ack_ok (sy_ran s w) w r)"

text \<open>A worker that did not get every command is behind a closed pipe at which a broadcast broke off.\<close>

definition broken_at :: "nat \<Rightarrow> nat \<Rightarrow> 'a tp_command list \<Rightarrow> ('a, 'e, 'r) tp_system \<Rightarrow> nat \<Rightarrow> bool" where
  "broken_at N k iss s h \<longleftrightarrow> k \<le> h \<and> h < N \<and> nt_closed (nd_net (sy_node s)) h \<and> strict_prefix (sy_sent s h) iss"

definition sent_upto :: "nat \<Rightarrow> nat \<Rightarrow> 'a tp_command list \<Rightarrow> ('a, 'e, 'r) tp_system \<Rightarrow> nat \<Rightarrow> bool" where
  "sent_upto N k iss s w \<longleftrightarrow> prefix (sy_sent s w) iss \<and> (sy_sent s w = iss \<or> (\<exists>h \<le> w. broken_at N k iss s h))"

definition local_upto :: "nat \<Rightarrow> nat \<Rightarrow> 'a tp_command list \<Rightarrow> ('a, 'e, 'r) tp_system \<Rightarrow> bool" where
  "local_upto N k iss s \<longleftrightarrow> map fst (sy_ran s 0) = iss \<or> (\<exists>h. broken_at N k iss s h)"

text \<open>Every rank has run every command, the workers all of them successfully and rank 0 the last one.\<close>

definition lockstep :: "nat \<Rightarrow> ('a, 'e, 'r) tp_system \<Rightarrow> bool" where
  "lockstep N s \<longleftrightarrow> (\<forall>w \<in> {1..<N}. sy_ran s w = map (\<lambda>c. (c, True)) (sy_issued s)) \<and>
     map fst (sy_ran s 0) = sy_issued s \<and> sy_issued s \<noteq> [] \<and> snd (last (sy_ran s 0))"

definition phase_ok :: "nat \<Rightarrow> ('a, 'e, 'r) tp_system \<Rightarrow> bool" where
  "phase_ok N s \<longleftrightarrow> (case sy_phase s of
     Idle \<Rightarrow> (\<forall>w \<in> {1..<N}. sent_upto N 1 (sy_issued s) s w) \<and> local_upto N 1 (sy_issued s) s \<and>
       (\<forall>r. sy_last s = Some (Returned r) \<longrightarrow> lockstep N s)
   | Sending c data ws \<Rightarrow> (\<exists>k iss. sy_issued s = iss @ [c] \<and> data = Pickled_command c \<and> 0 < k \<and> k \<le> N \<and> ws = [k..<N] \<and>
       (\<forall>w \<in> {1..<k}. sy_sent s w = sy_issued s) \<and> (\<forall>w \<in> {k..<N}. sent_upto N k iss s w) \<and> local_upto N k iss s)
   | Computing c \<Rightarrow> sy_issued s = map fst (sy_ran s 0) @ [c] \<and> (\<forall>w \<in> {1..<N}. sy_sent s w = sy_issued s)
   | Awaiting c res (pending, failures) \<Rightarrow> sy_issued s \<noteq> [] \<and> last (sy_issued s) = c \<and> (\<forall>w \<in> {1..<N}. sy_sent s w = sy_issued s) \<and>
       map fst (sy_ran s 0) = sy_issued s \<and> snd (last (sy_ran s 0)) = is_ok res \<and>
       (\<forall>w \<in> {1..<N} - set pending. \<exists>ok. (c, ok) \<in> set (sy_ran s w) \<and> (ok \<or> failures \<noteq> [])))"

definition plane_ok :: "nat \<Rightarrow> tp_plane \<Rightarrow> bool" where
  "plane_ok N p \<longleftrightarrow> 1 < N \<and> tp_rank p = 0 \<and> tp_world p = int N \<and> tp_channel p = Worker_connections (N - 1)"

definition ids_ok :: "'a tp_command list \<Rightarrow> int \<Rightarrow> bool" where
  "ids_ok issued fresh \<longleftrightarrow> sorted_wrt (<) (map cm_request_id issued) \<and> (\<forall>c \<in> set issued. cm_request_id c < fresh)"

definition tp_inv :: "nat \<Rightarrow> ('a, 'e, 'r) tp_system \<Rightarrow> bool" where
  "tp_inv N s \<longleftrightarrow> plane_ok N (nd_plane (sy_node s)) \<and> ids_ok (sy_issued s) (tp_next (nd_plane (sy_node s))) \<and>
     (\<forall>w \<in> {1..<N}. queue_ok s w \<and> life_ok s w \<and> acks_ok s w) \<and> phase_ok N s"

section \<open>Lists of commands\<close>

lemma ids_ok_append: "ids_ok issued i \<Longrightarrow> cm_request_id c = i \<Longrightarrow> ids_ok (issued @ [c]) (i + 1)"
  by (auto simp: ids_ok_def sorted_wrt_append)

lemma ids_ok_later: "ids_ok issued i \<Longrightarrow> i \<le> j \<Longrightarrow> ids_ok issued j"
  by (force simp: ids_ok_def)

lemma ids_ok_inj:
  assumes "ids_ok issued i" and "a \<in> set issued" and "b \<in> set issued" and "cm_request_id a = cm_request_id b"
  shows "a = b"
proof -
  have "distinct (map cm_request_id issued)" using assms(1) strict_sorted_iff unfolding ids_ok_def by blast
  then show ?thesis using assms(2-4) by (simp add: distinct_map inj_on_def)
qed

lemma ids_ok_distinct: "ids_ok issued i \<Longrightarrow> distinct issued"
  unfolding ids_ok_def using strict_sorted_iff distinct_map by blast

lemma prefix_to_last:
  assumes "prefix xs ys" and "distinct ys" and "ys \<noteq> []" and "last ys \<in> set xs"
  shows "xs = ys"
proof (rule ccontr)
  assume "xs \<noteq> ys"
  then obtain zs where zs: "ys = xs @ zs" "zs \<noteq> []" using assms(1) by (auto simp: prefix_def)
  then have "last ys \<in> set zs" by simp
  then show False using assms(2,4) zs(1) by auto
qed

section \<open>The steps of rank 0\<close>

lemma prepare_broadcast_wp:
  assumes "plane_ok N p"
  shows "wp (prepare_broadcast picklable name args) (\<lambda>(c, data, ws) q. q = p\<lparr>tp_next := tp_next p + 1\<rparr> \<and> cm_request_id c = tp_next p \<and>
      data = Pickled_command c \<and> ws = [1..<N]) (\<lambda>e q. q = p \<or> q = p\<lparr>tp_next := tp_next p + 1\<rparr>) p"
  using assms by (auto simp: prepare_broadcast_def next_command_def wp_simps plane_ok_def rank0_channels_def serialize_command_def
      command_new_def Let_def bind_res_def need_def split: sum.splits)

text \<open>What the loop takes from the pipes.\<close>

definition drained :: "'a tp_net \<Rightarrow> 'a tp_net \<Rightarrow> bool" where
  "drained n n' \<longleftrightarrow> nt_down n' = nt_down n \<and> nt_closed n' = nt_closed n \<and> (\<forall>w. set (nt_up n' w) \<subseteq> set (nt_up n w))"

definition answered :: "'a tp_command \<Rightarrow> 'a tp_net \<Rightarrow> awaiting \<Rightarrow> awaiting \<Rightarrow> bool" where
  "answered c n st st' \<longleftrightarrow> (snd st \<noteq> [] \<longrightarrow> snd st' \<noteq> []) \<and>
     (\<forall>w \<in> set (fst st) - set (fst st'). \<exists>r. Pickled_response r \<in> set (nt_up n w) \<and> rs_request_id r = cm_request_id c \<and>
        (rs_status r = STATUS_OK \<or> snd st' \<noteq> []))"

lemma take_ready_wp:
  "wp (take_ready c ready st) (\<lambda>st' n'. drained n n' \<and> answered c n st st') (\<lambda>e n'. drained n n') n"
proof (induction ready arbitrary: st n)
  case Nil
  then show ?case by (simp add: wp_simps drained_def answered_def)
next
  case (Cons w ready)
  show ?case
  proof (cases "nt_up n w")
    case Nil
    then show ?thesis by (cases st) (simp add: wp_simps receive_up_def take_response_def drained_def)
  next
    case up: (Cons b rest)
    let ?n = "n\<lparr>nt_up := (nt_up n)(w := rest)\<rparr>"
    have sub: "drained n ?n" using up by (auto simp: drained_def)
    have through: "drained n n'" if "drained ?n n'" for n' using that sub unfolding drained_def by fastforce
    show ?thesis
    proof (cases "take_response c w (Some b) st")
      case (Inl e)
      then show ?thesis using up sub by (simp add: wp_simps receive_up_def)
    next
      case (Inr st1)
      obtain r where r: "b = Pickled_response r" "rs_request_id r = cm_request_id c"
        "fst st1 = removeAll w (fst st)" "snd st1 = (if rs_status r = STATUS_ERROR then snd st @ [r] else snd st)"
        using Inr by (cases st) (auto simp: take_response_def res_simps deserialize_response_def split: tp_bytes.splits)
      have "wp (take_ready c ready st1) (\<lambda>st' n'. drained n n' \<and> answered c n st st') (\<lambda>e n'. drained n n') ?n"
      proof (rule wp_mono[OF Cons.IH[of st1 ?n]])
        fix st' n' assume "drained ?n n' \<and> answered c ?n st1 st'"
        then have d: "drained ?n n'" and a: "answered c ?n st1 st'" by simp_all
        have "\<exists>q. Pickled_response q \<in> set (nt_up n v) \<and> rs_request_id q = cm_request_id c \<and> (rs_status q = STATUS_OK \<or> snd st' \<noteq> [])"
          if v: "v \<in> set (fst st) - set (fst st')" for v
        proof (cases "v = w")
          case True
          have "rs_status r = STATUS_OK \<or> snd st' \<noteq> []" using a r(4) by (cases "rs_status r") (auto simp: answered_def)
          then show ?thesis using True r(1,2) up by auto
        next
          case False
          then have "v \<in> set (fst st1) - set (fst st')" using v r(3) by simp
          then obtain q where q: "Pickled_response q \<in> set (nt_up ?n v)" "rs_request_id q = cm_request_id c" "rs_status q = STATUS_OK \<or> snd st' \<noteq> []"
            using a unfolding answered_def by blast
          then show ?thesis using sub unfolding drained_def by blast
        qed
        moreover have "snd st \<noteq> [] \<longrightarrow> snd st' \<noteq> []" using a r(4) by (auto simp: answered_def split: if_splits)
        ultimately show "drained n n' \<and> answered c n st st'" using through[OF d] unfolding answered_def by blast
      qed (use through in blast)
      then show ?thesis using up Inr by (simp add: wp_simps receive_up_def)
    qed
  qed
qed

section \<open>Frames\<close>

lemma queue_okI:
  "nt_down (nd_net (sy_node s)) w = map Pickled_command cs \<Longrightarrow> map fst (sy_ran s w) @ current (sy_worker s w) @ cs = sy_sent s w \<Longrightarrow> queue_ok s w"
  unfolding queue_ok_def Let_def by (intro exI[of _ cs] exI[of _ "[]"]) simp

lemma ack_ok_grows: "ack_ok log w r \<Longrightarrow> set log \<subseteq> set log' \<Longrightarrow> ack_ok log' w r"
  unfolding ack_ok_def by blast

lemma broken_at_frame:
  "broken_at N k iss s h \<Longrightarrow> sy_sent t = sy_sent s \<Longrightarrow> (nt_closed (nd_net (sy_node s)) h \<Longrightarrow> nt_closed (nd_net (sy_node t)) h) \<Longrightarrow> broken_at N k iss t h"
  by (simp add: broken_at_def)

lemma phase_frame:
  assumes "phase_ok N s" and "sy_phase t = sy_phase s" and "sy_last t = sy_last s" and "sy_issued t = sy_issued s" and "sy_sent t = sy_sent s"
    and "sy_ran t 0 = sy_ran s 0" and "\<And>h. nt_closed (nd_net (sy_node s)) h \<Longrightarrow> nt_closed (nd_net (sy_node t)) h"
    and "\<And>w. set (sy_ran s w) \<subseteq> set (sy_ran t w)" and "lockstep N s \<Longrightarrow> lockstep N t"
  shows "phase_ok N t"
proof -
  have b: "broken_at N k iss s h \<Longrightarrow> broken_at N k iss t h" for k iss h using broken_at_frame assms(5,7) by blast
  have u: "sent_upto N k iss s w \<Longrightarrow> sent_upto N k iss t w" for k iss w using b assms(5) unfolding sent_upto_def by auto
  have l: "local_upto N k iss s \<Longrightarrow> local_upto N k iss t" for k iss using b assms(6) unfolding local_upto_def by auto
  show ?thesis
  proof (cases "sy_phase s")
    case Idle
    then show ?thesis using assms u l by (simp add: phase_ok_def)
  next
    case (Sending c data ws)
    obtain k iss where k: "sy_issued s = iss @ [c]" "data = Pickled_command c" "0 < k" "k \<le> N" "ws = [k..<N]"
      "\<forall>w \<in> {1..<k}. sy_sent s w = sy_issued s" "\<forall>w \<in> {k..<N}. sent_upto N k iss s w" "local_upto N k iss s"
      using assms(1) Sending by (auto simp: phase_ok_def)
    then have "\<forall>w \<in> {1..<k}. sy_sent t w = sy_issued t" "\<forall>w \<in> {k..<N}. sent_upto N k iss t w" "local_upto N k iss t"
      using u l assms(4,5) by auto
    then show ?thesis using k(1-5) Sending assms(2,4) unfolding phase_ok_def by auto
  next
    case (Computing c)
    then show ?thesis using assms by (simp add: phase_ok_def)
  next
    case (Awaiting c res st)
    obtain pending failures where st: "st = (pending, failures)" by (cases st)
    have a: "sy_issued s \<noteq> [] \<and> last (sy_issued s) = c \<and> (\<forall>w \<in> {1..<N}. sy_sent s w = sy_issued s) \<and>
        map fst (sy_ran s 0) = sy_issued s \<and> snd (last (sy_ran s 0)) = is_ok res"
      "\<forall>w \<in> {1..<N} - set pending. \<exists>ok. (c, ok) \<in> set (sy_ran s w) \<and> (ok \<or> failures \<noteq> [])"
      using assms(1) Awaiting st by (simp_all add: phase_ok_def)
    then have "\<forall>w \<in> {1..<N} - set pending. \<exists>ok. (c, ok) \<in> set (sy_ran t w) \<and> (ok \<or> failures \<noteq> [])"
      using assms(8) by blast
    then show ?thesis using a(1) Awaiting st assms(2,4-6) by (simp add: phase_ok_def)
  qed
qed

lemma sent_prefix:
  assumes "tp_inv N s" and "w \<in> {1..<N}"
  shows "prefix (sy_sent s w) (sy_issued s)"
proof (cases "sy_phase s")
  case Idle
  then show ?thesis using assms by (auto simp: tp_inv_def phase_ok_def sent_upto_def)
next
  case (Sending c data ws)
  obtain k iss where k: "sy_issued s = iss @ [c]" "\<forall>w \<in> {1..<k}. sy_sent s w = sy_issued s" "\<forall>w \<in> {k..<N}. sent_upto N k iss s w"
    using assms(1) Sending by (auto simp: tp_inv_def phase_ok_def)
  show ?thesis
  proof (cases "w < k")
    case False
    then have "prefix (sy_sent s w) iss" using k(3) assms(2) by (simp add: sent_upto_def)
    then show ?thesis unfolding k(1) by (rule prefix_prefix)
  qed (use k(2) assms(2) in simp)
next
  case (Computing c)
  then show ?thesis using assms by (simp add: tp_inv_def phase_ok_def)
next
  case (Awaiting c res st)
  then show ?thesis using assms by (cases st) (simp add: tp_inv_def phase_ok_def)
qed

lemma ran_prefix:
  assumes "tp_inv N s" and "w \<in> {1..<N}"
  shows "prefix (map fst (sy_ran s w) @ current (sy_worker s w)) (sy_issued s)"
proof -
  have "prefix (map fst (sy_ran s w) @ current (sy_worker s w)) (sy_sent s w)"
  proof -
    have "queue_ok s w" using assms by (simp add: tp_inv_def)
    then obtain cs gone where "map fst (sy_ran s w) @ current (sy_worker s w) @ gone @ cs = sy_sent s w" by (auto simp: queue_ok_def Let_def)
    then show ?thesis by (metis append.assoc prefixI)
  qed
  then show ?thesis using sent_prefix[OF assms] by (rule prefix_order.trans)
qed

section \<open>The steps of a worker\<close>

definition same_elsewhere :: "nat \<Rightarrow> ('a, 'e, 'r) tp_system \<Rightarrow> ('a, 'e, 'r) tp_system \<Rightarrow> bool" where
  "same_elsewhere w s t \<longleftrightarrow> nd_plane (sy_node t) = nd_plane (sy_node s) \<and> sy_phase t = sy_phase s \<and> sy_last t = sy_last s \<and>
     sy_issued t = sy_issued s \<and> sy_sent t = sy_sent s \<and>
     (\<forall>v. v \<noteq> w \<longrightarrow> nt_down (nd_net (sy_node t)) v = nt_down (nd_net (sy_node s)) v \<and> nt_up (nd_net (sy_node t)) v = nt_up (nd_net (sy_node s)) v \<and>
        nt_closed (nd_net (sy_node t)) v = nt_closed (nd_net (sy_node s)) v \<and> sy_worker t v = sy_worker s v \<and> sy_ran t v = sy_ran s v)"

lemma worker_inv:
  assumes inv: "tp_inv N s" and w: "w \<in> {1..<N}" and same: "same_elsewhere w s t"
    and closed: "nt_closed (nd_net (sy_node s)) w \<Longrightarrow> nt_closed (nd_net (sy_node t)) w" and ran: "set (sy_ran s w) \<subseteq> set (sy_ran t w)"
    and ok: "queue_ok t w" "life_ok t w" "acks_ok t w" and lock: "lockstep N s \<Longrightarrow> sy_ran t w = sy_ran s w"
  shows "tp_inv N t"
proof -
  note f = same[unfolded same_elsewhere_def]
  have others: "queue_ok t v \<and> life_ok t v \<and> acks_ok t v" if "v \<in> {1..<N}" for v
  proof (cases "v = w")
    case False
    then have "queue_ok t v = queue_ok s v" "life_ok t v = life_ok s v" "acks_ok t v = acks_ok s v"
      using f by (simp_all add: queue_ok_def life_ok_def acks_ok_def Let_def)
    then show ?thesis using inv that by (simp add: tp_inv_def)
  qed (use ok in simp)
  have logs: "set (sy_ran s v) \<subseteq> set (sy_ran t v)" for v using f ran by (cases "v = w") auto
  have cl: "nt_closed (nd_net (sy_node s)) h \<Longrightarrow> nt_closed (nd_net (sy_node t)) h" for h using f closed by (cases "h = w") auto
  have "lockstep N t" if L: "lockstep N s"
  proof -
    have "sy_ran t v = sy_ran s v" for v using f lock[OF L] by (cases "v = w") auto
    then show ?thesis using L f by (simp add: lockstep_def)
  qed
  then have "phase_ok N t" using phase_frame[of N s t] inv f w logs cl by (simp add: tp_inv_def)
  then show ?thesis using inv f others by (simp add: tp_inv_def)
qed

lemma stop_worker_fields:
  "sy_worker (stop_worker w s) = (sy_worker s)(w := Stopped)" "sy_ran (stop_worker w s) = sy_ran s"
  "nt_closed (nd_net (sy_node (stop_worker w s))) = (nt_closed (nd_net (sy_node s)))(w := True)"
  "nt_down (nd_net (sy_node (stop_worker w s))) = nt_down (nd_net (sy_node s))" "nt_up (nd_net (sy_node (stop_worker w s))) = nt_up (nd_net (sy_node s))"
  "nd_plane (sy_node (stop_worker w s)) = nd_plane (sy_node s)" "sy_phase (stop_worker w s) = sy_phase s" "sy_last (stop_worker w s) = sy_last s"
  "sy_issued (stop_worker w s) = sy_issued s" "sy_sent (stop_worker w s) = sy_sent s"
  by (simp_all add: stop_worker_def set_net_def Let_def)

lemma stop_inv:
  assumes inv: "tp_inv N s" and w: "w \<in> {1..<N}" and same: "same_elsewhere w s t" and "sy_worker t w = Stopped"
    and "nt_closed (nd_net (sy_node t)) w" and "sy_ran t w = sy_ran s w" and "set (nt_up (nd_net (sy_node t)) w) \<subseteq> set (nt_up (nd_net (sy_node s)) w)"
    and "nt_down (nd_net (sy_node t)) w = drop k (nt_down (nd_net (sy_node s)) w)"
  shows "tp_inv N t"
proof (rule worker_inv[OF inv w same])
  have o: "queue_ok s w" "life_ok s w" "acks_ok s w" using inv w by (simp_all add: tp_inv_def)
  obtain cs gone where cs: "nt_down (nd_net (sy_node s)) w = map Pickled_command cs"
    "map fst (sy_ran s w) @ current (sy_worker s w) @ gone @ cs = sy_sent s w" using o(1) by (auto simp: queue_ok_def Let_def)
  have "map fst (sy_ran t w) @ current (sy_worker t w) @ (current (sy_worker s w) @ gone @ take k cs) @ drop k cs = sy_sent t w"
    using cs(2) assms(4,6) same by (simp add: current_def same_elsewhere_def)
  moreover have "nt_down (nd_net (sy_node t)) w = map Pickled_command (drop k cs)" using assms(8) cs(1) by (simp add: drop_map)
  ultimately show "queue_ok t w" using assms(5) unfolding queue_ok_def Let_def by blast
  show "life_ok t w" using o(2) assms(4-6) by (simp add: life_ok_def)
  show "acks_ok t w" using o(3) assms(4,6,7) by (auto simp: acks_ok_def)
qed (use assms(5,6) in auto)

lemma worker_read_inv:
  assumes inv: "tp_inv N s" and w: "w \<in> {1..<N}" and r: "sy_worker s w = Reading" and t: "worker_read w s = Some t"
  shows "tp_inv N t"
proof -
  have o: "queue_ok s w" "life_ok s w" "acks_ok s w" using inv w by (simp_all add: tp_inv_def)
  have open_end: "\<not> nt_closed (nd_net (sy_node s)) w" using o(2) r by (simp add: life_ok_def)
  obtain cs where cs: "nt_down (nd_net (sy_node s)) w = map Pickled_command cs" "map fst (sy_ran s w) @ cs = sy_sent s w"
    using o(1) r open_end by (auto simp: queue_ok_def current_def Let_def)
  obtain c rest where cr: "cs = c # rest" using t cs(1) by (cases cs) (simp_all add: worker_read_def Let_def)
  let ?u = "set_net ((nd_net (sy_node s))\<lparr>nt_down := (nt_down (nd_net (sy_node s)))(w := map Pickled_command rest)\<rparr>) s"
  show ?thesis
  proof (cases "command_validate c")
    case (Inl e)
    then have "t = stop_worker w ?u" using t cs(1) cr by (simp add: worker_read_def Let_def deserialize_command_def)
    then show ?thesis using cs(1) cr by (intro stop_inv[OF inv w, of t 1]) (simp_all add: same_elsewhere_def stop_worker_fields set_net_def)
  next
    case (Inr u)
    then have t: "t = ?u\<lparr>sy_worker := (sy_worker s)(w := Running c)\<rparr>" using t cs(1) cr by (simp add: worker_read_def Let_def deserialize_command_def)
    have "queue_ok t w" using cs(2) cr t by (intro queue_okI[of _ _ rest]) (simp_all add: set_net_def current_def)
    moreover have "life_ok t w" "acks_ok t w" using o(2,3) r open_end t by (simp_all add: life_ok_def acks_ok_def set_net_def)
    ultimately show ?thesis using t by (intro worker_inv[OF inv w]) (simp_all add: same_elsewhere_def set_net_def)
  qed
qed

lemma response_made:
  "response_ok c i = Inr r \<Longrightarrow> r = \<lparr>rs_request_id = cm_request_id c, rs_worker_rank = i, rs_status = STATUS_OK, rs_error_type = None, rs_error_message = None, rs_traceback = None\<rparr>"
  "response_error c i k m b = Inr r \<Longrightarrow> r = \<lparr>rs_request_id = cm_request_id c, rs_worker_rank = i, rs_status = STATUS_ERROR, rs_error_type = Some k, rs_error_message = Some m, rs_traceback = Some b\<rparr>"
  by (simp_all add: response_ok_def response_error_def response_new_def bind_res_ok)

lemma butlast_last_all: "\<forall>x \<in> set (butlast xs). P x \<Longrightarrow> (xs \<noteq> [] \<Longrightarrow> P (last xs)) \<Longrightarrow> \<forall>x \<in> set xs. P x"
  by (cases xs rule: rev_cases) auto

lemma worker_run_inv:
  assumes inv: "tp_inv N s" and w: "w \<in> {1..<N}" and r: "sy_worker s w = Running c"
  shows "tp_inv N (worker_run w c failure s)"
proof -
  have o: "queue_ok s w" "life_ok s w" "acks_ok s w" using inv w by (simp_all add: tp_inv_def)
  have open_end: "\<not> nt_closed (nd_net (sy_node s)) w" using o(2) r by (simp add: life_ok_def)
  obtain cs where cs: "nt_down (nd_net (sy_node s)) w = map Pickled_command cs" "map fst (sy_ran s w) @ c # cs = sy_sent s w"
    using o(1) r open_end by (auto simp: queue_ok_def current_def Let_def)
  have good: "\<forall>x \<in> set (sy_ran s w). snd x" 
  proof (rule butlast_last_all)
    show "\<forall>x \<in> set (butlast (sy_ran s w)). snd x" "sy_ran s w \<noteq> [] \<Longrightarrow> snd (last (sy_ran s w))"
      using o(2) r by (simp_all add: life_ok_def)
  qed
  let ?log = "sy_ran s w @ [(c, failure = None)]" and ?t = "worker_run w c failure s"
  let ?u = "s\<lparr>sy_ran := (sy_ran s)(w := ?log)\<rparr>"
  have "\<exists>ph. ?t = stop_worker w ?u \<and> ph = Stopped \<or> ?t = ?u\<lparr>sy_worker := (sy_worker s)(w := ph)\<rparr> \<and>
      (\<exists>q. ph = Replying q (failure \<noteq> None \<or> cm_method c = EXIT) \<and> ack_ok ?log w q)"
  proof (cases "case failure of None \<Rightarrow> response_ok c (int w) | Some (kind, message, trace) \<Rightarrow> response_error c (int w) kind message trace")
    case (Inl e)
    then show ?thesis by (intro exI[of _ Stopped]) (simp add: worker_run_def Let_def)
  next
    case (Inr q)
    have "ack_ok ?log w q"
    proof (cases failure)
      case None
      then show ?thesis using response_made(1)[of c "int w" q] Inr by (auto simp: ack_ok_def)
    next
      case (Some f)
      then have "rs_worker_rank q = int w \<and> cm_request_id c = rs_request_id q \<and> rs_status q = STATUS_ERROR"
        using Inr by (cases f) (auto dest: response_made(2))
      then show ?thesis using Some by (auto simp: ack_ok_def)
    qed
    then show ?thesis using Inr by (simp add: worker_run_def Let_def) blast
  qed
  then obtain ph where ph: "?t = stop_worker w ?u \<and> ph = Stopped \<or> ?t = ?u\<lparr>sy_worker := (sy_worker s)(w := ph)\<rparr> \<and>
      (\<exists>q. ph = Replying q (failure \<noteq> None \<or> cm_method c = EXIT) \<and> ack_ok ?log w q)" by blast
  have lock: "\<not> lockstep N s"
  proof
    assume L: "lockstep N s"
    have "prefix (map fst (sy_ran s w) @ [c]) (sy_issued s)" using ran_prefix[OF inv w] r by (simp add: current_def)
    then show False using L w by (auto simp: lockstep_def comp_def dest: prefix_length_le)
  qed
  have same: "same_elsewhere w s ?t" using ph by (auto simp: same_elsewhere_def stop_worker_fields)
  have t: "sy_worker ?t w = ph" "sy_ran ?t w = ?log" "sy_sent ?t = sy_sent s" "nt_down (nd_net (sy_node ?t)) w = nt_down (nd_net (sy_node s)) w"
    "nt_up (nd_net (sy_node ?t)) w = nt_up (nd_net (sy_node s)) w" "nt_closed (nd_net (sy_node ?t)) w \<longleftrightarrow> ph = Stopped"
    using ph open_end by (auto simp: stop_worker_fields)
  have "current ph = []" using ph by (auto simp: current_def)
  then have "queue_ok ?t w" using cs by (intro queue_okI[of _ _ cs]) (simp_all add: t)
  moreover have "life_ok ?t w" using good ph unfolding life_ok_def t by auto
  moreover have "acks_ok ?t w" using o(3) ph unfolding acks_ok_def t by (auto intro: ack_ok_grows)
  ultimately show ?thesis using open_end lock t(2) by (intro worker_inv[OF inv w same]) auto
qed

lemma worker_reply_inv:
  assumes inv: "tp_inv N s" and w: "w \<in> {1..<N}" and r: "sy_worker s w = Replying q stop"
  shows "tp_inv N (worker_reply w q stop s)"
proof -
  have o: "queue_ok s w" "life_ok s w" "acks_ok s w" using inv w by (simp_all add: tp_inv_def)
  have open_end: "\<not> nt_closed (nd_net (sy_node s)) w" using o(2) r by (simp add: life_ok_def)
  let ?t = "worker_reply w q stop s" and ?ph = "if stop then Stopped else Reading"
  have same: "same_elsewhere w s ?t" by (auto simp: worker_reply_def serialize_response_def same_elsewhere_def stop_worker_fields set_net_def Let_def)
  have t: "sy_worker ?t w = ?ph" "sy_ran ?t w = sy_ran s w" "sy_sent ?t = sy_sent s" "nt_down (nd_net (sy_node ?t)) w = nt_down (nd_net (sy_node s)) w"
    "nt_up (nd_net (sy_node ?t)) w = nt_up (nd_net (sy_node s)) w @ [Pickled_response q]" "nt_closed (nd_net (sy_node ?t)) w = stop"
    using open_end by (auto simp: worker_reply_def serialize_response_def stop_worker_fields set_net_def Let_def)
  obtain cs where "nt_down (nd_net (sy_node s)) w = map Pickled_command cs" "map fst (sy_ran s w) @ cs = sy_sent s w"
    using o(1) r open_end by (auto simp: queue_ok_def current_def Let_def)
  then have "queue_ok ?t w" by (intro queue_okI[of _ _ cs]) (simp_all add: t current_def)
  moreover have "life_ok ?t w" using o(2) r unfolding life_ok_def t by auto
  moreover have "acks_ok ?t w" using o(3) r unfolding acks_ok_def t by auto
  ultimately show ?thesis using open_end t(2) by (intro worker_inv[OF inv w same]) auto
qed

lemma worker_crash_inv:
  assumes inv: "tp_inv N s" and w: "w \<in> {1..<N}"
  shows "tp_inv N (worker_crash w k s)"
  by (rule stop_inv[OF inv w, of _ 0]) (auto simp: worker_crash_def same_elsewhere_def stop_worker_fields set_net_def Let_def dest: in_set_takeD)

section \<open>The steps of rank 0\<close>

lemma set_net_simps [simp]:
  "nd_net (sy_node (set_net n s)) = n" "nd_plane (sy_node (set_net n s)) = nd_plane (sy_node s)" "sy_phase (set_net n s) = sy_phase s"
  "sy_worker (set_net n s) = sy_worker s" "sy_ran (set_net n s) = sy_ran s" "sy_sent (set_net n s) = sy_sent s"
  "sy_issued (set_net n s) = sy_issued s" "sy_last (set_net n s) = sy_last s"
  by (simp_all add: set_net_def)

lemma ended_simps [simp]:
  "sy_node (ended out s) = sy_node s" "sy_phase (ended out s) = Idle" "sy_worker (ended out s) = sy_worker s" "sy_ran (ended out s) = sy_ran s"
  "sy_sent (ended out s) = sy_sent s" "sy_issued (ended out s) = sy_issued s" "sy_last (ended out s) = Some out"
  by (simp_all add: ended_def)

text \<open>A step of rank 0 that leaves the workers, their logs and pipes alone, up to responses it takes.\<close>

definition workers_kept :: "('a, 'e, 'r) tp_system \<Rightarrow> ('a, 'e, 'r) tp_system \<Rightarrow> bool" where
  "workers_kept s t \<longleftrightarrow> drained (nd_net (sy_node s)) (nd_net (sy_node t)) \<and> sy_worker t = sy_worker s \<and> sy_sent t = sy_sent s \<and> (\<forall>w > 0. sy_ran t w = sy_ran s w)"

lemma workers_kept_ok:
  assumes "tp_inv N s" and "workers_kept s t" and "w \<in> {1..<N}"
  shows "queue_ok t w" "life_ok t w" "acks_ok t w"
proof -
  have o: "queue_ok s w" "life_ok s w" "acks_ok s w" using assms(1,3) by (simp_all add: tp_inv_def)
  have k: "nt_down (nd_net (sy_node t)) = nt_down (nd_net (sy_node s))" "nt_closed (nd_net (sy_node t)) = nt_closed (nd_net (sy_node s))"
    "set (nt_up (nd_net (sy_node t)) w) \<subseteq> set (nt_up (nd_net (sy_node s)) w)" "sy_worker t = sy_worker s" "sy_sent t = sy_sent s" "sy_ran t w = sy_ran s w"
    using assms(2,3) by (simp_all add: workers_kept_def drained_def)
  show "queue_ok t w" "life_ok t w" using o k by (simp_all add: queue_ok_def life_ok_def)
  show "acks_ok t w" using o(3) k unfolding acks_ok_def by auto
qed

lemma rank0_inv:
  assumes "tp_inv N s" and "workers_kept s t" and "nd_plane (sy_node t) = nd_plane (sy_node s)" and "sy_issued t = sy_issued s" and "phase_ok N t"
  shows "tp_inv N t"
  using workers_kept_ok[OF assms(1,2)] assms by (simp add: tp_inv_def)

lemma sent_all_upto: "sy_sent s w = iss \<Longrightarrow> sent_upto N k iss s w"
  by (simp add: sent_upto_def)

lemma idle_ok:
  assumes "\<forall>w \<in> {1..<N}. sent_upto N 1 (sy_issued t) t w" and "local_upto N 1 (sy_issued t) t" and "sy_phase t = Idle"
    and "\<And>r. sy_last t = Some (Returned r) \<Longrightarrow> lockstep N t"
  shows "phase_ok N t"
  using assms by (simp add: phase_ok_def)

lemma sending_ok:
  assumes "sy_phase t = Sending c (Pickled_command c) [k..<N]" and "sy_issued t = iss @ [c]" and "0 < k" and "k \<le> N"
    and "\<forall>w \<in> {1..<k}. sy_sent t w = sy_issued t" and "\<forall>w \<in> {k..<N}. sent_upto N k iss t w" and "local_upto N k iss t"
  shows "phase_ok N t"
  using assms unfolding phase_ok_def by auto

lemma call_start_inv:
  assumes inv: "tp_inv N s" and idle: "sy_phase s = Idle"
  shows "tp_inv N (call_start known picklable name args s)"
proof -
  have I: "\<forall>w \<in> {1..<N}. sent_upto N 1 (sy_issued s) s w" "local_upto N 1 (sy_issued s) s" "plane_ok N (nd_plane (sy_node s))"
    "ids_ok (sy_issued s) (tp_next (nd_plane (sy_node s)))" "\<forall>w \<in> {1..<N}. queue_ok s w \<and> life_ok s w \<and> acks_ok s w"
    using inv idle by (auto simp: tp_inv_def phase_ok_def)
  show ?thesis
  proof (cases "known name")
    case False
    have "workers_kept s (ended No_method s)" by (simp add: workers_kept_def drained_def)
    moreover have "phase_ok N (ended No_method s)"
      by (rule idle_ok) (use I(1,2) in \<open>simp_all add: sent_upto_def local_upto_def broken_at_def\<close>)
    ultimately show ?thesis using False rank0_inv[OF inv] by (simp add: call_start_def)
  next
    case True
    let ?p = "nd_plane (sy_node s)"
    obtain res q where b: "prepare_broadcast picklable name args ?p = (res, q)" by (cases "prepare_broadcast picklable name args ?p")
    note w = prepare_broadcast_wp[OF I(3), of picklable name args, unfolded wp_def b]
    have ids: "ids_ok (sy_issued s) (tp_next q)" if "q = ?p \<or> q = ?p\<lparr>tp_next := tp_next ?p + 1\<rparr>" using that ids_ok_later[OF I(4)] by auto
    have plane: "plane_ok N q" if "q = ?p \<or> q = ?p\<lparr>tp_next := tp_next ?p + 1\<rparr>" using that I(3) by (auto simp: plane_ok_def)
    show ?thesis
    proof (cases res)
      case (Inl e)
      let ?t = "ended (Raised e) (s\<lparr>sy_node := (sy_node s)\<lparr>nd_plane := q\<rparr>\<rparr>)"
      have t: "call_start known picklable name args s = ?t" using True b Inl by (simp add: call_start_def)
      have q: "q = ?p \<or> q = ?p\<lparr>tp_next := tp_next ?p + 1\<rparr>" using w Inl by simp
      have "workers_kept s ?t" by (simp add: workers_kept_def drained_def)
      moreover have "phase_ok N ?t" by (rule idle_ok) (use I(1,2) in \<open>simp_all add: sent_upto_def local_upto_def broken_at_def\<close>)
      ultimately show ?thesis unfolding t using workers_kept_ok[OF inv, of ?t] ids[OF q] plane[OF q] by (simp add: tp_inv_def)
    next
      case (Inr m)
      obtain c data ws where m: "m = (c, data, ws)" by (cases m)
      let ?t = "s\<lparr>sy_node := (sy_node s)\<lparr>nd_plane := q\<rparr>, sy_phase := Sending c data ws, sy_issued := sy_issued s @ [c], sy_last := None\<rparr>"
      have t: "call_start known picklable name args s = ?t" using True b Inr m by (simp add: call_start_def)
      have q: "q = ?p\<lparr>tp_next := tp_next ?p + 1\<rparr>" "cm_request_id c = tp_next ?p" "data = Pickled_command c" "ws = [1..<N]" using w Inr m by simp_all
      have "workers_kept s ?t" by (simp add: workers_kept_def drained_def)
      moreover have "ids_ok (sy_issued s @ [c]) (tp_next q)" using ids_ok_append[OF I(4) q(2)] q(1) by simp
      moreover have "phase_ok N ?t"
      proof -
        have "1 \<le> N" using I(3) by (simp add: plane_ok_def)
        moreover have "\<forall>w \<in> {1..<N}. sent_upto N 1 (sy_issued s) ?t w" "local_upto N 1 (sy_issued s) ?t"
          using I(1,2) by (simp_all add: sent_upto_def local_upto_def broken_at_def)
        ultimately show ?thesis using q(3,4) by (intro sending_ok[of ?t c 1 N "sy_issued s"]) simp_all
      qed
      ultimately show ?thesis unfolding t using workers_kept_ok[OF inv, of ?t] plane q(1) by (simp add: tp_inv_def)
    qed
  qed
qed

lemma send_next_inv:
  assumes inv: "tp_inv N s" and ph: "sy_phase s = Sending c data ws"
  shows "tp_inv N (send_next c data ws s)"
proof -
  let ?n = "nd_net (sy_node s)"
  obtain k iss where k: "sy_issued s = iss @ [c]" "data = Pickled_command c" "0 < k" "k \<le> N" "ws = [k..<N]"
    "\<forall>w \<in> {1..<k}. sy_sent s w = sy_issued s" "\<forall>w \<in> {k..<N}. sent_upto N k iss s w" "local_upto N k iss s"
    using inv ph by (auto simp: tp_inv_def phase_ok_def)
  have W: "\<forall>w \<in> {1..<N}. queue_ok s w \<and> life_ok s w \<and> acks_ok s w" "plane_ok N (nd_plane (sy_node s))"
    "ids_ok (sy_issued s) (tp_next (nd_plane (sy_node s)))" using inv by (simp_all add: tp_inv_def)
  show ?thesis
  proof (cases "k = N")
    case True
    let ?t = "s\<lparr>sy_phase := Computing c\<rparr>"
    have "map fst (sy_ran s 0) = iss" using k(8) True by (auto simp: local_upto_def broken_at_def)
    then have "phase_ok N ?t" using k(1,6) True by (simp add: phase_ok_def)
    moreover have "workers_kept s ?t" by (simp add: workers_kept_def drained_def)
    ultimately show ?thesis using True k(5) rank0_inv[OF inv, of ?t] by (simp add: send_next_def)
  next
    case False
    then have kN: "k < N" "ws = k # [Suc k..<N]" using k(4,5) upt_conv_Cons by auto
    show ?thesis
    proof (cases "nt_closed ?n k")
      case True
      let ?t = "ended (Raised RuntimeError) (set_net ?n s)"
      have t: "send_next c data ws s = ?t" using True kN(2) by (simp add: send_next_def send_down_def bnd_def gets_def thn_def chk_def throw_def)
      have "prefix (sy_sent s k) iss" using k(7) kN(1) by (simp add: sent_upto_def)
      then have here: "broken_at N 1 (sy_issued s) ?t k" using True kN(1) k(1,3) by (auto simp: broken_at_def strict_prefix_def prefix_def)
      have "sent_upto N 1 (sy_issued s) ?t w" if w: "w \<in> {1..<N}" for w
      proof (cases "w < k")
        case True
        then show ?thesis using k(6) w by (simp add: sent_upto_def)
      next
        case False
        then have "prefix (sy_sent s w) iss" using k(7) w by (simp add: sent_upto_def)
        then show ?thesis using here False k(1) unfolding sent_upto_def by (auto intro: prefix_prefix)
      qed
      moreover have "local_upto N 1 (sy_issued s) ?t" using here unfolding local_upto_def by blast
      ultimately have "phase_ok N ?t" by (intro idle_ok) simp_all
      then show ?thesis unfolding t by (intro rank0_inv[OF inv]) (simp_all add: workers_kept_def drained_def)
    next
      case False
      let ?t = "set_net (?n\<lparr>nt_down := (nt_down ?n)(k := nt_down ?n k @ [data])\<rparr>) s\<lparr>sy_phase := Sending c data [Suc k..<N], sy_sent := (sy_sent s)(k := sy_sent s k @ [c])\<rparr>"
      have t: "send_next c data ws s = ?t" using False kN(2)
        by (simp add: send_next_def send_down_def bnd_def gets_def thn_def chk_def ret_def upd_def)
      have not_here: "h \<noteq> k" if "broken_at N k iss s h" for h using that False by (auto simp: broken_at_def)
      have moved: "broken_at N (Suc k) iss ?t h" if "broken_at N k iss s h" for h
        using that not_here[OF that] by (auto simp: broken_at_def)
      have "sent_upto N k iss s k" using k(7) kN(1) by simp
      then have "sy_sent s k = iss" using not_here unfolding sent_upto_def by (auto simp: broken_at_def)
      then have all: "\<forall>w \<in> {1..<Suc k}. sy_sent ?t w = sy_issued ?t" using k(1,6) by auto
      have "\<forall>w \<in> {Suc k..<N}. sent_upto N (Suc k) iss ?t w"
      proof
        fix w assume w: "w \<in> {Suc k..<N}"
        then have "sent_upto N k iss s w" using k(7) by simp
        then show "sent_upto N (Suc k) iss ?t w" using moved w unfolding sent_upto_def by auto
      qed
      moreover have "local_upto N (Suc k) iss ?t" using k(8) moved unfolding local_upto_def by auto
      ultimately have phase: "phase_ok N ?t" using all k(1,2) kN(1) by (intro sending_ok[of ?t c "Suc k" N iss]) simp_all
      have "queue_ok ?t w \<and> life_ok ?t w \<and> acks_ok ?t w" if w: "w \<in> {1..<N}" for w
      proof -
        have o: "queue_ok s w" "life_ok s w" "acks_ok s w" using W(1) w by simp_all
        have "queue_ok ?t w"
        proof (cases "w = k")
          case True
          obtain cs where "nt_down ?n k = map Pickled_command cs" "map fst (sy_ran s k) @ current (sy_worker s k) @ cs = sy_sent s k"
            using o(1) False True by (auto simp: queue_ok_def Let_def)
          then show ?thesis using True k(2) by (intro queue_okI[of _ _ "cs @ [c]"]) simp_all
        qed (use o(1) in \<open>simp add: queue_ok_def Let_def\<close>)
        then show ?thesis using o(2,3) by (simp add: life_ok_def acks_ok_def)
      qed
      then show ?thesis unfolding t using W(2,3) phase by (simp add: tp_inv_def)
    qed
  qed
qed

lemma compute_local_inv:
  assumes inv: "tp_inv N s" and ph: "sy_phase s = Computing c"
  shows "tp_inv N (compute_local c res s)"
proof -
  have c: "sy_issued s = map fst (sy_ran s 0) @ [c]" "\<forall>w \<in> {1..<N}. sy_sent s w = sy_issued s" "plane_ok N (nd_plane (sy_node s))"
    using inv ph by (simp_all add: tp_inv_def phase_ok_def)
  let ?t = "s\<lparr>sy_ran := (sy_ran s)(0 := sy_ran s 0 @ [(c, is_ok res)]), sy_phase := Awaiting c res ([1..<N], [])\<rparr>"
  have t: "compute_local c res s = ?t" using c(3) by (simp add: compute_local_def Let_def rank0_channels_def plane_ok_def)
  have "phase_ok N ?t" using c(1,2) by (simp add: phase_ok_def)
  then show ?thesis unfolding t by (intro rank0_inv[OF inv]) (simp_all add: workers_kept_def drained_def)
qed

lemma expire_inv:
  assumes inv: "tp_inv N s" and ph: "sy_phase s = Awaiting c res st" and out: "\<And>r. out \<noteq> Returned r"
  shows "tp_inv N (ended out s)"
proof (rule rank0_inv[OF inv])
  have a: "\<forall>w \<in> {1..<N}. sy_sent s w = sy_issued s" "map fst (sy_ran s 0) = sy_issued s"
    using inv ph by (cases st; simp add: tp_inv_def phase_ok_def)+
  show "phase_ok N (ended out s)"
    by (rule idle_ok) (use a out in \<open>simp_all add: sent_upto_def local_upto_def\<close>)
qed (simp_all add: workers_kept_def drained_def)

text \<open>A worker that has run the last command has run all of them, and none failed.\<close>

lemma caught_up:
  assumes inv: "tp_inv N s" and w: "w \<in> {1..<N}" and "sy_issued s \<noteq> []" and "(last (sy_issued s), True) \<in> set (sy_ran s w)"
  shows "sy_ran s w = map (\<lambda>c. (c, True)) (sy_issued s)"
proof -
  have d: "distinct (sy_issued s)" using inv by (auto simp: tp_inv_def intro: ids_ok_distinct)
  have "last (sy_issued s) \<in> set (map fst (sy_ran s w))" using assms(4) by force
  moreover have "prefix (map fst (sy_ran s w)) (sy_issued s)" using ran_prefix[OF inv w] by (rule append_prefixD)
  ultimately have all: "map fst (sy_ran s w) = sy_issued s" using prefix_to_last[OF _ d assms(3)] by blast
  have ne: "sy_ran s w \<noteq> []" using assms(4) by auto
  have last: "fst (last (sy_ran s w)) = last (sy_issued s)" using all ne by (metis last_map)
  have "distinct (map fst (sy_ran s w))" using d all by simp
  then have "last (sy_ran s w) = (last (sy_issued s), True)"
    using assms(4) last last_in_set[OF ne] by (metis eq_key_imp_eq_value prod.collapse)
  moreover have "\<forall>x \<in> set (butlast (sy_ran s w)). snd x" using inv w by (simp add: tp_inv_def life_ok_def)
  ultimately have "\<forall>x \<in> set (sy_ran s w). snd x" using butlast_last_all[of "sy_ran s w" snd] by simp
  then have "sy_ran s w = map (\<lambda>x. (fst x, True)) (sy_ran s w)" by (intro map_idI[symmetric]) auto
  also have "\<dots> = map (\<lambda>c. (c, True)) (map fst (sy_ran s w))" by simp
  finally show ?thesis unfolding all .
qed

lemma wake_up_inv:
  assumes inv: "tp_inv N s" and ph: "sy_phase s = Awaiting c res st"
  shows "tp_inv N (wake_up c res st ready s)"
proof -
  let ?n = "nd_net (sy_node s)"
  obtain pending failures where st: "st = (pending, failures)" by (cases st)
  have a: "sy_issued s \<noteq> []" "last (sy_issued s) = c" "\<forall>w \<in> {1..<N}. sy_sent s w = sy_issued s" "map fst (sy_ran s 0) = sy_issued s"
    "snd (last (sy_ran s 0)) = is_ok res" "\<forall>w \<in> {1..<N} - set pending. \<exists>ok. (c, ok) \<in> set (sy_ran s w) \<and> (ok \<or> failures \<noteq> [])"
    using inv ph st by (simp_all add: tp_inv_def phase_ok_def)
  have ids: "ids_ok (sy_issued s) (tp_next (nd_plane (sy_node s)))" using inv by (simp add: tp_inv_def)
  obtain m n' where b: "take_ready c ready st ?n = (m, n')" by (cases "take_ready c ready st ?n")
  note w = take_ready_wp[of c ready st ?n, unfolded wp_def b]
  have d: "drained ?n n'" using w by (cases m) simp_all
  have kept: "workers_kept s (set_net n' s)" using d by (simp add: workers_kept_def)
  show ?thesis
  proof (cases m)
    case (Inl e)
    let ?t = "ended (Raised e) (set_net n' s)"
    have "phase_ok N ?t" by (rule idle_ok) (use a(3,4) in \<open>simp_all add: sent_upto_def local_upto_def\<close>)
    then show ?thesis using Inl b kept by (simp add: wake_up_def workers_kept_def rank0_inv[OF inv])
  next
    case (Inr st')
    obtain pending' failures' where st': "st' = (pending', failures')" by (cases st')
    have an: "answered c ?n st st'" using w Inr by simp
    have rest: "\<exists>ok. (c, ok) \<in> set (sy_ran s v) \<and> (ok \<or> failures' \<noteq> [])" if v: "v \<in> {1..<N} - set pending'" for v
    proof (cases "v \<in> set pending")
      case False
      then show ?thesis using a(6) v an st st' unfolding answered_def by auto
    next
      case True
      then obtain q where q: "Pickled_response q \<in> set (nt_up ?n v)" "rs_request_id q = cm_request_id c" "rs_status q = STATUS_OK \<or> failures' \<noteq> []"
        using an v st st' unfolding answered_def by auto
      have "acks_ok s v" using inv v by (simp add: tp_inv_def)
      then obtain c' ok where c': "(c', ok) \<in> set (sy_ran s v)" "cm_request_id c' = rs_request_id q" "rs_status q = STATUS_OK \<longleftrightarrow> ok"
        using q(1) unfolding acks_ok_def ack_ok_def by blast
      have "prefix (map fst (sy_ran s v)) (sy_issued s)" using ran_prefix[OF inv] v append_prefixD by blast
      then have "c' \<in> set (sy_issued s)" using c'(1) by (force dest: set_mono_prefix)
      then have "c' = c" using ids_ok_inj[OF ids] c'(2) q(2) a(1,2) last_in_set by metis
      then show ?thesis using c' q(3) by blast
    qed
    show ?thesis
    proof (cases "pending' = []")
      case False
      let ?t = "set_net n' s\<lparr>sy_phase := Awaiting c res st'\<rparr>"
      have "phase_ok N ?t" using a rest st' by (simp add: phase_ok_def)
      moreover have "wake_up c res st ready s = ?t" using b Inr st' False by (simp add: wake_up_def conclude_def)
      ultimately show ?thesis using kept by (simp add: rank0_inv[OF inv] workers_kept_def)
    next
      case True
      let ?out = "case awaited failures' of Inl e \<Rightarrow> Raised e | Inr _ \<Rightarrow> (case res of Inl e \<Rightarrow> Raised_local e | Inr r \<Rightarrow> Returned r)"
      let ?t = "ended ?out (set_net n' s)"
      have t: "wake_up c res st ready s = ?t" using b Inr st' True by (simp add: wake_up_def conclude_def)
      have "lockstep N ?t" if r: "sy_last ?t = Some (Returned r)" for r
      proof -
        have ok: "failures' = []" "is_ok res" using r by (auto simp: awaited_def need_def is_ok_def split: if_splits sum.splits)
        have "sy_ran s v = map (\<lambda>c. (c, True)) (sy_issued s)" if v: "v \<in> {1..<N}" for v
        proof -
          have "(c, True) \<in> set (sy_ran s v)" using rest[of v] v True ok(1) by auto
          then show ?thesis using caught_up[OF inv v a(1)] a(2) by simp
        qed
        then show ?thesis using a(1,4,5) ok(2) by (simp add: lockstep_def)
      qed
      then have "phase_ok N ?t" by (intro idle_ok) (use a(3,4) in \<open>simp_all add: sent_upto_def local_upto_def\<close>)
      then show ?thesis unfolding t using kept by (simp add: rank0_inv[OF inv] workers_kept_def)
    qed
  qed
qed

section \<open>Every reachable state\<close>

lemma start_inv: "tp_init N s \<Longrightarrow> tp_inv N s"
  by (auto simp: tp_init_def tp_inv_def plane_new_def res_simps Let_def tp_start_def plane_ok_def ids_ok_def queue_ok_def current_def life_ok_def
      acks_ok_def phase_ok_def sent_upto_def local_upto_def)

lemma worker_range: "tp_inv N s \<Longrightarrow> worker_of s w \<longleftrightarrow> w \<in> {1..<N}"
  by (auto simp: tp_inv_def plane_ok_def worker_of_def)

lemma step_inv:
  assumes inv: "tp_inv N s" and step: "tp_step known picklable s l t"
  shows "tp_inv N t"
proof -
  note w = worker_range[OF inv] and e = step[unfolded tp_step_def]
  show ?thesis
  proof (cases l)
    case (Call name args)
    then show ?thesis using e call_start_inv[OF inv] by (auto split: rank0_phase.splits)
  next
    case Send
    then show ?thesis using e send_next_inv[OF inv] by (auto split: rank0_phase.splits)
  next
    case (Compute res)
    then show ?thesis using e compute_local_inv[OF inv] by (auto split: rank0_phase.splits)
  next
    case (Wake ready)
    then show ?thesis using e wake_up_inv[OF inv] by (auto split: rank0_phase.splits if_splits)
  next
    case Expire
    then show ?thesis using e expire_inv[OF inv] by (auto split: rank0_phase.splits)
  next
    case (Read v)
    then show ?thesis using e worker_read_inv[OF inv] w by (auto split: if_splits)
  next
    case (Run v failure)
    then show ?thesis using e worker_run_inv[OF inv] w by (auto split: if_splits worker_phase.splits)
  next
    case (Reply v)
    then show ?thesis using e worker_reply_inv[OF inv] w by (auto split: if_splits worker_phase.splits)
  next
    case (Crash v k)
    then show ?thesis using e worker_crash_inv[OF inv] w by (auto split: if_splits)
  qed
qed

interpretation tp: invariant_system "tp_init N" "tp_step known picklable" "tp_inv N" for N known picklable
  by unfold_locales (rule start_inv, assumption, rule step_inv)

section \<open>An example with two workers\<close>

fun play :: "('a, 'e, 'r) tp_event list \<Rightarrow> ('a, 'e, 'r) tp_system \<Rightarrow> ('a, 'e, 'r) tp_system option" where
  "play [] s = Some s"
| "play (l # ls) s = Option.bind (tp_exec (\<lambda>_. True) (\<lambda>_. True) l s) (play ls)"

lemma play_run: "play ls s = Some t \<Longrightarrow> run (tp_step (\<lambda>_. True) (\<lambda>_. True)) s ls t"
  by (induction ls arbitrary: s) (auto simp: run_Cons_iff tp_step_def bind_eq_Some_conv)

definition example_plane :: tp_plane where
  "example_plane = \<lparr>tp_rank = 0, tp_world = 3, tp_channel = Worker_connections 2, tp_timeout = 120, tp_next = 0\<rparr>"

definition example_call :: "(int, string, int) tp_event list" where
  "example_call = [Call ''run_plan'' [5], Send, Send, Send, Compute (Inr 7), Read 1, Read 2]"

lemma example_plane_ok: "tp_init 3 (tp_start example_plane)"
  by (auto simp: tp_init_def plane_new_def res_simps validate_topology_def example_plane_def Let_def intro!: exI[of _ 120])

lemma example_reach: "play ls (tp_start example_plane) = Some t \<Longrightarrow> reach (tp_init 3) (tp_step (\<lambda>_. True) (\<lambda>_. True)) t"
  using tp.run_reach[OF play_run, of ls "tp_start example_plane" t 3] reach_init[of "tp_init 3", OF example_plane_ok] by blast

section \<open>Lockstep\<close>

text \<open>C4: whatever the interleaving, and whatever failed or timed out before: when a call has returned, every worker
  has run exactly the commands that rank 0 has issued and run, in the same order, each of them successfully.\<close>

theorem ranks_in_lockstep:
  assumes "reach (tp_init N) (tp_step known picklable) s" and "sy_phase s = Idle" and "sy_last s = Some (Returned r)" and "0 < w" and "w < N"
  shows "sy_ran s w = map (\<lambda>c. (c, True)) (sy_issued s) \<and> map fst (sy_ran s 0) = sy_issued s \<and> sy_issued s \<noteq> [] \<and> snd (last (sy_ran s 0))"
  using tp.reach_inv[OF assms(1)] assms(2-5) by (simp add: tp_inv_def phase_ok_def lockstep_def)

theorem ranks_in_lockstep_witness:
  "\<exists>t. play (example_call @ [Run 2 None, Reply 2, Wake [2], Run 1 None, Reply 1, Wake [1]]) (tp_start example_plane) = Some t \<and>
     length (sy_issued t) = 1 \<and> sy_ran t 1 = map (\<lambda>c. (c, True)) (sy_issued t) \<and> map fst (sy_ran t 0) = sy_issued t"
proof -
  let ?r = "play (example_call @ [Run 2 None, Reply 2, Wake [2], Run 1 None, Reply 1, Wake [1]]) (tp_start example_plane)"
  have "case ?r of None \<Rightarrow> False | Some t \<Rightarrow> sy_phase t = Idle \<and> sy_last t = Some (Returned 7) \<and> length (sy_issued t) = 1" by code_simp
  then obtain t where t: "?r = Some t" "sy_phase t = Idle" "sy_last t = Some (Returned 7)" "length (sy_issued t) = 1" by (auto split: option.splits)
  then show ?thesis using ranks_in_lockstep[OF example_reach[OF t(1)] t(2,3), of 1] by auto
qed

text \<open>C10: at every moment a worker has run a prefix of the issued commands, whose request ids increase; only the last
  one can have failed, after which the worker runs nothing more.\<close>

theorem workers_follow_order:
  assumes "reach (tp_init N) (tp_step known picklable) s" and "0 < w" and "w < N"
  shows "prefix (map fst (sy_ran s w)) (sy_issued s) \<and> sorted_wrt (<) (map cm_request_id (sy_issued s)) \<and> (\<forall>x \<in> set (butlast (sy_ran s w)). snd x) \<and>
    (sy_ran s w \<noteq> [] \<and> \<not> snd (last (sy_ran s w)) \<longrightarrow> (\<forall>c. sy_worker s w \<noteq> Reading \<and> sy_worker s w \<noteq> Running c))"
proof -
  have inv: "tp_inv N s" and w: "w \<in> {1..<N}" using tp.reach_inv[OF assms(1)] assms(2,3) by simp_all
  then have "life_ok s w" "ids_ok (sy_issued s) (tp_next (nd_plane (sy_node s)))" by (simp_all add: tp_inv_def)
  moreover have "prefix (map fst (sy_ran s w)) (sy_issued s)" using ran_prefix[OF inv w] by (rule append_prefixD)
  ultimately show ?thesis by (auto simp: life_ok_def ids_ok_def)
qed

theorem workers_follow_order_witness:
  "\<exists>t. play (example_call @ [Run 1 (Some (''ValueError'', [], []))]) (tp_start example_plane) = Some t \<and>
     length (sy_ran t 1) = 1 \<and> prefix (map fst (sy_ran t 1)) (sy_issued t) \<and> sy_worker t 1 \<noteq> Reading"
proof -
  let ?r = "play (example_call @ [Run 1 (Some (''ValueError'', [], []))]) (tp_start example_plane)"
  have "case ?r of None \<Rightarrow> False | Some t \<Rightarrow> length (sy_ran t 1) = 1 \<and> \<not> snd (last (sy_ran t 1))" by code_simp
  then obtain t where t: "?r = Some t" "length (sy_ran t 1) = 1" "\<not> snd (last (sy_ran t 1))" by (auto split: option.splits)
  then have "sy_ran t 1 \<noteq> []" by auto
  then show ?thesis using t workers_follow_order[OF example_reach[OF t(1)], of 1] by auto
qed

section \<open>A call with live workers returns\<close>

lemma run_append: "run step s ls t \<Longrightarrow> run step t ms u \<Longrightarrow> run step s (ls @ ms) u"
  by (induction rule: run.induct) (auto intro: run.intros)

text \<open>Nothing in the pipes, every worker waiting for a command.\<close>

definition quiet :: "nat \<Rightarrow> ('a, 'e, 'r) tp_system \<Rightarrow> bool" where
  "quiet N s \<longleftrightarrow> plane_ok N (nd_plane (sy_node s)) \<and> 0 \<le> tp_next (nd_plane (sy_node s)) \<and> sy_phase s = Idle \<and>
     (\<forall>w \<in> {1..<N}. sy_worker s w = Reading \<and> \<not> nt_closed (nd_net (sy_node s)) w \<and> nt_down (nd_net (sy_node s)) w = [] \<and> nt_up (nd_net (sy_node s)) w = [])"

text \<open>Events other than the expiry of the deadline, a crash and a failing run.\<close>

fun orderly :: "('a, 'e, 'r) tp_event \<Rightarrow> bool" where
  "orderly Expire = False" | "orderly (Crash w k) = False" | "orderly (Run w failure) = (failure = None)" | "orderly _ = True"

definition being_sent :: "nat \<Rightarrow> 'a tp_command \<Rightarrow> nat \<Rightarrow> ('a, 'e, 'r) tp_system \<Rightarrow> bool" where
  "being_sent N c k s \<longleftrightarrow> plane_ok N (nd_plane (sy_node s)) \<and> 0 \<le> tp_next (nd_plane (sy_node s)) \<and> sy_phase s = Sending c (Pickled_command c) [k..<N] \<and>
     (\<forall>w \<in> {1..<N}. sy_worker s w = Reading \<and> \<not> nt_closed (nd_net (sy_node s)) w \<and>
        nt_down (nd_net (sy_node s)) w = (if w < k then [Pickled_command c] else []) \<and> nt_up (nd_net (sy_node s)) w = [])"

definition being_answered :: "nat \<Rightarrow> 'a tp_command \<Rightarrow> 'r \<Rightarrow> nat \<Rightarrow> ('a, 'e, 'r) tp_system \<Rightarrow> bool" where
  "being_answered N c r k s \<longleftrightarrow> plane_ok N (nd_plane (sy_node s)) \<and> 0 \<le> tp_next (nd_plane (sy_node s)) \<and>
     (if k < N then sy_phase s = Awaiting c (Inr r) ([k..<N], []) else sy_phase s = Idle \<and> sy_last s = Some (Returned r)) \<and>
     (\<forall>w \<in> {1..<N}. nt_up (nd_net (sy_node s)) w = [] \<and> nt_down (nd_net (sy_node s)) w = (if w < k then [] else [Pickled_command c]) \<and>
        (k \<le> w \<or> cm_method c \<noteq> EXIT \<longrightarrow> sy_worker s w = Reading \<and> \<not> nt_closed (nd_net (sy_node s)) w))"

lemma send_one:
  assumes "being_sent N c k s" and "0 < k" and "k < N"
  shows "\<exists>t. tp_step known picklable s Send t \<and> being_sent N c (Suc k) t"
proof -
  have "[k..<N] = k # [Suc k..<N]" using assms(3) by (rule upt_conv_Cons)
  then show ?thesis using assms
    by (auto simp: being_sent_def tp_step_def send_next_def send_down_def bnd_def gets_def thn_def chk_def ret_def upd_def)
qed

lemma send_all:
  assumes "being_sent N c k s" and "0 < k" and "k \<le> N"
  shows "\<exists>ls t. run (tp_step known picklable) s ls t \<and> list_all orderly ls \<and> being_sent N c N t"
  using assms
proof (induction "N - k" arbitrary: k s)
  case 0
  then show ?case by (intro exI[of _ "[]"] exI[of _ s]) simp
next
  case (Suc d)
  have "k < N" and d: "d = N - Suc k" using Suc.hyps(2) by simp_all
  then obtain t where t: "tp_step known picklable s Send t" "being_sent N c (Suc k) t" using send_one[of N c k s known picklable] Suc.prems by auto
  obtain ls u where "run (tp_step known picklable) t ls u" "list_all orderly ls" "being_sent N c N u" using Suc.hyps(1)[OF d t(2)] \<open>k < N\<close> by auto
  then show ?case using t(1) by (intro exI[of _ "Send # ls"] exI[of _ u]) (auto intro: run.intros)
qed

lemma answer_one:
  assumes a: "being_answered N c r k s" and k: "0 < k" "k < N" and id: "0 \<le> cm_request_id c"
  shows "\<exists>ls t. run (tp_step known picklable) s ls t \<and> list_all orderly ls \<and> being_answered N c r (Suc k) t"
proof -
  let ?n = "nd_net (sy_node s)" and ?q = "\<lparr>rs_request_id = cm_request_id c, rs_worker_rank = int k, rs_status = STATUS_OK, rs_error_type = None, rs_error_message = None, rs_traceback = None\<rparr>"
  have p: "plane_ok N (nd_plane (sy_node s))" "0 \<le> tp_next (nd_plane (sy_node s))" "sy_phase s = Awaiting c (Inr r) ([k..<N], [])"
    "nt_down ?n k = [Pickled_command c]" "nt_up ?n k = []" "sy_worker s k = Reading" "\<not> nt_closed ?n k" "worker_of s k"
    using a k by (simp_all add: being_answered_def worker_of_def plane_ok_def)
  have valid: "response_ok c (int k) = Inr ?q" "response_validate ?q = Inr ()" "command_validate c = Inr ()"
    using id k by (simp_all add: response_ok_def response_new_def response_validate_def check_request_id_def check_worker_rank_def command_validate_def)
  define s1 where "s1 = set_net (?n\<lparr>nt_down := (nt_down ?n)(k := [])\<rparr>) s\<lparr>sy_worker := (sy_worker s)(k := Running c)\<rparr>"
  define s2 where "s2 = worker_run k c None s1"
  define s3 where "s3 = worker_reply k ?q (cm_method c = EXIT) s2"
  define s4 where "s4 = wake_up c (Inr r) ([k..<N], []) [k] s3"
  have 1: "tp_step known picklable s (Read k) s1"
    using p valid(3) by (simp add: tp_step_def worker_read_def deserialize_command_def s1_def Let_def)
  have f1: "worker_of s1 k" "sy_worker s1 k = Running c" using p(8) by (simp_all add: s1_def worker_of_def)
  have 2: "tp_step known picklable s1 (Run k None) s2" using f1 by (simp add: tp_step_def s2_def)
  have s2: "s2 = s1\<lparr>sy_ran := (sy_ran s1)(k := sy_ran s1 k @ [(c, True)]), sy_worker := (sy_worker s1)(k := Replying ?q (cm_method c = EXIT))\<rparr>"
    unfolding s2_def worker_run_def using valid(1) by simp
  have f2: "worker_of s2 k" "sy_worker s2 k = Replying ?q (cm_method c = EXIT)" using f1 by (simp_all add: s2 worker_of_def)
  have 3: "tp_step known picklable s2 (Reply k) s3" using f2 by (simp add: tp_step_def s3_def)
  have net2: "nd_net (sy_node s2) = ?n\<lparr>nt_down := (nt_down ?n)(k := [])\<rparr>" "sy_phase s2 = sy_phase s" "nd_plane (sy_node s2) = nd_plane (sy_node s)"
    "sy_worker s2 = (sy_worker s)(k := Replying ?q (cm_method c = EXIT))" by (simp_all add: s2 s1_def)
  have f3: "sy_phase s3 = sy_phase s" "nd_plane (sy_node s3) = nd_plane (sy_node s)" "nt_up (nd_net (sy_node s3)) = (nt_up ?n)(k := [Pickled_response ?q])"
    "nt_down (nd_net (sy_node s3)) = (nt_down ?n)(k := [])" "nt_closed (nd_net (sy_node s3)) = (nt_closed ?n)(k := (cm_method c = EXIT))"
    "sy_worker s3 = (sy_worker s)(k := if cm_method c = EXIT then Stopped else Reading)"
    using p(5,7) by (auto simp: s3_def worker_reply_def serialize_response_def stop_worker_fields net2 Let_def fun_eq_iff)
  have first: "[k..<N] = k # [Suc k..<N]" using k(2) by (rule upt_conv_Cons)
  have 4: "tp_step known picklable s3 (Wake [k]) s4" using f3 p(3) first by (simp add: tp_step_def may_wake_def s4_def)
  let ?n4 = "(nd_net (sy_node s3))\<lparr>nt_up := (nt_up ?n)(k := [])\<rparr>"
  have "take_ready c [k] ([k..<N], []) (nd_net (sy_node s3)) = (Inr ([Suc k..<N], []), ?n4)"
    using f3 first valid(2) by (simp add: receive_up_def bnd_def gets_def thn_def upd_def ret_def lift_res_def take_response_def deserialize_response_def)
  then have s4: "s4 = conclude c (Inr r) ([Suc k..<N], []) (set_net ?n4 s3)" by (simp add: s4_def wake_up_def)
  have "being_answered N c r (Suc k) s4"
    using a f3 k by (auto simp: s4 being_answered_def conclude_def awaited_def)
  then show ?thesis using 1 2 3 4
    by (intro exI[of _ "[Read k, Run k None, Reply k, Wake [k]]"] exI[of _ s4]) (auto intro!: run.intros)
qed

lemma answer_all:
  assumes "being_answered N c r k s" and "0 < k" and "k \<le> N" and "0 \<le> cm_request_id c"
  shows "\<exists>ls t. run (tp_step known picklable) s ls t \<and> list_all orderly ls \<and> being_answered N c r N t"
  using assms
proof (induction "N - k" arbitrary: k s)
  case 0
  then show ?case by (intro exI[of _ "[]"] exI[of _ s]) simp
next
  case (Suc d)
  have "k < N" and d: "d = N - Suc k" using Suc.hyps(2) by simp_all
  then obtain ls t where t: "run (tp_step known picklable) s ls t" "list_all orderly ls" "being_answered N c r (Suc k) t"
    using answer_one[of N c r k s known picklable] Suc.prems by auto
  obtain ms u where "run (tp_step known picklable) t ms u" "list_all orderly ms" "being_answered N c r N u" using Suc.hyps(1)[OF d t(3)] \<open>k < N\<close> Suc.prems(4) by auto
  then show ?case using t(1,2) run_append by (intro exI[of _ "ls @ ms"] exI[of _ u]) auto
qed

text \<open>C11: with quiet pipes and waiting workers a call of a supported method with serialisable arguments can always run to
  its end: it returns the value rank 0 computed, and leaves pipes and workers ready for the next call unless it was \<open>EXIT\<close>.\<close>

theorem healthy_call_returns:
  assumes "quiet N s" and "known name" and "parse_method name = Inr method" and "picklable args"
  shows "\<exists>ls t. run (tp_step known picklable) s (Call name args # ls) t \<and> list_all orderly ls \<and> sy_phase t = Idle \<and> sy_last t = Some (Returned r) \<and>
    (method \<noteq> EXIT \<longrightarrow> quiet N t)"
proof -
  let ?p = "nd_plane (sy_node s)"
  let ?c = "\<lparr>cm_request_id = tp_next ?p, cm_method = method, cm_args = args\<rparr>"
  have q: "plane_ok N ?p" "0 \<le> tp_next ?p" "sy_phase s = Idle" using assms(1) by (simp_all add: quiet_def)
  have b: "prepare_broadcast picklable name args ?p = (Inr (?c, Pickled_command ?c, [1..<N]), ?p\<lparr>tp_next := tp_next ?p + 1\<rparr>)"
    using q assms(3,4) by (simp add: prepare_broadcast_def next_command_def bnd_def gets_def thn_def chk_def lift_res_def ret_def upd_def command_new_def
        command_validate_def check_request_id_def serialize_command_def rank0_channels_def plane_ok_def)
  define s1 where "s1 = call_start known picklable name args s"
  have 1: "tp_step known picklable s (Call name args) s1" using q(3) by (simp add: tp_step_def s1_def)
  have "being_sent N ?c 1 s1" using assms(1,2) b by (auto simp: being_sent_def quiet_def s1_def call_start_def plane_ok_def)
  then obtain ls s2 where 2: "run (tp_step known picklable) s1 ls s2" "list_all orderly ls" "being_sent N ?c N s2"
    using send_all[of N ?c 1 s1 known picklable] q(1) by (auto simp: plane_ok_def)
  define s3 where "s3 = s2\<lparr>sy_phase := Computing ?c\<rparr>"
  have 3: "tp_step known picklable s2 Send s3" using 2(3) by (simp add: tp_step_def being_sent_def s3_def send_next_def)
  define s4 where "s4 = compute_local ?c (Inr r) s3"
  have 4: "tp_step known picklable s3 (Compute (Inr r)) s4" by (simp add: tp_step_def s4_def s3_def)
  have "being_answered N ?c r 1 s4" using 2(3) q(1)
    by (auto simp: being_sent_def being_answered_def s4_def s3_def compute_local_def rank0_channels_def plane_ok_def Let_def)
  then obtain ms t where 5: "run (tp_step known picklable) s4 ms t" "list_all orderly ms" "being_answered N ?c r N t"
    using answer_all[of N ?c r 1 s4 known picklable] q(1,2) by (auto simp: plane_ok_def)
  have "run (tp_step known picklable) s (Call name args # ls @ Send # Compute (Inr r) # ms) t"
    using 1 3 4 5(1) by (auto intro!: run.intros(2) intro: run_append[OF 2(1)])
  then show ?thesis using 2(2) 5(2,3)
    by (intro exI[of _ "ls @ Send # Compute (Inr r) # ms"] exI[of _ t]) (auto simp: being_answered_def quiet_def)
qed

theorem healthy_call_returns_witness:
  "\<exists>ls t. run (tp_step (\<lambda>_. True) (\<lambda>_. True)) (tp_start example_plane) (Call ''swap_blocks'' [1::int] # ls) t \<and>
     sy_last t = Some (Returned (7::int) :: (string, int) call_outcome) \<and> quiet 3 t"
proof -
  have "quiet 3 (tp_start example_plane)" by (simp add: quiet_def tp_start_def example_plane_def plane_ok_def)
  moreover have "parse_method ''swap_blocks'' = Inr SWAP_BLOCKS" by (simp add: parse_method_def tp_methods_def)
  ultimately show ?thesis using healthy_call_returns[of 3 "tp_start example_plane" "\<lambda>_. True" "''swap_blocks''" SWAP_BLOCKS "\<lambda>_. True" "[1]" 7] by auto
qed

end
