(* ===== verification/Rope_Index.thy ===== *)
theory Rope_Index imports Prelude begin

text \<open>
  The three-axis position ids of a prompt with images and videos (\<open>models/qwen3_vl_position.py\<close>).  A \<open>[3, n]\<close> tensor of
  positions is the list of its \<open>n\<close> columns, the triples of temporal, height and width position.
\<close>

type_synonym patch_grid = "int \<times> int \<times> int"

datatype visual_kind = Image_span | Video_span

section \<open>The grid cursor\<close>

record grid_cursor =
  gc_images :: "patch_grid list option"
  gc_videos :: "patch_grid list option"
  gc_image_index :: nat
  gc_video_index :: nat

definition gc_grid :: "visual_kind \<Rightarrow> grid_cursor \<Rightarrow> patch_grid list option" where
  "gc_grid kind c = (case kind of Image_span \<Rightarrow> gc_images c | Video_span \<Rightarrow> gc_videos c)"

definition gc_index :: "visual_kind \<Rightarrow> grid_cursor \<Rightarrow> nat" where
  "gc_index kind c = (case kind of Image_span \<Rightarrow> gc_image_index c | Video_span \<Rightarrow> gc_video_index c)"

definition gc_bump :: "visual_kind \<Rightarrow> grid_cursor \<Rightarrow> grid_cursor" where
  "gc_bump kind c = (case kind of Image_span \<Rightarrow> c\<lparr>gc_image_index := gc_image_index c + 1\<rparr> | Video_span \<Rightarrow> c\<lparr>gc_video_index := gc_video_index c + 1\<rparr>)"

definition cursor_take :: "visual_kind \<Rightarrow> (patch_grid, grid_cursor) op" where
  "cursor_take kind = bnd (gets id) (\<lambda>c. case gc_grid kind c of None \<Rightarrow> throw ValueError
     | Some g \<Rightarrow> thn (chk ValueError (gc_index kind c < length g)) (thn (upd (gc_bump kind)) (ret (g ! gc_index kind c))))"

definition ensure_kind_exhausted :: "patch_grid list option \<Rightarrow> nat \<Rightarrow> py_error + unit" where
  "ensure_kind_exhausted g used = (case g of None \<Rightarrow> Inr () | Some rows \<Rightarrow> need ValueError (used = length rows) (Inr ()))"

definition ensure_exhausted :: "grid_cursor \<Rightarrow> py_error + unit" where
  "ensure_exhausted c = bind_res (ensure_kind_exhausted (gc_images c) (gc_image_index c)) (\<lambda>_.
     ensure_kind_exhausted (gc_videos c) (gc_video_index c))"

section \<open>The spans of a prompt\<close>

text \<open>\<open>xs.index(x, start)\<close>\<close>

definition list_index :: "'a list \<Rightarrow> 'a \<Rightarrow> nat \<Rightarrow> py_error + nat" where
  "list_index xs x start = (let k = start + length (takeWhile (\<lambda>y. y \<noteq> x) (drop start xs)) in need ValueError (k < length xs) (Inr k))"

definition next_token_end :: "int list \<Rightarrow> int \<Rightarrow> nat \<Rightarrow> nat \<Rightarrow> py_error + nat" where
  "next_token_end tokens token start remaining =
     (if remaining = 0 \<or> token \<notin> set tokens then Inr (length tokens + 1) else list_index tokens token start)"

text \<open>The special tokens: image, video, vision start.\<close>

record special_tokens =
  st_image :: int
  st_video :: int
  st_start :: int

text \<open>\<open>_RemainingVisualSpans.pop_next\<close>; the pair counts the images and videos that are left.\<close>

definition pop_next :: "special_tokens \<Rightarrow> int list \<Rightarrow> nat \<Rightarrow> nat \<times> nat \<Rightarrow> py_error + visual_kind \<times> nat \<times> nat \<times> nat" where
  "pop_next st tokens start = (\<lambda>(images, videos).
     bind_res (next_token_end tokens (st_image st) start images) (\<lambda>image_end.
     bind_res (next_token_end tokens (st_video st) start videos) (\<lambda>video_end.
     if image_end < video_end then Inr (Image_span, image_end, images - 1, videos)
     else need ValueError (video_end \<le> length tokens) (Inr (Video_span, video_end, images, videos - 1)))))"

definition visual_span_counts :: "special_tokens \<Rightarrow> int list \<Rightarrow> py_error + nat \<times> nat" where
  "visual_span_counts st tokens =
     (let starts = filter (\<lambda>i. tokens ! i = st_start st) [0..<length tokens] in
      need ValueError (list_all (\<lambda>i. i + 1 < length tokens) starts)
     (let vision_tokens = map (\<lambda>i. tokens ! (i + 1)) starts in
      Inr (count_list vision_tokens (st_image st), count_list vision_tokens (st_video st))))"

definition merge_visual_grid :: "int \<Rightarrow> patch_grid \<Rightarrow> py_error + patch_grid" where
  "merge_visual_grid merge = (\<lambda>(t, h, w).
     need ValueError (h mod merge = 0 \<and> w mod merge = 0)
    (let merged = (t, h div merge, w div merge) in
     need ValueError (0 < t \<and> 0 < h div merge \<and> 0 < w div merge) (Inr merged)))"

definition grid_token_count :: "patch_grid \<Rightarrow> nat" where
  "grid_token_count = (\<lambda>(t, h, w). nat (t * h * w))"

section \<open>Positions\<close>

type_synonym position = "int \<times> int \<times> int"

definition text_positions :: "nat \<Rightarrow> int \<Rightarrow> position list" where
  "text_positions n start = map (\<lambda>i. (start + int i, start + int i, start + int i)) [0..<n]"

definition visual_positions :: "patch_grid \<Rightarrow> int \<Rightarrow> position list" where
  "visual_positions = (\<lambda>(t, h, w) start.
     concat (map (\<lambda>i. concat (map (\<lambda>j. map (\<lambda>k. (start + int i, start + int j, start + int k)) [0..<nat w]) [0..<nat h])) [0..<nat t]))"

definition triple_max :: "position \<Rightarrow> int" where
  "triple_max = (\<lambda>(t, h, w). max t (max h w))"

text \<open>\<open>positions.max()\<close>, which raises on an empty tensor\<close>

definition positions_max :: "position list \<Rightarrow> py_error + int" where
  "positions_max ps = need RuntimeError (ps \<noteq> []) (Inr (Max (set (map triple_max ps))))"

definition next_position_start :: "position list list \<Rightarrow> py_error + int" where
  "next_position_start parts = (if parts = [] then Inr 0 else bind_res (positions_max (last parts)) (\<lambda>m. Inr (m + 1)))"

definition append_visual_positions :: "nat \<Rightarrow> patch_grid \<Rightarrow> position list list \<Rightarrow> py_error + position list list" where
  "append_visual_positions text_length merged parts = bind_res (next_position_start parts) (\<lambda>start.
     Inr (parts @ [text_positions text_length start, visual_positions merged (start + int text_length)]))"

definition append_trailing_text :: "nat \<Rightarrow> nat \<Rightarrow> position list list \<Rightarrow> py_error + position list list" where
  "append_trailing_text start n parts =
     (if n \<le> start then Inr parts
      else bind_res (next_position_start parts) (\<lambda>s. Inr (parts @ [text_positions (n - start) s])))"

fun span_loop :: "special_tokens \<Rightarrow> int \<Rightarrow> int list \<Rightarrow> nat \<Rightarrow> nat \<times> nat \<Rightarrow> nat \<Rightarrow> position list list \<Rightarrow> (nat \<times> position list list, grid_cursor) op" where
  "span_loop st merge tokens 0 remaining start parts = ret (start, parts)"
| "span_loop st merge tokens (Suc n) remaining start parts =
     bnd (lift_res (pop_next st tokens start remaining)) (\<lambda>(kind, visual_end, remaining').
     bnd (cursor_take kind) (\<lambda>raw.
     bnd (lift_res (merge_visual_grid merge raw)) (\<lambda>merged.
     bnd (lift_res (append_visual_positions (visual_end - start) merged parts)) (\<lambda>parts'.
     span_loop st merge tokens n remaining' (visual_end + grid_token_count merged) parts'))))"

definition build_sequence_positions :: "special_tokens \<Rightarrow> int \<Rightarrow> int list \<Rightarrow> (position list, grid_cursor) op" where
  "build_sequence_positions st merge tokens =
     bnd (lift_res (visual_span_counts st tokens)) (\<lambda>(images, videos).
     bnd (span_loop st merge tokens (images + videos) (images, videos) 0 []) (\<lambda>(start, parts).
     bnd (lift_res (append_trailing_text start (length tokens) parts)) (\<lambda>parts'.
     thn (chk ValueError (parts' \<noteq> [])) (ret (concat parts')))))"

section \<open>A batch\<close>

text \<open>\<open>position_ids[..., row, active] = positions\<close>: the active columns take the positions in order, the others are 1.\<close>

fun scatter :: "bool list \<Rightarrow> position list \<Rightarrow> position list" where
  "scatter [] ps = []"
| "scatter (False # active) ps = (1, 1, 1) # scatter active ps"
| "scatter (True # active) ps = (case ps of [] \<Rightarrow> (1, 1, 1) # scatter active [] | p # ps' \<Rightarrow> p # scatter active ps')"

fun visual_rows :: "special_tokens \<Rightarrow> int \<Rightarrow> (int list \<times> int list) list \<Rightarrow> ((position list \<times> int) list, grid_cursor) op" where
  "visual_rows st merge [] = ret []"
| "visual_rows st merge ((ids, amask) # rows) =
     (let active = map (\<lambda>m. m = 1) amask in
      bnd (build_sequence_positions st merge (map fst (filter snd (zip ids active)))) (\<lambda>positions.
      thn (chk ValueError (length positions = length (filter id active)))
     (bnd (lift_res (positions_max positions)) (\<lambda>m.
      bnd (visual_rows st merge rows) (\<lambda>rest.
      ret ((scatter active positions, m + 1 - int (length ids)) # rest))))))"

definition visual_rope_index ::
    "special_tokens \<Rightarrow> int \<Rightarrow> int list list \<Rightarrow> patch_grid list option \<Rightarrow> patch_grid list option \<Rightarrow> int list list option \<Rightarrow> py_error + (position list \<times> int) list" where
  "visual_rope_index st merge input_ids images videos amask =
     (let masks = (case amask of None \<Rightarrow> map (map (\<lambda>_. 1)) input_ids | Some m \<Rightarrow> m) in
      case bnd (visual_rows st merge (zip input_ids masks)) (\<lambda>rows. bnd (gets id) (\<lambda>c. thn (lift_res (ensure_exhausted c))
          (thn (chk RuntimeError (rows \<noteq> [])) (ret rows))))
        \<lparr>gc_images = images, gc_videos = videos, gc_image_index = 0, gc_video_index = 0\<rparr> of (r, _) \<Rightarrow> r)"

definition text_row :: "int list \<Rightarrow> int list option \<Rightarrow> py_error + position list \<times> int" where
  "text_row ids amask = (case amask of
     None \<Rightarrow> Inr (text_positions (length ids) 0, 0)
   | Some m \<Rightarrow> (let ps = map (\<lambda>i. if m ! i = 0 then 1 else sum_list (take (i + 1) m) - 1) [0..<length m] in
       need IndexError (ps \<noteq> []) (Inr (map (\<lambda>p. (p, p, p)) ps, Max (set ps) + 1 - int (length m)))))"

definition text_rope_index :: "int list list \<Rightarrow> int list list option \<Rightarrow> py_error + (position list \<times> int) list" where
  "text_rope_index input_ids amask = map_res (\<lambda>i. text_row (input_ids ! i) (map_option (\<lambda>m. m ! i) amask)) [0..<length input_ids]"

text \<open>A video of \<open>t\<close> frames becomes \<open>t\<close> grids of one frame.\<close>

definition frame_grids :: "patch_grid list \<Rightarrow> py_error + patch_grid list" where
  "frame_grids gs = need RuntimeError (list_all (\<lambda>(t, h, w). 0 \<le> t) gs) (Inr (concat (map (\<lambda>(t, h, w). replicate (nat t) (1, h, w)) gs)))"

definition get_rope_index ::
    "special_tokens \<Rightarrow> int \<Rightarrow> int list list \<Rightarrow> patch_grid list option \<Rightarrow> patch_grid list option \<Rightarrow> int list list option \<Rightarrow> py_error + (position list \<times> int) list" where
  "get_rope_index st merge input_ids images videos amask =
     need ValueError (0 < merge)
    (need ValueError (0 \<le> st_image st \<and> 0 \<le> st_video st \<and> 0 \<le> st_start st)
    (need ValueError (distinct [st_image st, st_video st, st_start st])
    (need ValueError (case amask of None \<Rightarrow> True | Some m \<Rightarrow> map length m = map length input_ids)
    (if images = None \<and> videos = None then text_rope_index input_ids amask
     else bind_res (case videos of None \<Rightarrow> Inr None | Some v \<Rightarrow> bind_res (frame_grids v) (\<lambda>f. Inr (Some f))) (\<lambda>frames.
       visual_rope_index st merge input_ids images frames amask)))))"

section \<open>What the positions are\<close>

text \<open>A prompt as its author sees it: texts, each followed by an image or a video frame, and a last text.\<close>

type_synonym rope_span = "int list \<times> visual_kind \<times> patch_grid"

definition token_of :: "special_tokens \<Rightarrow> visual_kind \<Rightarrow> int" where
  "token_of st kind = (case kind of Image_span \<Rightarrow> st_image st | Video_span \<Rightarrow> st_video st)"

definition merged_of :: "int \<Rightarrow> patch_grid \<Rightarrow> patch_grid" where
  "merged_of merge = (\<lambda>(t, h, w). (t, h div merge, w div merge))"

fun prompt_of :: "special_tokens \<Rightarrow> int \<Rightarrow> rope_span list \<Rightarrow> int list \<Rightarrow> int list" where
  "prompt_of st merge [] last_text = last_text"
| "prompt_of st merge ((txt, kind, g) # spans) last_text =
     txt @ replicate (grid_token_count (merged_of merge g)) (token_of st kind) @ prompt_of st merge spans last_text"

text \<open>Text counts on; the rows and columns of a picture count from the position where it starts; what follows starts
  behind the largest position so far.\<close>

fun layout_of :: "int \<Rightarrow> int \<Rightarrow> rope_span list \<Rightarrow> int list \<Rightarrow> position list" where
  "layout_of merge start [] last_text = text_positions (length last_text) start"
| "layout_of merge start ((txt, kind, g) # spans) last_text =
     text_positions (length txt) start @ visual_positions (merged_of merge g) (start + int (length txt)) @
     layout_of merge (start + int (length txt) + triple_max (merged_of merge g)) spans last_text"

fun layout_end :: "int \<Rightarrow> int \<Rightarrow> rope_span list \<Rightarrow> int list \<Rightarrow> int" where
  "layout_end merge start [] last_text = start + int (length last_text)"
| "layout_end merge start ((txt, kind, g) # spans) last_text =
     layout_end merge (start + int (length txt) + triple_max (merged_of merge g)) spans last_text"

definition grid_ok :: "int \<Rightarrow> patch_grid \<Rightarrow> bool" where
  "grid_ok merge = (\<lambda>(t, h, w). 0 < t \<and> h mod merge = 0 \<and> w mod merge = 0 \<and> 0 < h div merge \<and> 0 < w div merge)"

definition plain_text :: "special_tokens \<Rightarrow> int list \<Rightarrow> bool" where
  "plain_text st txt \<longleftrightarrow> st_image st \<notin> set txt \<and> st_video st \<notin> set txt"

text \<open>Each picture is announced by the vision-start token.\<close>

definition span_ok :: "special_tokens \<Rightarrow> int \<Rightarrow> rope_span \<Rightarrow> bool" where
  "span_ok st merge = (\<lambda>(txt, kind, g). plain_text st txt \<and> txt \<noteq> [] \<and> last txt = st_start st \<and> grid_ok merge g)"

definition prompt_ok :: "special_tokens \<Rightarrow> int \<Rightarrow> rope_span list \<Rightarrow> int list \<Rightarrow> bool" where
  "prompt_ok st merge spans last_text \<longleftrightarrow> list_all (span_ok st merge) spans \<and> plain_text st last_text \<and>
     (last_text = [] \<or> last last_text \<noteq> st_start st)"

definition grids_of :: "visual_kind \<Rightarrow> rope_span list \<Rightarrow> patch_grid list" where
  "grids_of kind spans = map (\<lambda>(txt, k, g). g) (filter (\<lambda>(txt, k, g). k = kind) spans)"

section \<open>Positions of one span\<close>

lemma grid_ok_merged: "grid_ok merge g \<Longrightarrow> merge_visual_grid merge g = Inr (merged_of merge g)"
  by (cases g) (auto simp: grid_ok_def merge_visual_grid_def merged_of_def Let_def)

lemma merged_positive:
  "grid_ok merge g \<Longrightarrow> (case merged_of merge g of (t, h, w) \<Rightarrow> 0 < t \<and> 0 < h \<and> 0 < w)"
  by (cases g) (simp add: grid_ok_def merged_of_def)

lemma text_positions_length [simp]: "length (text_positions n s) = n"
  by (simp add: text_positions_def)

lemma sum_list_const: "(\<And>x. x \<in> set xs \<Longrightarrow> f x = (c::nat)) \<Longrightarrow> sum_list (map f xs) = length xs * c"
  by (induction xs) auto

lemma visual_positions_length: "length (visual_positions g s) = (case g of (t, h, w) \<Rightarrow> nat t * (nat h * nat w))"
  by (cases g) (simp add: visual_positions_def length_concat comp_def sum_list_const)

lemma grid_count_length: "grid_ok merge g \<Longrightarrow> length (visual_positions (merged_of merge g) s) = grid_token_count (merged_of merge g)"
  using merged_positive[of merge g] by (cases "merged_of merge g") (simp add: visual_positions_length grid_token_count_def nat_mult_distrib)

lemma positions_max_text: "0 < n \<Longrightarrow> positions_max (text_positions n s) = Inr (s + int n - 1)"
proof -
  assume n: "0 < n"
  have "Max (set (map triple_max (text_positions n s))) = s + int n - 1"
  proof (rule Max_eqI)
    show "s + int n - 1 \<in> set (map triple_max (text_positions n s))"
      using n by (auto simp: text_positions_def triple_max_def image_iff intro!: bexI[of _ "n - 1"])
  qed (auto simp: text_positions_def triple_max_def)
  then show ?thesis using n by (simp add: positions_max_def text_positions_def)
qed

lemma positions_max_visual:
  assumes "grid_ok merge g"
  shows "positions_max (visual_positions (merged_of merge g) s) = Inr (s + triple_max (merged_of merge g) - 1)"
proof -
  obtain t h w where m: "merged_of merge g = (t, h, w)" by (cases "merged_of merge g")
  have p: "0 < t" "0 < h" "0 < w" using merged_positive[OF assms] m by simp_all
  let ?ps = "visual_positions (t, h, w) s"
  have mem: "x \<in> set ?ps \<longleftrightarrow> (\<exists>i j k. i < nat t \<and> j < nat h \<and> k < nat w \<and> x = (s + int i, s + int j, s + int k))" for x
    by (fastforce simp: visual_positions_def image_iff)
  have top: "(s + int (nat t - 1), s + int (nat h - 1), s + int (nat w - 1)) \<in> set ?ps" unfolding mem
    using p by (intro exI[of _ "nat t - 1"] exI[of _ "nat h - 1"] exI[of _ "nat w - 1"]) simp
  have "Max (set (map triple_max ?ps)) = s + triple_max (t, h, w) - 1"
  proof (rule Max_eqI)
    have "triple_max (s + int (nat t - 1), s + int (nat h - 1), s + int (nat w - 1)) = s + triple_max (t, h, w) - 1"
      using p by (simp add: triple_max_def)
    then show "s + triple_max (t, h, w) - 1 \<in> set (map triple_max ?ps)" using top by (metis imageI set_map)
  next
    fix y assume "y \<in> set (map triple_max ?ps)"
    then obtain i j k where "i < nat t" "j < nat h" "k < nat w" "y = triple_max (s + int i, s + int j, s + int k)" using mem by auto
    then show "y \<le> s + triple_max (t, h, w) - 1" by (simp add: triple_max_def) linarith
  qed simp
  moreover have "?ps \<noteq> []" using top by auto
  ultimately show ?thesis using m by (simp add: positions_max_def)
qed

section \<open>Finding the spans\<close>

lemma list_index_at: "x \<notin> set txt \<Longrightarrow> list_index (pre @ txt @ x # post) x (length pre) = Inr (length pre + length txt)"
proof -
  assume x: "x \<notin> set txt"
  have "takeWhile (\<lambda>y. y \<noteq> x) (txt @ x # post) = txt" using x by (subst takeWhile_append2) auto
  then show ?thesis by (simp add: list_index_def Let_def)
qed

lemma list_index_later:
  assumes "x \<notin> set txt" and "x \<in> set post"
  shows "\<exists>k. list_index (pre @ txt @ post) x (length pre) = Inr k \<and> length pre + length txt \<le> k \<and> k < length (pre @ txt @ post)"
proof -
  obtain p q where "post = p @ x # q" "x \<notin> set p" using assms(2) by (meson split_list_first)
  then show ?thesis using list_index_at[of x "txt @ p" pre q] assms(1) by (intro exI[of _ "length pre + length (txt @ p)"]) simp
qed

text \<open>Adjacent tokens\<close>

fun follow_count :: "int \<Rightarrow> int \<Rightarrow> int list \<Rightarrow> nat" where
  "follow_count a b (x # y # zs) = (if x = a \<and> y = b then 1 else 0) + follow_count a b (y # zs)"
| "follow_count a b xs = 0"

lemma follow_count_append:
  "xs \<noteq> [] \<Longrightarrow> ys \<noteq> [] \<Longrightarrow> follow_count a b (xs @ ys) = follow_count a b xs + (if last xs = a \<and> hd ys = b then 1 else 0) + follow_count a b ys"
  apply (induction a b xs rule: follow_count.induct)
  subgoal by auto
  subgoal by auto
  subgoal by (cases ys) auto
  done

lemma follow_count_absent: "b \<notin> set xs \<Longrightarrow> follow_count a b xs = 0"
  by (induction a b xs rule: follow_count.induct) auto

lemma follow_count_other: "a \<notin> set xs \<Longrightarrow> follow_count a b xs = 0"
  by (induction a b xs rule: follow_count.induct) auto

lemma starts_Cons: "filter (\<lambda>i. (x # xs) ! i = a) [0..<length (x # xs)] = (if x = a then [0] else []) @ map Suc (filter (\<lambda>i. xs ! i = a) [0..<length xs])"
proof -
  have "[0..<length (x # xs)] = 0 # map Suc [0..<length xs]" by (simp add: upt_conv_Cons map_Suc_upt del: upt_Suc)
  then show ?thesis by (simp add: filter_map comp_def del: upt_Suc)
qed

lemma follow_count_starts:
  "xs \<noteq> [] \<Longrightarrow> last xs \<noteq> a \<Longrightarrow> count_list (map (\<lambda>i. xs ! (i + 1)) (filter (\<lambda>i. xs ! i = a) [0..<length xs])) b = follow_count a b xs"
proof (induction a b xs rule: follow_count.induct)
  case (1 a b x y zs)
  have "count_list (map (\<lambda>i. (x # y # zs) ! (i + 1)) (filter (\<lambda>i. (x # y # zs) ! i = a) [0..<length (x # y # zs)])) b =
      (if x = a \<and> y = b then 1 else 0) + count_list (map (\<lambda>i. (y # zs) ! (i + 1)) (filter (\<lambda>i. (y # zs) ! i = a) [0..<length (y # zs)])) b"
    unfolding starts_Cons[of x "y # zs"] by (simp add: comp_def del: upt_Suc)
  then show ?case using 1 by simp
qed auto

lemma starts_inside: "last xs \<noteq> a \<Longrightarrow> list_all (\<lambda>i. i + 1 < length xs) (filter (\<lambda>i. xs ! i = a) [0..<length xs])"
proof -
  assume l: "last xs \<noteq> a"
  have "i + 1 < length xs" if "i < length xs" "xs ! i = a" for i
  proof (rule ccontr)
    assume "\<not> i + 1 < length xs"
    then have "i = length xs - 1" "xs \<noteq> []" using that(1) by auto
    then show False using l that(2) last_conv_nth[of xs] by simp
  qed
  then show ?thesis by (auto simp: list_all_iff)
qed

definition special_ok :: "special_tokens \<Rightarrow> bool" where
  "special_ok st \<longleftrightarrow> distinct [st_image st, st_video st, st_start st]"

lemma token_of_eq: "special_ok st \<Longrightarrow> token_of st kind = token_of st kind' \<longleftrightarrow> kind = kind'" "special_ok st \<Longrightarrow> token_of st kind \<noteq> st_start st"
  by (cases kind; cases kind'; auto simp: special_ok_def token_of_def)+

lemma plain_text_token: "plain_text st txt \<Longrightarrow> token_of st kind \<notin> set txt"
  by (cases kind) (simp_all add: plain_text_def token_of_def)

lemma grid_count_pos: "grid_ok merge g \<Longrightarrow> 0 < grid_token_count (merged_of merge g)"
  using merged_positive[of merge g] by (cases "merged_of merge g") (simp add: grid_token_count_def)

lemma grids_of_simps [simp]:
  "grids_of kind [] = []" "grids_of kind ((txt, k, g) # spans) = (if k = kind then g # grids_of kind spans else grids_of kind spans)"
  by (simp_all add: grids_of_def)

lemma token_in_prompt:
  "list_all (span_ok st merge) spans \<Longrightarrow> grids_of kind spans \<noteq> [] \<Longrightarrow> token_of st kind \<in> set (prompt_of st merge spans last_text)"
proof (induction spans)
  case (Cons a spans)
  obtain ts k g where a: "a = (ts, k, g)" by (cases a)
  then show ?case using Cons grid_count_pos[of merge g] by (cases "k = kind") (auto simp: span_ok_def)
qed simp

lemma pop_next_span:
  assumes st: "special_ok st" and plain: "plain_text st txt" and n: "0 < n"
    and avail: "0 < (case kind of Image_span \<Rightarrow> images | Video_span \<Rightarrow> videos)"
    and other: "kind = Image_span \<Longrightarrow> 0 < videos \<Longrightarrow> st_video st \<in> set post" "kind = Video_span \<Longrightarrow> 0 < images \<Longrightarrow> st_image st \<in> set post"
  shows "pop_next st (pre @ txt @ replicate n (token_of st kind) @ post) (length pre) (images, videos) =
    Inr (kind, length pre + length txt, case kind of Image_span \<Rightarrow> (images - 1, videos) | Video_span \<Rightarrow> (images, videos - 1))"
proof -
  let ?tok = "token_of st kind" and ?tokens = "pre @ txt @ replicate n (token_of st kind) @ post"
  obtain m where m: "n = Suc m" using n by (cases n) auto
  have own: "next_token_end ?tokens ?tok (length pre) c = Inr (length pre + length txt)" if "0 < c" for c
    using list_index_at[OF plain_text_token[OF plain], of pre kind "replicate m ?tok @ post"] that m by (simp add: next_token_end_def)
  have others: "\<exists>k. next_token_end ?tokens x (length pre) c = Inr k \<and> length pre + length txt < k"
    if x: "x \<notin> set txt" "x \<noteq> ?tok" "0 < c \<Longrightarrow> x \<in> set post" for x c
  proof (cases "0 < c")
    case True
    have "x \<notin> set (txt @ replicate n ?tok)" using x by simp
    from list_index_later[OF this x(3)[OF True], of pre] show ?thesis using True x n by (force simp: next_token_end_def)
  qed (use n in \<open>simp add: next_token_end_def\<close>)
  show ?thesis
  proof (cases kind)
    case Image_span
    have "st_video st \<noteq> ?tok" "st_video st \<notin> set txt" using st plain Image_span by (auto simp: special_ok_def token_of_def plain_text_def)
    then obtain k where "next_token_end ?tokens (st_video st) (length pre) videos = Inr k" "length pre + length txt < k" using others[of "st_video st" videos] other Image_span by auto
    then show ?thesis using own[of images] avail Image_span by (simp add: pop_next_def token_of_def)
  next
    case Video_span
    have "st_image st \<noteq> ?tok" "st_image st \<notin> set txt" using st plain Video_span by (auto simp: special_ok_def token_of_def plain_text_def)
    then obtain k where "next_token_end ?tokens (st_image st) (length pre) images = Inr k" "length pre + length txt < k" using others[of "st_image st" images] other Video_span by auto
    then show ?thesis using own[of videos] avail Video_span by (simp add: pop_next_def token_of_def)
  qed
qed

lemma prompt_last:
  "special_ok st \<Longrightarrow> prompt_ok st merge spans last_text \<Longrightarrow> prompt_of st merge spans last_text \<noteq> [] \<Longrightarrow> last (prompt_of st merge spans last_text) \<noteq> st_start st"
proof (induction spans)
  case Nil
  then show ?case by (auto simp: prompt_ok_def)
next
  case (Cons a spans)
  obtain ts k g where a: "a = (ts, k, g)" by (cases a)
  have ok: "prompt_ok st merge spans last_text" "0 < grid_token_count (merged_of merge g)" using Cons.prems(2) grid_count_pos[of merge g] by (auto simp: prompt_ok_def a span_ok_def)
  show ?case
  proof (cases "prompt_of st merge spans last_text = []")
    case True
    then show ?thesis using ok(2) token_of_eq(2)[OF Cons.prems(1)] by (simp add: a last_append)
  next
    case False
    then show ?thesis using Cons.IH[OF Cons.prems(1) ok(1)] by (simp add: a)
  qed
qed

lemma follow_count_prompt:
  assumes "special_ok st" and "prompt_ok st merge spans last_text"
  shows "follow_count (st_start st) (token_of st kind) (prompt_of st merge spans last_text) = length (grids_of kind spans)"
  using assms(2)
proof (induction spans)
  case Nil
  then show ?case using plain_text_token[of st last_text kind] by (simp add: prompt_ok_def follow_count_absent)
next
  case (Cons a spans)
  obtain ts k g where a: "a = (ts, k, g)" by (cases a)
  let ?n = "grid_token_count (merged_of merge g)" and ?rest = "prompt_of st merge spans last_text" and ?s = "st_start st" and ?x = "token_of st kind"
  have ok: "prompt_ok st merge spans last_text" "0 < ?n" "plain_text st ts" "ts \<noteq> []" "last ts = ?s"
    using Cons.prems grid_count_pos[of merge g] by (auto simp: prompt_ok_def a span_ok_def)
  have visual: "follow_count ?s ?x (replicate ?n (token_of st k) @ ?rest) = follow_count ?s ?x ?rest"
  proof (cases "?rest = []")
    case True
    then show ?thesis using token_of_eq(2)[OF assms(1), of k] by (simp add: follow_count_other)
  next
    case False
    then show ?thesis using token_of_eq(2)[OF assms(1), of k] ok(2) by (subst follow_count_append) (auto simp: follow_count_other)
  qed
  have "hd (replicate ?n (token_of st k) @ ?rest) = token_of st k" using ok(2) by simp
  then have "follow_count ?s ?x (ts @ replicate ?n (token_of st k) @ ?rest) = (if k = kind then 1 else 0) + follow_count ?s ?x ?rest"
    using ok(2-5) plain_text_token[OF ok(3), of kind] token_of_eq(1)[OF assms(1), of k kind] visual
    by (subst follow_count_append) (auto simp: follow_count_absent)
  then show ?case using Cons.IH[OF ok(1)] by (simp add: a)
qed

lemma span_counts:
  assumes "special_ok st" and "prompt_ok st merge spans last_text" and "prompt_of st merge spans last_text \<noteq> []"
  shows "visual_span_counts st (prompt_of st merge spans last_text) = Inr (length (grids_of Image_span spans), length (grids_of Video_span spans))"
  using prompt_last[OF assms] follow_count_prompt[OF assms(1,2), of Image_span] follow_count_prompt[OF assms(1,2), of Video_span] assms(3)
  by (simp add: visual_span_counts_def Let_def starts_inside[simplified] follow_count_starts[simplified] token_of_def comp_def)

section \<open>The loop over the spans\<close>

text \<open>The grids of a kind that the cursor still has to hand out.\<close>

definition feeds :: "grid_cursor \<Rightarrow> visual_kind \<Rightarrow> patch_grid list \<Rightarrow> bool" where
  "feeds c kind gs \<longleftrightarrow> (case gc_grid kind c of None \<Rightarrow> gs = [] | Some rows \<Rightarrow> gc_index kind c \<le> length rows \<and> drop (gc_index kind c) rows = gs)"

lemma bump_fields [simp]:
  "gc_grid k (gc_bump kind c) = gc_grid k c" "gc_index k (gc_bump kind c) = (if k = kind then gc_index k c + 1 else gc_index k c)"
  by (cases k; cases kind; simp add: gc_grid_def gc_index_def gc_bump_def)+

lemma take_fed:
  assumes "feeds c kind (g # gs)"
  shows "cursor_take kind c = (Inr g, gc_bump kind c)" "feeds (gc_bump kind c) kind gs" "k \<noteq> kind \<Longrightarrow> feeds (gc_bump kind c) k hs = feeds c k hs"
proof -
  obtain rows where rows: "gc_grid kind c = Some rows" "drop (gc_index kind c) rows = g # gs" using assms by (auto simp: feeds_def split: option.splits)
  then have i: "gc_index kind c < length rows" by (metis drop_all list.distinct(1) not_le_imp_less)
  then have "rows ! gc_index kind c = g" "drop (Suc (gc_index kind c)) rows = gs" using rows(2) by (simp_all add: Cons_nth_drop_Suc[symmetric])
  then show "cursor_take kind c = (Inr g, gc_bump kind c)" "feeds (gc_bump kind c) kind gs"
    using rows(1) i by (simp_all add: cursor_take_def feeds_def bnd_def thn_def gets_def chk_def ret_def upd_def)
  show "k \<noteq> kind \<Longrightarrow> feeds (gc_bump kind c) k hs = feeds c k hs" by (cases "gc_grid k c") (simp_all add: feeds_def)
qed

fun span_parts :: "int \<Rightarrow> int \<Rightarrow> rope_span list \<Rightarrow> position list list" where
  "span_parts merge start [] = []"
| "span_parts merge start ((txt, kind, g) # spans) =
     [text_positions (length txt) start, visual_positions (merged_of merge g) (start + int (length txt))] @
     span_parts merge (start + int (length txt) + triple_max (merged_of merge g)) spans"

fun spans_end :: "int \<Rightarrow> int \<Rightarrow> rope_span list \<Rightarrow> int" where
  "spans_end merge start [] = start"
| "spans_end merge start ((txt, kind, g) # spans) = spans_end merge (start + int (length txt) + triple_max (merged_of merge g)) spans"

lemma layout_split:
  "layout_of merge start spans last_text = concat (span_parts merge start spans) @ text_positions (length last_text) (spans_end merge start spans)"
  "layout_end merge start spans last_text = spans_end merge start spans + int (length last_text)"
  by (induction merge start spans rule: spans_end.induct) simp_all

lemma append_span:
  assumes "next_position_start parts = Inr s" and "grid_ok merge g"
  shows "append_visual_positions n (merged_of merge g) parts = Inr (parts @ [text_positions n s, visual_positions (merged_of merge g) (s + int n)])"
    "next_position_start (parts @ [text_positions n s, visual_positions (merged_of merge g) (s + int n)]) = Inr (s + int n + triple_max (merged_of merge g))"
  using assms positions_max_visual[OF assms(2), of "s + int n"] by (simp_all add: append_visual_positions_def next_position_start_def)

lemma span_loop_result:
  assumes st: "special_ok st" and ok: "prompt_ok st merge spans last_text" and start: "next_position_start parts = Inr s"
    and fed: "feeds c Image_span (grids_of Image_span spans @ ri)" "feeds c Video_span (grids_of Video_span spans @ rv)"
  shows "\<exists>c'. span_loop st merge (pre @ prompt_of st merge spans last_text) (length spans) (length (grids_of Image_span spans), length (grids_of Video_span spans)) (length pre) parts c =
      (Inr (length pre + length (prompt_of st merge spans []), parts @ span_parts merge s spans), c') \<and>
    next_position_start (parts @ span_parts merge s spans) = Inr (spans_end merge s spans) \<and> feeds c' Image_span ri \<and> feeds c' Video_span rv"
  using ok start fed
proof (induction spans arbitrary: pre parts s c)
  case Nil
  then show ?case by (simp add: ret_def)
next
  case (Cons a spans)
  obtain ts k g where a: "a = (ts, k, g)" by (cases a)
  let ?n = "grid_token_count (merged_of merge g)" and ?tok = "token_of st k" and ?rest = "prompt_of st merge spans last_text"
  have ok: "prompt_ok st merge spans last_text" "list_all (span_ok st merge) spans" "plain_text st ts" "grid_ok merge g"
    using Cons.prems(1) by (auto simp: prompt_ok_def a span_ok_def)
  have seen: "grids_of kind spans \<noteq> [] \<Longrightarrow> token_of st kind \<in> set ?rest" for kind by (rule token_in_prompt[OF ok(2)])
  let ?images = "length (grids_of Image_span (a # spans))" and ?videos = "length (grids_of Video_span (a # spans))"
  have pop: "pop_next st (pre @ prompt_of st merge (a # spans) last_text) (length pre) (?images, ?videos) =
      Inr (k, length pre + length ts, length (grids_of Image_span spans), length (grids_of Video_span spans))"
    using pop_next_span[OF st ok(3) grid_count_pos[OF ok(4)], where kind = k and images = ?images and videos = ?videos and post = ?rest and pre = pre] seen[of Image_span] seen[of Video_span]
    by (cases k) (simp_all add: a token_of_def)
  have "feeds c k (g # grids_of k spans @ (case k of Image_span \<Rightarrow> ri | Video_span \<Rightarrow> rv))" using Cons.prems(3,4) by (cases k) (simp_all add: a)
  note took = take_fed[OF this]
  let ?c = "gc_bump k c"
  have fed': "feeds ?c Image_span (grids_of Image_span spans @ ri)" "feeds ?c Video_span (grids_of Video_span spans @ rv)"
    using took(2,3) Cons.prems(3,4) by (cases k; simp add: a)+
  note parts = append_span[OF Cons.prems(2) ok(4), of "length ts"]
  let ?pre = "pre @ ts @ replicate ?n ?tok"
  obtain c' where c': "span_loop st merge (?pre @ ?rest) (length spans) (length (grids_of Image_span spans), length (grids_of Video_span spans)) (length ?pre)
        (parts @ [text_positions (length ts) s, visual_positions (merged_of merge g) (s + int (length ts))]) ?c =
      (Inr (length ?pre + length (prompt_of st merge spans []), (parts @ [text_positions (length ts) s, visual_positions (merged_of merge g) (s + int (length ts))]) @
         span_parts merge (s + int (length ts) + triple_max (merged_of merge g)) spans), c')"
    "next_position_start ((parts @ [text_positions (length ts) s, visual_positions (merged_of merge g) (s + int (length ts))]) @
       span_parts merge (s + int (length ts) + triple_max (merged_of merge g)) spans) = Inr (spans_end merge (s + int (length ts) + triple_max (merged_of merge g)) spans)"
    "feeds c' Image_span ri" "feeds c' Video_span rv"
    using Cons.IH[OF ok(1) parts(2) fed', of ?pre] by blast
  have "span_loop st merge (pre @ prompt_of st merge (a # spans) last_text) (length (a # spans)) (?images, ?videos) (length pre) parts c =
    span_loop st merge (?pre @ ?rest) (length spans) (length (grids_of Image_span spans), length (grids_of Video_span spans)) (length ?pre)
        (parts @ [text_positions (length ts) s, visual_positions (merged_of merge g) (s + int (length ts))]) ?c"
    using pop took(1) grid_ok_merged[OF ok(4)] parts(1) by (simp add: a bnd_def lift_res_def add.assoc)
  then show ?case using c' by (intro exI[of _ c']) (simp add: a add.assoc)
qed

section \<open>A whole prompt\<close>

lemma prompt_split: "prompt_of st merge spans last_text = prompt_of st merge spans [] @ last_text"
  by (induction st merge spans last_text rule: prompt_of.induct) simp_all

lemma build_result:
  assumes st: "special_ok st" and ok: "prompt_ok st merge spans last_text" and some: "prompt_of st merge spans last_text \<noteq> []"
    and fed: "feeds c Image_span (grids_of Image_span spans @ ri)" "feeds c Video_span (grids_of Video_span spans @ rv)"
  shows "\<exists>c'. build_sequence_positions st merge (prompt_of st merge spans last_text) c = (Inr (layout_of merge 0 spans last_text), c') \<and>
    feeds c' Image_span ri \<and> feeds c' Video_span rv"
proof -
  have n: "length (grids_of Image_span spans) + length (grids_of Video_span spans) = length spans"
  proof (induction spans)
    case (Cons a spans)
    then show ?case by (cases a; cases "fst (snd a)") simp_all
  qed simp
  have "next_position_start [] = Inr 0" by (simp add: next_position_start_def)
  from span_loop_result[OF st ok this fed, of "[]"] obtain c' where c':
    "span_loop st merge (prompt_of st merge spans last_text) (length spans) (length (grids_of Image_span spans), length (grids_of Video_span spans)) 0 [] c =
      (Inr (length (prompt_of st merge spans []), span_parts merge 0 spans), c')"
    "next_position_start (span_parts merge 0 spans) = Inr (spans_end merge 0 spans)" "feeds c' Image_span ri" "feeds c' Video_span rv"
    by auto
  have len: "length (prompt_of st merge spans last_text) = length (prompt_of st merge spans []) + length last_text"
    by (subst prompt_split) simp
  obtain parts where parts: "append_trailing_text (length (prompt_of st merge spans [])) (length (prompt_of st merge spans last_text)) (span_parts merge 0 spans) = Inr parts"
      "concat parts = layout_of merge 0 spans last_text" "parts \<noteq> []"
  proof (cases "last_text = []")
    case True
    have "spans \<noteq> []" using some True by auto
    then have "span_parts merge 0 spans \<noteq> []" by (cases spans; cases "hd spans") auto
    then show ?thesis using that[of "span_parts merge 0 spans"] True len by (simp add: append_trailing_text_def layout_split(1) text_positions_def)
  next
    case False
    then show ?thesis using that[of "span_parts merge 0 spans @ [text_positions (length last_text) (spans_end merge 0 spans)]"] len c'(2)
      by (simp add: append_trailing_text_def layout_split(1))
  qed
  show ?thesis using span_counts[OF st ok some] n c' parts
    by (intro exI[of _ c']) (simp add: build_sequence_positions_def bnd_def lift_res_def thn_def chk_def ret_def)
qed

lemma layout_length: "list_all (span_ok st merge) spans \<Longrightarrow> length (layout_of merge s spans last_text) = length (prompt_of st merge spans last_text)"
  by (induction merge s spans last_text rule: layout_of.induct) (auto simp: span_ok_def grid_count_length)

lemma merged_max_pos: "grid_ok merge g \<Longrightarrow> 0 < triple_max (merged_of merge g)"
  using merged_positive[of merge g] by (cases "merged_of merge g") (simp add: triple_max_def less_max_iff_disj)

lemma positions_max_bound: "positions_max ps = Inr m \<Longrightarrow> p \<in> set ps \<Longrightarrow> triple_max p \<le> m"
  by (auto simp: positions_max_def res_simps)

lemma positions_max_mem: "positions_max ps = Inr m \<Longrightarrow> \<exists>p \<in> set ps. triple_max p = m"
proof -
  assume "positions_max ps = Inr m"
  then have "set (map triple_max ps) \<noteq> {}" "m = Max (set (map triple_max ps))" by (auto simp: positions_max_def res_simps)
  then have "m \<in> set (map triple_max ps)" using Max_in[of "set (map triple_max ps)"] by simp
  then show ?thesis by auto
qed

lemma positions_maxI: "\<exists>p \<in> set ps. triple_max p = m \<Longrightarrow> (\<And>p. p \<in> set ps \<Longrightarrow> triple_max p \<le> m) \<Longrightarrow> positions_max ps = Inr m"
proof -
  assume a: "\<exists>p \<in> set ps. triple_max p = m" "\<And>p. p \<in> set ps \<Longrightarrow> triple_max p \<le> m"
  have "Max (set (map triple_max ps)) = m" by (rule Max_eqI) (use a in auto)
  moreover have "ps \<noteq> []" using a(1) by auto
  ultimately show ?thesis by (simp add: positions_max_def)
qed

lemma text_below: "p \<in> set (text_positions n s) \<Longrightarrow> triple_max p < s + int n"
  by (auto simp: text_positions_def triple_max_def)

lemma layout_end_ge: "list_all (span_ok st merge) spans \<Longrightarrow> s \<le> layout_end merge s spans last_text"
proof (induction spans arbitrary: s)
  case (Cons a spans)
  obtain ts k g where a: "a = (ts, k, g)" by (cases a)
  have "grid_ok merge g" using Cons.prems by (simp add: a span_ok_def)
  then show ?case using Cons merged_max_pos[of merge g] by (simp add: a) (meson add_increasing2 dual_order.trans less_imp_le of_nat_0_le_iff order_refl)
qed simp

lemma layout_max:
  assumes "list_all (span_ok st merge) spans" and "prompt_of st merge spans last_text \<noteq> []"
  shows "positions_max (layout_of merge s spans last_text) = Inr (layout_end merge s spans last_text - 1)"
  using assms
proof (induction spans arbitrary: s)
  case Nil
  then show ?case by (simp add: positions_max_text)
next
  case (Cons a spans)
  obtain ts k g where a: "a = (ts, k, g)" by (cases a)
  have g: "grid_ok merge g" and ok: "list_all (span_ok st merge) spans" using Cons.prems by (simp_all add: a span_ok_def)
  let ?s = "s + int (length ts)" and ?m = "triple_max (merged_of merge g)"
  let ?rest = "layout_of merge (?s + ?m) spans last_text" and ?e = "layout_end merge (?s + ?m) spans last_text"
  note v = positions_max_visual[OF g, of ?s]
  have e: "?s + ?m \<le> ?e" by (rule layout_end_ge[OF ok])
  have m: "0 < ?m" by (rule merged_max_pos[OF g])
  have rest: "?rest = [] \<and> ?e = ?s + ?m \<or> positions_max ?rest = Inr (?e - 1)"
  proof (cases "prompt_of st merge spans last_text = []")
    case True
    then have "spans = []" "last_text = []" using ok by (cases spans; cases "hd spans"; auto simp: span_ok_def)+
    then show ?thesis by (simp add: text_positions_def)
  qed (use Cons.IH[OF ok] in blast)
  have "positions_max (layout_of merge s (a # spans) last_text) = Inr (?e - 1)"
  proof (rule positions_maxI)
    show "\<exists>p \<in> set (layout_of merge s (a # spans) last_text). triple_max p = ?e - 1"
      using rest positions_max_mem[OF v] positions_max_mem[of ?rest "?e - 1"] by (auto simp: a)
    fix p assume "p \<in> set (layout_of merge s (a # spans) last_text)"
    then consider "p \<in> set (text_positions (length ts) s)" | "p \<in> set (visual_positions (merged_of merge g) ?s)" | "p \<in> set ?rest" by (auto simp: a)
    then show "triple_max p \<le> ?e - 1"
    proof cases
      case 1
      then show ?thesis using text_below e m by fastforce
    next
      case 2
      then show ?thesis using positions_max_bound[OF v] e by fastforce
    next
      case 3
      then have "positions_max ?rest = Inr (?e - 1)" using rest by auto
      then show ?thesis using positions_max_bound 3 by blast
    qed
  qed
  then show ?case by (simp add: a)
qed

section \<open>A batch of prompts\<close>

type_synonym prompt = "rope_span list \<times> int list"

lemma all_active: "map fst (filter snd (zip ids (map (\<lambda>m. m = 1) (map (\<lambda>_. 1 :: int) ids)))) = ids"
  by (induction ids) simp_all

lemma scatter_all: "length ps = length ids \<Longrightarrow> scatter (map (\<lambda>m. m = 1) (map (\<lambda>_. 1 :: int) ids)) ps = ps"
proof (induction ids arbitrary: ps)
  case (Cons i ids)
  then show ?case by (cases ps) simp_all
qed simp

lemma count_active: "length (filter id (map (\<lambda>m. m = 1) (map (\<lambda>_. 1 :: int) ids))) = length ids"
  by (induction ids) simp_all

definition row_of_prompt :: "special_tokens \<Rightarrow> int \<Rightarrow> prompt \<Rightarrow> position list \<times> int" where
  "row_of_prompt st merge = (\<lambda>(spans, last_text). (layout_of merge 0 spans last_text, layout_end merge 0 spans last_text - int (length (prompt_of st merge spans last_text))))"

definition ids_of_prompt :: "special_tokens \<Rightarrow> int \<Rightarrow> prompt \<Rightarrow> int list" where
  "ids_of_prompt st merge = (\<lambda>(spans, last_text). prompt_of st merge spans last_text)"

definition prompts_grids :: "visual_kind \<Rightarrow> prompt list \<Rightarrow> patch_grid list" where
  "prompts_grids kind ps = concat (map (\<lambda>(spans, last_text). grids_of kind spans) ps)"

lemma rows_result:
  assumes "special_ok st" and "\<forall>(spans, last_text) \<in> set ps. prompt_ok st merge spans last_text \<and> prompt_of st merge spans last_text \<noteq> []"
    and "feeds c Image_span (prompts_grids Image_span ps)" and "feeds c Video_span (prompts_grids Video_span ps)"
  shows "\<exists>c'. visual_rows st merge (map (\<lambda>ids. (ids, map (\<lambda>_. 1) ids)) (map (ids_of_prompt st merge) ps)) c = (Inr (map (row_of_prompt st merge) ps), c') \<and>
    feeds c' Image_span [] \<and> feeds c' Video_span []"
  using assms(2-4)
proof (induction ps arbitrary: c)
  case Nil
  then show ?case by (simp add: prompts_grids_def ret_def)
next
  case (Cons p ps)
  obtain spans last_text where p: "p = (spans, last_text)" by (cases p)
  let ?ids = "prompt_of st merge spans last_text"
  have ok: "prompt_ok st merge spans last_text" "?ids \<noteq> []" "list_all (span_ok st merge) spans" using Cons.prems(1) by (auto simp: p prompt_ok_def)
  have "feeds c Image_span (grids_of Image_span spans @ prompts_grids Image_span ps)" "feeds c Video_span (grids_of Video_span spans @ prompts_grids Video_span ps)"
    using Cons.prems(2,3) by (simp_all add: p prompts_grids_def)
  from build_result[OF assms(1) ok(1,2) this] obtain c1 where c1:
    "build_sequence_positions st merge ?ids c = (Inr (layout_of merge 0 spans last_text), c1)"
    "feeds c1 Image_span (prompts_grids Image_span ps)" "feeds c1 Video_span (prompts_grids Video_span ps)" by blast
  obtain c2 where c2: "visual_rows st merge (map (\<lambda>ids. (ids, map (\<lambda>_. 1) ids)) (map (ids_of_prompt st merge) ps)) c1 = (Inr (map (row_of_prompt st merge) ps), c2)"
    "feeds c2 Image_span []" "feeds c2 Video_span []" using Cons.IH[OF _ c1(2,3)] Cons.prems(1) by auto
  have len: "length (layout_of merge 0 spans last_text) = length ?ids" by (rule layout_length[OF ok(3)])
  have "visual_rows st merge (map (\<lambda>ids. (ids, map (\<lambda>_. 1) ids)) (map (ids_of_prompt st merge) (p # ps))) c = (Inr (map (row_of_prompt st merge) (p # ps)), c2)"
    using c1(1) c2(1) len layout_max[OF ok(3,2), of 0] all_active[of ?ids] scatter_all[OF len] count_active[of ?ids]
    by (simp add: p ids_of_prompt_def row_of_prompt_def Let_def bnd_def lift_res_def thn_def chk_def ret_def)
  then show ?case using c2(2,3) by blast
qed

text \<open>The arguments hold exactly the grids of the prompts, in order; a video gives one grid per frame.\<close>

definition grids_given :: "prompt list \<Rightarrow> patch_grid list option \<Rightarrow> patch_grid list option \<Rightarrow> bool" where
  "grids_given ps images videos \<longleftrightarrow> (images \<noteq> None \<or> videos \<noteq> None) \<and>
     (case images of None \<Rightarrow> prompts_grids Image_span ps = [] | Some rows \<Rightarrow> rows = prompts_grids Image_span ps) \<and>
     (case videos of None \<Rightarrow> prompts_grids Video_span ps = [] | Some rows \<Rightarrow> frame_grids rows = Inr (prompts_grids Video_span ps))"

lemma feeds_end: "feeds c kind [] \<Longrightarrow> ensure_kind_exhausted (gc_grid kind c) (gc_index kind c) = Inr ()"
  by (auto simp: feeds_def ensure_kind_exhausted_def split: option.splits)

lemma rope_rows:
  assumes "0 < merge" and "0 \<le> st_image st" and "0 \<le> st_video st" and "0 \<le> st_start st" and "special_ok st" and "ps \<noteq> []"
    and "\<forall>(spans, last_text) \<in> set ps. prompt_ok st merge spans last_text \<and> prompt_of st merge spans last_text \<noteq> []" and "grids_given ps images videos"
  shows "get_rope_index st merge (map (ids_of_prompt st merge) ps) images videos None = Inr (map (row_of_prompt st merge) ps)"
proof -
  obtain frames where frames: "(case videos of None \<Rightarrow> Inr None | Some v \<Rightarrow> bind_res (frame_grids v) (\<lambda>f. Inr (Some f))) = Inr frames"
    "case frames of None \<Rightarrow> prompts_grids Video_span ps = [] | Some rows \<Rightarrow> rows = prompts_grids Video_span ps"
    using assms(8) by (cases videos) (auto simp: grids_given_def)
  let ?c = "\<lparr>gc_images = images, gc_videos = frames, gc_image_index = 0, gc_video_index = 0\<rparr>"
  have fed: "feeds ?c Image_span (prompts_grids Image_span ps)" "feeds ?c Video_span (prompts_grids Video_span ps)"
    using assms(8) frames(2) by (auto simp: feeds_def gc_grid_def gc_index_def grids_given_def split: option.splits)
  obtain c' where c': "visual_rows st merge (map (\<lambda>ids. (ids, map (\<lambda>_. 1) ids)) (map (ids_of_prompt st merge) ps)) ?c = (Inr (map (row_of_prompt st merge) ps), c')"
    "feeds c' Image_span []" "feeds c' Video_span []" using rows_result[OF assms(5,7) fed] by blast
  have "ensure_exhausted c' = Inr ()" using feeds_end[OF c'(2)] feeds_end[OF c'(3)] by (simp add: ensure_exhausted_def gc_grid_def gc_index_def)
  moreover have "zip (map (ids_of_prompt st merge) ps) (map (map (\<lambda>_. 1 :: int)) (map (ids_of_prompt st merge) ps)) =
      map (\<lambda>ids. (ids, map (\<lambda>_. 1) ids)) (map (ids_of_prompt st merge) ps)" by (induction ps) simp_all
  ultimately have "visual_rope_index st merge (map (ids_of_prompt st merge) ps) images frames None = Inr (map (row_of_prompt st merge) ps)"
    using c'(1) assms(6) by (simp add: visual_rope_index_def Let_def bnd_def gets_def thn_def lift_res_def chk_def ret_def)
  moreover have "\<not> (images = None \<and> videos = None)" using assms(8) by (simp add: grids_given_def)
  ultimately show ?thesis using assms(1-5) frames(1) by (auto simp: get_rope_index_def special_ok_def)
qed

text \<open>C12: for a batch of well-formed prompts, each a sequence of texts and announced pictures, the three-axis positions
  are those of their layout: text counts on, rows and columns of a picture count from its start, and what follows a
  picture starts behind its largest position; the delta is the next free position less the number of tokens.\<close>

theorem rope_positions_exact:
  assumes "0 < merge" and "0 \<le> st_image st" and "0 \<le> st_video st" and "0 \<le> st_start st" and "special_ok st" and "ps \<noteq> []"
    and "\<forall>(spans, last_text) \<in> set ps. prompt_ok st merge spans last_text \<and> prompt_of st merge spans last_text \<noteq> []" and "grids_given ps images videos"
  shows "get_rope_index st merge (map (ids_of_prompt st merge) ps) images videos None =
    Inr (map (\<lambda>(spans, last_text). (layout_of merge 0 spans last_text, layout_end merge 0 spans last_text - int (length (prompt_of st merge spans last_text)))) ps)"
  using rope_rows[OF assms] by (simp add: row_of_prompt_def[abs_def])

definition example_special :: special_tokens where
  "example_special = \<lparr>st_image = 7, st_video = 8, st_start = 9\<rparr>"

definition example_prompt :: prompt where
  "example_prompt = ([([1, 9], Image_span, (1, 4, 6)), ([2, 9], Video_span, (1, 2, 2))], [3, 4])"

lemma example_prompt_ok: "special_ok example_special" "prompt_ok example_special 2 (fst example_prompt) (snd example_prompt)"
  "ids_of_prompt example_special 2 example_prompt = [1, 9, 7, 7, 7, 7, 7, 7, 2, 9, 8, 3, 4]" "grids_given [example_prompt] (Some [(1, 4, 6)]) (Some [(1, 2, 2)])"
  by code_simp+

theorem rope_positions_exact_witness:
  "get_rope_index example_special 2 [[1, 9, 7, 7, 7, 7, 7, 7, 2, 9, 8, 3, 4]] (Some [(1, 4, 6)]) (Some [(1, 2, 2)]) None =
    Inr [([(0, 0, 0), (1, 1, 1), (2, 2, 2), (2, 2, 3), (2, 2, 4), (2, 3, 2), (2, 3, 3), (2, 3, 4), (5, 5, 5), (6, 6, 6), (7, 7, 7), (8, 8, 8), (9, 9, 9)], -3)]"
proof -
  obtain spans last_text where e: "example_prompt = (spans, last_text)" by (cases example_prompt)
  have "layout_of 2 0 (fst example_prompt) (snd example_prompt) = [(0, 0, 0), (1, 1, 1), (2, 2, 2), (2, 2, 3), (2, 2, 4), (2, 3, 2), (2, 3, 3), (2, 3, 4), (5, 5, 5), (6, 6, 6), (7, 7, 7), (8, 8, 8), (9, 9, 9)]"
    "layout_end 2 0 (fst example_prompt) (snd example_prompt) = 10" "length (prompt_of example_special 2 (fst example_prompt) (snd example_prompt)) = 13"
    "0 \<le> st_image example_special" "0 \<le> st_video example_special" "0 \<le> st_start example_special"
    "prompt_of example_special 2 (fst example_prompt) (snd example_prompt) \<noteq> []" by code_simp+
  then show ?thesis using rope_positions_exact[of 2 example_special "[example_prompt]" "Some [(1, 4, 6)]" "Some [(1, 2, 2)]"] example_prompt_ok
    by (auto simp: e)
qed

end
