(* ===== verification/Rope_Decode.thy ===== *)
theory Rope_Decode imports Rope_Index Input_Preparation begin

text \<open>The position ids of the prompt and those of the generated tokens fit together.\<close>

lemma layout_below:
  assumes "prompt_ok st merge spans last_text" and "p \<in> set (layout_of merge 0 spans last_text)"
  shows "triple_max p < layout_end merge 0 spans last_text"
proof -
  have ok: "list_all (span_ok st merge) spans" using assms(1) by (simp add: prompt_ok_def)
  have "layout_of merge 0 spans last_text \<noteq> []" using assms(2) by auto
  then have "prompt_of st merge spans last_text \<noteq> []" using layout_length[OF ok, of 0 last_text] by fastforce
  from positions_max_bound[OF layout_max[OF ok this] assms(2)] show ?thesis by simp
qed

text \<open>C13: when a request carries the delta computed for its prompt, its \<open>j\<close>-th generated token is decoded at the
  position \<open>j\<close> places behind the next free position of the prompt on all axes, above every prompt position.\<close>

theorem decode_positions_continue:
  assumes "0 < merge" and "0 \<le> st_image st" and "0 \<le> st_video st" and "0 \<le> st_start st" and "special_ok st"
    and "prompt_ok st merge spans last_text" and "prompt_of st merge spans last_text \<noteq> []" and "grids_given [(spans, last_text)] images videos"
    and "get_rope_index st merge [prompt_of st merge spans last_text] images videos None = Inr [(positions, d)]"
    and "sq_rope_delta s = Some [d]" and "sq_num_tokens s = length (prompt_of st merge spans last_text) + j + 1" and "0 < sq_physical_last_block_num_tokens s"
  shows "decode_positions True [s] = Inr [layout_end merge 0 spans last_text + int j] \<and>
    (\<forall>p \<in> set positions. triple_max p < layout_end merge 0 spans last_text)"
proof -
  have "get_rope_index st merge [prompt_of st merge spans last_text] images videos None =
      Inr [(layout_of merge 0 spans last_text, layout_end merge 0 spans last_text - int (length (prompt_of st merge spans last_text)))]"
    using rope_rows[OF assms(1-5) _ _ assms(8)] assms(6,7) by (simp add: ids_of_prompt_def row_of_prompt_def)
  then have "positions = layout_of merge 0 spans last_text" "d = layout_end merge 0 spans last_text - int (length (prompt_of st merge spans last_text))"
    using assms(9) by simp_all
  then show ?thesis using assms(10-12) layout_below[OF assms(6)] by (simp add: rope_offset_def)
qed

definition example_decoding :: sequence where
  "example_decoding = (hd example_batch)\<lparr>sq_rope_delta := Some [-3], sq_num_tokens := 15, sq_block_table := [2, 0, 1, 3]\<rparr>"

theorem decode_positions_continue_witness:
  "decode_positions True [example_decoding] = Inr [11]"
proof -
  obtain spans last_text where e: "example_prompt = (spans, last_text)" by (cases example_prompt)
  have "length (prompt_of example_special 2 (fst example_prompt) (snd example_prompt)) = 13" "layout_end 2 0 (fst example_prompt) (snd example_prompt) = 10"
    "0 \<le> st_image example_special" "0 \<le> st_video example_special" "0 \<le> st_start example_special" "sq_rope_delta example_decoding = Some [-3]"
    "sq_num_tokens example_decoding = 15" "0 < sq_physical_last_block_num_tokens example_decoding"
    "prompt_of example_special 2 (fst example_prompt) (snd example_prompt) \<noteq> []"
    by code_simp+
  moreover obtain ps where "get_rope_index example_special 2 [prompt_of example_special 2 spans last_text] (Some [(1, 4, 6)]) (Some [(1, 2, 2)]) None = Inr [(ps, -3)]"
    using rope_rows[of 2 example_special "[example_prompt]" "Some [(1, 4, 6)]" "Some [(1, 2, 2)]"] calculation example_prompt_ok
    by (auto simp: e ids_of_prompt_def row_of_prompt_def)
  ultimately show ?thesis
    using decode_positions_continue[of 2 example_special spans last_text "Some [(1, 4, 6)]" "Some [(1, 2, 2)]" ps "-3" example_decoding 1] example_prompt_ok
    by (auto simp: e)
qed

end
