(* ===== verification/Spec2Isabelle.thy ===== *)
theory Spec2Isabelle imports Gpu_Pool Cpu_Pool Request_Lifecycle Attention_Scorer Scheduler_Properties Pruned_Attention Worker_Lockstep Rope_Decode begin

text \<open>
  Prism-Infer is an inference engine for vision-language models.  A request (\<open>engine/sequence.py\<close>) enters the
  scheduler's queues; a step of the engine asks the scheduler for a batch, the block manager finds pages of the
  key/value cache for it, the executor moves pages and runs the model on every rank, and the results go back to
  the scheduler.  This development models the host side of that loop, the page arithmetic of the attention
  paths and the protocol between the ranks.  All paths are below \<open>src/prism_infer/\<close>.

  \<^bold>\<open>Conventions.\<close>  A method that mutates its receiver and may raise is an operation \<open>('a, 's) op\<close>
  (Prelude): it returns the exception or the value, and the state in both cases, so what was changed before a raise
  stays changed.  \<open>Transition\<close> holds the interfaces: \<open>invariant_system\<close> (a step relation whose invariant holds in
  every reachable state) and the contract of operations that share an invariant.  Integers of Python are \<open>int\<close> or, where the code
  checks the sign first, \<open>nat\<close>; floats are the rationals they denote with rounding written out (\<open>Py_Floats\<close>).
  Dictionaries whose order matters are association lists (\<open>Py_Values\<close>).  Checks of Python types that the types of
  the model rule out are left out.

  \<^bold>\<open>Pages.\<close>  \<open>Gpu_Pool\<close>, \<open>Cpu_Pool\<close>: \<open>engine/block_pool.py\<close>, reference counts, free lists, hash index.
  \<open>Block_Hash\<close>: \<open>compute_hash\<close> with its byte encodings (\<open>Bytes\<close>); xxHash is a parameter, and where it matters the
  absence of a collision among the hashed messages is a hypothesis.  \<open>Prefix_Cache\<close>, \<open>Block_Manager\<close>, \<open>Block_Transfer\<close>:
  \<open>engine/block_manager.py\<close> in its order (multimodal prefix entries and eviction; probing, allocation, copy-on-write;
  growth, publication, swapping).  \<open>Block_Safety\<close>, \<open>Block_Admission\<close>, \<open>Block_Dense\<close>, \<open>Block_System\<close>, \<open>Block_Swap\<close>,
  \<open>Block_Machine\<close>, \<open>Manager_System\<close> prove the ownership invariant of the manager with all its requests, a machine whose steps
  are the public calls, raising ones included; \<open>Manager_Properties\<close> states what follows: every reference is accounted
  for, the \<open>can_...\<close> predicates are promises that the calls keep, eviction ends and takes no page in use.  \<open>Compaction\<close>:
  \<open>engine/kv_compaction_coordinator.py\<close>.  \<open>KV_Memory\<close>: the page copies of \<open>engine/model_runner.py\<close>, \<open>ops/kv_compaction.py\<close> and
  their order in \<open>engine/executor.py\<close>, over rows per slot; \<open>KV_Properties\<close> joins manager and storage: copy-on-write,
  swapping and compaction keep every row a request can read and touch no other request.

  \<^bold>\<open>Requests and scheduling.\<close>  \<open>Request_Lifecycle\<close>: \<open>engine/request.py\<close>.  \<open>Sequence_State\<close>, \<open>KV_Layout\<close>: \<open>engine/sequence.py\<close>,
  \<open>engine/kv_layout.py\<close>.  \<open>Batch_Plan\<close>: the validated records of \<open>engine/contracts.py\<close>.  \<open>Scheduler_Policy\<close>: the three policies of
  \<open>engine/scheduler_policy.py\<close>.  \<open>Scheduler\<close>: \<open>engine/scheduler.py\<close> over an object table of requests and the block manager
  model.  \<open>Sequence_Frame\<close>, \<open>Scheduler_Invariant\<close>, \<open>Scheduler_Steps\<close>, \<open>Scheduler_Decode\<close>, \<open>Scheduler_Machine\<close> carry the invariant of the
  queues through every call; \<open>Scheduler_Properties\<close> states the properties: queues mirror the lifecycle, plans stay within
  budgets, every scheduler call is a run of the manager's machine, overtaking is bounded, cancelling withdraws.
  The reasoning about a scheduler step is partial correctness: a step of the machine is a call that returns; the manager
  invariant also covers calls that raise.  The loops of the scheduler are bounded by the length of the queue they consume
  (\<open>admit_loop\<close>, \<open>swap_in_loop\<close>, \<open>decode_loop\<close>), each round of which takes one request away, so the bound is never the reason to stop.

  \<^bold>\<open>Visual tokens.\<close>  \<open>Visual_Pruning\<close>, \<open>Visual_Decision\<close>, \<open>Attention_Scorer\<close>: \<open>engine/visual_pruning.py\<close> (spans, retention target, selection,
  records, slot masks, and the scorer with its tensor arithmetic as a parameter).  \<open>Rope_Index\<close>: \<open>models/qwen3_vl_position.py\<close>, proved
  equal to a layout read off the structure of the prompt; \<open>Rope_Decode\<close> joins it to the positions of decoding.

  \<^bold>\<open>From batches to attention.\<close>  \<open>Input_Preparation\<close>: \<open>engine/input_preparation.py\<close>.  \<open>KV_Store\<close>: \<open>ops/kv_cache_store.py\<close>.  \<open>Paged_Gather\<close>: the
  gathers of \<open>ops/paged_attention_reference.py\<close> and \<open>ops/paged_kv_gather.py\<close>.  \<open>Paged_Plan\<close>: \<open>ops/flashinfer_paged.py\<close>.  \<open>Paged_Attention\<close>,
  \<open>Pruned_Attention\<close>: reference and fast paths of \<open>layers/attention.py\<close>.  A Triton kernel is a grid of programs that may run in any
  order; its agreement with the loop it replaces is proved for every order.  Arithmetic on elements (rounding, FP8,
  \<open>scaled_dot_product_attention\<close>, FlashInfer) is a parameter: the theorems are about which rows are read and written.

  \<^bold>\<open>Ranks.\<close>  \<open>Worker_Control\<close>: \<open>engine/tp_control.py\<close> with \<open>ModelRunner.call\<close> and \<open>loop\<close>, as interleaved steps of rank 0 and
  the workers over FIFO pipes, with workers that die and deadlines that pass at any moment.  \<open>Worker_Lockstep\<close> proves that every worker runs
  a prefix of the commands in order, that a call which returns has been run by all, and that a healthy call can always
  return.  \<open>await_loop\<close> is driven by the list of wake-ups of \<open>wait\<close>; \<open>None\<close> says that it is still waiting.

  \<^bold>\<open>Not modelled.\<close>  The network itself (\<open>models/\<close> except the position ids, \<open>vision/\<close>, most of \<open>layers/\<close> and the kernels in
  \<open>ops/\<close> that reduce floating point numbers): tensor algebra whose correctness is numerical.  The rest of \<open>engine/model_runner.py\<close>,
  \<open>engine/execution_backend.py\<close> and \<open>engine/kv_quantization.py\<close>: device memory, CUDA graphs, calls of PyTorch.  \<open>engine/llm_engine.py\<close>
  and \<open>engine/online.py\<close> wire parts together and forward.  \<open>serving/\<close>: threads and asyncio.  \<open>config.py\<close>: one check per
  option.  \<open>engine/media_preprocessing.py\<close>, \<open>engine/vl_inputs.py\<close>: third-party processors, whose results enter as token lists, grids and
  feature rows.  \<open>engine/metrics.py\<close>, \<open>observability/\<close>, \<open>analysis/\<close>: measurement and offline experiments.
\<close>

end
